(* ===== verification/Go_Prelude.thy ===== *)
theory Go_Prelude
  imports Main "HOL-Library.Word" "HOL-Library.Multiset" "HOL-Library.Product_Lexorder"
begin

text \<open>
  The shared prelude: names for the Go machine types, the parts of the Go standard library that
  several components call (\<^verbatim>\<open>sort.Search\<close>, \<^verbatim>\<open>max\<close> on \<^verbatim>\<open>uint32\<close>, sub-slices), the source
  coordinate type \<^verbatim>\<open>Point\<close>, and list lemmas used by more than one theory.

  Conventions. A \<^verbatim>\<open>uint8\<close>, \<^verbatim>\<open>uint16\<close>, \<^verbatim>\<open>uint32\<close> or \<^verbatim>\<open>uint64\<close> is a word of that width, so \<open>+\<close> and
  \<open>-\<close> wrap as in Go and \<open>of_nat\<close> is the truncating conversion. A Go \<^verbatim>\<open>int\<close> that indexes a slice
  is a \<open>nat\<close>, and an \<open>int\<close> where the code uses negative values. A Go slice or byte string is a list.
\<close>

type_synonym u8 = "8 word"
type_synonym u16 = "16 word"
type_synonym u32 = "32 word"
type_synonym u64 = "64 word"
type_synonym bytes = "u8 list"
type_synonym rune = int

named_theorems go_defs "unfolding rules of the small helper operations"
named_theorems go_bounds "length and range facts of the operations"

section \<open>Slices\<close>

definition slice :: "'a list \<Rightarrow> nat \<Rightarrow> nat \<Rightarrow> 'a list" where
  "slice xs lo hi = take (hi - lo) (drop lo xs)"

lemma slice_empty [simp]: "hi \<le> lo \<Longrightarrow> slice xs lo hi = []"
  by (simp add: slice_def)

lemma slice_whole [simp]: "slice xs 0 (length xs) = xs"
  by (simp add: slice_def)

lemma length_slice [simp]: "length (slice xs lo hi) = min hi (length xs) - lo"
  by (simp add: slice_def)

lemma slice_split:
  assumes "lo \<le> mid" "mid \<le> hi"
  shows "slice xs lo hi = slice xs lo mid @ slice xs mid hi"
proof -
  have "hi - lo = (mid - lo) + (hi - mid)" using assms by simp
  then have "take (hi - lo) (drop lo xs)
      = take (mid - lo) (drop lo xs) @ take (hi - mid) (drop (mid - lo) (drop lo xs))"
    by (simp only: take_add)
  then show ?thesis using assms by (simp add: slice_def add.commute)
qed

lemma slice_Cons:
  assumes "lo < hi" "lo < length xs"
  shows "slice xs lo hi = xs ! lo # slice xs (Suc lo) hi"
  using assms by (simp add: slice_def Cons_nth_drop_Suc [symmetric] take_Cons')

lemma slice_mid:
  assumes "lo \<le> mid" "mid < hi" "mid < length xs"
  shows "slice xs lo hi = slice xs lo mid @ xs ! mid # slice xs (Suc mid) hi"
  using slice_split [of lo mid hi xs] slice_Cons [of mid hi xs] assms by simp

lemma slice_map: "slice (map f xs) lo hi = map f (slice xs lo hi)"
  by (simp add: slice_def take_map drop_map)

lemma set_slice: "set (slice xs lo hi) = {xs ! i | i. lo \<le> i \<and> i < hi \<and> i < length xs}"
proof (intro set_eqI iffI)
  fix x assume "x \<in> set (slice xs lo hi)"
  then obtain j where "j < min hi (length xs) - lo" "slice xs lo hi ! j = x"
    by (auto simp: in_set_conv_nth)
  then show "x \<in> {xs ! i | i. lo \<le> i \<and> i < hi \<and> i < length xs}"
    by (auto simp: slice_def intro!: exI [of _ "lo + j"])
next
  fix x assume "x \<in> {xs ! i | i. lo \<le> i \<and> i < hi \<and> i < length xs}"
  then obtain i where "x = xs ! i" "lo \<le> i" "i < hi" "i < length xs" by auto
  then show "x \<in> set (slice xs lo hi)"
    by (auto simp: in_set_conv_nth slice_def intro!: exI [of _ "i - lo"])
qed

lemma in_set_slice [elim]:
  assumes "x \<in> set (slice xs lo hi)"
  obtains i where "lo \<le> i" "i < hi" "i < length xs" "x = xs ! i"
  using assms by (auto simp: set_slice)

section \<open>Binary search\<close>

text \<open>
  The loop of \<^verbatim>\<open>sort.Search\<close>: it keeps \<open>f (i-1) = false\<close> and \<open>f j = true\<close> and halves \<open>[i, j)\<close>.
\<close>

function sort_search_loop :: "(nat \<Rightarrow> bool) \<Rightarrow> nat \<Rightarrow> nat \<Rightarrow> nat" where
  "sort_search_loop f i j =
     (if i < j then
        (let h = (i + j) div 2 in
         if \<not> f h then sort_search_loop f (Suc h) j else sort_search_loop f i h)
      else i)"
  by pat_completeness auto
termination
  by (relation "measure (\<lambda>(f, i, j). j - i)") auto

declare sort_search_loop.simps [simp del]

definition sort_search :: "nat \<Rightarrow> (nat \<Rightarrow> bool) \<Rightarrow> nat" where
  "sort_search n f = sort_search_loop f 0 n"

lemma sort_search_loop_correct:
  assumes "\<And>a b. a \<le> b \<Longrightarrow> b < n \<Longrightarrow> f a \<Longrightarrow> f b"
    and "i \<le> j" "j \<le> n" "\<And>a. a < i \<Longrightarrow> \<not> f a" "j < n \<Longrightarrow> f j"
  shows "let r = sort_search_loop f i j in r \<le> n \<and> (\<forall>a<r. \<not> f a) \<and> (r < n \<longrightarrow> f r)"
  using assms
proof (induction f i j rule: sort_search_loop.induct)
  case (1 f i j)
  show ?case
  proof (cases "i < j")
    case False
    with "1.prems" have "i = j" by simp
    with "1.prems" show ?thesis by (simp add: sort_search_loop.simps [of f j j] Let_def)
  next
    case True
    let ?h = "(i + j) div 2"
    have h: "i \<le> ?h" "?h < j" using True by auto
    show ?thesis
    proof (cases "f ?h")
      case fh: True
      have "let r = sort_search_loop f i ?h in r \<le> n \<and> (\<forall>a<r. \<not> f a) \<and> (r < n \<longrightarrow> f r)"
        using "1.IH"(2) [OF True refl _ "1.prems"(1)] fh h "1.prems" by simp
      with fh True show ?thesis by (simp add: sort_search_loop.simps [of f i j] Let_def)
    next
      case fh: False
      have below: "\<not> f a" if "a < Suc ?h" for a
        using that fh h "1.prems"(1) [of a ?h] "1.prems"(3) by auto
      have "let r = sort_search_loop f (Suc ?h) j in r \<le> n \<and> (\<forall>a<r. \<not> f a) \<and> (r < n \<longrightarrow> f r)"
        using "1.IH"(1) [OF True refl _ "1.prems"(1)] fh h below "1.prems" by simp
      with fh True show ?thesis by (simp add: sort_search_loop.simps [of f i j] Let_def)
    qed
  qed
qed

text \<open>On a monotone predicate the search returns the first index that satisfies it, else \<open>n\<close>.\<close>

lemma sort_search_mono:
  assumes "\<And>a b. a \<le> b \<Longrightarrow> b < n \<Longrightarrow> f a \<Longrightarrow> f b"
  shows "sort_search n f \<le> n"
    and "a < sort_search n f \<Longrightarrow> \<not> f a"
    and "sort_search n f < n \<Longrightarrow> f (sort_search n f)"
  using sort_search_loop_correct [of n f 0 n] assms by (auto simp: sort_search_def Let_def)

lemma sort_search_eqI:
  assumes "\<And>a b. a \<le> b \<Longrightarrow> b < n \<Longrightarrow> f a \<Longrightarrow> f b"
    and "r \<le> n" "\<And>a. a < r \<Longrightarrow> \<not> f a" "r < n \<Longrightarrow> f r"
  shows "sort_search n f = r"
proof (rule linorder_cases [of "sort_search n f" r])
  assume "sort_search n f < r"
  then show ?thesis using sort_search_mono(3) [of n f] assms by force
next
  assume "r < sort_search n f"
  then show ?thesis using sort_search_mono(1,2) [of n f] assms by force
qed

text \<open>
  A sorted key list: the search for the first key that is at least (more than) a bound splits the
  list at that bound.
\<close>

lemma sorted_nth_le_iff:
  assumes "sorted xs" "sort_search (length xs) (\<lambda>i. (k::'a::linorder) \<le> xs ! i) = r"
  shows "r \<le> length xs" "i < r \<Longrightarrow> xs ! i < k" "r \<le> i \<Longrightarrow> i < length xs \<Longrightarrow> k \<le> xs ! i"
proof -
  have mono: "k \<le> xs ! b" if "a \<le> b" "b < length xs" "k \<le> xs ! a" for a b
    using that assms(1) by (meson order_trans sorted_nth_mono)
  have "sort_search (length xs) (\<lambda>i. k \<le> xs ! i) \<le> length xs"
    by (rule sort_search_mono(1)) (rule mono)
  then show "r \<le> length xs" by (simp add: assms(2))
  show "xs ! i < k" if "i < r"
    using sort_search_mono(2) [of "length xs" "\<lambda>i. k \<le> xs ! i" i] mono that
    by (simp add: assms(2) not_le)
  show "k \<le> xs ! i" if "r \<le> i" "i < length xs"
    using sort_search_mono(3) [of "length xs" "\<lambda>i. k \<le> xs ! i"] mono that
    by (metis assms(2) le_less_trans)
qed

section \<open>Word order and conversions\<close>

lemma unat_u32_less [simp]: "unat (x :: u32) < 4294967296"
  using unsigned_less [of x] by simp

lemma unat_u32_of_nat [simp]: "n < 4294967296 \<Longrightarrow> unat (of_nat n :: u32) = n"
  by (simp add: unat_of_nat)

lemma u32_of_nat_le_iff:
  "a < 4294967296 \<Longrightarrow> b < 4294967296 \<Longrightarrow> ((of_nat a :: u32) \<le> of_nat b) = (a \<le> b)"
  by (simp add: word_le_nat_alt)

lemma u32_of_nat_less_iff:
  "a < 4294967296 \<Longrightarrow> b < 4294967296 \<Longrightarrow> ((of_nat a :: u32) < of_nat b) = (a < b)"
  by (simp add: word_less_nat_alt)

lemma u32_le_max_iff: "((x::u32) \<le> max a b) = (x \<le> a \<or> x \<le> b)"
  by (simp add: le_max_iff_disj)

section \<open>Source coordinates\<close>

text \<open>\<^verbatim>\<open>Point\<close> of \<^verbatim>\<open>syntax/result.go\<close> and of \<^verbatim>\<open>internal/runtime/lexer.go\<close>: a row and a byte column.\<close>

record point =
  Row :: u32
  Column :: u32

definition zero_point :: point where
  "zero_point = \<lparr>Row = 0, Column = 0\<rparr>"

end
