(* ===== verification/Syntax_Index.thy ===== *)
theory Syntax_Index
  imports Go_Prelude
begin

text \<open>
  The snapshot index of \<^verbatim>\<open>syntax/index.go\<close> over the preorder snapshot of \<^verbatim>\<open>syntax/result.go\<close>.
  \<open>NewIndex\<close> validates a snapshot and builds the type table and the span array, sorted by start
  byte and augmented with subtree maxima; \<open>NodeAt\<close> is the pruned search; \<open>OfType\<close> is the type
  table. The lemmas show that the augmentation is the maximum end of each sub-array, that the
  pruned search equals a scan of every span, and that the scan finds the deepest node.
\<close>

section \<open>Data\<close>

text \<open>\<^verbatim>\<open>Node\<close>: one entry of a preorder snapshot; the parent of the root is -1.\<close>

record node =
  nd_Type :: string
  nd_Field :: string
  nd_Parent :: int
  nd_Named :: bool
  nd_Extra :: bool
  nd_Missing :: bool
  nd_Error :: bool
  nd_StartByte :: u32
  nd_EndByte :: u32
  nd_StartPoint :: point
  nd_EndPoint :: point

record indexedSpan =
  sp_start :: u32
  sp_end :: u32
  sp_maxEnd :: u32
  sp_node :: nat
  sp_depth :: nat

record index =
  ix_byType :: "string \<rightharpoonup> nat list"
  ix_spans :: "indexedSpan list"

datatype index_error = InvalidSnapshotNode | NodeRangeEscapesParent

section \<open>Operations\<close>

definition invalidNode :: "nat \<Rightarrow> node \<Rightarrow> bool" where
  "invalidNode i n \<longleftrightarrow>
     (nd_Type n = [] \<and> (i = 0 \<or> nd_Named n \<or> nd_Extra n \<or> nd_Missing n \<or> nd_Error n))
     \<or> nd_StartByte n > nd_EndByte n
     \<or> (i = 0 \<and> nd_Parent n \<noteq> -1)
     \<or> (i > 0 \<and> (nd_Parent n < 0 \<or> nd_Parent n \<ge> int i))"

definition type_entries :: "(string \<rightharpoonup> nat list) \<Rightarrow> string \<Rightarrow> nat list" where
  "type_entries m t = (case m t of None \<Rightarrow> [] | Some is \<Rightarrow> is)"

text \<open>
  The validation loop of \<^verbatim>\<open>NewIndex\<close>. \<open>i\<close> is the loop index, the third argument the nodes still
  to visit, \<open>spans\<close> the entries written so far.
\<close>

fun NewIndex_loop :: "node list \<Rightarrow> nat \<Rightarrow> node list \<Rightarrow> indexedSpan list \<Rightarrow> (string \<rightharpoonup> nat list)
    \<Rightarrow> index_error + (indexedSpan list \<times> (string \<rightharpoonup> nat list))" where
  "NewIndex_loop nodes i [] spans byType = Inr (spans, byType)"
| "NewIndex_loop nodes i (n # ns) spans byType =
     (if invalidNode i n then Inl InvalidSnapshotNode
      else if i > 0 \<and> (nd_StartByte n < nd_StartByte (nodes ! nat (nd_Parent n))
                       \<or> nd_EndByte n > nd_EndByte (nodes ! nat (nd_Parent n)))
      then Inl NodeRangeEscapesParent
      else NewIndex_loop nodes (Suc i) ns
             (spans @ [\<lparr>sp_start = nd_StartByte n, sp_end = nd_EndByte n, sp_maxEnd = 0, sp_node = i,
                        sp_depth = (if i > 0 then sp_depth (spans ! nat (nd_Parent n)) + 1 else 0)\<rparr>])
             (byType(nd_Type n \<mapsto> type_entries byType (nd_Type n) @ [i])))"

text \<open>
  The closure \<^verbatim>\<open>augment\<close>: it returns the maximum end of \<open>[lo, hi)\<close> and stores it in the middle
  entry. The code tests \<^verbatim>\<open>lo == hi\<close>; every call has \<open>lo \<le> hi\<close>.
\<close>

function augment :: "nat \<Rightarrow> nat \<Rightarrow> indexedSpan list \<Rightarrow> u32 \<times> indexedSpan list" where
  "augment lo hi xs =
     (if hi \<le> lo then (0, xs)
      else
        let mid = lo + (hi - lo) div 2;
            l = augment lo mid xs;
            r = augment (Suc mid) hi (snd l);
            m = max (sp_end (xs ! mid)) (max (fst l) (fst r))
        in (m, (snd r)[mid := (snd r ! mid)\<lparr>sp_maxEnd := m\<rparr>]))"
  by pat_completeness auto
termination
  by (relation "measure (\<lambda>(lo, hi, xs). hi - lo)") auto

declare augment.simps [simp del]

definition span_key :: "indexedSpan \<Rightarrow> nat \<times> nat" where
  "span_key s = (unat (sp_start s), sp_node s)"

definition NewIndex :: "node list \<Rightarrow> index_error + index" where
  "NewIndex nodes =
     (case NewIndex_loop nodes 0 nodes [] Map.empty of
        Inl e \<Rightarrow> Inl e
      | Inr (spans, byType) \<Rightarrow>
          (let sorted_spans = sort_key span_key spans
           in Inr \<lparr>ix_byType = byType,
                   ix_spans = snd (augment 0 (length sorted_spans) sorted_spans)\<rparr>))"

text \<open>\<^verbatim>\<open>OfType\<close> yields the entries one by one; the model is the whole yielded sequence.\<close>

definition OfType :: "index \<Rightarrow> string \<Rightarrow> nat list" where
  "OfType x nodeType = type_entries (ix_byType x) nodeType"

definition consider_span :: "u32 \<Rightarrow> indexedSpan \<Rightarrow> int \<times> int \<Rightarrow> int \<times> int" where
  "consider_span offset s bd =
     (if offset < sp_end s
         \<and> (int (sp_depth s) > snd bd \<or> (int (sp_depth s) = snd bd \<and> int (sp_node s) < fst bd))
      then (int (sp_node s), int (sp_depth s)) else bd)"

text \<open>The closure \<^verbatim>\<open>visit\<close> of \<^verbatim>\<open>NodeAt\<close>; \<open>bd\<close> is the pair \<^verbatim>\<open>best, depth\<close> it updates.\<close>

function visit :: "indexedSpan list \<Rightarrow> u32 \<Rightarrow> nat \<Rightarrow> nat \<Rightarrow> int \<times> int \<Rightarrow> int \<times> int" where
  "visit xs offset lo hi bd =
     (if hi \<le> lo then bd
      else
        let mid = lo + (hi - lo) div 2; s = xs ! mid in
        if sp_maxEnd s \<le> offset then bd
        else
          let bd1 = visit xs offset lo mid bd in
          if sp_start s > offset then bd1
          else visit xs offset (Suc mid) hi (consider_span offset s bd1))"
  by pat_completeness auto
termination
  by (relation "measure (\<lambda>(xs, offset, lo, hi, bd). hi - lo)") auto

declare visit.simps [simp del]

definition NodeAt :: "index \<Rightarrow> u32 \<Rightarrow> int \<times> bool" where
  "NodeAt x offset =
     (let r = visit (ix_spans x) offset 0 (length (ix_spans x)) (-1, -1)
      in (fst r, fst r \<ge> 0))"

section \<open>The snapshot contract\<close>

text \<open>
  What a valid snapshot is, and the depth of a node in it, without the index and without the test of
  the loop. An entry is sound when its parent is an earlier entry (entry 0 is the root and has
  none), its range does not end before it starts, and only an entry below the root that is neither
  named nor extra, missing or an error may have the empty type name. It is well placed when it is
  sound and its range lies inside the range of its parent.
\<close>

definition sound_entry :: "node list \<Rightarrow> nat \<Rightarrow> bool" where
  "sound_entry nodes i \<longleftrightarrow>
     (if i = 0 then nd_Parent (nodes ! i) = -1 else (\<exists>p<i. nd_Parent (nodes ! i) = int p)) \<and>
     unat (nd_StartByte (nodes ! i)) \<le> unat (nd_EndByte (nodes ! i)) \<and>
     (nd_Type (nodes ! i) \<noteq> []
      \<or> 0 < i \<and> True \<notin> {nd_Named (nodes ! i), nd_Extra (nodes ! i), nd_Missing (nodes ! i), nd_Error (nodes ! i)})"

definition inside_parent :: "node list \<Rightarrow> nat \<Rightarrow> bool" where
  "inside_parent nodes i \<longleftrightarrow>
     (\<forall>p<i. nd_Parent (nodes ! i) = int p \<longrightarrow>
        unat (nd_StartByte (nodes ! p)) \<le> unat (nd_StartByte (nodes ! i))
        \<and> unat (nd_EndByte (nodes ! i)) \<le> unat (nd_EndByte (nodes ! p)))"

definition well_placed :: "node list \<Rightarrow> nat \<Rightarrow> bool" where
  "well_placed nodes i \<longleftrightarrow> sound_entry nodes i \<and> inside_parent nodes i"

definition valid_snapshot :: "node list \<Rightarrow> bool" where
  "valid_snapshot nodes \<longleftrightarrow> (\<forall>i < length nodes. well_placed nodes i)"

function snapshot_depth :: "node list \<Rightarrow> nat \<Rightarrow> nat" where
  "snapshot_depth nodes i =
     (if i = 0 \<or> nd_Parent (nodes ! i) < 0 \<or> nd_Parent (nodes ! i) \<ge> int i then 0
      else Suc (snapshot_depth nodes (nat (nd_Parent (nodes ! i)))))"
  by pat_completeness auto
termination
  by (relation "measure snd") auto

declare snapshot_depth.simps [simp del]

definition covers :: "node list \<Rightarrow> u32 \<Rightarrow> nat \<Rightarrow> bool" where
  "covers nodes offset i \<longleftrightarrow>
     i < length nodes \<and> nd_StartByte (nodes ! i) \<le> offset \<and> offset < nd_EndByte (nodes ! i)"

section \<open>Augmentation\<close>

fun max_end :: "indexedSpan list \<Rightarrow> u32" where
  "max_end [] = 0"
| "max_end (s # ss) = max (sp_end s) (max_end ss)"

lemma max_end_append [simp]: "max_end (ss @ ts) = max (max_end ss) (max_end ts)"
  by (induction ss) (simp_all add: max.assoc)

lemma max_end_ge: "s \<in> set ss \<Longrightarrow> sp_end s \<le> max_end ss"
  by (induction ss) (auto simp: le_max_iff_disj)

text \<open>Entries compare equal up to the augmented field.\<close>

definition same_spans :: "indexedSpan list \<Rightarrow> indexedSpan list \<Rightarrow> bool" where
  "same_spans xs ys \<longleftrightarrow> map (\<lambda>s. s\<lparr>sp_maxEnd := 0\<rparr>) xs = map (\<lambda>s. s\<lparr>sp_maxEnd := 0\<rparr>) ys"

lemma same_spans_refl [simp]: "same_spans xs xs"
  by (simp add: same_spans_def)

lemma same_spans_trans: "same_spans xs ys \<Longrightarrow> same_spans ys zs \<Longrightarrow> same_spans xs zs"
  by (simp add: same_spans_def)

lemma same_spans_length: "same_spans xs ys \<Longrightarrow> length xs = length ys"
  unfolding same_spans_def by (rule map_eq_imp_length_eq)

lemma same_spans_nth:
  assumes "same_spans xs ys" "i < length xs"
  shows "sp_start (xs ! i) = sp_start (ys ! i)" "sp_end (xs ! i) = sp_end (ys ! i)"
    "sp_node (xs ! i) = sp_node (ys ! i)" "sp_depth (xs ! i) = sp_depth (ys ! i)"
proof -
  have "map (\<lambda>s. s\<lparr>sp_maxEnd := 0\<rparr>) xs ! i = map (\<lambda>s. s\<lparr>sp_maxEnd := 0\<rparr>) ys ! i"
    using assms by (simp add: same_spans_def)
  then have eq: "(xs ! i)\<lparr>sp_maxEnd := 0\<rparr> = (ys ! i)\<lparr>sp_maxEnd := 0\<rparr>"
    using assms same_spans_length [OF assms(1)] by simp
  show "sp_start (xs ! i) = sp_start (ys ! i)" "sp_end (xs ! i) = sp_end (ys ! i)"
    "sp_node (xs ! i) = sp_node (ys ! i)" "sp_depth (xs ! i) = sp_depth (ys ! i)"
    using arg_cong [OF eq, of sp_start] arg_cong [OF eq, of sp_end]
      arg_cong [OF eq, of sp_node] arg_cong [OF eq, of sp_depth] by simp_all
qed

lemma same_spans_update:
  "i < length xs \<Longrightarrow> same_spans xs (xs[i := (xs ! i)\<lparr>sp_maxEnd := m\<rparr>])"
  unfolding same_spans_def
  by (rule nth_equalityI) (auto simp: nth_list_update)

text \<open>The shape the search relies on: each middle entry carries the maximum end of its sub-array.\<close>

function augmented :: "indexedSpan list \<Rightarrow> nat \<Rightarrow> nat \<Rightarrow> bool" where
  "augmented xs lo hi =
     (if hi \<le> lo then True
      else let mid = lo + (hi - lo) div 2 in
        sp_maxEnd (xs ! mid) = max_end (slice xs lo hi)
        \<and> augmented xs lo mid \<and> augmented xs (Suc mid) hi)"
  by pat_completeness auto
termination
  by (relation "measure (\<lambda>(xs, lo, hi). hi - lo)") auto

declare augmented.simps [simp del]

lemma augmented_cong:
  assumes "length xs = length ys" "\<And>i. lo \<le> i \<Longrightarrow> i < hi \<Longrightarrow> xs ! i = ys ! i"
  shows "augmented xs lo hi = augmented ys lo hi"
  using assms
proof (induction xs lo hi rule: augmented.induct)
  case (1 xs lo hi)
  show ?case
  proof (cases "hi \<le> lo")
    case True
    then show ?thesis by (simp add: augmented.simps [of xs lo hi] augmented.simps [of ys lo hi])
  next
    case False
    let ?mid = "lo + (hi - lo) div 2"
    have "slice xs lo hi = slice ys lo hi"
      by (rule nth_equalityI) (auto simp: "1.prems"(1) slice_def "1.prems"(2))
    moreover have "augmented xs lo ?mid = augmented ys lo ?mid"
      using "1.IH"(1) [OF False refl "1.prems"(1)] "1.prems"(2) False by force
    moreover have "augmented xs (Suc ?mid) hi = augmented ys (Suc ?mid) hi"
      using "1.IH"(2) [OF False refl "1.prems"(1)] "1.prems"(2) False by force
    ultimately show ?thesis
      using False "1.prems"(2) [of ?mid]
      by (simp add: augmented.simps [of xs lo hi] augmented.simps [of ys lo hi] Let_def)
  qed
qed

lemma max_end_same_spans:
  assumes "same_spans xs ys"
  shows "max_end (slice xs lo hi) = max_end (slice ys lo hi)"
proof -
  have "max_end ss = foldr max (map sp_end ss) 0" for ss
    by (induction ss) simp_all
  moreover have "map sp_end xs = map sp_end ys"
    by (rule nth_equalityI) (simp_all add: same_spans_length [OF assms] same_spans_nth(2) [OF assms])
  then have "map sp_end (slice xs lo hi) = map sp_end (slice ys lo hi)"
    by (simp only: slice_map [symmetric])
  ultimately show ?thesis by metis
qed

lemma augment_frame:
  assumes "hi \<le> length xs"
  shows "same_spans xs (snd (augment lo hi xs)) \<and>
         (\<forall>i. i < lo \<or> hi \<le> i \<longrightarrow> snd (augment lo hi xs) ! i = xs ! i)"
  using assms
proof (induction lo hi xs rule: augment.induct)
  case (1 lo hi xs)
  show ?case
  proof (cases "hi \<le> lo")
    case True
    then show ?thesis by (simp add: augment.simps [of lo hi xs])
  next
    case False
    define mid where "mid = lo + (hi - lo) div 2"
    define xl where "xl = snd (augment lo mid xs)"
    define xr where "xr = snd (augment (Suc mid) hi xl)"
    have mid: "lo \<le> mid" "mid < hi" using False by (auto simp: mid_def)
    have l: "same_spans xs xl" "\<And>i. i < lo \<or> mid \<le> i \<Longrightarrow> xl ! i = xs ! i"
      using "1.IH"(1) [OF False refl] mid "1.prems" by (auto simp: mid_def xl_def)
    have r: "same_spans xl xr" "\<And>i. i < Suc mid \<or> hi \<le> i \<Longrightarrow> xr ! i = xl ! i"
      using "1.IH"(2) [OF False refl refl] mid "1.prems" same_spans_length [OF l(1)]
      by (auto simp: mid_def xl_def xr_def)
    define m where "m = max (sp_end (xs ! mid)) (max (fst (augment lo mid xs)) (fst (augment (Suc mid) hi xl)))"
    have eq: "snd (augment lo hi xs) = xr[mid := (xr ! mid)\<lparr>sp_maxEnd := m\<rparr>]"
      using False by (simp add: augment.simps [of lo hi xs] Let_def mid_def xl_def xr_def m_def)
    have "length xr = length xs"
      using same_spans_length [OF l(1)] same_spans_length [OF r(1)] by simp
    then have "same_spans xr (xr[mid := (xr ! mid)\<lparr>sp_maxEnd := m\<rparr>])"
      using mid "1.prems" by (intro same_spans_update) simp
    then show ?thesis
      using l r mid same_spans_trans by (auto simp: eq nth_list_update)
  qed
qed

lemmas augment_same_spans = augment_frame [THEN conjunct1]
lemmas augment_outside = augment_frame [THEN conjunct2, rule_format]

lemma augment_correct:
  assumes "hi \<le> length xs"
  shows "fst (augment lo hi xs) = max_end (slice xs lo hi) \<and> augmented (snd (augment lo hi xs)) lo hi"
  using assms
proof (induction lo hi xs rule: augment.induct)
  case (1 lo hi xs)
  show ?case
  proof (cases "hi \<le> lo")
    case True
    then show ?thesis by (simp add: augment.simps [of lo hi xs] augmented.simps [of _ lo hi])
  next
    case False
    define mid where "mid = lo + (hi - lo) div 2"
    define xl where "xl = snd (augment lo mid xs)"
    define xr where "xr = snd (augment (Suc mid) hi xl)"
    have mid: "lo \<le> mid" "mid < hi" using False by (auto simp: mid_def)
    have sl: "same_spans xs xl" using augment_same_spans mid "1.prems" by (simp add: xl_def)
    have len: "length xl = length xs" using same_spans_length [OF sl] by simp
    have sr: "same_spans xl xr" using augment_same_spans mid "1.prems" len by (simp add: xr_def)
    have lenr: "length xr = length xs" using same_spans_length [OF sr] len by simp
    have l: "fst (augment lo mid xs) = max_end (slice xs lo mid)" "augmented xl lo mid"
      using "1.IH"(1) [OF False refl] mid "1.prems" by (auto simp: mid_def xl_def)
    have r: "fst (augment (Suc mid) hi xl) = max_end (slice xl (Suc mid) hi)" "augmented xr (Suc mid) hi"
      using "1.IH"(2) [OF False refl refl] mid "1.prems" len by (auto simp: mid_def xl_def xr_def)
    define m where "m = max (sp_end (xs ! mid)) (max (fst (augment lo mid xs)) (fst (augment (Suc mid) hi xl)))"
    define zs where "zs = xr[mid := (xr ! mid)\<lparr>sp_maxEnd := m\<rparr>]"
    have eq: "augment lo hi xs = (m, zs)"
      using False by (simp add: augment.simps [of lo hi xs] Let_def mid_def xl_def xr_def m_def zs_def)
    have m: "m = max_end (slice xs lo hi)"
    proof -
      have "slice xs lo hi = slice xs lo mid @ xs ! mid # slice xs (Suc mid) hi"
        using mid "1.prems" by (intro slice_mid) auto
      moreover have "max_end (slice xl (Suc mid) hi) = max_end (slice xs (Suc mid) hi)"
        using max_end_same_spans [OF sl] by simp
      ultimately show ?thesis by (simp add: m_def l(1) r(1) max.left_commute)
    qed
    have "same_spans xs zs"
      using augment_same_spans [OF "1.prems", of lo] by (simp add: eq)
    moreover have "sp_maxEnd (zs ! mid) = m"
      using mid "1.prems" lenr by (simp add: zs_def)
    ultimately have top: "sp_maxEnd (zs ! mid) = max_end (slice zs lo hi)"
      by (simp only: m max_end_same_spans [of xs zs])
    have "augmented zs lo mid"
    proof -
      have "zs ! i = xl ! i" if "lo \<le> i" "i < mid" for i
        using that augment_outside [of hi xl i "Suc mid"] len "1.prems" by (simp add: zs_def xr_def)
      then show ?thesis
        using l(2) augmented_cong [of zs xl lo mid] lenr len by (simp add: zs_def)
    qed
    moreover have "augmented zs (Suc mid) hi"
      using r(2) augmented_cong [of zs xr "Suc mid" hi] by (simp add: zs_def)
    ultimately have "augmented zs lo hi"
      using False top by (simp add: augmented.simps [of zs lo hi] Let_def mid_def)
    then show ?thesis by (simp add: eq m)
  qed
qed

section \<open>Search\<close>

definition scan_span :: "u32 \<Rightarrow> indexedSpan \<Rightarrow> int \<times> int \<Rightarrow> int \<times> int" where
  "scan_span offset s bd = (if sp_start s \<le> offset then consider_span offset s bd else bd)"

lemma scan_skip:
  assumes "\<And>s. s \<in> set ss \<Longrightarrow> sp_end s \<le> offset \<or> offset < sp_start s"
  shows "fold (scan_span offset) ss bd = bd"
  using assms
proof (induction ss arbitrary: bd)
  case (Cons s ss)
  have "scan_span offset s bd = bd"
    using Cons.prems [of s] by (auto simp: scan_span_def consider_span_def)
  then show ?case using Cons by simp
qed simp

definition sorted_starts :: "indexedSpan list \<Rightarrow> bool" where
  "sorted_starts xs \<longleftrightarrow> (\<forall>i j. i \<le> j \<longrightarrow> j < length xs \<longrightarrow> sp_start (xs ! i) \<le> sp_start (xs ! j))"

text \<open>The pruned search considers exactly what a scan of the whole sub-array considers.\<close>

lemma visit_is_scan:
  assumes "augmented xs lo hi" "hi \<le> length xs" "sorted_starts xs"
  shows "visit xs offset lo hi bd = fold (scan_span offset) (slice xs lo hi) bd"
  using assms
proof (induction xs offset lo hi bd rule: visit.induct)
  case (1 xs offset lo hi bd)
  show ?case
  proof (cases "hi \<le> lo")
    case True
    then show ?thesis by (simp add: visit.simps [of xs offset lo hi bd])
  next
    case False
    define mid where "mid = lo + (hi - lo) div 2"
    define s where "s = xs ! mid"
    have mid: "lo \<le> mid" "mid < hi" "mid < length xs"
      using False "1.prems"(2) by (auto simp: mid_def)
    have parts: "slice xs lo hi = slice xs lo mid @ s # slice xs (Suc mid) hi"
      using mid by (simp add: slice_mid s_def)
    have aug: "sp_maxEnd s = max_end (slice xs lo hi)" "augmented xs lo mid" "augmented xs (Suc mid) hi"
      using "1.prems"(1) False by (auto simp: augmented.simps [of xs lo hi] Let_def mid_def s_def)
    show ?thesis
    proof (cases "sp_maxEnd s \<le> offset")
      case True
      then have "sp_end t \<le> offset" if "t \<in> set (slice xs lo hi)" for t
        using max_end_ge [OF that] aug(1) by simp
      then have "fold (scan_span offset) (slice xs lo hi) bd = bd"
        by (intro scan_skip) blast
      then show ?thesis
        using True False by (simp add: visit.simps [of xs offset lo hi bd] Let_def mid_def s_def)
    next
      case notpruned: False
      have left: "visit xs offset lo mid bd = fold (scan_span offset) (slice xs lo mid) bd"
        using "1.IH"(1) [OF False refl refl] notpruned aug(2) mid "1.prems"
        by (simp add: mid_def s_def)
      show ?thesis
      proof (cases "sp_start s > offset")
        case True
        have "offset < sp_start t" if "t \<in> set (s # slice xs (Suc mid) hi)" for t
        proof -
          have "s # slice xs (Suc mid) hi = slice xs mid hi"
            using mid by (simp add: slice_Cons s_def)
          with that obtain i where i: "mid \<le> i" "i < length xs" "t = xs ! i"
            by (metis in_set_slice)
          then have "sp_start s \<le> sp_start t"
            using "1.prems"(3) unfolding sorted_starts_def s_def by blast
          with True show ?thesis by (rule less_le_trans)
        qed
        then have "fold (scan_span offset) (s # slice xs (Suc mid) hi) b = b" for b
          by (intro scan_skip) blast
        then show ?thesis
          using True False notpruned left parts
          by (simp add: visit.simps [of xs offset lo hi bd] Let_def mid_def s_def)
      next
        case started: False
        have right: "visit xs offset (Suc mid) hi (consider_span offset s (visit xs offset lo mid bd))
          = fold (scan_span offset) (slice xs (Suc mid) hi) (consider_span offset s (visit xs offset lo mid bd))"
          using "1.IH"(2) [OF False refl refl _ refl] notpruned started aug(3) "1.prems"
          by (simp add: mid_def s_def)
        have "visit xs offset lo hi bd
          = visit xs offset (Suc mid) hi (consider_span offset s (visit xs offset lo mid bd))"
          using False notpruned started
          by (simp add: visit.simps [of xs offset lo hi bd] Let_def mid_def s_def)
        moreover have "scan_span offset s b = consider_span offset s b" for b
          using started by (simp add: scan_span_def not_less)
        ultimately show ?thesis using right left by (simp add: parts)
      qed
    qed
  qed
qed

text \<open>What a scan finds: the deepest covering span, the earliest among equally deep ones.\<close>

definition span_covers :: "u32 \<Rightarrow> indexedSpan \<Rightarrow> bool" where
  "span_covers offset s \<longleftrightarrow> sp_start s \<le> offset \<and> offset < sp_end s"

definition best_span :: "u32 \<Rightarrow> indexedSpan set \<Rightarrow> indexedSpan \<Rightarrow> bool" where
  "best_span offset S s \<longleftrightarrow> s \<in> S \<and> span_covers offset s \<and>
     (\<forall>t\<in>S. span_covers offset t \<longrightarrow>
        sp_depth t < sp_depth s \<or> (sp_depth t = sp_depth s \<and> sp_node s \<le> sp_node t))"

lemma scan_finds_best:
  "(fold (scan_span offset) ss (-1, -1) = (-1, -1) \<and> (\<forall>s\<in>set ss. \<not> span_covers offset s))
   \<or> (\<exists>s. best_span offset (set ss) s \<and>
        fold (scan_span offset) ss (-1, -1) = (int (sp_node s), int (sp_depth s)))"
proof (induction ss rule: rev_induct)
  case Nil
  show ?case by simp
next
  case (snoc t ss)
  let ?r = "fold (scan_span offset) ss (-1, -1)"
  have step: "fold (scan_span offset) (ss @ [t]) (-1, -1) = scan_span offset t ?r" by simp
  show ?case
  proof (cases "span_covers offset t")
    case False
    then have "scan_span offset t ?r = ?r"
      by (auto simp: scan_span_def consider_span_def span_covers_def)
    with False snoc step show ?thesis by (auto simp: best_span_def)
  next
    case True
    from snoc consider
        (none) "?r = (-1, -1)" "\<forall>s\<in>set ss. \<not> span_covers offset s"
      | (best) s where "best_span offset (set ss) s" "?r = (int (sp_node s), int (sp_depth s))"
      by blast
    then show ?thesis
    proof cases
      case none
      with True have "best_span offset (set (ss @ [t])) t"
        "scan_span offset t ?r = (int (sp_node t), int (sp_depth t))"
        by (auto simp: best_span_def scan_span_def consider_span_def span_covers_def)
      with step show ?thesis by metis
    next
      case best
      show ?thesis
      proof (cases "sp_depth t > sp_depth s \<or> (sp_depth t = sp_depth s \<and> sp_node t < sp_node s)")
        case win: True
        then have "best_span offset (set (ss @ [t])) t"
          using best(1) True by (fastforce simp: best_span_def)
        moreover have "scan_span offset t ?r = (int (sp_node t), int (sp_depth t))"
          using win True best(2) by (auto simp: scan_span_def consider_span_def span_covers_def)
        ultimately show ?thesis using step by metis
      next
        case lose: False
        then have "best_span offset (set (ss @ [t])) s"
          using best(1) by (auto simp: best_span_def)
        moreover have "scan_span offset t ?r = ?r"
          using lose best(2) by (auto simp: scan_span_def consider_span_def)
        ultimately show ?thesis using step best(2) by metis
      qed
    qed
  qed
qed

section \<open>Construction\<close>

definition span_of :: "node list \<Rightarrow> nat \<Rightarrow> indexedSpan" where
  "span_of nodes i =
     \<lparr>sp_start = nd_StartByte (nodes ! i), sp_end = nd_EndByte (nodes ! i), sp_maxEnd = 0,
      sp_node = i, sp_depth = snapshot_depth nodes i\<rparr>"

definition of_type_upto :: "node list \<Rightarrow> nat \<Rightarrow> string \<Rightarrow> nat list" where
  "of_type_upto nodes k t = filter (\<lambda>i. nd_Type (nodes ! i) = t) [0..<k]"

text \<open>The loop's two tests decide soundness and containment.\<close>

lemma invalidNode_iff: "invalidNode i (nodes ! i) \<longleftrightarrow> \<not> sound_entry nodes i"
proof -
  have parent: "(\<exists>p<i. nd_Parent (nodes ! i) = int p) \<longleftrightarrow>
      \<not> (nd_Parent (nodes ! i) < 0 \<or> nd_Parent (nodes ! i) \<ge> int i)"
    by (metis int_nat_eq not_le nat_less_iff of_nat_0_le_iff of_nat_less_iff)
  show ?thesis
    by (cases "i = 0") (auto simp: invalidNode_def sound_entry_def parent not_le word_less_nat_alt)
qed

lemma well_placed_tests:
  "well_placed nodes i \<longleftrightarrow> \<not> invalidNode i (nodes ! i) \<and>
     \<not> (i > 0 \<and> (nd_StartByte (nodes ! i) < nd_StartByte (nodes ! nat (nd_Parent (nodes ! i)))
                \<or> nd_EndByte (nodes ! i) > nd_EndByte (nodes ! nat (nd_Parent (nodes ! i)))))"
proof (cases "sound_entry nodes i \<and> i > 0")
  case True
  then obtain p where "p < i" "nd_Parent (nodes ! i) = int p" by (auto simp: sound_entry_def)
  then have "inside_parent nodes i \<longleftrightarrow> \<not> (nd_StartByte (nodes ! i) < nd_StartByte (nodes ! p)
      \<or> nd_EndByte (nodes ! i) > nd_EndByte (nodes ! p))"
    by (auto simp: inside_parent_def not_less word_le_nat_alt)
  with True \<open>nd_Parent (nodes ! i) = int p\<close> show ?thesis
    by (simp add: well_placed_def invalidNode_iff)
next
  case False
  then show ?thesis by (auto simp: well_placed_def invalidNode_iff inside_parent_def)
qed

lemma span_of_step:
  assumes "well_placed nodes i" "i < length nodes"
  shows "\<lparr>sp_start = nd_StartByte (nodes ! i), sp_end = nd_EndByte (nodes ! i), sp_maxEnd = 0, sp_node = i,
          sp_depth = (if i > 0 then sp_depth (map (span_of nodes) [0..<i] ! nat (nd_Parent (nodes ! i))) + 1
                      else 0)\<rparr> = span_of nodes i"
proof (cases "i = 0")
  case True
  then show ?thesis by (simp add: span_of_def snapshot_depth.simps [of nodes 0])
next
  case False
  then have p: "\<not> nd_Parent (nodes ! i) < 0" "nd_Parent (nodes ! i) < int i"
    using assms by (auto simp: well_placed_def sound_entry_def)
  then have "snapshot_depth nodes i = Suc (snapshot_depth nodes (nat (nd_Parent (nodes ! i))))"
    using False by (subst snapshot_depth.simps) simp
  moreover have "nat (nd_Parent (nodes ! i)) < i" using p by simp
  ultimately show ?thesis using False by (simp add: span_of_def)
qed

text \<open>
  The loop, started at \<open>i\<close> with the spans and type lists of the first \<open>i\<close> nodes, either finishes
  with those of all nodes or reports the first badly placed node.
\<close>

lemma NewIndex_loop_spec:
  assumes "i \<le> length nodes" "\<And>t. type_entries byType t = of_type_upto nodes i t"
  shows "case NewIndex_loop nodes i (drop i nodes) (map (span_of nodes) [0..<i]) byType of
      Inr r \<Rightarrow> (\<forall>j\<in>{i..<length nodes}. well_placed nodes j)
        \<and> fst r = map (span_of nodes) [0..<length nodes]
        \<and> (\<forall>t. type_entries (snd r) t = of_type_upto nodes (length nodes) t)
    | Inl e \<Rightarrow> (\<exists>j\<in>{i..<length nodes}. \<not> well_placed nodes j
        \<and> (\<forall>k\<in>{i..<j}. well_placed nodes k)
        \<and> (e = InvalidSnapshotNode \<longleftrightarrow> invalidNode j (nodes ! j)))"
  using assms
proof (induction "length nodes - i" arbitrary: i byType)
  case 0
  then show ?case by simp
next
  case (Suc d)
  then have i: "i < length nodes" by simp
  then have dr: "drop i nodes = nodes ! i # drop (Suc i) nodes"
    by (simp add: Cons_nth_drop_Suc)
  let ?n = "nodes ! i"
  show ?case
  proof (cases "well_placed nodes i")
    case False
    then show ?thesis using i dr by (auto simp: well_placed_tests not_le intro!: bexI [of _ i])
  next
    case True
    let ?bt = "byType(nd_Type ?n \<mapsto> type_entries byType (nd_Type ?n) @ [i])"
    have "type_entries ?bt t = of_type_upto nodes (Suc i) t" for t
      using Suc.prems(2) by (auto simp: type_entries_def of_type_upto_def)
    then have IH: "case NewIndex_loop nodes (Suc i) (drop (Suc i) nodes) (map (span_of nodes) [0..<Suc i]) ?bt of
      Inr r \<Rightarrow> (\<forall>j\<in>{Suc i..<length nodes}. well_placed nodes j)
        \<and> fst r = map (span_of nodes) [0..<length nodes]
        \<and> (\<forall>t. type_entries (snd r) t = of_type_upto nodes (length nodes) t)
    | Inl e \<Rightarrow> (\<exists>j\<in>{Suc i..<length nodes}. \<not> well_placed nodes j
        \<and> (\<forall>k\<in>{Suc i..<j}. well_placed nodes k)
        \<and> (e = InvalidSnapshotNode \<longleftrightarrow> invalidNode j (nodes ! j)))"
      using Suc by (intro Suc.hyps(1)) auto
    have eq: "NewIndex_loop nodes i (drop i nodes) (map (span_of nodes) [0..<i]) byType
        = NewIndex_loop nodes (Suc i) (drop (Suc i) nodes) (map (span_of nodes) [0..<Suc i]) ?bt"
      using True span_of_step [OF True i] i by (auto simp: dr well_placed_tests not_less)
    have all: "(\<forall>k\<in>{i..<j}. well_placed nodes k) = (\<forall>k\<in>{Suc i..<j}. well_placed nodes k)" for j
      using True by (metis Suc_leI Suc_leD atLeastLessThan_iff le_eq_less_or_eq)
    show ?thesis
    proof (cases "NewIndex_loop nodes (Suc i) (drop (Suc i) nodes) (map (span_of nodes) [0..<Suc i]) ?bt")
      case (Inl e)
      with IH obtain j where "j \<in> {Suc i..<length nodes}" "\<not> well_placed nodes j"
        "\<forall>k\<in>{Suc i..<j}. well_placed nodes k" "e = InvalidSnapshotNode \<longleftrightarrow> invalidNode j (nodes ! j)"
        by auto
      then show ?thesis unfolding eq Inl sum.case by (intro bexI [of _ j]) (auto simp: all)
    next
      case (Inr r)
      with IH show ?thesis unfolding eq Inr sum.case by (simp add: all)
    qed
  qed
qed

lemma NewIndex_Inr:
  assumes "NewIndex nodes = Inr x"
  shows "valid_snapshot nodes"
    and "type_entries (ix_byType x) t = of_type_upto nodes (length nodes) t"
    and "same_spans (sort_key span_key (map (span_of nodes) [0..<length nodes])) (ix_spans x)"
    and "augmented (ix_spans x) 0 (length (ix_spans x))"
proof -
  have spec: "case NewIndex_loop nodes 0 nodes [] Map.empty of
      Inr r \<Rightarrow> (\<forall>j\<in>{0..<length nodes}. well_placed nodes j)
        \<and> fst r = map (span_of nodes) [0..<length nodes]
        \<and> (\<forall>t. type_entries (snd r) t = of_type_upto nodes (length nodes) t)
    | Inl e \<Rightarrow> True"
    using NewIndex_loop_spec [of 0 nodes Map.empty]
    by (auto simp: type_entries_def of_type_upto_def split: sum.splits)
  obtain spans byType where r: "NewIndex_loop nodes 0 nodes [] Map.empty = Inr (spans, byType)"
    and x: "x = \<lparr>ix_byType = byType,
      ix_spans = snd (augment 0 (length (sort_key span_key spans)) (sort_key span_key spans))\<rparr>"
    using assms by (auto simp: NewIndex_def Let_def split: sum.splits)
  have spans: "spans = map (span_of nodes) [0..<length nodes]" using spec r by simp
  show "valid_snapshot nodes" using spec r by (simp add: valid_snapshot_def)
  show "type_entries (ix_byType x) t = of_type_upto nodes (length nodes) t" using spec r x by simp
  let ?ss = "sort_key span_key spans"
  have "same_spans ?ss (snd (augment 0 (length ?ss) ?ss))" by (rule augment_same_spans) simp
  then show same: "same_spans (sort_key span_key (map (span_of nodes) [0..<length nodes])) (ix_spans x)"
    by (simp add: x spans)
  have "augmented (snd (augment 0 (length ?ss) ?ss)) 0 (length ?ss)"
    using augment_correct [of "length ?ss" ?ss 0] by simp
  then show "augmented (ix_spans x) 0 (length (ix_spans x))"
    using same_spans_length [OF same] by (simp add: x spans)
qed

lemma NewIndex_sorted:
  assumes "NewIndex nodes = Inr x"
  shows "sorted_starts (ix_spans x)"
  unfolding sorted_starts_def
proof (intro allI impI)
  let ?ss = "sort_key span_key (map (span_of nodes) [0..<length nodes])"
  fix i j assume ij: "i \<le> j" "j < length (ix_spans x)"
  note same = NewIndex_Inr(3) [OF assms]
  have len: "length ?ss = length (ix_spans x)" by (rule same_spans_length [OF same])
  have "sorted (map span_key ?ss)" by simp
  then have "span_key (?ss ! i) \<le> span_key (?ss ! j)"
    using ij len sorted_nth_mono [of "map span_key ?ss" i j] by simp
  then have "sp_start (?ss ! i) \<le> sp_start (?ss ! j)"
    by (auto simp: span_key_def less_eq_prod_def word_le_nat_alt)
  then show "sp_start (ix_spans x ! i) \<le> sp_start (ix_spans x ! j)"
    using same_spans_nth(1) [OF same] ij len by simp
qed

text \<open>The scan over the stored spans sees every node of the snapshot exactly as \<open>span_of\<close> lists it.\<close>

lemma NewIndex_span_set:
  assumes "NewIndex nodes = Inr x"
  shows "(\<lambda>s. s\<lparr>sp_maxEnd := 0\<rparr>) ` set (ix_spans x) = span_of nodes ` {0..<length nodes}"
proof -
  let ?z = "\<lambda>s::indexedSpan. s\<lparr>sp_maxEnd := 0\<rparr>"
  have "map ?z (ix_spans x) = map ?z (sort_key span_key (map (span_of nodes) [0..<length nodes]))"
    using NewIndex_Inr(3) [OF assms] by (simp add: same_spans_def)
  then have "?z ` set (ix_spans x) = ?z ` set (map (span_of nodes) [0..<length nodes])"
    by (metis set_map set_sort)
  also have "\<dots> = span_of nodes ` {0..<length nodes}"
    by (force simp: span_of_def image_image)
  finally show ?thesis .
qed

section \<open>Properties\<close>

text \<open>
  C29. \<open>NewIndex\<close> accepts a snapshot exactly when every entry is sound (its parent is an earlier entry,
  entry 0 being the root; its range does not end before it starts; an empty type name only on an
  unflagged entry below the root) and lies inside the range of its parent; otherwise it reports the
  first offending entry, as an invalid node when the entry is not sound and as an escape when only
  its range leaves the parent's.
\<close>

theorem NewIndex_validates:
  "case NewIndex nodes of
     Inr x \<Rightarrow> valid_snapshot nodes
   | Inl e \<Rightarrow> (\<exists>j. j < length nodes \<and> \<not> well_placed nodes j \<and> list_all (well_placed nodes) [0..<j]
        \<and> e = (if sound_entry nodes j then NodeRangeEscapesParent else InvalidSnapshotNode))"
proof (cases "NewIndex nodes")
  case (Inr x)
  then show ?thesis using NewIndex_Inr(1) by simp
next
  case (Inl e)
  then have "NewIndex_loop nodes 0 nodes [] Map.empty = Inl e"
    by (auto simp: NewIndex_def Let_def split: sum.splits)
  then obtain j where "j \<in> {0..<length nodes}" "\<not> well_placed nodes j"
    "\<forall>k\<in>{0..<j}. well_placed nodes k" "e = InvalidSnapshotNode \<longleftrightarrow> invalidNode j (nodes ! j)"
    using NewIndex_loop_spec [of 0 nodes Map.empty]
    by (auto simp: type_entries_def of_type_upto_def)
  then show ?thesis unfolding Inl sum.case
    by (intro exI [of _ j]) (cases e; auto simp: list_all_iff invalidNode_iff)
qed

text \<open>
  C28. \<open>NodeAt\<close> returns the deepest node whose half-open range contains the offset, the earliest
  preorder entry among equally deep ones, and reports absence exactly when no node contains it.
\<close>

theorem NodeAt_deepest:
  assumes "NewIndex nodes = Inr x" "NodeAt x offset = (best, found)"
  shows "(found \<longleftrightarrow> (\<exists>i. covers nodes offset i)) \<and>
    (if found
     then 0 \<le> best \<and> covers nodes offset (nat best) \<and>
       (\<forall>j. covers nodes offset j \<longrightarrow>
          snapshot_depth nodes j < snapshot_depth nodes (nat best)
          \<or> (snapshot_depth nodes j = snapshot_depth nodes (nat best) \<and> nat best \<le> j))
     else best = -1)"
proof -
  let ?S = "set (ix_spans x)"
  let ?z = "\<lambda>s::indexedSpan. s\<lparr>sp_maxEnd := 0\<rparr>"
  have to_node: "\<exists>i<length nodes. ?z s = span_of nodes i" if "s \<in> ?S" for s
  proof -
    have "?z s \<in> span_of nodes ` {0..<length nodes}"
      using that by (simp add: NewIndex_span_set [OF assms(1), symmetric])
    then show ?thesis by force
  qed
  have of_node: "\<exists>s\<in>?S. ?z s = span_of nodes i" if "i < length nodes" for i
  proof -
    have "span_of nodes i \<in> ?z ` ?S" using that by (simp add: NewIndex_span_set [OF assms(1)])
    then show ?thesis by force
  qed
  have z: "sp_start s = nd_StartByte (nodes ! i) \<and> sp_end s = nd_EndByte (nodes ! i)
      \<and> sp_node s = i \<and> sp_depth s = snapshot_depth nodes i" if "?z s = span_of nodes i" for s i
    using that by (cases s) (auto simp: span_of_def)
  have cov: "span_covers offset s = covers nodes offset i" if "?z s = span_of nodes i" "i < length nodes" for s i
    using z [OF that(1)] that(2) by (simp add: span_covers_def covers_def)
  have r: "fold (scan_span offset) (ix_spans x) (-1, -1)
      = visit (ix_spans x) offset 0 (length (ix_spans x)) (-1, -1)"
    using visit_is_scan [OF NewIndex_Inr(4) [OF assms(1)] order_refl NewIndex_sorted [OF assms(1)]] by simp
  from scan_finds_best [of offset "ix_spans x"] show ?thesis
  proof
    assume none: "fold (scan_span offset) (ix_spans x) (-1, -1) = (-1, -1) \<and> (\<forall>s\<in>?S. \<not> span_covers offset s)"
    then have "\<not> covers nodes offset i" for i
      using of_node [of i] cov unfolding covers_def by blast
    then show ?thesis using none assms(2) r by (auto simp: NodeAt_def Let_def)
  next
    assume "\<exists>s. best_span offset ?S s \<and>
      fold (scan_span offset) (ix_spans x) (-1, -1) = (int (sp_node s), int (sp_depth s))"
    then obtain s where s: "best_span offset ?S s"
      and res: "fold (scan_span offset) (ix_spans x) (-1, -1) = (int (sp_node s), int (sp_depth s))" by auto
    then have sS: "s \<in> ?S" and sc: "span_covers offset s" by (auto simp: best_span_def)
    from to_node [OF sS] obtain i where i: "i < length nodes" "?z s = span_of nodes i" by auto
    have "covers nodes offset i" using cov [OF i(2) i(1)] sc by simp
    moreover have "snapshot_depth nodes j < snapshot_depth nodes i
        \<or> (snapshot_depth nodes j = snapshot_depth nodes i \<and> i \<le> j)" if "covers nodes offset j" for j
    proof -
      have j: "j < length nodes" using that by (simp add: covers_def)
      from of_node [OF j] obtain t where t: "t \<in> ?S" "?z t = span_of nodes j" by auto
      then show ?thesis
        using s cov [OF t(2) j] that z [OF t(2)] z [OF i(2)] by (auto simp: best_span_def)
    qed
    moreover have "best = int i" "found"
      using assms(2) res r z [OF i(2)] by (auto simp: NodeAt_def Let_def)
    ultimately show ?thesis by auto
  qed
qed

text \<open>A three-node snapshot used by the witnesses: a root, a child, and its empty missing sibling.\<close>

definition sample_node :: "string \<Rightarrow> int \<Rightarrow> u32 \<Rightarrow> u32 \<Rightarrow> bool \<Rightarrow> node" where
  "sample_node t p s e m = \<lparr>nd_Type = t, nd_Field = [], nd_Parent = p, nd_Named = True, nd_Extra = False,
     nd_Missing = m, nd_Error = False, nd_StartByte = s, nd_EndByte = e,
     nd_StartPoint = zero_point, nd_EndPoint = zero_point\<rparr>"

definition sample_snapshot :: "node list" where
  "sample_snapshot = [sample_node ''root'' (-1) 0 9 False, sample_node ''id'' 0 2 5 False,
     sample_node ''id'' 0 5 5 True]"

text \<open>
  \<open>OfType\<close> yields, in preorder, exactly the entries of the snapshot with the given type.
\<close>

theorem OfType_complete:
  assumes "NewIndex nodes = Inr x"
  shows "OfType x t = filter (\<lambda>i. nd_Type (nodes ! i) = t) [0..<length nodes]"
  using NewIndex_Inr(2) [OF assms] by (simp add: OfType_def of_type_upto_def)

definition sample_index :: index where
  "sample_index = (case NewIndex sample_snapshot of Inr x \<Rightarrow> x | Inl _ \<Rightarrow> \<lparr>ix_byType = Map.empty, ix_spans = []\<rparr>)"

lemma sample_index: "NewIndex sample_snapshot = Inr sample_index"
proof -
  have "\<not> isl (NewIndex sample_snapshot)" by code_simp
  then show ?thesis by (cases "NewIndex sample_snapshot") (auto simp: sample_index_def)
qed

theorem NodeAt_deepest_witness:
  "NodeAt sample_index 3 = (1, True) \<and> covers sample_snapshot 3 1 \<and> covers sample_snapshot 3 0
   \<and> snapshot_depth sample_snapshot 0 < snapshot_depth sample_snapshot 1"
proof -
  have r: "NodeAt sample_index 3 = (1, True)" by code_simp
  have "covers sample_snapshot 3 0" by (simp add: covers_def sample_snapshot_def sample_node_def)
  then show ?thesis using NodeAt_deepest [OF sample_index r] r by auto
qed

theorem OfType_complete_witness: "OfType sample_index ''id'' = [1, 2]"
  unfolding OfType_complete [OF sample_index] by code_simp

end
