(* ===== verification/Utf8_Codec.thy ===== *)
theory Utf8_Codec
  imports Go_Prelude
begin

text \<open>
  The functions of Go's \<^verbatim>\<open>unicode/utf8\<close> and \<^verbatim>\<open>unicode/utf16\<close> packages that the sources call, with
  their documented results on malformed input: \<^verbatim>\<open>DecodeRune\<close> returns \<open>(RuneError, 0)\<close> on the empty
  slice and \<open>(RuneError, 1)\<close> on an invalid or truncated sequence; \<^verbatim>\<open>EncodeRune\<close> writes the encoding
  of \<^verbatim>\<open>RuneError\<close> for a rune that is not a Unicode scalar value. Bit operations on bytes are
  written with \<open>div\<close> and \<open>mod\<close>. The lemmas give the width bounds and the round trip.
\<close>

definition RuneError :: rune where
  "RuneError = 65533"

definition rune_scalar :: "rune \<Rightarrow> bool" where
  "rune_scalar r \<longleftrightarrow> 0 \<le> r \<and> r \<le> 1114111 \<and> \<not> (55296 \<le> r \<and> r \<le> 57343)"

definition continuation :: "int \<Rightarrow> bool" where
  "continuation x \<longleftrightarrow> 128 \<le> x \<and> x \<le> 191"

text \<open>The accepted range of the second byte, from the lead byte.\<close>

definition second_lo :: "int \<Rightarrow> int" where
  "second_lo x = (if x = 224 then 160 else if x = 240 then 144 else 128)"

definition second_hi :: "int \<Rightarrow> int" where
  "second_hi x = (if x = 237 then 159 else if x = 244 then 143 else 191)"

definition rune_of2 :: "int \<Rightarrow> int \<Rightarrow> rune" where
  "rune_of2 a b = (a mod 32) * 64 + b mod 64"

definition rune_of3 :: "int \<Rightarrow> int \<Rightarrow> int \<Rightarrow> rune" where
  "rune_of3 a b c = (a mod 16) * 4096 + (b mod 64) * 64 + c mod 64"

definition rune_of4 :: "int \<Rightarrow> int \<Rightarrow> int \<Rightarrow> int \<Rightarrow> rune" where
  "rune_of4 a b c d = (a mod 8) * 262144 + (b mod 64) * 4096 + (c mod 64) * 64 + d mod 64"

definition decode_rune :: "bytes \<Rightarrow> rune \<times> nat" where
  "decode_rune p =
     (case p of
        [] \<Rightarrow> (RuneError, 0)
      | b0 # rest \<Rightarrow>
          (let a = uint b0 in
           if a < 128 then (a, 1)
           else if a < 194 \<or> 244 < a then (RuneError, 1)
           else
             (case rest of
                [] \<Rightarrow> (RuneError, 1)
              | b1 # rest1 \<Rightarrow>
                  (let b = uint b1 in
                   if b < second_lo a \<or> second_hi a < b then (RuneError, 1)
                   else if a < 224 then (rune_of2 a b, 2)
                   else
                     (case rest1 of
                        [] \<Rightarrow> (RuneError, 1)
                      | b2 # rest2 \<Rightarrow>
                          (let c = uint b2 in
                           if \<not> continuation c then (RuneError, 1)
                           else if a < 240 then (rune_of3 a b c, 3)
                           else
                             (case rest2 of
                                [] \<Rightarrow> (RuneError, 1)
                              | b3 # _ \<Rightarrow>
                                  (let d = uint b3 in
                                   if \<not> continuation d then (RuneError, 1)
                                   else (rune_of4 a b c d, 4)))))))))"

definition rune_len :: "rune \<Rightarrow> nat" where
  "rune_len r = (if r < 128 then 1 else if r < 2048 then 2 else if r < 65536 then 3 else 4)"

definition byte_of :: "int \<Rightarrow> u8" where
  "byte_of x = word_of_int x"

definition encode_rune :: "rune \<Rightarrow> bytes" where
  "encode_rune r0 =
     (let r = (if rune_scalar r0 then r0 else RuneError) in
      if r < 128 then [byte_of r]
      else if r < 2048 then [byte_of (192 + r div 64), byte_of (128 + r mod 64)]
      else if r < 65536 then
        [byte_of (224 + r div 4096), byte_of (128 + r div 64 mod 64), byte_of (128 + r mod 64)]
      else
        [byte_of (240 + r div 262144), byte_of (128 + r div 4096 mod 64),
         byte_of (128 + r div 64 mod 64), byte_of (128 + r mod 64)])"

definition rune_start :: "u8 \<Rightarrow> bool" where
  "rune_start b \<longleftrightarrow> \<not> continuation (uint b)"

section \<open>Bounds\<close>

lemma decode_rune_Nil [simp]: "decode_rune [] = (RuneError, 0)"
  by (simp add: decode_rune_def)

lemma decode_rune_size_pos [go_bounds]: "p \<noteq> [] \<Longrightarrow> 0 < snd (decode_rune p)"
  by (cases p) (auto simp: decode_rune_def Let_def split: list.splits)

lemma decode_rune_size_le [go_bounds]: "snd (decode_rune p) \<le> length p"
  by (auto simp: decode_rune_def Let_def split: list.splits)

lemma decode_rune_size_le4 [go_bounds]: "snd (decode_rune p) \<le> 4"
  by (auto simp: decode_rune_def Let_def split: list.splits)

lemma decode_rune_ascii: "uint b < 128 \<Longrightarrow> decode_rune (b # p) = (uint b, 1)"
  by (simp add: decode_rune_def)

lemma decode_rune_newline:
  assumes "fst (decode_rune p) = 10"
  shows "snd (decode_rune p) = 1"
proof (cases p)
  case Nil
  with assms show ?thesis by (simp add: RuneError_def)
next
  case (Cons b0 rest)
  have r2: "rune_of2 a b \<noteq> 10" if "194 \<le> a" "a < 224" for a b :: int
  proof -
    have "a mod 32 = a - 192" using that by presburger
    then show ?thesis using that pos_mod_sign [of 64 b] by (simp add: rune_of2_def)
  qed
  have r3: "rune_of3 a b c \<noteq> 10" if "224 \<le> a" "a < 240" "second_lo a \<le> b" "b \<le> second_hi a" for a b c :: int
  proof (cases "a = 224")
    case True
    with that have "b mod 64 = b - 128" unfolding second_lo_def second_hi_def by simp presburger
    with True that show ?thesis
      using pos_mod_sign [of 64 c] by (simp add: rune_of3_def second_lo_def)
  next
    case False
    with that have "1 \<le> a mod 16" by presburger
    then show ?thesis using pos_mod_sign [of 64 b] pos_mod_sign [of 64 c] by (simp add: rune_of3_def)
  qed
  have r4: "rune_of4 a b c d \<noteq> 10" if "240 \<le> a" "a \<le> 244" "second_lo a \<le> b" "b \<le> second_hi a" for a b c d :: int
  proof (cases "a = 240")
    case True
    with that have "b mod 64 = b - 128" unfolding second_lo_def second_hi_def by simp presburger
    with True that show ?thesis
      using pos_mod_sign [of 64 c] pos_mod_sign [of 64 d] by (simp add: rune_of4_def second_lo_def)
  next
    case False
    with that have "1 \<le> a mod 8" by presburger
    then show ?thesis using pos_mod_sign [of 64 b] pos_mod_sign [of 64 c] pos_mod_sign [of 64 d]
      by (simp add: rune_of4_def)
  qed
  show ?thesis
    using assms Cons r2 r3 r4
    by (auto simp: decode_rune_def Let_def RuneError_def not_less not_le split: list.splits if_splits)
qed

section \<open>Round trip\<close>

lemma rune_len_encode: "rune_scalar r \<Longrightarrow> length (encode_rune r) = rune_len r"
  by (simp add: encode_rune_def rune_len_def)

lemma encode_rune_nonempty [simp]: "encode_rune r \<noteq> []"
  by (simp add: encode_rune_def Let_def)

lemma uint_byte: "0 \<le> x \<Longrightarrow> x < 256 \<Longrightarrow> uint (byte_of x) = x"
  by (simp add: byte_of_def uint_word_of_int)

lemma lead_and_continuation_mod:
  "0 \<le> q \<Longrightarrow> q < 32 \<Longrightarrow> (192 + q) mod 32 = (q::int)"
  "0 \<le> q \<Longrightarrow> q < 16 \<Longrightarrow> (224 + q) mod 16 = q"
  "0 \<le> q \<Longrightarrow> q < 8 \<Longrightarrow> (240 + q) mod 8 = q"
  "0 \<le> q \<Longrightarrow> q < 64 \<Longrightarrow> (128 + q) mod 64 = q"
  using mod_mult_self2 [of q 32 6] mod_mult_self2 [of q 16 14] mod_mult_self2 [of q 8 30]
    mod_mult_self2 [of q 64 2] by (simp_all add: add.commute mod_pos_pos_trivial)

text \<open>The base-64 digits of a rune.\<close>

lemma digits64:
  fixes r :: int
  shows "r = r div 4096 * 4096 + r div 64 mod 64 * 64 + r mod 64"
proof -
  have "r div 4096 = r div 64 div 64" using zdiv_zmult2_eq [of 64 r 64] by simp
  then show ?thesis using div_mult_mod_eq [of "r div 64" 64] div_mult_mod_eq [of r 64] by linarith
qed

lemma digits64_top:
  fixes r :: int
  shows "r div 4096 = r div 262144 * 64 + r div 4096 mod 64"
proof -
  have "r div 262144 = r div 4096 div 64" using zdiv_zmult2_eq [of 64 r 4096] by simp
  then show ?thesis using div_mult_mod_eq [of "r div 4096" 64] by linarith
qed

lemma decode_encode2:
  assumes "128 \<le> r" "r < 2048"
  shows "decode_rune (encode_rune r @ p) = (r, 2)"
proof -
  define q where "q = r div 64"
  define t where "t = r mod 64"
  have r: "r = q * 64 + t" unfolding q_def t_def by simp
  have m: "0 \<le> t" "t < 64" by (auto simp: t_def)
  with assms r have q: "2 \<le> q" "q < 32" by linarith+
  have "rune_of2 (192 + q) (128 + t) = r"
    using q m by (simp add: rune_of2_def lead_and_continuation_mod r)
  then show ?thesis using assms q m
    by (simp add: encode_rune_def rune_scalar_def decode_rune_def Let_def uint_byte second_lo_def
        second_hi_def q_def [symmetric] t_def [symmetric])
qed

lemma decode_encode3:
  assumes "2048 \<le> r" "r < 65536" "rune_scalar r"
  shows "decode_rune (encode_rune r @ p) = (r, 3)"
proof -
  define u where "u = r div 64 mod 64"
  define t where "t = r mod 64"
  define s where "s = r div 4096"
  have r: "r = s * 4096 + u * 64 + t"
    unfolding u_def t_def s_def by (rule digits64)
  have c: "0 \<le> u" "u < 64" "0 \<le> t" "t < 64" by (auto simp: u_def t_def)
  have b: "0 \<le> s" "s < 16" using r c assms by linarith+
  have lo: "second_lo (224 + s) \<le> 128 + u"
    using assms r c b by (auto simp: second_lo_def)
  have hi: "128 + u \<le> second_hi (224 + s)"
    using assms(3) r c b by (auto simp: second_hi_def rune_scalar_def)
  have "rune_of3 (224 + s) (128 + u) (128 + t) = r"
    using c b by (simp add: rune_of3_def lead_and_continuation_mod r)
  then show ?thesis using assms b c lo hi
    by (simp add: encode_rune_def decode_rune_def Let_def uint_byte continuation_def
        u_def [symmetric] t_def [symmetric] s_def [symmetric])
qed

lemma decode_encode4:
  assumes "65536 \<le> r" "rune_scalar r"
  shows "decode_rune (encode_rune r @ p) = (r, 4)"
proof -
  define v where "v = r div 4096 mod 64"
  define u where "u = r div 64 mod 64"
  define t where "t = r mod 64"
  define s where "s = r div 262144"
  have max: "r \<le> 1114111" using assms by (simp add: rune_scalar_def)
  have r: "r = s * 262144 + v * 4096 + u * 64 + t"
    using digits64 [of r] digits64_top [of r] unfolding v_def u_def t_def s_def by linarith
  have c: "0 \<le> v" "v < 64" "0 \<le> u" "u < 64" "0 \<le> t" "t < 64" by (auto simp: v_def u_def t_def)
  have b: "0 \<le> s" "s < 5" using r c assms max by linarith+
  have lo: "second_lo (240 + s) \<le> 128 + v"
    using assms r c b by (auto simp: second_lo_def)
  have hi: "128 + v \<le> second_hi (240 + s)"
    using max r c b by (auto simp: second_hi_def)
  have "rune_of4 (240 + s) (128 + v) (128 + u) (128 + t) = r"
    using c b by (simp add: rune_of4_def lead_and_continuation_mod r)
  then show ?thesis using assms b c lo hi
    by (simp add: encode_rune_def decode_rune_def Let_def uint_byte continuation_def
        v_def [symmetric] u_def [symmetric] t_def [symmetric] s_def [symmetric])
qed

lemma decode_encode:
  assumes "rune_scalar r"
  shows "decode_rune (encode_rune r @ p) = (r, rune_len r)"
proof -
  consider "r < 128" | "128 \<le> r" "r < 2048" | "2048 \<le> r" "r < 65536" | "65536 \<le> r" by linarith
  then show ?thesis
  proof cases
    case 1
    then show ?thesis using assms
      by (simp add: encode_rune_def decode_rune_def rune_scalar_def uint_byte rune_len_def)
  qed (use assms decode_encode2 decode_encode3 decode_encode4 in \<open>auto simp: rune_len_def\<close>)
qed

end
