(* ===== verification/Source_Tokens.thy ===== *)
theory Source_Tokens
  imports Utf8_Codec
begin

text \<open>
  The coordinate and token types every lexing component shares: \<^verbatim>\<open>Range\<close> of
  \<^verbatim>\<open>internal/runtime/tree.go\<close>, \<^verbatim>\<open>Token\<close> with its provenance flags of
  \<^verbatim>\<open>internal/runtime/lexer.go\<close>, and \<^verbatim>\<open>advancePointByBytes\<close> of
  \<^verbatim>\<open>internal/runtime/parser_result_helpers.go\<close>. The lemmas show that the bulk path of
  \<open>advancePointByBytes\<close> computes the same point as its per-byte loop and that it composes.
\<close>

unbundle bit_operations_syntax

section \<open>Data\<close>

record range =
  rg_StartByte :: u32
  rg_EndByte :: u32
  rg_StartPoint :: point
  rg_EndPoint :: point

record token =
  tk_Text :: bytes
  tk_StartByte :: u32
  tk_EndByte :: u32
  tk_StartPoint :: point
  tk_EndPoint :: point
  tk_lexerLookaheadEndByte :: u32
  tk_missingStackRef :: u32
  tk_ExternalScannerStartByte :: u32
  tk_lexerSkippedPrefixStart :: u32
  tk_Symbol :: u16
  tk_Missing :: bool
  tk_NoLookahead :: bool
  tk_ExternalScannerToken :: bool
  tk_lexFlags :: u8

text \<open>The zero value \<^verbatim>\<open>Token{}\<close>.\<close>

definition zero_token :: token where
  "zero_token = \<lparr>tk_Text = [], tk_StartByte = 0, tk_EndByte = 0, tk_StartPoint = zero_point,
     tk_EndPoint = zero_point, tk_lexerLookaheadEndByte = 0, tk_missingStackRef = 0,
     tk_ExternalScannerStartByte = 0, tk_lexerSkippedPrefixStart = 0, tk_Symbol = 0,
     tk_Missing = False, tk_NoLookahead = False, tk_ExternalScannerToken = False, tk_lexFlags = 0\<rparr>"

definition errorSymbol :: u16 where
  "errorSymbol = 65535"

section \<open>Token flags\<close>

definition tokenFlagMissingDependencyExact :: u8 where "tokenFlagMissingDependencyExact = 1"
definition tokenFlagSkippedPrefix :: u8 where "tokenFlagSkippedPrefix = 2"
definition tokenFlagErrorModeLexed :: u8 where "tokenFlagErrorModeLexed = 4"
definition tokenFlagInternalDFALexed :: u8 where "tokenFlagInternalDFALexed = 8"
definition tokenFlagKeyword :: u8 where "tokenFlagKeyword = 16"
definition tokenFlagDependsOnColumn :: u8 where "tokenFlagDependsOnColumn = 32"
definition tokenFlagErrorModeRetried :: u8 where "tokenFlagErrorModeRetried = 64"
definition tokenFlagExternalErrorFallback :: u8 where "tokenFlagExternalErrorFallback = 128"

lemmas token_flag_defs = tokenFlagMissingDependencyExact_def tokenFlagSkippedPrefix_def
  tokenFlagErrorModeLexed_def tokenFlagInternalDFALexed_def tokenFlagKeyword_def
  tokenFlagDependsOnColumn_def tokenFlagErrorModeRetried_def tokenFlagExternalErrorFallback_def

definition lexFlagIf :: "bool \<Rightarrow> u8 \<Rightarrow> u8" where
  "lexFlagIf on flag = (if on then flag else 0)"

definition setLexFlag :: "u8 \<Rightarrow> bool \<Rightarrow> token \<Rightarrow> token" where
  "setLexFlag flag on t =
     (if on then t\<lparr>tk_lexFlags := tk_lexFlags t OR flag\<rparr>
      else t\<lparr>tk_lexFlags := tk_lexFlags t AND NOT flag\<rparr>)"

definition missingDependencyExact :: "token \<Rightarrow> bool" where
  "missingDependencyExact t \<longleftrightarrow> tk_lexFlags t AND tokenFlagMissingDependencyExact \<noteq> 0"

definition lexerSkippedPrefix :: "token \<Rightarrow> bool" where
  "lexerSkippedPrefix t \<longleftrightarrow> tk_lexFlags t AND tokenFlagSkippedPrefix \<noteq> 0"

definition lexerErrorModeLexed :: "token \<Rightarrow> bool" where
  "lexerErrorModeLexed t \<longleftrightarrow> tk_lexFlags t AND tokenFlagErrorModeLexed \<noteq> 0"

definition lexerDroppedInput :: "token \<Rightarrow> bool" where
  "lexerDroppedInput t \<longleftrightarrow> \<not> tk_Missing t \<and> tk_missingStackRef t = NOT 0"

definition lexerInternalDFALexed :: "token \<Rightarrow> bool" where
  "lexerInternalDFALexed t \<longleftrightarrow> tk_lexFlags t AND tokenFlagInternalDFALexed \<noteq> 0"

definition isKeyword :: "token \<Rightarrow> bool" where
  "isKeyword t \<longleftrightarrow> tk_lexFlags t AND tokenFlagKeyword \<noteq> 0"

definition dependsOnColumn :: "token \<Rightarrow> bool" where
  "dependsOnColumn t \<longleftrightarrow> tk_lexFlags t AND tokenFlagDependsOnColumn \<noteq> 0"

definition tokenLookaheadEndByte :: "token \<Rightarrow> u32" where
  "tokenLookaheadEndByte t =
     (if tk_lexerLookaheadEndByte t > tk_EndByte t then tk_lexerLookaheadEndByte t else tk_EndByte t)"

definition maxUint32 :: "u32 \<Rightarrow> u32 \<Rightarrow> u32" where
  "maxUint32 left right = (if left \<ge> right then left else right)"

lemma maxUint32_max [simp]: "maxUint32 a b = max a b"
  by (auto simp: maxUint32_def max_def)

lemma setLexFlag_frame [simp]:
  "tk_Symbol (setLexFlag f b t) = tk_Symbol t" "tk_StartByte (setLexFlag f b t) = tk_StartByte t"
  "tk_EndByte (setLexFlag f b t) = tk_EndByte t" "tk_Text (setLexFlag f b t) = tk_Text t"
  "tk_lexerLookaheadEndByte (setLexFlag f b t) = tk_lexerLookaheadEndByte t"
  "tk_missingStackRef (setLexFlag f b t) = tk_missingStackRef t"
  "tk_StartPoint (setLexFlag f b t) = tk_StartPoint t" "tk_EndPoint (setLexFlag f b t) = tk_EndPoint t"
  "tk_Missing (setLexFlag f b t) = tk_Missing t"
  by (simp_all add: setLexFlag_def)

section \<open>Points\<close>

definition newline :: u8 where
  "newline = 10"

text \<open>The per-byte loop, used below 256 bytes.\<close>

fun advance_point_loop :: "point \<Rightarrow> bytes \<Rightarrow> point" where
  "advance_point_loop p [] = p"
| "advance_point_loop p (c # cs) =
     (if c = newline then advance_point_loop \<lparr>Row = Row p + 1, Column = 0\<rparr> cs
      else advance_point_loop (p\<lparr>Column := Column p + 1\<rparr>) cs)"

text \<open>\<^verbatim>\<open>bytes.LastIndexByte\<close> and \<^verbatim>\<open>bytes.Count\<close> of a single byte.\<close>

fun last_index_byte :: "bytes \<Rightarrow> u8 \<Rightarrow> int" where
  "last_index_byte [] c = -1"
| "last_index_byte (x # xs) c =
     (let i = last_index_byte xs c in if 0 \<le> i then i + 1 else if x = c then 0 else -1)"

definition count_byte :: "bytes \<Rightarrow> u8 \<Rightarrow> nat" where
  "count_byte xs c = length (filter (\<lambda>x. x = c) xs)"

definition advancePointByBytes :: "point \<Rightarrow> bytes \<Rightarrow> point" where
  "advancePointByBytes start b =
     (if length b < 256 then advance_point_loop start b
      else let lastNewline = last_index_byte b newline in
        if lastNewline < 0 then start\<lparr>Column := Column start + of_nat (length b)\<rparr>
        else \<lparr>Row = Row start + of_nat (count_byte b newline),
              Column = of_int (int (length b) - lastNewline - 1)\<rparr>)"

lemma last_index_byte_ge: "-1 \<le> last_index_byte xs c"
  by (induction xs) (auto simp: Let_def)

lemma last_index_byte_less: "last_index_byte xs c < int (length xs)"
  by (induction xs) (auto simp: Let_def)

lemma last_index_byte_neg: "last_index_byte xs c < 0 \<longleftrightarrow> c \<notin> set xs"
  by (induction xs) (auto simp: Let_def)

lemma count_byte_simps [simp]:
  "count_byte [] c = 0"
  "count_byte (x # xs) c = (if x = c then Suc (count_byte xs c) else count_byte xs c)"
  "count_byte (xs @ ys) c = count_byte xs c + count_byte ys c"
  by (simp_all add: count_byte_def)

lemma count_byte_0 [simp]: "c \<notin> set xs \<Longrightarrow> count_byte xs c = 0"
  by (auto simp: count_byte_def filter_empty_conv)

lemma advance_point_loop_bulk:
  "advance_point_loop p b =
     (if last_index_byte b newline < 0 then p\<lparr>Column := Column p + of_nat (length b)\<rparr>
      else \<lparr>Row = Row p + of_nat (count_byte b newline),
            Column = of_int (int (length b) - last_index_byte b newline - 1)\<rparr>)"
proof (induction b arbitrary: p)
  case Nil
  show ?case by (cases p) simp
next
  case (Cons c cs)
  have neg: "count_byte cs newline = 0" if "last_index_byte cs newline < 0"
    using that by (simp add: last_index_byte_neg)
  show ?case
    by (cases p) (auto simp: Cons.IH Let_def algebra_simps neg)
qed

lemma advance_point_loop_append:
  "advance_point_loop p (xs @ ys) = advance_point_loop (advance_point_loop p xs) ys"
  by (induction xs arbitrary: p) auto

lemma advancePointByBytes_is_loop: "advancePointByBytes p b = advance_point_loop p b"
  unfolding advancePointByBytes_def Let_def using advance_point_loop_bulk [of p b] by simp

lemma advancePointByBytes_append:
  "advancePointByBytes p (b @ c) = advancePointByBytes (advancePointByBytes p b) c"
  by (simp add: advancePointByBytes_is_loop advance_point_loop_append)

section \<open>Properties\<close>

text \<open>
  \<open>advancePointByBytes\<close> is the per-byte loop on every input: the bulk path for inputs of 256
  bytes or more, which counts newlines and takes the distance to the last one, returns the same
  point; and advancing over a concatenation is advancing over its parts in turn.
\<close>

theorem advancePointByBytes_loop:
  "advancePointByBytes p b = advance_point_loop p b \<and>
   advancePointByBytes p (b @ c) = advancePointByBytes (advancePointByBytes p b) c"
  by (simp only: advancePointByBytes_is_loop advance_point_loop_append simp_thms)

end
