(* ===== verification/Incremental_Reads.thy ===== *)
theory Incremental_Reads
  imports Go_Prelude
begin

text \<open>
  The read history of an incremental parse, \<^verbatim>\<open>internal/runtime/internal/incr/lookahead.go\<close>: \<open>Record\<close>
  collects the byte span each lexer or scanner attempt examined, \<open>Seal\<close> turns the history into
  prefix maxima, and \<open>Lookahead\<close>, \<open>LeafLookahead\<close> and the cursor answer how far beyond a node's end
  an earlier attempt read. The lemmas show that the bounded deduplication of \<open>Record\<close> loses no
  dependency and that a sealed history answers with the exact maximum over everything recorded.
\<close>

section \<open>Data\<close>

text \<open>\<^verbatim>\<open>read\<close> is a pair of a scan origin and an examined end.\<close>

type_synonym read = "u32 \<times> u32"

text \<open>
  \<open>rd_cap\<close> is the capacity of the backing array of \<^verbatim>\<open>ends\<close>; \<open>rd_allocated\<close> is the counter behind the
  pointer \<^verbatim>\<open>allocated\<close>, absent when the pointer is nil.
\<close>

record reads =
  rd_ends :: "read list"
  rd_cap :: nat
  rd_sourceBytes :: u32
  rd_sealed :: bool
  rd_valid :: bool
  rd_forestAttributes :: bool
  rd_committedDropped :: bool
  rd_allocated :: "int option"
  rd_budget :: int
  rd_baseline :: int

definition zero_reads :: reads where
  "zero_reads = \<lparr>rd_ends = [], rd_cap = 0, rd_sourceBytes = 0, rd_sealed = False, rd_valid = False,
     rd_forestAttributes = False, rd_committedDropped = False, rd_allocated = None, rd_budget = 0,
     rd_baseline = 0\<rparr>"

record lookaheadCursor =
  lc_reads :: "reads option"
  lc_includeBoundary :: bool
  lc_index :: nat
  lc_end :: u32

section \<open>Operations\<close>

definition Reset :: "reads \<Rightarrow> int \<Rightarrow> reads \<times> bool" where
  "Reset r sourceBytes =
     (let valid = 0 \<le> sourceBytes \<and> sourceBytes < 4294967295 in
      (r\<lparr>rd_ends := [], rd_sourceBytes := (if valid then of_int sourceBytes else 0), rd_sealed := False,
         rd_valid := valid, rd_forestAttributes := False, rd_committedDropped := False,
         rd_allocated := None, rd_budget := 0, rd_baseline := 0\<rparr>, valid))"

definition NewReads :: "int \<Rightarrow> reads option" where
  "NewReads sourceBytes =
     (if sourceBytes < 0 \<or> sourceBytes \<ge> 4294967295 then None
      else Some (fst (Reset zero_reads sourceBytes)))"

definition Recording :: "reads option \<Rightarrow> bool" where
  "Recording r = (case r of None \<Rightarrow> False | Some r \<Rightarrow> rd_valid r \<and> \<not> rd_sealed r)"

definition ValidForSource :: "reads option \<Rightarrow> int \<Rightarrow> bool" where
  "ValidForSource r sourceBytes =
     (case r of None \<Rightarrow> False
      | Some r \<Rightarrow> rd_valid r \<and> \<not> rd_committedDropped r \<and> 0 \<le> sourceBytes
          \<and> sourceBytes = uint (rd_sourceBytes r))"

definition SourceBytes :: "reads option \<Rightarrow> u32" where
  "SourceBytes r = (case r of None \<Rightarrow> 0 | Some r \<Rightarrow> rd_sourceBytes r)"

definition CertifyForestAttributes :: "reads \<Rightarrow> reads" where
  "CertifyForestAttributes r = (if Recording (Some r) then r\<lparr>rd_forestAttributes := True\<rparr> else r)"

definition CertifiedForestAttributes :: "reads option \<Rightarrow> bool" where
  "CertifiedForestAttributes r =
     (case r of None \<Rightarrow> False
      | Some r \<Rightarrow> rd_valid r \<and> \<not> rd_committedDropped r \<and> rd_sealed r \<and> rd_forestAttributes r)"

definition TrimCapacity :: "reads \<Rightarrow> nat \<Rightarrow> reads" where
  "TrimCapacity r limit = (if rd_cap r > limit then r\<lparr>rd_ends := [], rd_cap := 0\<rparr> else r)"

definition Abstain :: "reads \<Rightarrow> reads" where
  "Abstain r = r\<lparr>rd_valid := False\<rparr>"

definition CommitDroppedInput :: "reads \<Rightarrow> bool \<Rightarrow> reads" where
  "CommitDroppedInput r dropped = (if dropped then r\<lparr>rd_committedDropped := True\<rparr> else r)"

definition BindBudget :: "reads \<Rightarrow> int \<Rightarrow> int \<Rightarrow> int option \<Rightarrow> reads" where
  "BindBudget r limit baseline allocated =
     r\<lparr>rd_budget := limit, rd_baseline := baseline, rd_allocated := allocated\<rparr>"

definition Bytes :: "reads option \<Rightarrow> int" where
  "Bytes r = (case r of None \<Rightarrow> 0 | Some r \<Rightarrow> 64 + int (rd_cap r) * 8)"

text \<open>
  The bounded backward search of \<^verbatim>\<open>Record\<close>: indexes \<open>k - 1\<close> down to \<open>lo\<close>; the first that has the origin.
\<close>

fun find_origin :: "read list \<Rightarrow> u32 \<Rightarrow> nat \<Rightarrow> nat \<Rightarrow> nat option" where
  "find_origin ends origin lo 0 = None"
| "find_origin ends origin lo (Suc k) =
     (if k < lo then None
      else if fst (ends ! k) = origin then Some k
      else find_origin ends origin lo k)"

text \<open>The append at the end of \<^verbatim>\<open>Record\<close>, with the charged growth of the backing array.\<close>

definition append_read :: "reads \<Rightarrow> read \<Rightarrow> reads" where
  "append_read r e =
     (if length (rd_ends r) = rd_cap r then
        let capacity = max 128 (rd_cap r * 2); cost = int (capacity - rd_cap r) * 8 in
        (case rd_allocated r of
           Some a \<Rightarrow>
             (let used = max 0 (a - rd_baseline r) in
              if rd_budget r > 0 \<and> (used \<ge> rd_budget r \<or> cost > rd_budget r - used)
              then r\<lparr>rd_valid := False\<rparr>
              else r\<lparr>rd_allocated := Some (a + cost), rd_cap := capacity, rd_ends := rd_ends r @ [e]\<rparr>)
         | None \<Rightarrow> r\<lparr>rd_cap := capacity, rd_ends := rd_ends r @ [e]\<rparr>)
      else r\<lparr>rd_ends := rd_ends r @ [e]\<rparr>)"

definition Record :: "reads \<Rightarrow> int \<Rightarrow> u32 \<Rightarrow> reads" where
  "Record r start end =
     (if \<not> rd_valid r then r
      else if rd_sealed r \<or> start < 0 \<or> start > uint (rd_sourceBytes r) \<or> start > uint end
      then r\<lparr>rd_valid := False\<rparr>
      else
        let n = length (rd_ends r); origin = (of_int start :: u32) in
        if n \<noteq> 0 then
          let lst = rd_ends r ! (n - 1) in
          if fst lst = origin then r\<lparr>rd_ends := (rd_ends r)[n - 1 := (origin, max (snd lst) end)]\<rparr>
          else if origin > fst lst \<and> end \<le> snd lst then r
          else if origin < fst lst then
            (case find_origin (rd_ends r) origin (n - 8) (n - 1) of
               Some i \<Rightarrow> r\<lparr>rd_ends := (rd_ends r)[i := (origin, max (snd (rd_ends r ! i)) end)]\<rparr>
             | None \<Rightarrow> append_read r (origin, end))
          else append_read r (origin, end)
        else append_read r (origin, end))"

fun seal_loop :: "read list \<Rightarrow> u32 \<Rightarrow> read list \<Rightarrow> read list" where
  "seal_loop [] end out = out"
| "seal_loop (e # es) end out =
     (let end' = max end (snd e) in
      if out \<noteq> [] \<and> fst (last out) = fst e
      then seal_loop es end' (butlast out @ [(fst (last out), end')])
      else seal_loop es end' (out @ [(fst e, end')]))"

definition Seal :: "reads \<Rightarrow> reads" where
  "Seal r =
     (if rd_sealed r then r
      else r\<lparr>rd_ends := seal_loop (sort_key (\<lambda>e. unat (fst e)) (rd_ends r)) 0 [],
             rd_sealed := True, rd_allocated := None\<rparr>)"

text \<open>The comparison \<^verbatim>\<open>BinarySearchFunc\<close> is called with is negative for an entry before the boundary.\<close>

definition before_boundary :: "bool \<Rightarrow> u32 \<Rightarrow> u32 \<Rightarrow> bool" where
  "before_boundary includeBoundary end start \<longleftrightarrow> start < end \<or> (includeBoundary \<and> start = end)"

definition search_reads :: "read list \<Rightarrow> bool \<Rightarrow> u32 \<Rightarrow> nat" where
  "search_reads ends includeBoundary end =
     sort_search (length ends) (\<lambda>i. \<not> before_boundary includeBoundary end (fst (ends ! i)))"

definition lookahead :: "reads option \<Rightarrow> u32 \<Rightarrow> bool \<Rightarrow> u32 \<times> bool" where
  "lookahead mr end includeBoundary =
     (case mr of None \<Rightarrow> (0, False)
      | Some r \<Rightarrow>
          if \<not> rd_valid r \<or> \<not> rd_sealed r \<or> end = 0 \<or> end > rd_sourceBytes r then (0, False)
          else
            let i = search_reads (rd_ends r) includeBoundary end in
            if i = 0 then (0, False)
            else let frontier = snd (rd_ends r ! (i - 1)) in
              if frontier < end then (0, False) else (frontier - end, True))"

definition Lookahead :: "reads option \<Rightarrow> u32 \<Rightarrow> u32 \<times> bool" where
  "Lookahead r end = lookahead r end True"

definition LeafLookahead :: "reads option \<Rightarrow> u32 \<Rightarrow> u32 \<times> bool" where
  "LeafLookahead r end = lookahead r end False"

definition Cursor :: "reads option \<Rightarrow> bool \<Rightarrow> lookaheadCursor" where
  "Cursor r includeBoundary =
     \<lparr>lc_reads = r, lc_includeBoundary = includeBoundary, lc_index = 0, lc_end = 0\<rparr>"

function advance_index :: "read list \<Rightarrow> bool \<Rightarrow> u32 \<Rightarrow> nat \<Rightarrow> nat" where
  "advance_index ends includeBoundary end i =
     (if i < length ends then
        (let start = fst (ends ! i) in
         if start > end \<or> (start = end \<and> \<not> includeBoundary) then i
         else advance_index ends includeBoundary end (Suc i))
      else i)"
  by pat_completeness auto
termination
  by (relation "measure (\<lambda>(ends, b, e, i). length ends - i)") auto

declare advance_index.simps [simp del]

definition cursor_Lookahead :: "lookaheadCursor \<Rightarrow> u32 \<Rightarrow> (u32 \<times> bool) \<times> lookaheadCursor" where
  "cursor_Lookahead c end =
     (case lc_reads c of None \<Rightarrow> ((0, False), c)
      | Some r \<Rightarrow>
      if \<not> rd_valid r \<or> \<not> rd_sealed r \<or> end = 0 \<or> end > rd_sourceBytes r then ((0, False), c)
      else
        let index = (if end < lc_end c then search_reads (rd_ends r) (lc_includeBoundary c) end
                     else advance_index (rd_ends r) (lc_includeBoundary c) end (lc_index c));
            c' = c\<lparr>lc_index := index, lc_end := end\<rparr> in
        if index = 0 \<or> snd (rd_ends r ! (index - 1)) < end then ((0, False), c')
        else ((snd (rd_ends r ! (index - 1)) - end, True), c'))"

text \<open>\<^verbatim>\<open>Encode\<close> and \<^verbatim>\<open>Decode\<close>: zero is reserved for unknown metadata.\<close>

definition Encode :: "u32 \<Rightarrow> u32" where
  "Encode bytes = (if bytes = 4294967295 then 0 else bytes + 1)"

definition Decode :: "u32 \<Rightarrow> u32 \<times> bool" where
  "Decode encoded = (encoded - 1, encoded \<noteq> 0)"

section \<open>Dominance\<close>

text \<open>
  A history dominates another when every read of the other has a read from no later an origin that
  reaches at least as far. Mutual dominance fixes every bound a lookup can ask for.
\<close>

definition dominates :: "read list \<Rightarrow> read list \<Rightarrow> bool" where
  "dominates B A \<longleftrightarrow> (\<forall>a\<in>set A. \<exists>b\<in>set B. fst b \<le> fst a \<and> snd a \<le> snd b)"

definition same_bounds :: "read list \<Rightarrow> read list \<Rightarrow> bool" where
  "same_bounds A B \<longleftrightarrow> dominates A B \<and> dominates B A"

text \<open>The farthest end among the reads whose origin is before the boundary.\<close>

definition farthest :: "bool \<Rightarrow> u32 \<Rightarrow> read list \<Rightarrow> u32 option" where
  "farthest includeBoundary end A =
     (let S = snd ` {a \<in> set A. before_boundary includeBoundary end (fst a)} in
      if S = {} then None else Some (Max S))"

lemma dominates_refl [simp]: "dominates A A"
  by (auto simp: dominates_def)

lemma dominates_trans: "dominates C B \<Longrightarrow> dominates B A \<Longrightarrow> dominates C A"
  unfolding dominates_def by (meson order_trans)

lemma dominates_append: "dominates B A \<Longrightarrow> dominates B A' \<Longrightarrow> dominates B (A @ A')"
  by (auto simp: dominates_def)

lemma dominates_superset: "set A \<subseteq> set B \<Longrightarrow> dominates B A"
  by (auto simp: dominates_def)

lemma same_bounds_refl [simp]: "same_bounds A A"
  by (simp add: same_bounds_def)

lemma same_bounds_trans: "same_bounds A B \<Longrightarrow> same_bounds B C \<Longrightarrow> same_bounds A C"
  using dominates_trans by (auto simp: same_bounds_def)

lemma same_bounds_snoc:
  assumes "same_bounds A B"
  shows "same_bounds (A @ [x]) (B @ [x])"
proof -
  have "dominates (C @ [x]) (D @ [x])" if "dominates C D" for C D
  proof (rule dominates_append)
    show "dominates (C @ [x]) D" using that by (rule dominates_trans [OF dominates_superset, rotated]) auto
    show "dominates (C @ [x]) [x]" by (rule dominates_superset) auto
  qed
  with assms show ?thesis by (simp add: same_bounds_def)
qed

lemma before_boundary_down:
  "before_boundary b end s \<Longrightarrow> s' \<le> s \<Longrightarrow> before_boundary b end s'"
  by (auto simp: before_boundary_def)

lemma farthest_dominated:
  assumes "dominates B A" "farthest b end A = Some m"
  shows "\<exists>m'. farthest b end B = Some m' \<and> m \<le> m'"
proof -
  let ?S = "\<lambda>A. snd ` {a \<in> set A. before_boundary b end (fst a)}"
  have "?S A \<noteq> {}" "m = Max (?S A)"
    using assms(2) by (auto simp: farthest_def Let_def split: if_splits)
  then have "m \<in> ?S A" using Max_in [of "?S A"] by simp
  then obtain a where a: "a \<in> set A" "before_boundary b end (fst a)" "m = snd a" by blast
  then obtain c where c: "c \<in> set B" "fst c \<le> fst a" "snd a \<le> snd c"
    using assms(1) by (auto simp: dominates_def)
  then have "snd c \<in> ?S B" using a before_boundary_down by blast
  then have "farthest b end B = Some (Max (?S B))" "snd c \<le> Max (?S B)"
    unfolding farthest_def Let_def by (auto intro!: Max_ge)
  with a c show ?thesis by auto
qed

lemma farthest_same:
  assumes "same_bounds A B"
  shows "farthest b end A = farthest b end B"
proof (cases "farthest b end A")
  case None
  then show ?thesis
    using farthest_dominated [of A B b "end"] assms by (cases "farthest b end B") (auto simp: same_bounds_def)
next
  case (Some m)
  then obtain m' where m': "farthest b end B = Some m'" "m \<le> m'"
    using farthest_dominated [of B A b "end" m] assms by (auto simp: same_bounds_def)
  then obtain m'' where "farthest b end A = Some m''" "m' \<le> m''"
    using farthest_dominated [of A B b "end" m'] assms by (auto simp: same_bounds_def)
  with Some m' show ?thesis by simp
qed

lemma farthest_Nil [simp]: "farthest b end [] = None"
  by (simp add: farthest_def)

lemma farthest_cong:
  assumes "\<And>a. a \<in> set A \<Longrightarrow> before_boundary b end (fst a) = before_boundary b' end' (fst a)"
  shows "farthest b end A = farthest b' end' A"
proof -
  have "{a \<in> set A. before_boundary b end (fst a)} = {a \<in> set A. before_boundary b' end' (fst a)}"
    using assms by blast
  then show ?thesis by (simp add: farthest_def)
qed

lemma farthest_snoc:
  "farthest b end (A @ [x]) =
     (if before_boundary b end (fst x)
      then Some (case farthest b end A of None \<Rightarrow> snd x | Some m \<Rightarrow> max m (snd x))
      else farthest b end A)"
proof -
  have "{a \<in> set (A @ [x]). before_boundary b end (fst a)} =
      {a \<in> set A. before_boundary b end (fst a)} \<union> (if before_boundary b end (fst x) then {x} else {})"
    by auto
  moreover have "Max (insert (snd x) (snd ` S)) = (if S = {} then snd x else max (Max (snd ` S)) (snd x))"
    if "finite S" for S :: "read set"
    using that by (simp add: max.commute)
  ultimately show ?thesis
    unfolding farthest_def Let_def
    by (cases "{a \<in> set A. before_boundary b end (fst a)} = {}") (simp_all only: image_Un, auto)
qed

lemma farthest_set: "set A = set B \<Longrightarrow> farthest b end A = farthest b end B"
  by (simp add: farthest_def)

section \<open>Recording keeps every bound\<close>

lemma find_origin_Some:
  "find_origin ends origin lo k = Some i \<Longrightarrow> i < k \<and> fst (ends ! i) = origin"
  by (induction k) (auto split: if_splits)

lemma same_bounds_update:
  assumes i: "i < length L" "fst (L ! i) = origin"
  shows "same_bounds (L[i := (origin, max (snd (L ! i)) end)]) (L @ [(origin, end)])"
proof -
  let ?y = "(origin, max (snd (L ! i)) end)"
  have y: "?y \<in> set (L[i := ?y])" using i by (simp add: set_update_memI)
  have old: "a \<in> set (L[i := ?y]) \<or> a = L ! i" if "a \<in> set L" for a
    using that by (metis in_set_conv_nth length_list_update nth_list_update_neq nth_mem)
  have "dominates (L[i := ?y]) (L @ [(origin, end)])"
    unfolding dominates_def
  proof
    fix a assume "a \<in> set (L @ [(origin, end)])"
    then consider "a \<in> set (L[i := ?y])" | "a = L ! i" | "a = (origin, end)" using old [of a] by auto
    then show "\<exists>c\<in>set (L[i := ?y]). fst c \<le> fst a \<and> snd a \<le> snd c"
    proof cases
      case 1
      then show ?thesis by (intro bexI [of _ a]) auto
    next
      case 2
      then show ?thesis using i by (intro bexI [OF _ y]) auto
    next
      case 3
      then show ?thesis by (intro bexI [OF _ y]) auto
    qed
  qed
  moreover have "dominates (L @ [(origin, end)]) (L[i := ?y])"
    unfolding dominates_def
  proof
    fix a assume "a \<in> set (L[i := ?y])"
    then have "a \<in> set L \<or> a = ?y" using set_update_subset_insert by fast
    then consider "a \<in> set L" | "a = L ! i" | "a = (origin, end)"
      using i by (cases "snd (L ! i) \<le> end") (auto simp: max_def intro: prod_eqI)
    then show "\<exists>c\<in>set (L @ [(origin, end)]). fst c \<le> fst a \<and> snd a \<le> snd c"
      using i by (intro bexI [of _ a]) auto
  qed
  ultimately show ?thesis by (simp add: same_bounds_def)
qed

lemma same_bounds_skip:
  assumes "c \<in> set L" "fst c \<le> origin" "end \<le> snd c"
  shows "same_bounds L (L @ [(origin, end)])"
  using assms by (auto simp: same_bounds_def dominates_def)

lemma append_read_ends:
  "rd_valid (append_read r e) \<Longrightarrow> rd_ends (append_read r e) = rd_ends r @ [e]"
  by (auto simp: append_read_def Let_def split: if_splits option.splits)

lemma append_read_fields [simp]:
  "rd_sealed (append_read r e) = rd_sealed r" "rd_sourceBytes (append_read r e) = rd_sourceBytes r"
  by (auto simp: append_read_def Let_def split: option.splits)

lemma Record_fields [simp]:
  "rd_sealed (Record r s e) = rd_sealed r" "rd_sourceBytes (Record r s e) = rd_sourceBytes r"
  by (auto simp: Record_def Let_def split: option.splits)

lemma Record_invalid: "rd_valid (Record r s e) \<Longrightarrow> rd_valid r"
  by (auto simp: Record_def split: if_splits)

lemma Record_same_bounds:
  assumes "rd_valid (Record r start end)"
  shows "same_bounds (rd_ends (Record r start end)) (rd_ends r @ [(of_int start, end)])"
proof -
  let ?L = "rd_ends r" and ?n = "length (rd_ends r)" and ?o = "of_int start :: u32"
  have ok: "rd_valid r" "\<not> (rd_sealed r \<or> start < 0 \<or> start > uint (rd_sourceBytes r) \<or> start > uint end)"
    using assms by (auto simp: Record_def split: if_splits)
  note [simp] = Record_def Let_def
  have app: "same_bounds (rd_ends (append_read r (?o, end))) (?L @ [(?o, end)])"
    if "rd_valid (append_read r (?o, end))"
    using append_read_ends [OF that] by simp
  consider "?n = 0" | "?n \<noteq> 0" "fst (?L ! (?n - 1)) = ?o"
    | "?n \<noteq> 0" "fst (?L ! (?n - 1)) < ?o" | "?n \<noteq> 0" "?o < fst (?L ! (?n - 1))"
    using linorder_less_linear by blast
  then show ?thesis
  proof cases
    case 1 then show ?thesis using ok assms app by simp
  next
    case 2
    then show ?thesis using ok same_bounds_update [of "?n - 1" ?L ?o "end"] by simp
  next
    case 3
    then show ?thesis
      using ok assms app same_bounds_skip [of "?L ! (?n - 1)" ?L ?o "end"]
      by (cases "end \<le> snd (?L ! (?n - 1))") (auto split: if_splits)
  next
    case 4
    then show ?thesis
    proof (cases "find_origin ?L ?o (?n - 8) (?n - 1)")
      case None
      then have "Record r start end = append_read r (?o, end)"
        using ok 4 by (simp add: not_le less_imp_neq [THEN not_sym] less_not_sym)
      then show ?thesis using app assms by (simp del: Record_def)
    next
      case (Some i)
      then have "i < ?n" "fst (?L ! i) = ?o" using find_origin_Some [OF Some] by auto
      moreover have "rd_ends (Record r start end) = ?L[i := (?o, max (snd (?L ! i)) end)]"
        using ok 4 Some by (simp add: not_le less_imp_neq [THEN not_sym] less_not_sym)
      ultimately show ?thesis using same_bounds_update [of i ?L ?o "end"] by (simp del: Record_def)
    qed
  qed
qed

text \<open>A history is recorded by one \<open>Record\<close> per attempt.\<close>

fun record_all :: "reads \<Rightarrow> (int \<times> u32) list \<Rightarrow> reads" where
  "record_all r [] = r"
| "record_all r ((s, e) # hs) = record_all (Record r s e) hs"

definition history :: "(int \<times> u32) list \<Rightarrow> read list" where
  "history hs = map (\<lambda>(s, e). (of_int s, e)) hs"

lemma record_all_fields [simp]:
  "rd_sealed (record_all r hs) = rd_sealed r" "rd_sourceBytes (record_all r hs) = rd_sourceBytes r"
  by (induction hs arbitrary: r) auto

lemma record_all_invalid: "rd_valid (record_all r hs) \<Longrightarrow> rd_valid r"
proof (induction hs arbitrary: r)
  case (Cons h hs)
  then show ?case by (cases h) (simp, blast dest: Record_invalid)
qed simp

lemma record_all_same_bounds:
  assumes "rd_valid (record_all r hs)"
  shows "same_bounds (rd_ends (record_all r hs)) (rd_ends r @ history hs)"
  using assms
proof (induction hs rule: rev_induct)
  case Nil
  then show ?case by (simp add: history_def)
next
  case (snoc h hs)
  obtain s e where h: "h = (s, e)" by (cases h)
  have all: "record_all r (hs @ [h]) = Record (record_all r hs) s e"
    unfolding h by (induction hs arbitrary: r) auto
  let ?r = "record_all r hs"
  have v: "rd_valid (Record ?r s e)" using snoc.prems all by simp
  have "same_bounds (rd_ends ?r @ [(of_int s, e)]) ((rd_ends r @ history hs) @ [(of_int s, e)])"
    by (rule same_bounds_snoc) (rule snoc.IH [OF Record_invalid [OF v]])
  with Record_same_bounds [OF v] show ?case
    unfolding all by (auto simp: h history_def intro: same_bounds_trans)
qed

section \<open>Sealing\<close>

text \<open>What \<^verbatim>\<open>Seal\<close> leaves in \<^verbatim>\<open>ends\<close>: one entry per origin, ascending, each with its prefix maximum.\<close>

definition prefix_maxima :: "read list \<Rightarrow> read list \<Rightarrow> bool" where
  "prefix_maxima A out \<longleftrightarrow>
     sorted_wrt (<) (map fst out) \<and> fst ` set out = fst ` set A \<and>
     (\<forall>x\<in>set out. farthest True (fst x) A = Some (snd x))"

lemma before_True: "before_boundary True end s \<longleftrightarrow> s \<le> end"
  by (auto simp: before_boundary_def)

lemma prefix_maxima_last:
  assumes "prefix_maxima A out" "sorted (map fst A)" "A \<noteq> []"
  shows "out \<noteq> [] \<and> fst (last out) = fst (last A)"
proof -
  have ne: "out \<noteq> []" using assms by (auto simp: prefix_maxima_def)
  have srt: "sorted (map fst out)" using assms(1) by (auto simp: prefix_maxima_def intro: strict_sorted_imp_sorted)
  have mx: "\<forall>x\<in>set B. fst x \<le> fst (last B)" if "sorted (map fst B)" "B \<noteq> []" for B :: "read list"
    using that by (cases B rule: rev_cases) (auto simp: sorted_append)
  obtain b where "b \<in> set A" "fst b = fst (last out)" using ne assms(1)
    by (metis (no_types, lifting) image_iff last_in_set prefix_maxima_def)
  moreover obtain c where "c \<in> set out" "fst c = fst (last A)" using assms(1,3)
    by (metis (no_types, lifting) image_iff last_in_set prefix_maxima_def)
  ultimately show ?thesis using mx [OF srt ne] mx [OF assms(2,3)] ne by force
qed

lemma seal_loop_maxima:
  assumes "sorted (map fst (P @ es))" "prefix_maxima P out"
    "end = (if P = [] then 0 else snd (last out))"
  shows "prefix_maxima (P @ es) (seal_loop es end out)"
  using assms
proof (induction es arbitrary: P "end" out)
  case Nil
  then show ?case by simp
next
  case (Cons e es)
  let ?mx = "max end (snd e)"
  let ?out = "if out \<noteq> [] \<and> fst (last out) = fst e then butlast out @ [(fst (last out), ?mx)]
              else out @ [(fst e, ?mx)]"
  have le: "\<forall>p\<in>set P. fst p \<le> fst e" and sP: "sorted (map fst P)"
    using Cons.prems(1) by (simp_all add: sorted_append)
  have inv: "sorted_wrt (<) (map fst out)" "fst ` set out = fst ` set P"
    "\<forall>x\<in>set out. farthest True (fst x) P = Some (snd x)"
    using Cons.prems(2) unfolding prefix_maxima_def by blast+
  have le_out: "fst x \<le> fst e" if "x \<in> set out" for x
  proof -
    have "fst x \<in> fst ` set P" unfolding inv(2) [symmetric] using that by (rule imageI)
    then show ?thesis using le by auto
  qed
  have top: "farthest True (fst e) (P @ [e]) = Some ?mx"
  proof (cases "P = []")
    case True
    then show ?thesis
      using Cons.prems(3) farthest_snoc [of True "fst e" "[]" e] by (simp add: before_True)
  next
    case False
    then have l: "out \<noteq> []" "fst (last out) = fst (last P)"
      using prefix_maxima_last [OF Cons.prems(2) sP False] by auto
    have "\<forall>p\<in>set P. fst p \<le> fst (last P)"
      using sP False by (cases P rule: rev_cases) (auto simp: sorted_append)
    then have "farthest True (fst e) P = farthest True (fst (last out)) P"
      using le l by (intro farthest_cong) (auto simp: before_True)
    also have "\<dots> = Some (snd (last out))" using inv(3) l(1) by simp
    finally show ?thesis using Cons.prems(3) False by (simp add: farthest_snoc before_True)
  qed
  have low: "farthest True (fst x) (P @ [e]) = Some (snd x)" if "x \<in> set out" "fst x < fst e" for x
    using that inv(3) by (auto simp: farthest_snoc before_True)
  have "prefix_maxima (P @ [e]) ?out"
  proof (cases "out \<noteq> [] \<and> fst (last out) = fst e")
    case True
    then obtain o' x where o: "out = o' @ [x]" by (cases out rule: rev_cases) auto
    have lt: "\<forall>y\<in>set o'. fst y < fst e" using inv(1) True o by (auto simp: sorted_wrt_append)
    have "sorted_wrt (<) (map fst ?out)" using inv(1) True o by (simp add: sorted_wrt_append)
    moreover have "fst ` set ?out = fst ` set (P @ [e])" using inv(2) True o by auto
    moreover have "\<forall>y\<in>set ?out. farthest True (fst y) (P @ [e]) = Some (snd y)"
      using True o lt low top by auto
    ultimately show ?thesis unfolding prefix_maxima_def by blast
  next
    case False
    have lt: "\<forall>y\<in>set out. fst y < fst e"
    proof
      fix y assume y: "y \<in> set out"
      then have "out \<noteq> []" by auto
      then have "fst (last out) < fst e"
        using False le_out [of "last out"] by (simp add: order_less_le)
      moreover have "fst y \<le> fst (last out)"
        using y inv(1) by (cases out rule: rev_cases) (auto simp: sorted_wrt_append)
      ultimately show "fst y < fst e" by simp
    qed
    have "sorted_wrt (<) (map fst ?out)" using False inv(1) lt by (auto simp: sorted_wrt_append)
    moreover have "fst ` set ?out = fst ` set (P @ [e])" using False inv(2) by auto
    moreover have "\<forall>y\<in>set ?out. farthest True (fst y) (P @ [e]) = Some (snd y)"
      using False lt low top by auto
    ultimately show ?thesis unfolding prefix_maxima_def by blast
  qed
  moreover have "snd (last ?out) = ?mx" by simp
  ultimately have "prefix_maxima ((P @ [e]) @ es) (seal_loop es ?mx ?out)"
    using Cons.prems(1) by (intro Cons.IH) auto
  then show ?case by (auto simp: Let_def split: if_splits)
qed

lemma Seal_maxima:
  assumes "\<not> rd_sealed r"
  shows "prefix_maxima (rd_ends r) (rd_ends (Seal r))"
proof -
  let ?S = "sort_key (\<lambda>e. unat (fst e)) (rd_ends r)"
  have "sorted (map (\<lambda>e. unat (fst e)) ?S)" by simp
  then have "sorted (map fst ?S)"
    by (simp add: sorted_wrt_map word_le_nat_alt)
  then have "prefix_maxima ([] @ ?S) (seal_loop ?S 0 [])"
    by (intro seal_loop_maxima) (auto simp: prefix_maxima_def)
  then have "prefix_maxima ?S (rd_ends (Seal r))" using assms by (simp add: Seal_def)
  moreover have "farthest True x ?S = farthest True x (rd_ends r)" for x by (rule farthest_set) simp
  ultimately show ?thesis by (simp add: prefix_maxima_def)
qed

section \<open>Lookups in a sealed history\<close>

text \<open>The searched index splits the entries at the boundary.\<close>

definition boundary_split :: "read list \<Rightarrow> bool \<Rightarrow> u32 \<Rightarrow> nat \<Rightarrow> bool" where
  "boundary_split ends b end k \<longleftrightarrow> k \<le> length ends \<and>
     (\<forall>j<k. before_boundary b end (fst (ends ! j))) \<and>
     (\<forall>j. k \<le> j \<and> j < length ends \<longrightarrow> \<not> before_boundary b end (fst (ends ! j)))"

lemma boundary_split_unique:
  "boundary_split ends b end k \<Longrightarrow> boundary_split ends b end k' \<Longrightarrow> k = k'"
  unfolding boundary_split_def by (meson linorder_le_less_linear nle_le order_less_le_trans)

lemma boundary_splitI:
  assumes "sorted_wrt (<) (map fst ends)" "k \<le> length ends"
    "\<forall>j<k. before_boundary b end (fst (ends ! j))"
    "k < length ends \<Longrightarrow> \<not> before_boundary b end (fst (ends ! k))"
  shows "boundary_split ends b end k"
  unfolding boundary_split_def
proof (intro conjI allI impI)
  fix j assume j: "k \<le> j \<and> j < length ends"
  then have "fst (ends ! k) \<le> fst (ends ! j)"
    using sorted_nth_mono [OF strict_sorted_imp_sorted [OF assms(1)], of k j] by simp
  with j assms(4) show "\<not> before_boundary b end (fst (ends ! j))"
    using before_boundary_down by fastforce
qed (use assms(2,3) in auto)

lemma search_reads_split:
  assumes "sorted_wrt (<) (map fst ends)"
  shows "boundary_split ends b end (search_reads ends b end)"
proof -
  let ?f = "\<lambda>i. \<not> before_boundary b end (fst (ends ! i))"
  have mono: "?f j" if "i \<le> j" "j < length ends" "?f i" for i j
  proof -
    have "fst (ends ! i) \<le> fst (ends ! j)"
      using sorted_nth_mono [OF strict_sorted_imp_sorted [OF assms], of i j] that by simp
    then show ?thesis using that(3) before_boundary_down by blast
  qed
  show ?thesis
    unfolding search_reads_def
  proof (rule boundary_splitI [OF assms])
    show "sort_search (length ends) ?f \<le> length ends" using mono by (rule sort_search_mono(1))
    show "\<forall>j < sort_search (length ends) ?f. before_boundary b end (fst (ends ! j))"
      using sort_search_mono(2) [of "length ends" ?f] mono by blast
    show "?f (sort_search (length ends) ?f)" if "sort_search (length ends) ?f < length ends"
      using sort_search_mono(3) [of "length ends" ?f] mono that by blast
  qed
qed

lemma advance_index_split:
  assumes "sorted_wrt (<) (map fst ends)" "i \<le> length ends"
    "\<forall>j<i. before_boundary b end (fst (ends ! j))"
  shows "boundary_split ends b end (advance_index ends b end i)"
  using assms
proof (induction ends b "end" i rule: advance_index.induct)
  case (1 ends b "end" i)
  show ?case
  proof (cases "i < length ends \<and> before_boundary b end (fst (ends ! i))")
    case True
    then have "boundary_split ends b end (advance_index ends b end (Suc i))"
      using 1 by (auto simp: before_boundary_def less_Suc_eq less_imp_neq not_less_iff_gr_or_eq)
    with True show ?thesis
      by (subst advance_index.simps) (auto simp: before_boundary_def Let_def)
  next
    case False
    then have "advance_index ends b end i = i"
      by (subst advance_index.simps) (auto simp: before_boundary_def Let_def)
    with False 1 show ?thesis by (auto intro: boundary_splitI)
  qed
qed

text \<open>The entry before the split carries the farthest end of everything before the boundary.\<close>

lemma split_farthest:
  assumes pm: "prefix_maxima A ends" and sp: "boundary_split ends b end k"
  shows "farthest b end A = (if k = 0 then None else Some (snd (ends ! (k - 1))))"
proof -
  have srt: "sorted_wrt (<) (map fst ends)" and fs: "fst ` set A = fst ` set ends"
    using pm unfolding prefix_maxima_def by blast+
  have idx: "\<exists>j<length ends. fst (ends ! j) = fst a" if "a \<in> set A" for a
  proof -
    have "fst a \<in> fst ` set ends" unfolding fs [symmetric] using that by (rule imageI)
    then obtain x where "x \<in> set ends" "fst x = fst a" by (metis imageE)
    then show ?thesis by (metis in_set_conv_nth)
  qed
  show ?thesis
  proof (cases "k = 0")
    case True
    then have "\<not> before_boundary b end (fst a)" if "a \<in> set A" for a
      using idx [OF that] sp by (force simp: boundary_split_def)
    then have "{a \<in> set A. before_boundary b end (fst a)} = {}" by blast
    then show ?thesis using True by (simp add: farthest_def)
  next
    case False
    let ?x = "ends ! (k - 1)"
    have k: "k - 1 < length ends" "before_boundary b end (fst ?x)"
      using False sp by (auto simp: boundary_split_def)
    have "before_boundary b end (fst a) = before_boundary True (fst ?x) (fst a)" if a: "a \<in> set A" for a
    proof -
      obtain j where j: "j < length ends" "fst (ends ! j) = fst a" using idx [OF a] by blast
      have "before_boundary b end (fst a) \<longleftrightarrow> j < k"
        using sp j unfolding boundary_split_def by (metis not_le)
      also have "\<dots> \<longleftrightarrow> fst (ends ! j) \<le> fst ?x"
      proof
        assume "j < k"
        then show "fst (ends ! j) \<le> fst ?x"
          using sorted_nth_mono [OF strict_sorted_imp_sorted [OF srt], of j "k - 1"] k by simp
      next
        assume le: "fst (ends ! j) \<le> fst ?x"
        show "j < k"
        proof (rule ccontr)
          assume "\<not> j < k"
          then have "fst ?x < fst (ends ! j)"
            using sorted_wrt_nth_less [OF srt, of "k - 1" j] j False by simp
          with le show False by simp
        qed
      qed
      finally show ?thesis using j by (simp add: before_True)
    qed
    then have "farthest b end A = farthest True (fst ?x) A" by (rule farthest_cong)
    also have "\<dots> = Some (snd ?x)" using pm k(1) unfolding prefix_maxima_def by simp
    finally show ?thesis using False by simp
  qed
qed

lemma Seal_fields [simp]:
  "rd_valid (Seal r) = rd_valid r" "rd_sealed (Seal r)" "rd_sourceBytes (Seal r) = rd_sourceBytes r"
  by (auto simp: Seal_def)

text \<open>What a lookup owes a history: the distance from \<open>end\<close> to the farthest read before it.\<close>

definition exact_lookahead :: "read list \<Rightarrow> bool \<Rightarrow> u32 \<Rightarrow> u32 \<times> bool" where
  "exact_lookahead A b end =
     (case farthest b end A of None \<Rightarrow> (0, False)
      | Some m \<Rightarrow> if m < end then (0, False) else (m - end, True))"

lemma Seal_lookahead:
  assumes "\<not> rd_sealed r" "rd_valid r" "0 < end" "end \<le> rd_sourceBytes r"
  shows "lookahead (Some (Seal r)) end b = exact_lookahead (rd_ends r) b end"
proof -
  note pm = Seal_maxima [OF assms(1)]
  then have "boundary_split (rd_ends (Seal r)) b end (search_reads (rd_ends (Seal r)) b end)"
    unfolding prefix_maxima_def by (intro search_reads_split) blast
  note f = split_farthest [OF pm this]
  show ?thesis
    using assms(2-4) by (auto simp: lookahead_def exact_lookahead_def f Let_def not_less)
qed

text \<open>
  C9. The incremental read history is exact. Whatever sequence of attempts is recorded after \<open>Reset\<close>
  (and an optional budget), as long as the history stays valid, the sealed history answers every
  lookup, with or without the boundary itself, with the distance to the farthest byte any earlier
  attempt examined: the deduplication in \<open>Record\<close> and the merging in \<open>Seal\<close> lose no dependency and
  invent none.
\<close>

theorem recorded_lookahead_exact:
  assumes "r = record_all (BindBudget (fst (Reset r0 n)) limit baseline allocated) hs"
    and "rd_valid r" "0 < end" "end \<le> rd_sourceBytes r"
  shows "lookahead (Some (Seal r)) end b = exact_lookahead (history hs) b end"
proof -
  let ?r1 = "BindBudget (fst (Reset r0 n)) limit baseline allocated"
  have fresh: "rd_ends ?r1 = []" "\<not> rd_sealed ?r1"
    by (simp_all add: BindBudget_def Reset_def Let_def)
  have "same_bounds (rd_ends r) (history hs)"
    using record_all_same_bounds [of ?r1 hs] assms(1,2) fresh by simp
  then have "exact_lookahead (rd_ends r) b end = exact_lookahead (history hs) b end"
    by (simp add: exact_lookahead_def farthest_same)
  then show ?thesis using Seal_lookahead [of r "end" b] assms fresh by simp
qed

theorem recorded_lookahead_exact_witness:
  "lookahead (Some (Seal (record_all (BindBudget (fst (Reset zero_reads 20)) 4096 0 (Some 0))
      [(0, 5), (3, 9), (1, 12), (3, 4), (7, 8)]))) 7 False
   = exact_lookahead (history [(0, 5), (3, 9), (1, 12), (3, 4), (7, 8)]) False 7"
  by (rule recorded_lookahead_exact [OF refl]) code_simp+

fun cursor_run :: "lookaheadCursor \<Rightarrow> u32 list \<Rightarrow> (u32 \<times> bool) list" where
  "cursor_run c [] = []"
| "cursor_run c (q # qs) = (let (a, c') = cursor_Lookahead c q in a # cursor_run c' qs)"

lemma before_boundary_mono:
  "before_boundary b end s \<Longrightarrow> end \<le> end' \<Longrightarrow> before_boundary b end' s"
  by (auto simp: before_boundary_def)

definition cursor_ok :: "lookaheadCursor \<Rightarrow> reads \<Rightarrow> bool \<Rightarrow> bool" where
  "cursor_ok c r b \<longleftrightarrow> lc_reads c = Some r \<and> lc_includeBoundary c = b \<and>
     lc_index c \<le> length (rd_ends r) \<and>
     (\<forall>j<lc_index c. before_boundary b (lc_end c) (fst (rd_ends r ! j)))"

lemma cursor_Lookahead_step:
  assumes srt: "sorted_wrt (<) (map fst (rd_ends r))" and c: "cursor_ok c r b"
  shows "fst (cursor_Lookahead c q) = lookahead (Some r) q b \<and> cursor_ok (snd (cursor_Lookahead c q)) r b"
proof (cases "\<not> rd_valid r \<or> \<not> rd_sealed r \<or> q = 0 \<or> q > rd_sourceBytes r")
  case True
  then show ?thesis using c by (auto simp: cursor_Lookahead_def lookahead_def cursor_ok_def)
next
  case False
  let ?k = "search_reads (rd_ends r) b q"
  let ?i = "if q < lc_end c then ?k else advance_index (rd_ends r) b q (lc_index c)"
  note k = search_reads_split [OF srt, of b q]
  have i: "?i = ?k"
  proof (cases "q < lc_end c")
    case False
    then have "boundary_split (rd_ends r) b q (advance_index (rd_ends r) b q (lc_index c))"
      using c by (intro advance_index_split [OF srt])
        (auto simp: cursor_ok_def intro: before_boundary_mono)
    then show ?thesis using False boundary_split_unique [OF k] by simp
  qed simp
  have run: "cursor_Lookahead c q =
      (if ?k = 0 \<or> snd (rd_ends r ! (?k - 1)) < q then (0, False)
       else (snd (rd_ends r ! (?k - 1)) - q, True), c\<lparr>lc_index := ?k, lc_end := q\<rparr>)"
    using False c i by (auto simp: cursor_Lookahead_def cursor_ok_def Let_def)
  show ?thesis
    using False c k unfolding run by (auto simp: lookahead_def cursor_ok_def boundary_split_def Let_def)
qed

lemma cursor_run_lookahead:
  assumes "sorted_wrt (<) (map fst (rd_ends r))" "cursor_ok c r b"
  shows "cursor_run c qs = map (\<lambda>q. lookahead (Some r) q b) qs"
  using assms(2)
proof (induction qs arbitrary: c)
  case (Cons q qs)
  then show ?case
    using cursor_Lookahead_step [OF assms(1) Cons.prems, of q]
    by (cases "cursor_Lookahead c q") (auto simp: Let_def)
qed simp

text \<open>
  C33. A lookahead cursor answers every sequence of queries, ascending or not, exactly as individual
  lookups in the sealed history do.
\<close>

theorem cursor_matches_lookahead:
  assumes "\<not> rd_sealed r"
  shows "cursor_run (Cursor (Some (Seal r)) b) qs = map (\<lambda>q. lookahead (Some (Seal r)) q b) qs"
proof (rule cursor_run_lookahead)
  show "sorted_wrt (<) (map fst (rd_ends (Seal r)))"
    using Seal_maxima [OF assms] unfolding prefix_maxima_def by blast
qed (simp add: cursor_ok_def Cursor_def)

theorem cursor_matches_lookahead_witness:
  "cursor_run (Cursor (Some (Seal (record_all (fst (Reset zero_reads 20)) [(0, 5), (9, 12), (3, 11)]))) True)
     [9, 4, 12, 4]
   = [(3, True), (7, True), (0, True), (7, True)]"
proof -
  let ?r = "record_all (fst (Reset zero_reads 20)) [(0, 5), (9, 12), (3, 11)]"
  have "\<not> rd_sealed ?r" by code_simp
  moreover have "map (\<lambda>q. lookahead (Some (Seal ?r)) q True) [9, 4, 12, 4]
      = [(3, True), (7, True), (0, True), (7, True)]" by code_simp
  ultimately show ?thesis using cursor_matches_lookahead [of ?r True "[9, 4, 12, 4]"] by simp
qed

lemma Decode_Encode: "bytes \<noteq> 4294967295 \<Longrightarrow> Decode (Encode bytes) = (bytes, True)"
proof -
  assume "bytes \<noteq> 4294967295"
  moreover have "(bytes + 1 = 0) = (bytes = 4294967295)"
  proof -
    have "(-1 :: u32) = 4294967295" by code_simp
    then show ?thesis by (metis add_eq_0_iff2)
  qed
  ultimately show ?thesis by (simp add: Encode_def Decode_def)
qed

end
