(* ===== verification/Dfa_Lexer.thy ===== *)
theory Dfa_Lexer
  imports Utf8_Codec Source_Tokens Incremental_Reads
begin

text \<open>
  The table-driven DFA lexer without included ranges: \<^verbatim>\<open>LexState\<close>, \<^verbatim>\<open>LexTransition\<close>, \<^verbatim>\<open>LexMode\<close> and
  the ASCII transition table of \<^verbatim>\<open>internal/runtime/language.go\<close>, and the \<^verbatim>\<open>Lexer\<close> record with its
  contiguous scan from \<^verbatim>\<open>internal/runtime/lexer.go\<close>. The lemmas show that the ASCII table answers as
  the transition list does, that a scan always ends, and where the token it returns lies.
\<close>

section \<open>Lexer tables\<close>

record lexTransition =
  lt_Lo :: rune
  lt_Hi :: rune
  lt_NextState :: int
  lt_Skip :: bool

record lexState =
  ls_AcceptToken :: u16
  ls_AcceptPriority :: int
  ls_Skip :: bool
  ls_AcceptEOF :: bool
  ls_Default :: int
  ls_EOF :: int
  ls_Transitions :: "lexTransition list"

record lexMode =
  lm_LexState :: u16
  lm_ExternalLexState :: u16
  lm_ReservedWordSetID :: u16
  lm_AfterWhitespaceLexState :: u16
  lm_LexStateID :: u32
  lm_AfterWhitespaceLexStateID :: u32

definition LexStateIndex :: "lexMode \<Rightarrow> u32" where
  "LexStateIndex m =
     (if lm_LexStateID m \<noteq> 0 then lm_LexStateID m
      else if lm_LexState m = 0xFFFF then 0xFFFFFFFF
      else ucast (lm_LexState m))"

definition AfterWhitespaceLexStateIndex :: "lexMode \<Rightarrow> u32" where
  "AfterWhitespaceLexStateIndex m =
     (if lm_AfterWhitespaceLexStateID m \<noteq> 0 then lm_AfterWhitespaceLexStateID m
      else if lm_AfterWhitespaceLexState m = 0xFFFF then 0xFFFFFFFF
      else ucast (lm_AfterWhitespaceLexState m))"

definition SetLexStateIndex :: "lexMode \<Rightarrow> u32 \<Rightarrow> lexMode" where
  "SetLexStateIndex m idx =
     (let m' = m\<lparr>lm_LexStateID := idx\<rparr> in
      if idx = 0xFFFFFFFF then m'\<lparr>lm_LexState := 0xFFFF\<rparr> else m'\<lparr>lm_LexState := ucast idx\<rparr>)"

definition SetAfterWhitespaceLexStateIndex :: "lexMode \<Rightarrow> u32 \<Rightarrow> lexMode" where
  "SetAfterWhitespaceLexStateIndex m idx =
     (let m' = m\<lparr>lm_AfterWhitespaceLexStateID := idx\<rparr> in
      if idx = 0xFFFFFFFF then m'\<lparr>lm_AfterWhitespaceLexState := 0xFFFF\<rparr>
      else m'\<lparr>lm_AfterWhitespaceLexState := ucast idx\<rparr>)"

text \<open>\<open>lexModeStart\<close> caches both start states of a mode.\<close>

record lexModeStart =
  lms_lexState :: u32
  lms_afterWhitespaceLexState :: u32

definition LexModeStarts :: "lexMode list \<Rightarrow> lexModeStart list" where
  "LexModeStarts modes =
     map (\<lambda>mode. \<lparr>lms_lexState = LexStateIndex mode,
                   lms_afterWhitespaceLexState = AfterWhitespaceLexStateIndex mode\<rparr>) modes"

text \<open>The conversion \<^verbatim>\<open>int32(x)\<close> of a Go \<^verbatim>\<open>int\<close>, read back as a number.\<close>

definition int32 :: "int \<Rightarrow> int" where
  "int32 x = sint (word_of_int x :: 32 word)"

subsection \<open>The ASCII fast path\<close>

definition lexAsciiNoMatch :: "32 word" where
  "lexAsciiNoMatch = 0x7FFFFFFF"

definition lexAsciiSkipBit :: "32 word" where
  "lexAsciiSkipBit = 0x80000000"

text \<open>The inner loop of \<^verbatim>\<open>buildLexAsciiTable\<close>: fill the free cells from \<open>c\<close> to \<open>hi\<close>.\<close>

function fill_row :: "32 word list \<Rightarrow> nat \<Rightarrow> 32 word \<Rightarrow> int \<Rightarrow> int \<Rightarrow> 32 word list \<times> nat" where
  "fill_row row remaining v c hi =
     (if c \<le> hi then
        (if row ! nat c = lexAsciiNoMatch then fill_row (row[nat c := v]) (remaining - 1) v (c + 1) hi
         else fill_row row remaining v (c + 1) hi)
      else (row, remaining))"
  by pat_completeness auto
termination
  by (relation "measure (\<lambda>(row, rem, v, c, hi). nat (hi + 1 - c))") auto

declare fill_row.simps [simp del]

definition transition_entry :: "lexTransition \<Rightarrow> 32 word" where
  "transition_entry tr =
     (let v = word_of_int (lt_NextState tr) in
      if lt_Skip tr then or v lexAsciiSkipBit else v)"

fun build_row :: "32 word list \<Rightarrow> nat \<Rightarrow> lexTransition list \<Rightarrow> 32 word list" where
  "build_row row remaining [] = row"
| "build_row row remaining (tr # trs) =
     (if remaining = 0 then row
      else if lt_Hi tr < 0 \<or> lt_Lo tr \<ge> 128 then build_row row remaining trs
      else
        (let lo = (if lt_Lo tr < 0 then 0 else lt_Lo tr);
             hi = (if lt_Hi tr > 127 then 127 else lt_Hi tr);
             (row', remaining') = fill_row row remaining (transition_entry tr) lo hi in
         build_row row' remaining' trs))"

definition buildLexAsciiTable :: "lexState list \<Rightarrow> 32 word list list" where
  "buildLexAsciiTable states =
     map (\<lambda>st. build_row (replicate 128 lexAsciiNoMatch) 128 (ls_Transitions st)) states"

text \<open>
  The transition of one rune, as the scan loops compute it: from the ASCII table when the byte is
  ASCII and the table has the state, else by the first matching range. A transition to a negative
  state counts as none; the default transition never skips. The result is the next state (negative
  for none) and the skip flag.
\<close>

fun scan_transitions :: "lexTransition list \<Rightarrow> rune \<Rightarrow> int \<times> bool" where
  "scan_transitions [] r = (-1, False)"
| "scan_transitions (tr # trs) r =
     (if r \<ge> lt_Lo tr \<and> r \<le> lt_Hi tr then (int32 (lt_NextState tr), lt_Skip tr)
      else scan_transitions trs r)"

definition ascii_transition :: "32 word list list \<Rightarrow> nat \<Rightarrow> u8 \<Rightarrow> int \<times> bool" where
  "ascii_transition table state b =
     (let v = table ! state ! unat b in
      if v \<noteq> lexAsciiNoMatch
      then (sint (and v (not lexAsciiSkipBit)), and v lexAsciiSkipBit \<noteq> 0)
      else (-1, False))"

definition default_transition :: "lexState \<Rightarrow> int \<times> bool \<Rightarrow> int \<times> bool" where
  "default_transition st t =
     (let (nextState, skipTransition) = t;
          skipTransition = (skipTransition \<and> nextState \<ge> 0) in
      if nextState < 0 \<and> ls_Default st \<ge> 0 then (int32 (ls_Default st), False)
      else (nextState, skipTransition))"

definition next_transition ::
    "32 word list list \<Rightarrow> nat \<Rightarrow> lexState \<Rightarrow> u8 \<Rightarrow> rune \<Rightarrow> int \<times> bool" where
  "next_transition table state st b r =
     default_transition st
       (if b < 0x80 \<and> state < length table then ascii_transition table state b
        else scan_transitions (ls_Transitions st) r)"

fun eof_transition :: "lexTransition list \<Rightarrow> int" where
  "eof_transition [] = -1"
| "eof_transition (tr # trs) =
     (if lt_Lo tr \<le> 0 \<and> lt_Hi tr \<ge> 0 then lt_NextState tr else eof_transition trs)"

definition lexerEOFState :: "lexState \<Rightarrow> int" where
  "lexerEOFState state = (if ls_EOF state \<ge> 0 then ls_EOF state else eof_transition (ls_Transitions state))"

section \<open>The lexer\<close>

record includedLexerCursor =
  cu_pos :: nat
  cu_row :: u32
  cu_col :: u32
  cu_rangeIdx :: nat

text \<open>
  \<open>tokenInvariantReadSpanMax\<close> and \<open>reuseReads\<close> are pointers to aggregates the token source shares
  with every snapshot of the lexer; here they are the values behind the pointers, absent for nil.
  Positions and range indexes are natural numbers: every assignment of the code stores a byte
  offset or a non-negative index, so its checks for negative values never apply.
\<close>

record lexer =
  lx_tokenInvariantReadSpanMax :: "u32 option"
  lx_reuseReads :: "reads option"
  lx_states :: "lexState list"
  lx_asciiTable :: "32 word list list"
  lx_source :: bytes
  lx_pos :: nat
  lx_row :: u32
  lx_col :: u32
  lx_includedRanges :: "range list"
  lx_includedRangeIdx :: nat
  lx_immediateTokens :: "bool list"
  lx_zeroWidthTokens :: "bool list"
  lx_failTokenStartPos :: nat
  lx_failTokenStartRow :: u32
  lx_failTokenStartCol :: u32
  lx_failTokenStartRangeIdx :: nat
  lx_failTokenEnd :: includedLexerCursor
  lx_errorRunLexState :: u32
  lx_hasErrorRunLexState :: bool
  lx_errorModeRetry :: bool

definition zero_cursor :: includedLexerCursor where
  "zero_cursor = \<lparr>cu_pos = 0, cu_row = 0, cu_col = 0, cu_rangeIdx = 0\<rparr>"

definition NewLexer :: "lexState list \<Rightarrow> bytes \<Rightarrow> lexer" where
  "NewLexer states source =
     \<lparr>lx_tokenInvariantReadSpanMax = None, lx_reuseReads = None, lx_states = states, lx_asciiTable = [],
      lx_source = source, lx_pos = 0, lx_row = 0, lx_col = 0, lx_includedRanges = [],
      lx_includedRangeIdx = 0, lx_immediateTokens = [], lx_zeroWidthTokens = [],
      lx_failTokenStartPos = 0, lx_failTokenStartRow = 0, lx_failTokenStartCol = 0,
      lx_failTokenStartRangeIdx = 0, lx_failTokenEnd = zero_cursor, lx_errorRunLexState = 0,
      lx_hasErrorRunLexState = False, lx_errorModeRetry = False\<rparr>"

definition utf8BOM :: bytes where
  "utf8BOM = [0xEF, 0xBB, 0xBF]"

definition skipLeadingBOM :: "lexer \<Rightarrow> lexer" where
  "skipLeadingBOM l =
     (if lx_pos l \<noteq> 0 \<or> take (length utf8BOM) (lx_source l) \<noteq> utf8BOM then l
      else l\<lparr>lx_pos := length utf8BOM, lx_col := of_nat (length utf8BOM)\<rparr>)"

definition allowsZeroWidthToken :: "lexer \<Rightarrow> u16 \<Rightarrow> bool" where
  "allowsZeroWidthToken l sm =
     (if lx_zeroWidthTokens l = [] then True
      else unat sm < length (lx_zeroWidthTokens l) \<and> lx_zeroWidthTokens l ! unat sm)"

definition isImmediateToken :: "lexer \<Rightarrow> u16 \<Rightarrow> bool" where
  "isImmediateToken l sm \<longleftrightarrow>
     sm > 0 \<and> unat sm < length (lx_immediateTokens l) \<and> lx_immediateTokens l ! unat sm"

text \<open>A rune is read from the suffix of the source that starts at \<open>pos\<close>.\<close>

definition rune_at :: "bytes \<Rightarrow> nat \<Rightarrow> rune \<times> nat" where
  "rune_at source pos =
     (let b = source ! pos in if b < 0x80 then (uint b, 1) else decode_rune (drop pos source))"

definition lookaheadEndByteAt :: "lexer \<Rightarrow> nat \<Rightarrow> bool \<Rightarrow> u32" where
  "lookaheadEndByteAt l pos inspectInvalid =
     (let frontier =
        (if inspectInvalid \<and> pos < length (lx_source l) \<and> lx_source l ! pos \<ge> 0x80
            \<and> decode_rune (drop pos (lx_source l)) = (RuneError, 1)
         then int pos + 5 else int pos + 1) in
      if frontier > 4294967295 then 0xFFFFFFFF else of_int frontier)"

text \<open>The state of one contiguous scan; \<open>sc_acceptPos\<close> is negative while nothing is accepted.\<close>

record scan_state =
  sc_curState :: int
  sc_pos :: nat
  sc_row :: u32
  sc_col :: u32
  sc_tokenStartPos :: nat
  sc_tokenStartRow :: u32
  sc_tokenStartCol :: u32
  sc_skippedPrefix :: bool
  sc_acceptPos :: int
  sc_acceptRow :: u32
  sc_acceptCol :: u32
  sc_acceptStartPos :: nat
  sc_acceptStartRow :: u32
  sc_acceptStartCol :: u32
  sc_acceptSymbol :: u16
  sc_acceptSkip :: bool
  sc_acceptPriorityBest :: int
  sc_eofHops :: nat

definition scan_start :: "int \<Rightarrow> nat \<Rightarrow> u32 \<Rightarrow> u32 \<Rightarrow> scan_state" where
  "scan_start curState startPos startRow startCol =
     \<lparr>sc_curState = curState, sc_pos = startPos, sc_row = startRow, sc_col = startCol,
      sc_tokenStartPos = startPos, sc_tokenStartRow = startRow, sc_tokenStartCol = startCol,
      sc_skippedPrefix = False, sc_acceptPos = -1, sc_acceptRow = 0, sc_acceptCol = 0,
      sc_acceptStartPos = 0, sc_acceptStartRow = 0, sc_acceptStartCol = 0, sc_acceptSymbol = 0,
      sc_acceptSkip = False, sc_acceptPriorityBest = 32767, sc_eofHops = 0\<rparr>"

text \<open>The acceptance part of the loop body.\<close>

definition scan_accept :: "lexer \<Rightarrow> nat \<Rightarrow> lexState \<Rightarrow> scan_state \<Rightarrow> scan_state" where
  "scan_accept l startPos st s =
     (if ls_AcceptToken st > 0 \<or> ls_Skip st \<or> (ls_AcceptEOF st \<and> sc_pos s \<ge> length (lx_source l)) then
        (let isImmediate = isImmediateToken l (ls_AcceptToken st);
             skippedWhitespace = sc_tokenStartPos s > startPos;
             zeroWidthVisible = (ls_AcceptToken st > 0 \<and> sc_pos s = sc_tokenStartPos s
               \<and> \<not> allowsZeroWidthToken l (ls_AcceptToken st)) in
         if \<not> (isImmediate \<and> skippedWhitespace) \<and> \<not> zeroWidthVisible then
           (let newPrio = ls_AcceptPriority st in
            if sc_acceptPos s < 0 \<or> newPrio < sc_acceptPriorityBest s
               \<or> (newPrio = sc_acceptPriorityBest s \<and> int (sc_pos s) \<ge> sc_acceptPos s)
            then s\<lparr>sc_acceptPos := int (sc_pos s), sc_acceptRow := sc_row s, sc_acceptCol := sc_col s,
                   sc_acceptStartPos := sc_tokenStartPos s, sc_acceptStartRow := sc_tokenStartRow s,
                   sc_acceptStartCol := sc_tokenStartCol s, sc_acceptSymbol := ls_AcceptToken st,
                   sc_acceptSkip := ls_Skip st, sc_acceptPriorityBest := newPrio\<rparr>
            else s)
         else s)
      else s)"

text \<open>Consuming a rune: the position and point move, and a skip transition restarts the token.\<close>

definition scan_consume :: "rune \<Rightarrow> nat \<Rightarrow> int \<Rightarrow> bool \<Rightarrow> scan_state \<Rightarrow> scan_state" where
  "scan_consume r width nextState skipTransition s =
     (let s1 = (if r = 10 then s\<lparr>sc_pos := sc_pos s + width, sc_row := sc_row s + 1, sc_col := 0\<rparr>
                else s\<lparr>sc_pos := sc_pos s + width, sc_col := sc_col s + of_nat width\<rparr>);
          s2 = (if skipTransition then
                  s1\<lparr>sc_skippedPrefix := True, sc_tokenStartPos := sc_pos s1, sc_tokenStartRow := sc_row s1,
                     sc_tokenStartCol := sc_col s1, sc_acceptPos := -1, sc_acceptSymbol := 0,
                     sc_acceptSkip := False\<rparr>
                else s1) in
      s2\<lparr>sc_curState := nextState\<rparr>)"

lemma scan_accept_fields [simp]:
  "sc_pos (scan_accept l p st s) = sc_pos s" "sc_eofHops (scan_accept l p st s) = sc_eofHops s"
  "sc_curState (scan_accept l p st s) = sc_curState s"
  "sc_row (scan_accept l p st s) = sc_row s" "sc_col (scan_accept l p st s) = sc_col s"
  "sc_tokenStartPos (scan_accept l p st s) = sc_tokenStartPos s"
  "sc_tokenStartRow (scan_accept l p st s) = sc_tokenStartRow s"
  "sc_tokenStartCol (scan_accept l p st s) = sc_tokenStartCol s"
  "sc_skippedPrefix (scan_accept l p st s) = sc_skippedPrefix s"
  by (simp_all add: scan_accept_def Let_def)

lemma scan_consume_fields [simp]:
  "sc_pos (scan_consume r width n k s) = sc_pos s + width"
  "sc_eofHops (scan_consume r width n k s) = sc_eofHops s"
  "sc_curState (scan_consume r width n k s) = n"
  by (simp_all add: scan_consume_def Let_def)

lemma rune_at_size:
  assumes "pos < length source"
  shows "0 < snd (rune_at source pos)" "pos + snd (rune_at source pos) \<le> length source"
  using assms decode_rune_size_pos [of "drop pos source"] decode_rune_size_le [of "drop pos source"]
  by (auto simp: rune_at_def Let_def)

function scan_loop :: "lexer \<Rightarrow> nat \<Rightarrow> scan_state \<Rightarrow> scan_state" where
  "scan_loop l startPos s =
     (if sc_curState s < 0 \<or> nat (sc_curState s) \<ge> length (lx_states l) then s
      else
        let st = lx_states l ! nat (sc_curState s); s1 = scan_accept l startPos st s in
        if sc_pos s1 \<ge> length (lx_source l) then
          let eofState = lexerEOFState st in
          if eofState \<ge> 0 \<and> sc_eofHops s1 \<le> length (lx_states l)
          then scan_loop l startPos (s1\<lparr>sc_curState := int32 eofState, sc_eofHops := sc_eofHops s1 + 1\<rparr>)
          else s1
        else
          let s2 = s1\<lparr>sc_eofHops := 0\<rparr>;
              b = lx_source l ! sc_pos s2;
              (r, width) = rune_at (lx_source l) (sc_pos s2);
              (nextState, skipTransition) =
                next_transition (lx_asciiTable l) (nat (sc_curState s2)) st b r in
          if nextState < 0 then s2
          else scan_loop l startPos (scan_consume r width nextState skipTransition s2))"
  by pat_completeness auto
termination
proof (relation "measures [\<lambda>(l, p, s). length (lx_source l) - sc_pos s,
    \<lambda>(l, p, s). length (lx_states l) + 1 - sc_eofHops s]", goal_cases)
  case 1 then show ?case by simp
next
  case 2 then show ?case by auto
next
  case (3 l startPos s st s1 s2 b rn r width tr nextState skipTransition)
  then have "0 < width" using rune_at_size(1) [of "sc_pos s2" "lx_source l"] by (auto simp: prod_eq_iff)
  with 3 show ?case by auto
qed

declare scan_loop.simps [simp del]

text \<open>
  The fallback after the loop for tables without end-token acceptance: when the scan hopped through
  end-of-input states and accepted nothing, the rest counts as skipped.
\<close>

definition scan_eof_fallback :: "scan_state \<Rightarrow> scan_state" where
  "scan_eof_fallback s =
     (if sc_acceptPos s < 0 \<and> sc_eofHops s > 0
      then s\<lparr>sc_acceptPos := int (sc_pos s), sc_acceptRow := sc_row s, sc_acceptCol := sc_col s,
             sc_acceptStartPos := sc_tokenStartPos s, sc_acceptStartRow := sc_tokenStartRow s,
             sc_acceptStartCol := sc_tokenStartCol s, sc_acceptSymbol := 0, sc_acceptSkip := True\<rparr>
      else s)"

definition scan_lookahead :: "lexer \<Rightarrow> scan_state \<Rightarrow> u32" where
  "scan_lookahead l s =
     (let la = lookaheadEndByteAt l (sc_pos s) True; a = of_int (max (sc_acceptPos s) 0) in
      if la < a then a else la)"

text \<open>The token fields that both results of an accepting scan share.\<close>

definition accepted_token :: "nat \<Rightarrow> u32 \<Rightarrow> scan_state \<Rightarrow> token" where
  "accepted_token startPos la s =
     zero_token\<lparr>tk_StartByte := of_nat (sc_acceptStartPos s), tk_EndByte := of_int (sc_acceptPos s),
       tk_StartPoint := \<lparr>Row = sc_acceptStartRow s, Column = sc_acceptStartCol s\<rparr>,
       tk_EndPoint := \<lparr>Row = sc_acceptRow s, Column = sc_acceptCol s\<rparr>,
       tk_lexFlags := lexFlagIf (sc_skippedPrefix s) tokenFlagSkippedPrefix,
       tk_lexerSkippedPrefixStart := of_nat startPos, tk_lexerLookaheadEndByte := la\<rparr>"

definition scanContiguousInto ::
    "lexer \<Rightarrow> u32 \<Rightarrow> nat \<Rightarrow> u32 \<Rightarrow> u32 \<Rightarrow> (token \<times> bool) \<times> lexer" where
  "scanContiguousInto l startState startPos startRow startCol =
     (let curState = int32 (uint startState) in
      if curState < 0 \<or> nat curState \<ge> length (lx_states l) then ((zero_token, False), l)
      else
        let s = scan_eof_fallback
                  (scan_loop l startPos (scan_start curState startPos startRow startCol));
            la = scan_lookahead l s in
        if sc_acceptPos s < 0 then
          ((zero_token\<lparr>tk_lexerLookaheadEndByte := la\<rparr>, False),
           l\<lparr>lx_failTokenStartPos := sc_tokenStartPos s, lx_failTokenStartRow := sc_tokenStartRow s,
             lx_failTokenStartCol := sc_tokenStartCol s, lx_failTokenStartRangeIdx := 0,
             lx_failTokenEnd := zero_cursor\<lparr>cu_pos := sc_pos s, cu_row := sc_row s, cu_col := sc_col s\<rparr>\<rparr>)
        else
          let l' = l\<lparr>lx_pos := nat (sc_acceptPos s), lx_row := sc_acceptRow s, lx_col := sc_acceptCol s\<rparr>;
              tok = accepted_token startPos la s in
          if sc_acceptSkip s then ((tok, True), l')
          else ((tok\<lparr>tk_Symbol := sc_acceptSymbol s,
                     tk_Text := slice (lx_source l) (sc_acceptStartPos s) (nat (sc_acceptPos s)),
                     tk_lexFlags := or (tk_lexFlags tok) tokenFlagInternalDFALexed\<rparr>, True), l'))"

section \<open>The ASCII table agrees with the transition list\<close>

text \<open>The cells of a row no transition has claimed yet.\<close>

definition free_cells :: "32 word list \<Rightarrow> nat set" where
  "free_cells row = {i. i < length row \<and> row ! i = lexAsciiNoMatch}"

lemma free_cells_update:
  assumes "i \<in> free_cells row" "v \<noteq> lexAsciiNoMatch"
  shows "free_cells (row[i := v]) = free_cells row - {i}"
  using assms by (auto simp: free_cells_def nth_list_update)

lemma finite_free_cells [simp]: "finite (free_cells row)"
  by (simp add: free_cells_def)

lemma fill_row_spec:
  assumes "0 \<le> c" "hi < int (length row)" "v \<noteq> lexAsciiNoMatch" "card (free_cells row) \<le> remaining"
    and "fill_row row remaining v c hi = (row', remaining')"
  shows "length row' = length row \<and> card (free_cells row') \<le> remaining' \<and> (\<forall>i<length row.
       row' ! i = (if c \<le> int i \<and> int i \<le> hi \<and> row ! i = lexAsciiNoMatch then v else row ! i))"
  using assms
proof (induction row remaining v c hi arbitrary: row' remaining' rule: fill_row.induct)
  case (1 row remaining v c hi)
  show ?case
  proof (cases "c \<le> hi")
    case False
    then show ?thesis using "1.prems" by (auto simp: fill_row.simps)
  next
    case le: True
    show ?thesis
    proof (cases "row ! nat c = lexAsciiNoMatch")
      case True
      let ?row = "row[nat c := v]"
      have free: "nat c \<in> free_cells row" using True le "1.prems" by (auto simp: free_cells_def)
      have "card (free_cells ?row) \<le> remaining - 1"
        using free_cells_update [OF free "1.prems"(3)] free "1.prems"(4) by (simp add: card_Diff_singleton_if)
      moreover have "fill_row ?row (remaining - 1) v (c + 1) hi = (row', remaining')"
        using "1.prems"(5) le True by (subst (asm) fill_row.simps) simp
      ultimately have "length row' = length ?row \<and> card (free_cells row') \<le> remaining' \<and> (\<forall>i<length ?row.
          row' ! i = (if c + 1 \<le> int i \<and> int i \<le> hi \<and> ?row ! i = lexAsciiNoMatch then v else ?row ! i))"
        using "1.prems"(1-3) by (intro "1.IH"(1) [OF le True]) auto
      then show ?thesis
        using True "1.prems"(1-3) le by (auto simp: nth_list_update)
    next
      case False
      moreover have "fill_row row remaining v (c + 1) hi = (row', remaining')"
        using "1.prems"(5) le False by (subst (asm) fill_row.simps) simp
      ultimately have IH: "length row' = length row \<and> card (free_cells row') \<le> remaining' \<and> (\<forall>i<length row.
          row' ! i = (if c + 1 \<le> int i \<and> int i \<le> hi \<and> row ! i = lexAsciiNoMatch then v else row ! i))"
        using "1.prems"(1-4) by (intro "1.IH"(2) [OF le False]) auto
      have "c + 1 \<le> int i \<longleftrightarrow> c \<le> int i" if "row ! i = lexAsciiNoMatch" for i
        using False that "1.prems"(1) by (cases "c = int i") auto
      with IH show ?thesis by (auto simp del: zle_add1_eq_le)
    qed
  qed
qed

text \<open>The entry the first matching transition writes, if any.\<close>

fun first_entry :: "lexTransition list \<Rightarrow> int \<Rightarrow> 32 word" where
  "first_entry [] c = lexAsciiNoMatch"
| "first_entry (tr # trs) c =
     (if lt_Lo tr \<le> c \<and> c \<le> lt_Hi tr then transition_entry tr else first_entry trs c)"

text \<open>Transition targets a table can encode.\<close>

definition encodable :: "lexTransition \<Rightarrow> bool" where
  "encodable tr \<longleftrightarrow> 0 \<le> lt_NextState tr \<and> lt_NextState tr < 0x7FFFFFFF"

lemma bit_lexAsciiSkipBit: "bit lexAsciiSkipBit n \<longleftrightarrow> n = 31"
proof -
  have "lexAsciiSkipBit = push_bit 31 1" unfolding lexAsciiSkipBit_def by code_simp
  moreover have "bit (push_bit 31 (1 :: 32 word)) n \<longleftrightarrow> n = 31"
    by (simp only: bit_push_bit_iff bit_1_iff) auto
  ultimately show ?thesis by (simp only:)
qed

lemma bit_lexAsciiNoMatch: "\<not> bit lexAsciiNoMatch 31"
  unfolding lexAsciiNoMatch_def by code_simp

lemma encodable_bit:
  assumes "encodable tr"
  shows "\<not> bit (word_of_int (lt_NextState tr) :: 32 word) 31"
    "word_of_int (lt_NextState tr) \<noteq> lexAsciiNoMatch"
proof -
  let ?x = "lt_NextState tr"
  have x: "0 \<le> ?x" "?x < 2147483647" using assms by (auto simp: encodable_def)
  then have "bit ?x 31 = odd (?x div 2 ^ 31)" by (simp add: bit_iff_odd)
  also have "?x div 2 ^ 31 = 0" using x by simp
  finally show "\<not> bit (word_of_int ?x :: 32 word) 31" by (simp add: bit_word_of_int_iff)
  have "uint (word_of_int ?x :: 32 word) = ?x"
    using x by (simp add: uint_word_of_int_eq take_bit_int_eq_self)
  moreover have "uint lexAsciiNoMatch = 2147483647" unfolding lexAsciiNoMatch_def by code_simp
  ultimately show "word_of_int ?x \<noteq> lexAsciiNoMatch" using x by auto
qed

lemma transition_entry_bits:
  assumes "encodable tr"
  shows "transition_entry tr \<noteq> lexAsciiNoMatch"
    "and (transition_entry tr) (not lexAsciiSkipBit) = word_of_int (lt_NextState tr)"
    "(and (transition_entry tr) lexAsciiSkipBit \<noteq> 0) = lt_Skip tr"
proof -
  let ?v = "word_of_int (lt_NextState tr) :: 32 word"
  note hi = encodable_bit [OF assms]
  have "bit (or ?v lexAsciiSkipBit) 31" by (simp add: bit_or_iff bit_lexAsciiSkipBit)
  then show "transition_entry tr \<noteq> lexAsciiNoMatch"
    using hi(2) bit_lexAsciiNoMatch by (auto simp: transition_entry_def Let_def)
  show "and (transition_entry tr) (not lexAsciiSkipBit) = ?v"
  proof (rule bit_word_eqI)
    fix n assume "n < LENGTH(32)"
    then show "bit (and (transition_entry tr) (not lexAsciiSkipBit)) n = bit ?v n"
      using hi(1) by (cases "n = 31")
        (auto simp: transition_entry_def Let_def bit_and_iff bit_or_iff bit_not_iff bit_lexAsciiSkipBit)
  qed
  have "bit (and (transition_entry tr) lexAsciiSkipBit) n \<longleftrightarrow> lt_Skip tr \<and> n = 31" for n
    using hi(1) by (auto simp: transition_entry_def Let_def bit_and_iff bit_or_iff bit_lexAsciiSkipBit)
  then show "(and (transition_entry tr) lexAsciiSkipBit \<noteq> 0) = lt_Skip tr"
    by (metis bit_0_eq bit_word_eqI bot_apply bot_bool_def)
qed

lemma build_row_spec:
  assumes "list_all encodable trs" "length row = 128" "card (free_cells row) \<le> remaining" "i < 128"
  shows "build_row row remaining trs ! i =
    (if row ! i = lexAsciiNoMatch then first_entry trs (int i) else row ! i)"
  using assms
proof (induction trs arbitrary: row remaining)
  case (Cons tr trs)
  let ?lo = "if lt_Lo tr < 0 then 0 else lt_Lo tr" and ?hi = "if lt_Hi tr > 127 then 127 else lt_Hi tr"
  consider "remaining = 0" | "remaining \<noteq> 0" "lt_Hi tr < 0 \<or> lt_Lo tr \<ge> 128"
    | "remaining \<noteq> 0" "\<not> (lt_Hi tr < 0 \<or> lt_Lo tr \<ge> 128)" by blast
  then show ?case
  proof cases
    case 1
    then have "free_cells row = {}" using Cons.prems(3) by simp
    then have "row ! i \<noteq> lexAsciiNoMatch" using Cons.prems(2,4) by (auto simp: free_cells_def)
    then show ?thesis using 1 by simp
  next
    case 2
    then show ?thesis using Cons by auto
  next
    case 3
    obtain row' remaining' where f: "fill_row row remaining (transition_entry tr) ?lo ?hi = (row', remaining')"
      by (cases "fill_row row remaining (transition_entry tr) ?lo ?hi")
    have sp: "length row' = length row \<and> card (free_cells row') \<le> remaining' \<and> (\<forall>i<length row.
       row' ! i = (if ?lo \<le> int i \<and> int i \<le> ?hi \<and> row ! i = lexAsciiNoMatch then transition_entry tr else row ! i))"
      using f Cons.prems transition_entry_bits(1) [of tr] by (intro fill_row_spec) auto
    then have "build_row row' remaining' trs ! i =
        (if row' ! i = lexAsciiNoMatch then first_entry trs (int i) else row' ! i)"
      using Cons.prems by (intro Cons.IH) auto
    then show ?thesis
      using 3 sp f Cons.prems transition_entry_bits(1) [of tr] by (auto simp: Let_def)
  qed
qed simp

lemma first_entry_transitions:
  assumes "list_all encodable trs"
  shows "(let v = first_entry trs c in
      if v \<noteq> lexAsciiNoMatch
      then (sint (and v (not lexAsciiSkipBit)), and v lexAsciiSkipBit \<noteq> 0) else (-1, False))
    = scan_transitions trs c"
  using assms
  by (induction trs) (auto simp: Let_def transition_entry_bits int32_def)

lemma ascii_transition_scan:
  assumes "state < length states" "b < 0x80" "list_all encodable (ls_Transitions (states ! state))"
  shows "ascii_transition (buildLexAsciiTable states) state b
    = scan_transitions (ls_Transitions (states ! state)) (uint b)"
proof -
  have b: "unat b < 128" using assms(2) by (simp add: word_less_nat_alt)
  have "card (free_cells (replicate 128 lexAsciiNoMatch)) \<le> card {..<128::nat}"
    by (intro card_mono) (auto simp: free_cells_def)
  then have "buildLexAsciiTable states ! state ! unat b = first_entry (ls_Transitions (states ! state)) (uint b)"
    using build_row_spec [OF assms(3), of "replicate 128 lexAsciiNoMatch" 128 "unat b"] assms(1) b
    by (simp add: buildLexAsciiTable_def)
  then show ?thesis
    using first_entry_transitions [OF assms(3), of "uint b"] by (simp add: ascii_transition_def)
qed

text \<open>
  C20. The ASCII fast path is exact: with the table \<open>buildLexAsciiTable\<close> builds, the transition a scan
  takes on any byte and rune is the one the linear search through the state's ranges gives, for
  every state whose targets fit in 31 bits below the no-match mark.
\<close>

theorem ascii_fast_path_exact:
  assumes "state < length states" "list_all encodable (ls_Transitions (states ! state))"
    and "b < 0x80 \<Longrightarrow> r = uint b"
  shows "next_transition (buildLexAsciiTable states) state (states ! state) b r
    = next_transition [] state (states ! state) b r"
  using ascii_transition_scan [OF assms(1) _ assms(2), of b] assms(3) by (simp add: next_transition_def)

definition sample_state :: lexState where
  "sample_state = \<lparr>ls_AcceptToken = 0, ls_AcceptPriority = 0, ls_Skip = False, ls_AcceptEOF = False,
     ls_Default = -1, ls_EOF = -1,
     ls_Transitions = [\<lparr>lt_Lo = 32, lt_Hi = 32, lt_NextState = 0, lt_Skip = True\<rparr>,
       \<lparr>lt_Lo = 97, lt_Hi = 0x10FFFF, lt_NextState = 1, lt_Skip = False\<rparr>]\<rparr>"

theorem ascii_fast_path_exact_witness:
  "next_transition (buildLexAsciiTable [sample_state]) 0 sample_state 32 32 = (0, True)
   \<and> next_transition (buildLexAsciiTable [sample_state]) 0 sample_state 33 33 = (-1, False)"
proof -
  have ok: "(0::nat) < length [sample_state]" "list_all encodable (ls_Transitions ([sample_state] ! 0))"
    by code_simp+
  have "next_transition [] 0 sample_state 32 32 = (0, True)"
    "next_transition [] 0 sample_state 33 33 = (-1, False)" by code_simp+
  moreover have "uint (32 :: u8) = 32" "uint (33 :: u8) = 33" by simp_all
  ultimately show ?thesis
    using ascii_fast_path_exact [OF ok, of 32 32] ascii_fast_path_exact [OF ok, of 33 33] by simp
qed

section \<open>Where a scanned token lies\<close>

lemma decode_rune_high_bytes:
  assumes "1 < snd (decode_rune p)" "b \<in> set (take (snd (decode_rune p)) p)"
  shows "128 \<le> uint b"
  using assms
  by (auto simp: decode_rune_def Let_def continuation_def second_lo_def split: list.splits if_splits)

lemma decode_rune_width1:
  assumes "snd (decode_rune (b # p)) = 1"
  shows "fst (decode_rune (b # p)) = 10 \<longleftrightarrow> b = 10"
proof (cases "uint b < 128")
  case True
  then have "fst (decode_rune (b # p)) = uint b" by (simp add: decode_rune_ascii)
  moreover have "uint b = 10 \<longleftrightarrow> b = 10" by (auto simp: word_uint_eq_iff)
  ultimately show ?thesis by simp
next
  case False
  then have "fst (decode_rune (b # p)) = RuneError"
    using assms by (auto simp: decode_rune_def Let_def split: list.splits if_splits)
  then show ?thesis using False by (auto simp: RuneError_def)
qed

lemma advance_point_loop_plain:
  "newline \<notin> set b \<Longrightarrow> advance_point_loop pt b = pt\<lparr>Column := Column pt + of_nat (length b)\<rparr>"
  by (induction b arbitrary: pt) (auto simp: algebra_simps)

lemma rune_at_decode: "pos < length source \<Longrightarrow> rune_at source pos = decode_rune (drop pos source)"
  by (auto simp: rune_at_def Let_def Cons_nth_drop_Suc [symmetric] decode_rune_ascii word_less_def)

lemma rune_at_point:
  assumes "pos < length source" "rune_at source pos = (r, width)"
  shows "advance_point_loop pt (slice source pos (pos + width)) =
    (if r = 10 then \<lparr>Row = Row pt + 1, Column = 0\<rparr> else pt\<lparr>Column := Column pt + of_nat width\<rparr>)"
proof -
  let ?p = "drop pos source"
  have d: "decode_rune ?p = (r, width)" using assms rune_at_decode by simp
  have w: "0 < width" "pos + width \<le> length source" using rune_at_size [OF assms(1)] assms(2) by auto
  have sl: "slice source pos (pos + width) = take width ?p" by (simp add: slice_def)
  have p: "?p = source ! pos # drop (Suc pos) source" using assms(1) by (simp add: Cons_nth_drop_Suc)
  show ?thesis
  proof (cases "width = 1")
    case True
    then have "r = 10 \<longleftrightarrow> source ! pos = 10" using decode_rune_width1 d p by (metis fst_conv snd_conv)
    then show ?thesis using True slice_Cons [of pos "Suc pos" source] assms(1) by (simp add: newline_def)
  next
    case False
    then have "newline \<notin> set (take width ?p)"
      using decode_rune_high_bytes [of ?p newline] d w by (auto simp: newline_def)
    moreover have "r \<noteq> 10" using decode_rune_newline [of ?p] d False by auto
    ultimately show ?thesis using w by (simp add: sl advance_point_loop_plain)
  qed
qed

text \<open>The point of byte \<open>q\<close>, counted from the point \<open>pt\<close> of byte \<open>p\<close>.\<close>

definition point_at :: "bytes \<Rightarrow> nat \<Rightarrow> point \<Rightarrow> nat \<Rightarrow> point" where
  "point_at source p pt q = advance_point_loop pt (slice source p q)"

lemma point_at_step:
  assumes "p \<le> q" "q < length source" "rune_at source q = (r, width)"
  shows "point_at source p pt (q + width) =
    (if r = 10 then \<lparr>Row = Row (point_at source p pt q) + 1, Column = 0\<rparr>
     else (point_at source p pt q)\<lparr>Column := Column (point_at source p pt q) + of_nat width\<rparr>)"
  using rune_at_point [OF assms(2,3)] slice_split [of p q "q + width" source] assms(1)
  by (simp add: point_at_def advance_point_loop_append)

definition scan_inv :: "lexer \<Rightarrow> nat \<Rightarrow> point \<Rightarrow> scan_state \<Rightarrow> bool" where
  "scan_inv l p pt s \<longleftrightarrow>
     p \<le> sc_tokenStartPos s \<and> sc_tokenStartPos s \<le> sc_pos s \<and> sc_pos s \<le> length (lx_source l) \<and>
     sc_skippedPrefix s = (p < sc_tokenStartPos s) \<and>
     \<lparr>Row = sc_row s, Column = sc_col s\<rparr> = point_at (lx_source l) p pt (sc_pos s) \<and>
     \<lparr>Row = sc_tokenStartRow s, Column = sc_tokenStartCol s\<rparr> = point_at (lx_source l) p pt (sc_tokenStartPos s) \<and>
     (0 \<le> sc_acceptPos s \<longrightarrow>
        sc_acceptStartPos s = sc_tokenStartPos s \<and> sc_tokenStartPos s \<le> nat (sc_acceptPos s) \<and>
        nat (sc_acceptPos s) \<le> sc_pos s \<and>
        \<lparr>Row = sc_acceptStartRow s, Column = sc_acceptStartCol s\<rparr>
          = point_at (lx_source l) p pt (sc_tokenStartPos s) \<and>
        \<lparr>Row = sc_acceptRow s, Column = sc_acceptCol s\<rparr>
          = point_at (lx_source l) p pt (nat (sc_acceptPos s)))"

lemma scan_inv_accept: "scan_inv l p pt s \<Longrightarrow> scan_inv l p pt (scan_accept l p st s)"
  by (auto simp: scan_accept_def scan_inv_def Let_def)

lemma scan_inv_hop [simp]:
  "scan_inv l p pt (s\<lparr>sc_curState := x, sc_eofHops := h\<rparr>) = scan_inv l p pt s"
  "scan_inv l p pt (s\<lparr>sc_eofHops := h\<rparr>) = scan_inv l p pt s"
  "scan_inv l p pt (s\<lparr>sc_curState := x\<rparr>) = scan_inv l p pt s"
  by (simp_all add: scan_inv_def)

lemma scan_inv_consume:
  assumes inv: "scan_inv l p pt s" and pos: "sc_pos s < length (lx_source l)"
    and rn: "rune_at (lx_source l) (sc_pos s) = (r, width)"
  shows "scan_inv l p pt (scan_consume r width n k s)"
proof -
  have w: "0 < width" "sc_pos s + width \<le> length (lx_source l)"
    using rune_at_size [OF pos] rn by auto
  have le: "p \<le> sc_pos s" using inv by (auto simp: scan_inv_def)
  have pt: "\<lparr>Row = sc_row s, Column = sc_col s\<rparr> = point_at (lx_source l) p pt (sc_pos s)"
    using inv by (simp add: scan_inv_def)
  have step: "point_at (lx_source l) p pt (sc_pos s + width) =
      (if r = 10 then \<lparr>Row = sc_row s + 1, Column = 0\<rparr> else \<lparr>Row = sc_row s, Column = sc_col s + of_nat width\<rparr>)"
    using point_at_step [OF le pos rn, of pt] pt [symmetric] by simp
  show ?thesis
    using inv w step by (auto simp: scan_consume_def scan_inv_def Let_def)
qed

text \<open>
  One turn of the loop, split at the three ways it continues: a rule for properties that acceptance,
  end-of-input hops and consuming a rune keep.
\<close>

lemma scan_loop_preserves:
  assumes "Q s"
    and "\<And>s st. Q s \<Longrightarrow> Q (scan_accept l p st s)"
    and "\<And>s x h. Q s \<Longrightarrow> sc_pos s \<ge> length (lx_source l) \<Longrightarrow> Q (s\<lparr>sc_curState := x, sc_eofHops := h\<rparr>)"
    and "\<And>s. Q s \<Longrightarrow> Q (s\<lparr>sc_eofHops := 0\<rparr>)"
    and "\<And>s r width n k. Q s \<Longrightarrow> sc_pos s < length (lx_source l) \<Longrightarrow>
           rune_at (lx_source l) (sc_pos s) = (r, width) \<Longrightarrow> Q (scan_consume r width n k s)"
  shows "Q (scan_loop l p s)"
  using assms
proof (induction l p s rule: scan_loop.induct)
  case (1 l p s)
  show ?case
  proof (cases "sc_curState s < 0 \<or> nat (sc_curState s) \<ge> length (lx_states l)")
    case True
    then show ?thesis using "1.prems"(1) by (simp add: scan_loop.simps [of l p s])
  next
    case in_table: False
    let ?st = "lx_states l ! nat (sc_curState s)"
    let ?s1 = "scan_accept l p ?st s"
    have Q1: "Q ?s1" using "1.prems"(1,2) by blast
    show ?thesis
    proof (cases "sc_pos ?s1 \<ge> length (lx_source l)")
      case True
      then show ?thesis
        using "1.IH"(1) [OF in_table refl refl True refl] in_table Q1 "1.prems"
        by (subst scan_loop.simps) (auto simp: Let_def)
    next
      case False
      obtain r width where rn: "rune_at (lx_source l) (sc_pos ?s1) = (r, width)"
        by (cases "rune_at (lx_source l) (sc_pos ?s1)")
      let ?s2 = "?s1\<lparr>sc_eofHops := 0\<rparr>"
      obtain n k where tr: "next_transition (lx_asciiTable l) (nat (sc_curState ?s2)) ?st
          (lx_source l ! sc_pos ?s2) r = (n, k)" by (cases "next_transition (lx_asciiTable l)
          (nat (sc_curState ?s2)) ?st (lx_source l ! sc_pos ?s2) r")
      have Q2: "Q ?s2" using Q1 "1.prems"(4) by blast
      have "Q (scan_loop l p (scan_consume r width n k ?s2))" if "\<not> n < 0"
        using "1.IH"(2) [OF in_table refl refl False refl refl refl _ refl _ that, of r width k]
          "1.prems"(5) [OF Q2] rn tr False "1.prems"(2-5) by simp
      then show ?thesis
        using in_table False rn tr Q2 by (subst scan_loop.simps) (auto simp: Let_def)
    qed
  qed
qed

lemma scan_loop_inv: "scan_inv l p pt s \<Longrightarrow> scan_inv l p pt (scan_loop l p s)"
  by (rule scan_loop_preserves [where Q = "scan_inv l p pt"])
    (auto intro: scan_inv_accept scan_inv_consume)

lemma scan_start_inv:
  assumes "p \<le> length (lx_source l)"
  shows "scan_inv l p \<lparr>Row = r, Column = c\<rparr> (scan_start cur p r c)"
  using assms by (simp add: scan_inv_def scan_start_def point_at_def)

lemma scan_fallback_inv: "scan_inv l p pt s \<Longrightarrow> scan_inv l p pt (scan_eof_fallback s)"
  by (auto simp: scan_inv_def scan_eof_fallback_def)

lemma scanContiguousInto_result:
  assumes "p \<le> length (lx_source l)" "scanContiguousInto l st p r c = ((tok, True), l')"
  obtains s where "scan_inv l p \<lparr>Row = r, Column = c\<rparr> s" "0 \<le> sc_acceptPos s"
    "l' = l\<lparr>lx_pos := nat (sc_acceptPos s), lx_row := sc_acceptRow s, lx_col := sc_acceptCol s\<rparr>"
    "tok = accepted_token p (scan_lookahead l s) s \<or>
     tok = (accepted_token p (scan_lookahead l s) s)\<lparr>tk_Symbol := sc_acceptSymbol s,
       tk_Text := slice (lx_source l) (sc_acceptStartPos s) (nat (sc_acceptPos s)),
       tk_lexFlags := or (tk_lexFlags (accepted_token p (scan_lookahead l s) s)) tokenFlagInternalDFALexed\<rparr>"
proof -
  let ?s = "scan_eof_fallback (scan_loop l p (scan_start (int32 (uint st)) p r c))"
  have "scan_inv l p \<lparr>Row = r, Column = c\<rparr> ?s"
    by (intro scan_fallback_inv scan_loop_inv scan_start_inv assms(1))
  then show ?thesis
    using assms(2) by (intro that [of ?s]) (auto simp: scanContiguousInto_def Let_def split: if_splits)
qed

lemma scan_flag_bits:
  "(and (lexFlagIf b tokenFlagSkippedPrefix) tokenFlagSkippedPrefix = 0) \<longleftrightarrow> \<not> b"
  "(and (or (lexFlagIf b tokenFlagSkippedPrefix) tokenFlagInternalDFALexed) tokenFlagSkippedPrefix = 0) \<longleftrightarrow> \<not> b"
  "and (lexFlagIf b tokenFlagSkippedPrefix) tokenFlagInternalDFALexed = 0"
  "tokenFlagInternalDFALexed \<noteq> 0"
  by (simp_all add: lexFlagIf_def tokenFlagSkippedPrefix_def tokenFlagInternalDFALexed_def)

text \<open>
  What a successful scan from byte \<open>p\<close> at point \<open>pt\<close> promises: the token lies after \<open>p\<close> inside the
  source, the lexer stands at its end, its points are the ones its bytes give, its text is the
  spanned source, the skipped-prefix flag says whether it starts after \<open>p\<close>, and the recorded
  lookahead reaches at least its end.
\<close>

definition token_placed :: "bytes \<Rightarrow> nat \<Rightarrow> point \<Rightarrow> token \<Rightarrow> lexer \<Rightarrow> bool" where
  "token_placed source p pt tok l' \<longleftrightarrow>
     p \<le> unat (tk_StartByte tok) \<and> tk_StartByte tok \<le> tk_EndByte tok \<and>
     unat (tk_EndByte tok) = lx_pos l' \<and> lx_pos l' \<le> length source \<and>
     tk_StartPoint tok = advancePointByBytes pt (slice source p (unat (tk_StartByte tok))) \<and>
     tk_EndPoint tok = advancePointByBytes pt (slice source p (unat (tk_EndByte tok))) \<and>
     \<lparr>Row = lx_row l', Column = lx_col l'\<rparr> = tk_EndPoint tok \<and>
     (lexerInternalDFALexed tok \<longrightarrow>
        tk_Text tok = slice source (unat (tk_StartByte tok)) (unat (tk_EndByte tok))) \<and>
     (\<not> lexerInternalDFALexed tok \<longrightarrow> tk_Symbol tok = 0) \<and>
     lexerSkippedPrefix tok = (p < unat (tk_StartByte tok)) \<and>
     tk_EndByte tok \<le> tk_lexerLookaheadEndByte tok"

lemma scan_placed:
  assumes "p \<le> length (lx_source l)" "length (lx_source l) < 4294967296"
    and "scanContiguousInto l st p r c = ((tok, True), l')"
  shows "token_placed (lx_source l) p \<lparr>Row = r, Column = c\<rparr> tok l'"
proof -
  obtain s where s: "scan_inv l p \<lparr>Row = r, Column = c\<rparr> s" "0 \<le> sc_acceptPos s"
    and l': "l' = l\<lparr>lx_pos := nat (sc_acceptPos s), lx_row := sc_acceptRow s, lx_col := sc_acceptCol s\<rparr>"
    and tok: "tok = accepted_token p (scan_lookahead l s) s \<or>
     tok = (accepted_token p (scan_lookahead l s) s)\<lparr>tk_Symbol := sc_acceptSymbol s,
       tk_Text := slice (lx_source l) (sc_acceptStartPos s) (nat (sc_acceptPos s)),
       tk_lexFlags := or (tk_lexFlags (accepted_token p (scan_lookahead l s) s)) tokenFlagInternalDFALexed\<rparr>"
    using scanContiguousInto_result [OF assms(1,3)] by metis
  obtain a where a: "sc_acceptPos s = int a" using s(2) by (metis nonneg_int_cases)
  have inv: "p \<le> sc_tokenStartPos s" "sc_tokenStartPos s \<le> a" "a \<le> length (lx_source l)"
    "sc_acceptStartPos s = sc_tokenStartPos s" "sc_skippedPrefix s = (p < sc_tokenStartPos s)"
    "\<lparr>Row = sc_acceptStartRow s, Column = sc_acceptStartCol s\<rparr>
       = point_at (lx_source l) p \<lparr>Row = r, Column = c\<rparr> (sc_tokenStartPos s)"
    "\<lparr>Row = sc_acceptRow s, Column = sc_acceptCol s\<rparr> = point_at (lx_source l) p \<lparr>Row = r, Column = c\<rparr> a"
    using s a by (auto simp: scan_inv_def)
  have n: "unat (of_nat (sc_tokenStartPos s) :: u32) = sc_tokenStartPos s" "unat (of_nat a :: u32) = a"
    "(of_nat (sc_tokenStartPos s) :: u32) \<le> of_nat a"
    using inv assms(2) by (auto simp: u32_of_nat_le_iff)
  have la: "of_nat a \<le> scan_lookahead l s"
    by (auto simp: scan_lookahead_def Let_def a)
  show ?thesis
    using tok by (elim disjE; simp add: l' token_placed_def accepted_token_def a n inv la
        point_at_def advancePointByBytes_is_loop zero_token_def lexerSkippedPrefix_def lexerInternalDFALexed_def
        scan_flag_bits)
qed

text \<open>
  C22. A token a contiguous scan accepts lies where the source says it does: it starts at or after the
  scan position and ends inside the source at the lexer's new position; both points are the ones the
  bytes up to there give; its text is the spanned source; the skipped-prefix flag tells whether
  padding came first; and the recorded lookahead reaches at least the end of the token.
\<close>

theorem scanned_token_placed:
  assumes "p \<le> length (lx_source l)" "length (lx_source l) < 4294967296"
    and "scanContiguousInto l st p r c = ((tok, True), l')"
  shows "token_placed (lx_source l) p \<lparr>Row = r, Column = c\<rparr> tok l'"
  using assms by (rule scan_placed)

definition letter_states :: "lexState list" where
  "letter_states = [sample_state, sample_state\<lparr>ls_AcceptToken := 7\<rparr>]"

theorem scanned_token_placed_witness:
  "token_placed [32, 97, 98] 0 \<lparr>Row = 0, Column = 0\<rparr>
     (fst (fst (scanContiguousInto (NewLexer letter_states [32, 97, 98]) 0 0 0 0)))
     (snd (scanContiguousInto (NewLexer letter_states [32, 97, 98]) 0 0 0 0))"
proof -
  let ?l = "NewLexer letter_states [32, 97, 98]"
  let ?r = "scanContiguousInto ?l 0 0 0 0"
  have "snd (fst ?r)" by code_simp
  then have r: "?r = ((fst (fst ?r), True), snd ?r)" by (simp add: prod_eq_iff)
  have src: "lx_source ?l = [32, 97, 98]" by (simp add: NewLexer_def)
  show ?thesis by (rule scanned_token_placed [where l = ?l, OF _ _ r, unfolded src]) simp_all
qed

end
