(* ===== verification/Included_Ranges.thy ===== *)
theory Included_Ranges
  imports Source_Tokens
begin

text \<open>
  Included ranges, \<^verbatim>\<open>internal/runtime/included_ranges.go\<close>: the normalisation of a caller's range
  list, and the token source that filters another token source against the active ranges. The
  wrapped source is a parameter: a record of the operations the code finds by interface
  assertion, each optional one an option. \<^verbatim>\<open>sort.Slice\<close> is modelled by a stable sort; it may order
  ranges of equal byte bounds differently, which can change the points of a merged range but no
  bytes. The locale \<open>gapped_ranges\<close> is what the lexer relies on;
  it is interpreted on the result of \<open>normalizeIncludedRanges\<close>.
\<close>

section \<open>Normalisation\<close>

fun merge_ranges :: "range \<Rightarrow> range list \<Rightarrow> range list" where
  "merge_ranges cur [] = [cur]"
| "merge_ranges cur (r # rs) =
     (if rg_StartByte r \<le> rg_EndByte cur then
        (if rg_EndByte r > rg_EndByte cur
         then merge_ranges (cur\<lparr>rg_EndByte := rg_EndByte r, rg_EndPoint := rg_EndPoint r\<rparr>) rs
         else merge_ranges cur rs)
      else cur # merge_ranges r rs)"

definition range_key :: "range \<Rightarrow> nat \<times> nat" where
  "range_key r = (unat (rg_StartByte r), unat (rg_EndByte r))"

definition normalizeIncludedRanges :: "range list \<Rightarrow> range list" where
  "normalizeIncludedRanges ranges =
     (let tmp = sort_key range_key (filter (\<lambda>r. \<not> rg_EndByte r \<le> rg_StartByte r) ranges)
      in case tmp of [] \<Rightarrow> [] | cur # rest \<Rightarrow> merge_ranges cur rest)"

section \<open>The filtering token source\<close>

text \<open>
  The wrapped source. \<open>bs_next\<close> is \<^verbatim>\<open>TokenSource.Next\<close>; the others are the optional interfaces
  \<^verbatim>\<open>ByteSkippableTokenSource\<close>, \<^verbatim>\<open>PointSkippableTokenSource\<close>, \<^verbatim>\<open>tokenSourceRelexer\<close> (two methods),
  \<^verbatim>\<open>parserStateTokenSource\<close> (two methods), \<^verbatim>\<open>Reset\<close> and \<^verbatim>\<open>Close\<close>, and the answers to
  \<^verbatim>\<open>errorModeLexingTokenSource\<close> and the incremental-reuse queries.
\<close>

record 's base_source =
  bs_next :: "'s \<Rightarrow> token \<times> 's"
  bs_skipToByte :: "('s \<Rightarrow> u32 \<Rightarrow> token \<times> 's) option"
  bs_skipToByteWithPoint :: "('s \<Rightarrow> u32 \<Rightarrow> point \<Rightarrow> token \<times> 's) option"
  bs_relex :: "('s \<Rightarrow> token \<Rightarrow> (token \<times> bool) \<times> 's) option"
  bs_canRelex :: "('s \<Rightarrow> token \<Rightarrow> bool) option"
  bs_setParserState :: "('s \<Rightarrow> u32 \<Rightarrow> 's) option"
  bs_setGLRStates :: "('s \<Rightarrow> u32 list \<Rightarrow> 's) option"
  bs_reset :: "('s \<Rightarrow> bytes \<Rightarrow> 's) option"
  bs_close :: "('s \<Rightarrow> 's) option"
  bs_errorModeLexing :: "('s \<Rightarrow> bool) option"
  bs_supportsIncrementalReuse :: "'s \<Rightarrow> bool"

record 's includedRangeTokenSource =
  ir_base :: 's
  ir_ranges :: "range list"
  ir_idx :: nat

datatype 's wrapped_source = Plain 's | Ranged "'s includedRangeTokenSource"

text \<open>A nil base is outside the model: \<open>base\<close> is the state of an existing source.\<close>

definition newIncludedRangeTokenSource :: "'s \<Rightarrow> range list \<Rightarrow> 's wrapped_source" where
  "newIncludedRangeTokenSource base ranges =
     (if ranges = [] then Plain base
      else let rs = normalizeIncludedRanges ranges in
        if rs = [] then Plain base
        else Ranged \<lparr>ir_base = base, ir_ranges = rs, ir_idx = 0\<rparr>)"

definition ir_SetParserState ::
  "'s base_source \<Rightarrow> 's includedRangeTokenSource \<Rightarrow> u32 \<Rightarrow> 's includedRangeTokenSource" where
  "ir_SetParserState B s state =
     (case bs_setParserState B of Some f \<Rightarrow> s\<lparr>ir_base := f (ir_base s) state\<rparr> | None \<Rightarrow> s)"

definition ir_SetGLRStates ::
  "'s base_source \<Rightarrow> 's includedRangeTokenSource \<Rightarrow> u32 list \<Rightarrow> 's includedRangeTokenSource" where
  "ir_SetGLRStates B s states =
     (case bs_setGLRStates B of Some f \<Rightarrow> s\<lparr>ir_base := f (ir_base s) states\<rparr> | None \<Rightarrow> s)"

definition ir_lexesErrorModeAtErrorState :: "'s base_source \<Rightarrow> 's includedRangeTokenSource \<Rightarrow> bool" where
  "ir_lexesErrorModeAtErrorState B s =
     (case bs_errorModeLexing B of Some f \<Rightarrow> f (ir_base s) | None \<Rightarrow> False)"

definition ir_SupportsIncrementalReuse :: "'s base_source \<Rightarrow> 's includedRangeTokenSource \<Rightarrow> bool" where
  "ir_SupportsIncrementalReuse B s = bs_supportsIncrementalReuse B (ir_base s)"

definition ir_Reset ::
  "'s base_source \<Rightarrow> 's includedRangeTokenSource \<Rightarrow> bytes \<Rightarrow> 's includedRangeTokenSource" where
  "ir_Reset B s source =
     (let s = s\<lparr>ir_idx := 0\<rparr> in
      case bs_reset B of Some f \<Rightarrow> s\<lparr>ir_base := f (ir_base s) source\<rparr> | None \<Rightarrow> s)"

definition ir_Close :: "'s base_source \<Rightarrow> 's includedRangeTokenSource \<Rightarrow> 's includedRangeTokenSource" where
  "ir_Close B s = (case bs_close B of Some f \<Rightarrow> s\<lparr>ir_base := f (ir_base s)\<rparr> | None \<Rightarrow> s)"

function advanceToMatchingRange :: "range list \<Rightarrow> nat \<Rightarrow> token \<Rightarrow> nat" where
  "advanceToMatchingRange ranges idx tok =
     (if idx < length ranges \<and> tk_StartByte tok \<ge> rg_EndByte (ranges ! idx)
      then advanceToMatchingRange ranges (Suc idx) tok else idx)"
  by pat_completeness auto
termination
  by (relation "measure (\<lambda>(ranges, idx, tok). length ranges - idx)") auto

declare advanceToMatchingRange.simps [simp del]

definition tokenInCurrentRange :: "range list \<Rightarrow> nat \<Rightarrow> token \<Rightarrow> bool" where
  "tokenInCurrentRange ranges idx tok \<longleftrightarrow>
     tk_Symbol tok \<noteq> 0 \<and> idx < length ranges \<and>
     tk_StartByte tok < rg_EndByte (ranges ! idx) \<and> tk_EndByte tok > rg_StartByte (ranges ! idx)"

definition range_eof_token :: "token \<Rightarrow> token" where
  "range_eof_token tok = zero_token\<lparr>tk_StartByte := tk_EndByte tok, tk_EndByte := tk_EndByte tok,
     tk_StartPoint := tk_EndPoint tok, tk_EndPoint := tk_EndPoint tok\<rparr>"

text \<open>
  \<^verbatim>\<open>filterToken\<close>. \<open>pending\<close> is the pair \<^verbatim>\<open>tok, hasToken\<close>: \<open>None\<close> asks the base for the next token. The
  loop may run forever on an arbitrary base, so not returning is the value \<open>None\<close>.
\<close>

partial_function (option) filterToken_loop ::
  "'s base_source \<Rightarrow> range list \<Rightarrow> nat \<Rightarrow> 's \<Rightarrow> token option \<Rightarrow> (token \<times> nat \<times> 's) option" where
  "filterToken_loop B ranges idx s pending =
     (let got = (case pending of Some t \<Rightarrow> (t, s) | None \<Rightarrow> bs_next B s);
          tok = fst got; s = snd got in
      if tk_Symbol tok = 0 then Some (tok, idx, s)
      else
        let idx = advanceToMatchingRange ranges idx tok in
        if \<not> idx < length ranges then Some (range_eof_token tok, idx, s)
        else
          let r = ranges ! idx in
          if tk_StartByte tok < rg_StartByte r \<and> tk_EndByte tok \<le> rg_StartByte r then
            (case bs_skipToByte B of
               Some skip \<Rightarrow> filterToken_loop B ranges idx (snd (skip s (rg_StartByte r)))
                              (Some (fst (skip s (rg_StartByte r))))
             | None \<Rightarrow> filterToken_loop B ranges idx s None)
          else if tk_StartByte tok < rg_StartByte r then
            (case bs_skipToByte B of
               Some skip \<Rightarrow> filterToken_loop B ranges idx (snd (skip s (rg_StartByte r)))
                              (Some (fst (skip s (rg_StartByte r))))
             | None \<Rightarrow> Some (tok, idx, s))
          else if tk_EndByte tok \<le> rg_StartByte r then
            (case bs_skipToByte B of
               Some skip \<Rightarrow> filterToken_loop B ranges idx (snd (skip s (rg_StartByte r)))
                              (Some (fst (skip s (rg_StartByte r))))
             | None \<Rightarrow> filterToken_loop B ranges idx s None)
          else if tk_StartByte tok \<ge> rg_EndByte r then filterToken_loop B ranges (Suc idx) s (Some tok)
          else Some (tok, idx, s))"

definition filterToken :: "'s base_source \<Rightarrow> 's includedRangeTokenSource \<Rightarrow> token option
    \<Rightarrow> (token \<times> 's includedRangeTokenSource) option" where
  "filterToken B s pending =
     map_option (\<lambda>(tok, idx, b). (tok, s\<lparr>ir_idx := idx, ir_base := b\<rparr>))
       (filterToken_loop B (ir_ranges s) (ir_idx s) (ir_base s) pending)"

definition ir_Next ::
  "'s base_source \<Rightarrow> 's includedRangeTokenSource \<Rightarrow> (token \<times> 's includedRangeTokenSource) option" where
  "ir_Next B s = filterToken B s None"

partial_function (option) skipToByte_loop ::
  "'s base_source \<Rightarrow> 's includedRangeTokenSource \<Rightarrow> u32 \<Rightarrow> (token \<times> 's includedRangeTokenSource) option" where
  "skipToByte_loop B s offset =
     (case ir_Next B s of
        None \<Rightarrow> None
      | Some r \<Rightarrow>
          (if tk_Symbol (fst r) = 0 \<or> tk_StartByte (fst r) \<ge> offset then Some r
           else skipToByte_loop B (snd r) offset))"

definition ir_SkipToByte ::
  "'s base_source \<Rightarrow> 's includedRangeTokenSource \<Rightarrow> u32 \<Rightarrow> (token \<times> 's includedRangeTokenSource) option" where
  "ir_SkipToByte B s offset =
     (case bs_skipToByte B of
        Some skip \<Rightarrow>
          (let r = skip (ir_base s) offset in filterToken B (s\<lparr>ir_base := snd r\<rparr>) (Some (fst r)))
      | None \<Rightarrow> skipToByte_loop B s offset)"

definition ir_SkipToByteWithPoint :: "'s base_source \<Rightarrow> 's includedRangeTokenSource \<Rightarrow> u32 \<Rightarrow> point
    \<Rightarrow> (token \<times> 's includedRangeTokenSource) option" where
  "ir_SkipToByteWithPoint B s offset pt =
     (case bs_skipToByteWithPoint B of
        Some skip \<Rightarrow>
          (let r = skip (ir_base s) offset pt in filterToken B (s\<lparr>ir_base := snd r\<rparr>) (Some (fst r)))
      | None \<Rightarrow> ir_SkipToByte B s offset)"

definition ir_RelexFromTokenStart :: "'s base_source \<Rightarrow> 's includedRangeTokenSource \<Rightarrow> token
    \<Rightarrow> (token \<times> bool) \<times> 's includedRangeTokenSource" where
  "ir_RelexFromTokenStart B s tok =
     (case bs_relex B of
        None \<Rightarrow> ((zero_token, False), s)
      | Some relex \<Rightarrow>
          if \<not> tokenInCurrentRange (ir_ranges s) (ir_idx s) tok then ((zero_token, False), s)
          else
            let res = relex (ir_base s) tok; next = fst (fst res); s' = s\<lparr>ir_base := snd res\<rparr> in
            if \<not> snd (fst res) then ((zero_token, False), s')
            else if tk_StartByte next \<noteq> tk_StartByte tok \<or> tk_StartPoint next \<noteq> tk_StartPoint tok
                    \<or> \<not> tokenInCurrentRange (ir_ranges s) (ir_idx s) next
            then ((zero_token, False), s')
            else ((next, True), s'))"

definition ir_CanRelexFromTokenStart :: "'s base_source \<Rightarrow> 's includedRangeTokenSource \<Rightarrow> token \<Rightarrow> bool" where
  "ir_CanRelexFromTokenStart B s tok =
     (case bs_canRelex B of Some f \<Rightarrow> f (ir_base s) tok | None \<Rightarrow> False)"

section \<open>Contract of a range list\<close>

definition range_covers :: "range \<Rightarrow> u32 \<Rightarrow> bool" where
  "range_covers r b \<longleftrightarrow> rg_StartByte r \<le> b \<and> b < rg_EndByte r"

definition covered :: "range list \<Rightarrow> u32 \<Rightarrow> bool" where
  "covered rs b \<longleftrightarrow> (\<exists>r\<in>set rs. range_covers r b)"

definition gapped :: "range list \<Rightarrow> bool" where
  "gapped rs \<longleftrightarrow> (\<forall>r\<in>set rs. rg_StartByte r < rg_EndByte r) \<and>
     sorted_wrt (\<lambda>a b. rg_EndByte a < rg_StartByte b) rs"

lemma covered_simps [simp]:
  "\<not> covered [] b"
  "covered (r # rs) b \<longleftrightarrow> range_covers r b \<or> covered rs b"
  by (auto simp: covered_def)

lemma gapped_Cons [simp]:
  "gapped (r # rs) \<longleftrightarrow> rg_StartByte r < rg_EndByte r \<and>
     (\<forall>q\<in>set rs. rg_EndByte r < rg_StartByte q) \<and> gapped rs"
  by (auto simp: gapped_def)

lemma gapped_Nil [simp]: "gapped []"
  by (simp add: gapped_def)

locale gapped_ranges =
  fixes ranges :: "range list"
  assumes gapped_ranges: "gapped ranges"
begin

lemma nonempty: "i < length ranges \<Longrightarrow> rg_StartByte (ranges ! i) < rg_EndByte (ranges ! i)"
  using gapped_ranges by (simp add: gapped_def)

lemma separated: "i < j \<Longrightarrow> j < length ranges \<Longrightarrow> rg_EndByte (ranges ! i) < rg_StartByte (ranges ! j)"
  using gapped_ranges by (simp add: gapped_def sorted_wrt_iff_nth_less)

lemma unique_cover:
  assumes "i < length ranges" "j < length ranges" "range_covers (ranges ! i) b" "range_covers (ranges ! j) b"
  shows "i = j"
  using assms separated [of i j] separated [of j i]
  by (cases i j rule: linorder_cases) (auto simp: range_covers_def)

end

section \<open>Merging\<close>

definition sorted_nonempty :: "range \<Rightarrow> range list \<Rightarrow> bool" where
  "sorted_nonempty cur rs \<longleftrightarrow> (\<forall>r\<in>set (cur # rs). rg_StartByte r < rg_EndByte r) \<and>
     sorted_wrt (\<lambda>a b. rg_StartByte a \<le> rg_StartByte b) (cur # rs)"

lemma merge_starts:
  "sorted_nonempty cur rs \<Longrightarrow> q \<in> set (merge_ranges cur rs) \<Longrightarrow> rg_StartByte cur \<le> rg_StartByte q"
proof (induction cur rs arbitrary: q rule: merge_ranges.induct)
  case (2 cur r rs)
  then show ?case by (fastforce simp: sorted_nonempty_def split: if_splits)
qed simp

lemma merge_gapped: "sorted_nonempty cur rs \<Longrightarrow> gapped (merge_ranges cur rs)"
proof (induction cur rs rule: merge_ranges.induct)
  case (1 cur)
  then show ?case by (simp add: sorted_nonempty_def)
next
  case (2 cur r rs)
  show ?case
  proof (cases "rg_StartByte r \<le> rg_EndByte cur")
    case True
    then show ?thesis using 2 by (auto simp: sorted_nonempty_def)
  next
    case False
    have rs: "sorted_nonempty r rs" using "2.prems" by (simp add: sorted_nonempty_def)
    have "rg_EndByte cur < rg_StartByte q" if "q \<in> set (merge_ranges r rs)" for q
      using merge_starts [OF rs that] False by simp
    then show ?thesis
      using False "2.IH"(3) [OF False rs] "2.prems" by (simp add: sorted_nonempty_def)
  qed
qed

lemma merge_covered:
  "sorted_nonempty cur rs \<Longrightarrow> covered (merge_ranges cur rs) b \<longleftrightarrow> covered (cur # rs) b"
proof (induction cur rs rule: merge_ranges.induct)
  case (2 cur r rs)
  have start: "rg_StartByte cur \<le> rg_StartByte r" using "2.prems" by (simp add: sorted_nonempty_def)
  show ?case
  proof (cases "rg_StartByte r \<le> rg_EndByte cur")
    case close: True
    show ?thesis
    proof (cases "rg_EndByte r > rg_EndByte cur")
      case True
      let ?c = "cur\<lparr>rg_EndByte := rg_EndByte r, rg_EndPoint := rg_EndPoint r\<rparr>"
      have "sorted_nonempty ?c rs" using "2.prems" True by (auto simp: sorted_nonempty_def)
      then have "covered (merge_ranges ?c rs) b \<longleftrightarrow> covered (?c # rs) b"
        using "2.IH"(1) [OF close True] by simp
      moreover have "range_covers ?c b \<longleftrightarrow> range_covers cur b \<or> range_covers r b"
        using close True start by (auto simp: range_covers_def)
      ultimately show ?thesis using close True by auto
    next
      case False
      have "sorted_nonempty cur rs" using "2.prems" by (auto simp: sorted_nonempty_def)
      then have "covered (merge_ranges cur rs) b \<longleftrightarrow> covered (cur # rs) b"
        using "2.IH"(2) [OF close False] by simp
      moreover have "range_covers r b \<Longrightarrow> range_covers cur b"
        using False start by (auto simp: range_covers_def)
      ultimately show ?thesis using close False by auto
    qed
  next
    case False
    then show ?thesis using 2 by (auto simp: sorted_nonempty_def)
  qed
qed simp

lemma merge_gapped_id: "gapped (cur # rs) \<Longrightarrow> merge_ranges cur rs = cur # rs"
  by (induction rs arbitrary: cur) (auto simp: leD)

lemma sort_key_range:
  assumes "sort_key range_key (filter (\<lambda>r. \<not> rg_EndByte r \<le> rg_StartByte r) ranges) = cur # rest"
  shows "sorted_nonempty cur rest" "set (cur # rest) = {r \<in> set ranges. rg_StartByte r < rg_EndByte r}"
proof -
  let ?l = "filter (\<lambda>r. \<not> rg_EndByte r \<le> rg_StartByte r) ranges"
  have "set (cur # rest) = set ?l" using assms by (metis set_sort)
  then show set: "set (cur # rest) = {r \<in> set ranges. rg_StartByte r < rg_EndByte r}"
    by (auto simp: not_le)
  have "sorted (map range_key (cur # rest))" using assms by (metis sorted_sort_key)
  then have "sorted_wrt (\<lambda>a b. range_key a \<le> range_key b) (cur # rest)"
    by (simp only: sorted_map)
  then have "sorted_wrt (\<lambda>a b. rg_StartByte a \<le> rg_StartByte b) (cur # rest)"
    by (rule sorted_wrt_mono_rel [rotated])
       (auto simp: range_key_def less_eq_prod_def word_le_nat_alt)
  with set show "sorted_nonempty cur rest" by (auto simp: sorted_nonempty_def)
qed

lemma normalize_gapped: "gapped (normalizeIncludedRanges ranges)"
  by (auto simp: normalizeIncludedRanges_def Let_def split: list.splits
      intro!: merge_gapped sort_key_range)

interpretation norm: gapped_ranges "normalizeIncludedRanges ranges" for ranges
  by unfold_locales (rule normalize_gapped)

lemma normalize_covered: "covered (normalizeIncludedRanges ranges) b \<longleftrightarrow> covered ranges b"
proof (cases "sort_key range_key (filter (\<lambda>r. \<not> rg_EndByte r \<le> rg_StartByte r) ranges)")
  case Nil
  then have "set (filter (\<lambda>r. \<not> rg_EndByte r \<le> rg_StartByte r) ranges) = {}"
    by (metis set_sort set_empty)
  then have "rg_EndByte r \<le> rg_StartByte r" if "r \<in> set ranges" for r
    using that by auto
  then have "\<not> covered ranges b"
    by (meson covered_def range_covers_def le_less_trans less_le_trans not_le)
  with Nil show ?thesis by (simp add: normalizeIncludedRanges_def)
next
  case (Cons cur rest)
  have "covered (cur # rest) b \<longleftrightarrow> covered ranges b"
    unfolding covered_def sort_key_range(2) [OF Cons] by (auto simp: range_covers_def)
  with Cons show ?thesis
    by (simp add: normalizeIncludedRanges_def merge_covered [OF sort_key_range(1) [OF Cons]])
qed

lemma normalize_gapped_id:
  assumes "gapped rs"
  shows "normalizeIncludedRanges rs = rs"
proof -
  have "filter (\<lambda>r. \<not> rg_EndByte r \<le> rg_StartByte r) rs = rs"
    using assms by (auto simp: gapped_def not_le filter_id_conv)
  moreover have "sort_key range_key rs = rs"
    using assms
  proof (induction rs)
    case (Cons r rs)
    have "range_key r \<le> range_key q" if "q \<in> set rs" for q
    proof -
      have "rg_StartByte r < rg_EndByte r" "rg_EndByte r < rg_StartByte q"
        using Cons.prems that by auto
      then have "rg_StartByte r < rg_StartByte q" by (rule less_trans)
      then show ?thesis by (simp add: range_key_def less_eq_prod_def word_less_nat_alt)
    qed
    then show ?case using Cons by (simp add: insort_is_Cons)
  qed simp
  ultimately show ?thesis
    using assms merge_gapped_id
    by (cases rs) (simp_all add: normalizeIncludedRanges_def del: filter.simps sort_key_simps merge_ranges.simps)
qed

lemma gapped_head_least: "gapped (r # rs) \<Longrightarrow> covered (r # rs) b \<Longrightarrow> rg_StartByte r \<le> b"
  by (fastforce simp: covered_def range_covers_def)

lemma gapped_unique:
  assumes "gapped xs" "gapped ys" "\<And>b. covered xs b \<longleftrightarrow> covered ys b"
  shows "map (\<lambda>r. (rg_StartByte r, rg_EndByte r)) xs = map (\<lambda>r. (rg_StartByte r, rg_EndByte r)) ys"
  using assms
proof (induction xs arbitrary: ys)
  case Nil
  have "ys = []"
  proof (cases ys)
    case (Cons y zs)
    then have "covered ys (rg_StartByte y)" using Nil.prems(2) by (simp add: range_covers_def)
    then show ?thesis using Nil.prems(3) by simp
  qed simp
  then show ?case by simp
next
  case (Cons x xs)
  have "covered ys (rg_StartByte x)"
    using Cons.prems(1,3) by (auto simp: range_covers_def)
  then obtain y zs where ys: "ys = y # zs" by (cases ys) auto
  have gx: "gapped (x # xs)" and gy: "gapped (y # zs)" using Cons.prems ys by auto
  have eq: "covered (x # xs) b \<longleftrightarrow> covered (y # zs) b" for b using Cons.prems(3) ys by simp
  have cx: "covered (x # xs) (rg_StartByte x)" and cy: "covered (y # zs) (rg_StartByte y)"
    using gx gy by (simp_all add: range_covers_def)
  have start: "rg_StartByte x = rg_StartByte y"
    using gapped_head_least [OF gx] gapped_head_least [OF gy] cx cy eq by (meson order_antisym)
  have at_end: "\<not> covered (r # rs) (rg_EndByte r)" if "gapped (r # rs)" for r rs
    using that by (auto simp: covered_def range_covers_def)
  have fin: "rg_EndByte x = rg_EndByte y"
  proof (rule linorder_cases [of "rg_EndByte x" "rg_EndByte y"])
    assume "rg_EndByte x < rg_EndByte y"
    then have "covered (y # zs) (rg_EndByte x)" using start gx by (simp add: range_covers_def less_imp_le)
    then show ?thesis using at_end [OF gx] eq by blast
  next
    assume "rg_EndByte y < rg_EndByte x"
    then have "covered (x # xs) (rg_EndByte y)" using start gy by (simp add: range_covers_def less_imp_le)
    then show ?thesis using at_end [OF gy] eq by blast
  qed
  have away: "\<not> range_covers r b" if "gapped (r # rs)" "covered rs b" for r rs b
    using that by (fastforce simp: covered_def range_covers_def)
  have "covered xs b \<longleftrightarrow> covered zs b" for b
    using eq [of b] away [OF gx] away [OF gy] start fin by (auto simp: range_covers_def)
  then have "map (\<lambda>r. (rg_StartByte r, rg_EndByte r)) xs = map (\<lambda>r. (rg_StartByte r, rg_EndByte r)) zs"
    using Cons.IH [of zs] gx gy by simp
  with start fin ys show ?case by simp
qed

section \<open>Filtering\<close>

lemma advance_ge: "idx \<le> advanceToMatchingRange ranges idx tok"
  by (induction ranges idx tok rule: advanceToMatchingRange.induct)
     (subst advanceToMatchingRange.simps, force)

lemma advance_stops:
  "advanceToMatchingRange ranges idx tok < length ranges \<Longrightarrow>
   tk_StartByte tok < rg_EndByte (ranges ! advanceToMatchingRange ranges idx tok)"
proof (induction ranges idx tok rule: advanceToMatchingRange.induct)
  case (1 ranges idx tok)
  then show ?case
    by (cases "idx < length ranges \<and> tk_StartByte tok \<ge> rg_EndByte (ranges ! idx)")
       (auto simp: advanceToMatchingRange.simps [of ranges idx tok] not_le)
qed

definition in_range_result :: "'s base_source \<Rightarrow> range list \<Rightarrow> nat \<Rightarrow> token \<times> nat \<times> 's \<Rightarrow> bool" where
  "in_range_result B ranges idx r \<longleftrightarrow>
     idx \<le> fst (snd r) \<and>
     (tk_Symbol (fst r) \<noteq> 0 \<longrightarrow> tokenInCurrentRange ranges (fst (snd r)) (fst r) \<and>
        (bs_skipToByte B \<noteq> None \<longrightarrow> rg_StartByte (ranges ! fst (snd r)) \<le> tk_StartByte (fst r)))"

lemma in_range_result_mono: "in_range_result B ranges j r \<Longrightarrow> i \<le> j \<Longrightarrow> in_range_result B ranges i r"
  by (simp add: in_range_result_def)

lemma filterToken_loop_in_range:
  assumes "filterToken_loop B ranges idx s pending = Some r" "gapped ranges"
  shows "in_range_result B ranges idx r"
proof -
  have "gapped ranges \<longrightarrow> in_range_result B ranges idx r"
  proof (rule filterToken_loop.raw_induct
      [where P = "\<lambda>B ranges idx s pending r. gapped ranges \<longrightarrow> in_range_result B ranges idx r", OF _ assms(1)])
    fix f B ranges idx s pending r
    assume IH: "\<And>B ranges idx s pending r. f B ranges idx s pending = Some r \<Longrightarrow>
        gapped ranges \<longrightarrow> in_range_result B ranges idx r"
      and eq: "(let got = (case pending of Some t \<Rightarrow> (t, s) | None \<Rightarrow> bs_next B s);
          tok = fst got; s = snd got in
      if tk_Symbol tok = 0 then Some (tok, idx, s)
      else
        let idx = advanceToMatchingRange ranges idx tok in
        if \<not> idx < length ranges then Some (range_eof_token tok, idx, s)
        else
          let r = ranges ! idx in
          if tk_StartByte tok < rg_StartByte r \<and> tk_EndByte tok \<le> rg_StartByte r then
            (case bs_skipToByte B of
               Some skip \<Rightarrow> f B ranges idx (snd (skip s (rg_StartByte r))) (Some (fst (skip s (rg_StartByte r))))
             | None \<Rightarrow> f B ranges idx s None)
          else if tk_StartByte tok < rg_StartByte r then
            (case bs_skipToByte B of
               Some skip \<Rightarrow> f B ranges idx (snd (skip s (rg_StartByte r))) (Some (fst (skip s (rg_StartByte r))))
             | None \<Rightarrow> Some (tok, idx, s))
          else if tk_EndByte tok \<le> rg_StartByte r then
            (case bs_skipToByte B of
               Some skip \<Rightarrow> f B ranges idx (snd (skip s (rg_StartByte r))) (Some (fst (skip s (rg_StartByte r))))
             | None \<Rightarrow> f B ranges idx s None)
          else if tk_StartByte tok \<ge> rg_EndByte r then f B ranges (Suc idx) s (Some tok)
          else Some (tok, idx, s)) = Some r"
    define got where "got = (case pending of Some t \<Rightarrow> (t, s) | None \<Rightarrow> bs_next B s)"
    define tok where "tok = fst got"
    define j where "j = advanceToMatchingRange ranges idx tok"
    have ij: "idx \<le> j" by (simp add: j_def advance_ge)
    have stop: "j < length ranges \<Longrightarrow> tk_StartByte tok < rg_EndByte (ranges ! j)"
      using advance_stops by (simp add: j_def)
    show "gapped ranges \<longrightarrow> in_range_result B ranges idx r"
    proof
      assume g: "gapped ranges"
      then have ne: "j < length ranges \<Longrightarrow> rg_StartByte (ranges ! j) < rg_EndByte (ranges ! j)"
        by (simp add: gapped_def)
      have rcall: "f B ranges k t p = Some r \<Longrightarrow> j \<le> k \<Longrightarrow> in_range_result B ranges idx r" for k t p
        using IH g ij by (meson in_range_result_mono order_trans)
      have here: "j < length ranges \<Longrightarrow> rg_StartByte (ranges ! j) < tk_EndByte tok
        \<Longrightarrow> bs_skipToByte B \<noteq> None \<longrightarrow> rg_StartByte (ranges ! j) \<le> tk_StartByte tok
        \<Longrightarrow> in_range_result B ranges idx (tok, j, snd got)"
        using ij stop by (simp add: in_range_result_def tokenInCurrentRange_def)
      have eof: "tk_Symbol t = 0 \<Longrightarrow> idx \<le> k \<Longrightarrow> in_range_result B ranges idx (t, k, u)" for t k u
        by (simp add: in_range_result_def)
      have sym0: "tk_Symbol (range_eof_token t) = 0" for t
        by (simp add: range_eof_token_def zero_token_def)
      show "in_range_result B ranges idx r"
        using eq unfolding got_def [symmetric] tok_def [symmetric] Let_def j_def [symmetric]
        by (auto split: if_splits option.splits simp: not_le not_less
            intro: rcall here eof sym0 ij)
    qed
  qed
  with assms(2) show ?thesis by simp
qed

text \<open>
  The loop returns. Without byte skipping every iteration takes one more token from the base; with
  byte skipping the token found at or after the start of a range is either accepted or lies past
  that range, so the range index grows.
\<close>

lemma filterToken_loop_step:
  assumes "tok = fst (case pending of Some t \<Rightarrow> (t, s) | None \<Rightarrow> bs_next B s)"
    and "s' = snd (case pending of Some t \<Rightarrow> (t, s) | None \<Rightarrow> bs_next B s)"
    and "j = advanceToMatchingRange ranges idx tok"
    and "tk_Symbol tok \<noteq> 0" "j < length ranges"
  shows "filterToken_loop B ranges idx s pending =
     (let r = ranges ! j in
      if tk_StartByte tok < rg_StartByte r \<and> bs_skipToByte B = None \<and> rg_StartByte r < tk_EndByte tok
      then Some (tok, j, s')
      else if tk_StartByte tok < rg_StartByte r \<or> tk_EndByte tok \<le> rg_StartByte r then
        (case bs_skipToByte B of
           Some skip \<Rightarrow> filterToken_loop B ranges j (snd (skip s' (rg_StartByte r)))
                          (Some (fst (skip s' (rg_StartByte r))))
         | None \<Rightarrow> filterToken_loop B ranges j s' None)
      else Some (tok, j, s'))"
  using assms advance_stops [of ranges idx tok]
  by (subst filterToken_loop.simps) (auto simp: Let_def not_le split: option.splits)

lemma filterToken_loop_stops:
  assumes "tok = fst (case pending of Some t \<Rightarrow> (t, s) | None \<Rightarrow> bs_next B s)"
    and "tk_Symbol tok = 0 \<or> \<not> advanceToMatchingRange ranges idx tok < length ranges"
  shows "\<exists>r. filterToken_loop B ranges idx s pending = Some r"
  using assms by (subst filterToken_loop.simps) (auto simp: Let_def)

text \<open>
  What the base answers when it is asked again: \<open>nth_token B n s\<close> is the token of the \<open>n\<close>-th further call
  of \<^verbatim>\<open>Next\<close>, \<open>nth_seek skip b n s\<close> that of the \<open>n\<close>-th further call of \<^verbatim>\<open>SkipToByte(b)\<close>. A token gets past
  \<open>b\<close> when it is end of input or ends after \<open>b\<close>.
\<close>

fun nth_token :: "'s base_source \<Rightarrow> nat \<Rightarrow> 's \<Rightarrow> token" where
  "nth_token B 0 s = fst (bs_next B s)"
| "nth_token B (Suc n) s = nth_token B n (snd (bs_next B s))"

fun nth_seek :: "('s \<Rightarrow> u32 \<Rightarrow> token \<times> 's) \<Rightarrow> u32 \<Rightarrow> nat \<Rightarrow> 's \<Rightarrow> token" where
  "nth_seek skip b 0 s = fst (skip s b)"
| "nth_seek skip b (Suc n) s = nth_seek skip b n (snd (skip s b))"

definition gets_past :: "u32 \<Rightarrow> token \<Rightarrow> bool" where
  "gets_past b t \<longleftrightarrow> tk_Symbol t = 0 \<or> b < tk_EndByte t"

text \<open>
  The documented behaviour of \<^verbatim>\<open>SkipToByte\<close>: it returns a token at or after the offset, or end of
  input. The token's own bounds are in order.
\<close>

definition seeks_forward :: "('s \<Rightarrow> u32 \<Rightarrow> token \<times> 's) \<Rightarrow> bool" where
  "seeks_forward skip \<longleftrightarrow> (\<forall>s b. tk_Symbol (fst (skip s b)) = 0 \<or>
     b \<le> tk_StartByte (fst (skip s b)) \<and> tk_StartByte (fst (skip s b)) \<le> tk_EndByte (fst (skip s b)))"

lemma filterToken_loop_returns_next:
  assumes "bs_skipToByte B = None" "tk_Symbol (nth_token B n s) = 0"
  shows "\<exists>r. filterToken_loop B ranges idx s pending = Some r"
  using assms(2)
proof (induction "n + (if pending = None then 0 else 1)" arbitrary: n idx s pending rule: less_induct)
  case less
  define got where "got = (case pending of Some t \<Rightarrow> (t, s) | None \<Rightarrow> bs_next B s)"
  define tok where "tok = fst got"
  define j where "j = advanceToMatchingRange ranges idx tok"
  show ?case
  proof (cases "tk_Symbol tok = 0 \<or> \<not> j < length ranges")
    case True
    then show ?thesis using filterToken_loop_stops [where tok = tok and pending = pending and s = s and B = B and ranges = ranges and idx = idx]
      by (simp add: tok_def got_def j_def)
  next
    case False
    have "\<exists>m. m < n + (if pending = None then 0 else 1) \<and> tk_Symbol (nth_token B m (snd got)) = 0"
    proof (cases pending)
      case None
      then show ?thesis using False less.prems
        by (cases n) (auto simp: got_def tok_def)
    next
      case (Some t)
      then show ?thesis using less.prems by (auto simp: got_def)
    qed
    then have "\<exists>r. filterToken_loop B ranges j (snd got) None = Some r"
      using less.hyps [of _ None "snd got" j] by auto
    then show ?thesis
      using filterToken_loop_step [where tok = tok and pending = pending and s = s and B = B and s' = "snd got" and j = j and ranges = ranges and idx = idx] False assms(1)
      by (auto simp: tok_def got_def j_def Let_def)
  qed
qed

text \<open>
  With byte seeking, one turn of the loop stops, or asks for the start of a range at or after the
  current one.
\<close>

lemma filterToken_loop_seek_step:
  assumes "bs_skipToByte B = Some skip"
    and "got = (case pending of Some t \<Rightarrow> (t, s) | None \<Rightarrow> bs_next B s)"
    and "j = advanceToMatchingRange ranges idx (fst got)"
  shows "(\<exists>r. filterToken_loop B ranges idx s pending = Some r) \<or>
    tk_Symbol (fst got) \<noteq> 0 \<and> idx \<le> j \<and> j < length ranges \<and>
    (tk_StartByte (fst got) < rg_StartByte (ranges ! j) \<or> tk_EndByte (fst got) \<le> rg_StartByte (ranges ! j)) \<and>
    filterToken_loop B ranges idx s pending =
      filterToken_loop B ranges j (snd (skip (snd got) (rg_StartByte (ranges ! j))))
        (Some (fst (skip (snd got) (rg_StartByte (ranges ! j)))))"
proof (cases "tk_Symbol (fst got) = 0 \<or> \<not> j < length ranges")
  case True
  then show ?thesis
    using filterToken_loop_stops [where tok = "fst got" and pending = pending and s = s and B = B and ranges = ranges and idx = idx] assms
    by simp
next
  case False
  then show ?thesis
    using filterToken_loop_step [where tok = "fst got" and pending = pending and s = s and B = B and s' = "snd got" and j = j and ranges = ranges and idx = idx]
      assms advance_ge [of idx ranges "fst got"]
    by (auto simp: Let_def)
qed

lemma filterToken_loop_returns_skip:
  assumes B: "bs_skipToByte B = Some skip" and fwd: "seeks_forward skip"
    and past: "\<And>r s. r \<in> set ranges \<Longrightarrow> \<exists>n. gets_past (rg_StartByte r) (nth_seek skip (rg_StartByte r) n s)"
  shows "\<exists>r. filterToken_loop B ranges idx s pending = Some r"
proof -
  let ?at = "\<lambda>j. rg_StartByte (ranges ! j)"
  let ?ask = "\<lambda>j s. filterToken_loop B ranges j (snd (skip s (?at j))) (Some (fst (skip s (?at j))))"
  have asked: "\<exists>r. ?ask j s = Some r" if "j < length ranges" for j s
    using that
  proof (induction "length ranges - j" arbitrary: j s rule: less_induct)
    case less
    have turn: "\<exists>r. ?ask j s = Some r"
      if again: "\<not> gets_past (?at j) (fst (skip s (?at j))) \<Longrightarrow> \<exists>r. ?ask j (snd (skip s (?at j))) = Some r" for s
    proof (rule ccontr)
      let ?t = "fst (skip s (?at j))"
      let ?s = "snd (skip s (?at j))"
      let ?k = "advanceToMatchingRange ranges j ?t"
      assume none: "\<not> ?thesis"
      then have k: "tk_Symbol ?t \<noteq> 0" "j \<le> ?k" "?k < length ranges"
        "tk_StartByte ?t < ?at ?k \<or> tk_EndByte ?t \<le> ?at ?k" "?ask j s = ?ask ?k ?s"
        using filterToken_loop_seek_step [OF B refl refl, of ranges j ?s "Some ?t"]
        unfolding option.case fst_conv snd_conv by blast+
      have "?k = j"
      proof (rule ccontr)
        assume "?k \<noteq> j"
        then have "length ranges - ?k < length ranges - j" using k(2,3) by linarith
        then show False using less.hyps [of ?k ?s] k(3) none unfolding k(5) by blast
      qed
      then have "\<not> gets_past (?at j) ?t"
        using k(1,4) fwd unfolding seeks_forward_def gets_past_def by (metis not_le)
      then show False using again k(5) none \<open>?k = j\<close> by metis
    qed
    obtain n where "gets_past (?at j) (nth_seek skip (?at j) n s)" using past less.prems by force
    then show ?case
    proof (induction n arbitrary: s)
      case 0
      then show ?case using turn by (metis nth_seek.simps(1))
    next
      case (Suc n)
      then show ?case using turn by (metis nth_seek.simps(2))
    qed
  qed
  show ?thesis
    using filterToken_loop_seek_step [OF B refl refl, of ranges idx s pending] asked by metis
qed

text \<open>
  The seeking loop is stuck as soon as the base keeps answering with an empty token at the start of
  the current range.
\<close>

definition empty_at :: "u32 \<Rightarrow> token \<Rightarrow> bool" where
  "empty_at b t \<longleftrightarrow> tk_Symbol t \<noteq> 0 \<and> tk_StartByte t = b \<and> tk_EndByte t = b"

lemma not_past_empty:
  "seeks_forward skip \<Longrightarrow> \<not> gets_past b (nth_seek skip b n s) \<Longrightarrow> empty_at b (nth_seek skip b n s)"
proof (induction n arbitrary: s)
  case 0
  then show ?case by (fastforce simp: seeks_forward_def gets_past_def empty_at_def)
next
  case (Suc n)
  then show ?case by simp
qed

lemma filterToken_loop_stuck:
  assumes B: "bs_skipToByte B = Some skip" and j: "j < length ranges"
    and ne: "rg_StartByte (ranges ! j) < rg_EndByte (ranges ! j)"
    and b: "b = rg_StartByte (ranges ! j)"
    and t: "empty_at b t" and again: "\<And>n. empty_at b (nth_seek skip b n s)"
  shows "filterToken_loop B ranges j s (Some t) = None"
proof -
  let ?stuck = "\<lambda>B' rs k s p. B' = B \<and> rs = ranges \<and> k = j \<and>
    (\<exists>t. p = Some t \<and> empty_at b t) \<and> (\<forall>n. empty_at b (nth_seek skip b n s))"
  have "\<not> ?stuck B' rs k s p" if "filterToken_loop B' rs k s p = Some r" for B' rs k s p r
  proof (rule filterToken_loop.raw_induct
      [where P = "\<lambda>B' rs k s p r. \<not> ?stuck B' rs k s p", OF _ that], goal_cases)
    case (1 f B' rs k s p r)
    show ?case
    proof
      assume stuck: "?stuck B' rs k s p"
      then obtain t where p: "p = Some t" and t: "empty_at b t" by blast
      have adv: "advanceToMatchingRange ranges j t = j"
        using t ne b by (subst advanceToMatchingRange.simps) (auto simp: empty_at_def)
      have same: "B' = B" "rs = ranges" "k = j" using stuck by blast+
      have "f B ranges j (snd (skip s b)) (Some (fst (skip s b))) = Some r"
        using "1"(2) t j unfolding same p by (simp add: Let_def adv B empty_at_def b)
      moreover have "empty_at b (fst (skip s b))" "\<And>n. empty_at b (nth_seek skip b n (snd (skip s b)))"
        using stuck by (metis nth_seek.simps(1), metis nth_seek.simps(2))
      ultimately show False using "1"(1) by blast
    qed
  qed
  with t again show ?thesis by (metis option.exhaust)
qed

section \<open>Properties\<close>

text \<open>
  C23. \<open>normalizeIncludedRanges\<close> returns non-empty ranges in ascending order with a gap between any
  two of them, covers exactly the bytes the input ranges cover, and leaves its own result unchanged.
\<close>

theorem normalizeIncludedRanges_spec:
  "gapped (normalizeIncludedRanges ranges) \<and>
   (\<forall>b. covered (normalizeIncludedRanges ranges) b = covered ranges b) \<and>
   normalizeIncludedRanges (normalizeIncludedRanges ranges) = normalizeIncludedRanges ranges"
  by (simp add: norm.gapped_ranges normalize_covered normalize_gapped_id)

text \<open>
  The result is canonical: two range lists that cover the same bytes normalise to the same byte
  bounds, whatever their order, overlaps and empty entries.
\<close>

theorem normalizeIncludedRanges_canonical:
  assumes "\<And>b. covered rs b = covered qs b"
  shows "map (\<lambda>r. (rg_StartByte r, rg_EndByte r)) (normalizeIncludedRanges rs)
       = map (\<lambda>r. (rg_StartByte r, rg_EndByte r)) (normalizeIncludedRanges qs)"
  by (rule gapped_unique) (simp_all add: norm.gapped_ranges normalize_covered assms)

definition sample_range :: "u32 \<Rightarrow> u32 \<Rightarrow> range" where
  "sample_range a b = \<lparr>rg_StartByte = a, rg_EndByte = b, rg_StartPoint = zero_point, rg_EndPoint = zero_point\<rparr>"

theorem normalizeIncludedRanges_canonical_witness:
  "map (\<lambda>r. (rg_StartByte r, rg_EndByte r)) (normalizeIncludedRanges [sample_range 4 9, sample_range 6 6, sample_range 0 5])
   = map (\<lambda>r. (rg_StartByte r, rg_EndByte r)) (normalizeIncludedRanges [sample_range 0 9])"
  by (rule normalizeIncludedRanges_canonical)
     (auto simp: sample_range_def range_covers_def not_less not_le, (uint_arith)+)

text \<open>
  C24. A token the filter returns is an end-of-input token or overlaps the range its index now points
  at; the index never moves back; and when the base can seek by bytes the token starts inside that
  range.
\<close>

theorem filterToken_in_range:
  assumes "filterToken B s pending = Some (tok, s')" "gapped (ir_ranges s)"
  shows "ir_ranges s' = ir_ranges s \<and> ir_idx s \<le> ir_idx s' \<and>
    (tk_Symbol tok = 0 \<or>
      tokenInCurrentRange (ir_ranges s') (ir_idx s') tok \<and>
      (bs_skipToByte B = None \<or> rg_StartByte (ir_ranges s' ! ir_idx s') \<le> tk_StartByte tok))"
proof -
  obtain idx b where r: "filterToken_loop B (ir_ranges s) (ir_idx s) (ir_base s) pending = Some (tok, idx, b)"
    and s': "s' = s\<lparr>ir_idx := idx, ir_base := b\<rparr>"
    using assms(1) by (auto simp: filterToken_def)
  from filterToken_loop_in_range [OF r assms(2)] show ?thesis
    by (auto simp: in_range_result_def s')
qed

text \<open>
  C25. When the filter returns. Without byte seeking it returns as soon as the base would report end
  of input after finitely many further \<^verbatim>\<open>Next\<close> calls. With a \<^verbatim>\<open>SkipToByte\<close> that returns a token at or
  after the offset, as documented, it returns from every state exactly when, for the start \<open>b\<close> of
  every included range and every state of the base, some repetition of \<^verbatim>\<open>SkipToByte(b)\<close> yields end of
  input or a token ending after \<open>b\<close>, that is, when the base cannot answer with an empty token at \<open>b\<close>
  forever.
\<close>

theorem filterToken_returns:
  assumes "gapped (ir_ranges s)"
    and "case bs_skipToByte B of None \<Rightarrow> True | Some skip \<Rightarrow> seeks_forward skip"
  shows "case bs_skipToByte B of
      None \<Rightarrow> (\<exists>n. tk_Symbol (nth_token B n (ir_base s)) = 0) \<longrightarrow>
        (\<exists>tok s'. filterToken B s pending = Some (tok, s'))
    | Some skip \<Rightarrow>
        (\<forall>idx b pending. \<exists>tok s'. filterToken B (s\<lparr>ir_idx := idx, ir_base := b\<rparr>) pending = Some (tok, s'))
        = (\<forall>r\<in>set (ir_ranges s). \<forall>b. \<exists>n. gets_past (rg_StartByte r) (nth_seek skip (rg_StartByte r) n b))"
proof (cases "bs_skipToByte B")
  case None
  have "\<exists>tok s'. filterToken B s pending = Some (tok, s')" if "tk_Symbol (nth_token B n (ir_base s)) = 0" for n
    using filterToken_loop_returns_next [OF None that, of "ir_ranges s" "ir_idx s" pending]
    by (auto simp: filterToken_def)
  then show ?thesis using None by auto
next
  case (Some skip)
  then have fwd: "seeks_forward skip" using assms(2) by simp
  have "\<exists>tok s'. filterToken B (s\<lparr>ir_idx := idx, ir_base := b\<rparr>) pending = Some (tok, s')"
    if "\<forall>r\<in>set (ir_ranges s). \<forall>b. \<exists>n. gets_past (rg_StartByte r) (nth_seek skip (rg_StartByte r) n b)"
    for idx b pending
    using filterToken_loop_returns_skip [OF Some fwd, of "ir_ranges s" idx b pending] that
    by (auto simp: filterToken_def)
  moreover have "\<exists>n. gets_past (rg_StartByte r) (nth_seek skip (rg_StartByte r) n b)"
    if all: "\<forall>idx b pending. \<exists>tok s'. filterToken B (s\<lparr>ir_idx := idx, ir_base := b\<rparr>) pending = Some (tok, s')"
      and r: "r \<in> set (ir_ranges s)" for r b
  proof (rule ccontr)
    assume "\<not> ?thesis"
    then have again: "empty_at (rg_StartByte r) (nth_seek skip (rg_StartByte r) n b)" for n
      using not_past_empty [OF fwd] by blast
    obtain j where j: "j < length (ir_ranges s)" "r = ir_ranges s ! j" using r by (auto simp: in_set_conv_nth)
    then have "rg_StartByte r < rg_EndByte r" using assms(1) by (simp add: gapped_def)
    then have "filterToken_loop B (ir_ranges s) j b (Some (nth_seek skip (rg_StartByte r) 0 b)) = None"
      using j again by (intro filterToken_loop_stuck [OF Some j(1), of "rg_StartByte r"]) blast+
    then have "filterToken B (s\<lparr>ir_idx := j, ir_base := b\<rparr>) (Some (nth_seek skip (rg_StartByte r) 0 b)) = None"
      by (simp add: filterToken_def)
    with all show False by (metis option.distinct(1))
  qed
  ultimately show ?thesis using Some by auto
qed

text \<open>
  A base over a list of remaining tokens, with byte seeking that drops the tokens starting before
  the offset (and malformed ones) and takes the next one. \<open>seek = False\<close> withholds the byte-seeking
  interface.
\<close>

definition list_next :: "token list \<Rightarrow> token \<times> token list" where
  "list_next ts = (case ts of [] \<Rightarrow> (zero_token, []) | t # ts \<Rightarrow> (t, ts))"

fun list_skip :: "token list \<Rightarrow> u32 \<Rightarrow> token \<times> token list" where
  "list_skip [] b = (zero_token, [])"
| "list_skip (t # ts) b =
     (if tk_StartByte t < b \<or> tk_EndByte t < tk_StartByte t then list_skip ts b else (t, ts))"

definition list_source :: "bool \<Rightarrow> token list base_source" where
  "list_source seek = \<lparr>bs_next = list_next, bs_skipToByte = (if seek then Some list_skip else None),
     bs_skipToByteWithPoint = None, bs_relex = None, bs_canRelex = None, bs_setParserState = None,
     bs_setGLRStates = None, bs_reset = None, bs_close = None, bs_errorModeLexing = None,
     bs_supportsIncrementalReuse = (\<lambda>_. False)\<rparr>"

definition sample_token :: "u16 \<Rightarrow> u32 \<Rightarrow> u32 \<Rightarrow> token" where
  "sample_token y a b = zero_token\<lparr>tk_Symbol := y, tk_StartByte := a, tk_EndByte := b\<rparr>"

definition sample_filter :: "token list includedRangeTokenSource" where
  "sample_filter = \<lparr>ir_base = [sample_token 1 0 3, sample_token 2 3 6, sample_token 3 6 8],
     ir_ranges = [sample_range 4 8], ir_idx = 0\<rparr>"

lemma sample_simps [simp]:
  "tk_Symbol (sample_token y a b) = y" "tk_StartByte (sample_token y a b) = a"
  "tk_EndByte (sample_token y a b) = b" "rg_StartByte (sample_range a b) = a" "rg_EndByte (sample_range a b) = b"
  by (simp_all add: sample_token_def sample_range_def)

lemma list_skip_forward: "seeks_forward list_skip"
proof -
  have "tk_Symbol (fst (list_skip ts b)) = 0 \<or> b \<le> tk_StartByte (fst (list_skip ts b))
      \<and> tk_StartByte (fst (list_skip ts b)) \<le> tk_EndByte (fst (list_skip ts b))" for ts b
    by (induction ts) (auto simp: zero_token_def not_less)
  then show ?thesis by (simp add: seeks_forward_def)
qed

lemma list_skip_shorter: "length (snd (list_skip ts b)) < length ts \<or> list_skip ts b = (zero_token, [])"
  by (induction ts) auto

lemma list_skip_ends: "length ts \<le> n \<Longrightarrow> tk_Symbol (nth_seek list_skip b n ts) = 0"
proof (induction n arbitrary: ts)
  case 0
  then show ?case by (simp add: zero_token_def)
next
  case (Suc n)
  then show ?case using list_skip_shorter [of ts b] by (auto intro!: Suc.IH)
qed

lemma sample_filter_run:
  "filterToken (list_source False) sample_filter None =
     Some (sample_token 2 3 6, sample_filter\<lparr>ir_base := [sample_token 3 6 8]\<rparr>)"
  by (simp add: filterToken_def sample_filter_def filterToken_loop.simps list_source_def list_next_def
      sample_token_def sample_range_def zero_token_def advanceToMatchingRange.simps)

theorem filterToken_in_range_witness:
  "tokenInCurrentRange (ir_ranges sample_filter) 0 (sample_token 2 3 6)"
proof -
  have "gapped (ir_ranges sample_filter)" by (simp add: sample_filter_def sample_range_def)
  from filterToken_in_range [OF sample_filter_run this] show ?thesis
    by (simp add: sample_token_def sample_filter_def)
qed

definition empty_token_source :: "unit base_source" where
  "empty_token_source = \<lparr>bs_next = (\<lambda>_. (sample_token 1 4 4, ())),
     bs_skipToByte = Some (\<lambda>_ b. (sample_token 1 4 4, ())),
     bs_skipToByteWithPoint = None, bs_relex = None, bs_canRelex = None, bs_setParserState = None,
     bs_setGLRStates = None, bs_reset = None, bs_close = None, bs_errorModeLexing = None,
     bs_supportsIncrementalReuse = (\<lambda>_. False)\<rparr>"

text \<open>
  C32. An empty token the base does not move past makes the filter loop: when the base, asked for the
  start of the current range, answers with an empty token there however often it is asked again, the
  filter holding such a token never returns.
\<close>

theorem filterToken_empty_token_diverges:
  assumes "bs_skipToByte B = Some skip"
    and "ir_idx s < length (ir_ranges s)" and "r = ir_ranges s ! ir_idx s"
    and "rg_StartByte r < rg_EndByte r"
    and "empty_at (rg_StartByte r) tok"
    and "\<And>n. empty_at (rg_StartByte r) (nth_seek skip (rg_StartByte r) n (ir_base s))"
  shows "filterToken B s (Some tok) = None"
  using filterToken_loop_stuck [OF assms(1,2), of "rg_StartByte r" tok "ir_base s"] assms
  by (simp add: filterToken_def)

lemma empty_token_source_seek:
  "bs_skipToByte empty_token_source = Some (\<lambda>_ b. (sample_token 1 4 4, ()))"
  by (simp add: empty_token_source_def)

lemma empty_token_source_stuck:
  "empty_at 4 (nth_seek (\<lambda>_ b. (sample_token 1 4 4, ())) 4 n u)"
  by (induction n arbitrary: u) (simp_all add: empty_at_def)

theorem filterToken_empty_token_diverges_witness:
  "filterToken empty_token_source
     \<lparr>ir_base = (), ir_ranges = [sample_range 4 8], ir_idx = 0\<rparr> (Some (sample_token 1 4 4)) = None"
  by (rule filterToken_empty_token_diverges [OF empty_token_source_seek, where r = "sample_range 4 8"])
     (simp_all add: empty_token_source_stuck, simp add: empty_at_def)

theorem filterToken_returns_witness:
  "(\<exists>tok s'. filterToken (list_source False) sample_filter None = Some (tok, s')) \<and>
   (\<exists>tok s'. filterToken (list_source True) (sample_filter\<lparr>ir_idx := 0, ir_base := [sample_token 1 4 4, sample_token 2 4 6]\<rparr>)
      None = Some (tok, s'))"
proof
  have g: "gapped (ir_ranges sample_filter)" by (simp add: sample_filter_def sample_range_def)
  have "tk_Symbol (nth_token (list_source False) 3 (ir_base sample_filter)) = 0"
    by (simp add: sample_filter_def list_source_def list_next_def zero_token_def eval_nat_numeral)
  then show "\<exists>tok s'. filterToken (list_source False) sample_filter None = Some (tok, s')"
    using filterToken_returns [OF g, of "list_source False" None] by (auto simp: list_source_def)
  have "\<forall>r\<in>set (ir_ranges sample_filter). \<forall>b. \<exists>n. gets_past (rg_StartByte r) (nth_seek list_skip (rg_StartByte r) n b)"
    using list_skip_ends unfolding gets_past_def by blast
  moreover have B: "bs_skipToByte (list_source True) = Some list_skip" by (simp add: list_source_def)
  ultimately show "\<exists>tok s'. filterToken (list_source True) (sample_filter\<lparr>ir_idx := 0, ir_base := [sample_token 1 4 4, sample_token 2 4 6]\<rparr>)
      None = Some (tok, s')"
    using filterToken_returns [OF g, of "list_source True" None] list_skip_forward
    unfolding B option.case by blast
qed

end
