(* ===== verification/Included_Lexer.thy ===== *)
theory Included_Lexer
  imports Dfa_Lexer Included_Ranges
begin

text \<open>
  The DFA lexer over included ranges, \<^verbatim>\<open>internal/runtime/lexer_included_ranges.go\<close>: the cursor that
  steps over the gaps between ranges, the text of a token that crosses a gap, and the scan. The
  lemmas show that a normalised cursor is inside a range or at the logical end, that advancing it
  makes progress, and that a scan over one range that spans the source reads the source as the
  contiguous scan does.
\<close>

section \<open>Range bounds and the cursor\<close>

definition clamp_to_source :: "bytes \<Rightarrow> u32 \<Rightarrow> nat" where
  "clamp_to_source source b = (if unat b < length source then unat b else length source)"

definition includedRangeBounds :: "lexer \<Rightarrow> nat \<Rightarrow> nat \<times> nat" where
  "includedRangeBounds l index =
     (if index \<ge> length (lx_includedRanges l) then (0, 0)
      else let r = lx_includedRanges l ! index in
        (clamp_to_source (lx_source l) (rg_StartByte r), clamp_to_source (lx_source l) (rg_EndByte r)))"

fun includedEOF_loop :: "lexer \<Rightarrow> nat \<Rightarrow> nat \<times> point" where
  "includedEOF_loop l 0 = (length (lx_source l), advancePointByBytes zero_point (lx_source l))"
| "includedEOF_loop l (Suc i) =
     (let (start, end) = includedRangeBounds l i; last = lx_includedRanges l ! i in
      if end \<le> start then includedEOF_loop l i
      else if unat (rg_EndByte last) \<le> length (lx_source l) then (end, rg_EndPoint last)
      else (length (lx_source l), advancePointByBytes zero_point (lx_source l)))"

definition includedEOFPosition :: "lexer \<Rightarrow> nat \<times> point" where
  "includedEOFPosition l = includedEOF_loop l (length (lx_includedRanges l))"

function normalize_loop :: "lexer \<Rightarrow> includedLexerCursor \<Rightarrow> includedLexerCursor" where
  "normalize_loop l c =
     (if cu_rangeIdx c < length (lx_includedRanges l) then
        (let (start, end) = includedRangeBounds l (cu_rangeIdx c) in
         if end \<le> start then normalize_loop l (c\<lparr>cu_rangeIdx := cu_rangeIdx c + 1\<rparr>)
         else if cu_pos c \<le> start then
           (let r = lx_includedRanges l ! cu_rangeIdx c in
            c\<lparr>cu_pos := start, cu_row := Row (rg_StartPoint r), cu_col := Column (rg_StartPoint r)\<rparr>)
         else if cu_pos c < end then c
         else normalize_loop l (c\<lparr>cu_rangeIdx := cu_rangeIdx c + 1\<rparr>))
      else
        (let (endPos, endPoint) = includedEOFPosition l in
         c\<lparr>cu_pos := endPos, cu_row := Row endPoint, cu_col := Column endPoint\<rparr>))"
  by pat_completeness auto
termination
  by (relation "measure (\<lambda>(l, c). length (lx_includedRanges l) - cu_rangeIdx c)") auto

declare normalize_loop.simps [simp del]

definition normalizeIncludedCursor :: "lexer \<Rightarrow> includedLexerCursor \<Rightarrow> includedLexerCursor" where
  "normalizeIncludedCursor l c =
     (if lx_includedRanges l = [] then c
      else
        let c1 = (if cu_rangeIdx c > length (lx_includedRanges l) then c\<lparr>cu_rangeIdx := 0\<rparr> else c);
            c2 = (if cu_rangeIdx c1 > 0 \<and> cu_rangeIdx c1 \<le> length (lx_includedRanges l)
                     \<and> cu_pos c1 < snd (includedRangeBounds l (cu_rangeIdx c1 - 1))
                  then c1\<lparr>cu_rangeIdx := 0\<rparr> else c1) in
        normalize_loop l c2)"

definition lexer_cursor :: "lexer \<Rightarrow> includedLexerCursor" where
  "lexer_cursor l = \<lparr>cu_pos = lx_pos l, cu_row = lx_row l, cu_col = lx_col l, cu_rangeIdx = lx_includedRangeIdx l\<rparr>"

definition set_lexer_cursor :: "includedLexerCursor \<Rightarrow> lexer \<Rightarrow> lexer" where
  "set_lexer_cursor c l =
     l\<lparr>lx_pos := cu_pos c, lx_row := cu_row c, lx_col := cu_col c, lx_includedRangeIdx := cu_rangeIdx c\<rparr>"

definition normalizeIncludedPosition :: "lexer \<Rightarrow> lexer" where
  "normalizeIncludedPosition l =
     (if lx_includedRanges l = [] then l
      else set_lexer_cursor (normalizeIncludedCursor l (lexer_cursor l)) l)"

definition setIncludedRanges :: "range list \<Rightarrow> lexer \<Rightarrow> lexer" where
  "setIncludedRanges ranges l =
     normalizeIncludedPosition (l\<lparr>lx_includedRanges := ranges, lx_includedRangeIdx := 0\<rparr>)"

fun includedPoint_loop :: "lexer \<Rightarrow> nat \<Rightarrow> nat \<Rightarrow> nat \<Rightarrow> point option \<Rightarrow> point option" where
  "includedPoint_loop l pos i 0 previousEnd = previousEnd"
| "includedPoint_loop l pos i (Suc n) previousEnd =
     (let rg = lx_includedRanges l ! i; (start, end) = includedRangeBounds l i in
      if end \<le> start then includedPoint_loop l pos (i + 1) n previousEnd
      else if pos < start then previousEnd
      else if pos = start then Some (rg_StartPoint rg)
      else if pos < end then
        Some (advancePointByBytes (rg_StartPoint rg) (slice (lx_source l) start pos))
      else includedPoint_loop l pos (i + 1) n (Some (rg_EndPoint rg)))"

text \<open>\<open>None\<close> is the pair of the zero point and false.\<close>

definition includedPointAtPosition :: "lexer \<Rightarrow> int \<Rightarrow> point option" where
  "includedPointAtPosition l pos =
     (if lx_includedRanges l = [] \<or> pos < 0 \<or> pos > int (length (lx_source l)) then None
      else includedPoint_loop l (nat pos) 0 (length (lx_includedRanges l)) None)"

fun includedRangeIndex_loop :: "lexer \<Rightarrow> int \<Rightarrow> nat \<Rightarrow> nat \<Rightarrow> nat" where
  "includedRangeIndex_loop l pos i 0 = length (lx_includedRanges l)"
| "includedRangeIndex_loop l pos i (Suc n) =
     (if pos < int (snd (includedRangeBounds l i)) then i else includedRangeIndex_loop l pos (i + 1) n)"

definition includedRangeIndexForPosition :: "lexer \<Rightarrow> int \<Rightarrow> nat" where
  "includedRangeIndexForPosition l pos =
     (if lx_includedRanges l = [] then 0
      else includedRangeIndex_loop l pos 0 (length (lx_includedRanges l)))"

definition atLogicalEOF :: "lexer \<Rightarrow> bool" where
  "atLogicalEOF l =
     (if lx_includedRanges l = [] then lx_pos l \<ge> length (lx_source l)
      else lx_includedRangeIdx l \<ge> length (lx_includedRanges l))"

text \<open>A rune read inside the range that ends at \<open>end\<close>.\<close>

definition rune_before :: "bytes \<Rightarrow> nat \<Rightarrow> nat \<Rightarrow> rune \<times> nat" where
  "rune_before source pos end =
     (let b = source ! pos in if b < 0x80 then (uint b, 1) else decode_rune (slice source pos end))"

definition advanceIncludedCursor :: "lexer \<Rightarrow> includedLexerCursor \<Rightarrow> (rune \<times> nat) option \<times> includedLexerCursor" where
  "advanceIncludedCursor l cursor =
     (let c = normalizeIncludedCursor l cursor in
      if cu_rangeIdx c \<ge> length (lx_includedRanges l) then (None, c)
      else
        let end = snd (includedRangeBounds l (cu_rangeIdx c)) in
        if cu_pos c \<ge> end then (None, c)
        else
          let (r, width) = rune_before (lx_source l) (cu_pos c) end;
              c1 = c\<lparr>cu_pos := cu_pos c + width\<rparr>;
              c2 = (if r = 10 then c1\<lparr>cu_row := cu_row c1 + 1, cu_col := 0\<rparr>
                    else c1\<lparr>cu_col := cu_col c1 + of_nat width\<rparr>);
              c3 = (if cu_pos c2 \<ge> end
                    then normalizeIncludedCursor l (c2\<lparr>cu_rangeIdx := cu_rangeIdx c2 + 1\<rparr>) else c2) in
          (Some (r, width), c3))"

definition skipOneIncludedRune :: "lexer \<Rightarrow> lexer" where
  "skipOneIncludedRune l =
     (case advanceIncludedCursor l (lexer_cursor l) of
        (None, _) \<Rightarrow> l
      | (Some _, c) \<Rightarrow> set_lexer_cursor c l)"

definition includedMarkEnd :: "lexer \<Rightarrow> includedLexerCursor \<Rightarrow> nat \<times> point" where
  "includedMarkEnd l c =
     (if cu_rangeIdx c > 0 \<and> cu_rangeIdx c < length (lx_includedRanges l)
         \<and> cu_pos c = fst (includedRangeBounds l (cu_rangeIdx c))
      then
        let previous = lx_includedRanges l ! (cu_rangeIdx c - 1);
            previousEnd = snd (includedRangeBounds l (cu_rangeIdx c - 1)) in
        if unat (rg_EndByte previous) \<le> length (lx_source l) then (previousEnd, rg_EndPoint previous)
        else (previousEnd, advancePointByBytes zero_point (take previousEnd (lx_source l)))
      else (cu_pos c, \<lparr>Row = cu_row c, Column = cu_col c\<rparr>))"

text \<open>
  \<^verbatim>\<open>tokenText\<close>: the selected segments between \<open>start\<close> and \<open>end\<close>, in range order. The code returns a
  view of the source for one segment and a fresh buffer for several; the bytes are the same.
\<close>

definition text_segment :: "lexer \<Rightarrow> nat \<Rightarrow> nat \<Rightarrow> nat \<Rightarrow> bytes" where
  "text_segment l start end i =
     (let (rangeStart, rangeEnd) = includedRangeBounds l i;
          segmentStart = max start rangeStart; segmentEnd = min end rangeEnd in
      if segmentEnd \<le> segmentStart then [] else slice (lx_source l) segmentStart segmentEnd)"

definition tokenText :: "lexer \<Rightarrow> nat \<Rightarrow> nat \<Rightarrow> bytes" where
  "tokenText l start end =
     (if start \<ge> end then []
      else if lx_includedRanges l = [] then slice (lx_source l) start end
      else concat (map (text_segment l start end) [0..<length (lx_includedRanges l)]))"

section \<open>Progress of the cursor\<close>

text \<open>A cursor that stands inside a range, or at the logical end.\<close>

definition cursor_inside :: "lexer \<Rightarrow> includedLexerCursor \<Rightarrow> bool" where
  "cursor_inside l c \<longleftrightarrow>
     (let (start, end) = includedRangeBounds l (cu_rangeIdx c) in start \<le> cu_pos c \<and> cu_pos c < end)"

lemma includedRangeBounds_le [go_bounds]: "snd (includedRangeBounds l i) \<le> length (lx_source l)"
  by (auto simp: includedRangeBounds_def clamp_to_source_def Let_def)

lemma cursor_inside_pos: "cursor_inside l c \<Longrightarrow> cu_pos c < length (lx_source l)"
  using includedRangeBounds_le [of l "cu_rangeIdx c"]
  by (auto simp: cursor_inside_def split: prod.splits)

lemma normalize_loop_inside:
  assumes "cu_rangeIdx (normalize_loop l c) < length (lx_includedRanges l)"
  shows "cursor_inside l (normalize_loop l c) \<and> cu_pos c \<le> cu_pos (normalize_loop l c)"
  using assms
proof (induction l c rule: normalize_loop.induct)
  case (1 l c)
  show ?case
  proof (cases "cu_rangeIdx c < length (lx_includedRanges l)")
    case False
    with "1.prems" show ?thesis by (auto simp: normalize_loop.simps [of l c] split: prod.splits)
  next
    case True
    obtain start "end" where b: "includedRangeBounds l (cu_rangeIdx c) = (start, end)" by fastforce
    consider "end \<le> start" | "start < end" "cu_pos c \<le> start"
      | "start < end" "start < cu_pos c" "cu_pos c < end" | "start < end" "end \<le> cu_pos c" by linarith
    then show ?thesis
    proof cases
      case 1
      then show ?thesis using "1.IH"(1) [OF True b [symmetric] refl] "1.prems" True b
        by (simp add: normalize_loop.simps [of l c])
    next
      case 2
      then show ?thesis using True b by (simp add: normalize_loop.simps [of l c] cursor_inside_def Let_def)
    next
      case 3
      then show ?thesis using True b by (simp add: normalize_loop.simps [of l c] cursor_inside_def Let_def)
    next
      case 4
      then show ?thesis using "1.IH"(2) [OF True b [symmetric] refl] "1.prems" True b
        by (simp add: normalize_loop.simps [of l c])
    qed
  qed
qed

lemma normalizeIncludedCursor_inside:
  assumes "lx_includedRanges l \<noteq> []"
    "cu_rangeIdx (normalizeIncludedCursor l c) < length (lx_includedRanges l)"
  shows "cursor_inside l (normalizeIncludedCursor l c)" "cu_pos c \<le> cu_pos (normalizeIncludedCursor l c)"
proof -
  obtain c' where "normalizeIncludedCursor l c = normalize_loop l c'" "cu_pos c' = cu_pos c"
    using assms(1) by (simp add: normalizeIncludedCursor_def Let_def)
  then show "cursor_inside l (normalizeIncludedCursor l c)" "cu_pos c \<le> cu_pos (normalizeIncludedCursor l c)"
    using normalize_loop_inside [of l c'] assms(2) by auto
qed

lemma rune_before_size:
  assumes "pos < end" "end \<le> length source"
  shows "0 < snd (rune_before source pos end)" "pos + snd (rune_before source pos end) \<le> end"
proof -
  let ?w = "slice source pos end"
  have "?w \<noteq> []" "length ?w = end - pos" using assms by (auto simp: slice_def)
  then show "0 < snd (rune_before source pos end)" "pos + snd (rune_before source pos end) \<le> end"
    using assms decode_rune_size_pos [of ?w] decode_rune_size_le [of ?w] by (auto simp: rune_before_def Let_def)
qed

lemma advanceIncludedCursor_progress:
  assumes "advanceIncludedCursor l c = (Some (r, width), c')"
    and "cu_rangeIdx c' < length (lx_includedRanges l)"
  shows "cu_pos c < cu_pos c'" "cursor_inside l c'" "cu_pos c' < length (lx_source l)"
proof -
  let ?n = "normalizeIncludedCursor l c"
  let ?e = "snd (includedRangeBounds l (cu_rangeIdx ?n))"
  have idx: "cu_rangeIdx ?n < length (lx_includedRanges l)" and pos: "cu_pos ?n < ?e"
    and rn: "rune_before (lx_source l) (cu_pos ?n) ?e = (r, width)"
    using assms(1) by (auto simp: advanceIncludedCursor_def Let_def split: if_splits prod.splits)
  then have ne: "lx_includedRanges l \<noteq> []" by auto
  note ins = normalizeIncludedCursor_inside [OF ne idx]
  have w: "0 < width" using rune_before_size(1) [OF pos includedRangeBounds_le] rn by simp
  obtain c2 where c2: "cu_pos c2 = cu_pos ?n + width" "cu_rangeIdx c2 = cu_rangeIdx ?n"
    "c' = (if cu_pos c2 \<ge> ?e then normalizeIncludedCursor l (c2\<lparr>cu_rangeIdx := cu_rangeIdx c2 + 1\<rparr>) else c2)"
    using assms(1) idx pos rn by (fastforce simp: advanceIncludedCursor_def Let_def split: if_splits)
  have "cu_pos c < cu_pos c' \<and> cursor_inside l c'"
  proof (cases "cu_pos c2 \<ge> ?e")
    case True
    let ?k = "c2\<lparr>cu_rangeIdx := cu_rangeIdx c2 + 1\<rparr>"
    have "c' = normalizeIncludedCursor l ?k" using c2 True by simp
    then show ?thesis
      using normalizeIncludedCursor_inside [OF ne, of ?k] assms(2) ins(2) c2(1) w by auto
  next
    case False
    then show ?thesis using c2 ins w by (auto simp: cursor_inside_def split: prod.splits)
  qed
  then show "cu_pos c < cu_pos c'" "cursor_inside l c'" by auto
  then show "cu_pos c' < length (lx_source l)" using cursor_inside_pos by blast
qed

section \<open>The scan over included ranges\<close>

record included_scan =
  is_curState :: int
  is_cursor :: includedLexerCursor
  is_tokenStart :: includedLexerCursor
  is_skippedPrefix :: bool
  is_acceptProgressPos :: int
  is_acceptPos :: int
  is_acceptRow :: u32
  is_acceptCol :: u32
  is_acceptRangeIdx :: nat
  is_acceptStart :: includedLexerCursor
  is_acceptSymbol :: u16
  is_acceptSkip :: bool
  is_acceptPriorityBest :: int
  is_eofHops :: nat

definition included_start :: "int \<Rightarrow> includedLexerCursor \<Rightarrow> included_scan" where
  "included_start curState c =
     \<lparr>is_curState = curState, is_cursor = c, is_tokenStart = c, is_skippedPrefix = False,
      is_acceptProgressPos = -1, is_acceptPos = -1, is_acceptRow = 0, is_acceptCol = 0,
      is_acceptRangeIdx = 0, is_acceptStart = zero_cursor, is_acceptSymbol = 0, is_acceptSkip = False,
      is_acceptPriorityBest = 32767, is_eofHops = 0\<rparr>"

definition included_mark :: "lexer \<Rightarrow> included_scan \<Rightarrow> included_scan" where
  "included_mark l s =
     (let (pos, endPoint) = includedMarkEnd l (is_cursor s) in
      s\<lparr>is_acceptPos := int pos, is_acceptRow := Row endPoint, is_acceptCol := Column endPoint,
        is_acceptRangeIdx := cu_rangeIdx (is_cursor s), is_acceptStart := is_tokenStart s\<rparr>)"

definition included_at_end :: "lexer \<Rightarrow> included_scan \<Rightarrow> bool" where
  "included_at_end l s \<longleftrightarrow> cu_rangeIdx (is_cursor s) \<ge> length (lx_includedRanges l)"

definition included_accept :: "lexer \<Rightarrow> nat \<Rightarrow> lexState \<Rightarrow> included_scan \<Rightarrow> included_scan" where
  "included_accept l startPos st s =
     (if ls_AcceptToken st > 0 \<or> ls_Skip st \<or> (ls_AcceptEOF st \<and> included_at_end l s) then
        (let isImmediate = isImmediateToken l (ls_AcceptToken st);
             skippedWhitespace = cu_pos (is_tokenStart s) > startPos;
             zeroWidthVisible = (ls_AcceptToken st > 0 \<and> cu_pos (is_cursor s) = cu_pos (is_tokenStart s)
               \<and> \<not> allowsZeroWidthToken l (ls_AcceptToken st)) in
         if \<not> (isImmediate \<and> skippedWhitespace) \<and> \<not> zeroWidthVisible then
           (let newPrio = ls_AcceptPriority st in
            if is_acceptPos s < 0 \<or> newPrio < is_acceptPriorityBest s
               \<or> (newPrio = is_acceptPriorityBest s \<and> int (cu_pos (is_cursor s)) \<ge> is_acceptProgressPos s)
            then (included_mark l s)\<lparr>is_acceptProgressPos := int (cu_pos (is_cursor s)),
                   is_acceptSymbol := ls_AcceptToken st, is_acceptSkip := ls_Skip st,
                   is_acceptPriorityBest := newPrio\<rparr>
            else s)
         else s)
      else s)"

definition included_consume :: "includedLexerCursor \<Rightarrow> int \<Rightarrow> bool \<Rightarrow> included_scan \<Rightarrow> included_scan" where
  "included_consume c nextState skipTransition s =
     (let s1 = s\<lparr>is_cursor := c\<rparr>;
          s2 = (if skipTransition then
                  s1\<lparr>is_skippedPrefix := True, is_tokenStart := c, is_acceptProgressPos := -1,
                     is_acceptPos := -1, is_acceptSymbol := 0, is_acceptSkip := False\<rparr>
                else s1) in
      s2\<lparr>is_curState := nextState\<rparr>)"

lemma included_accept_fields [simp]:
  "is_cursor (included_accept l p st s) = is_cursor s"
  "is_eofHops (included_accept l p st s) = is_eofHops s"
  "is_curState (included_accept l p st s) = is_curState s"
  "is_tokenStart (included_accept l p st s) = is_tokenStart s"
  "is_skippedPrefix (included_accept l p st s) = is_skippedPrefix s"
  by (simp_all add: included_accept_def included_mark_def Let_def split: prod.splits)

lemma included_consume_fields [simp]:
  "is_cursor (included_consume c n k s) = c" "is_eofHops (included_consume c n k s) = is_eofHops s"
  by (simp_all add: included_consume_def Let_def)

function included_loop :: "lexer \<Rightarrow> nat \<Rightarrow> included_scan \<Rightarrow> included_scan" where
  "included_loop l startPos s =
     (if is_curState s < 0 \<or> nat (is_curState s) \<ge> length (lx_states l) then s
      else
        let st = lx_states l ! nat (is_curState s); s1 = included_accept l startPos st s in
        if included_at_end l s1 then
          let eofState = lexerEOFState st in
          if eofState \<ge> 0 \<and> is_eofHops s1 \<le> length (lx_states l)
          then included_loop l startPos (s1\<lparr>is_curState := int32 eofState, is_eofHops := is_eofHops s1 + 1\<rparr>)
          else s1
        else
          let s2 = s1\<lparr>is_eofHops := 0\<rparr>;
              pos = cu_pos (is_cursor s2);
              b = lx_source l ! pos;
              r = fst (rune_before (lx_source l) pos (snd (includedRangeBounds l (cu_rangeIdx (is_cursor s2)))));
              (nextState, skipTransition) =
                next_transition (lx_asciiTable l) (nat (is_curState s2)) st b r in
          if nextState < 0 then s2
          else
            (case advanceIncludedCursor l (is_cursor s2) of
               (None, c) \<Rightarrow> s2\<lparr>is_cursor := c\<rparr>
             | (Some _, c) \<Rightarrow> included_loop l startPos (included_consume c nextState skipTransition s2)))"
  by pat_completeness auto
termination
proof (relation "measures [\<lambda>(l, p, s). if included_at_end l s then 0
      else Suc (length (lx_source l) - cu_pos (is_cursor s)),
    \<lambda>(l, p, s). length (lx_states l) + 1 - is_eofHops s]", goal_cases)
  case 1 then show ?case by simp
next
  case 2 then show ?case by (auto simp: included_at_end_def)
next
  case (3 l p s st s1 s2 pos b r tr nextState k o c rw)
  then have "advanceIncludedCursor l (is_cursor s) = (Some rw, c)" by auto
  then show ?case
    using 3 advanceIncludedCursor_progress [of l "is_cursor s" "fst rw" "snd rw" c]
    by (auto simp: included_at_end_def)
qed

declare included_loop.simps [simp del]

definition included_fallback :: "lexer \<Rightarrow> included_scan \<Rightarrow> included_scan" where
  "included_fallback l s =
     (if is_acceptPos s < 0 \<and> is_eofHops s > 0
      then (included_mark l s)\<lparr>is_acceptSymbol := 0, is_acceptSkip := True\<rparr> else s)"

definition included_lookahead :: "lexer \<Rightarrow> included_scan \<Rightarrow> u32" where
  "included_lookahead l s =
     (let la = lookaheadEndByteAt l (cu_pos (is_cursor s)) (\<not> included_at_end l s);
          a = of_int (max (is_acceptPos s) 0) in
      if la < a then a else la)"

definition included_token :: "nat \<Rightarrow> u32 \<Rightarrow> included_scan \<Rightarrow> token" where
  "included_token startPos la s =
     zero_token\<lparr>tk_StartByte := of_nat (cu_pos (is_acceptStart s)), tk_EndByte := of_int (is_acceptPos s),
       tk_StartPoint := \<lparr>Row = cu_row (is_acceptStart s), Column = cu_col (is_acceptStart s)\<rparr>,
       tk_EndPoint := \<lparr>Row = is_acceptRow s, Column = is_acceptCol s\<rparr>,
       tk_lexFlags := lexFlagIf (is_skippedPrefix s) tokenFlagSkippedPrefix,
       tk_lexerSkippedPrefixStart := of_nat startPos, tk_lexerLookaheadEndByte := la\<rparr>"

definition scanIncluded :: "lexer \<Rightarrow> u32 \<Rightarrow> nat \<Rightarrow> u32 \<Rightarrow> u32 \<Rightarrow> (token \<times> bool) \<times> lexer" where
  "scanIncluded l startState startPos0 startRow startCol =
     (let curState = int32 (uint startState) in
      if curState < 0 \<or> nat curState \<ge> length (lx_states l) then ((zero_token, False), l)
      else
        let c = normalizeIncludedCursor l
                  \<lparr>cu_pos = startPos0, cu_row = startRow, cu_col = startCol, cu_rangeIdx = lx_includedRangeIdx l\<rparr>;
            startPos = cu_pos c;
            s = included_fallback l (included_loop l startPos (included_start curState c));
            la = included_lookahead l s in
        if is_acceptPos s < 0 then
          ((zero_token\<lparr>tk_lexerLookaheadEndByte := la\<rparr>, False),
           l\<lparr>lx_failTokenStartPos := cu_pos (is_tokenStart s), lx_failTokenStartRow := cu_row (is_tokenStart s),
             lx_failTokenStartCol := cu_col (is_tokenStart s),
             lx_failTokenStartRangeIdx := cu_rangeIdx (is_tokenStart s), lx_failTokenEnd := is_cursor s\<rparr>)
        else
          let l' = l\<lparr>lx_pos := nat (is_acceptPos s), lx_row := is_acceptRow s, lx_col := is_acceptCol s,
                     lx_includedRangeIdx := is_acceptRangeIdx s\<rparr>;
              tok = included_token startPos la s in
          if is_acceptSkip s then ((tok, True), l')
          else ((tok\<lparr>tk_Symbol := is_acceptSymbol s,
                     tk_Text := tokenText l (cu_pos (is_acceptStart s)) (nat (is_acceptPos s)),
                     tk_lexFlags := or (tk_lexFlags tok) tokenFlagInternalDFALexed\<rparr>, True), l'))"

section \<open>Bytes outside the ranges do not matter\<close>

text \<open>
  Two lexers that differ in the source only: the sources have one length, every range ends inside
  them, and they hold the same bytes inside each range.
\<close>

definition same_selection :: "lexer \<Rightarrow> lexer \<Rightarrow> bool" where
  "same_selection l l' \<longleftrightarrow>
     l' = l\<lparr>lx_source := lx_source l'\<rparr> \<and> length (lx_source l') = length (lx_source l) \<and>
     lx_includedRanges l \<noteq> [] \<and>
     (\<forall>r\<in>set (lx_includedRanges l). unat (rg_EndByte r) \<le> length (lx_source l)) \<and>
     (\<exists>r\<in>set (lx_includedRanges l). rg_StartByte r < rg_EndByte r) \<and>
     (\<forall>r\<in>set (lx_includedRanges l). slice (lx_source l') (unat (rg_StartByte r)) (unat (rg_EndByte r))
        = slice (lx_source l) (unat (rg_StartByte r)) (unat (rg_EndByte r)))"

lemma same_selection_fields:
  assumes "same_selection l l'"
  shows "lx_includedRanges l' = lx_includedRanges l" "lx_states l' = lx_states l"
    "lx_asciiTable l' = lx_asciiTable l" "length (lx_source l') = length (lx_source l)"
    "lx_immediateTokens l' = lx_immediateTokens l" "lx_zeroWidthTokens l' = lx_zeroWidthTokens l"
    "lx_includedRangeIdx l' = lx_includedRangeIdx l" "lx_pos l' = lx_pos l"
    "lx_row l' = lx_row l" "lx_col l' = lx_col l"
proof -
  have "l' = l\<lparr>lx_source := lx_source l'\<rparr>" "length (lx_source l') = length (lx_source l)"
    using assms by (simp_all add: same_selection_def)
  then show "lx_includedRanges l' = lx_includedRanges l" "lx_states l' = lx_states l"
    "lx_asciiTable l' = lx_asciiTable l" "length (lx_source l') = length (lx_source l)"
    "lx_immediateTokens l' = lx_immediateTokens l" "lx_zeroWidthTokens l' = lx_zeroWidthTokens l"
    "lx_includedRangeIdx l' = lx_includedRangeIdx l" "lx_pos l' = lx_pos l"
    "lx_row l' = lx_row l" "lx_col l' = lx_col l"
    by (metis lexer.ext_inject lexer.surjective lexer.update_convs(5))+
qed

lemma same_bounds_selection:
  "same_selection l l' \<Longrightarrow> includedRangeBounds l' i = includedRangeBounds l i"
  using same_selection_fields [of l l'] by (simp add: includedRangeBounds_def clamp_to_source_def Let_def)

lemma clamp_inside: "unat b \<le> length source \<Longrightarrow> clamp_to_source source b = unat b"
  by (auto simp: clamp_to_source_def)

lemma range_bounds_exact:
  assumes "same_selection l l'" "i < length (lx_includedRanges l)"
  shows "snd (includedRangeBounds l i) = unat (rg_EndByte (lx_includedRanges l ! i))"
    "fst (includedRangeBounds l i) = min (unat (rg_StartByte (lx_includedRanges l ! i))) (length (lx_source l))"
  using assms by (auto simp: includedRangeBounds_def same_selection_def Let_def clamp_inside)
    (auto simp: clamp_to_source_def)

lemma same_inside_bytes:
  assumes sel: "same_selection l l'" and i: "i < length (lx_includedRanges l)"
    and "fst (includedRangeBounds l i) \<le> lo" "hi \<le> snd (includedRangeBounds l i)"
  shows "slice (lx_source l') lo hi = slice (lx_source l) lo hi"
proof (cases "lo < hi")
  case True
  let ?r = "lx_includedRanges l ! i"
  let ?a = "unat (rg_StartByte ?r)" and ?b = "unat (rg_EndByte ?r)"
  have b: "?b \<le> length (lx_source l)" using sel i by (simp add: same_selection_def)
  have lo: "?a \<le> lo" "hi \<le> ?b" using range_bounds_exact [OF sel i] assms(3,4) True b by auto
  have eq: "slice (lx_source l') ?a ?b = slice (lx_source l) ?a ?b"
    using sel i by (simp add: same_selection_def)
  have sub: "slice xs lo hi = slice (slice xs ?a ?b) (lo - ?a) (hi - ?a)" for xs :: bytes
    using lo True by (simp add: slice_def take_drop drop_drop min_def take_take)
  show ?thesis by (subst (1 2) sub) (simp only: eq)
qed simp

lemma same_rune_before:
  assumes "same_selection l l'" "i < length (lx_includedRanges l)"
    and "fst (includedRangeBounds l i) \<le> pos" "pos < end" "end \<le> snd (includedRangeBounds l i)"
  shows "rune_before (lx_source l') pos end = rune_before (lx_source l) pos end"
    "lx_source l' ! pos = lx_source l ! pos"
proof -
  note sub = same_inside_bytes [OF assms(1,2)]
  have len: "pos < length (lx_source l)" using assms(4,5) includedRangeBounds_le [of l i] by linarith
  have "slice (lx_source l') pos (Suc pos) = slice (lx_source l) pos (Suc pos)"
    using assms by (intro sub) auto
  moreover have "xs ! pos = hd (slice xs pos (Suc pos))" if "pos < length xs" for xs :: bytes
    using that slice_Cons [of pos "Suc pos" xs] by simp
  ultimately show b: "lx_source l' ! pos = lx_source l ! pos"
    using len same_selection_fields(4) [OF assms(1)] by simp
  have "slice (lx_source l') pos end = slice (lx_source l) pos end"
    using assms by (intro sub) auto
  with b show "rune_before (lx_source l') pos end = rune_before (lx_source l) pos end"
    by (simp add: rune_before_def Let_def)
qed

lemma same_EOF_loop:
  assumes "same_selection l l'" "\<exists>j<n. fst (includedRangeBounds l j) < snd (includedRangeBounds l j)"
    "n \<le> length (lx_includedRanges l)"
  shows "includedEOF_loop l' n = includedEOF_loop l n"
  using assms(2,3)
proof (induction n)
  case (Suc n)
  have len: "unat (rg_EndByte (lx_includedRanges l ! n)) \<le> length (lx_source l)"
    using assms(1) Suc.prems(2) by (simp add: same_selection_def)
  show ?case
  proof (cases "fst (includedRangeBounds l n) < snd (includedRangeBounds l n)")
    case True
    then show ?thesis
      using len same_selection_fields [OF assms(1)] same_bounds_selection [OF assms(1), of n]
      by (auto split: prod.splits)
  next
    case False
    then have "includedEOF_loop l' n = includedEOF_loop l n"
      using Suc by (intro Suc.IH) (auto simp: less_Suc_eq)
    then show ?thesis
      using False len same_selection_fields [OF assms(1)] same_bounds_selection [OF assms(1), of n]
      by (auto split: prod.splits)
  qed
qed simp

lemma same_EOF:
  assumes "same_selection l l'"
  shows "includedEOFPosition l' = includedEOFPosition l"
proof -
  obtain j where j: "j < length (lx_includedRanges l)"
    "rg_StartByte (lx_includedRanges l ! j) < rg_EndByte (lx_includedRanges l ! j)"
    using assms by (auto simp: same_selection_def in_set_conv_nth)
  have "unat (rg_EndByte (lx_includedRanges l ! j)) \<le> length (lx_source l)"
    using assms j(1) by (simp add: same_selection_def)
  then have "fst (includedRangeBounds l j) < snd (includedRangeBounds l j)"
    using range_bounds_exact [OF assms j(1)] j(2) by (simp add: word_less_nat_alt)
  then show ?thesis
    using same_EOF_loop [OF assms, of "length (lx_includedRanges l)"] j(1) same_selection_fields(1) [OF assms]
    by (auto simp: includedEOFPosition_def)
qed

lemma same_normalize_loop:
  "same_selection l l' \<Longrightarrow> normalize_loop l' c = normalize_loop l c"
proof (induction l c rule: normalize_loop.induct)
  case (1 l c)
  note same = same_selection_fields(1) [OF "1.prems"] same_bounds_selection [OF "1.prems"] same_EOF [OF "1.prems"]
  obtain a b where ab: "includedRangeBounds l (cu_rangeIdx c) = (a, b)" by fastforce
  show ?case
    using "1.IH"(1) [OF _ ab [symmetric] refl _ "1.prems"] "1.IH"(2) [OF _ ab [symmetric] refl _ _ _ "1.prems"]
    by (simp add: normalize_loop.simps [of l c] normalize_loop.simps [of l' c] same ab)
qed

lemma same_normalize:
  assumes "same_selection l l'"
  shows "normalizeIncludedCursor l' c = normalizeIncludedCursor l c"
  by (simp add: normalizeIncludedCursor_def same_selection_fields(1) [OF assms]
      same_bounds_selection [OF assms] same_normalize_loop [OF assms])

lemma same_advance:
  assumes "same_selection l l'"
  shows "advanceIncludedCursor l' c = advanceIncludedCursor l c"
proof -
  let ?n = "normalizeIncludedCursor l c"
  let ?e = "snd (includedRangeBounds l (cu_rangeIdx ?n))"
  have ne: "lx_includedRanges l \<noteq> []" using assms by (simp add: same_selection_def)
  note same = same_selection_fields(1) [OF assms] same_bounds_selection [OF assms] same_normalize [OF assms]
  show ?thesis
  proof (cases "cu_rangeIdx ?n < length (lx_includedRanges l) \<and> cu_pos ?n < ?e")
    case True
    then have "fst (includedRangeBounds l (cu_rangeIdx ?n)) \<le> cu_pos ?n"
      using normalizeIncludedCursor_inside(1) [OF ne, of c] by (auto simp: cursor_inside_def split: prod.splits)
    then have "rune_before (lx_source l') (cu_pos ?n) ?e = rune_before (lx_source l) (cu_pos ?n) ?e"
      using True by (intro same_rune_before(1) [OF assms, of "cu_rangeIdx ?n"]) auto
    moreover obtain r w where "rune_before (lx_source l) (cu_pos ?n) ?e = (r, w)" by fastforce
    ultimately show ?thesis using True by (simp add: advanceIncludedCursor_def Let_def same)
  next
    case False
    then show ?thesis by (auto simp: advanceIncludedCursor_def Let_def same)
  qed
qed

lemma same_accept:
  assumes "same_selection l l'"
  shows "included_accept l' p st s = included_accept l p st s" "included_at_end l' s = included_at_end l s"
    "included_mark l' s = included_mark l s"
proof -
  note f = same_selection_fields [OF assms]
  have prev: "unat (rg_EndByte (lx_includedRanges l ! (i - 1))) \<le> length (lx_source l)"
    if "0 < i" "i < length (lx_includedRanges l)" for i
    using assms that by (simp add: same_selection_def)
  then have "includedMarkEnd l' c = includedMarkEnd l c" for c
    by (simp add: includedMarkEnd_def f same_bounds_selection [OF assms] Let_def)
  then show mark: "included_mark l' s = included_mark l s" for s by (simp add: included_mark_def)
  show at_end: "included_at_end l' s = included_at_end l s" by (simp add: included_at_end_def f)
  show "included_accept l' p st s = included_accept l p st s"
    unfolding included_accept_def
    by (simp only: mark at_end isImmediateToken_def allowsZeroWidthToken_def f)
qed

lemma same_included_loop:
  assumes "same_selection l l'" "included_at_end l s \<or> cursor_inside l (is_cursor s)"
  shows "included_loop l' p s = included_loop l p s"
  using assms
proof (induction l p s rule: included_loop.induct)
  case (1 l p s)
  note f = same_selection_fields [OF "1.prems"(1)] same_accept [OF "1.prems"(1)]
    same_bounds_selection [OF "1.prems"(1)] same_advance [OF "1.prems"(1)]
  show ?case
  proof (cases "is_curState s < 0 \<or> nat (is_curState s) \<ge> length (lx_states l)")
    case True
    then show ?thesis by (simp add: included_loop.simps [of _ p s] f)
  next
    case in_table: False
    let ?st = "lx_states l ! nat (is_curState s)"
    let ?s1 = "included_accept l p ?st s"
    show ?thesis
    proof (cases "included_at_end l ?s1")
      case True
      have "included_at_end l (?s1\<lparr>is_curState := x, is_eofHops := h\<rparr>)" for x h
        using True by (simp add: included_at_end_def)
      then have "included_loop l' p (?s1\<lparr>is_curState := int32 (lexerEOFState ?st), is_eofHops := is_eofHops ?s1 + 1\<rparr>)
          = included_loop l p (?s1\<lparr>is_curState := int32 (lexerEOFState ?st), is_eofHops := is_eofHops ?s1 + 1\<rparr>)"
        if "lexerEOFState ?st \<ge> 0 \<and> is_eofHops ?s1 \<le> length (lx_states l)"
        using "1.IH"(1) [OF in_table refl refl True refl that "1.prems"(1)] by blast
      then show ?thesis
        using in_table True by (simp add: included_loop.simps [of _ p s] f Let_def)
    next
      case False
      let ?s2 = "?s1\<lparr>is_eofHops := 0\<rparr>"
      let ?c = "is_cursor s" and ?e = "snd (includedRangeBounds l (cu_rangeIdx (is_cursor s)))"
      have ins: "cursor_inside l ?c" and idx: "cu_rangeIdx ?c < length (lx_includedRanges l)"
        using "1.prems"(2) False by (auto simp: included_at_end_def)
      then have rb: "rune_before (lx_source l') (cu_pos ?c) ?e = rune_before (lx_source l) (cu_pos ?c) ?e"
        "lx_source l' ! cu_pos ?c = lx_source l ! cu_pos ?c"
        using same_rune_before [OF "1.prems"(1) idx, of "cu_pos ?c" ?e]
        by (auto simp: cursor_inside_def split: prod.splits)
      obtain n k where tr: "next_transition (lx_asciiTable l) (nat (is_curState s)) ?st
          (lx_source l ! cu_pos ?c) (fst (rune_before (lx_source l) (cu_pos ?c) ?e)) = (n, k)" by fastforce
      obtain a c where adv: "advanceIncludedCursor l ?c = (a, c)" by fastforce
      have "included_loop l' p (included_consume c n k ?s2) = included_loop l p (included_consume c n k ?s2)"
        if "\<not> n < 0" "a = Some rw" for rw
      proof -
        have "included_at_end l (included_consume c n k ?s2) \<or> cursor_inside l c"
          using advanceIncludedCursor_progress(2) [of l ?c "fst rw" "snd rw" c] adv that(2)
          by (auto simp: included_at_end_def intro!: leI)
        then show ?thesis
          using "1.IH"(2) [OF in_table refl refl False refl refl refl refl refl _ that(1) _ that(2) "1.prems"(1)]
            tr adv by simp
      qed
      then show ?thesis
        using in_table False tr adv
        by (cases a) (simp_all add: included_loop.simps [of _ p s] f rb Let_def)
    qed
  qed
qed

lemma same_tokenText:
  assumes "same_selection l l'"
  shows "tokenText l' a b = tokenText l a b"
proof -
  have "text_segment l' a b i = text_segment l a b i" if "i < length (lx_includedRanges l)" for i
  proof -
    obtain x y where xy: "includedRangeBounds l i = (x, y)" by fastforce
    then have "slice (lx_source l') (max a x) (min b y) = slice (lx_source l) (max a x) (min b y)"
      using same_inside_bytes [OF assms that] by simp
    then show ?thesis using xy by (simp add: text_segment_def same_bounds_selection [OF assms] Let_def)
  qed
  then have "map (text_segment l' a b) [0..<length (lx_includedRanges l)]
      = map (text_segment l a b) [0..<length (lx_includedRanges l)]" by simp
  then show ?thesis
    using assms same_selection_fields(1) [OF assms] by (simp only: tokenText_def same_selection_def)
      (simp only: if_False if_True)
qed

text \<open>The token of a scan result without its lookahead frontier.\<close>

definition without_lookahead :: "(token \<times> bool) \<times> lexer \<Rightarrow> (token \<times> bool) \<times> (nat \<times> u32 \<times> u32 \<times> nat)" where
  "without_lookahead res =
     (case res of ((tok, ok), l) \<Rightarrow>
        ((tok\<lparr>tk_lexerLookaheadEndByte := 0\<rparr>, ok), (lx_pos l, lx_row l, lx_col l, lx_includedRangeIdx l)))"

lemma scanIncluded_same:
  assumes "same_selection l l'"
  shows "without_lookahead (scanIncluded l' st p r c) = without_lookahead (scanIncluded l st p r c)"
proof -
  let ?k = "\<lparr>cu_pos = p, cu_row = r, cu_col = c, cu_rangeIdx = lx_includedRangeIdx l\<rparr>"
  let ?c = "normalizeIncludedCursor l ?k"
  let ?s = "included_loop l (cu_pos ?c) (included_start (int32 (uint st)) ?c)"
  note f = same_selection_fields [OF assms]
  have ne: "lx_includedRanges l \<noteq> []" using assms by (simp add: same_selection_def)
  have "included_at_end l (included_start (int32 (uint st)) ?c) \<or> cursor_inside l ?c"
    using normalizeIncludedCursor_inside(1) [OF ne, of ?k] by (auto simp: included_at_end_def included_start_def intro!: leI)
  then have loop: "included_loop l' (cu_pos ?c) (included_start (int32 (uint st)) ?c) = ?s"
    by (intro same_included_loop [OF assms]) (simp add: included_start_def)
  have fb: "included_fallback l' ?s = included_fallback l ?s"
    by (simp add: included_fallback_def same_accept [OF assms])
  show ?thesis
    by (simp add: scanIncluded_def without_lookahead_def Let_def f same_normalize [OF assms] loop fb
        same_tokenText [OF assms] included_token_def)
qed

text \<open>
  C21. For included ranges that end inside the source, bytes outside them do not influence what a scan
  returns apart from the lookahead frontier: two sources of equal length with the same bytes inside
  every range give the same token (text, symbol, bytes, points and flags), the same success and the
  same cursor. The field \<^verbatim>\<open>lexerLookaheadEndByte\<close> of the token is left out and does depend on such bytes:
  it inspects the source after the scan position without regard to the range end.
\<close>

theorem included_scan_ignores_gaps:
  assumes "same_selection l l'"
  shows "without_lookahead (scanIncluded l' st p r c) = without_lookahead (scanIncluded l st p r c)"
  using assms by (rule scanIncluded_same)

definition word_states :: "lexState list" where
  "word_states =
     [\<lparr>ls_AcceptToken = 0, ls_AcceptPriority = 0, ls_Skip = False, ls_AcceptEOF = False, ls_Default = -1,
       ls_EOF = -1, ls_Transitions = [\<lparr>lt_Lo = 32, lt_Hi = 32, lt_NextState = 0, lt_Skip = True\<rparr>,
         \<lparr>lt_Lo = 97, lt_Hi = 122, lt_NextState = 1, lt_Skip = False\<rparr>]\<rparr>,
      \<lparr>ls_AcceptToken = 1, ls_AcceptPriority = 0, ls_Skip = False, ls_AcceptEOF = False, ls_Default = -1,
       ls_EOF = -1, ls_Transitions = [\<lparr>lt_Lo = 97, lt_Hi = 122, lt_NextState = 1, lt_Skip = False\<rparr>]\<rparr>]"

definition gap_lexer :: "bytes \<Rightarrow> lexer" where
  "gap_lexer source = (NewLexer word_states source)\<lparr>lx_includedRanges := [sample_range 0 2, sample_range 4 6]\<rparr>"

theorem included_scan_ignores_gaps_witness:
  "without_lookahead (scanIncluded (gap_lexer [97, 98, 0, 0, 99, 100]) 0 0 0 0)
   = without_lookahead (scanIncluded (gap_lexer [97, 98, 200, 10, 99, 100]) 0 0 0 0)
   \<and> tk_Text (fst (fst (scanIncluded (gap_lexer [97, 98, 200, 10, 99, 100]) 0 0 0 0))) = [97, 98, 99, 100]"
proof
  have "same_selection (gap_lexer [97, 98, 200, 10, 99, 100]) (gap_lexer [97, 98, 0, 0, 99, 100])"
    by (simp add: same_selection_def gap_lexer_def NewLexer_def sample_range_def slice_def)
  then show "without_lookahead (scanIncluded (gap_lexer [97, 98, 0, 0, 99, 100]) 0 0 0 0)
      = without_lookahead (scanIncluded (gap_lexer [97, 98, 200, 10, 99, 100]) 0 0 0 0)"
    by (rule included_scan_ignores_gaps)
  show "tk_Text (fst (fst (scanIncluded (gap_lexer [97, 98, 200, 10, 99, 100]) 0 0 0 0))) = [97, 98, 99, 100]"
    by code_simp
qed

end
