(* ===== verification/Lexer_Next.thy ===== *)
theory Lexer_Next
  imports Included_Lexer
begin

text \<open>
  The token loop of \<^verbatim>\<open>internal/runtime/lexer.go\<close>: one scan attempt with its read accounting, the
  error-mode probe, the error run, and \<open>nextWithFrontier\<close> with its retry in the error lex mode. The
  loops are partial functions with value \<open>None\<close> for not returning; the lemmas show that without
  included ranges every call returns, and that an included range that ends inside a byte order mark
  makes it run forever.
\<close>

section \<open>One attempt\<close>

definition tokenInvariantExaminedEnd :: "bytes \<Rightarrow> u32 \<Rightarrow> u32" where
  "tokenInvariantExaminedEnd source frontier =
     (if frontier = 0 \<or> unat frontier > length source \<or> source ! (unat frontier - 1) < 0x80 then frontier
      else
        let width = snd (decode_rune (drop (unat frontier - 1) source)) in
        of_int (min 4294967295 (uint frontier + int (width - 1))))"

definition recordTokenInvariantReadSpan :: "u32 option \<Rightarrow> nat \<Rightarrow> u32 \<Rightarrow> u32 option" where
  "recordTokenInvariantReadSpan maximum start frontier =
     (case maximum of None \<Rightarrow> None
      | Some m \<Rightarrow>
          if unat frontier \<le> start then Some m
          else let span = (of_int (uint frontier - int start) :: u32) in
            if span > m then Some span else Some m)"

definition scanInto :: "lexer \<Rightarrow> u32 \<Rightarrow> nat \<Rightarrow> u32 \<Rightarrow> u32 \<Rightarrow> (token \<times> bool) \<times> lexer" where
  "scanInto l startState startPos startRow startCol =
     (let ((tok, ok), l1) =
            (if lx_includedRanges l \<noteq> [] then scanIncluded l startState startPos startRow startCol
             else scanContiguousInto l startState startPos startRow startCol);
          examined = tokenInvariantExaminedEnd (lx_source l1) (tk_lexerLookaheadEndByte tok);
          l2 = l1\<lparr>lx_tokenInvariantReadSpanMax :=
                   recordTokenInvariantReadSpan (lx_tokenInvariantReadSpanMax l1) startPos examined\<rparr>;
          l3 = l2\<lparr>lx_reuseReads := map_option (\<lambda>r. Record r (int startPos) examined) (lx_reuseReads l2)\<rparr> in
      ((tok, ok), l3))"

definition restore_cursor :: "lexer \<Rightarrow> lexer \<Rightarrow> lexer" where
  "restore_cursor saved l = set_lexer_cursor (lexer_cursor saved) l"

text \<open>Both callers pass a frontier to widen, so the pointer is never nil.\<close>

definition canLexAt :: "lexer \<Rightarrow> u32 \<Rightarrow> nat \<Rightarrow> u32 \<Rightarrow> u32 \<Rightarrow> u32 \<Rightarrow> (bool \<times> u32) \<times> lexer" where
  "canLexAt l lexState pos row col frontier =
     (let ((tok, ok), l') = scanInto l lexState pos row col in
      ((ok, maxUint32 frontier (tk_lexerLookaheadEndByte tok)), restore_cursor l l'))"

definition skipOneRune :: "lexer \<Rightarrow> lexer" where
  "skipOneRune l =
     (if lx_includedRanges l \<noteq> [] then skipOneIncludedRune l
      else if lx_pos l \<ge> length (lx_source l) then l
      else
        let (r, width) = decode_rune (drop (lx_pos l) (lx_source l));
            l' = l\<lparr>lx_pos := lx_pos l + width\<rparr> in
        if r = 10 then l'\<lparr>lx_row := lx_row l + 1, lx_col := 0\<rparr>
        else l'\<lparr>lx_col := lx_col l + of_nat width\<rparr>)"

definition advanceFailedErrorAttempt :: "lexer \<Rightarrow> lexer" where
  "advanceFailedErrorAttempt l =
     (if lx_errorModeRetry l \<and> cu_pos (lx_failTokenEnd l) > lx_pos l
      then set_lexer_cursor (lx_failTokenEnd l) l
      else skipOneRune l)"

section \<open>The error run\<close>

partial_function (option) error_run_loop :: "lexer \<Rightarrow> u32 \<Rightarrow> (u32 \<times> lexer) option" where
  "error_run_loop l frontier =
     (if atLogicalEOF l then Some (frontier, l)
      else
        let ((ok, frontier'), l') =
              canLexAt l (lx_errorRunLexState l) (lx_pos l) (lx_row l) (lx_col l) frontier in
        if ok then Some (frontier', l')
        else error_run_loop (advanceFailedErrorAttempt l') frontier')"

definition point_token :: "lexer \<Rightarrow> u32 \<Rightarrow> token" where
  "point_token l la =
     zero_token\<lparr>tk_StartByte := of_nat (lx_pos l), tk_EndByte := of_nat (lx_pos l),
       tk_StartPoint := \<lparr>Row = lx_row l, Column = lx_col l\<rparr>,
       tk_EndPoint := \<lparr>Row = lx_row l, Column = lx_col l\<rparr>, tk_lexerLookaheadEndByte := la\<rparr>"

definition errorRunToken :: "lexer \<Rightarrow> u32 \<Rightarrow> (token \<times> lexer) option" where
  "errorRunToken l0 frontier =
     (let l1 = (if lx_failTokenStartPos l0 > lx_pos l0 \<and> lx_failTokenStartPos l0 \<le> length (lx_source l0)
                then l0\<lparr>lx_pos := lx_failTokenStartPos l0, lx_row := lx_failTokenStartRow l0,
                        lx_col := lx_failTokenStartCol l0,
                        lx_includedRangeIdx := lx_failTokenStartRangeIdx l0\<rparr>
                else l0);
          l = normalizeIncludedPosition l1 in
      if atLogicalEOF l then
        Some (point_token l (maxUint32 frontier (lookaheadEndByteAt l (lx_pos l) False)), l)
      else
        Option.bind (error_run_loop (advanceFailedErrorAttempt l) frontier) (\<lambda>(frontier', l').
          let la = maxUint32 frontier' (lookaheadEndByteAt l' (lx_pos l') False) in
          Some (zero_token\<lparr>tk_Symbol := errorSymbol, tk_Text := tokenText l' (lx_pos l) (lx_pos l'),
                  tk_StartByte := of_nat (lx_pos l), tk_EndByte := of_nat (lx_pos l'),
                  tk_StartPoint := \<lparr>Row = lx_row l, Column = lx_col l\<rparr>,
                  tk_EndPoint := \<lparr>Row = lx_row l', Column = lx_col l'\<rparr>,
                  tk_lexerLookaheadEndByte := la\<rparr>, l')))"

section \<open>The token loop\<close>

text \<open>
  \<open>skipped\<close> and \<open>failed\<close> are the two bits of \<^verbatim>\<open>prefixState\<close>; \<open>call\<close> is the cursor at the start of the
  call. \<open>enter\<close> is what a call does before its loop.
\<close>

definition enter :: "lexer \<Rightarrow> lexer" where
  "enter l = skipLeadingBOM (normalizeIncludedPosition l)"

definition mark_dropped :: "bool \<Rightarrow> token \<Rightarrow> token" where
  "mark_dropped failed tok = (if failed then tok\<lparr>tk_missingStackRef := 0xFFFFFFFF\<rparr> else tok)"

definition mark_skipped :: "bool \<Rightarrow> nat \<Rightarrow> token \<Rightarrow> token" where
  "mark_skipped skipped start tok =
     (if skipped then (setLexFlag tokenFlagSkippedPrefix True tok)\<lparr>tk_lexerSkippedPrefixStart := of_nat start\<rparr>
      else tok)"

definition eof_result :: "lexer \<Rightarrow> u32 \<Rightarrow> nat \<Rightarrow> bool \<Rightarrow> bool \<Rightarrow> token \<times> lexer" where
  "eof_result l la callStartPos skipped failed =
     (let here = lookaheadEndByteAt l (lx_pos l) False;
          la' = maxUint32 la here;
          l' = l\<lparr>lx_tokenInvariantReadSpanMax :=
                 recordTokenInvariantReadSpan (lx_tokenInvariantReadSpanMax l) (lx_pos l) here\<rparr> in
      (mark_skipped (skipped \<and> \<not> failed) callStartPos (mark_dropped failed (point_token l' la')), l'))"

partial_function (option) next_loop ::
    "lexer \<Rightarrow> u32 \<Rightarrow> bool \<Rightarrow> u32 \<Rightarrow> includedLexerCursor \<Rightarrow> bool \<Rightarrow> bool \<Rightarrow> (token \<times> lexer) option" where
  "next_loop l startState emitErrorRuns la call skipped failed =
     (if atLogicalEOF l then
        (let ((tok, ok), l') = scanInto l startState (lx_pos l) (lx_row l) (lx_col l) in
         if ok \<and> tk_Symbol tok \<noteq> 0 then Some (tok, l')
         else Some (eof_result l' la (cu_pos call) skipped failed))
      else
        (let ((tok, ok), l') = scanInto l startState (lx_pos l) (lx_row l) (lx_col l);
             la' = maxUint32 la (tk_lexerLookaheadEndByte tok) in
         if ok then
           (if tk_Symbol tok = 0 then
              (if lx_pos l' \<le> lx_pos l
               then next_loop (skipOneRune l') startState emitErrorRuns la' call False True
               else next_loop l' startState emitErrorRuns la' call True failed)
            else Some (mark_dropped failed
                   ((mark_skipped skipped (cu_pos call) tok)\<lparr>tk_lexerLookaheadEndByte := la'\<rparr>), l'))
         else if emitErrorRuns \<and> lx_hasErrorRunLexState l' \<and> lx_errorModeRetry l'
                 \<and> startState \<noteq> lx_errorRunLexState l' then
           (let l2 = enter (set_lexer_cursor call l') in
            Option.bind (next_loop l2 (lx_errorRunLexState l2) True la' (lexer_cursor l2) False False)
              (\<lambda>(tok, l3). Some (setLexFlag tokenFlagErrorModeRetried True tok, l3)))
         else if emitErrorRuns \<and> lx_hasErrorRunLexState l' then
           (let ((can, la2), l2) = canLexAt l' (lx_errorRunLexState l') (lx_pos l) (lx_row l) (lx_col l) la' in
            if \<not> can then errorRunToken l2 la2
            else next_loop (skipOneRune l2) startState emitErrorRuns la2 call False True)
         else next_loop (skipOneRune l') startState emitErrorRuns la' call False True))"

definition nextWithFrontier :: "lexer \<Rightarrow> u32 \<Rightarrow> bool \<Rightarrow> u32 \<Rightarrow> (token \<times> lexer) option" where
  "nextWithFrontier l startState emitErrorRuns la =
     (let l1 = enter l in next_loop l1 startState emitErrorRuns la (lexer_cursor l1) False False)"

definition next_token :: "lexer \<Rightarrow> u32 \<Rightarrow> bool \<Rightarrow> (token \<times> lexer) option" where
  "next_token l startState emitErrorRuns = nextWithFrontier l startState emitErrorRuns 0"

definition Next :: "lexer \<Rightarrow> u32 \<Rightarrow> (token \<times> lexer) option" where
  "Next l startState = next_token l startState False"

definition NextWithErrorRuns :: "lexer \<Rightarrow> u32 \<Rightarrow> (token \<times> lexer) option" where
  "NextWithErrorRuns l startState = next_token l startState True"

section \<open>Without included ranges every call returns\<close>

text \<open>
  The lexer settings no operation of this theory changes.
\<close>

definition same_setup :: "lexer \<Rightarrow> lexer \<Rightarrow> bool" where
  "same_setup l l' \<longleftrightarrow>
     lx_source l' = lx_source l \<and> lx_includedRanges l' = lx_includedRanges l \<and> lx_states l' = lx_states l \<and>
     lx_asciiTable l' = lx_asciiTable l \<and> lx_errorRunLexState l' = lx_errorRunLexState l \<and>
     lx_hasErrorRunLexState l' = lx_hasErrorRunLexState l \<and> lx_errorModeRetry l' = lx_errorModeRetry l"

lemma same_setup_refl [simp]: "same_setup l l"
  by (simp add: same_setup_def)

lemma same_setup_trans: "same_setup l l' \<Longrightarrow> same_setup l' l'' \<Longrightarrow> same_setup l l''"
  by (simp add: same_setup_def)

definition contiguous :: "lexer \<Rightarrow> bool" where
  "contiguous l \<longleftrightarrow> lx_includedRanges l = [] \<and> lx_pos l \<le> length (lx_source l)
     \<and> cu_pos (lx_failTokenEnd l) \<le> length (lx_source l)"

text \<open>A move of the lexer: the settings stay and the position does not go back.\<close>

definition moves :: "lexer \<Rightarrow> lexer \<Rightarrow> bool" where
  "moves l l' \<longleftrightarrow> same_setup l l' \<and> contiguous l' \<and> lx_pos l \<le> lx_pos l'"

lemma moves_trans: "moves l l' \<Longrightarrow> moves l' l'' \<Longrightarrow> moves l l''"
  by (auto simp: moves_def intro: same_setup_trans)

lemma scanContiguous_frame:
  assumes "contiguous l" "lx_pos l \<le> p" "p \<le> length (lx_source l)"
    "scanContiguousInto l st p r c = ((tok, ok), l')"
  shows "moves l l'" "ok \<Longrightarrow> p \<le> lx_pos l' \<and> tk_EndByte tok = of_nat (lx_pos l')"
    "\<not> ok \<Longrightarrow> lx_pos l' = lx_pos l"
proof -
  let ?s = "scan_eof_fallback (scan_loop l p (scan_start (int32 (uint st)) p r c))"
  have inv: "scan_inv l p \<lparr>Row = r, Column = c\<rparr> ?s"
    by (intro scan_fallback_inv scan_loop_inv scan_start_inv assms(3))
  show "moves l l'" "ok \<Longrightarrow> p \<le> lx_pos l' \<and> tk_EndByte tok = of_nat (lx_pos l')"
    "\<not> ok \<Longrightarrow> lx_pos l' = lx_pos l"
    using assms inv
    by (auto simp: scanContiguousInto_def accepted_token_def moves_def same_setup_def contiguous_def scan_inv_def Let_def
        zero_cursor_def split: if_splits)
qed

lemma scanInto_frame:
  assumes "contiguous l" "lx_pos l \<le> p" "p \<le> length (lx_source l)" "scanInto l st p r c = ((tok, ok), l')"
  shows "moves l l'" "ok \<Longrightarrow> p \<le> lx_pos l' \<and> tk_EndByte tok = of_nat (lx_pos l')"
    "\<not> ok \<Longrightarrow> lx_pos l' = lx_pos l"
proof -
  obtain l1 where l1: "scanContiguousInto l st p r c = ((tok, ok), l1)" "lx_pos l1 = lx_pos l'"
    "same_setup l1 l'" "lx_failTokenEnd l1 = lx_failTokenEnd l'"
    using assms(1,4) by (auto simp: scanInto_def contiguous_def same_setup_def Let_def split: prod.splits)
  note fr = scanContiguous_frame [OF assms(1-3) l1(1)]
  show "moves l l'" using fr(1) l1 by (auto simp: moves_def contiguous_def same_setup_def)
  show "ok \<Longrightarrow> p \<le> lx_pos l' \<and> tk_EndByte tok = of_nat (lx_pos l')" "\<not> ok \<Longrightarrow> lx_pos l' = lx_pos l"
    using fr(2,3) l1(2) by auto
qed

lemma canLexAt_frame:
  assumes "contiguous l" "lx_pos l \<le> p" "p \<le> length (lx_source l)" "canLexAt l st p r c f = ((ok, f'), l')"
  shows "moves l l'" "lx_pos l' = lx_pos l"
proof -
  obtain tok l1 where l1: "scanInto l st p r c = ((tok, ok), l1)" "l' = restore_cursor l l1"
    using assms(4) by (auto simp: canLexAt_def Let_def split: prod.splits)
  show "lx_pos l' = lx_pos l" using l1(2) by (simp add: restore_cursor_def set_lexer_cursor_def lexer_cursor_def)
  show "moves l l'" using scanInto_frame(1) [OF assms(1-3) l1(1)] assms(1) l1(2)
    by (auto simp: moves_def contiguous_def same_setup_def restore_cursor_def set_lexer_cursor_def lexer_cursor_def)
qed

lemma skipOneRune_frame:
  assumes "contiguous l" "lx_pos l < length (lx_source l)"
  shows "moves l (skipOneRune l)" "lx_pos l < lx_pos (skipOneRune l)"
proof -
  let ?p = "drop (lx_pos l) (lx_source l)"
  obtain r w where d: "decode_rune ?p = (r, w)" by fastforce
  have "0 < w" "lx_pos l + w \<le> length (lx_source l)"
    using decode_rune_size_pos [of ?p] decode_rune_size_le [of ?p] d assms(2) by auto
  then show "moves l (skipOneRune l)" "lx_pos l < lx_pos (skipOneRune l)"
    using assms d by (auto simp: skipOneRune_def moves_def contiguous_def same_setup_def Let_def)
qed

lemma advanceFailed_frame:
  assumes "contiguous l" "lx_pos l < length (lx_source l)"
  shows "moves l (advanceFailedErrorAttempt l)" "lx_pos l < lx_pos (advanceFailedErrorAttempt l)"
  using assms skipOneRune_frame [OF assms]
  by (auto simp: advanceFailedErrorAttempt_def set_lexer_cursor_def moves_def contiguous_def same_setup_def)

lemma atLogicalEOF_contiguous: "contiguous l \<Longrightarrow> atLogicalEOF l \<longleftrightarrow> lx_pos l = length (lx_source l)"
  by (auto simp: atLogicalEOF_def contiguous_def)

lemma error_run_returns:
  assumes "contiguous l"
  shows "\<exists>f' l'. error_run_loop l f = Some (f', l') \<and> moves l l'"
  using assms
proof (induction "length (lx_source l) - lx_pos l" arbitrary: l f rule: less_induct)
  case less
  show ?case
  proof (cases "atLogicalEOF l")
    case True
    then show ?thesis using less.prems by (subst error_run_loop.simps) (auto simp: moves_def)
  next
    case False
    then have lt: "lx_pos l < length (lx_source l)"
      using less.prems by (auto simp: atLogicalEOF_contiguous contiguous_def)
    obtain ok f1 l1 where can: "canLexAt l (lx_errorRunLexState l) (lx_pos l) (lx_row l) (lx_col l) f = ((ok, f1), l1)"
      by (metis prod.collapse)
    note fr = canLexAt_frame [OF less.prems order_refl _ can]
    let ?l2 = "advanceFailedErrorAttempt l1"
    have m1: "moves l l1" "lx_pos l1 < length (lx_source l1)" using fr lt by (auto simp: moves_def same_setup_def)
    have m2: "moves l1 ?l2" "lx_pos l1 < lx_pos ?l2"
      using advanceFailed_frame [of l1] m1 by (auto simp: moves_def)
    have "lx_source ?l2 = lx_source l" "contiguous ?l2"
      using m1(1) m2(1) by (auto simp: moves_def same_setup_def)
    moreover have "lx_pos l < lx_pos ?l2" using m2(2) fr(2) lt by simp
    ultimately obtain f' l' where "error_run_loop ?l2 f1 = Some (f', l')" "moves ?l2 l'"
      using less.hyps [of ?l2 f1] lt by (metis diff_less_mono2)
    then show ?thesis
      using False can m1(1) m2(1) by (subst error_run_loop.simps) (auto intro: moves_trans)
  qed
qed

lemma errorRunToken_returns:
  assumes "contiguous l"
  shows "\<exists>tok l'. errorRunToken l f = Some (tok, l') \<and> moves l l' \<and> tk_EndByte tok = of_nat (lx_pos l')"
proof -
  define l1 where "l1 = (if lx_failTokenStartPos l > lx_pos l \<and> lx_failTokenStartPos l \<le> length (lx_source l)
                then l\<lparr>lx_pos := lx_failTokenStartPos l, lx_row := lx_failTokenStartRow l,
                        lx_col := lx_failTokenStartCol l, lx_includedRangeIdx := lx_failTokenStartRangeIdx l\<rparr>
                else l)"
  have m: "moves l l1" using assms by (auto simp: l1_def moves_def contiguous_def same_setup_def)
  then have c1: "contiguous l1" and n1: "normalizeIncludedPosition l1 = l1"
    by (auto simp: moves_def contiguous_def normalizeIncludedPosition_def)
  show ?thesis
  proof (cases "atLogicalEOF l1")
    case True
    then show ?thesis using m n1 unfolding errorRunToken_def l1_def [symmetric]
      by (simp add: Let_def point_token_def)
  next
    case False
    then have "moves l1 (advanceFailedErrorAttempt l1)"
      using advanceFailed_frame(1) [OF c1] c1 by (auto simp: atLogicalEOF_contiguous contiguous_def)
    moreover obtain f' l' where "error_run_loop (advanceFailedErrorAttempt l1) f = Some (f', l')"
      "moves (advanceFailedErrorAttempt l1) l'"
      using error_run_returns [of "advanceFailedErrorAttempt l1" f] calculation by (auto simp: moves_def)
    ultimately show ?thesis using m n1 False unfolding errorRunToken_def l1_def [symmetric]
      by (auto simp: Let_def intro: moves_trans)
  qed
qed

lemma enter_frame:
  assumes "contiguous l"
  shows "moves l (enter l)"
proof -
  have n: "normalizeIncludedPosition l = l" using assms by (simp add: contiguous_def normalizeIncludedPosition_def)
  have "length utf8BOM \<le> length source" if "take (length utf8BOM) source = utf8BOM" for source
    using arg_cong [OF that, of length] by simp
  then show ?thesis
    using assms by (auto simp: enter_def n skipLeadingBOM_def moves_def contiguous_def same_setup_def)
qed

lemma eof_result_frame:
  assumes "contiguous l" "eof_result l la p a b = (tok, l')"
  shows "moves l l'" "tk_EndByte tok = of_nat (lx_pos l')"
  using assms by (auto simp: eof_result_def Let_def moves_def contiguous_def same_setup_def mark_skipped_def
      mark_dropped_def point_token_def)

lemma mark_EndByte [simp]:
  "tk_EndByte (mark_skipped a p t) = tk_EndByte t" "tk_EndByte (mark_dropped b t) = tk_EndByte t"
  "tk_EndByte (t\<lparr>tk_lexerLookaheadEndByte := la\<rparr>) = tk_EndByte t"
  by (simp_all add: mark_skipped_def mark_dropped_def)

text \<open>
  The loop returns from every position when a retry, if one can still happen, returns.
\<close>

lemma next_loop_returns:
  assumes "contiguous l" "contiguous l0" "lx_pos l0 \<le> lx_pos l" "same_setup l0 l"
    and retry: "\<And>l' la. \<lbrakk>moves l0 l'; emit; lx_hasErrorRunLexState l0; lx_errorModeRetry l0;
        st \<noteq> lx_errorRunLexState l0\<rbrakk> \<Longrightarrow>
      \<exists>tok l''. next_loop (enter (set_lexer_cursor call l')) (lx_errorRunLexState l0) True la
          (lexer_cursor (enter (set_lexer_cursor call l'))) False False = Some (tok, l'')
        \<and> moves l0 l'' \<and> tk_EndByte tok = of_nat (lx_pos l'')"
  shows "\<exists>tok l'. next_loop l st emit la call sk fl = Some (tok, l') \<and> moves l0 l'
    \<and> tk_EndByte tok = of_nat (lx_pos l')"
  using assms(1-4)
proof (induction "length (lx_source l) - lx_pos l" arbitrary: l la sk fl rule: less_induct)
  case less
  obtain tok ok l1 where sc: "scanInto l st (lx_pos l) (lx_row l) (lx_col l) = ((tok, ok), l1)"
    by (metis prod.collapse)
  have m0: "moves l0 l" using less.prems by (simp add: moves_def)
  have le: "lx_pos l \<le> length (lx_source l)" using less.prems by (simp add: contiguous_def)
  note fr = scanInto_frame [OF less.prems(1) order_refl le sc]
  have m1: "moves l0 l1" using m0 fr(1) by (rule moves_trans)
  let ?la = "maxUint32 la (tk_lexerLookaheadEndByte tok)"
  have rec: "\<exists>tok l'. next_loop x st emit la' call sk' fl' = Some (tok, l') \<and> moves l0 l'
      \<and> tk_EndByte tok = of_nat (lx_pos l')"
    if "moves l x" "lx_pos l < lx_pos x" "lx_pos l < length (lx_source l)" for x la' sk' fl'
  proof -
    have "lx_source x = lx_source l" using that(1) by (simp add: moves_def same_setup_def)
    moreover have "moves l0 x" using m0 that(1) by (rule moves_trans)
    ultimately show ?thesis
      using less.hyps [of x] that less.prems by (simp add: moves_def diff_less_mono2)
  qed
  have skip: "\<exists>tok l'. next_loop (skipOneRune x) st emit la' call sk' fl' = Some (tok, l') \<and> moves l0 l'
      \<and> tk_EndByte tok = of_nat (lx_pos l')"
    if x: "moves l x" "lx_pos x = lx_pos l" "lx_pos l < length (lx_source l)" for x la' sk' fl'
  proof -
    have c: "contiguous x" "lx_pos x < length (lx_source x)" using x by (auto simp: moves_def same_setup_def)
    note f = skipOneRune_frame [OF c]
    show ?thesis using moves_trans [OF x(1) f(1)] f(2) x by (intro rec) auto
  qed
  show ?case
  proof (cases "atLogicalEOF l")
    case True
    obtain t l2 where er: "eof_result l1 la (cu_pos call) sk fl = (t, l2)" by fastforce
    have "moves l1 l2" "tk_EndByte t = of_nat (lx_pos l2)"
      using eof_result_frame [OF _ er] m1 by (auto simp: moves_def)
    then show ?thesis
      using True sc fr(2) m1 er moves_trans [OF m1, of l2]
      by (simp add: next_loop.simps [of l st emit la call sk fl])
  next
    case eof: False
    then have lt: "lx_pos l < length (lx_source l)"
      using less.prems(1) le by (auto simp: atLogicalEOF_contiguous)
    note unf = next_loop.simps [of l st emit la call sk fl] eof sc
    consider "ok" "tk_Symbol tok \<noteq> 0" | "ok" "tk_Symbol tok = 0" "lx_pos l1 \<le> lx_pos l"
      | "ok" "tk_Symbol tok = 0" "lx_pos l < lx_pos l1"
      | "\<not> ok" "emit \<and> lx_hasErrorRunLexState l1 \<and> lx_errorModeRetry l1 \<and> st \<noteq> lx_errorRunLexState l1"
      | "\<not> ok" "\<not> (emit \<and> lx_hasErrorRunLexState l1 \<and> lx_errorModeRetry l1 \<and> st \<noteq> lx_errorRunLexState l1)"
        "emit \<and> lx_hasErrorRunLexState l1"
      | "\<not> ok" "\<not> (emit \<and> lx_hasErrorRunLexState l1)" by linarith
    then show ?thesis
    proof cases
      case 1
      then show ?thesis using fr(2) m1 by (simp add: unf Let_def)
    next
      case 2
      have eq: "lx_pos l1 = lx_pos l" using 2 fr(1) by (simp add: moves_def)
      show ?thesis using skip [OF fr(1) eq lt, of ?la False True] 2 by (simp add: unf Let_def eq)
    next
      case 3
      then show ?thesis using rec [of l1 ?la True fl] fr(1) lt by (simp add: unf Let_def)
    next
      case 4
      have s1: "same_setup l0 l1" using m1 by (simp add: moves_def)
      have e: "lx_errorRunLexState (enter (set_lexer_cursor call l1)) = lx_errorRunLexState l0"
        using s1 less.prems(2) by (simp add: enter_def skipLeadingBOM_def normalizeIncludedPosition_def
            set_lexer_cursor_def same_setup_def)
      obtain t l'' where r: "next_loop (enter (set_lexer_cursor call l1)) (lx_errorRunLexState l0) True ?la
          (lexer_cursor (enter (set_lexer_cursor call l1))) False False = Some (t, l'')"
        "moves l0 l''" "tk_EndByte t = of_nat (lx_pos l'')"
        using 4 retry [OF m1, of ?la] s1 by (auto simp: same_setup_def)
      have "next_loop l st emit la call sk fl = Some (setLexFlag tokenFlagErrorModeRetried True t, l'')"
        using 4 r(1) by (subst next_loop.simps) (simp add: eof sc Let_def e)
      then show ?thesis using r by simp
    next
      case 5
      obtain can la2 l2 where can: "canLexAt l1 (lx_errorRunLexState l1) (lx_pos l) (lx_row l) (lx_col l) ?la
          = ((can, la2), l2)" by (metis prod.collapse)
      have p1: "lx_pos l1 = lx_pos l" "contiguous l1" "lx_source l1 = lx_source l"
        using fr 5 by (auto simp: moves_def same_setup_def)
      note cf = canLexAt_frame [OF p1(2) _ _ can]
      have m2: "moves l l2" "lx_pos l2 = lx_pos l"
        using cf p1 le fr(1) by (auto intro: moves_trans)
      show ?thesis
      proof (cases can)
        case True
        then show ?thesis using 5 can skip [OF m2 lt, of la2 False True]
          by (subst next_loop.simps) (auto simp: eof sc Let_def)
      next
        case False
        moreover have "moves l0 l2" using m0 m2(1) by (rule moves_trans)
        moreover have "contiguous l2" using m2(1) by (simp add: moves_def)
        ultimately show ?thesis
          using 5 can errorRunToken_returns [of l2 la2]
          by (subst next_loop.simps) (auto simp: eof sc Let_def intro: moves_trans)
      qed
    next
      case 6
      then show ?thesis using skip [of l1 ?la False True] fr lt
        by (subst next_loop.simps) (auto simp: eof sc Let_def)
    qed
  qed
qed

lemma nextWithFrontier_returns:
  assumes "contiguous l"
  shows "\<exists>tok l'. nextWithFrontier l st emit la = Some (tok, l') \<and> moves l l'
    \<and> tk_EndByte tok = of_nat (lx_pos l')"
proof -
  have err: "\<exists>tok l'. nextWithFrontier k (lx_errorRunLexState k) b f = Some (tok, l') \<and> moves k l'
      \<and> tk_EndByte tok = of_nat (lx_pos l')" if "contiguous k" for k b f
  proof -
    note m = enter_frame [OF that]
    have "\<exists>tok l'. next_loop (enter k) (lx_errorRunLexState k) b f (lexer_cursor (enter k)) False False
        = Some (tok, l') \<and> moves (enter k) l' \<and> tk_EndByte tok = of_nat (lx_pos l')"
    proof (rule next_loop_returns)
      show "contiguous (enter k)" "contiguous (enter k)" using m by (simp_all add: moves_def)
    qed (use m in \<open>simp_all add: moves_def same_setup_def\<close>)
    then show ?thesis using m by (auto simp: nextWithFrontier_def Let_def intro: moves_trans)
  qed
  note m = enter_frame [OF assms]
  let ?call = "lexer_cursor (enter l)"
  have "\<exists>tok l'. next_loop (enter l) st emit la ?call False False
      = Some (tok, l') \<and> moves (enter l) l' \<and> tk_EndByte tok = of_nat (lx_pos l')"
  proof (rule next_loop_returns)
    fix l' la assume m': "moves (enter l) l'"
    let ?k = "set_lexer_cursor ?call l'"
    have k: "contiguous ?k" "moves (enter l) ?k" "lx_errorRunLexState ?k = lx_errorRunLexState (enter l)"
      using m m' by (auto simp: moves_def contiguous_def same_setup_def set_lexer_cursor_def lexer_cursor_def)
    show "\<exists>tok l''. next_loop (enter ?k) (lx_errorRunLexState (enter l)) True la (lexer_cursor (enter ?k)) False False
        = Some (tok, l'') \<and> moves (enter l) l'' \<and> tk_EndByte tok = of_nat (lx_pos l'')"
      using err [OF k(1), of True la] moves_trans [OF k(2)] k(3)
      unfolding nextWithFrontier_def Let_def by metis
  qed (use m in \<open>auto simp: moves_def\<close>)
  then show ?thesis using m by (auto simp: nextWithFrontier_def Let_def intro: moves_trans)
qed

text \<open>
  C19. Lexing without included ranges always returns: from any lexer whose position lies inside the
  source, in every lex state, with or without error runs and with or without the error-mode retry,
  \<open>nextWithFrontier\<close> yields a token that ends where the lexer stands afterwards, and the lexer has
  not moved back.
\<close>

theorem lexing_returns:
  assumes "contiguous l"
  shows "\<exists>tok l'. nextWithFrontier l st emit la = Some (tok, l') \<and> contiguous l' \<and> lx_pos l \<le> lx_pos l'
    \<and> lx_source l' = lx_source l \<and> tk_EndByte tok = of_nat (lx_pos l')"
  using nextWithFrontier_returns [OF assms] by (fastforce simp: moves_def same_setup_def)

theorem lexing_returns_witness:
  "\<exists>tok l'. nextWithFrontier ((NewLexer word_states [33, 32, 97, 33])\<lparr>lx_hasErrorRunLexState := True\<rparr>) 0 True 0
    = Some (tok, l') \<and> contiguous l'"
proof -
  let ?l = "(NewLexer word_states [33, 32, 97, 33])\<lparr>lx_hasErrorRunLexState := True\<rparr>"
  have "contiguous ?l" by (simp add: contiguous_def NewLexer_def zero_cursor_def)
  then show ?thesis using lexing_returns [of ?l 0 True 0] by blast
qed

section \<open>Ranges that end inside a byte order mark\<close>

text \<open>
  A lex state is silent at the end of the input when it accepts nothing there, neither a token nor
  a skip, and has no transition on end of input. A state number outside the table is silent too.
\<close>

definition silent_at_end :: "lexer \<Rightarrow> u32 \<Rightarrow> bool" where
  "silent_at_end l startState \<longleftrightarrow>
     (let q = int32 (uint startState) in
      q < 0 \<or> nat q \<ge> length (lx_states l) \<or>
      (let st = lx_states l ! nat q in
       ls_AcceptToken st = 0 \<and> \<not> ls_Skip st \<and> \<not> ls_AcceptEOF st \<and> lexerEOFState st < 0))"

text \<open>The lexer has skipped the mark, its range index has not moved, and every range lies behind it.\<close>

definition past_all_ranges :: "lexer \<Rightarrow> lexer \<Rightarrow> bool" where
  "past_all_ranges l m \<longleftrightarrow>
     lx_includedRanges m = lx_includedRanges l \<and> lx_states m = lx_states l \<and> lx_includedRangeIdx m = 0 \<and>
     lx_includedRanges l \<noteq> [] \<and> (\<forall>r\<in>set (lx_includedRanges l). unat (rg_EndByte r) \<le> lx_pos m)"

lemma past_all_ranges_cursor:
  assumes "past_all_ranges l m" "lx_pos m \<le> cu_pos c"
  shows "length (lx_includedRanges m) \<le> cu_rangeIdx (normalizeIncludedCursor m c)"
proof (rule ccontr)
  let ?n = "normalizeIncludedCursor m c"
  assume "\<not> ?thesis"
  then have i: "cu_rangeIdx ?n < length (lx_includedRanges m)" and ne: "lx_includedRanges m \<noteq> []"
    using assms(1) by (auto simp: past_all_ranges_def)
  then have "unat (rg_EndByte (lx_includedRanges m ! cu_rangeIdx ?n)) \<le> lx_pos m"
    using assms(1) by (simp add: past_all_ranges_def)
  moreover have "snd (includedRangeBounds m (cu_rangeIdx ?n)) \<le> unat (rg_EndByte (lx_includedRanges m ! cu_rangeIdx ?n))"
    using i by (auto simp: includedRangeBounds_def Let_def clamp_to_source_def)
  ultimately show False
    using normalizeIncludedCursor_inside [OF ne i] assms(2)
    by (auto simp: cursor_inside_def split: prod.splits)
qed

lemma past_all_ranges_scan:
  assumes past: "past_all_ranges l m" and silent: "silent_at_end l st"
  shows "\<exists>tok m'. scanInto m st (lx_pos m) row col = ((tok, False), m') \<and> past_all_ranges l m'
    \<and> lx_pos m' = lx_pos m \<and> skipOneRune m' = m'"
proof -
  let ?q = "int32 (uint st)"
  let ?c = "normalizeIncludedCursor m \<lparr>cu_pos = lx_pos m, cu_row = row, cu_col = col, cu_rangeIdx = lx_includedRangeIdx m\<rparr>"
  have ends: "length (lx_includedRanges m) \<le> cu_rangeIdx ?c"
    using past_all_ranges_cursor [OF past] by simp
  have loop: "included_loop m (cu_pos ?c) (included_start ?q ?c) = included_start ?q ?c"
    if "\<not> (?q < 0 \<or> length (lx_states m) \<le> nat ?q)"
    using that silent past ends
    by (subst included_loop.simps)
       (auto simp: Let_def included_start_def included_accept_def included_at_end_def silent_at_end_def past_all_ranges_def)
  obtain tok m1 where scan: "scanIncluded m st (lx_pos m) row col = ((tok, False), m1)"
      and m1: "past_all_ranges l m1" "lx_pos m1 = lx_pos m"
  proof (cases "?q < 0 \<or> length (lx_states m) \<le> nat ?q")
    case True
    then show thesis using that past by (simp add: scanIncluded_def Let_def)
  next
    case False
    have "included_fallback m (included_start ?q ?c) = included_start ?q ?c"
      by (simp add: included_fallback_def included_start_def)
    then show thesis using that False past loop [OF False]
      by (auto simp: scanIncluded_def Let_def included_start_def past_all_ranges_def)
  qed
  have "lx_includedRanges m \<noteq> []" using past by (simp add: past_all_ranges_def)
  then obtain m' where m': "scanInto m st (lx_pos m) row col = ((tok, False), m')" "past_all_ranges l m'" "lx_pos m' = lx_pos m"
    using m1 by (auto simp: scanInto_def scan Let_def past_all_ranges_def)
  moreover have "skipOneRune m' = m'"
    using past_all_ranges_cursor [OF m'(2), of "lexer_cursor m'"] m'(2)
    by (auto simp: skipOneRune_def skipOneIncludedRune_def advanceIncludedCursor_def Let_def
        past_all_ranges_def lexer_cursor_def)
  ultimately show ?thesis by blast
qed

lemma past_all_ranges_diverges:
  assumes "past_all_ranges l m" "silent_at_end l st"
  shows "next_loop m st False la call sk fl = None"
proof -
  have "\<not> (past_all_ranges l m \<and> q = st \<and> \<not> emit)" if "next_loop m q emit la call sk fl = Some res"
    for m q emit la call sk fl res
  proof (rule next_loop.raw_induct
      [where P = "\<lambda>m q emit la call sk fl res. \<not> (past_all_ranges l m \<and> q = st \<and> \<not> emit)", OF _ that], goal_cases)
    case (1 f m q emit la call sk fl res)
    show ?case
    proof
      assume m: "past_all_ranges l m \<and> q = st \<and> \<not> emit"
      then obtain tok m' where s: "scanInto m st (lx_pos m) (lx_row m) (lx_col m) = ((tok, False), m')"
          and m': "past_all_ranges l m'" "skipOneRune m' = m'"
        using past_all_ranges_scan [OF _ assms(2)] by blast
      have "\<not> atLogicalEOF m" using m by (auto simp: atLogicalEOF_def past_all_ranges_def)
      then have "f m' st False (maxUint32 la (tk_lexerLookaheadEndByte tok)) call False True = Some res"
        using "1"(2) m s m'(2) by (simp add: Let_def)
      then show False using "1"(1) m'(1) by blast
    qed
  qed
  with assms(1) show ?thesis by (metis option.exhaust)
qed

lemma enter_skips_mark:
  assumes "take 3 (lx_source l) = utf8BOM" "lx_pos l = 0" "lx_includedRangeIdx l = 0"
    "lx_includedRanges l = r # rs" "rg_StartByte r = 0" "0 < rg_EndByte r"
  shows "lx_pos (enter l) = 3" "lx_includedRangeIdx (enter l) = 0"
    "lx_includedRanges (enter l) = lx_includedRanges l" "lx_states (enter l) = lx_states l"
proof -
  have "3 \<le> length (lx_source l)" using arg_cong [OF assms(1), of length] by (simp add: utf8BOM_def)
  moreover have "0 < unat (rg_EndByte r)" using assms(6) by (simp add: word_less_nat_alt)
  ultimately have "fst (includedRangeBounds l 0) = 0" "0 < snd (includedRangeBounds l 0)"
    using assms by (auto simp: includedRangeBounds_def clamp_to_source_def Let_def)
  then obtain e where b: "includedRangeBounds l 0 = (0, e)" "0 < e" by (metis prod.collapse)
  have "normalizeIncludedCursor l (lexer_cursor l) = normalize_loop l (lexer_cursor l)"
    using assms by (simp add: normalizeIncludedCursor_def lexer_cursor_def)
  also have "\<dots> = \<lparr>cu_pos = 0, cu_row = Row (rg_StartPoint r), cu_col = Column (rg_StartPoint r), cu_rangeIdx = 0\<rparr>"
    using assms b by (subst normalize_loop.simps) (simp add: lexer_cursor_def)
  finally have "normalizeIncludedCursor l (lexer_cursor l)
      = \<lparr>cu_pos = 0, cu_row = Row (rg_StartPoint r), cu_col = Column (rg_StartPoint r), cu_rangeIdx = 0\<rparr>" .
  then show "lx_pos (enter l) = 3" "lx_includedRangeIdx (enter l) = 0"
    "lx_includedRanges (enter l) = lx_includedRanges l" "lx_states (enter l) = lx_states l"
    using assms by (simp_all add: enter_def normalizeIncludedPosition_def set_lexer_cursor_def skipLeadingBOM_def utf8BOM_def
        numeral_3_eq_3)
qed

text \<open>
  C34. When the source starts with a byte order mark, the first included range starts at byte 0 and
  every included range ends inside the mark or at its end, \<open>Next\<close> at the start of the source never
  returns in a lex state that is silent at the end of the input: the mark is skipped past the ranges
  without moving the range index, so the loop does not see the end of the selected input, the scan
  sees it and fails, and the single-rune skip has nothing to advance, so the loop repeats without
  moving.
\<close>

theorem lexing_stuck_in_byte_order_mark:
  assumes "take 3 (lx_source l) = utf8BOM" "lx_pos l = 0" "lx_includedRangeIdx l = 0"
    and "lx_includedRanges l = r # rs" "rg_StartByte r = 0" "0 < rg_EndByte r"
    and "\<And>q. q \<in> set (r # rs) \<Longrightarrow> unat (rg_EndByte q) \<le> 3"
    and "silent_at_end l startState"
  shows "Next l startState = None"
proof -
  have "past_all_ranges l (enter l)"
    using enter_skips_mark [OF assms(1-6)] assms(4,7) by (auto simp: past_all_ranges_def)
  from past_all_ranges_diverges [OF this assms(8)] show ?thesis
    by (simp add: Next_def next_token_def nextWithFrontier_def Let_def)
qed

definition bom_lexer :: lexer where
  "bom_lexer = (NewLexer word_states [0xEF, 0xBB, 0xBF, 97])\<lparr>lx_includedRanges := [sample_range 0 2]\<rparr>"

lemma bom_lexer_silent: "silent_at_end bom_lexer 0"
  by code_simp

theorem lexing_stuck_in_byte_order_mark_witness: "Next bom_lexer 0 = None"
  by (rule lexing_stuck_in_byte_order_mark [OF _ _ _ _ _ _ _ bom_lexer_silent, where r = "sample_range 0 2" and rs = "[]"])
     (simp_all add: bom_lexer_def NewLexer_def utf8BOM_def)

end
