(* ===== verification/Utf16_Source_Map.thy ===== *)
theory Utf16_Source_Map
  imports Utf8_Codec Source_Tokens Included_Ranges
begin

text \<open>
  UTF-16 input, \<^verbatim>\<open>internal/runtime/utf16.go\<close>: decoding of byte-order-specific sources, the conversion
  to the UTF-8 text the parser reads with its offset maps in both directions, points in either
  coordinate system, and included ranges given in code units. The lemmas show that the two offset
  maps are inverse on the code-point boundaries and reject every other offset, that the boundaries
  are the ones \<open>utf16Boundary\<close> accepts, and that points are the ones the bytes give.
\<close>

section \<open>Data\<close>

datatype utf16ByteOrder = UTF16LittleEndian | UTF16BigEndian | UTF16OtherOrder u8

datatype utf16_error = ErrInvalidUTF16ByteLength | ErrInvalidUTF16ByteOrder | ErrInvalidUTF16Range

record utf16Range =
  ur_StartCodeUnit :: u32
  ur_EndCodeUnit :: u32
  ur_StartPoint :: point
  ur_EndPoint :: point

record utf16SourceMap =
  um_source :: "u16 list"
  um_utf8 :: bytes
  um_byteToUnit :: "u32 list"
  um_byteBoundary :: "bool list"
  um_unitToByte :: "u32 list"
  um_unitBoundary :: "bool list"
  um_lineStartUnits :: "u32 list"
  um_lineStartBytes :: "u32 list"

section \<open>Operations\<close>

text \<open>\<^verbatim>\<open>binary.LittleEndian.Uint16\<close> and \<^verbatim>\<open>binary.BigEndian.Uint16\<close> of two bytes.\<close>

definition uint16_le :: "u8 \<Rightarrow> u8 \<Rightarrow> u16" where
  "uint16_le b0 b1 = of_int (uint b0 + uint b1 * 256)"

definition uint16_be :: "u8 \<Rightarrow> u8 \<Rightarrow> u16" where
  "uint16_be b0 b1 = of_int (uint b1 + uint b0 * 256)"

definition DecodeUTF16Bytes :: "bytes \<Rightarrow> utf16ByteOrder \<Rightarrow> utf16_error + u16 list" where
  "DecodeUTF16Bytes source order =
     (if length source mod 2 \<noteq> 0 then Inl ErrInvalidUTF16ByteLength
      else
        let read = (\<lambda>byteOrder. map (\<lambda>i. byteOrder (source ! (2 * i)) (source ! (2 * i + 1)))
                      [0..<length source div 2]) in
        case order of
          UTF16LittleEndian \<Rightarrow> Inr (read uint16_le)
        | UTF16BigEndian \<Rightarrow> Inr (read uint16_be)
        | UTF16OtherOrder _ \<Rightarrow> Inl ErrInvalidUTF16ByteOrder)"

text \<open>\<^verbatim>\<open>utf16.IsSurrogate\<close> and \<^verbatim>\<open>utf16.DecodeRune\<close>.\<close>

definition utf16_IsSurrogate :: "rune \<Rightarrow> bool" where
  "utf16_IsSurrogate r \<longleftrightarrow> 0xD800 \<le> r \<and> r < 0xE000"

definition utf16_DecodeRune :: "rune \<Rightarrow> rune \<Rightarrow> rune" where
  "utf16_DecodeRune r1 r2 =
     (if 0xD800 \<le> r1 \<and> r1 < 0xDC00 \<and> 0xDC00 \<le> r2 \<and> r2 < 0xE000
      then (r1 - 0xD800) * 1024 + (r2 - 0xDC00) + 0x10000 else RuneError)"

definition unicodeReplacementRune :: rune where
  "unicodeReplacementRune = 0xFFFD"

definition decodeUTF16Rune :: "u16 list \<Rightarrow> nat \<Rightarrow> rune \<times> nat" where
  "decodeUTF16Rune source pos =
     (let r = uint (source ! pos) in
      if utf16_IsSurrogate r then
        (if pos + 1 < length source then
           (let decoded = utf16_DecodeRune r (uint (source ! (pos + 1))) in
            if decoded \<noteq> unicodeReplacementRune then (decoded, 2) else (unicodeReplacementRune, 1))
         else (unicodeReplacementRune, 1))
      else (r, 1))"

definition isUTF16LeadSurrogate :: "u16 \<Rightarrow> bool" where
  "isUTF16LeadSurrogate u \<longleftrightarrow> 0xD800 \<le> u \<and> u \<le> 0xDBFF"

definition isUTF16TrailSurrogate :: "u16 \<Rightarrow> bool" where
  "isUTF16TrailSurrogate u \<longleftrightarrow> 0xDC00 \<le> u \<and> u \<le> 0xDFFF"

lemma decodeUTF16Rune_size: "snd (decodeUTF16Rune source pos) = 1 \<or> snd (decodeUTF16Rune source pos) = 2"
  by (auto simp: decodeUTF16Rune_def Let_def)

lemma decodeUTF16Rune_le:
  "pos < length source \<Longrightarrow> pos + snd (decodeUTF16Rune source pos) \<le> length source"
  by (auto simp: decodeUTF16Rune_def Let_def)

text \<open>One step of the encoding loop: the rune that starts at \<open>unitStart\<close>.\<close>

definition map_rune :: "nat \<Rightarrow> rune \<Rightarrow> nat \<Rightarrow> utf16SourceMap \<Rightarrow> utf16SourceMap" where
  "map_rune unitStart r unitSize m =
     (let encoded = encode_rune r;
          byteStart = length (um_utf8 m);
          byteSize = length encoded;
          unitEnd = unitStart + unitSize;
          byteEnd = byteStart + byteSize;
          inner = map (\<lambda>u. (u, of_nat byteStart)) [unitStart..<unitEnd];
          unitToByte = fold (\<lambda>(u, b) xs. xs[u := b]) inner (um_unitToByte m);
          m1 = m\<lparr>um_utf8 := um_utf8 m @ encoded,
                 um_unitToByte := unitToByte[unitEnd := of_nat byteEnd],
                 um_unitBoundary := (um_unitBoundary m)[unitStart := True, unitEnd := True],
                 um_byteToUnit := um_byteToUnit m @
                   map (\<lambda>i. if i = byteSize then of_nat unitEnd else of_nat unitStart) [1..<Suc byteSize],
                 um_byteBoundary := um_byteBoundary m @ map (\<lambda>i. i = byteSize) [1..<Suc byteSize]\<rparr> in
      if r = 10
      then m1\<lparr>um_lineStartUnits := um_lineStartUnits m1 @ [of_nat unitEnd],
              um_lineStartBytes := um_lineStartBytes m1 @ [of_nat byteEnd]\<rparr>
      else m1)"

function encode_loop :: "u16 list \<Rightarrow> nat \<Rightarrow> utf16SourceMap \<Rightarrow> utf16SourceMap" where
  "encode_loop source unitPos m =
     (if unitPos < length source then
        (let (r, unitSize) = decodeUTF16Rune source unitPos in
         encode_loop source (unitPos + unitSize) (map_rune unitPos r unitSize m))
      else m)"
  by pat_completeness auto
termination
proof (relation "measure (\<lambda>(source, u, m). length source - u)", goal_cases)
  case (2 source u m x r w)
  then show ?case using decodeUTF16Rune_size [of source u] by (auto simp: prod_eq_iff)
qed simp

declare encode_loop.simps [simp del]

text \<open>An empty source returns before the loop, with the map of the empty text.\<close>

definition encodeUTF16ToUTF8WithMap :: "u16 list \<Rightarrow> bytes \<times> utf16SourceMap" where
  "encodeUTF16ToUTF8WithMap source =
     (let n = length source;
          m0 = \<lparr>um_source = source, um_utf8 = [], um_byteToUnit = [0], um_byteBoundary = [True],
                um_unitToByte = replicate (n + 1) 0, um_unitBoundary = (replicate (n + 1) False)[0 := True],
                um_lineStartUnits = [0], um_lineStartBytes = [0]\<rparr>;
          m = (if n = 0 then m0 else encode_loop source 0 m0) in
      (um_utf8 m, m))"

text \<open>Offsets that are rejected give \<open>None\<close>, the pair of zero and false.\<close>

definition byteToUTF16Unit :: "utf16SourceMap \<Rightarrow> u32 \<Rightarrow> u32 option" where
  "byteToUTF16Unit m offset =
     (if offset > of_nat (length (um_byteToUnit m) - 1) then None
      else if unat offset \<ge> length (um_byteBoundary m) \<or> \<not> um_byteBoundary m ! unat offset then None
      else Some (um_byteToUnit m ! unat offset))"

definition utf16UnitToByte :: "utf16SourceMap \<Rightarrow> u32 \<Rightarrow> u32 option" where
  "utf16UnitToByte m offset =
     (if offset > of_nat (length (um_unitToByte m) - 1) then None
      else if unat offset \<ge> length (um_unitBoundary m) \<or> \<not> um_unitBoundary m ! unat offset then None
      else Some (um_unitToByte m ! unat offset))"

definition line_point :: "u32 list \<Rightarrow> u32 \<Rightarrow> point" where
  "line_point starts offset =
     (let row = sort_search (length starts) (\<lambda>i. starts ! i > offset) - 1 in
      \<lparr>Row = of_nat row, Column = offset - starts ! row\<rparr>)"

definition pointForUnit :: "utf16SourceMap \<Rightarrow> u32 \<Rightarrow> point option" where
  "pointForUnit m offset =
     (if offset > of_nat (length (um_source m)) then None
      else Some (line_point (um_lineStartUnits m) offset))"

definition pointForByte :: "utf16SourceMap \<Rightarrow> u32 \<Rightarrow> point option" where
  "pointForByte m offset = Option.bind (byteToUTF16Unit m offset) (pointForUnit m)"

definition pointForUTF8Byte :: "utf16SourceMap \<Rightarrow> u32 \<Rightarrow> point option" where
  "pointForUTF8Byte m offset =
     (if offset > of_nat (length (um_utf8 m)) then None
      else Some (line_point (um_lineStartBytes m) offset))"

definition rangeForByteRange :: "utf16SourceMap \<Rightarrow> u32 \<Rightarrow> u32 \<Rightarrow> utf16Range option" where
  "rangeForByteRange m startByte endByte =
     (if endByte < startByte then None
      else
        Option.bind (byteToUTF16Unit m startByte) (\<lambda>startUnit.
        Option.bind (byteToUTF16Unit m endByte) (\<lambda>endUnit.
        Option.bind (pointForUnit m startUnit) (\<lambda>startPoint.
        Option.bind (pointForUnit m endUnit) (\<lambda>endPoint.
          Some \<lparr>ur_StartCodeUnit = startUnit, ur_EndCodeUnit = endUnit,
                ur_StartPoint = startPoint, ur_EndPoint = endPoint\<rparr>)))))"

fun convert_ranges :: "utf16SourceMap \<Rightarrow> utf16Range list \<Rightarrow> range list option" where
  "convert_ranges m [] = Some []"
| "convert_ranges m (r # rs) =
     (if ur_EndCodeUnit r < ur_StartCodeUnit r then None
      else
        Option.bind (utf16UnitToByte m (ur_StartCodeUnit r)) (\<lambda>startByte.
        Option.bind (utf16UnitToByte m (ur_EndCodeUnit r)) (\<lambda>endByte.
        Option.bind (pointForUTF8Byte m startByte) (\<lambda>startPoint.
        Option.bind (pointForUTF8Byte m endByte) (\<lambda>endPoint.
        Option.bind (convert_ranges m rs) (\<lambda>out.
          Some (\<lparr>rg_StartByte = startByte, rg_EndByte = endByte, rg_StartPoint = startPoint,
                 rg_EndPoint = endPoint\<rparr> # out)))))))"

definition includedRangesForUTF16 :: "utf16SourceMap \<Rightarrow> utf16Range list \<Rightarrow> range list option" where
  "includedRangesForUTF16 m ranges =
     (if ranges = [] then Some [] else map_option normalizeIncludedRanges (convert_ranges m ranges))"

definition IncludedRangesForUTF16 :: "u16 list \<Rightarrow> utf16Range list \<Rightarrow> range list option" where
  "IncludedRangesForUTF16 source ranges =
     includedRangesForUTF16 (snd (encodeUTF16ToUTF8WithMap source)) ranges"

definition IncludedRangesForUTF16Bytes ::
    "bytes \<Rightarrow> utf16ByteOrder \<Rightarrow> utf16Range list \<Rightarrow> utf16_error + range list" where
  "IncludedRangesForUTF16Bytes source order ranges =
     (case DecodeUTF16Bytes source order of
        Inl err \<Rightarrow> Inl err
      | Inr units \<Rightarrow>
          (case IncludedRangesForUTF16 units ranges of
             None \<Rightarrow> Inl ErrInvalidUTF16Range
           | Some out \<Rightarrow> Inr out))"

definition utf16Boundary :: "u16 list \<Rightarrow> u32 \<Rightarrow> bool" where
  "utf16Boundary source offset =
     (if offset > of_nat (length source) then False
      else if offset = 0 \<or> offset = of_nat (length source) then True
      else \<not> isUTF16LeadSurrogate (source ! (unat offset - 1))
           \<or> \<not> isUTF16TrailSurrogate (source ! unat offset))"

function measure_loop :: "u16 list \<Rightarrow> nat \<Rightarrow> u32 \<Rightarrow> point \<Rightarrow> u32 \<times> point" where
  "measure_loop source unitPos byteLen pt =
     (if unitPos < length source then
        (let (r, unitSize) = decodeUTF16Rune source unitPos; byteSize = of_nat (rune_len r) in
         if r = 10 then measure_loop source (unitPos + unitSize) (byteLen + byteSize) \<lparr>Row = Row pt + 1, Column = 0\<rparr>
         else measure_loop source (unitPos + unitSize) (byteLen + byteSize) (pt\<lparr>Column := Column pt + byteSize\<rparr>))
      else (byteLen, pt))"
  by pat_completeness auto
termination
proof (relation "measure (\<lambda>(source, u, b, p). length source - u)", goal_cases)
  case (2 source u b p x r w)
  then show ?case using decodeUTF16Rune_size [of source u] by (auto simp: prod_eq_iff)
next
  case (3 source u b p x r w)
  then show ?case using decodeUTF16Rune_size [of source u] by (auto simp: prod_eq_iff)
qed simp

declare measure_loop.simps [simp del]

definition measureUTF16AsUTF8 :: "u16 list \<Rightarrow> u32 \<times> point" where
  "measureUTF16AsUTF8 source = measure_loop source 0 0 zero_point"

definition addPointDelta :: "point \<Rightarrow> point \<Rightarrow> point" where
  "addPointDelta start delta =
     (if Row delta = 0 then \<lparr>Row = Row start, Column = Column start + Column delta\<rparr>
      else \<lparr>Row = Row start + Row delta, Column = Column delta\<rparr>)"

section \<open>Code-point boundaries\<close>

text \<open>
  The boundaries from code unit \<open>u\<close> and byte \<open>b\<close> on, as pairs of offsets: the meaning both offset
  maps share.
\<close>

function bnds :: "u16 list \<Rightarrow> nat \<Rightarrow> nat \<Rightarrow> (nat \<times> nat) list" where
  "bnds source u b =
     (u, b) # (if u < length source then
                 (let (r, w) = decodeUTF16Rune source u in bnds source (u + w) (b + length (encode_rune r)))
               else [])"
  by pat_completeness auto
termination
proof (relation "measure (\<lambda>(source, u, b). length source - u)", goal_cases)
  case (2 source u b x r w)
  then show ?case using decodeUTF16Rune_size [of source u] by (auto simp: prod_eq_iff)
qed simp

declare bnds.simps [simp del]

lemma bnds_step:
  assumes "u < length source" "decodeUTF16Rune source u = (r, w)"
  shows "bnds source u b = (u, b) # bnds source (u + w) (b + length (encode_rune r))"
  using assms by (subst bnds.simps) simp

lemma bnds_end: "\<not> u < length source \<Longrightarrow> bnds source u b = [(u, b)]"
  by (subst bnds.simps) simp

lemma bnds_ge: "p \<in> set (bnds source u b) \<Longrightarrow> p = (u, b) \<or> (u < fst p \<and> b < snd p)"
proof (induction source u b rule: bnds.induct)
  case (1 source u b)
  show ?case
  proof (cases "u < length source")
    case True
    obtain r w where d: "decodeUTF16Rune source u = (r, w)" by fastforce
    have "0 < w" using decodeUTF16Rune_size [of source u] d by auto
    moreover have "0 < length (encode_rune r)" by simp
    ultimately show ?thesis
      using "1.IH" [OF True d [symmetric] refl] "1.prems" by (auto simp: bnds_step [OF True d])
  next
    case False
    then show ?thesis using "1.prems" by (simp add: bnds_end)
  qed
qed

lemma bnds_first [simp]: "(u, b) \<in> set (bnds source u b)"
  by (subst bnds.simps) simp

text \<open>A state of the loop before the rune at unit \<open>u\<close>.\<close>

definition map_pre :: "nat \<Rightarrow> nat \<Rightarrow> utf16SourceMap \<Rightarrow> bool" where
  "map_pre n u m \<longleftrightarrow>
     (let B = length (um_utf8 m) in
      u \<le> n \<and> length (um_unitToByte m) = n + 1 \<and> length (um_unitBoundary m) = n + 1 \<and>
      length (um_byteToUnit m) = B + 1 \<and> length (um_byteBoundary m) = B + 1 \<and>
      um_unitToByte m ! u = of_nat B \<and> um_unitBoundary m ! u \<and>
      (\<forall>i. u < i \<and> i \<le> n \<longrightarrow> \<not> um_unitBoundary m ! i) \<and>
      um_byteToUnit m ! B = of_nat u \<and> um_byteBoundary m ! B)"

lemma map_rune_unit_lists:
  assumes "w = 1 \<or> w = 2"
  shows "um_unitToByte (map_rune u r w m) =
      (if w = 1 then (um_unitToByte m)[u := of_nat (length (um_utf8 m))]
       else (um_unitToByte m)[u := of_nat (length (um_utf8 m)), u + 1 := of_nat (length (um_utf8 m))])
      [u + w := of_nat (length (um_utf8 m) + length (encode_rune r))]"
    "um_unitBoundary (map_rune u r w m) = (um_unitBoundary m)[u := True, u + w := True]"
    "um_utf8 (map_rune u r w m) = um_utf8 m @ encode_rune r"
    "um_byteToUnit (map_rune u r w m) = um_byteToUnit m @ map (\<lambda>i. if i = length (encode_rune r)
       then of_nat (u + w) else of_nat u) [1..<Suc (length (encode_rune r))]"
    "um_byteBoundary (map_rune u r w m) = um_byteBoundary m @ map (\<lambda>i. i = length (encode_rune r))
       [1..<Suc (length (encode_rune r))]"
    "um_source (map_rune u r w m) = um_source m"
proof -
  have "[u..<u + 2] = [u, u + 1]" by (simp add: upt_rec)
  then show "um_unitToByte (map_rune u r w m) =
      (if w = 1 then (um_unitToByte m)[u := of_nat (length (um_utf8 m))]
       else (um_unitToByte m)[u := of_nat (length (um_utf8 m)), u + 1 := of_nat (length (um_utf8 m))])
      [u + w := of_nat (length (um_utf8 m) + length (encode_rune r))]"
    using assms by (auto simp: map_rune_def Let_def)
qed (simp_all add: map_rune_def Let_def)

lemma map_rune_pre:
  fixes r :: rune and m :: utf16SourceMap and u w n :: nat
  assumes pre: "map_pre n u m" and w: "w = 1 \<or> w = 2" "u + w \<le> n"
  defines "m1 \<equiv> map_rune u r w m" and "B \<equiv> length (um_utf8 m)" and "E \<equiv> length (encode_rune r)"
  shows "map_pre n (u + w) m1"
    "\<forall>i\<le>u. um_unitToByte m1 ! i = um_unitToByte m ! i \<and> um_unitBoundary m1 ! i = um_unitBoundary m ! i"
    "\<forall>i. u < i \<and> i < u + w \<longrightarrow> \<not> um_unitBoundary m1 ! i"
    "\<forall>j\<le>B. um_byteToUnit m1 ! j = um_byteToUnit m ! j \<and> um_byteBoundary m1 ! j = um_byteBoundary m ! j"
    "\<forall>j. B < j \<and> j < B + E \<longrightarrow> \<not> um_byteBoundary m1 ! j"
    "length (um_utf8 m1) = B + E"
proof -
  note l = map_rune_unit_lists [OF w(1), of u r m, folded m1_def]
  have E: "0 < E" by (simp add: E_def)
  note p = pre [unfolded map_pre_def Let_def, folded B_def]
  show len: "length (um_utf8 m1) = B + E" by (simp add: l B_def E_def)
  have nth: "j < E \<Longrightarrow> [1..<Suc E] ! j = Suc j" for j by (simp del: upt_Suc)
  show "map_pre n (u + w) m1"
    unfolding map_pre_def Let_def len
    using p w E by (auto simp: l nth_append nth_list_update len nth simp flip: B_def E_def simp del: upt_Suc)
  show "\<forall>i\<le>u. um_unitToByte m1 ! i = um_unitToByte m ! i \<and> um_unitBoundary m1 ! i = um_unitBoundary m ! i"
    using p w by (auto simp: l nth_list_update simp flip: B_def)
  show "\<forall>i. u < i \<and> i < u + w \<longrightarrow> \<not> um_unitBoundary m1 ! i"
    using p w by (auto simp: l nth_list_update)
  show "\<forall>j\<le>B. um_byteToUnit m1 ! j = um_byteToUnit m ! j \<and> um_byteBoundary m1 ! j = um_byteBoundary m ! j"
    using p by (auto simp: l nth_append)
  show "\<forall>j. B < j \<and> j < B + E \<longrightarrow> \<not> um_byteBoundary m1 ! j"
    using p by (auto simp: l nth_append nth simp flip: E_def simp del: upt_Suc)
qed

text \<open>What the loop has established when it ends, for the boundaries from \<open>(u, B)\<close> on.\<close>

definition map_post :: "nat \<Rightarrow> nat \<Rightarrow> nat \<Rightarrow> (nat \<times> nat) list \<Rightarrow> utf16SourceMap \<Rightarrow> bool" where
  "map_post n u B bs m' \<longleftrightarrow>
     length (um_unitToByte m') = n + 1 \<and> length (um_unitBoundary m') = n + 1 \<and>
     length (um_byteToUnit m') = length (um_utf8 m') + 1 \<and>
     length (um_byteBoundary m') = length (um_utf8 m') + 1 \<and> B \<le> length (um_utf8 m') \<and>
     (\<forall>i. u \<le> i \<and> i \<le> n \<longrightarrow> um_unitBoundary m' ! i = (i \<in> fst ` set bs)) \<and>
     (\<forall>j. B \<le> j \<and> j \<le> length (um_utf8 m') \<longrightarrow> um_byteBoundary m' ! j = (j \<in> snd ` set bs)) \<and>
     (\<forall>q\<in>set bs. um_unitToByte m' ! fst q = of_nat (snd q) \<and> um_byteToUnit m' ! snd q = of_nat (fst q)
        \<and> fst q \<le> n \<and> snd q \<le> length (um_utf8 m')) \<and>
     (n, length (um_utf8 m')) \<in> set bs"

definition map_keeps :: "nat \<Rightarrow> nat \<Rightarrow> utf16SourceMap \<Rightarrow> utf16SourceMap \<Rightarrow> bool" where
  "map_keeps u B m m' \<longleftrightarrow>
     (\<forall>i\<le>u. um_unitToByte m' ! i = um_unitToByte m ! i \<and> um_unitBoundary m' ! i = um_unitBoundary m ! i) \<and>
     (\<forall>j\<le>B. um_byteToUnit m' ! j = um_byteToUnit m ! j \<and> um_byteBoundary m' ! j = um_byteBoundary m ! j)"

lemma encode_loop_post:
  assumes "map_pre (length source) u m"
  shows "map_post (length source) u (length (um_utf8 m)) (bnds source u (length (um_utf8 m))) (encode_loop source u m)
    \<and> map_keeps u (length (um_utf8 m)) m (encode_loop source u m)"
  using assms
proof (induction source u m rule: encode_loop.induct)
  case (1 source u m)
  let ?n = "length source" and ?B = "length (um_utf8 m)"
  show ?case
  proof (cases "u < ?n")
    case False
    then have u: "u = ?n" using "1.prems" by (simp add: map_pre_def Let_def)
    have run: "encode_loop source u m = m" using False by (subst encode_loop.simps) simp
    show ?thesis unfolding run
      using "1.prems" u by (auto simp: bnds_end map_post_def map_keeps_def map_pre_def Let_def)
  next
    case True
    obtain r w where d: "decodeUTF16Rune source u = (r, w)" by fastforce
    have w: "w = 1 \<or> w = 2" "u + w \<le> ?n"
      using decodeUTF16Rune_size [of source u] decodeUTF16Rune_le [OF True] d by auto
    let ?m1 = "map_rune u r w m" and ?E = "length (encode_rune r)"
    let ?m' = "encode_loop source (u + w) ?m1"
    note st = map_rune_pre [OF "1.prems" w, of r]
    let ?bs = "bnds source (u + w) (?B + ?E)"
    have run: "encode_loop source u m = ?m'" using True d by (simp add: encode_loop.simps [of source u m])
    have post: "map_post ?n (u + w) (?B + ?E) ?bs ?m'" and keep: "map_keeps (u + w) (?B + ?E) ?m1 ?m'"
      using "1.IH" [OF True d [symmetric] refl st(1)] st(6) by auto
    have kp: "map_keeps u ?B m ?m'" using keep st(2,4) by (auto simp: map_keeps_def)
    have pre: "um_unitToByte m ! u = of_nat ?B" "um_unitBoundary m ! u" "um_byteToUnit m ! ?B = of_nat u"
      "um_byteBoundary m ! ?B" using "1.prems" by (auto simp: map_pre_def Let_def)
    have ge: "u + w \<le> fst q \<and> ?B + ?E \<le> snd q" if "q \<in> set ?bs" for q using bnds_ge [OF that] by auto
    have E: "0 < ?E" by simp
    have ub: "um_unitBoundary ?m' ! i = (i \<in> fst ` set ((u, ?B) # ?bs))" if i: "u \<le> i" "i \<le> ?n" for i
    proof -
      consider "i = u" | "u < i" "i < u + w" | "u + w \<le> i" using i by linarith
      then show ?thesis
      proof cases
        case 1 then show ?thesis using kp pre by (simp add: map_keeps_def)
      next
        case 2
        then have "i \<notin> fst ` set ?bs" using ge by force
        then show ?thesis using 2 keep st(3) by (auto simp: map_keeps_def)
      next
        case 3 then show ?thesis using post i w by (auto simp: map_post_def)
      qed
    qed
    have bb: "um_byteBoundary ?m' ! j = (j \<in> snd ` set ((u, ?B) # ?bs))"
      if j: "?B \<le> j" "j \<le> length (um_utf8 ?m')" for j
    proof -
      consider "j = ?B" | "?B < j" "j < ?B + ?E" | "?B + ?E \<le> j" using j by linarith
      then show ?thesis
      proof cases
        case 1 then show ?thesis using kp pre by (simp add: map_keeps_def)
      next
        case 2
        then have "j \<notin> snd ` set ?bs" using ge by force
        then show ?thesis using 2 keep st(5) by (auto simp: map_keeps_def)
      next
        case 3 then show ?thesis using post j E by (auto simp: map_post_def)
      qed
    qed
    have "map_post ?n u ?B ((u, ?B) # ?bs) ?m'"
      unfolding map_post_def using post ub bb kp pre True
      by (auto simp: map_post_def map_keeps_def)
    then show ?thesis using kp unfolding run bnds_step [OF True d] by simp
  qed
qed

lemma encode_map_post:
  "map_post (length source) 0 0 (bnds source 0 0) (snd (encodeUTF16ToUTF8WithMap source))"
proof -
  let ?m0 = "\<lparr>um_source = source, um_utf8 = [], um_byteToUnit = [0], um_byteBoundary = [True],
                um_unitToByte = replicate (length source + 1) 0,
                um_unitBoundary = (replicate (length source + 1) False)[0 := True],
                um_lineStartUnits = [0], um_lineStartBytes = [0]\<rparr>"
  have "map_pre (length source) 0 ?m0" by (auto simp: map_pre_def nth_Cons')
  from encode_loop_post [OF this]
  have "map_post (length source) 0 0 (bnds source 0 0) (encode_loop source 0 ?m0)" by simp
  moreover have "snd (encodeUTF16ToUTF8WithMap source) = encode_loop source 0 ?m0"
    by (cases "source = []") (simp_all add: encodeUTF16ToUTF8WithMap_def encode_loop.simps [of "[]"] Let_def)
  ultimately show ?thesis by (simp only:)
qed

lemma decodeUTF16Rune_scalar: "rune_scalar (fst (decodeUTF16Rune source pos))"
proof -
  have "uint (source ! pos) < 65536" using uint_lt2p [of "source ! pos"] by simp
  then show ?thesis
    by (auto simp: decodeUTF16Rune_def Let_def rune_scalar_def unicodeReplacementRune_def utf16_DecodeRune_def
        utf16_IsSurrogate_def RuneError_def)
qed

lemma decodeUTF16Rune_bytes:
  assumes "decodeUTF16Rune source pos = (r, w)"
  shows "length (encode_rune r) \<le> 3 * w"
proof -
  have "r < 65536 \<or> w = 2"
    using assms uint_lt2p [of "source ! pos"]
    by (auto simp: decodeUTF16Rune_def Let_def unicodeReplacementRune_def split: if_splits)
  moreover have "length (encode_rune r) \<le> 4" "r < 65536 \<Longrightarrow> length (encode_rune r) \<le> 3"
    by (auto simp: encode_rune_def RuneError_def Let_def)
  ultimately show ?thesis using decodeUTF16Rune_size [of source pos] assms by auto
qed

lemma bnds_bytes: "q \<in> set (bnds source u b) \<Longrightarrow> snd q + 3 * u \<le> b + 3 * fst q"
proof (induction source u b rule: bnds.induct)
  case (1 source u b)
  show ?case
  proof (cases "u < length source")
    case True
    obtain r w where d: "decodeUTF16Rune source u = (r, w)" by fastforce
    show ?thesis
      using "1.IH" [OF True d [symmetric] refl] "1.prems" decodeUTF16Rune_bytes [OF d]
      by (auto simp: bnds_step [OF True d])
  next
    case False
    then show ?thesis using "1.prems" by (simp add: bnds_end)
  qed
qed

lemma bnds_tail:
  assumes "decodeUTF16Rune source u = (r, w)" "q \<in> set (bnds source (u + w) (b + length (encode_rune r)))"
  shows "u < fst q" "b < snd q"
proof -
  have "0 < w" "0 < length (encode_rune r)" using decodeUTF16Rune_size [of source u] assms(1) by auto
  then show "u < fst q" "b < snd q" using bnds_ge [OF assms(2)] by auto
qed

lemma bnds_functional:
  "(x, y) \<in> set (bnds source u b) \<Longrightarrow> (x, y') \<in> set (bnds source u b) \<Longrightarrow> y = y'"
  "(x, y) \<in> set (bnds source u b) \<Longrightarrow> (x', y) \<in> set (bnds source u b) \<Longrightarrow> x = x'"
proof (induction source u b rule: bnds.induct)
  case (1 source u b)
  obtain r w where d: "decodeUTF16Rune source u = (r, w)" by fastforce
  note tl = bnds_tail [OF d]
  {
    case 1
    then show ?case
    proof (cases "u < length source")
      case True
      then show ?thesis
        using 1(1,2) "1.IH"(1) [OF True d [symmetric] refl] tl by (fastforce simp: bnds_step [OF True d])
    qed (simp add: bnds_end)
  next
    case 2
    then show ?case
    proof (cases "u < length source")
      case True
      then show ?thesis
        using 2(1,2) "1.IH"(2) [OF True d [symmetric] refl] tl by (fastforce simp: bnds_step [OF True d])
    qed (simp add: bnds_end)
  }
qed

text \<open>The same boundaries, read off the code units: every offset but the middle of a surrogate pair.\<close>

lemma word16_bounds:
  "isUTF16LeadSurrogate x \<longleftrightarrow> 55296 \<le> uint x \<and> uint x < 56320"
  "isUTF16TrailSurrogate x \<longleftrightarrow> 56320 \<le> uint x \<and> uint x < 57344"
  by (auto simp: isUTF16LeadSurrogate_def isUTF16TrailSurrogate_def word_le_def)

lemma decodeUTF16Rune_pair:
  "snd (decodeUTF16Rune source u) = 2 \<longleftrightarrow>
     Suc u < length source \<and> isUTF16LeadSurrogate (source ! u) \<and> isUTF16TrailSurrogate (source ! Suc u)"
  by (auto simp: decodeUTF16Rune_def Let_def word16_bounds utf16_DecodeRune_def utf16_IsSurrogate_def
      unicodeReplacementRune_def RuneError_def)

definition split_pair :: "u16 list \<Rightarrow> nat \<Rightarrow> bool" where
  "split_pair source i \<longleftrightarrow> 0 < i \<and> i < length source \<and> isUTF16LeadSurrogate (source ! (i - 1))
     \<and> isUTF16TrailSurrogate (source ! i)"

lemma bnds_units:
  assumes "u \<le> length source" "\<not> split_pair source u"
  shows "i \<in> fst ` set (bnds source u b) \<longleftrightarrow> u \<le> i \<and> i \<le> length source \<and> \<not> split_pair source i"
  using assms
proof (induction source u b rule: bnds.induct)
  case (1 source u b)
  show ?case
  proof (cases "u < length source")
    case False
    then show ?thesis using "1.prems" by (auto simp: bnds_end)
  next
    case True
    obtain r w where d: "decodeUTF16Rune source u = (r, w)" by fastforce
    have pair: "w = 2 \<longleftrightarrow> Suc u < length source \<and> isUTF16LeadSurrogate (source ! u)
        \<and> isUTF16TrailSurrogate (source ! Suc u)" using decodeUTF16Rune_pair [of source u] d by simp
    have w: "w = 1 \<or> w = 2" "u + w \<le> length source"
      using decodeUTF16Rune_size [of source u] decodeUTF16Rune_le [OF True] d by auto
    have two: "\<not> (isUTF16TrailSurrogate x \<and> isUTF16LeadSurrogate x)" for x by (auto simp: word16_bounds)
    have next_ok: "\<not> split_pair source (u + w)"
      using w(1) pair two by (auto simp: split_pair_def)
    have mid: "split_pair source i" if "u < i" "i < u + w"
    proof -
      have "w = 2" "i = Suc u" using that w(1) by auto
      then show ?thesis using pair by (simp add: split_pair_def)
    qed
    have "i \<in> fst ` set (bnds source u b) \<longleftrightarrow>
        i = u \<or> (u + w \<le> i \<and> i \<le> length source \<and> \<not> split_pair source i)"
      using "1.IH" [OF True d [symmetric] refl w(2) next_ok] by (simp add: bnds_step [OF True d])
    also have "\<dots> \<longleftrightarrow> u \<le> i \<and> i \<le> length source \<and> \<not> split_pair source i"
      using "1.prems" mid True w by (cases "u < i \<and> i < u + w") auto
    finally show ?thesis .
  qed
qed

lemma unit_byte_lookups:
  assumes n: "3 * length source < 4294967296" and m: "m = snd (encodeUTF16ToUTF8WithMap source)"
  shows "utf16UnitToByte m u = Some b \<longleftrightarrow> (unat u, unat b) \<in> set (bnds source 0 0)"
    "byteToUTF16Unit m b = Some u \<longleftrightarrow> (unat u, unat b) \<in> set (bnds source 0 0)"
proof -
  let ?bs = "bnds source 0 0" and ?n = "length source" and ?B = "length (um_utf8 m)"
  have post: "map_post ?n 0 0 ?bs m" unfolding m by (rule encode_map_post)
  have small: "?n < 4294967296" "?B < 4294967296"
    using n bnds_bytes [of "(?n, ?B)" source 0 0] post by (auto simp: map_post_def)
  have bs: "x \<le> ?n" "y \<le> ?B" "um_unitToByte m ! x = of_nat y" "um_byteToUnit m ! y = of_nat x"
    if "(x, y) \<in> set ?bs" for x y using post that by (auto simp: map_post_def)
  have le: "(u \<le> of_nat k) = (unat u \<le> k)" if "k < 4294967296" for u :: u32 and k
    using that by (simp add: word_le_nat_alt)
  show "utf16UnitToByte m u = Some b \<longleftrightarrow> (unat u, unat b) \<in> set ?bs"
  proof
    assume a: "utf16UnitToByte m u = Some b"
    then have u: "unat u \<le> ?n" "um_unitBoundary m ! unat u" "b = um_unitToByte m ! unat u"
      using post le [OF small(1)] by (auto simp: utf16UnitToByte_def map_post_def not_less split: if_splits)
    then obtain y where y: "(unat u, y) \<in> set ?bs" using post by (auto simp: map_post_def)
    then have "unat b = y" using bs [OF y] u(3) small(2) by simp
    then show "(unat u, unat b) \<in> set ?bs" using y by simp
  next
    assume a: "(unat u, unat b) \<in> set ?bs"
    then have "unat u \<in> fst ` set ?bs" by force
    then show "utf16UnitToByte m u = Some b"
      using post bs [OF a] le [OF small(1), of u] by (auto simp: utf16UnitToByte_def map_post_def not_less)
  qed
  show "byteToUTF16Unit m b = Some u \<longleftrightarrow> (unat u, unat b) \<in> set ?bs"
  proof
    assume a: "byteToUTF16Unit m b = Some u"
    then have u: "unat b \<le> ?B" "um_byteBoundary m ! unat b" "u = um_byteToUnit m ! unat b"
      using post le [OF small(2)] by (auto simp: byteToUTF16Unit_def map_post_def not_less split: if_splits)
    then obtain x where x: "(x, unat b) \<in> set ?bs" using post by (auto simp: map_post_def)
    then have "unat u = x" using bs [OF x] u(3) small(1) by simp
    then show "(unat u, unat b) \<in> set ?bs" using x by simp
  next
    assume a: "(unat u, unat b) \<in> set ?bs"
    then have "unat b \<in> snd ` set ?bs" by force
    then show "byteToUTF16Unit m b = Some u"
      using post bs [OF a] le [OF small(2), of b] by (auto simp: byteToUTF16Unit_def map_post_def not_less)
  qed
qed

text \<open>
  C16. The two offset maps of a UTF-16 source are inverse to each other, and an offset in code units
  has a byte offset exactly when it does not split a surrogate pair: the maps agree with
  \<open>utf16Boundary\<close>, which decides the same question from the code units alone.
\<close>

theorem utf16_offsets_round_trip:
  assumes "3 * length source < 4294967296" "m = snd (encodeUTF16ToUTF8WithMap source)"
  shows "(utf16UnitToByte m u = Some b \<longleftrightarrow> byteToUTF16Unit m b = Some u)
    \<and> (utf16UnitToByte m u \<noteq> None \<longleftrightarrow> utf16Boundary source u)"
proof
  note lk = unit_byte_lookups [OF assms]
  show "utf16UnitToByte m u = Some b \<longleftrightarrow> byteToUTF16Unit m b = Some u" using lk by simp
  have bound: "snd q < 4294967296" if "q \<in> set (bnds source 0 0)" for q
  proof -
    have "fst q \<le> length source" using bnds_units [of 0 source "fst q" 0] that by (force simp: split_pair_def)
    then show ?thesis using bnds_bytes [OF that] assms(1) by simp
  qed
  have "utf16UnitToByte m u \<noteq> None \<longleftrightarrow> (\<exists>b::u32. (unat u, unat b) \<in> set (bnds source 0 0))"
    using lk(1) by auto
  also have "\<dots> \<longleftrightarrow> unat u \<in> fst ` set (bnds source 0 0)"
  proof
    assume "unat u \<in> fst ` set (bnds source 0 0)"
    then obtain y where y: "(unat u, y) \<in> set (bnds source 0 0)" by auto
    then have "unat (of_nat y :: u32) = y" using bound [OF y] by simp
    then show "\<exists>b::u32. (unat u, unat b) \<in> set (bnds source 0 0)" using y by metis
  qed force
  also have "\<dots> \<longleftrightarrow> utf16Boundary source u"
  proof -
    have e: "u = of_nat (length source) \<longleftrightarrow> unat u = length source"
      using assms(1) by (simp add: word_unat_eq_iff)
    show ?thesis
      using assms(1) by (auto simp: bnds_units utf16Boundary_def split_pair_def word_less_nat_alt
          unat_eq_zero e)
  qed
  finally show "utf16UnitToByte m u \<noteq> None \<longleftrightarrow> utf16Boundary source u" .
qed

theorem utf16_offsets_round_trip_witness:
  "utf16UnitToByte (snd (encodeUTF16ToUTF8WithMap [97, 0xD83D, 0xDE00, 10])) 3 = Some 5
   \<and> byteToUTF16Unit (snd (encodeUTF16ToUTF8WithMap [97, 0xD83D, 0xDE00, 10])) 5 = Some 3
   \<and> utf16Boundary [97, 0xD83D, 0xDE00, 10] 3"
proof -
  let ?s = "[97, 0xD83D, 0xDE00, 10]"
  have "3 * length ?s < 4294967296" by simp
  note rt = utf16_offsets_round_trip [OF this refl, of 3 5]
  have "utf16UnitToByte (snd (encodeUTF16ToUTF8WithMap ?s)) 3 = Some 5" by code_simp
  then show ?thesis using rt by auto
qed

section \<open>The converted text and its points\<close>

text \<open>The UTF-8 text of the code units from \<open>u\<close> on.\<close>

function utf8_text :: "u16 list \<Rightarrow> nat \<Rightarrow> bytes" where
  "utf8_text source u =
     (if u < length source then
        (let (r, w) = decodeUTF16Rune source u in encode_rune r @ utf8_text source (u + w))
      else [])"
  by pat_completeness auto
termination
proof (relation "measure (\<lambda>(source, u). length source - u)", goal_cases)
  case (2 source u x r w)
  then show ?case using decodeUTF16Rune_size [of source u] by (auto simp: prod_eq_iff)
qed simp

declare utf8_text.simps [simp del]

text \<open>The offsets after the line breaks of the first \<open>k\<close> bytes.\<close>

definition break_ends :: "bytes \<Rightarrow> nat \<Rightarrow> nat list" where
  "break_ends bs k = map Suc (filter (\<lambda>i. bs ! i = newline) [0..<k])"

lemma encode_rune_newline:
  assumes "rune_scalar r"
  shows "newline \<in> set (encode_rune r) \<longleftrightarrow> r = 10" "r = 10 \<Longrightarrow> encode_rune r = [newline]"
proof -
  have high: "byte_of x \<noteq> newline" if "128 \<le> x" "x < 256" for x
  proof
    assume "byte_of x = newline"
    then have "uint (byte_of x) = 10" by (simp add: newline_def)
    then show False using that uint_byte [of x] by simp
  qed
  have low: "byte_of r = newline \<longleftrightarrow> r = 10" if "0 \<le> r" "r < 128"
  proof
    assume "byte_of r = newline"
    then have "uint (byte_of r) = 10" by (simp add: newline_def)
    then show "r = 10" using that uint_byte [of r] by simp
  qed (simp add: byte_of_def newline_def)
  show "newline \<in> set (encode_rune r) \<longleftrightarrow> r = 10"
  proof (cases "r < 128")
    case True
    then show ?thesis using assms low by (auto simp: encode_rune_def rune_scalar_def)
  next
    case False
    have r: "0 \<le> r" "r \<le> 1114111" using assms by (auto simp: rune_scalar_def)
    have d: "r < 2048 \<Longrightarrow> r div 64 < 32" "r < 65536 \<Longrightarrow> r div 4096 < 16" "r div 262144 < 16"
      using r(2) zdiv_mono1 [of r 2047 64] zdiv_mono1 [of r 65535 4096] zdiv_mono1 [of r 1114111 262144]
      by auto
    have p: "0 \<le> r div 64" "0 \<le> r div 4096" "0 \<le> r div 262144" using r(1) by simp_all
    have lead: "r < 2048 \<Longrightarrow> byte_of (192 + r div 64) \<noteq> newline"
      "r < 65536 \<Longrightarrow> byte_of (224 + r div 4096) \<noteq> newline" "byte_of (240 + r div 262144) \<noteq> newline"
      using d p by (intro high; simp)+
    have rest: "byte_of (128 + x mod 64) \<noteq> newline" for x by (rule high) simp_all
    have "newline \<notin> set (encode_rune r)"
      using False assms lead rest
      by (simp add: encode_rune_def Let_def not_less lead [symmetric] rest [symmetric] not_sym)
    then show ?thesis using False by simp
  qed
  show "r = 10 \<Longrightarrow> encode_rune r = [newline]"
    by (simp add: encode_rune_def rune_scalar_def byte_of_def newline_def)
qed

lemma encode_rune_point:
  assumes "rune_scalar r"
  shows "advance_point_loop pt (encode_rune r) =
    (if r = 10 then \<lparr>Row = Row pt + 1, Column = 0\<rparr>
     else pt\<lparr>Column := Column pt + of_nat (length (encode_rune r))\<rparr>)"
proof (cases "r = 10")
  case False
  then have "newline \<notin> set (encode_rune r)" using encode_rune_newline(1) [OF assms] by simp
  then have "advance_point_loop pt (encode_rune r) = pt\<lparr>Column := Column pt + of_nat (length (encode_rune r))\<rparr>"
    by (simp add: advance_point_loop_bulk last_index_byte_neg)
  then show ?thesis using False by simp
qed (use encode_rune_newline(2) [OF assms] in simp)

lemma measure_loop_text:
  "measure_loop source u b pt = (b + of_nat (length (utf8_text source u)), advance_point_loop pt (utf8_text source u))"
proof (induction source u b pt rule: measure_loop.induct)
  case (1 source u b pt)
  show ?case
  proof (cases "u < length source")
    case False
    then show ?thesis by (simp add: measure_loop.simps [of source u] utf8_text.simps [of source u])
  next
    case True
    obtain r w where d: "decodeUTF16Rune source u = (r, w)" by fastforce
    have sc: "rune_scalar r" using decodeUTF16Rune_scalar [of source u] d by simp
    have t: "utf8_text source u = encode_rune r @ utf8_text source (u + w)"
      using True d by (subst utf8_text.simps) simp
    have len10: "rune_len 10 = length (encode_rune 10)" by code_simp
    show ?thesis
      using "1.IH"(1) [OF True d [symmetric] refl refl] "1.IH"(2) [OF True d [symmetric] refl refl]
      by (simp add: measure_loop.simps [of source u] True d t advance_point_loop_append
          encode_rune_point [OF sc] rune_len_encode [OF sc, symmetric] len10 Let_def)
  qed
qed

lemma break_ends_append:
  "break_ends (a @ b) (length (a @ b)) = break_ends a (length a) @ map ((+) (length a)) (break_ends b (length b))"
proof -
  have "[0..<length (a @ b)] = [0..<length a] @ map ((+) (length a)) [0..<length b]"
    by (rule nth_equalityI) (auto simp: nth_append)
  moreover have "filter (\<lambda>i. (a @ b) ! i = newline) [0..<length a] = filter (\<lambda>i. a ! i = newline) [0..<length a]"
    by (intro filter_cong) (auto simp: nth_append)
  ultimately show ?thesis by (simp add: break_ends_def filter_map o_def nth_append)
qed

lemma break_ends_rune:
  assumes "rune_scalar r"
  shows "break_ends (encode_rune r) (length (encode_rune r)) = (if r = 10 then [1] else [])"
proof (cases "r = 10")
  case False
  then have "newline \<notin> set (encode_rune r)" using encode_rune_newline(1) [OF assms] by simp
  then show ?thesis using False by (auto simp: break_ends_def filter_empty_conv in_set_conv_nth)
qed (use encode_rune_newline(2) [OF assms] in \<open>simp add: break_ends_def\<close>)

lemma map_rune_lines:
  "um_lineStartBytes (map_rune u r w m) =
     um_lineStartBytes m @ (if r = 10 then [of_nat (length (um_utf8 m) + length (encode_rune r))] else [])"
  by (simp add: map_rune_def Let_def)

lemma encode_loop_text:
  "um_utf8 (encode_loop source u m) = um_utf8 m @ utf8_text source u \<and>
   um_lineStartBytes (encode_loop source u m) = um_lineStartBytes m @
     map (\<lambda>k. of_nat (length (um_utf8 m) + k)) (break_ends (utf8_text source u) (length (utf8_text source u)))"
proof (induction source u m rule: encode_loop.induct)
  case (1 source u m)
  show ?case
  proof (cases "u < length source")
    case False
    then show ?thesis
      by (simp add: encode_loop.simps [of source u] utf8_text.simps [of source u] break_ends_def)
  next
    case True
    obtain r w where d: "decodeUTF16Rune source u = (r, w)" by fastforce
    have sc: "rune_scalar r" using decodeUTF16Rune_scalar [of source u] d by simp
    have w: "w = 1 \<or> w = 2" using decodeUTF16Rune_size [of source u] d by auto
    have t: "utf8_text source u = encode_rune r @ utf8_text source (u + w)"
      using True d by (subst utf8_text.simps) simp
    have "encode_rune r = [newline]" if "r = 10" using encode_rune_newline(2) [OF sc that] .
    then show ?thesis
      using "1.IH" [OF True d [symmetric] refl] True d
      by (simp add: encode_loop.simps [of source u] t map_rune_unit_lists(3) [OF w] map_rune_lines
          break_ends_append [of "encode_rune r", simplified] break_ends_rune [OF sc] o_def add.assoc)
  qed
qed

lemma encode_text:
  "fst (encodeUTF16ToUTF8WithMap source) = utf8_text source 0"
  "um_utf8 (snd (encodeUTF16ToUTF8WithMap source)) = utf8_text source 0"
  "um_lineStartBytes (snd (encodeUTF16ToUTF8WithMap source))
     = map of_nat (0 # break_ends (utf8_text source 0) (length (utf8_text source 0)))"
  by (cases "source = []"; simp add: encodeUTF16ToUTF8WithMap_def Let_def encode_loop_text
      utf8_text.simps [of "[]"] break_ends_def)+

text \<open>
  \<open>measureUTF16AsUTF8\<close> measures a UTF-16 text without converting it: its byte length and end
  point are those of the UTF-8 text the conversion produces.
\<close>

theorem measureUTF16AsUTF8_exact:
  "measureUTF16AsUTF8 source =
     (of_nat (length (fst (encodeUTF16ToUTF8WithMap source))),
      advancePointByBytes zero_point (fst (encodeUTF16ToUTF8WithMap source)))"
  by (simp add: measureUTF16AsUTF8_def measure_loop_text encode_text(1) advancePointByBytes_is_loop)

lemma last_index_byte_snoc:
  "last_index_byte (xs @ [x]) c = (if x = c then int (length xs) else last_index_byte xs c)"
  by (induction xs) (auto simp: Let_def)

lemma break_ends_take:
  assumes "b \<le> length bs"
  shows "length (break_ends bs b) = count_byte (take b bs) newline \<and>
    last_index_byte (take b bs) newline + 1 = int (if break_ends bs b = [] then 0 else last (break_ends bs b))"
  using assms
proof (induction b)
  case (Suc b)
  have t: "take (Suc b) bs = take b bs @ [bs ! b]" using Suc.prems by (simp add: take_Suc_conv_app_nth)
  then show ?case using Suc by (auto simp: break_ends_def last_index_byte_snoc)
qed (simp add: break_ends_def)

lemma break_ends_split:
  assumes "b \<le> length bs"
  shows "break_ends bs (length bs) = break_ends bs b @ map Suc (filter (\<lambda>i. bs ! i = newline) [b..<length bs])"
proof -
  have "[0..<length bs] = [0..<b] @ [b..<length bs]"
    using assms upt_add_eq_append [of 0 b "length bs - b"] by simp
  then show ?thesis by (simp add: break_ends_def)
qed

text \<open>The binary search over the line starts gives the point the bytes give.\<close>

lemma line_point_exact:
  assumes b: "b \<le> length bs" and small: "length bs < 4294967295"
  shows "line_point (map of_nat (0 # break_ends bs (length bs))) (of_nat b) = advance_point_loop zero_point (take b bs)"
proof -
  let ?low = "break_ends bs b" and ?high = "map Suc (filter (\<lambda>i. bs ! i = newline) [b..<length bs])"
  let ?starts = "0 # break_ends bs (length bs)"
  let ?k = "length ?low"
  have starts: "?starts = (0 # ?low) @ ?high" using break_ends_split [OF b] by simp
  have low: "\<forall>x\<in>set (0 # ?low). x \<le> b" by (auto simp: break_ends_def)
  have high: "\<forall>x\<in>set ?high. b < x \<and> x \<le> length bs" by (auto simp: break_ends_def)
  have nle: "?starts ! i \<le> b" if "i \<le> ?k" for i
  proof -
    have "?starts ! i = (0 # ?low) ! i" using that unfolding starts by (simp add: nth_append del: append_Cons)
    moreover have "(0 # ?low) ! i \<in> set (0 # ?low)" using that by (intro nth_mem) simp
    ultimately show ?thesis using low by metis
  qed
  have ngt: "b < ?starts ! i \<and> ?starts ! i \<le> length bs" if "?k < i" "i < length ?starts" for i
  proof -
    have "?starts ! i = ?high ! (i - Suc ?k)" using that unfolding starts by (simp add: nth_append del: append_Cons)
    moreover have "?high ! (i - Suc ?k) \<in> set ?high"
      using that unfolding starts by (intro nth_mem) simp
    ultimately show ?thesis using high by metis
  qed
  have gt: "(map of_nat ?starts ! i > (of_nat b :: u32)) = (?k < i)" if i: "i < length ?starts" for i
  proof (cases "?k < i")
    case True
    then show ?thesis using ngt [OF True i] b small i by (simp add: u32_of_nat_less_iff del: list.map)
  next
    case False
    then have "?starts ! i \<le> b" using nle by simp
    then show ?thesis using False b small i by (simp add: u32_of_nat_less_iff del: list.map)
  qed
  define W where "W = (map of_nat ?starts :: u32 list)"
  have gtW: "(W ! i > of_nat b) = (?k < i)" if "i < length W" for i
    unfolding W_def using gt [of i] that by (simp only: W_def length_map)
  have kW: "?k < length W" unfolding W_def starts by simp
  have search: "sort_search (length W) (\<lambda>i. W ! i > of_nat b) = Suc ?k"
  proof (rule sort_search_eqI)
    show "W ! j > of_nat b" if "i \<le> j" "j < length W" "W ! i > of_nat b" for i j
      using that gtW [of i] gtW [of j] by simp
    show "\<not> W ! i > of_nat b" if "i < Suc ?k" for i using that gtW [of i] kW by simp
  qed (use gtW kW in auto)
  have last: "?starts ! ?k = nat (last_index_byte (take b bs) newline + 1)"
  proof (cases "?low = []")
    case True
    then show ?thesis using break_ends_take [OF b] by simp
  next
    case False
    then have "?starts ! ?k = last ?low" unfolding starts by (simp add: nth_append last_conv_nth nth_Cons' del: append_Cons)
    then show ?thesis using False break_ends_take [OF b] by simp
  qed
  have pos: "0 < last ?low" if "?low \<noteq> []"
    using last_in_set [OF that] by (auto simp: break_ends_def)
  have neg: "last_index_byte (take b bs) newline < 0 \<longleftrightarrow> ?low = []"
    using break_ends_take [OF b] pos by (cases "?low = []") auto
  have "line_point (map of_nat ?starts) (of_nat b)
      = \<lparr>Row = of_nat ?k, Column = of_nat b - of_nat (?starts ! ?k)\<rparr>"
  proof -
    have "W ! ?k = of_nat (?starts ! ?k)" using kW unfolding W_def by (simp only: length_map nth_map)
    then show ?thesis unfolding W_def [symmetric] line_point_def search Let_def by simp
  qed
  also have "\<dots> = advance_point_loop zero_point (take b bs)"
  proof (cases "?low = []")
    case True
    then show ?thesis using b neg by (simp add: advance_point_loop_bulk zero_point_def)
  next
    case False
    then have "0 \<le> last_index_byte (take b bs) newline" using neg by linarith
    then have "of_nat b - of_nat (?starts ! ?k) = (of_int (int b - last_index_byte (take b bs) newline - 1) :: u32)"
      unfolding last by simp
    then show ?thesis
      using False b neg break_ends_take [OF b] by (simp add: advance_point_loop_bulk zero_point_def)
  qed
  finally show ?thesis .
qed

text \<open>
  \<open>pointForUTF8Byte\<close> answers every byte offset of the converted text with the row and column the
  bytes before it give, by binary search over the line starts the conversion collected, and rejects
  every offset past the end.
\<close>

theorem pointForUTF8Byte_exact:
  assumes "3 * length source < 4294967295" "(text, m) = encodeUTF16ToUTF8WithMap source"
  shows "pointForUTF8Byte m offset =
    (if unat offset \<le> length text then Some (advancePointByBytes zero_point (take (unat offset) text)) else None)"
proof -
  have tm: "text = utf8_text source 0" "m = snd (encodeUTF16ToUTF8WithMap source)"
    using assms(2) encode_text(1) [of source] by (metis fst_conv, metis snd_conv)
  have "(length source, length text) \<in> set (bnds source 0 0)"
    using encode_map_post [of source] encode_text(2) [of source] tm(1) by (simp add: map_post_def)
  then have small: "length text < 4294967295" using bnds_bytes [of _ source 0 0] assms(1) by fastforce
  have le: "offset > of_nat (length text) \<longleftrightarrow> length text < unat offset"
    using small by (simp add: word_less_nat_alt)
  have "line_point (um_lineStartBytes m) offset = advance_point_loop zero_point (take (unat offset) text)"
    if "unat offset \<le> length text"
    using line_point_exact [OF that small] tm encode_text(3) [of source] by simp
  then show ?thesis
    using le tm encode_text(2) [of source]
    by (simp add: pointForUTF8Byte_def advancePointByBytes_is_loop not_le [symmetric])
qed

theorem pointForUTF8Byte_exact_witness:
  "pointForUTF8Byte (snd (encodeUTF16ToUTF8WithMap [97, 10, 0xE9, 98])) 4 = Some \<lparr>Row = 1, Column = 2\<rparr>"
proof -
  let ?s = "[97, 10, 0xE9, 98]"
  have len: "3 * length ?s < 4294967295" by simp
  have eval: "(if unat (4::u32) \<le> length (fst (encodeUTF16ToUTF8WithMap ?s))
      then Some (advancePointByBytes zero_point (take (unat (4::u32)) (fst (encodeUTF16ToUTF8WithMap ?s)))) else None)
    = Some \<lparr>Row = 1, Column = 2\<rparr>" by code_simp
  show ?thesis
    using pointForUTF8Byte_exact [where source = ?s and offset = 4, OF len prod.collapse] eval by simp
qed

end
