(* ===== verification/Scanner_State_Set.thy ===== *)
theory Scanner_State_Set
  imports Go_Prelude
begin

text \<open>
  The checkpoint set, \<^verbatim>\<open>internal/runtime/internal/scannerstate/set.go\<close>: an ordered map from node
  indexes to checkpoints, kept in chunks of fixed capacity so that growth never copies live arrays.
  The lemmas show the chunk invariant, that no append ever outgrows its backing array, that the set
  refines a finite map, and that the byte count it reports is exact. The locale \<open>keyed_store\<close> is
  the contract of a map with last-write-wins updates; its client lemma is proved once there.

  The methods accept a nil receiver and then do nothing; the model starts from a set.
\<close>

section \<open>Data\<close>

text \<open>A \<^verbatim>\<open>chunk\<close>; both arrays are allocated with the one capacity.\<close>

record 'a chunk =
  ck_indexes :: "u32 list"
  ck_refs :: "'a list"
  ck_cap :: nat

text \<open>A \<^verbatim>\<open>Set\<close>; \<open>st_dircap\<close> is the capacity of the directory slice.\<close>

record 'a scannerSet =
  st_chunks :: "'a chunk list"
  st_dircap :: nat
  st_cursor :: nat
  st_count :: nat
  st_bytes :: int

text \<open>
  What the run-time system decides: the size of a reference, the size of a chunk header, and the
  capacity \<^verbatim>\<open>append\<close> gives a full directory.
\<close>

record allocator =
  al_ref :: nat
  al_chunk :: nat
  al_grow :: "nat \<Rightarrow> nat"

definition maxChunk :: int where "maxChunk = 32 * 1024"

definition empty_set :: "'a scannerSet" where
  "empty_set = \<lparr>st_chunks = [], st_dircap = 0, st_cursor = 0, st_count = 0, st_bytes = 0\<rparr>"

section \<open>Operations\<close>

definition addChunk :: "allocator \<Rightarrow> nat \<Rightarrow> 'a scannerSet \<Rightarrow> 'a scannerSet" where
  "addChunk al n s =
     (let before = st_dircap s;
          after = (if length (st_chunks s) = before then al_grow al before else before) in
      s\<lparr>st_chunks := st_chunks s @ [\<lparr>ck_indexes = [], ck_refs = [], ck_cap = n\<rparr>],
        st_dircap := after,
        st_bytes := st_bytes s + int n * (4 + int (al_ref al)) + (int after - int before) * int (al_chunk al)\<rparr>)"

definition grow :: "allocator \<Rightarrow> 'a scannerSet \<Rightarrow> 'a scannerSet" where
  "grow al s =
     addChunk al (if st_chunks s \<noteq> [] then nat (min (int (ck_cap (last (st_chunks s)) * 2)) maxChunk) else 128) s"

text \<open>\<^verbatim>\<open>tail\<close> returns a pointer into the directory; the model returns the set, the chunk is at the cursor.\<close>

definition tail :: "allocator \<Rightarrow> 'a scannerSet \<Rightarrow> 'a scannerSet" where
  "tail al s =
     (let s = (if st_chunks s = [] then grow al s else s);
          c = st_chunks s ! st_cursor s in
      if length (ck_indexes c) = ck_cap c then
        (let s = s\<lparr>st_cursor := st_cursor s + 1\<rparr> in
         if st_cursor s = length (st_chunks s) then grow al s else s)
      else s)"

definition find :: "'a scannerSet \<Rightarrow> u32 \<Rightarrow> nat \<times> nat" where
  "find s key =
     (let c = (if key < hd (ck_indexes (st_chunks s ! st_cursor s))
               then sort_search (st_cursor s) (\<lambda>i. key \<le> last (ck_indexes (st_chunks s ! i)))
               else st_cursor s);
          indexes = ck_indexes (st_chunks s ! c) in
      (c, sort_search (length indexes) (\<lambda>i. key \<le> indexes ! i)))"

definition Lookup :: "'a scannerSet \<Rightarrow> int \<Rightarrow> 'a option" where
  "Lookup s idx =
     (if st_count s = 0 \<or> idx < 0 then None
      else
        let (c, i) = find s (of_int idx); chunk = st_chunks s ! c in
        if i = length (ck_indexes chunk) \<or> ck_indexes chunk ! i \<noteq> of_int idx then None
        else Some (ck_refs chunk ! i))"

definition append_entry :: "u32 \<Rightarrow> 'a \<Rightarrow> 'a chunk \<Rightarrow> 'a chunk" where
  "append_entry key ref ck = ck\<lparr>ck_indexes := ck_indexes ck @ [key], ck_refs := ck_refs ck @ [ref]\<rparr>"

definition prepend_entry :: "u32 \<Rightarrow> 'a \<Rightarrow> 'a chunk \<Rightarrow> 'a chunk" where
  "prepend_entry key ref ck = ck\<lparr>ck_indexes := key # ck_indexes ck, ck_refs := ref # ck_refs ck\<rparr>"

definition drop_last :: "'a chunk \<Rightarrow> 'a chunk" where
  "drop_last ck = ck\<lparr>ck_indexes := butlast (ck_indexes ck), ck_refs := butlast (ck_refs ck)\<rparr>"

definition insert_entry :: "nat \<Rightarrow> u32 \<Rightarrow> 'a \<Rightarrow> 'a chunk \<Rightarrow> 'a chunk" where
  "insert_entry pos key ref ck =
     ck\<lparr>ck_indexes := take pos (ck_indexes ck) @ key # drop pos (ck_indexes ck),
        ck_refs := take pos (ck_refs ck) @ ref # drop pos (ck_refs ck)\<rparr>"

text \<open>The loop that carries the final entry of each chunk into the following one.\<close>

fun carry :: "'a chunk list \<Rightarrow> nat \<Rightarrow> nat \<Rightarrow> 'a chunk list" where
  "carry chunks i c =
     (if i > c then
        (let previous = chunks ! (i - 1) in
         carry (chunks[i := prepend_entry (last (ck_indexes previous)) (last (ck_refs previous)) (chunks ! i),
                       i - 1 := drop_last previous]) (i - 1) c)
      else chunks)"

declare carry.simps [simp del]

text \<open>The set and the growth in retained bytes.\<close>

definition Upsert :: "allocator \<Rightarrow> 'a scannerSet \<Rightarrow> int \<Rightarrow> 'a \<Rightarrow> 'a scannerSet \<times> int" where
  "Upsert al s idx ref =
     (if idx < 0 then (s, 0)
      else
        let before = st_bytes s; key = of_int idx :: u32 in
        if st_count s = 0 \<or> last (ck_indexes (st_chunks s ! st_cursor s)) < key then
          (let t = tail al s;
               t = t\<lparr>st_chunks := (st_chunks t)[st_cursor t := append_entry key ref (st_chunks t ! st_cursor t)],
                     st_count := st_count t + 1\<rparr> in
           (t, st_bytes t - before))
        else
          let (c, pos) = find s key; selected = st_chunks s ! c in
          if ck_indexes selected ! pos = key then
            (s\<lparr>st_chunks := (st_chunks s)[c := selected\<lparr>ck_refs := (ck_refs selected)[pos := ref]\<rparr>]\<rparr>, 0)
          else
            let t = tail al s;
                chunks = carry (st_chunks t) (st_cursor t) c;
                t = t\<lparr>st_chunks := chunks[c := insert_entry pos key ref (chunks ! c)], st_count := st_count t + 1\<rparr> in
            (t, st_bytes t - before))"

definition Slots :: "'a scannerSet \<Rightarrow> nat" where
  "Slots s = sum_list (map ck_cap (st_chunks s))"

function ensure_loop :: "allocator \<Rightarrow> nat \<Rightarrow> nat \<Rightarrow> 'a scannerSet \<Rightarrow> 'a scannerSet" where
  "ensure_loop al n capacity s =
     (if capacity < n then
        (let chunkSize = nat (min (int (n - capacity)) maxChunk) in
         ensure_loop al n (capacity + chunkSize) (addChunk al chunkSize s))
      else s)"
  by pat_completeness auto
termination
  by (relation "measure (\<lambda>(al, n, capacity, s). n - capacity)") (auto simp: maxChunk_def)

declare ensure_loop.simps [simp del]

definition EnsureCapacity :: "allocator \<Rightarrow> 'a scannerSet \<Rightarrow> int \<Rightarrow> 'a scannerSet \<times> int" where
  "EnsureCapacity al s n =
     (if n \<le> 0 then (s, 0)
      else let t = ensure_loop al (nat n) (Slots s) s in (t, st_bytes t - st_bytes s))"

definition Reset_set :: "'a scannerSet \<Rightarrow> 'a scannerSet" where
  "Reset_set s = s\<lparr>st_chunks := map (\<lambda>ck. ck\<lparr>ck_indexes := [], ck_refs := []\<rparr>) (st_chunks s),
                   st_count := 0, st_cursor := 0\<rparr>"

section \<open>Invariant\<close>

definition ck_entries :: "'a chunk \<Rightarrow> (u32 \<times> 'a) list" where
  "ck_entries ck = zip (ck_indexes ck) (ck_refs ck)"

definition entries :: "'a scannerSet \<Rightarrow> (u32 \<times> 'a) list" where
  "entries s = concat (map ck_entries (st_chunks s))"

definition chunk_ok :: "'a chunk \<Rightarrow> bool" where
  "chunk_ok ck \<longleftrightarrow> length (ck_indexes ck) = length (ck_refs ck) \<and> length (ck_indexes ck) \<le> ck_cap ck \<and> 0 < ck_cap ck"

text \<open>Chunks before the cursor are full, chunks after it are empty.\<close>

definition layout :: "'a chunk list \<Rightarrow> nat \<Rightarrow> bool" where
  "layout chunks cursor \<longleftrightarrow>
     (\<forall>i<length chunks. chunk_ok (chunks ! i)
        \<and> (i < cursor \<longrightarrow> length (ck_indexes (chunks ! i)) = ck_cap (chunks ! i))
        \<and> (cursor < i \<longrightarrow> ck_indexes (chunks ! i) = []))"

definition wf_set :: "'a scannerSet \<Rightarrow> bool" where
  "wf_set s \<longleftrightarrow>
     layout (st_chunks s) (st_cursor s)
     \<and> (if st_chunks s = [] then st_cursor s = 0 else st_cursor s < length (st_chunks s))
     \<and> sorted_wrt (<) (map fst (entries s))
     \<and> st_count s = length (entries s)
     \<and> (if st_count s = 0 then st_cursor s = 0 else ck_indexes (st_chunks s ! st_cursor s) \<noteq> [])"


lemma concat_split:
  "c < length cs \<Longrightarrow> concat (map f cs) = concat (map f (take c cs)) @ f (cs ! c) @ concat (map f (drop (Suc c) cs))"
  by (subst id_take_nth_drop [of c cs]) simp_all

lemma ck_entries_simps [simp]:
  "ck_entries (prepend_entry k r ck) = (k, r) # ck_entries ck"
  "chunk_ok ck \<Longrightarrow> ck_entries (append_entry k r ck) = ck_entries ck @ [(k, r)]"
  "length (ck_indexes (prepend_entry k r ck)) = Suc (length (ck_indexes ck))"
  "length (ck_indexes (append_entry k r ck)) = Suc (length (ck_indexes ck))"
  "length (ck_indexes (drop_last ck)) = length (ck_indexes ck) - 1"
  "ck_cap (prepend_entry k r ck) = ck_cap ck" "ck_cap (append_entry k r ck) = ck_cap ck"
  "ck_cap (drop_last ck) = ck_cap ck" "ck_cap (insert_entry pos k r ck) = ck_cap ck"
  by (simp_all add: ck_entries_def prepend_entry_def append_entry_def drop_last_def insert_entry_def chunk_ok_def)

lemma chunk_okD: "chunk_ok ck \<Longrightarrow> length (ck_indexes ck) \<le> ck_cap ck" "chunk_ok ck \<Longrightarrow> 0 < ck_cap ck"
  by (simp_all add: chunk_ok_def)

lemma chunk_ok_simps:
  "chunk_ok ck \<Longrightarrow> length (ck_indexes ck) < ck_cap ck \<Longrightarrow> chunk_ok (prepend_entry k r ck)"
  "chunk_ok ck \<Longrightarrow> length (ck_indexes ck) < ck_cap ck \<Longrightarrow> chunk_ok (append_entry k r ck)"
  "chunk_ok ck \<Longrightarrow> chunk_ok (drop_last ck)"
  "chunk_ok ck \<Longrightarrow> length (ck_indexes ck) < ck_cap ck \<Longrightarrow> pos \<le> length (ck_indexes ck) \<Longrightarrow> chunk_ok (insert_entry pos k r ck)"
  by (auto simp: chunk_ok_def prepend_entry_def append_entry_def drop_last_def insert_entry_def)

lemma length_insert_entry [simp]:
  "length (ck_indexes (insert_entry pos k r ck)) = Suc (length (ck_indexes ck))"
  by (simp add: insert_entry_def)

lemma ck_entries_insert:
  assumes "chunk_ok ck"
  shows "ck_entries (insert_entry pos k r ck) = take pos (ck_entries ck) @ (k, r) # drop pos (ck_entries ck)"
  using assms by (simp add: ck_entries_def insert_entry_def chunk_ok_def take_zip drop_zip)

lemma ck_entries_drop_last:
  assumes "chunk_ok ck" "ck_indexes ck \<noteq> []"
  shows "ck_entries (drop_last ck) @ [(last (ck_indexes ck), last (ck_refs ck))] = ck_entries ck"
proof -
  have r: "ck_refs ck \<noteq> []" "length (ck_indexes ck) = length (ck_refs ck)" using assms by (auto simp: chunk_ok_def)
  have "ck_entries ck = zip (butlast (ck_indexes ck) @ [last (ck_indexes ck)]) (butlast (ck_refs ck) @ [last (ck_refs ck)])"
    using assms(2) r(1) by (simp add: ck_entries_def)
  also have "\<dots> = ck_entries (drop_last ck) @ [(last (ck_indexes ck), last (ck_refs ck))]"
    using r(2) by (subst zip_append) (simp_all add: ck_entries_def drop_last_def)
  finally show ?thesis by simp
qed

lemma length_ck_entries: "chunk_ok ck \<Longrightarrow> length (ck_entries ck) = length (ck_indexes ck)"
  by (simp add: ck_entries_def chunk_ok_def)

lemma map_fst_ck_entries [simp]: "chunk_ok ck \<Longrightarrow> map fst (ck_entries ck) = ck_indexes ck"
  by (simp add: ck_entries_def chunk_ok_def)

text \<open>One round of the carry loop moves one entry across a chunk boundary.\<close>

lemma carry_step_entries:
  assumes "Suc j < length cs" "chunk_ok (cs ! j)" "ck_indexes (cs ! j) \<noteq> []"
  shows "concat (map ck_entries (cs[Suc j := prepend_entry (last (ck_indexes (cs ! j))) (last (ck_refs (cs ! j))) (cs ! Suc j),
            j := drop_last (cs ! j)])) = concat (map ck_entries cs)"
proof -
  obtain A p q B where cs: "cs = A @ p # q # B" and j: "j = length A"
    using assms(1) by (metis Cons_nth_drop_Suc Suc_lessD append_take_drop_id length_take min.absorb4)
  have e: "ck_entries (drop_last p) @ [(last (ck_indexes p), last (ck_refs p))] = ck_entries p"
    using assms(2,3) by (intro ck_entries_drop_last) (simp_all add: cs j)
  have "ck_entries (drop_last p) @ (last (ck_indexes p), last (ck_refs p)) # xs = ck_entries p @ xs" for xs
    unfolding e [symmetric] by simp
  then show ?thesis by (simp add: cs j nth_append list_update_append)
qed

text \<open>
  The whole loop: the entries are kept, the last chunk gains one entry and chunk \<open>c\<close> loses its last.
\<close>

definition carry_ready :: "'a chunk list \<Rightarrow> nat \<Rightarrow> bool" where
  "carry_ready cs i \<longleftrightarrow> i < length cs \<and> (\<forall>j<length cs. chunk_ok (cs ! j))
     \<and> length (ck_indexes (cs ! i)) < ck_cap (cs ! i) \<and> (\<forall>j<i. length (ck_indexes (cs ! j)) = ck_cap (cs ! j))"

lemma carry_correct:
  assumes "carry_ready cs i" "c \<le> i"
  shows "length (carry cs i c) = length cs"
    and "concat (map ck_entries (carry cs i c)) = concat (map ck_entries cs)"
    and "carry cs i c ! c = (if c < i then drop_last (cs ! c) else cs ! c)"
    and "j < length cs \<Longrightarrow> j < c \<or> i < j \<Longrightarrow> carry cs i c ! j = cs ! j"
    and "j < length cs \<Longrightarrow> chunk_ok (carry cs i c ! j) \<and> ck_cap (carry cs i c ! j) = ck_cap (cs ! j)"
    and "j < length cs \<Longrightarrow> j \<noteq> c \<Longrightarrow>
      length (ck_indexes (carry cs i c ! j)) = length (ck_indexes (cs ! j)) + (if j = i then 1 else 0)"
proof -
  have "length (carry cs i c) = length cs
    \<and> concat (map ck_entries (carry cs i c)) = concat (map ck_entries cs)
    \<and> carry cs i c ! c = (if c < i then drop_last (cs ! c) else cs ! c)
    \<and> (\<forall>j<length cs. j < c \<or> i < j \<longrightarrow> carry cs i c ! j = cs ! j)
    \<and> (\<forall>j<length cs. chunk_ok (carry cs i c ! j) \<and> ck_cap (carry cs i c ! j) = ck_cap (cs ! j))
    \<and> (\<forall>j<length cs. j \<noteq> c \<longrightarrow>
      length (ck_indexes (carry cs i c ! j)) = length (ck_indexes (cs ! j)) + (if j = i then 1 else 0))"
    using assms
  proof (induction i arbitrary: cs)
    case 0
    then show ?case by (simp add: carry.simps carry_ready_def)
  next
    case (Suc i)
    show ?case
    proof (cases "c = Suc i")
      case True
      then show ?thesis using Suc.prems by (simp add: carry.simps carry_ready_def)
    next
      case False
      then have c: "c \<le> i" "c < Suc i" using Suc.prems(2) by auto
      let ?p = "cs ! i"
      let ?q = "prepend_entry (last (ck_indexes ?p)) (last (ck_refs ?p)) (cs ! Suc i)"
      let ?cs = "cs[Suc i := ?q, i := drop_last ?p]"
      have step: "carry cs (Suc i) c = carry ?cs i c" using c by (subst carry.simps) (simp add: Let_def)
      have ok: "Suc i < length cs" "chunk_ok ?p" "chunk_ok (cs ! Suc i)" "\<forall>j<length cs. chunk_ok (cs ! j)"
        using Suc.prems(1) by (auto simp: carry_ready_def)
      have full: "length (ck_indexes ?p) = ck_cap ?p" "0 < ck_cap ?p"
        using Suc.prems(1) chunk_okD(2) [OF ok(2)] by (simp_all add: carry_ready_def)
      then have ne: "ck_indexes ?p \<noteq> []" "length (ck_indexes ?p) = ck_cap ?p" by auto
      have q: "chunk_ok ?q" using Suc.prems(1) by (intro chunk_ok_simps) (auto simp: carry_ready_def)
      have "length (ck_indexes (drop_last ?p)) < ck_cap ?p" using full by simp
      then have "carry_ready ?cs i"
        using Suc.prems(1) ok q chunk_ok_simps(3) [OF ok(2)] by (auto simp: carry_ready_def nth_list_update)
      note IHs = Suc.IH [OF this c(1)]
      define R where "R = carry ?cs i c"
      have nth: "?cs ! j = (if j = i then drop_last ?p else if j = Suc i then ?q else cs ! j)" if "j < length cs" for j
        using that ok(1) by (simp add: nth_list_update)
      have IH: "length R = length cs" "concat (map ck_entries R) = concat (map ck_entries ?cs)"
        "R ! c = (if c < i then drop_last (?cs ! c) else ?cs ! c)"
        "\<And>j. j < length cs \<Longrightarrow> j < c \<or> i < j \<Longrightarrow> R ! j = ?cs ! j"
        "\<And>j. j < length cs \<Longrightarrow> chunk_ok (R ! j) \<and> ck_cap (R ! j) = ck_cap (?cs ! j)"
        "\<And>j. j < length cs \<Longrightarrow> j \<noteq> c \<Longrightarrow>
          length (ck_indexes (R ! j)) = length (ck_indexes (?cs ! j)) + (if j = i then 1 else 0)"
        using IHs unfolding R_def [symmetric] length_list_update by blast+
      have "concat (map ck_entries ?cs) = concat (map ck_entries cs)"
        using carry_step_entries [OF ok(1,2) ne(1)] .
      moreover have "R ! c = drop_last (cs ! c)" using IH(3) nth [of c] c ok(1) by (cases "c = i") auto
      moreover have "length (ck_indexes (R ! j)) = length (ck_indexes (cs ! j)) + (if j = Suc i then 1 else 0)"
        if "j < length cs" "j \<noteq> c" for j
        using IH(6) [OF that] nth [OF that(1)] ne full(2) by auto
      moreover have "R ! j = cs ! j" if "j < length cs" "j < c \<or> Suc i < j" for j
        using IH(4) [of j] nth [of j] that c by auto
      moreover have "ck_cap (R ! j) = ck_cap (cs ! j)" if "j < length cs" for j
        using IH(5) [OF that] nth [OF that] by auto
      ultimately show ?thesis unfolding step R_def [symmetric] using IH(1,2,5) c(2) by simp
    qed
  qed
  then show "length (carry cs i c) = length cs"
    and "concat (map ck_entries (carry cs i c)) = concat (map ck_entries cs)"
    and "carry cs i c ! c = (if c < i then drop_last (cs ! c) else cs ! c)"
    and "j < length cs \<Longrightarrow> j < c \<or> i < j \<Longrightarrow> carry cs i c ! j = cs ! j"
    and "j < length cs \<Longrightarrow> chunk_ok (carry cs i c ! j) \<and> ck_cap (carry cs i c ! j) = ck_cap (cs ! j)"
    and "j < length cs \<Longrightarrow> j \<noteq> c \<Longrightarrow>
      length (ck_indexes (carry cs i c ! j)) = length (ck_indexes (cs ! j)) + (if j = i then 1 else 0)"
    by blast+
qed


text \<open>What \<open>tail\<close> leaves: the same entries, and room in the chunk at the cursor.\<close>

lemma tail_correct:
  assumes "wf_set s" and t_def: "t = tail al s"
  shows "carry_ready (st_chunks t) (st_cursor t)"
    and "\<exists>more. st_chunks t = st_chunks s @ more \<and> concat (map ck_entries more) = []"
    and "st_cursor s \<le> st_cursor t" "st_count t = st_count s"
    and "\<And>i. i < length (st_chunks t) \<Longrightarrow> st_cursor t < i \<Longrightarrow> ck_indexes (st_chunks t ! i) = []"
proof -
  let ?new = "\<lambda>n. \<lparr>ck_indexes = [], ck_refs = [], ck_cap = n\<rparr> :: 'a chunk"
  have new: "chunk_ok (?new n)" "ck_entries (?new n) = []" if "0 < n" for n
    using that by (simp_all add: chunk_ok_def ck_entries_def)
  have facts: "carry_ready (st_chunks t) (st_cursor t)
    \<and> (\<exists>more. st_chunks t = st_chunks s @ more \<and> concat (map ck_entries more) = [])
    \<and> st_cursor s \<le> st_cursor t \<and> st_count t = st_count s
    \<and> (\<forall>i<length (st_chunks t). st_cursor t < i \<longrightarrow> ck_indexes (st_chunks t ! i) = [])"
  proof (cases "st_chunks s = []")
    case True
    then have "st_cursor s = 0" using assms by (simp add: wf_set_def)
    then show ?thesis using True new [of 128]
      by (simp add: t_def tail_def grow_def addChunk_def Let_def carry_ready_def)
  next
    case False
    let ?cs = "st_chunks s" and ?k = "st_cursor s"
    let ?n = "nat (min (int (ck_cap (last ?cs) * 2)) maxChunk)"
    have wf: "layout ?cs ?k" "?k < length ?cs" using assms False by (simp_all add: wf_set_def)
    have ok: "\<forall>i<length ?cs. chunk_ok (?cs ! i)" using wf(1) by (simp add: layout_def)
    have k: "length (ck_indexes (?cs ! ?k)) \<le> ck_cap (?cs ! ?k)" using ok wf(2) by (simp add: chunk_okD)
    have "chunk_ok (last ?cs)" using ok False by (simp add: last_conv_nth)
    then have n: "0 < ?n" by (simp add: chunk_ok_def maxChunk_def)
    show ?thesis
    proof (cases "length (ck_indexes (?cs ! ?k)) = ck_cap (?cs ! ?k)")
      case room: False
      then have "t = s" using False by (simp add: t_def tail_def Let_def)
      then show ?thesis using wf ok room k by (auto simp: carry_ready_def layout_def)
    next
      case full: True
      show ?thesis
      proof (cases "?k + 1 = length ?cs")
        case True
        then have t: "st_chunks t = ?cs @ [?new ?n]" "st_cursor t = ?k + 1" "st_count t = st_count s"
          using full False by (simp_all add: t_def tail_def grow_def addChunk_def Let_def)
        have "length (ck_indexes (?cs ! j)) = ck_cap (?cs ! j)" if "j < Suc ?k" for j
          using that wf full by (cases "j = ?k") (auto simp: layout_def)
        moreover have "?k = length ?cs - 1" using True by simp
        ultimately show ?thesis using t ok n new [OF n] True
          by (auto simp: carry_ready_def nth_append less_Suc_eq_le)
      next
        case next_chunk: False
        then have t: "st_chunks t = ?cs" "st_cursor t = ?k + 1" "st_count t = st_count s"
          using full False by (simp_all add: t_def tail_def Let_def)
        have "ck_indexes (?cs ! Suc ?k) = []" "0 < ck_cap (?cs ! Suc ?k)"
          using wf next_chunk by (auto simp: layout_def chunk_ok_def)
        moreover have "length (ck_indexes (?cs ! j)) = ck_cap (?cs ! j)" if "j < Suc ?k" for j
          using that wf full by (cases "j = ?k") (auto simp: layout_def)
        ultimately show ?thesis using t ok wf next_chunk by (auto simp: carry_ready_def layout_def)
      qed
    qed
  qed
  then show "carry_ready (st_chunks t) (st_cursor t)"
    and "\<exists>more. st_chunks t = st_chunks s @ more \<and> concat (map ck_entries more) = []"
    and "st_cursor s \<le> st_cursor t" "st_count t = st_count s"
    and "\<And>i. i < length (st_chunks t) \<Longrightarrow> st_cursor t < i \<Longrightarrow> ck_indexes (st_chunks t ! i) = []"
    by blast+
qed

text \<open>The position a search returns splits the entries at the key.\<close>

definition entries_before :: "'a chunk list \<Rightarrow> nat \<Rightarrow> nat \<Rightarrow> (u32 \<times> 'a) list" where
  "entries_before cs c i = concat (map ck_entries (take c cs)) @ take i (ck_entries (cs ! c))"

definition entries_from :: "'a chunk list \<Rightarrow> nat \<Rightarrow> nat \<Rightarrow> (u32 \<times> 'a) list" where
  "entries_from cs c i = drop i (ck_entries (cs ! c)) @ concat (map ck_entries (drop (Suc c) cs))"

lemma entries_at: "c < length cs \<Longrightarrow> concat (map ck_entries cs) = entries_before cs c i @ entries_from cs c i"
  by (simp add: concat_split [of c] entries_before_def entries_from_def)


lemma sorted_concat_less:
  assumes "sorted_wrt (<) (concat xss)" "i < j" "j < length xss" "x \<in> set (xss ! i)" "y \<in> set (xss ! j)"
  shows "x < (y :: 'k :: linorder)"
proof -
  have "concat xss = concat (take j xss) @ xss ! j @ concat (drop (Suc j) xss)"
    using concat_split [OF assms(3), of id] by simp
  moreover have "xss ! i \<in> set (take j xss)" using assms(2,3) by (auto simp: in_set_conv_nth)
  then have "x \<in> set (concat (take j xss))" using assms(4) by auto
  ultimately show ?thesis using assms(1,5) by (auto simp: sorted_wrt_append)
qed

lemma set_concat_take: "c \<le> length cs \<Longrightarrow> x \<in> set (concat (map f (take c cs))) \<longleftrightarrow> (\<exists>j<c. x \<in> set (f (cs ! j)))"
  by (fastforce simp: in_set_conv_nth [of _ "take c cs"])

lemma set_concat_drop: "x \<in> set (concat (map f (drop c cs))) \<longleftrightarrow> (\<exists>j\<ge>c. j < length cs \<and> x \<in> set (f (cs ! j)))"
proof
  assume "x \<in> set (concat (map f (drop c cs)))"
  then obtain k where "k < length cs - c" "x \<in> set (f (cs ! (c + k)))"
    by (auto simp: in_set_conv_nth [of _ "drop c cs"])
  then show "\<exists>j\<ge>c. j < length cs \<and> x \<in> set (f (cs ! j))" by (intro exI [of _ "c + k"]) auto
next
  assume "\<exists>j\<ge>c. j < length cs \<and> x \<in> set (f (cs ! j))"
  then obtain j where j: "c \<le> j" "j < length cs" "x \<in> set (f (cs ! j))" by blast
  have "drop c cs ! (j - c) \<in> set (drop c cs)" using j by (intro nth_mem) simp
  then have "cs ! j \<in> set (drop c cs)" using j by simp
  then show "x \<in> set (concat (map f (drop c cs)))" using j(3) by auto
qed

lemma empty_after:
  assumes "\<And>i. i < length cs \<Longrightarrow> k < i \<Longrightarrow> ck_indexes (cs ! i) = []"
  shows "concat (map ck_entries (drop (Suc k) cs)) = []"
proof -
  have "x \<notin> set (concat (map ck_entries (drop (Suc k) cs)))" for x
    unfolding set_concat_drop using assms by (auto simp: ck_entries_def)
  then show ?thesis by (metis list.set_intros(1) neq_Nil_conv)
qed

lemma sorted_le_last: "sorted xs \<Longrightarrow> x \<in> set xs \<Longrightarrow> x \<le> last xs"
  by (induction xs) auto

lemma wf_setD:
  assumes "wf_set s" "st_count s \<noteq> 0"
  shows "st_cursor s < length (st_chunks s)"
    and "i \<le> st_cursor s \<Longrightarrow> ck_indexes (st_chunks s ! i) \<noteq> []"
    and "i < length (st_chunks s) \<Longrightarrow> chunk_ok (st_chunks s ! i)"
    and "i < length (st_chunks s) \<Longrightarrow> st_cursor s < i \<Longrightarrow> ck_indexes (st_chunks s ! i) = []"
    and "i < length (st_chunks s) \<Longrightarrow> sorted_wrt (<) (ck_indexes (st_chunks s ! i))"
    and "i < j \<Longrightarrow> j < length (st_chunks s) \<Longrightarrow> x \<in> set (ck_indexes (st_chunks s ! i))
      \<Longrightarrow> y \<in> set (ck_indexes (st_chunks s ! j)) \<Longrightarrow> x < y"
proof -
  let ?cs = "st_chunks s" and ?k = "st_cursor s"
  have ne: "?cs \<noteq> []" using assms by (auto simp: wf_set_def entries_def)
  then show k: "?k < length ?cs" using assms(1) by (simp add: wf_set_def)
  have ok: "chunk_ok (?cs ! i)" if "i < length ?cs" for i using assms(1) that by (simp add: wf_set_def layout_def)
  then show "i < length ?cs \<Longrightarrow> chunk_ok (?cs ! i)" by blast
  show "i < length ?cs \<Longrightarrow> ?k < i \<Longrightarrow> ck_indexes (?cs ! i) = []" using assms(1) by (simp add: wf_set_def layout_def)
  show "ck_indexes (?cs ! i) \<noteq> []" if "i \<le> ?k"
  proof (cases "i = ?k")
    case True
    then show ?thesis using assms by (simp add: wf_set_def)
  next
    case False
    then have "length (ck_indexes (?cs ! i)) = ck_cap (?cs ! i)" "0 < ck_cap (?cs ! i)"
      using that k assms(1) chunk_okD(2) [OF ok, of i] by (simp_all add: wf_set_def layout_def)
    then show ?thesis by auto
  qed
  have "map fst (entries s) = concat (map (\<lambda>ck. map fst (ck_entries ck)) ?cs)"
    by (simp add: entries_def map_concat comp_def)
  also have "map (\<lambda>ck. map fst (ck_entries ck)) ?cs = map ck_indexes ?cs"
    using ok by (auto simp: in_set_conv_nth)
  finally have sorted: "sorted_wrt (<) (concat (map ck_indexes ?cs))" using assms(1) by (simp add: wf_set_def)
  show "sorted_wrt (<) (ck_indexes (?cs ! i))" if "i < length ?cs"
    using sorted concat_split [OF that, of ck_indexes] by (simp add: sorted_wrt_append)
  show "x < y" if "i < j" "j < length ?cs" "x \<in> set (ck_indexes (?cs ! i))" "y \<in> set (ck_indexes (?cs ! j))"
    using sorted_concat_less [OF sorted that(1), of x y] that by simp
qed

lemma find_correct:
  assumes "wf_set s" "st_count s \<noteq> 0" "find s key = (c, i)"
  shows "c \<le> st_cursor s" "i \<le> length (ck_indexes (st_chunks s ! c))"
    and "c < st_cursor s \<Longrightarrow> i < length (ck_indexes (st_chunks s ! c))"
    and "x \<in> set (entries_before (st_chunks s) c i) \<Longrightarrow> fst x < key"
    and "x \<in> set (entries_from (st_chunks s) c i) \<Longrightarrow> key \<le> fst x"
proof -
  let ?cs = "st_chunks s" and ?k = "st_cursor s"
  note wf = wf_setD [OF assms(1,2)]
  let ?idx = "\<lambda>i. ck_indexes (?cs ! i)"
  let ?f = "\<lambda>i. key \<le> last (?idx i)"
  have c_def: "c = (if key < hd (?idx ?k) then sort_search ?k ?f else ?k)"
    using assms(3) by (auto simp: find_def Let_def)
  have i_def: "i = sort_search (length (?idx c)) (\<lambda>i. key \<le> ?idx c ! i)"
    using assms(3) unfolding find_def Let_def c_def by simp
  have last_le: "x \<le> last (?idx j)" if "x \<in> set (?idx j)" "j < length ?cs" for x j
    using wf(5) [OF that(2)] that(1) by (intro sorted_le_last strict_sorted_imp_sorted)
  have hd_le: "hd (?idx j) \<le> x" if "x \<in> set (?idx j)" "j < length ?cs" for x j
    using wf(5) [OF that(2)] that(1) by (cases "?idx j") auto
  have mono: "?f b" if "a \<le> b" "b < ?k" "?f a" for a b
  proof (cases "a = b")
    case False
    then have "last (?idx a) < last (?idx b)" using that wf(1,2) by (intro wf(6) [of a b]) auto
    then show ?thesis using that(3) by simp
  qed (use that in simp)
  have c: "c \<le> ?k \<and> (\<forall>j<c. \<forall>x\<in>set (?idx j). x < key) \<and> (c < ?k \<longrightarrow> key \<le> last (?idx c))"
  proof (cases "key < hd (?idx ?k)")
    case True
    have ss: "sort_search ?k ?f \<le> ?k" "\<And>a. a < sort_search ?k ?f \<Longrightarrow> \<not> ?f a"
      "sort_search ?k ?f < ?k \<Longrightarrow> ?f (sort_search ?k ?f)"
      using sort_search_mono [of ?k ?f] mono by blast+
    have "x < key" if "j < c" "x \<in> set (?idx j)" for j x
      using ss(1,2) that True last_le [of x j] wf(1) unfolding c_def by (force simp: not_le)
    then show ?thesis using ss True unfolding c_def by auto
  next
    case False
    have "x < key" if "j < ?k" "x \<in> set (?idx j)" for j x
      using wf(6) [OF that(1) wf(1) that(2), of "hd (?idx ?k)"] wf(2) [of ?k] False by (simp add: not_less)
    then show ?thesis using False by (simp add: c_def)
  qed
  then have cl: "c < length ?cs" using wf(1) by simp
  then show "c \<le> ?k" using c by blast
  note srt = sorted_nth_le_iff [OF _ i_def [symmetric]]
  have sc: "sorted (?idx c)" using wf(5) [OF cl] by (rule strict_sorted_imp_sorted)
  show il: "i \<le> length (?idx c)" by (rule srt(1) [OF sc])
  show "i < length (?idx c)" if "c < ?k"
  proof (rule ccontr)
    assume "\<not> i < length (?idx c)"
    then have "last (?idx c) < key"
      using srt(2) [OF sc, of "length (?idx c) - 1"] wf(2) [of c] that il by (simp add: last_conv_nth)
    then show False using c that by auto
  qed
  have fsts: "fst ` set (ck_entries (?cs ! j)) = set (?idx j)" if "j < length ?cs" for j
    using map_fst_ck_entries [OF wf(3) [OF that]] by (metis list.set_map)
  have nth: "fst (ck_entries (?cs ! c) ! j) = ?idx c ! j" if "j < length (?idx c)" for j
    using that wf(3) [OF cl] by (simp add: ck_entries_def chunk_ok_def)
  have elen: "length (ck_entries (?cs ! c)) = length (?idx c)" using wf(3) [OF cl] by (rule length_ck_entries)
  show "fst x < key" if x: "x \<in> set (entries_before ?cs c i)"
  proof -
    have "x \<in> set (take i (ck_entries (?cs ! c))) \<or> (\<exists>j<c. x \<in> set (ck_entries (?cs ! j)))"
      using x cl set_concat_take [of c ?cs x ck_entries] by (auto simp: entries_before_def)
    then show ?thesis
    proof (elim disjE exE conjE)
      assume "x \<in> set (take i (ck_entries (?cs ! c)))"
      then obtain j where "j < i" "j < length (?idx c)" "x = ck_entries (?cs ! c) ! j"
        using elen by (auto simp: in_set_conv_nth)
      then show ?thesis using srt(2) [OF sc] nth by simp
    next
      fix j assume "j < c" "x \<in> set (ck_entries (?cs ! j))"
      then have "fst x \<in> set (?idx j)" using fsts [of j] cl by auto
      then show ?thesis using c \<open>j < c\<close> by blast
    qed
  qed
  show "key \<le> fst x" if x: "x \<in> set (entries_from ?cs c i)"
  proof -
    have "x \<in> set (drop i (ck_entries (?cs ! c))) \<or> (\<exists>j>c. j < length ?cs \<and> x \<in> set (ck_entries (?cs ! j)))"
      using x set_concat_drop [of x ck_entries "Suc c" ?cs] by (auto simp: entries_from_def Suc_le_eq)
    then show ?thesis
    proof (elim disjE exE conjE)
      assume "x \<in> set (drop i (ck_entries (?cs ! c)))"
      then obtain j where "i \<le> j" "j < length (?idx c)" "x = ck_entries (?cs ! c) ! j"
        using elen by (auto simp: in_set_conv_nth) (metis add.commute le_add2 less_diff_conv)
      then show ?thesis using srt(3) [OF sc] nth by simp
    next
      fix j assume j: "c < j" "j < length ?cs" "x \<in> set (ck_entries (?cs ! j))"
      then have fx: "fst x \<in> set (?idx j)" using fsts [of j] by auto
      then have "j \<le> ?k" using wf(4) [of j] j(2) by (cases "j \<le> ?k") auto
      then have "key \<le> last (?idx c)" "last (?idx c) < fst x"
        using c j fx wf(2) [of c] wf(6) [OF j(1,2) _ fx] by auto
      then show ?thesis by simp
    qed
  qed
qed


section \<open>Lookup and update\<close>

abbreviation set_map :: "'a scannerSet \<Rightarrow> u32 \<rightharpoonup> 'a" where
  "set_map s \<equiv> map_of (entries s)"

lemma Lookup_abs:
  assumes "wf_set s" "0 \<le> idx"
  shows "Lookup s idx = set_map s (of_int idx)"
proof (cases "st_count s = 0")
  case True
  then show ?thesis using assms(1) by (simp add: Lookup_def wf_set_def)
next
  case False
  let ?key = "of_int idx :: u32" and ?cs = "st_chunks s"
  obtain c i where f: "find s ?key = (c, i)" by (cases "find s ?key")
  note wf = wf_setD [OF assms(1) False] and fc = find_correct [OF assms(1) False f]
  have c: "c < length ?cs" using fc(1) wf(1) by simp
  have ent: "entries s = entries_before ?cs c i @ entries_from ?cs c i"
    using entries_at [OF c] by (simp add: entries_def)
  have absent: "map_of (entries_before ?cs c i) ?key = None"
    using fc(4) by (force simp: map_of_eq_None_iff)
  have elen: "length (ck_entries (?cs ! c)) = length (ck_indexes (?cs ! c))" using wf(3) [OF c] by (rule length_ck_entries)
  have dist: "distinct (map fst (entries s))" using assms(1) by (simp add: wf_set_def strict_sorted_iff)
  show ?thesis
  proof (cases "i < length (ck_indexes (?cs ! c))")
    case True
    have e: "ck_entries (?cs ! c) ! i = (ck_indexes (?cs ! c) ! i, ck_refs (?cs ! c) ! i)"
      using True wf(3) [OF c] by (simp add: ck_entries_def chunk_ok_def)
    then obtain rest where rest: "entries_from ?cs c i = (ck_indexes (?cs ! c) ! i, ck_refs (?cs ! c) ! i) # rest"
      using True elen by (simp add: entries_from_def Cons_nth_drop_Suc [symmetric])
    have "sorted_wrt (<) (map fst (entries_from ?cs c i))"
      using assms(1) ent by (simp add: wf_set_def sorted_wrt_append)
    then have "map_of rest ?key = None" if "ck_indexes (?cs ! c) ! i \<noteq> ?key"
      using fc(5) [of "(ck_indexes (?cs ! c) ! i, ck_refs (?cs ! c) ! i)"] that rest
      by (force simp: map_of_eq_None_iff)
    then show ?thesis using assms(2) False True f absent rest ent
      by (auto simp: Lookup_def Let_def map_add_def)
  next
    case end_pos: False
    then have "c = st_cursor s" using fc(1,3) by (cases "c < st_cursor s") auto
    then have "concat (map ck_entries (drop (Suc c) ?cs)) = []"
      using wf(4) by (intro empty_after) simp
    then have "entries_from ?cs c i = []" using end_pos elen by (simp add: entries_from_def)
    then show ?thesis using assms(2) False f absent ent end_pos fc(2) by (simp add: Lookup_def Let_def)
  qed
qed

lemma sorted_insert:
  assumes "sorted_wrt (<) (map fst (L @ R))" "\<And>x. x \<in> set L \<Longrightarrow> fst x < key" "\<And>x. x \<in> set R \<Longrightarrow> key < fst x"
  shows "sorted_wrt (<) (map fst (L @ (key, ref) # R))"
    "map_of (L @ (key, ref) # R) = (map_of (L @ R))((key :: 'k :: linorder) \<mapsto> ref)"
proof -
  show "sorted_wrt (<) (map fst (L @ (key, ref) # R))"
    using assms by (auto simp: sorted_wrt_append)
  have "map_of L key = None" using assms(2) by (force simp: map_of_eq_None_iff)
  then show "map_of (L @ (key, ref) # R) = (map_of (L @ R))(key \<mapsto> ref)"
    by (auto simp: fun_eq_iff map_add_def split: option.splits)
qed

text \<open>The three branches of \<open>Upsert\<close>: append at the end, overwrite, insert in the middle.\<close>

lemma Upsert_append:
  assumes "wf_set s" "0 \<le> idx"
    and "st_count s = 0 \<or> last (ck_indexes (st_chunks s ! st_cursor s)) < of_int idx"
  shows "wf_set (fst (Upsert al s idx ref)) \<and> set_map (fst (Upsert al s idx ref)) = (set_map s)(of_int idx \<mapsto> ref)"
proof -
  let ?key = "of_int idx :: u32"
  define t where "t = tail al s"
  note tl = tail_correct [OF assms(1) t_def]
  let ?cs = "st_chunks t" and ?k = "st_cursor t"
  define cs where "cs = ?cs[?k := append_entry ?key ref (?cs ! ?k)]"
  have u: "fst (Upsert al s idx ref) = t\<lparr>st_chunks := cs, st_count := st_count t + 1\<rparr>"
    using assms(2,3) by (simp add: Upsert_def Let_def t_def cs_def)
  have k: "?k < length ?cs" "chunk_ok (?cs ! ?k)" "length (ck_indexes (?cs ! ?k)) < ck_cap (?cs ! ?k)"
    using tl(1) by (auto simp: carry_ready_def)
  have after: "concat (map ck_entries (drop (Suc ?k) ?cs)) = []"
    by (rule empty_after) (rule tl(5))
  have ent_t: "concat (map ck_entries ?cs) = entries s"
    using tl(2) by (auto simp: entries_def)
  have "concat (map ck_entries cs) = concat (map ck_entries (take ?k ?cs)) @ (ck_entries (?cs ! ?k) @ [(?key, ref)])"
    using k concat_split [of ?k cs ck_entries] after by (simp add: cs_def)
  also have "\<dots> = entries s @ [(?key, ref)]"
    using concat_split [OF k(1), of ck_entries] after ent_t by simp
  finally have ent: "concat (map ck_entries cs) = entries s @ [(?key, ref)]" .
  have less: "fst x < ?key" if x: "x \<in> set (entries s)" for x
  proof (cases "st_count s = 0")
    case True
    then show ?thesis using assms(1) x by (simp add: wf_set_def)
  next
    case False
    note wf = wf_setD [OF assms(1) False]
    obtain j where j: "j < length (st_chunks s)" "x \<in> set (ck_entries (st_chunks s ! j))"
      using x set_concat_drop [of x ck_entries 0 "st_chunks s"] unfolding entries_def by auto
    then have fx: "fst x \<in> set (ck_indexes (st_chunks s ! j))"
      using map_fst_ck_entries [OF wf(3) [OF j(1)]] by (metis image_eqI list.set_map)
    have "fst x \<le> last (ck_indexes (st_chunks s ! st_cursor s))"
    proof (cases j "st_cursor s" rule: linorder_cases)
      case less
      then show ?thesis using wf(6) [OF less wf(1) fx] wf(2) [of "st_cursor s"] by (simp add: less_imp_le)
    next
      case equal
      then show ?thesis using sorted_le_last [OF strict_sorted_imp_sorted [OF wf(5) [OF j(1)]] fx] by simp
    next
      case greater
      then show ?thesis using wf(4) [OF j(1)] fx by simp
    qed
    then show ?thesis using assms(3) False by auto
  qed
  note ins = sorted_insert [of "entries s" "[]" ?key ref]
  have "layout cs ?k"
    using tl(1,5) k chunk_ok_simps(2) [OF k(2,3)]
    by (auto simp: layout_def carry_ready_def cs_def nth_list_update)
  moreover have "ck_indexes (cs ! ?k) \<noteq> []" using k by (simp add: cs_def append_entry_def)
  ultimately show ?thesis
    unfolding u using ent ins less assms(1) tl(4) k(1)
    by (auto simp: wf_set_def entries_def cs_def)
qed


lemma find_inside:
  assumes "wf_set s" "st_count s \<noteq> 0" "find s key = (c, pos)"
    and "\<not> last (ck_indexes (st_chunks s ! st_cursor s)) < key"
  shows "c < length (st_chunks s)" "pos < length (ck_indexes (st_chunks s ! c))"
    "entries s = entries_before (st_chunks s) c pos @ entries_from (st_chunks s) c pos"
    "\<exists>rest. entries_from (st_chunks s) c pos
      = (ck_indexes (st_chunks s ! c) ! pos, ck_refs (st_chunks s ! c) ! pos) # rest"
proof -
  let ?cs = "st_chunks s"
  note wf = wf_setD [OF assms(1,2)] and fc = find_correct [OF assms(1-3)]
  show c: "c < length ?cs" using fc(1) wf(1) by simp
  then show ent: "entries s = entries_before ?cs c pos @ entries_from ?cs c pos"
    using entries_at by (simp add: entries_def)
  have elen: "length (ck_entries (?cs ! c)) = length (ck_indexes (?cs ! c))" using wf(3) [OF c] by (rule length_ck_entries)
  show p: "pos < length (ck_indexes (?cs ! c))"
  proof (cases "c < st_cursor s")
    case False
    then have ceq: "c = st_cursor s" using fc(1) by simp
    show ?thesis
    proof (rule ccontr)
      assume "\<not> pos < length (ck_indexes (?cs ! c))"
      then have "entries_before ?cs c pos = concat (map ck_entries (take c ?cs)) @ ck_entries (?cs ! c)"
        using elen by (simp add: entries_before_def)
      moreover have "last (ck_indexes (?cs ! c)) \<in> fst ` set (ck_entries (?cs ! c))"
        using wf(2) [of c] ceq map_fst_ck_entries [OF wf(3) [OF c]] by (metis last_in_set list.set_map order_refl)
      ultimately show False using fc(4) assms(4) ceq by force
    qed
  qed (rule fc(3))
  have "ck_entries (?cs ! c) ! pos = (ck_indexes (?cs ! c) ! pos, ck_refs (?cs ! c) ! pos)"
    using p wf(3) [OF c] by (simp add: ck_entries_def chunk_ok_def)
  then show "\<exists>rest. entries_from ?cs c pos = (ck_indexes (?cs ! c) ! pos, ck_refs (?cs ! c) ! pos) # rest"
    using p elen by (simp add: entries_from_def Cons_nth_drop_Suc [symmetric])
qed

lemma Upsert_overwrite:
  assumes "wf_set s" "0 \<le> idx" "st_count s \<noteq> 0" "find s (of_int idx) = (c, pos)"
    and "\<not> last (ck_indexes (st_chunks s ! st_cursor s)) < of_int idx"
    and "ck_indexes (st_chunks s ! c) ! pos = of_int idx"
  shows "wf_set (fst (Upsert al s idx ref)) \<and> set_map (fst (Upsert al s idx ref)) = (set_map s)(of_int idx \<mapsto> ref)"
proof -
  let ?cs = "st_chunks s" and ?key = "of_int idx :: u32"
  let ?sel = "?cs ! c"
  let ?new = "?sel\<lparr>ck_refs := (ck_refs ?sel)[pos := ref]\<rparr>"
  note fi = find_inside [OF assms(1,3,4,5)] and fc = find_correct [OF assms(1,3,4)]
  have u: "fst (Upsert al s idx ref) = s\<lparr>st_chunks := ?cs[c := ?new]\<rparr>"
    using assms(2-6) by (simp add: Upsert_def Let_def)
  have ok: "chunk_ok ?sel" using wf_setD(3) [OF assms(1,3) fi(1)] .
  obtain rest where rest: "entries_from ?cs c pos = (?key, ck_refs ?sel ! pos) # rest"
    using fi(4) assms(6) by auto
  have "ck_entries ?new = (ck_entries ?sel)[pos := (?key, ref)]"
    using assms(6) by (simp add: ck_entries_def update_zip) (metis list_update_id)
  also have "\<dots> = take pos (ck_entries ?sel) @ (?key, ref) # drop (Suc pos) (ck_entries ?sel)"
    using fi(2) length_ck_entries [OF ok] by (simp add: upd_conv_take_nth_drop)
  finally have "entries (s\<lparr>st_chunks := ?cs[c := ?new]\<rparr>) = entries_before ?cs c pos @ (?key, ref) # rest"
    using fi(1,2) rest concat_split [of c "?cs[c := ?new]" ck_entries] length_ck_entries [OF ok]
    by (simp add: entries_def entries_before_def entries_from_def Cons_nth_drop_Suc [symmetric])
  moreover have "entries s = entries_before ?cs c pos @ (?key, ck_refs ?sel ! pos) # rest" using fi(3) rest by simp
  moreover have "map_of (entries_before ?cs c pos) ?key = None"
    using fc(4) by (force simp: map_of_eq_None_iff)
  moreover have "layout (?cs[c := ?new]) (st_cursor s)"
    using assms(1) ok fi(1) by (auto simp: wf_set_def layout_def nth_list_update chunk_ok_def)
  moreover have "ck_indexes (?cs[c := ?new] ! j) = ck_indexes (?cs ! j)" for j
    using fi(1) by (cases "j = c") auto
  ultimately show ?thesis unfolding u using assms(1,3)
    by (auto simp: wf_set_def fun_eq_iff map_add_def split: option.splits)
qed

lemma Upsert_middle:
  assumes "wf_set s" "0 \<le> idx" "st_count s \<noteq> 0" "find s (of_int idx) = (c, pos)"
    and "\<not> last (ck_indexes (st_chunks s ! st_cursor s)) < of_int idx"
    and "ck_indexes (st_chunks s ! c) ! pos \<noteq> of_int idx"
  shows "wf_set (fst (Upsert al s idx ref)) \<and> set_map (fst (Upsert al s idx ref)) = (set_map s)(of_int idx \<mapsto> ref)"
proof -
  let ?cs = "st_chunks s" and ?key = "of_int idx :: u32"
  note fi = find_inside [OF assms(1,3,4,5)] and fc = find_correct [OF assms(1,3,4)] and wf = wf_setD [OF assms(1,3)]
  define t where "t = tail al s"
  note tl = tail_correct [OF assms(1) t_def]
  let ?ts = "st_chunks t" and ?k = "st_cursor t"
  define cr where "cr = carry ?ts ?k c"
  define res where "res = cr[c := insert_entry pos ?key ref (cr ! c)]"
  have u: "fst (Upsert al s idx ref) = t\<lparr>st_chunks := res, st_count := st_count t + 1\<rparr>"
    using assms(2-6) by (simp add: Upsert_def Let_def t_def cr_def res_def)
  have ck: "c \<le> ?k" using fc(1) tl(3) by simp
  note cc = carry_correct [OF tl(1) ck, folded cr_def]
  obtain more where more: "?ts = ?cs @ more" "concat (map ck_entries more) = []" using tl(2) by blast
  have k: "?k < length ?ts" "length (ck_indexes (?ts ! ?k)) < ck_cap (?ts ! ?k)" using tl(1) by (auto simp: carry_ready_def)
  have c: "c < length ?ts" "?ts ! c = ?cs ! c" using fi(1) more by (simp_all add: nth_append)
  have okc: "chunk_ok (cr ! c)" "ck_cap (cr ! c) = ck_cap (?cs ! c)" using cc(5) [OF c(1)] c(2) by auto
  have lenc: "length (ck_indexes (cr ! c)) < ck_cap (cr ! c)" "pos \<le> length (ck_indexes (cr ! c))"
    using cc(3) okc(2) k fi(2) c(2) ck chunk_okD [OF wf(3) [OF fi(1)]] by (auto split: if_splits)
  have before: "entries_before cr c pos = entries_before ?cs c pos"
  proof -
    have "take c cr = take c ?cs"
      using cc(1,4) fi(1) c(1) more by (auto intro!: nth_equalityI simp: nth_append)
    moreover have "take pos (ck_entries (cr ! c)) = take pos (ck_entries (?cs ! c))"
    proof (cases "c < ?k")
      case True
      have "ck_entries (drop_last (?cs ! c)) @ [(last (ck_indexes (?cs ! c)), last (ck_refs (?cs ! c)))] = ck_entries (?cs ! c)"
        using fi(2) by (intro ck_entries_drop_last [OF wf(3) [OF fi(1)]]) auto
      moreover have "length (ck_entries (drop_last (?cs ! c))) \<ge> pos"
        using length_ck_entries [OF okc(1)] lenc(2) cc(3) True c(2) by simp
      ultimately have "take pos (ck_entries (?cs ! c)) = take pos (ck_entries (drop_last (?cs ! c)))"
        by (metis append_Nil2 diff_is_0_eq take0 take_append)
      then show ?thesis using cc(3) True c(2) by simp
    qed (use cc(3) c(2) in simp)
    ultimately show ?thesis by (simp add: entries_before_def)
  qed
  have "concat (map ck_entries cr) = entries s" using cc(2) more by (simp add: entries_def)
  then have from_eq: "entries_from cr c pos = entries_from ?cs c pos"
    using entries_at [of c cr pos] c(1) cc(1) before fi(3) by simp
  have "concat (map ck_entries res) = entries_before cr c pos @ (?key, ref) # entries_from cr c pos"
    using c(1) cc(1) concat_split [of c res ck_entries] ck_entries_insert [OF okc(1)]
    by (simp add: res_def entries_before_def entries_from_def)
  then have ent: "concat (map ck_entries res) = entries_before ?cs c pos @ (?key, ref) # entries_from ?cs c pos"
    using before from_eq by simp
  have sorted: "sorted_wrt (<) (map fst (entries_before ?cs c pos @ entries_from ?cs c pos))"
    using assms(1) fi(3) by (simp add: wf_set_def)
  have greater: "?key < fst x" if "x \<in> set (entries_from ?cs c pos)" for x
  proof -
    obtain rest where rest: "entries_from ?cs c pos = (ck_indexes (?cs ! c) ! pos, ck_refs (?cs ! c) ! pos) # rest"
      using fi(4) by blast
    have "?key < ck_indexes (?cs ! c) ! pos"
      using fc(5) [of "(ck_indexes (?cs ! c) ! pos, ck_refs (?cs ! c) ! pos)"] rest assms(6) by simp
    moreover have "ck_indexes (?cs ! c) ! pos \<le> fst x" using that sorted rest by (auto simp: sorted_wrt_append)
    ultimately show ?thesis by simp
  qed
  note ins = sorted_insert [OF sorted fc(4) greater, of ref]
  have "layout res ?k"
  proof -
    have "length (ck_indexes (res ! i)) = ck_cap (res ! i)" if "i < length res" "i < ?k" for i
    proof (cases "i = c")
      case True
      have "length (ck_indexes (?ts ! c)) = ck_cap (?ts ! c)" "0 < ck_cap (?ts ! c)"
        using tl(1) True that(2) c chunk_okD(2) [OF wf(3) [OF fi(1)]] by (auto simp: carry_ready_def)
      then show ?thesis using True that cc(1,3) c okc(2) by (simp add: res_def)
    next
      case False
      then show ?thesis using that cc(1,5,6) tl(1) by (simp add: res_def carry_ready_def)
    qed
    moreover have "chunk_ok (res ! i)" if "i < length res" for i
      using that c(1) cc(1,5) chunk_ok_simps(4) [OF okc(1) lenc] by (auto simp: res_def nth_list_update)
    moreover have "ck_indexes (res ! i) = []" if "i < length res" "?k < i" for i
      using that ck cc(1,4) tl(5) by (simp add: res_def)
    ultimately show ?thesis by (simp add: layout_def)
  qed
  moreover have "ck_indexes (res ! ?k) \<noteq> []"
  proof (cases "?k = c")
    case True
    then show ?thesis using c(1) cc(1) by (simp add: res_def insert_entry_def)
  next
    case False
    then have "length (ck_indexes (res ! ?k)) > 0" using cc(6) [OF k(1)] by (simp add: res_def)
    then show ?thesis by auto
  qed
  moreover have "length res = length ?ts" using cc(1) by (simp add: res_def)
  ultimately show ?thesis
    unfolding u using ent ins assms(1) tl(4) k(1) fi(3)
    by (auto simp: wf_set_def entries_def)
qed

lemma Upsert_correct:
  assumes "wf_set s" "0 \<le> idx"
  shows "wf_set (fst (Upsert al s idx ref))" "set_map (fst (Upsert al s idx ref)) = (set_map s)(of_int idx \<mapsto> ref)"
proof -
  obtain c pos where "find s (of_int idx) = (c, pos)" by (cases "find s (of_int idx)")
  then have "wf_set (fst (Upsert al s idx ref)) \<and> set_map (fst (Upsert al s idx ref)) = (set_map s)(of_int idx \<mapsto> ref)"
    using Upsert_append [OF assms] Upsert_overwrite [OF assms] Upsert_middle [OF assms] by blast
  then show "wf_set (fst (Upsert al s idx ref))"
    "set_map (fst (Upsert al s idx ref)) = (set_map s)(of_int idx \<mapsto> ref)" by blast+
qed


section \<open>Capacity and reset\<close>

lemma layout_append_new:
  assumes "layout cs k" "0 < n"
  shows "layout (cs @ [\<lparr>ck_indexes = [], ck_refs = [], ck_cap = n\<rparr>]) k \<or> length cs < k"
  using assms by (auto simp: layout_def nth_append chunk_ok_def less_Suc_eq)

lemma addChunk_wf:
  assumes "wf_set s" "0 < n"
  shows "wf_set (addChunk al n s)" "entries (addChunk al n s) = entries s"
proof -
  have k: "st_cursor s \<le> length (st_chunks s)" "\<not> length (st_chunks s) < st_cursor s"
    using assms(1) by (auto simp: wf_set_def split: if_splits)
  show e: "entries (addChunk al n s) = entries s"
    by (simp add: addChunk_def entries_def Let_def ck_entries_def)
  have "st_count s \<noteq> 0 \<Longrightarrow> st_cursor s < length (st_chunks s)"
    by (rule wf_setD(1) [OF assms(1)])
  then show "wf_set (addChunk al n s)"
    using assms(1) e layout_append_new [OF _ assms(2), of "st_chunks s" "st_cursor s"] k
    by (auto simp: wf_set_def addChunk_def Let_def nth_append split: if_splits)
qed

lemma ensure_loop_wf:
  "wf_set s \<Longrightarrow> wf_set (ensure_loop al n capacity s) \<and> entries (ensure_loop al n capacity s) = entries s"
proof (induction al n capacity s rule: ensure_loop.induct)
  case (1 al n capacity s)
  show ?case
  proof (cases "capacity < n")
    case True
    then have "0 < nat (min (int (n - capacity)) maxChunk)" by (simp add: maxChunk_def)
    note a = addChunk_wf [OF "1.prems" this, of al]
    show ?thesis using "1.IH" [OF True refl a(1)] a(2) True
      by (simp add: ensure_loop.simps [of al n capacity] Let_def)
  qed (use 1 in \<open>simp add: ensure_loop.simps\<close>)
qed

lemma ensure_loop_slots:
  "Slots s = capacity \<Longrightarrow> n \<le> Slots (ensure_loop al n capacity s) \<and> capacity \<le> Slots (ensure_loop al n capacity s)"
proof (induction al n capacity s rule: ensure_loop.induct)
  case (1 al n capacity s)
  show ?case
  proof (cases "capacity < n")
    case True
    let ?m = "nat (min (int (n - capacity)) maxChunk)"
    have "Slots (addChunk al ?m s) = capacity + ?m"
      using "1.prems" by (simp add: Slots_def addChunk_def Let_def)
    then show ?thesis using "1.IH" [OF True refl] True
      by (auto simp: ensure_loop.simps [of al n capacity] Let_def)
  qed (use 1 in \<open>simp add: ensure_loop.simps\<close>)
qed

lemma EnsureCapacity_correct:
  assumes "wf_set s"
  shows "wf_set (fst (EnsureCapacity al s n))" "entries (fst (EnsureCapacity al s n)) = entries s"
    "n \<le> int (Slots (fst (EnsureCapacity al s n)))"
  using ensure_loop_wf [OF assms, of al "nat n" "Slots s"] ensure_loop_slots [of s "Slots s" "nat n" al] assms
  by (auto simp: EnsureCapacity_def Let_def)

lemma Reset_set_correct:
  assumes "wf_set s"
  shows "wf_set (Reset_set s)" "entries (Reset_set s) = []"
proof -
  show e: "entries (Reset_set s) = []" by (simp add: Reset_set_def entries_def ck_entries_def)
  show "wf_set (Reset_set s)"
    using assms e by (auto simp: wf_set_def Reset_set_def layout_def chunk_ok_def)
qed

section \<open>The set as a map\<close>

text \<open>
  The contract of a keyed store: an update is seen by lookups of its key and by no other, and every
  operation keeps the invariant the laws rest on. The client lemma says what a sequence of updates
  leaves: the last value written under each key.
\<close>

locale keyed_store =
  fixes inv :: "'s \<Rightarrow> bool" and lookup :: "'s \<Rightarrow> 'k \<Rightarrow> 'v option" and update :: "'s \<Rightarrow> 'k \<Rightarrow> 'v \<Rightarrow> 's"
  assumes inv_update: "inv s \<Longrightarrow> inv (update s k v)"
    and lookup_update: "inv s \<Longrightarrow> lookup (update s k v) k' = (if k' = k then Some v else lookup s k')"
begin

lemma fold_inv: "inv s \<Longrightarrow> inv (fold (\<lambda>(k, v) s. update s k v) kvs s)"
  by (induction kvs arbitrary: s) (auto simp: inv_update)

lemma last_write_wins:
  "inv s \<Longrightarrow> lookup (fold (\<lambda>(k, v) s. update s k v) kvs s) k
    = (case map_of (rev kvs) k of None \<Rightarrow> lookup s k | Some v \<Rightarrow> Some v)"
proof (induction kvs rule: rev_induct)
  case (snoc kv kvs)
  obtain k' v where kv: "kv = (k', v)" by (cases kv)
  show ?case using snoc lookup_update [OF fold_inv [OF snoc.prems, of kvs]] by (simp add: kv)
qed simp

end

lemma uint_of_int [simp]: "of_int (uint (k :: u32)) = k"
  by simp

interpretation checkpoint_set: keyed_store wf_set "\<lambda>s (k :: u32). Lookup s (uint k)"
  "\<lambda>s k v. fst (Upsert al s (uint k) v)"
  by unfold_locales (simp_all add: Upsert_correct Lookup_abs)

section \<open>Bytes\<close>

text \<open>What the byte counter stands for: every chunk's two arrays and the directory.\<close>

definition bytes_ok :: "allocator \<Rightarrow> 'a scannerSet \<Rightarrow> bool" where
  "bytes_ok al s \<longleftrightarrow> length (st_chunks s) \<le> st_dircap s \<and>
     st_bytes s = int (Slots s) * (4 + int (al_ref al)) + int (st_dircap s) * int (al_chunk al)"

text \<open>\<^verbatim>\<open>append\<close> to a full slice gives a larger one.\<close>

definition append_grows :: "allocator \<Rightarrow> bool" where
  "append_grows al \<longleftrightarrow> (\<forall>n. n < al_grow al n)"

lemma addChunk_bytes:
  assumes "append_grows al" "bytes_ok al s"
  shows "bytes_ok al (addChunk al n s)"
proof -
  have "st_dircap s < al_grow al (st_dircap s)" using assms(1) by (simp add: append_grows_def)
  then show ?thesis using assms(2)
    by (auto simp: bytes_ok_def addChunk_def Let_def Slots_def algebra_simps)
qed

lemma tail_bytes: "append_grows al \<Longrightarrow> bytes_ok al s \<Longrightarrow> bytes_ok al (tail al s)"
proof -
  assume a: "append_grows al" "bytes_ok al s"
  have cur: "bytes_ok al (t\<lparr>st_cursor := k\<rparr>) \<longleftrightarrow> bytes_ok al t" for t :: "'a scannerSet" and k
    by (simp add: bytes_ok_def Slots_def)
  have g: "bytes_ok al (grow al t)" if "bytes_ok al t" for t :: "'a scannerSet"
    using addChunk_bytes [OF a(1) that] by (simp add: grow_def)
  show ?thesis using a(2) g cur by (simp add: tail_def Let_def)
qed

lemma bytes_ok_chunks:
  assumes "map ck_cap cs = map ck_cap (st_chunks s)"
  shows "bytes_ok al (s\<lparr>st_chunks := cs, st_count := n\<rparr>) \<longleftrightarrow> bytes_ok al s"
    "bytes_ok al (s\<lparr>st_chunks := cs\<rparr>) \<longleftrightarrow> bytes_ok al s"
  using assms map_eq_imp_length_eq [OF assms] by (simp_all add: bytes_ok_def Slots_def)

lemma map_cap_update: "ck_cap x = ck_cap (cs ! i) \<Longrightarrow> map ck_cap (cs[i := x]) = map ck_cap cs"
  by (metis list_update_id map_update)

lemma carry_caps: "map ck_cap (carry cs i c) = map ck_cap cs"
proof (induction cs i c rule: carry.induct)
  case (1 cs i c)
  show ?case
  proof (cases "i > c")
    case True
    let ?p = "cs ! (i - 1)"
    let ?q = "prepend_entry (last (ck_indexes ?p)) (last (ck_refs ?p)) (cs ! i)"
    have "cs[i := ?q] ! (i - 1) = ?p" using True by simp
    then have "map ck_cap (cs[i := ?q, i - 1 := drop_last ?p]) = map ck_cap cs"
      using map_cap_update [of "drop_last ?p" "cs[i := ?q]" "i - 1"] map_cap_update [of ?q cs i] by simp
    then show ?thesis using 1 [OF True refl] True by (subst carry.simps) (simp add: Let_def)
  qed (simp add: carry.simps)
qed

lemma Upsert_bytes:
  assumes "append_grows al" "bytes_ok al s"
  shows "bytes_ok al (fst (Upsert al s idx ref))" "snd (Upsert al s idx ref) = st_bytes (fst (Upsert al s idx ref)) - st_bytes s"
proof -
  note t = tail_bytes [OF assms]
  obtain c pos where f: "find s (of_int idx) = (c, pos)" by (cases "find s (of_int idx)")
  show "bytes_ok al (fst (Upsert al s idx ref))"
    using assms(2) t f by (auto simp: Upsert_def Let_def bytes_ok_chunks map_cap_update carry_caps)
  show "snd (Upsert al s idx ref) = st_bytes (fst (Upsert al s idx ref)) - st_bytes s"
    using f by (auto simp: Upsert_def Let_def)
qed

lemma EnsureCapacity_bytes:
  assumes "append_grows al" "bytes_ok al s"
  shows "bytes_ok al (fst (EnsureCapacity al s n))"
proof -
  have "bytes_ok al t \<Longrightarrow> bytes_ok al (ensure_loop al m capacity t)" for m capacity and t :: "'a scannerSet"
    using assms(1)
    by (induction al m capacity t rule: ensure_loop.induct)
      (subst ensure_loop.simps, simp add: Let_def addChunk_bytes)
  then show ?thesis using assms(2) by (simp add: EnsureCapacity_def Let_def)
qed

lemma Reset_set_bytes: "bytes_ok al s \<Longrightarrow> bytes_ok al (Reset_set s)"
  by (simp add: bytes_ok_def Reset_set_def Slots_def comp_def)


section \<open>Every history of the set\<close>

text \<open>The states a set goes through: it starts empty and changes by its operations only.\<close>

inductive set_reachable :: "allocator \<Rightarrow> 'a scannerSet \<Rightarrow> bool" for al where
  fresh: "set_reachable al empty_set"
| upsert: "set_reachable al s \<Longrightarrow> set_reachable al (fst (Upsert al s idx ref))"
| ensure: "set_reachable al s \<Longrightarrow> set_reachable al (fst (EnsureCapacity al s n))"
| reset: "set_reachable al s \<Longrightarrow> set_reachable al (Reset_set s)"

lemma wf_empty_set: "wf_set empty_set"
  by (simp add: wf_set_def empty_set_def layout_def entries_def)

lemma Upsert_negative [simp]: "idx < 0 \<Longrightarrow> Upsert al s idx ref = (s, 0)"
  by (simp add: Upsert_def)

lemma reachable_wf: "set_reachable al s \<Longrightarrow> wf_set s"
proof (induction rule: set_reachable.induct)
  case (upsert s idx ref)
  then show ?case by (cases "idx < 0") (simp_all add: Upsert_correct)
qed (simp_all add: wf_empty_set EnsureCapacity_correct Reset_set_correct)

text \<open>
  C35. Chunk invariant of the checkpoint set. In every state a set can reach, each chunk's two arrays
  have one length that never exceeds the capacity they were allocated with, so no append reallocates
  them; chunks before the cursor are full and chunks after it empty; node indexes ascend strictly
  across the chunks; and the count is the number of entries.
\<close>

theorem checkpoint_set_invariant:
  assumes "set_reachable al s"
  shows "(\<forall>ck\<in>set (st_chunks s). length (ck_indexes ck) = length (ck_refs ck) \<and> length (ck_indexes ck) \<le> ck_cap ck)
    \<and> (\<forall>i<length (st_chunks s).
        (i < st_cursor s \<longrightarrow> length (ck_indexes (st_chunks s ! i)) = ck_cap (st_chunks s ! i))
        \<and> (st_cursor s < i \<longrightarrow> ck_indexes (st_chunks s ! i) = []))
    \<and> sorted_wrt (<) (concat (map ck_indexes (st_chunks s)))
    \<and> st_count s = length (concat (map ck_indexes (st_chunks s)))"
proof -
  have wf: "wf_set s" using reachable_wf [OF assms] .
  have ok: "chunk_ok ck" if "ck \<in> set (st_chunks s)" for ck
    using wf that by (auto simp: wf_set_def layout_def in_set_conv_nth)
  then have "map (\<lambda>ck. map fst (ck_entries ck)) (st_chunks s) = map ck_indexes (st_chunks s)"
    by (intro map_cong) simp_all
  moreover have "map fst (entries s) = concat (map (\<lambda>ck. map fst (ck_entries ck)) (st_chunks s))"
    by (simp add: entries_def map_concat comp_def)
  ultimately have keys: "map fst (entries s) = concat (map ck_indexes (st_chunks s))" by metis
  then have "length (entries s) = length (concat (map ck_indexes (st_chunks s)))" by (metis length_map)
  moreover have "\<forall>ck\<in>set (st_chunks s). length (ck_indexes ck) = length (ck_refs ck) \<and> length (ck_indexes ck) \<le> ck_cap ck"
    using ok unfolding chunk_ok_def by blast
  ultimately show ?thesis using wf keys unfolding wf_set_def layout_def by metis
qed

definition demo_alloc :: allocator where
  "demo_alloc = \<lparr>al_ref = 16, al_chunk = 48, al_grow = (\<lambda>n. 2 * n + 1)\<rparr>"

definition demo_set :: "nat scannerSet" where
  "demo_set = fst (Upsert demo_alloc (fst (Upsert demo_alloc (fst (Upsert demo_alloc
     (fst (EnsureCapacity demo_alloc empty_set 2)) 9 90)) 4 40)) 7 70)"

lemma demo_set_reachable: "set_reachable demo_alloc demo_set"
  unfolding demo_set_def by (intro set_reachable.intros)

lemma demo_set_chunks: "map ck_indexes (st_chunks demo_set) = [[4, 7], [9]]"
  by code_simp

theorem checkpoint_set_invariant_witness:
  "set_reachable demo_alloc demo_set \<and> sorted_wrt (<) (concat (map ck_indexes (st_chunks demo_set)))
   \<and> map ck_indexes (st_chunks demo_set) = [[4, 7], [9]]"
  using checkpoint_set_invariant [OF demo_set_reachable] demo_set_reachable demo_set_chunks by blast

text \<open>The operations of a history, and what each does to the map a client has in mind.\<close>

datatype 'a setOp = DoUpsert int 'a | DoEnsure int | DoReset

fun run_op :: "allocator \<Rightarrow> 'a setOp \<Rightarrow> 'a scannerSet \<Rightarrow> 'a scannerSet" where
  "run_op al (DoUpsert idx ref) s = fst (Upsert al s idx ref)"
| "run_op al (DoEnsure n) s = fst (EnsureCapacity al s n)"
| "run_op al DoReset s = Reset_set s"

fun spec_op :: "'a setOp \<Rightarrow> (u32 \<rightharpoonup> 'a) \<Rightarrow> (u32 \<rightharpoonup> 'a)" where
  "spec_op (DoUpsert idx ref) m = (if idx < 0 then m else m(of_int idx \<mapsto> ref))"
| "spec_op (DoEnsure n) m = m"
| "spec_op DoReset m = Map.empty"

lemma run_op_refines:
  assumes "wf_set s"
  shows "wf_set (run_op al x s)" "set_map (run_op al x s) = spec_op x (set_map s)"
proof -
  have "wf_set (run_op al x s) \<and> set_map (run_op al x s) = spec_op x (set_map s)"
  proof (cases x)
    case (DoUpsert idx ref)
    then show ?thesis using Upsert_correct [OF assms, of idx al ref] assms by (cases "idx < 0") simp_all
  next
    case (DoEnsure n)
    then show ?thesis using EnsureCapacity_correct(1,2) [OF assms, of al n] by simp
  qed (simp add: Reset_set_correct assms)
  then show "wf_set (run_op al x s)" "set_map (run_op al x s) = spec_op x (set_map s)" by blast+
qed

lemma run_ops_refine:
  "wf_set s \<Longrightarrow> wf_set (fold (run_op al) ops s) \<and> set_map (fold (run_op al) ops s) = fold spec_op ops (set_map s)"
  by (induction ops arbitrary: s) (simp_all add: run_op_refines)

text \<open>
  C13. The checkpoint set refines a finite map: after any sequence of upserts, capacity requests and
  resets on an empty set, a lookup returns what the map built by the same sequence holds for the
  index (as the 32-bit key the set stores), and nothing for a negative index.
\<close>

theorem checkpoint_set_refines_map:
  "Lookup (fold (run_op al) ops empty_set) idx
   = (if idx < 0 then None else fold spec_op ops Map.empty (of_int idx))"
proof -
  have "entries (empty_set :: 'a scannerSet) = []" by (simp add: entries_def empty_set_def)
  then show ?thesis using run_ops_refine [OF wf_empty_set, of al ops] Lookup_abs [of "fold (run_op al) ops empty_set" idx]
    by (auto simp: Lookup_def)
qed

text \<open>
  C36. The byte count is exact: when \<^verbatim>\<open>append\<close> to a full directory yields a larger one, in every
  history the reported bytes are four plus the reference size per allocated slot and the size of a
  chunk header per directory slot, and each upsert returns the growth it caused.
\<close>

theorem checkpoint_set_bytes_exact:
  assumes "append_grows al" "s = fold (run_op al) ops empty_set"
  shows "st_bytes s = int (Slots s) * (4 + int (al_ref al)) + int (st_dircap s) * int (al_chunk al)
    \<and> snd (Upsert al s idx ref) = st_bytes (fst (Upsert al s idx ref)) - st_bytes s"
proof -
  have "bytes_ok al t \<Longrightarrow> bytes_ok al (fold (run_op al) ops t)" for t :: "'a scannerSet"
  proof (induction ops arbitrary: t)
    case (Cons x ops)
    have "bytes_ok al (run_op al x t)" using Cons.prems assms(1)
      by (cases x) (simp_all add: Upsert_bytes EnsureCapacity_bytes Reset_set_bytes)
    then show ?case using Cons.IH by simp
  qed simp
  then have "bytes_ok al s" by (simp add: assms(2) bytes_ok_def empty_set_def Slots_def)
  then show ?thesis using Upsert_bytes(2) [OF assms(1), of s] unfolding bytes_ok_def by blast
qed

theorem checkpoint_set_bytes_exact_witness:
  "append_grows demo_alloc \<and>
   st_bytes (fold (run_op demo_alloc) [DoEnsure 2, DoUpsert 9 (90 :: nat)] empty_set)
     = int (Slots (fold (run_op demo_alloc) [DoEnsure 2, DoUpsert 9 (90 :: nat)] empty_set)) * 20
       + int (st_dircap (fold (run_op demo_alloc) [DoEnsure 2, DoUpsert 9 (90 :: nat)] empty_set)) * 48"
proof -
  have g: "append_grows demo_alloc" by (simp add: append_grows_def demo_alloc_def)
  have a: "al_ref demo_alloc = 16" "al_chunk demo_alloc = 48" by (simp_all add: demo_alloc_def)
  show ?thesis using checkpoint_set_bytes_exact [OF g refl, of "[DoEnsure 2, DoUpsert 9 (90 :: nat)]" 0 0] g
    by (simp only: a) simp
qed

end
