(* ===== verification/Scanner_Checkpoints.thy ===== *)
theory Scanner_Checkpoints
  imports Scanner_State_Set
begin

text \<open>
  External-scanner checkpoints, \<^verbatim>\<open>internal/runtime/external_scanner_checkpoints.go\<close> with the
  snapshot storage of \<^verbatim>\<open>arena.go\<close> and the identity state of
  \<^verbatim>\<open>external_scanner_checkpoint_capability.go\<close>. An arena keeps serialized scanner states in byte
  slabs it shares with the field-source slices, and a sidecar set per node storage that maps a node
  to the references of the states before and after it. The lemmas show that a recorded checkpoint is
  read back byte for byte, that nothing recorded or allocated later disturbs it, that a parent
  receives the states of its first and last checkpointed child, and that a conflict of scanner
  identities is never forgotten.

  Arenas are addressed: \<open>arenas\<close> maps an address to its arena, and a node is the address of its
  owner with its place in that arena's node storage (the pointer arithmetic of
  \<^verbatim>\<open>nodeIndexInStorage\<close> finds that place).
\<close>

section \<open>Data\<close>

datatype arenaClass = arenaClassIncremental | arenaClassFull

record snapshotRef =
  sr_off :: u32
  sr_slab :: u16
  sr_len :: u16

record checkpointRef =
  cr_start :: snapshotRef
  cr_end :: snapshotRef

record fieldSourceSlab =
  fs_data :: bytes
  fs_used :: nat

text \<open>A scanner identity and the arena's fixed-size copy of one.\<close>

record identity =
  idn_Scanner :: bytes
  idn_Grammar :: bytes

record identityState =
  is_scanner :: bytes
  is_grammar :: bytes
  is_scannerLen :: u16
  is_grammarLen :: u16
  is_valid :: bool
  is_conflict :: bool

text \<open>
  The part of \<^verbatim>\<open>nodeArena\<close> the checkpoint code uses. \<open>ar_nodes\<close> is the length of the primary node
  array and \<open>ar_nodeSlabs\<close> the lengths of the overflow slabs.
\<close>

record arena =
  ar_class :: arenaClass
  ar_nodes :: nat
  ar_nodeSlabs :: "nat list"
  ar_slabs :: "fieldSourceSlab list"
  ar_slabCursor :: nat
  ar_last :: snapshotRef
  ar_payloadBytes :: u64
  ar_records :: u64
  ar_allocatedBytes :: int
  ar_nodeCheckpoints :: "checkpointRef scannerSet"
  ar_slabCheckpoints :: "checkpointRef scannerSet list"
  ar_identity :: identityState

type_synonym arenas = "nat \<Rightarrow> arena"

datatype place = InNodes nat | InSlab nat nat

record treeNode =
  nd_owner :: nat
  nd_place :: place

definition zero_ref :: snapshotRef where
  "zero_ref = \<lparr>sr_off = 0, sr_slab = 0, sr_len = 0\<rparr>"

section \<open>Snapshot storage\<close>

definition incrementalFieldSliceCap :: int where "incrementalFieldSliceCap = 2 * 1024"
definition fullFieldSliceCap :: int where "fullFieldSliceCap = 64 * 1024"

definition defaultFieldSliceCap :: "arenaClass \<Rightarrow> nat" where
  "defaultFieldSliceCap class = nat (if class = arenaClassIncremental then incrementalFieldSliceCap else fullFieldSliceCap)"

definition new_slab :: "nat \<Rightarrow> fieldSourceSlab" where
  "new_slab capacity = \<lparr>fs_data = replicate capacity 0, fs_used = 0\<rparr>"

text \<open>
  The search both allocators of the field-source slabs share: the first slab from the cursor on with
  room for \<open>n\<close> bytes, or a new one, which always has room. It returns the arena and the slab index.
\<close>

function find_room :: "arena \<Rightarrow> nat \<Rightarrow> nat \<Rightarrow> arena \<times> nat" where
  "find_room a i n =
     (if i < length (ar_slabs a) then
        (if length (fs_data (ar_slabs a ! i)) - fs_used (ar_slabs a ! i) < n then find_room a (i + 1) n else (a, i))
      else
        let capacity = max (defaultFieldSliceCap (ar_class a)) n in
        (a\<lparr>ar_slabs := ar_slabs a @ [new_slab capacity],
           ar_allocatedBytes := ar_allocatedBytes a + int capacity\<rparr>, length (ar_slabs a)))"
  by pat_completeness auto
termination
  by (relation "measure (\<lambda>(a, i, n). length (ar_slabs a) - i)") auto

declare find_room.simps [simp del]

definition first_slab :: "arena \<Rightarrow> arena" where
  "first_slab a =
     (if ar_slabs a = [] then
        a\<lparr>ar_slabs := [new_slab (defaultFieldSliceCap (ar_class a))],
          ar_allocatedBytes := ar_allocatedBytes a + int (defaultFieldSliceCap (ar_class a)), ar_slabCursor := 0\<rparr>
      else a)"

text \<open>Taking \<open>length src\<close> bytes of a slab with room and writing \<open>src\<close> there.\<close>

definition write_slab :: "fieldSourceSlab \<Rightarrow> bytes \<Rightarrow> fieldSourceSlab" where
  "write_slab slab src =
     slab\<lparr>fs_data := take (fs_used slab) (fs_data slab) @ src @ drop (fs_used slab + length src) (fs_data slab),
          fs_used := fs_used slab + length src\<rparr>"

definition take_bytes :: "arena \<Rightarrow> bytes \<Rightarrow> arena \<times> nat \<times> nat" where
  "take_bytes a src =
     (let a = first_slab a;
          cursor = (if ar_slabCursor a \<ge> length (ar_slabs a) then 0 else ar_slabCursor a);
          (a, i) = find_room a cursor (length src) in
      (a\<lparr>ar_slabs := (ar_slabs a)[i := write_slab (ar_slabs a ! i) src], ar_slabCursor := i\<rparr>,
       i, fs_used (ar_slabs a ! i)))"

definition allocExternalScannerSnapshotRef :: "arena \<Rightarrow> bytes \<Rightarrow> arena \<times> snapshotRef" where
  "allocExternalScannerSnapshotRef a src =
     (if src = [] then (a, zero_ref)
      else let (a, i, start) = take_bytes a src in
        (a\<lparr>ar_payloadBytes := ar_payloadBytes a + of_nat (length src)\<rparr>,
         \<lparr>sr_off = of_nat start, sr_slab = of_nat i, sr_len = of_nat (length src)\<rparr>))"

text \<open>The other client of the slabs: a cleared field-source slice of \<open>n\<close> bytes.\<close>

definition allocFieldSourceSlice :: "arena \<Rightarrow> nat \<Rightarrow> arena" where
  "allocFieldSourceSlice a n = (if n = 0 then a else fst (take_bytes a (replicate n 0)))"

definition externalScannerSnapshotRefValid :: "arena \<Rightarrow> snapshotRef \<Rightarrow> bool" where
  "externalScannerSnapshotRefValid a ref \<longleftrightarrow>
     sr_len ref \<noteq> 0 \<and> unat (sr_slab ref) < length (ar_slabs a) \<and>
     (let slab = ar_slabs a ! unat (sr_slab ref) in
      fs_used slab \<le> length (fs_data slab) \<and> unat (sr_off ref) \<le> fs_used slab \<and>
      unat (sr_off ref) + unat (sr_len ref) \<le> fs_used slab)"

definition externalScannerSnapshotBytes :: "arena \<Rightarrow> snapshotRef \<Rightarrow> bytes" where
  "externalScannerSnapshotBytes a ref =
     (if \<not> externalScannerSnapshotRefValid a ref then []
      else slice (fs_data (ar_slabs a ! unat (sr_slab ref))) (unat (sr_off ref)) (unat (sr_off ref) + unat (sr_len ref)))"

definition copyExternalScannerSnapshotRef :: "arena \<Rightarrow> bytes \<Rightarrow> arena \<times> snapshotRef" where
  "copyExternalScannerSnapshotRef a src =
     (if src = [] then (a, zero_ref)
      else if src = externalScannerSnapshotBytes a (ar_last a) then (a, ar_last a)
      else let (a, ref) = allocExternalScannerSnapshotRef a src in (a\<lparr>ar_last := ref\<rparr>, ref))"

section \<open>Checkpoints of nodes\<close>

definition externalScannerCheckpointRefComplete :: "checkpointRef \<Rightarrow> bool" where
  "externalScannerCheckpointRefComplete cp \<longleftrightarrow> sr_len (cr_start cp) \<noteq> 0 \<and> sr_len (cr_end cp) \<noteq> 0"

text \<open>
  \<^verbatim>\<open>externalScannerCheckpointSetForNode\<close>: the set of the node's storage (\<open>None\<close> the primary one) and
  the index in it; with \<open>create\<close> the list of slab sets is extended to reach it.
\<close>

definition set_for_node :: "arena \<Rightarrow> place \<Rightarrow> bool \<Rightarrow> (arena \<times> nat option \<times> nat) option" where
  "set_for_node a p create =
     (case p of
        InNodes idx \<Rightarrow> if idx < ar_nodes a then Some (a, None, idx) else None
      | InSlab i idx \<Rightarrow>
          if i < length (ar_nodeSlabs a) \<and> idx < ar_nodeSlabs a ! i then
            (if create then
               Some (a\<lparr>ar_slabCheckpoints := ar_slabCheckpoints a
                       @ replicate (i + 1 - length (ar_slabCheckpoints a)) empty_set\<rparr>, Some i, idx)
             else if i \<ge> length (ar_slabCheckpoints a) then None
             else Some (a, Some i, idx))
          else None)"

definition set_at :: "arena \<Rightarrow> nat option \<Rightarrow> checkpointRef scannerSet" where
  "set_at a w = (case w of None \<Rightarrow> ar_nodeCheckpoints a | Some i \<Rightarrow> ar_slabCheckpoints a ! i)"

definition put_set :: "arena \<Rightarrow> nat option \<Rightarrow> checkpointRef scannerSet \<Rightarrow> arena" where
  "put_set a w s =
     (case w of None \<Rightarrow> a\<lparr>ar_nodeCheckpoints := s\<rparr>
      | Some i \<Rightarrow> a\<lparr>ar_slabCheckpoints := (ar_slabCheckpoints a)[i := s]\<rparr>)"

definition setExternalScannerCheckpoint :: "allocator \<Rightarrow> arena \<Rightarrow> place \<Rightarrow> checkpointRef \<Rightarrow> arena \<times> bool" where
  "setExternalScannerCheckpoint al a p cp =
     (case set_for_node a p True of
        None \<Rightarrow> (a, False)
      | Some (a, w, idx) \<Rightarrow>
          let (s, growth) = Upsert al (set_at a w) (int idx) cp in
          ((put_set a w s)\<lparr>ar_allocatedBytes := ar_allocatedBytes a + growth\<rparr>, True))"

definition checkpointRefForPlace :: "arena \<Rightarrow> place \<Rightarrow> checkpointRef option" where
  "checkpointRefForPlace a p =
     (case set_for_node a p False of
        None \<Rightarrow> None
      | Some (a, w, idx) \<Rightarrow>
          case Lookup (set_at a w) (int idx) of
            None \<Rightarrow> None
          | Some cp \<Rightarrow>
              if externalScannerCheckpointRefComplete cp \<and> externalScannerSnapshotRefValid a (cr_start cp)
                 \<and> externalScannerSnapshotRefValid a (cr_end cp)
              then Some cp else None)"

definition externalScannerCheckpointRefForNode :: "arenas \<Rightarrow> treeNode \<Rightarrow> checkpointRef option" where
  "externalScannerCheckpointRefForNode h node = checkpointRefForPlace (h (nd_owner node)) (nd_place node)"

definition externalScannerCheckpointForNode :: "arenas \<Rightarrow> treeNode \<Rightarrow> (bytes \<times> bytes) option" where
  "externalScannerCheckpointForNode h node =
     (case externalScannerCheckpointRefForNode h node of
        None \<Rightarrow> None
      | Some cp \<Rightarrow> Some (externalScannerSnapshotBytes (h (nd_owner node)) (cr_start cp),
                         externalScannerSnapshotBytes (h (nd_owner node)) (cr_end cp)))"

text \<open>The references for a pair of states, sharing one when the states are equal.\<close>

definition copy_pair :: "arena \<Rightarrow> bytes \<Rightarrow> bytes \<Rightarrow> arena \<times> checkpointRef" where
  "copy_pair a start fin =
     (let (a, startRef) = copyExternalScannerSnapshotRef a start;
          (a, endRef) = (if start = fin then (a, startRef) else copyExternalScannerSnapshotRef a fin) in
      (a, \<lparr>cr_start = startRef, cr_end = endRef\<rparr>))"

definition recordExternalScannerLeafCheckpoint ::
    "allocator \<Rightarrow> arena \<Rightarrow> place \<Rightarrow> bytes \<Rightarrow> bytes \<Rightarrow> arena \<times> bool" where
  "recordExternalScannerLeafCheckpoint al a p start fin =
     (if start = [] \<or> fin = [] then (a, False)
      else
        let (a, cp) = copy_pair a start fin;
            (a, ok) = setExternalScannerCheckpoint al a p cp in
        (if ok then a\<lparr>ar_records := ar_records a + 1\<rparr> else a, ok))"

definition recordExternalScannerCompactCheckpoint :: "arena \<Rightarrow> bytes \<Rightarrow> bytes \<Rightarrow> arena \<times> checkpointRef" where
  "recordExternalScannerCompactCheckpoint a start fin =
     (if start = [] \<or> fin = [] then (a, \<lparr>cr_start = zero_ref, cr_end = zero_ref\<rparr>)
      else copy_pair a start fin)"

definition copyExternalScannerSnapshotRefBetweenArenas ::
    "arenas \<Rightarrow> nat \<Rightarrow> nat \<Rightarrow> snapshotRef \<Rightarrow> arenas \<times> snapshotRef" where
  "copyExternalScannerSnapshotRefBetweenArenas h src dst ref =
     (if sr_len ref = 0 then (h, zero_ref)
      else if src = dst then (h, ref)
      else let (a, r) = copyExternalScannerSnapshotRef (h dst) (externalScannerSnapshotBytes (h src) ref) in
        (h(dst := a), r))"

text \<open>The first child with a checkpoint.\<close>

fun first_checkpoint :: "arenas \<Rightarrow> treeNode list \<Rightarrow> (treeNode \<times> checkpointRef) option" where
  "first_checkpoint h [] = None"
| "first_checkpoint h (child # children) =
     (case externalScannerCheckpointRefForNode h child of
        None \<Rightarrow> first_checkpoint h children | Some cp \<Rightarrow> Some (child, cp))"

definition recordExternalScannerCheckpointForParent ::
    "allocator \<Rightarrow> arenas \<Rightarrow> treeNode \<Rightarrow> treeNode list \<Rightarrow> arenas \<times> bool" where
  "recordExternalScannerCheckpointForParent al h parent children =
     (if children = [] then (h, False)
      else
        let dst = nd_owner parent;
            (h, start) = (case first_checkpoint h children of
                None \<Rightarrow> (h, zero_ref)
              | Some (child, cp) \<Rightarrow> copyExternalScannerSnapshotRefBetweenArenas h (nd_owner child) dst (cr_start cp));
            (h, fin) = (case first_checkpoint h (rev children) of
                None \<Rightarrow> (h, zero_ref)
              | Some (child, cp) \<Rightarrow> copyExternalScannerSnapshotRefBetweenArenas h (nd_owner child) dst (cr_end cp)) in
        if sr_len start = 0 \<or> sr_len fin = 0 then (h, False)
        else
          let (a, ok) = setExternalScannerCheckpoint al (h dst) (nd_place parent) \<lparr>cr_start = start, cr_end = fin\<rparr> in
          (h(dst := (if ok then a\<lparr>ar_records := ar_records a + 1\<rparr> else a)), ok))"

section \<open>Identity\<close>

definition externalScannerCheckpointIdentityMaxBytes :: nat where
  "externalScannerCheckpointIdentityMaxBytes = 256"

definition identity_complete :: "identity \<Rightarrow> bool" where
  "identity_complete idn \<longleftrightarrow>
     0 < length (idn_Scanner idn) \<and> length (idn_Scanner idn) \<le> externalScannerCheckpointIdentityMaxBytes \<and>
     0 < length (idn_Grammar idn) \<and> length (idn_Grammar idn) \<le> externalScannerCheckpointIdentityMaxBytes"

definition zero_identity :: identityState where
  "zero_identity = \<lparr>is_scanner = replicate externalScannerCheckpointIdentityMaxBytes 0,
     is_grammar = replicate externalScannerCheckpointIdentityMaxBytes 0,
     is_scannerLen = 0, is_grammarLen = 0, is_valid = False, is_conflict = False\<rparr>"

text \<open>\<^verbatim>\<open>copy\<close> into a whole array.\<close>

definition copy_into :: "bytes \<Rightarrow> bytes \<Rightarrow> bytes" where
  "copy_into dst src = take (length dst) src @ drop (length src) dst"

definition identity_matches :: "identityState \<Rightarrow> identity \<Rightarrow> bool" where
  "identity_matches s idn \<longleftrightarrow>
     is_valid s \<and> \<not> is_conflict s \<and> identity_complete idn \<and>
     is_scannerLen s = of_nat (length (idn_Scanner idn)) \<and> is_grammarLen s = of_nat (length (idn_Grammar idn)) \<and>
     take (unat (is_scannerLen s)) (is_scanner s) = idn_Scanner idn \<and>
     take (unat (is_grammarLen s)) (is_grammar s) = idn_Grammar idn"

definition identity_set :: "identityState \<Rightarrow> identity \<Rightarrow> identityState \<times> bool" where
  "identity_set s idn =
     (if is_conflict s \<or> \<not> identity_complete idn then (s, False)
      else if is_valid s then
        (if identity_matches s idn then (s, True) else (s\<lparr>is_conflict := True\<rparr>, False))
      else
        (s\<lparr>is_scanner := copy_into (is_scanner s) (idn_Scanner idn), is_grammar := copy_into (is_grammar s) (idn_Grammar idn),
           is_scannerLen := of_nat (length (idn_Scanner idn)), is_grammarLen := of_nat (length (idn_Grammar idn)),
           is_valid := True\<rparr>, True))"

definition identity_inherit :: "identityState \<Rightarrow> identityState \<Rightarrow> identityState \<times> bool" where
  "identity_inherit s source =
     (if is_conflict s then (s, False)
      else if is_conflict source then (s\<lparr>is_conflict := True\<rparr>, False)
      else if \<not> is_valid source then (s, True)
      else if \<not> is_valid s then
        (s\<lparr>is_scanner := copy_into (is_scanner s) (take (unat (is_scannerLen source)) (is_scanner source)),
           is_grammar := copy_into (is_grammar s) (take (unat (is_grammarLen source)) (is_grammar source)),
           is_scannerLen := is_scannerLen source, is_grammarLen := is_grammarLen source, is_valid := True\<rparr>, True)
      else if is_scannerLen s = is_scannerLen source \<and> is_grammarLen s = is_grammarLen source
              \<and> take (unat (is_scannerLen s)) (is_scanner s) = take (unat (is_scannerLen source)) (is_scanner source)
              \<and> take (unat (is_grammarLen s)) (is_grammar s) = take (unat (is_grammarLen source)) (is_grammar source)
      then (s, True)
      else (s\<lparr>is_conflict := True\<rparr>, False))"

definition identity_bytesAllocated :: "identityState \<Rightarrow> int" where
  "identity_bytesAllocated s =
     (if \<not> is_valid s \<or> is_conflict s then 0 else uint (is_scannerLen s) + uint (is_grammarLen s))"

definition inheritExternalScannerCheckpointIdentity :: "arena \<Rightarrow> arena \<Rightarrow> arena \<times> bool" where
  "inheritExternalScannerCheckpointIdentity a source =
     (let (s, ok) = identity_inherit (ar_identity a) (ar_identity source) in
      (a\<lparr>ar_identity := s,
         ar_allocatedBytes := ar_allocatedBytes a + identity_bytesAllocated s - identity_bytesAllocated (ar_identity a)\<rparr>, ok))"

text \<open>
  The identity a language requires: \<open>None\<close> when its scanner provides none, else what the provider
  returns (\<open>None\<close> inside when it declines).
\<close>

definition externalScannerCheckpointIdentityMatches :: "arena \<Rightarrow> identity option option \<Rightarrow> bool" where
  "externalScannerCheckpointIdentityMatches a provided =
     (case provided of
        None \<Rightarrow> True
      | Some None \<Rightarrow> False
      | Some (Some idn) \<Rightarrow> identity_complete idn \<and> identity_matches (ar_identity a) idn)"

definition externalScannerLeafCheckpointIdentityMatches :: "arena \<Rightarrow> identity option option \<Rightarrow> bool" where
  "externalScannerLeafCheckpointIdentityMatches a provided =
     (let matching = (case provided of Some (Some idn) \<Rightarrow> identity_complete idn \<and> identity_matches (ar_identity a) idn | _ \<Rightarrow> False) in
      if is_valid (ar_identity a) \<or> is_conflict (ar_identity a) then matching
      else case provided of None \<Rightarrow> True | Some _ \<Rightarrow> matching)"

section \<open>Copies between arenas\<close>

definition cloneExternalScannerCheckpointRef ::
    "arenas \<Rightarrow> nat \<Rightarrow> nat \<Rightarrow> checkpointRef \<Rightarrow> (arenas \<times> checkpointRef) option" where
  "cloneExternalScannerCheckpointRef h src dst cp =
     (let start = externalScannerSnapshotBytes (h src) (cr_start cp);
          fin = externalScannerSnapshotBytes (h src) (cr_end cp) in
      if sr_len (cr_start cp) = 0 \<and> sr_len (cr_end cp) = 0 \<or> start = [] \<and> fin = [] then None
      else let (a, cp) = copy_pair (h dst) start fin in Some (h(dst := a), cp))"

definition copyExternalScannerCheckpointToNode ::
    "allocator \<Rightarrow> arenas \<Rightarrow> treeNode \<Rightarrow> treeNode \<Rightarrow> arenas \<times> bool" where
  "copyExternalScannerCheckpointToNode al h dst src =
     (let d = nd_owner dst;
          (a, ok) = inheritExternalScannerCheckpointIdentity (h d) (h (nd_owner src));
          h = h(d := a) in
      if \<not> ok then (h, False)
      else case externalScannerCheckpointRefForNode h src of
        None \<Rightarrow> (h, False)
      | Some cp \<Rightarrow>
          case (if d = nd_owner src then Some (h, cp) else cloneExternalScannerCheckpointRef h (nd_owner src) d cp) of
            None \<Rightarrow> (h, False)
          | Some (h, cp) \<Rightarrow>
              let (a, ok) = setExternalScannerCheckpoint al (h d) (nd_place dst) cp in
              (h(d := (if ok then a\<lparr>ar_records := ar_records a + 1\<rparr> else a)), ok))"


section \<open>Snapshots are kept\<close>

definition slabs_ok :: "arena \<Rightarrow> bool" where
  "slabs_ok a \<longleftrightarrow> (\<forall>slab\<in>set (ar_slabs a). fs_used slab \<le> length (fs_data slab))"

text \<open>
  The references are narrow: 16 bits of slab index, 32 of offset. \<open>slab_room k a\<close> says that slabs of
  the arena can be addressed, and \<open>k\<close> more.
\<close>

definition slab_room :: "int \<Rightarrow> arena \<Rightarrow> bool" where
  "slab_room k a \<longleftrightarrow> int (length (ar_slabs a)) + k \<le> 65536 \<and> (\<forall>slab\<in>set (ar_slabs a). int (length (fs_data slab)) < 4294967296)"

text \<open>\<open>b\<close> has every snapshot of \<open>a\<close>, and the same nodes, checkpoint sets and identity.\<close>

definition keeps :: "arena \<Rightarrow> arena \<Rightarrow> bool" where
  "keeps a b \<longleftrightarrow>
     (\<forall>r. externalScannerSnapshotRefValid a r \<longrightarrow>
        externalScannerSnapshotRefValid b r \<and> externalScannerSnapshotBytes b r = externalScannerSnapshotBytes a r)
     \<and> ar_nodes b = ar_nodes a \<and> ar_nodeSlabs b = ar_nodeSlabs a
     \<and> ar_nodeCheckpoints b = ar_nodeCheckpoints a \<and> ar_slabCheckpoints b = ar_slabCheckpoints a
     \<and> ar_identity b = ar_identity a"

lemma keeps_trans: "keeps a b \<Longrightarrow> keeps b c \<Longrightarrow> keeps a c"
  by (simp add: keeps_def)

lemma keeps_refl [simp]: "keeps a a"
  by (simp add: keeps_def)

lemma snapshot_cong:
  assumes "ar_slabs b = ar_slabs a"
  shows "externalScannerSnapshotRefValid b = externalScannerSnapshotRefValid a"
    "externalScannerSnapshotBytes b = externalScannerSnapshotBytes a"
  using assms by (auto simp: fun_eq_iff externalScannerSnapshotRefValid_def externalScannerSnapshotBytes_def)

lemma valid_slabs_append:
  assumes "externalScannerSnapshotRefValid a r" "ar_slabs b = ar_slabs a @ new"
  shows "externalScannerSnapshotRefValid b r \<and> externalScannerSnapshotBytes b r = externalScannerSnapshotBytes a r"
  using assms by (auto simp: externalScannerSnapshotRefValid_def externalScannerSnapshotBytes_def nth_append Let_def)

lemma find_room_correct:
  assumes "find_room a i n = (b, j)" "slabs_ok a"
  shows "j < length (ar_slabs b)" "n \<le> length (fs_data (ar_slabs b ! j)) - fs_used (ar_slabs b ! j)"
    "\<exists>new. ar_slabs b = ar_slabs a @ new \<and> (new = [] \<or> new = [new_slab (max (defaultFieldSliceCap (ar_class a)) n)])"
    "b = a\<lparr>ar_slabs := ar_slabs b, ar_allocatedBytes := ar_allocatedBytes b\<rparr>"
proof -
  have "j < length (ar_slabs b) \<and> n \<le> length (fs_data (ar_slabs b ! j)) - fs_used (ar_slabs b ! j)
    \<and> (\<exists>new. ar_slabs b = ar_slabs a @ new \<and> (new = [] \<or> new = [new_slab (max (defaultFieldSliceCap (ar_class a)) n)]))
    \<and> b = a\<lparr>ar_slabs := ar_slabs b, ar_allocatedBytes := ar_allocatedBytes b\<rparr>"
    using assms
  proof (induction a i n rule: find_room.induct)
    case (1 a i n)
    show ?case
    proof (cases "i < length (ar_slabs a) \<and> length (fs_data (ar_slabs a ! i)) - fs_used (ar_slabs a ! i) < n")
      case True
      then have "find_room a (i + 1) n = (b, j)" using "1.prems"(1) by (simp add: find_room.simps [of a i n])
      then show ?thesis using "1.IH" "1.prems"(2) True by blast
    next
      case False
      then show ?thesis using "1.prems"(1)
        by (subst (asm) find_room.simps) (auto simp: Let_def new_slab_def split: if_splits)
    qed
  qed
  then show "j < length (ar_slabs b)" "n \<le> length (fs_data (ar_slabs b ! j)) - fs_used (ar_slabs b ! j)"
    "\<exists>new. ar_slabs b = ar_slabs a @ new \<and> (new = [] \<or> new = [new_slab (max (defaultFieldSliceCap (ar_class a)) n)])"
    "b = a\<lparr>ar_slabs := ar_slabs b, ar_allocatedBytes := ar_allocatedBytes b\<rparr>" by blast+
qed


lemma first_slab_correct:
  assumes "slabs_ok a"
  shows "slabs_ok (first_slab a)" "ar_slabs (first_slab a) \<noteq> []"
    "\<exists>new. ar_slabs (first_slab a) = ar_slabs a @ new \<and>
       (new = [] \<or> ar_slabs a = [] \<and> new = [new_slab (defaultFieldSliceCap (ar_class a))])"
  using assms by (auto simp: first_slab_def slabs_ok_def new_slab_def)

lemma first_slab_fields [simp]:
  "ar_class (first_slab a) = ar_class a" "ar_nodes (first_slab a) = ar_nodes a"
  "ar_nodeSlabs (first_slab a) = ar_nodeSlabs a" "ar_nodeCheckpoints (first_slab a) = ar_nodeCheckpoints a"
  "ar_slabCheckpoints (first_slab a) = ar_slabCheckpoints a" "ar_identity (first_slab a) = ar_identity a"
  "ar_last (first_slab a) = ar_last a"
  by (simp_all add: first_slab_def)

lemma defaultFieldSliceCap_le: "defaultFieldSliceCap c \<le> 65536"
  by (simp add: defaultFieldSliceCap_def incrementalFieldSliceCap_def fullFieldSliceCap_def)

text \<open>Taking bytes: they hold what was written, and every earlier snapshot is kept.\<close>

lemma take_bytes_correct:
  assumes "slabs_ok a" "take_bytes a src = (b, i, start)"
  shows "i < length (ar_slabs b)" "start + length src = fs_used (ar_slabs b ! i)"
    "slice (fs_data (ar_slabs b ! i)) start (start + length src) = src"
    "slabs_ok b" "keeps a b" "ar_last b = ar_last a"
    and "slab_room (k + 1) a \<Longrightarrow> k \<le> 65534 \<Longrightarrow> length src < 4294967296 \<Longrightarrow> slab_room k b"
proof -
  let ?f = "first_slab a"
  let ?n = "length src"
  note fs = first_slab_correct [OF assms(1)]
  obtain c where c: "find_room ?f (if ar_slabCursor ?f \<ge> length (ar_slabs ?f) then 0 else ar_slabCursor ?f) ?n = (c, i)"
    and b: "b = c\<lparr>ar_slabs := (ar_slabs c)[i := write_slab (ar_slabs c ! i) src], ar_slabCursor := i\<rparr>"
    and st: "start = fs_used (ar_slabs c ! i)"
    using assms(2) by (auto simp: take_bytes_def Let_def split: prod.splits)
  note fr = find_room_correct [OF c fs(1)]
  obtain new where new: "ar_slabs c = ar_slabs ?f @ new"
    "new = [] \<or> new = [new_slab (max (defaultFieldSliceCap (ar_class a)) ?n)]" using fr(3) by auto
  obtain new1 where new1: "ar_slabs ?f = ar_slabs a @ new1"
    "new1 = [] \<or> ar_slabs a = [] \<and> new1 = [new_slab (defaultFieldSliceCap (ar_class a))]" using fs(3) by blast
  have app: "ar_slabs c = ar_slabs a @ (new1 @ new)" using new(1) new1(1) by simp
  have c_ok: "\<forall>slab\<in>set (ar_slabs c). fs_used slab \<le> length (fs_data slab)"
    using fs(1) new by (auto simp: slabs_ok_def new_slab_def)
  let ?s = "ar_slabs c ! i"
  have us: "fs_used ?s \<le> length (fs_data ?s)" using c_ok fr(1) by simp
  have room: "start + ?n \<le> length (fs_data ?s)" using fr(2) us st by linarith
  have bi: "ar_slabs b ! i = write_slab ?s src" "length (ar_slabs b) = length (ar_slabs c)"
    using fr(1) b by simp_all
  show "i < length (ar_slabs b)" using fr(1) bi by simp
  show "start + ?n = fs_used (ar_slabs b ! i)" by (simp add: bi st write_slab_def)
  show "slice (fs_data (ar_slabs b ! i)) start (start + ?n) = src"
    using room us by (simp add: bi st write_slab_def slice_def)
  have len: "length (fs_data (write_slab ?s src)) = length (fs_data ?s)"
    using room st by (simp add: write_slab_def)
  have "fs_used (ar_slabs b ! j) \<le> length (fs_data (ar_slabs b ! j))" if "j < length (ar_slabs b)" for j
  proof (cases "j = i")
    case True
    then show ?thesis using room st len by (simp add: bi write_slab_def)
  next
    case False
    then show ?thesis using c_ok that by (simp add: b)
  qed
  then show "slabs_ok b" by (metis in_set_conv_nth slabs_ok_def)
  have fields: "ar_nodes b = ar_nodes a" "ar_nodeSlabs b = ar_nodeSlabs a" "ar_nodeCheckpoints b = ar_nodeCheckpoints a"
    "ar_slabCheckpoints b = ar_slabCheckpoints a" "ar_identity b = ar_identity a" "ar_last b = ar_last a"
    by (simp_all add: b, (subst fr(4), simp)+)
  show "ar_last b = ar_last a" by (rule fields)
  have "externalScannerSnapshotRefValid b r \<and> externalScannerSnapshotBytes b r = externalScannerSnapshotBytes a r"
    if "externalScannerSnapshotRefValid a r" for r
  proof -
    have v: "externalScannerSnapshotRefValid c r" "externalScannerSnapshotBytes c r = externalScannerSnapshotBytes a r"
      using valid_slabs_append [OF that app] by auto
    have "externalScannerSnapshotRefValid b r \<and> externalScannerSnapshotBytes b r = externalScannerSnapshotBytes c r"
    proof (cases "unat (sr_slab r) = i")
      case True
      have "unat (sr_off r) + unat (sr_len r) \<le> fs_used ?s"
        using v(1) True by (simp add: externalScannerSnapshotRefValid_def Let_def)
      then have "slice (fs_data (write_slab ?s src)) (unat (sr_off r)) (unat (sr_off r) + unat (sr_len r))
          = slice (fs_data ?s) (unat (sr_off r)) (unat (sr_off r) + unat (sr_len r))"
        using us by (simp add: write_slab_def slice_def drop_append take_append drop_take)
      moreover have "externalScannerSnapshotRefValid b r"
        using v(1) True bi len room st by (auto simp: externalScannerSnapshotRefValid_def Let_def write_slab_def)
      ultimately show ?thesis using v(1) True bi by (simp add: externalScannerSnapshotBytes_def)
    next
      case False
      then have "ar_slabs b ! unat (sr_slab r) = ar_slabs c ! unat (sr_slab r)" by (simp add: b)
      then show ?thesis using v(1) bi(2)
        by (simp add: externalScannerSnapshotBytes_def externalScannerSnapshotRefValid_def Let_def)
    qed
    then show ?thesis using v(2) by simp
  qed
  then show "keeps a b" using fields by (simp add: keeps_def)
  show "slab_room k b" if r: "slab_room (k + 1) a" "k \<le> 65534" "?n < 4294967296"
  proof -
    have "int (length (ar_slabs b)) + k \<le> 65536"
      using r(1,2) bi(2) app new(2) new1(2) by (auto simp: slab_room_def)
    moreover have "length (fs_data slab) < 4294967296" if "slab \<in> set (ar_slabs c)" for slab
      using that r(1,3) app new(2) new1(2) defaultFieldSliceCap_le [of "ar_class a"]
      by (auto simp: slab_room_def new_slab_def)
    then have "\<forall>slab\<in>set (ar_slabs b). length (fs_data slab) < 4294967296"
      using len nth_mem [OF fr(1)] b set_update_subset_insert [of "ar_slabs c" i] by fastforce
    ultimately show ?thesis by (simp add: slab_room_def)
  qed
qed


lemma alloc_correct:
  assumes "slabs_ok a" "src \<noteq> []" "length src < 65536" "slab_room (k + 1) a" "0 \<le> k" "k \<le> 65534"
    "allocExternalScannerSnapshotRef a src = (b, r)"
  shows "externalScannerSnapshotRefValid b r" "externalScannerSnapshotBytes b r = src"
    "slabs_ok b" "keeps a b" "slab_room k b"
proof -
  obtain c i start where t: "take_bytes a src = (c, i, start)" by (cases "take_bytes a src")
  note tb = take_bytes_correct [OF assms(1) t]
  have br: "b = c\<lparr>ar_payloadBytes := ar_payloadBytes c + of_nat (length src)\<rparr>"
    "r = \<lparr>sr_off = of_nat start, sr_slab = of_nat i, sr_len = of_nat (length src)\<rparr>"
    using assms(2,7) t by (auto simp: allocExternalScannerSnapshotRef_def)
  have same: "ar_slabs b = ar_slabs c" by (simp add: br)
  note snap = snapshot_cong [OF same]
  have room: "slab_room k c" using tb(7) assms(3-6) by simp
  then show "slab_room k b" by (simp add: slab_room_def same)
  show "slabs_ok b" using tb(4) by (simp add: slabs_ok_def same)
  have "keeps c b" using snap by (simp add: keeps_def br)
  then show "keeps a b" using tb(5) keeps_trans by blast
  have i: "i < 65536" using tb(1) room assms(5) by (simp add: slab_room_def)
  have "fs_used (ar_slabs c ! i) \<le> length (fs_data (ar_slabs c ! i))" using tb(1,4) by (simp add: slabs_ok_def)
  moreover have "length (fs_data (ar_slabs c ! i)) < 4294967296" using tb(1) room by (simp add: slab_room_def)
  ultimately have u: "unat (sr_off r) = start" "unat (sr_slab r) = i" "unat (sr_len r) = length src"
    using tb(2) i assms(3) by (auto simp: br(2) unat_of_nat)
  then have "sr_len r \<noteq> 0" using assms(2) by auto
  then have v: "externalScannerSnapshotRefValid c r"
    using u tb(1,2,4) by (auto simp: externalScannerSnapshotRefValid_def Let_def slabs_ok_def)
  then show "externalScannerSnapshotRefValid b r" by (simp add: snap)
  show "externalScannerSnapshotBytes b r = src"
    unfolding snap using v u tb(3) by (simp add: externalScannerSnapshotBytes_def)
qed

lemma copy_correct:
  assumes "slabs_ok a" "src \<noteq> []" "length src < 65536" "slab_room (k + 1) a" "0 \<le> k" "k \<le> 65534"
    "copyExternalScannerSnapshotRef a src = (b, r)"
  shows "externalScannerSnapshotRefValid b r" "externalScannerSnapshotBytes b r = src"
    "slabs_ok b" "keeps a b" "slab_room k b"
proof -
  have "externalScannerSnapshotRefValid b r \<and> externalScannerSnapshotBytes b r = src
    \<and> slabs_ok b \<and> keeps a b \<and> slab_room k b"
  proof (cases "src = externalScannerSnapshotBytes a (ar_last a)")
    case True
    then have "b = a" "r = ar_last a" using assms(2,7) by (auto simp: copyExternalScannerSnapshotRef_def)
    moreover have "externalScannerSnapshotRefValid a (ar_last a)"
      using True assms(2) by (auto simp: externalScannerSnapshotBytes_def split: if_splits)
    ultimately show ?thesis using True assms(1,4) by (simp add: slab_room_def)
  next
    case False
    obtain c where c: "allocExternalScannerSnapshotRef a src = (c, r)" "b = c\<lparr>ar_last := r\<rparr>"
      using assms(2,7) False by (auto simp: copyExternalScannerSnapshotRef_def split: prod.splits)
    have same: "ar_slabs b = ar_slabs c" by (simp add: c)
    have "keeps c b" using snapshot_cong [OF same] by (simp add: keeps_def c)
    then show ?thesis using alloc_correct [OF assms(1-6) c(1)] snapshot_cong [OF same] keeps_trans
      by (auto simp: slabs_ok_def slab_room_def same)
  qed
  then show "externalScannerSnapshotRefValid b r" "externalScannerSnapshotBytes b r = src"
    "slabs_ok b" "keeps a b" "slab_room k b" by blast+
qed

text \<open>References that hold a given pair of states.\<close>

definition holds_pair :: "arena \<Rightarrow> checkpointRef \<Rightarrow> bytes \<Rightarrow> bytes \<Rightarrow> bool" where
  "holds_pair a cp start fin \<longleftrightarrow>
     externalScannerSnapshotRefValid a (cr_start cp) \<and> externalScannerSnapshotRefValid a (cr_end cp)
     \<and> externalScannerSnapshotBytes a (cr_start cp) = start \<and> externalScannerSnapshotBytes a (cr_end cp) = fin"

lemma valid_len: "externalScannerSnapshotRefValid a r \<Longrightarrow> sr_len r \<noteq> 0"
  by (simp add: externalScannerSnapshotRefValid_def)

lemma copy_pair_correct:
  assumes "slabs_ok a" "start \<noteq> []" "fin \<noteq> []" "length start < 65536" "length fin < 65536" "slab_room 2 a"
    "copy_pair a start fin = (b, cp)"
  shows "holds_pair b cp start fin" "slabs_ok b" "keeps a b"
proof -
  obtain c r where c: "copyExternalScannerSnapshotRef a start = (c, r)" by (cases "copyExternalScannerSnapshotRef a start")
  obtain d q where d: "(if start = fin then (c, r) else copyExternalScannerSnapshotRef c fin) = (d, q)"
    by (cases "if start = fin then (c, r) else copyExternalScannerSnapshotRef c fin")
  have b: "b = d" "cp = \<lparr>cr_start = r, cr_end = q\<rparr>" using assms(7) c d by (auto simp: copy_pair_def)
  note cc = copy_correct [OF assms(1,2,4) _ _ _ c, of 1, simplified, OF assms(6)]
  have "holds_pair b cp start fin \<and> slabs_ok b \<and> keeps a b"
  proof (cases "start = fin")
    case True
    then show ?thesis using cc d by (auto simp: b holds_pair_def)
  next
    case False
    then have d': "copyExternalScannerSnapshotRef c fin = (d, q)" using d by simp
    note dd = copy_correct [OF cc(3) assms(3,5) _ _ _ d', of 0, simplified, OF cc(5)]
    show ?thesis using cc dd keeps_trans [OF cc(4) dd(4)] by (auto simp: b holds_pair_def keeps_def)
  qed
  then show "holds_pair b cp start fin" "slabs_ok b" "keeps a b" by blast+
qed


section \<open>Checkpoints are kept\<close>

definition lookup_place :: "arena \<Rightarrow> place \<Rightarrow> checkpointRef option" where
  "lookup_place a p =
     (case set_for_node a p False of None \<Rightarrow> None | Some (_, w, idx) \<Rightarrow> Lookup (set_at a w) (int idx))"

definition located :: "arena \<Rightarrow> place \<Rightarrow> bool" where
  "located a p \<longleftrightarrow>
     (case p of InNodes idx \<Rightarrow> idx < ar_nodes a
      | InSlab i idx \<Rightarrow> i < length (ar_nodeSlabs a) \<and> idx < ar_nodeSlabs a ! i)"

text \<open>Well-formed arenas: the sets satisfy their invariant, node indexes fit the sets' keys.\<close>

definition arena_wf :: "arena \<Rightarrow> bool" where
  "arena_wf a \<longleftrightarrow> slabs_ok a \<and> wf_set (ar_nodeCheckpoints a) \<and> (\<forall>s\<in>set (ar_slabCheckpoints a). wf_set s)
     \<and> int (ar_nodes a) \<le> 4294967296 \<and> (\<forall>n\<in>set (ar_nodeSlabs a). int n \<le> 4294967296)"

lemma checkpointRefForPlace_alt:
  "checkpointRefForPlace a p =
     (case lookup_place a p of None \<Rightarrow> None
      | Some cp \<Rightarrow> if externalScannerCheckpointRefComplete cp \<and> externalScannerSnapshotRefValid a (cr_start cp)
                      \<and> externalScannerSnapshotRefValid a (cr_end cp) then Some cp else None)"
  by (auto simp: checkpointRefForPlace_def lookup_place_def set_for_node_def
      split: option.splits place.splits if_splits)

lemma located_index: "located a p \<Longrightarrow> arena_wf a \<Longrightarrow>
    (case p of InNodes idx \<Rightarrow> idx | InSlab i idx \<Rightarrow> idx) < 4294967296"
proof (cases p)
  case (InSlab i idx)
  assume "located a p" "arena_wf a"
  then have "idx < ar_nodeSlabs a ! i" "int (ar_nodeSlabs a ! i) \<le> 4294967296"
    by (auto simp: InSlab located_def arena_wf_def)
  then show ?thesis by (simp add: InSlab)
qed (simp add: located_def arena_wf_def)

lemma Lookup_upsert:
  assumes "wf_set s" "i < 4294967296" "j < 4294967296"
  shows "wf_set (fst (Upsert al s (int i) cp))"
    "Lookup (fst (Upsert al s (int i) cp)) (int j) = (if j = i then Some cp else Lookup s (int j))"
proof -
  let ?i = "of_nat i :: u32" and ?j = "of_nat j :: u32"
  have u: "uint ?i = int i" "uint ?j = int j" "?j = ?i \<longleftrightarrow> j = i"
    using assms(2,3) by (auto simp: uint_nat word_unat_eq_iff)
  show "wf_set (fst (Upsert al s (int i) cp))"
    "Lookup (fst (Upsert al s (int i) cp)) (int j) = (if j = i then Some cp else Lookup s (int j))"
    using checkpoint_set.inv_update [OF assms(1), of al ?i cp] checkpoint_set.lookup_update [OF assms(1), of al ?i cp ?j]
    by (simp_all add: u)
qed

lemma lookup_unlocated: "\<not> located a p \<Longrightarrow> lookup_place a p = None"
  by (auto simp: lookup_place_def set_for_node_def located_def split: place.splits)

lemma Lookup_empty_set [simp]: "Lookup empty_set idx = None"
  by (simp add: Lookup_def empty_set_def)

lemma setCheckpoint_correct:
  assumes "arena_wf a" "located a p" "setExternalScannerCheckpoint al a p cp = (b, ok)"
  shows "ok" "arena_wf b" "ar_slabs b = ar_slabs a" "ar_identity b = ar_identity a"
    "located b = located a" "lookup_place b q = (if q = p then Some cp else lookup_place a q)"
proof -
  obtain c w idx where c: "set_for_node a p True = Some (c, w, idx)"
    using assms(2) by (auto simp: set_for_node_def located_def split: place.splits)
  obtain s growth where s: "Upsert al (set_at c w) (int idx) cp = (s, growth)" by (cases "Upsert al (set_at c w) (int idx) cp")
  have b: "b = (put_set c w s)\<lparr>ar_allocatedBytes := ar_allocatedBytes c + growth\<rparr>" and ok: "ok"
    using assms(3) by (auto simp: setExternalScannerCheckpoint_def c s)
  show "ok" by (rule ok)
  have wi: "idx < 4294967296" "wf_set (set_at c w)"
    using located_index [OF assms(2,1)] c assms(1,2)
    by (auto simp: set_for_node_def arena_wf_def set_at_def located_def wf_empty_set nth_append split: place.splits if_splits)
  note up = Lookup_upsert [OF wi(2,1), of _ al cp, unfolded s fst_conv]
  have c_eq: "c = a \<and> w = None \<and> p = InNodes idx \<or> (\<exists>i. w = Some i \<and> p = InSlab i idx \<and>
      c = a\<lparr>ar_slabCheckpoints := ar_slabCheckpoints a @ replicate (i + 1 - length (ar_slabCheckpoints a)) empty_set\<rparr>)"
    using c by (auto simp: set_for_node_def split: place.splits if_splits)
  have wfs: "wf_set s" using up(1) [of idx] wi(1) by simp
  show "ar_slabs b = ar_slabs a" "ar_identity b = ar_identity a" "located b = located a"
    using c_eq by (auto simp: b put_set_def located_def fun_eq_iff split: place.splits)
  show "arena_wf b"
    using c_eq assms(1) wfs
    by (auto simp: b arena_wf_def put_set_def slabs_ok_def wf_empty_set dest!: set_update_subset_insert [THEN subsetD])
  have loc: "located b = located a" by fact
  show "lookup_place b q = (if q = p then Some cp else lookup_place a q)"
  proof (cases "located a q")
    case False
    then show ?thesis using lookup_unlocated loc assms(2) by metis
  next
    case True
    have "(case q of InNodes j \<Rightarrow> j | InSlab i j \<Rightarrow> j) < 4294967296" using located_index [OF True assms(1)] .
    then show ?thesis using True c_eq up(2) assms(2)
      by (auto simp: lookup_place_def set_for_node_def located_def b put_set_def set_at_def nth_append nth_list_update
          split: place.splits)
  qed
qed


lemma keeps_wf: "keeps a b \<Longrightarrow> slabs_ok b \<Longrightarrow> arena_wf a \<Longrightarrow> arena_wf b"
  by (simp add: keeps_def arena_wf_def)

lemma keeps_lookup: "keeps a b \<Longrightarrow> lookup_place b = lookup_place a" "keeps a b \<Longrightarrow> located b = located a"
  by (auto simp: keeps_def lookup_place_def set_for_node_def set_at_def located_def fun_eq_iff split: place.splits option.splits)

text \<open>The checkpoint a place has, as bytes.\<close>

definition checkpoint_at :: "arena \<Rightarrow> place \<Rightarrow> (bytes \<times> bytes) option" where
  "checkpoint_at a p = map_option (\<lambda>cp. (externalScannerSnapshotBytes a (cr_start cp), externalScannerSnapshotBytes a (cr_end cp)))
     (checkpointRefForPlace a p)"

lemma checkpoint_at_node: "externalScannerCheckpointForNode h node = checkpoint_at (h (nd_owner node)) (nd_place node)"
  by (simp add: externalScannerCheckpointForNode_def externalScannerCheckpointRefForNode_def checkpoint_at_def split: option.splits)

lemma keeps_checkpoint:
  assumes "keeps a b" "checkpoint_at a p = Some x"
  shows "checkpoint_at b p = Some x"
  using assms keeps_lookup(1) [OF assms(1)]
  by (auto simp: checkpoint_at_def checkpointRefForPlace_alt keeps_def split: option.splits if_splits)

text \<open>Storing references: the place has what they hold, every other place what it had.\<close>

lemma store_checkpoint:
  assumes "arena_wf a" "located a p" "holds_pair a cp start fin" "setExternalScannerCheckpoint al a p cp = (b, ok)"
  shows "ok" "arena_wf b" "checkpoint_at b p = Some (start, fin)" "q \<noteq> p \<Longrightarrow> checkpoint_at b q = checkpoint_at a q"
proof -
  note sc = setCheckpoint_correct [OF assms(1,2,4)]
  show "ok" "arena_wf b" by (rule sc)+
  note snap = snapshot_cong [OF sc(3)]
  show "checkpoint_at b p = Some (start, fin)"
    using assms(3) valid_len
    by (auto simp: checkpoint_at_def checkpointRefForPlace_alt sc(6) snap holds_pair_def externalScannerCheckpointRefComplete_def)
  show "q \<noteq> p \<Longrightarrow> checkpoint_at b q = checkpoint_at a q"
    by (simp add: checkpoint_at_def checkpointRefForPlace_alt sc(6) snap cong: option.case_cong)
qed

lemma counter_irrelevant:
  "checkpoint_at (a\<lparr>ar_records := n\<rparr>) = checkpoint_at a" "arena_wf (a\<lparr>ar_records := n\<rparr>) = arena_wf a"
  "located (a\<lparr>ar_records := n\<rparr>) = located a" "ar_slabs (a\<lparr>ar_records := n\<rparr>) = ar_slabs a"
  using snapshot_cong [of "a\<lparr>ar_records := n\<rparr>" a]
  by (auto simp: fun_eq_iff checkpoint_at_def checkpointRefForPlace_alt lookup_place_def set_for_node_def set_at_def
      arena_wf_def slabs_ok_def located_def split: place.splits option.splits)

text \<open>
  C12. Scanner checkpoints round-trip. Recording the scanner states before and after a leaf, each not
  empty and under 64 KiB, in an arena whose byte slabs can still be addressed, succeeds; reading the
  leaf's checkpoint then returns exactly those two byte strings, and every checkpoint that another
  node of the arena had is still returned unchanged.
\<close>

theorem scanner_checkpoint_round_trip:
  assumes "arena_wf a" "slab_room 2 a" "located a p"
    and "start \<noteq> []" "fin \<noteq> []" "length start < 65536" "length fin < 65536"
    and "recordExternalScannerLeafCheckpoint al a p start fin = (b, ok)"
  shows "ok \<and> arena_wf b \<and> checkpoint_at b p = Some (start, fin)
    \<and> (\<forall>q x. q \<noteq> p \<longrightarrow> checkpoint_at a q = Some x \<longrightarrow> checkpoint_at b q = Some x)"
proof -
  obtain c cp where c: "copy_pair a start fin = (c, cp)" by (cases "copy_pair a start fin")
  obtain d ok' where d: "setExternalScannerCheckpoint al c p cp = (d, ok')"
    by (cases "setExternalScannerCheckpoint al c p cp")
  have ok: "slabs_ok a" using assms(1) by (simp add: arena_wf_def)
  note cp = copy_pair_correct [OF ok assms(4,5,6,7,2) c]
  have "arena_wf c" "located c p" using keeps_wf [OF cp(3,2) assms(1)] keeps_lookup(2) [OF cp(3)] assms(3) by auto
  note st = store_checkpoint [OF this cp(1) d]
  have b: "b = d\<lparr>ar_records := ar_records d + 1\<rparr>" "ok"
    using assms(4,5,8) c d st(1) by (auto simp: recordExternalScannerLeafCheckpoint_def)
  show ?thesis using st b keeps_checkpoint [OF cp(3)] by (auto simp: counter_irrelevant)
qed

definition demo_arena :: arena where
  "demo_arena = \<lparr>ar_class = arenaClassIncremental, ar_nodes = 3, ar_nodeSlabs = [2],
     ar_slabs = [\<lparr>fs_data = replicate 8 0, fs_used = 1\<rparr>], ar_slabCursor = 0, ar_last = zero_ref,
     ar_payloadBytes = 0, ar_records = 0, ar_allocatedBytes = 8, ar_nodeCheckpoints = empty_set,
     ar_slabCheckpoints = [], ar_identity = zero_identity\<rparr>"

lemma demo_arena_ok: "arena_wf demo_arena" "slab_room 2 demo_arena" "located demo_arena (InSlab 0 1)"
  by (simp_all add: arena_wf_def slabs_ok_def slab_room_def located_def demo_arena_def wf_empty_set)

theorem scanner_checkpoint_round_trip_witness:
  "arena_wf demo_arena \<and> slab_room 2 demo_arena \<and> located demo_arena (InSlab 0 1) \<and>
   checkpoint_at (fst (recordExternalScannerLeafCheckpoint demo_alloc demo_arena (InSlab 0 1) [1, 2] [3])) (InSlab 0 1)
     = Some ([1, 2], [3])"
  using scanner_checkpoint_round_trip [OF demo_arena_ok, of "[1, 2]" "[3]" demo_alloc] demo_arena_ok
  by (cases "recordExternalScannerLeafCheckpoint demo_alloc demo_arena (InSlab 0 1) [1, 2] [3]") simp

text \<open>
  Field-source slices and scanner snapshots share the arena's byte slabs without interfering:
  allocating and clearing a field-source slice leaves every checkpoint of the arena readable with
  the same bytes.
\<close>

theorem field_source_slices_keep_checkpoints:
  assumes "slabs_ok a" "checkpoint_at a p = Some x"
  shows "checkpoint_at (allocFieldSourceSlice a n) p = Some x"
proof (cases "n = 0")
  case False
  obtain b i start where t: "take_bytes a (replicate n 0) = (b, i, start)" by (cases "take_bytes a (replicate n 0)")
  show ?thesis using keeps_checkpoint [OF take_bytes_correct(5) [OF assms(1) t] assms(2)] False t
    by (simp add: allocFieldSourceSlice_def)
qed (use assms in \<open>simp add: allocFieldSourceSlice_def\<close>)

theorem field_source_slices_keep_checkpoints_witness:
  "slabs_ok demo_arena \<and>
   (let b = fst (recordExternalScannerLeafCheckpoint demo_alloc demo_arena (InNodes 1) [1, 2] [3]) in
    slabs_ok b \<and> checkpoint_at b (InNodes 1) = Some ([1, 2], [3])
    \<and> checkpoint_at (allocFieldSourceSlice b 3) (InNodes 1) = Some ([1, 2], [3]))"
proof -
  let ?b = "fst (recordExternalScannerLeafCheckpoint demo_alloc demo_arena (InNodes 1) [1, 2] [3])"
  have s: "slabs_ok demo_arena" using demo_arena_ok(1) by (simp add: arena_wf_def)
  have "slabs_ok ?b" "checkpoint_at ?b (InNodes 1) = Some ([1, 2], [3])" by code_simp+
  then show ?thesis using field_source_slices_keep_checkpoints [of ?b "InNodes 1" "([1, 2], [3])" 3] s
    by (simp only: Let_def simp_thms)
qed


section \<open>Reductions\<close>

lemma valid_bytes_length:
  assumes "externalScannerSnapshotRefValid a r"
  shows "length (externalScannerSnapshotBytes a r) = unat (sr_len r)" "externalScannerSnapshotBytes a r \<noteq> []"
    "length (externalScannerSnapshotBytes a r) < 65536"
proof -
  show l: "length (externalScannerSnapshotBytes a r) = unat (sr_len r)"
    using assms by (auto simp: externalScannerSnapshotBytes_def externalScannerSnapshotRefValid_def Let_def)
  show "externalScannerSnapshotBytes a r \<noteq> []" using l valid_len [OF assms] by (auto simp: unat_eq_zero)
  show "length (externalScannerSnapshotBytes a r) < 65536" using l unsigned_less [of "sr_len r", where 'a = nat] by simp
qed

lemma copy_between_correct:
  assumes "slabs_ok (h dst)" "slab_room (k + 1) (h dst)" "0 \<le> k" "k \<le> 65534"
    "externalScannerSnapshotRefValid (h src) ref"
    "copyExternalScannerSnapshotRefBetweenArenas h src dst ref = (h', r)"
  shows "h' = h(dst := h' dst)" "keeps (h dst) (h' dst)" "slabs_ok (h' dst)" "slab_room k (h' dst)"
    "externalScannerSnapshotRefValid (h' dst) r"
    "externalScannerSnapshotBytes (h' dst) r = externalScannerSnapshotBytes (h src) ref"
proof -
  have "h' = h(dst := h' dst) \<and> keeps (h dst) (h' dst) \<and> slabs_ok (h' dst) \<and> slab_room k (h' dst)
    \<and> externalScannerSnapshotRefValid (h' dst) r
    \<and> externalScannerSnapshotBytes (h' dst) r = externalScannerSnapshotBytes (h src) ref"
  proof (cases "src = dst")
    case True
    then have "h' = h" "r = ref"
      using assms(6) valid_len [OF assms(5)] by (auto simp: copyExternalScannerSnapshotRefBetweenArenas_def)
    then show ?thesis using True assms by (simp add: slab_room_def)
  next
    case False
    obtain a q where a: "copyExternalScannerSnapshotRef (h dst) (externalScannerSnapshotBytes (h src) ref) = (a, q)"
      by (cases "copyExternalScannerSnapshotRef (h dst) (externalScannerSnapshotBytes (h src) ref)")
    then have h': "h' = h(dst := a)" "r = q"
      using assms(6) False valid_len [OF assms(5)] by (auto simp: copyExternalScannerSnapshotRefBetweenArenas_def)
    show ?thesis
      using copy_correct [OF assms(1) valid_bytes_length(2,3) [OF assms(5)] assms(2-4) a] h' by simp
  qed
  then show "h' = h(dst := h' dst)" "keeps (h dst) (h' dst)" "slabs_ok (h' dst)" "slab_room k (h' dst)"
    "externalScannerSnapshotRefValid (h' dst) r"
    "externalScannerSnapshotBytes (h' dst) r = externalScannerSnapshotBytes (h src) ref" by blast+
qed

text \<open>Every complete checkpoint an arena has stored refers to snapshots the arena has.\<close>

definition refs_valid :: "arena \<Rightarrow> bool" where
  "refs_valid a \<longleftrightarrow> (\<forall>p cp. lookup_place a p = Some cp \<longrightarrow>
     externalScannerSnapshotRefValid a (cr_start cp) \<and> externalScannerSnapshotRefValid a (cr_end cp))"

lemma keeps_refs:
  assumes "keeps a b" "refs_valid a"
  shows "checkpointRefForPlace b p = checkpointRefForPlace a p"
proof (cases "lookup_place a p")
  case None
  then show ?thesis by (simp add: checkpointRefForPlace_alt keeps_lookup(1) [OF assms(1)])
next
  case (Some cp)
  then have "externalScannerSnapshotRefValid a (cr_start cp)" "externalScannerSnapshotRefValid a (cr_end cp)"
    using assms(2) by (auto simp: refs_valid_def)
  then show ?thesis using assms(1) Some by (simp add: checkpointRefForPlace_alt keeps_lookup(1) [OF assms(1)] keeps_def)
qed

lemma ref_valid:
  assumes "checkpointRefForPlace a p = Some cp"
  shows "externalScannerSnapshotRefValid a (cr_start cp)" "externalScannerSnapshotRefValid a (cr_end cp)"
  using assms by (auto simp: checkpointRefForPlace_alt split: option.splits if_splits)

lemma first_checkpoint_find:
  "first_checkpoint h children = (case List.find (\<lambda>c. externalScannerCheckpointRefForNode h c \<noteq> None) children of
     None \<Rightarrow> None | Some c \<Rightarrow> Some (c, the (externalScannerCheckpointRefForNode h c)))"
  by (induction children) (auto split: option.splits)

lemma find_someD: "List.find P xs = Some x \<Longrightarrow> P x"
  by (induction xs) (auto split: if_splits)

text \<open>
  A reduced node inherits the scanner states at its ends. When some of the shaped children have
  a checkpoint, recording the parent's checkpoint succeeds, and the parent then has the state before
  the first such child and the state after the last such child, also when children live in other
  arenas; the other arenas are unchanged and every other checkpoint of the parent's arena is kept.
\<close>

theorem parent_checkpoint_from_children:
  assumes "arena_wf (h (nd_owner parent))" "slab_room 2 (h (nd_owner parent))" "refs_valid (h (nd_owner parent))"
    and "located (h (nd_owner parent)) (nd_place parent)"
    and "List.find (\<lambda>c. externalScannerCheckpointForNode h c \<noteq> None) children = Some firstc"
    and "List.find (\<lambda>c. externalScannerCheckpointForNode h c \<noteq> None) (rev children) = Some lastc"
    and "externalScannerCheckpointForNode h firstc = Some (start, after_first)"
    and "externalScannerCheckpointForNode h lastc = Some (before_last, fin)"
    and "recordExternalScannerCheckpointForParent al h parent children = (h', ok)"
  shows "ok \<and> externalScannerCheckpointForNode h' parent = Some (start, fin)
    \<and> (\<forall>j. j \<noteq> nd_owner parent \<longrightarrow> h' j = h j)
    \<and> (\<forall>q x. q \<noteq> nd_place parent \<longrightarrow> checkpoint_at (h (nd_owner parent)) q = Some x
         \<longrightarrow> checkpoint_at (h' (nd_owner parent)) q = Some x)"
proof -
  let ?d = "nd_owner parent"
  have some: "(externalScannerCheckpointForNode h c \<noteq> None) = (externalScannerCheckpointRefForNode h c \<noteq> None)" for c
    by (simp add: externalScannerCheckpointForNode_def split: option.splits)
  obtain cpf cpl where cpf: "externalScannerCheckpointRefForNode h firstc = Some cpf"
    and cpl: "externalScannerCheckpointRefForNode h lastc = Some cpl"
    using find_someD [OF assms(5)] find_someD [OF assms(6)] some by (metis not_None_eq)
  have vf: "externalScannerSnapshotRefValid (h (nd_owner firstc)) (cr_start cpf)"
    "externalScannerSnapshotBytes (h (nd_owner firstc)) (cr_start cpf) = start"
    using cpf assms(7) ref_valid by (auto simp: externalScannerCheckpointForNode_def externalScannerCheckpointRefForNode_def)
  note f5 = assms(5) [unfolded some] and f6 = assms(6) [unfolded some]
  have fc: "first_checkpoint h children = Some (firstc, cpf)"
    using f5 cpf by (simp add: first_checkpoint_find del: not_None_eq)
  obtain h1 s1 where h1: "copyExternalScannerSnapshotRefBetweenArenas h (nd_owner firstc) ?d (cr_start cpf) = (h1, s1)"
    by (cases "copyExternalScannerSnapshotRefBetweenArenas h (nd_owner firstc) ?d (cr_start cpf)")
  have ok0: "slabs_ok (h ?d)" using assms(1) by (simp add: arena_wf_def)
  note c1 = copy_between_correct [OF ok0 _ _ _ vf(1) h1, of 1, simplified, OF assms(2)]
  have same: "externalScannerCheckpointRefForNode h1 c = externalScannerCheckpointRefForNode h c" for c
    using keeps_refs [OF c1(2) assms(3)]
    by (subst c1(1)) (simp add: externalScannerCheckpointRefForNode_def)
  have lc: "first_checkpoint h1 (rev children) = Some (lastc, cpl)"
    using f6 cpl by (simp add: first_checkpoint_find same del: not_None_eq)
  have vl: "externalScannerSnapshotRefValid (h1 (nd_owner lastc)) (cr_end cpl)"
    using cpl same [of lastc] ref_valid(2) by (simp add: externalScannerCheckpointRefForNode_def)
  have vl0: "externalScannerSnapshotRefValid (h (nd_owner lastc)) (cr_end cpl)"
    "externalScannerSnapshotBytes (h (nd_owner lastc)) (cr_end cpl) = fin"
    using cpl assms(8) ref_valid by (auto simp: externalScannerCheckpointForNode_def externalScannerCheckpointRefForNode_def)
  have bl: "externalScannerSnapshotBytes (h1 (nd_owner lastc)) (cr_end cpl) = fin"
    using vl0 c1(1,2) by (cases "nd_owner lastc = ?d") (auto simp: keeps_def, metis fun_upd_other)
  obtain h2 s2 where h2: "copyExternalScannerSnapshotRefBetweenArenas h1 (nd_owner lastc) ?d (cr_end cpl) = (h2, s2)"
    by (cases "copyExternalScannerSnapshotRefBetweenArenas h1 (nd_owner lastc) ?d (cr_end cpl)")
  note c2 = copy_between_correct [OF c1(3) _ _ _ vl h2, of 0, simplified, OF c1(4)]
  have kp: "keeps (h ?d) (h2 ?d)" using c1(2) c2(2) by (rule keeps_trans)
  let ?cp = "\<lparr>cr_start = s1, cr_end = s2\<rparr>"
  have hp: "holds_pair (h2 ?d) ?cp start fin"
    using c1(5,6) c2(2,5,6) vf(2) bl by (auto simp: holds_pair_def keeps_def)
  obtain b okb where b: "setExternalScannerCheckpoint al (h2 ?d) (nd_place parent) ?cp = (b, okb)"
    by (cases "setExternalScannerCheckpoint al (h2 ?d) (nd_place parent) ?cp")
  have "located (h2 ?d) (nd_place parent)" using keeps_lookup(2) [OF kp] assms(4) by simp
  note st = store_checkpoint [OF keeps_wf [OF kp c2(3) assms(1)] this hp b]
  have "children \<noteq> []" using assms(5) by auto
  then have h': "h' = h2(?d := b\<lparr>ar_records := ar_records b + 1\<rparr>)" "ok"
    using assms(9) fc lc h1 h2 b st(1) valid_len [OF c1(5)] valid_len [OF c2(5)]
    by (auto simp: recordExternalScannerCheckpointForParent_def Let_def)
  have "h2 j = h j" if "j \<noteq> ?d" for j using c1(1) c2(1) that by (metis fun_upd_other)
  then show ?thesis using h' st keeps_checkpoint [OF kp]
    by (auto simp: checkpoint_at_node counter_irrelevant)
qed


lemma record_refs_valid:
  assumes "arena_wf a" "slab_room 2 a" "located a p" "refs_valid a"
    and "start \<noteq> []" "fin \<noteq> []" "length start < 65536" "length fin < 65536"
    and "recordExternalScannerLeafCheckpoint al a p start fin = (b, ok)"
  shows "refs_valid b"
proof -
  obtain c cp where c: "copy_pair a start fin = (c, cp)" by (cases "copy_pair a start fin")
  obtain d ok' where d: "setExternalScannerCheckpoint al c p cp = (d, ok')"
    by (cases "setExternalScannerCheckpoint al c p cp")
  have ok: "slabs_ok a" using assms(1) by (simp add: arena_wf_def)
  note cp = copy_pair_correct [OF ok assms(5-8,2) c]
  have wf: "arena_wf c" "located c p" using keeps_wf [OF cp(3,2) assms(1)] keeps_lookup(2) [OF cp(3)] assms(3) by auto
  note sc = setCheckpoint_correct [OF wf d]
  have b: "b = d\<lparr>ar_records := ar_records d + 1\<rparr>"
    using assms(5,6,9) c d sc(1) by (auto simp: recordExternalScannerLeafCheckpoint_def)
  have snap: "externalScannerSnapshotRefValid b = externalScannerSnapshotRefValid c"
    using snapshot_cong(1) [of b c] sc(3) b by simp
  have "lookup_place b = lookup_place d"
    by (auto simp: fun_eq_iff b lookup_place_def set_for_node_def set_at_def split: place.splits option.splits)
  then have look: "lookup_place b q = (if q = p then Some cp else lookup_place a q)" for q
    by (simp add: sc(6) keeps_lookup(1) [OF cp(3)])
  show ?thesis unfolding refs_valid_def look snap
    using cp(1,3) assms(4) by (auto simp: holds_pair_def refs_valid_def keeps_def split: if_splits)
qed

definition demo_arenas :: arenas where
  "demo_arenas i = (if i = 0 then fst (recordExternalScannerLeafCheckpoint demo_alloc demo_arena (InNodes 1) [1, 2] [3])
     else demo_arena)"

lemma demo_refs: "refs_valid demo_arena"
  by (auto simp: refs_valid_def lookup_place_def set_for_node_def demo_arena_def set_at_def split: place.splits)

theorem parent_checkpoint_from_children_witness:
  "refs_valid (demo_arenas 1) \<and>
   (let h' = fst (recordExternalScannerCheckpointForParent demo_alloc demo_arenas
        \<lparr>nd_owner = 1, nd_place = InNodes 2\<rparr> [\<lparr>nd_owner = 1, nd_place = InNodes 0\<rparr>, \<lparr>nd_owner = 0, nd_place = InNodes 1\<rparr>]) in
    externalScannerCheckpointForNode h' \<lparr>nd_owner = 1, nd_place = InNodes 2\<rparr> = Some ([1, 2], [3]))"
proof -
  let ?p = "\<lparr>nd_owner = 1, nd_place = InNodes 2\<rparr>" and ?c = "\<lparr>nd_owner = 0, nd_place = InNodes 1\<rparr>"
  let ?cs = "[\<lparr>nd_owner = 1, nd_place = InNodes 0\<rparr>, ?c]"
  have a1: "demo_arenas 1 = demo_arena" by (simp add: demo_arenas_def)
  have f: "List.find (\<lambda>c. externalScannerCheckpointForNode demo_arenas c \<noteq> None) ?cs = Some ?c"
    "List.find (\<lambda>c. externalScannerCheckpointForNode demo_arenas c \<noteq> None) (rev ?cs) = Some ?c"
    "externalScannerCheckpointForNode demo_arenas ?c = Some ([1, 2], [3])" by code_simp+
  have l: "located demo_arena (InNodes 2)" by (simp add: located_def demo_arena_def)
  obtain h' ok where h': "recordExternalScannerCheckpointForParent demo_alloc demo_arenas ?p ?cs = (h', ok)"
    by (cases "recordExternalScannerCheckpointForParent demo_alloc demo_arenas ?p ?cs")
  have "externalScannerCheckpointForNode h' ?p = Some ([1, 2], [3])"
    using parent_checkpoint_from_children [of demo_arenas ?p ?cs ?c ?c "[1, 2]" "[3]" "[1, 2]" "[3]" demo_alloc h' ok]
      a1 demo_arena_ok(1,2) demo_refs l f h' by (simp del: List.find.simps rev.simps)
  then show ?thesis using a1 demo_refs h' by (simp add: Let_def)
qed


section \<open>Identities\<close>

text \<open>What an arena's identity state means: none yet, one identity, or a conflict.\<close>

datatype identityView = NoIdentity | OneIdentity identity | Conflicting

definition identity_view :: "identityState \<Rightarrow> identityView" where
  "identity_view s =
     (if is_conflict s then Conflicting
      else if is_valid s then OneIdentity \<lparr>idn_Scanner = take (unat (is_scannerLen s)) (is_scanner s),
                                           idn_Grammar = take (unat (is_grammarLen s)) (is_grammar s)\<rparr>
      else NoIdentity)"

fun join_view :: "identityView \<Rightarrow> identityView \<Rightarrow> identityView" where
  "join_view NoIdentity v = v"
| "join_view Conflicting v = Conflicting"
| "join_view (OneIdentity i) NoIdentity = OneIdentity i"
| "join_view (OneIdentity i) Conflicting = Conflicting"
| "join_view (OneIdentity i) (OneIdentity j) = (if i = j then OneIdentity i else Conflicting)"

text \<open>The shape of the state: arrays of full size, and complete lengths once an identity is there.\<close>

definition identity_wf :: "identityState \<Rightarrow> bool" where
  "identity_wf s \<longleftrightarrow> length (is_scanner s) = 256 \<and> length (is_grammar s) = 256 \<and>
     (is_valid s \<longrightarrow> 0 < unat (is_scannerLen s) \<and> unat (is_scannerLen s) \<le> 256 \<and> 0 < unat (is_grammarLen s) \<and> unat (is_grammarLen s) \<le> 256)"

lemma identity_wf_zero: "identity_wf zero_identity" "identity_view zero_identity = NoIdentity"
  by (simp_all add: identity_wf_def identity_view_def zero_identity_def externalScannerCheckpointIdentityMaxBytes_def)

lemma unat_u16_small: "n \<le> 256 \<Longrightarrow> unat (of_nat n :: u16) = n"
  by (simp add: unat_of_nat)

lemma take_copy_into: "length src \<le> length dst \<Longrightarrow> take (length src) (copy_into dst src) = src"
  by (simp add: copy_into_def)

lemma length_copy_into: "length src \<le> length dst \<Longrightarrow> length (copy_into dst src) = length dst"
  by (simp add: copy_into_def)

lemma completeD:
  assumes "identity_complete idn"
  shows "0 < length (idn_Scanner idn)" "length (idn_Scanner idn) \<le> 256" "0 < length (idn_Grammar idn)" "length (idn_Grammar idn) \<le> 256"
  using assms by (simp_all add: identity_complete_def externalScannerCheckpointIdentityMaxBytes_def)

lemma identity_matches_view:
  assumes "identity_wf s"
  shows "identity_matches s idn \<longleftrightarrow> identity_view s = OneIdentity idn"
proof
  assume "identity_matches s idn"
  then show "identity_view s = OneIdentity idn" by (cases idn) (simp add: identity_matches_def identity_view_def)
next
  assume v: "identity_view s = OneIdentity idn"
  then have "is_valid s" "\<not> is_conflict s" and idn: "idn = \<lparr>idn_Scanner = take (unat (is_scannerLen s)) (is_scanner s),
      idn_Grammar = take (unat (is_grammarLen s)) (is_grammar s)\<rparr>"
    by (auto simp: identity_view_def split: if_splits)
  moreover have "length (idn_Scanner idn) = unat (is_scannerLen s)" "length (idn_Grammar idn) = unat (is_grammarLen s)"
    using assms \<open>is_valid s\<close> by (simp_all add: idn identity_wf_def)
  ultimately show "identity_matches s idn"
    using assms by (simp add: identity_matches_def identity_complete_def identity_wf_def externalScannerCheckpointIdentityMaxBytes_def)
qed

lemma view_fresh:
  assumes "identity_wf s" "length sc = unat sl" "length gr = unat gl"
    "0 < unat (sl :: u16)" "unat sl \<le> 256" "0 < unat (gl :: u16)" "unat gl \<le> 256" "\<not> is_conflict s"
  shows "identity_wf (s\<lparr>is_scanner := copy_into (is_scanner s) sc, is_grammar := copy_into (is_grammar s) gr,
      is_scannerLen := sl, is_grammarLen := gl, is_valid := True\<rparr>)"
    "identity_view (s\<lparr>is_scanner := copy_into (is_scanner s) sc, is_grammar := copy_into (is_grammar s) gr,
      is_scannerLen := sl, is_grammarLen := gl, is_valid := True\<rparr>) = OneIdentity \<lparr>idn_Scanner = sc, idn_Grammar = gr\<rparr>"
  using assms take_copy_into [of sc "is_scanner s"] take_copy_into [of gr "is_grammar s"]
  by (simp_all add: identity_wf_def identity_view_def length_copy_into)

lemma set_view:
  assumes "identity_wf s"
  shows "identity_wf (fst (identity_set s idn))"
    "identity_view (fst (identity_set s idn)) = (if identity_complete idn then join_view (identity_view s) (OneIdentity idn) else identity_view s)"
proof -
  have "identity_wf (fst (identity_set s idn)) \<and> identity_view (fst (identity_set s idn))
      = (if identity_complete idn then join_view (identity_view s) (OneIdentity idn) else identity_view s)"
  proof (cases "is_conflict s \<or> \<not> identity_complete idn")
    case True
    then show ?thesis using assms by (auto simp: identity_set_def identity_view_def)
  next
    case False
    then have c: "identity_complete idn" "\<not> is_conflict s" by auto
    show ?thesis
    proof (cases "is_valid s")
      case True
      then obtain i where i: "identity_view s = OneIdentity i" using c by (simp add: identity_view_def)
      then show ?thesis using True c assms identity_matches_view [OF assms, of idn]
        by (auto simp: identity_set_def identity_wf_def identity_view_def)
    next
      case fresh: False
      then have "identity_view s = NoIdentity" using c by (simp add: identity_view_def)
      then show ?thesis
        using fresh c view_fresh [OF assms, of "idn_Scanner idn" "of_nat (length (idn_Scanner idn))" "idn_Grammar idn" "of_nat (length (idn_Grammar idn))"]
          completeD [OF c(1)] by (simp add: identity_set_def unat_u16_small)
    qed
  qed
  then show "identity_wf (fst (identity_set s idn))"
    "identity_view (fst (identity_set s idn)) = (if identity_complete idn then join_view (identity_view s) (OneIdentity idn) else identity_view s)"
    by blast+
qed

lemma inherit_view:
  assumes "identity_wf s" "identity_wf t"
  shows "identity_wf (fst (identity_inherit s t))"
    "identity_view (fst (identity_inherit s t)) = join_view (identity_view s) (identity_view t)"
proof -
  have "identity_wf (fst (identity_inherit s t)) \<and> identity_view (fst (identity_inherit s t)) = join_view (identity_view s) (identity_view t)"
  proof (cases "is_conflict s \<or> is_conflict t \<or> \<not> is_valid t")
    case True
    have "join_view v NoIdentity = v" "join_view v Conflicting = Conflicting" for v by (cases v; simp)+
    then show ?thesis using assms True by (auto simp: identity_inherit_def identity_view_def identity_wf_def)
  next
    case False
    then have c: "\<not> is_conflict s" "\<not> is_conflict t" "is_valid t" by auto
    show ?thesis
    proof (cases "is_valid s")
      case True
      have "length (take (unat (is_scannerLen u)) (is_scanner u)) = unat (is_scannerLen u)"
        "length (take (unat (is_grammarLen u)) (is_grammar u)) = unat (is_grammarLen u)" if "identity_wf u" "is_valid u" for u
        using that by (simp_all add: identity_wf_def)
      then have "(take (unat (is_scannerLen s)) (is_scanner s) = take (unat (is_scannerLen t)) (is_scanner t)) \<Longrightarrow> is_scannerLen s = is_scannerLen t"
        "(take (unat (is_grammarLen s)) (is_grammar s) = take (unat (is_grammarLen t)) (is_grammar t)) \<Longrightarrow> is_grammarLen s = is_grammarLen t"
        using True c(3) assms by (metis word_unat_eq_iff)+
      then show ?thesis using True c assms(1) by (auto simp: identity_inherit_def identity_view_def identity_wf_def)
    next
      case fresh: False
      then have "identity_view s = NoIdentity" using c by (simp add: identity_view_def)
      moreover have "identity_view t = OneIdentity \<lparr>idn_Scanner = take (unat (is_scannerLen t)) (is_scanner t),
          idn_Grammar = take (unat (is_grammarLen t)) (is_grammar t)\<rparr>" using c by (simp add: identity_view_def)
      ultimately show ?thesis using fresh c
          view_fresh [OF assms(1), of "take (unat (is_scannerLen t)) (is_scanner t)" "is_scannerLen t"
            "take (unat (is_grammarLen t)) (is_grammar t)" "is_grammarLen t"] assms(2)
        by (simp add: identity_inherit_def identity_wf_def)
    qed
  qed
  then show "identity_wf (fst (identity_inherit s t))"
    "identity_view (fst (identity_inherit s t)) = join_view (identity_view s) (identity_view t)" by blast+
qed


text \<open>The states an arena's identity goes through between clears.\<close>

inductive identity_reachable :: "identityState \<Rightarrow> bool" where
  fresh: "identity_reachable zero_identity"
| set: "identity_reachable s \<Longrightarrow> identity_reachable (fst (identity_set s idn))"
| inherit: "identity_reachable s \<Longrightarrow> identity_reachable t \<Longrightarrow> identity_reachable (fst (identity_inherit s t))"

inductive identity_step :: "identityState \<Rightarrow> identityState \<Rightarrow> bool" where
  "identity_step s (fst (identity_set s idn))"
| "identity_reachable t \<Longrightarrow> identity_step s (fst (identity_inherit s t))"

inductive_cases identity_stepE: "identity_step s s'"

lemma identity_reachable_wf: "identity_reachable s \<Longrightarrow> identity_wf s"
  by (induction rule: identity_reachable.induct) (simp_all add: identity_wf_zero set_view inherit_view)

text \<open>
  The fixed-size identity state refines a three-valued lattice. For every state an arena can be
  in, setting a complete identity and inheriting another arena's state are the join of what the
  states mean (none, one identity, conflict), an incomplete identity changes nothing, and an
  identity matches exactly when it is the one the state stands for.
\<close>

theorem identity_refines_join:
  assumes "identity_reachable s" "identity_reachable t"
  shows "identity_view (fst (identity_set s idn))
      = (if identity_complete idn then join_view (identity_view s) (OneIdentity idn) else identity_view s)
    \<and> identity_view (fst (identity_inherit s t)) = join_view (identity_view s) (identity_view t)
    \<and> (identity_matches s idn \<longleftrightarrow> identity_view s = OneIdentity idn)"
  using set_view(2) inherit_view(2) identity_matches_view identity_reachable_wf [OF assms(1)] identity_reachable_wf [OF assms(2)]
  by blast

definition demo_identity :: identityState where
  "demo_identity = fst (identity_set zero_identity \<lparr>idn_Scanner = [1, 2], idn_Grammar = [3]\<rparr>)"

lemma demo_identity_reachable: "identity_reachable zero_identity" "identity_reachable demo_identity"
  unfolding demo_identity_def by (intro identity_reachable.intros)+

theorem identity_refines_join_witness:
  "identity_reachable zero_identity \<and> identity_reachable demo_identity \<and>
   identity_view (fst (identity_inherit zero_identity demo_identity))
     = join_view (identity_view zero_identity) (identity_view demo_identity)
   \<and> identity_matches (fst (identity_inherit zero_identity demo_identity)) \<lparr>idn_Scanner = [1, 2], idn_Grammar = [3]\<rparr>"
proof -
  have "identity_matches (fst (identity_inherit zero_identity demo_identity)) \<lparr>idn_Scanner = [1, 2], idn_Grammar = [3]\<rparr>"
    by code_simp
  then show ?thesis using identity_refines_join [OF demo_identity_reachable] demo_identity_reachable by blast
qed

text \<open>
  A conflict is final: once two scanner identities have met in an arena, no later step makes the
  arena's checkpoints match any identity, so a language that requires one never reuses them.
\<close>

theorem identity_conflict_is_final:
  assumes "is_conflict s" "identity_step\<^sup>*\<^sup>* s s'"
  shows "is_conflict s' \<and> \<not> externalScannerCheckpointIdentityMatches (a\<lparr>ar_identity := s'\<rparr>) (Some provided)
    \<and> \<not> externalScannerLeafCheckpointIdentityMatches (a\<lparr>ar_identity := s'\<rparr>) p"
proof -
  have "is_conflict s'" using assms(2,1)
    by (induction rule: rtranclp_induct) (auto elim!: identity_stepE simp: identity_set_def identity_inherit_def)
  then show ?thesis
    by (auto simp: externalScannerCheckpointIdentityMatches_def externalScannerLeafCheckpointIdentityMatches_def
        identity_matches_def split: option.splits)
qed

theorem identity_conflict_is_final_witness:
  "(let s = fst (identity_set demo_identity \<lparr>idn_Scanner = [9], idn_Grammar = [3]\<rparr>) in
    is_conflict s \<and> identity_step\<^sup>*\<^sup>* s (fst (identity_inherit s demo_identity))
    \<and> is_conflict (fst (identity_inherit s demo_identity)))"
proof -
  let ?s = "fst (identity_set demo_identity \<lparr>idn_Scanner = [9], idn_Grammar = [3]\<rparr>)"
  have c: "is_conflict ?s" by code_simp
  have st: "identity_step\<^sup>*\<^sup>* ?s (fst (identity_inherit ?s demo_identity))"
    using identity_step.intros(2) [OF demo_identity_reachable(2)] by blast
  show ?thesis unfolding Let_def using identity_conflict_is_final [OF c st] c st by blast
qed

end
