(* ===== verification/Checkpoint_Interner.thy ===== *)
theory Checkpoint_Interner
  imports Go_Prelude
begin

text \<open>
  The checkpoint interner, \<^verbatim>\<open>internal/runtime/internal/parsercorephase0/checkpoint_interner.go\<close>: a
  table that gives each distinct serialized scanner state one small identity, with hash buckets whose
  entries are chained through the records, independent caps on identities and bytes, and a shortcut
  for the identity returned last. The locale \<open>byte_interner\<close> is its contract. The lemmas show that
  the chain walk returns, that identities are equal exactly when the bytes are, that identities keep
  their bytes, and that the caps hold.

  The seeded hash (\<^verbatim>\<open>maphash\<close>) and the receipt digest (SHA-256) are parameters, with no assumption
  about either: the interner is correct for every hash function, a constant one included.
\<close>

section \<open>Data\<close>

datatype internError = CorruptChain | IdentityCap | LengthOverflow | ByteCap | OffsetOverflow

record 'd checkpointRecord =
  kr_digest :: 'd
  kr_offset :: u32
  kr_length :: u32
  kr_next :: u32

text \<open>\<open>ki_buckets\<close> is the map with Go's default: an absent hash has bucket zero.\<close>

record 'd checkpointInterner =
  ki_records :: "'d checkpointRecord list"
  ki_bytes :: bytes
  ki_buckets :: "u64 \<Rightarrow> u32"
  ki_maxIDs :: u32
  ki_maxBytes :: u64
  ki_collisions :: u64
  ki_lastInterned :: u32

definition newCheckpointInterner :: "u32 \<Rightarrow> u64 \<Rightarrow> 'd checkpointInterner" where
  "newCheckpointInterner maxIDs maxBytes =
     \<lparr>ki_records = [], ki_bytes = [], ki_buckets = (\<lambda>_. 0), ki_maxIDs = maxIDs, ki_maxBytes = maxBytes,
      ki_collisions = 0, ki_lastInterned = 0\<rparr>"

section \<open>Operations\<close>

definition record_of :: "'d checkpointInterner \<Rightarrow> u32 \<Rightarrow> 'd checkpointRecord option" where
  "record_of i ident =
     (if ident = 0 \<or> unat ident > length (ki_records i) then None else Some (ki_records i ! (unat ident - 1)))"

text \<open>The comparison of a record's retained bytes, guarded as in the code.\<close>

definition record_equal :: "'d checkpointInterner \<Rightarrow> 'd checkpointRecord \<Rightarrow> bytes \<Rightarrow> bool" where
  "record_equal i rec serialized \<longleftrightarrow>
     (let start = unat (kr_offset rec); fin = start + unat (kr_length rec) in
      fin \<le> length (ki_bytes i) \<and> slice (ki_bytes i) start fin = serialized)"

text \<open>
  The walk along a bucket's chain: an error, the identity found, or zero when the chain ends. On a
  cyclic chain the loop would not end, and the walk is \<open>None\<close>.
\<close>

partial_function (option) chain_walk ::
    "'d checkpointInterner \<Rightarrow> bytes \<Rightarrow> u32 \<Rightarrow> (internError + u32) option" where
  "chain_walk i serialized ident =
     (if ident = 0 then Some (Inr 0)
      else case record_of i ident of
        None \<Rightarrow> Some (Inl CorruptChain)
      | Some rec \<Rightarrow> if record_equal i rec serialized then Some (Inr ident)
                    else chain_walk i serialized (kr_next rec))"

declare chain_walk.simps [code]

definition append_record :: "(bytes \<Rightarrow> 'd) \<Rightarrow> 'd checkpointInterner \<Rightarrow> bytes \<Rightarrow> u64 \<Rightarrow> 'd checkpointInterner \<times> u32" where
  "append_record sha i serialized hash =
     (let bucket = ki_buckets i hash;
          ident = of_nat (length (ki_records i) + 1);
          offset = of_nat (length (ki_bytes i)) in
      (i\<lparr>ki_bytes := ki_bytes i @ serialized,
         ki_records := ki_records i @ [\<lparr>kr_digest = sha serialized, kr_offset = offset,
            kr_length = of_nat (length serialized), kr_next = bucket\<rparr>],
         ki_buckets := (ki_buckets i)(hash := ident),
         ki_collisions := (if bucket \<noteq> 0 then ki_collisions i + 1 else ki_collisions i)\<rparr>, ident))"

text \<open>The checks before a new record, in order.\<close>

definition cap_check :: "'d checkpointInterner \<Rightarrow> bytes \<Rightarrow> internError option" where
  "cap_check i serialized =
     (if int (length (ki_records i)) \<ge> uint (ki_maxIDs i) then Some IdentityCap
      else if int (length serialized) > 4294967295 then Some LengthOverflow
      else if int (length (ki_bytes i)) > uint (ki_maxBytes i)
              \<or> int (length serialized) > uint (ki_maxBytes i) - int (length (ki_bytes i)) then Some ByteCap
      else if int (length (ki_bytes i)) + int (length serialized) > 4294967295 then Some OffsetOverflow
      else None)"

definition internHash ::
    "(bytes \<Rightarrow> 'd) \<Rightarrow> 'd checkpointInterner \<Rightarrow> bytes \<Rightarrow> u64 \<Rightarrow> ('d checkpointInterner \<times> (internError + u32)) option" where
  "internHash sha i serialized hash =
     (if serialized = [] then Some (i, Inr 0)
      else case chain_walk i serialized (ki_buckets i hash) of
        None \<Rightarrow> None
      | Some (Inl e) \<Rightarrow> Some (i, Inl e)
      | Some (Inr found) \<Rightarrow>
          if found \<noteq> 0 then Some (i, Inr found)
          else case cap_check i serialized of
            Some e \<Rightarrow> Some (i, Inl e)
          | None \<Rightarrow> let (i, ident) = append_record sha i serialized hash in Some (i, Inr ident))"

definition intern ::
    "(bytes \<Rightarrow> u64) \<Rightarrow> (bytes \<Rightarrow> 'd) \<Rightarrow> 'd checkpointInterner \<Rightarrow> bytes \<Rightarrow> ('d checkpointInterner \<times> (internError + u32)) option" where
  "intern maphash sha i serialized =
     (if serialized = [] then Some (i, Inr 0)
      else
        let lid = ki_lastInterned i;
            again = (case record_of i lid of None \<Rightarrow> False | Some rec \<Rightarrow> record_equal i rec serialized) in
        if lid \<noteq> 0 \<and> again then Some (i, Inr lid)
        else case internHash sha i serialized (maphash serialized) of
          None \<Rightarrow> None
        | Some (i, Inl e) \<Rightarrow> Some (i, Inl e)
        | Some (i, Inr ident) \<Rightarrow> Some (i\<lparr>ki_lastInterned := ident\<rparr>, Inr ident))"

definition receipt :: "(bytes \<Rightarrow> 'd) \<Rightarrow> 'd checkpointInterner \<Rightarrow> u32 \<Rightarrow> (u32 \<times> 'd) option" where
  "receipt sha i ident =
     (if ident = 0 then Some (0, sha [])
      else map_option (\<lambda>rec. (kr_length rec, kr_digest rec)) (record_of i ident))"

definition matches :: "'d checkpointInterner \<Rightarrow> u32 \<Rightarrow> bytes \<Rightarrow> bool" where
  "matches i ident serialized =
     (if ident = 0 then serialized = []
      else case record_of i ident of None \<Rightarrow> False | Some rec \<Rightarrow> record_equal i rec serialized)"

text \<open>\<^verbatim>\<open>copyBytes\<close>: the contents of the destination it returns.\<close>

definition copyBytes :: "'d checkpointInterner \<Rightarrow> u32 \<Rightarrow> bytes option" where
  "copyBytes i ident =
     (if ident = 0 then Some []
      else case record_of i ident of
        None \<Rightarrow> None
      | Some rec \<Rightarrow>
          let start = unat (kr_offset rec); fin = start + unat (kr_length rec) in
          if fin > length (ki_bytes i) then None else Some (slice (ki_bytes i) start fin))"

definition stats :: "'d checkpointInterner \<Rightarrow> u32 \<times> u64 \<times> u64" where
  "stats i = (of_nat (length (ki_records i)), of_nat (length (ki_bytes i)), ki_collisions i)"

definition reset :: "'d checkpointInterner \<Rightarrow> 'd checkpointInterner" where
  "reset i = i\<lparr>ki_records := [], ki_bytes := [], ki_lastInterned := 0, ki_buckets := (\<lambda>_. 0), ki_collisions := 0\<rparr>"

section \<open>Invariant\<close>

text \<open>The bytes a record stands for, and the identities on the chain from one.\<close>

definition rec_bytes :: "bytes \<Rightarrow> 'd checkpointRecord \<Rightarrow> bytes" where
  "rec_bytes bs rec = slice bs (unat (kr_offset rec)) (unat (kr_offset rec) + unat (kr_length rec))"

function chain :: "'d checkpointRecord list \<Rightarrow> nat \<Rightarrow> nat list" where
  "chain recs k =
     (if k = 0 then [] else k # (if unat (kr_next (recs ! (k - 1))) < k then chain recs (unat (kr_next (recs ! (k - 1)))) else []))"
  by pat_completeness auto
termination
  by (relation "measure snd") auto

declare chain.simps [simp del]

definition interner_wf :: "(bytes \<Rightarrow> u64) \<Rightarrow> 'd checkpointInterner \<Rightarrow> bool" where
  "interner_wf hash i \<longleftrightarrow>
     length (ki_records i) \<le> unat (ki_maxIDs i) \<and> length (ki_bytes i) < 4294967296
     \<and> length (ki_bytes i) \<le> unat (ki_maxBytes i)
     \<and> (\<forall>k<length (ki_records i).
          let rec = ki_records i ! k in
          unat (kr_offset rec) + unat (kr_length rec) \<le> length (ki_bytes i) \<and> kr_length rec \<noteq> 0
          \<and> unat (kr_next rec) \<le> k
          \<and> k + 1 \<in> set (chain (ki_records i) (unat (ki_buckets i (hash (rec_bytes (ki_bytes i) rec))))))
     \<and> distinct (map (rec_bytes (ki_bytes i)) (ki_records i))
     \<and> (\<forall>h. unat (ki_buckets i h) \<le> length (ki_records i))
     \<and> unat (ki_lastInterned i) \<le> length (ki_records i)"


lemma wf_new: "interner_wf hash (newCheckpointInterner m b)"
  by (simp add: interner_wf_def newCheckpointInterner_def)

lemma wf_reset: "interner_wf hash i \<Longrightarrow> interner_wf hash (reset i)"
  by (simp add: interner_wf_def reset_def)

lemma wf_recordD:
  assumes "interner_wf hash i" "k < length (ki_records i)"
  shows "unat (kr_offset (ki_records i ! k)) + unat (kr_length (ki_records i ! k)) \<le> length (ki_bytes i)"
    "rec_bytes (ki_bytes i) (ki_records i ! k) \<noteq> []" "unat (kr_next (ki_records i ! k)) \<le> k"
    "k + 1 \<in> set (chain (ki_records i) (unat (ki_buckets i (hash (rec_bytes (ki_bytes i) (ki_records i ! k))))))"
proof -
  have r: "unat (kr_offset (ki_records i ! k)) + unat (kr_length (ki_records i ! k)) \<le> length (ki_bytes i)"
    "kr_length (ki_records i ! k) \<noteq> 0" "unat (kr_next (ki_records i ! k)) \<le> k"
    "k + 1 \<in> set (chain (ki_records i) (unat (ki_buckets i (hash (rec_bytes (ki_bytes i) (ki_records i ! k))))))"
    using assms by (simp_all add: interner_wf_def Let_def)
  then show "unat (kr_offset (ki_records i ! k)) + unat (kr_length (ki_records i ! k)) \<le> length (ki_bytes i)"
    "unat (kr_next (ki_records i ! k)) \<le> k"
    "k + 1 \<in> set (chain (ki_records i) (unat (ki_buckets i (hash (rec_bytes (ki_bytes i) (ki_records i ! k))))))"
    by blast+
  have "length (rec_bytes (ki_bytes i) (ki_records i ! k)) = unat (kr_length (ki_records i ! k))"
    using r(1) by (simp add: rec_bytes_def)
  then show "rec_bytes (ki_bytes i) (ki_records i ! k) \<noteq> []" using r(2) by (auto simp: unat_eq_zero)
qed

lemma wf_record_equal:
  assumes "interner_wf hash i" "k < length (ki_records i)"
  shows "record_equal i (ki_records i ! k) s \<longleftrightarrow> rec_bytes (ki_bytes i) (ki_records i ! k) = s"
  using wf_recordD(1) [OF assms] by (simp add: record_equal_def rec_bytes_def Let_def)

lemma wf_ident: "interner_wf hash i \<Longrightarrow> k < length (ki_records i) \<Longrightarrow> unat (of_nat (k + 1) :: u32) = k + 1"
proof -
  assume "interner_wf hash i" "k < length (ki_records i)"
  then have "k + 1 \<le> unat (ki_maxIDs i)" by (simp add: interner_wf_def)
  then have "k + 1 < 4294967296" using unat_u32_less [of "ki_maxIDs i"] by linarith
  then show ?thesis by (rule unat_u32_of_nat)
qed

text \<open>The walk returns, with the first identity of the chain that has the bytes.\<close>

lemma chain_walk_correct:
  assumes "interner_wf hash i" "unat ident \<le> length (ki_records i)"
  shows "chain_walk i s ident = Some (Inr (case List.find (\<lambda>k. rec_bytes (ki_bytes i) (ki_records i ! (k - 1)) = s)
      (chain (ki_records i) (unat ident)) of None \<Rightarrow> 0 | Some k \<Rightarrow> of_nat k))"
  using assms(2)
proof (induction "unat ident" arbitrary: ident rule: less_induct)
  case less
  show ?case
  proof (cases "ident = 0")
    case True
    then show ?thesis by (subst chain_walk.simps) (simp add: chain.simps)
  next
    case False
    then have pos: "0 < unat ident" by (simp add: unat_gt_0)
    let ?k = "unat ident - 1"
    let ?r = "ki_records i ! ?k"
    have k: "?k < length (ki_records i)" using pos less.prems by linarith
    have r: "record_of i ident = Some ?r" using False less.prems by (simp add: record_of_def)
    have nxt: "unat (kr_next ?r) < unat ident" using wf_recordD(3) [OF assms(1) k] pos by linarith
    then have IH: "chain_walk i s (kr_next ?r) = Some (Inr (case List.find (\<lambda>k. rec_bytes (ki_bytes i) (ki_records i ! (k - 1)) = s)
      (chain (ki_records i) (unat (kr_next ?r))) of None \<Rightarrow> 0 | Some k \<Rightarrow> of_nat k))"
      using less.hyps less.prems by simp
    have "chain (ki_records i) (unat ident) = unat ident # chain (ki_records i) (unat (kr_next ?r))"
      using pos nxt by (subst chain.simps) simp
    then show ?thesis using False r IH wf_record_equal [OF assms(1) k, of s]
      by (subst chain_walk.simps) simp
  qed
qed

lemma chain_range:
  assumes "interner_wf hash i" "j \<in> set (chain (ki_records i) k)"
  shows "0 < j" "j \<le> k"
proof -
  have "\<forall>j\<in>set (chain recs k). 0 < j \<and> j \<le> k" for recs :: "'a checkpointRecord list"
  proof (induction recs k rule: chain.induct)
    case (1 recs k)
    show ?case
    proof (cases "k \<noteq> 0 \<and> unat (kr_next (recs ! (k - 1))) < k")
      case True
      then show ?thesis using 1 by (subst chain.simps) (auto intro: le_trans less_imp_le)
    next
      case False
      then show ?thesis by (subst chain.simps) auto
    qed
  qed
  then show "0 < j" "j \<le> k" using assms(2) by blast+
qed

lemma find_SomeD: "List.find P xs = Some x \<Longrightarrow> P x \<and> x \<in> set xs"
  by (induction xs) (auto split: if_splits)

text \<open>What a lookup by hash finds: the identity with the bytes, or zero when there is none.\<close>

lemma walk_bucket:
  assumes "interner_wf hash i" "chain_walk i s (ki_buckets i (hash s)) = Some r"
  shows "\<exists>found. r = Inr found \<and>
    (if found = 0 then \<forall>k<length (ki_records i). rec_bytes (ki_bytes i) (ki_records i ! k) \<noteq> s
     else \<exists>k<length (ki_records i). found = of_nat (k + 1) \<and> rec_bytes (ki_bytes i) (ki_records i ! k) = s)"
proof -
  let ?P = "\<lambda>k. rec_bytes (ki_bytes i) (ki_records i ! (k - 1)) = s"
  let ?b = "ki_buckets i (hash s)"
  let ?c = "chain (ki_records i) (unat ?b)"
  have b: "unat ?b \<le> length (ki_records i)" using assms(1) by (simp add: interner_wf_def)
  have r: "r = Inr (case List.find ?P ?c of None \<Rightarrow> 0 | Some k \<Rightarrow> of_nat k)"
    using chain_walk_correct [OF assms(1) b] assms(2) by simp
  show ?thesis
  proof (cases "List.find ?P ?c")
    case None
    have "rec_bytes (ki_bytes i) (ki_records i ! k) \<noteq> s" if "k < length (ki_records i)" for k
    proof
      assume "rec_bytes (ki_bytes i) (ki_records i ! k) = s"
      then have "k + 1 \<in> set ?c" "?P (k + 1)" using wf_recordD(4) [OF assms(1) that] by auto
      then show False using None by (auto simp: find_None_iff)
    qed
    then show ?thesis using r None by simp
  next
    case (Some j)
    then have j: "?P j" "0 < j" "j \<le> length (ki_records i)"
      using find_SomeD [OF Some] chain_range [OF assms(1)] b by (auto, metis le_trans)
    then have "j - 1 < length (ki_records i)" "j = (j - 1) + 1" by auto
    moreover have "(of_nat j :: u32) \<noteq> 0"
      using wf_ident [OF assms(1) calculation(1)] j(2) by (metis add_eq_0_iff_both_eq_0 calculation(2) unat_0 zero_neq_one)
    ultimately show ?thesis using r Some j(1) by (intro exI [of _ "of_nat j"]) (auto intro!: exI [of _ "j - 1"])
  qed
qed


lemma chain_append:
  assumes "k \<le> length recs"
  shows "chain (recs @ new) k = chain recs k"
  using assms
proof (induction recs k rule: chain.induct)
  case (1 recs k)
  show ?case
  proof (cases "k = 0")
    case False
    then have "(recs @ new) ! (k - 1) = recs ! (k - 1)" using "1.prems" by (simp add: nth_append)
    then show ?thesis using 1 False by (subst (1 2) chain.simps) simp
  qed (simp add: chain.simps)
qed

lemma rec_bytes_append:
  "unat (kr_offset rec) + unat (kr_length rec) \<le> length bs \<Longrightarrow> rec_bytes (bs @ new) rec = rec_bytes bs rec"
  by (simp add: rec_bytes_def slice_def)

lemma append_record_wf:
  assumes wf: "interner_wf hash i" and ne: "s \<noteq> []"
    and absent: "\<forall>k<length (ki_records i). rec_bytes (ki_bytes i) (ki_records i ! k) \<noteq> s"
    and caps: "length (ki_records i) < unat (ki_maxIDs i)" "length (ki_bytes i) + length s < 4294967296"
      "length (ki_bytes i) + length s \<le> unat (ki_maxBytes i)"
    and app: "append_record sha i s (hash s) = (j, ident)"
  shows "interner_wf hash j" "ident = of_nat (length (ki_records i) + 1)"
    "\<exists>new. ki_records j = ki_records i @ [new] \<and> rec_bytes (ki_bytes j) new = s"
    "\<forall>k<length (ki_records i). rec_bytes (ki_bytes j) (ki_records i ! k) = rec_bytes (ki_bytes i) (ki_records i ! k)"
    "unat ident = length (ki_records i) + 1"
proof -
  let ?n = "length (ki_records i)"
  define new where "new = \<lparr>kr_digest = sha s, kr_offset = of_nat (length (ki_bytes i)),
      kr_length = of_nat (length s), kr_next = ki_buckets i (hash s)\<rparr>"
  have j: "ki_records j = ki_records i @ [new]" "ki_bytes j = ki_bytes i @ s"
    "ki_buckets j = (ki_buckets i)(hash s := ident)" "ki_maxIDs j = ki_maxIDs i" "ki_maxBytes j = ki_maxBytes i"
    "ki_lastInterned j = ki_lastInterned i" and id: "ident = of_nat (?n + 1)"
    using app by (auto simp: append_record_def Let_def new_def)
  show "ident = of_nat (?n + 1)" by (rule id)
  have un: "unat ident = ?n + 1" unfolding id
    using caps(1) unat_u32_less [of "ki_maxIDs i"] by (intro unat_u32_of_nat) linarith
  then show "unat ident = ?n + 1" .
  have off: "unat (kr_offset new) = length (ki_bytes i)" "unat (kr_length new) = length s"
    using caps(2) by (simp_all add: new_def)
  have new_bytes: "rec_bytes (ki_bytes j) new = s" by (simp add: rec_bytes_def off j slice_def)
  then show "\<exists>new. ki_records j = ki_records i @ [new] \<and> rec_bytes (ki_bytes j) new = s" using j(1) by blast
  have old: "rec_bytes (ki_bytes j) (ki_records i ! k) = rec_bytes (ki_bytes i) (ki_records i ! k)" if "k < ?n" for k
    unfolding j(2) using wf_recordD(1) [OF wf that] by (rule rec_bytes_append)
  then show "\<forall>k<?n. rec_bytes (ki_bytes j) (ki_records i ! k) = rec_bytes (ki_bytes i) (ki_records i ! k)" by blast
  have buckets: "unat (ki_buckets i h) \<le> ?n" for h using wf by (simp add: interner_wf_def)
  have chain_new: "chain (ki_records j) (?n + 1) = (?n + 1) # chain (ki_records i) (unat (ki_buckets i (hash s)))"
    using buckets [of "hash s"] chain_append [of "unat (ki_buckets i (hash s))" "ki_records i" "[new]"]
    by (subst chain.simps) (simp add: j(1) new_def)
  have maps: "map (rec_bytes (ki_bytes j)) (ki_records i) = map (rec_bytes (ki_bytes i)) (ki_records i)"
    using old by (auto simp: in_set_conv_nth)
  have dist: "distinct (map (rec_bytes (ki_bytes j)) (ki_records j))"
  proof -
    have "distinct (map (rec_bytes (ki_bytes i)) (ki_records i))" using wf by (simp add: interner_wf_def)
    moreover have "s \<notin> set (map (rec_bytes (ki_bytes i)) (ki_records i))" using absent by (auto simp: in_set_conv_nth)
    ultimately show ?thesis unfolding j(1) map_append maps using new_bytes by simp
  qed
  have recs: "let rec = ki_records j ! k in
      unat (kr_offset rec) + unat (kr_length rec) \<le> length (ki_bytes j) \<and> kr_length rec \<noteq> 0 \<and> unat (kr_next rec) \<le> k
      \<and> k + 1 \<in> set (chain (ki_records j) (unat (ki_buckets j (hash (rec_bytes (ki_bytes j) rec)))))"
    if k: "k < length (ki_records j)" for k
  proof (cases "k = ?n")
    case True
    have "kr_length new \<noteq> 0" using off(2) ne by auto
    then show ?thesis using True off buckets [of "hash s"] chain_new un new_bytes
      by (simp add: j nth_append Let_def new_def [symmetric]) (simp add: new_def)
  next
    case False
    then have kn: "k < ?n" using k j(1) by simp
    have r: "ki_records j ! k = ki_records i ! k" using kn by (simp add: j(1) nth_append)
    have "k + 1 \<in> set (chain (ki_records i) (unat (ki_buckets i (hash (rec_bytes (ki_bytes i) (ki_records i ! k))))))"
      by (rule wf_recordD(4) [OF wf kn])
    then have "k + 1 \<in> set (chain (ki_records j) (unat (ki_buckets j (hash (rec_bytes (ki_bytes i) (ki_records i ! k))))))"
      using chain_new un chain_append [OF buckets] by (auto simp: j(1,3))
    moreover have "kr_length (ki_records i ! k) \<noteq> 0" using wf kn by (simp add: interner_wf_def Let_def)
    ultimately show ?thesis using wf_recordD(1,3) [OF wf kn] old [OF kn] by (simp add: r j(2) Let_def)
  qed
  show "interner_wf hash j"
    unfolding interner_wf_def
    using caps recs dist buckets un wf by (auto simp: j interner_wf_def le_SucI)
qed


lemma copyBytes_wf:
  assumes "interner_wf hash i"
  shows "copyBytes i ident = (if ident = 0 then Some []
     else if unat ident \<le> length (ki_records i) then Some (rec_bytes (ki_bytes i) (ki_records i ! (unat ident - 1))) else None)"
proof (cases "ident = 0 \<or> unat ident > length (ki_records i)")
  case True
  then show ?thesis by (auto simp: copyBytes_def record_of_def)
next
  case False
  moreover have "0 < unat ident" using False by (simp add: unat_gt_0)
  ultimately have "unat ident - 1 < length (ki_records i)" by linarith
  then show ?thesis using False wf_recordD(1) [OF assms, of "unat ident - 1"]
    by (simp add: copyBytes_def record_of_def Let_def rec_bytes_def not_less)
qed

lemma copyBytes_nth:
  assumes "interner_wf hash i" "k < length (ki_records i)"
  shows "copyBytes i (of_nat (k + 1)) = Some (rec_bytes (ki_bytes i) (ki_records i ! k))"
    "(of_nat (k + 1) :: u32) \<noteq> 0"
proof -
  have u: "unat (of_nat (k + 1) :: u32) = k + 1" by (rule wf_ident [OF assms])
  then show ne: "(of_nat (k + 1) :: u32) \<noteq> 0" by (metis add_is_0 unat_0 one_neq_zero)
  show "copyBytes i (of_nat (k + 1)) = Some (rec_bytes (ki_bytes i) (ki_records i ! k))"
    using assms(2) by (simp only: copyBytes_wf [OF assms(1)] u ne if_False) simp
qed

lemma copyBytes_Some:
  assumes "interner_wf hash i" "copyBytes i ident = Some b"
  shows "(ident = 0 \<and> b = []) \<or> (\<exists>k<length (ki_records i). ident = of_nat (k + 1) \<and> b = rec_bytes (ki_bytes i) (ki_records i ! k))"
proof (cases "ident = 0")
  case False
  then have "0 < unat ident" by (simp add: unat_gt_0)
  moreover have "unat ident \<le> length (ki_records i)" "b = rec_bytes (ki_bytes i) (ki_records i ! (unat ident - 1))"
    using assms False by (auto simp: copyBytes_wf [OF assms(1)] split: if_splits)
  ultimately show ?thesis by (intro disjI2 exI [of _ "unat ident - 1"]) auto
qed (use assms in \<open>simp add: copyBytes_def\<close>)

text \<open>What one call does, whatever its outcome.\<close>

definition intern_post :: "(bytes \<Rightarrow> u64) \<Rightarrow> 'd checkpointInterner \<Rightarrow> bytes \<Rightarrow> 'd checkpointInterner \<Rightarrow> internError + u32 \<Rightarrow> bool" where
  "intern_post hash i s j r \<longleftrightarrow> interner_wf hash j
     \<and> (\<forall>ident b. copyBytes i ident = Some b \<longrightarrow> copyBytes j ident = Some b)
     \<and> (\<forall>ident. r = Inr ident \<longrightarrow> copyBytes j ident = Some s)"

lemma wf_last: "interner_wf hash j \<Longrightarrow> unat ident \<le> length (ki_records j) \<Longrightarrow> interner_wf hash (j\<lparr>ki_lastInterned := ident\<rparr>)"
  by (simp add: interner_wf_def)

lemma internHash_correct:
  assumes "interner_wf hash i" "s \<noteq> []"
  shows "\<exists>j r. internHash sha i s (hash s) = Some (j, r) \<and> intern_post hash i s j r
    \<and> (\<forall>ident. r = Inr ident \<longrightarrow> unat ident \<le> length (ki_records j))"
proof -
  have b: "unat (ki_buckets i (hash s)) \<le> length (ki_records i)" using assms(1) by (simp add: interner_wf_def)
  obtain r0 where w: "chain_walk i s (ki_buckets i (hash s)) = Some r0" using chain_walk_correct [OF assms(1) b] by blast
  obtain found where f: "r0 = Inr found"
    "if found = 0 then \<forall>k<length (ki_records i). rec_bytes (ki_bytes i) (ki_records i ! k) \<noteq> s
     else \<exists>k<length (ki_records i). found = of_nat (k + 1) \<and> rec_bytes (ki_bytes i) (ki_records i ! k) = s"
    using walk_bucket [OF assms(1) w] by blast
  have stay: "intern_post hash i s i (Inl e)" for e using assms(1) by (simp add: intern_post_def)
  show ?thesis
  proof (cases "found = 0")
    case False
    then obtain k where k: "k < length (ki_records i)" "found = of_nat (k + 1)" "rec_bytes (ki_bytes i) (ki_records i ! k) = s"
      using f(2) by auto
    have "intern_post hash i s i (Inr found)" using copyBytes_nth(1) [OF assms(1) k(1)] k assms(1) by (simp add: intern_post_def)
    moreover have "unat found \<le> length (ki_records i)" using wf_ident [OF assms(1) k(1)] k by simp
    ultimately show ?thesis using assms(2) w f(1) False by (simp add: internHash_def)
  next
    case True
    then have absent: "\<forall>k<length (ki_records i). rec_bytes (ki_bytes i) (ki_records i ! k) \<noteq> s" using f(2) by simp
    show ?thesis
    proof (cases "cap_check i s")
      case (Some e)
      then show ?thesis using assms(2) w f(1) True stay [of e] by (simp add: internHash_def)
    next
      case ok: None
      obtain j ident where j: "append_record sha i s (hash s) = (j, ident)" by (cases "append_record sha i s (hash s)")
      have a: "int (length (ki_records i)) < uint (ki_maxIDs i)" "int (length (ki_bytes i)) + int (length s) \<le> 4294967295"
        "int (length s) \<le> uint (ki_maxBytes i) - int (length (ki_bytes i))"
        using ok by (auto simp: cap_check_def split: if_splits)
      have u: "int (unat (ki_maxIDs i)) = uint (ki_maxIDs i)" "int (unat (ki_maxBytes i)) = uint (ki_maxBytes i)" by simp_all
      have caps: "length (ki_records i) < unat (ki_maxIDs i)" "length (ki_bytes i) + length s < 4294967296"
        "length (ki_bytes i) + length s \<le> unat (ki_maxBytes i)"
        using a u by linarith+
      note ap = append_record_wf [OF assms absent caps j]
      obtain new where new: "ki_records j = ki_records i @ [new]" "rec_bytes (ki_bytes j) new = s" using ap(3) by blast
      have "copyBytes j x = Some b" if "copyBytes i x = Some b" for x b
        using copyBytes_Some [OF assms(1) that]
      proof (elim disjE exE conjE)
        fix k assume k: "k < length (ki_records i)" "x = of_nat (k + 1)" "b = rec_bytes (ki_bytes i) (ki_records i ! k)"
        then show ?thesis using copyBytes_nth(1) [OF ap(1), of k] ap(4) new(1) by (simp add: nth_append)
      qed (simp add: copyBytes_def)
      moreover have "copyBytes j ident = Some s"
        using copyBytes_nth(1) [OF ap(1), of "length (ki_records i)"] new by (simp add: ap(2) nth_append)
      ultimately have "intern_post hash i s j (Inr ident)" using ap(1) by (simp add: intern_post_def)
      moreover have "unat ident \<le> length (ki_records j)" using ap(5) new(1) by simp
      ultimately show ?thesis using assms(2) w f(1) True ok j by (simp add: internHash_def)
    qed
  qed
qed

lemma intern_correct:
  assumes "interner_wf hash i"
  shows "\<exists>j r. intern hash sha i s = Some (j, r) \<and> intern_post hash i s j r"
proof (cases "s = []")
  case True
  then show ?thesis using assms by (simp add: intern_def intern_post_def copyBytes_def)
next
  case False
  let ?l = "ki_lastInterned i"
  show ?thesis
  proof (cases "?l \<noteq> 0 \<and> (case record_of i ?l of None \<Rightarrow> False | Some rec \<Rightarrow> record_equal i rec s)")
    case True
    then have le: "unat ?l \<le> length (ki_records i)" "record_equal i (ki_records i ! (unat ?l - 1)) s"
      by (auto simp: record_of_def split: if_splits)
    then have "copyBytes i ?l = Some s" using True by (auto simp: copyBytes_def record_of_def record_equal_def Let_def)
    then show ?thesis using True False assms by (auto simp: intern_def intern_post_def Let_def)
  next
    case slow: False
    obtain j r where j: "internHash sha i s (hash s) = Some (j, r)" "intern_post hash i s j r"
      "\<forall>ident. r = Inr ident \<longrightarrow> unat ident \<le> length (ki_records j)"
      using internHash_correct [OF assms False] by blast
    have cb: "copyBytes (j\<lparr>ki_lastInterned := x\<rparr>) = copyBytes j" for x
      by (simp add: fun_eq_iff copyBytes_def record_of_def Let_def)
    show ?thesis
    proof (cases r)
      case (Inl e)
      then show ?thesis using j slow False by (auto simp: intern_def Let_def)
    next
      case (Inr ident)
      then have "intern_post hash i s (j\<lparr>ki_lastInterned := ident\<rparr>) r"
        using j(2,3) wf_last by (auto simp: intern_post_def cb)
      then show ?thesis using j(1) Inr slow False by (auto simp: intern_def Let_def)
    qed
  qed
qed


section \<open>The contract\<close>

text \<open>
  An interner: a successful call returns an identity with the given content, no call changes the
  content of an identity, and no two identities share a content. Identities returned at any two
  moments of a history are then equal exactly when the interned values are.
\<close>

locale byte_interner =
  fixes inv :: "'s \<Rightarrow> bool" and content :: "'s \<Rightarrow> 'i \<Rightarrow> 'b option" and put :: "'s \<Rightarrow> 'b \<Rightarrow> 's \<times> 'i option"
  assumes put_inv: "inv s \<Longrightarrow> inv (fst (put s b))"
    and put_content: "inv s \<Longrightarrow> snd (put s b) = Some x \<Longrightarrow> content (fst (put s b)) x = Some b"
    and put_keeps: "inv s \<Longrightarrow> content s x = Some c \<Longrightarrow> content (fst (put s b)) x = Some c"
    and unique: "inv s \<Longrightarrow> content s x = Some b \<Longrightarrow> content s y = Some b \<Longrightarrow> x = y"
begin

fun put_all :: "'s \<Rightarrow> 'b list \<Rightarrow> 's \<times> 'i option list" where
  "put_all s [] = (s, [])"
| "put_all s (b # bs) = (let p = put s b; q = put_all (fst p) bs in (fst q, snd p # snd q))"

lemma put_all_keeps:
  "inv s \<Longrightarrow> inv (fst (put_all s bs)) \<and> (\<forall>x c. content s x = Some c \<longrightarrow> content (fst (put_all s bs)) x = Some c)"
  by (induction bs arbitrary: s) (simp_all add: Let_def put_inv put_keeps)

lemma put_all_content:
  assumes "inv s" "k < length bs" "snd (put_all s bs) ! k = Some x"
  shows "content (fst (put_all s bs)) x = Some (bs ! k)"
  using assms
proof (induction bs arbitrary: s k)
  case (Cons b bs)
  let ?t = "fst (put s b)"
  have inv: "inv ?t" by (rule put_inv [OF Cons.prems(1)])
  show ?case
  proof (cases k)
    case 0
    then show ?thesis using Cons.prems put_content [OF Cons.prems(1)] put_all_keeps [OF inv, of bs] by (simp add: Let_def)
  next
    case (Suc m)
    then show ?thesis using Cons.IH [OF inv, of m] Cons.prems by (simp add: Let_def)
  qed
qed simp

lemma put_all_length: "length (snd (put_all s bs)) = length bs"
  by (induction bs arbitrary: s) (simp_all add: Let_def)

lemma same_identity:
  assumes "inv s" "j < length bs" "k < length bs"
    "snd (put_all s bs) ! j = Some x" "snd (put_all s bs) ! k = Some y"
  shows "x = y \<longleftrightarrow> bs ! j = bs ! k"
  using put_all_content [OF assms(1,2,4)] put_all_content [OF assms(1,3,5)] unique put_all_keeps [OF assms(1)] by fastforce

end

text \<open>A call as the contract sees it.\<close>

definition put_bytes :: "(bytes \<Rightarrow> u64) \<Rightarrow> (bytes \<Rightarrow> 'd) \<Rightarrow> 'd checkpointInterner \<Rightarrow> bytes \<Rightarrow> 'd checkpointInterner \<times> u32 option" where
  "put_bytes hash sha i s =
     (case intern hash sha i s of
        Some (j, Inr ident) \<Rightarrow> (j, Some ident) | Some (j, Inl e) \<Rightarrow> (j, None) | None \<Rightarrow> (i, None))"

lemma contents_unique:
  assumes "interner_wf hash i" "copyBytes i x = Some b" "copyBytes i y = Some b"
  shows "x = y"
proof -
  have "j = k" if "j < length (ki_records i)" "k < length (ki_records i)"
    "rec_bytes (ki_bytes i) (ki_records i ! j) = rec_bytes (ki_bytes i) (ki_records i ! k)" for j k
    using assms(1) that nth_eq_iff_index_eq [of "map (rec_bytes (ki_bytes i)) (ki_records i)" j k]
    by (simp add: interner_wf_def)
  then show ?thesis
    using copyBytes_Some [OF assms(1,2)] copyBytes_Some [OF assms(1,3)] wf_recordD(2) [OF assms(1)] by metis
qed

interpretation checkpoints: byte_interner "interner_wf hash" copyBytes "put_bytes hash (sha :: bytes \<Rightarrow> 'd)"
proof unfold_locales
  fix i :: "'d checkpointInterner" and b and x c
  assume wf: "interner_wf hash i"
  obtain j r where j: "intern hash sha i b = Some (j, r)" "intern_post hash i b j r" using intern_correct [OF wf] by blast
  then show "interner_wf hash (fst (put_bytes hash sha i b))"
    and "snd (put_bytes hash sha i b) = Some x \<Longrightarrow> copyBytes (fst (put_bytes hash sha i b)) x = Some b"
    and "copyBytes i x = Some c \<Longrightarrow> copyBytes (fst (put_bytes hash sha i b)) x = Some c"
    by (auto simp: put_bytes_def intern_post_def split: sum.splits)
next
  fix i :: "'d checkpointInterner" and x y b
  assume "interner_wf hash i" "copyBytes i x = Some b" "copyBytes i y = Some b"
  then show "x = y" by (rule contents_unique)
qed


text \<open>Interning a list of states in order: the results of the calls.\<close>

fun intern_all :: "(bytes \<Rightarrow> u64) \<Rightarrow> (bytes \<Rightarrow> 'd) \<Rightarrow> 'd checkpointInterner \<Rightarrow> bytes list
    \<Rightarrow> ('d checkpointInterner \<times> (internError + u32) list) option" where
  "intern_all hash sha i [] = Some (i, [])"
| "intern_all hash sha i (s # ss) =
     (case intern hash sha i s of
        None \<Rightarrow> None
      | Some (j, r) \<Rightarrow> (case intern_all hash sha j ss of None \<Rightarrow> None | Some (k, rs) \<Rightarrow> Some (k, r # rs)))"

lemma intern_all_put:
  assumes "interner_wf hash i"
  shows "\<exists>j rs. intern_all hash sha i ss = Some (j, rs) \<and> interner_wf hash j
    \<and> checkpoints.put_all hash sha i ss = (j, map (case_sum (\<lambda>_. None) Some) rs)"
  using assms
proof (induction ss arbitrary: i)
  case (Cons s ss)
  obtain j r where j: "intern hash sha i s = Some (j, r)" "intern_post hash i s j r" using intern_correct [OF Cons.prems] by blast
  have p: "put_bytes hash sha i s = (j, case_sum (\<lambda>_. None) Some r)" using j(1) by (simp add: put_bytes_def split: sum.splits)
  have "interner_wf hash j" using j(2) by (simp add: intern_post_def)
  then obtain k rs where "intern_all hash sha j ss = Some (k, rs)" "interner_wf hash k"
    "checkpoints.put_all hash sha j ss = (k, map (case_sum (\<lambda>_. None) Some) rs)" using Cons.IH by blast
  then show ?case using j(1) p by (simp add: checkpoints.put_all.simps)
qed (simp add: checkpoints.put_all.simps)

lemma intern_caps:
  "intern hash sha i s = Some (j, r) \<Longrightarrow> ki_maxIDs j = ki_maxIDs i \<and> ki_maxBytes j = ki_maxBytes i"
  by (auto simp: intern_def internHash_def append_record_def Let_def split: if_splits option.splits sum.splits)

lemma intern_all_caps:
  "intern_all hash sha i ss = Some (j, rs) \<Longrightarrow> ki_maxIDs j = ki_maxIDs i \<and> ki_maxBytes j = ki_maxBytes i"
proof (induction ss arbitrary: i rs)
  case (Cons s ss)
  then obtain k r rs' where "intern hash sha i s = Some (k, r)" "intern_all hash sha k ss = Some (j, rs')"
    by (auto split: option.splits)
  then show ?case using intern_caps [of hash sha i s k r] Cons.IH by auto
qed simp

text \<open>
  C27. Interned checkpoint identities are exact. For every hash function, interning any sequence of
  serialized scanner states in a fresh interner returns; the caps on identities and bytes hold; two
  calls that succeed return the same identity if and only if their states are equal; and at the end
  every returned identity still yields its state byte for byte.
\<close>

theorem interned_identities_exact:
  "\<exists>i rs. intern_all hash sha (newCheckpointInterner maxIDs maxBytes) ss = Some (i, rs)
     \<and> length rs = length ss
     \<and> length (ki_records i) \<le> unat maxIDs \<and> length (ki_bytes i) \<le> unat maxBytes
     \<and> (\<forall>j k x y. j < length ss \<and> k < length ss \<and> rs ! j = Inr x \<and> rs ! k = Inr y
          \<longrightarrow> (x = y \<longleftrightarrow> ss ! j = ss ! k) \<and> copyBytes i x = Some (ss ! j))"
proof -
  let ?n = "newCheckpointInterner maxIDs maxBytes"
  have wf: "interner_wf hash ?n" by (rule wf_new)
  obtain i rs where run: "intern_all hash sha ?n ss = Some (i, rs)" and i: "interner_wf hash i"
    and put: "checkpoints.put_all hash sha ?n ss = (i, map (case_sum (\<lambda>_. None) Some) rs)"
    using intern_all_put [OF wf] by blast
  have len: "length rs = length ss" using checkpoints.put_all_length [of hash sha ?n ss] put by simp
  have caps: "ki_maxIDs i = maxIDs" "ki_maxBytes i = maxBytes"
    using intern_all_caps [OF run] by (simp_all add: newCheckpointInterner_def)
  have "(x = y \<longleftrightarrow> ss ! j = ss ! k) \<and> copyBytes i x = Some (ss ! j)"
    if "j < length ss \<and> k < length ss \<and> rs ! j = Inr x \<and> rs ! k = Inr y" for j k x y
    using checkpoints.same_identity [OF wf, of j ss k sha x y] checkpoints.put_all_content [OF wf, of j ss sha x] that put len
    by simp
  then show ?thesis using run len i caps by (auto simp: interner_wf_def)
qed


theorem interned_identities_exact_witness:
  "\<exists>i. intern_all (\<lambda>_. 0) (\<lambda>_. ()) (newCheckpointInterner 2 10) [[1], [2], [1]] = Some (i, [Inr 1, Inr 2, Inr 1])
     \<and> copyBytes i 1 = Some [1]"
proof -
  let ?run = "intern_all (\<lambda>_. 0) (\<lambda>_. ()) (newCheckpointInterner 2 10) [[1], [2], [1]]"
  have rs: "map_option snd ?run = Some [Inr 1, Inr 2, Inr 1]" by code_simp
  obtain i rs where i: "?run = Some (i, rs)"
    and c: "\<forall>j k x y. j < 3 \<and> k < 3 \<and> rs ! j = Inr x \<and> rs ! k = Inr y
      \<longrightarrow> (x = y \<longleftrightarrow> [[1], [2], [1 :: u8]] ! j = [[1], [2], [1]] ! k) \<and> copyBytes i x = Some ([[1], [2], [1]] ! j)"
    using interned_identities_exact [of "\<lambda>_. 0" "\<lambda>_. ()" 2 10 "[[1], [2], [1]]"] by (auto simp: numeral_3_eq_3)
  have "rs = [Inr 1, Inr 2, Inr 1]" using rs i by simp
  then show ?thesis using i c [rule_format, of 0 0 1 1] by simp
qed

text \<open>
  The caps refuse only new states: a state that an interner holds is always interned again, with
  the identity it has and without growing the table, also when the interner is full.
\<close>

theorem interned_state_never_refused:
  assumes "interner_wf hash i" "copyBytes i x = Some s"
  shows "\<exists>j. intern hash sha i s = Some (j, Inr x) \<and> ki_records j = ki_records i \<and> ki_bytes j = ki_bytes i"
proof -
  have "\<exists>j y. intern hash sha i s = Some (j, Inr y) \<and> ki_records j = ki_records i \<and> ki_bytes j = ki_bytes i"
  proof (cases "s = []")
    case False
    then obtain k where k: "k < length (ki_records i)" "s = rec_bytes (ki_bytes i) (ki_records i ! k)"
      using copyBytes_Some [OF assms] by blast
    have "unat (ki_buckets i (hash s)) \<le> length (ki_records i)" using assms(1) by (simp add: interner_wf_def)
    then obtain r0 where w: "chain_walk i s (ki_buckets i (hash s)) = Some r0" using chain_walk_correct [OF assms(1)] by blast
    then obtain found where "r0 = Inr found" "found \<noteq> 0" using walk_bucket [OF assms(1) w] k by metis
    then have "internHash sha i s (hash s) = Some (i, Inr found)" using False w by (simp add: internHash_def)
    then show ?thesis using False by (simp add: intern_def Let_def)
  qed (simp add: intern_def)
  then obtain j y where j: "intern hash sha i s = Some (j, Inr y)" "ki_records j = ki_records i" "ki_bytes j = ki_bytes i" by blast
  have "intern_post hash i s j (Inr y)" using intern_correct [OF assms(1), of sha s] j(1) by auto
  then have "y = x" using contents_unique [of hash j y s x] assms(2) by (auto simp: intern_post_def)
  then show ?thesis using j by blast
qed

theorem interned_state_never_refused_witness:
  "\<exists>i j. intern_all (\<lambda>_. 0) (\<lambda>_. ()) (newCheckpointInterner 1 10) [[1], [2]] = Some (i, [Inr 1, Inl IdentityCap])
     \<and> copyBytes i 1 = Some [1] \<and> intern (\<lambda>_. 0) (\<lambda>_. ()) i [1] = Some (j, Inr 1)"
proof -
  let ?run = "intern_all (\<lambda>_. 0) (\<lambda>_. ()) (newCheckpointInterner 1 10) [[1], [2]]"
  have r: "map_option snd ?run = Some [Inr 1, Inl IdentityCap]" "map_option (\<lambda>(i, _). copyBytes i 1) ?run = Some (Some [1])"
    by code_simp+
  obtain i rs where i: "?run = Some (i, rs)" "interner_wf (\<lambda>_. 0) i" using intern_all_put [OF wf_new] by blast
  then have "copyBytes i 1 = Some [1]" "rs = [Inr 1, Inl IdentityCap]" using r by simp_all
  then show ?thesis using interned_state_never_refused [OF i(2), of 1 "[1]" "\<lambda>_. ()"] i(1) by blast
qed

end
