(* ===== verification/Parse_Tables.thy ===== *)
theory Parse_Tables
  imports Go_Prelude
begin

text \<open>
  The parse tables, \<^verbatim>\<open>internal/runtime/parser_tables.go\<close>: action lookup in the dense and the
  compressed table, the derived lookup rows a parser builds once per language, enumeration of the
  actions of a state, goto targets, and the external-symbol rows and masks. The lemmas show that the
  derived rows, dense, linear and binary, answer exactly as the walk through the compressed table,
  and that the enumeration and the masks are complete.
\<close>

section \<open>Data\<close>

datatype parseActionType = ParseActionShift | ParseActionReduce | ParseActionAccept | ParseActionRecover

record parseAction =
  pa_Type :: parseActionType
  pa_State :: u32
  pa_Symbol :: u16
  pa_ChildCount :: u8
  pa_DynamicPrecedence :: int
  pa_ProductionID :: u16
  pa_Extra :: bool
  pa_ExtraChain :: bool
  pa_Repetition :: bool

record parseActionEntry =
  pe_Reusable :: bool
  pe_Actions :: "parseAction list"

text \<open>The fields of \<^verbatim>\<open>Language\<close> the table code reads.\<close>

record language =
  lg_Name :: string
  lg_SymbolCount :: u32
  lg_TokenCount :: u32
  lg_StateCount :: u32
  lg_LargeStateCount :: u32
  lg_InitialState :: u32
  lg_GeneratedByGrammargen :: bool
  lg_ParseTable :: "u16 list list"
  lg_SmallParseTable :: "u16 list"
  lg_SmallParseTableMap :: "u32 list"
  lg_ParseActions :: "parseActionEntry list"
  lg_LargeStateGotos :: "(u64 \<times> u32) list"
  lg_ExternalSymbols :: "u16 list"
  lg_ExternalLexStates :: "bool list list"
  lg_lexModeCount :: nat

text \<open>A pair of a symbol and its action index, \<^verbatim>\<open>smallActionPair\<close>.\<close>

type_synonym smallActionPair = "u16 \<times> u16"

text \<open>The inputs of the table walk, \<^verbatim>\<open>parserActionTableView\<close>, without the classified actions.\<close>

record parserActionTableView =
  pv_language :: language
  pv_denseLimit :: nat
  pv_smallBase :: nat
  pv_smallTokenLookup :: "u16 list list"
  pv_smallLookup :: "smallActionPair list list"

section \<open>The compressed table\<close>

text \<open>
  A compressed row is a group count and then, per group, a value, a symbol count and the symbols.
  \<open>groups\<close> is the walk all loops over a row share: it stops when a header does not fit, and a group
  at the end of the table has the symbols that are there.
\<close>

fun groups :: "u16 list \<Rightarrow> nat \<Rightarrow> nat \<Rightarrow> (u16 \<times> u16 list) list" where
  "groups table pos 0 = []"
| "groups table pos (Suc n) =
     (if pos + 1 \<ge> length table then []
      else let count = unat (table ! (pos + 1)) in
        (table ! pos, slice table (pos + 2) (pos + 2 + count)) # groups table (pos + 2 + count) n)"

definition row_groups :: "u16 list \<Rightarrow> nat \<Rightarrow> (u16 \<times> u16 list) list" where
  "row_groups table offset =
     (if offset \<ge> length table then [] else groups table (offset + 1) (unat (table ! offset)))"

definition row_pairs :: "u16 list \<Rightarrow> nat \<Rightarrow> smallActionPair list" where
  "row_pairs table offset = concat (map (\<lambda>(val, syms). map (\<lambda>s. (s, val)) syms) (row_groups table offset))"

section \<open>Derived rows\<close>

text \<open>
  The counting pass of \<^verbatim>\<open>buildSmallLookup\<close>: zero when a header does not fit; without a dense row it
  adds the declared counts, with one it counts the symbols at or past the dense limit.
\<close>

fun count_total :: "u16 list \<Rightarrow> nat \<Rightarrow> nat \<Rightarrow> nat \<Rightarrow> nat \<Rightarrow> nat" where
  "count_total table countPos denseLookupLimit 0 tot = tot"
| "count_total table countPos denseLookupLimit (Suc n) tot =
     (if countPos + 1 \<ge> length table then 0
      else
        let symbolCount = unat (table ! (countPos + 1)); countPos = countPos + 2 in
        if denseLookupLimit = 0
        then count_total table (countPos + symbolCount) denseLookupLimit n (tot + symbolCount)
        else
          let syms = slice table countPos (countPos + symbolCount) in
          count_total table (countPos + length syms) denseLookupLimit n
            (tot + length (filter (\<lambda>s. unat s \<ge> denseLookupLimit) syms)))"

text \<open>The sort is by symbol; rows hold a symbol once, so the order of equal symbols does not matter.\<close>

definition small_row :: "u16 list \<Rightarrow> nat \<Rightarrow> nat \<Rightarrow> smallActionPair list" where
  "small_row table offset denseLookupLimit =
     (if offset \<ge> length table then []
      else if count_total table (offset + 1) denseLookupLimit (unat (table ! offset)) 0 = 0 then []
      else sort_key (\<lambda>p. unat (fst p))
        (filter (\<lambda>p. denseLookupLimit = 0 \<or> unat (fst p) \<ge> denseLookupLimit) (row_pairs table offset)))"

definition row_length :: "u16 list list \<Rightarrow> nat \<Rightarrow> nat" where
  "row_length rows i = (if i < length rows then length (rows ! i) else 0)"

definition buildSmallLookup :: "language \<Rightarrow> u16 list list \<Rightarrow> smallActionPair list list" where
  "buildSmallLookup lang smallTokenLookup =
     map (\<lambda>smallIdx. small_row (lg_SmallParseTable lang) (unat (lg_SmallParseTableMap lang ! smallIdx))
            (row_length smallTokenLookup smallIdx))
       [0..<length (lg_SmallParseTableMap lang)]"

definition isCobolLanguage :: "language \<Rightarrow> bool" where
  "isCobolLanguage lang \<longleftrightarrow> lg_Name lang = ''cobol'' \<or> lg_Name lang = ''COBOL''"

definition compactSmallTokenRows :: "language \<Rightarrow> bool" where
  "compactSmallTokenRows lang = isCobolLanguage lang"

definition smallDenseLookupSymbolLimit :: "language \<Rightarrow> nat" where
  "smallDenseLookupSymbolLimit lang =
     (if lg_GeneratedByGrammargen lang \<and> lg_SymbolCount lang > lg_TokenCount lang
      then unat (lg_SymbolCount lang) else unat (lg_TokenCount lang))"

text \<open>Writing the pairs of a row into a dense array; the second result counts the filled cells.\<close>

fun dense_fill :: "u16 list \<Rightarrow> nat \<Rightarrow> smallActionPair list \<Rightarrow> u16 list \<times> nat" where
  "dense_fill row used [] = (row, used)"
| "dense_fill row used ((s, val) # ps) =
     (if unat s < length row
      then dense_fill (row[unat s := val]) (if row ! unat s = 0 then used + 1 else used) ps
      else dense_fill row used ps)"

definition full_row :: "u16 list \<Rightarrow> nat \<Rightarrow> nat \<Rightarrow> nat \<Rightarrow> u16 list" where
  "full_row table offset symbolLimit threshold =
     (if offset \<ge> length table then []
      else let (row, used) = dense_fill (replicate symbolLimit 0) 0 (row_pairs table offset) in
        if used > threshold then row else [])"

definition buildSmallTokenLookupFullRows :: "language \<Rightarrow> nat \<Rightarrow> u16 list list" where
  "buildSmallTokenLookupFullRows lang threshold =
     map (\<lambda>offset. full_row (lg_SmallParseTable lang) (unat offset) (smallDenseLookupSymbolLimit lang) threshold)
       (lg_SmallParseTableMap lang)"

text \<open>
  The compact row of \<^verbatim>\<open>buildSmallTokenLookup\<close>: the stamps in \<^verbatim>\<open>seen\<close> count each token symbol of the
  row once, so \<open>used\<close> is the number of distinct token symbols and the array ends at the largest.
\<close>

definition compact_row :: "u16 list \<Rightarrow> nat \<Rightarrow> nat \<Rightarrow> nat \<Rightarrow> u16 list" where
  "compact_row table offset tokenCount threshold =
     (if offset \<ge> length table then []
      else
        let syms = remdups (filter (\<lambda>s. s < tokenCount) (map (\<lambda>p. unat (fst p)) (row_pairs table offset))) in
        if length syms > threshold
        then fst (dense_fill (replicate (Max (set syms) + 1) 0) 0 (row_pairs table offset))
        else [])"

definition smallTokenDenseThreshold :: nat where "smallTokenDenseThreshold = 8"
definition cobolSmallTokenDenseThreshold :: nat where "cobolSmallTokenDenseThreshold = 12"
definition typeScriptSmallTokenDenseThreshold :: nat where "typeScriptSmallTokenDenseThreshold = 4"

definition buildSmallTokenLookup :: "language \<Rightarrow> u16 list list" where
  "buildSmallTokenLookup lang =
     (if lg_TokenCount lang = 0 \<or> lg_SmallParseTableMap lang = [] \<or> lg_SmallParseTable lang = [] then []
      else if \<not> compactSmallTokenRows lang then
        (let threshold = (if lg_GeneratedByGrammargen lang then 0
                          else if lg_Name lang = ''typescript'' then typeScriptSmallTokenDenseThreshold
                          else smallTokenDenseThreshold) in
         buildSmallTokenLookupFullRows lang threshold)
      else
        map (\<lambda>offset. compact_row (lg_SmallParseTable lang) (unat offset) (unat (lg_TokenCount lang))
                cobolSmallTokenDenseThreshold) (lg_SmallParseTableMap lang))"

definition languageDenseLimit :: "language \<Rightarrow> nat" where
  "languageDenseLimit l =
     (if lg_LargeStateCount l > 0 then unat (lg_LargeStateCount l) else length (lg_ParseTable l))"

text \<open>The view a parser of the language has: the first two tables of \<^verbatim>\<open>buildParserDerivedTables\<close>.\<close>

definition derived_view :: "language \<Rightarrow> parserActionTableView" where
  "derived_view l =
     (let tokens = (if lg_SmallParseTableMap l \<noteq> [] \<and> lg_SmallParseTable l \<noteq> [] then buildSmallTokenLookup l else []);
          small = (if lg_SmallParseTableMap l \<noteq> [] \<and> lg_SmallParseTable l \<noteq> [] then buildSmallLookup l tokens else []) in
      \<lparr>pv_language = l, pv_denseLimit = languageDenseLimit l, pv_smallBase = unat (lg_LargeStateCount l),
       pv_smallTokenLookup = tokens, pv_smallLookup = small\<rparr>)"

section \<open>Lookup\<close>

fun linear_pairs :: "smallActionPair list \<Rightarrow> u16 \<Rightarrow> u16" where
  "linear_pairs [] target = 0"
| "linear_pairs ((s, val) # ps) target =
     (if s = target then val else if s > target then 0 else linear_pairs ps target)"

text \<open>The hand-written binary search has the shape of \<^verbatim>\<open>sort.Search\<close>.\<close>

definition binary_pairs :: "smallActionPair list \<Rightarrow> u16 \<Rightarrow> u16" where
  "binary_pairs pairs target =
     (let lo = sort_search (length pairs) (\<lambda>mid. \<not> fst (pairs ! mid) < target) in
      if lo < length pairs \<and> fst (pairs ! lo) = target then snd (pairs ! lo) else 0)"

fun first_pair :: "smallActionPair list \<Rightarrow> u16 \<Rightarrow> u16" where
  "first_pair [] target = 0"
| "first_pair ((s, val) # ps) target = (if s = target then val else first_pair ps target)"

definition lookupActionIndexSmall :: "parserActionTableView \<Rightarrow> u32 \<Rightarrow> u16 \<Rightarrow> u16" where
  "lookupActionIndexSmall v state sm =
     (let lang = pv_language v; smallIdx = unat state - pv_smallBase v in
      if unat state < pv_smallBase v \<or> smallIdx \<ge> length (lg_SmallParseTableMap lang) then 0
      else if smallIdx < length (pv_smallTokenLookup v)
              \<and> unat sm < length (pv_smallTokenLookup v ! smallIdx)
      then pv_smallTokenLookup v ! smallIdx ! unat sm
      else if smallIdx < length (pv_smallLookup v) \<and> pv_smallLookup v ! smallIdx \<noteq> [] then
        (let pairs = pv_smallLookup v ! smallIdx in
         if length pairs \<le> 8 then linear_pairs pairs sm else binary_pairs pairs sm)
      else first_pair (row_pairs (lg_SmallParseTable lang) (unat (lg_SmallParseTableMap lang ! smallIdx))) sm)"

definition lookupActionIndex :: "parserActionTableView \<Rightarrow> u32 \<Rightarrow> u16 \<Rightarrow> u16" where
  "lookupActionIndex v state sm =
     (if unat state < pv_denseLimit v then
        (if unat state \<ge> length (lg_ParseTable (pv_language v)) then 0
         else let row = lg_ParseTable (pv_language v) ! unat state in
           if unat sm \<ge> length row then 0 else row ! unat sm)
      else lookupActionIndexSmall v state sm)"

definition lookupAction :: "parserActionTableView \<Rightarrow> u32 \<Rightarrow> u16 \<Rightarrow> parseActionEntry option" where
  "lookupAction v state sm =
     (let idx = lookupActionIndex v state sm in
      if idx = 0 then None
      else if unat idx < length (lg_ParseActions (pv_language v))
      then Some (lg_ParseActions (pv_language v) ! unat idx) else None)"

definition largeStateGotoKey :: "u32 \<Rightarrow> u16 \<Rightarrow> u64" where
  "largeStateGotoKey state sm = or (push_bit 32 (ucast state)) (ucast sm)"

definition lookupLargeStateGoto :: "language \<Rightarrow> u32 \<Rightarrow> u16 \<Rightarrow> u32" where
  "lookupLargeStateGoto l state sm =
     (case map_of (lg_LargeStateGotos l) (largeStateGotoKey state sm) of None \<Rightarrow> 0 | Some t \<Rightarrow> t)"

definition lookupGoto :: "parserActionTableView \<Rightarrow> u32 \<Rightarrow> u16 \<Rightarrow> u32" where
  "lookupGoto v state sm =
     (let l = pv_language v;
          nonterminal = (lg_TokenCount l > 0 \<and> ucast sm \<ge> lg_TokenCount l) in
      if nonterminal \<and> lookupLargeStateGoto l state sm \<noteq> 0 then lookupLargeStateGoto l state sm
      else
        let raw = lookupActionIndex v state sm in
        if raw = 0 then 0
        else if nonterminal \<and> lg_StateCount l > 0 \<and> lg_InitialState l > 0 then ucast raw
        else if unat raw < length (lg_ParseActions l) then
          (case pe_Actions (lg_ParseActions l ! unat raw) of
             a # _ \<Rightarrow> if pa_Type a = ParseActionShift then pa_State a else 0
           | [] \<Rightarrow> 0)
        else 0)"

section \<open>Enumeration\<close>

text \<open>A dense row yields its non-zero cells, in ascending symbol order.\<close>

definition dense_pairs :: "u16 list \<Rightarrow> smallActionPair list" where
  "dense_pairs row = filter (\<lambda>p. snd p \<noteq> 0) (map (\<lambda>i. (of_nat i, row ! i)) [0..<length row])"

text \<open>The pairs \<^verbatim>\<open>forEachActionIndexInState\<close> offers to its visitor, in order.\<close>

definition actions_in_state :: "parserActionTableView \<Rightarrow> u32 \<Rightarrow> smallActionPair list" where
  "actions_in_state v state =
     (let lang = pv_language v in
      if unat state < pv_denseLimit v then
        (if unat state \<ge> length (lg_ParseTable lang) then [] else dense_pairs (lg_ParseTable lang ! unat state))
      else
        let smallIdx = unat state - pv_smallBase v in
        if unat state < pv_smallBase v \<or> smallIdx \<ge> length (lg_SmallParseTableMap lang) then []
        else
          let hasDenseRow = (smallIdx < length (pv_smallTokenLookup v) \<and> pv_smallTokenLookup v ! smallIdx \<noteq> []);
              hasOverflow = (smallIdx < length (pv_smallLookup v) \<and> pv_smallLookup v ! smallIdx \<noteq> []) in
          if hasDenseRow \<or> hasOverflow then
            (if hasDenseRow then dense_pairs (pv_smallTokenLookup v ! smallIdx) else [])
            @ (if hasOverflow then pv_smallLookup v ! smallIdx else [])
          else row_pairs (lg_SmallParseTable lang) (unat (lg_SmallParseTableMap lang ! smallIdx)))"

text \<open>The visitor ends the enumeration by returning false.\<close>

fun visit_until :: "('s \<Rightarrow> u16 \<Rightarrow> u16 \<Rightarrow> 's \<times> bool) \<Rightarrow> 's \<Rightarrow> smallActionPair list \<Rightarrow> 's" where
  "visit_until f s [] = s"
| "visit_until f s ((sm, idx) # ps) = (let (s', go) = f s sm idx in if go then visit_until f s' ps else s')"

definition forEachActionIndexInState ::
    "parserActionTableView \<Rightarrow> u32 \<Rightarrow> ('s \<Rightarrow> u16 \<Rightarrow> u16 \<Rightarrow> 's \<times> bool) \<Rightarrow> 's \<Rightarrow> 's" where
  "forEachActionIndexInState v state f s = visit_until f s (actions_in_state v state)"

section \<open>External symbols\<close>

definition buildExternalValidByState :: "parserActionTableView \<Rightarrow> u16 list list" where
  "buildExternalValidByState v =
     (let l = pv_language v; exts = lg_ExternalSymbols l in
      if exts = [] \<or> lg_ExternalLexStates l \<noteq> [] \<or> int (length exts) > 65535 then []
      else
        let stateCount =
          (if lg_StateCount l = 0
           then max (max (length (lg_ParseTable l)) (pv_smallBase v + length (lg_SmallParseTableMap l)))
                  (lg_lexModeCount l)
           else unat (lg_StateCount l)) in
        map (\<lambda>state. map of_nat (filter (\<lambda>i. lookupActionIndex v (of_nat state) (exts ! i) \<noteq> 0) [0..<length exts]))
          [0..<stateCount])"

definition valid_mask :: "nat \<Rightarrow> u16 list \<Rightarrow> u64" where
  "valid_mask externalSymbolCount row =
     fold (\<lambda>extIdx mask. if unat extIdx \<ge> externalSymbolCount then mask
                          else or mask (push_bit (unat extIdx) 1)) row 0"

definition buildExternalValidMaskByState :: "u16 list list \<Rightarrow> nat \<Rightarrow> u64 list" where
  "buildExternalValidMaskByState rows externalSymbolCount =
     (if rows = [] \<or> externalSymbolCount = 0 \<or> externalSymbolCount > 64 then []
      else let masks = map (valid_mask externalSymbolCount) rows in
        if \<forall>m\<in>set masks. m = 0 then [] else masks)"

section \<open>The derived rows answer as the compressed table\<close>

definition value_of :: "smallActionPair list \<Rightarrow> u16 \<Rightarrow> u16" where
  "value_of ps sm = (case map_of ps sm of None \<Rightarrow> 0 | Some v \<Rightarrow> v)"

lemma value_of_simps [simp]:
  "value_of [] sm = 0" "value_of ((s, v) # ps) sm = (if s = sm then v else value_of ps sm)"
  by (simp_all add: value_of_def)

lemma first_pair_value: "first_pair ps sm = value_of ps sm"
  by (induction ps) auto

lemma value_of_absent: "sm \<notin> fst ` set ps \<Longrightarrow> value_of ps sm = 0"
  by (induction ps) auto

lemma value_of_same_set:
  assumes "distinct (map fst ps)" "distinct (map fst qs)" "set ps = set qs"
  shows "value_of ps = value_of qs"
  using map_of_inject_set [OF assms(1,2)] assms(3) by (auto simp: value_of_def fun_eq_iff)

lemma value_of_filter:
  "P sm \<Longrightarrow> value_of (filter (\<lambda>p. P (fst p)) ps) sm = value_of ps sm"
  by (induction ps) auto

lemma map_of_unat:
  "map_of (map (\<lambda>(s, v). (unat s, v)) ps) (unat (sm :: u16)) = map_of ps sm"
  by (induction ps) (auto simp: word_unat_eq_iff)

lemma dense_fill_value:
  assumes "distinct (map fst ps)"
  shows "length (fst (dense_fill row used ps)) = length row \<and>
    (\<forall>i<length row. fst (dense_fill row used ps) ! i =
      (case map_of (map (\<lambda>(s, v). (unat s, v)) ps) i of None \<Rightarrow> row ! i | Some v \<Rightarrow> v))"
  using assms
proof (induction row used ps rule: dense_fill.induct)
  case (2 row used s val ps)
  have "map_of (map (\<lambda>(s, v). (unat s, v)) ps) (unat s) = None"
    using "2.prems" by (simp add: map_of_unat map_of_eq_None_iff)
  then show ?case using 2 by (auto split: option.splits)
qed simp

lemma dense_fill_zero:
  assumes "distinct (map fst ps)" "unat sm < n"
  shows "fst (dense_fill (replicate n 0) 0 ps) ! unat sm = value_of ps sm"
    "length (fst (dense_fill (replicate n 0) 0 ps)) = n"
  using dense_fill_value [OF assms(1), of "replicate n 0" 0] assms(2)
  by (auto simp: map_of_unat value_of_def split: option.splits)

text \<open>Pairs in strictly ascending symbol order: both searches find the value.\<close>

lemma linear_pairs_value:
  "sorted_wrt (<) (map fst ps) \<Longrightarrow> linear_pairs ps sm = value_of ps sm"
proof (induction ps sm rule: linear_pairs.induct)
  case (2 s val ps target)
  have "value_of ps target = 0" if "s > target"
    using "2.prems" that by (intro value_of_absent) auto
  then show ?case using 2 by auto
qed simp

lemma binary_pairs_value:
  assumes "sorted_wrt (<) (map fst ps)"
  shows "binary_pairs ps sm = value_of ps sm"
proof -
  let ?f = "\<lambda>i. \<not> fst (ps ! i) < sm"
  let ?lo = "sort_search (length ps) ?f"
  have lt: "fst (ps ! i) < fst (ps ! j)" if "i < j" "j < length ps" for i j
    using sorted_wrt_nth_less [OF assms, of i j] that by simp
  have mono: "?f j" if "i \<le> j" "j < length ps" "?f i" for i j
    using lt [of i j] that by (cases "i = j") (auto simp: not_less)
  have bounds: "?lo \<le> length ps" "\<And>i. i < ?lo \<Longrightarrow> fst (ps ! i) < sm" "?lo < length ps \<Longrightarrow> ?f ?lo"
    using sort_search_mono [of "length ps" ?f] mono by blast+
  have dist: "distinct (map fst ps)" using assms by (simp add: strict_sorted_iff)
  show ?thesis
  proof (cases "sm \<in> fst ` set ps")
    case True
    then obtain k where k: "k < length ps" "fst (ps ! k) = sm" by (auto simp: in_set_conv_nth)
    then have "?lo \<le> k" using bounds(2) [of k] by (cases "k < ?lo") auto
    moreover have "\<not> ?lo < k"
    proof
      assume "?lo < k"
      then have "fst (ps ! ?lo) < sm" using lt [of ?lo k] k by simp
      then show False using bounds(3) \<open>?lo < k\<close> k(1) by auto
    qed
    ultimately have "?lo = k" by simp
    moreover have "map_of ps sm = Some (snd (ps ! k))"
      using map_of_is_SomeI [OF dist, of sm "snd (ps ! k)"] nth_mem [OF k(1)] k(2) by (metis prod.collapse)
    ultimately show ?thesis using k by (simp add: binary_pairs_def Let_def value_of_def)
  next
    case False
    then have "fst (ps ! i) \<noteq> sm" if "i < length ps" for i using nth_mem [OF that] by force
    then have "\<not> (?lo < length ps \<and> fst (ps ! ?lo) = sm)" by blast
    then show ?thesis using value_of_absent [OF False] by (auto simp: binary_pairs_def Let_def)
  qed
qed

text \<open>A row of the compressed table that names each symbol once.\<close>

definition distinct_row :: "u16 list \<Rightarrow> nat \<Rightarrow> bool" where
  "distinct_row table offset \<longleftrightarrow> distinct (map fst (row_pairs table offset))"

lemma small_row_props:
  assumes "distinct_row table offset" "small_row table offset limit \<noteq> []"
  shows "sorted_wrt (<) (map fst (small_row table offset limit))"
    "limit = 0 \<or> limit \<le> unat sm \<Longrightarrow> value_of (small_row table offset limit) sm = value_of (row_pairs table offset) sm"
proof -
  let ?P = "\<lambda>s. limit = 0 \<or> limit \<le> unat (s :: u16)"
  let ?F = "filter (\<lambda>p. ?P (fst p)) (row_pairs table offset)"
  have sr: "small_row table offset limit = sort_key (\<lambda>p. unat (fst p)) ?F"
    using assms(2) by (auto simp: small_row_def split: if_splits)
  have dF: "distinct (map fst ?F)" using assms(1) by (simp add: distinct_row_def distinct_map_filter)
  have dS: "distinct (map fst (sort_key (\<lambda>p. unat (fst p)) ?F))"
    using dF by (simp add: distinct_map)
  have "sorted (map (\<lambda>p. unat (fst p)) (sort_key (\<lambda>p. unat (fst p)) ?F))" by simp
  then have "sorted (map fst (sort_key (\<lambda>p. unat (fst p)) ?F))" by (simp add: sorted_wrt_map word_le_nat_alt)
  then show "sorted_wrt (<) (map fst (small_row table offset limit))"
    using dS unfolding sr by (simp add: strict_sorted_iff)
  have "value_of (sort_key (\<lambda>p. unat (fst p)) ?F) = value_of ?F"
    using dS dF by (intro value_of_same_set) auto
  moreover have "value_of ?F sm = value_of (row_pairs table offset) sm" if "?P sm"
    using that by (rule value_of_filter)
  ultimately show "?P sm \<Longrightarrow> value_of (small_row table offset limit) sm = value_of (row_pairs table offset) sm"
    unfolding sr by simp
qed

definition distinct_rows :: "language \<Rightarrow> bool" where
  "distinct_rows l \<longleftrightarrow> (\<forall>offset\<in>set (lg_SmallParseTableMap l). distinct_row (lg_SmallParseTable l) (unat offset))"

text \<open>The same view without the derived rows: every lookup walks the compressed table.\<close>

definition raw_view :: "language \<Rightarrow> parserActionTableView" where
  "raw_view l = (derived_view l)\<lparr>pv_smallTokenLookup := [], pv_smallLookup := []\<rparr>"

text \<open>What a dense row of \<open>buildSmallTokenLookup\<close> holds, for either layout.\<close>

lemma compact_row_filled:
  assumes "compact_row table offset n k \<noteq> []"
  shows "\<exists>m. compact_row table offset n k = fst (dense_fill (replicate m 0) 0 (row_pairs table offset))"
proof -
  let ?syms = "remdups (filter (\<lambda>s. s < n) (map (\<lambda>p. unat (fst p)) (row_pairs table offset)))"
  have "compact_row table offset n k = fst (dense_fill (replicate (Max (set ?syms) + 1) 0) 0 (row_pairs table offset))"
    using assms unfolding compact_row_def Let_def by metis
  then show ?thesis by blast
qed

lemma full_row_filled:
  assumes "full_row table offset n k \<noteq> []"
  shows "\<exists>m. full_row table offset n k = fst (dense_fill (replicate m 0) 0 (row_pairs table offset))"
proof -
  have "full_row table offset n k = fst (dense_fill (replicate n 0) 0 (row_pairs table offset))"
    using assms by (auto simp: full_row_def split: if_splits prod.splits)
  then show ?thesis by blast
qed

lemma token_row_value:
  assumes "i < length (buildSmallTokenLookup l)"
    and "distinct_row (lg_SmallParseTable l) (unat (lg_SmallParseTableMap l ! i))"
    and "unat sm < length (buildSmallTokenLookup l ! i)"
  shows "buildSmallTokenLookup l ! i ! unat sm
    = value_of (row_pairs (lg_SmallParseTable l) (unat (lg_SmallParseTableMap l ! i))) sm"
    "i < length (lg_SmallParseTableMap l)"
proof -
  let ?table = "lg_SmallParseTable l" and ?off = "unat (lg_SmallParseTableMap l ! i)"
  obtain n where row: "buildSmallTokenLookup l ! i = fst (dense_fill (replicate n 0) 0 (row_pairs ?table ?off))"
    and i: "i < length (lg_SmallParseTableMap l)"
  proof (cases "compactSmallTokenRows l")
    case True
    then have "buildSmallTokenLookup l ! i = compact_row ?table ?off (unat (lg_TokenCount l)) cobolSmallTokenDenseThreshold"
      "i < length (lg_SmallParseTableMap l)"
      using assms(1) by (auto simp: buildSmallTokenLookup_def split: if_splits)
    moreover have "compact_row ?table ?off (unat (lg_TokenCount l)) cobolSmallTokenDenseThreshold \<noteq> []"
      using assms(3) calculation(1) by auto
    then obtain n where "compact_row ?table ?off (unat (lg_TokenCount l)) cobolSmallTokenDenseThreshold
        = fst (dense_fill (replicate n 0) 0 (row_pairs ?table ?off))"
      using compact_row_filled by blast
    ultimately show ?thesis using that by simp
  next
    case False
    then obtain k where "buildSmallTokenLookup l ! i = full_row ?table ?off (smallDenseLookupSymbolLimit l) k"
      "i < length (lg_SmallParseTableMap l)"
      using assms(1) by (auto simp: buildSmallTokenLookup_def buildSmallTokenLookupFullRows_def Let_def split: if_splits)
    moreover have "full_row ?table ?off (smallDenseLookupSymbolLimit l) k \<noteq> []"
      using assms(3) calculation(1) by auto
    then obtain n where "full_row ?table ?off (smallDenseLookupSymbolLimit l) k
        = fst (dense_fill (replicate n 0) 0 (row_pairs ?table ?off))"
      using full_row_filled by blast
    ultimately show ?thesis using that by simp
  qed
  show "i < length (lg_SmallParseTableMap l)" by (rule i)
  have d: "distinct (map fst (row_pairs ?table ?off))" using assms(2) by (simp add: distinct_row_def)
  have "length (fst (dense_fill (replicate n 0) 0 (row_pairs ?table ?off))) = n"
    using dense_fill_value [OF d, of "replicate n 0" 0] by simp
  then have "unat sm < n" using assms(3) row by simp
  then show "buildSmallTokenLookup l ! i ! unat sm = value_of (row_pairs ?table ?off) sm"
    using dense_fill_zero(1) [OF d] row by simp
qed

lemma lookup_small_exact:
  assumes "\<And>offset. offset \<in> set (lg_SmallParseTableMap l) \<Longrightarrow> distinct_row (lg_SmallParseTable l) (unat offset)"
  shows "lookupActionIndexSmall (derived_view l) state sm = lookupActionIndexSmall (raw_view l) state sm"
proof -
  let ?v = "derived_view l" and ?i = "unat state - unat (lg_LargeStateCount l)"
  let ?off = "unat (lg_SmallParseTableMap l ! ?i)"
  let ?row = "row_pairs (lg_SmallParseTable l) ?off"
  have v: "pv_language ?v = l" "pv_smallBase ?v = unat (lg_LargeStateCount l)"
    by (simp_all add: derived_view_def Let_def)
  have raw: "lookupActionIndexSmall (raw_view l) state sm =
      (if unat state < unat (lg_LargeStateCount l) \<or> ?i \<ge> length (lg_SmallParseTableMap l) then 0
       else value_of ?row sm)"
    by (simp add: lookupActionIndexSmall_def raw_view_def Let_def v first_pair_value)
  show ?thesis
  proof (cases "unat state < unat (lg_LargeStateCount l) \<or> ?i \<ge> length (lg_SmallParseTableMap l)")
    case True
    then show ?thesis by (simp add: raw lookupActionIndexSmall_def [of ?v] Let_def v)
  next
    case False
    then have i: "?i < length (lg_SmallParseTableMap l)" by simp
    have d: "distinct_row (lg_SmallParseTable l) ?off" using i by (intro assms) simp
    show ?thesis
    proof (cases "lg_SmallParseTable l = []")
      case True
      then have "raw_view l = derived_view l" by (simp add: raw_view_def derived_view_def Let_def)
      then show ?thesis by simp
    next
      case ne: False
      let ?tok = "buildSmallTokenLookup l" and ?small = "buildSmallLookup l (buildSmallTokenLookup l)"
      let ?lim = "row_length ?tok ?i"
      have tabs: "pv_smallTokenLookup ?v = ?tok" "pv_smallLookup ?v = ?small"
        using ne i by (auto simp: derived_view_def Let_def)
      have sm_row: "?small ! ?i = small_row (lg_SmallParseTable l) ?off ?lim" "?i < length ?small"
        using i by (auto simp: buildSmallLookup_def)
      note unf = lookupActionIndexSmall_def [of ?v] v tabs Let_def
      show ?thesis
      proof (cases "?i < length ?tok \<and> unat sm < length (?tok ! ?i)")
        case True
        then show ?thesis using token_row_value(1) [of ?i l sm] d False by (simp add: unf raw)
      next
        case low: False
        then have lim: "?lim = 0 \<or> ?lim \<le> unat sm" by (auto simp: row_length_def)
        show ?thesis
        proof (cases "?small ! ?i = []")
          case True
          then show ?thesis using False low by (auto simp: unf raw first_pair_value)
        next
          case nonempty: False
          note sp = small_row_props [OF d, of ?lim, folded sm_row(1), OF nonempty]
          have "linear_pairs (?small ! ?i) sm = value_of ?row sm" "binary_pairs (?small ! ?i) sm = value_of ?row sm"
            using linear_pairs_value [OF sp(1)] binary_pairs_value [OF sp(1)] sp(2) [OF lim] by simp_all
          then show ?thesis using False low nonempty sm_row(2) by (auto simp: unf raw)
        qed
      qed
    qed
  qed
qed

text \<open>
  C8. The derived lookup rows a parser builds are exact: for a language whose compressed rows name
  each symbol once, the action index through the dense token rows, the sorted overflow pairs
  (searched linearly up to eight entries, by bisection above) and the fallback is, for every state
  and symbol, the one the walk through the compressed table gives.
\<close>

theorem derived_lookup_exact:
  assumes "distinct_rows l"
  shows "lookupActionIndex (derived_view l) state sm = lookupActionIndex (raw_view l) state sm"
  using lookup_small_exact [of l state sm] assms
  by (auto simp: distinct_rows_def lookupActionIndex_def raw_view_def derived_view_def Let_def)


text \<open>A small language: one dense state, then two compressed ones.\<close>

definition demo_language :: language where
  "demo_language = \<lparr>lg_Name = ''demo'', lg_SymbolCount = 5, lg_TokenCount = 3, lg_StateCount = 3,
     lg_LargeStateCount = 1, lg_InitialState = 0, lg_GeneratedByGrammargen = True,
     lg_ParseTable = [[0, 1, 0, 2, 0]],
     lg_SmallParseTable = [2, 7, 2, 1, 4, 9, 1, 2, 1, 5, 1, 3], lg_SmallParseTableMap = [0, 8],
     lg_ParseActions = [], lg_LargeStateGotos = [], lg_ExternalSymbols = [2, 4],
     lg_ExternalLexStates = [], lg_lexModeCount = 3\<rparr>"

lemma demo_rows: "distinct_rows demo_language"
  by code_simp

theorem derived_lookup_exact_witness:
  "distinct_rows demo_language
   \<and> lookupActionIndex (derived_view demo_language) 1 4 = lookupActionIndex (raw_view demo_language) 1 4
   \<and> lookupActionIndex (derived_view demo_language) 1 4 = 7"
  using derived_lookup_exact [OF demo_rows, of 1 4] demo_rows by (auto; code_simp)

section \<open>The enumeration is complete\<close>

text \<open>A row whose group headers all lie inside the table.\<close>

definition whole_row :: "u16 list \<Rightarrow> nat \<Rightarrow> bool" where
  "whole_row table offset \<longleftrightarrow>
     offset < length table \<and> length (row_groups table offset) = unat (table ! offset)"

definition group_pairs :: "(u16 \<times> u16 list) list \<Rightarrow> smallActionPair list" where
  "group_pairs gs = concat (map (\<lambda>(val, syms). map (\<lambda>s. (s, val)) syms) gs)"

lemma group_pairs_simps [simp]:
  "group_pairs [] = []" "group_pairs ((val, syms) # gs) = map (\<lambda>s. (s, val)) syms @ group_pairs gs"
  by (simp_all add: group_pairs_def)

lemma groups_past_end: "length table \<le> pos + 1 \<Longrightarrow> groups table pos n = []"
  by (cases n) auto

lemma count_total_zero:
  assumes "length (groups table pos n) = n" "count_total table pos limit n tot = 0"
  shows "tot = 0 \<and> (\<forall>p\<in>set (group_pairs (groups table pos n)). limit \<noteq> 0 \<and> unat (fst p) < limit)"
  using assms
proof (induction n arbitrary: pos tot)
  case (Suc n)
  let ?c = "unat (table ! (pos + 1))"
  let ?syms = "slice table (pos + 2) (pos + 2 + ?c)"
  have fits: "\<not> length table \<le> pos + 1" using Suc.prems(1) by (auto split: if_splits)
  then have rest: "length (groups table (pos + 2 + ?c) n) = n" using Suc.prems(1) by (simp add: Let_def)
  show ?case
  proof (cases "limit = 0")
    case True
    then have "tot + ?c = 0 \<and> (\<forall>p\<in>set (group_pairs (groups table (pos + 2 + ?c) n)). limit \<noteq> 0 \<and> unat (fst p) < limit)"
      using Suc.IH [OF rest, of "tot + ?c"] Suc.prems(2) fits by (auto simp: Let_def)
    then show ?thesis using fits True by (auto simp: Let_def slice_def)
  next
    case False
    have len: "length ?syms = ?c \<or> n = 0"
    proof (cases n)
      case (Suc m)
      then have "\<not> length table \<le> pos + 2 + ?c + 1" using rest groups_past_end by fastforce
      then show ?thesis by (simp add: slice_def)
    qed simp
    let ?t = "tot + length (filter (\<lambda>s. unat s \<ge> limit) ?syms)"
    have "count_total table (pos + 2 + length ?syms) limit n ?t = 0"
      using Suc.prems(2) fits False by (simp add: Let_def)
    then have "count_total table (pos + 2 + ?c) limit n ?t = 0" using len by auto
    then have "?t = 0 \<and> (\<forall>p\<in>set (group_pairs (groups table (pos + 2 + ?c) n)). limit \<noteq> 0 \<and> unat (fst p) < limit)"
      by (rule Suc.IH [OF rest])
    then show ?thesis using fits False by (auto simp: Let_def filter_empty_conv not_le)
  qed
qed simp

lemma small_row_set:
  assumes "whole_row table offset"
  shows "set (small_row table offset limit) = {p \<in> set (row_pairs table offset). limit = 0 \<or> limit \<le> unat (fst p)}"
proof (cases "count_total table (offset + 1) limit (unat (table ! offset)) 0 = 0")
  case True
  have "row_pairs table offset = group_pairs (groups table (offset + 1) (unat (table ! offset)))"
    using assms by (simp add: row_pairs_def row_groups_def group_pairs_def whole_row_def)
  then have "\<forall>p\<in>set (row_pairs table offset). limit \<noteq> 0 \<and> unat (fst p) < limit"
    using count_total_zero [OF _ True] assms by (auto simp: whole_row_def row_groups_def split: if_splits)
  then show ?thesis using True by (auto simp: small_row_def)
next
  case False
  then show ?thesis using assms by (auto simp: small_row_def whole_row_def)
qed

lemma dense_pairs_mem:
  assumes "length row \<le> 65536" "idx \<noteq> 0"
  shows "(sm, idx) \<in> set (dense_pairs row) \<longleftrightarrow> unat sm < length row \<and> row ! unat sm = idx"
proof -
  have "unat (of_nat i :: u16) = i" if "i < length row" for i
    using that assms(1) by (simp add: unat_of_nat)
  then show ?thesis using assms(2)
    by (fastforce simp: dense_pairs_def image_iff intro!: bexI [of _ "unat sm"])
qed

lemma value_of_mem:
  assumes "distinct (map fst ps)" "idx \<noteq> 0"
  shows "value_of ps sm = idx \<longleftrightarrow> (sm, idx) \<in> set ps"
proof -
  have "(sm, idx) \<in> set ps \<longleftrightarrow> map_of ps sm = Some idx" using assms(1) by simp
  then show ?thesis using assms(2) by (auto simp: value_of_def split: option.splits)
qed

text \<open>The conditions under which the enumeration is complete, on every row of the language.\<close>

definition whole_tables :: "language \<Rightarrow> bool" where
  "whole_tables l \<longleftrightarrow>
     (\<forall>offset\<in>set (lg_SmallParseTableMap l).
        distinct_row (lg_SmallParseTable l) (unat offset) \<and> whole_row (lg_SmallParseTable l) (unat offset))
     \<and> (\<forall>row\<in>set (lg_ParseTable l). int (length row) \<le> 65536)
     \<and> lg_SymbolCount l \<le> 65536 \<and> lg_TokenCount l \<le> 65536"

lemma token_row_length:
  assumes "whole_tables l" "i < length (buildSmallTokenLookup l)"
  shows "length (buildSmallTokenLookup l ! i) \<le> 65536"
proof -
  have fill: "length (fst (dense_fill row used ps)) = length row" for row used ps
    by (induction row used ps rule: dense_fill.induct) (auto simp: Let_def)
  have lim: "smallDenseLookupSymbolLimit l \<le> 65536"
    using assms(1) by (auto simp: whole_tables_def smallDenseLookupSymbolLimit_def word_le_nat_alt)
  have full: "length (full_row t off (smallDenseLookupSymbolLimit l) k) \<le> 65536" for t off k
    using lim fill by (auto simp: full_row_def Let_def split: prod.splits) (metis fst_conv length_replicate)
  have sym: "unat (s :: u16) < 65536" for s using unsigned_less [of s, where 'a = nat] by simp
  have compact: "length (compact_row t off n k) \<le> 65536" for t off n k
  proof (cases "compact_row t off n k = []")
    case False
    let ?syms = "remdups (filter (\<lambda>s. s < n) (map (\<lambda>p. unat (fst p)) (row_pairs t off)))"
    have row: "compact_row t off n k = fst (dense_fill (replicate (Max (set ?syms) + 1) 0) 0 (row_pairs t off))"
      and "length ?syms > k"
      using False unfolding compact_row_def Let_def by metis+
    then have ne: "set ?syms \<noteq> {}" and len: "length (compact_row t off n k) = Max (set ?syms) + 1"
      by (fastforce, unfold row fill, simp)
    have "Max (set ?syms) \<in> set ?syms" using ne by (intro Max_in) auto
    then have "Max (set ?syms) < 65536" using sym by auto
    then show ?thesis using len by simp
  qed simp
  show ?thesis using assms(2) full compact
    by (auto simp: buildSmallTokenLookup_def buildSmallTokenLookupFullRows_def Let_def split: if_splits)
qed

lemma small_actions_enumerated:
  assumes "whole_tables l" "idx \<noteq> 0" "\<not> unat state < languageDenseLimit l"
  shows "(sm, idx) \<in> set (actions_in_state (derived_view l) state)
    \<longleftrightarrow> lookupActionIndexSmall (derived_view l) state sm = idx"
proof -
  let ?v = "derived_view l" and ?i = "unat state - unat (lg_LargeStateCount l)"
  let ?off = "unat (lg_SmallParseTableMap l ! ?i)"
  let ?row = "row_pairs (lg_SmallParseTable l) ?off"
  have v: "pv_language ?v = l" "pv_smallBase ?v = unat (lg_LargeStateCount l)" "pv_denseLimit ?v = languageDenseLimit l"
    by (simp_all add: derived_view_def Let_def)
  note acts = actions_in_state_def [of ?v] v Let_def
  have exact: "lookupActionIndexSmall ?v state sm = lookupActionIndexSmall (raw_view l) state sm"
    using assms(1) by (intro lookup_small_exact) (simp add: whole_tables_def)
  have raw: "lookupActionIndexSmall (raw_view l) state sm =
      (if unat state < unat (lg_LargeStateCount l) \<or> ?i \<ge> length (lg_SmallParseTableMap l) then 0
       else value_of ?row sm)"
    by (simp add: lookupActionIndexSmall_def raw_view_def Let_def v first_pair_value)
  show ?thesis
  proof (cases "unat state < unat (lg_LargeStateCount l) \<or> ?i \<ge> length (lg_SmallParseTableMap l)")
    case True
    then show ?thesis using assms(2,3) by (auto simp: exact raw acts)
  next
    case False
    then have i: "?i < length (lg_SmallParseTableMap l)" by simp
    have d: "distinct_row (lg_SmallParseTable l) ?off" and w: "whole_row (lg_SmallParseTable l) ?off"
      using i assms(1) by (auto simp: whole_tables_def)
    have ne: "lg_SmallParseTable l \<noteq> []" using w by (auto simp: whole_row_def)
    have mem: "(sm, idx) \<in> set ?row \<longleftrightarrow> value_of ?row sm = idx"
      using value_of_mem [of ?row idx sm] d assms(2) by (simp add: distinct_row_def)
    let ?tok = "buildSmallTokenLookup l" and ?small = "buildSmallLookup l (buildSmallTokenLookup l)"
    let ?lim = "row_length ?tok ?i"
    have tabs: "pv_smallTokenLookup ?v = ?tok" "pv_smallLookup ?v = ?small"
      using ne i by (auto simp: derived_view_def Let_def)
    have small: "?small ! ?i = small_row (lg_SmallParseTable l) ?off ?lim" "?i < length ?small"
      using i by (auto simp: buildSmallLookup_def)
    have over: "(sm, idx) \<in> set (?small ! ?i) \<longleftrightarrow> (sm, idx) \<in> set ?row \<and> (?lim = 0 \<or> ?lim \<le> unat sm)"
      by (simp add: small(1) small_row_set [OF w])
    have dense: "(sm, idx) \<in> set (dense_pairs (?tok ! ?i)) \<longleftrightarrow> unat sm < ?lim \<and> value_of ?row sm = idx"
      if "?i < length ?tok"
      using dense_pairs_mem [OF token_row_length [OF assms(1) that] assms(2)] token_row_value(1) [OF that d] that
      by (auto simp: row_length_def)
    show ?thesis
    proof (cases "?i < length ?tok \<and> ?tok ! ?i \<noteq> []")
      case True
      then have "(sm, idx) \<in> set (actions_in_state ?v state)
          \<longleftrightarrow> (sm, idx) \<in> set (dense_pairs (?tok ! ?i)) \<or> (sm, idx) \<in> set (?small ! ?i)"
        using assms(3) False small(2) by (auto simp: acts tabs)
      also have "\<dots> \<longleftrightarrow> value_of ?row sm = idx"
        using dense over mem True by (auto simp: row_length_def)
      finally show ?thesis using False by (simp add: exact raw)
    next
      case none: False
      then have lim: "?lim = 0" by (auto simp: row_length_def)
      have "(sm, idx) \<in> set (actions_in_state ?v state) \<longleftrightarrow> (sm, idx) \<in> set ?row"
        using assms(3) False small(2) none over lim by (auto simp: acts tabs)
      then show ?thesis using False mem by (simp add: exact raw)
    qed
  qed
qed

lemma enumerated_pairs:
  assumes "whole_tables l" "idx \<noteq> 0"
  shows "(sm, idx) \<in> set (actions_in_state (derived_view l) state)
    \<longleftrightarrow> lookupActionIndex (derived_view l) state sm = idx"
proof (cases "unat state < languageDenseLimit l")
  case True
  have v: "pv_language (derived_view l) = l" "pv_denseLimit (derived_view l) = languageDenseLimit l"
    by (simp_all add: derived_view_def Let_def)
  have "length (lg_ParseTable l ! unat state) \<le> 65536" if "unat state < length (lg_ParseTable l)"
    using assms(1) that by (simp add: whole_tables_def)
  then show ?thesis using True assms(2) dense_pairs_mem [of "lg_ParseTable l ! unat state" idx sm]
    by (auto simp: actions_in_state_def lookupActionIndex_def v Let_def)
next
  case False
  have "pv_denseLimit (derived_view l) = languageDenseLimit l" by (simp add: derived_view_def Let_def)
  then show ?thesis using small_actions_enumerated [OF assms False] False by (simp add: lookupActionIndex_def)
qed

text \<open>
  Enumerating the actions of a state agrees with looking them up: for a language whose compressed
  rows are complete and name each symbol once, the pairs with a non-zero action index that
  \<^verbatim>\<open>forEachActionIndexInState\<close> offers are exactly the symbols with that index.
\<close>

theorem actions_enumerated:
  assumes "whole_tables l" "idx \<noteq> 0"
  shows "(sm, idx) \<in> set (actions_in_state (derived_view l) state)
    \<longleftrightarrow> lookupActionIndex (derived_view l) state sm = idx"
  using assms by (rule enumerated_pairs)

lemma demo_whole: "whole_tables demo_language"
  by code_simp

theorem actions_enumerated_witness:
  "whole_tables demo_language \<and>
   ((4, 7) \<in> set (actions_in_state (derived_view demo_language) 1)
    \<longleftrightarrow> lookupActionIndex (derived_view demo_language) 1 4 = 7)"
  using actions_enumerated [OF demo_whole, of 7 4 1] demo_whole by simp

section \<open>External symbols\<close>

lemma valid_mask_bit:
  "bit (fold (\<lambda>extIdx mask. if unat extIdx \<ge> n then mask else or mask (push_bit (unat extIdx) 1)) row m) i
   \<longleftrightarrow> bit m i \<or> (i < 64 \<and> i < n \<and> (\<exists>e\<in>set row. unat (e :: u16) = i))" for m :: u64
proof (induction row arbitrary: m)
  case (Cons e row)
  have b: "bit (or m (push_bit (unat e) 1)) i \<longleftrightarrow> bit m i \<or> (i < 64 \<and> i = unat e)" for m :: u64
    by (auto simp: bit_or_iff bit_exp_iff push_bit_eq_mult)
  show ?case unfolding fold_simps o_apply Cons.IH by (simp only: if_split b split: if_split) auto
qed simp

text \<open>
  The external-symbol mask of a state is exact: when masks are built, bit \<open>i\<close> of a state's mask
  is set if and only if the \<open>i\<close>-th external symbol has an action in that state.
\<close>

theorem external_mask_exact:
  assumes "lg_ExternalLexStates l = []" "state < unat (lg_StateCount l)" "i < length (lg_ExternalSymbols l)"
    and "pv_language v = l"
    and "buildExternalValidMaskByState (buildExternalValidByState v) (length (lg_ExternalSymbols l)) = masks"
    and "masks \<noteq> []"
  shows "bit (masks ! state) i
    \<longleftrightarrow> lookupActionIndex v (of_nat state) (lg_ExternalSymbols l ! i) \<noteq> 0"
proof -
  let ?exts = "lg_ExternalSymbols l"
  let ?row = "map of_nat (filter (\<lambda>i. lookupActionIndex v (of_nat state) (?exts ! i) \<noteq> 0) [0..<length ?exts]) :: u16 list"
  have n: "length ?exts \<le> 64" using assms(5,6) by (auto simp: buildExternalValidMaskByState_def split: if_splits)
  then have "buildExternalValidByState v ! state = ?row" "state < length (buildExternalValidByState v)"
    using assms(1-4) by (auto simp: buildExternalValidByState_def Let_def unat_gt_0)
  moreover have "masks = map (valid_mask (length ?exts)) (buildExternalValidByState v)"
    using assms(5,6) by (auto simp: buildExternalValidMaskByState_def Let_def split: if_splits)
  ultimately have "masks ! state = valid_mask (length ?exts) ?row" by simp
  moreover have "unat (of_nat j :: u16) = j" if "j < length ?exts" for j
    using that n by (simp add: unat_of_nat)
  ultimately show ?thesis using assms(3) n
    by (auto simp: valid_mask_def valid_mask_bit image_iff)
qed

theorem external_mask_exact_witness:
  "buildExternalValidMaskByState (buildExternalValidByState (derived_view demo_language))
     (length (lg_ExternalSymbols demo_language)) = [0, 3, 0]
   \<and> (bit ([0, 3, 0 :: u64] ! 1) 1
       \<longleftrightarrow> lookupActionIndex (derived_view demo_language) (of_nat 1) (lg_ExternalSymbols demo_language ! 1) \<noteq> 0)"
proof -
  have m: "buildExternalValidMaskByState (buildExternalValidByState (derived_view demo_language))
     (length (lg_ExternalSymbols demo_language)) = [0, 3, 0]" by code_simp
  have l: "lg_ExternalLexStates demo_language = []" "1 < unat (lg_StateCount demo_language)"
    "1 < length (lg_ExternalSymbols demo_language)" "pv_language (derived_view demo_language) = demo_language"
    by (simp_all add: demo_language_def derived_view_def Let_def)
  show ?thesis using external_mask_exact [OF l m] m by blast
qed

end
