(* ===== verification/Reduce_Tables.thy ===== *)
theory Reduce_Tables
  imports Parse_Tables
begin

text \<open>
  The reduce side of the derived parser tables, \<^verbatim>\<open>internal/runtime/parser_reduce.go\<close> and
  \<^verbatim>\<open>parser_default_reduce.go\<close>: classified actions, the states that reduce by default, reduce-chain
  hints with their index, alias and field tables, and the tables of shared anonymous tokens. The
  lemmas show that a default reduce is what every token with an action in the state does, that the
  hint index answers as a search through the hints, and that the field identifiers of a reduction,
  cached or not, are those the field map gives each child.
\<close>

section \<open>Data\<close>

record symbolMetadata =
  sy_Name :: string
  sy_Visible :: bool
  sy_Named :: bool

record fieldMapEntry =
  fe_FieldID :: u16
  fe_ChildIndex :: u8
  fe_Inherited :: bool

datatype reduceChainTerminalAction =
    ReduceChainTerminalNoAction | ReduceChainTerminalSingleReduce | ReduceChainTerminalSingleShift
  | ReduceChainTerminalSingleAccept | ReduceChainTerminalSingleOther | ReduceChainTerminalMulti
  | ReduceChainTerminalUnknown u8

record reduceChainHintMetadata =
  rm_StartState :: u32
  rm_Lookahead :: u16
  rm_TerminalStates :: "u32 list"
  rm_TerminalAction :: reduceChainTerminalAction
  rm_MaxSteps :: u16

text \<open>The fields of \<^verbatim>\<open>Language\<close> the reduce tables read beside the parse tables.\<close>

record ruleLanguage =
  rl_tables :: language
  rl_SymbolNames :: "string list"
  rl_SymbolMetadata :: "symbolMetadata list"
  rl_AliasSequences :: "u16 list list"
  rl_FieldMapSlices :: "(u16 \<times> u16) list"
  rl_FieldMapEntries :: "fieldMapEntry list"
  rl_ReduceChainHints :: "reduceChainHintMetadata list"

section \<open>Classified actions\<close>

datatype classifiedParseActionClass =
    classifiedParseActionNoAction | classifiedParseActionSingleReduce | classifiedParseActionSingleShift
  | classifiedParseActionSingleAccept | classifiedParseActionSingleOther | classifiedParseActionMulti

record classifiedParseAction =
  cl_class :: classifiedParseActionClass
  cl_action :: parseAction

text \<open>The zero value of \<^verbatim>\<open>ParseAction\<close>; the shift type has the number zero.\<close>

definition zero_action :: parseAction where
  "zero_action = \<lparr>pa_Type = ParseActionShift, pa_State = 0, pa_Symbol = 0, pa_ChildCount = 0,
     pa_DynamicPrecedence = 0, pa_ProductionID = 0, pa_Extra = False, pa_ExtraChain = False, pa_Repetition = False\<rparr>"

definition action_class :: "parseActionType \<Rightarrow> classifiedParseActionClass" where
  "action_class t =
     (case t of
        ParseActionReduce \<Rightarrow> classifiedParseActionSingleReduce
      | ParseActionShift \<Rightarrow> classifiedParseActionSingleShift
      | ParseActionAccept \<Rightarrow> classifiedParseActionSingleAccept
      | ParseActionRecover \<Rightarrow> classifiedParseActionSingleOther)"

definition classifyParseActionEntry :: "parseActionEntry \<Rightarrow> classifiedParseAction" where
  "classifyParseActionEntry entry =
     (case pe_Actions entry of
        [] \<Rightarrow> \<lparr>cl_class = classifiedParseActionNoAction, cl_action = zero_action\<rparr>
      | [action] \<Rightarrow> \<lparr>cl_class = action_class (pa_Type action), cl_action = action\<rparr>
      | _ \<Rightarrow> \<lparr>cl_class = classifiedParseActionMulti, cl_action = zero_action\<rparr>)"

definition buildClassifiedParseActions :: "language \<Rightarrow> classifiedParseAction list" where
  "buildClassifiedParseActions lang = map classifyParseActionEntry (lg_ParseActions lang)"

definition computeMaxConflictWidth :: "language \<Rightarrow> nat" where
  "computeMaxConflictWidth lang =
     fold (\<lambda>entry maxWidth. if length (pe_Actions entry) > maxWidth then length (pe_Actions entry) else maxWidth)
       (lg_ParseActions lang) 1"

definition languageHasExtraChainActions :: "language \<Rightarrow> bool" where
  "languageHasExtraChainActions lang \<longleftrightarrow>
     (\<exists>entry\<in>set (lg_ParseActions lang). \<exists>action\<in>set (pe_Actions entry). pa_ExtraChain action)"

section \<open>Default reduces\<close>

definition parserRuntimeStateCount :: "parserActionTableView \<Rightarrow> nat" where
  "parserRuntimeStateCount v =
     (let lang = pv_language v;
          stateCount = unat (lg_StateCount lang);
          stateCount = (if stateCount = 0 then length (lg_ParseTable lang) else stateCount);
          smallStates = pv_smallBase v + length (lg_SmallParseTableMap lang);
          stateCount = (if smallStates > stateCount then smallStates else stateCount) in
      if lg_lexModeCount lang > stateCount then lg_lexModeCount lang else stateCount)"

definition sameEagerDefaultReduce :: "parseAction \<Rightarrow> parseAction \<Rightarrow> bool" where
  "sameEagerDefaultReduce a b \<longleftrightarrow>
     pa_Type a = ParseActionReduce \<and> pa_Type b = ParseActionReduce \<and> pa_Symbol a = pa_Symbol b
     \<and> pa_ChildCount a = pa_ChildCount b \<and> pa_DynamicPrecedence a = pa_DynamicPrecedence b
     \<and> pa_ProductionID a = pa_ProductionID b"

text \<open>
  The visitor of one state. Its state is the candidate, whether one is found, and whether the state is
  out; \<^verbatim>\<open>Symbol(TokenCount)\<close> truncates the count to sixteen bits.
\<close>

definition eager_visit ::
    "u16 \<Rightarrow> classifiedParseAction list \<Rightarrow> parseAction \<times> bool \<times> bool \<Rightarrow> u16 \<Rightarrow> u16 \<Rightarrow> (parseAction \<times> bool \<times> bool) \<times> bool" where
  "eager_visit tokenCount classifiedActions s sm idx =
     (let (candidate, found, invalid) = s in
      if sm \<ge> tokenCount then (s, True)
      else if unat idx \<ge> length classifiedActions then ((candidate, found, True), False)
      else
        let classified = classifiedActions ! unat idx in
        if cl_class classified = classifiedParseActionSingleShift
           \<and> (pa_Extra (cl_action classified) \<or> pa_ExtraChain (cl_action classified)) then (s, True)
        else if cl_class classified \<noteq> classifiedParseActionSingleReduce \<or> pa_ChildCount (cl_action classified) = 0
        then ((candidate, found, True), False)
        else if \<not> found then ((cl_action classified, True, invalid), True)
        else if \<not> sameEagerDefaultReduce candidate (cl_action classified) then ((candidate, found, True), False)
        else (s, True))"

definition eager_state :: "parserActionTableView \<Rightarrow> classifiedParseAction list \<Rightarrow> u32 \<Rightarrow> bool \<times> parseAction" where
  "eager_state v classifiedActions state =
     (let (candidate, found, invalid) =
        forEachActionIndexInState v state (eager_visit (ucast (lg_TokenCount (pv_language v))) classifiedActions)
          (zero_action, False, False) in
      if found \<and> \<not> invalid then (True, candidate) else (False, zero_action))"

definition buildEagerDefaultReduceActions ::
    "parserActionTableView \<Rightarrow> classifiedParseAction list \<Rightarrow> (bool \<times> parseAction) list" where
  "buildEagerDefaultReduceActions v classifiedActions =
     (if lg_ParseActions (pv_language v) = [] \<or> parserRuntimeStateCount v = 0 then []
      else map (\<lambda>state. eager_state v classifiedActions (of_nat state)) [0..<parserRuntimeStateCount v])"

definition eagerDefaultReduceAction :: "(bool \<times> parseAction) list \<Rightarrow> u32 \<Rightarrow> parseAction option" where
  "eagerDefaultReduceAction eagerDefaultReduces state =
     (if unat state \<ge> length eagerDefaultReduces then None
      else let (ok, action) = eagerDefaultReduces ! unat state in if ok then Some action else None)"

definition isExternalToken :: "language \<Rightarrow> u16 \<Rightarrow> bool" where
  "isExternalToken lang sm \<longleftrightarrow> sm \<in> set (lg_ExternalSymbols lang)"

section \<open>Reduce-chain hints\<close>

record reduceChainHint =
  rh_startState :: u32
  rh_lookahead :: u16
  rh_terminalStates :: "u32 list"
  rh_terminalAction :: classifiedParseActionClass
  rh_maxSteps :: u16

definition reduceChainTerminalActionClass :: "reduceChainTerminalAction \<Rightarrow> classifiedParseActionClass option" where
  "reduceChainTerminalActionClass action =
     (case action of
        ReduceChainTerminalNoAction \<Rightarrow> Some classifiedParseActionNoAction
      | ReduceChainTerminalSingleReduce \<Rightarrow> Some classifiedParseActionSingleReduce
      | ReduceChainTerminalSingleShift \<Rightarrow> Some classifiedParseActionSingleShift
      | ReduceChainTerminalSingleAccept \<Rightarrow> Some classifiedParseActionSingleAccept
      | ReduceChainTerminalSingleOther \<Rightarrow> Some classifiedParseActionSingleOther
      | ReduceChainTerminalMulti \<Rightarrow> Some classifiedParseActionMulti
      | ReduceChainTerminalUnknown _ \<Rightarrow> None)"

definition reduceChainHintInRange :: "language \<Rightarrow> reduceChainHintMetadata \<Rightarrow> bool" where
  "reduceChainHintInRange lang hint \<longleftrightarrow>
     \<not> (rm_StartState hint \<ge> lg_StateCount lang \<or> ucast (rm_Lookahead hint) \<ge> lg_SymbolCount lang
        \<or> rm_TerminalStates hint = [])
     \<and> (\<forall>state\<in>set (rm_TerminalStates hint). state < lg_StateCount lang)"

definition buildReduceChainHintsFromMetadata :: "language \<Rightarrow> reduceChainHintMetadata list \<Rightarrow> reduceChainHint list" where
  "buildReduceChainHintsFromMetadata lang hints =
     concat (map (\<lambda>hint.
       case reduceChainTerminalActionClass (rm_TerminalAction hint) of
         None \<Rightarrow> []
       | Some terminalAction \<Rightarrow>
           if rm_MaxSteps hint = 0 \<or> \<not> reduceChainHintInRange lang hint then []
           else [\<lparr>rh_startState = rm_StartState hint, rh_lookahead = rm_Lookahead hint,
                  rh_terminalStates = rm_TerminalStates hint, rh_terminalAction = terminalAction,
                  rh_maxSteps = rm_MaxSteps hint\<rparr>]) hints)"

text \<open>The index: \<open>-1\<close> for a state without a hint, \<open>-2\<close> for one with several, else the position.\<close>

definition index_hint :: "nat \<times> reduceChainHint \<Rightarrow> int list \<Rightarrow> int list" where
  "index_hint ih index =
     (let slot = unat (rh_startState (snd ih)) in
      index[slot := (if index ! slot = -1 then int (fst ih) else -2)])"

definition buildReduceChainHintIndex :: "reduceChainHint list \<Rightarrow> int list" where
  "buildReduceChainHintIndex hints =
     (if hints = [] then []
      else
        let maxState = fold (\<lambda>hint m. if rh_startState hint > m then rh_startState hint else m) hints 0 in
        fold index_hint (enumerate 0 hints) (replicate (unat maxState + 1) (-1)))"

definition reduceChainHintFor :: "reduceChainHint list \<Rightarrow> int list \<Rightarrow> u32 \<Rightarrow> u16 \<Rightarrow> reduceChainHint option" where
  "reduceChainHintFor hints byState state lookahead =
     (if unat state \<ge> length byState then None
      else
        let hintIndex = byState ! unat state in
        if hintIndex = -2 then List.find (\<lambda>hint. rh_startState hint = state \<and> rh_lookahead hint = lookahead) hints
        else if hintIndex < 0 \<or> hintIndex \<ge> int (length hints) then None
        else let hint = hints ! nat hintIndex in
          if rh_lookahead hint \<noteq> lookahead then None else Some hint)"

definition reduceChainHintTerminalStateAllowed :: "reduceChainHint \<Rightarrow> u32 \<Rightarrow> bool" where
  "reduceChainHintTerminalStateAllowed hint state \<longleftrightarrow> state \<in> set (rh_terminalStates hint)"

definition reduceChainHintTerminalMatches :: "reduceChainHint \<Rightarrow> u32 \<Rightarrow> classifiedParseActionClass \<Rightarrow> bool" where
  "reduceChainHintTerminalMatches hint state class \<longleftrightarrow>
     class = rh_terminalAction hint \<and> reduceChainHintTerminalStateAllowed hint state"

text \<open>The guard against a chain that repeats: the last signature and how often it was seen in a row.\<close>

record reduceChainSignature =
  sg_state :: u32
  sg_depth :: int
  sg_symbol :: u16
  sg_childCount :: u8
  sg_productionID :: u16

definition maxRepeatedReduceChainSignature :: int where "maxRepeatedReduceChainSignature = 1"

definition noteRepeatedReduceChainAction ::
    "reduceChainSignature \<Rightarrow> int \<Rightarrow> u32 \<Rightarrow> int \<Rightarrow> parseAction \<Rightarrow> reduceChainSignature \<times> int \<times> bool" where
  "noteRepeatedReduceChainAction prev prevCount state depth act =
     (let cur = \<lparr>sg_state = state, sg_depth = depth, sg_symbol = pa_Symbol act,
                 sg_childCount = pa_ChildCount act, sg_productionID = pa_ProductionID act\<rparr>;
          prevCount = (if prev = cur then prevCount + 1 else 1) in
      (cur, prevCount, prevCount > maxRepeatedReduceChainSignature))"

definition languageSymbolNameMatches :: "ruleLanguage \<Rightarrow> u16 \<Rightarrow> string \<Rightarrow> bool" where
  "languageSymbolNameMatches lang sm nm \<longleftrightarrow>
     unat sm < length (rl_SymbolNames lang) \<and> rl_SymbolNames lang ! unat sm = nm"

definition defaultReduceChainHintMetadata :: "ruleLanguage \<Rightarrow> reduceChainHintMetadata list" where
  "defaultReduceChainHintMetadata lang =
     (if lg_Name (rl_tables lang) = ''python'' then
        (if \<not> languageSymbolNameMatches lang 101 ''_newline'' then []
         else [\<lparr>rm_StartState = 1101, rm_Lookahead = 101, rm_TerminalStates = [2336, 2361, 2098, 2460],
                rm_TerminalAction = ReduceChainTerminalSingleShift, rm_MaxSteps = 10\<rparr>])
      else if lg_Name (rl_tables lang) = ''rust'' then
        (if \<not> languageSymbolNameMatches lang 5 '')'' then []
         else [\<lparr>rm_StartState = 205, rm_Lookahead = 5, rm_TerminalStates = [98, 132, 133],
                rm_TerminalAction = ReduceChainTerminalSingleShift, rm_MaxSteps = 32\<rparr>])
      else [])"

text \<open>The environment switch \<^verbatim>\<open>parseReduceChainHintsEnabled\<close> is the first argument.\<close>

definition buildReduceChainHints :: "bool \<Rightarrow> ruleLanguage \<Rightarrow> reduceChainHint list" where
  "buildReduceChainHints enabled lang =
     (if \<not> enabled then []
      else if rl_ReduceChainHints lang \<noteq> []
      then buildReduceChainHintsFromMetadata (rl_tables lang) (rl_ReduceChainHints lang)
      else buildReduceChainHintsFromMetadata (rl_tables lang) (defaultReduceChainHintMetadata lang))"

section \<open>Aliases\<close>

text \<open>A production without an alias keeps a nil sequence, the empty list.\<close>

definition buildReduceAliasSequences :: "ruleLanguage \<Rightarrow> u16 list list" where
  "buildReduceAliasSequences lang =
     map (\<lambda>sq. if \<exists>x\<in>set sq. x \<noteq> 0 then sq else []) (rl_AliasSequences lang)"

definition reduceAliasSequence :: "u16 list list \<Rightarrow> u16 \<Rightarrow> u16 list" where
  "reduceAliasSequence reduceAliasSeq productionID =
     (if unat productionID \<ge> length reduceAliasSeq then [] else reduceAliasSeq ! unat productionID)"

definition mark_alias :: "u16 \<Rightarrow> bool list \<times> bool \<Rightarrow> bool list \<times> bool" where
  "mark_alias sm s = (if sm = 0 \<or> unat sm \<ge> length (fst s) then s else ((fst s)[unat sm := True], True))"

definition buildAliasTargetSymbols :: "ruleLanguage \<Rightarrow> bool list" where
  "buildAliasTargetSymbols lang =
     (if rl_AliasSequences lang = [] then []
      else
        let (out, any) = fold (\<lambda>sq. fold mark_alias sq) (rl_AliasSequences lang)
                           (replicate (length (rl_SymbolNames lang)) False, False) in
        if any then out else [])"

section \<open>Field plans\<close>

text \<open>
  The arrays of a plan: identifiers, inherited flags and, once a conflict arose, the conflict flags;
  \<open>None\<close> is the nil slice of the code.
\<close>

type_synonym field_arrays = "u16 list \<times> bool list \<times> bool list option"

definition conflicted_at :: "bool list option \<Rightarrow> nat \<Rightarrow> bool" where
  "conflicted_at cf i \<longleftrightarrow> (case cf of None \<Rightarrow> False | Some l \<Rightarrow> l ! i)"

definition plan_step :: "nat \<Rightarrow> fieldMapEntry \<Rightarrow> field_arrays \<Rightarrow> field_arrays" where
  "plan_step childCount entry s =
     (let (fieldIDs, inherited, conflictedInherited) = s; idx = unat (fe_ChildIndex entry) in
      if idx \<ge> childCount then s
      else if conflicted_at conflictedInherited idx then
        (if \<not> fe_Inherited entry
         then (fieldIDs[idx := fe_FieldID entry], inherited[idx := False],
               map_option (\<lambda>l. l[idx := False]) conflictedInherited)
         else s)
      else if fieldIDs ! idx = 0 then (fieldIDs[idx := fe_FieldID entry], inherited[idx := fe_Inherited entry], conflictedInherited)
      else if \<not> fe_Inherited entry \<and> inherited ! idx
      then (fieldIDs[idx := fe_FieldID entry], inherited[idx := False], conflictedInherited)
      else if fe_Inherited entry \<and> inherited ! idx \<and> fieldIDs ! idx \<noteq> fe_FieldID entry
      then (fieldIDs[idx := 0], inherited[idx := False],
            Some ((case conflictedInherited of None \<Rightarrow> replicate childCount False | Some l \<Rightarrow> l)[idx := True]))
      else if fe_Inherited entry = inherited ! idx
      then (fieldIDs[idx := fe_FieldID entry], inherited[idx := fe_Inherited entry], conflictedInherited)
      else s)"

text \<open>The entries a production reads; the loop stops at the end of the entry table.\<close>

definition production_entries :: "ruleLanguage \<Rightarrow> u16 \<Rightarrow> fieldMapEntry list" where
  "production_entries lang productionID =
     (let fm = rl_FieldMapSlices lang ! unat productionID in
      slice (rl_FieldMapEntries lang) (unat (fst fm)) (unat (fst fm) + unat (snd fm)))"

definition buildFieldPlanForProduction :: "ruleLanguage \<Rightarrow> nat \<Rightarrow> u16 \<Rightarrow> field_arrays option" where
  "buildFieldPlanForProduction lang childCount productionID =
     (if childCount = 0 \<or> rl_FieldMapEntries lang = [] then None
      else if unat productionID \<ge> length (rl_FieldMapSlices lang) then None
      else if snd (rl_FieldMapSlices lang ! unat productionID) = 0 then None
      else
        let entries = production_entries lang productionID in
        if \<exists>entry\<in>set entries. unat (fe_ChildIndex entry) < childCount
        then Some (fold (plan_step childCount) entries (replicate childCount 0, replicate childCount False, None))
        else None)"

definition fieldIDSliceHasAny :: "u16 list \<Rightarrow> bool" where
  "fieldIDSliceHasAny fieldIDs \<longleftrightarrow> (\<exists>fid\<in>set fieldIDs. fid \<noteq> 0)"

definition fieldMapHasEffectiveFields :: "ruleLanguage \<Rightarrow> nat \<Rightarrow> u16 \<Rightarrow> bool" where
  "fieldMapHasEffectiveFields lang childCount productionID =
     (case buildFieldPlanForProduction lang childCount productionID of
        None \<Rightarrow> False
      | Some (fieldIDs, _, conflictedInherited) \<Rightarrow>
          fieldIDSliceHasAny fieldIDs
          \<or> (case conflictedInherited of None \<Rightarrow> False | Some l \<Rightarrow> \<exists>c\<in>set l. c))"

definition all_actions :: "language \<Rightarrow> parseAction list" where
  "all_actions lang = concat (map pe_Actions (lg_ParseActions lang))"

definition buildReduceFieldPresence :: "ruleLanguage \<Rightarrow> bool list" where
  "buildReduceFieldPresence lang =
     fold (\<lambda>act out.
        if pa_Type act \<noteq> ParseActionReduce \<or> unat (pa_ProductionID act) \<ge> length out \<or> \<not> out ! unat (pa_ProductionID act)
           \<or> fieldMapHasEffectiveFields lang (unat (pa_ChildCount act)) (pa_ProductionID act)
        then out else out[unat (pa_ProductionID act) := False])
       (all_actions (rl_tables lang)) (map (\<lambda>fm. snd fm \<noteq> 0) (rl_FieldMapSlices lang))"

definition reduceProductionHasFields :: "bool list \<Rightarrow> u16 \<Rightarrow> bool" where
  "reduceProductionHasFields reduceHasFields productionID \<longleftrightarrow>
     unat productionID < length reduceHasFields \<and> reduceHasFields ! unat productionID"

text \<open>
  A plan of the cache is \<open>None\<close> until a reduce action of the production gives one; the marks in
  \<^verbatim>\<open>seen\<close> are the plans that are set. The result is the empty list when no production has one.
\<close>

type_synonym reduceFieldPlan = "u8 \<times> field_arrays"

definition add_plan :: "ruleLanguage \<Rightarrow> parseAction \<Rightarrow> reduceFieldPlan option list \<Rightarrow> reduceFieldPlan option list" where
  "add_plan lang act out =
     (let pid = unat (pa_ProductionID act) in
      if pa_Type act \<noteq> ParseActionReduce \<or> pid \<ge> length out \<or> out ! pid \<noteq> None then out
      else case buildFieldPlanForProduction lang (unat (pa_ChildCount act)) (pa_ProductionID act) of
        None \<Rightarrow> out
      | Some arrays \<Rightarrow> out[pid := Some (pa_ChildCount act, arrays)])"

definition buildReduceFieldPlans :: "ruleLanguage \<Rightarrow> reduceFieldPlan option list" where
  "buildReduceFieldPlans lang =
     (if rl_FieldMapSlices lang = [] \<or> rl_FieldMapEntries lang = [] then []
      else
        let out = fold (add_plan lang) (all_actions (rl_tables lang)) (replicate (length (rl_FieldMapSlices lang)) None) in
        if \<forall>x\<in>set out. x = None then [] else out)"

text \<open>
  The per-reduction computation of \<^verbatim>\<open>Parser.buildFieldIDs\<close>. Its conflict flags are a scratch array
  that is cleared first, so they are never nil.
\<close>

definition field_step :: "nat \<Rightarrow> fieldMapEntry \<Rightarrow> u16 list \<times> bool list \<times> bool list \<Rightarrow> u16 list \<times> bool list \<times> bool list" where
  "field_step childCount entry s =
     (let (fieldIDs, inherited, conflictedInherited) = s; idx = unat (fe_ChildIndex entry) in
      if \<not> idx < childCount then s
      else if conflictedInherited ! idx then
        (if \<not> fe_Inherited entry
         then (fieldIDs[idx := fe_FieldID entry], inherited[idx := False], conflictedInherited[idx := False]) else s)
      else if fieldIDs ! idx = 0 then (fieldIDs[idx := fe_FieldID entry], inherited[idx := fe_Inherited entry], conflictedInherited)
      else if \<not> fe_Inherited entry \<and> inherited ! idx
      then (fieldIDs[idx := fe_FieldID entry], inherited[idx := False], conflictedInherited)
      else if fe_Inherited entry \<and> inherited ! idx \<and> fieldIDs ! idx \<noteq> fe_FieldID entry
      then (fieldIDs[idx := 0], inherited[idx := False], conflictedInherited[idx := True])
      else if fe_Inherited entry = inherited ! idx
      then (fieldIDs[idx := fe_FieldID entry], inherited[idx := fe_Inherited entry], conflictedInherited)
      else s)"

definition buildFieldIDs :: "ruleLanguage \<Rightarrow> reduceFieldPlan option list \<Rightarrow> nat \<Rightarrow> u16 \<Rightarrow> field_arrays option" where
  "buildFieldIDs lang reduceFieldPlans childCount productionID =
     (let pid = unat productionID in
      if childCount = 0 \<or> rl_FieldMapEntries lang = [] then None
      else if pid \<ge> length (rl_FieldMapSlices lang) then None
      else
        let fresh =
          (if snd (rl_FieldMapSlices lang ! pid) = 0 then None
           else
             let entries = production_entries lang productionID in
             if \<exists>entry\<in>set entries. unat (fe_ChildIndex entry) < childCount
             then (case fold (field_step childCount) entries
                          (replicate childCount 0, replicate childCount False, replicate childCount False) of
                     (fieldIDs, inherited, conflictedInherited) \<Rightarrow> Some (fieldIDs, inherited, Some conflictedInherited))
             else None) in
        if pid < length reduceFieldPlans then
          (case reduceFieldPlans ! pid of
             Some (planCount, arrays) \<Rightarrow> if unat planCount = childCount then Some arrays else fresh
           | None \<Rightarrow> fresh)
        else fresh)"

section \<open>Anonymous tokens\<close>

text \<open>
  Every action of every state, in the order of \<^verbatim>\<open>forEachStateAction\<close>: the dense rows below the dense
  limit, then the compressed rows; an index outside the action table yields nothing.
\<close>

definition resolve :: "language \<Rightarrow> nat \<Rightarrow> nat \<times> u16 \<Rightarrow> (nat \<times> nat \<times> parseAction) list" where
  "resolve lang state p =
     (if snd p = 0 \<or> unat (snd p) \<ge> length (lg_ParseActions lang) then []
      else map (\<lambda>act. (state, fst p, act)) (pe_Actions (lg_ParseActions lang ! unat (snd p))))"

definition forEachStateAction :: "language \<Rightarrow> nat \<Rightarrow> nat \<Rightarrow> (nat \<times> nat \<times> parseAction) list" where
  "forEachStateAction lang denseLimit smallBase =
     concat (map (\<lambda>state. concat (map (resolve lang state) (enumerate 0 (lg_ParseTable lang ! state))))
       [0..<min denseLimit (length (lg_ParseTable lang))])
     @ concat (map (\<lambda>(smallIdx, offset).
         concat (map (\<lambda>(sm, val). resolve lang (smallBase + smallIdx) (unat sm, val))
           (row_pairs (lg_SmallParseTable lang) (unat offset))))
       (enumerate 0 (lg_SmallParseTableMap lang)))"

text \<open>The distinct states a symbol shifts into.\<close>

definition shift_targets :: "language \<Rightarrow> nat \<Rightarrow> u32 list" where
  "shift_targets lang sm =
     remdups (map (\<lambda>(_, _, act). pa_State act)
       (filter (\<lambda>(_, s, act). s = sm \<and> pa_Type act = ParseActionShift)
         (forEachStateAction lang (languageDenseLimit lang) (unat (lg_LargeStateCount lang)))))"

definition anonymous_token :: "ruleLanguage \<Rightarrow> nat \<Rightarrow> bool" where
  "anonymous_token lang sm \<longleftrightarrow>
     sm < unat (lg_TokenCount (rl_tables lang)) \<and> sy_Visible (rl_SymbolMetadata lang ! sm)
     \<and> \<not> sy_Named (rl_SymbolMetadata lang ! sm)"

definition buildSharedAnonymousTokenSymbols :: "ruleLanguage \<Rightarrow> bool list" where
  "buildSharedAnonymousTokenSymbols lang =
     (if rl_SymbolMetadata lang = []
         \<or> (lg_ParseTable (rl_tables lang) = [] \<and> lg_SmallParseTableMap (rl_tables lang) = []) then []
      else
        let out = map (\<lambda>sm. anonymous_token lang sm \<and> length (shift_targets (rl_tables lang) sm) \<ge> 2)
                    [0..<length (rl_SymbolMetadata lang)] in
        if \<exists>x\<in>set out. x then out else [])"

text \<open>
  The twins of a name: the last visible named symbol and the last visible anonymous one, the pair of
  \<^verbatim>\<open>byName\<close>; a symbol without metadata name has its table name.
\<close>

definition display_name :: "ruleLanguage \<Rightarrow> nat \<Rightarrow> string" where
  "display_name lang sm =
     (let nm = sy_Name (rl_SymbolMetadata lang ! sm) in
      if nm = [] \<and> sm < length (rl_SymbolNames lang) then rl_SymbolNames lang ! sm else nm)"

definition last_symbol :: "ruleLanguage \<Rightarrow> string \<Rightarrow> bool \<Rightarrow> nat option" where
  "last_symbol lang nm named =
     List.find (\<lambda>sm. sy_Visible (rl_SymbolMetadata lang ! sm) \<and> sy_Named (rl_SymbolMetadata lang ! sm) = named
                     \<and> display_name lang sm = nm)
       (rev [0..<length (rl_SymbolMetadata lang)])"

definition keeps_twin :: "ruleLanguage \<Rightarrow> nat \<Rightarrow> bool" where
  "keeps_twin lang sm \<longleftrightarrow>
     display_name lang sm \<noteq> [] \<and> last_symbol lang (display_name lang sm) True = Some sm
     \<and> (case last_symbol lang (display_name lang sm) False of
          None \<Rightarrow> False
        | Some anon \<Rightarrow> anon < unat (lg_TokenCount (rl_tables lang)) \<and> length (shift_targets (rl_tables lang) anon) \<ge> 2)"

definition buildKeepSameNamedAnonChildSymbols :: "ruleLanguage \<Rightarrow> bool list" where
  "buildKeepSameNamedAnonChildSymbols lang =
     (if rl_SymbolMetadata lang = []
         \<or> (lg_ParseTable (rl_tables lang) = [] \<and> lg_SmallParseTableMap (rl_tables lang) = []) then []
      else
        let out = map (keeps_twin lang) [0..<length (rl_SymbolMetadata lang)] in
        if \<exists>x\<in>set out. x then out else [])"

section \<open>A default reduce is what every token does\<close>

text \<open>The entries of a state a default reduce may pass over, and the reductions it may stand for.\<close>

definition extra_shift :: "classifiedParseAction \<Rightarrow> bool" where
  "extra_shift c \<longleftrightarrow>
     cl_class c = classifiedParseActionSingleShift \<and> (pa_Extra (cl_action c) \<or> pa_ExtraChain (cl_action c))"

definition plain_reduce :: "classifiedParseAction \<Rightarrow> bool" where
  "plain_reduce c \<longleftrightarrow> cl_class c = classifiedParseActionSingleReduce \<and> pa_ChildCount (cl_action c) \<noteq> 0"

definition passes :: "u16 \<Rightarrow> classifiedParseAction list \<Rightarrow> parseAction \<Rightarrow> smallActionPair \<Rightarrow> bool" where
  "passes tc cls act p \<longleftrightarrow>
     fst p \<ge> tc
     \<or> (unat (snd p) < length cls
        \<and> (extra_shift (cls ! unat (snd p))
           \<or> (plain_reduce (cls ! unat (snd p)) \<and> sameEagerDefaultReduce act (cl_action (cls ! unat (snd p))))))"

definition reduces :: "u16 \<Rightarrow> classifiedParseAction list \<Rightarrow> smallActionPair \<Rightarrow> bool" where
  "reduces tc cls p \<longleftrightarrow>
     fst p < tc \<and> unat (snd p) < length cls \<and> \<not> extra_shift (cls ! unat (snd p)) \<and> plain_reduce (cls ! unat (snd p))"

lemma sameEager_sym: "sameEagerDefaultReduce a b \<Longrightarrow> sameEagerDefaultReduce b a"
  and sameEager_trans: "sameEagerDefaultReduce a b \<Longrightarrow> sameEagerDefaultReduce b c \<Longrightarrow> sameEagerDefaultReduce a c"
  by (simp_all add: sameEagerDefaultReduce_def)

lemma passes_trans: "sameEagerDefaultReduce a b \<Longrightarrow> passes tc cls b p \<Longrightarrow> passes tc cls a p"
  using sameEager_trans by (auto simp: passes_def)

lemma eager_visit_found:
  "eager_visit tc cls (c, True, False) sm idx =
     (if passes tc cls c (sm, idx) then ((c, True, False), True) else ((c, True, True), False))"
  by (auto simp: eager_visit_def passes_def extra_shift_def plain_reduce_def Let_def)

lemma eager_visit_fresh:
  "eager_visit tc cls (z, False, False) sm idx =
     (if reduces tc cls (sm, idx) then ((cl_action (cls ! unat idx), True, False), True)
      else if sm \<ge> tc \<or> (unat idx < length cls \<and> extra_shift (cls ! unat idx)) then ((z, False, False), True)
      else ((z, False, True), False))"
  by (auto simp: eager_visit_def reduces_def extra_shift_def plain_reduce_def Let_def not_less)

lemma visit_found:
  "visit_until (eager_visit tc cls) (c, True, False) ps = (c, True, \<not> (\<forall>p\<in>set ps. passes tc cls c p))"
  by (induction ps) (auto simp: eager_visit_found)

text \<open>Only reductions of the reduce type are classified as one.\<close>

definition reduce_typed :: "classifiedParseAction list \<Rightarrow> bool" where
  "reduce_typed cls \<longleftrightarrow>
     (\<forall>c\<in>set cls. cl_class c = classifiedParseActionSingleReduce \<longrightarrow> pa_Type (cl_action c) = ParseActionReduce)"

lemma classified_typed: "reduce_typed (buildClassifiedParseActions lang)"
  by (auto simp: reduce_typed_def buildClassifiedParseActions_def classifyParseActionEntry_def action_class_def
        split: list.splits parseActionType.splits)

lemma reduces_self:
  assumes "reduce_typed cls" "reduces tc cls p"
  shows "sameEagerDefaultReduce (cl_action (cls ! unat (snd p))) (cl_action (cls ! unat (snd p)))"
    and "passes tc cls act p \<Longrightarrow> sameEagerDefaultReduce act (cl_action (cls ! unat (snd p)))"
  using assms by (auto simp: reduce_typed_def reduces_def passes_def plain_reduce_def sameEagerDefaultReduce_def)

lemma visit_fresh:
  assumes typed: "reduce_typed cls" and r: "visit_until (eager_visit tc cls) (z, False, False) ps = (c, found, invalid)"
  shows "(found \<and> \<not> invalid \<longleftrightarrow> (\<exists>p\<in>set ps. reduces tc cls p) \<and> (\<exists>act. \<forall>p\<in>set ps. passes tc cls act p))
    \<and> (found \<and> \<not> invalid \<longrightarrow> (\<forall>p\<in>set ps. passes tc cls c p))"
  using r
proof (induction ps)
  case (Cons p ps)
  obtain sm idx where p: "p = (sm, idx)" by (cases p)
  show ?case
  proof (cases "reduces tc cls p")
    case True
    let ?c = "cl_action (cls ! unat idx)"
    have self: "passes tc cls ?c p" using True reduces_self(1) [OF typed True] by (auto simp: passes_def reduces_def p)
    have mono: "passes tc cls ?c q" if "passes tc cls act p" "passes tc cls act q" for act q
      using reduces_self(2) [OF typed True that(1)] that(2) passes_trans sameEager_sym unfolding p by fastforce
    show ?thesis using True self mono Cons.prems by (auto simp: p eager_visit_fresh visit_found)
  next
    case False
    note nr = False
    show ?thesis
    proof (cases "sm \<ge> tc \<or> (unat idx < length cls \<and> extra_shift (cls ! unat idx))")
      case True
      then have "passes tc cls act p" for act by (auto simp: passes_def p)
      then show ?thesis using Cons True nr by (auto simp: p eager_visit_fresh)
    next
      case False
      then have "\<not> passes tc cls act p" for act using nr by (auto simp: passes_def reduces_def p)
      then show ?thesis using False nr Cons.prems by (auto simp: p eager_visit_fresh)
    qed
  qed
qed simp

text \<open>Compressed rows have no group for the index zero, which stands for no action.\<close>

definition valued_rows :: "language \<Rightarrow> bool" where
  "valued_rows l \<longleftrightarrow>
     (\<forall>offset\<in>set (lg_SmallParseTableMap l). \<forall>p\<in>set (row_pairs (lg_SmallParseTable l) (unat offset)). snd p \<noteq> 0)"

lemma small_row_subset: "set (small_row table offset lim) \<subseteq> set (row_pairs table offset)"
  by (auto simp: small_row_def)

lemma actions_valued:
  assumes "valued_rows l"
  shows "(sm, 0) \<notin> set (actions_in_state (derived_view l) state)"
proof -
  have dense: "(sm, 0) \<notin> set (dense_pairs row)" for row by (auto simp: dense_pairs_def)
  have row: "(sm, 0) \<notin> set (row_pairs (lg_SmallParseTable l) (unat (lg_SmallParseTableMap l ! i)))"
    if "i < length (lg_SmallParseTableMap l)" for i
    using assms that by (fastforce simp: valued_rows_def)
  have small: "(sm, 0) \<notin> set (buildSmallLookup l t ! i)" if "i < length (lg_SmallParseTableMap l)" for i t
    using that row [of i] small_row_subset by (fastforce simp: buildSmallLookup_def)
  show ?thesis using dense row small
    by (simp add: actions_in_state_def derived_view_def Let_def not_le)
qed

lemma action_pair:
  assumes "whole_tables l" "valued_rows l"
  shows "(sm, idx) \<in> set (actions_in_state (derived_view l) state)
    \<longleftrightarrow> idx \<noteq> 0 \<and> lookupActionIndex (derived_view l) state sm = idx"
  using enumerated_pairs [OF assms(1)] actions_valued [OF assms(2)] by metis

text \<open>
  What a default reduce promises, in terms of action lookup alone: a token of the state either shifts
  as an extra or reduces as the given action; and some token does reduce.
\<close>

definition default_for :: "parseAction \<Rightarrow> parseAction list \<Rightarrow> bool" where
  "default_for act acts \<longleftrightarrow>
     (\<exists>a. acts = [a]
        \<and> ((pa_Type a = ParseActionShift \<and> (pa_Extra a \<or> pa_ExtraChain a))
           \<or> (pa_ChildCount a \<noteq> 0 \<and> sameEagerDefaultReduce act a)))"

definition is_token :: "language \<Rightarrow> u16 \<Rightarrow> bool" where
  "is_token l sm \<longleftrightarrow> sm < ucast (lg_TokenCount l)"

definition reduces_always :: "language \<Rightarrow> u32 \<Rightarrow> parseAction \<Rightarrow> bool" where
  "reduces_always l state act \<longleftrightarrow>
     (\<forall>sm. is_token l sm \<and> lookupActionIndex (derived_view l) state sm \<noteq> 0 \<longrightarrow>
        (\<exists>entry. lookupAction (derived_view l) state sm = Some entry \<and> default_for act (pe_Actions entry)))"

definition reduces_some :: "language \<Rightarrow> u32 \<Rightarrow> bool" where
  "reduces_some l state \<longleftrightarrow>
     (\<exists>sm entry a. is_token l sm \<and> lookupAction (derived_view l) state sm = Some entry
        \<and> pe_Actions entry = [a] \<and> pa_Type a = ParseActionReduce \<and> pa_ChildCount a \<noteq> 0)"

lemma classified_entry:
  assumes "unat idx < length (lg_ParseActions l)"
  defines "c \<equiv> buildClassifiedParseActions l ! unat idx"
  shows "extra_shift c \<longleftrightarrow> (\<exists>a. pe_Actions (lg_ParseActions l ! unat idx) = [a]
           \<and> pa_Type a = ParseActionShift \<and> (pa_Extra a \<or> pa_ExtraChain a))"
    and "plain_reduce c \<longleftrightarrow> (\<exists>a. pe_Actions (lg_ParseActions l ! unat idx) = [a]
           \<and> pa_Type a = ParseActionReduce \<and> pa_ChildCount a \<noteq> 0)"
    and "plain_reduce c \<Longrightarrow> pe_Actions (lg_ParseActions l ! unat idx) = [cl_action c]"
  using assms(1) unfolding c_def
  by (auto simp: extra_shift_def plain_reduce_def buildClassifiedParseActions_def classifyParseActionEntry_def
        action_class_def split: list.splits parseActionType.splits)

lemma passes_default:
  assumes "idx \<noteq> 0" "lookupActionIndex (derived_view l) state sm = idx" "is_token l sm"
  shows "passes (ucast (lg_TokenCount l)) (buildClassifiedParseActions l) act (sm, idx)
    \<longleftrightarrow> (\<exists>entry. lookupAction (derived_view l) state sm = Some entry \<and> default_for act (pe_Actions entry))"
proof -
  have v: "pv_language (derived_view l) = l" by (simp add: derived_view_def Let_def)
  have n: "length (buildClassifiedParseActions l) = length (lg_ParseActions l)"
    by (simp add: buildClassifiedParseActions_def)
  show ?thesis using assms classified_entry [of idx l]
    by (auto simp: passes_def default_for_def lookupAction_def v n is_token_def sameEagerDefaultReduce_def Let_def)
qed

lemma reduces_token:
  assumes "idx \<noteq> 0" "lookupActionIndex (derived_view l) state sm = idx"
  shows "reduces (ucast (lg_TokenCount l)) (buildClassifiedParseActions l) (sm, idx)
    \<longleftrightarrow> is_token l sm \<and> (\<exists>entry a. lookupAction (derived_view l) state sm = Some entry
          \<and> pe_Actions entry = [a] \<and> pa_Type a = ParseActionReduce \<and> pa_ChildCount a \<noteq> 0)"
proof -
  have v: "pv_language (derived_view l) = l" by (simp add: derived_view_def Let_def)
  have n: "length (buildClassifiedParseActions l) = length (lg_ParseActions l)"
    by (simp add: buildClassifiedParseActions_def)
  have "\<not> extra_shift c" if "plain_reduce c" for c using that by (simp add: extra_shift_def plain_reduce_def)
  then show ?thesis using assms classified_entry [of idx l]
    by (auto simp: reduces_def lookupAction_def v n is_token_def Let_def)
qed

definition eager_table :: "language \<Rightarrow> (bool \<times> parseAction) list" where
  "eager_table l = buildEagerDefaultReduceActions (derived_view l) (buildClassifiedParseActions l)"

lemma eager_table_state:
  assumes "lg_ParseActions l \<noteq> []" "unat state < parserRuntimeStateCount (derived_view l)"
  shows "eagerDefaultReduceAction (eager_table l) state
    = (let (ok, act) = eager_state (derived_view l) (buildClassifiedParseActions l) state in if ok then Some act else None)"
proof -
  have v: "pv_language (derived_view l) = l" by (simp add: derived_view_def Let_def)
  show ?thesis using assms
    by (simp add: eagerDefaultReduceAction_def eager_table_def buildEagerDefaultReduceActions_def v)
qed

text \<open>
  C17. The default reduce of a state is exact. A state has one if and only if some token reduces there
  by a rule of at least one child and one action stands for every token: each token with an action in
  the state shifts as an extra or reduces at least one child, by that action's symbol, child count,
  precedence and production. The recorded action is such an action, so applying it before the lookahead is known changes nothing a lookup would decide.
\<close>

theorem default_reduce_exact:
  assumes "whole_tables l" "valued_rows l" "lg_ParseActions l \<noteq> []"
    "unat state < parserRuntimeStateCount (derived_view l)"
  shows "(eagerDefaultReduceAction (eager_table l) state \<noteq> None \<longleftrightarrow>
            reduces_some l state \<and> (\<exists>act. reduces_always l state act))
    \<and> (\<forall>act. eagerDefaultReduceAction (eager_table l) state = Some act \<longrightarrow> reduces_always l state act)"
proof -
  let ?tc = "ucast (lg_TokenCount l) :: u16" and ?cls = "buildClassifiedParseActions l"
  let ?ps = "actions_in_state (derived_view l) state"
  have v: "pv_language (derived_view l) = l" by (simp add: derived_view_def Let_def)
  obtain c found invalid
    where r: "visit_until (eager_visit ?tc ?cls) (zero_action, False, False) ?ps = (c, found, invalid)"
    using prod_cases3 by blast
  have es: "eagerDefaultReduceAction (eager_table l) state = (if found \<and> \<not> invalid then Some c else None)"
    using eager_table_state [OF assms(3,4)] r by (simp add: eager_state_def forEachActionIndexInState_def v)
  have pass: "(\<forall>p\<in>set ?ps. passes ?tc ?cls act p) \<longleftrightarrow> reduces_always l state act" for act
  proof -
    have skip: "passes ?tc ?cls act (sm, idx)" if "\<not> is_token l sm" for sm idx
      using that by (simp add: passes_def is_token_def not_less)
    have "(\<forall>p\<in>set ?ps. passes ?tc ?cls act p)
        \<longleftrightarrow> (\<forall>sm. let idx = lookupActionIndex (derived_view l) state sm in idx \<noteq> 0 \<longrightarrow> passes ?tc ?cls act (sm, idx))"
      using action_pair [OF assms(1,2)] by (auto simp: Let_def)
    also have "\<dots> \<longleftrightarrow> reduces_always l state act"
      unfolding reduces_always_def Let_def using skip passes_default [OF _ refl] by blast
    finally show ?thesis .
  qed
  have red: "(\<exists>p\<in>set ?ps. reduces ?tc ?cls p) \<longleftrightarrow> reduces_some l state"
  proof -
    have nz: "lookupActionIndex (derived_view l) state sm \<noteq> 0"
      if "lookupAction (derived_view l) state sm = Some e" for sm e
      using that by (auto simp: lookupAction_def Let_def split: if_splits)
    show ?thesis using action_pair [OF assms(1,2)] reduces_token nz unfolding reduces_some_def by (metis prod.exhaust)
  qed
  show ?thesis using visit_fresh [OF classified_typed r] unfolding pass red es by auto
qed

text \<open>A state whose tokens are a reduction and an extra, beside a state that shifts.\<close>

definition demo_reduce :: parseAction where
  "demo_reduce = zero_action\<lparr>pa_Type := ParseActionReduce, pa_Symbol := 3, pa_ChildCount := 2, pa_ProductionID := 1\<rparr>"

definition demo_rules :: language where
  "demo_rules = demo_language\<lparr>lg_SymbolCount := 4, lg_StateCount := 2, lg_lexModeCount := 2,
     lg_ParseTable := [[0, 1, 2, 0]], lg_SmallParseTable := [1, 3, 1, 1], lg_SmallParseTableMap := [0],
     lg_ParseActions := [\<lparr>pe_Reusable = False, pe_Actions = []\<rparr>, \<lparr>pe_Reusable = True, pe_Actions = [demo_reduce]\<rparr>,
       \<lparr>pe_Reusable = True, pe_Actions = [zero_action\<lparr>pa_Extra := True\<rparr>]\<rparr>,
       \<lparr>pe_Reusable = True, pe_Actions = [zero_action\<lparr>pa_State := 1\<rparr>]\<rparr>]\<rparr>"

lemma demo_rules_ok: "whole_tables demo_rules \<and> valued_rows demo_rules \<and> lg_ParseActions demo_rules \<noteq> []"
  by code_simp

theorem default_reduce_exact_witness:
  "reduces_always demo_rules 0 demo_reduce
   \<and> eagerDefaultReduceAction (eager_table demo_rules) 0 = Some demo_reduce
   \<and> eagerDefaultReduceAction (eager_table demo_rules) 1 = None"
proof -
  have n: "parserRuntimeStateCount (derived_view demo_rules) = 2" by code_simp
  have some: "eagerDefaultReduceAction (eager_table demo_rules) 0 = Some demo_reduce" by code_simp
  have none: "eagerDefaultReduceAction (eager_table demo_rules) 1 = None" by code_simp
  show ?thesis using default_reduce_exact [of demo_rules 0] demo_rules_ok n some none by simp
qed

section \<open>The hint index\<close>

lemma max_state_ge:
  "hint \<in> set hints \<Longrightarrow> rh_startState hint \<le> fold (\<lambda>h m. if rh_startState h > m then rh_startState h else m) hints m"
  "m \<le> fold (\<lambda>h m. if rh_startState h > m then rh_startState h else m) hints m"
proof (induction hints arbitrary: m)
  case (Cons h hs)
  { case 1 then show ?case using Cons.IH(1) [of "if rh_startState h > m then rh_startState h else m"]
      Cons.IH(2) [of "if rh_startState h > m then rh_startState h else m"] by (auto split: if_splits) }
  { case 2 then show ?case using Cons.IH(2) [of "if rh_startState h > m then rh_startState h else m"]
      by (auto split: if_splits) }
qed auto

text \<open>A slot of the index after some hints: none, the only one, or the mark for several.\<close>

definition slot_of :: "nat list \<Rightarrow> int" where
  "slot_of is = (case is of [] \<Rightarrow> -1 | [i] \<Rightarrow> int i | _ \<Rightarrow> -2)"

definition hints_at :: "u32 \<Rightarrow> (nat \<times> reduceChainHint) list \<Rightarrow> nat list" where
  "hints_at state ihs = map fst (filter (\<lambda>ih. rh_startState (snd ih) = state) ihs)"

lemma slot_snoc: "slot_of (is @ [i]) = (if slot_of is = -1 then int i else -2)"
  by (auto simp: slot_of_def split: list.splits)

lemma hints_snoc: "hints_at state (ihs @ [ih]) = hints_at state ihs @ (if rh_startState (snd ih) = state then [fst ih] else [])"
  by (simp add: hints_at_def)

lemma index_slots:
  assumes "\<forall>ih\<in>set ihs. unat (rh_startState (snd ih)) < n" "unat state < n"
  shows "length (fold index_hint ihs (replicate n (-1))) = n
    \<and> fold index_hint ihs (replicate n (-1)) ! unat state = slot_of (hints_at state ihs)"
  using assms
proof (induction ihs rule: rev_induct)
  case Nil then show ?case by (simp add: slot_of_def hints_at_def)
next
  case (snoc ih ihs)
  then have IH: "length (fold index_hint ihs (replicate n (-1))) = n"
      "fold index_hint ihs (replicate n (-1)) ! unat state = slot_of (hints_at state ihs)"
    and b: "unat (rh_startState (snd ih)) < n" by auto
  have step: "index_hint ih index ! unat state
      = (if rh_startState (snd ih) = state then (if index ! unat state = -1 then int (fst ih) else -2) else index ! unat state)"
    "length (index_hint ih index) = n" if "length index = n" for index
    using that b snoc.prems(2) by (auto simp: index_hint_def Let_def nth_list_update word_unat_eq_iff)
  show ?case using IH step [OF IH(1)] by (simp add: hints_snoc slot_snoc)
qed

lemma find_unique:
  assumes "filter P xs = [x]" shows "List.find (\<lambda>y. P y \<and> Q y) xs = (if Q x then Some x else None)"
  using assms by (induction xs) (auto split: if_splits simp: filter_empty_conv find_None_iff)

lemma hints_at_enumerate: "hints_at state (enumerate n hints) = map fst (filter (\<lambda>(_, h). rh_startState h = state) (enumerate n hints))"
  by (simp add: hints_at_def case_prod_beta')

lemma filter_enumerate: "map snd (filter (\<lambda>ih. P (snd ih)) (enumerate n xs)) = filter P xs"
  by (induction xs arbitrary: n) auto

lemma fst_snd_enumerate: "(i, x) \<in> set (enumerate 0 xs) \<Longrightarrow> i < length xs \<and> xs ! i = x"
  by (simp add: in_set_enumerate_eq)

text \<open>The index of the hints answers as a search through all of them.\<close>

lemma reduceChainHintFor_exact:
  "reduceChainHintFor hints (buildReduceChainHintIndex hints) state lookahead
     = List.find (\<lambda>hint. rh_startState hint = state \<and> rh_lookahead hint = lookahead) hints"
proof (cases "hints = []")
  case True then show ?thesis by (simp add: reduceChainHintFor_def buildReduceChainHintIndex_def)
next
  case False
  let ?m = "fold (\<lambda>h m. if rh_startState h > m then rh_startState h else m) hints 0"
  let ?n = "unat ?m + 1" and ?ihs = "enumerate 0 hints"
  let ?at = "filter (\<lambda>ih. rh_startState (snd ih) = state) ?ihs"
  have ix: "buildReduceChainHintIndex hints = fold index_hint ?ihs (replicate ?n (-1))"
    using False by (simp add: buildReduceChainHintIndex_def Let_def)
  have bound: "\<forall>ih\<in>set ?ihs. unat (rh_startState (snd ih)) < ?n"
    using max_state_ge(1) [of _ hints 0] by (auto simp: word_le_nat_alt less_Suc_eq_le in_set_enumerate_eq)
  have bound': "unat (rh_startState h) < ?n" if "h \<in> set hints" for h
    using max_state_ge(1) [OF that, of 0] by (simp add: word_le_nat_alt less_Suc_eq_le)
  show ?thesis
  proof (cases "unat state < ?n")
    case False
    then have "List.find (\<lambda>hint. rh_startState hint = state \<and> rh_lookahead hint = lookahead) hints = None"
      using bound' by (auto simp: find_None_iff)
    moreover have "length (buildReduceChainHintIndex hints) = ?n"
      unfolding ix using index_slots [OF bound, of 0] by simp
    ultimately show ?thesis using False by (simp add: reduceChainHintFor_def)
  next
    case True
    note sl = index_slots [OF bound True]
    have at: "hints_at state ?ihs = map fst ?at" by (simp add: hints_at_def)
    have hs: "filter (\<lambda>h. rh_startState h = state) hints = map snd ?at"
      using filter_enumerate [of "\<lambda>h. rh_startState h = state" 0 hints] by simp
    consider (none) "?at = []" | (one) i h where "?at = [(i, h)]" | (more) x y z where "?at = x # y # z"
      by (metis list.exhaust surj_pair)
    then show ?thesis
    proof cases
      case none
      then have "filter (\<lambda>h. rh_startState h = state) hints = []" using hs by simp
      then have "List.find (\<lambda>hint. rh_startState hint = state \<and> rh_lookahead hint = lookahead) hints = None"
        by (auto simp: find_None_iff filter_empty_conv)
      moreover have "hints_at state ?ihs = []" using none at by simp
      ultimately show ?thesis using sl True unfolding ix by (simp add: reduceChainHintFor_def slot_of_def)
    next
      case one
      then have "(i, h) \<in> set ?at" by simp
      then have mem: "(i, h) \<in> set ?ihs" by (simp only: set_filter mem_Collect_eq)
      have ih: "i < length hints" "hints ! i = h" using fst_snd_enumerate [OF mem] by auto
      have "filter (\<lambda>h. rh_startState h = state) hints = [h]" using hs one by simp
      note found = find_unique [OF this, of "\<lambda>h. rh_lookahead h = lookahead"]
      have "hints_at state ?ihs = [i]" using one at by simp
      then have slot: "buildReduceChainHintIndex hints ! unat state = int i" "unat state < length (buildReduceChainHintIndex hints)"
        using sl True unfolding ix by (simp_all add: slot_of_def)
      show ?thesis unfolding found reduceChainHintFor_def using slot ih by simp
    next
      case more
      then have "hints_at state ?ihs = fst x # fst y # map fst z" using at by simp
      then show ?thesis using sl True unfolding ix by (simp add: reduceChainHintFor_def slot_of_def)
    qed
  qed
qed

section \<open>The fields of a child\<close>

text \<open>One cell of the arrays: identifier, inherited flag, conflict flag; and the same step on a cell.\<close>

type_synonym field_cell = "u16 \<times> bool \<times> bool"

fun cell_step :: "fieldMapEntry \<Rightarrow> field_cell \<Rightarrow> field_cell" where
  "cell_step entry (fid, inh, conflict) =
     (if conflict then (if \<not> fe_Inherited entry then (fe_FieldID entry, False, False) else (fid, inh, conflict))
      else if fid = 0 then (fe_FieldID entry, fe_Inherited entry, conflict)
      else if \<not> fe_Inherited entry \<and> inh then (fe_FieldID entry, False, conflict)
      else if fe_Inherited entry \<and> inh \<and> fid \<noteq> fe_FieldID entry then (0, False, True)
      else if fe_Inherited entry = inh then (fe_FieldID entry, fe_Inherited entry, conflict)
      else (fid, inh, conflict))"

definition cell :: "field_arrays \<Rightarrow> nat \<Rightarrow> field_cell" where
  "cell s i = (fst s ! i, fst (snd s) ! i, conflicted_at (snd (snd s)) i)"

definition sized :: "nat \<Rightarrow> field_arrays \<Rightarrow> bool" where
  "sized n s \<longleftrightarrow> length (fst s) = n \<and> length (fst (snd s)) = n
     \<and> (case snd (snd s) of None \<Rightarrow> True | Some l \<Rightarrow> length l = n)"

definition child_entries :: "nat \<Rightarrow> fieldMapEntry list \<Rightarrow> fieldMapEntry list" where
  "child_entries i entries = filter (\<lambda>e. unat (fe_ChildIndex e) = i) entries"

lemma plan_step_cell:
  assumes "sized n s" "i < n"
  shows "sized n (plan_step n e s)"
    and "cell (plan_step n e s) i = (if unat (fe_ChildIndex e) = i then cell_step e (cell s i) else cell s i)"
proof -
  obtain f h c where s: "s = (f, h, c)" by (cases s)
  show "sized n (plan_step n e s)"
    using assms by (cases c) (auto simp: s sized_def plan_step_def Let_def conflicted_at_def)
  show "cell (plan_step n e s) i = (if unat (fe_ChildIndex e) = i then cell_step e (cell s i) else cell s i)"
    using assms by (cases c) (auto simp: s sized_def cell_def plan_step_def Let_def conflicted_at_def nth_list_update)
qed

lemma plan_fold_cell:
  assumes "sized n s" "i < n"
  shows "sized n (fold (plan_step n) es s) \<and> cell (fold (plan_step n) es s) i = fold cell_step (child_entries i es) (cell s i)"
  using assms(1)
proof (induction es arbitrary: s)
  case (Cons e es)
  show ?case using Cons.IH [OF plan_step_cell(1) [OF Cons.prems assms(2)]] plan_step_cell(2) [OF Cons.prems assms(2)]
    by (simp add: child_entries_def)
qed (simp add: child_entries_def)

text \<open>The per-reduction step is the plan step on conflict flags that are there from the start.\<close>

lemma field_step_plan:
  "length c = n \<Longrightarrow> plan_step n e (f, h, Some c) = (case field_step n e (f, h, c) of (f', h', c') \<Rightarrow> (f', h', Some c'))"
  and field_step_length: "length c = n \<Longrightarrow> length (snd (snd (field_step n e (f, h, c)))) = n"
  by (auto simp: plan_step_def field_step_def Let_def conflicted_at_def)

lemma field_fold_plan:
  assumes "length c = n"
  shows "fold (plan_step n) es (f, h, Some c) = (case fold (field_step n) es (f, h, c) of (f', h', c') \<Rightarrow> (f', h', Some c'))"
  using assms
proof (induction es arbitrary: f h c)
  case (Cons e es)
  obtain f' h' c' where st: "field_step n e (f, h, c) = (f', h', c')" using prod_cases3 by blast
  then have "length c' = n" using field_step_length [OF Cons.prems, of e f h] by simp
  then show ?case using Cons.IH [of c' f' h'] field_step_plan [OF Cons.prems, of e f h] st by simp
qed simp

text \<open>
  What the field map says of a child. A field named by the production itself wins over inherited ones,
  and the last such field wins; without one, the inherited field counts when all entries agree on it,
  and otherwise the child is in conflict.
\<close>

definition child_field :: "fieldMapEntry list \<Rightarrow> field_cell" where
  "child_field entries =
     (let direct = filter (\<lambda>e. \<not> fe_Inherited e) entries in
      if direct \<noteq> [] then (fe_FieldID (last direct), False, False)
      else case entries of
        [] \<Rightarrow> (0, False, False)
      | e # es \<Rightarrow> if \<forall>e'\<in>set es. fe_FieldID e' = fe_FieldID e then (fe_FieldID e, True, False) else (0, False, True))"

lemma cell_fold_spec:
  assumes "\<forall>e\<in>set es. fe_FieldID e \<noteq> 0"
  shows "fold cell_step es (0, False, False) = child_field es"
  using assms
proof (induction es rule: rev_induct)
  case Nil then show ?case by (simp add: child_field_def)
next
  case (snoc e es)
  then have IH: "fold cell_step es (0, False, False) = child_field es" and e: "fe_FieldID e \<noteq> 0"
    and es: "\<forall>x\<in>set es. fe_FieldID x \<noteq> 0" by auto
  show ?case
  proof (cases "filter (\<lambda>e. \<not> fe_Inherited e) es = []")
    case True
    then have "\<forall>x\<in>set es. fe_Inherited x" by (simp add: filter_empty_conv)
    then show ?thesis using IH e es True by (cases es) (auto simp: child_field_def Let_def)
  next
    case False
    then have "fe_FieldID (last (filter (\<lambda>e. \<not> fe_Inherited e) es)) \<noteq> 0"
      using es last_in_set [OF False] by simp
    then show ?thesis using IH e False by (auto simp: child_field_def Let_def)
  qed
qed

lemma plan_cells:
  assumes "i < n" "\<forall>e\<in>set es. fe_FieldID e \<noteq> 0" "c = None \<or> c = Some (replicate n False)"
  shows "cell (fold (plan_step n) es (replicate n 0, replicate n False, c)) i = child_field (child_entries i es)"
    and "sized n (fold (plan_step n) es (replicate n 0, replicate n False, c))"
proof -
  let ?s = "(replicate n 0, replicate n False, c)"
  have s: "sized n ?s" "cell ?s i = (0, False, False)"
    using assms(1,3) by (auto simp: sized_def cell_def conflicted_at_def)
  have "\<forall>e\<in>set (child_entries i es). fe_FieldID e \<noteq> 0" using assms(2) by (simp add: child_entries_def)
  from cell_fold_spec [OF this] plan_fold_cell [OF s(1) assms(1), of es] s(2)
  show "cell (fold (plan_step n) es ?s) i = child_field (child_entries i es)" "sized n (fold (plan_step n) es ?s)"
    by simp_all
qed

text \<open>Every plan of the cache is the plan of its own production and child count.\<close>

definition plans_ok :: "ruleLanguage \<Rightarrow> reduceFieldPlan option list \<Rightarrow> bool" where
  "plans_ok lang out \<longleftrightarrow>
     (\<forall>productionID planCount arrays. unat productionID < length out \<and> out ! unat productionID = Some (planCount, arrays)
        \<longrightarrow> buildFieldPlanForProduction lang (unat planCount) productionID = Some arrays)"

lemma add_plan_ok: "plans_ok lang out \<Longrightarrow> plans_ok lang (add_plan lang act out)"
  by (auto simp: plans_ok_def add_plan_def Let_def nth_list_update split: option.splits if_splits
        dest: word_unat_eq_iff [THEN iffD2])

lemma plans_cached: "plans_ok lang (buildReduceFieldPlans lang)"
proof -
  have "plans_ok lang (fold (add_plan lang) acts out)" if "plans_ok lang out" for acts out
    using that by (induction acts arbitrary: out) (auto intro: add_plan_ok)
  moreover have "plans_ok lang (replicate n None)" for n by (auto simp: plans_ok_def)
  moreover have "plans_ok lang []" by (simp add: plans_ok_def)
  ultimately show ?thesis by (simp add: buildReduceFieldPlans_def Let_def)
qed

lemma buildFieldIDs_cases:
  assumes "buildFieldIDs lang (buildReduceFieldPlans lang) n productionID = r" "n > 0"
    "unat productionID < length (rl_FieldMapSlices lang)"
  defines "es \<equiv> production_entries lang productionID"
  shows "(r = None \<and> (\<forall>e\<in>set es. unat (fe_ChildIndex e) \<ge> n))
    \<or> ((\<exists>e\<in>set es. unat (fe_ChildIndex e) < n)
       \<and> (\<exists>c. (c = None \<or> c = Some (replicate n False)) \<and> r = Some (fold (plan_step n) es (replicate n 0, replicate n False, c))))"
proof -
  let ?plans = "buildReduceFieldPlans lang" and ?pid = "unat productionID"
  have empty: "es = []" if "rl_FieldMapEntries lang = [] \<or> snd (rl_FieldMapSlices lang ! ?pid) = 0"
    using that unfolding es_def by (auto simp: production_entries_def Let_def slice_def)
  consider (cached) planCount arrays where "?pid < length ?plans" "?plans ! ?pid = Some (planCount, arrays)"
      "unat planCount = n" "rl_FieldMapEntries lang \<noteq> []" "r = Some arrays"
    | (none) "\<forall>e\<in>set es. unat (fe_ChildIndex e) \<ge> n" "r = None"
    | (fresh) "\<exists>e\<in>set es. unat (fe_ChildIndex e) < n"
        "r = (case fold (field_step n) es (replicate n 0, replicate n False, replicate n False) of (f, h, c) \<Rightarrow> Some (f, h, Some c))"
    using assms(1-3) empty unfolding buildFieldIDs_def Let_def es_def [symmetric]
    by (fastforce split: if_splits option.splits simp: not_less not_le)
  then show ?thesis
  proof cases
    case cached
    then have "buildFieldPlanForProduction lang n productionID = Some arrays"
      using plans_cached [of lang] unfolding plans_ok_def by blast
    then show ?thesis using cached(5) unfolding buildFieldPlanForProduction_def Let_def es_def [symmetric]
      by (auto split: if_splits)
  next
    case fresh
    then show ?thesis using field_fold_plan [of "replicate n False" n es "replicate n 0" "replicate n False"]
      by (auto split: prod.splits)
  qed simp
qed

text \<open>
  C37. The field arrays of a reduction are those of the field map, from the cache or computed afresh:
  when no entry of the production addresses a child there are none, and otherwise they have one cell
  per child, which holds the field the production itself names for the child last, or the one inherited
  field its entries agree on, or a conflict.
\<close>

theorem reduction_fields_exact:
  assumes "n > 0" "unat productionID < length (rl_FieldMapSlices lang)"
    "\<forall>e\<in>set (rl_FieldMapEntries lang). fe_FieldID e \<noteq> 0"
  shows "case buildFieldIDs lang (buildReduceFieldPlans lang) n productionID of
      None \<Rightarrow> \<forall>e\<in>set (production_entries lang productionID). unat (fe_ChildIndex e) \<ge> n
    | Some arrays \<Rightarrow> (\<exists>e\<in>set (production_entries lang productionID). unat (fe_ChildIndex e) < n)
        \<and> sized n arrays
        \<and> (\<forall>i<n. cell arrays i = child_field (child_entries i (production_entries lang productionID)))"
proof -
  have nz: "\<forall>e\<in>set (production_entries lang productionID). fe_FieldID e \<noteq> 0"
    using assms(3) by (auto simp: production_entries_def Let_def)
  show ?thesis using buildFieldIDs_cases [OF refl assms(1,2)] plan_cells [OF _ nz, where n = n] assms(1)
    by (auto split: option.splits)
qed

definition demo_fields :: ruleLanguage where
  "demo_fields = \<lparr>rl_tables = demo_rules, rl_SymbolNames = [], rl_SymbolMetadata = [], rl_AliasSequences = [],
     rl_FieldMapSlices = [(0, 0), (0, 4)],
     rl_FieldMapEntries = [\<lparr>fe_FieldID = 5, fe_ChildIndex = 0, fe_Inherited = True\<rparr>,
       \<lparr>fe_FieldID = 6, fe_ChildIndex = 1, fe_Inherited = True\<rparr>, \<lparr>fe_FieldID = 7, fe_ChildIndex = 0, fe_Inherited = False\<rparr>,
       \<lparr>fe_FieldID = 8, fe_ChildIndex = 1, fe_Inherited = True\<rparr>],
     rl_ReduceChainHints = []\<rparr>"

theorem reduction_fields_exact_witness:
  "unat (1 :: u16) < length (rl_FieldMapSlices demo_fields)
   \<and> buildFieldIDs demo_fields (buildReduceFieldPlans demo_fields) 2 1 = Some ([7, 0], [False, False], Some [False, True])
   \<and> cell ([7, 0], [False, False], Some [False, True]) 1
       = child_field (child_entries 1 (production_entries demo_fields 1))"
proof -
  have run: "buildFieldIDs demo_fields (buildReduceFieldPlans demo_fields) 2 1
      = Some ([7, 0], [False, False], Some [False, True])" by code_simp
  have nz: "\<forall>e\<in>set (rl_FieldMapEntries demo_fields). fe_FieldID e \<noteq> 0" by code_simp
  have len: "unat (1 :: u16) < length (rl_FieldMapSlices demo_fields)" by code_simp
  show ?thesis using reduction_fields_exact [of 2 1 demo_fields] run nz len by simp
qed

text \<open>
  A production keeps its field mark when its slice is not empty and every reduction of it has an
  effective field.
\<close>

lemma field_presence:
  assumes "unat productionID < length (rl_FieldMapSlices lang)"
  shows "reduceProductionHasFields (buildReduceFieldPresence lang) productionID \<longleftrightarrow>
    snd (rl_FieldMapSlices lang ! unat productionID) \<noteq> 0
    \<and> (\<forall>act\<in>set (all_actions (rl_tables lang)). pa_Type act = ParseActionReduce \<and> pa_ProductionID act = productionID
         \<longrightarrow> fieldMapHasEffectiveFields lang (unat (pa_ChildCount act)) productionID)"
proof -
  let ?f = "\<lambda>act out.
        if pa_Type act \<noteq> ParseActionReduce \<or> unat (pa_ProductionID act) \<ge> length out \<or> \<not> out ! unat (pa_ProductionID act)
           \<or> fieldMapHasEffectiveFields lang (unat (pa_ChildCount act)) (pa_ProductionID act)
        then out else out[unat (pa_ProductionID act) := False]"
  have "length (fold ?f acts out) = length out
      \<and> (fold ?f acts out ! unat productionID \<longleftrightarrow> out ! unat productionID
        \<and> (\<forall>act\<in>set acts. pa_Type act = ParseActionReduce \<and> pa_ProductionID act = productionID
             \<longrightarrow> fieldMapHasEffectiveFields lang (unat (pa_ChildCount act)) productionID))"
    if "unat productionID < length out" for acts out
    using that
  proof (induction acts arbitrary: out)
    case (Cons act acts)
    have "length (?f act out) = length out" by simp
    moreover have "?f act out ! unat productionID \<longleftrightarrow> out ! unat productionID
        \<and> (pa_Type act = ParseActionReduce \<and> pa_ProductionID act = productionID
             \<longrightarrow> fieldMapHasEffectiveFields lang (unat (pa_ChildCount act)) productionID)"
      using Cons.prems by (auto simp: nth_list_update dest: word_unat_eq_iff [THEN iffD2])
    ultimately show ?case using Cons.IH [of "?f act out"] Cons.prems by (simp only: fold_simps) auto
  qed simp
  from this [of "map (\<lambda>fm. snd fm \<noteq> 0) (rl_FieldMapSlices lang)" "all_actions (rl_tables lang)"] assms
  show ?thesis by (simp add: reduceProductionHasFields_def buildReduceFieldPresence_def)
qed

end
