(* ===== verification/Keyword_Lexer.thy ===== *)
theory Keyword_Lexer
  imports Lexer_Next
begin

text \<open>
  Keyword recognition. The keyword DFA runs over the text of a captured word
  (\<^verbatim>\<open>lexKeywordSource\<close> of \<^verbatim>\<open>internal/runtime/parser_dfa_token_source.go\<close>), guarded by a prefilter
  on the first byte and the length that is derived from the same DFA by breadth-first search
  (\<^verbatim>\<open>buildKeywordLexPrefilter\<close> and \<^verbatim>\<open>keywordLexCouldMatch\<close> of \<^verbatim>\<open>language.go\<close>), with the SQL variant
  that retries in upper case. The lemmas show that the search ends, that the prefilter never rejects
  a word the DFA accepts when the DFA has no end-of-input transitions, and that it does reject one
  when it has them.
\<close>

section \<open>Prefilter\<close>

record keywordLexPrefilter =
  kf_allowAll :: bool
  kf_hasAny :: bool
  kf_first :: "u64 list"
  kf_lengths :: "u64 list"

definition no_filter :: keywordLexPrefilter where
  "no_filter = \<lparr>kf_allowAll = False, kf_hasAny = False, kf_first = replicate 4 0, kf_lengths = replicate 4 0\<rparr>"

definition allow_all :: keywordLexPrefilter where
  "allow_all = no_filter\<lparr>kf_allowAll := True\<rparr>"

definition set_bit256 :: "nat \<Rightarrow> u64 list \<Rightarrow> u64 list" where
  "set_bit256 n arr = arr[n div 64 := or (arr ! (n div 64)) (push_bit (n mod 64) 1)]"

definition get_bit256 :: "u64 list \<Rightarrow> nat \<Rightarrow> bool" where
  "get_bit256 arr n \<longleftrightarrow> and (arr ! (n div 64)) (push_bit (n mod 64) 1) \<noteq> 0"

type_synonym frame = "int \<times> nat"

text \<open>The transitions of one frame: the first-byte marks and the frames to visit, or give up.\<close>

fun add_transitions :: "nat \<Rightarrow> lexTransition list \<Rightarrow> keywordLexPrefilter \<Rightarrow> frame list
    \<Rightarrow> (keywordLexPrefilter \<times> frame list) option" where
  "add_transitions depth [] flt queue = Some (flt, queue)"
| "add_transitions depth (tr # trs) flt queue =
     (if lt_NextState tr < 0 then add_transitions depth trs flt queue
      else if lt_Lo tr < 0 \<or> lt_Hi tr > 0x7F \<or> lt_Hi tr < lt_Lo tr then None
      else
        let flt = (if depth = 0
                      then flt\<lparr>kf_first := fold (\<lambda>c. set_bit256 (nat c)) [lt_Lo tr..lt_Hi tr] (kf_first flt)\<rparr>
                      else flt) in
        add_transitions depth trs flt (queue @ [(lt_NextState tr, depth + 1)]))"

definition mark_accept :: "lexState \<Rightarrow> nat \<Rightarrow> keywordLexPrefilter \<Rightarrow> keywordLexPrefilter" where
  "mark_accept st depth flt =
     (if ls_AcceptToken st \<noteq> 0 \<and> depth > 0
      then flt\<lparr>kf_hasAny := True, kf_lengths := set_bit256 depth (kf_lengths flt)\<rparr> else flt)"

definition maxLen :: nat where "maxLen = 255"

text \<open>Every round visits a frame of a finite grid for the first time or shortens the queue.\<close>

definition grid :: "lexState list \<Rightarrow> frame set" where
  "grid states = {0..<int (length states)} \<times> {..maxLen}"

lemma grid_visit:
  assumes "\<not> (fst f < 0 \<or> fst f \<ge> int (length states))" "f \<notin> set visited" "\<not> snd f > maxLen"
  shows "card (grid states - set (f # visited)) < card (grid states - set visited)"
proof (rule psubset_card_mono)
  show "finite (grid states - set visited)" by (simp add: grid_def)
  have "f \<in> grid states" using assms(1,3) by (cases f) (auto simp: grid_def)
  then show "grid states - set (f # visited) \<subset> grid states - set visited" using assms(2) by auto
qed

text \<open>The breadth-first search; \<open>None\<close> is the early return with \<^verbatim>\<open>allowAll\<close>.\<close>

function search :: "lexState list \<Rightarrow> frame list \<Rightarrow> frame list \<Rightarrow> keywordLexPrefilter \<Rightarrow> keywordLexPrefilter option" where
  "search states visited [] flt = Some flt"
| "search states visited (f # queue) flt =
     (if fst f < 0 \<or> fst f \<ge> int (length states) then None
      else if f \<in> set visited then search states visited queue flt
      else if snd f > maxLen then None
      else
        let st = states ! nat (fst f);
            flt = mark_accept st (snd f) flt in
        if ls_Default st \<ge> 0 then None
        else case add_transitions (snd f) (ls_Transitions st) flt queue of
          None \<Rightarrow> None
        | Some (flt, queue) \<Rightarrow> search states (f # visited) queue flt)"
  by pat_completeness auto

termination
  by (relation "measures [\<lambda>(states, visited, queue, flt). card (grid states - set visited), \<lambda>(states, visited, queue, flt). length queue]")
    (use grid_visit in auto)

declare search.simps [simp del]

definition buildKeywordLexPrefilter :: "lexState list \<Rightarrow> keywordLexPrefilter" where
  "buildKeywordLexPrefilter states =
     (if states = [] then allow_all
      else case search states [] [(0, 0)] no_filter of
        None \<Rightarrow> allow_all
      | Some flt \<Rightarrow> if \<not> kf_hasAny flt then allow_all else flt)"

definition keywordLexCouldMatch :: "lexState list \<Rightarrow> bytes \<Rightarrow> int \<Rightarrow> int \<Rightarrow> bool" where
  "keywordLexCouldMatch states source start fin =
     (let flt = buildKeywordLexPrefilter states in
      if states = [] \<or> kf_allowAll flt then True
      else if \<not> kf_hasAny flt \<or> start < 0 \<or> fin \<le> start \<or> fin > int (length source) then False
      else
        let n = fin - start in
        if n \<ge> 256 then False
        else get_bit256 (kf_lengths flt) (nat n) \<and> get_bit256 (kf_first flt) (unat (source ! nat start)))"

section \<open>The keyword DFA\<close>

record keyword_scan =
  kw_curState :: int
  kw_scanPos :: nat
  kw_acceptPos :: int
  kw_acceptSymbol :: u16
  kw_acceptSkip :: bool
  kw_acceptPriority :: int
  kw_eofHops :: nat

definition keyword_start :: keyword_scan where
  "keyword_start = \<lparr>kw_curState = 0, kw_scanPos = 0, kw_acceptPos = -1, kw_acceptSymbol = 0, kw_acceptSkip = False,
     kw_acceptPriority = 32767, kw_eofHops = 0\<rparr>"

definition keyword_accept :: "bytes \<Rightarrow> lexState \<Rightarrow> keyword_scan \<Rightarrow> keyword_scan" where
  "keyword_accept source st s =
     (if (ls_AcceptToken st > 0 \<or> ls_Skip st \<or> (ls_AcceptEOF st \<and> kw_scanPos s \<ge> length source))
         \<and> (kw_acceptPos s < 0 \<or> ls_AcceptPriority st < kw_acceptPriority s
            \<or> (ls_AcceptPriority st = kw_acceptPriority s \<and> int (kw_scanPos s) \<ge> kw_acceptPos s))
      then s\<lparr>kw_acceptPos := int (kw_scanPos s), kw_acceptSymbol := ls_AcceptToken st, kw_acceptSkip := ls_Skip st,
             kw_acceptPriority := ls_AcceptPriority st\<rparr>
      else s)"

definition keyword_consume :: "nat \<Rightarrow> int \<Rightarrow> bool \<Rightarrow> keyword_scan \<Rightarrow> keyword_scan" where
  "keyword_consume width nextState skipTransition s =
     (let s = s\<lparr>kw_eofHops := 0, kw_scanPos := kw_scanPos s + width, kw_curState := nextState\<rparr> in
      if skipTransition then s\<lparr>kw_acceptPos := -1, kw_acceptSymbol := 0, kw_acceptSkip := False\<rparr> else s)"

lemma keyword_accept_frame [simp]:
  "kw_scanPos (keyword_accept source st s) = kw_scanPos s" "kw_curState (keyword_accept source st s) = kw_curState s"
  "kw_eofHops (keyword_accept source st s) = kw_eofHops s"
  by (simp_all add: keyword_accept_def)

lemma keyword_consume_frame [simp]:
  "kw_scanPos (keyword_consume n t k s) = kw_scanPos s + n" "kw_curState (keyword_consume n t k s) = t"
  by (simp_all add: keyword_consume_def Let_def)

lemma rune_at_width: "pos < length source \<Longrightarrow> 0 < snd (rune_at source pos)"
  using decode_rune_size_pos [of "drop pos source"] by (auto simp: rune_at_def Let_def)

function keyword_loop :: "lexState list \<Rightarrow> bytes \<Rightarrow> keyword_scan \<Rightarrow> keyword_scan" where
  "keyword_loop states source s =
     (if kw_curState s < 0 \<or> kw_curState s \<ge> int (length states) then s
      else
        let st = states ! nat (kw_curState s); s = keyword_accept source st s in
        if kw_scanPos s \<ge> length source then
          (if ls_EOF st \<ge> 0 \<and> kw_eofHops s \<le> length states
           then keyword_loop states source (s\<lparr>kw_curState := int32 (ls_EOF st), kw_eofHops := kw_eofHops s + 1\<rparr>)
           else s)
        else
          let (r, width) = rune_at source (kw_scanPos s);
              (nextState, skipTransition) =
                next_transition (buildLexAsciiTable states) (nat (kw_curState s)) st (source ! kw_scanPos s) r in
          if nextState < 0 then s\<lparr>kw_eofHops := 0\<rparr>
          else keyword_loop states source (keyword_consume width nextState skipTransition s))"
  by pat_completeness auto
termination
proof (relation "measures [\<lambda>(states, source, s). length source - kw_scanPos s, \<lambda>(states, source, s). length states + 1 - kw_eofHops s]",
    goal_cases)
  case (3 states source s st s' p r width t nextState skipTransition)
  then show ?case using rune_at_width [of "kw_scanPos s" source] by (auto simp: prod_eq_iff)
qed auto

declare keyword_loop.simps [simp del]

text \<open>The result is the recorded read span and the symbol of the keyword token, which ends where the word ends.\<close>

definition lexKeywordSource :: "lexState list \<Rightarrow> u32 option \<Rightarrow> bytes \<Rightarrow> u32 option \<times> u16 option" where
  "lexKeywordSource states span source =
     (if states = [] then (span, None)
      else
        let s = keyword_loop states source keyword_start;
            frontier = lookaheadEndByteAt (NewLexer [] source) (kw_scanPos s) True;
            span = recordTokenInvariantReadSpan span 0 (tokenInvariantExaminedEnd source frontier) in
        if kw_acceptSymbol s = 0 \<or> kw_acceptSkip s \<or> kw_acceptPos s \<noteq> int (length source) then (span, None)
        else (span, Some (kw_acceptSymbol s)))"

section \<open>Upper case\<close>

fun sql_upper :: "bytes \<Rightarrow> bool \<Rightarrow> (bytes \<times> bool) option" where
  "sql_upper [] changed = Some ([], changed)"
| "sql_upper (b # bs) changed =
     (if b \<ge> 97 \<and> b \<le> 122
      then map_option (\<lambda>(out, c). ((b - 32) # out, c)) (sql_upper bs True)
      else if (b \<ge> 65 \<and> b \<le> 90) \<or> (b \<ge> 48 \<and> b \<le> 57) \<or> b = 95
      then map_option (\<lambda>(out, c). (b # out, c)) (sql_upper bs changed)
      else None)"

definition sqlUppercaseKeywordSource :: "string \<Rightarrow> bytes \<Rightarrow> bytes option" where
  "sqlUppercaseKeywordSource name source =
     (if name \<noteq> ''sql'' \<or> source = [] then None
      else case sql_upper source False of None \<Rightarrow> None | Some (out, changed) \<Rightarrow> if changed then Some out else None)"

text \<open>
  The keyword of a captured word, the middle part of \<^verbatim>\<open>promoteKeyword\<close>: the prefilter on the word or
  its upper-case form, the DFA, and for SQL the retry in upper case.
\<close>

definition keyword_of_word :: "string \<Rightarrow> lexState list \<Rightarrow> u32 option \<Rightarrow> bytes \<Rightarrow> nat \<Rightarrow> nat \<Rightarrow> u32 option \<times> u16 option" where
  "keyword_of_word name states span source start fin =
     (let word = slice source start fin;
          upper = sqlUppercaseKeywordSource name word;
          couldUpper = (case upper of None \<Rightarrow> False | Some u \<Rightarrow> keywordLexCouldMatch states u 0 (int (length u))) in
      if \<not> keywordLexCouldMatch states source (int start) (int fin) \<and> \<not> couldUpper then (span, None)
      else
        let keywordSource = (if keywordLexCouldMatch states source (int start) (int fin) then word else the upper);
            (span, found) = lexKeywordSource states span keywordSource in
        if found = None \<and> name = ''sql'' \<and> couldUpper then lexKeywordSource states span (the upper)
        else (span, found))"

text \<open>Whether the previous non-blank byte on the way back is a member dot.\<close>

fun back_to_dot :: "bytes \<Rightarrow> nat \<Rightarrow> bool" where
  "back_to_dot source 0 = False"
| "back_to_dot source (Suc i) =
     (if source ! i = 32 \<or> source ! i = 9 \<or> source ! i = 13 then back_to_dot source i else source ! i = 46)"

definition isAfterSwiftMemberDot :: "bytes \<Rightarrow> int \<Rightarrow> bool" where
  "isAfterSwiftMemberDot source start =
     (if start \<le> 0 \<or> start > int (length source) then False else back_to_dot source (nat start))"


section \<open>Runes of keyword text\<close>

lemma rune_of_high:
  "194 \<le> a \<Longrightarrow> a < 224 \<Longrightarrow> 128 \<le> rune_of2 a b"
  "224 \<le> a \<Longrightarrow> a < 240 \<Longrightarrow> second_lo a \<le> b \<Longrightarrow> b \<le> 191 \<Longrightarrow> 128 \<le> rune_of3 a b c"
  "240 \<le> a \<Longrightarrow> a \<le> 244 \<Longrightarrow> second_lo a \<le> b \<Longrightarrow> b \<le> 191 \<Longrightarrow> 128 \<le> rune_of4 a b c d"
proof -
  have nonneg: "0 \<le> x mod 64" for x :: int by simp
  show "128 \<le> rune_of2 a b" if "194 \<le> a" "a < 224"
  proof -
    have "a mod 32 = a - 192" using that by presburger
    then show ?thesis using that nonneg [of b] unfolding rune_of2_def by linarith
  qed
  show "128 \<le> rune_of3 a b c" if "224 \<le> a" "a < 240" "second_lo a \<le> b" "b \<le> 191"
  proof (cases "a = 224")
    case True
    then have "160 \<le> b" using that by (simp add: second_lo_def)
    then have "b mod 64 = b - 128" using that by presburger
    then show ?thesis using that True \<open>160 \<le> b\<close> nonneg [of c] unfolding rune_of3_def by simp
  next
    case False
    have "a mod 16 = a - 224" using that by presburger
    then show ?thesis using that False nonneg [of b] nonneg [of c] unfolding rune_of3_def by linarith
  qed
  show "128 \<le> rune_of4 a b c d" if "240 \<le> a" "a \<le> 244" "second_lo a \<le> b" "b \<le> 191"
  proof (cases "a = 240")
    case True
    then have "144 \<le> b" using that by (simp add: second_lo_def)
    then have "b mod 64 = b - 128" using that by presburger
    then show ?thesis using that True \<open>144 \<le> b\<close> nonneg [of c] nonneg [of d] unfolding rune_of4_def by simp
  next
    case False
    have "a mod 8 = a - 240" using that by presburger
    then show ?thesis using that False nonneg [of b] nonneg [of c] nonneg [of d] unfolding rune_of4_def by linarith
  qed
qed

lemma decode_rune_high:
  assumes "128 \<le> uint b"
  shows "128 \<le> fst (decode_rune (b # p))"
proof -
  have "second_hi x \<le> 191" for x by (simp add: second_hi_def)
  then have "x \<le> 191" if "\<not> second_hi y < x" for x y using that by (meson leI order_trans)
  then show ?thesis using assms rune_of_high
    by (auto simp: decode_rune_def Let_def RuneError_def not_less split: list.splits if_splits)
qed

lemma rune_at_ascii:
  assumes "pos < length source" "fst (rune_at source pos) < 128"
  shows "source ! pos < 0x80" "rune_at source pos = (uint (source ! pos), 1)"
proof -
  show lt: "source ! pos < 0x80"
  proof (rule ccontr)
    assume "\<not> source ! pos < 0x80"
    then have "128 \<le> uint (source ! pos)" by (simp add: word_less_def)
    then show False using assms decode_rune_high [of "source ! pos" "drop (Suc pos) source"] \<open>\<not> source ! pos < 0x80\<close>
      by (simp add: rune_at_def Let_def Cons_nth_drop_Suc)
  qed
  then show "rune_at source pos = (uint (source ! pos), 1)" by (simp add: rune_at_def Let_def)
qed

section \<open>The search covers the DFA\<close>

lemma bit256_set:
  assumes "length arr = 4" "n < 256"
  shows "length (set_bit256 n arr) = 4" "get_bit256 (set_bit256 n arr) n" "get_bit256 arr m \<Longrightarrow> get_bit256 (set_bit256 n arr) m"
proof -
  have g: "get_bit256 a k \<longleftrightarrow> bit (a ! (k div 64)) (k mod 64)" for a k
  proof -
    have "and (a ! (k div 64)) (push_bit (k mod 64) 1) \<noteq> 0 \<longleftrightarrow> bit (a ! (k div 64)) (k mod 64)"
      by (simp add: push_bit_eq_mult bit_iff_and_push_bit_not_eq_0)
    then show ?thesis by (simp add: get_bit256_def)
  qed
  have idx: "n div 64 < 4" using assms(2) by simp
  show "length (set_bit256 n arr) = 4" using assms(1) by (simp add: set_bit256_def)
  have b: "bit (or x (2 ^ (n mod 64))) k \<longleftrightarrow> bit x k \<or> k = n mod 64" for x :: u64 and k
    by (auto simp: bit_or_iff bit_exp_iff)
  show "get_bit256 (set_bit256 n arr) n" unfolding g using idx assms(1) by (simp add: set_bit256_def b)
  show "get_bit256 (set_bit256 n arr) m" if "get_bit256 arr m"
    using that idx assms(1) unfolding g by (cases "m div 64 = n div 64") (auto simp: set_bit256_def b)
qed

lemma fold_bits:
  assumes "length arr = 4" "\<forall>c\<in>set cs. 0 \<le> c \<and> c < 256"
  shows "length (fold (\<lambda>c. set_bit256 (nat c)) cs arr) = 4"
    "c \<in> set cs \<Longrightarrow> get_bit256 (fold (\<lambda>c. set_bit256 (nat c)) cs arr) (nat c)"
    "get_bit256 arr m \<Longrightarrow> get_bit256 (fold (\<lambda>c. set_bit256 (nat c)) cs arr) m"
proof -
  have *: "length (fold (\<lambda>c. set_bit256 (nat c)) cs arr) = 4 \<and> (\<forall>m. get_bit256 arr m \<longrightarrow> get_bit256 (fold (\<lambda>c. set_bit256 (nat c)) cs arr) m)
      \<and> (\<forall>c\<in>set cs. get_bit256 (fold (\<lambda>c. set_bit256 (nat c)) cs arr) (nat c))"
    using assms
  proof (induction cs arbitrary: arr)
    case (Cons c cs)
    have n: "nat c < 256" using Cons.prems(2) by auto
    note b = bit256_set [OF Cons.prems(1) n]
    then show ?case using Cons.IH [OF b(1)] Cons.prems(2) by auto
  qed simp
  then show "length (fold (\<lambda>c. set_bit256 (nat c)) cs arr) = 4"
    "c \<in> set cs \<Longrightarrow> get_bit256 (fold (\<lambda>c. set_bit256 (nat c)) cs arr) (nat c)"
    "get_bit256 arr m \<Longrightarrow> get_bit256 (fold (\<lambda>c. set_bit256 (nat c)) cs arr) m" by blast+
qed

text \<open>Filters only gain bits.\<close>

definition filter_le :: "keywordLexPrefilter \<Rightarrow> keywordLexPrefilter \<Rightarrow> bool" where
  "filter_le f g \<longleftrightarrow> length (kf_first g) = 4 \<and> length (kf_lengths g) = 4 \<and> (kf_hasAny f \<longrightarrow> kf_hasAny g)
     \<and> (\<forall>m. get_bit256 (kf_first f) m \<longrightarrow> get_bit256 (kf_first g) m)
     \<and> (\<forall>m. get_bit256 (kf_lengths f) m \<longrightarrow> get_bit256 (kf_lengths g) m)"

lemma filter_le_trans: "filter_le f g \<Longrightarrow> filter_le g h \<Longrightarrow> filter_le f h"
  by (simp add: filter_le_def)

definition sized :: "keywordLexPrefilter \<Rightarrow> bool" where
  "sized f \<longleftrightarrow> length (kf_first f) = 4 \<and> length (kf_lengths f) = 4"

lemma filter_le_refl: "sized f \<Longrightarrow> filter_le f f" by (simp add: filter_le_def sized_def)

lemma filter_le_sized: "filter_le f g \<Longrightarrow> sized g" by (simp add: filter_le_def sized_def)

text \<open>What a transition leaves behind: its target as a frame, its bytes as first bytes.\<close>

definition covered_transition :: "nat \<Rightarrow> keywordLexPrefilter \<Rightarrow> frame set \<Rightarrow> lexTransition \<Rightarrow> bool" where
  "covered_transition d flt V tr \<longleftrightarrow> (lt_NextState tr \<ge> 0 \<longrightarrow>
     0 \<le> lt_Lo tr \<and> lt_Hi tr \<le> 127 \<and> (lt_NextState tr, d + 1) \<in> V
     \<and> (d = 0 \<longrightarrow> (\<forall>c. lt_Lo tr \<le> c \<and> c \<le> lt_Hi tr \<longrightarrow> get_bit256 (kf_first flt) (nat c))))"

lemma covered_mono: "covered_transition d f V tr \<Longrightarrow> filter_le f g \<Longrightarrow> V \<subseteq> W \<Longrightarrow> covered_transition d g W tr"
  by (auto simp: covered_transition_def filter_le_def)

lemma add_transitions_covers:
  assumes "add_transitions d trs f q = Some (g, q')" "sized f"
  shows "filter_le f g" "set q \<subseteq> set q'" "\<forall>tr\<in>set trs. covered_transition d g (set q') tr"
proof -
  have "filter_le f g \<and> set q \<subseteq> set q' \<and> (\<forall>tr\<in>set trs. covered_transition d g (set q') tr)"
    using assms
  proof (induction d trs f q rule: add_transitions.induct)
    case (1 d f q)
    then show ?case by (simp add: filter_le_refl)
  next
    case (2 d tr trs f q)
    show ?case
    proof (cases "lt_NextState tr < 0")
      case True
      then show ?thesis using 2 by (auto simp: covered_transition_def)
    next
      case False
      then have rng: "\<not> (lt_Lo tr < 0 \<or> lt_Hi tr > 0x7F \<or> lt_Hi tr < lt_Lo tr)" using "2.prems"(1) by (auto split: if_splits)
      define f1 where "f1 = (if d = 0 then f\<lparr>kf_first := fold (\<lambda>c. set_bit256 (nat c)) [lt_Lo tr..lt_Hi tr] (kf_first f)\<rparr> else f)"
      let ?q = "q @ [(lt_NextState tr, d + 1)]"
      have run: "add_transitions d trs f1 ?q = Some (g, q')"
        using "2.prems"(1) False rng by (auto simp: f1_def Let_def split: if_splits)
      have "\<forall>c\<in>set [lt_Lo tr..lt_Hi tr]. 0 \<le> c \<and> c < 256" using rng by auto
      note fb = fold_bits [OF _ this, of "kf_first f"]
      have le: "filter_le f f1" "sized f1" using fb "2.prems"(2) by (auto simp: f1_def filter_le_def sized_def)
      have IH: "filter_le f1 g" "set ?q \<subseteq> set q'" "\<forall>tr\<in>set trs. covered_transition d g (set q') tr"
        using "2.IH"(2) [OF False rng refl] run le(2) unfolding f1_def by auto
      have "covered_transition d f1 (set ?q) tr" using rng fb(2) "2.prems"(2)
        by (auto simp: covered_transition_def f1_def sized_def)
      then have "covered_transition d g (set q') tr" using IH(1,2) by (rule covered_mono)
      then show ?thesis using IH filter_le_trans [OF le(1) IH(1)] by auto
    qed
  qed
  then show "filter_le f g" "set q \<subseteq> set q'" "\<forall>tr\<in>set trs. covered_transition d g (set q') tr" by blast+
qed


text \<open>A frame the search has finished with.\<close>

definition covered_frame :: "lexState list \<Rightarrow> keywordLexPrefilter \<Rightarrow> frame set \<Rightarrow> frame \<Rightarrow> bool" where
  "covered_frame states flt V f \<longleftrightarrow>
     0 \<le> fst f \<and> fst f < int (length states) \<and> snd f \<le> maxLen
     \<and> (let st = states ! nat (fst f) in
        ls_Default st < 0
        \<and> (ls_AcceptToken st \<noteq> 0 \<and> snd f > 0 \<longrightarrow> kf_hasAny flt \<and> get_bit256 (kf_lengths flt) (snd f))
        \<and> (\<forall>tr\<in>set (ls_Transitions st). covered_transition (snd f) flt V tr))"

lemma covered_frame_mono:
  "covered_frame states f V x \<Longrightarrow> filter_le f g \<Longrightarrow> V \<subseteq> W \<Longrightarrow> covered_frame states g W x"
  using covered_mono by (fastforce simp: covered_frame_def filter_le_def Let_def)

lemma mark_accept_le:
  assumes "sized f" "d \<le> maxLen"
  shows "filter_le f (mark_accept st d f)"
    "ls_AcceptToken st \<noteq> 0 \<and> d > 0 \<Longrightarrow> kf_hasAny (mark_accept st d f) \<and> get_bit256 (kf_lengths (mark_accept st d f)) d"
  using assms bit256_set [of "kf_lengths f" d] by (auto simp: mark_accept_def filter_le_def sized_def maxLen_def)

lemma search_covers:
  assumes "search states visited queue f = Some g" "sized f"
    and "\<forall>x\<in>set visited. covered_frame states f (set visited \<union> set queue) x"
  shows "\<exists>V. set visited \<union> set queue \<subseteq> V \<and> (\<forall>x\<in>V. covered_frame states g V x)"
  using assms
proof (induction states visited queue f rule: search.induct)
  case (1 states visited f)
  then show ?case by (auto simp: search.simps intro!: exI [of _ "set visited"])
next
  case (2 states visited x queue f)
  have inr: "\<not> (fst x < 0 \<or> fst x \<ge> int (length states))" using "2.prems"(1) by (auto simp: search.simps split: if_splits)
  show ?case
  proof (cases "x \<in> set visited")
    case True
    then have "search states visited queue f = Some g" using "2.prems"(1) inr by (simp add: search.simps)
    then show ?thesis using "2.IH"(1) [OF inr True] "2.prems"(2,3) True by (auto simp: insert_absorb)
  next
    case new: False
    have d: "\<not> snd x > maxLen" using "2.prems"(1) inr new by (auto simp: search.simps split: if_splits)
    let ?st = "states ! nat (fst x)"
    let ?m = "mark_accept ?st (snd x) f"
    note ma = mark_accept_le [OF "2.prems"(2), of "snd x" ?st]
    have df: "\<not> ls_Default ?st \<ge> 0" using "2.prems"(1) inr new d by (auto simp: search.simps Let_def split: if_splits)
    obtain h q where add: "add_transitions (snd x) (ls_Transitions ?st) ?m queue = Some (h, q)"
      and run: "search states (x # visited) q h = Some g"
      using "2.prems"(1) inr new d df by (auto simp: search.simps Let_def split: option.splits)
    have szm: "sized ?m" using ma(1) d filter_le_sized by simp
    note ac = add_transitions_covers [OF add szm]
    have fh: "filter_le f h" using ma(1) d ac(1) filter_le_trans by simp
    let ?V = "set (x # visited) \<union> set q"
    have "covered_frame states h ?V x"
      unfolding covered_frame_def Let_def using inr d df ac(1,3) ma(2)
      by (auto simp: filter_le_def intro: covered_mono [OF _ filter_le_refl [OF filter_le_sized [OF ac(1)]]])
    moreover have "covered_frame states h ?V y" if "y \<in> set visited" for y
      using covered_frame_mono [OF _ fh, of states "set visited \<union> set (x # queue)" y ?V] "2.prems"(3) that ac(2) by auto
    ultimately have "\<forall>y\<in>set (x # visited). covered_frame states h ?V y" by auto
    then obtain V where V: "?V \<subseteq> V" "\<forall>y\<in>V. covered_frame states g V y"
      using "2.IH"(2) [OF inr new d refl refl df add refl run filter_le_sized [OF fh]] by blast
    then show ?thesis using ac(2) by (intro exI [of _ V]) auto
  qed
qed

text \<open>
  The keyword DFAs the filter is sound for: table entries that fit the ASCII table, and no
  end-of-input transitions.
\<close>

definition keyword_dfa_ok :: "lexState list \<Rightarrow> bool" where
  "keyword_dfa_ok states \<longleftrightarrow> (\<forall>st\<in>set states. ls_EOF st < 0 \<and> list_all encodable (ls_Transitions st))"

text \<open>What the DFA run keeps: it stays on covered frames, one byte per step.\<close>

definition run_inv :: "lexState list \<Rightarrow> keywordLexPrefilter \<Rightarrow> frame set \<Rightarrow> bytes \<Rightarrow> keyword_scan \<Rightarrow> bool" where
  "run_inv states flt V source s \<longleftrightarrow>
     (kw_curState s, kw_scanPos s) \<in> V \<and> kw_acceptPos s \<le> int (kw_scanPos s)
     \<and> (kw_scanPos s > 0 \<longrightarrow> get_bit256 (kf_first flt) (unat (source ! 0)))
     \<and> (kw_acceptSymbol s \<noteq> 0 \<longrightarrow> 0 \<le> kw_acceptPos s \<and>
          (\<exists>q. (q, nat (kw_acceptPos s)) \<in> V \<and> ls_AcceptToken (states ! nat q) \<noteq> 0))"

lemma accept_inv:
  assumes "run_inv states flt V source s"
  shows "run_inv states flt V source (keyword_accept source (states ! nat (kw_curState s)) s)"
  using assms by (auto simp: run_inv_def keyword_accept_def)

lemma scan_transition_found:
  assumes "fst (scan_transitions trs r) \<ge> 0" "list_all encodable trs"
  shows "\<exists>tr\<in>set trs. lt_Lo tr \<le> r \<and> r \<le> lt_Hi tr \<and> fst (scan_transitions trs r) = lt_NextState tr \<and> lt_NextState tr \<ge> 0"
  using assms
proof (induction trs)
  case (Cons tr trs)
  have "int32 (lt_NextState tr) = lt_NextState tr" if "encodable tr"
    using that by (simp add: int32_def encodable_def sint_sbintrunc' signed_take_bit_int_eq_self)
  then show ?case using Cons by (auto simp: encodable_def)
qed simp


text \<open>One step of the run: the next state is covered, one byte further.\<close>

lemma transition_covered:
  assumes "keyword_dfa_ok states" "covered_frame states flt V (q, d)" "(q, d) \<in> V" "d < length source"
    and "rune_at source d = (r, width)"
    and "next_transition (buildLexAsciiTable states) (nat q) (states ! nat q) (source ! d) r = (t, k)" "0 \<le> t"
  shows "width = 1" "(t, d + 1) \<in> V" "d = 0 \<Longrightarrow> get_bit256 (kf_first flt) (unat (source ! 0))"
proof -
  let ?st = "states ! nat q"
  have q: "nat q < length states" using assms(2) by (auto simp: covered_frame_def)
  have enc: "list_all encodable (ls_Transitions ?st)" using assms(1) q by (auto simp: keyword_dfa_ok_def)
  have df: "ls_Default ?st < 0" using assms(2) by (simp add: covered_frame_def Let_def)
  have r: "source ! d < 0x80 \<Longrightarrow> r = uint (source ! d)" using assms(5) by (simp add: rune_at_def Let_def)
  have "next_transition (buildLexAsciiTable states) (nat q) ?st (source ! d) r = default_transition ?st (scan_transitions (ls_Transitions ?st) r)"
    using ascii_transition_scan [OF q _ enc] r by (auto simp: next_transition_def buildLexAsciiTable_def)
  then have t: "t = fst (scan_transitions (ls_Transitions ?st) r)" using assms(6,7) df
    by (auto simp: default_transition_def Let_def split: prod.splits if_splits)
  then obtain tr where tr: "tr \<in> set (ls_Transitions ?st)" "lt_Lo tr \<le> r" "r \<le> lt_Hi tr" "t = lt_NextState tr" "lt_NextState tr \<ge> 0"
    using scan_transition_found [OF _ enc, of r] assms(7) by auto
  have "covered_transition d flt V tr" using assms(2) tr(1) by (auto simp: covered_frame_def Let_def)
  then have c: "0 \<le> lt_Lo tr" "lt_Hi tr \<le> 127" "(t, d + 1) \<in> V" "d = 0 \<Longrightarrow> get_bit256 (kf_first flt) (nat r)"
    using tr by (auto simp: covered_transition_def)
  show "(t, d + 1) \<in> V" by (rule c(3))
  have "fst (rune_at source d) < 128" using tr(3) c(2) assms(5) by simp
  note ra = rune_at_ascii [OF assms(4) this]
  then show "width = 1" using assms(5) by simp
  show "get_bit256 (kf_first flt) (unat (source ! 0))" if "d = 0"
    using c(4) [OF that] ra(2) assms(5) that by (auto simp flip: nat_uint_eq)
qed

lemma keyword_loop_inv:
  assumes "keyword_dfa_ok states" "\<forall>x\<in>V. covered_frame states flt V x" "run_inv states flt V source s"
  shows "run_inv states flt V source (keyword_loop states source s)"
  using assms
proof (induction states source s rule: keyword_loop.induct)
  case (1 states source s)
  show ?case
  proof (cases "kw_curState s < 0 \<or> kw_curState s \<ge> int (length states)")
    case True
    then show ?thesis using "1.prems" by (simp add: keyword_loop.simps)
  next
    case inr: False
    let ?st = "states ! nat (kw_curState s)"
    let ?s = "keyword_accept source ?st s"
    have inv: "run_inv states flt V source ?s" using accept_inv [OF "1.prems"(3)] .
    have "?st \<in> set states" using inr by (intro nth_mem) (simp add: nat_less_iff)
    then have eof: "\<not> ls_EOF ?st \<ge> 0" using "1.prems"(1) by (auto simp: keyword_dfa_ok_def)
    show ?thesis
    proof (cases "kw_scanPos s \<ge> length source")
      case True
      then show ?thesis using inr inv eof by (subst keyword_loop.simps) (simp add: Let_def)
    next
      case more: False
      obtain r width where r: "rune_at source (kw_scanPos s) = (r, width)" by (cases "rune_at source (kw_scanPos s)")
      obtain t k where t: "next_transition (buildLexAsciiTable states) (nat (kw_curState s)) ?st (source ! kw_scanPos s) r = (t, k)"
        by (cases "next_transition (buildLexAsciiTable states) (nat (kw_curState s)) ?st (source ! kw_scanPos s) r")
      show ?thesis
      proof (cases "t < 0")
        case True
        have "run_inv states flt V source (?s\<lparr>kw_eofHops := 0\<rparr>)" using inv by (simp add: run_inv_def)
        then show ?thesis using inr more r t True by (subst keyword_loop.simps) (simp add: Let_def)
      next
        case False
        have fr: "(kw_curState s, kw_scanPos s) \<in> V" using "1.prems"(3) by (simp add: run_inv_def)
        then have cf: "covered_frame states flt V (kw_curState s, kw_scanPos s)" using "1.prems"(2) by blast
        have lt: "kw_scanPos s < length source" using more by simp
        have t0: "0 \<le> t" using False by simp
        note tc = transition_covered [OF "1.prems"(1) cf fr lt r t t0]
        let ?n = "keyword_consume width t k ?s"
        have "run_inv states flt V source ?n"
          using inv tc by (auto simp: run_inv_def keyword_consume_def Let_def)
        then have "run_inv states flt V source (keyword_loop states source ?n)"
          by (intro "1.IH"(2) [OF inr refl refl _ refl _ refl _ False "1.prems"(1,2)]) (use more r t [symmetric] in simp_all)
        then show ?thesis using inr more r t False by (subst keyword_loop.simps) (simp add: Let_def)
      qed
    qed
  qed
qed


section \<open>The prefilter changes no outcome\<close>

lemma lexKeywordSource_accepts:
  assumes "snd (lexKeywordSource states span source) = Some kw"
  shows "states \<noteq> []" "kw_acceptSymbol (keyword_loop states source keyword_start) \<noteq> 0"
    "kw_acceptPos (keyword_loop states source keyword_start) = int (length source)"
  using assms by (auto simp: lexKeywordSource_def Let_def split: if_splits)

lemma lexKeywordSource_span: "snd (lexKeywordSource states span source) = snd (lexKeywordSource states None source)"
  by (simp add: lexKeywordSource_def Let_def)

lemma search_bits:
  assumes "keyword_dfa_ok states" "search states [] [(0, 0)] no_filter = Some flt"
    and "snd (lexKeywordSource states span word) = Some kw" "word \<noteq> []"
  shows "kf_hasAny flt" "length word \<le> 255" "get_bit256 (kf_lengths flt) (length word)" "get_bit256 (kf_first flt) (unat (word ! 0))"
proof -
  have sz: "sized no_filter" by (simp add: sized_def no_filter_def)
  obtain V where V: "{(0, 0)} \<subseteq> V" "\<forall>x\<in>V. covered_frame states flt V x"
    using search_covers [OF assms(2) sz] by auto
  let ?s = "keyword_loop states word keyword_start"
  have "run_inv states flt V word keyword_start" using V(1) by (simp add: run_inv_def keyword_start_def)
  then have inv: "run_inv states flt V word ?s" by (rule keyword_loop_inv [OF assms(1) V(2)])
  note acc = lexKeywordSource_accepts [OF assms(3)]
  obtain q where q: "(q, length word) \<in> V" "ls_AcceptToken (states ! nat q) \<noteq> 0"
    using inv acc(2,3) by (auto simp: run_inv_def)
  have cf: "covered_frame states flt V (q, length word)" using V(2) q(1) by blast
  have len: "0 < length word" using assms(4) by simp
  show "kf_hasAny flt" "length word \<le> 255" "get_bit256 (kf_lengths flt) (length word)"
    using cf q(2) len by (auto simp: covered_frame_def Let_def maxLen_def)
  have "int (length word) \<le> int (kw_scanPos ?s)" using inv acc(3) unfolding run_inv_def by metis
  then have "0 < kw_scanPos ?s" using len by linarith
  then show "get_bit256 (kf_first flt) (unat (word ! 0))" using inv by (auto simp: run_inv_def)
qed

lemma prefilter_sound:
  assumes "keyword_dfa_ok states" "start < fin" "fin \<le> length source"
    and "snd (lexKeywordSource states span (slice source start fin)) = Some kw"
  shows "keywordLexCouldMatch states source (int start) (int fin)"
proof (cases "search states [] [(0, 0)] no_filter")
  case None
  then show ?thesis by (simp add: keywordLexCouldMatch_def buildKeywordLexPrefilter_def Let_def allow_all_def)
next
  case (Some flt)
  let ?w = "slice source start fin"
  have w: "?w \<noteq> []" "length ?w = fin - start" "?w ! 0 = source ! start"
    using assms(2,3) by (auto simp: slice_def)
  note b = search_bits [OF assms(1) Some assms(4) w(1)]
  have "nat (int fin - int start) = fin - start" by simp
  then show ?thesis using b w assms(2,3) Some
    by (auto simp: keywordLexCouldMatch_def buildKeywordLexPrefilter_def Let_def)
qed

lemma prefilter_sound_whole:
  assumes "keyword_dfa_ok states" "u \<noteq> []" "snd (lexKeywordSource states span u) = Some kw"
  shows "keywordLexCouldMatch states u 0 (int (length u))"
  using prefilter_sound [OF assms(1), of 0 "length u" u span kw] assms by simp

lemma sql_upper_length: "sql_upper bs c = Some (out, d) \<Longrightarrow> length out = length bs"
  by (induction bs c arbitrary: out d rule: sql_upper.induct) (auto split: if_splits)

text \<open>
  C26. The keyword prefilter is an optimisation only. For a keyword DFA whose entries fit the ASCII
  table and that has no end-of-input transitions, the keyword found for a captured word behind the
  prefilter is the one the DFA itself finds on the word, or, for SQL, on its upper-case form when
  the word as written is none.
\<close>

theorem keyword_prefilter_exact:
  assumes "keyword_dfa_ok states" "start < fin" "fin \<le> length source"
  shows "snd (keyword_of_word name states span source start fin)
    = (case snd (lexKeywordSource states None (slice source start fin)) of
         Some kw \<Rightarrow> Some kw
       | None \<Rightarrow> (case sqlUppercaseKeywordSource name (slice source start fin) of
           None \<Rightarrow> None | Some u \<Rightarrow> snd (lexKeywordSource states None u)))"
proof -
  let ?w = "slice source start fin"
  let ?lex = "\<lambda>u. snd (lexKeywordSource states None u)"
  have lex: "snd (lexKeywordSource states sp u) = ?lex u" for sp u by (rule lexKeywordSource_span)
  have w: "?lex ?w = None" if "\<not> keywordLexCouldMatch states source (int start) (int fin)"
    using prefilter_sound [OF assms, of None] that by (cases "?lex ?w") auto
  show ?thesis
  proof (cases "sqlUppercaseKeywordSource name ?w")
    case None
    obtain sp1 f1 where l1: "lexKeywordSource states span ?w = (sp1, f1)" by (cases "lexKeywordSource states span ?w")
    have "f1 = ?lex ?w" using lex [of span ?w] l1 by simp
    then show ?thesis using w None l1
      by (cases "keywordLexCouldMatch states source (int start) (int fin)"; cases "?lex ?w") (simp_all add: keyword_of_word_def Let_def)
  next
    case (Some u)
    then have name: "name = ''sql''" by (auto simp: sqlUppercaseKeywordSource_def split: if_splits)
    have "?w \<noteq> []" using assms(2,3) by (auto simp: slice_def)
    moreover obtain d where "sql_upper ?w False = Some (u, d)"
      using Some by (auto simp: sqlUppercaseKeywordSource_def split: option.splits if_splits)
    then have "length u = length ?w" by (rule sql_upper_length)
    ultimately have "u \<noteq> []" by (metis length_0_conv)
    then have up: "?lex u = None" if "\<not> keywordLexCouldMatch states u 0 (int (length u))"
      using prefilter_sound_whole [OF assms(1), of u None] that by (cases "?lex u") auto
    obtain sp1 f1 where l1: "lexKeywordSource states span ?w = (sp1, f1)" by (cases "lexKeywordSource states span ?w")
    obtain sp2 f2 where l2: "lexKeywordSource states span u = (sp2, f2)" by (cases "lexKeywordSource states span u")
    have "f1 = ?lex ?w" "f2 = ?lex u" using lex [of span ?w] lex [of span u] l1 l2 by simp_all
    then show ?thesis using w up name Some l1 l2 lex [of sp1 u] lex [of sp2 u]
      by (cases "keywordLexCouldMatch states source (int start) (int fin)"; cases "keywordLexCouldMatch states u 0 (int (length u))")
        (auto simp: keyword_of_word_def Let_def split: option.splits)
  qed
qed


text \<open>A keyword DFA for \<^verbatim>\<open>if\<close> and \<^verbatim>\<open>in\<close>.\<close>

definition kw_state :: "u16 \<Rightarrow> int \<Rightarrow> (int \<times> int) list \<Rightarrow> lexState" where
  "kw_state token eof trs = \<lparr>ls_AcceptToken = token, ls_AcceptPriority = 0, ls_Skip = False, ls_AcceptEOF = False,
     ls_Default = -1, ls_EOF = eof,
     ls_Transitions = map (\<lambda>(c, t). \<lparr>lt_Lo = c, lt_Hi = c, lt_NextState = t, lt_Skip = False\<rparr>) trs\<rparr>"

definition demo_keywords :: "lexState list" where
  "demo_keywords = [kw_state 0 (-1) [(105, 1)], kw_state 0 (-1) [(102, 2), (110, 3)], kw_state 7 (-1) [], kw_state 8 (-1) []]"

lemma demo_keywords_ok: "keyword_dfa_ok demo_keywords"
  by (simp add: keyword_dfa_ok_def demo_keywords_def kw_state_def encodable_def)

theorem keyword_prefilter_exact_witness:
  "keyword_dfa_ok demo_keywords \<and>
   snd (keyword_of_word ''go'' demo_keywords None [32, 105, 110] 1 3)
     = (case snd (lexKeywordSource demo_keywords None (slice [32, 105, 110] 1 3)) of
         Some kw \<Rightarrow> Some kw
       | None \<Rightarrow> (case sqlUppercaseKeywordSource ''go'' (slice [32, 105, 110] 1 3) of
           None \<Rightarrow> None | Some u \<Rightarrow> snd (lexKeywordSource demo_keywords None u)))"
  using keyword_prefilter_exact [OF demo_keywords_ok, of 1 3 "[32, 105, 110]" "''go''" None] demo_keywords_ok by simp

text \<open>A DFA that accepts the word \<^verbatim>\<open>a\<close> through an end-of-input transition, and the word \<^verbatim>\<open>bb\<close>.\<close>

definition eof_keywords :: "lexState list" where
  "eof_keywords = [kw_state 0 (-1) [(97, 1), (98, 3)], kw_state 0 2 [], kw_state 5 (-1) [], kw_state 0 (-1) [(98, 4)], kw_state 6 (-1) []]"

text \<open>
  Without that condition the prefilter loses keywords, although its comment promises that it
  never produces a false negative: the search does not follow end-of-input transitions, so a word
  that the keyword DFA accepts through one is rejected before the DFA runs.
\<close>

theorem keyword_prefilter_drops_eof_keyword:
  "snd (lexKeywordSource eof_keywords None [97]) = Some 5
   \<and> \<not> keywordLexCouldMatch eof_keywords [97] 0 1
   \<and> snd (keyword_of_word ''go'' eof_keywords None [97] 0 1) = None"
proof -
  have "snd (lexKeywordSource eof_keywords None [97]) = Some 5" by code_simp
  moreover have "keywordLexCouldMatch eof_keywords [97] 0 1 = False" by code_simp
  ultimately show ?thesis by (simp add: keyword_of_word_def sqlUppercaseKeywordSource_def Let_def)
qed

end
