(* ===== verification/Recovery_Tables.thy ===== *)
theory Recovery_Tables
  imports Reduce_Tables Keyword_Lexer
begin

text \<open>
  The keyword and recovery tables of a parser, \<^verbatim>\<open>internal/runtime/parser_recovery.go\<close>, with their
  users: the keyword gate and the reserved words of \<^verbatim>\<open>promoteKeyword\<close>, and the recover lookups. The
  lemmas show that the gate is open exactly when an active state has an action for a keyword, that a
  recover lookup answers as the action table does and that its prefilters never hide an answer, and
  that the gate also drops keywords a state reserves.
\<close>

section \<open>Data\<close>

text \<open>The fields of \<^verbatim>\<open>Language\<close> the keyword code reads beside the rules.\<close>

record wordLanguage =
  wl_rules :: ruleLanguage
  wl_KeywordCaptureToken :: u16
  wl_KeywordLexStates :: "lexState list"
  wl_ReservedWords :: "u16 list"
  wl_MaxReservedWordSetSize :: u16
  wl_LexModes :: "lexMode list"

abbreviation wl_tables :: "wordLanguage \<Rightarrow> language" where
  "wl_tables wl \<equiv> rl_tables (wl_rules wl)"

section \<open>Growing symbol sets\<close>

function doubled :: "nat \<Rightarrow> nat \<Rightarrow> nat" where
  "doubled newLen idx = (if newLen = 0 \<or> idx < newLen then newLen else doubled (newLen * 2) idx)"
  by pat_completeness auto
termination
  by (relation "measure (\<lambda>(newLen, idx). idx + 1 - newLen)") auto

declare doubled.simps [simp del]

definition ensureSymbolCap :: "bool list \<Rightarrow> nat \<Rightarrow> bool list" where
  "ensureSymbolCap flags idx =
     (if idx < length flags then flags
      else flags @ replicate (doubled (if flags = [] then 64 else length flags) idx - length flags) False)"

definition add_symbol :: "u16 \<Rightarrow> bool list \<Rightarrow> bool list" where
  "add_symbol sm flags = (ensureSymbolCap flags (unat sm))[unat sm := True]"

definition symbol_capacity :: "ruleLanguage \<Rightarrow> nat" where
  "symbol_capacity rl =
     (let n = unat (lg_SymbolCount (rl_tables rl)); n = (if n = 0 then length (rl_SymbolNames rl) else n) in
      if n = 0 then 64 else n)"

definition table_state_count :: "language \<Rightarrow> nat" where
  "table_state_count lang =
     (let n = unat (lg_StateCount lang); n = (if n = 0 then length (lg_ParseTable lang) else n);
          smallCount = unat (lg_LargeStateCount lang) + length (lg_SmallParseTableMap lang) in
      if smallCount > n then smallCount else n)"

section \<open>Keyword states\<close>

definition is_keyword_symbol :: "wordLanguage \<Rightarrow> u16 \<Rightarrow> bool" where
  "is_keyword_symbol wl sm \<longleftrightarrow> sm \<noteq> 0 \<and> sm \<noteq> wl_KeywordCaptureToken wl"

definition keywordSymbols :: "wordLanguage \<Rightarrow> bool list" where
  "keywordSymbols wl =
     fold (\<lambda>st flags. if is_keyword_symbol wl (ls_AcceptToken st) then add_symbol (ls_AcceptToken st) flags else flags)
       (wl_KeywordLexStates wl) (replicate (symbol_capacity (wl_rules wl)) False)"

definition in_flags :: "bool list \<Rightarrow> nat \<Rightarrow> bool" where
  "in_flags flags sm \<longleftrightarrow> sm < length flags \<and> flags ! sm"

definition dense_has :: "bool list \<Rightarrow> u16 list \<Rightarrow> bool" where
  "dense_has flags row \<longleftrightarrow> (\<exists>p\<in>set (enumerate 0 row). snd p \<noteq> 0 \<and> in_flags flags (fst p))"

definition small_has :: "bool list \<Rightarrow> u16 list \<Rightarrow> nat \<Rightarrow> bool" where
  "small_has flags table offset \<longleftrightarrow>
     (\<exists>g\<in>set (row_groups table offset). fst g \<noteq> 0 \<and> (\<exists>sm\<in>set (snd g). in_flags flags (unat sm)))"

definition keyword_state :: "language \<Rightarrow> bool list \<Rightarrow> nat \<Rightarrow> bool" where
  "keyword_state lang flags state \<longleftrightarrow>
     (state < length (lg_ParseTable lang) \<and> dense_has flags (lg_ParseTable lang ! state))
     \<or> (lg_SmallParseTable lang \<noteq> [] \<and> unat (lg_LargeStateCount lang) \<le> state
        \<and> state - unat (lg_LargeStateCount lang) < length (lg_SmallParseTableMap lang)
        \<and> small_has flags (lg_SmallParseTable lang)
            (unat (lg_SmallParseTableMap lang ! (state - unat (lg_LargeStateCount lang)))))"

definition buildKeywordStates :: "wordLanguage \<Rightarrow> bool list" where
  "buildKeywordStates wl =
     (if wl_KeywordCaptureToken wl = 0 \<or> wl_KeywordLexStates wl = [] then []
      else if \<forall>st\<in>set (wl_KeywordLexStates wl). \<not> is_keyword_symbol wl (ls_AcceptToken st) then []
      else
        let hasKeyword = map (keyword_state (wl_tables wl) (keywordSymbols wl)) [0..<table_state_count (wl_tables wl)] in
        if \<exists>x\<in>set hasKeyword. x then hasKeyword else [])"

text \<open>The gate of \<^verbatim>\<open>promoteKeyword\<close>: without a table it is open.\<close>

definition keyword_gate :: "bool list \<Rightarrow> u32 \<Rightarrow> u32 list \<Rightarrow> bool" where
  "keyword_gate hasKeywordState state glrStates \<longleftrightarrow>
     hasKeywordState = [] \<or> in_flags hasKeywordState (unat state)
     \<or> (\<exists>st\<in>set glrStates. in_flags hasKeywordState (unat st))"

text \<open>The reserved words of a set, up to the terminating zero.\<close>

definition languageKeywordReservedInState :: "wordLanguage \<Rightarrow> u32 \<Rightarrow> u16 \<Rightarrow> bool" where
  "languageKeywordReservedInState wl state keyword =
     (if wl_ReservedWords wl = [] \<or> wl_MaxReservedWordSetSize wl = 0
         \<or> unat state \<ge> length (wl_LexModes wl) then False
      else
        let rwSetID = lm_ReservedWordSetID (wl_LexModes wl ! unat state);
            stride = unat (wl_MaxReservedWordSetSize wl);
            start = unat rwSetID * stride in
        rwSetID \<noteq> 0 \<and> keyword \<in> set (takeWhile (\<lambda>w. w \<noteq> 0) (slice (wl_ReservedWords wl) start (start + stride))))"

section \<open>Recover actions\<close>

definition recoverAction :: "parseActionEntry \<Rightarrow> parseAction option" where
  "recoverAction entry = List.find (\<lambda>act. pa_Type act = ParseActionRecover) (pe_Actions entry)"

type_synonym recoverSymbolAction = "u16 \<times> parseAction"

definition recover_of_index :: "language \<Rightarrow> u16 \<Rightarrow> parseAction option" where
  "recover_of_index lang idx =
     (if unat idx < length (lg_ParseActions lang) then recoverAction (lg_ParseActions lang ! unat idx) else None)"

definition recover_row :: "language \<Rightarrow> smallActionPair list \<Rightarrow> recoverSymbolAction list" where
  "recover_row lang pairs =
     concat (map (\<lambda>(sm, idx). case recover_of_index lang idx of None \<Rightarrow> [] | Some act \<Rightarrow> [(sm, act)]) pairs)"

definition indexed_row :: "u16 list \<Rightarrow> smallActionPair list" where
  "indexed_row row = map (\<lambda>(i, idx). (of_nat i, idx)) (enumerate 0 row)"

definition recover_state :: "language \<Rightarrow> nat \<Rightarrow> recoverSymbolAction list" where
  "recover_state lang state =
     (if state < length (lg_ParseTable lang) then recover_row lang (indexed_row (lg_ParseTable lang ! state)) else [])
     @ (let smallIdx = state - unat (lg_LargeStateCount lang) in
        if lg_SmallParseTable lang \<noteq> [] \<and> unat (lg_LargeStateCount lang) \<le> state
           \<and> smallIdx < length (lg_SmallParseTableMap lang)
        then recover_row lang (row_pairs (lg_SmallParseTable lang) (unat (lg_SmallParseTableMap lang ! smallIdx)))
        else [])"

text \<open>The three tables of \<^verbatim>\<open>buildRecoverActionsByState\<close>: actions by state, states, symbols.\<close>

record recoverTables =
  rt_recoverByState :: "recoverSymbolAction list list"
  rt_hasRecoverState :: "bool list"
  rt_hasRecoverSymbol :: "bool list"

definition no_recover :: recoverTables where
  "no_recover = \<lparr>rt_recoverByState = [], rt_hasRecoverState = [], rt_hasRecoverSymbol = []\<rparr>"

definition buildRecoverActionsByState :: "ruleLanguage \<Rightarrow> recoverTables" where
  "buildRecoverActionsByState rl =
     (let lang = rl_tables rl in
      if \<forall>entry\<in>set (lg_ParseActions lang). recoverAction entry = None then no_recover
      else
        let recoverByState = map (recover_state lang) [0..<table_state_count lang];
            hasRecoverSymbol = fold (\<lambda>p. add_symbol (fst p)) (concat recoverByState)
              (replicate (symbol_capacity rl) False) in
        if \<forall>r\<in>set recoverByState. r = [] then no_recover
        else \<lparr>rt_recoverByState = recoverByState, rt_hasRecoverState = map (\<lambda>r. r \<noteq> []) recoverByState,
              rt_hasRecoverSymbol = (if \<exists>x\<in>set hasRecoverSymbol. x then hasRecoverSymbol else [])\<rparr>)"

definition buildStateRecoverTable :: "ruleLanguage \<Rightarrow> bool list" where
  "buildStateRecoverTable rl = rt_hasRecoverState (buildRecoverActionsByState rl)"

definition stateCanRecover :: "recoverTables \<Rightarrow> u32 \<Rightarrow> bool" where
  "stateCanRecover t state \<longleftrightarrow> rt_hasRecoverState t = [] \<or> in_flags (rt_hasRecoverState t) (unat state)"

definition symbolCanRecover :: "recoverTables \<Rightarrow> u16 \<Rightarrow> bool" where
  "symbolCanRecover t sm \<longleftrightarrow> rt_hasRecoverSymbol t = [] \<or> in_flags (rt_hasRecoverSymbol t) (unat sm)"

definition recoverActionForState :: "recoverTables \<Rightarrow> u32 \<Rightarrow> u16 \<Rightarrow> parseAction option" where
  "recoverActionForState t state sm =
     (if unat state \<ge> length (rt_recoverByState t) then None
      else map_option snd (List.find (\<lambda>p. fst p = sm) (rt_recoverByState t ! unat state)))"

section \<open>Symbol sets\<close>

lemma doubled_gt: "0 < n \<Longrightarrow> idx < doubled n idx"
proof (induction n idx rule: doubled.induct)
  case (1 n idx)
  then show ?case by (subst doubled.simps) auto
qed

lemma in_add_symbol: "in_flags (add_symbol sm flags) i \<longleftrightarrow> i = unat sm \<or> in_flags flags i"
proof -
  let ?n = "if flags = [] then 64 else length flags"
  have gt: "unat sm < doubled ?n (unat sm)" by (rule doubled_gt) simp
  have len: "unat sm < length (ensureSymbolCap flags (unat sm))"
    using gt by (simp add: ensureSymbolCap_def)
  have same: "in_flags (ensureSymbolCap flags (unat sm)) i \<longleftrightarrow> in_flags flags i"
    by (auto simp: ensureSymbolCap_def in_flags_def nth_append)
  show ?thesis using len same by (auto simp: add_symbol_def in_flags_def nth_list_update)
qed

lemma in_no_flags: "\<not> in_flags (replicate n False) i"
  by (simp add: in_flags_def)

lemma in_fold_add:
  "in_flags (fold (\<lambda>x flags. if P x then add_symbol (f x) flags else flags) xs flags) i
     \<longleftrightarrow> in_flags flags i \<or> (\<exists>x\<in>set xs. P x \<and> unat (f x) = i)"
  by (induction xs arbitrary: flags) (auto simp: in_add_symbol)

lemma keywordSymbols_exact:
  "in_flags (keywordSymbols wl) i \<longleftrightarrow>
     (\<exists>st\<in>set (wl_KeywordLexStates wl). is_keyword_symbol wl (ls_AcceptToken st) \<and> unat (ls_AcceptToken st) = i)"
  unfolding keywordSymbols_def in_fold_add by (simp add: in_no_flags)

section \<open>The rows of a split table\<close>

text \<open>The dense table holds exactly the large states, as the loaders build it.\<close>

definition split_tables :: "language \<Rightarrow> bool" where
  "split_tables l \<longleftrightarrow> whole_tables l \<and> unat (lg_LargeStateCount l) = length (lg_ParseTable l)"

text \<open>The pairs of a state in the raw tables.\<close>

definition raw_pairs :: "language \<Rightarrow> nat \<Rightarrow> smallActionPair list" where
  "raw_pairs l state =
     (if state < length (lg_ParseTable l) then indexed_row (lg_ParseTable l ! state)
      else if state - length (lg_ParseTable l) < length (lg_SmallParseTableMap l)
      then row_pairs (lg_SmallParseTable l) (unat (lg_SmallParseTableMap l ! (state - length (lg_ParseTable l))))
      else [])"

lemma indexed_row_nth: "i < length row \<Longrightarrow> indexed_row row ! i = (of_nat i, row ! i)"
  by (simp add: indexed_row_def nth_enumerate_eq case_prod_beta)

lemma length_indexed_row [simp]: "length (indexed_row row) = length row"
  by (simp add: indexed_row_def)

lemma indexed_symbol: "length row \<le> 65536 \<Longrightarrow> i < length row \<Longrightarrow> unat (of_nat i :: u16) = i"
  by (simp add: unsigned_of_nat take_bit_nat_eq_self)

lemma indexed_row_mem:
  assumes "length row \<le> 65536"
  shows "(sm, idx) \<in> set (indexed_row row) \<longleftrightarrow> unat sm < length row \<and> row ! unat sm = idx"
proof
  assume "(sm, idx) \<in> set (indexed_row row)"
  then obtain i where "i < length row" "indexed_row row ! i = (sm, idx)" by (auto simp: in_set_conv_nth)
  then show "unat sm < length row \<and> row ! unat sm = idx"
    using indexed_symbol [OF assms, of i] by (auto simp: indexed_row_nth)
next
  assume "unat sm < length row \<and> row ! unat sm = idx"
  then show "(sm, idx) \<in> set (indexed_row row)"
    by (auto simp: in_set_conv_nth indexed_row_nth intro!: exI [of _ "unat sm"])
qed

lemma indexed_row_distinct: "length row \<le> 65536 \<Longrightarrow> distinct (map fst (indexed_row row))"
  by (auto simp: distinct_conv_nth indexed_row_nth) (metis indexed_symbol)

lemma split_bounds:
  assumes "split_tables l"
  shows "state < length (lg_ParseTable l) \<Longrightarrow> length (lg_ParseTable l ! state) \<le> 65536"
    and "distinct (map fst (raw_pairs l state))"
proof -
  show row: "length (lg_ParseTable l ! state) \<le> 65536" if "state < length (lg_ParseTable l)" for state
    using assms that by (simp add: split_tables_def whole_tables_def)
  show "distinct (map fst (raw_pairs l state))"
    using assms indexed_row_distinct [OF row]
    by (auto simp: raw_pairs_def split_tables_def whole_tables_def distinct_row_def)
qed

lemma lookup_split:
  assumes "split_tables l"
  shows "lookupActionIndex (derived_view l) state sm = value_of (raw_pairs l (unat state)) sm"
proof -
  have v: "pv_language (derived_view l) = l" "pv_denseLimit (derived_view l) = length (lg_ParseTable l)"
    "pv_smallBase (derived_view l) = length (lg_ParseTable l)"
    using assms by (auto simp: derived_view_def languageDenseLimit_def split_tables_def Let_def word_gt_0)
  show ?thesis
  proof (cases "unat state < length (lg_ParseTable l)")
    case True
    let ?row = "lg_ParseTable l ! unat state"
    note len = split_bounds(1) [OF assms True]
    have "value_of (indexed_row ?row) sm = (if unat sm < length ?row then ?row ! unat sm else 0)"
    proof (cases "unat sm < length ?row")
      case True
      then have "(sm, ?row ! unat sm) \<in> set (indexed_row ?row)" by (simp add: indexed_row_mem [OF len])
      then show ?thesis using True map_of_is_SomeI [OF indexed_row_distinct [OF len]] by (simp add: value_of_def)
    next
      case False
      then have "sm \<notin> fst ` set (indexed_row ?row)" by (auto simp: indexed_row_mem [OF len])
      then show ?thesis using False by (simp add: value_of_absent)
    qed
    then show ?thesis using True by (simp add: lookupActionIndex_def v raw_pairs_def Let_def)
  next
    case False
    have "lookupActionIndexSmall (derived_view l) state sm = lookupActionIndexSmall (raw_view l) state sm"
      using assms by (intro lookup_small_exact) (simp add: split_tables_def whole_tables_def)
    also have "\<dots> = value_of (raw_pairs l (unat state)) sm"
      using assms False
      by (simp add: lookupActionIndexSmall_def raw_view_def v raw_pairs_def split_tables_def first_pair_value Let_def value_of_def)
    finally show ?thesis using False by (simp add: lookupActionIndex_def v)
  qed
qed

lemma split_action:
  assumes "split_tables l" "idx \<noteq> 0"
  shows "(sm, idx) \<in> set (raw_pairs l (unat state)) \<longleftrightarrow> lookupActionIndex (derived_view l) state sm = idx"
  using value_of_mem [OF split_bounds(2) [OF assms(1)] assms(2)] lookup_split [OF assms(1)] by auto

section \<open>The keyword gate\<close>

lemma small_has_pairs:
  "small_has flags table offset \<longleftrightarrow> (\<exists>p\<in>set (row_pairs table offset). snd p \<noteq> 0 \<and> in_flags flags (unat (fst p)))"
proof -
  have "(\<exists>p\<in>set (row_pairs table offset). Q p) \<longleftrightarrow> (\<exists>g\<in>set (row_groups table offset). \<exists>sm\<in>set (snd g). Q (sm, fst g))" for Q
    by (simp add: row_pairs_def case_prod_beta)
  then show ?thesis by (auto simp: small_has_def)
qed

lemma dense_has_pairs:
  assumes "length row \<le> 65536"
  shows "dense_has flags row \<longleftrightarrow> (\<exists>p\<in>set (indexed_row row). snd p \<noteq> 0 \<and> in_flags flags (unat (fst p)))"
proof -
  have "(\<exists>p\<in>set (indexed_row row). Q p) \<longleftrightarrow> (\<exists>i<length row. Q (of_nat i, row ! i))" for Q
    by (metis in_set_conv_nth indexed_row_nth length_indexed_row)
  moreover have "dense_has flags row \<longleftrightarrow> (\<exists>i<length row. row ! i \<noteq> 0 \<and> in_flags flags i)"
    by (auto simp: dense_has_def in_set_enumerate_eq Bex_def split_paired_Ex)
  ultimately show ?thesis using indexed_symbol [OF assms] by auto
qed

lemma keyword_state_pairs:
  assumes "split_tables l"
  shows "keyword_state l flags state \<longleftrightarrow> (\<exists>p\<in>set (raw_pairs l state). snd p \<noteq> 0 \<and> in_flags flags (unat (fst p)))"
proof -
  have len: "unat (lg_LargeStateCount l) = length (lg_ParseTable l)" using assms by (simp add: split_tables_def)
  show ?thesis
  proof (cases "state < length (lg_ParseTable l)")
    case True
    then show ?thesis using dense_has_pairs [OF split_bounds(1) [OF assms True]]
      by (simp add: keyword_state_def raw_pairs_def len)
  next
    case False
    then have "keyword_state l flags state \<longleftrightarrow> state - length (lg_ParseTable l) < length (lg_SmallParseTableMap l)
        \<and> small_has flags (lg_SmallParseTable l) (unat (lg_SmallParseTableMap l ! (state - length (lg_ParseTable l))))"
      by (cases "lg_SmallParseTable l = []") (auto simp: keyword_state_def len small_has_def row_groups_def)
    then show ?thesis using False
      by (cases "state - length (lg_ParseTable l) < length (lg_SmallParseTableMap l)") (simp_all add: raw_pairs_def small_has_pairs)
  qed
qed

lemma keyword_state_lookup:
  assumes "split_tables (wl_tables wl)"
  shows "keyword_state (wl_tables wl) (keywordSymbols wl) (unat state) \<longleftrightarrow>
    (\<exists>st\<in>set (wl_KeywordLexStates wl). is_keyword_symbol wl (ls_AcceptToken st)
       \<and> lookupActionIndex (derived_view (wl_tables wl)) state (ls_AcceptToken st) \<noteq> 0)"
  unfolding keyword_state_pairs [OF assms] keywordSymbols_exact
  using split_action [OF assms] by (auto simp: word_unat_eq_iff [symmetric]) (metis snd_conv fst_conv)+

lemma past_states:
  assumes "split_tables l" "table_state_count l \<le> state"
  shows "raw_pairs l state = []"
  using assms by (auto simp: raw_pairs_def split_tables_def table_state_count_def Let_def split: if_splits)

text \<open>
  C38. The keyword gate is exact: when the table of keyword states is not empty, the gate opens if and
  only if one of the active parser states has an action for a keyword the keyword lexer can accept.
\<close>

theorem keyword_gate_exact:
  assumes "split_tables (wl_tables wl)" "buildKeywordStates wl \<noteq> []"
  shows "keyword_gate (buildKeywordStates wl) state glrStates \<longleftrightarrow>
    (\<exists>active\<in>set (state # glrStates). \<exists>st\<in>set (wl_KeywordLexStates wl). is_keyword_symbol wl (ls_AcceptToken st)
       \<and> lookupActionIndex (derived_view (wl_tables wl)) active (ls_AcceptToken st) \<noteq> 0)"
proof -
  let ?l = "wl_tables wl" and ?flags = "keywordSymbols wl"
  have b: "buildKeywordStates wl = map (keyword_state ?l ?flags) [0..<table_state_count ?l]"
    using assms(2) by (auto simp: buildKeywordStates_def Let_def split: if_splits)
  have "in_flags (buildKeywordStates wl) (unat active) \<longleftrightarrow> keyword_state ?l ?flags (unat active)" for active :: u32
  proof (cases "unat active < table_state_count ?l")
    case False
    then show ?thesis using past_states [OF assms(1), of "unat active"]
      by (simp add: b in_flags_def keyword_state_pairs [OF assms(1)])
  qed (simp add: b in_flags_def)
  then show ?thesis using assms(2) by (simp add: keyword_gate_def keyword_state_lookup [OF assms(1)])
qed

text \<open>A keyword lexer for the one-letter word \<^verbatim>\<open>a\<close>, symbol 2, beside the capture token 1.\<close>

definition demo_words :: wordLanguage where
  "demo_words = \<lparr>wl_rules = demo_fields, wl_KeywordCaptureToken = 1,
     wl_KeywordLexStates = [
       \<lparr>ls_AcceptToken = 0, ls_AcceptPriority = 0, ls_Skip = False, ls_AcceptEOF = False, ls_Default = -1, ls_EOF = -1,
        ls_Transitions = [\<lparr>lt_Lo = 97, lt_Hi = 97, lt_NextState = 1, lt_Skip = False\<rparr>]\<rparr>,
       \<lparr>ls_AcceptToken = 2, ls_AcceptPriority = 0, ls_Skip = False, ls_AcceptEOF = False, ls_Default = -1, ls_EOF = -1,
        ls_Transitions = []\<rparr>],
     wl_ReservedWords = [0, 2], wl_MaxReservedWordSetSize = 1,
     wl_LexModes = [\<lparr>lm_LexState = 0, lm_ExternalLexState = 0, lm_ReservedWordSetID = 0, lm_AfterWhitespaceLexState = 0,
                     lm_LexStateID = 0, lm_AfterWhitespaceLexStateID = 0\<rparr>,
                    \<lparr>lm_LexState = 0, lm_ExternalLexState = 0, lm_ReservedWordSetID = 1, lm_AfterWhitespaceLexState = 0,
                     lm_LexStateID = 0, lm_AfterWhitespaceLexStateID = 0\<rparr>]\<rparr>"

lemma demo_words_ok: "split_tables (wl_tables demo_words)" "buildKeywordStates demo_words = [True, False]"
  by code_simp+

theorem keyword_gate_exact_witness:
  "split_tables (wl_tables demo_words) \<and> buildKeywordStates demo_words \<noteq> []
   \<and> keyword_gate (buildKeywordStates demo_words) 0 [1]
   \<and> \<not> keyword_gate (buildKeywordStates demo_words) 1 []"
proof -
  have "lookupActionIndex (derived_view (wl_tables demo_words)) 0 2 \<noteq> 0" by code_simp
  moreover have "lookupActionIndex (derived_view (wl_tables demo_words)) 1 2 = 0" by code_simp
  ultimately show ?thesis
    using keyword_gate_exact [OF demo_words_ok(1), of 0 "[1]"] keyword_gate_exact [OF demo_words_ok(1), of 1 "[]"]
    by (simp add: demo_words_ok) (simp add: demo_words_def is_keyword_symbol_def)
qed

text \<open>
  The gate also drops reserved words. \<^verbatim>\<open>promoteKeyword\<close> documents that a keyword the parse state
  reserves stays a keyword even when the state has no action for it, but it tests the gate before it
  looks at the reserved words: here the word is accepted by the keyword lexer and reserved in the
  state, and the gate is closed because the state has no action for any keyword.
\<close>

theorem reserved_word_dropped:
  "\<exists>wl state word kw.
     snd (lexKeywordSource (wl_KeywordLexStates wl) None word) = Some kw
     \<and> languageKeywordReservedInState wl state kw
     \<and> \<not> keyword_gate (buildKeywordStates wl) state []"
proof -
  have "snd (lexKeywordSource (wl_KeywordLexStates demo_words) None [97]) = Some 2" by code_simp
  moreover have "languageKeywordReservedInState demo_words 1 2" by code_simp
  moreover have "\<not> keyword_gate (buildKeywordStates demo_words) 1 []" by code_simp
  ultimately show ?thesis by blast
qed

section \<open>Recover lookups\<close>

lemma recover_row_find:
  assumes "distinct (map fst pairs)" "recover_of_index lang 0 = None"
  shows "map_option snd (List.find (\<lambda>p. fst p = sm) (recover_row lang pairs)) = recover_of_index lang (value_of pairs sm)"
  using assms(1)
proof (induction pairs)
  case Nil then show ?case using assms(2) by (simp add: recover_row_def value_of_def)
next
  case (Cons p pairs)
  obtain s idx where p: "p = (s, idx)" by (cases p)
  have absent: "List.find (\<lambda>q. fst q = sm) (recover_row lang pairs) = None" if "s = sm"
    using Cons.prems that by (force simp: find_None_iff recover_row_def p split: option.splits)
  show ?case
    using Cons absent by (auto simp: p recover_row_def value_of_def split: option.splits)
qed

lemma recover_state_rows:
  assumes "split_tables l"
  shows "recover_state l state = recover_row l (raw_pairs l state)"
proof -
  have nil: "recover_row l (row_pairs [] off) = []" for off by (simp add: recover_row_def row_pairs_def row_groups_def)
  have empty: "recover_row l [] = []" by (simp add: recover_row_def)
  show ?thesis using assms nil empty
    by (cases "lg_SmallParseTable l = []") (auto simp: recover_state_def raw_pairs_def split_tables_def Let_def)
qed

lemma recover_none:
  assumes "\<forall>entry\<in>set (lg_ParseActions l). recoverAction entry = None"
  shows "recover_of_index l idx = None"
  using assms by (simp add: recover_of_index_def)

text \<open>The tables, whether or not the builder returns early, answer as the row of the state.\<close>

lemma recover_tables_row:
  assumes "split_tables (rl_tables rl)" "recover_of_index (rl_tables rl) 0 = None"
  shows "recoverActionForState (buildRecoverActionsByState rl) state sm
    = recover_of_index (rl_tables rl) (value_of (raw_pairs (rl_tables rl) (unat state)) sm)"
proof -
  let ?l = "rl_tables rl" and ?t = "buildRecoverActionsByState rl"
  let ?row = "recover_row ?l (raw_pairs ?l (unat state))"
  have row: "map_option snd (List.find (\<lambda>p. fst p = sm) ?row) = recover_of_index ?l (value_of (raw_pairs ?l (unat state)) sm)"
    by (rule recover_row_find [OF split_bounds(2) [OF assms(1)] assms(2)])
  have past: "?row = []" if "table_state_count ?l \<le> unat state"
    using past_states [OF assms(1) that] by (simp add: recover_row_def)
  consider (none) "?t = no_recover" "?row = []"
    | (tab) "rt_recoverByState ?t = map (recover_state ?l) [0..<table_state_count ?l]"
  proof (cases "\<forall>entry\<in>set (lg_ParseActions ?l). recoverAction entry = None")
    case True
    then have "?row = []" using recover_none [OF True] by (simp add: recover_row_def case_prod_beta)
    then show ?thesis using that(1) True by (simp add: buildRecoverActionsByState_def Let_def)
  next
    case False
    show ?thesis
    proof (cases "\<forall>r\<in>set (map (recover_state ?l) [0..<table_state_count ?l]). r = []")
      case True
      then have "?row = []" using past recover_state_rows [OF assms(1), of "unat state"]
        by (cases "unat state < table_state_count ?l") auto
      then show ?thesis using that(1) True False by (simp add: buildRecoverActionsByState_def Let_def)
    next
      case some: False
      have "rt_recoverByState ?t = map (recover_state ?l) [0..<table_state_count ?l]"
        unfolding buildRecoverActionsByState_def Let_def if_not_P [OF False] if_not_P [OF some] by simp
      then show ?thesis by (rule that(2))
    qed
  qed
  then show ?thesis
  proof cases
    case none
    then show ?thesis using row by (simp add: recoverActionForState_def no_recover_def)
  next
    case tab
    show ?thesis
    proof (cases "unat state < table_state_count ?l")
      case True
      then show ?thesis using tab row by (simp add: recoverActionForState_def recover_state_rows [OF assms(1)])
    next
      case False
      then show ?thesis using tab row past by (simp add: recoverActionForState_def)
    qed
  qed
qed

lemma recover_prefilters:
  assumes "recoverActionForState t state sm = Some act" "t = buildRecoverActionsByState rl"
  shows "stateCanRecover t state \<and> symbolCanRecover t sm"
proof -
  obtain q where q: "unat state < length (rt_recoverByState t)"
      "List.find (\<lambda>p. fst p = sm) (rt_recoverByState t ! unat state) = Some q"
    using assms(1) by (auto simp: recoverActionForState_def split: if_splits)
  let ?rows = "map (recover_state (rl_tables rl)) [0..<table_state_count (rl_tables rl)]"
  let ?flags = "fold (\<lambda>p. add_symbol (fst p)) (concat ?rows) (replicate (symbol_capacity rl) False)"
  have t: "rt_recoverByState t = ?rows" "rt_hasRecoverState t = map (\<lambda>r. r \<noteq> []) ?rows"
      "rt_hasRecoverSymbol t = (if \<exists>x\<in>set ?flags. x then ?flags else [])"
    using q(1) unfolding assms(2) by (auto simp: buildRecoverActionsByState_def no_recover_def Let_def split: if_splits)
  have mem: "q \<in> set (rt_recoverByState t ! unat state)" "fst q = sm" using q(2) by (auto simp: find_Some_iff)
  then have "q \<in> set (concat ?rows)" using q(1) t(1) nth_mem by fastforce
  then have "in_flags ?flags (unat sm)"
    using in_fold_add [of "\<lambda>_. True" fst "concat ?rows" "replicate (symbol_capacity rl) False" "unat sm"] mem(2) by auto
  then have "symbolCanRecover t sm" by (auto simp: symbolCanRecover_def t(3) in_flags_def)
  moreover have "stateCanRecover t state"
    using mem(1) q(1) by (auto simp: stateCanRecover_def t in_flags_def)
  ultimately show ?thesis by simp
qed

text \<open>
  C18. Recover lookups are exact: when the entry of index zero has no recover action, the table gives for
  every state and symbol the first recover action of the entry an action lookup finds, and none
  otherwise; and a state or symbol with a recover action passes its prefilter.
\<close>

theorem recover_lookup_exact:
  assumes "split_tables (rl_tables rl)" "recover_of_index (rl_tables rl) 0 = None"
  defines "t \<equiv> buildRecoverActionsByState rl"
  shows "recoverActionForState t state sm = Option.bind (lookupAction (derived_view (rl_tables rl)) state sm) recoverAction
    \<and> (recoverActionForState t state sm \<noteq> None \<longrightarrow> stateCanRecover t state \<and> symbolCanRecover t sm)"
proof -
  have v: "pv_language (derived_view (rl_tables rl)) = rl_tables rl" by (simp add: derived_view_def Let_def)
  have "recoverActionForState t state sm
      = recover_of_index (rl_tables rl) (lookupActionIndex (derived_view (rl_tables rl)) state sm)"
    unfolding t_def recover_tables_row [OF assms(1,2)] lookup_split [OF assms(1)] ..
  moreover have "recoverActionForState t state sm \<noteq> None \<longrightarrow> stateCanRecover t state \<and> symbolCanRecover t sm"
    using recover_prefilters [of t state sm _ rl] t_def by auto
  ultimately show ?thesis using assms(2) by (auto simp: lookupAction_def v recover_of_index_def Let_def)
qed

definition demo_recover :: ruleLanguage where
  "demo_recover = demo_fields\<lparr>rl_tables := demo_rules\<lparr>lg_ParseActions := (lg_ParseActions demo_rules)[3 :=
     \<lparr>pe_Reusable = False, pe_Actions = [zero_action, zero_action\<lparr>pa_Type := ParseActionRecover, pa_State := 1\<rparr>]\<rparr>]\<rparr>\<rparr>"

theorem recover_lookup_exact_witness:
  "recoverActionForState (buildRecoverActionsByState demo_recover) 1 1
     = Some (zero_action\<lparr>pa_Type := ParseActionRecover, pa_State := 1\<rparr>)
   \<and> Option.bind (lookupAction (derived_view (rl_tables demo_recover)) 1 1) recoverAction
     = Some (zero_action\<lparr>pa_Type := ParseActionRecover, pa_State := 1\<rparr>)
   \<and> symbolCanRecover (buildRecoverActionsByState demo_recover) 1"
proof -
  have s: "split_tables (rl_tables demo_recover)" and z: "recover_of_index (rl_tables demo_recover) 0 = None" by code_simp+
  have r: "recoverActionForState (buildRecoverActionsByState demo_recover) 1 1
     = Some (zero_action\<lparr>pa_Type := ParseActionRecover, pa_State := 1\<rparr>)" by code_simp
  show ?thesis using recover_lookup_exact [OF s z, of 1 1] r by simp
qed

end
