(* ===== verification/Rewriter.thy ===== *)
theory Rewriter
  imports Source_Tokens
begin

text \<open>
  Source rewriting, \<^verbatim>\<open>internal/runtime/rewrite.go\<close>: a rewriter collects byte-range edits and applies
  them at once, returning the new text and one \<^verbatim>\<open>InputEdit\<close> per edit for incremental reparsing. The
  lemmas show which sets of edits are accepted, that the new text is the old one with every edit
  carried out at its place, and that the returned edits, carried out one after another, lead from the
  old text to the new one with exact byte offsets and points.
\<close>

section \<open>Data\<close>

record rewriteEdit =
  re_startByte :: u32
  re_endByte :: u32
  re_newText :: bytes

record rewriter =
  rw_source :: bytes
  rw_edits :: "rewriteEdit list"

record inputEdit =
  ie_StartByte :: u32
  ie_OldEndByte :: u32
  ie_NewEndByte :: u32
  ie_StartPoint :: point
  ie_OldEndPoint :: point
  ie_NewEndPoint :: point

text \<open>The errors of \<^verbatim>\<open>Apply\<close>, with the numbers its messages print.\<close>

datatype rewriteError =
    InvalidRange u32 u32 nat
  | OverlappingEdits u32 u32 u32 u32
  | OverlappingInsertions u32

section \<open>Collecting edits\<close>

definition NewRewriter :: "bytes \<Rightarrow> rewriter" where
  "NewRewriter source = \<lparr>rw_source = source, rw_edits = []\<rparr>"

definition ReplaceRange :: "rewriter \<Rightarrow> u32 \<Rightarrow> u32 \<Rightarrow> bytes \<Rightarrow> rewriter" where
  "ReplaceRange r startByte endByte newText =
     r\<lparr>rw_edits := rw_edits r @ [\<lparr>re_startByte = startByte, re_endByte = endByte, re_newText = newText\<rparr>]\<rparr>"

text \<open>A node counts here by its start and end byte.\<close>

type_synonym node_span = "u32 \<times> u32"

definition Replace :: "rewriter \<Rightarrow> node_span \<Rightarrow> bytes \<Rightarrow> rewriter" where
  "Replace r nd newText =
     r\<lparr>rw_edits := rw_edits r @ [\<lparr>re_startByte = fst nd, re_endByte = snd nd, re_newText = newText\<rparr>]\<rparr>"

definition InsertBefore :: "rewriter \<Rightarrow> node_span \<Rightarrow> bytes \<Rightarrow> rewriter" where
  "InsertBefore r nd txt =
     r\<lparr>rw_edits := rw_edits r @ [\<lparr>re_startByte = fst nd, re_endByte = fst nd, re_newText = txt\<rparr>]\<rparr>"

definition InsertAfter :: "rewriter \<Rightarrow> node_span \<Rightarrow> bytes \<Rightarrow> rewriter" where
  "InsertAfter r nd txt =
     r\<lparr>rw_edits := rw_edits r @ [\<lparr>re_startByte = snd nd, re_endByte = snd nd, re_newText = txt\<rparr>]\<rparr>"

definition Delete :: "rewriter \<Rightarrow> node_span \<Rightarrow> rewriter" where
  "Delete r nd =
     r\<lparr>rw_edits := rw_edits r @ [\<lparr>re_startByte = fst nd, re_endByte = snd nd, re_newText = []\<rparr>]\<rparr>"

section \<open>Applying edits\<close>

fun computeNewEndPoint :: "point \<Rightarrow> bytes \<Rightarrow> point" where
  "computeNewEndPoint p [] = p"
| "computeNewEndPoint p (b # bs) =
     (if b = newline then computeNewEndPoint \<lparr>Row = Row p + 1, Column = 0\<rparr> bs
      else computeNewEndPoint \<lparr>Row = Row p, Column = Column p + 1\<rparr> bs)"

definition edit_key :: "rewriteEdit \<Rightarrow> u32 \<times> u32" where
  "edit_key e = (re_startByte e, re_endByte e)"

fun range_error :: "nat \<Rightarrow> rewriteEdit list \<Rightarrow> rewriteError option" where
  "range_error n [] = None"
| "range_error n (e # es) =
     (if re_startByte e > re_endByte e \<or> unat (re_endByte e) > n
      then Some (InvalidRange (re_startByte e) (re_endByte e) n) else range_error n es)"

fun overlap_error :: "rewriteEdit list \<Rightarrow> rewriteError option" where
  "overlap_error (prev # cur # es) =
     (if re_endByte prev > re_startByte cur
      then Some (OverlappingEdits (re_startByte prev) (re_endByte prev) (re_startByte cur) (re_endByte cur))
      else if re_startByte prev = re_endByte prev \<and> re_startByte cur = re_endByte cur \<and> re_startByte prev = re_startByte cur
      then Some (OverlappingInsertions (re_startByte prev))
      else overlap_error (cur # es))"
| "overlap_error es = None"

record build =
  bl_buf :: bytes
  bl_edits :: "inputEdit list"
  bl_pos :: u32
  bl_point :: point

text \<open>One round of the build loop: the unchanged bytes, the record of the edit, its text.\<close>

definition build_step :: "bytes \<Rightarrow> rewriteEdit \<Rightarrow> build \<Rightarrow> build" where
  "build_step source e b =
     (let unchanged = slice source (unat (bl_pos b)) (unat (re_startByte e));
          b = (if re_startByte e > bl_pos b
               then b\<lparr>bl_buf := bl_buf b @ unchanged, bl_point := computeNewEndPoint (bl_point b) unchanged\<rparr> else b);
          startByte = of_nat (length (bl_buf b));
          oldSpan = slice source (unat (re_startByte e)) (unat (re_endByte e));
          newEndPoint = computeNewEndPoint (bl_point b) (re_newText e) in
      \<lparr>bl_buf = bl_buf b @ re_newText e,
       bl_edits = bl_edits b @ [\<lparr>ie_StartByte = startByte, ie_OldEndByte = startByte + of_nat (length oldSpan),
         ie_NewEndByte = startByte + of_nat (length (re_newText e)), ie_StartPoint = bl_point b,
         ie_OldEndPoint = computeNewEndPoint (bl_point b) oldSpan, ie_NewEndPoint = newEndPoint\<rparr>],
       bl_pos = re_endByte e, bl_point = newEndPoint\<rparr>)"

definition build_start :: build where
  "build_start = \<lparr>bl_buf = [], bl_edits = [], bl_pos = 0, bl_point = zero_point\<rparr>"

text \<open>
  The sort is not stable, but edits with equal ranges are refused below whatever their order, and the
  error does not depend on it.
\<close>

definition sorted_edits :: "rewriter \<Rightarrow> rewriteEdit list" where
  "sorted_edits r = sort_key edit_key (rw_edits r)"

definition Apply :: "rewriter \<Rightarrow> rewriteError + bytes \<times> inputEdit list" where
  "Apply r =
     (if rw_edits r = [] then Inr (rw_source r, [])
      else
        let es = sorted_edits r in
        case range_error (length (rw_source r)) es of
          Some e \<Rightarrow> Inl e
        | None \<Rightarrow>
            (case overlap_error es of
               Some e \<Rightarrow> Inl e
             | None \<Rightarrow>
                 let b = fold (build_step (rw_source r)) es build_start;
                     remaining = drop (unat (bl_pos b)) (rw_source r) in
                 Inr (bl_buf b @ (if bl_pos b < of_nat (length (rw_source r)) then remaining else []), bl_edits b)))"

section \<open>Accepted edits\<close>

text \<open>Two edits that may stand together: one ends before the other starts, and not two insertions at one place.\<close>

definition compatible :: "rewriteEdit \<Rightarrow> rewriteEdit \<Rightarrow> bool" where
  "compatible a b \<longleftrightarrow>
     (re_endByte a \<le> re_startByte b \<or> re_endByte b \<le> re_startByte a)
     \<and> \<not> (re_startByte a = re_endByte a \<and> re_startByte b = re_endByte b \<and> re_startByte a = re_startByte b)"

definition valid_edit :: "nat \<Rightarrow> rewriteEdit \<Rightarrow> bool" where
  "valid_edit n e \<longleftrightarrow> re_startByte e \<le> re_endByte e \<and> unat (re_endByte e) \<le> n"

lemma sorted_wrt_mset:
  assumes "symp R"
  shows "sorted_wrt R xs \<longleftrightarrow> (\<forall>x\<in>#mset xs. \<forall>y\<in>#mset xs - {#x#}. R x y)"
proof (induction xs)
  case (Cons a xs)
  have "(\<forall>x\<in>#mset (a # xs). \<forall>y\<in>#mset (a # xs) - {#x#}. R x y)
      \<longleftrightarrow> (\<forall>y\<in>set xs. R a y) \<and> (\<forall>x\<in>set xs. R x a) \<and> (\<forall>x\<in>#mset xs. \<forall>y\<in>#mset xs - {#x#}. R x y)"
  proof -
    have "x \<in># mset xs \<Longrightarrow> add_mset a (mset xs) - {#x#} = add_mset a (mset xs - {#x#})" for x
      by (simp add: multiset_diff_union_assoc)
    then show ?thesis by auto
  qed
  then show ?case using Cons assms by (auto simp: symp_def)
qed simp

lemma range_error_None: "range_error n es = None \<longleftrightarrow> (\<forall>e\<in>set es. valid_edit n e)"
  by (induction es) (auto simp: valid_edit_def not_le)

lemma overlap_error_None:
  assumes "sorted (map edit_key es)" "\<forall>e\<in>set es. re_startByte e \<le> re_endByte e"
  shows "overlap_error es = None \<longleftrightarrow> sorted_wrt compatible es"
  using assms
proof (induction es rule: overlap_error.induct)
  case (1 prev cur es)
  have key: "re_startByte prev < re_startByte cur \<or> (re_startByte prev = re_startByte cur \<and> re_endByte prev \<le> re_endByte cur)"
    using "1.prems"(1) by (auto simp: edit_key_def less_eq_prod_def)
  have later: "re_startByte cur \<le> re_startByte e \<and> (re_startByte cur = re_startByte e \<longrightarrow> re_endByte cur \<le> re_endByte e)"
    if "e \<in> set es" for e using "1.prems"(1) that by (auto simp: edit_key_def less_eq_prod_def)
  have ends: "re_startByte prev \<le> re_endByte prev" "re_startByte cur \<le> re_endByte cur" using "1.prems"(2) by auto
  have IH: "overlap_error (cur # es) = None \<longleftrightarrow> sorted_wrt compatible (cur # es)"
    if "\<not> re_endByte prev > re_startByte cur" "\<not> (re_startByte prev = re_endByte prev \<and> re_startByte cur = re_endByte cur \<and> re_startByte prev = re_startByte cur)"
    using "1.IH" [OF that] "1.prems" by simp
  have pc: "compatible prev cur \<longleftrightarrow> \<not> re_endByte prev > re_startByte cur
      \<and> \<not> (re_startByte prev = re_endByte prev \<and> re_startByte cur = re_endByte cur \<and> re_startByte prev = re_startByte cur)"
    using key ends by (auto simp: compatible_def)
  have rest: "compatible prev e" if "compatible prev cur" "sorted_wrt compatible (cur # es)" "e \<in> set es" for e
  proof -
    have "re_endByte prev \<le> re_startByte e" using pc that(1) later [OF that(3)] by auto
    moreover have "\<not> (re_startByte prev = re_endByte prev \<and> re_startByte e = re_endByte e \<and> re_startByte prev = re_startByte e)"
    proof
      assume eq: "re_startByte prev = re_endByte prev \<and> re_startByte e = re_endByte e \<and> re_startByte prev = re_startByte e"
      then have "re_startByte cur = re_startByte e" using later [OF that(3)] pc that(1) by auto
      then have "re_endByte cur = re_startByte cur" using later [OF that(3)] eq ends by auto
      then show False using eq pc that(1) \<open>re_startByte cur = re_startByte e\<close> by auto
    qed
    ultimately show ?thesis by (simp add: compatible_def)
  qed
  show ?case using IH pc rest by auto
qed auto

text \<open>
  C39. A rewriter accepts exactly the sets of edits that make sense: every range lies in the text and no
  two edits overlap, where any two insertions at one place count as an overlap (the comment in the
  code allows them unless a ranged edit overlaps too, the code refuses them); the order in which the
  edits were collected does not matter.
\<close>

theorem rewriter_accepts:
  "(\<exists>out. Apply r = Inr out) \<longleftrightarrow>
     list_all (valid_edit (length (rw_source r))) (rw_edits r) \<and> sorted_wrt compatible (rw_edits r)"
proof (cases "rw_edits r = []")
  case False
  let ?es = "sorted_edits r"
  have same: "set ?es = set (rw_edits r)" "mset ?es = mset (rw_edits r)" by (simp_all add: sorted_edits_def)
  have sym: "symp compatible" by (auto simp: symp_def compatible_def)
  have perm: "sorted_wrt compatible ?es \<longleftrightarrow> sorted_wrt compatible (rw_edits r)"
    unfolding sorted_wrt_mset [OF sym] same(2) ..
  have "sorted (map edit_key ?es)" by (simp add: sorted_edits_def)
  then have over: "overlap_error ?es = None \<longleftrightarrow> sorted_wrt compatible (rw_edits r)"
    if "\<forall>e\<in>set (rw_edits r). valid_edit (length (rw_source r)) e"
    using overlap_error_None [of ?es] that same(1) perm by (simp add: valid_edit_def)
  show ?thesis using False over range_error_None [of "length (rw_source r)" ?es] same(1)
    by (auto simp: Apply_def Let_def list_all_iff split: option.splits)
qed (simp add: Apply_def)

section \<open>The new text\<close>

text \<open>Carrying out one edit, and the text that edits leave of the part after a position.\<close>

definition patch :: "rewriteEdit \<Rightarrow> bytes \<Rightarrow> bytes" where
  "patch e src = take (unat (re_startByte e)) src @ re_newText e @ drop (unat (re_endByte e)) src"

fun spliced :: "bytes \<Rightarrow> nat \<Rightarrow> rewriteEdit list \<Rightarrow> bytes" where
  "spliced src pos [] = drop pos src"
| "spliced src pos (e # es) =
     slice src pos (unat (re_startByte e)) @ re_newText e @ spliced src (unat (re_endByte e)) es"

fun from_pos :: "nat \<Rightarrow> nat \<Rightarrow> rewriteEdit list \<Rightarrow> bool" where
  "from_pos n pos [] = (pos \<le> n)"
| "from_pos n pos (e # es) \<longleftrightarrow>
     pos \<le> unat (re_startByte e) \<and> unat (re_startByte e) \<le> unat (re_endByte e) \<and> from_pos n (unat (re_endByte e)) es"

lemma from_pos_le: "from_pos n pos es \<Longrightarrow> pos \<le> n"
  by (induction es arbitrary: pos) fastforce+

lemma from_pos_accepted:
  assumes "\<forall>e\<in>set es. valid_edit n e" "overlap_error es = None" "es \<noteq> [] \<longrightarrow> pos \<le> unat (re_startByte (hd es))" "pos \<le> n"
  shows "from_pos n pos es"
  using assms
proof (induction es arbitrary: pos rule: overlap_error.induct)
  case (1 prev cur es)
  have "from_pos n (unat (re_endByte prev)) (cur # es)"
    using 1 by (auto simp: valid_edit_def word_le_nat_alt word_less_nat_alt split: if_splits)
  then show ?case using "1.prems" by (auto simp: valid_edit_def word_le_nat_alt)
qed (auto simp: valid_edit_def word_le_nat_alt)

lemma take_slice: "pos \<le> k \<Longrightarrow> take pos src @ slice src pos k = take k src"
  by (simp add: slice_def take_add [symmetric])

lemma foldr_patch:
  assumes "from_pos (length src) pos es"
  shows "foldr patch es src = take pos src @ spliced src pos es"
  using assms
proof (induction es arbitrary: pos)
  case (Cons e es)
  then have IH: "foldr patch es src = take (unat (re_endByte e)) src @ spliced src (unat (re_endByte e)) es"
    and le: "pos \<le> unat (re_startByte e)" "unat (re_startByte e) \<le> unat (re_endByte e)" by auto
  have "unat (re_endByte e) \<le> length src" using from_pos_le Cons.prems by auto
  then have "patch e (foldr patch es src) = take (unat (re_startByte e)) src @ re_newText e @ spliced src (unat (re_endByte e)) es"
    using le by (simp add: patch_def IH min_absorb1)
  then show ?case using take_slice [OF le(1), of src] by simp
qed simp

section \<open>The returned edits\<close>

definition point_at :: "bytes \<Rightarrow> nat \<Rightarrow> point" where
  "point_at src n = computeNewEndPoint zero_point (take n src)"

lemma computeNewEndPoint_append:
  "computeNewEndPoint p (xs @ ys) = computeNewEndPoint (computeNewEndPoint p xs) ys"
  by (induction xs arbitrary: p) auto

text \<open>
  A list of edits with their texts that leads from one text to another: each edit names a range of the
  text before it, its points are those of its offsets there, and the new end is that of the text after.
\<close>

fun replays :: "bytes \<Rightarrow> (inputEdit \<times> bytes) list \<Rightarrow> bytes \<Rightarrow> bool" where
  "replays src [] out \<longleftrightarrow> src = out"
| "replays src ((ie, txt) # es) out \<longleftrightarrow>
     (let after = take (unat (ie_StartByte ie)) src @ txt @ drop (unat (ie_OldEndByte ie)) src in
      unat (ie_StartByte ie) \<le> unat (ie_OldEndByte ie) \<and> unat (ie_OldEndByte ie) \<le> length src
      \<and> unat (ie_NewEndByte ie) = unat (ie_StartByte ie) + length txt
      \<and> ie_StartPoint ie = point_at src (unat (ie_StartByte ie))
      \<and> ie_OldEndPoint ie = point_at src (unat (ie_OldEndByte ie))
      \<and> ie_NewEndPoint ie = point_at after (unat (ie_NewEndByte ie))
      \<and> replays after es out)"

definition texts_length :: "rewriteEdit list \<Rightarrow> nat" where
  "texts_length es = sum_list (map (\<lambda>e. length (re_newText e)) es)"

lemma unat_len: "n < 4294967296 \<Longrightarrow> unat (of_nat n :: u32) = n"
  by (simp add: unsigned_of_nat take_bit_nat_eq_self)

text \<open>One round: the state it leaves, and that its record describes the step on the current text.\<close>

lemma build_step_records:
  assumes "bl_point b = computeNewEndPoint zero_point (bl_buf b)"
    "unat (bl_pos b) \<le> unat (re_startByte e)" "unat (re_startByte e) \<le> unat (re_endByte e)" "unat (re_endByte e) \<le> length src"
    "length (bl_buf b) + length src + length (re_newText e) < 4294967296 + unat (bl_pos b)"
  defines "b' \<equiv> build_step src e b"
  shows "bl_buf b' = bl_buf b @ slice src (unat (bl_pos b)) (unat (re_startByte e)) @ re_newText e"
    "bl_pos b' = re_endByte e" "bl_point b' = computeNewEndPoint zero_point (bl_buf b')"
    "\<exists>ie. bl_edits b' = bl_edits b @ [ie]
       \<and> (replays (bl_buf b @ drop (unat (bl_pos b)) src) ((ie, re_newText e) # es) out
          \<longleftrightarrow> replays (bl_buf b' @ drop (unat (bl_pos b')) src) es out)"
proof -
  let ?u = "slice src (unat (bl_pos b)) (unat (re_startByte e))"
  let ?buf = "bl_buf b @ ?u" and ?old = "slice src (unat (re_startByte e)) (unat (re_endByte e))"
  let ?p = "computeNewEndPoint zero_point ?buf" and ?t = "re_newText e"
  let ?cur = "bl_buf b @ drop (unat (bl_pos b)) src"
  have empty: "?u = []" if "\<not> re_startByte e > bl_pos b" using that by (simp add: word_less_nat_alt)
  have b': "b' = \<lparr>bl_buf = ?buf @ ?t,
      bl_edits = bl_edits b @ [\<lparr>ie_StartByte = of_nat (length ?buf), ie_OldEndByte = of_nat (length ?buf) + of_nat (length ?old),
         ie_NewEndByte = of_nat (length ?buf) + of_nat (length ?t), ie_StartPoint = ?p,
         ie_OldEndPoint = computeNewEndPoint ?p ?old, ie_NewEndPoint = computeNewEndPoint ?p ?t\<rparr>],
      bl_pos = re_endByte e, bl_point = computeNewEndPoint ?p ?t\<rparr>"
    using empty assms(1) unfolding b'_def build_step_def Let_def by (auto simp: computeNewEndPoint_append simp del: length_slice)
  show buf': "bl_buf b' = bl_buf b @ ?u @ ?t" and pos': "bl_pos b' = re_endByte e"
    and "bl_point b' = computeNewEndPoint zero_point (bl_buf b')"
    by (simp_all add: b' computeNewEndPoint_append)
  have cur: "?cur = ?buf @ ?old @ drop (unat (re_endByte e)) src"
  proof -
    have "drop k src = slice src k m @ drop m src" if "k \<le> m" for k m
      using that by (metis append_take_drop_id drop_drop le_add_diff_inverse2 slice_def)
    from this [OF assms(2)] this [OF assms(3)] show ?thesis by simp
  qed
  have len: "length ?u = unat (re_startByte e) - unat (bl_pos b)" "length ?old = unat (re_endByte e) - unat (re_startByte e)"
    using assms(3,4) by auto
  have small: "length ?buf + length ?old < 4294967296" "length ?buf + length ?t < 4294967296"
    using assms(2-5) len by auto
  have w: "unat (of_nat (length ?buf) :: u32) = length ?buf"
    "unat (of_nat (length ?buf) + of_nat (length ?old) :: u32) = length ?buf + length ?old"
    "unat (of_nat (length ?buf) + of_nat (length ?t) :: u32) = length ?buf + length ?t"
    by (rule unat_len [OF add_lessD1 [OF small(1)]]) (simp_all only: of_nat_add [symmetric] unat_len [OF small(1)] unat_len [OF small(2)])
  have tk: "take (length ?buf) ?cur = ?buf" "take (length ?buf + length ?old) ?cur = ?buf @ ?old"
    "drop (length ?buf + length ?old) ?cur = drop (unat (re_endByte e)) src"
    unfolding cur by simp_all
  have clen: "length ?buf + length ?old \<le> length ?cur" unfolding cur by simp
  show "\<exists>ie. bl_edits b' = bl_edits b @ [ie] \<and> (replays ?cur ((ie, ?t) # es) out
          \<longleftrightarrow> replays (bl_buf b' @ drop (unat (bl_pos b')) src) es out)"
  proof (intro exI conjI)
    let ?ie = "\<lparr>ie_StartByte = of_nat (length ?buf), ie_OldEndByte = of_nat (length ?buf) + of_nat (length ?old),
         ie_NewEndByte = of_nat (length ?buf) + of_nat (length ?t), ie_StartPoint = ?p,
         ie_OldEndPoint = computeNewEndPoint ?p ?old, ie_NewEndPoint = computeNewEndPoint ?p ?t\<rparr> :: inputEdit"
    have new: "take (length ?buf + length ?t) (?buf @ ?t @ xs) = ?buf @ ?t" for xs by simp
    show "bl_edits b' = bl_edits b @ [?ie]" by (simp add: b')
    show "replays ?cur ((?ie, ?t) # es) out \<longleftrightarrow> replays (bl_buf b' @ drop (unat (bl_pos b')) src) es out"
      unfolding replays.simps Let_def inputEdit.select_convs w tk point_at_def buf' pos' new computeNewEndPoint_append
      using clen by (simp only: append_assoc le_add1 simp_thms)
  qed
qed

lemma build_records:
  assumes "from_pos (length src) (unat (bl_pos b)) es" "bl_point b = computeNewEndPoint zero_point (bl_buf b)"
    "length (bl_buf b) + length src + texts_length es < 4294967296 + unat (bl_pos b)"
  defines "b' \<equiv> fold (build_step src) es b"
  shows "bl_buf b' @ drop (unat (bl_pos b')) src = bl_buf b @ spliced src (unat (bl_pos b)) es"
    "\<exists>ies. bl_edits b' = bl_edits b @ ies \<and> length ies = length es
       \<and> replays (bl_buf b @ drop (unat (bl_pos b)) src) (zip ies (map re_newText es)) (bl_buf b' @ drop (unat (bl_pos b')) src)"
  unfolding b'_def atomize_conj
  using assms(1-3)
proof (induction es arbitrary: b)
  case (Cons e es)
  let ?b = "build_step src e b"
  have le: "unat (bl_pos b) \<le> unat (re_startByte e)" "unat (re_startByte e) \<le> unat (re_endByte e)"
    and rest: "from_pos (length src) (unat (re_endByte e)) es" using Cons.prems(1) by auto
  have fin: "unat (re_endByte e) \<le> length src" using from_pos_le [OF rest] by simp
  have room: "length (bl_buf b) + length src + length (re_newText e) < 4294967296 + unat (bl_pos b)"
    using Cons.prems(3) by (simp add: texts_length_def)
  note st = build_step_records [OF Cons.prems(2) le fin room]
  have sl: "length (slice src (unat (bl_pos b)) (unat (re_startByte e))) = unat (re_startByte e) - unat (bl_pos b)"
    using le fin by simp
  have "length (bl_buf ?b) + length src + texts_length es < 4294967296 + unat (bl_pos ?b)"
    using Cons.prems(3) le unfolding st(1,2) length_append sl by (simp add: texts_length_def)
  moreover have "from_pos (length src) (unat (bl_pos ?b)) es" using rest st(2) by simp
  ultimately have IH: "bl_buf (fold (build_step src) es ?b) @ drop (unat (bl_pos (fold (build_step src) es ?b))) src
        = bl_buf ?b @ spliced src (unat (bl_pos ?b)) es
      \<and> (\<exists>ies. bl_edits (fold (build_step src) es ?b) = bl_edits ?b @ ies \<and> length ies = length es
         \<and> replays (bl_buf ?b @ drop (unat (bl_pos ?b)) src) (zip ies (map re_newText es))
             (bl_buf (fold (build_step src) es ?b) @ drop (unat (bl_pos (fold (build_step src) es ?b))) src))"
    using Cons.IH [of ?b] st(3) by blast
  obtain ies where ies: "bl_edits (fold (build_step src) es ?b) = bl_edits ?b @ ies" "length ies = length es"
      "replays (bl_buf ?b @ drop (unat (bl_pos ?b)) src) (zip ies (map re_newText es))
         (bl_buf (fold (build_step src) es ?b) @ drop (unat (bl_pos (fold (build_step src) es ?b))) src)"
    using IH by blast
  obtain ie where ie: "bl_edits ?b = bl_edits b @ [ie]"
      "replays (bl_buf b @ drop (unat (bl_pos b)) src) ((ie, re_newText e) # zip ies (map re_newText es))
           (bl_buf (fold (build_step src) es ?b) @ drop (unat (bl_pos (fold (build_step src) es ?b))) src)
         \<longleftrightarrow> replays (bl_buf ?b @ drop (unat (bl_pos ?b)) src) (zip ies (map re_newText es))
           (bl_buf (fold (build_step src) es ?b) @ drop (unat (bl_pos (fold (build_step src) es ?b))) src)"
    using st(4) by blast
  have "\<exists>ies'. bl_edits (fold (build_step src) (e # es) b) = bl_edits b @ ies' \<and> length ies' = length (e # es)
      \<and> replays (bl_buf b @ drop (unat (bl_pos b)) src) (zip ies' (map re_newText (e # es)))
          (bl_buf (fold (build_step src) (e # es) b) @ drop (unat (bl_pos (fold (build_step src) (e # es) b))) src)"
    using ies ie by (intro exI [of _ "ie # ies"]) (simp del: replays.simps)
  then show ?case using IH [THEN conjunct1] st(1,2) by simp
qed simp

lemma bl_pos_bound:
  "from_pos n (unat (bl_pos b)) es \<Longrightarrow> unat (bl_pos (fold (build_step src) es b)) \<le> n"
proof (induction es arbitrary: b)
  case (Cons e es)
  have "bl_pos (build_step src e b) = re_endByte e" by (simp add: build_step_def Let_def)
  then show ?case using Cons by simp
qed simp

lemma apply_replays:
  assumes "Apply r = Inr (out, ies)" "length (rw_source r) + texts_length (rw_edits r) < 4294967296"
  shows "out = foldr patch (sorted_edits r) (rw_source r) \<and> length ies = length (rw_edits r)
    \<and> replays (rw_source r) (zip ies (map re_newText (sorted_edits r))) out"
proof (cases "rw_edits r = []")
  case True
  then show ?thesis using assms(1) by (simp add: Apply_def sorted_edits_def)
next
  case False
  let ?src = "rw_source r" and ?es = "sorted_edits r"
  let ?b = "fold (build_step ?src) ?es build_start"
  have ok: "range_error (length ?src) ?es = None" "overlap_error ?es = None"
    and res: "out = bl_buf ?b @ (if bl_pos ?b < of_nat (length ?src) then drop (unat (bl_pos ?b)) ?src else [])"
      "ies = bl_edits ?b"
    using assms(1) False by (auto simp: Apply_def Let_def split: option.splits)
  have fp: "from_pos (length ?src) (unat (bl_pos build_start)) ?es"
    using from_pos_accepted [OF range_error_None [THEN iffD1, OF ok(1)] ok(2)] by (simp add: build_start_def)
  have "texts_length ?es = texts_length (rw_edits r)"
    unfolding texts_length_def sorted_edits_def by (simp flip: sum_mset_sum_list)
  then have "length (bl_buf build_start) + length ?src + texts_length ?es < 4294967296 + unat (bl_pos build_start)"
    using assms(2) by (simp add: build_start_def)
  note bld = build_records [OF fp _ this]
  have "unat (of_nat (length ?src) :: u32) = length ?src" using assms(2) by (intro unat_len) simp
  then have out: "out = bl_buf ?b @ drop (unat (bl_pos ?b)) ?src"
    using res(1) bl_pos_bound [OF fp, of ?src] by (auto simp: word_less_nat_alt)
  have start: "bl_point build_start = computeNewEndPoint zero_point (bl_buf build_start)" by (simp add: build_start_def)
  show ?thesis using bld [OF start] foldr_patch [OF fp] res(2) out
    by (auto simp: build_start_def sorted_edits_def)
qed

text \<open>
  C15. An accepted rewrite is right. While the offsets fit in 32 bits, the new text is the old one with
  the collected edits carried out from the last to the first, each at its own range of the old text;
  and the returned edits with their new texts, carried out one after the other, lead from the old text
  to the new one: each names a range of the text it meets, with the points of its offsets there.
\<close>

theorem rewrite_replays:
  assumes "Apply r = Inr (out, ies)" "length (rw_source r) + texts_length (rw_edits r) < 4294967296"
  shows "out = foldr patch (sorted_edits r) (rw_source r) \<and> length ies = length (rw_edits r)
    \<and> replays (rw_source r) (zip ies (map re_newText (sorted_edits r))) out"
  using assms by (rule apply_replays)

definition demo_rewriter :: rewriter where
  "demo_rewriter = InsertAfter (Delete (InsertBefore (NewRewriter [97, 10, 98, 99]) (2, 3) [120, 10]) (0, 1)) (2, 4) [121]"

theorem rewrite_replays_witness:
  "(\<exists>ies. Apply demo_rewriter = Inr ([10, 120, 10, 98, 99, 121], ies)
     \<and> replays [97, 10, 98, 99] (zip ies [[], [120, 10], [121]]) [10, 120, 10, 98, 99, 121])
   \<and> length (rw_source demo_rewriter) + texts_length (rw_edits demo_rewriter) < 4294967296"
proof -
  obtain ies where run: "Apply demo_rewriter = Inr ([10, 120, 10, 98, 99, 121], ies)"
  proof -
    have "\<exists>ies. Apply demo_rewriter = Inr ([10, 120, 10, 98, 99, 121], ies)"
      by (rule exI [of _ "snd (projr (Apply demo_rewriter))"]) code_simp
    then show ?thesis using that by blast
  qed
  have len: "length (rw_source demo_rewriter) + texts_length (rw_edits demo_rewriter) < 4294967296"
    by (simp add: demo_rewriter_def texts_length_def InsertAfter_def Delete_def InsertBefore_def NewRewriter_def)
  have src: "rw_source demo_rewriter = [97, 10, 98, 99]" by code_simp
  have texts: "map re_newText (sorted_edits demo_rewriter) = [[], [120, 10], [121]]" by code_simp
  show ?thesis using rewrite_replays [OF run len] run len src texts by auto
qed

end
