(* ===== verification/Edit_Ranges.thy ===== *)
theory Edit_Ranges
  imports Rewriter Included_Ranges Utf16_Source_Map
begin

text \<open>
  What an edit does to positions, \<^verbatim>\<open>internal/runtime/tree.go\<close>: saturating offset arithmetic, points
  after an edit, the included ranges of an edited tree and the changed ranges of its recorded edits.
  The lemmas show that the changed ranges cover every byte that an edit put into the final text and
  are sorted and apart, and that edited included ranges stay proper ranges.
\<close>

section \<open>Offsets and points\<close>

definition addUint32Delta :: "u32 \<Rightarrow> int \<Rightarrow> u32" where
  "addUint32Delta val delta =
     (let nxt = uint val + delta in
      if nxt < 0 then 0 else if nxt > 4294967295 then 4294967295 else of_int nxt)"

definition inputEditIsNoop :: "inputEdit \<Rightarrow> bool" where
  "inputEditIsNoop e \<longleftrightarrow>
     ie_StartByte e = ie_OldEndByte e \<and> ie_OldEndByte e = ie_NewEndByte e
     \<and> ie_StartPoint e = ie_OldEndPoint e \<and> ie_OldEndPoint e = ie_NewEndPoint e"

definition inputEditIsSingleByteReplacement :: "inputEdit \<Rightarrow> bool" where
  "inputEditIsSingleByteReplacement e \<longleftrightarrow>
     ie_NewEndByte e = ie_OldEndByte e \<and> ie_OldEndByte e > ie_StartByte e
     \<and> ie_OldEndByte e - ie_StartByte e = 1 \<and> ie_NewEndPoint e = ie_OldEndPoint e"

definition editShiftsTextAfterIt :: "inputEdit \<Rightarrow> bool" where
  "editShiftsTextAfterIt e \<longleftrightarrow> ie_NewEndByte e \<noteq> ie_OldEndByte e \<or> ie_NewEndPoint e \<noteq> ie_OldEndPoint e"

definition subtractPointDelta :: "point \<Rightarrow> point \<Rightarrow> point" where
  "subtractPointDelta a b =
     (if Row a > Row b then \<lparr>Row = Row a - Row b, Column = Column a\<rparr>
      else \<lparr>Row = 0, Column = (if Column a \<ge> Column b then Column a - Column b else 0)\<rparr>)"

definition shiftPointAfterEdit :: "point \<Rightarrow> inputEdit \<Rightarrow> int \<Rightarrow> point" where
  "shiftPointAfterEdit p e rowDelta =
     (if Row p < Row (ie_OldEndPoint e) then p
      else if Row p > Row (ie_OldEndPoint e) then p\<lparr>Row := addUint32Delta (Row p) rowDelta\<rparr>
      else
        let columnDelta = (if Column p \<ge> Column (ie_OldEndPoint e) then Column p - Column (ie_OldEndPoint e) else 0) in
        \<lparr>Row = addUint32Delta (Row p) rowDelta,
         Column = addUint32Delta (Column (ie_NewEndPoint e)) (uint columnDelta)\<rparr>)"

definition byteDelta :: "inputEdit \<Rightarrow> int" where
  "byteDelta e = uint (ie_NewEndByte e) - uint (ie_OldEndByte e)"

definition rowDelta :: "inputEdit \<Rightarrow> int" where
  "rowDelta e = uint (Row (ie_NewEndPoint e)) - uint (Row (ie_OldEndPoint e))"

section \<open>Included ranges\<close>

definition max_point :: point where
  "max_point = \<lparr>Row = 4294967295, Column = 4294967295\<rparr>"

definition edit_range_end :: "inputEdit \<Rightarrow> range \<Rightarrow> range" where
  "edit_range_end e r =
     (if rg_EndByte r \<ge> ie_OldEndByte e then
        (if rg_EndByte r \<noteq> 4294967295 then
           let fin = ie_NewEndByte e + (rg_EndByte r - ie_OldEndByte e);
               r' = r\<lparr>rg_EndByte := fin,
                      rg_EndPoint := addPointDelta (ie_NewEndPoint e) (subtractPointDelta (rg_EndPoint r) (ie_OldEndPoint e))\<rparr> in
           if fin < ie_NewEndByte e then r'\<lparr>rg_EndByte := 4294967295, rg_EndPoint := max_point\<rparr> else r'
         else r)
      else if rg_EndByte r > ie_StartByte e then r\<lparr>rg_EndByte := ie_StartByte e, rg_EndPoint := ie_StartPoint e\<rparr>
      else r)"

definition edit_range_start :: "inputEdit \<Rightarrow> range \<Rightarrow> range" where
  "edit_range_start e r =
     (if rg_StartByte r \<ge> ie_OldEndByte e then
        (let start = ie_NewEndByte e + (rg_StartByte r - ie_OldEndByte e);
             r' = r\<lparr>rg_StartByte := start,
                    rg_StartPoint := addPointDelta (ie_NewEndPoint e) (subtractPointDelta (rg_StartPoint r) (ie_OldEndPoint e))\<rparr> in
         if start < ie_NewEndByte e then r'\<lparr>rg_StartByte := 4294967295, rg_StartPoint := max_point\<rparr> else r')
      else if rg_StartByte r > ie_StartByte e then r\<lparr>rg_StartByte := ie_StartByte e, rg_StartPoint := ie_StartPoint e\<rparr>
      else r)"

definition editIncludedRanges :: "inputEdit \<Rightarrow> range list \<Rightarrow> range list" where
  "editIncludedRanges e ranges = map (\<lambda>r. edit_range_start e (edit_range_end e r)) ranges"

section \<open>Changed ranges\<close>

definition shiftChangedRangeForEdit :: "inputEdit \<Rightarrow> range \<Rightarrow> range" where
  "shiftChangedRangeForEdit e r =
     (if ie_StartByte e \<ge> rg_EndByte r then r
      else if ie_OldEndByte e \<le> rg_StartByte r then
        r\<lparr>rg_StartByte := addUint32Delta (rg_StartByte r) (byteDelta e),
          rg_StartPoint := shiftPointAfterEdit (rg_StartPoint r) e (rowDelta e),
          rg_EndByte := addUint32Delta (rg_EndByte r) (byteDelta e),
          rg_EndPoint := shiftPointAfterEdit (rg_EndPoint r) e (rowDelta e)\<rparr>
      else
        let r = (if ie_StartByte e < rg_StartByte r
                 then r\<lparr>rg_StartByte := ie_StartByte e, rg_StartPoint := ie_StartPoint e\<rparr> else r) in
        if ie_OldEndByte e \<ge> rg_EndByte r
        then r\<lparr>rg_EndByte := ie_NewEndByte e, rg_EndPoint := ie_NewEndPoint e\<rparr>
        else r\<lparr>rg_EndByte := addUint32Delta (rg_EndByte r) (byteDelta e),
               rg_EndPoint := shiftPointAfterEdit (rg_EndPoint r) e (rowDelta e)\<rparr>)"

definition rangesOverlapOrTouch :: "range \<Rightarrow> range \<Rightarrow> bool" where
  "rangesOverlapOrTouch a b \<longleftrightarrow> \<not> (rg_EndByte a < rg_StartByte b \<or> rg_EndByte b < rg_StartByte a)"

fun coalesce_loop :: "range \<Rightarrow> range list \<Rightarrow> range list" where
  "coalesce_loop current [] = [current]"
| "coalesce_loop current (r # rs) =
     (if rangesOverlapOrTouch current r then
        (let current = (if rg_StartByte r < rg_StartByte current
                        then current\<lparr>rg_StartByte := rg_StartByte r, rg_StartPoint := rg_StartPoint r\<rparr> else current);
             current = (if rg_EndByte r > rg_EndByte current
                        then current\<lparr>rg_EndByte := rg_EndByte r, rg_EndPoint := rg_EndPoint r\<rparr> else current) in
         coalesce_loop current rs)
      else current # coalesce_loop r rs)"

definition coalesceRanges :: "range list \<Rightarrow> range list" where
  "coalesceRanges rs =
     (if length rs \<le> 1 then rs
      else case sort_key range_key rs of [] \<Rightarrow> [] | current # rest \<Rightarrow> coalesce_loop current rest)"

definition add_changed :: "inputEdit \<Rightarrow> range list \<Rightarrow> range list" where
  "add_changed e ranges =
     map (shiftChangedRangeForEdit e) ranges
     @ [\<lparr>rg_StartByte = ie_StartByte e, rg_EndByte = ie_NewEndByte e,
         rg_StartPoint = ie_StartPoint e, rg_EndPoint = ie_NewEndPoint e\<rparr>]"

definition ChangedRanges :: "inputEdit list \<Rightarrow> range list" where
  "ChangedRanges edits = (if edits = [] then [] else coalesceRanges (fold add_changed edits []))"

section \<open>Coalescing\<close>

definition proper :: "range \<Rightarrow> bool" where
  "proper r \<longleftrightarrow> rg_StartByte r \<le> rg_EndByte r"

definition separated :: "range list \<Rightarrow> bool" where
  "separated rs \<longleftrightarrow> sorted_wrt (\<lambda>a b. rg_EndByte a < rg_StartByte b) rs"

lemma coalesce_loop_starts:
  "q \<in> set (coalesce_loop current rs) \<Longrightarrow> rg_StartByte q \<in> rg_StartByte ` set (current # rs)"
proof (induction current rs rule: coalesce_loop.induct)
  case (2 current r rs)
  show ?case
  proof (cases "rangesOverlapOrTouch current r")
    case True
    from "2.IH"(1) [OF True refl refl] "2.prems" True show ?thesis
      by (auto simp: Let_def split: if_splits)
  next
    case False
    from "2.IH"(2) [OF False] "2.prems" False show ?thesis by auto
  qed
qed simp

lemma coalesce_loop_correct:
  assumes "sorted (map range_key (current # rs))" "\<forall>r\<in>set (current # rs). proper r"
  shows "separated (coalesce_loop current rs) \<and> (covered (coalesce_loop current rs) b \<longleftrightarrow> covered (current # rs) b)"
  using assms
proof (induction current rs rule: coalesce_loop.induct)
  case (2 current r rs)
  have st: "rg_StartByte current \<le> rg_StartByte r" and sts: "\<forall>q\<in>set rs. rg_StartByte r \<le> rg_StartByte q"
    using "2.prems"(1) by (auto simp: range_key_def less_eq_prod_def word_le_nat_alt)
  have srt: "sorted (map range_key (r # rs))" using "2.prems"(1) by simp
  have pr: "proper current" "proper r" "\<forall>q\<in>set rs. proper q" using "2.prems"(2) by auto
  show ?case
  proof (cases "rangesOverlapOrTouch current r")
    case True
    let ?c = "if rg_EndByte r > rg_EndByte current then current\<lparr>rg_EndByte := rg_EndByte r, rg_EndPoint := rg_EndPoint r\<rparr> else current"
    have nlt: "\<not> rg_StartByte r < rg_StartByte current" using st by simp
    have loop: "coalesce_loop current (r # rs) = coalesce_loop ?c rs"
      using True by (simp add: Let_def nlt)
    have key: "sorted (map range_key (?c # rs))"
    proof -
      have "range_key ?c \<le> range_key q" if "q \<in> set rs" for q
      proof (cases "rg_EndByte r > rg_EndByte current")
        case gt: True
        have "range_key r \<le> range_key q" using srt that by simp
        then show ?thesis using gt st by (auto simp: range_key_def less_eq_prod_def word_le_nat_alt)
      next
        case False
        then show ?thesis using "2.prems"(1) that by auto
      qed
      then show ?thesis using srt by auto
    qed
    have props: "\<forall>q\<in>set (?c # rs). proper q" using pr st by (auto simp: proper_def)
    have IH: "separated (coalesce_loop ?c rs) \<and> (covered (coalesce_loop ?c rs) b \<longleftrightarrow> covered (?c # rs) b)"
      by (rule "2.IH"(1) [OF True refl refl, unfolded if_not_P [OF nlt], OF key props])
    have "range_covers ?c b \<longleftrightarrow> range_covers current b \<or> range_covers r b"
      using True st pr by (auto simp: range_covers_def rangesOverlapOrTouch_def proper_def not_less)
    then show ?thesis using IH loop by auto
  next
    case False
    then have lt: "rg_EndByte current < rg_StartByte r"
      using st pr by (auto simp: rangesOverlapOrTouch_def proper_def)
    have IH: "separated (coalesce_loop r rs) \<and> (covered (coalesce_loop r rs) b \<longleftrightarrow> covered (r # rs) b)"
      using "2.IH"(2) [OF False] srt pr by auto
    have "\<forall>q\<in>set (coalesce_loop r rs). rg_EndByte current < rg_StartByte q"
      using coalesce_loop_starts [of _ r rs] lt sts by fastforce
    then show ?thesis using IH False by (simp add: separated_def)
  qed
qed (simp add: separated_def)

lemma coalesceRanges_correct:
  assumes "\<forall>r\<in>set rs. proper r"
  shows "separated (coalesceRanges rs)" "covered (coalesceRanges rs) b \<longleftrightarrow> covered rs b"
proof -
  have "separated (coalesceRanges rs) \<and> (covered (coalesceRanges rs) b \<longleftrightarrow> covered rs b)"
  proof (cases "length rs \<le> 1")
    case True
    then show ?thesis by (cases rs) (auto simp: coalesceRanges_def separated_def)
  next
    case False
    then obtain c rest where c: "sort_key range_key rs = c # rest"
      by (cases "sort_key range_key rs") (metis length_sort list.size(3) le_0_eq zero_le, blast)
    have "sorted (map range_key (c # rest))" "set (c # rest) = set rs" using c sorted_sort_key [of range_key rs] set_sort [of range_key rs] by auto
    then show ?thesis using coalesce_loop_correct [of c rest b] assms False c
      by (auto simp: coalesceRanges_def covered_def)
  qed
  then show "separated (coalesceRanges rs)" "covered (coalesceRanges rs) b \<longleftrightarrow> covered rs b" by auto
qed

section \<open>The changed ranges cover what changed\<close>

text \<open>
  The bytes of a text marked by whether an edit put them there. An edit keeps the marks before it and
  after its old end and marks its replacement.
\<close>

definition mark_edit :: "inputEdit \<Rightarrow> bool list \<Rightarrow> bool list" where
  "mark_edit e marks =
     take (unat (ie_StartByte e)) marks @ replicate (unat (ie_NewEndByte e) - unat (ie_StartByte e)) True
     @ drop (unat (ie_OldEndByte e)) marks"

definition fits :: "inputEdit \<Rightarrow> nat \<Rightarrow> bool" where
  "fits e n \<longleftrightarrow>
     unat (ie_StartByte e) \<le> unat (ie_OldEndByte e) \<and> unat (ie_OldEndByte e) \<le> n
     \<and> unat (ie_StartByte e) \<le> unat (ie_NewEndByte e)
     \<and> unat (ie_NewEndByte e) + (n - unat (ie_OldEndByte e)) < 4294967296"

fun edits_fit :: "inputEdit list \<Rightarrow> nat \<Rightarrow> bool" where
  "edits_fit [] n = (n < 4294967296)"
| "edits_fit (e # es) n \<longleftrightarrow> fits e n \<and> edits_fit es (unat (ie_NewEndByte e) + (n - unat (ie_OldEndByte e)))"

lemma mark_edit_length:
  "fits e (length marks) \<Longrightarrow> length (mark_edit e marks) = unat (ie_NewEndByte e) + (length marks - unat (ie_OldEndByte e))"
  by (auto simp: mark_edit_def fits_def)

lemma mark_edit_nth:
  assumes "fits e (length marks)" "p < length (mark_edit e marks)"
  shows "mark_edit e marks ! p =
    (if p < unat (ie_StartByte e) then marks ! p
     else if p < unat (ie_NewEndByte e) then True
     else marks ! (p - unat (ie_NewEndByte e) + unat (ie_OldEndByte e)))"
  using assms by (auto simp: mark_edit_def fits_def nth_append min_absorb2 add.commute)

lemma unat_addUint32Delta:
  assumes "0 \<le> int (unat v) + d" "int (unat v) + d < 4294967296"
  shows "int (unat (addUint32Delta v d)) = int (unat v) + d"
proof -
  have "addUint32Delta v d = of_int (int (unat v) + d)" using assms by (simp add: addUint32Delta_def Let_def)
  moreover have "uint (of_int x :: u32) = x" if "0 \<le> x" "x < 4294967296" for x
    using that by (simp add: unsigned_of_int take_bit_int_eq_self)
  ultimately show ?thesis using assms by (metis uint_nat)
qed

definition within :: "nat \<Rightarrow> range \<Rightarrow> bool" where
  "within n r \<longleftrightarrow> unat (rg_StartByte r) \<le> unat (rg_EndByte r) \<and> unat (rg_EndByte r) \<le> n"

text \<open>One shifted range: it stays inside the new text and keeps every byte that survives.\<close>

lemma shift_range:
  assumes f: "fits e n" and w: "within n r"
  defines "m \<equiv> unat (ie_NewEndByte e) + (n - unat (ie_OldEndByte e))"
  shows "within m (shiftChangedRangeForEdit e r)"
    and "\<lbrakk>unat (rg_StartByte r) \<le> p; p < unat (rg_EndByte r); p < unat (ie_StartByte e)\<rbrakk>
      \<Longrightarrow> unat (rg_StartByte (shiftChangedRangeForEdit e r)) \<le> p \<and> p < unat (rg_EndByte (shiftChangedRangeForEdit e r))"
    and "\<lbrakk>unat (rg_StartByte r) \<le> p; p < unat (rg_EndByte r); unat (ie_OldEndByte e) \<le> p\<rbrakk>
      \<Longrightarrow> unat (rg_StartByte (shiftChangedRangeForEdit e r)) \<le> p - unat (ie_OldEndByte e) + unat (ie_NewEndByte e)
        \<and> p - unat (ie_OldEndByte e) + unat (ie_NewEndByte e) < unat (rg_EndByte (shiftChangedRangeForEdit e r))"
proof -
  let ?s = "unat (ie_StartByte e)" and ?o = "unat (ie_OldEndByte e)" and ?n = "unat (ie_NewEndByte e)"
  have d: "byteDelta e = int ?n - int ?o" by (simp add: byteDelta_def)
  have room: "?n + (n - ?o) < 4294967296" using f unfolding fits_def by blast
  have sh: "unat (addUint32Delta v (byteDelta e)) = unat v - ?o + ?n" if "?o \<le> unat v" "unat v \<le> n" for v
  proof -
    have "0 \<le> int (unat v) + (int ?n - int ?o)" "int (unat v) + (int ?n - int ?o) < 4294967296"
      using that room by linarith+
    from unat_addUint32Delta [OF this] show ?thesis using that unfolding d by linarith
  qed
  note defs = shiftChangedRangeForEdit_def Let_def word_le_nat_alt word_less_nat_alt within_def fits_def
  show "within m (shiftChangedRangeForEdit e r)"
    using f w sh [of "rg_StartByte r"] sh [of "rg_EndByte r"] unfolding m_def by (auto simp: defs)
  show "unat (rg_StartByte (shiftChangedRangeForEdit e r)) \<le> p \<and> p < unat (rg_EndByte (shiftChangedRangeForEdit e r))"
    if "unat (rg_StartByte r) \<le> p" "p < unat (rg_EndByte r)" "p < ?s"
    using that f w sh [of "rg_StartByte r"] sh [of "rg_EndByte r"] by (auto simp: defs)
  show "unat (rg_StartByte (shiftChangedRangeForEdit e r)) \<le> p - ?o + ?n
        \<and> p - ?o + ?n < unat (rg_EndByte (shiftChangedRangeForEdit e r))"
    if "unat (rg_StartByte r) \<le> p" "p < unat (rg_EndByte r)" "?o \<le> p"
    using that f w sh [of "rg_StartByte r"] sh [of "rg_EndByte r"] by (auto simp: defs)
qed

definition covers_at :: "range list \<Rightarrow> nat \<Rightarrow> bool" where
  "covers_at rs p \<longleftrightarrow> (\<exists>r\<in>set rs. unat (rg_StartByte r) \<le> p \<and> p < unat (rg_EndByte r))"

lemma covers_at_covered: "p < 4294967296 \<Longrightarrow> covers_at rs p \<longleftrightarrow> covered rs (of_nat p)"
  by (simp add: covers_at_def covered_def range_covers_def word_le_nat_alt word_less_nat_alt unat_len)

definition marks_covered :: "bool list \<Rightarrow> range list \<Rightarrow> bool" where
  "marks_covered marks rs \<longleftrightarrow>
     (\<forall>r\<in>set rs. within (length marks) r) \<and> (\<forall>p<length marks. marks ! p \<longrightarrow> covers_at rs p)"

lemma add_changed_covers:
  assumes "fits e (length marks)" "marks_covered marks rs"
  shows "marks_covered (mark_edit e marks) (add_changed e rs)"
  unfolding marks_covered_def
proof (intro conjI allI impI)
  let ?s = "unat (ie_StartByte e)" and ?o = "unat (ie_OldEndByte e)" and ?n = "unat (ie_NewEndByte e)"
  have w: "within (length marks) r" if "r \<in> set rs" for r using assms(2) that by (simp add: marks_covered_def)
  have "within (length (mark_edit e marks)) r" if "r \<in> set (add_changed e rs)" for r
    using that shift_range(1) [OF assms(1) w] assms(1)
    unfolding mark_edit_length [OF assms(1)] by (auto simp: add_changed_def within_def fits_def)
  then show "\<forall>r\<in>set (add_changed e rs). within (length (mark_edit e marks)) r" by blast
  fix p assume p: "p < length (mark_edit e marks)" "mark_edit e marks ! p"
  note nth = mark_edit_nth [OF assms(1) p(1)]
  consider (before) "p < ?s" | (new) "?s \<le> p" "p < ?n" | (after) "?s \<le> p" "?n \<le> p" by linarith
  then show "covers_at (add_changed e rs) p"
  proof cases
    case before
    then have "marks ! p" "p < length marks" using p(2) nth assms(1) by (auto simp: fits_def)
    then obtain r where "r \<in> set rs" "unat (rg_StartByte r) \<le> p" "p < unat (rg_EndByte r)"
      using assms(2) by (auto simp: marks_covered_def covers_at_def)
    then show ?thesis using shift_range(2) [OF assms(1) w] before by (force simp: covers_at_def add_changed_def)
  next
    case new
    then show ?thesis by (force simp: covers_at_def add_changed_def)
  next
    case after
    let ?q = "p - ?n + ?o"
    have "marks ! ?q" "?q < length marks"
      using after p nth assms(1) mark_edit_length [OF assms(1)] by (auto simp: fits_def)
    then obtain r where r: "r \<in> set rs" "unat (rg_StartByte r) \<le> ?q" "?q < unat (rg_EndByte r)"
      using assms(2) by (auto simp: marks_covered_def covers_at_def)
    have "?q - ?o + ?n = p" using after by simp
    then show ?thesis using shift_range(3) [OF assms(1) w [OF r(1)] r(2,3)] r(1)
      by (force simp: covers_at_def add_changed_def)
  qed
qed

lemma changed_covers:
  assumes "edits_fit edits (length marks)" "marks_covered marks rs"
  shows "marks_covered (fold mark_edit edits marks) (fold add_changed edits rs)
    \<and> length (fold mark_edit edits marks) < 4294967296"
  using assms
proof (induction edits arbitrary: marks rs)
  case (Cons e es)
  then have f: "fits e (length marks)" by simp
  show ?case using Cons.IH [OF _ add_changed_covers [OF f Cons.prems(2)]] Cons.prems(1) mark_edit_length [OF f] by simp
qed simp

text \<open>
  C14. The changed ranges of a tree are sound: after any sequence of edits that fit the text they meet,
  every byte of the final text that an edit inserted lies in a changed range, whatever later edits did
  to its position; and the ranges are sorted and do not touch.
\<close>

theorem changed_ranges_sound:
  assumes "edits_fit edits n"
  shows "separated (ChangedRanges edits)
    \<and> (\<forall>p<length (fold mark_edit edits (replicate n False)).
         fold mark_edit edits (replicate n False) ! p \<longrightarrow> covered (ChangedRanges edits) (of_nat p))"
proof (cases "edits = []")
  case True
  then show ?thesis by (simp add: ChangedRanges_def separated_def)
next
  case False
  let ?marks = "fold mark_edit edits (replicate n False)" and ?rs = "fold add_changed edits []"
  have c: "marks_covered ?marks ?rs" "length ?marks < 4294967296"
    using changed_covers [of edits "replicate n False" "[]"] assms by (simp_all add: marks_covered_def)
  have proper: "\<forall>r\<in>set ?rs. proper r"
    using c(1) by (auto simp: marks_covered_def within_def proper_def word_le_nat_alt)
  have "covered (ChangedRanges edits) (of_nat p)" if "p < length ?marks" "?marks ! p" for p
    using coalesceRanges_correct(2) [OF proper] covers_at_covered [of p ?rs] c that False
    by (simp add: ChangedRanges_def marks_covered_def)
  then show ?thesis using coalesceRanges_correct(1) [OF proper] False by (simp add: ChangedRanges_def)
qed

definition demo_edits :: "inputEdit list" where
  "demo_edits =
     [\<lparr>ie_StartByte = 4, ie_OldEndByte = 5, ie_NewEndByte = 6, ie_StartPoint = \<lparr>Row = 0, Column = 4\<rparr>,
       ie_OldEndPoint = \<lparr>Row = 0, Column = 5\<rparr>, ie_NewEndPoint = \<lparr>Row = 0, Column = 6\<rparr>\<rparr>,
      \<lparr>ie_StartByte = 0, ie_OldEndByte = 1, ie_NewEndByte = 3, ie_StartPoint = \<lparr>Row = 0, Column = 0\<rparr>,
       ie_OldEndPoint = \<lparr>Row = 0, Column = 1\<rparr>, ie_NewEndPoint = \<lparr>Row = 0, Column = 3\<rparr>\<rparr>]"

theorem changed_ranges_sound_witness:
  "edits_fit demo_edits 8
   \<and> fold mark_edit demo_edits (replicate 8 False)
       = [True, True, True, False, False, False, True, True, False, False, False]
   \<and> covered (ChangedRanges demo_edits) 6
   \<and> map (\<lambda>r. (rg_StartByte r, rg_EndByte r)) (ChangedRanges demo_edits) = [(0, 3), (6, 8)]"
proof -
  have fit: "edits_fit demo_edits 8" by (simp add: demo_edits_def fits_def)
  have marks: "fold mark_edit demo_edits (replicate 8 False)
       = [True, True, True, False, False, False, True, True, False, False, False]" by code_simp
  have ranges: "map (\<lambda>r. (rg_StartByte r, rg_EndByte r)) (ChangedRanges demo_edits) = [(0, 3), (6, 8)]" by code_simp
  have "covered (ChangedRanges demo_edits) (of_nat 6)"
    using changed_ranges_sound [OF fit] unfolding marks by (elim conjE allE [of _ 6]) simp
  then show ?thesis using fit marks ranges by simp
qed

section \<open>Edited included ranges\<close>

text \<open>An edit of proper extent keeps every included range proper.\<close>

lemma unat_saturated:
  fixes a d :: u32
  shows "unat (if a + d < a then 4294967295 else a + d) = min (unat a + unat d) 4294967295"
proof -
  have a: "unat a < 4294967296" and d: "unat d < 4294967296" by (rule unat_u32_less)+
  show ?thesis
  proof (cases "unat a + unat d < 4294967296")
    case True
    then have v: "unat (a + d) = unat a + unat d" by (simp add: unat_word_ariths)
    then have "\<not> a + d < a" unfolding word_less_nat_alt by linarith
    then show ?thesis using True v by simp
  next
    case False
    then have "(unat a + unat d - 4294967296) mod 4294967296 = unat a + unat d - 4294967296"
      using a d by (intro mod_less) linarith
    then have v: "unat (a + d) = unat a + unat d - 4294967296" using False by (simp add: unat_word_ariths le_mod_geq)
    then have "a + d < a" using False a d unfolding word_less_nat_alt by linarith
    then show ?thesis using False by simp
  qed
qed

lemma edited_range_proper:
  assumes "ie_StartByte e \<le> ie_OldEndByte e" "ie_StartByte e \<le> ie_NewEndByte e" "proper r"
  shows "proper (edit_range_start e (edit_range_end e r))"
proof -
  let ?s = "unat (ie_StartByte e)" and ?o = "unat (ie_OldEndByte e)" and ?n = "unat (ie_NewEndByte e)"
  let ?x = "unat (rg_StartByte r)" and ?y = "unat (rg_EndByte r)"
  have sat: "unat (if ie_NewEndByte e + (v - ie_OldEndByte e) < ie_NewEndByte e then 4294967295
      else ie_NewEndByte e + (v - ie_OldEndByte e)) = min (?n + (unat v - ?o)) 4294967295" if "?o \<le> unat v" for v
    using that by (simp only: unat_saturated unat_sub word_le_nat_alt)
  have le: "?s \<le> ?o" "?s \<le> ?n" "?x \<le> ?y" using assms by (simp_all add: proper_def word_le_nat_alt)
  have top: "unat v \<le> 4294967295" for v :: u32 using unat_u32_less [of v] by linarith
  have max: "v = 4294967295 \<longleftrightarrow> unat v = 4294967295" for v :: u32 by (simp add: word_unat_eq_iff)
  have fin: "unat (rg_EndByte (edit_range_start e (edit_range_end e r)))
      = (if ?o \<le> ?y then (if ?y = 4294967295 then ?y else min (?n + (?y - ?o)) 4294967295) else min ?y ?s)"
    using sat [of "rg_EndByte r"] max [of "rg_EndByte r"] unfolding edit_range_end_def edit_range_start_def Let_def
    by (auto simp: word_le_nat_alt word_less_nat_alt min_def)
  have start: "unat (rg_StartByte (edit_range_start e (edit_range_end e r)))
      = (if ?o \<le> ?x then min (?n + (?x - ?o)) 4294967295 else min ?x ?s)"
    using sat [of "rg_StartByte r"] unfolding edit_range_end_def edit_range_start_def Let_def
    by (auto simp: word_le_nat_alt word_less_nat_alt min_def)
  show ?thesis unfolding proper_def word_le_nat_alt fin start using le top [of "ie_StartByte e"] by auto
qed

lemma edited_ranges_proper:
  assumes "ie_StartByte e \<le> ie_OldEndByte e" "ie_StartByte e \<le> ie_NewEndByte e" "\<forall>r\<in>set ranges. proper r"
  shows "\<forall>r\<in>set (editIncludedRanges e ranges). proper r"
  using edited_range_proper [OF assms(1,2)] assms(3) by (simp add: editIncludedRanges_def)

end
