(* ===== verification/Gss_Graph.thy ===== *)
theory Gss_Graph
  imports Go_Prelude
begin

text \<open>
  The graph of stack nodes that GLR versions share, \<^verbatim>\<open>internal/runtime/glr_gss.go\<close>: nodes allocated in
  slabs, each with the entry it holds, the node below it, its depth and a memoised rolling hash. A
  stack is the path from a node to the root. The lemmas show that an allocation is fresh and changes
  no path, that the memo always holds the hash of the path, and that pushing, truncating, copying out
  and the byte offset act on a path as on a list.

  A payload counts by its identity, its end byte and its extra flag. The hash of an entry,
  \<^verbatim>\<open>gssEntryHash\<close>, is an argument \<open>H\<close> of the definitions; nothing is assumed of it. Links packed by
  merges are fields of a node, and no operation here adds one, so the count of their bytes is left
  out. A walk along \<^verbatim>\<open>prev\<close> links is bounded by the depth of its first node, which is the length of
  its path.
\<close>

section \<open>Data\<close>

record stackPayload =
  np_id :: nat
  np_endByte :: u32
  np_isExtra :: bool

record stackEntry =
  se_state :: u32
  se_node :: "stackPayload option"

datatype gssAddr = Slot nat nat | Fresh nat

record gssNode =
  gn_entry :: stackEntry
  gn_prev :: "gssAddr option"
  gn_hash :: u64
  gn_depth :: u32
  gn_extraLinks :: "(gssAddr option \<times> stackEntry) list"

text \<open>A slab: the nodes handed out so far and the capacity of its array.\<close>

record gssNodeSlab =
  gb_data :: "gssNode list"
  gb_cap :: nat

text \<open>
  The scratch with the fields allocation and demotion read, and the nodes that were allocated without
  a scratch.
\<close>

record gssScratch =
  gc_slabs :: "gssNodeSlab list"
  gc_slabCursor :: int
  gc_initialCap :: nat
  gc_usedTotal :: nat
  gc_peakUsed :: nat
  gc_allocatedBytes :: int
  gc_singleStackMode :: bool
  gc_singleStackAllocs :: u64
  gc_multiStackAllocs :: u64
  gc_everForked :: bool
  gc_demotions :: u64
  gc_nodesDemoted :: u64
  gc_demoteStreak :: u32
  gc_demoteThreshold :: u32
  gc_fresh :: "gssNode list"

type_synonym hasher = "u64 \<Rightarrow> stackEntry \<Rightarrow> u64"

definition gssHashSeed :: u64 where "gssHashSeed = 1469598103934665603"
definition defaultGSSNodeSlabCap :: nat where "defaultGSSNodeSlabCap = 4096"
definition gssDemotionHysteresisTokens :: u32 where "gssDemotionHysteresisTokens = 32"

text \<open>The size of a node on 64-bit platforms, and the bound on the growth of overflow slabs.\<close>

definition gssNodeSize :: nat where "gssNodeSize = 64"
definition maxOverflowSlabGrowthBytes :: nat where "maxOverflowSlabGrowthBytes = 8388608"
definition minArenaNodeCap :: nat where "minArenaNodeCap = 64"

section \<open>Allocation\<close>

definition node_at :: "gssScratch \<Rightarrow> gssAddr \<Rightarrow> gssNode option" where
  "node_at m a =
     (case a of
        Slot i j \<Rightarrow> if i < length (gc_slabs m) \<and> j < length (gb_data (gc_slabs m ! i))
                    then Some (gb_data (gc_slabs m ! i) ! j) else None
      | Fresh k \<Rightarrow> if k < length (gc_fresh m) then Some (gc_fresh m ! k) else None)"

definition set_node :: "gssScratch \<Rightarrow> gssAddr \<Rightarrow> gssNode \<Rightarrow> gssScratch" where
  "set_node m a n =
     (case a of
        Slot i j \<Rightarrow> m\<lparr>gc_slabs := (gc_slabs m)[i := (gc_slabs m ! i)\<lparr>gb_data := (gb_data (gc_slabs m ! i))[j := n]\<rparr>]\<rparr>
      | Fresh k \<Rightarrow> m\<lparr>gc_fresh := (gc_fresh m)[k := n]\<rparr>)"

definition boundedNextSlabCap :: "nat \<Rightarrow> nat \<Rightarrow> nat \<Rightarrow> nat" where
  "boundedNextSlabCap lastCap minReq elemSize =
     (let nxt = lastCap * 2;
          nxt = (if elemSize > 0 then min nxt (max (maxOverflowSlabGrowthBytes div elemSize) minArenaNodeCap) else nxt) in
      max (max nxt minReq) minArenaNodeCap)"

definition gssNodeBytesForCap :: "nat \<Rightarrow> int" where
  "gssNodeBytesForCap n = int n * int gssNodeSize"

definition slab_room :: "gssNodeSlab \<Rightarrow> bool" where
  "slab_room b \<longleftrightarrow> length (gb_data b) < gb_cap b"

definition add_slab :: "nat \<Rightarrow> gssScratch \<Rightarrow> gssScratch" where
  "add_slab capacity m =
     m\<lparr>gc_slabs := gc_slabs m @ [\<lparr>gb_data = [], gb_cap = capacity\<rparr>],
       gc_allocatedBytes := gc_allocatedBytes m + gssNodeBytesForCap capacity\<rparr>"

text \<open>Taking the next slot of slab \<open>i\<close>, with the counters.\<close>

definition take_slot :: "nat \<Rightarrow> gssNode \<Rightarrow> gssScratch \<Rightarrow> gssAddr \<times> gssScratch" where
  "take_slot i n m =
     (let used = gc_usedTotal m + 1 in
      (Slot i (length (gb_data (gc_slabs m ! i))),
       m\<lparr>gc_slabs := (gc_slabs m)[i := (gc_slabs m ! i)\<lparr>gb_data := gb_data (gc_slabs m ! i) @ [n]\<rparr>],
         gc_usedTotal := used, gc_peakUsed := max (gc_peakUsed m) used,
         gc_singleStackAllocs := gc_singleStackAllocs m + (if gc_singleStackMode m then 1 else 0),
         gc_multiStackAllocs := gc_multiStackAllocs m + (if gc_singleStackMode m then 0 else 1)\<rparr>))"

text \<open>
  The slow path: a first slab, a cursor in range, the first slab from the cursor on with room, and a
  new slab after the last when there is none.
\<close>

definition allocNodeSlow :: "gssNode \<Rightarrow> gssScratch \<Rightarrow> gssAddr \<times> gssScratch" where
  "allocNodeSlow n m =
     (let m = (if gc_slabs m = [] then (add_slab (max defaultGSSNodeSlabCap (gc_initialCap m)) m)\<lparr>gc_slabCursor := 0\<rparr> else m);
          m = (if gc_slabCursor m < 0 \<or> gc_slabCursor m \<ge> int (length (gc_slabs m)) then m\<lparr>gc_slabCursor := 0\<rparr> else m);
          found = List.find (\<lambda>i. slab_room (gc_slabs m ! i)) [nat (gc_slabCursor m)..<length (gc_slabs m)];
          (i, m) = (case found of
             Some i \<Rightarrow> (i, m)
           | None \<Rightarrow> (length (gc_slabs m),
               add_slab (boundedNextSlabCap (gb_cap (last (gc_slabs m))) defaultGSSNodeSlabCap gssNodeSize) m)) in
      take_slot i n (m\<lparr>gc_slabCursor := int i\<rparr>))"

definition place_node :: "bool \<Rightarrow> gssNode \<Rightarrow> gssScratch \<Rightarrow> gssAddr \<times> gssScratch" where
  "place_node sc n m =
     (if \<not> sc then (Fresh (length (gc_fresh m)), m\<lparr>gc_fresh := gc_fresh m @ [n]\<rparr>)
      else
        let cur = gc_slabCursor m in
        if cur \<ge> 0 \<and> cur < int (length (gc_slabs m)) \<and> slab_room (gc_slabs m ! nat cur)
        then take_slot (nat cur) n m else allocNodeSlow n m)"

section \<open>Hashes\<close>

definition nonzero :: "u64 \<Rightarrow> u64" where
  "nonzero h = (if h = 0 then 1 else h)"

text \<open>
  The walk from a node towards the root. Every walk of the code follows \<^verbatim>\<open>prev\<close> links; the depth of
  the first node bounds it.
\<close>

fun walk :: "nat \<Rightarrow> gssScratch \<Rightarrow> gssAddr option \<Rightarrow> (gssAddr \<times> gssNode) list" where
  "walk 0 m a = []"
| "walk (Suc k) m None = []"
| "walk (Suc k) m (Some a) = (case node_at m a of None \<Rightarrow> [] | Some n \<Rightarrow> (a, n) # walk k m (gn_prev n))"

definition depth_of :: "gssScratch \<Rightarrow> gssAddr option \<Rightarrow> nat" where
  "depth_of m a = (case a of None \<Rightarrow> 0 | Some x \<Rightarrow> (case node_at m x of None \<Rightarrow> 0 | Some n \<Rightarrow> unat (gn_depth n)))"

definition path :: "gssScratch \<Rightarrow> gssAddr option \<Rightarrow> (gssAddr \<times> gssNode) list" where
  "path m a = walk (depth_of m a) m a"

text \<open>Hashing the pending nodes from the oldest to the newest and storing each hash.\<close>

fun hash_pending :: "hasher \<Rightarrow> u64 \<Rightarrow> (gssAddr \<times> gssNode) list \<Rightarrow> gssScratch \<Rightarrow> u64 \<times> gssScratch" where
  "hash_pending H prevHash [] m = (prevHash, m)"
| "hash_pending H prevHash ((a, n) # pending) m =
     (let h = nonzero (H prevHash (gn_entry n)) in hash_pending H h pending (set_node m a (n\<lparr>gn_hash := h\<rparr>)))"

definition gssNodeHash :: "hasher \<Rightarrow> gssAddr option \<Rightarrow> gssScratch \<Rightarrow> u64 \<times> gssScratch" where
  "gssNodeHash H a m =
     (let nodes = path m a;
          pending = takeWhile (\<lambda>p. gn_hash (snd p) = 0) nodes;
          base = (case dropWhile (\<lambda>p. gn_hash (snd p) = 0) nodes of [] \<Rightarrow> gssHashSeed | p # _ \<Rightarrow> gn_hash (snd p)) in
      hash_pending H base (rev pending) m)"

definition allocNode :: "hasher \<Rightarrow> bool \<Rightarrow> stackEntry \<Rightarrow> gssAddr option \<Rightarrow> u32 \<Rightarrow> gssScratch \<Rightarrow> gssAddr \<times> gssScratch" where
  "allocNode H sc entry prev depth m =
     (let (hash, m) =
        (if \<not> sc \<or> \<not> gc_singleStackMode m
         then let (prevHash, m) = gssNodeHash H prev m in (nonzero (H prevHash entry), m)
         else (0, m)) in
      place_node sc \<lparr>gn_entry = entry, gn_prev = prev, gn_hash = hash, gn_depth = depth, gn_extraLinks = []\<rparr> m)"

section \<open>Graph stacks\<close>

definition stackEntryHasNode :: "stackEntry \<Rightarrow> bool" where
  "stackEntryHasNode e \<longleftrightarrow> se_node e \<noteq> None"

definition stackEntryNodeEndByte :: "stackEntry \<Rightarrow> u32" where
  "stackEntryNodeEndByte e = (case se_node e of None \<Rightarrow> 0 | Some n \<Rightarrow> np_endByte n)"

definition stackEntryNodeIsExtra :: "stackEntry \<Rightarrow> bool" where
  "stackEntryNodeIsExtra e \<longleftrightarrow> (case se_node e of None \<Rightarrow> False | Some n \<Rightarrow> np_isExtra n)"

definition zero_entry :: stackEntry where
  "zero_entry = \<lparr>se_state = 0, se_node = None\<rparr>"

definition gss_top :: "gssScratch \<Rightarrow> gssAddr option \<Rightarrow> stackEntry" where
  "gss_top m head = (case head of None \<Rightarrow> zero_entry | Some a \<Rightarrow> (case node_at m a of None \<Rightarrow> zero_entry | Some n \<Rightarrow> gn_entry n))"

fun newest_end :: "stackEntry list \<Rightarrow> u32" where
  "newest_end [] = 0"
| "newest_end (e # es) = (if stackEntryHasNode e then stackEntryNodeEndByte e else newest_end es)"

definition gss_byteOffset :: "gssScratch \<Rightarrow> gssAddr option \<Rightarrow> u32" where
  "gss_byteOffset m head = newest_end (map (\<lambda>p. gn_entry (snd p)) (path m head))"

text \<open>Pushing panics when the depth does not fit; a panic is \<open>None\<close>.\<close>

definition gss_pushEntry :: "hasher \<Rightarrow> bool \<Rightarrow> stackEntry \<Rightarrow> gssAddr option \<times> gssScratch \<Rightarrow> (gssAddr option \<times> gssScratch) option" where
  "gss_pushEntry H sc entry s =
     (let (head, m) = s in
      case head of
        None \<Rightarrow> (case allocNode H sc entry None 1 m of (a, m) \<Rightarrow> Some (Some a, m))
      | Some h \<Rightarrow>
          let d = (case node_at m h of None \<Rightarrow> 0 | Some n \<Rightarrow> gn_depth n) in
          if d = - 1 then None
          else (case allocNode H sc entry head (d + 1) m of (a, m) \<Rightarrow> Some (Some a, m)))"

fun buildGSSStack :: "hasher \<Rightarrow> bool \<Rightarrow> stackEntry list \<Rightarrow> gssAddr option \<times> gssScratch \<Rightarrow> (gssAddr option \<times> gssScratch) option" where
  "buildGSSStack H sc [] s = Some s"
| "buildGSSStack H sc (e # es) s = Option.bind (gss_pushEntry H sc e s) (buildGSSStack H sc es)"

text \<open>Truncating walks to the node with the wanted depth; \<open>None\<close> is the result false.\<close>

definition gss_truncate :: "gssScratch \<Rightarrow> int \<Rightarrow> gssAddr option \<Rightarrow> gssAddr option option" where
  "gss_truncate m depth head =
     (if depth \<le> 0 then Some None
      else case head of
        None \<Rightarrow> None
      | Some a \<Rightarrow>
          if depth > 4294967295 \<or> depth > int (depth_of m head) then None
          else (case dropWhile (\<lambda>p. uint (gn_depth (snd p)) > depth) (path m head) of
                  [] \<Rightarrow> None
                | p # _ \<Rightarrow> if uint (gn_depth (snd p)) = depth then Some (Some (fst p)) else None))"

text \<open>Copying the path into a slice, the oldest entry first; a path shorter than its depth panics.\<close>

definition materialize :: "gssScratch \<Rightarrow> gssAddr option \<Rightarrow> stackEntry list option" where
  "materialize m head =
     (let nodes = path m head in
      if length nodes < depth_of m head then None else Some (rev (map (\<lambda>p. gn_entry (snd p)) nodes)))"

definition gssInlineChainHasPackedLinks :: "gssScratch \<Rightarrow> gssAddr option \<Rightarrow> bool" where
  "gssInlineChainHasPackedLinks m head \<longleftrightarrow> (\<exists>p\<in>set (path m head). gn_extraLinks (snd p) \<noteq> [])"

fun span_linear :: "nat \<Rightarrow> nat \<Rightarrow> gssNode list \<Rightarrow> bool" where
  "span_linear childCount nonExtraFound [] = True"
| "span_linear childCount nonExtraFound (n # ns) =
     (if gn_extraLinks n \<noteq> [] then False
      else if stackEntryHasNode (gn_entry n) \<and> \<not> stackEntryNodeIsExtra (gn_entry n)
      then (if nonExtraFound + 1 = childCount then True else span_linear childCount (nonExtraFound + 1) ns)
      else span_linear childCount nonExtraFound ns)"

definition gssSpanIsLinear :: "gssScratch \<Rightarrow> gssAddr option \<Rightarrow> nat \<Rightarrow> bool" where
  "gssSpanIsLinear m head childCount \<longleftrightarrow> childCount = 0 \<or> span_linear childCount 0 (map snd (path m head))"


text \<open>Releasing every slot of the slabs for reuse.\<close>

definition recycleForParse :: "gssScratch \<Rightarrow> gssScratch" where
  "recycleForParse m =
     (if gc_usedTotal m = 0 then m
      else m\<lparr>gc_slabs := map (gb_data_update (\<lambda>_. [])) (gc_slabs m), gc_slabCursor := 0, gc_usedTotal := 0\<rparr>)"

definition setSingleStackMode :: "bool \<Rightarrow> gssScratch \<Rightarrow> gssScratch" where
  "setSingleStackMode v m = m\<lparr>gc_singleStackMode := v, gc_everForked := gc_everForked m \<or> \<not> v\<rparr>"

section \<open>Paths as lists\<close>

text \<open>
  \<open>spine m es a\<close>: the nodes from \<open>a\<close> to the root hold the entries \<open>es\<close>, the newest first, and their
  depths count them.
\<close>

primrec spine :: "gssScratch \<Rightarrow> stackEntry list \<Rightarrow> gssAddr option \<Rightarrow> bool" where
  "spine m [] a \<longleftrightarrow> a = None"
| "spine m (e # es) a \<longleftrightarrow>
     (\<exists>x n. a = Some x \<and> node_at m x = Some n \<and> gn_entry n = e \<and> unat (gn_depth n) = Suc (length es)
            \<and> spine m es (gn_prev n))"

text \<open>The rolling hash of a path, and the memory in which every memoised hash is that of its path.\<close>

primrec ent_hash :: "hasher \<Rightarrow> stackEntry list \<Rightarrow> u64" where
  "ent_hash H [] = gssHashSeed"
| "ent_hash H (e # es) = nonzero (H (ent_hash H es) e)"

definition hashed :: "hasher \<Rightarrow> gssNode \<Rightarrow> stackEntry list \<Rightarrow> bool" where
  "hashed H n es \<longleftrightarrow> unat (gn_depth n) = Suc (length es) \<and> (gn_hash n = 0 \<or> gn_hash n = ent_hash H (gn_entry n # es))"

definition mem_ok :: "hasher \<Rightarrow> gssScratch \<Rightarrow> bool" where
  "mem_ok H m \<longleftrightarrow> (\<forall>a n. node_at m a = Some n \<longrightarrow> (\<exists>es. spine m es (gn_prev n) \<and> hashed H n es))"

text \<open>Later memories keep every node up to its memoised hash.\<close>

definition grows :: "gssScratch \<Rightarrow> gssScratch \<Rightarrow> bool" where
  "grows m m' \<longleftrightarrow> (\<forall>a n. node_at m a = Some n \<longrightarrow> (\<exists>h. node_at m' a = Some (n\<lparr>gn_hash := h\<rparr>)))"

lemma nonzero_neq [simp]: "nonzero h \<noteq> 0"
  by (simp add: nonzero_def)

lemma spine_det: "spine m es a \<Longrightarrow> spine m fs a \<Longrightarrow> es = fs"
proof (induction es arbitrary: a fs)
  case Nil
  then show ?case by (cases fs) auto
next
  case (Cons e es)
  then show ?case by (cases fs) auto
qed

lemma grows_refl [simp]: "grows m m"
  unfolding grows_def
proof (intro allI impI)
  fix a n assume "node_at m a = Some n"
  then show "\<exists>h. node_at m a = Some (n\<lparr>gn_hash := h\<rparr>)" by (intro exI [of _ "gn_hash n"]) simp
qed

lemma grows_trans [trans]: "grows m1 m2 \<Longrightarrow> grows m2 m3 \<Longrightarrow> grows m1 m3"
  unfolding grows_def by fastforce

lemma growsD:
  assumes "grows m m'" "node_at m a = Some n"
  obtains h where "node_at m' a = Some (n\<lparr>gn_hash := h\<rparr>)"
  using assms unfolding grows_def by blast

lemma spine_grows: "grows m m' \<Longrightarrow> spine m es a \<Longrightarrow> spine m' es a"
proof (induction es arbitrary: a)
  case (Cons e es)
  from Cons.prems(2) obtain x n where "a = Some x" "node_at m x = Some n" "gn_entry n = e"
    "unat (gn_depth n) = Suc (length es)" "spine m es (gn_prev n)" by auto
  moreover from this Cons.prems(1) obtain h where "node_at m' x = Some (n\<lparr>gn_hash := h\<rparr>)" by (auto elim: growsD)
  ultimately show ?case using Cons.IH Cons.prems(1) by auto
qed simp

text \<open>A memory in which one node is new, or differs in its hash alone.\<close>

lemma grows_update:
  assumes "node_at m' = (node_at m)(a \<mapsto> n)"
    "\<And>n0. node_at m a = Some n0 \<Longrightarrow> \<exists>h. n = n0\<lparr>gn_hash := h\<rparr>"
  shows "grows m m'"
  unfolding grows_def
proof (intro allI impI)
  fix b n0 assume n0: "node_at m b = Some n0"
  show "\<exists>h. node_at m' b = Some (n0\<lparr>gn_hash := h\<rparr>)"
  proof (cases "b = a")
    case True
    then show ?thesis using assms n0 by auto
  next
    case False
    then show ?thesis using assms(1) n0 by (intro exI [of _ "gn_hash n0"]) simp
  qed
qed

lemma mem_ok_update:
  assumes "mem_ok H m" "node_at m' = (node_at m)(a \<mapsto> n)" "grows m m'" "spine m es (gn_prev n)" "hashed H n es"
  shows "mem_ok H m'"
  unfolding mem_ok_def
proof (intro allI impI)
  fix b n0 assume n0: "node_at m' b = Some n0"
  show "\<exists>es. spine m' es (gn_prev n0) \<and> hashed H n0 es"
  proof (cases "b = a")
    case True
    then have "n0 = n" using n0 assms(2) by simp
    then show ?thesis using assms(5) spine_grows [OF assms(3,4)] by blast
  next
    case False
    then show ?thesis using assms(1-3) n0 spine_grows unfolding mem_ok_def by fastforce
  qed
qed

section \<open>Allocation is fresh\<close>

lemma node_at_add_slab [simp]: "node_at (add_slab c m) = node_at m"
  by (rule ext) (auto simp: node_at_def add_slab_def nth_append split: gssAddr.splits)

lemma add_slab_fields [simp]:
  "gc_fresh (add_slab c m) = gc_fresh m" "length (gc_slabs (add_slab c m)) = Suc (length (gc_slabs m))"
  by (simp_all add: add_slab_def)

lemma node_at_fields [simp]:
  "node_at (m\<lparr>gc_slabCursor := i\<rparr>) = node_at m"
  "node_at (m\<lparr>gc_demoteStreak := k\<rparr>) = node_at m"
  "node_at (m\<lparr>gc_demoteThreshold := k\<rparr>) = node_at m"
  "node_at (m\<lparr>gc_demotions := v\<rparr>) = node_at m"
  "node_at (m\<lparr>gc_nodesDemoted := v\<rparr>) = node_at m"
  "node_at (setSingleStackMode b m) = node_at m"
  by (rule ext, simp add: node_at_def setSingleStackMode_def split: gssAddr.splits)+

lemma take_slot_fresh:
  assumes "i < length (gc_slabs m)" "take_slot i n m = (a, m')"
  shows "node_at m a = None" "node_at m' = (node_at m)(a \<mapsto> n)" "gc_fresh m' = gc_fresh m"
proof -
  have a: "a = Slot i (length (gb_data (gc_slabs m ! i)))"
    and m': "gc_slabs m' = (gc_slabs m)[i := (gc_slabs m ! i)\<lparr>gb_data := gb_data (gc_slabs m ! i) @ [n]\<rparr>]"
    and f: "gc_fresh m' = gc_fresh m"
    using assms(2) by (auto simp: take_slot_def Let_def)
  show "node_at m a = None" by (simp add: a node_at_def)
  show "gc_fresh m' = gc_fresh m" by (rule f)
  show "node_at m' = (node_at m)(a \<mapsto> n)"
  proof
    fix b show "node_at m' b = ((node_at m)(a \<mapsto> n)) b"
      using assms(1) by (cases b) (auto simp: a m' f node_at_def nth_list_update nth_append)
  qed
qed

lemma allocNodeSlow_slot:
  obtains i m1 where "i < length (gc_slabs m1)" "allocNodeSlow n m = take_slot i n m1"
    "node_at m1 = node_at m" "gc_fresh m1 = gc_fresh m"
proof -
  define ma where "ma = (if gc_slabs m = [] then (add_slab (max defaultGSSNodeSlabCap (gc_initialCap m)) m)\<lparr>gc_slabCursor := 0\<rparr> else m)"
  define mb where "mb = (if gc_slabCursor ma < 0 \<or> gc_slabCursor ma \<ge> int (length (gc_slabs ma)) then ma\<lparr>gc_slabCursor := 0\<rparr> else ma)"
  define found where "found = List.find (\<lambda>i. slab_room (gc_slabs mb ! i)) [nat (gc_slabCursor mb)..<length (gc_slabs mb)]"
  have mb: "node_at mb = node_at m" "gc_fresh mb = gc_fresh m" by (simp_all add: mb_def ma_def)
  show thesis
  proof (cases found)
    case (Some i)
    then have "i < length (gc_slabs mb)" by (auto simp: found_def find_Some_iff)
    then show thesis
      using that [of i "mb\<lparr>gc_slabCursor := int i\<rparr>"] mb Some
      by (simp add: allocNodeSlow_def Let_def ma_def [symmetric] mb_def [symmetric] found_def [symmetric])
  next
    case None
    let ?c = "boundedNextSlabCap (gb_cap (last (gc_slabs mb))) defaultGSSNodeSlabCap gssNodeSize"
    show thesis
      using that [of "length (gc_slabs mb)" "(add_slab ?c mb)\<lparr>gc_slabCursor := int (length (gc_slabs mb))\<rparr>"] mb None
      by (simp add: allocNodeSlow_def Let_def ma_def [symmetric] mb_def [symmetric] found_def [symmetric])
  qed
qed

lemma place_node_fresh:
  assumes "place_node sc n m = (a, m')"
  shows "node_at m a = None" "node_at m' = (node_at m)(a \<mapsto> n)" "sc \<Longrightarrow> gc_fresh m' = gc_fresh m"
proof -
  have "node_at m a = None \<and> node_at m' = (node_at m)(a \<mapsto> n) \<and> (sc \<longrightarrow> gc_fresh m' = gc_fresh m)"
  proof (cases sc)
    case False
    then have "a = Fresh (length (gc_fresh m))" "m' = m\<lparr>gc_fresh := gc_fresh m @ [n]\<rparr>"
      using assms by (auto simp: place_node_def)
    then show ?thesis
      using False by (auto simp: node_at_def fun_eq_iff nth_append split: gssAddr.splits)
  next
    case True
    then consider "nat (gc_slabCursor m) < length (gc_slabs m)" "take_slot (nat (gc_slabCursor m)) n m = (a, m')"
      | "allocNodeSlow n m = (a, m')"
      using assms by (auto simp: place_node_def Let_def split: if_splits)
    then show ?thesis
    proof cases
      case 1
      then show ?thesis using take_slot_fresh by blast
    next
      case 2
      then show ?thesis by (metis allocNodeSlow_slot take_slot_fresh)
    qed
  qed
  then show "node_at m a = None" "node_at m' = (node_at m)(a \<mapsto> n)" "sc \<Longrightarrow> gc_fresh m' = gc_fresh m" by auto
qed

lemma node_at_set_node:
  assumes "node_at m a = Some n0"
  shows "node_at (set_node m a n) = (node_at m)(a \<mapsto> n)"
proof
  fix b show "node_at (set_node m a n) b = ((node_at m)(a \<mapsto> n)) b"
    using assms by (cases a; cases b) (auto simp: node_at_def set_node_def nth_list_update split: if_splits)
qed

lemma fresh_set_node [simp]: "(gc_fresh (set_node m a n) = []) = (gc_fresh m = [])"
  by (simp add: set_node_def split: gssAddr.splits)

section \<open>Walks\<close>

lemma depth_of_spine: "spine m es a \<Longrightarrow> depth_of m a = length es"
  by (cases es) (auto simp: depth_of_def)

lemma spine_walk:
  "spine m es a \<Longrightarrow> length es \<le> k \<Longrightarrow> map (\<lambda>p. gn_entry (snd p)) (walk k m a) = es"
proof (induction es arbitrary: a k)
  case Nil
  then show ?case by (cases k) auto
next
  case (Cons e es)
  then show ?case by (cases k) auto
qed

lemma spine_path: "spine m es a \<Longrightarrow> map (\<lambda>p. gn_entry (snd p)) (path m a) = es"
  by (simp add: path_def depth_of_spine spine_walk)

lemma path_Cons:
  assumes "spine m (e # es) (Some x)" "node_at m x = Some n"
  shows "path m (Some x) = (x, n) # path m (gn_prev n)"
  using assms depth_of_spine [of m es "gn_prev n"] by (auto simp: path_def depth_of_def)

lemma spine_path_length: "spine m es a \<Longrightarrow> length (path m a) = length es"
  using spine_path by (metis length_map)

lemma gss_byteOffset_spine: "spine m es a \<Longrightarrow> gss_byteOffset m a = newest_end es"
  by (simp add: gss_byteOffset_def spine_path)

lemma materialize_spine: "spine m es a \<Longrightarrow> materialize m a = Some (rev es)"
  by (simp add: materialize_def spine_path spine_path_length depth_of_spine)

text \<open>Walking down to a depth ends at the node whose path is the list without its newest entries.\<close>

lemma spine_dropWhile:
  assumes "spine m es a" "0 < d" "d \<le> length es"
  shows "\<exists>p ps. dropWhile (\<lambda>p. uint (gn_depth (snd p)) > int d) (path m a) = p # ps
           \<and> unat (gn_depth (snd p)) = d \<and> spine m (drop (length es - d) es) (Some (fst p))"
  using assms
proof (induction es arbitrary: a)
  case (Cons e es)
  from Cons.prems(1) obtain x n where a: "a = Some x" and n: "node_at m x = Some n" "unat (gn_depth n) = Suc (length es)"
    "spine m es (gn_prev n)" by auto
  have p: "path m a = (x, n) # path m (gn_prev n)" using Cons.prems(1) n a path_Cons by blast
  have u: "uint (gn_depth n) = int (Suc (length es))" using n(2) by (metis uint_nat)
  show ?case
  proof (cases "d \<le> length es")
    case True
    then show ?thesis using Cons.IH [OF n(3) Cons.prems(2)] n(2) u by (simp add: p Suc_diff_le)
  next
    case False
    then have d: "d = Suc (length es)" using Cons.prems by simp
    then have "dropWhile (\<lambda>p. uint (gn_depth (snd p)) > int d) (path m a) = (x, n) # path m (gn_prev n)"
      using u by (simp add: p)
    then show ?thesis using d n(2) Cons.prems(1) a by (simp del: spine.simps)
  qed
qed simp

lemma gss_truncate_spine:
  assumes "spine m es a" "length es < 4294967296"
  shows "if d \<le> length es
         then \<exists>h. gss_truncate m (int d) a = Some h \<and> spine m (drop (length es - d) es) h
         else gss_truncate m (int d) a = None"
proof (cases "d = 0")
  case True
  then show ?thesis using assms by (simp add: gss_truncate_def)
next
  case False
  show ?thesis
  proof (cases "d \<le> length es")
    case True
    then obtain x where a: "a = Some x" using assms(1) False by (cases es) auto
    from spine_dropWhile [OF assms(1) _ True] False obtain p ps where
      "dropWhile (\<lambda>p. uint (gn_depth (snd p)) > int d) (path m a) = p # ps"
      "unat (gn_depth (snd p)) = d" "spine m (drop (length es - d) es) (Some (fst p))" by auto
    moreover from this have "uint (gn_depth (snd p)) = int d" by (metis uint_nat)
    ultimately show ?thesis
      using True False assms(2) depth_of_spine [OF assms(1)] a by (auto simp: gss_truncate_def)
  next
    case False
    then show ?thesis
      using depth_of_spine [OF assms(1)] by (auto simp: gss_truncate_def split: option.splits)
  qed
qed

section \<open>Hashing and pushing\<close>

lemma hash_pending_append:
  "hash_pending H b (xs @ ys) m = (case hash_pending H b xs m of (h, m1) \<Rightarrow> hash_pending H h ys m1)"
  by (induction H b xs m rule: hash_pending.induct) (auto simp: Let_def)

text \<open>Hashing a node stores the hash of every node it walks, and returns that of the path.\<close>

lemma gssNodeHash_memo:
  assumes "mem_ok H m" "spine m es a"
  shows "\<exists>m'. gssNodeHash H a m = (ent_hash H es, m') \<and> mem_ok H m' \<and> grows m m'
              \<and> (gc_fresh m' = []) = (gc_fresh m = [])"
  using assms
proof (induction es arbitrary: a)
  case Nil
  then show ?case by (simp add: gssNodeHash_def path_def depth_of_def)
next
  case (Cons e es)
  from Cons.prems(2) obtain x n where a: "a = Some x" and n: "node_at m x = Some n" "gn_entry n = e"
    "unat (gn_depth n) = Suc (length es)" "spine m es (gn_prev n)" by auto
  have p: "path m a = (x, n) # path m (gn_prev n)" using Cons.prems(2) n a path_Cons by blast
  have "hashed H n es" using Cons.prems(1) n(1,4) spine_det unfolding mem_ok_def by blast
  show ?case
  proof (cases "gn_hash n = 0")
    case False
    then have "gssNodeHash H a m = (gn_hash n, m)" by (simp add: gssNodeHash_def p)
    then show ?thesis using False \<open>hashed H n es\<close> n(2) Cons.prems(1) by (simp add: hashed_def)
  next
    case True
    from Cons.IH [OF Cons.prems(1) n(4)] obtain m1 where m1: "gssNodeHash H (gn_prev n) m = (ent_hash H es, m1)"
      "mem_ok H m1" "grows m m1" "(gc_fresh m1 = []) = (gc_fresh m = [])" by blast
    from m1(3) n(1) obtain h0 where h0: "node_at m1 x = Some (n\<lparr>gn_hash := h0\<rparr>)" by (rule growsD)
    let ?n = "n\<lparr>gn_hash := ent_hash H (e # es)\<rparr>"
    let ?m = "set_node m1 x ?n"
    have upd: "node_at ?m = (node_at m1)(x \<mapsto> ?n)" by (rule node_at_set_node [OF h0])
    have g: "grows m1 ?m" using h0 by (intro grows_update [OF upd]) auto
    have "mem_ok H ?m"
      using n spine_grows [OF m1(3) n(4)] by (intro mem_ok_update [OF m1(2) upd g, of es]) (auto simp: hashed_def)
    moreover have "gssNodeHash H a m = (ent_hash H (e # es), ?m)"
      using m1(1) True n(2) by (simp add: gssNodeHash_def p hash_pending_append Let_def)
    ultimately show ?thesis using m1(4) grows_trans [OF m1(3) g] by simp
  qed
qed

lemma allocNode_spine:
  assumes "mem_ok H m" "spine m es prev" "unat depth = Suc (length es)"
  shows "\<exists>a m'. allocNode H sc e prev depth m = (a, m') \<and> mem_ok H m' \<and> grows m m' \<and> spine m' (e # es) (Some a)
                \<and> (sc \<longrightarrow> gc_fresh m = [] \<longrightarrow> gc_fresh m' = [])"
proof -
  from gssNodeHash_memo [OF assms(1,2)] obtain m0 where m0: "gssNodeHash H prev m = (ent_hash H es, m0)"
    "mem_ok H m0" "grows m m0" "(gc_fresh m0 = []) = (gc_fresh m = [])" by blast
  define store where "store \<longleftrightarrow> \<not> sc \<or> \<not> gc_singleStackMode m"
  define m1 where "m1 = (if store then m0 else m)"
  define n where "n = \<lparr>gn_entry = e, gn_prev = prev, gn_hash = (if store then ent_hash H (e # es) else 0), gn_depth = depth, gn_extraLinks = []\<rparr>"
  have m1: "mem_ok H m1" "grows m m1" "(gc_fresh m1 = []) = (gc_fresh m = [])"
    using m0 assms(1) by (auto simp: m1_def)
  obtain a m' where pl: "place_node sc n m1 = (a, m')" by fastforce
  note fresh = place_node_fresh [OF pl]
  have al: "allocNode H sc e prev depth m = (a, m')"
    using pl m0(1) by (cases store) (auto simp: allocNode_def store_def m1_def n_def)
  have g: "grows m1 m'" using fresh(1) by (intro grows_update [OF fresh(2)]) simp
  have sp: "spine m1 es prev" by (rule spine_grows [OF m1(2) assms(2)])
  have ok: "mem_ok H m'"
    using sp assms(3) by (intro mem_ok_update [OF m1(1) fresh(2) g, of es]) (auto simp: hashed_def n_def)
  have "spine m' (e # es) (Some a)" using fresh(2) spine_grows [OF g sp] assms(3) by (auto simp: n_def)
  then show ?thesis using al ok grows_trans [OF m1(2) g] fresh(3) m1(3) by auto
qed

lemma gss_pushEntry_spine:
  assumes "mem_ok H m" "spine m es h" "Suc (length es) < 4294967296"
  shows "\<exists>a m'. gss_pushEntry H sc e (h, m) = Some (Some a, m') \<and> mem_ok H m' \<and> grows m m' \<and> spine m' (e # es) (Some a)
                \<and> (sc \<longrightarrow> gc_fresh m = [] \<longrightarrow> gc_fresh m' = [])"
proof (cases es)
  case Nil
  then show ?thesis using allocNode_spine [OF assms(1,2), of 1 sc e] assms(2) by (auto simp: gss_pushEntry_def)
next
  case (Cons f fs)
  with assms(2) obtain x n where h: "h = Some x" and n: "node_at m x = Some n" "unat (gn_depth n) = length es" by auto
  have "gn_depth n \<noteq> - 1"
  proof
    assume "gn_depth n = - 1"
    then have "unat (gn_depth n) = 4294967295" by (simp add: unsigned_minus_1_eq_mask mask_eq_exp_minus_1)
    then show False using n(2) assms(3) by simp
  qed
  moreover have "unat (gn_depth n + 1) = Suc (length es)"
    using n(2) assms(3) by (simp add: unat_word_ariths)
  ultimately show ?thesis
    using allocNode_spine [OF assms(1,2), of "gn_depth n + 1" sc e] h n(1) by (auto simp: gss_pushEntry_def Let_def)
qed

lemma buildGSSStack_spine:
  assumes "mem_ok H m" "spine m es h" "length es + length xs < 4294967296"
  shows "\<exists>h' m'. buildGSSStack H sc xs (h, m) = Some (h', m') \<and> mem_ok H m' \<and> grows m m' \<and> spine m' (rev xs @ es) h'
                \<and> (sc \<longrightarrow> gc_fresh m = [] \<longrightarrow> gc_fresh m' = [])"
  using assms
proof (induction xs arbitrary: m es h)
  case (Cons x xs)
  from gss_pushEntry_spine [OF Cons.prems(1,2), of sc x] Cons.prems(3) obtain a m1 where
    1: "gss_pushEntry H sc x (h, m) = Some (Some a, m1)" "mem_ok H m1" "grows m m1" "spine m1 (x # es) (Some a)"
      "sc \<longrightarrow> gc_fresh m = [] \<longrightarrow> gc_fresh m1 = []" by auto
  from Cons.IH [OF 1(2,4)] Cons.prems(3) obtain h' m' where
    "buildGSSStack H sc xs (Some a, m1) = Some (h', m')" "mem_ok H m'" "grows m1 m'" "spine m' (rev xs @ x # es) h'"
      "sc \<longrightarrow> gc_fresh m1 = [] \<longrightarrow> gc_fresh m' = []" by auto
  with 1 show ?case by (auto intro: grows_trans)
qed simp

end
