(* ===== verification/Glr_Stack.thy ===== *)
theory Glr_Stack
  imports Gss_Graph
begin

text \<open>
  The stack versions of the GLR parser, the stack part of \<^verbatim>\<open>internal/runtime/glr.go\<close> and the demotion in
  \<^verbatim>\<open>parser.go\<close>. A version is a slice of entries until it forks; then it is a path in the shared graph,
  with the slice kept as an optional mirror, and the last version left goes back to a slice. The
  lemmas show that every version behaves as a list of its own: operations on one version change no
  other, the mirror and the tracked byte offset agree with the list, slabs are recycled only when no
  version uses them, and the hash does not depend on the representation.

  The slices of entries are values: the code copies or drops them when it copies a stack, and a slab
  of entries hands out disjoint regions.
\<close>

section \<open>Stack versions\<close>

text \<open>
  A stack version. The three pointers to recovery records and the diagnostic token are left out: no
  operation here reads them.
\<close>

record glrStack =
  st_head :: "gssAddr option"
  st_entries :: "stackEntry list option"
  st_byteOffset :: u32
  st_cPreviousByteOffset :: u32
  st_score :: int
  st_dead :: bool
  st_accepted :: bool
  st_cAcceptOrder :: u64
  st_shifted :: bool
  st_recoverabilityKnown :: bool
  st_mayRecover :: bool
  st_cPreviousByteOffsetValid :: bool
  st_branchOrder :: u64
  st_cEntryAggGen :: u64
  st_cEntryAggCost :: u32
  st_cEntryAggVis :: int
  st_cNodeBaseline :: u32
  st_cPaused :: bool
  st_cEverErrored :: bool
  st_cRecoveryUnvalidatedMarker :: bool
  st_cacheEntries :: bool

definition newGLRStack :: "u32 \<Rightarrow> glrStack" where
  "newGLRStack initial =
     \<lparr>st_head = None, st_entries = Some [\<lparr>se_state = initial, se_node = None\<rparr>], st_byteOffset = 0,
      st_cPreviousByteOffset = 0, st_score = 0, st_dead = False, st_accepted = False, st_cAcceptOrder = 0,
      st_shifted = False, st_recoverabilityKnown = False, st_mayRecover = False,
      st_cPreviousByteOffsetValid = False, st_branchOrder = 0, st_cEntryAggGen = 0, st_cEntryAggCost = 0,
      st_cEntryAggVis = 0, st_cNodeBaseline = 0, st_cPaused = False, st_cEverErrored = False,
      st_cRecoveryUnvalidatedMarker = False, st_cacheEntries = True\<rparr>"

text \<open>The entries as Go reads them: a nil slice has length zero.\<close>

definition flat :: "glrStack \<Rightarrow> stackEntry list" where
  "flat s = (case st_entries s of None \<Rightarrow> [] | Some es \<Rightarrow> es)"

definition ensureGSS :: "hasher \<Rightarrow> bool \<Rightarrow> glrStack \<times> gssScratch \<Rightarrow> (glrStack \<times> gssScratch) option" where
  "ensureGSS H sc sm =
     (let (s, m) = sm in
      if st_head s \<noteq> None \<or> flat s = [] then Some (s, m)
      else Option.bind (buildGSSStack H sc (flat s) (None, m)) (\<lambda>(h, m).
        Some (s\<lparr>st_head := h\<rparr>,
              if sc then m\<lparr>gc_demoteStreak := 0, gc_demoteThreshold := max gssDemotionHysteresisTokens (of_nat (length (flat s)))\<rparr>
              else m)))"

definition stack_depth :: "gssScratch \<Rightarrow> glrStack \<Rightarrow> nat" where
  "stack_depth m s = (if st_head s \<noteq> None then depth_of m (st_head s) else length (flat s))"

definition stack_top :: "gssScratch \<Rightarrow> glrStack \<Rightarrow> stackEntry" where
  "stack_top m s =
     (if st_head s \<noteq> None then gss_top m (st_head s)
      else if flat s = [] then zero_entry else last (flat s))"

text \<open>What both copies leave behind: the flags of the current round.\<close>

definition copied_fields :: "glrStack \<Rightarrow> glrStack" where
  "copied_fields s = s\<lparr>st_dead := False, st_accepted := False, st_shifted := False, st_cPaused := False\<rparr>"

text \<open>Copying returns the original, which may have been promoted, and the copy.\<close>

definition clone :: "hasher \<Rightarrow> glrStack \<times> gssScratch \<Rightarrow> (glrStack \<times> glrStack \<times> gssScratch) option" where
  "clone H sm =
     (let (s, m) = sm in
      if st_head s = None \<and> flat s \<noteq> [] then Some (s, copied_fields s, m)
      else Option.bind (ensureGSS H False (s, m)) (\<lambda>(s, m). Some (s, (copied_fields s)\<lparr>st_entries := None\<rparr>, m)))"

definition cloneWithScratch :: "hasher \<Rightarrow> glrStack \<times> gssScratch \<Rightarrow> (glrStack \<times> glrStack \<times> gssScratch) option" where
  "cloneWithScratch H sm =
     Option.bind (ensureGSS H True sm) (\<lambda>(s, m).
       Some (s, (copied_fields s)\<lparr>st_entries := None, st_cacheEntries := False\<rparr>, m))"

definition invalidateCEntryAgg :: "glrStack \<Rightarrow> glrStack" where
  "invalidateCEntryAgg s = s\<lparr>st_cEntryAggGen := 0\<rparr>"

definition ensureEntries :: "gssScratch \<Rightarrow> glrStack \<Rightarrow> (stackEntry list option \<times> glrStack) option" where
  "ensureEntries m s =
     (if st_entries s \<noteq> None then Some (st_entries s, s)
      else if st_head s = None \<or> depth_of m (st_head s) = 0 then Some (None, s)
      else Option.bind (materialize m (st_head s)) (\<lambda>es.
        Some (Some es, invalidateCEntryAgg (s\<lparr>st_entries := Some es\<rparr>))))"

definition stackByteOffset :: "stackEntry list \<Rightarrow> u32" where
  "stackByteOffset entries = newest_end (rev entries)"

definition demoteLinearGSS :: "gssScratch \<Rightarrow> glrStack \<Rightarrow> (bool \<times> glrStack) option" where
  "demoteLinearGSS m s =
     (if st_head s = None \<or> gssInlineChainHasPackedLinks m (st_head s) \<or> depth_of m (st_head s) = 0 then Some (False, s)
      else Option.bind (materialize m (st_head s)) (\<lambda>es.
        Some (True, (invalidateCEntryAgg (s\<lparr>st_head := None, st_entries := Some es, st_cacheEntries := True\<rparr>))
                      \<lparr>st_byteOffset := stackByteOffset es\<rparr>)))"

definition entriesForRead :: "gssScratch \<Rightarrow> glrStack \<Rightarrow> stackEntry list option" where
  "entriesForRead m s =
     (if st_entries s \<noteq> None then Some (flat s)
      else if st_head s = None then Some [] else materialize m (st_head s))"

definition stack_pushEntry :: "hasher \<Rightarrow> bool \<Rightarrow> stackEntry \<Rightarrow> glrStack \<times> gssScratch \<Rightarrow> (glrStack \<times> gssScratch) option" where
  "stack_pushEntry H sc entry sm =
     (let (s, m) = (invalidateCEntryAgg (fst sm), snd sm) in
      Option.bind (if st_head s \<noteq> None then gss_pushEntry H sc entry (st_head s, m) else Some (None, m)) (\<lambda>(h, m).
        let s = s\<lparr>st_head := h\<rparr>;
            s = (case st_entries s of
                   Some es \<Rightarrow> s\<lparr>st_entries := Some (es @ [entry])\<rparr>
                 | None \<Rightarrow> if h = None then s\<lparr>st_entries := Some [entry]\<rparr> else s) in
        Some (if stackEntryHasNode entry then s\<lparr>st_byteOffset := stackEntryNodeEndByte entry\<rparr> else s, m)))"

text \<open>
  The slice of the mirror after a truncation: a negative bound panics, a bound past its end copies
  the path.
\<close>

definition truncate_mirror :: "gssScratch \<Rightarrow> int \<Rightarrow> glrStack \<Rightarrow> glrStack option" where
  "truncate_mirror m depth s =
     (case st_entries s of
        None \<Rightarrow> Some s
      | Some es \<Rightarrow>
          if depth < 0 then None
          else if depth \<le> int (length es) then Some (s\<lparr>st_entries := Some (take (nat depth) es)\<rparr>)
          else map_option (\<lambda>es. s\<lparr>st_entries := Some es\<rparr>) (materialize m (st_head s)))"

definition truncateBeforePush :: "gssScratch \<Rightarrow> int \<Rightarrow> glrStack \<Rightarrow> (bool \<times> glrStack) option" where
  "truncateBeforePush m depth s =
     (if st_head s \<noteq> None then
        (case gss_truncate m depth (st_head s) of
           None \<Rightarrow> Some (False, s)
         | Some h \<Rightarrow> map_option (\<lambda>s. (True, invalidateCEntryAgg s)) (truncate_mirror m depth (s\<lparr>st_head := h\<rparr>)))
      else if depth < 0 \<or> depth > int (length (flat s)) then Some (False, s)
      else Some (True, invalidateCEntryAgg (s\<lparr>st_entries := map_option (take (nat depth)) (st_entries s)\<rparr>)))"

text \<open>Truncation proper also recomputes the byte offset.\<close>

definition stack_truncate :: "gssScratch \<Rightarrow> int \<Rightarrow> glrStack \<Rightarrow> (bool \<times> glrStack) option" where
  "stack_truncate m depth s =
     map_option (\<lambda>(b, s'). (b, if \<not> b then s'
        else s'\<lparr>st_byteOffset := (if st_head s \<noteq> None then gss_byteOffset m (st_head s') else stackByteOffset (flat s'))\<rparr>))
       (truncateBeforePush m depth s)"

definition mergeKeyForStack :: "gssScratch \<Rightarrow> glrStack \<Rightarrow> u32 \<times> u32" where
  "mergeKeyForStack m s = (if stack_depth m s = 0 then (0, 0) else (se_state (stack_top m s), st_byteOffset s))"

definition stackHash :: "hasher \<Rightarrow> glrStack \<times> gssScratch \<Rightarrow> u64 \<times> gssScratch" where
  "stackHash H sm =
     (let (s, m) = sm in
      if st_head s \<noteq> None then gssNodeHash H (st_head s) m
      else (if flat s = [] then 0 else foldl H gssHashSeed (flat s), m))"

text \<open>Dropping the mirrors of promoted stacks after a round.\<close>

definition clearParseStackEntryCaches :: "glrStack list \<Rightarrow> glrStack list" where
  "clearParseStackEntryCaches =
     map (\<lambda>s. let s = s\<lparr>st_cacheEntries := False\<rparr> in
              if st_head s \<noteq> None then invalidateCEntryAgg (s\<lparr>st_entries := None\<rparr>) else s)"

text \<open>
  Demotion of the only version after enough single-stack rounds, with the slabs recycled when no
  audit keeps node identities. \<open>pending\<close> says that forks wait to be added.
\<close>

definition recycleDemotedGSS :: "bool \<Rightarrow> glrStack list \<times> gssScratch \<Rightarrow> glrStack list \<times> gssScratch" where
  "recycleDemotedGSS pending sm =
     (let (stacks, m) = sm in
      case stacks of
        [s] \<Rightarrow> if st_head s \<noteq> None \<or> flat s = [] \<or> pending \<or> gc_usedTotal m = 0 then (stacks, m)
               else (stacks, recycleForParse m)
      | _ \<Rightarrow> (stacks, m))"

definition tryDemoteSingleLinearGSS :: "bool \<Rightarrow> bool \<Rightarrow> glrStack list \<times> gssScratch \<Rightarrow> (bool \<times> glrStack list \<times> gssScratch) option" where
  "tryDemoteSingleLinearGSS pending audit sm =
     (let (stacks, m) = sm in
      case stacks of
        [s] \<Rightarrow>
          if st_dead s \<or> pending \<or> st_head s = None then Some (False, stacks, m)
          else
            let threshold = max (gc_demoteThreshold m) gssDemotionHysteresisTokens;
                m = m\<lparr>gc_demoteStreak := gc_demoteStreak m + 1\<rparr> in
            if gc_demoteStreak m < threshold then Some (False, stacks, m)
            else
              let m = m\<lparr>gc_demoteStreak := 0, gc_demoteThreshold := 0\<rparr>; depth = stack_depth m s in
              Option.bind (demoteLinearGSS m s) (\<lambda>(ok, s).
                if \<not> ok then Some (False, [s], m)
                else
                  let m = m\<lparr>gc_demotions := gc_demotions m + 1, gc_nodesDemoted := gc_nodesDemoted m + of_nat depth\<rparr> in
                  Some (True, if audit then ([s], m) else recycleDemotedGSS pending ([s], m)))
      | _ \<Rightarrow> Some (False, stacks, m))"

section \<open>A version is a list\<close>

text \<open>
  A version holds the entries \<open>xs\<close>, the oldest first: as its slice while it is flat, as its path once
  it is promoted, and then also as its mirror when there is one. The byte offset is that of the newest
  entry with a payload.
\<close>

definition stack_ok :: "gssScratch \<Rightarrow> glrStack \<Rightarrow> stackEntry list \<Rightarrow> bool" where
  "stack_ok m s xs \<longleftrightarrow>
     (case st_head s of
        None \<Rightarrow> flat s = xs
      | Some a \<Rightarrow> spine m (rev xs) (Some a) \<and> (st_entries s = None \<or> st_entries s = Some xs))
     \<and> st_byteOffset s = stackByteOffset xs"

text \<open>What a scratch operation keeps: the memory is well formed, and older nodes are still there.\<close>

definition extends :: "hasher \<Rightarrow> gssScratch \<Rightarrow> gssScratch \<Rightarrow> bool" where
  "extends H m m' \<longleftrightarrow> mem_ok H m' \<and> grows m m' \<and> (gc_fresh m = [] \<longrightarrow> gc_fresh m' = [])"

lemma extends_refl: "mem_ok H m \<Longrightarrow> extends H m m"
  by (simp add: extends_def)

lemma mem_ok_cong: "node_at m' = node_at m \<Longrightarrow> mem_ok H m' = mem_ok H m"
proof -
  assume eq: "node_at m' = node_at m"
  have "spine m' es a = spine m es a" for es a by (induction es arbitrary: a) (auto simp: eq)
  then show ?thesis by (simp add: mem_ok_def eq)
qed

lemma grows_cong: "node_at m' = node_at m \<Longrightarrow> grows m m'"
  using grows_refl [of m] by (simp only: grows_def)

lemma stack_ok_grows: "stack_ok m s xs \<Longrightarrow> grows m m' \<Longrightarrow> stack_ok m' s xs"
  by (auto simp: stack_ok_def spine_grows split: option.splits)

lemma stack_ok_head: "stack_ok m s xs \<Longrightarrow> st_head s = Some a \<Longrightarrow> spine m (rev xs) (Some a)"
  by (simp add: stack_ok_def)

lemma stack_ok_flat: "stack_ok m s xs \<Longrightarrow> st_head s = None \<Longrightarrow> flat s = xs"
  by (simp add: stack_ok_def)

lemma stackByteOffset_snoc:
  "stackByteOffset (xs @ [e]) = (if stackEntryHasNode e then stackEntryNodeEndByte e else stackByteOffset xs)"
  by (simp add: stackByteOffset_def)

lemma stack_ok_new: "stack_ok m (newGLRStack q) [\<lparr>se_state = q, se_node = None\<rparr>]"
  by (simp add: stack_ok_def newGLRStack_def flat_def stackByteOffset_def stackEntryHasNode_def)

lemma ensureGSS_ok:
  assumes "mem_ok H m" "stack_ok m s xs" "length xs < 4294967296"
  shows "\<exists>s' m'. ensureGSS H True (s, m) = Some (s', m') \<and> extends H m m' \<and> stack_ok m' s' xs
                 \<and> (st_head s' = None \<longrightarrow> xs = [])"
proof (cases "st_head s \<noteq> None \<or> flat s = []")
  case True
  then show ?thesis using assms by (auto simp: ensureGSS_def extends_def stack_ok_def)
next
  case False
  then have xs: "flat s = xs" "st_entries s = Some xs" "xs \<noteq> []"
    using assms(2) by (auto simp: stack_ok_def flat_def split: option.splits)
  from buildGSSStack_spine [OF assms(1), of "[]" None xs True] assms(3) obtain h m1 where
    b: "buildGSSStack H True xs (None, m) = Some (h, m1)" "mem_ok H m1" "grows m m1" "spine m1 (rev xs) h"
      "gc_fresh m = [] \<longrightarrow> gc_fresh m1 = []" by auto
  obtain a where h: "h = Some a" using b(4) xs(3) by (cases "rev xs") auto
  let ?m = "m1\<lparr>gc_demoteStreak := 0, gc_demoteThreshold := max gssDemotionHysteresisTokens (of_nat (length xs))\<rparr>"
  have eq: "node_at ?m = node_at m1" by simp
  have g: "grows m1 ?m" by (rule grows_cong [OF eq])
  have "spine ?m (rev xs) (Some a)" using spine_grows [OF g] b(4) h by simp
  then have "stack_ok ?m (s\<lparr>st_head := Some a\<rparr>) xs" using assms(2) xs by (simp add: stack_ok_def)
  moreover have "extends H m ?m"
    using b mem_ok_cong [OF eq, of H] grows_trans [OF b(3) g] by (simp add: extends_def)
  ultimately show ?thesis using False b(1) xs h by (auto simp: ensureGSS_def)
qed

lemma cloneWithScratch_ok:
  assumes "mem_ok H m" "stack_ok m s xs" "length xs < 4294967296"
  shows "\<exists>s' c m'. cloneWithScratch H (s, m) = Some (s', c, m') \<and> extends H m m' \<and> stack_ok m' s' xs \<and> stack_ok m' c xs"
proof -
  from ensureGSS_ok [OF assms] obtain s' m' where
    "ensureGSS H True (s, m) = Some (s', m')" "extends H m m'" "stack_ok m' s' xs" "st_head s' = None \<longrightarrow> xs = []"
    by (elim exE conjE)
  moreover from this(3,4) have "stack_ok m' ((copied_fields s')\<lparr>st_entries := None, st_cacheEntries := False\<rparr>) xs"
    by (auto simp: stack_ok_def copied_fields_def flat_def split: option.splits)
  ultimately show ?thesis by (simp add: cloneWithScratch_def)
qed

lemma clone_ok:
  assumes "stack_ok m s xs"
  shows "\<exists>c. clone H (s, m) = Some (s, c, m) \<and> stack_ok m c xs"
  using assms
  by (auto simp: clone_def ensureGSS_def stack_ok_def copied_fields_def flat_def split: option.splits)

lemma stack_pushEntry_ok:
  assumes "mem_ok H m" "stack_ok m s xs" "Suc (length xs) < 4294967296"
  shows "\<exists>s' m'. stack_pushEntry H True e (s, m) = Some (s', m') \<and> extends H m m' \<and> stack_ok m' s' (xs @ [e])"
proof (cases "st_head s")
  case None
  define s' where "s' = (let s1 = s\<lparr>st_cEntryAggGen := 0, st_head := None, st_entries := Some (flat s @ [e])\<rparr> in
    if stackEntryHasNode e then s1\<lparr>st_byteOffset := stackEntryNodeEndByte e\<rparr> else s1)"
  have "stack_pushEntry H True e (s, m) = Some (s', m)"
    using None by (auto simp: stack_pushEntry_def s'_def invalidateCEntryAgg_def flat_def Let_def split: option.splits)
  moreover have "stack_ok m s' (xs @ [e])"
    using assms(2) None by (simp add: stack_ok_def s'_def flat_def stackByteOffset_snoc Let_def)
  ultimately show ?thesis using extends_refl [OF assms(1)] by blast
next
  case (Some a)
  from gss_pushEntry_spine [OF assms(1) stack_ok_head [OF assms(2) Some], of True e] assms(3) obtain b m1 where
    b: "gss_pushEntry H True e (Some a, m) = Some (Some b, m1)" "mem_ok H m1" "grows m m1" "spine m1 (e # rev xs) (Some b)"
      "gc_fresh m = [] \<longrightarrow> gc_fresh m1 = []" by auto
  define s' where "s' = (let s1 = s\<lparr>st_cEntryAggGen := 0, st_head := Some b, st_entries := map_option (\<lambda>es. es @ [e]) (st_entries s)\<rparr> in
    if stackEntryHasNode e then s1\<lparr>st_byteOffset := stackEntryNodeEndByte e\<rparr> else s1)"
  have "stack_pushEntry H True e (s, m) = Some (s', m1)"
    using Some b(1) by (auto simp: stack_pushEntry_def s'_def invalidateCEntryAgg_def Let_def split: option.splits)
  moreover have "stack_ok m1 s' (xs @ [e])"
    using assms(2) Some b(4) by (auto simp: stack_ok_def s'_def stackByteOffset_snoc Let_def simp del: spine.simps)
  ultimately show ?thesis using b by (auto simp: extends_def)
qed

text \<open>
  Truncation either fails and changes nothing, or leaves the oldest \<open>d\<close> entries; before a push the
  byte offset is left as it was.
\<close>

lemma truncateBeforePush_ok:
  assumes "stack_ok m s xs" "length xs < 4294967296"
  shows "if d \<le> length xs
         then \<exists>s'. truncateBeforePush m (int d) s = Some (True, s') \<and> stack_ok m (s'\<lparr>st_byteOffset := stackByteOffset (take d xs)\<rparr>) (take d xs)
         else truncateBeforePush m (int d) s = Some (False, s)"
proof (cases "st_head s")
  case None
  then show ?thesis
    using assms
    by (auto simp: truncateBeforePush_def stack_ok_def invalidateCEntryAgg_def flat_def split: option.splits)
next
  case (Some a)
  note tr = gss_truncate_spine [OF stack_ok_head [OF assms(1) Some], of d]
  show ?thesis
  proof (cases "d \<le> length xs")
    case True
    with tr assms(2) obtain h where h: "gss_truncate m (int d) (Some a) = Some h"
      "spine m (rev (take d xs)) h" by (auto simp: rev_take)
    have "flat s = [] \<or> st_entries s = Some xs" "st_entries s = None \<or> st_entries s = Some xs"
      using assms(1) Some by (auto simp: stack_ok_def flat_def)
    moreover have "h = None \<longrightarrow> take d xs = []" using h(2) by (cases "rev (take d xs)") auto
    ultimately show ?thesis
      using True h Some
      by (auto simp: truncateBeforePush_def truncate_mirror_def stack_ok_def invalidateCEntryAgg_def flat_def
               split: option.splits)
  next
    case False
    then show ?thesis using tr assms(2) Some by (simp add: truncateBeforePush_def)
  qed
qed

lemma stack_truncate_ok:
  assumes "stack_ok m s xs" "length xs < 4294967296"
  shows "if d \<le> length xs then \<exists>s'. stack_truncate m (int d) s = Some (True, s') \<and> stack_ok m s' (take d xs)
         else stack_truncate m (int d) s = Some (False, s)"
proof (cases "d \<le> length xs")
  case True
  with truncateBeforePush_ok [OF assms, of d] obtain s' where
    s': "truncateBeforePush m (int d) s = Some (True, s')"
      "stack_ok m (s'\<lparr>st_byteOffset := stackByteOffset (take d xs)\<rparr>) (take d xs)" by auto
  have off: "(if st_head s \<noteq> None then gss_byteOffset m (st_head s') else stackByteOffset (flat s')) = stackByteOffset (take d xs)"
  proof (cases "st_head s")
    case None
    then have "st_head s' = None" using s'(1) by (auto simp: truncateBeforePush_def invalidateCEntryAgg_def split: if_splits)
    then show ?thesis using s'(2) None by (simp add: stack_ok_def flat_def)
  next
    case (Some a)
    have "spine m (rev (take d xs)) (st_head s')"
    proof (cases "st_head s'")
      case None
      then have "gss_truncate m (int d) (Some a) = Some None"
        using s'(1) Some
        by (auto simp: truncateBeforePush_def truncate_mirror_def invalidateCEntryAgg_def split: option.splits if_splits)
      then show ?thesis
        using gss_truncate_spine [OF stack_ok_head [OF assms(1) Some], of d] True assms(2) None by (simp add: rev_take)
    qed (use s'(2) in \<open>simp add: stack_ok_def\<close>)
    then show ?thesis using Some by (simp add: gss_byteOffset_spine stackByteOffset_def)
  qed
  show ?thesis using True s' off by (simp add: stack_truncate_def)
next
  case False
  then show ?thesis using truncateBeforePush_ok [OF assms, of d] by (simp add: stack_truncate_def)
qed

text \<open>A reduction truncates and pushes a parent, whose end becomes the byte offset.\<close>

definition reduce_push :: "hasher \<Rightarrow> nat \<Rightarrow> stackEntry \<Rightarrow> glrStack \<times> gssScratch \<Rightarrow> (glrStack \<times> gssScratch) option" where
  "reduce_push H d e sm =
     Option.bind (truncateBeforePush (snd sm) (int d) (fst sm)) (\<lambda>(ok, s).
       if ok then stack_pushEntry H True e (s, snd sm) else Some (s, snd sm))"

lemma pushEntry_ignores_offset:
  assumes "stackEntryHasNode e"
  shows "stack_pushEntry H sc e (s\<lparr>st_byteOffset := b\<rparr>, m) = stack_pushEntry H sc e (s, m)"
  using assms
  by (cases "st_entries s"; cases "gss_pushEntry H sc e (st_head s, m)")
     (auto simp: stack_pushEntry_def invalidateCEntryAgg_def Let_def)

lemma reduce_push_ok:
  assumes "mem_ok H m" "stack_ok m s xs" "Suc (length xs) < 4294967296" "stackEntryHasNode e"
  shows "\<exists>s' m'. reduce_push H d e (s, m) = Some (s', m') \<and> extends H m m'
                 \<and> stack_ok m' s' (if d \<le> length xs then take d xs @ [e] else xs)"
proof (cases "d \<le> length xs")
  case True
  with truncateBeforePush_ok [OF assms(2), of d] assms(3) obtain s1 where
    s1: "truncateBeforePush m (int d) s = Some (True, s1)"
      "stack_ok m (s1\<lparr>st_byteOffset := stackByteOffset (take d xs)\<rparr>) (take d xs)" by auto
  have "Suc (length (take d xs)) < 4294967296" using assms(3) by simp
  from stack_pushEntry_ok [OF assms(1) s1(2) this, of e] show ?thesis
    using True s1(1) by (simp add: reduce_push_def pushEntry_ignores_offset [OF assms(4)])
next
  case False
  then show ?thesis
    using truncateBeforePush_ok [OF assms(2), of d] assms extends_refl by (auto simp: reduce_push_def)
qed

lemma ensureEntries_ok:
  assumes "stack_ok m s xs"
  shows "\<exists>r s'. ensureEntries m s = Some (r, s') \<and> stack_ok m s' xs"
proof (cases "st_head s")
  case None
  then show ?thesis using assms by (auto simp: ensureEntries_def)
next
  case (Some a)
  show ?thesis
    using assms Some materialize_spine [OF stack_ok_head [OF assms Some]]
    by (auto simp: ensureEntries_def stack_ok_def invalidateCEntryAgg_def)
qed

lemma demoteLinearGSS_ok:
  assumes "stack_ok m s xs"
  shows "\<exists>ok s'. demoteLinearGSS m s = Some (ok, s') \<and> stack_ok m s' xs \<and> (ok \<longrightarrow> st_head s' = None \<and> flat s' = xs)"
proof (cases "st_head s")
  case None
  then show ?thesis using assms by (auto simp: demoteLinearGSS_def)
next
  case (Some a)
  show ?thesis
    using assms Some materialize_spine [OF stack_ok_head [OF assms Some]]
    by (auto simp: demoteLinearGSS_def stack_ok_def invalidateCEntryAgg_def flat_def)
qed

lemma stackHash_ok:
  assumes "mem_ok H m" "stack_ok m s xs"
  shows "\<exists>m'. stackHash H (s, m) =
           (if st_head s \<noteq> None then ent_hash H (rev xs) else if xs = [] then 0 else foldl H gssHashSeed xs, m')
         \<and> extends H m m'"
proof (cases "st_head s")
  case None
  then show ?thesis
    using stack_ok_flat [OF assms(2)] extends_refl [OF assms(1)] by (auto simp: stackHash_def)
next
  case (Some a)
  show ?thesis
    using gssNodeHash_memo [OF assms(1) stack_ok_head [OF assms(2) Some]] Some by (auto simp: stackHash_def extends_def)
qed

lemma clear_cache_ok:
  "stack_ok m s xs \<Longrightarrow>
   stack_ok m (let s = s\<lparr>st_cacheEntries := False\<rparr> in if st_head s \<noteq> None then invalidateCEntryAgg (s\<lparr>st_entries := None\<rparr>) else s) xs"
  by (auto simp: stack_ok_def invalidateCEntryAgg_def flat_def Let_def split: option.splits)

text \<open>What a reader of a version sees.\<close>

definition reads_as :: "gssScratch \<Rightarrow> glrStack \<Rightarrow> stackEntry list \<Rightarrow> bool" where
  "reads_as m s xs \<longleftrightarrow>
     stack_depth m s = length xs \<and> stack_top m s = (if xs = [] then zero_entry else last xs)
     \<and> entriesForRead m s = Some xs \<and> st_byteOffset s = stackByteOffset xs"

lemma stack_ok_reads:
  assumes "stack_ok m s xs"
  shows "reads_as m s xs"
proof (cases "st_head s")
  case None
  then show ?thesis using assms by (auto simp: reads_as_def stack_ok_def stack_depth_def stack_top_def entriesForRead_def flat_def split: option.splits)
next
  case (Some a)
  note sp = stack_ok_head [OF assms Some]
  have ne: "xs \<noteq> []" using sp by auto
  have "stack_top m s = last xs"
    using sp Some ne by (cases xs rule: rev_cases) (auto simp: stack_top_def gss_top_def)
  then show ?thesis
    using assms Some ne depth_of_spine [OF sp] materialize_spine [OF sp]
    by (auto simp: reads_as_def stack_ok_def stack_depth_def entriesForRead_def flat_def)
qed

section \<open>Versions side by side\<close>

text \<open>
  The operations of a parse on its versions, named by their index; an index out of range does nothing.
  A reduction pushes a payload.
\<close>

datatype stackOp =
    OpPush nat stackEntry
  | OpTruncate nat nat
  | OpReduce nat nat u32 stackPayload
  | OpFork nat
  | OpClone nat
  | OpPromote nat
  | OpMirror nat
  | OpHash nat
  | OpRemove nat
  | OpClearCaches
  | OpMode bool
  | OpDemote bool bool

type_synonym versions = "glrStack list \<times> gssScratch"

definition on_version :: "nat \<Rightarrow> (glrStack \<times> gssScratch \<Rightarrow> (glrStack \<times> gssScratch) option) \<Rightarrow> versions \<Rightarrow> versions option" where
  "on_version i f v =
     (let (ss, m) = v in
      if i < length ss then map_option (\<lambda>(s, m). (ss[i := s], m)) (f (ss ! i, m)) else Some v)"

definition copy_version :: "nat \<Rightarrow> (glrStack \<times> gssScratch \<Rightarrow> (glrStack \<times> glrStack \<times> gssScratch) option) \<Rightarrow> versions \<Rightarrow> versions option" where
  "copy_version i f v =
     (let (ss, m) = v in
      if i < length ss then map_option (\<lambda>(s, c, m). (ss[i := s] @ [c], m)) (f (ss ! i, m)) else Some v)"

definition remove_nth :: "nat \<Rightarrow> 'a list \<Rightarrow> 'a list" where
  "remove_nth i xs = take i xs @ drop (Suc i) xs"

fun version_step :: "hasher \<Rightarrow> stackOp \<Rightarrow> versions \<Rightarrow> versions option" where
  "version_step H (OpPush i e) v = on_version i (stack_pushEntry H True e) v"
| "version_step H (OpTruncate i d) v = on_version i (\<lambda>(s, m). map_option (\<lambda>(ok, s). (s, m)) (stack_truncate m (int d) s)) v"
| "version_step H (OpReduce i d q n) v = on_version i (reduce_push H d \<lparr>se_state = q, se_node = Some n\<rparr>) v"
| "version_step H (OpFork i) v = copy_version i (cloneWithScratch H) v"
| "version_step H (OpClone i) v = copy_version i (clone H) v"
| "version_step H (OpPromote i) v = on_version i (ensureGSS H True) v"
| "version_step H (OpMirror i) v = on_version i (\<lambda>(s, m). map_option (\<lambda>(es, s). (s, m)) (ensureEntries m s)) v"
| "version_step H (OpHash i) v = on_version i (\<lambda>(s, m). Some (s, snd (stackHash H (s, m)))) v"
| "version_step H (OpRemove i) v = Some (remove_nth i (fst v), snd v)"
| "version_step H OpClearCaches v = Some (clearParseStackEntryCaches (fst v), snd v)"
| "version_step H (OpMode b) v = Some (fst v, setSingleStackMode b (snd v))"
| "version_step H (OpDemote pending audit) v = map_option snd (tryDemoteSingleLinearGSS pending audit v)"

text \<open>The specification: independent lists.\<close>

definition on_list :: "nat \<Rightarrow> ('a \<Rightarrow> 'a) \<Rightarrow> 'a list \<Rightarrow> 'a list" where
  "on_list i f xs = (if i < length xs then xs[i := f (xs ! i)] else xs)"

fun list_step :: "stackOp \<Rightarrow> stackEntry list list \<Rightarrow> stackEntry list list" where
  "list_step (OpPush i e) xss = on_list i (\<lambda>xs. xs @ [e]) xss"
| "list_step (OpTruncate i d) xss = on_list i (\<lambda>xs. if d \<le> length xs then take d xs else xs) xss"
| "list_step (OpReduce i d q n) xss =
     on_list i (\<lambda>xs. if d \<le> length xs then take d xs @ [\<lparr>se_state = q, se_node = Some n\<rparr>] else xs) xss"
| "list_step (OpFork i) xss = (if i < length xss then xss @ [xss ! i] else xss)"
| "list_step (OpClone i) xss = (if i < length xss then xss @ [xss ! i] else xss)"
| "list_step (OpRemove i) xss = remove_nth i xss"
| "list_step _ xss = xss"

primrec run_ops :: "('op \<Rightarrow> 's \<Rightarrow> 's option) \<Rightarrow> 'op list \<Rightarrow> 's \<Rightarrow> 's option" where
  "run_ops step [] s = Some s"
| "run_ops step (x # xs) s = Option.bind (step x s) (run_ops step xs)"

text \<open>
  A simulation whose steps succeed while a bound on the abstract state holds, and raise that bound by
  at most one: a run shorter than the room left succeeds and ends in a related state.
\<close>

locale bounded_simulation =
  fixes step :: "'op \<Rightarrow> 's \<Rightarrow> 's option"
    and spec :: "'op \<Rightarrow> 'a \<Rightarrow> 'a"
    and rel :: "'s \<Rightarrow> 'a \<Rightarrow> bool"
    and within :: "nat \<Rightarrow> 'a \<Rightarrow> bool"
    and room :: nat
  assumes step_sim: "rel s a \<Longrightarrow> within k a \<Longrightarrow> k < room \<Longrightarrow> \<exists>s'. step x s = Some s' \<and> rel s' (spec x a)"
    and step_within: "within k a \<Longrightarrow> within (Suc k) (spec x a)"
begin

lemma run_sim:
  assumes "rel s a" "within k a" "k + length xs \<le> room"
  shows "\<exists>s'. run_ops step xs s = Some s' \<and> rel s' (fold spec xs a)"
  using assms
proof (induction xs arbitrary: s a k)
  case (Cons x xs)
  then have "k < room" by simp
  from step_sim [OF Cons.prems(1,2) this, of x] obtain s' where s': "step x s = Some s'" "rel s' (spec x a)" by blast
  from Cons.IH [OF s'(2) step_within [OF Cons.prems(2)]] Cons.prems(3) s'(1) show ?case by simp
qed simp

end

definition versions_ok :: "hasher \<Rightarrow> versions \<Rightarrow> stackEntry list list \<Rightarrow> bool" where
  "versions_ok H v xss \<longleftrightarrow> mem_ok H (snd v) \<and> gc_fresh (snd v) = [] \<and> list_all2 (stack_ok (snd v)) (fst v) xss"

definition short_lists :: "nat \<Rightarrow> stackEntry list list \<Rightarrow> bool" where
  "short_lists k xss \<longleftrightarrow> list_all (\<lambda>xs. length xs \<le> k) xss"

lemma versions_extend:
  assumes "versions_ok H (ss, m) xss" "extends H m m'"
  shows "list_all2 (stack_ok m') ss xss" "mem_ok H m'" "gc_fresh m' = []"
proof -
  show "list_all2 (stack_ok m') ss xss"
    using assms stack_ok_grows unfolding versions_ok_def extends_def by (auto elim!: list_all2_mono)
  show "mem_ok H m'" "gc_fresh m' = []" using assms unfolding versions_ok_def extends_def by auto
qed

lemma on_version_sim:
  assumes ok: "versions_ok H (ss, m) xss" and short: "short_lists k xss"
    and f: "\<And>s xs. stack_ok m s xs \<Longrightarrow> length xs \<le> k \<Longrightarrow>
              \<exists>s' m'. f (s, m) = Some (s', m') \<and> extends H m m' \<and> stack_ok m' s' (g xs)"
  shows "\<exists>v'. on_version i f (ss, m) = Some v' \<and> versions_ok H v' (on_list i g xss)"
proof (cases "i < length ss")
  case True
  have len: "length ss = length xss" using ok by (auto simp: versions_ok_def list_all2_lengthD)
  have "stack_ok m (ss ! i) (xss ! i)" using ok True by (auto simp: versions_ok_def list_all2_nthD)
  moreover have "length (xss ! i) \<le> k" using short True len by (simp add: short_lists_def list_all_length)
  ultimately obtain s' m' where s': "f (ss ! i, m) = Some (s', m')" "extends H m m'" "stack_ok m' s' (g (xss ! i))"
    using f by blast
  note ext = versions_extend [OF ok s'(2)]
  have "list_all2 (stack_ok m') (ss[i := s']) (xss[i := g (xss ! i)])"
    by (rule list_all2_update_cong [OF ext(1) s'(3)])
  then show ?thesis using True len s'(1) ext(2,3) by (simp add: on_version_def on_list_def versions_ok_def)
next
  case False
  then show ?thesis
    using ok by (auto simp: on_version_def on_list_def versions_ok_def dest: list_all2_lengthD)
qed

lemma copy_version_sim:
  assumes ok: "versions_ok H (ss, m) xss" and short: "short_lists k xss"
    and f: "\<And>s xs. stack_ok m s xs \<Longrightarrow> length xs \<le> k \<Longrightarrow>
              \<exists>s' c m'. f (s, m) = Some (s', c, m') \<and> extends H m m' \<and> stack_ok m' s' xs \<and> stack_ok m' c xs"
  shows "\<exists>v'. copy_version i f (ss, m) = Some v' \<and> versions_ok H v' (if i < length xss then xss @ [xss ! i] else xss)"
proof (cases "i < length ss")
  case True
  have len: "length ss = length xss" using ok by (auto simp: versions_ok_def list_all2_lengthD)
  have "stack_ok m (ss ! i) (xss ! i)" using ok True by (auto simp: versions_ok_def list_all2_nthD)
  moreover have "length (xss ! i) \<le> k" using short True len by (simp add: short_lists_def list_all_length)
  ultimately obtain s' c m' where s': "f (ss ! i, m) = Some (s', c, m')" "extends H m m'" "stack_ok m' s' (xss ! i)"
    "stack_ok m' c (xss ! i)" using f by blast
  note ext = versions_extend [OF ok s'(2)]
  have "list_all2 (stack_ok m') (ss[i := s']) (xss[i := xss ! i])"
    by (rule list_all2_update_cong [OF ext(1) s'(3)])
  then have "list_all2 (stack_ok m') (ss[i := s'] @ [c]) (xss @ [xss ! i])"
    using s'(4) by (simp add: list_all2_appendI)
  then show ?thesis using True len s'(1) ext(2,3) by (simp add: copy_version_def versions_ok_def)
next
  case False
  then show ?thesis
    using ok by (auto simp: copy_version_def versions_ok_def dest: list_all2_lengthD)
qed

text \<open>Recycling empties the memory, which is safe when the only version is flat.\<close>

lemma node_at_recycled: "gc_usedTotal m \<noteq> 0 \<Longrightarrow> gc_fresh m = [] \<Longrightarrow> node_at (recycleForParse m) a = None"
  by (auto simp: recycleForParse_def node_at_def split: gssAddr.splits)

lemma recycleDemotedGSS_ok:
  assumes "mem_ok H m" "gc_fresh m = []" "stack_ok m s xs"
  shows "versions_ok H (recycleDemotedGSS pending ([s], m)) [xs]"
proof (cases "st_head s \<noteq> None \<or> flat s = [] \<or> pending \<or> gc_usedTotal m = 0")
  case True
  then show ?thesis using assms by (auto simp: recycleDemotedGSS_def versions_ok_def)
next
  case False
  then have "mem_ok H (recycleForParse m)" using assms(2) by (simp add: mem_ok_def node_at_recycled)
  moreover have "gc_fresh (recycleForParse m) = []" using assms(2) by (simp add: recycleForParse_def)
  moreover have "stack_ok (recycleForParse m) s xs" using assms(3) False by (simp add: stack_ok_def)
  ultimately show ?thesis using False by (auto simp: recycleDemotedGSS_def versions_ok_def)
qed

lemma stack_ok_cong: "node_at m' = node_at m \<Longrightarrow> stack_ok m s xs \<Longrightarrow> stack_ok m' s xs"
  by (rule stack_ok_grows) (auto intro: grows_cong)

lemma tryDemote_ok:
  assumes "versions_ok H (ss, m) xss"
  shows "\<exists>b v'. tryDemoteSingleLinearGSS pending audit (ss, m) = Some (b, v') \<and> versions_ok H v' xss"
proof (cases "length ss = 1 \<and> \<not> (st_dead (hd ss) \<or> pending \<or> st_head (hd ss) = None)")
  case False
  then show ?thesis
    using assms by (cases ss; cases "tl ss") (auto simp: tryDemoteSingleLinearGSS_def)
next
  case True
  then obtain s where ss: "ss = [s]" by (cases ss) auto
  then obtain xs where xs: "xss = [xs]" and s: "stack_ok m s xs"
    using assms by (auto simp: versions_ok_def list_all2_Cons1)
  from True ss obtain a where live: "\<not> st_dead s" "\<not> pending" "st_head s = Some a" by auto
  note mem = assms [unfolded versions_ok_def, simplified]
  let ?m1 = "m\<lparr>gc_demoteStreak := gc_demoteStreak m + 1\<rparr>"
  let ?m2 = "?m1\<lparr>gc_demoteStreak := 0, gc_demoteThreshold := 0\<rparr>"
  have node: "node_at ?m1 = node_at m" "node_at ?m2 = node_at m" by simp_all
  have s2: "stack_ok ?m2 s xs" by (rule stack_ok_cong [OF node(2) s])
  from demoteLinearGSS_ok [OF s2] obtain ok s' where
    d: "demoteLinearGSS ?m2 s = Some (ok, s')" "stack_ok ?m2 s' xs" by blast
  let ?m3 = "?m2\<lparr>gc_demotions := gc_demotions ?m2 + 1, gc_nodesDemoted := gc_nodesDemoted ?m2 + of_nat (stack_depth ?m2 s)\<rparr>"
  have node3: "node_at ?m3 = node_at ?m2" by simp
  have s3: "stack_ok ?m3 s' xs" by (rule stack_ok_cong [OF node3 d(2)])
  have ok1: "mem_ok H ?m1" and ok2: "mem_ok H ?m2" using mem mem_ok_cong [OF node(1)] mem_ok_cong [OF node(2)] by auto
  have ok3: "mem_ok H ?m3" using ok2 mem_ok_cong [OF node3] by simp
  have v1: "versions_ok H (ss, ?m1) xss" using ok1 mem stack_ok_cong [OF node(1) s] by (simp add: versions_ok_def ss xs)
  have v2: "versions_ok H ([s'], ?m2) xss" using ok2 mem d(2) by (simp add: versions_ok_def xs)
  have v3: "versions_ok H ([s'], ?m3) xss" using ok3 mem s3 by (simp add: versions_ok_def xs)
  have v4: "versions_ok H (recycleDemotedGSS pending ([s'], ?m3)) xss"
    unfolding xs by (rule recycleDemotedGSS_ok [OF ok3 _ s3]) (use mem in simp)
  have "tryDemoteSingleLinearGSS pending audit (ss, m) =
    (if gc_demoteStreak ?m1 < max (gc_demoteThreshold m) gssDemotionHysteresisTokens then Some (False, ss, ?m1)
     else if \<not> ok then Some (False, [s'], ?m2)
     else Some (True, if audit then ([s'], ?m3) else recycleDemotedGSS pending ([s'], ?m3)))"
    unfolding tryDemoteSingleLinearGSS_def ss using live d(1) by (simp add: Let_def)
  then show ?thesis using v1 v2 v3 v4 by (auto simp del: split_paired_Ex)
qed

lemma remove_nth_sim: "list_all2 P xs ys \<Longrightarrow> list_all2 P (remove_nth i xs) (remove_nth i ys)"
  unfolding remove_nth_def by (intro list_all2_appendI list_all2_takeI list_all2_dropI)

lemma on_list_id: "on_list i (\<lambda>x. x) xs = xs"
  by (simp add: on_list_def)

lemma version_step_sim:
  assumes "versions_ok H v xss" "short_lists k xss" "k < 4294967295"
  shows "\<exists>v'. version_step H x v = Some v' \<and> versions_ok H v' (list_step x xss)"
proof -
  obtain ss m where v: "v = (ss, m)" by fastforce
  note ok = assms(1) [unfolded v]
  note on = on_version_sim [OF ok assms(2)] and copy = copy_version_sim [OF ok assms(2)]
  have mem: "mem_ok H m" using ok by (simp add: versions_ok_def)
  show ?thesis
  proof (cases x)
    case (OpPush i e)
    then show ?thesis
      using on [of "stack_pushEntry H True e" "\<lambda>xs. xs @ [e]" i] stack_pushEntry_ok [OF mem] assms(3) by (simp add: v)
  next
    case (OpTruncate i d)
    let ?f = "\<lambda>(s, m). map_option (\<lambda>(ok, s). (s, m)) (stack_truncate m (int d) s)"
    let ?g = "\<lambda>xs. if d \<le> length xs then take d xs else xs"
    have "\<exists>s' m'. ?f (s, m) = Some (s', m') \<and> extends H m m' \<and> stack_ok m' s' (?g xs)"
      if "stack_ok m s xs" "length xs \<le> k" for s xs
      using stack_truncate_ok [OF that(1), of d] that(1,2) assms(3) extends_refl [OF mem] by (cases "d \<le> length xs") auto
    then have "\<exists>v'. on_version i ?f (ss, m) = Some v' \<and> versions_ok H v' (on_list i ?g xss)" by (rule on)
    then show ?thesis using OpTruncate by (simp add: v)
  next
    case (OpReduce i d q n)
    have "stackEntryHasNode \<lparr>se_state = q, se_node = Some n\<rparr>" by (simp add: stackEntryHasNode_def)
    then show ?thesis
      using on [of "reduce_push H d \<lparr>se_state = q, se_node = Some n\<rparr>"
          "\<lambda>xs. if d \<le> length xs then take d xs @ [\<lparr>se_state = q, se_node = Some n\<rparr>] else xs" i]
        reduce_push_ok [OF mem] assms(3) OpReduce by (simp add: v)
  next
    case (OpFork i)
    then show ?thesis using copy [of "cloneWithScratch H" i] cloneWithScratch_ok [OF mem] assms(3) by (simp add: v)
  next
    case (OpClone i)
    have "\<exists>s' c m'. clone H (s, m) = Some (s', c, m') \<and> extends H m m' \<and> stack_ok m' s' xs \<and> stack_ok m' c xs"
      if "stack_ok m s xs" for s xs
      using clone_ok [OF that, of H] extends_refl [OF mem] that by blast
    then have "\<exists>v'. copy_version i (clone H) (ss, m) = Some v' \<and> versions_ok H v' (if i < length xss then xss @ [xss ! i] else xss)"
      by (rule copy)
    then show ?thesis using OpClone by (simp add: v)
  next
    case (OpPromote i)
    let ?f = "ensureGSS H True"
    have "\<exists>s' m'. ?f (s, m) = Some (s', m') \<and> extends H m m' \<and> stack_ok m' s' xs"
      if "stack_ok m s xs" "length xs \<le> k" for s xs
      using ensureGSS_ok [OF mem that(1)] that(2) assms(3) by fastforce
    then have "\<exists>v'. on_version i ?f (ss, m) = Some v' \<and> versions_ok H v' (on_list i (\<lambda>x. x) xss)" by (rule on)
    then show ?thesis using OpPromote by (simp add: v on_list_id)
  next
    case (OpMirror i)
    let ?f = "\<lambda>(s, m). map_option (\<lambda>(es, s). (s, m)) (ensureEntries m s)"
    have "\<exists>s' m'. ?f (s, m) = Some (s', m') \<and> extends H m m' \<and> stack_ok m' s' xs"
      if "stack_ok m s xs" "length xs \<le> k" for s xs
      using ensureEntries_ok [OF that(1)] extends_refl [OF mem] by fastforce
    then have "\<exists>v'. on_version i ?f (ss, m) = Some v' \<and> versions_ok H v' (on_list i (\<lambda>x. x) xss)" by (rule on)
    then show ?thesis using OpMirror by (simp add: v on_list_id)
  next
    case (OpHash i)
    let ?f = "\<lambda>(s, m). Some (s, snd (stackHash H (s, m)))"
    have "\<exists>s' m'. ?f (s, m) = Some (s', m') \<and> extends H m m' \<and> stack_ok m' s' xs"
      if "stack_ok m s xs" "length xs \<le> k" for s xs
      using stackHash_ok [OF mem that(1)] stack_ok_grows [OF that(1)] by (auto simp: extends_def)
    then have "\<exists>v'. on_version i ?f (ss, m) = Some v' \<and> versions_ok H v' (on_list i (\<lambda>x. x) xss)" by (rule on)
    then show ?thesis using OpHash by (simp add: v on_list_id)
  next
    case (OpRemove i)
    then show ?thesis using ok remove_nth_sim by (auto simp: v versions_ok_def)
  next
    case OpClearCaches
    have "list_all2 (stack_ok m) (clearParseStackEntryCaches ss) xss"
      using ok clear_cache_ok
      by (auto simp: versions_ok_def clearParseStackEntryCaches_def list_all2_map1 elim!: list_all2_mono)
    then show ?thesis using OpClearCaches ok by (simp add: v versions_ok_def)
  next
    case (OpMode b)
    have node: "node_at (setSingleStackMode b m) = node_at m" by simp
    have "list_all2 (stack_ok (setSingleStackMode b m)) ss xss"
      using ok stack_ok_cong [OF node] by (auto simp: versions_ok_def elim!: list_all2_mono)
    moreover have "gc_fresh (setSingleStackMode b m) = []" using ok by (simp add: versions_ok_def setSingleStackMode_def)
    ultimately show ?thesis using OpMode mem mem_ok_cong [OF node, of H] by (simp add: v versions_ok_def)
  next
    case (OpDemote pending audit)
    from tryDemote_ok [OF ok, of pending audit] show ?thesis using OpDemote by (auto simp: v)
  qed
qed

definition newGSSScratch :: "nat \<Rightarrow> gssScratch" where
  "newGSSScratch initialCap =
     \<lparr>gc_slabs = [], gc_slabCursor = 0, gc_initialCap = initialCap, gc_usedTotal = 0, gc_peakUsed = 0,
      gc_allocatedBytes = 0, gc_singleStackMode = False, gc_singleStackAllocs = 0, gc_multiStackAllocs = 0,
      gc_everForked = False, gc_demotions = 0, gc_nodesDemoted = 0, gc_demoteStreak = 0,
      gc_demoteThreshold = 0, gc_fresh = []\<rparr>"

definition parse_start :: "u32 \<Rightarrow> nat \<Rightarrow> versions" where
  "parse_start q initialCap = ([newGLRStack q], newGSSScratch initialCap)"

lemma on_list_short:
  assumes "short_lists k xss" "\<And>xs. length xs \<le> k \<Longrightarrow> length (g xs) \<le> Suc k"
  shows "short_lists (Suc k) (on_list i g xss)"
proof -
  have "set (on_list i g xss) \<subseteq> set xss \<union> g ` set xss"
    by (auto simp: on_list_def dest!: set_update_subset_insert [THEN subsetD])
  then show ?thesis using assms unfolding short_lists_def list_all_iff by (fastforce intro: le_SucI)
qed

lemma short_lists_mono: "short_lists k xss \<Longrightarrow> set yss \<subseteq> set xss \<Longrightarrow> short_lists (Suc k) yss"
  by (auto simp: short_lists_def list_all_iff le_SucI)

lemma set_remove_nth: "set (remove_nth i xs) \<subseteq> set xs"
  by (auto simp: remove_nth_def dest: in_set_takeD in_set_dropD)

lemma list_step_short:
  assumes "short_lists k xss"
  shows "short_lists (Suc k) (list_step x xss)"
proof (cases x)
  case (OpPush i e)
  then show ?thesis by (auto intro!: on_list_short [OF assms])
next
  case (OpTruncate i d)
  then show ?thesis by (auto intro!: on_list_short [OF assms])
next
  case (OpReduce i d q n)
  then show ?thesis by (auto intro!: on_list_short [OF assms])
qed (auto intro!: short_lists_mono [OF assms] dest: set_remove_nth [THEN subsetD])

interpretation glr: bounded_simulation "version_step H" list_step "versions_ok H" short_lists 4294967295
proof unfold_locales
  show "\<exists>s'. version_step H x s = Some s' \<and> versions_ok H s' (list_step x a)"
    if "versions_ok H s a" "short_lists k a" "k < 4294967295" for s a k x
    using that by (rule version_step_sim)
  show "short_lists (Suc k) (list_step x a)" if "short_lists k a" for k a x
    using that by (rule list_step_short)
qed

definition start_lists :: "u32 \<Rightarrow> stackEntry list list" where
  "start_lists q = [[\<lparr>se_state = q, se_node = None\<rparr>]]"

lemma reachable_ok:
  assumes "length ops < 4294967295"
  shows "\<exists>v. run_ops (version_step H) ops (parse_start q c) = Some v \<and> versions_ok H v (fold list_step ops (start_lists q))"
proof (rule glr.run_sim)
  show "versions_ok H (parse_start q c) (start_lists q)"
    using stack_ok_new by (auto simp: versions_ok_def parse_start_def start_lists_def newGSSScratch_def mem_ok_def node_at_def split: gssAddr.splits)
  show "short_lists 1 (start_lists q)" by (simp add: short_lists_def start_lists_def)
  show "1 + length ops \<le> 4294967295" using assms by simp
qed

text \<open>
  C2. Every version of a GLR parse is a list of its own. From a new stack, any sequence of pushes,
  truncations, reductions, forks, copies, promotions, mirrors, hashes, removals, cache drops, mode
  changes and demotions with slab recycling that is shorter than the depth limit of a node succeeds
  without a panic, and then the depth, the top entry, the entries read and the byte offset of each
  version are those of the list that the same operations leave when every version is an independent
  list.
\<close>

theorem glr_versions_are_lists:
  assumes "length ops < 4294967295"
  shows "\<exists>ss m. run_ops (version_step H) ops (parse_start q c) = Some (ss, m)
           \<and> list_all2 (reads_as m) ss (fold list_step ops (start_lists q))"
proof -
  from reachable_ok [OF assms, of H q c] obtain v where
    v: "run_ops (version_step H) ops (parse_start q c) = Some v" "versions_ok H v (fold list_step ops (start_lists q))" by blast
  have "list_all2 (reads_as (snd v)) (fst v) (fold list_step ops (start_lists q))"
    using v(2) stack_ok_reads by (auto simp: versions_ok_def elim!: list_all2_mono)
  then show ?thesis using v(1) by (cases v) auto
qed

definition sample_entry :: "u32 \<Rightarrow> u32 \<Rightarrow> stackEntry" where
  "sample_entry q b = \<lparr>se_state = q, se_node = Some \<lparr>np_id = 0, np_endByte = b, np_isExtra = False\<rparr>\<rparr>"

definition sample_ops :: "stackOp list" where
  "sample_ops =
     [OpPush 0 (sample_entry 2 3), OpFork 0, OpPush 0 (sample_entry 4 5),
      OpReduce 1 1 7 \<lparr>np_id = 1, np_endByte = 3, np_isExtra = False\<rparr>, OpHash 0, OpRemove 0]"

theorem glr_versions_are_lists_witness:
  "length sample_ops < 4294967295
   \<and> (\<exists>ss m. run_ops (version_step (\<lambda>h e. h + 1)) sample_ops (parse_start 1 0) = Some (ss, m)
        \<and> list_all2 (reads_as m) ss
            [[\<lparr>se_state = 1, se_node = None\<rparr>, \<lparr>se_state = 7, se_node = Some \<lparr>np_id = 1, np_endByte = 3, np_isExtra = False\<rparr>\<rparr>]])"
proof -
  have l: "length sample_ops < 4294967295" by (simp add: sample_ops_def)
  have "fold list_step sample_ops (start_lists 1) =
      [[\<lparr>se_state = 1, se_node = None\<rparr>, \<lparr>se_state = 7, se_node = Some \<lparr>np_id = 1, np_endByte = 3, np_isExtra = False\<rparr>\<rparr>]]"
    by (simp add: sample_ops_def start_lists_def sample_entry_def on_list_def remove_nth_def)
  with glr_versions_are_lists [OF l, of "\<lambda>h e. h + 1" 1 0] l show ?thesis by simp
qed

text \<open>The flat hash and the path hash agree while no prefix hashes to zero.\<close>

definition nonzero_prefixes :: "hasher \<Rightarrow> stackEntry list \<Rightarrow> bool" where
  "nonzero_prefixes H xs \<longleftrightarrow> list_all (\<lambda>k. foldl H gssHashSeed (take (Suc k) xs) \<noteq> 0) [0..<length xs]"

lemma ent_hash_foldl: "nonzero_prefixes H xs \<Longrightarrow> ent_hash H (rev xs) = foldl H gssHashSeed xs"
proof (induction xs rule: rev_induct)
  case (snoc x xs)
  have "nonzero_prefixes H xs" using snoc.prems by (simp add: nonzero_prefixes_def list_all_iff)
  moreover have "foldl H gssHashSeed (xs @ [x]) \<noteq> 0" using snoc.prems by (simp add: nonzero_prefixes_def)
  ultimately show ?case using snoc.IH by (simp add: nonzero_def)
qed simp

text \<open>
  The stack hash does not depend on the representation. In every state a parse reaches, two
  versions that read as the same entries have the same hash, whether they are flat or promoted and
  whichever hashes are memoised, as long as no prefix of the entries hashes to zero (the value that
  marks a node without a hash).
\<close>

theorem glr_hash_representation_free:
  assumes "run_ops (version_step H) ops (parse_start q c) = Some (ss, m)" "length ops < 4294967295"
    "i < length ss" "j < length ss"
    "entriesForRead m (ss ! i) = Some xs" "entriesForRead m (ss ! j) = Some xs" "nonzero_prefixes H xs"
  shows "fst (stackHash H (ss ! i, m)) = fst (stackHash H (ss ! j, m))"
proof -
  have ok: "versions_ok H (ss, m) (fold list_step ops (start_lists q))" using reachable_ok [OF assms(2), of H q c] assms(1) by simp
  have hash: "fst (stackHash H (s, m)) = (if xs = [] then 0 else foldl H gssHashSeed xs)"
    if s: "s \<in> set ss" "entriesForRead m s = Some xs" for s
  proof -
    from ok s(1) obtain ys where ys: "stack_ok m s ys"
      by (auto simp: versions_ok_def in_set_conv_nth dest: list_all2_nthD)
    then have "ys = xs" using stack_ok_reads s(2) by (auto simp: reads_as_def)
    moreover have "xs \<noteq> []" if "st_head s = Some a" for a
      using stack_ok_head [OF ys that] \<open>ys = xs\<close> by auto
    ultimately show ?thesis
      using stackHash_ok [of H m s ys] ys ok ent_hash_foldl [OF assms(7)] by (auto simp: versions_ok_def split: if_splits)
  qed
  show ?thesis using hash [OF nth_mem [OF assms(3)] assms(5)] hash [OF nth_mem [OF assms(4)] assms(6)] by simp
qed

definition count_hash :: hasher where
  "count_hash h e = h + 1"

definition mixed_ops :: "stackOp list" where
  "mixed_ops = [OpClone 0, OpPromote 1]"

theorem glr_hash_representation_free_witness:
  "\<exists>ss m. run_ops (version_step count_hash) mixed_ops (parse_start 1 0) = Some (ss, m)
     \<and> st_head (ss ! 0) = None \<and> st_head (ss ! 1) \<noteq> None
     \<and> fst (stackHash count_hash (ss ! 0, m)) = fst (stackHash count_hash (ss ! 1, m))"
proof -
  let ?xs = "[\<lparr>se_state = 1, se_node = None\<rparr>] :: stackEntry list"
  have l: "length mixed_ops < 4294967295" by (simp add: mixed_ops_def)
  from reachable_ok [OF l, of count_hash 1 0] obtain ss m where
    r: "run_ops (version_step count_hash) mixed_ops (parse_start 1 0) = Some (ss, m)"
    and ok: "versions_ok count_hash (ss, m) (fold list_step mixed_ops (start_lists 1))" by auto
  have "fold list_step mixed_ops (start_lists 1) = [?xs, ?xs]"
    by (simp add: mixed_ops_def start_lists_def on_list_def)
  with ok have st: "length ss = 2" "stack_ok m (ss ! 0) ?xs" "stack_ok m (ss ! 1) ?xs"
    by (auto simp: versions_ok_def list_all2_Cons2)
  have fork: "version_step count_hash (OpClone 0) (parse_start 1 0)
      = Some ([newGLRStack 1, copied_fields (newGLRStack 1)], newGSSScratch 0)"
    by (simp add: parse_start_def copy_version_def clone_def newGLRStack_def flat_def)
  have c: "stack_ok (newGSSScratch 0) (copied_fields (newGLRStack 1)) ?xs"
    using stack_ok_new [of "newGSSScratch 0" 1] by (simp add: stack_ok_def copied_fields_def flat_def newGLRStack_def)
  have "mem_ok count_hash (newGSSScratch 0)"
    by (auto simp: newGSSScratch_def mem_ok_def node_at_def split: gssAddr.splits)
  from ensureGSS_ok [OF this c] obtain s' m' where
    "ensureGSS count_hash True (copied_fields (newGLRStack 1), newGSSScratch 0) = Some (s', m')" "st_head s' \<noteq> None" by auto
  with r fork have "ss = [newGLRStack 1, s']" by (simp add: mixed_ops_def on_version_def)
  then have heads: "st_head (ss ! 0) = None" "st_head (ss ! 1) \<noteq> None"
    using \<open>st_head s' \<noteq> None\<close> by (simp_all add: newGLRStack_def)
  have "nonzero_prefixes count_hash ?xs" by (simp add: nonzero_prefixes_def count_hash_def gssHashSeed_def upt_rec)
  with glr_hash_representation_free [OF r l, of 0 1 ?xs] st stack_ok_reads r heads show ?thesis
    by (auto simp: reads_as_def)
qed

end
