(* ===== verification/Tree_Nodes.thy ===== *)
theory Tree_Nodes
  imports Edit_Ranges
begin

text \<open>
  The nodes of a syntax tree and the queries on them, \<^verbatim>\<open>internal/runtime/tree.go\<close> and \<^verbatim>\<open>walk.go\<close>: child
  and field access, names, text, the descendant lookups and the tree walk. The lemmas show that the
  walk with an explicit stack visits the nodes as the recursive pre-order does, whatever the callback
  answers, that the descendant walk with its early break finds the claiming child of every level, and
  that the lookup at a byte returns a smallest node that contains it.

  A node is a value with its children. Children that are stored as compact references are the nodes
  they materialise to; a child slice has no nil entry. What the owning arena records of a node (the
  lookahead of its scan, its column dependency, the dependency of a missing leaf and the size of the
  source whose reads were recorded) is a field of the node.
\<close>

section \<open>Data\<close>

record missingNodeDependency =
  md_stackByte :: u32
  md_stackPoint :: point
  md_paddingBytes :: u32
  md_paddingExtent :: point
  md_lookaheadBytes :: u32

record nodeData =
  na_symbol :: u16
  na_startByte :: u32
  na_endByte :: u32
  na_startPoint :: point
  na_endPoint :: point
  na_named :: bool
  na_extra :: bool
  na_missing :: bool
  na_hasError :: bool
  na_dirty :: bool
  na_compact :: bool
  na_fieldIDs :: "u16 list"
  na_dependsOnColumn :: bool
  na_owned :: bool
  na_readsSource :: "u32 option"
  na_lookahead :: "u32 option"
  na_missingDependency :: "missingNodeDependency option"

datatype syntaxNode = SyntaxNode (info: nodeData) (kids: "syntaxNode list")

record nodeLanguage =
  nl_SymbolNames :: "string list"
  nl_FieldNames :: "string list"

abbreviation startByte :: "syntaxNode \<Rightarrow> u32" where "startByte n \<equiv> na_startByte (info n)"
abbreviation endByte :: "syntaxNode \<Rightarrow> u32" where "endByte n \<equiv> na_endByte (info n)"
abbreviation startPoint :: "syntaxNode \<Rightarrow> point" where "startPoint n \<equiv> na_startPoint (info n)"
abbreviation endPoint :: "syntaxNode \<Rightarrow> point" where "endPoint n \<equiv> na_endPoint (info n)"

section \<open>Children, names and text\<close>

definition IsNamed :: "syntaxNode option \<Rightarrow> bool" where
  "IsNamed n \<longleftrightarrow> (case n of None \<Rightarrow> False | Some n \<Rightarrow> na_named (info n))"

definition IsError :: "syntaxNode option \<Rightarrow> bool" where
  "IsError n \<longleftrightarrow> (case n of None \<Rightarrow> False | Some n \<Rightarrow> na_symbol (info n) = errorSymbol)"

definition IsMissing :: "syntaxNode option \<Rightarrow> bool" where
  "IsMissing n \<longleftrightarrow> (case n of None \<Rightarrow> False | Some n \<Rightarrow> na_missing (info n))"

definition HasError :: "syntaxNode option \<Rightarrow> bool" where
  "HasError n \<longleftrightarrow> (case n of None \<Rightarrow> False | Some n \<Rightarrow> na_hasError (info n))"

definition ChildCount :: "syntaxNode option \<Rightarrow> nat" where
  "ChildCount n = (case n of None \<Rightarrow> 0 | Some n \<Rightarrow> length (kids n))"

definition Child :: "syntaxNode option \<Rightarrow> int \<Rightarrow> syntaxNode option" where
  "Child n i =
     (case n of
        None \<Rightarrow> None
      | Some n \<Rightarrow> if i < 0 \<or> i \<ge> int (length (kids n)) then None else Some (kids n ! nat i))"

definition nodeFieldIDAt :: "syntaxNode \<Rightarrow> int \<Rightarrow> u16" where
  "nodeFieldIDAt n i =
     (if i < 0 \<or> i \<ge> int (length (na_fieldIDs (info n))) then 0 else na_fieldIDs (info n) ! nat i)"

definition NamedChildCount :: "syntaxNode option \<Rightarrow> nat" where
  "NamedChildCount n = (case n of None \<Rightarrow> 0 | Some n \<Rightarrow> length (filter (\<lambda>c. na_named (info c)) (kids n)))"

fun named_child_loop :: "syntaxNode list \<Rightarrow> int \<Rightarrow> int \<Rightarrow> syntaxNode option" where
  "named_child_loop [] k i = None"
| "named_child_loop (c # cs) k i =
     (if \<not> na_named (info c) then named_child_loop cs k i
      else if k = i then Some c else named_child_loop cs (k + 1) i)"

definition NamedChild :: "syntaxNode option \<Rightarrow> int \<Rightarrow> syntaxNode option" where
  "NamedChild n i = (if i < 0 then None else case n of None \<Rightarrow> None | Some n \<Rightarrow> named_child_loop (kids n) 0 i)"

text \<open>The map of field names: a later index of the same name replaces an earlier one.\<close>

definition FieldByName :: "nodeLanguage \<Rightarrow> string \<Rightarrow> u16 option" where
  "FieldByName lang name =
     map_option of_nat (map_of (rev (filter (\<lambda>(fn, i). fn \<noteq> []) (zip (nl_FieldNames lang) [0..<length (nl_FieldNames lang)]))) name)"

definition field_index :: "syntaxNode \<Rightarrow> u16 \<Rightarrow> nat option" where
  "field_index n fid = List.find (\<lambda>i. nodeFieldIDAt n (int i) = fid) [0..<length (kids n)]"

definition ChildByFieldName :: "syntaxNode option \<Rightarrow> string \<Rightarrow> nodeLanguage \<Rightarrow> syntaxNode option" where
  "ChildByFieldName n name lang =
     (case FieldByName lang name of
        None \<Rightarrow> None
      | Some fid \<Rightarrow>
          if fid = 0 then None
          else (case n of None \<Rightarrow> None | Some m \<Rightarrow> Option.bind (field_index m fid) (\<lambda>i. Child n (int i))))"

definition FieldNameForChild :: "syntaxNode option \<Rightarrow> int \<Rightarrow> nodeLanguage \<Rightarrow> string" where
  "FieldNameForChild n i lang =
     (case n of
        None \<Rightarrow> []
      | Some n \<Rightarrow>
          if i < 0 \<or> i \<ge> int (length (kids n)) then []
          else let fid = nodeFieldIDAt n i in
               if fid = 0 \<or> unat fid \<ge> length (nl_FieldNames lang) then [] else nl_FieldNames lang ! unat fid)"

fun unescapePunctuationSymbolName :: "string \<Rightarrow> string" where
  "unescapePunctuationSymbolName (a # b # cs) =
     (if a = CHR 0x5C \<and> b = CHR ''?'' then CHR ''?'' # unescapePunctuationSymbolName cs
      else a # unescapePunctuationSymbolName (b # cs))"
| "unescapePunctuationSymbolName cs = cs"

definition Type :: "syntaxNode option \<Rightarrow> nodeLanguage \<Rightarrow> string" where
  "Type n lang =
     (case n of
        None \<Rightarrow> []
      | Some n \<Rightarrow>
          if na_symbol (info n) = errorSymbol then ''ERROR''
          else if unat (na_symbol (info n)) < length (nl_SymbolNames lang)
          then unescapePunctuationSymbolName (nl_SymbolNames lang ! unat (na_symbol (info n))) else [])"

definition Text :: "syntaxNode \<Rightarrow> bytes \<Rightarrow> bytes" where
  "Text n source =
     (if endByte n < startByte n \<or> unat (startByte n) > length source \<or> unat (endByte n) > length source then []
      else slice source (unat (startByte n)) (unat (endByte n)))"

text \<open>The S-expression of a node: named and error nodes only.\<close>

fun sexprWrite :: "nodeLanguage \<Rightarrow> syntaxNode \<Rightarrow> string" where
  "sexprWrite lang (SyntaxNode d ks) =
     (if \<not> na_named d \<and> na_symbol d \<noteq> errorSymbol then []
      else ''('' @ Type (Some (SyntaxNode d ks)) lang
        @ concat (map (\<lambda>c. if \<not> na_named (info c) \<and> na_symbol (info c) \<noteq> errorSymbol then [] else '' '' @ sexprWrite lang c) ks)
        @ '')'')"

definition SExpr :: "syntaxNode option \<Rightarrow> nodeLanguage \<Rightarrow> string" where
  "SExpr n lang =
     (case n of None \<Rightarrow> [] | Some m \<Rightarrow> if \<not> IsNamed n \<and> \<not> IsError n then [] else sexprWrite lang m)"

text \<open>The strict health check, a stack of nodes whose children are still to be read.\<close>

definition health_bad :: "syntaxNode \<Rightarrow> bool" where
  "health_bad n \<longleftrightarrow> na_hasError (info n) \<or> na_symbol (info n) = errorSymbol \<or> na_missing (info n)"

function health_loop :: "syntaxNode list \<Rightarrow> bool" where
  "health_loop [] = False"
| "health_loop (current # stack) =
     (if \<exists>c\<in>set (kids current). health_bad c then True else health_loop (rev (kids current) @ stack))"
  by pat_completeness auto
termination
proof (relation "measure (\<lambda>stack. sum_list (map size stack))")
  fix current stack
  show "(rev (kids current) @ stack, current # stack) \<in> measure (\<lambda>stack. sum_list (map size stack))"
    by (cases current) (simp add: size_list_conv_sum_list rev_map [symmetric])
qed simp

definition HasErrorOrMissing :: "syntaxNode option \<Rightarrow> bool" where
  "HasErrorOrMissing n \<longleftrightarrow> (case n of None \<Rightarrow> False | Some n \<Rightarrow> health_bad n \<or> health_loop [n])"

section \<open>Descendants for a range\<close>

text \<open>
  The walk to the smallest descendant, over bytes or over points: \<open>lt\<close> and \<open>le\<close> compare positions,
  \<open>st\<close> and \<open>en\<close> are the two ends of a node. A level scans the children for the first that reaches the
  end of the range and extends past its start, and gives up at a child that starts past its start.
\<close>

fun range_child :: "('p \<Rightarrow> 'p \<Rightarrow> bool) \<Rightarrow> ('p \<Rightarrow> 'p \<Rightarrow> bool) \<Rightarrow> (syntaxNode \<Rightarrow> 'p) \<Rightarrow> (syntaxNode \<Rightarrow> 'p) \<Rightarrow> 'p \<Rightarrow> 'p
    \<Rightarrow> syntaxNode list \<Rightarrow> syntaxNode option" where
  "range_child le lt st en s e [] = None"
| "range_child le lt st en s e (c # cs) =
     (if lt (en c) e then range_child le lt st en s e cs
      else if (if st c = en c then lt (en c) s else le (en c) s) then range_child le lt st en s e cs
      else if lt s (st c) then None
      else Some c)"

lemma range_child_in: "range_child le lt st en s e cs = Some c \<Longrightarrow> c \<in> set cs"
  by (induction le lt st en s e cs rule: range_child.induct) (auto split: if_splits)

lemma kid_smaller: "c \<in> set (kids n) \<Longrightarrow> size c < size n"
  by (cases n) (auto simp: size_list_estimation' less_Suc_eq_le)

function descend :: "('p \<Rightarrow> 'p \<Rightarrow> bool) \<Rightarrow> ('p \<Rightarrow> 'p \<Rightarrow> bool) \<Rightarrow> (syntaxNode \<Rightarrow> 'p) \<Rightarrow> (syntaxNode \<Rightarrow> 'p) \<Rightarrow> 'p \<Rightarrow> 'p
    \<Rightarrow> bool \<Rightarrow> syntaxNode \<Rightarrow> syntaxNode \<Rightarrow> syntaxNode" where
  "descend le lt st en s e namedOnly node lastRelevant =
     (case range_child le lt st en s e (kids node) of
        None \<Rightarrow> lastRelevant
      | Some child \<Rightarrow>
          descend le lt st en s e namedOnly child (if \<not> namedOnly \<or> na_named (info child) then child else lastRelevant))"
  by pat_completeness auto
termination
  by (relation "measure (\<lambda>(le, lt, st, en, s, e, namedOnly, node, lastRelevant). size node)")
     (auto dest!: range_child_in kid_smaller)

declare descend.simps [simp del]

definition descendantForByteRange :: "syntaxNode option \<Rightarrow> u32 \<Rightarrow> u32 \<Rightarrow> bool \<Rightarrow> syntaxNode option" where
  "descendantForByteRange n s e namedOnly =
     (case n of
        None \<Rightarrow> None
      | Some n \<Rightarrow> if e < s then None else Some (descend (\<le>) (<) startByte endByte s e namedOnly n n))"

definition pointLessThan :: "point \<Rightarrow> point \<Rightarrow> bool" where
  "pointLessThan a b \<longleftrightarrow> (if Row a \<noteq> Row b then Row a < Row b else Column a < Column b)"

definition pointLessOrEqual :: "point \<Rightarrow> point \<Rightarrow> bool" where
  "pointLessOrEqual a b \<longleftrightarrow> (if Row a \<noteq> Row b then Row a < Row b else Column a \<le> Column b)"

definition descendantForPointRange :: "syntaxNode option \<Rightarrow> point \<Rightarrow> point \<Rightarrow> bool \<Rightarrow> syntaxNode option" where
  "descendantForPointRange n s e namedOnly =
     (case n of
        None \<Rightarrow> None
      | Some n \<Rightarrow> if pointLessThan e s then None
                  else Some (descend pointLessOrEqual pointLessThan startPoint endPoint s e namedOnly n n))"

text \<open>The older walk: the deepest node that contains the range, the last such branch first.\<close>

definition containsByteRange :: "syntaxNode \<Rightarrow> u32 \<Rightarrow> u32 \<Rightarrow> bool" where
  "containsByteRange n s e \<longleftrightarrow> s \<ge> startByte n \<and> e \<le> endByte n"

fun descendantForByteRangeContained :: "u32 \<Rightarrow> u32 \<Rightarrow> bool \<Rightarrow> syntaxNode \<Rightarrow> syntaxNode option" where
  "descendantForByteRangeContained s e namedOnly (SyntaxNode d ks) =
     (if e < s \<or> \<not> containsByteRange (SyntaxNode d ks) s e then None
      else foldl (\<lambda>deepest c.
               if \<not> containsByteRange c s e then deepest
               else case descendantForByteRangeContained s e namedOnly c of None \<Rightarrow> deepest | Some r \<Rightarrow> Some r)
             (if \<not> namedOnly \<or> na_named d then Some (SyntaxNode d ks) else None) ks)"

definition node_at_byte :: "bool \<Rightarrow> syntaxNode option \<Rightarrow> u32 \<Rightarrow> syntaxNode option" where
  "node_at_byte namedOnly n byteOffset =
     (case n of
        None \<Rightarrow> None
      | Some n \<Rightarrow>
          if byteOffset < startByte n \<or> byteOffset > endByte n then None
          else descendantForByteRangeContained byteOffset (if byteOffset < endByte n then byteOffset + 1 else byteOffset) namedOnly n)"

definition NodeAtByte :: "syntaxNode option \<Rightarrow> u32 \<Rightarrow> syntaxNode option" where
  "NodeAtByte = node_at_byte False"

definition NamedNodeAtByte :: "syntaxNode option \<Rightarrow> u32 \<Rightarrow> syntaxNode option" where
  "NamedNodeAtByte = node_at_byte True"

section \<open>Walking a tree\<close>

datatype walkAction = WalkContinue | WalkSkipChildren | WalkStop

text \<open>
  The walk with an explicit stack; the callback threads a state of its own. The top of the stack is
  the head of the list, and children are pushed from the last to the first.
\<close>

lemma walk_push: "fold (\<lambda>c st. (c, d) # st) (rev cs) st = map (\<lambda>c. (c, d)) cs @ st"
  by (induction cs arbitrary: st) auto

function walk_loop :: "(syntaxNode \<Rightarrow> nat \<Rightarrow> 's \<Rightarrow> walkAction \<times> 's) \<Rightarrow> (syntaxNode \<times> nat) list \<Rightarrow> 's \<Rightarrow> 's" where
  "walk_loop fn [] s = s"
| "walk_loop fn ((n, depth) # stack) s =
     (case fn n depth s of
        (WalkStop, s) \<Rightarrow> s
      | (WalkSkipChildren, s) \<Rightarrow> walk_loop fn stack s
      | (WalkContinue, s) \<Rightarrow> walk_loop fn (fold (\<lambda>c st. (c, depth + 1) # st) (rev (kids n)) stack) s)"
  by pat_completeness auto
termination
proof (relation "measure (\<lambda>(fn, stack, s). sum_list (map (\<lambda>p. size (fst p)) stack))", goal_cases)
  case (2 fn n depth stack s x y)
  then show ?case by (cases n) (simp add: walk_push size_list_conv_sum_list o_def)
next
  case (3 fn n depth stack s x y)
  then show ?case by (cases n) simp
qed simp

definition Walk :: "(syntaxNode \<Rightarrow> nat \<Rightarrow> 's \<Rightarrow> walkAction \<times> 's) \<Rightarrow> syntaxNode option \<Rightarrow> 's \<Rightarrow> 's" where
  "Walk fn n s = (case n of None \<Rightarrow> s | Some n \<Rightarrow> walk_loop fn [(n, 0)] s)"

section \<open>The walk is a pre-order\<close>

text \<open>The reference: visit a node, then its children in order, until a visit stops the walk.\<close>

fun visit_node :: "(syntaxNode \<Rightarrow> nat \<Rightarrow> 's \<Rightarrow> walkAction \<times> 's) \<Rightarrow> syntaxNode \<Rightarrow> nat \<Rightarrow> 's \<Rightarrow> bool \<times> 's"
  and visit_nodes :: "(syntaxNode \<Rightarrow> nat \<Rightarrow> 's \<Rightarrow> walkAction \<times> 's) \<Rightarrow> syntaxNode list \<Rightarrow> nat \<Rightarrow> 's \<Rightarrow> bool \<times> 's" where
  "visit_node fn (SyntaxNode d ks) depth s =
     (case fn (SyntaxNode d ks) depth s of
        (WalkStop, s) \<Rightarrow> (True, s)
      | (WalkSkipChildren, s) \<Rightarrow> (False, s)
      | (WalkContinue, s) \<Rightarrow> visit_nodes fn ks (depth + 1) s)"
| "visit_nodes fn [] depth s = (False, s)"
| "visit_nodes fn (k # ks) depth s =
     (case visit_node fn k depth s of (True, s) \<Rightarrow> (True, s) | (False, s) \<Rightarrow> visit_nodes fn ks depth s)"

lemma walk_loop_visits:
  "walk_loop fn ((n, d) # rest) s = (case visit_node fn n d s of (stop, s') \<Rightarrow> if stop then s' else walk_loop fn rest s')"
  "walk_loop fn (map (\<lambda>k. (k, d)) ks @ rest) s = (case visit_nodes fn ks d s of (stop, s') \<Rightarrow> if stop then s' else walk_loop fn rest s')"
proof (induction fn n d s and fn ks d s arbitrary: rest and rest rule: visit_node_visit_nodes.induct)
  case (1 fn d ks depth s)
  then show ?case by (auto simp: walk_push split: prod.splits walkAction.splits)
next
  case (3 fn k ks depth s)
  then show ?case by (auto split: prod.splits bool.splits)
qed auto

text \<open>
  C31. The tree walk visits the nodes in pre-order. With any callback, whatever state it threads, the
  walk with an explicit stack ends in the state of the recursive walk that visits a node, then its
  children from first to last unless the callback skips them, and ends as soon as a visit stops it.
\<close>

theorem walk_is_preorder:
  "Walk fn (Some n) s = snd (visit_node fn n 0 s) \<and> Walk fn None s = s"
  using walk_loop_visits(1) [of fn n 0 "[]" s] by (auto simp: Walk_def split: prod.splits)

section \<open>Strict health check\<close>

fun nodes_of :: "syntaxNode \<Rightarrow> syntaxNode list" where
  "nodes_of (SyntaxNode d ks) = SyntaxNode d ks # concat (map nodes_of ks)"

lemma nodes_of_unfold: "nodes_of n = n # concat (map nodes_of (kids n))"
  by (cases n) simp

lemma health_loop_iff: "health_loop stack \<longleftrightarrow> (\<exists>n\<in>set stack. \<exists>m\<in>set (tl (nodes_of n)). health_bad m)"
proof (induction stack rule: health_loop.induct)
  case (2 current stack)
  have "(\<exists>m\<in>set (nodes_of c). health_bad m) \<longleftrightarrow> health_bad c \<or> (\<exists>m\<in>set (tl (nodes_of c)). health_bad m)" for c
    by (cases c) auto
  then show ?case using 2 by (auto simp: nodes_of_unfold [of current])
qed simp

lemma HasErrorOrMissing_iff: "HasErrorOrMissing (Some n) \<longleftrightarrow> (\<exists>m\<in>set (nodes_of n). health_bad m)"
  by (auto simp: HasErrorOrMissing_def health_loop_iff nodes_of_unfold [of n])

section \<open>Descendants\<close>

text \<open>
  A node claims a range when it covers it and extends past its start, a zero-width node at its start.
  On every level the walk looks for the first claiming child.
\<close>

definition claims :: "('p \<Rightarrow> 'p \<Rightarrow> bool) \<Rightarrow> ('p \<Rightarrow> 'p \<Rightarrow> bool) \<Rightarrow> (syntaxNode \<Rightarrow> 'p) \<Rightarrow> (syntaxNode \<Rightarrow> 'p) \<Rightarrow> 'p \<Rightarrow> 'p \<Rightarrow> syntaxNode \<Rightarrow> bool" where
  "claims le lt st en s e c \<longleftrightarrow>
     le (st c) s \<and> le e (en c) \<and> (if st c = en c then le s (en c) else lt s (en c))"

function claim_path :: "(syntaxNode \<Rightarrow> bool) \<Rightarrow> syntaxNode \<Rightarrow> syntaxNode list" where
  "claim_path P n = (case List.find P (kids n) of None \<Rightarrow> [] | Some c \<Rightarrow> c # claim_path P c)"
  by pat_completeness auto
termination
  by (relation "measure (\<lambda>(P, n). size n)") (auto simp: find_Some_iff intro: kid_smaller)

declare claim_path.simps [simp del]

definition starts_sorted :: "('p \<Rightarrow> 'p \<Rightarrow> bool) \<Rightarrow> (syntaxNode \<Rightarrow> 'p) \<Rightarrow> syntaxNode \<Rightarrow> bool" where
  "starts_sorted le st n \<longleftrightarrow> list_all (\<lambda>m. sorted_wrt le (map st (kids m))) (nodes_of n)"

text \<open>Positions with a linear order: bytes and points.\<close>

locale position_order =
  fixes le lt :: "'p \<Rightarrow> 'p \<Rightarrow> bool" and st en :: "syntaxNode \<Rightarrow> 'p"
  assumes not_lt: "\<not> lt a b \<longleftrightarrow> le b a"
    and not_le: "\<not> le a b \<longleftrightarrow> lt b a"
    and le_trans: "le a b \<Longrightarrow> le b c \<Longrightarrow> le a c"
begin

lemma range_child_find:
  assumes "sorted_wrt le (map st cs)"
  shows "range_child le lt st en s e cs = List.find (claims le lt st en s e) cs"
  using assms
proof (induction cs)
  case (Cons c cs)
  have skip: "\<not> claims le lt st en s e c" if "lt (en c) e \<or> (if st c = en c then lt (en c) s else le (en c) s)"
    using that not_lt not_le unfolding claims_def by metis
  show ?case
  proof (cases "lt (en c) e \<or> (if st c = en c then lt (en c) s else le (en c) s)")
    case True
    then show ?thesis using Cons skip by auto
  next
    case False
    show ?thesis
    proof (cases "lt s (st c)")
      case True
      then have "\<not> claims le lt st en s e d" if "d \<in> set (c # cs)" for d
        using that Cons.prems not_lt not_le le_trans unfolding claims_def by (metis list.set_map imageI set_ConsD sorted_wrt.simps(2) list.simps(9))
      then have "List.find (claims le lt st en s e) (c # cs) = None" by (simp add: find_None_iff)
      then show ?thesis using True False by simp
    next
      case inside: False
      then have "claims le lt st en s e c" using False not_lt not_le unfolding claims_def by metis
      then show ?thesis using inside False by simp
    qed
  qed
qed simp

lemma descend_path:
  assumes "starts_sorted le st n"
  shows "descend le lt st en s e namedOnly n r
    = last (r # filter (\<lambda>c. \<not> namedOnly \<or> na_named (info c)) (claim_path (claims le lt st en s e) n))"
  using assms
proof (induction n arbitrary: r rule: measure_induct_rule [where f = size])
  case (less n)
  have sorted: "sorted_wrt le (map st (kids n))" using less.prems by (simp add: starts_sorted_def nodes_of_unfold [of n])
  show ?case
  proof (cases "List.find (claims le lt st en s e) (kids n)")
    case None
    then show ?thesis by (simp add: descend.simps [of _ _ _ _ _ _ _ n] claim_path.simps [of _ n] range_child_find [OF sorted])
  next
    case (Some c)
    then have c: "c \<in> set (kids n)" by (auto simp: find_Some_iff)
    have "starts_sorted le st c" using less.prems c by (auto simp: starts_sorted_def nodes_of_unfold [of n] list_all_iff)
    note IH = less.IH [OF kid_smaller [OF c] this]
    show ?thesis
      using Some by (simp add: descend.simps [of _ _ _ _ _ _ _ n] claim_path.simps [of _ n] range_child_find [OF sorted] IH)
  qed
qed

end

interpretation byte_order: position_order "(\<le>)" "(<)" startByte endByte
  by unfold_locales auto

interpretation point_order: position_order pointLessOrEqual pointLessThan startPoint endPoint
  by unfold_locales (auto simp: pointLessOrEqual_def pointLessThan_def split: if_splits)

text \<open>
  C30. The descendant lookups descend to the claiming child. In a tree whose children are sorted by
  their starts, the lookup for a byte range returns the last node of the path that follows, from the
  receiver, the first child of each level that claims the range, and the receiver when no child does;
  the named lookup returns the last named node of that path; the lookups by points do the same with
  points. A reversed range has no answer.
\<close>

theorem descendant_lookups_exact:
  "(starts_sorted (\<le>) startByte n \<and> s \<le> e \<longrightarrow>
      descendantForByteRange (Some n) s e namedOnly
        = Some (last (n # filter (\<lambda>c. \<not> namedOnly \<or> na_named (info c)) (claim_path (claims (\<le>) (<) startByte endByte s e) n))))
   \<and> (starts_sorted pointLessOrEqual startPoint n \<and> pointLessOrEqual p q \<longrightarrow>
      descendantForPointRange (Some n) p q namedOnly
        = Some (last (n # filter (\<lambda>c. \<not> namedOnly \<or> na_named (info c))
            (claim_path (claims pointLessOrEqual pointLessThan startPoint endPoint p q) n))))
   \<and> (e < s \<longrightarrow> descendantForByteRange (Some n) s e namedOnly = None)"
  using byte_order.descend_path [of n s e namedOnly n] point_order.descend_path [of n p q namedOnly n] point_order.not_lt
  by (auto simp: descendantForByteRange_def descendantForPointRange_def)

definition leaf_data :: "u32 \<Rightarrow> u32 \<Rightarrow> bool \<Rightarrow> nodeData" where
  "leaf_data a b named =
     \<lparr>na_symbol = 1, na_startByte = a, na_endByte = b, na_startPoint = \<lparr>Row = 0, Column = a\<rparr>, na_endPoint = \<lparr>Row = 0, Column = b\<rparr>,
      na_named = named, na_extra = False, na_missing = False, na_hasError = False, na_dirty = False, na_compact = False,
      na_fieldIDs = [], na_dependsOnColumn = False, na_owned = False, na_readsSource = None, na_lookahead = None,
      na_missingDependency = None\<rparr>"

definition demo_tree :: syntaxNode where
  "demo_tree =
     SyntaxNode (leaf_data 0 9 True)
       [SyntaxNode (leaf_data 0 3 True) [],
        SyntaxNode (leaf_data 3 9 True) [SyntaxNode (leaf_data 3 4 False) [], SyntaxNode (leaf_data 4 9 True) []]]"

theorem descendant_lookups_exact_witness:
  "starts_sorted (\<le>) startByte demo_tree \<and> starts_sorted pointLessOrEqual startPoint demo_tree
   \<and> descendantForByteRange (Some demo_tree) 3 4 False = Some (SyntaxNode (leaf_data 3 4 False) [])
   \<and> descendantForByteRange (Some demo_tree) 3 4 True = Some (kids demo_tree ! 1)
   \<and> descendantForPointRange (Some demo_tree) \<lparr>Row = 0, Column = 3\<rparr> \<lparr>Row = 0, Column = 4\<rparr> True = Some (kids demo_tree ! 1)
   \<and> descendantForByteRange (Some demo_tree) 4 3 False = None"
proof -
  have b: "starts_sorted (\<le>) startByte demo_tree" by code_simp
  have p: "starts_sorted pointLessOrEqual startPoint demo_tree" by code_simp
  have path: "claim_path (claims (\<le>) (<) startByte endByte 3 4) demo_tree = [kids demo_tree ! 1, SyntaxNode (leaf_data 3 4 False) []]"
    by code_simp
  have ppath: "claim_path (claims pointLessOrEqual pointLessThan startPoint endPoint \<lparr>Row = 0, Column = 3\<rparr> \<lparr>Row = 0, Column = 4\<rparr>) demo_tree
      = [kids demo_tree ! 1, SyntaxNode (leaf_data 3 4 False) []]" by code_simp
  have named: "na_named (info (kids demo_tree ! 1))" by code_simp
  have le: "pointLessOrEqual \<lparr>Row = 0, Column = 3\<rparr> \<lparr>Row = 0, Column = 4\<rparr>" by code_simp
  show ?thesis
    using descendant_lookups_exact [of demo_tree 3 4 False "\<lparr>Row = 0, Column = 3\<rparr>" "\<lparr>Row = 0, Column = 4\<rparr>"]
      descendant_lookups_exact [of demo_tree 3 4 True "\<lparr>Row = 0, Column = 3\<rparr>" "\<lparr>Row = 0, Column = 4\<rparr>"]
      descendant_lookups_exact [of demo_tree 4 3 False "\<lparr>Row = 0, Column = 3\<rparr>" "\<lparr>Row = 0, Column = 4\<rparr>"] b p le named
    unfolding path ppath by (simp add: leaf_data_def)
qed

text \<open>The contained walk returns a node that contains the range and none of whose children do.\<close>

definition contained_result :: "u32 \<Rightarrow> u32 \<Rightarrow> syntaxNode \<Rightarrow> syntaxNode option \<Rightarrow> bool" where
  "contained_result s e n r \<longleftrightarrow>
     (case r of
        None \<Rightarrow> \<not> containsByteRange n s e
      | Some m \<Rightarrow> m \<in> set (nodes_of n) \<and> containsByteRange m s e \<and> list_all (\<lambda>c. \<not> containsByteRange c s e) (kids m))"

lemma contained_walk:
  assumes "s \<le> e"
  shows "contained_result s e n (descendantForByteRangeContained s e False n)"
proof (induction n)
  case (SyntaxNode d ks)
  let ?n = "SyntaxNode d ks" and ?D = "descendantForByteRangeContained s e False"
  let ?f = "\<lambda>deepest c. if \<not> containsByteRange c s e then deepest else case ?D c of None \<Rightarrow> deepest | Some r \<Rightarrow> Some r"
  show ?case
  proof (cases "containsByteRange ?n s e")
    case False
    then show ?thesis by (simp add: contained_result_def)
  next
    case True
    have "(foldl ?f acc cs = acc \<and> list_all (\<lambda>c. \<not> containsByteRange c s e) cs)
        \<or> (\<exists>c\<in>set cs. containsByteRange c s e \<and> foldl ?f acc cs = ?D c)" if "set cs \<subseteq> set ks" for acc cs
      using that
    proof (induction cs arbitrary: acc)
      case (Cons c cs)
      have "contained_result s e c (?D c)" using SyntaxNode.IH Cons.prems by simp
      then have step: "?f acc c = (if containsByteRange c s e then ?D c else acc)"
        by (auto simp: contained_result_def split: option.splits)
      from Cons.IH [of "?f acc c"] Cons.prems show ?case
        unfolding foldl_Cons step by (cases "containsByteRange c s e") (auto simp: list_all_iff)
    qed simp
    from this [of ks "Some ?n"] consider
      "foldl ?f (Some ?n) ks = Some ?n" "list_all (\<lambda>c. \<not> containsByteRange c s e) ks"
      | c where "c \<in> set ks" "containsByteRange c s e" "foldl ?f (Some ?n) ks = ?D c" by auto
    then show ?thesis
    proof cases
      case 1
      then show ?thesis using True assms by (simp add: contained_result_def)
    next
      case (2 c)
      moreover have "contained_result s e c (?D c)" using SyntaxNode.IH 2(1) by simp
      ultimately show ?thesis using True assms by (auto simp: contained_result_def split: option.splits)
    qed
  qed
qed

text \<open>
  The node at a byte is a smallest node that contains it. There is no answer exactly for an offset
  outside the receiver; otherwise the answer is a node of the tree that contains the offset and whose
  children do not, where an offset at the end of the receiver is contained as an empty range.
\<close>

theorem node_at_byte_smallest:
  "case NodeAtByte (Some n) b of
     None \<Rightarrow> b < startByte n \<or> endByte n < b
   | Some m \<Rightarrow>
       m \<in> set (nodes_of n) \<and> startByte m \<le> b \<and> (if b < endByte n then b < endByte m else b \<le> endByte m)
       \<and> list_all (\<lambda>c. b < startByte c \<or> (if b < endByte n then endByte c \<le> b else endByte c < b)) (kids m)"
proof (cases "b < startByte n \<or> endByte n < b")
  case True
  then show ?thesis by (auto simp: NodeAtByte_def node_at_byte_def)
next
  case False
  define e where "e = (if b < endByte n then b + 1 else b)"
  have Suc: "b + 1 \<le> x \<longleftrightarrow> b < x" if "b < endByte n" for x
  proof -
    have "unat b + 1 < 4294967296" using that unat_u32_less [of "endByte n"] unfolding word_less_nat_alt by linarith
    then have "unat (b + 1) = unat b + 1" by (simp add: unat_word_ariths)
    then show ?thesis by (auto simp: word_le_nat_alt word_less_nat_alt)
  qed
  have le: "e \<le> x \<longleftrightarrow> (if b < endByte n then b < x else b \<le> x)" for x using Suc by (simp add: e_def)
  have n: "containsByteRange n b e" using False by (auto simp: containsByteRange_def le)
  have be: "b \<le> e" using le [of e] by (auto split: if_splits)
  have r: "NodeAtByte (Some n) b = descendantForByteRangeContained b e False n"
    using False by (simp add: NodeAtByte_def node_at_byte_def e_def)
  show ?thesis
    using contained_walk [OF be, of n] n unfolding r contained_result_def
    by (auto simp: containsByteRange_def le list_all_iff split: option.splits if_splits)
qed

end
