(* ===== verification/Tree_Cursor.thy ===== *)
theory Tree_Cursor
  imports Tree_Nodes
begin

text \<open>
  The tree cursor, \<^verbatim>\<open>internal/runtime/cursor.go\<close>: a stack of frames from the root of the cursor to the
  current node, each with the index of its node among its siblings. The lemmas show that the frames
  always form a path of the tree, that every move acts as the same move on a path of child indices,
  and that the moves to the child at a position find the first child that ends past it.

  Methods called on a nil cursor return constants and are outside the model. The tree a cursor refers
  to counts by its root, its language and its source.
\<close>

section \<open>Data\<close>

record cursorFrame =
  cf_node :: "syntaxNode option"
  cf_childIndex :: int

record cursorTree =
  ct_root :: "syntaxNode option"
  ct_language :: "nodeLanguage option"
  ct_source :: bytes

text \<open>The stack of frames, the root first.\<close>

record treeCursor =
  tc_stack :: "cursorFrame list"
  tc_tree :: "cursorTree option"

definition NewTreeCursor :: "syntaxNode option \<Rightarrow> cursorTree option \<Rightarrow> treeCursor" where
  "NewTreeCursor n tree = \<lparr>tc_stack = [\<lparr>cf_node = n, cf_childIndex = - 1\<rparr>], tc_tree = tree\<rparr>"

definition NewTreeCursorFromTree :: "cursorTree option \<Rightarrow> treeCursor" where
  "NewTreeCursorFromTree tree =
     (case tree of None \<Rightarrow> NewTreeCursor None None | Some t \<Rightarrow> NewTreeCursor (ct_root t) tree)"

definition ensureStack :: "treeCursor \<Rightarrow> treeCursor" where
  "ensureStack c = (if tc_stack c = [] then c\<lparr>tc_stack := [\<lparr>cf_node = None, cf_childIndex = - 1\<rparr>]\<rparr> else c)"

definition CurrentNode :: "treeCursor \<Rightarrow> syntaxNode option" where
  "CurrentNode c = (if tc_stack c = [] then None else cf_node (last (tc_stack c)))"

definition Depth :: "treeCursor \<Rightarrow> nat" where
  "Depth c = (if tc_stack c = [] then 0 else length (tc_stack c) - 1)"

section \<open>Moves\<close>

definition push_child :: "syntaxNode \<Rightarrow> nat \<Rightarrow> treeCursor \<Rightarrow> treeCursor" where
  "push_child n i c = c\<lparr>tc_stack := tc_stack c @ [\<lparr>cf_node = Child (Some n) (int i), cf_childIndex = int i\<rparr>]\<rparr>"

definition parent_frame :: "treeCursor \<Rightarrow> cursorFrame" where
  "parent_frame c = tc_stack c ! (length (tc_stack c) - 2)"

definition set_frame :: "int \<Rightarrow> syntaxNode option \<Rightarrow> treeCursor \<Rightarrow> treeCursor" where
  "set_frame i n c = c\<lparr>tc_stack := butlast (tc_stack c) @ [\<lparr>cf_node = n, cf_childIndex = i\<rparr>]\<rparr>"

definition GotoFirstChild :: "treeCursor \<Rightarrow> bool \<times> treeCursor" where
  "GotoFirstChild c =
     (case CurrentNode c of
        None \<Rightarrow> (False, c)
      | Some n \<Rightarrow> if length (kids n) = 0 then (False, c) else (True, push_child n 0 c))"

definition GotoLastChild :: "treeCursor \<Rightarrow> bool \<times> treeCursor" where
  "GotoLastChild c =
     (case CurrentNode c of
        None \<Rightarrow> (False, c)
      | Some n \<Rightarrow> if length (kids n) = 0 then (False, c) else (True, push_child n (length (kids n) - 1) c))"

definition GotoNextSibling :: "treeCursor \<Rightarrow> bool \<times> treeCursor" where
  "GotoNextSibling c =
     (if length (tc_stack c) < 2 then (False, c)
      else case cf_node (parent_frame c) of
        None \<Rightarrow> (False, c)
      | Some p \<Rightarrow>
          let nxt = cf_childIndex (last (tc_stack c)) + 1 in
          if nxt \<ge> int (length (kids p)) then (False, c) else (True, set_frame nxt (Child (Some p) nxt) c))"

definition GotoPrevSibling :: "treeCursor \<Rightarrow> bool \<times> treeCursor" where
  "GotoPrevSibling c =
     (if length (tc_stack c) < 2 then (False, c)
      else case cf_node (parent_frame c) of
        None \<Rightarrow> (False, c)
      | Some p \<Rightarrow>
          let prv = cf_childIndex (last (tc_stack c)) - 1 in
          if prv < 0 then (False, c) else (True, set_frame prv (Child (Some p) prv) c))"

definition GotoParent :: "treeCursor \<Rightarrow> bool \<times> treeCursor" where
  "GotoParent c = (if length (tc_stack c) < 2 then (False, c) else (True, c\<lparr>tc_stack := butlast (tc_stack c)\<rparr>))"

definition CurrentFieldID :: "treeCursor \<Rightarrow> u16" where
  "CurrentFieldID c =
     (if length (tc_stack c) < 2 then 0
      else case cf_node (parent_frame c) of
        None \<Rightarrow> 0
      | Some p \<Rightarrow> nodeFieldIDAt p (cf_childIndex (last (tc_stack c))))"

definition CurrentFieldName :: "treeCursor \<Rightarrow> string" where
  "CurrentFieldName c =
     (let fid = CurrentFieldID c in
      if fid = 0 then []
      else case tc_tree c of
        None \<Rightarrow> []
      | Some t \<Rightarrow>
          (case ct_language t of
             None \<Rightarrow> []
           | Some lang \<Rightarrow> if unat fid \<ge> length (nl_FieldNames lang) then [] else nl_FieldNames lang ! unat fid))"

definition goto_child :: "nat option \<Rightarrow> treeCursor \<Rightarrow> bool \<times> treeCursor" where
  "goto_child choice c =
     (case (CurrentNode c, choice) of (Some n, Some i) \<Rightarrow> (True, push_child n i c) | _ \<Rightarrow> (False, c))"

definition GotoChildByFieldID :: "u16 \<Rightarrow> treeCursor \<Rightarrow> bool \<times> treeCursor" where
  "GotoChildByFieldID fid c =
     (if fid = 0 then (False, c) else goto_child (Option.bind (CurrentNode c) (\<lambda>n. field_index n fid)) c)"

definition GotoChildByFieldName :: "string \<Rightarrow> treeCursor \<Rightarrow> bool \<times> treeCursor" where
  "GotoChildByFieldName name c =
     (case Option.bind (tc_tree c) ct_language of
        None \<Rightarrow> (False, c)
      | Some lang \<Rightarrow>
          (case FieldByName lang name of
             None \<Rightarrow> (False, c)
           | Some fid \<Rightarrow> if fid = 0 then (False, c) else GotoChildByFieldID fid c))"

text \<open>The search for a named child in a given order of indices.\<close>

definition find_named :: "syntaxNode \<Rightarrow> nat list \<Rightarrow> nat option" where
  "find_named n is = List.find (\<lambda>i. na_named (info (kids n ! i))) is"

definition GotoFirstNamedChild :: "treeCursor \<Rightarrow> bool \<times> treeCursor" where
  "GotoFirstNamedChild c = goto_child (Option.bind (CurrentNode c) (\<lambda>n. find_named n [0..<length (kids n)])) c"

definition GotoLastNamedChild :: "treeCursor \<Rightarrow> bool \<times> treeCursor" where
  "GotoLastNamedChild c = goto_child (Option.bind (CurrentNode c) (\<lambda>n. find_named n (rev [0..<length (kids n)]))) c"

definition goto_named_sibling :: "(syntaxNode \<Rightarrow> int \<Rightarrow> nat list) \<Rightarrow> treeCursor \<Rightarrow> bool \<times> treeCursor" where
  "goto_named_sibling order c =
     (if length (tc_stack c) < 2 then (False, c)
      else case cf_node (parent_frame c) of
        None \<Rightarrow> (False, c)
      | Some p \<Rightarrow>
          (case find_named p (order p (cf_childIndex (last (tc_stack c)))) of
             None \<Rightarrow> (False, c)
           | Some i \<Rightarrow> (True, set_frame (int i) (Child (Some p) (int i)) c)))"

definition GotoNextNamedSibling :: "treeCursor \<Rightarrow> bool \<times> treeCursor" where
  "GotoNextNamedSibling = goto_named_sibling (\<lambda>p i. [nat (i + 1)..<length (kids p)])"

definition GotoPrevNamedSibling :: "treeCursor \<Rightarrow> bool \<times> treeCursor" where
  "GotoPrevNamedSibling = goto_named_sibling (\<lambda>p i. rev [0..<nat i])"

definition pointGreaterThan :: "point \<Rightarrow> point \<Rightarrow> bool" where
  "pointGreaterThan a b \<longleftrightarrow> (if Row a \<noteq> Row b then Row a > Row b else Column a > Column b)"

text \<open>The binary search for the child at a position; the result is its index or -1.\<close>

definition goto_child_for :: "(syntaxNode \<Rightarrow> bool) \<Rightarrow> treeCursor \<Rightarrow> int \<times> treeCursor" where
  "goto_child_for past c =
     (case CurrentNode c of
        None \<Rightarrow> (- 1, c)
      | Some n \<Rightarrow>
          if length (kids n) = 0 then (- 1, c)
          else let i = sort_search (length (kids n)) (\<lambda>i. past (kids n ! i)) in
               if i \<ge> length (kids n) then (- 1, c) else (int i, push_child n i c))"

definition GotoFirstChildForByte :: "u32 \<Rightarrow> treeCursor \<Rightarrow> int \<times> treeCursor" where
  "GotoFirstChildForByte targetByte = goto_child_for (\<lambda>m. endByte m > targetByte)"

definition GotoFirstChildForPoint :: "point \<Rightarrow> treeCursor \<Rightarrow> int \<times> treeCursor" where
  "GotoFirstChildForPoint targetPoint = goto_child_for (\<lambda>m. pointGreaterThan (endPoint m) targetPoint)"

definition Reset_cursor :: "syntaxNode option \<Rightarrow> treeCursor \<Rightarrow> treeCursor" where
  "Reset_cursor n c = (ensureStack c)\<lparr>tc_stack := [\<lparr>cf_node = n, cf_childIndex = - 1\<rparr>]\<rparr>"

definition ResetTree :: "cursorTree option \<Rightarrow> treeCursor \<Rightarrow> treeCursor" where
  "ResetTree tree c =
     (let c = c\<lparr>tc_tree := tree\<rparr> in
      case tree of None \<Rightarrow> Reset_cursor None c | Some t \<Rightarrow> Reset_cursor (ct_root t) c)"

definition Copy :: "treeCursor \<Rightarrow> treeCursor" where
  "Copy c = \<lparr>tc_stack = tc_stack c, tc_tree = tc_tree c\<rparr>"

definition CurrentNodeType :: "treeCursor \<Rightarrow> string" where
  "CurrentNodeType c =
     (case tc_tree c of
        None \<Rightarrow> []
      | Some t \<Rightarrow>
          (case CurrentNode c of
             None \<Rightarrow> []
           | Some n \<Rightarrow> (case ct_language t of None \<Rightarrow> [] | Some lang \<Rightarrow> Type (Some n) lang)))"

definition CurrentNodeText :: "treeCursor \<Rightarrow> bytes" where
  "CurrentNodeText c =
     (case tc_tree c of None \<Rightarrow> [] | Some t \<Rightarrow> (case CurrentNode c of None \<Rightarrow> [] | Some n \<Rightarrow> Text n (ct_source t)))"

definition CurrentNodeIsNamed :: "treeCursor \<Rightarrow> bool" where
  "CurrentNodeIsNamed c \<longleftrightarrow> (case CurrentNode c of None \<Rightarrow> False | Some n \<Rightarrow> IsNamed (Some n))"

section \<open>Positions as paths\<close>

text \<open>A position is a root and the child indices from it; a cursor at a position has these frames.\<close>

fun at_path :: "syntaxNode \<Rightarrow> nat list \<Rightarrow> syntaxNode option" where
  "at_path n [] = Some n"
| "at_path n (i # is) = (if i < length (kids n) then at_path (kids n ! i) is else None)"

type_synonym position = "syntaxNode option \<times> nat list"

definition node_of :: "position \<Rightarrow> syntaxNode option" where
  "node_of p = Option.bind (fst p) (\<lambda>n. at_path n (snd p))"

definition valid_position :: "position \<Rightarrow> bool" where
  "valid_position p \<longleftrightarrow> snd p = [] \<or> node_of p \<noteq> None"

definition path_frame :: "syntaxNode option \<Rightarrow> nat list \<Rightarrow> cursorFrame" where
  "path_frame r p = \<lparr>cf_node = node_of (r, p), cf_childIndex = (if p = [] then - 1 else int (last p))\<rparr>"

definition frames :: "position \<Rightarrow> cursorFrame list" where
  "frames p = map (\<lambda>k. path_frame (fst p) (take k (snd p))) [0..<Suc (length (snd p))]"

definition cursor_at :: "treeCursor \<Rightarrow> position \<Rightarrow> bool" where
  "cursor_at c p \<longleftrightarrow> tc_stack c = frames p \<and> valid_position p"

lemma at_path_snoc:
  "at_path n (is @ [i]) = Option.bind (at_path n is) (\<lambda>m. if i < length (kids m) then Some (kids m ! i) else None)"
  by (induction n "is" rule: at_path.induct) auto

lemma node_of_snoc:
  "node_of (r, is @ [i]) = Option.bind (node_of (r, is)) (\<lambda>m. if i < length (kids m) then Some (kids m ! i) else None)"
  by (cases r) (auto simp: node_of_def at_path_snoc)

lemma frames_Nil: "frames (r, []) = [\<lparr>cf_node = r, cf_childIndex = - 1\<rparr>]"
  by (cases r) (auto simp: frames_def path_frame_def node_of_def)

lemma frames_snoc: "frames (r, is @ [i]) = frames (r, is) @ [\<lparr>cf_node = node_of (r, is @ [i]), cf_childIndex = int i\<rparr>]"
  by (auto simp: frames_def path_frame_def)

lemma last_frames: "last (frames (r, is)) = path_frame r is"
  by (simp add: frames_def)

lemma length_frames: "length (frames (r, is)) = Suc (length is)"
  by (simp add: frames_def)

lemma valid_snoc: "valid_position (r, is @ [i]) \<longleftrightarrow> (\<exists>m. node_of (r, is) = Some m \<and> i < length (kids m))"
  by (auto simp: valid_position_def node_of_snoc split: option.splits bind_splits)

lemma valid_parent: "valid_position (r, is @ [i]) \<Longrightarrow> valid_position (r, is)"
  unfolding valid_snoc by (auto simp: valid_position_def)

text \<open>Reading a cursor reads its position.\<close>

lemma cursor_current: "cursor_at c (r, is) \<Longrightarrow> CurrentNode c = node_of (r, is)"
  using last_frames [of r "is"] by (auto simp: cursor_at_def CurrentNode_def path_frame_def frames_def)

lemma cursor_depth: "cursor_at c (r, is) \<Longrightarrow> Depth c = length is"
  using length_frames [of r "is"] by (cases "frames (r, is)") (auto simp: cursor_at_def Depth_def)

lemma cursor_child:
  assumes "cursor_at c (r, is)" "node_of (r, is) = Some n" "i < length (kids n)"
  shows "cursor_at (push_child n i c) (r, is @ [i])"
  using assms by (auto simp: cursor_at_def push_child_def frames_snoc node_of_snoc Child_def valid_snoc)

lemma cursor_root: "cursor_at c (r, []) \<Longrightarrow> length (tc_stack c) < 2"
  by (simp add: cursor_at_def frames_Nil)

lemma cursor_below:
  assumes "cursor_at c (r, is @ [i])"
  shows "\<not> length (tc_stack c) < 2" "cf_node (parent_frame c) = node_of (r, is)" "cf_childIndex (last (tc_stack c)) = int i"
    "butlast (tc_stack c) = frames (r, is)"
proof -
  have s: "tc_stack c = frames (r, is) @ [\<lparr>cf_node = node_of (r, is @ [i]), cf_childIndex = int i\<rparr>]"
    using assms by (simp add: cursor_at_def frames_snoc)
  show "\<not> length (tc_stack c) < 2" by (simp add: s length_frames)
  show "cf_childIndex (last (tc_stack c)) = int i" "butlast (tc_stack c) = frames (r, is)" by (simp_all add: s)
  have "parent_frame c = last (frames (r, is))"
    by (simp add: parent_frame_def s length_frames nth_append last_conv_nth) (metis length_frames last_conv_nth diff_Suc_1 length_0_conv nat.distinct(1))
  then show "cf_node (parent_frame c) = node_of (r, is)" by (simp add: last_frames path_frame_def)
qed

lemma cursor_sibling:
  assumes "cursor_at c (r, is @ [i])" "node_of (r, is) = Some p" "j < length (kids p)"
  shows "cursor_at (set_frame (int j) (Child (Some p) (int j)) c) (r, is @ [j])"
  using assms(2,3) cursor_below(4) [OF assms(1)]
  by (auto simp: cursor_at_def set_frame_def frames_snoc node_of_snoc Child_def valid_snoc)

section \<open>Moves on paths\<close>

datatype cursorMove =
    FirstChild | LastChild | NextSibling | PrevSibling | Parent
  | ChildByField u16 | FirstNamedChild | LastNamedChild | NextNamedSibling | PrevNamedSibling
  | ChildForByte u32 | ChildForPoint point

text \<open>A move and whether it succeeded; a move to a position succeeds when it returns an index.\<close>

definition found :: "int \<times> treeCursor \<Rightarrow> bool \<times> treeCursor" where
  "found r = (fst r \<noteq> - 1, snd r)"

fun cursor_step :: "cursorMove \<Rightarrow> treeCursor \<Rightarrow> bool \<times> treeCursor" where
  "cursor_step FirstChild c = GotoFirstChild c"
| "cursor_step LastChild c = GotoLastChild c"
| "cursor_step NextSibling c = GotoNextSibling c"
| "cursor_step PrevSibling c = GotoPrevSibling c"
| "cursor_step Parent c = GotoParent c"
| "cursor_step (ChildByField fid) c = GotoChildByFieldID fid c"
| "cursor_step FirstNamedChild c = GotoFirstNamedChild c"
| "cursor_step LastNamedChild c = GotoLastNamedChild c"
| "cursor_step NextNamedSibling c = GotoNextNamedSibling c"
| "cursor_step PrevNamedSibling c = GotoPrevNamedSibling c"
| "cursor_step (ChildForByte b) c = found (GotoFirstChildForByte b c)"
| "cursor_step (ChildForPoint q) c = found (GotoFirstChildForPoint q c)"

text \<open>The specification: which child of the current node, or of its parent, a move selects.\<close>

definition first_such :: "(nat \<Rightarrow> bool) \<Rightarrow> nat list \<Rightarrow> nat option" where
  "first_such P is = List.find P is"

fun child_choice :: "cursorMove \<Rightarrow> syntaxNode \<Rightarrow> nat option" where
  "child_choice FirstChild n = first_such (\<lambda>i. True) [0..<length (kids n)]"
| "child_choice LastChild n = first_such (\<lambda>i. True) (rev [0..<length (kids n)])"
| "child_choice (ChildByField fid) n =
     (if fid = 0 then None else first_such (\<lambda>i. nodeFieldIDAt n (int i) = fid) [0..<length (kids n)])"
| "child_choice FirstNamedChild n = first_such (\<lambda>i. na_named (info (kids n ! i))) [0..<length (kids n)]"
| "child_choice LastNamedChild n = first_such (\<lambda>i. na_named (info (kids n ! i))) (rev [0..<length (kids n)])"
| "child_choice (ChildForByte b) n = first_such (\<lambda>i. b < endByte (kids n ! i)) [0..<length (kids n)]"
| "child_choice (ChildForPoint q) n = first_such (\<lambda>i. pointLessThan q (endPoint (kids n ! i))) [0..<length (kids n)]"
| "child_choice _ n = None"

fun sibling_choice :: "cursorMove \<Rightarrow> syntaxNode \<Rightarrow> nat \<Rightarrow> nat option" where
  "sibling_choice NextSibling p i = first_such (\<lambda>j. True) [Suc i..<length (kids p)]"
| "sibling_choice PrevSibling p i = first_such (\<lambda>j. True) (rev [0..<i])"
| "sibling_choice NextNamedSibling p i = first_such (\<lambda>j. na_named (info (kids p ! j))) [Suc i..<length (kids p)]"
| "sibling_choice PrevNamedSibling p i = first_such (\<lambda>j. na_named (info (kids p ! j))) (rev [0..<i])"
| "sibling_choice _ p i = None"

definition path_move :: "cursorMove \<Rightarrow> position \<Rightarrow> position" where
  "path_move x p =
     (case p of (r, is) \<Rightarrow>
        (if x = Parent then (r, butlast is)
         else case Option.bind (node_of (r, is)) (child_choice x) of
           Some i \<Rightarrow> (r, is @ [i])
         | None \<Rightarrow>
             if is = [] then (r, is)
             else (case Option.bind (node_of (r, butlast is)) (\<lambda>n. sibling_choice x n (last is)) of
                     Some j \<Rightarrow> (r, butlast is @ [j])
                   | None \<Rightarrow> (r, is))))"

definition ends_sorted :: "syntaxNode \<Rightarrow> bool" where
  "ends_sorted n \<longleftrightarrow>
     list_all (\<lambda>m. sorted (map endByte (kids m)) \<and> sorted_wrt pointLessOrEqual (map endPoint (kids m))) (nodes_of n)"

lemma ends_sorted_at:
  assumes "ends_sorted n" "at_path n is = Some m"
  shows "sorted (map endByte (kids m))" "sorted_wrt pointLessOrEqual (map endPoint (kids m))"
proof -
  have "m \<in> set (nodes_of n)" using assms(2)
  proof (induction n "is" rule: at_path.induct)
    case (1 n)
    then show ?case by (cases n) auto
  next
    case (2 n i "is")
    then have "m \<in> set (nodes_of (kids n ! i))" "i < length (kids n)" by (auto split: if_splits)
    then show ?case by (auto simp: nodes_of_unfold [of n] intro!: bexI [of _ "kids n ! i"])
  qed
  then show "sorted (map endByte (kids m))" "sorted_wrt pointLessOrEqual (map endPoint (kids m))"
    using assms(1) by (auto simp: ends_sorted_def list_all_iff)
qed

text \<open>The search in a list with a monotone predicate is the first index that satisfies it.\<close>

lemma sort_search_first:
  assumes "\<And>a b. a \<le> b \<Longrightarrow> b < n \<Longrightarrow> P a \<Longrightarrow> P b"
  shows "first_such P [0..<n] = (if sort_search n P < n then Some (sort_search n P) else None)"
proof -
  note s = sort_search_mono [of n P, OF assms]
  show ?thesis
  proof (cases "sort_search n P < n")
    case True
    then have "first_such P [0..<n] = Some (sort_search n P)"
      using s(2,3) unfolding first_such_def by (intro find_Some_iff [THEN iffD2] exI [of _ "sort_search n P"]) auto
    then show ?thesis using True by simp
  next
    case False
    then show ?thesis using s(1,2) by (auto simp: first_such_def find_None_iff)
  qed
qed

lemma first_such_True:
  "first_such (\<lambda>i. True) [a..<b] = (if a < b then Some a else None)"
  "first_such (\<lambda>i. True) (rev [0..<b]) = (if b = 0 then None else Some (b - 1))"
  by (auto simp: first_such_def upt_rec [of a b] find_None_iff) (cases b; simp)+

lemma first_such_in: "first_such P is = Some i \<Longrightarrow> i \<in> set is"
  by (auto simp: first_such_def find_Some_iff)

lemma child_choice_bound: "child_choice x n = Some i \<Longrightarrow> i < length (kids n)"
  by (cases x) (auto split: if_splits dest!: first_such_in)

lemma sibling_choice_bound: "sibling_choice x n i = Some j \<Longrightarrow> i < length (kids n) \<Longrightarrow> j < length (kids n) \<and> j \<noteq> i"
  by (cases x) (auto split: if_splits dest!: first_such_in)

definition is_child_move :: "cursorMove \<Rightarrow> bool" where
  "is_child_move x \<longleftrightarrow> x \<notin> {Parent, NextSibling, PrevSibling, NextNamedSibling, PrevNamedSibling}"

definition goto_sibling :: "(syntaxNode \<Rightarrow> nat \<Rightarrow> nat option) \<Rightarrow> treeCursor \<Rightarrow> bool \<times> treeCursor" where
  "goto_sibling pick c =
     (if length (tc_stack c) < 2 then (False, c)
      else case cf_node (parent_frame c) of
        None \<Rightarrow> (False, c)
      | Some p \<Rightarrow>
          (case pick p (nat (cf_childIndex (last (tc_stack c)))) of
             None \<Rightarrow> (False, c)
           | Some j \<Rightarrow> (True, set_frame (int j) (Child (Some p) (int j)) c)))"

lemma goto_child_for_first:
  assumes "CurrentNode c = Some n" "\<And>a b. a \<le> b \<Longrightarrow> b < length (kids n) \<Longrightarrow> past (kids n ! a) \<Longrightarrow> past (kids n ! b)"
  shows "found (goto_child_for past c) = goto_child (first_such (\<lambda>i. past (kids n ! i)) [0..<length (kids n)]) c"
  using assms(1) sort_search_first [of "length (kids n)" "\<lambda>i. past (kids n ! i)", OF assms(2)]
  by (auto simp: found_def goto_child_for_def goto_child_def Let_def first_such_def)

lemma child_moves:
  assumes "cursor_at c (r, is)" "is_child_move x" "\<And>n. r = Some n \<Longrightarrow> ends_sorted n"
  shows "cursor_step x c = goto_child (Option.bind (node_of (r, is)) (child_choice x)) c"
proof (cases "node_of (r, is)")
  case None
  then show ?thesis
    using assms(2) cursor_current [OF assms(1)]
    by (cases x) (auto simp: is_child_move_def goto_child_def GotoFirstChild_def GotoLastChild_def GotoChildByFieldID_def
        GotoFirstNamedChild_def GotoLastNamedChild_def GotoFirstChildForByte_def GotoFirstChildForPoint_def goto_child_for_def found_def)
next
  case (Some n)
  then obtain root where root: "r = Some root" "at_path root is = Some n" by (auto simp: node_of_def bind_eq_Some_conv)
  note sorted = ends_sorted_at [OF assms(3) [OF root(1)] root(2)]
  have cur: "CurrentNode c = Some n" using cursor_current [OF assms(1)] Some by simp
  have bytes: "b < endByte (kids n ! k)" if "a \<le> k" "k < length (kids n)" "b < endByte (kids n ! a)" for b a k
    using that sorted_nth_mono [OF sorted(1), of a k] by simp
  have points: "pointLessThan q (endPoint (kids n ! k))" if "a \<le> k" "k < length (kids n)" "pointLessThan q (endPoint (kids n ! a))" for q a k
  proof (cases "a = k")
    case False
    then have "pointLessOrEqual (endPoint (kids n ! a)) (endPoint (kids n ! k))"
      using that sorted(2) by (simp add: sorted_wrt_iff_nth_less)
    then show ?thesis using that(3) point_order.not_lt point_order.le_trans by metis
  qed (use that in simp)
  have gt: "pointGreaterThan a b = pointLessThan b a" for a b
    by (auto simp: pointGreaterThan_def pointLessThan_def)
  show ?thesis
  proof (cases x)
    case (ChildForByte b)
    then show ?thesis using goto_child_for_first [OF cur, of "\<lambda>m. b < endByte m"] bytes Some by (simp add: GotoFirstChildForByte_def)
  next
    case (ChildForPoint q)
    then show ?thesis using goto_child_for_first [OF cur, of "\<lambda>m. pointLessThan q (endPoint m)"] points Some
      by (simp add: GotoFirstChildForPoint_def gt)
  qed (use assms(2) cur Some in \<open>auto simp: is_child_move_def goto_child_def GotoFirstChild_def GotoLastChild_def GotoChildByFieldID_def
        GotoFirstNamedChild_def GotoLastNamedChild_def first_such_True find_named_def field_index_def first_such_def [symmetric]\<close>)
qed

lemma sibling_moves:
  assumes "cursor_at c (r, is)" "\<not> is_child_move x" "x \<noteq> Parent"
  shows "cursor_step x c = goto_sibling (sibling_choice x) c"
proof (cases "is" rule: rev_cases)
  case Nil
  then show ?thesis
    using assms cursor_root [of c r]
    by (auto simp: is_child_move_def goto_sibling_def GotoNextSibling_def GotoPrevSibling_def GotoNextNamedSibling_def
        GotoPrevNamedSibling_def goto_named_sibling_def)
next
  case (snoc js i)
  note below = cursor_below [OF assms(1) [unfolded snoc]]
  have "nat (int i + 1) = Suc i" by simp
  with below show ?thesis
    using assms(2,3)
    by (auto simp: is_child_move_def goto_sibling_def GotoNextSibling_def GotoPrevSibling_def GotoNextNamedSibling_def
        GotoPrevNamedSibling_def goto_named_sibling_def first_such_True find_named_def first_such_def [symmetric] of_nat_diff Let_def
        split: option.splits if_splits)
qed

lemma goto_child_at:
  assumes "cursor_at c (r, is)" "\<And>n i. x = Some i \<Longrightarrow> node_of (r, is) = Some n \<Longrightarrow> i < length (kids n)" "x = None \<or> node_of (r, is) \<noteq> None"
  shows "fst (goto_child x c) \<longleftrightarrow> x \<noteq> None"
    "cursor_at (snd (goto_child x c)) (case x of Some i \<Rightarrow> (r, is @ [i]) | None \<Rightarrow> (r, is))"
  using assms cursor_current [OF assms(1)] cursor_child [OF assms(1)]
  by (auto simp: goto_child_def split: option.splits)

lemma path_move_child:
  assumes "is_child_move x"
  shows "path_move x (r, is) = (case Option.bind (node_of (r, is)) (child_choice x) of Some i \<Rightarrow> (r, is @ [i]) | None \<Rightarrow> (r, is))"
proof -
  have "sibling_choice x n i = None" for n i using assms by (cases x) (auto simp: is_child_move_def)
  then show ?thesis using assms by (auto simp: path_move_def is_child_move_def split: option.splits bind_splits)
qed

lemma path_move_sibling:
  assumes "\<not> is_child_move x" "x \<noteq> Parent"
  shows "path_move x (r, is) =
    (if is = [] then (r, is)
     else case Option.bind (node_of (r, butlast is)) (\<lambda>n. sibling_choice x n (last is)) of Some j \<Rightarrow> (r, butlast is @ [j]) | None \<Rightarrow> (r, is))"
proof -
  have "child_choice x n = None" for n using assms by (cases x) (auto simp: is_child_move_def)
  then show ?thesis using assms by (auto simp: path_move_def split: option.splits bind_splits)
qed

text \<open>One move on a cursor is the move on its position, and succeeds exactly when the position changes.\<close>

lemma cursor_step_at:
  assumes "cursor_at c (r, is)" "\<And>n. r = Some n \<Longrightarrow> ends_sorted n"
  shows "cursor_at (snd (cursor_step x c)) (path_move x (r, is)) \<and> (fst (cursor_step x c) \<longleftrightarrow> path_move x (r, is) \<noteq> (r, is))"
proof -
  consider (child) "is_child_move x" | (up) "x = Parent" | (side) "\<not> is_child_move x" "x \<noteq> Parent" by auto
  then show ?thesis
  proof cases
    case child
    let ?x = "Option.bind (node_of (r, is)) (child_choice x)"
    have b: "i < length (kids n)" if "?x = Some i" "node_of (r, is) = Some n" for n i using that child_choice_bound by simp
    have "?x = None \<or> node_of (r, is) \<noteq> None" by (cases "node_of (r, is)") auto
    note g = goto_child_at [OF assms(1) b this]
    have "cursor_step x c = goto_child ?x c" by (rule child_moves [OF assms(1) child]) (rule assms(2))
    then show ?thesis unfolding path_move_child [OF child] using g by (auto split: option.splits)
  next
    case up
    show ?thesis
    proof (cases "is" rule: rev_cases)
      case Nil
      then show ?thesis using up assms(1) cursor_root [of c r] by (simp add: GotoParent_def path_move_def)
    next
      case (snoc js i)
      have "valid_position (r, js @ [i])" using assms(1) snoc by (simp add: cursor_at_def)
      then have "valid_position (r, js)" by (rule valid_parent)
      then show ?thesis
        using up cursor_below(1,4) [OF assms(1) [unfolded snoc]] snoc by (simp add: GotoParent_def path_move_def cursor_at_def)
    qed
  next
    case side
    show ?thesis
    proof (cases "is" rule: rev_cases)
      case Nil
      then show ?thesis
        using assms(1) cursor_root [of c r] unfolding sibling_moves [OF assms(1) side] path_move_sibling [OF side]
        by (simp add: goto_sibling_def)
    next
      case (snoc js i)
      have at: "cursor_at c (r, js @ [i])" using assms(1) snoc by simp
      note below = cursor_below [OF at]
      obtain m where m: "node_of (r, js) = Some m" "i < length (kids m)" using at by (auto simp: cursor_at_def valid_snoc)
      show ?thesis
        unfolding sibling_moves [OF assms(1) side] path_move_sibling [OF side]
        using below m snoc sibling_choice_bound [of x m i] cursor_sibling [OF at m(1)] at
        by (auto simp: goto_sibling_def split: option.splits)
    qed
  qed
qed

fun cursor_run :: "cursorMove list \<Rightarrow> treeCursor \<Rightarrow> bool list \<times> treeCursor" where
  "cursor_run [] c = ([], c)"
| "cursor_run (x # xs) c = (case cursor_step x c of (b, c) \<Rightarrow> case cursor_run xs c of (bs, c) \<Rightarrow> (b # bs, c))"

fun path_run :: "cursorMove list \<Rightarrow> position \<Rightarrow> bool list \<times> position" where
  "path_run [] p = ([], p)"
| "path_run (x # xs) p = (case path_run xs (path_move x p) of (bs, q) \<Rightarrow> ((path_move x p \<noteq> p) # bs, q))"

lemma path_move_root: "fst (path_move x p) = fst p"
  by (cases p) (auto simp: path_move_def split: option.splits)

lemma cursor_run_at:
  assumes "cursor_at c p" "\<And>n. fst p = Some n \<Longrightarrow> ends_sorted n"
  shows "fst (cursor_run xs c) = fst (path_run xs p) \<and> cursor_at (snd (cursor_run xs c)) (snd (path_run xs p))"
  using assms
proof (induction xs arbitrary: c p)
  case (Cons x xs)
  obtain r "is" where p: "p = (r, is)" by fastforce
  obtain b c1 where s: "cursor_step x c = (b, c1)" by fastforce
  have at: "cursor_at c1 (path_move x p)" "b \<longleftrightarrow> path_move x p \<noteq> p"
    using cursor_step_at [of c r "is" x] Cons.prems s p by auto
  have "ends_sorted n" if "fst (path_move x p) = Some n" for n using that Cons.prems(2) by (simp add: path_move_root)
  from Cons.IH [OF at(1) this] show ?case using s at(2) by (auto split: prod.splits)
qed simp

lemma cursor_at_new: "cursor_at (NewTreeCursor n tree) (n, [])"
  by (simp add: cursor_at_def NewTreeCursor_def frames_Nil valid_position_def)

text \<open>
  C10. A cursor is a path in the tree. From a new cursor at a node of a tree whose children are sorted
  by their ends, any sequence of moves reports the successes, and ends at the node and the depth, of
  the same moves on a path of child indices: a move down selects the first or last child, or the first
  one with a field, a name or an end past a position; a move aside the next or previous sibling; a
  move up drops an index; and a move succeeds exactly when the position changes.
\<close>

theorem cursor_moves_along_paths:
  assumes "ends_sorted n"
  shows "(case cursor_run xs (NewTreeCursor (Some n) tree) of (bs, c) \<Rightarrow>
      case path_run xs (Some n, []) of (bs', p) \<Rightarrow> bs = bs' \<and> CurrentNode c = node_of p \<and> Depth c = length (snd p))"
proof -
  have "fst (cursor_run xs (NewTreeCursor (Some n) tree)) = fst (path_run xs (Some n, []))
      \<and> cursor_at (snd (cursor_run xs (NewTreeCursor (Some n) tree))) (snd (path_run xs (Some n, [])))"
    using assms by (intro cursor_run_at cursor_at_new) simp
  then show ?thesis using cursor_current cursor_depth by (auto split: prod.splits)
qed

theorem cursor_moves_along_paths_witness:
  "ends_sorted demo_tree
   \<and> cursor_run [FirstChild, NextNamedSibling, ChildForByte 5, PrevNamedSibling, Parent] (NewTreeCursor (Some demo_tree) None)
     = ([True, True, True, False, True], snd (cursor_run [FirstChild, NextSibling] (NewTreeCursor (Some demo_tree) None)))
   \<and> CurrentNode (snd (cursor_run [FirstChild, NextSibling] (NewTreeCursor (Some demo_tree) None))) = Some (kids demo_tree ! 1)"
proof -
  have s: "ends_sorted demo_tree" by code_simp
  have p: "path_run [FirstChild, NextSibling] (Some demo_tree, []) = ([True, True], (Some demo_tree, [1]))" by code_simp
  have n: "node_of (Some demo_tree, [Suc 0]) = Some (kids demo_tree ! Suc 0)" by code_simp
  have "cursor_run [FirstChild, NextNamedSibling, ChildForByte 5, PrevNamedSibling, Parent] (NewTreeCursor (Some demo_tree) None)
     = ([True, True, True, False, True], snd (cursor_run [FirstChild, NextSibling] (NewTreeCursor (Some demo_tree) None)))" by code_simp
  then show ?thesis
    using s cursor_moves_along_paths [OF s, of "[FirstChild, NextSibling]" None] unfolding p
    by (simp add: n split: prod.splits)
qed

text \<open>The shape of a cursor: each frame but the first is the child of the frame before it at its index.\<close>

definition linked :: "cursorFrame \<Rightarrow> cursorFrame \<Rightarrow> bool" where
  "linked f g \<longleftrightarrow>
     (case cf_node f of
        None \<Rightarrow> False
      | Some n \<Rightarrow> 0 \<le> cf_childIndex g \<and> cf_childIndex g < int (length (kids n)) \<and> cf_node g = Some (kids n ! nat (cf_childIndex g)))"

fun well_linked :: "cursorFrame list \<Rightarrow> bool" where
  "well_linked (f # g # fs) \<longleftrightarrow> linked f g \<and> well_linked (g # fs)"
| "well_linked fs \<longleftrightarrow> True"

definition cursor_shape :: "treeCursor \<Rightarrow> bool" where
  "cursor_shape c \<longleftrightarrow> tc_stack c \<noteq> [] \<and> cf_childIndex (hd (tc_stack c)) = - 1 \<and> well_linked (tc_stack c)"

lemma well_linked_snoc: "well_linked (fs @ [f, g]) \<longleftrightarrow> well_linked (fs @ [f]) \<and> linked f g"
  by (induction fs rule: well_linked.induct) auto

lemma frames_linked: "valid_position (r, is) \<Longrightarrow> well_linked (frames (r, is))"
proof (induction "is" rule: rev_induct)
  case Nil
  then show ?case by (simp add: frames_Nil)
next
  case (snoc i "is")
  note IH = snoc.IH [OF valid_parent [OF snoc.prems]]
  obtain fs where fs: "frames (r, is) = fs @ [path_frame r is]"
    using last_frames [of r "is"] length_frames [of r "is"] by (cases "frames (r, is)" rule: rev_cases) auto
  obtain m where "node_of (r, is) = Some m" "i < length (kids m)" using snoc.prems by (auto simp: valid_snoc)
  then have "linked (path_frame r is) \<lparr>cf_node = node_of (r, is @ [i]), cf_childIndex = int i\<rparr>"
    by (simp add: linked_def path_frame_def node_of_snoc)
  then show ?case using IH by (simp add: frames_snoc fs well_linked_snoc)
qed

lemma cursor_at_shape: "cursor_at c (r, is) \<Longrightarrow> cursor_shape c"
proof -
  assume "cursor_at c (r, is)"
  moreover have "hd (frames (r, is)) = path_frame r []" by (simp add: frames_def upt_conv_Cons del: upt_Suc)
  ultimately show ?thesis
    using frames_linked [of r "is"] length_frames [of r "is"]
    by (cases "frames (r, is)") (auto simp: cursor_shape_def cursor_at_def path_frame_def)
qed

datatype cursorOp = Move cursorMove | ResetTo "syntaxNode option" | ResetToTree "cursorTree option" | CopyIt

fun cursor_op :: "cursorOp \<Rightarrow> treeCursor \<Rightarrow> treeCursor" where
  "cursor_op (Move x) c = snd (cursor_step x c)"
| "cursor_op (ResetTo n) c = Reset_cursor n c"
| "cursor_op (ResetToTree t) c = ResetTree t c"
| "cursor_op CopyIt c = Copy c"

lemma find_bound: "List.find P is = Some i \<Longrightarrow> i \<in> set is"
  by (auto simp: find_Some_iff)

definition selects :: "treeCursor \<Rightarrow> syntaxNode \<Rightarrow> bool \<times> treeCursor \<Rightarrow> bool" where
  "selects c n r \<longleftrightarrow> snd r = c \<or> (\<exists>i<length (kids n). snd r = push_child n i c)"

lemma goto_child_selects:
  "CurrentNode c = Some n \<Longrightarrow> (\<And>i. x = Some i \<Longrightarrow> i < length (kids n)) \<Longrightarrow> selects c n (goto_child x c)"
  by (auto simp: goto_child_def selects_def split: option.splits)

lemma goto_child_for_selects: "CurrentNode c = Some n \<Longrightarrow> selects c n (found (goto_child_for P c))"
  by (cases "sort_search (length (kids n)) (\<lambda>i. P (kids n ! i)) < length (kids n)")
     (auto simp: goto_child_for_def found_def selects_def Let_def)

lemma child_step_selects:
  assumes "is_child_move x" "CurrentNode c = Some n"
  shows "selects c n (cursor_step x c)"
proof (cases x)
  case FirstChild
  then show ?thesis using assms by (auto simp: GotoFirstChild_def selects_def)
next
  case LastChild
  then show ?thesis using assms by (auto simp: GotoLastChild_def selects_def intro!: exI [of _ "length (kids n) - 1"])
next
  case (ChildByField fid)
  have "selects c n (goto_child (field_index n fid) c)"
    by (rule goto_child_selects [OF assms(2)]) (auto simp: field_index_def dest: find_bound)
  then show ?thesis
    using ChildByField assms by (auto simp: GotoChildByFieldID_def selects_def [of c n "(False, c)"])
next
  case FirstNamedChild
  have "selects c n (goto_child (find_named n [0..<length (kids n)]) c)"
    by (rule goto_child_selects [OF assms(2)]) (auto simp: find_named_def dest!: find_bound)
  then show ?thesis using FirstNamedChild assms by (simp add: GotoFirstNamedChild_def)
next
  case LastNamedChild
  have "selects c n (goto_child (find_named n (rev [0..<length (kids n)])) c)"
    by (rule goto_child_selects [OF assms(2)]) (auto simp: find_named_def dest!: find_bound)
  then show ?thesis using LastNamedChild assms by (simp add: GotoLastNamedChild_def)
qed (use assms goto_child_for_selects [OF assms(2)] in
      \<open>auto simp: is_child_move_def GotoFirstChildForByte_def GotoFirstChildForPoint_def\<close>)

lemma child_step_none:
  assumes "is_child_move x" "CurrentNode c = None"
  shows "snd (cursor_step x c) = c"
  using assms
  by (cases x)
     (auto simp: is_child_move_def GotoFirstChild_def GotoLastChild_def GotoChildByFieldID_def GotoFirstNamedChild_def
        GotoLastNamedChild_def GotoFirstChildForByte_def GotoFirstChildForPoint_def goto_child_def goto_child_for_def found_def)

lemma cursor_op_at:
  assumes "cursor_at c p"
  shows "\<exists>q. cursor_at (cursor_op x c) q"
proof (cases x)
  case (Move y)
  obtain r "is" where p: "p = (r, is)" by fastforce
  note at = assms [unfolded p]
  show ?thesis
  proof (cases "is_child_move y")
    case child: True
    show ?thesis
    proof (cases "CurrentNode c")
      case None
      then show ?thesis using Move child_step_none [OF child None] at by auto
    next
      case (Some n)
      then have "node_of (r, is) = Some n" using cursor_current [OF at] by simp
      from child_step_selects [OF child Some] show ?thesis
        using cursor_child [OF at \<open>node_of (r, is) = Some n\<close>] Move at unfolding selects_def by force
    qed
  next
    case False
    define f where "f = (if y = Parent then GotoParent c else goto_sibling (sibling_choice y) c)"
    have "cursor_step y c = f" using sibling_moves [OF at False] by (simp add: f_def)
    moreover have "\<exists>q. cursor_at (snd f) q"
    proof (cases "is" rule: rev_cases)
      case Nil
      then show ?thesis using at cursor_root [of c r] by (auto simp: f_def GotoParent_def goto_sibling_def)
    next
      case (snoc js i)
      note at' = at [unfolded snoc]
      have v: "valid_position (r, js)" using at' valid_parent by (auto simp: cursor_at_def)
      obtain m where m: "node_of (r, js) = Some m" "i < length (kids m)" using at' by (auto simp: cursor_at_def valid_snoc)
      have up: "cursor_at (c\<lparr>tc_stack := butlast (tc_stack c)\<rparr>) (r, js)"
        using cursor_below(4) [OF at'] v by (simp add: cursor_at_def)
      show ?thesis
        using cursor_below [OF at'] m up at' sibling_choice_bound [of y m i] cursor_sibling [OF at' m(1)]
        by (auto simp: f_def GotoParent_def goto_sibling_def split: option.splits)
    qed
    ultimately show ?thesis using Move by simp
  qed
next
  case (ResetTo n)
  then show ?thesis using cursor_at_new [of n "tc_tree c"] by (auto simp: Reset_cursor_def NewTreeCursor_def cursor_at_def)
next
  case (ResetToTree t)
  have "cursor_at (Reset_cursor n c') (n, [])" for n c'
    by (simp add: cursor_at_def Reset_cursor_def frames_Nil valid_position_def)
  then show ?thesis using ResetToTree by (auto simp: ResetTree_def Let_def split: option.splits)
next
  case CopyIt
  then have "cursor_at (cursor_op x c) p" using assms by (simp add: Copy_def cursor_at_def)
  then show ?thesis by blast
qed

text \<open>
  C40. The stack of a cursor keeps its shape. Whatever the tree, after any moves, resets and copies the
  stack is not empty, its first frame has no index, and every other frame holds the child of the frame
  before it at the index it records.
\<close>

theorem cursor_keeps_shape:
  "cursor_shape (fold cursor_op ops (NewTreeCursor n tree))"
proof -
  have "\<exists>p. cursor_at (fold cursor_op ops c) p" if "cursor_at c p" for c p
    using that
  proof (induction ops arbitrary: c p)
    case (Cons x ops)
    from cursor_op_at [OF Cons.prems, of x] show ?case using Cons.IH by auto
  qed auto
  from this [OF cursor_at_new [of n tree]] obtain r "is" where "cursor_at (fold cursor_op ops (NewTreeCursor n tree)) (r, is)" by fastforce
  then show ?thesis by (rule cursor_at_shape)
qed

end
