(* ===== verification/Tree_Edit.thy ===== *)
theory Tree_Edit
  imports Tree_Nodes
begin

text \<open>
  Editing a tree, \<^verbatim>\<open>internal/runtime/tree.go\<close> with the dependencies of \<^verbatim>\<open>missing_node_dependency.go\<close> and
  \<^verbatim>\<open>incremental.go\<close>: an edit moves the spans of the nodes after it and marks the nodes it may have
  changed. The lemmas show that a node left unmarked has the same text in the new source as it had in
  the old one, for one edit and for all the edits of a rewriter, and that edited trees keep nested and
  ordered spans.

  The walk over children that are still compact references, the leaf remembered for the reuse cursor
  and the counters of performance builds are left out. The preparation that fills in the recorded
  lookahead and column dependencies precedes the model.
\<close>

section \<open>Dependencies of missing leaves\<close>

definition positionedByte :: "missingNodeDependency \<Rightarrow> u32 option" where
  "positionedByte d =
     (if 4294967295 - md_stackByte d < md_paddingBytes d then None else Some (md_stackByte d + md_paddingBytes d))"

definition positionedPoint :: "missingNodeDependency \<Rightarrow> point option" where
  "positionedPoint d =
     (if Row (md_paddingExtent d) = 0 then
        (if 4294967295 - Column (md_stackPoint d) < Column (md_paddingExtent d) then None
         else Some \<lparr>Row = Row (md_stackPoint d), Column = Column (md_stackPoint d) + Column (md_paddingExtent d)\<rparr>)
      else if 4294967295 - Row (md_stackPoint d) < Row (md_paddingExtent d) then None
      else Some \<lparr>Row = Row (md_stackPoint d) + Row (md_paddingExtent d), Column = Column (md_paddingExtent d)\<rparr>)"

definition dependency_end :: "missingNodeDependency \<Rightarrow> u32 option" where
  "dependency_end d =
     (case positionedByte d of
        None \<Rightarrow> None
      | Some p \<Rightarrow> if 4294967295 - p < md_lookaheadBytes d then None else Some (p + md_lookaheadBytes d))"

text \<open>A record fits a leaf when it positions the leaf where it stands.\<close>

definition dependency_fits :: "nodeData \<Rightarrow> missingNodeDependency \<Rightarrow> bool" where
  "dependency_fits n d \<longleftrightarrow>
     positionedByte d = Some (na_startByte n) \<and> na_startByte n = na_endByte n
     \<and> positionedPoint d = Some (na_startPoint n) \<and> na_startPoint n = na_endPoint n \<and> dependency_end d \<noteq> None"

definition setMissingNodeDependency :: "nodeData \<Rightarrow> missingNodeDependency \<Rightarrow> nodeData option" where
  "setMissingNodeDependency n d =
     (if na_owned n \<and> na_missing n \<and> dependency_fits n d then Some (n\<lparr>na_missingDependency := Some d\<rparr>) else None)"

definition missingNodeDependencyEntryForNode :: "nodeData \<Rightarrow> missingNodeDependency option" where
  "missingNodeDependencyEntryForNode n = (if \<not> na_owned n \<or> \<not> na_missing n then None else na_missingDependency n)"

definition missingNodeDependencyForNode :: "nodeData \<Rightarrow> missingNodeDependency option" where
  "missingNodeDependencyForNode n =
     (case missingNodeDependencyEntryForNode n of None \<Rightarrow> None | Some d \<Rightarrow> if dependency_fits n d then Some d else None)"

definition pointExtentBetween :: "point \<Rightarrow> point \<Rightarrow> point option" where
  "pointExtentBetween a b =
     (if Row b < Row a \<or> Row b = Row a \<and> Column b < Column a then None
      else if Row b = Row a then Some \<lparr>Row = 0, Column = Column b - Column a\<rparr>
      else Some \<lparr>Row = Row b - Row a, Column = Column b\<rparr>)"

definition inputEditBytesAreNoop :: "inputEdit \<Rightarrow> bool" where
  "inputEditBytesAreNoop e \<longleftrightarrow> ie_StartByte e = ie_OldEndByte e \<and> ie_OldEndByte e = ie_NewEndByte e"

definition set_dirty :: "nodeData \<Rightarrow> nodeData" where
  "set_dirty n = n\<lparr>na_dirty := True\<rparr>"

text \<open>Storing a record that does not fit leaves the old one and marks the leaf.\<close>

definition store_dependency :: "nodeData \<Rightarrow> missingNodeDependency \<Rightarrow> nodeData" where
  "store_dependency n d = (case setMissingNodeDependency n d of None \<Rightarrow> set_dirty n | Some n' \<Rightarrow> n')"

text \<open>The position and the record of a leaf whose padding or lookahead the edit reached.\<close>

definition move_missing :: "inputEdit \<Rightarrow> int \<Rightarrow> int \<Rightarrow> missingNodeDependency \<Rightarrow> u32 \<times> point \<times> missingNodeDependency" where
  "move_missing e bd rd d =
     (let pb = the (positionedByte d); pp = the (positionedPoint d);
          d = (if ie_StartByte e < md_stackByte d \<and> ie_OldEndByte e > md_stackByte d
               then d\<lparr>md_stackByte := ie_NewEndByte e, md_stackPoint := ie_NewEndPoint e\<rparr> else d);
          (pb, pp) =
            (if ie_OldEndByte e \<le> pb then (addUint32Delta pb bd, shiftPointAfterEdit pp e rd)
             else if ie_StartByte e < pb then (ie_NewEndByte e, ie_NewEndPoint e)
             else (pb, pp));
          (pb, pp) = (if pb < md_stackByte d then (md_stackByte d, md_stackPoint d) else (pb, pp)) in
      case pointExtentBetween (md_stackPoint d) pp of
        Some ext \<Rightarrow> (pb, pp, d\<lparr>md_paddingBytes := pb - md_stackByte d, md_paddingExtent := ext\<rparr>)
      | None \<Rightarrow> (pb, md_stackPoint d, d\<lparr>md_paddingBytes := 0, md_paddingExtent := zero_point\<rparr>))"

definition editMissingNodeDependency :: "inputEdit \<Rightarrow> int \<Rightarrow> int \<Rightarrow> nodeData \<Rightarrow> bool \<times> nodeData" where
  "editMissingNodeDependency e bd rd n =
     (case missingNodeDependencyForNode n of
        None \<Rightarrow> if missingNodeDependencyEntryForNode n \<noteq> None then (True, set_dirty n) else (False, n)
      | Some d \<Rightarrow>
          let dependencyEnd = the (dependency_end d) in
          if ie_StartByte e > dependencyEnd \<or> (inputEditBytesAreNoop e \<and> ie_StartByte e = dependencyEnd)
             \<or> (ie_OldEndByte e \<le> md_stackByte d \<and> ie_StartByte e < md_stackByte d)
          then (False, n)
          else
            (case move_missing e bd rd d of (pb, pp, d') \<Rightarrow>
               (True, store_dependency ((set_dirty n)\<lparr>na_startByte := pb, na_endByte := pb, na_startPoint := pp, na_endPoint := pp\<rparr>) d')))"

definition missingNodeDependencyNoopAtEnd :: "inputEdit \<Rightarrow> nodeData \<Rightarrow> bool" where
  "missingNodeDependencyNoopAtEnd e n \<longleftrightarrow>
     inputEditBytesAreNoop e
     \<and> (case missingNodeDependencyForNode n of None \<Rightarrow> False | Some d \<Rightarrow> dependency_end d = Some (ie_StartByte e))"

section \<open>Recorded lookahead\<close>

definition legacyReuseLookahead :: "nodeData \<Rightarrow> u32 option" where
  "legacyReuseLookahead n = (if na_owned n then na_lookahead n else None)"

definition RequiresFreshResult :: "nat \<Rightarrow> bool" where
  "RequiresFreshResult sourceBytes \<longleftrightarrow> sourceBytes \<ge> 524288"

text \<open>
  Whether a node ends, with everything it depends on, before an edit. A child entry asks its own
  children again when it is a missing node with an error.
\<close>

function nodeEndsBeforeEditDependency :: "u32 \<Rightarrow> syntaxNode \<Rightarrow> bool"
  and stackEntryEndsBeforeEditDependency :: "u32 \<Rightarrow> syntaxNode \<Rightarrow> bool" where
  "nodeEndsBeforeEditDependency editStart (SyntaxNode n ks) \<longleftrightarrow>
     (case missingNodeDependencyForNode n of
        Some d \<Rightarrow> (case dependency_end d of None \<Rightarrow> False | Some fin \<Rightarrow> fin < editStart)
      | None \<Rightarrow>
          if missingNodeDependencyEntryForNode n \<noteq> None then False
          else if na_hasError n \<and> \<not> (\<forall>c\<in>set ks. stackEntryEndsBeforeEditDependency editStart c) then False
          else (case legacyReuseLookahead n of
                  Some k \<Rightarrow> uint (na_endByte n) + uint k < uint editStart
                | None \<Rightarrow> na_endByte n \<le> editStart))"
| "stackEntryEndsBeforeEditDependency editStart (SyntaxNode n ks) \<longleftrightarrow>
     (if \<not> nodeEndsBeforeEditDependency editStart (SyntaxNode n ks) then False
      else if \<not> na_hasError n \<or> \<not> na_missing n then True
      else (\<forall>c\<in>set ks. stackEntryEndsBeforeEditDependency editStart c))"
  by pat_completeness auto
termination
  by (relation "measure (\<lambda>x. case x of Inl (s, n) \<Rightarrow> 2 * size n | Inr (s, n) \<Rightarrow> 2 * size n + 1)")
     (auto dest!: kid_smaller [of _ "SyntaxNode _ _", simplified])

text \<open>Marking a node whose text ends before the edit and whose scan read past it.\<close>

fun editLegacyLookaheadOnly :: "inputEdit \<Rightarrow> syntaxNode \<Rightarrow> bool \<times> syntaxNode" where
  "editLegacyLookaheadOnly e (SyntaxNode n ks) =
     (let unchanged = (False, SyntaxNode n ks) in
      if (ie_OldEndByte e \<noteq> ie_NewEndByte e \<or> ie_OldEndPoint e \<noteq> ie_NewEndPoint e)
         \<and> (\<not> na_owned n \<or> (case na_readsSource n of None \<Rightarrow> True | Some src \<Rightarrow> \<not> RequiresFreshResult (unat src)))
      then unchanged
      else if na_owned n \<and> na_readsSource n = Some (ie_StartByte e) \<and> ie_OldEndByte e \<noteq> ie_NewEndByte e then unchanged
      else if na_missing n \<or> na_hasError n \<or> na_endByte n > ie_StartByte e then unchanged
      else if na_endByte n = ie_StartByte e \<and> na_startByte n = na_endByte n then unchanged
      else case legacyReuseLookahead n of
        None \<Rightarrow> unchanged
      | Some k \<Rightarrow>
          if uint (na_endByte n) + uint k < uint (ie_StartByte e) then unchanged
          else if inputEditIsNoop e \<and> uint (na_endByte n) + uint k = uint (ie_StartByte e) then unchanged
          else (True, SyntaxNode (set_dirty n) (map (\<lambda>c. snd (editLegacyLookaheadOnly e c)) ks)))"

section \<open>Column dependencies\<close>

record editColumnRule =
  cr_parentDependsOnColumn :: bool
  cr_columnShifted :: bool
  cr_parentStartRow :: u32
  cr_editOldEndRow :: u32

definition rule_active :: "editColumnRule \<Rightarrow> bool" where
  "rule_active r \<longleftrightarrow> cr_parentDependsOnColumn r \<or> cr_columnShifted r"

definition breaksAt :: "editColumnRule \<Rightarrow> bool \<Rightarrow> u32 \<Rightarrow> bool" where
  "breaksAt r childDependsOnColumn childLeftRow \<longleftrightarrow>
     (if cr_parentDependsOnColumn r \<and> childLeftRow \<le> cr_parentStartRow r then False
      else if childDependsOnColumn \<and> cr_columnShifted r \<and> childLeftRow \<le> cr_editOldEndRow r then False
      else True)"

definition column_rule :: "inputEdit \<Rightarrow> nodeData \<Rightarrow> editColumnRule" where
  "column_rule e n =
     \<lparr>cr_parentDependsOnColumn = na_dependsOnColumn n, cr_columnShifted = editShiftsTextAfterIt e,
      cr_parentStartRow = Row (na_startPoint n), cr_editOldEndRow = Row (ie_OldEndPoint e)\<rparr>"

fun markColumnDependentSubtreeChanged :: "syntaxNode \<Rightarrow> syntaxNode"
  and mark_columns :: "bool \<Rightarrow> u32 \<Rightarrow> bool \<Rightarrow> u32 \<Rightarrow> syntaxNode list \<Rightarrow> syntaxNode list" where
  "markColumnDependentSubtreeChanged (SyntaxNode n ks) =
     SyntaxNode (set_dirty n)
       (mark_columns (na_dependsOnColumn n) (Row (na_startPoint n)) True (Row (na_startPoint n)) ks)"
| "mark_columns dep startRow first prevEndRow [] = []"
| "mark_columns dep startRow first prevEndRow (c # cs) =
     (if \<not> first \<and> (\<not> dep \<or> prevEndRow > startRow) then c # cs
      else markColumnDependentSubtreeChanged c # mark_columns dep startRow False (Row (endPoint c)) cs)"

section \<open>The edit walks\<close>

text \<open>Shifting a node after the edit, and its subtree.\<close>

definition shift_node :: "inputEdit \<Rightarrow> nodeData \<Rightarrow> nodeData" where
  "shift_node e n =
     (let n' = n\<lparr>na_startByte := addUint32Delta (na_startByte n) (byteDelta e),
                 na_endByte := addUint32Delta (na_endByte n) (byteDelta e),
                 na_startPoint := shiftPointAfterEdit (na_startPoint n) e (rowDelta e),
                 na_endPoint := shiftPointAfterEdit (na_endPoint n) e (rowDelta e)\<rparr> in
      case missingNodeDependencyForNode n of
        None \<Rightarrow> n'
      | Some d \<Rightarrow>
          store_dependency n' (d\<lparr>md_stackByte := addUint32Delta (md_stackByte d) (byteDelta e),
                                 md_stackPoint := shiftPointAfterEdit (md_stackPoint d) e (rowDelta e)\<rparr>))"

fun shiftSubtreeAfterEdit :: "inputEdit \<Rightarrow> syntaxNode \<Rightarrow> syntaxNode" where
  "shiftSubtreeAfterEdit e (SyntaxNode n ks) = SyntaxNode (shift_node e n) (map (shiftSubtreeAfterEdit e) ks)"

text \<open>A node that overlaps the edit: its mark and its new span.\<close>

definition overlap_node :: "inputEdit \<Rightarrow> nodeData \<Rightarrow> nodeData" where
  "overlap_node e n =
     (let m = set_dirty n;
          m = (if na_startByte m > ie_StartByte e then m\<lparr>na_startByte := ie_NewEndByte e, na_startPoint := ie_NewEndPoint e\<rparr> else m) in
      if na_endByte m \<le> ie_OldEndByte e
      then m\<lparr>na_endByte := ie_NewEndByte e, na_endPoint := ie_NewEndPoint e\<rparr>
      else m\<lparr>na_endByte := addUint32Delta (na_endByte m) (byteDelta e),
             na_endPoint := shiftPointAfterEdit (na_endPoint m) e (rowDelta e)\<rparr>)"

definition skips_before :: "inputEdit \<Rightarrow> syntaxNode \<Rightarrow> bool" where
  "skips_before e c \<longleftrightarrow>
     nodeEndsBeforeEditDependency (ie_StartByte e) c
     \<and> \<not> (editShiftsTextAfterIt e \<and> endByte c = ie_StartByte e \<and> (na_owned (info c) \<or> na_compact (info c)))"

fun editNodeWithDelta :: "inputEdit \<Rightarrow> syntaxNode \<Rightarrow> syntaxNode"
  and edit_children :: "inputEdit \<Rightarrow> editColumnRule \<Rightarrow> u32 \<Rightarrow> syntaxNode list \<Rightarrow> syntaxNode list" where
  "editNodeWithDelta e (SyntaxNode n ks) =
     (let legacy = editLegacyLookaheadOnly e (SyntaxNode n ks);
          missing = editMissingNodeDependency e (byteDelta e) (rowDelta e) n in
      if fst legacy then snd legacy
      else if fst missing then SyntaxNode (snd missing) ks
      else if missingNodeDependencyNoopAtEnd e n then SyntaxNode n ks
      else if na_endByte n < ie_StartByte e \<and> \<not> na_hasError n \<and> \<not> na_missing n then SyntaxNode n ks
      else if skips_before e (SyntaxNode n ks) then SyntaxNode n ks
      else if na_startByte n \<ge> ie_OldEndByte e
      then (if \<not> editShiftsTextAfterIt e then SyntaxNode n ks
            else SyntaxNode (shift_node e n) (map (shiftSubtreeAfterEdit e) ks))
      else let m = overlap_node e n in SyntaxNode m (edit_children e (column_rule e m) (Row (na_startPoint m)) ks))"
| "edit_children e rule prevEndRow [] = []"
| "edit_children e rule prevEndRow (c # cs) =
     (if skips_before e c then c # edit_children e rule (Row (endPoint c)) cs
      else if startByte c \<ge> ie_OldEndByte e then
        (let invalidate = (rule_active rule \<and> \<not> breaksAt rule (na_dependsOnColumn (info c)) prevEndRow) in
         if \<not> invalidate \<and> \<not> editShiftsTextAfterIt e then c # cs
         else (let c' = shiftSubtreeAfterEdit e c in if invalidate then markColumnDependentSubtreeChanged c' else c')
              # edit_children e rule (Row (endPoint c)) cs)
      else editNodeWithDelta e c # edit_children e rule (Row (endPoint c)) cs)"

fun editNodeSingleByteReplacement :: "inputEdit \<Rightarrow> syntaxNode \<Rightarrow> syntaxNode"
  and single_children :: "inputEdit \<Rightarrow> editColumnRule \<Rightarrow> u32 \<Rightarrow> syntaxNode list \<Rightarrow> syntaxNode list" where
  "editNodeSingleByteReplacement e (SyntaxNode n ks) =
     (let legacy = editLegacyLookaheadOnly e (SyntaxNode n ks);
          missing = editMissingNodeDependency e 0 0 n in
      if fst legacy then snd legacy
      else if fst missing then SyntaxNode (snd missing) ks
      else if missingNodeDependencyNoopAtEnd e n then SyntaxNode n ks
      else if nodeEndsBeforeEditDependency (ie_StartByte e) (SyntaxNode n ks) \<or> na_startByte n \<ge> ie_OldEndByte e
      then SyntaxNode n ks
      else SyntaxNode (set_dirty n) (single_children e (column_rule e n) (Row (na_startPoint n)) ks))"
| "single_children e rule prevEndRow [] = []"
| "single_children e rule prevEndRow (c # cs) =
     (if nodeEndsBeforeEditDependency (ie_StartByte e) c then c # single_children e rule (Row (endPoint c)) cs
      else if startByte c \<ge> ie_OldEndByte e then
        (if \<not> rule_active rule \<or> breaksAt rule (na_dependsOnColumn (info c)) prevEndRow then c # cs
         else markColumnDependentSubtreeChanged c # single_children e rule (Row (endPoint c)) cs)
      else editNodeSingleByteReplacement e c # single_children e rule (Row (endPoint c)) cs)"

section \<open>Trees\<close>

record parseTree =
  pt_root :: "syntaxNode option"
  pt_edits :: "inputEdit list"
  pt_includedRanges :: "range list"

definition edit_root :: "inputEdit \<Rightarrow> syntaxNode \<Rightarrow> syntaxNode" where
  "edit_root e n = (if inputEditIsSingleByteReplacement e then editNodeSingleByteReplacement e n else editNodeWithDelta e n)"

definition Edit :: "inputEdit \<Rightarrow> parseTree \<Rightarrow> parseTree" where
  "Edit e t =
     t\<lparr>pt_edits := pt_edits t @ [e], pt_includedRanges := editIncludedRanges e (pt_includedRanges t),
       pt_root := map_option (edit_root e) (pt_root t)\<rparr>"

text \<open>Editing through a node edits the root above it and records nothing.\<close>

definition node_Edit :: "inputEdit \<Rightarrow> syntaxNode \<Rightarrow> syntaxNode" where
  "node_Edit e root = (if inputEditIsNoop e then root else editNodeWithDelta e root)"

definition ApplyToTree :: "rewriter \<Rightarrow> parseTree \<Rightarrow> rewriteError + bytes \<times> parseTree" where
  "ApplyToTree r t =
     (case Apply r of Inl err \<Rightarrow> Inl err | Inr (newSource, edits) \<Rightarrow> Inr (newSource, fold Edit edits t))"

section \<open>Clean nodes\<close>

text \<open>A subtree is hollow when each of its nodes is marked or has no text.\<close>

definition blank :: "nodeData \<Rightarrow> bool" where
  "blank n \<longleftrightarrow> na_dirty n \<or> na_startByte n = na_endByte n"

definition hollow :: "syntaxNode \<Rightarrow> bool" where
  "hollow n \<longleftrightarrow> list_all (\<lambda>m. blank (info m)) (nodes_of n)"

text \<open>
  Spans that lie in the text, nested in their parents and ordered by their starts; hollow subtrees are
  exempt, and missing nodes are leaves.
\<close>

fun spans_ok :: "nat \<Rightarrow> syntaxNode \<Rightarrow> bool" where
  "spans_ok len (SyntaxNode n ks) \<longleftrightarrow>
     na_startByte n \<le> na_endByte n \<and> unat (na_endByte n) \<le> len \<and> (na_missing n \<longrightarrow> ks = [])
     \<and> sorted_wrt (\<lambda>a b. startByte a \<le> startByte b \<or> hollow b) ks
     \<and> (\<forall>c\<in>set ks. hollow c \<or> na_startByte n \<le> startByte c \<and> endByte c \<le> na_endByte n \<and> spans_ok len c)"

text \<open>
  What an edit may do to a node: mark it, leave it before the edit, move it with the text after the
  edit, or keep it without text.
\<close>

definition kept :: "inputEdit \<Rightarrow> nodeData \<Rightarrow> nodeData \<Rightarrow> bool" where
  "kept e n n' \<longleftrightarrow>
     na_dirty n'
     \<or> (na_endByte n \<le> ie_StartByte e \<and> na_startByte n' = na_startByte n \<and> na_endByte n' = na_endByte n)
     \<or> (ie_OldEndByte e \<le> na_startByte n
        \<and> unat (na_startByte n') = unat (na_startByte n) - unat (ie_OldEndByte e) + unat (ie_NewEndByte e)
        \<and> unat (na_endByte n') = unat (na_endByte n) - unat (ie_OldEndByte e) + unat (ie_NewEndByte e))
     \<or> (na_startByte n = na_endByte n \<and> na_startByte n' = na_endByte n')"

definition dirtier :: "nodeData \<Rightarrow> nodeData \<Rightarrow> bool" where
  "dirtier n n' \<longleftrightarrow> n' = n \<or> n' = set_dirty n"

text \<open>Whatever its spans, an edited node keeps its mark, its kind, and stays without text.\<close>

definition stays :: "nodeData \<Rightarrow> nodeData \<Rightarrow> bool" where
  "stays n n' \<longleftrightarrow>
     (na_dirty n \<longrightarrow> na_dirty n') \<and> (blank n \<longrightarrow> blank n') \<and> na_missing n' = na_missing n
     \<and> (na_missingDependency n = None \<longrightarrow> na_missingDependency n' = None)"

definition node_pairs :: "(nodeData \<Rightarrow> nodeData \<Rightarrow> bool) \<Rightarrow> syntaxNode \<Rightarrow> syntaxNode \<Rightarrow> bool" where
  "node_pairs R a b \<longleftrightarrow> list_all2 (\<lambda>m m'. R (info m) (info m')) (nodes_of a) (nodes_of b)"

lemma node_pairsI:
  assumes "R d d'" "list_all2 (node_pairs R) ks ks'"
  shows "node_pairs R (SyntaxNode d ks) (SyntaxNode d' ks')"
proof -
  have "list_all2 (\<lambda>m m'. R (info m) (info m')) (concat (map nodes_of ks)) (concat (map nodes_of ks'))"
    using assms(2) by (induction rule: list_all2_induct) (auto simp: node_pairs_def intro: list_all2_appendI)
  then show ?thesis using assms(1) by (simp add: node_pairs_def)
qed

lemma node_pairs_trans:
  assumes "node_pairs P a b" "node_pairs Q b c" "\<And>x y z. P x y \<Longrightarrow> Q y z \<Longrightarrow> R x z"
  shows "node_pairs R a c"
  using assms(1,2) unfolding node_pairs_def by (rule list_all2_trans [rotated]) (rule assms(3))

lemma node_pairs_mono: "node_pairs P a b \<Longrightarrow> (\<And>x y. P x y \<Longrightarrow> Q x y) \<Longrightarrow> node_pairs Q a b"
  unfolding node_pairs_def by (auto elim: list_all2_mono)

lemma node_pairs_refl: "(\<And>d. R d d) \<Longrightarrow> node_pairs R n n"
  by (simp add: node_pairs_def list_all2_refl)

lemma dirtier_stays: "dirtier x y \<Longrightarrow> stays x y"
  by (auto simp: dirtier_def stays_def set_dirty_def blank_def)

lemma stays_refl: "stays x x"
  by (simp add: stays_def)

lemma kept_dirtier: "node_pairs (kept e) a b \<Longrightarrow> node_pairs dirtier b c \<Longrightarrow> node_pairs (kept e) a c"
  by (erule (1) node_pairs_trans) (auto simp: kept_def dirtier_def set_dirty_def)

lemma stays_dirtier: "node_pairs stays a b \<Longrightarrow> node_pairs dirtier b c \<Longrightarrow> node_pairs stays a c"
  by (erule (1) node_pairs_trans) (auto simp: stays_def dirtier_def set_dirty_def blank_def)

lemma hollow_pairs:
  assumes "hollow a" "node_pairs stays a b"
  shows "node_pairs (kept e) a b" "hollow b"
proof -
  have "list_all2 (\<lambda>m m'. stays (info m) (info m') \<and> blank (info m)) (nodes_of a) (nodes_of b)"
    using assms by (auto simp: node_pairs_def hollow_def list_all_length list_all2_conv_all_nth)
  then show "node_pairs (kept e) a b" "hollow b"
    unfolding node_pairs_def hollow_def
    by (auto simp: kept_def stays_def blank_def list_all_length list_all2_conv_all_nth)
qed

lemma hollow_refl: "hollow a \<Longrightarrow> node_pairs (kept e) a a"
  by (erule hollow_pairs) (simp add: node_pairs_refl stays_refl)

subsection \<open>Marks\<close>

lemma marked_pairs:
  "node_pairs dirtier n (markColumnDependentSubtreeChanged n)"
  "list_all2 (node_pairs dirtier) ks (mark_columns dep startRow first prevEndRow ks)"
proof (induction n and dep startRow first prevEndRow ks rule: markColumnDependentSubtreeChanged_mark_columns.induct)
  case (1 n ks)
  then show ?case by (auto intro!: node_pairsI simp: dirtier_def)
next
  case (3 dep startRow first prevEndRow c cs)
  then show ?case by (auto simp: list_all2_refl node_pairs_refl dirtier_def)
qed simp

lemma legacy_pairs: "node_pairs dirtier n (snd (editLegacyLookaheadOnly e n))"
proof (induction e n rule: editLegacyLookaheadOnly.induct)
  case (1 e n ks)
  have same: "node_pairs dirtier (SyntaxNode n ks) (SyntaxNode n ks)" by (rule node_pairs_refl) (simp add: dirtier_def)
  have "node_pairs dirtier c (snd (editLegacyLookaheadOnly e c))" if "c \<in> set ks" "fst (editLegacyLookaheadOnly e (SyntaxNode n ks))" for c
    using 1 that by (auto simp: Let_def split: if_splits option.splits)
  then have "node_pairs dirtier (SyntaxNode n ks) (SyntaxNode (set_dirty n) (map (\<lambda>c. snd (editLegacyLookaheadOnly e c)) ks))"
    if "fst (editLegacyLookaheadOnly e (SyntaxNode n ks))"
    using that by (intro node_pairsI) (auto simp: dirtier_def list_all2_conv_all_nth)
  then show ?case using same by (auto simp: Let_def split: if_splits option.splits)
qed

lemma legacy_before: "fst (editLegacyLookaheadOnly e (SyntaxNode n ks)) \<Longrightarrow> na_endByte n \<le> ie_StartByte e"
  by (auto simp: Let_def split: if_splits option.splits)

subsection \<open>Untouched and shifted subtrees\<close>

lemma untouched_before:
  "spans_ok len n \<Longrightarrow> endByte n \<le> ie_StartByte e \<Longrightarrow> node_pairs (kept e) n n"
proof (induction n)
  case (SyntaxNode n ks)
  have "node_pairs (kept e) c c" if "c \<in> set ks" for c
    using SyntaxNode that hollow_refl [of c e] by (cases "hollow c") (auto intro: order_trans)
  moreover have "kept e n n" using SyntaxNode.prems by (simp add: kept_def)
  ultimately show ?case by (intro node_pairsI) (simp_all add: list_all2_same)
qed

lemma untouched_after:
  "spans_ok len n \<Longrightarrow> ie_OldEndByte e \<le> startByte n \<Longrightarrow> ie_NewEndByte e = ie_OldEndByte e \<Longrightarrow> node_pairs (kept e) n n"
proof (induction n)
  case (SyntaxNode n ks)
  have "node_pairs (kept e) c c" if "c \<in> set ks" for c
    using SyntaxNode that hollow_refl [of c e] by (cases "hollow c") (auto intro: order_trans)
  moreover have "ie_OldEndByte e \<le> na_endByte n" using SyntaxNode.prems by auto
  then have "kept e n n" using SyntaxNode.prems by (simp add: kept_def word_le_nat_alt)
  ultimately show ?case by (intro node_pairsI) (simp_all add: list_all2_same)
qed

lemma unat_shifted:
  assumes "fits e len" "unat (ie_OldEndByte e) \<le> unat v" "unat v \<le> len"
  shows "unat (addUint32Delta v (byteDelta e)) = unat v - unat (ie_OldEndByte e) + unat (ie_NewEndByte e)"
proof -
  have d: "byteDelta e = int (unat (ie_NewEndByte e)) - int (unat (ie_OldEndByte e))" by (simp add: byteDelta_def)
  have "unat (ie_NewEndByte e) + (len - unat (ie_OldEndByte e)) < 4294967296" using assms(1) unfolding fits_def by blast
  then have b: "0 \<le> int (unat v) + byteDelta e" "int (unat v) + byteDelta e < 4294967296"
    using assms(2,3) unfolding d by linarith+
  show ?thesis using unat_addUint32Delta [OF b] assms(2) unfolding d by linarith
qed

lemma store_dependency_span:
  "na_startByte (store_dependency n d) = na_startByte n" "na_endByte (store_dependency n d) = na_endByte n"
  "na_dirty n \<Longrightarrow> na_dirty (store_dependency n d)"
  by (auto simp: store_dependency_def setMissingNodeDependency_def set_dirty_def)

lemma shift_node_span:
  "na_startByte (shift_node e n) = addUint32Delta (na_startByte n) (byteDelta e)"
  "na_endByte (shift_node e n) = addUint32Delta (na_endByte n) (byteDelta e)"
  by (auto simp: shift_node_def Let_def store_dependency_span split: option.splits)

lemma store_dependency_stays:
  "na_missing (store_dependency n d) = na_missing n" "na_missingDependency n \<noteq> None \<Longrightarrow> na_missingDependency (store_dependency n d) \<noteq> None"
  "na_dirty n \<Longrightarrow> na_dirty (store_dependency n d)"
  by (auto simp: store_dependency_def setMissingNodeDependency_def set_dirty_def)

lemma record_of_dependency: "na_missingDependency n = None \<Longrightarrow> missingNodeDependencyForNode n = None"
  by (simp add: missingNodeDependencyForNode_def missingNodeDependencyEntryForNode_def)

lemma shift_node_stays: "stays n (shift_node e n)"
proof (cases "missingNodeDependencyForNode n")
  case None
  then show ?thesis by (auto simp: stays_def blank_def shift_node_def Let_def)
next
  case (Some d)
  then have "na_missingDependency n \<noteq> None" using record_of_dependency [of n] by force
  then show ?thesis
    using Some store_dependency_span store_dependency_stays by (auto simp: stays_def blank_def shift_node_def Let_def)
qed

lemma shifted_stays: "node_pairs stays n (shiftSubtreeAfterEdit e n)"
proof (induction n)
  case (SyntaxNode n ks)
  then have "list_all2 (node_pairs stays) ks (map (shiftSubtreeAfterEdit e) ks)" by (simp add: list_all2_conv_all_nth)
  then show ?case using node_pairsI [of stays] shift_node_stays by simp
qed

lemma shifted_pairs:
  assumes "fits e len"
  shows "spans_ok len n \<Longrightarrow> ie_OldEndByte e \<le> startByte n \<Longrightarrow> node_pairs (kept e) n (shiftSubtreeAfterEdit e n)"
proof (induction n)
  case (SyntaxNode n ks)
  have "node_pairs (kept e) c (shiftSubtreeAfterEdit e c)" if "c \<in> set ks" for c
    using SyntaxNode that hollow_pairs(1) [OF _ shifted_stays, of c e] by (cases "hollow c") (auto intro: order_trans)
  then have kids: "list_all2 (node_pairs (kept e)) ks (map (shiftSubtreeAfterEdit e) ks)" by (simp add: list_all2_conv_all_nth)
  have "unat (ie_OldEndByte e) \<le> unat (na_startByte n)" "unat (na_startByte n) \<le> unat (na_endByte n)" "unat (na_endByte n) \<le> len"
    using SyntaxNode.prems by (auto simp: word_le_nat_alt)
  then have "kept e n (shift_node e n)"
    using unat_shifted [OF assms, of "na_startByte n"] unat_shifted [OF assms, of "na_endByte n"] SyntaxNode.prems(2)
    by (simp add: kept_def shift_node_span)
  then show ?case using kids by (simp add: node_pairsI)
qed

subsection \<open>Dependencies\<close>

lemma u32_le_max: "(x :: u32) \<le> 4294967295"
proof -
  have "unat x \<le> 4294967295" using unat_u32_less [of x] by linarith
  then show ?thesis by (simp add: word_le_nat_alt)
qed

lemma nodeEnds_before: "nodeEndsBeforeEditDependency s (SyntaxNode n ks) \<Longrightarrow> na_endByte n \<le> s"
proof (cases "missingNodeDependencyForNode n")
  case None
  moreover assume "nodeEndsBeforeEditDependency s (SyntaxNode n ks)"
  ultimately consider k where "uint (na_endByte n) + uint (k :: u32) < uint s" | "na_endByte n \<le> s"
    by (auto split: if_splits option.splits)
  then show ?thesis
  proof cases
    case (1 k)
    have "0 \<le> uint k" by simp
    then show ?thesis using 1 unfolding word_le_def by linarith
  qed
next
  case (Some d)
  assume "nodeEndsBeforeEditDependency s (SyntaxNode n ks)"
  then obtain fin where fin: "dependency_end d = Some fin" "fin < s" using Some by (auto split: option.splits)
  have fit: "positionedByte d = Some (na_endByte n)"
    using Some by (auto simp: missingNodeDependencyForNode_def dependency_fits_def split: option.splits if_splits)
  have "na_endByte n \<le> fin"
  proof -
    have look: "\<not> 4294967295 - na_endByte n < md_lookaheadBytes d" "fin = na_endByte n + md_lookaheadBytes d"
      using fin(1) fit by (auto simp: dependency_end_def split: if_splits)
    have "unat (4294967295 - na_endByte n) = 4294967295 - unat (na_endByte n)"
      by (simp add: unat_sub u32_le_max)
    then have "unat (na_endByte n) + unat (md_lookaheadBytes d) < 4294967296"
      using look(1) unat_u32_less [of "na_endByte n"] unfolding word_less_nat_alt by linarith
    then show ?thesis using look(2) by (simp add: word_le_nat_alt unat_word_ariths)
  qed
  then show ?thesis using fin(2) by simp
qed

lemma dependency_missing: "missingNodeDependencyForNode n = Some d \<Longrightarrow> na_missing n \<and> dependency_fits n d"
  by (auto simp: missingNodeDependencyForNode_def missingNodeDependencyEntryForNode_def split: option.splits if_splits)

lemma missing_edit:
  assumes "fst (editMissingNodeDependency e bd rd n)"
  shows "na_missing n" "na_dirty (snd (editMissingNodeDependency e bd rd n))"
proof -
  have "na_missing n \<and> na_dirty (snd (editMissingNodeDependency e bd rd n))"
  proof (cases "missingNodeDependencyForNode n")
    case None
    then show ?thesis
      using assms by (auto simp: editMissingNodeDependency_def missingNodeDependencyEntryForNode_def set_dirty_def split: if_splits)
  next
    case (Some d)
    obtain m k where "snd (editMissingNodeDependency e bd rd n) = store_dependency m k" "na_dirty m"
      using assms Some by (cases "move_missing e bd rd d") (auto simp: editMissingNodeDependency_def set_dirty_def Let_def split: if_splits)
    then show ?thesis using dependency_missing [OF Some] store_dependency_span(3) by simp
  qed
  then show "na_missing n" "na_dirty (snd (editMissingNodeDependency e bd rd n))" by auto
qed

lemma missing_edit_stays: "fst (editMissingNodeDependency e bd rd n) \<Longrightarrow> stays n (snd (editMissingNodeDependency e bd rd n))"
proof -
  assume f: "fst (editMissingNodeDependency e bd rd n)"
  have "na_missingDependency n \<noteq> None"
  proof
    assume "na_missingDependency n = None"
    then show False
      using f record_of_dependency [of n]
      by (auto simp: editMissingNodeDependency_def missingNodeDependencyEntryForNode_def split: if_splits)
  qed
  moreover have "na_missing (snd (editMissingNodeDependency e bd rd n)) = na_missing n"
    by (cases "missingNodeDependencyForNode n")
       (auto simp: editMissingNodeDependency_def set_dirty_def store_dependency_stays Let_def split: prod.splits)
  ultimately show ?thesis using missing_edit [OF f] by (auto simp: stays_def blank_def)
qed

lemma noop_at_end:
  assumes "missingNodeDependencyNoopAtEnd e n"
  shows "na_missing n" "kept e n n"
proof -
  obtain d where d: "missingNodeDependencyForNode n = Some d"
    using assms by (auto simp: missingNodeDependencyNoopAtEnd_def split: option.splits)
  show "na_missing n" using dependency_missing [OF d] by simp
  show "kept e n n" using dependency_missing [OF d] by (simp add: dependency_fits_def kept_def)
qed

subsection \<open>The walks\<close>

text \<open>The cases of the walk at a node.\<close>

lemma delta_cases:
  fixes e n ks
  defines "t \<equiv> SyntaxNode n ks"
  obtains (legacy) "fst (editLegacyLookaheadOnly e t)" "editNodeWithDelta e t = snd (editLegacyLookaheadOnly e t)"
  | (missing) "fst (editMissingNodeDependency e (byteDelta e) (rowDelta e) n)"
      "editNodeWithDelta e t = SyntaxNode (snd (editMissingNodeDependency e (byteDelta e) (rowDelta e) n)) ks"
  | (noop) "missingNodeDependencyNoopAtEnd e n" "editNodeWithDelta e t = t"
  | (before) "na_endByte n \<le> ie_StartByte e" "editNodeWithDelta e t = t"
  | (still) "ie_OldEndByte e \<le> na_startByte n" "\<not> editShiftsTextAfterIt e" "editNodeWithDelta e t = t"
  | (shifted) "ie_OldEndByte e \<le> na_startByte n" "editNodeWithDelta e t = shiftSubtreeAfterEdit e t"
  | (overlap) "\<not> ie_OldEndByte e \<le> na_startByte n"
      "editNodeWithDelta e t = SyntaxNode (overlap_node e n)
         (edit_children e (column_rule e (overlap_node e n)) (Row (na_startPoint (overlap_node e n))) ks)"
proof -
  have skip: "na_endByte n \<le> ie_StartByte e" if "skips_before e t"
    using that nodeEnds_before by (auto simp: skips_before_def t_def)
  note step = editNodeWithDelta.simps(1) [of e n ks, folded t_def, unfolded Let_def]
  consider (a) "fst (editLegacyLookaheadOnly e t)"
    | (b) "\<not> fst (editLegacyLookaheadOnly e t)" "fst (editMissingNodeDependency e (byteDelta e) (rowDelta e) n)"
    | (c) "\<not> fst (editLegacyLookaheadOnly e t)" "\<not> fst (editMissingNodeDependency e (byteDelta e) (rowDelta e) n)" by blast
  then show thesis
  proof cases
    case a
    then show thesis using legacy step by simp
  next
    case b
    then show thesis using missing step by simp
  next
    case c
    then have step': "editNodeWithDelta e t = (if missingNodeDependencyNoopAtEnd e n then t
       else if na_endByte n < ie_StartByte e \<and> \<not> na_hasError n \<and> \<not> na_missing n then t
       else if skips_before e t then t
       else if na_startByte n \<ge> ie_OldEndByte e then (if \<not> editShiftsTextAfterIt e then t else shiftSubtreeAfterEdit e t)
       else SyntaxNode (overlap_node e n) (edit_children e (column_rule e (overlap_node e n)) (Row (na_startPoint (overlap_node e n))) ks))"
      using step by (simp add: t_def editLegacyLookaheadOnly.simps)
    consider (n) "missingNodeDependencyNoopAtEnd e n"
      | (s) "\<not> missingNodeDependencyNoopAtEnd e n" "na_endByte n < ie_StartByte e \<and> \<not> na_hasError n \<and> \<not> na_missing n \<or> skips_before e t"
      | (r) "\<not> missingNodeDependencyNoopAtEnd e n" "\<not> (na_endByte n < ie_StartByte e \<and> \<not> na_hasError n \<and> \<not> na_missing n)" "\<not> skips_before e t"
      by blast
    then show thesis
    proof cases
      case n
      then show thesis using noop step' by simp
    next
      case s
      then have "na_endByte n \<le> ie_StartByte e" using skip by auto
      moreover have "editNodeWithDelta e t = t" using s step' by auto
      ultimately show thesis by (rule before)
    next
      case r
      then have "editNodeWithDelta e t = (if na_startByte n \<ge> ie_OldEndByte e then (if \<not> editShiftsTextAfterIt e then t else shiftSubtreeAfterEdit e t)
        else SyntaxNode (overlap_node e n) (edit_children e (column_rule e (overlap_node e n)) (Row (na_startPoint (overlap_node e n))) ks))"
        unfolding step' by (simp only: if_False)
      then show thesis using still shifted overlap by (cases "na_startByte n \<ge> ie_OldEndByte e"; cases "editShiftsTextAfterIt e") auto
    qed
  qed
qed

declare editLegacyLookaheadOnly.simps [simp del] editNodeWithDelta.simps(1) [simp del]

text \<open>The loop over the children, for any relation that holds for each of its four outcomes.\<close>

lemma children_pairs:
  assumes edit: "\<And>c. c \<in> set cs \<Longrightarrow> \<not> ie_OldEndByte e \<le> startByte c \<Longrightarrow> R c (editNodeWithDelta e c)"
    and before: "\<And>c. c \<in> set cs \<Longrightarrow> endByte c \<le> ie_StartByte e \<Longrightarrow> R c c"
    and shift: "\<And>c. c \<in> set cs \<Longrightarrow> ie_OldEndByte e \<le> startByte c \<Longrightarrow>
      R c (shiftSubtreeAfterEdit e c) \<and> R c (markColumnDependentSubtreeChanged (shiftSubtreeAfterEdit e c))"
    and stop: "\<And>pre c ds. cs = pre @ c # ds \<Longrightarrow> ie_OldEndByte e \<le> startByte c \<Longrightarrow> \<not> editShiftsTextAfterIt e \<Longrightarrow>
      list_all2 R (c # ds) (c # ds)"
  shows "list_all2 R cs (edit_children e rule row cs)"
  using assms
proof (induction cs arbitrary: row)
  case (Cons c cs)
  have rest: "list_all2 R cs (edit_children e rule row' cs)" for row'
  proof (rule Cons.IH)
    show "list_all2 R (d # ds) (d # ds)" if "cs = pre @ d # ds" "ie_OldEndByte e \<le> startByte d" "\<not> editShiftsTextAfterIt e" for pre d ds
      using Cons.prems(4) [of "c # pre" d ds] that by simp
  qed (use Cons.prems(1-3) in auto)
  show ?case
  proof (cases "skips_before e c")
    case True
    then have "endByte c \<le> ie_StartByte e" using nodeEnds_before by (cases c) (auto simp: skips_before_def)
    then show ?thesis using True rest Cons.prems(2) by simp
  next
    case noskip: False
    show ?thesis
    proof (cases "ie_OldEndByte e \<le> startByte c")
      case after: True
      let ?inv = "rule_active rule \<and> \<not> breaksAt rule (na_dependsOnColumn (info c)) row"
      show ?thesis
      proof (cases "\<not> ?inv \<and> \<not> editShiftsTextAfterIt e")
        case True
        then have "list_all2 R (c # cs) (c # cs)" using Cons.prems(4) [of "[]" c cs] after by simp
        then show ?thesis using noskip after True by auto
      next
        case False
        have "R c (let c' = shiftSubtreeAfterEdit e c in if ?inv then markColumnDependentSubtreeChanged c' else c')"
          using Cons.prems(3) [of c] after by (simp add: Let_def)
        then show ?thesis using noskip after False rest by (auto simp: Let_def)
      qed
    next
      case False
      then show ?thesis using noskip rest Cons.prems(1) by simp
    qed
  qed
qed simp

lemma list_all2_diag: "(\<And>c. c \<in> set cs \<Longrightarrow> R c c) \<Longrightarrow> list_all2 R cs cs"
  by (simp add: list_all2_same)

lemma marked_shift:
  "node_pairs stays c (markColumnDependentSubtreeChanged (shiftSubtreeAfterEdit e c))"
  by (rule stays_dirtier [OF shifted_stays marked_pairs(1)])

lemma delta_stays: "node_pairs stays n (editNodeWithDelta e n)"
proof (induction n)
  case (SyntaxNode n ks)
  have same: "node_pairs stays m m" for m by (simp add: node_pairs_refl stays_refl)
  have node: "node_pairs stays (SyntaxNode n ks) (SyntaxNode m ks)" if "stays n m" for m
    using that by (rule node_pairsI) (simp add: list_all2_same same)
  show ?case
  proof (cases rule: delta_cases [of e n ks])
    case legacy
    show ?thesis unfolding legacy(2) by (rule node_pairs_mono [OF legacy_pairs]) (rule dirtier_stays)
  next
    case missing
    then show ?thesis using node missing_edit_stays by simp
  next
    case shifted
    then show ?thesis using shifted_stays by metis
  next
    case overlap
    have "stays n (overlap_node e n)" by (simp add: stays_def blank_def overlap_node_def set_dirty_def Let_def)
    moreover have "list_all2 (node_pairs stays) ks (edit_children e rule row ks)" for rule row
      by (rule children_pairs) (simp_all add: SyntaxNode.IH same shifted_stays marked_shift list_all2_same)
    ultimately show ?thesis unfolding overlap(2) by (rule node_pairsI)
  qed (use same in simp_all)
qed

lemma delta_pairs:
  assumes "fits e len"
  shows "spans_ok len n \<Longrightarrow> node_pairs (kept e) n (editNodeWithDelta e n)"
proof (induction n)
  case (SyntaxNode n ks)
  note prems = SyntaxNode.prems
  have kid: "hollow c \<or> spans_ok len c" if "c \<in> set ks" for c using prems that by auto
  show ?case
  proof (cases rule: delta_cases [of e n ks])
    case legacy
    then show ?thesis
      using kept_dirtier [OF untouched_before [OF prems] legacy_pairs] legacy_before by simp
  next
    case missing
    then have "ks = []" "kept e n (snd (editMissingNodeDependency e (byteDelta e) (rowDelta e) n))"
      using missing_edit [OF missing(1)] prems by (auto simp: kept_def)
    then show ?thesis using missing(2) by (simp add: node_pairsI)
  next
    case noop
    then have "ks = []" "kept e n n" using noop_at_end [OF noop(1)] prems by auto
    then show ?thesis using noop(2) by (simp add: node_pairsI)
  next
    case before
    then show ?thesis using untouched_before [OF prems] by simp
  next
    case still
    then show ?thesis using untouched_after [OF prems] by (simp add: editShiftsTextAfterIt_def)
  next
    case shifted
    then show ?thesis using shifted_pairs [OF assms prems] by (metis syntaxNode.sel(1))
  next
    case overlap
    have "kept e n (overlap_node e n)" by (simp add: kept_def overlap_node_def set_dirty_def Let_def)
    moreover have "list_all2 (node_pairs (kept e)) ks (edit_children e rule row ks)" for rule row
    proof (rule children_pairs)
      show "node_pairs (kept e) c (editNodeWithDelta e c)" if "c \<in> set ks" for c
        using kid [OF that] SyntaxNode.IH [OF that] hollow_pairs(1) [OF _ delta_stays] by blast
      show "node_pairs (kept e) c c" if "c \<in> set ks" "endByte c \<le> ie_StartByte e" for c
        using kid [OF that(1)] untouched_before that(2) hollow_refl by blast
      show "node_pairs (kept e) c (shiftSubtreeAfterEdit e c) \<and> node_pairs (kept e) c (markColumnDependentSubtreeChanged (shiftSubtreeAfterEdit e c))"
        if "c \<in> set ks" "ie_OldEndByte e \<le> startByte c" for c
      proof -
        have "node_pairs (kept e) c (shiftSubtreeAfterEdit e c)"
          using kid [OF that(1)] shifted_pairs [OF assms _ that(2)] hollow_pairs(1) [OF _ shifted_stays] by blast
        then show ?thesis using kept_dirtier marked_pairs(1) by blast
      qed
      show "list_all2 (node_pairs (kept e)) (c # ds) (c # ds)"
        if "ks = pre @ c # ds" "ie_OldEndByte e \<le> startByte c" "\<not> editShiftsTextAfterIt e" for pre c ds
      proof (rule list_all2_diag)
        fix d assume d: "d \<in> set (c # ds)"
        have "hollow d \<or> startByte c \<le> startByte d" using prems that(1) d by (auto simp: sorted_wrt_append)
        then show "node_pairs (kept e) d d"
          using kid [of d] that d untouched_after [of len d e] hollow_refl by (auto simp: editShiftsTextAfterIt_def intro: order_trans)
      qed
    qed
    ultimately show ?thesis unfolding overlap(2) by (rule node_pairsI)
  qed
qed


lemma single_cases:
  fixes e n ks
  defines "t \<equiv> SyntaxNode n ks"
  obtains (legacy) "fst (editLegacyLookaheadOnly e t)" "editNodeSingleByteReplacement e t = snd (editLegacyLookaheadOnly e t)"
  | (missing) "fst (editMissingNodeDependency e 0 0 n)"
      "editNodeSingleByteReplacement e t = SyntaxNode (snd (editMissingNodeDependency e 0 0 n)) ks"
  | (noop) "missingNodeDependencyNoopAtEnd e n" "editNodeSingleByteReplacement e t = t"
  | (still) "na_endByte n \<le> ie_StartByte e \<or> ie_OldEndByte e \<le> na_startByte n" "editNodeSingleByteReplacement e t = t"
  | (overlap) "editNodeSingleByteReplacement e t = SyntaxNode (set_dirty n) (single_children e (column_rule e n) (Row (na_startPoint n)) ks)"
proof -
  note step = editNodeSingleByteReplacement.simps(1) [of e n ks, folded t_def, unfolded Let_def]
  have skip: "na_endByte n \<le> ie_StartByte e" if "nodeEndsBeforeEditDependency (ie_StartByte e) t"
    using that nodeEnds_before by (simp add: t_def)
  show thesis
    by (cases "fst (editLegacyLookaheadOnly e t)"; cases "fst (editMissingNodeDependency e 0 0 n)";
        cases "missingNodeDependencyNoopAtEnd e n"; cases "nodeEndsBeforeEditDependency (ie_StartByte e) t";
        cases "na_startByte n \<ge> ie_OldEndByte e")
       (use that step skip in \<open>simp_all only: if_True if_False simp_thms\<close>)
qed

declare editNodeSingleByteReplacement.simps(1) [simp del]

lemma single_children_pairs:
  assumes edit: "\<And>c. c \<in> set cs \<Longrightarrow> R c (editNodeSingleByteReplacement e c)"
    and before: "\<And>c. c \<in> set cs \<Longrightarrow> endByte c \<le> ie_StartByte e \<Longrightarrow> R c c"
    and mark: "\<And>c. c \<in> set cs \<Longrightarrow> ie_OldEndByte e \<le> startByte c \<Longrightarrow> R c (markColumnDependentSubtreeChanged c)"
    and stop: "\<And>pre c ds. cs = pre @ c # ds \<Longrightarrow> ie_OldEndByte e \<le> startByte c \<Longrightarrow> list_all2 R (c # ds) (c # ds)"
  shows "list_all2 R cs (single_children e rule row cs)"
  using assms
proof (induction cs arbitrary: row)
  case (Cons c cs)
  have rest: "list_all2 R cs (single_children e rule row' cs)" for row'
  proof (rule Cons.IH)
    show "list_all2 R (d # ds) (d # ds)" if "cs = pre @ d # ds" "ie_OldEndByte e \<le> startByte d" for pre d ds
      using Cons.prems(4) [of "c # pre" d ds] that by simp
  qed (use Cons.prems(1-3) in auto)
  show ?case
  proof (cases "nodeEndsBeforeEditDependency (ie_StartByte e) c")
    case True
    then have "endByte c \<le> ie_StartByte e" using nodeEnds_before by (cases c) auto
    then show ?thesis using True rest Cons.prems(2) by simp
  next
    case False
    then show ?thesis using rest Cons.prems(1,3) Cons.prems(4) [of "[]" c cs] by simp
  qed
qed simp

lemma single_stays: "node_pairs stays n (editNodeSingleByteReplacement e n)"
proof (induction n)
  case (SyntaxNode n ks)
  have same: "node_pairs stays m m" for m by (simp add: node_pairs_refl stays_refl)
  have node: "node_pairs stays (SyntaxNode n ks) (SyntaxNode m ks)" if "stays n m" for m
    using that by (rule node_pairsI) (simp add: list_all2_same same)
  have mark: "node_pairs stays m (markColumnDependentSubtreeChanged m)" for m
    by (rule node_pairs_mono [OF marked_pairs(1)]) (rule dirtier_stays)
  show ?case
  proof (cases rule: single_cases [of e n ks])
    case legacy
    show ?thesis unfolding legacy(2) by (rule node_pairs_mono [OF legacy_pairs]) (rule dirtier_stays)
  next
    case missing
    then show ?thesis using node missing_edit_stays by simp
  next
    case overlap
    have "list_all2 (node_pairs stays) ks (single_children e rule row ks)" for rule row
      by (rule single_children_pairs) (simp_all add: SyntaxNode.IH same mark list_all2_same)
    moreover have "stays n (set_dirty n)" by (simp add: stays_def blank_def set_dirty_def)
    ultimately show ?thesis unfolding overlap by (intro node_pairsI)
  qed (use same in simp_all)
qed

lemma single_pairs:
  assumes same_end: "ie_NewEndByte e = ie_OldEndByte e"
  shows "spans_ok len n \<Longrightarrow> node_pairs (kept e) n (editNodeSingleByteReplacement e n)"
proof (induction n)
  case (SyntaxNode n ks)
  note prems = SyntaxNode.prems
  have kid: "hollow c \<or> spans_ok len c" if "c \<in> set ks" for c using prems that by auto
  have after: "node_pairs (kept e) c c" if "c \<in> set ks" "hollow c \<or> ie_OldEndByte e \<le> startByte c" for c
    using kid [OF that(1)] that(2) untouched_after [OF _ _ same_end] hollow_refl by blast
  show ?case
  proof (cases rule: single_cases [of e n ks])
    case legacy
    then show ?thesis using kept_dirtier [OF untouched_before [OF prems] legacy_pairs] legacy_before by simp
  next
    case missing
    then have "ks = []" "kept e n (snd (editMissingNodeDependency e 0 0 n))"
      using missing_edit [OF missing(1)] prems by (auto simp: kept_def)
    then show ?thesis using missing(2) by (simp add: node_pairsI)
  next
    case noop
    then have "ks = []" "kept e n n" using noop_at_end [OF noop(1)] prems by auto
    then show ?thesis using noop(2) by (simp add: node_pairsI)
  next
    case still
    then show ?thesis using untouched_before [OF prems] untouched_after [OF prems _ same_end] by auto
  next
    case overlap
    have "kept e n (set_dirty n)" by (simp add: kept_def set_dirty_def)
    moreover have "list_all2 (node_pairs (kept e)) ks (single_children e rule row ks)" for rule row
    proof (rule single_children_pairs)
      show "node_pairs (kept e) c (editNodeSingleByteReplacement e c)" if "c \<in> set ks" for c
        using kid [OF that] SyntaxNode.IH [OF that] hollow_pairs(1) [OF _ single_stays] by blast
      show "node_pairs (kept e) c c" if "c \<in> set ks" "endByte c \<le> ie_StartByte e" for c
        using kid [OF that(1)] untouched_before that(2) hollow_refl by blast
      show "node_pairs (kept e) c (markColumnDependentSubtreeChanged c)" if "c \<in> set ks" "ie_OldEndByte e \<le> startByte c" for c
        using after that kept_dirtier marked_pairs(1) by blast
      show "list_all2 (node_pairs (kept e)) (c # ds) (c # ds)" if "ks = pre @ c # ds" "ie_OldEndByte e \<le> startByte c" for pre c ds
      proof (rule list_all2_diag)
        fix d assume d: "d \<in> set (c # ds)"
        have "hollow d \<or> startByte c \<le> startByte d" using prems that(1) d by (auto simp: sorted_wrt_append)
        then show "node_pairs (kept e) d d" using after [of d] that d by (auto intro: order_trans)
      qed
    qed
    ultimately show ?thesis unfolding overlap by (rule node_pairsI)
  qed
qed

lemma edit_root_pairs:
  assumes "fits e len" "spans_ok len n"
  shows "node_pairs (kept e) n (edit_root e n)"
  using assms single_pairs [of e len n] delta_pairs [of e len n]
  by (auto simp: edit_root_def inputEditIsSingleByteReplacement_def)


section \<open>Edited trees stay nested\<close>

text \<open>
  Nested spans, ordered by their starts; a hollow subtree may start before its parent or an earlier
  sibling. No leaf carries the record of a missing node.
\<close>

fun nested :: "nat \<Rightarrow> syntaxNode \<Rightarrow> bool" where
  "nested len (SyntaxNode n ks) \<longleftrightarrow>
     na_startByte n \<le> na_endByte n \<and> unat (na_endByte n) \<le> len \<and> (na_missing n \<longrightarrow> ks = []) \<and> na_missingDependency n = None
     \<and> sorted_wrt (\<lambda>a b. startByte a \<le> startByte b \<or> hollow b) ks
     \<and> (\<forall>c\<in>set ks. (na_startByte n \<le> startByte c \<or> hollow c) \<and> endByte c \<le> na_endByte n \<and> nested len c)"

lemma hollow_node [simp]: "hollow (SyntaxNode n ks) \<longleftrightarrow> blank n \<and> (\<forall>c\<in>set ks. hollow c)"
  by (auto simp: hollow_def list_all_iff)

lemma nested_spans: "nested len n \<Longrightarrow> spans_ok len n"
  by (induction n) auto

lemma nested_len: "nested len n \<Longrightarrow> unat (endByte n) \<le> len' \<Longrightarrow> nested len' n"
proof (induction n)
  case (SyntaxNode n ks)
  then have "nested len' c" if "c \<in> set ks" for c using that by (auto simp: word_le_nat_alt intro: order_trans)
  then show ?case using SyntaxNode.prems by auto
qed

lemma nested_fields: "nested len n \<Longrightarrow> startByte n \<le> endByte n \<and> unat (endByte n) \<le> len"
  by (cases n) auto

lemma nested_empty: "nested len n \<Longrightarrow> startByte n = endByte n \<Longrightarrow> hollow n"
proof (induction n)
  case (SyntaxNode n ks)
  have "hollow c" if c: "c \<in> set ks" for c
  proof (rule ccontr)
    assume h: "\<not> hollow c"
    then have "startByte c = endByte c"
      using SyntaxNode.prems c nested_fields [of len c] by (auto intro: order.antisym order_trans)
    then show False using SyntaxNode c h by auto
  qed
  then show ?case using SyntaxNode.prems by (simp add: blank_def)
qed

text \<open>Subtrees in which nothing but marks changed.\<close>

inductive marks :: "syntaxNode \<Rightarrow> syntaxNode \<Rightarrow> bool" where
  "dirtier d d' \<Longrightarrow> list_all2 marks ks ks' \<Longrightarrow> marks (SyntaxNode d ks) (SyntaxNode d' ks')"

lemma marks_refl: "marks n n"
  by (induction n) (auto intro!: marks.intros simp: dirtier_def list_all2_same)

lemma marks_mark:
  "marks n (markColumnDependentSubtreeChanged n)"
  "list_all2 marks ks (mark_columns dep startRow first prevEndRow ks)"
  by (induction n and dep startRow first prevEndRow ks rule: markColumnDependentSubtreeChanged_mark_columns.induct)
     (auto intro!: marks.intros simp: dirtier_def list_all2_same marks_refl)

lemma marks_legacy: "marks n (snd (editLegacyLookaheadOnly e n))"
proof (induction n)
  case (SyntaxNode n ks)
  then have "marks (SyntaxNode n ks) (SyntaxNode (set_dirty n) (map (\<lambda>c. snd (editLegacyLookaheadOnly e c)) ks))"
    by (intro marks.intros) (auto simp: dirtier_def list_all2_conv_all_nth)
  then show ?case using marks_refl by (auto simp: editLegacyLookaheadOnly.simps Let_def split: if_splits option.splits)
qed

lemma marks_hollow: "marks n n' \<Longrightarrow> hollow n \<Longrightarrow> hollow n'"
proof (induction rule: marks.induct)
  case (1 d d' ks ks')
  have "blank d'" using 1 by (auto simp: dirtier_def set_dirty_def blank_def)
  moreover have "hollow c'" if "c' \<in> set ks'" for c'
    using 1(2,3) that by (fastforce simp: list_all2_conv_all_nth in_set_conv_nth)
  ultimately show ?case by simp
qed

lemma marks_span: "marks n n' \<Longrightarrow> startByte n' = startByte n \<and> endByte n' = endByte n"
  by (erule marks.cases) (auto simp: dirtier_def set_dirty_def)

text \<open>A node over edited children is nested again when its own span still covers them in order.\<close>

lemma sorted_wrt_all2:
  assumes "sorted_wrt P xs" "list_all2 R xs ys" "\<And>a b a' b'. P a b \<Longrightarrow> R a a' \<Longrightarrow> R b b' \<Longrightarrow> Q a' b'"
  shows "sorted_wrt Q ys"
  unfolding sorted_wrt_iff_nth_less
proof (intro allI impI)
  fix i j assume ij: "i < j" "j < length ys"
  then have "P (xs ! i) (xs ! j)" "R (xs ! i) (ys ! i)" "R (xs ! j) (ys ! j)"
    using assms(1,2) by (auto simp: sorted_wrt_iff_nth_less list_all2_conv_all_nth)
  then show "Q (ys ! i) (ys ! j)" by (rule assms(3))
qed

lemma marks_nested: "marks n n' \<Longrightarrow> nested len n \<Longrightarrow> nested len n'"
proof (induction rule: marks.induct)
  case (1 d d' ks ks')
  have m: "list_all2 (\<lambda>c c'. marks c c' \<and> (nested len c \<longrightarrow> nested len c')) ks ks'" using 1(2) by (rule list_all2_mono) auto
  have "sorted_wrt (\<lambda>a b. startByte a \<le> startByte b \<or> hollow b) ks'"
  proof (rule sorted_wrt_all2 [OF _ m])
    show "sorted_wrt (\<lambda>a b. startByte a \<le> startByte b \<or> hollow b) ks" using 1(3) by simp
    show "startByte a' \<le> startByte b' \<or> hollow b'"
      if "startByte a \<le> startByte b \<or> hollow b" "marks a a' \<and> (nested len a \<longrightarrow> nested len a')"
        "marks b b' \<and> (nested len b \<longrightarrow> nested len b')" for a b a' b'
      using that marks_span [of a a'] marks_span [of b b'] marks_hollow [of b b'] by auto
  qed
  moreover have "\<forall>c'\<in>set ks'. (na_startByte d \<le> startByte c' \<or> hollow c') \<and> endByte c' \<le> na_endByte d \<and> nested len c'"
  proof
    fix c' assume c': "c' \<in> set ks'"
    obtain c where "c \<in> set ks" "marks c c'" "nested len c \<longrightarrow> nested len c'"
      using m c' by (fastforce simp: list_all2_conv_all_nth in_set_conv_nth)
    then show "(na_startByte d \<le> startByte c' \<or> hollow c') \<and> endByte c' \<le> na_endByte d \<and> nested len c'"
       using 1(3) marks_span [of c c'] marks_hollow [of c c'] by auto
  qed
  moreover have "na_missing d \<longrightarrow> ks' = []" using 1(2,3) by auto
  ultimately show ?case using 1(1,3) by (auto simp: dirtier_def set_dirty_def)
qed

lemma no_record:
  assumes "na_missingDependency n = None"
  shows "\<not> fst (editMissingNodeDependency e bd rd n)" "\<not> missingNodeDependencyNoopAtEnd e n"
  using assms record_of_dependency [OF assms]
  by (auto simp: editMissingNodeDependency_def missingNodeDependencyEntryForNode_def missingNodeDependencyNoopAtEnd_def)

lemma marks_single: "nested len n \<Longrightarrow> marks n (editNodeSingleByteReplacement e n)"
proof (induction n)
  case (SyntaxNode n ks)
  have d: "na_missingDependency n = None" using SyntaxNode.prems by simp
  show ?case
  proof (cases rule: single_cases [of e n ks])
    case overlap
    have "list_all2 marks ks (single_children e rule row ks)" for rule row
      by (rule single_children_pairs) (use SyntaxNode in \<open>simp_all add: marks_refl marks_mark list_all2_same\<close>)
    then show ?thesis unfolding overlap by (intro marks.intros) (auto simp: dirtier_def)
  qed (use no_record [OF d] marks_legacy marks_refl in simp_all)
qed


text \<open>Where an edit moves an offset, and how far it may move the end of a node.\<close>

definition moved_start :: "inputEdit \<Rightarrow> nat \<Rightarrow> nat" where
  "moved_start e x =
     (if unat (ie_OldEndByte e) \<le> x then x - unat (ie_OldEndByte e) + unat (ie_NewEndByte e)
      else if x \<le> unat (ie_StartByte e) then x else unat (ie_NewEndByte e))"

definition moved_end :: "inputEdit \<Rightarrow> nat \<Rightarrow> nat" where
  "moved_end e y = (y - unat (ie_OldEndByte e)) + unat (ie_NewEndByte e)"

lemma moved_mono:
  assumes "fits e len" "x \<le> y"
  shows "moved_start e x \<le> moved_start e y" "moved_end e x \<le> moved_end e y"
  using assms by (auto simp: moved_start_def moved_end_def fits_def)

definition placed :: "inputEdit \<Rightarrow> syntaxNode \<Rightarrow> syntaxNode \<Rightarrow> bool" where
  "placed e c c' \<longleftrightarrow>
     (hollow c \<longrightarrow> hollow c') \<and> unat (startByte c') \<le> moved_start e (unat (startByte c))
     \<and> (\<not> hollow c \<longrightarrow> unat (startByte c') = moved_start e (unat (startByte c)))
     \<and> unat (endByte c') \<le> moved_end e (unat (endByte c))"

lemma placed_before:
  assumes "fits e len" "nested len c" "endByte c \<le> ie_StartByte e"
    "hollow c \<Longrightarrow> hollow c'" "startByte c' = startByte c" "endByte c' = endByte c"
  shows "placed e c c'"
proof -
  have len: "unat (startByte c) \<le> unat (endByte c)" "unat (endByte c) \<le> unat (ie_StartByte e)"
    using assms(3) nested_fields [OF assms(2)] by (simp_all add: word_le_nat_alt)
  have "hollow c \<or> unat (startByte c) < unat (endByte c)"
    using nested_empty [OF assms(2)] len(1) by (cases "startByte c = endByte c") (auto simp: word_unat_eq_iff)
  then show ?thesis using assms(1,4-6) len
    by (auto simp: placed_def moved_start_def moved_end_def fits_def word_unat_eq_iff)
qed

lemma unat_clamped:
  assumes "fits e len" "unat v \<le> len"
  shows "unat (addUint32Delta v (byteDelta e)) = unat v + unat (ie_NewEndByte e) - unat (ie_OldEndByte e)"
proof (cases "unat (ie_OldEndByte e) \<le> unat v")
  case True
  then show ?thesis using unat_shifted [OF assms(1) True assms(2)] by simp
next
  case False
  have d: "byteDelta e = int (unat (ie_NewEndByte e)) - int (unat (ie_OldEndByte e))" by (simp add: byteDelta_def)
  show ?thesis
  proof (cases "int (unat v) + byteDelta e < 0")
    case True
    then have "unat v + unat (ie_NewEndByte e) < unat (ie_OldEndByte e)" unfolding d by linarith
    then show ?thesis using True by (simp add: addUint32Delta_def Let_def)
  next
    case inside: False
    have "int (unat v) + byteDelta e < 4294967296"
      using False unat_u32_less [of "ie_NewEndByte e"] unfolding d by linarith
    then show ?thesis using unat_addUint32Delta [of v "byteDelta e"] inside unfolding d by linarith
  qed
qed

lemma shifted_nested:
  assumes f: "fits e len"
  shows "nested len n \<Longrightarrow> nested (moved_end e len) (shiftSubtreeAfterEdit e n)"
proof (induction n)
  case (SyntaxNode n ks)
  let ?m = "shiftSubtreeAfterEdit e"
  let ?f = "\<lambda>x. x + unat (ie_NewEndByte e) - unat (ie_OldEndByte e)"
  have own: "unat (startByte (?m c)) = ?f (unat (startByte c)) \<and> unat (endByte (?m c)) = ?f (unat (endByte c))"
    if "nested len c" for c
    using unat_clamped [OF f, of "startByte c"] unat_clamped [OF f, of "endByte c"] nested_fields [OF that]
    by (cases c) (auto simp: shift_node_span word_le_nat_alt)
  note top = own [OF SyntaxNode.prems, simplified]
  have kid: "(na_startByte (shift_node e n) \<le> startByte (?m c) \<or> hollow (?m c))
      \<and> endByte (?m c) \<le> na_endByte (shift_node e n) \<and> nested (moved_end e len) (?m c)" if c: "c \<in> set ks" for c
  proof -
    have up: "na_startByte n \<le> startByte c \<or> hollow c" "endByte c \<le> na_endByte n" "nested len c" using SyntaxNode.prems c by auto
    then show ?thesis
      using SyntaxNode.IH [OF c up(3)] own [OF up(3)] top hollow_pairs(2) [OF _ shifted_stays, of c e] by (auto simp: word_le_nat_alt)
  qed
  have "sorted_wrt (\<lambda>a b. startByte a \<le> startByte b \<or> hollow b) (map ?m ks)"
    unfolding sorted_wrt_map
  proof (rule sorted_wrt_mono_rel [rotated])
    show "sorted_wrt (\<lambda>a b. startByte a \<le> startByte b \<or> hollow b) ks" using SyntaxNode.prems by simp
    fix a b assume ab: "a \<in> set ks" "b \<in> set ks" "startByte a \<le> startByte b \<or> hollow b"
    then have "nested len a" "nested len b" using SyntaxNode.prems by auto
    then show "startByte (?m a) \<le> startByte (?m b) \<or> hollow (?m b)"
      using own [of a] own [of b] hollow_pairs(2) [OF _ shifted_stays, of b] ab(3) by (auto simp: word_le_nat_alt)
  qed
  moreover have "na_missingDependency (shift_node e n) = None" "na_missing (shift_node e n) = na_missing n"
    using shift_node_stays [of n e] SyntaxNode.prems by (auto simp: stays_def)
  moreover have "\<forall>c\<in>set (map ?m ks). (na_startByte (shift_node e n) \<le> startByte c \<or> hollow c)
      \<and> endByte c \<le> na_endByte (shift_node e n) \<and> nested (moved_end e len) c"
    using kid by auto
  moreover have "?f (unat (na_endByte n)) \<le> moved_end e len"
    using SyntaxNode.prems by (auto simp: moved_end_def)
  moreover have "na_missing n \<longrightarrow> map ?m ks = []" using SyntaxNode.prems by simp
  moreover have "na_startByte (shift_node e n) \<le> na_endByte (shift_node e n)"
    using top SyntaxNode.prems by (auto simp: word_le_nat_alt)
  ultimately show ?case using top by simp
qed

lemma shifted_placed:
  assumes "fits e len" "nested len n" "ie_OldEndByte e \<le> startByte n"
  shows "placed e n (shiftSubtreeAfterEdit e n)"
proof -
  have span: "unat (ie_OldEndByte e) \<le> unat (startByte n)" "unat (startByte n) \<le> unat (endByte n)" "unat (endByte n) \<le> len"
    using assms(3) nested_fields [OF assms(2)] by (simp_all add: word_le_nat_alt)
  have "startByte (shiftSubtreeAfterEdit e n) = addUint32Delta (startByte n) (byteDelta e)"
    "endByte (shiftSubtreeAfterEdit e n) = addUint32Delta (endByte n) (byteDelta e)"
    by (cases n; simp add: shift_node_span)+
  then show ?thesis
    using unat_shifted [OF assms(1), of "startByte n"] unat_shifted [OF assms(1), of "endByte n"] span
      hollow_pairs(2) [OF _ shifted_stays, of n e]
    by (auto simp: placed_def moved_start_def moved_end_def)
qed

lemma placed_marks: "placed e c d \<Longrightarrow> marks d d' \<Longrightarrow> placed e c d'"
  using marks_span [of d d'] marks_hollow [of d d'] by (auto simp: placed_def)

text \<open>A node that overlaps the edit covers its edited children.\<close>

lemma overlap_nested:
  assumes f: "fits e len" and n: "nested len (SyntaxNode n ks)" and o: "\<not> ie_OldEndByte e \<le> na_startByte n"
    and kids: "list_all2 (\<lambda>c c'. placed e c c' \<and> nested (moved_end e len) c') ks ks'"
    and hollow: "hollow (SyntaxNode n ks) \<Longrightarrow> hollow (SyntaxNode (overlap_node e n) ks')"
  shows "placed e (SyntaxNode n ks) (SyntaxNode (overlap_node e n) ks') \<and> nested (moved_end e len) (SyntaxNode (overlap_node e n) ks')"
proof -
  let ?m = "overlap_node e n"
  have span: "unat (na_startByte n) < unat (ie_OldEndByte e)" "unat (na_startByte n) \<le> unat (na_endByte n)" "unat (na_endByte n) \<le> len"
    using n o by (auto simp: word_le_nat_alt)
  have start: "unat (na_startByte ?m) = moved_start e (unat (na_startByte n))"
    using span by (auto simp: overlap_node_def set_dirty_def Let_def moved_start_def word_less_nat_alt)
  have fin: "unat (na_endByte ?m) = moved_end e (unat (na_endByte n))"
  proof (cases "unat (na_endByte n) \<le> unat (ie_OldEndByte e)")
    case True
    then show ?thesis by (auto simp: overlap_node_def set_dirty_def Let_def moved_end_def word_le_nat_alt)
  next
    case False
    then show ?thesis
      using unat_shifted [OF f, of "na_endByte n"] span
      by (auto simp: overlap_node_def set_dirty_def Let_def moved_end_def word_le_nat_alt)
  qed
  have kid: "(na_startByte ?m \<le> startByte c' \<or> hollow c') \<and> endByte c' \<le> na_endByte ?m \<and> nested (moved_end e len) c'" if c': "c' \<in> set ks'" for c'
  proof -
    obtain c where c: "c \<in> set ks" "placed e c c'" "nested (moved_end e len) c'"
      using kids c' by (fastforce simp: list_all2_conv_all_nth in_set_conv_nth)
    have up: "unat (na_startByte n) \<le> unat (startByte c) \<or> hollow c" "unat (endByte c) \<le> unat (na_endByte n)"
      using n c(1) by (auto simp: word_le_nat_alt)
    have "moved_start e (unat (na_startByte n)) \<le> unat (startByte c') \<or> hollow c'"
      using c(2) up(1) moved_mono(1) [OF f, of "unat (na_startByte n)" "unat (startByte c)"] by (cases "hollow c") (auto simp: placed_def)
    moreover have "unat (endByte c') \<le> moved_end e (unat (na_endByte n))"
      using c(2) moved_mono(2) [OF f up(2)] by (auto simp: placed_def)
    ultimately show ?thesis using start fin c(3) by (simp add: word_le_nat_alt)
  qed
  have "sorted_wrt (\<lambda>a b. startByte a \<le> startByte b \<or> hollow b) ks'"
  proof (rule sorted_wrt_all2 [OF _ kids])
    show "sorted_wrt (\<lambda>a b. startByte a \<le> startByte b \<or> hollow b) ks" using n by simp
    fix a b a' b'
    assume "startByte a \<le> startByte b \<or> hollow b" "placed e a a' \<and> nested (moved_end e len) a'" "placed e b b' \<and> nested (moved_end e len) b'"
    then show "startByte a' \<le> startByte b' \<or> hollow b'"
      using moved_mono(1) [OF f, of "unat (startByte a)" "unat (startByte b)"]
      by (cases "hollow b") (auto simp: placed_def word_le_nat_alt)
  qed
  moreover have "na_missing ?m = na_missing n" "na_missingDependency ?m = na_missingDependency n"
    by (simp_all add: overlap_node_def set_dirty_def Let_def)
  moreover have "na_startByte ?m \<le> na_endByte ?m"
  proof -
    have "moved_start e (unat (na_startByte n)) \<le> moved_end e (unat (na_endByte n))"
      using span f by (auto simp: moved_start_def moved_end_def fits_def)
    then show ?thesis using start fin by (simp add: word_le_nat_alt)
  qed
  moreover have "moved_end e (unat (na_endByte n)) \<le> moved_end e len" using moved_mono(2) [OF f] span by simp
  moreover have "na_missing n \<longrightarrow> ks' = []" using n kids by auto
  ultimately show ?thesis using kid start fin n hollow by (auto simp: placed_def)
qed

lemma delta_nested:
  assumes f: "fits e len"
  shows "nested len n \<Longrightarrow> placed e n (editNodeWithDelta e n) \<and> nested (moved_end e len) (editNodeWithDelta e n)"
proof (induction n)
  case (SyntaxNode n ks)
  note prems = SyntaxNode.prems
  have d: "na_missingDependency n = None" using prems by simp
  have still: "placed e c c'" "nested (moved_end e len) c'"
    if "nested len c" "endByte c \<le> ie_StartByte e" "marks c c'" for c c'
  proof -
    show "placed e c c'" using placed_before [OF f that(1,2)] marks_hollow [OF that(3)] marks_span [OF that(3)] by simp
    have "unat (endByte c) \<le> moved_end e len"
      using that(2) f by (auto simp: moved_end_def fits_def word_le_nat_alt)
    then show "nested (moved_end e len) c'" using marks_nested [OF that(3)] nested_len [OF that(1)] by blast
  qed
  have after: "placed e c c" "nested (moved_end e len) c"
    if "nested len c" "ie_OldEndByte e \<le> startByte c \<or> hollow c" "\<not> editShiftsTextAfterIt e" for c
  proof -
    have "ie_NewEndByte e = ie_OldEndByte e" using that(3) by (simp add: editShiftsTextAfterIt_def)
    moreover have "unat (ie_OldEndByte e) \<le> unat (startByte c) \<or> hollow c" using that(2) by (simp add: word_le_nat_alt)
    ultimately show "placed e c c" "nested (moved_end e len) c"
      using that(1) f by (auto simp: placed_def moved_start_def moved_end_def fits_def)
  qed
  show ?case
  proof (cases rule: delta_cases [of e n ks])
    case legacy
    then show ?thesis using still [OF prems _ marks_legacy] legacy_before by auto
  next
    case before
    then show ?thesis using still [OF prems _ marks_refl] by auto
  next
    case still
    then show ?thesis using after [OF prems] by auto
  next
    case shifted
    then show ?thesis using shifted_placed [OF f prems] shifted_nested [OF f prems] by auto
  next
    case overlap
    let ?R = "\<lambda>c c'. placed e c c' \<and> nested (moved_end e len) c'"
    have kid: "nested len c" if "c \<in> set ks" for c using prems that by simp
    have "list_all2 ?R ks (edit_children e rule row ks)" for rule row
    proof (rule children_pairs)
      show "?R c (shiftSubtreeAfterEdit e c) \<and> ?R c (markColumnDependentSubtreeChanged (shiftSubtreeAfterEdit e c))"
        if "c \<in> set ks" "ie_OldEndByte e \<le> startByte c" for c
        using shifted_placed [OF f kid that(2)] shifted_nested [OF f kid] that(1) placed_marks marks_nested marks_mark(1) by meson
      show "list_all2 ?R (c # ds) (c # ds)"
        if "ks = pre @ c # ds" "ie_OldEndByte e \<le> startByte c" "\<not> editShiftsTextAfterIt e" for pre c ds
      proof (rule list_all2_diag)
        fix d assume d: "d \<in> set (c # ds)"
        have "ie_OldEndByte e \<le> startByte d \<or> hollow d"
          using prems that(1,2) d by (auto simp: sorted_wrt_append intro: order_trans)
        then show "?R d d" using after [of d] kid [of d] that(1,3) d by auto
      qed
    qed (use SyntaxNode.IH kid still [OF _ _ marks_refl] in auto)
    moreover have "hollow (editNodeWithDelta e (SyntaxNode n ks))" if "hollow (SyntaxNode n ks)"
      by (rule hollow_pairs(2) [OF that delta_stays])
    ultimately show ?thesis unfolding overlap(2) by (intro overlap_nested [OF f prems overlap(1)]) (simp_all add: overlap(2))
  qed (use no_record [OF d] in simp_all)
qed

lemma edit_root_nested:
  assumes "fits e len" "nested len n"
  shows "nested (moved_end e len) (edit_root e n)"
proof (cases "inputEditIsSingleByteReplacement e")
  case True
  then have "moved_end e len = len" using assms(1) by (auto simp: moved_end_def fits_def inputEditIsSingleByteReplacement_def)
  then show ?thesis using True marks_nested [OF marks_single [OF assms(2)] assms(2)] by (simp add: edit_root_def)
next
  case False
  then show ?thesis using delta_nested [OF assms] by (simp add: edit_root_def)
qed

section \<open>Text of clean nodes\<close>

lemma edit_root_stays: "node_pairs stays n (edit_root e n)"
  by (simp add: edit_root_def single_stays delta_stays)

definition data_text :: "nodeData \<Rightarrow> bytes \<Rightarrow> bytes" where
  "data_text d src = Text (SyntaxNode d []) src"

lemma Text_data: "Text m src = data_text (info m) src"
  by (simp add: Text_def data_text_def)

lemma data_text_empty: "na_startByte d = na_endByte d \<Longrightarrow> data_text d src = []"
  by (simp add: data_text_def Text_def slice_def)

text \<open>The node keeps its marks and, while it is unmarked, its text.\<close>

definition same_text :: "bytes \<Rightarrow> bytes \<Rightarrow> nodeData \<Rightarrow> nodeData \<Rightarrow> bool" where
  "same_text src src' d d' \<longleftrightarrow> (na_dirty d \<longrightarrow> na_dirty d') \<and> (na_dirty d' \<or> data_text d' src' = data_text d src)"

lemma same_text_nodes:
  "node_pairs (same_text src src') a b \<Longrightarrow>
   list_all2 (\<lambda>m m'. na_dirty (info m') \<or> Text m' src' = Text m src) (nodes_of a) (nodes_of b)"
  unfolding node_pairs_def by (erule list_all2_mono) (simp add: same_text_def Text_data)

text \<open>The text of an edit splices the old source.\<close>

definition splices :: "inputEdit \<Rightarrow> bytes \<Rightarrow> bytes \<Rightarrow> bytes \<Rightarrow> bool" where
  "splices e src txt src' \<longleftrightarrow>
     src' = take (unat (ie_StartByte e)) src @ txt @ drop (unat (ie_OldEndByte e)) src
     \<and> unat (ie_StartByte e) \<le> unat (ie_OldEndByte e) \<and> unat (ie_OldEndByte e) \<le> length src
     \<and> unat (ie_NewEndByte e) = unat (ie_StartByte e) + length txt \<and> length src' < 4294967296"

lemma splices_fits: "splices e src txt src' \<Longrightarrow> fits e (length src) \<and> length src' = moved_end e (length src)"
  by (auto simp: splices_def fits_def moved_end_def)

lemma kept_text:
  assumes sp: "splices e src txt src'" and k: "kept e d d'" "\<not> na_dirty d'"
    and b: "na_startByte d = na_endByte d \<and> na_startByte d' = na_endByte d'
      \<or> na_startByte d \<le> na_endByte d \<and> unat (na_endByte d) \<le> length src"
  shows "data_text d' src' = data_text d src"
proof -
  let ?a = "unat (na_startByte d)" and ?b = "unat (na_endByte d)"
  have src': "src' = take (unat (ie_StartByte e)) src @ txt @ drop (unat (ie_OldEndByte e)) src"
    and S: "unat (ie_StartByte e) \<le> length src" "unat (ie_OldEndByte e) \<le> length src"
      "unat (ie_NewEndByte e) = unat (ie_StartByte e) + length txt"
    using sp by (auto simp: splices_def)
  consider (blank) "na_startByte d = na_endByte d" "na_startByte d' = na_endByte d'"
    | (before) "?a \<le> ?b" "?b \<le> unat (ie_StartByte e)" "na_startByte d' = na_startByte d" "na_endByte d' = na_endByte d"
    | (after) "?a \<le> ?b" "?b \<le> length src" "unat (ie_OldEndByte e) \<le> ?a"
        "unat (na_startByte d') = ?a - unat (ie_OldEndByte e) + unat (ie_NewEndByte e)"
        "unat (na_endByte d') = ?b - unat (ie_OldEndByte e) + unat (ie_NewEndByte e)"
    using k b by (auto simp: kept_def word_le_nat_alt)
  then show ?thesis
  proof cases
    case blank
    then show ?thesis by (simp add: data_text_empty)
  next
    case before
    then have "slice src' ?a ?b = slice src ?a ?b" using S unfolding src' slice_def by (simp add: take_drop min_absorb2)
    then show ?thesis using before S unfolding data_text_def Text_def by (simp add: word_less_nat_alt src')
  next
    case after
    have "slice src' (unat (na_startByte d')) (unat (na_endByte d')) = slice src ?a ?b"
      using after S unfolding src' slice_def by (simp add: min_absorb2)
    moreover have "unat (na_startByte d') \<le> unat (na_endByte d')" "unat (na_endByte d') \<le> length src'"
      using after S unfolding src' by auto
    ultimately show ?thesis using after unfolding data_text_def Text_def by (simp add: word_less_nat_alt)
  qed
qed

lemma spans_nodes:
  "spans_ok len n \<Longrightarrow> list_all (\<lambda>m. blank (info m) \<or> startByte m \<le> endByte m \<and> unat (endByte m) \<le> len) (nodes_of n)"
proof (induction n)
  case (SyntaxNode n ks)
  have "list_all (\<lambda>m. blank (info m) \<or> startByte m \<le> endByte m \<and> unat (endByte m) \<le> len) (nodes_of c)" if "c \<in> set ks" for c
    using SyntaxNode that by (cases "hollow c") (auto simp: hollow_def list_all_iff)
  then show ?case using SyntaxNode.prems by (auto simp: list_all_iff)
qed

lemma edit_root_text:
  assumes "splices e src txt src'" "spans_ok (length src) n"
  shows "node_pairs (same_text src src') n (edit_root e n)"
proof -
  note f = splices_fits [OF assms(1)]
  have "same_text src src' d d'"
    if "kept e d d'" "stays d d'" "blank d \<or> na_startByte d \<le> na_endByte d \<and> unat (na_endByte d) \<le> length src" for d d'
    using that kept_text [OF assms(1) that(1)] by (auto simp: same_text_def stays_def blank_def)
  then show ?thesis
    using edit_root_pairs [OF conjunct1 [OF f] assms(2)] edit_root_stays [of n e] spans_nodes [OF assms(2)]
    unfolding node_pairs_def by (auto simp: list_all_length list_all2_conv_all_nth)
qed

text \<open>
  C11. One edit. In a tree with nested, ordered spans that lie in the source, missing leaves with their
  recorded dependencies included, every node that \<^verbatim>\<open>Tree.Edit\<close> leaves unmarked has in the edited source the
  text it had in the old one; the edit is a single-byte replacement or any other splice.
\<close>

theorem clean_nodes_keep_text:
  assumes "spans_ok (length src) root" "replays src [(e, new)] src'" "length src' < 4294967296"
  shows "list_all2 (\<lambda>m m'. na_dirty (info m') \<or> Text m' src' = Text m src) (nodes_of root) (nodes_of (edit_root e root))"
proof -
  have "splices e src new src'" using assms(2,3) by (simp add: splices_def Let_def)
  then show ?thesis by (rule same_text_nodes [OF edit_root_text [OF _ assms(1)]])
qed

definition demo_source :: bytes where
  "demo_source = [102, 111, 111, 40, 49, 50, 51, 52, 53]"

definition demo_edit :: inputEdit where
  "demo_edit = \<lparr>ie_StartByte = 1, ie_OldEndByte = 2, ie_NewEndByte = 4, ie_StartPoint = \<lparr>Row = 0, Column = 1\<rparr>,
     ie_OldEndPoint = \<lparr>Row = 0, Column = 2\<rparr>, ie_NewEndPoint = \<lparr>Row = 0, Column = 4\<rparr>\<rparr>"

theorem clean_nodes_keep_text_witness:
  "spans_ok (length demo_source) demo_tree
   \<and> replays demo_source [(demo_edit, [65, 66, 67])] [102, 65, 66, 67, 111, 40, 49, 50, 51, 52, 53]
   \<and> \<not> na_dirty (info (nodes_of (edit_root demo_edit demo_tree) ! 4))
   \<and> Text (nodes_of (edit_root demo_edit demo_tree) ! 4) [102, 65, 66, 67, 111, 40, 49, 50, 51, 52, 53] = [49, 50, 51, 52, 53]"
proof -
  let ?src' = "[102, 65, 66, 67, 111, 40, 49, 50, 51, 52, 53] :: bytes"
  have ok: "spans_ok (length demo_source) demo_tree" by code_simp
  have re: "replays demo_source [(demo_edit, [65, 66, 67])] ?src'" by code_simp
  have clean: "\<not> na_dirty (info (nodes_of (edit_root demo_edit demo_tree) ! 4))" by code_simp
  have old: "Text (nodes_of demo_tree ! 4) demo_source = [49, 50, 51, 52, 53]" by code_simp
  have len: "4 < length (nodes_of demo_tree)" by code_simp
  have "na_dirty (info (nodes_of (edit_root demo_edit demo_tree) ! 4))
      \<or> Text (nodes_of (edit_root demo_edit demo_tree) ! 4) ?src' = Text (nodes_of demo_tree ! 4) demo_source"
    using list_all2_nthD [OF clean_nodes_keep_text [OF ok re] len] by simp
  then show ?thesis using ok re clean old by simp
qed

section \<open>Rewriting a tree\<close>

lemma Edit_root: "pt_root (fold Edit es t) = map_option (fold edit_root es) (pt_root t)"
proof (induction es arbitrary: t)
  case (Cons e es)
  then show ?case by (cases "pt_root t") (simp_all add: Edit_def)
qed (simp add: option.map_id)

lemma replayed_text:
  assumes "replays src es out" "length src + sum_list (map (length \<circ> snd) es) < 4294967296" "nested (length src) n"
  shows "nested (length out) (fold edit_root (map fst es) n) \<and> node_pairs (same_text src out) n (fold edit_root (map fst es) n)"
  using assms
proof (induction src es out arbitrary: n rule: replays.induct)
  case (1 src out)
  then show ?case by (simp add: node_pairs_refl same_text_def)
next
  case (2 src e new es out)
  let ?mid = "take (unat (ie_StartByte e)) src @ new @ drop (unat (ie_OldEndByte e)) src"
  have sp: "splices e src new ?mid" using 2(2,3) by (auto simp: splices_def Let_def)
  have "nested (length ?mid) (edit_root e n)"
    using edit_root_nested [of e "length src" n] splices_fits [OF sp] 2(4) by simp
  moreover have "replays ?mid es out" using 2(2) by (simp add: Let_def)
  moreover have "length ?mid + sum_list (map (length \<circ> snd) es) < 4294967296"
  proof -
    have "length ?mid \<le> length src + length new" using 2(2) by (auto simp: Let_def)
    moreover have "length src + (length new + sum_list (map (length \<circ> snd) es)) < 4294967296" using 2(3) by (simp add: comp_def)
    ultimately show ?thesis by linarith
  qed
  ultimately have ih: "nested (length out) (fold edit_root (map fst es) (edit_root e n))"
    "node_pairs (same_text ?mid out) (edit_root e n) (fold edit_root (map fst es) (edit_root e n))"
    using 2(1) [OF refl] by blast+
  have "node_pairs (same_text src ?mid) n (edit_root e n)" by (rule edit_root_text [OF sp nested_spans [OF 2(4)]])
  from this ih(2) have "node_pairs (same_text src out) n (fold edit_root (map fst es) (edit_root e n))"
    by (rule node_pairs_trans) (auto simp: same_text_def)
  then show ?case using ih(1) by simp
qed

text \<open>
  C1. Many edits. When a rewriter accepts its edits and the offsets fit in 32 bits, applying it to a tree
  without records of missing leaves whose spans are nested and ordered gives such a tree for the new
  source, and every node left unmarked by all the edits has there the text it had in the old source,
  wherever the edits moved it. Nested and ordered: every end lies in the source and no later than the
  parent's end; every start lies no earlier than the parent's and an earlier sibling's start, except
  for a hollow subtree, one whose every node is marked or empty. Trees with a missing-leaf record are
  outside this statement: such a leaf is moved by its recorded dependency, not with its parent.
\<close>

theorem rewritten_tree_keeps_text:
  assumes run: "ApplyToTree r t = Inr (out, t')" and root: "pt_root t = Some root"
    and ok: "nested (length (rw_source r)) root"
    and len: "length (rw_source r) + texts_length (rw_edits r) < 4294967296"
  shows "\<exists>root'. pt_root t' = Some root' \<and> nested (length out) root'
    \<and> list_all2 (\<lambda>m m'. na_dirty (info m') \<or> Text m' out = Text m (rw_source r)) (nodes_of root) (nodes_of root')"
proof -
  obtain ies where ap: "Apply r = Inr (out, ies)" and t': "t' = fold Edit ies t"
    using run by (auto simp: ApplyToTree_def split: sum.splits)
  let ?es = "zip ies (map re_newText (sorted_edits r))"
  note re = apply_replays [OF ap len]
  have l: "length ies = length (sorted_edits r)" using re by (simp add: sorted_edits_def)
  have "texts_length (sorted_edits r) = texts_length (rw_edits r)"
    unfolding texts_length_def sorted_edits_def by (simp flip: sum_mset_sum_list)
  moreover have "map (length \<circ> snd) ?es = map (\<lambda>e. length (re_newText e)) (sorted_edits r)"
    using l by (simp add: list_eq_iff_nth_eq)
  ultimately have "length (rw_source r) + sum_list (map (length \<circ> snd) ?es) < 4294967296"
    using len by (simp add: texts_length_def)
  from replayed_text [OF _ this ok] re
  have "nested (length out) (fold edit_root (map fst ?es) root)" "node_pairs (same_text (rw_source r) out) root (fold edit_root (map fst ?es) root)"
    by auto
  moreover have "map fst ?es = ies" using l by simp
  ultimately show ?thesis using same_text_nodes t' root Edit_root [of ies t] by auto
qed

definition demo_call_rewriter :: rewriter where
  "demo_call_rewriter = ReplaceRange (ReplaceRange (NewRewriter demo_source) 6 7 [120, 121]) 1 2 []"

definition demo_parse_tree :: parseTree where
  "demo_parse_tree = \<lparr>pt_root = Some demo_tree, pt_edits = [], pt_includedRanges = []\<rparr>"

theorem rewritten_tree_keeps_text_witness:
  "\<exists>t' root'. ApplyToTree demo_call_rewriter demo_parse_tree = Inr ([102, 111, 40, 49, 50, 120, 121, 52, 53], t')
     \<and> pt_root t' = Some root' \<and> nested 9 root'
     \<and> nested (length (rw_source demo_call_rewriter)) demo_tree
     \<and> \<not> na_dirty (info (nodes_of root' ! 3)) \<and> Text (nodes_of root' ! 3) [102, 111, 40, 49, 50, 120, 121, 52, 53] = [40]"
proof -
  let ?out = "[102, 111, 40, 49, 50, 120, 121, 52, 53] :: bytes"
  let ?t = "snd (projr (ApplyToTree demo_call_rewriter demo_parse_tree))"
  have run: "ApplyToTree demo_call_rewriter demo_parse_tree = Inr (?out, ?t)" by code_simp
  have root: "pt_root demo_parse_tree = Some demo_tree" by (simp add: demo_parse_tree_def)
  have ok: "nested (length (rw_source demo_call_rewriter)) demo_tree" by code_simp
  have len: "length (rw_source demo_call_rewriter) + texts_length (rw_edits demo_call_rewriter) < 4294967296"
    by (simp add: demo_call_rewriter_def demo_source_def texts_length_def ReplaceRange_def NewRewriter_def)
  obtain root' where r: "pt_root ?t = Some root'" "nested (length ?out) root'"
    "list_all2 (\<lambda>m m'. na_dirty (info m') \<or> Text m' ?out = Text m (rw_source demo_call_rewriter)) (nodes_of demo_tree) (nodes_of root')"
    using rewritten_tree_keeps_text [OF run root ok len] by auto
  have "map_option (\<lambda>n. na_dirty (info (nodes_of n ! 3))) (pt_root ?t) = Some False" by code_simp
  then have clean: "\<not> na_dirty (info (nodes_of root' ! 3))" using r(1) by simp
  have "3 < length (nodes_of demo_tree)" by code_simp
  from list_all2_nthD [OF r(3) this] clean
  have "Text (nodes_of root' ! 3) ?out = Text (nodes_of demo_tree ! 3) (rw_source demo_call_rewriter)" by simp
  also have "\<dots> = [40]" by code_simp
  finally have keeps: "Text (nodes_of root' ! 3) ?out = [40]" .
  have "nested 9 root'" using r(2) by (simp add: eval_nat_numeral)
  then show ?thesis using run r(1) ok clean keeps by blast
qed

section \<open>Error nodes before the edit\<close>

text \<open>
  An error node that ends before the edit but whose recorded lookahead reaches it is treated as
  overlapping the edit: its end moves to the new end of the edit, over text it never covered.
\<close>

theorem error_node_end_clamped:
  assumes "na_hasError n" "na_owned n" "\<not> na_missing n" "na_lookahead n = Some k"
    "na_startByte n \<le> na_endByte n" "na_endByte n < ie_StartByte e" "ie_StartByte e \<le> ie_OldEndByte e"
    "uint (ie_StartByte e) \<le> uint (na_endByte n) + uint k"
  shows "endByte (editNodeWithDelta e (SyntaxNode n ks)) = ie_NewEndByte e"
proof -
  have "fst (editLegacyLookaheadOnly e (SyntaxNode n ks)) = False"
    using assms(1) by (simp add: editLegacyLookaheadOnly.simps Let_def)
  moreover have "missingNodeDependencyEntryForNode n = None" using assms(3) by (simp add: missingNodeDependencyEntryForNode_def)
  then have "missingNodeDependencyForNode n = None" "fst (editMissingNodeDependency e bd rd n) = False" for bd rd
    by (simp_all add: missingNodeDependencyForNode_def editMissingNodeDependency_def)
  moreover have "\<not> nodeEndsBeforeEditDependency (ie_StartByte e) (SyntaxNode n ks)"
    using assms calculation by (auto simp: legacyReuseLookahead_def)
  moreover have "\<not> ie_OldEndByte e \<le> na_startByte n" using assms(5-7) by auto
  moreover have "na_endByte n \<le> ie_OldEndByte e" using assms(6,7) by auto
  ultimately show ?thesis
    using assms(1) by (simp add: editNodeWithDelta.simps(1) missingNodeDependencyNoopAtEnd_def skips_before_def overlap_node_def set_dirty_def Let_def)
qed

end
