(* ===== verification/Compact_Graph.thy ===== *)
theory Compact_Graph
  imports Checkpoint_Interner
begin

text \<open>
  The persistent graph of the compact parser core, \<^verbatim>\<open>internal/runtime/internal/parsercorephase0/core.go\<close>
  with \<^verbatim>\<open>link_provenance.go\<close> and \<^verbatim>\<open>reused_subtree.go\<close>: nodes and links live in append-only arenas and name
  each other by one-based identities; a node's links are chained newest first. This theory holds the
  lookups, the adjacency readers, and the enumeration of the stack windows a reduction pops, with its
  shortcut for unbranched stacks.

  Scores are Go's \<^verbatim>\<open>int64\<close>, kept as integers whose overflow the code tests. Work counters, diagnostic
  observers and the lineage fields a window never reads are left out; digests of interned checkpoints
  are not read.
\<close>

section \<open>Results\<close>

text \<open>An error value of the package, one constructor per message.\<close>

datatype coreError =
    InvalidNode u32
  | InvalidLineage u32
  | InvalidSubtree u32
  | StaleReused
  | UnknownLinkFlags
  | DiscontinuityPayload
  | DiscontinuityScore
  | DiscontinuityOrder
  | LinkWithoutPayload
  | AdjacencyCycle
  | LinkOutOfRange
  | AdjacencyExceeds
  | AdjacencyExceedsOrCycles
  | AdjacencyShorter
  | LinkCountOverLimit
  | LinkCountOverArena
  | PredecessorNotLower u32 u32
  | PredecessorNotDecreasing
  | EmptyAdjacencyWithLink
  | EmptyAdjacency
  | LiveLinkCapacity u32 u32 nat u32
  | DiscontinuityTarget
  | DiscontinuityWidth
  | DiscontinuityCheckpoint
  | CheckpointUnavailable
  | NodeArenaCap
  | LinkArenaCap
  | PopCap
  | ScoreOverflow
  | SubtreeArenaCap
  | ChildArenaCap
  | MetadataArenaCap
  | PrecedenceOverflow
  | PrecedenceMissing
  | ReplacementMissing
  | ReplacementNeedsAdjacency
  | StoredCostBelow
  | SeedPathCount
  | GraphCycle
  | DerivationCap
  | PathCountMismatch u64 u64

type_synonym 'a result = "coreError + 'a"

text \<open>Sequencing of calls that may fail, and a test that fails with an error.\<close>

fun bindR :: "'a result \<Rightarrow> ('a \<Rightarrow> 'b result) \<Rightarrow> 'b result" where
  "bindR (Inl e) f = Inl e"
| "bindR (Inr x) f = f x"

definition failIf :: "bool \<Rightarrow> coreError \<Rightarrow> unit result" where
  "failIf b e = (if b then Inl e else Inr ())"

lemma bindR_cong [fundef_cong]: "m = m' \<Longrightarrow> (\<And>x. m' = Inr x \<Longrightarrow> f x = g x) \<Longrightarrow> bindR m f = bindR m' g"
  by (cases m') auto

lemma bindR_Inr [simp]: "bindR m f = Inr y \<longleftrightarrow> (\<exists>x. m = Inr x \<and> f x = Inr y)"
  by (cases m) auto

lemma bindR_Inl: "bindR m f = Inl e \<longleftrightarrow> m = Inl e \<or> (\<exists>x. m = Inr x \<and> f x = Inl e)"
  by (cases m) auto

lemma bindR_assoc: "bindR (bindR m f) g = bindR m (\<lambda>x. bindR (f x) g)"
  by (cases m) auto

lemma failIf_simps [simp]: "failIf True e = Inl e" "failIf False e = Inr ()"
  by (simp_all add: failIf_def)

lemma failIf_Inr [simp]: "failIf b e = Inr u \<longleftrightarrow> \<not> b"
  by (simp add: failIf_def)

section \<open>Data\<close>

record coreLimits =
  cl_MaxNodes :: u32
  cl_MaxLinks :: u32
  cl_MaxSubtrees :: u32
  cl_MaxChildren :: u32
  cl_MaxMetadata :: u32
  cl_MaxLinksPerBoundary :: u32
  cl_MaxPopPaths :: u64
  cl_MaxDerivations :: u64

record nodeRecord =
  nr_state :: u32
  nr_byteOffset :: u32
  nr_firstLink :: u32
  nr_linkCount :: u32
  nr_pathCount :: u64
  nr_precedenceMax :: int

record linkRecord =
  lr_scoreDelta :: int
  lr_order :: u64
  lr_prev :: u32
  lr_payload :: u32
  lr_next :: u32
  lr_flags :: u32

datatype externalProvenanceState =
    ProvenanceUnknown
  | ExactNoExternal
  | ExactHasExternal
  | InexactHasExternal
  | ReusedOpaque

record coreFieldMapEntry =
  cf_FieldID :: u16
  cf_ChildIndex :: u8
  cf_Inherited :: bool

record subtreeRecord =
  sr_symbol :: u16
  sr_productionID :: u16
  sr_dynamicPrecedence :: int
  sr_externalProvenanceState :: externalProvenanceState
  sr_missing :: bool
  sr_startByte :: u32
  sr_endByte :: u32
  sr_firstChild :: u32
  sr_childCount :: u32
  sr_firstField :: u32
  sr_fieldCount :: u32
  sr_firstAlias :: u32
  sr_aliasCount :: u32
  sr_extra :: bool
  sr_external :: bool
  sr_terminal :: bool
  sr_fragile :: bool

record reusedSubtree =
  ru_Key :: u32
  ru_Symbol :: u16
  ru_StartByte :: u32
  ru_EndByte :: u32

record forkOrder =
  fo_Value :: u64
  fo_Present :: bool

record core =
  co_nodes :: "nodeRecord list"
  co_storedErrorCosts :: "u32 list"
  co_nodeCheckpoints :: "u32 list"
  co_links :: "linkRecord list"
  co_linkRefIndexes :: "u32 list option"
  co_subtrees :: "subtreeRecord list"
  co_children :: "u32 list"
  co_fields :: "coreFieldMapEntry list"
  co_aliases :: "u16 list"
  co_reusedSubtrees :: "(u32 \<times> reusedSubtree) list"
  co_checkpoints :: "unit checkpointInterner"
  co_checkpoint :: u32
  co_externalPayloadsQuiescent :: bool
  co_limits :: coreLimits

definition no_order :: forkOrder where
  "no_order = \<lparr>fo_Value = 0, fo_Present = False\<rparr>"

section \<open>Links\<close>

unbundle bit_operations_syntax

definition linkFlagHasOrder :: u32 where "linkFlagHasOrder = 1"
definition linkFlagRecoveryDiscontinuity :: u32 where "linkFlagRecoveryDiscontinuity = 2"
definition linkKnownFlags :: u32 where "linkKnownFlags = linkFlagHasOrder OR linkFlagRecoveryDiscontinuity"

definition hasOrder :: "linkRecord \<Rightarrow> bool" where
  "hasOrder l \<longleftrightarrow> lr_flags l AND linkFlagHasOrder \<noteq> 0"

definition isRecoveryDiscontinuity :: "linkRecord \<Rightarrow> bool" where
  "isRecoveryDiscontinuity l \<longleftrightarrow> lr_flags l AND linkFlagRecoveryDiscontinuity \<noteq> 0"

definition validateShape :: "linkRecord \<Rightarrow> unit result" where
  "validateShape l =
     (if lr_flags l AND NOT linkKnownFlags \<noteq> 0 then Inl UnknownLinkFlags
      else if isRecoveryDiscontinuity l then
        (if lr_payload l \<noteq> 0 then Inl DiscontinuityPayload
         else if lr_scoreDelta l \<noteq> 0 then Inl DiscontinuityScore
         else if hasOrder l \<or> lr_order l \<noteq> 0 then Inl DiscontinuityOrder
         else Inr ())
      else if lr_payload l = 0 then Inl LinkWithoutPayload
      else Inr ())"

definition link_order :: "linkRecord \<Rightarrow> forkOrder" where
  "link_order l = \<lparr>fo_Value = lr_order l, fo_Present = hasOrder l\<rparr>"

section \<open>Lookups\<close>

definition core_node :: "core \<Rightarrow> u32 \<Rightarrow> nodeRecord result" where
  "core_node c ident =
     (if ident = 0 \<or> unat ident > length (co_nodes c) then Inl (InvalidNode ident)
      else Inr (co_nodes c ! (unat ident - 1)))"

definition reusedSubtree_of :: "core \<Rightarrow> u32 \<Rightarrow> reusedSubtree option" where
  "reusedSubtree_of c ident =
     (let rs = co_reusedSubtrees c; low = sort_search (length rs) (\<lambda>mid. \<not> fst (rs ! mid) < ident) in
      if low = length rs \<or> fst (rs ! low) \<noteq> ident then None else Some (snd (rs ! low)))"

definition validateReusedRecord :: "core \<Rightarrow> u32 \<Rightarrow> subtreeRecord \<Rightarrow> unit result" where
  "validateReusedRecord c ident r =
     (case reusedSubtree_of c ident of
        None \<Rightarrow> Inl StaleReused
      | Some u \<Rightarrow>
          if ru_Key u = 0 \<or> ru_Symbol u \<noteq> sr_symbol r \<or> ru_StartByte u \<noteq> sr_startByte r
             \<or> ru_EndByte u \<noteq> sr_endByte r \<or> sr_startByte r \<ge> sr_endByte r \<or> sr_terminal r \<or> sr_extra r
             \<or> sr_external r \<or> sr_missing r \<or> sr_fragile r \<or> sr_childCount r \<noteq> 0 \<or> sr_fieldCount r \<noteq> 0
             \<or> sr_aliasCount r \<noteq> 0 \<or> sr_productionID r \<noteq> 0 \<or> sr_dynamicPrecedence r \<noteq> 0
          then Inl StaleReused else Inr ())"

definition subtree_of :: "core \<Rightarrow> u32 \<Rightarrow> subtreeRecord result" where
  "subtree_of c ident =
     (if ident = 0 \<or> unat ident > length (co_subtrees c) then Inl (InvalidSubtree ident)
      else let r = co_subtrees c ! (unat ident - 1) in
           if sr_externalProvenanceState r = ReusedOpaque then bindR (validateReusedRecord c ident r) (\<lambda>_. Inr r) else Inr r)"

definition checkedAddScore :: "int \<Rightarrow> int \<Rightarrow> int result" where
  "checkedAddScore a b =
     (if (b > 0 \<and> a > 9223372036854775807 - b) \<or> (b < 0 \<and> a < - 9223372036854775808 - b) then Inl ScoreOverflow
      else Inr (a + b))"

definition saturatingAddPaths :: "u64 \<Rightarrow> u64 \<Rightarrow> u64" where
  "saturatingAddPaths left right = (if - 1 - left < right then - 1 else left + right)"

section \<open>Adjacency\<close>

text \<open>The chain of a node, with the identities seen so far; the links arrive newest first.\<close>

function chain_links :: "core \<Rightarrow> nat \<Rightarrow> u32 \<Rightarrow> u32 list \<Rightarrow> linkRecord list \<Rightarrow> linkRecord list result" where
  "chain_links c linkCount ident seen links =
     (if ident = 0 then Inr links
      else if ident \<in> set seen then Inl AdjacencyCycle
      else if unat ident > length (co_links c) then Inl LinkOutOfRange
      else let link = co_links c ! (unat ident - 1) in
        bindR (validateShape link) (\<lambda>_.
          if length links + 1 > linkCount then Inl AdjacencyExceeds
          else chain_links c linkCount (lr_next link) (ident # seen) (links @ [link])))"
  by pat_completeness auto
termination
  by (relation "measure (\<lambda>(c, linkCount, ident, seen, links). linkCount - length links)") auto

declare chain_links.simps [simp del]

definition nodeLinks :: "core \<Rightarrow> nodeRecord \<Rightarrow> linkRecord list result" where
  "nodeLinks c n =
     bindR (chain_links c (unat (nr_linkCount n)) (nr_firstLink n) [] []) (\<lambda>links.
       if length links \<noteq> unat (nr_linkCount n) then Inl AdjacencyShorter else Inr (rev links))"

text \<open>The reader that fills the slots of the result from the last to the first.\<close>

fun fill_links :: "core \<Rightarrow> nat \<Rightarrow> u32 \<Rightarrow> linkRecord list \<Rightarrow> linkRecord list result" where
  "fill_links c 0 ident links = (if ident \<noteq> 0 then Inl AdjacencyExceedsOrCycles else Inr links)"
| "fill_links c (Suc k) ident links =
     (if ident = 0 then Inl AdjacencyShorter
      else if unat ident > length (co_links c) then Inl LinkOutOfRange
      else let link = co_links c ! (unat ident - 1) in
        bindR (validateShape link) (\<lambda>_. fill_links c k (lr_next link) (link # links)))"

definition nodeLinksIntoBounded :: "core \<Rightarrow> nodeRecord \<Rightarrow> u32 \<Rightarrow> linkRecord list result" where
  "nodeLinksIntoBounded c n maxCount =
     (if nr_linkCount n > cl_MaxLinks (co_limits c) \<or> nr_linkCount n > maxCount then Inl LinkCountOverLimit
      else if unat (nr_linkCount n) > length (co_links c) then Inl LinkCountOverArena
      else fill_links c (unat (nr_linkCount n)) (nr_firstLink n) [])"

definition nodeLinksInto :: "core \<Rightarrow> nodeRecord \<Rightarrow> linkRecord list result" where
  "nodeLinksInto c n = nodeLinksIntoBounded c n (cl_MaxLinksPerBoundary (co_limits c))"

definition publishedNodeLinksInto :: "core \<Rightarrow> nodeRecord \<Rightarrow> linkRecord list result" where
  "publishedNodeLinksInto c n = nodeLinksIntoBounded c n (nr_linkCount n)"

section \<open>Windows of a reduction\<close>

record pathPayload =
  pp_payload :: u32
  pp_scoreDelta :: int
  pp_order :: forkOrder

record popPath =
  po_prev :: u32
  po_recoveryDiscontinuity :: bool
  po_children :: "u32 list"
  po_trailing :: "pathPayload list"
  po_score :: int
  po_order :: forkOrder
  po_startByte :: u32
  po_structuralEnd :: u32

definition empty_path :: popPath where
  "empty_path = \<lparr>po_prev = 0, po_recoveryDiscontinuity = False, po_children = [], po_trailing = [], po_score = 0,
     po_order = no_order, po_startByte = 0, po_structuralEnd = 0\<rparr>"

text \<open>
  The three reverse stacks of the scratch (payloads, scores, orders) are one list of entries, the last
  pushed first; payload zero stands for a recovery discontinuity.
\<close>

definition link_entry :: "linkRecord \<Rightarrow> pathPayload" where
  "link_entry l = \<lparr>pp_payload = lr_payload l, pp_scoreDelta = lr_scoreDelta l, pp_order = link_order l\<rparr>"

definition gap_entry :: pathPayload where
  "gap_entry = \<lparr>pp_payload = 0, pp_scoreDelta = 0, pp_order = no_order\<rparr>"

definition take_order :: "forkOrder \<Rightarrow> popPath \<Rightarrow> popPath" where
  "take_order ord path = (if fo_Present ord then path\<lparr>po_order := ord\<rparr> else path)"

definition push_payload :: "pathPayload \<Rightarrow> popPath \<Rightarrow> popPath result" where
  "push_payload e path =
     bindR (checkedAddScore (po_score path) (pp_scoreDelta e)) (\<lambda>score.
       Inr (take_order (pp_order e) (path\<lparr>po_children := po_children path @ [pp_payload e], po_score := score\<rparr>)))"

fun gap_children :: "pathPayload list \<Rightarrow> popPath \<Rightarrow> popPath result" where
  "gap_children [] path = Inr path"
| "gap_children (e # es) path =
     (if pp_payload e = 0 then gap_children es (path\<lparr>po_recoveryDiscontinuity := True\<rparr>)
      else bindR (push_payload e path) (gap_children es))"

fun window_children :: "core \<Rightarrow> pathPayload list \<Rightarrow> bool \<Rightarrow> popPath \<Rightarrow> (bool \<times> popPath) result" where
  "window_children c [] haveStartByte path = Inr (haveStartByte, path)"
| "window_children c (e # es) haveStartByte path =
     (if pp_payload e = 0 then window_children c es haveStartByte (path\<lparr>po_recoveryDiscontinuity := True\<rparr>)
      else bindR (subtree_of c (pp_payload e)) (\<lambda>r.
        let first = (\<not> sr_extra r \<and> \<not> haveStartByte);
            path = (if first then path\<lparr>po_startByte := sr_startByte r,
                       po_structuralEnd := (if po_structuralEnd path = 0 then sr_endByte r else po_structuralEnd path)\<rparr>
                    else path) in
        bindR (push_payload e path) (window_children c es (haveStartByte \<or> first))))"

definition add_trailing :: "pathPayload list \<Rightarrow> popPath \<Rightarrow> popPath" where
  "add_trailing trailing path =
     fold (\<lambda>e path. take_order (pp_order e) (path\<lparr>po_trailing := po_trailing path @ [e]\<rparr>)) trailing path"

definition at_prev :: "core \<Rightarrow> popPath \<Rightarrow> popPath result" where
  "at_prev c path =
     (if po_prev path = 0 then Inr path
      else bindR (core_node c (po_prev path)) (\<lambda>n.
        Inr (path\<lparr>po_startByte := nr_byteOffset n, po_structuralEnd := nr_byteOffset n\<rparr>)))"

text \<open>A window that ends in a discontinuity, and one that ends in a payload.\<close>

definition gap_path :: "core \<Rightarrow> u32 \<Rightarrow> pathPayload list \<Rightarrow> pathPayload list \<Rightarrow> popPath result" where
  "gap_path c prev rv trailing =
     bindR (gap_children rv (empty_path\<lparr>po_prev := prev\<rparr>)) (\<lambda>path.
     bindR (at_prev c path) (\<lambda>path.
       Inr (add_trailing trailing path)))"

definition payload_path :: "core \<Rightarrow> u32 \<Rightarrow> u32 \<Rightarrow> pathPayload list \<Rightarrow> pathPayload list \<Rightarrow> popPath result" where
  "payload_path c prev structuralEnd rv trailing =
     bindR (window_children c rv False (empty_path\<lparr>po_prev := prev, po_structuralEnd := structuralEnd\<rparr>)) (\<lambda>(haveStartByte, path).
     bindR (if \<not> haveStartByte then at_prev c path else Inr path) (\<lambda>path.
       Inr (add_trailing trailing path)))"

definition publish_path :: "core \<Rightarrow> popPath list \<Rightarrow> popPath result \<Rightarrow> popPath list result" where
  "publish_path c paths built =
     (if of_nat (length paths) \<ge> uint (cl_MaxPopPaths (co_limits c)) then Inl PopCap
      else bindR built (\<lambda>path. Inr (paths @ [path])))"

text \<open>
  The generic walk: every link of every node on the way, in insertion order. The strict decrease of
  predecessors bounds it.
\<close>

function pop_walk :: "core \<Rightarrow> u32 \<Rightarrow> nat \<Rightarrow> bool \<Rightarrow> u32 \<Rightarrow> pathPayload list \<Rightarrow> pathPayload list \<Rightarrow> popPath list \<Rightarrow> popPath list result"
  and pop_links :: "core \<Rightarrow> u32 \<Rightarrow> nat \<Rightarrow> bool \<Rightarrow> u32 \<Rightarrow> pathPayload list \<Rightarrow> pathPayload list \<Rightarrow> linkRecord list \<Rightarrow> popPath list \<Rightarrow> popPath list result" where
  "pop_walk c ident remaining peelingTrailing structuralEnd rv trailing paths =
     bindR (core_node c ident) (\<lambda>n.
     bindR (nodeLinksInto c n) (\<lambda>links.
       pop_links c ident remaining peelingTrailing structuralEnd rv trailing links paths))"
| "pop_links c ident remaining peelingTrailing structuralEnd rv trailing [] paths = Inr paths"
| "pop_links c ident remaining peelingTrailing structuralEnd rv trailing (link # links) paths =
     bindR (validateShape link) (\<lambda>_.
       if lr_prev link = 0 \<or> lr_prev link \<ge> ident then Inl PredecessorNotDecreasing
       else bindR
         (if isRecoveryDiscontinuity link then
            (if remaining - 1 = 0 then publish_path c paths (gap_path c (lr_prev link) (gap_entry # rv) trailing)
             else pop_walk c (lr_prev link) (remaining - 1) False structuralEnd (gap_entry # rv) trailing paths)
          else bindR (subtree_of c (lr_payload link)) (\<lambda>payload.
            if sr_extra payload \<and> peelingTrailing
            then pop_walk c (lr_prev link) remaining True structuralEnd rv (link_entry link # trailing) paths
            else if sr_extra payload
            then pop_walk c (lr_prev link) remaining False structuralEnd (link_entry link # rv) trailing paths
            else let nextEnd = (if peelingTrailing then sr_endByte payload else structuralEnd) in
              if remaining - 1 = 0 then publish_path c paths (payload_path c (lr_prev link) nextEnd (link_entry link # rv) trailing)
              else pop_walk c (lr_prev link) (remaining - 1) False nextEnd (link_entry link # rv) trailing paths))
         (pop_links c ident remaining peelingTrailing structuralEnd rv trailing links))"
  by pat_completeness auto
termination
  by (relation "measures [\<lambda>x. case x of Inl (c, ident, r) \<Rightarrow> unat ident | Inr (c, ident, r) \<Rightarrow> unat ident,
      \<lambda>x. case x of Inl _ \<Rightarrow> 1 | Inr _ \<Rightarrow> 0,
      \<lambda>x. case x of Inl _ \<Rightarrow> 0 | Inr (c, ident, rem, p, e, rv, t, links, paths) \<Rightarrow> length links]")
     (auto simp: word_less_nat_alt not_le)

declare pop_walk.simps [simp del] pop_links.simps(2) [simp del]

text \<open>The shortcut: it declines at a node that does not have exactly one link.\<close>

function pop_single :: "core \<Rightarrow> u32 \<Rightarrow> nat \<Rightarrow> bool \<Rightarrow> u32 \<Rightarrow> pathPayload list \<Rightarrow> pathPayload list \<Rightarrow> popPath list option result" where
  "pop_single c ident remaining peelingTrailing structuralEnd rv trailing =
     bindR (core_node c ident) (\<lambda>n.
       if nr_linkCount n > cl_MaxLinks (co_limits c) \<or> nr_linkCount n > cl_MaxLinksPerBoundary (co_limits c)
       then Inl LinkCountOverLimit
       else if unat (nr_linkCount n) > length (co_links c) then Inl LinkCountOverArena
       else if nr_linkCount n \<noteq> 1 then Inr None
       else if nr_firstLink n = 0 then Inl AdjacencyShorter
       else if unat (nr_firstLink n) > length (co_links c) then Inl LinkOutOfRange
       else let link = co_links c ! (unat (nr_firstLink n) - 1) in
         if lr_next link \<noteq> 0 then Inl AdjacencyExceedsOrCycles
         else if lr_prev link = 0 \<or> lr_prev link \<ge> ident then Inl PredecessorNotDecreasing
         else if isRecoveryDiscontinuity link then
           (if remaining - 1 \<noteq> 0 then pop_single c (lr_prev link) (remaining - 1) False structuralEnd (gap_entry # rv) trailing
            else bindR (publish_path c [] (gap_path c (lr_prev link) (gap_entry # rv) trailing)) (\<lambda>ps. Inr (Some ps)))
         else bindR (subtree_of c (lr_payload link)) (\<lambda>payload.
           if sr_extra payload \<and> peelingTrailing
           then pop_single c (lr_prev link) remaining True structuralEnd rv (link_entry link # trailing)
           else if sr_extra payload
           then pop_single c (lr_prev link) remaining peelingTrailing structuralEnd (link_entry link # rv) trailing
           else let nextEnd = (if peelingTrailing then sr_endByte payload else structuralEnd) in
             if remaining - 1 \<noteq> 0 then pop_single c (lr_prev link) (remaining - 1) False nextEnd (link_entry link # rv) trailing
             else bindR (publish_path c [] (payload_path c (lr_prev link) nextEnd (link_entry link # rv) trailing)) (\<lambda>ps. Inr (Some ps))))"
  by pat_completeness auto
termination
  by (relation "measure (\<lambda>(c, ident, r). unat ident)") (auto simp: word_less_nat_alt not_le)

declare pop_single.simps [simp del]

definition popPaths :: "core \<Rightarrow> u32 \<Rightarrow> nat \<Rightarrow> popPath list result" where
  "popPaths c head childCount =
     (if childCount = 0 then
        bindR (core_node c head) (\<lambda>n.
          Inr [empty_path\<lparr>po_prev := head, po_startByte := nr_byteOffset n, po_structuralEnd := nr_byteOffset n\<rparr>])
      else bindR (pop_single c head childCount True 0 [] []) (\<lambda>r.
        case r of Some paths \<Rightarrow> Inr paths | None \<Rightarrow> pop_walk c head childCount True 0 [] [] []))"

section \<open>The shortcut is exact\<close>

definition shapes_ok :: "core \<Rightarrow> bool" where
  "shapes_ok c \<longleftrightarrow> (\<forall>l\<in>set (co_links c). validateShape l = Inr ())"

lemma shape_nth: "shapes_ok c \<Longrightarrow> ident \<noteq> 0 \<Longrightarrow> unat ident \<le> length (co_links c) \<Longrightarrow> validateShape (co_links c ! (unat ident - 1)) = Inr ()"
proof -
  assume a: "shapes_ok c" "ident \<noteq> 0" "unat ident \<le> length (co_links c)"
  then have "0 < unat ident" by (simp add: unat_gt_0)
  then have "unat ident - 1 < length (co_links c)" using a(3) by linarith
  then show ?thesis using a(1) by (simp add: shapes_ok_def)
qed

text \<open>The adjacency of a node with one link, read either way.\<close>

lemma one_link:
  assumes "nr_linkCount n = 1" "shapes_ok c"
    "\<not> (nr_linkCount n > cl_MaxLinks (co_limits c) \<or> nr_linkCount n > cl_MaxLinksPerBoundary (co_limits c))"
    "\<not> unat (nr_linkCount n) > length (co_links c)"
  shows "nodeLinksInto c n =
    (if nr_firstLink n = 0 then Inl AdjacencyShorter
     else if unat (nr_firstLink n) > length (co_links c) then Inl LinkOutOfRange
     else let link = co_links c ! (unat (nr_firstLink n) - 1) in
       if lr_next link \<noteq> 0 then Inl AdjacencyExceedsOrCycles else Inr [link])"
proof -
  have "unat (nr_linkCount n) = Suc 0" using assms(1) by simp
  then show ?thesis
    using assms shape_nth [OF assms(2), of "nr_firstLink n"]
    by (auto simp: nodeLinksInto_def nodeLinksIntoBounded_def Let_def not_less)
qed

lemma pop_links_last:
  assumes "validateShape link = Inr ()" "\<not> (lr_prev link = 0 \<or> lr_prev link \<ge> ident)"
  shows "pop_links c ident remaining peel fin rv tr [link] paths =
    (if isRecoveryDiscontinuity link then
       (if remaining - 1 = 0 then publish_path c paths (gap_path c (lr_prev link) (gap_entry # rv) tr)
        else pop_walk c (lr_prev link) (remaining - 1) False fin (gap_entry # rv) tr paths)
     else bindR (subtree_of c (lr_payload link)) (\<lambda>payload.
       if sr_extra payload \<and> peel then pop_walk c (lr_prev link) remaining True fin rv (link_entry link # tr) paths
       else if sr_extra payload then pop_walk c (lr_prev link) remaining False fin (link_entry link # rv) tr paths
       else let nextEnd = (if peel then sr_endByte payload else fin) in
         if remaining - 1 = 0 then publish_path c paths (payload_path c (lr_prev link) nextEnd (link_entry link # rv) tr)
         else pop_walk c (lr_prev link) (remaining - 1) False nextEnd (link_entry link # rv) tr paths))"
proof -
  have nil: "pop_links c ident remaining peel fin rv tr [] = Inr" by (rule ext) simp
  have "bindR m Inr = m" for m :: "popPath list result" by (cases m) auto
  then show ?thesis using assms unfolding pop_links.simps(2) nil by (simp only: bindR.simps if_False)
qed

lemma pop_single_walk:
  assumes "shapes_ok c"
  shows "case pop_single c ident remaining peel fin rv tr of
      Inl e \<Rightarrow> pop_walk c ident remaining peel fin rv tr [] = Inl e
    | Inr None \<Rightarrow> True
    | Inr (Some ps) \<Rightarrow> pop_walk c ident remaining peel fin rv tr [] = Inr ps"
  using assms
proof (induction c ident remaining peel fin rv tr rule: pop_single.induct)
  case (1 c ident remaining peel fin rv tr)
  show ?case
  proof (cases "core_node c ident")
    case (Inl e)
    then show ?thesis by (simp add: pop_single.simps pop_walk.simps)
  next
    case (Inr n)
    let ?link = "co_links c ! (unat (nr_firstLink n) - 1)"
    have walk: "pop_walk c ident remaining peel fin rv tr [] =
        bindR (nodeLinksInto c n) (\<lambda>links. pop_links c ident remaining peel fin rv tr links [])"
      by (simp add: pop_walk.simps Inr)
    consider (limit) "nr_linkCount n > cl_MaxLinks (co_limits c) \<or> nr_linkCount n > cl_MaxLinksPerBoundary (co_limits c)"
      | (arena) "\<not> (nr_linkCount n > cl_MaxLinks (co_limits c) \<or> nr_linkCount n > cl_MaxLinksPerBoundary (co_limits c))"
          "unat (nr_linkCount n) > length (co_links c)"
      | (ok) "\<not> (nr_linkCount n > cl_MaxLinks (co_limits c) \<or> nr_linkCount n > cl_MaxLinksPerBoundary (co_limits c))"
          "\<not> unat (nr_linkCount n) > length (co_links c)" by blast
    then show ?thesis
    proof cases
      case limit
      then show ?thesis by (simp add: pop_single.simps walk Inr nodeLinksInto_def nodeLinksIntoBounded_def)
    next
      case arena
      then show ?thesis by (auto simp: pop_single.simps walk Inr nodeLinksInto_def nodeLinksIntoBounded_def)
    next
      case ok
      show ?thesis
      proof (cases "nr_linkCount n = 1 \<and> nr_firstLink n \<noteq> 0 \<and> unat (nr_firstLink n) \<le> length (co_links c) \<and> lr_next ?link = 0
          \<and> \<not> (lr_prev ?link = 0 \<or> lr_prev ?link \<ge> ident)")
        case False
        have one: "nr_linkCount n = 1 \<Longrightarrow> nodeLinksInto c n =
            (if nr_firstLink n = 0 then Inl AdjacencyShorter
             else if unat (nr_firstLink n) > length (co_links c) then Inl LinkOutOfRange
             else let link = ?link in if lr_next link \<noteq> 0 then Inl AdjacencyExceedsOrCycles else Inr [link])"
          using one_link [OF _ 1(5) ok] by blast
        have shape: "nr_firstLink n \<noteq> 0 \<Longrightarrow> unat (nr_firstLink n) \<le> length (co_links c) \<Longrightarrow> validateShape ?link = Inr ()"
          using shape_nth [OF 1(5)] by blast
        show ?thesis
        proof (cases "nr_linkCount n = 1")
          case True
          show ?thesis
            using False True ok one [OF True] shape
            by (auto simp: pop_single.simps [of c ident] walk Inr Let_def pop_links.simps(2) not_less not_le)
        qed (use ok in \<open>simp add: pop_single.simps [of c ident] Inr\<close>)
      next
        case True
        have i1: "case pop_single c (lr_prev ?link) (remaining - 1) False fin (gap_entry # rv) tr of
              Inl e \<Rightarrow> pop_walk c (lr_prev ?link) (remaining - 1) False fin (gap_entry # rv) tr [] = Inl e
            | Inr None \<Rightarrow> True
            | Inr (Some ps) \<Rightarrow> pop_walk c (lr_prev ?link) (remaining - 1) False fin (gap_entry # rv) tr [] = Inr ps"
          if "isRecoveryDiscontinuity ?link" "remaining - 1 \<noteq> 0"
          using "1.IH"(1) [OF Inr ok _ _ _ refl] True that 1(5) by auto
        have i2: "case pop_single c (lr_prev ?link) remaining True fin rv (link_entry ?link # tr) of
              Inl e \<Rightarrow> pop_walk c (lr_prev ?link) remaining True fin rv (link_entry ?link # tr) [] = Inl e
            | Inr None \<Rightarrow> True
            | Inr (Some ps) \<Rightarrow> pop_walk c (lr_prev ?link) remaining True fin rv (link_entry ?link # tr) [] = Inr ps"
          if "\<not> isRecoveryDiscontinuity ?link" "subtree_of c (lr_payload ?link) = Inr r" "sr_extra r" "peel" for r
          using "1.IH"(2) [OF Inr ok _ _ _ refl _ _ _ that(2)] True that 1(5) by auto
        have i3: "case pop_single c (lr_prev ?link) remaining peel fin (link_entry ?link # rv) tr of
              Inl e \<Rightarrow> pop_walk c (lr_prev ?link) remaining peel fin (link_entry ?link # rv) tr [] = Inl e
            | Inr None \<Rightarrow> True
            | Inr (Some ps) \<Rightarrow> pop_walk c (lr_prev ?link) remaining peel fin (link_entry ?link # rv) tr [] = Inr ps"
          if "\<not> isRecoveryDiscontinuity ?link" "subtree_of c (lr_payload ?link) = Inr r" "sr_extra r" "\<not> peel" for r
          using "1.IH"(3) [OF Inr ok _ _ _ refl _ _ _ that(2)] True that 1(5) by auto
        have i4: "case pop_single c (lr_prev ?link) (remaining - 1) False nextEnd (link_entry ?link # rv) tr of
              Inl e \<Rightarrow> pop_walk c (lr_prev ?link) (remaining - 1) False nextEnd (link_entry ?link # rv) tr [] = Inl e
            | Inr None \<Rightarrow> True
            | Inr (Some ps) \<Rightarrow> pop_walk c (lr_prev ?link) (remaining - 1) False nextEnd (link_entry ?link # rv) tr [] = Inr ps"
          if "\<not> isRecoveryDiscontinuity ?link" "subtree_of c (lr_payload ?link) = Inr r" "\<not> sr_extra r" "remaining - 1 \<noteq> 0"
            "nextEnd = (if peel then sr_endByte r else fin)" for r nextEnd
          using "1.IH"(4) [OF Inr ok _ _ _ refl _ _ _ that(2) _ _ that(5)] True that 1(5) by auto
        have shape: "validateShape ?link = Inr ()" using shape_nth [OF 1(5)] True by blast
        have "nodeLinksInto c n = Inr [?link]" using one_link [OF _ 1(5) ok] True by (auto simp: Let_def not_less)
        then have walk': "pop_walk c ident remaining peel fin rv tr [] = pop_links c ident remaining peel fin rv tr [?link] []"
          using walk by simp
        note w = walk' [unfolded pop_links_last [OF shape conjunct2 [OF conjunct2 [OF conjunct2 [OF conjunct2 [OF True]]]]]]
        have s: "pop_single c ident remaining peel fin rv tr =
            (if isRecoveryDiscontinuity ?link then
               (if remaining - 1 \<noteq> 0 then pop_single c (lr_prev ?link) (remaining - 1) False fin (gap_entry # rv) tr
                else bindR (publish_path c [] (gap_path c (lr_prev ?link) (gap_entry # rv) tr)) (\<lambda>ps. Inr (Some ps)))
             else bindR (subtree_of c (lr_payload ?link)) (\<lambda>payload.
               if sr_extra payload \<and> peel then pop_single c (lr_prev ?link) remaining True fin rv (link_entry ?link # tr)
               else if sr_extra payload then pop_single c (lr_prev ?link) remaining peel fin (link_entry ?link # rv) tr
               else let nextEnd = (if peel then sr_endByte payload else fin) in
                 if remaining - 1 \<noteq> 0 then pop_single c (lr_prev ?link) (remaining - 1) False nextEnd (link_entry ?link # rv) tr
                 else bindR (publish_path c [] (payload_path c (lr_prev ?link) nextEnd (link_entry ?link # rv) tr)) (\<lambda>ps. Inr (Some ps))))"
          using ok True by (simp add: pop_single.simps [of c ident] Inr Let_def del: One_nat_def)
        have fin: "case bindR m (\<lambda>ps. Inr (Some ps)) of Inl e \<Rightarrow> m = Inl e | Inr None \<Rightarrow> True | Inr (Some ps) \<Rightarrow> m = Inr ps"
          for m :: "popPath list result" by (cases m) auto
        show ?thesis
        proof (cases "isRecoveryDiscontinuity ?link")
          case disc: True
          then show ?thesis using i1 [OF disc] fin by (cases "remaining - 1 = 0") (simp_all only: s w if_True if_False simp_thms)
        next
          case disc: False
          show ?thesis
          proof (cases "subtree_of c (lr_payload ?link)")
            case (Inl e)
            then show ?thesis using disc by (simp only: s w if_False bindR.simps sum.case)
          next
            case sub: (Inr r)
            show ?thesis
            proof (cases "sr_extra r")
              case True
              then show ?thesis unfolding s w using i2 [OF disc sub True] i3 [OF disc sub True] disc sub
                by (cases peel) (simp_all only: if_True if_False bindR.simps simp_thms)
            next
              case False
              then show ?thesis using i4 [OF disc sub False _ refl] fin disc sub
                by (cases "remaining - 1 = 0") (simp_all only: s w if_True if_False bindR.simps simp_thms Let_def)
            qed
          qed
        qed
      qed
    qed
  qed
qed

lemma popPaths_walk:
  assumes "shapes_ok c" "childCount \<noteq> 0"
  shows "popPaths c head childCount = pop_walk c head childCount True 0 [] [] []"
  using pop_single_walk [OF assms(1), of head childCount True 0 "[]" "[]"] assms(2)
  by (cases "pop_single c head childCount True 0 [] []") (auto simp: popPaths_def split: option.splits)

section \<open>Published graphs\<close>

text \<open>
  Every node has a readable adjacency within the limits, its links lead to older nodes, and the payload
  of every ordinary link is a valid subtree.
\<close>

definition link_ok :: "core \<Rightarrow> u32 \<Rightarrow> linkRecord \<Rightarrow> bool" where
  "link_ok c ident l \<longleftrightarrow>
     lr_prev l \<noteq> 0 \<and> lr_prev l < ident
     \<and> (isRecoveryDiscontinuity l \<or> (case subtree_of c (lr_payload l) of Inl e \<Rightarrow> False | Inr r \<Rightarrow> True))"

definition node_ok :: "core \<Rightarrow> nat \<Rightarrow> bool" where
  "node_ok c i \<longleftrightarrow>
     (case nodeLinksInto c (co_nodes c ! i) of Inl e \<Rightarrow> False | Inr ls \<Rightarrow> list_all (link_ok c (of_nat (Suc i))) ls)"

definition graph_ok :: "core \<Rightarrow> bool" where
  "graph_ok c \<longleftrightarrow> length (co_nodes c) < 4294967296 \<and> list_all (node_ok c) [0..<length (co_nodes c)]"

definition node_valid :: "core \<Rightarrow> u32 \<Rightarrow> bool" where
  "node_valid c ident \<longleftrightarrow> ident \<noteq> 0 \<and> unat ident \<le> length (co_nodes c)"

definition links_at :: "core \<Rightarrow> u32 \<Rightarrow> linkRecord list" where
  "links_at c ident =
     (case core_node c ident of
        Inl e \<Rightarrow> []
      | Inr n \<Rightarrow> (case nodeLinksInto c n of Inl e \<Rightarrow> [] | Inr ls \<Rightarrow> ls))"

lemma fill_links_shapes:
  "fill_links c k ident links = Inr ls \<Longrightarrow> \<forall>l\<in>set links. validateShape l = Inr () \<Longrightarrow> \<forall>l\<in>set ls. validateShape l = Inr ()"
  by (induction c k ident links rule: fill_links.induct) (auto simp: Let_def split: if_splits)

lemma nodeLinksInto_shapes: "nodeLinksInto c n = Inr ls \<Longrightarrow> l \<in> set ls \<Longrightarrow> validateShape l = Inr ()"
  using fill_links_shapes [of c "unat (nr_linkCount n)" "nr_firstLink n" "[]" ls]
  by (auto simp: nodeLinksInto_def nodeLinksIntoBounded_def split: if_splits)

lemma graph_node:
  assumes "graph_ok c" "node_valid c ident"
  shows "\<exists>n. core_node c ident = Inr n \<and> nodeLinksInto c n = Inr (links_at c ident)"
    "l \<in> set (links_at c ident) \<Longrightarrow> link_ok c ident l \<and> validateShape l = Inr () \<and> node_valid c (lr_prev l)"
proof -
  have pos: "0 < unat ident" using assms(2) by (simp add: node_valid_def unat_gt_0)
  have i: "unat ident - 1 < length (co_nodes c)" using assms(2) pos unfolding node_valid_def by linarith
  have "Suc (unat ident - 1) = unat ident" using pos by linarith
  then have id: "of_nat (Suc (unat ident - 1)) = ident" by simp
  have "node_ok c (unat ident - 1)" using assms(1) i by (auto simp: graph_ok_def list_all_iff)
  then obtain ls where ls: "nodeLinksInto c (co_nodes c ! (unat ident - 1)) = Inr ls" "list_all (link_ok c ident) ls"
    using id by (auto simp: node_ok_def split: sum.splits)
  have n: "core_node c ident = Inr (co_nodes c ! (unat ident - 1))" using assms(2) by (auto simp: core_node_def node_valid_def)
  have at: "links_at c ident = ls" using n ls(1) by (simp add: links_at_def)
  show "\<exists>n. core_node c ident = Inr n \<and> nodeLinksInto c n = Inr (links_at c ident)" using n ls(1) at by blast
  show "link_ok c ident l \<and> validateShape l = Inr () \<and> node_valid c (lr_prev l)" if "l \<in> set (links_at c ident)"
  proof -
    have l: "link_ok c ident l" using ls(2) at that by (simp add: list_all_iff)
    then have "unat (lr_prev l) \<le> length (co_nodes c)"
      using assms(2) by (auto simp: link_ok_def node_valid_def word_less_nat_alt)
    then show ?thesis using l nodeLinksInto_shapes [OF ls(1)] at that by (auto simp: link_ok_def node_valid_def)
  qed
qed

section \<open>Windows\<close>

text \<open>Links that count as a child of the reduction: discontinuities and payloads that are no extras.\<close>

definition counted :: "core \<Rightarrow> linkRecord \<Rightarrow> bool" where
  "counted c l \<longleftrightarrow> isRecoveryDiscontinuity l \<or> (case subtree_of c (lr_payload l) of Inl e \<Rightarrow> True | Inr r \<Rightarrow> \<not> sr_extra r)"

text \<open>A window is a walk from the head along links that ends at its last counted child.\<close>

inductive window :: "core \<Rightarrow> u32 \<Rightarrow> nat \<Rightarrow> linkRecord list \<Rightarrow> bool" where
  last_child: "l \<in> set (links_at c ident) \<Longrightarrow> counted c l \<Longrightarrow> window c ident 1 [l]"
| child: "l \<in> set (links_at c ident) \<Longrightarrow> counted c l \<Longrightarrow> window c (lr_prev l) k ls \<Longrightarrow> window c ident (Suc k) (l # ls)"
| extra: "l \<in> set (links_at c ident) \<Longrightarrow> \<not> counted c l \<Longrightarrow> window c (lr_prev l) k ls \<Longrightarrow> window c ident k (l # ls)"

text \<open>All windows in the order of the adjacencies.\<close>

function windows :: "core \<Rightarrow> u32 \<Rightarrow> nat \<Rightarrow> linkRecord list list" where
  "windows c ident k =
     concat (map (\<lambda>l.
       if \<not> lr_prev l < ident then []
       else if \<not> counted c l then map ((#) l) (windows c (lr_prev l) k)
       else if k = 1 then [[l]]
       else map ((#) l) (windows c (lr_prev l) (k - 1))) (links_at c ident))"
  by pat_completeness auto
termination
  by (relation "measure (\<lambda>(c, ident, k). unat ident)") (auto simp: word_less_nat_alt)

declare windows.simps [simp del]

definition link_windows :: "core \<Rightarrow> nat \<Rightarrow> linkRecord \<Rightarrow> linkRecord list list" where
  "link_windows c k l =
     (if \<not> counted c l then map ((#) l) (windows c (lr_prev l) k)
      else if k = 1 then [[l]]
      else map ((#) l) (windows c (lr_prev l) (k - 1)))"

lemma windows_links:
  assumes "graph_ok c" "node_valid c ident"
  shows "windows c ident k = concat (map (link_windows c k) (links_at c ident))"
proof -
  have "lr_prev l < ident" if "l \<in> set (links_at c ident)" for l
    using graph_node(2) [OF assms that] by (simp add: link_ok_def)
  then show ?thesis unfolding windows.simps [of c ident k] by (intro arg_cong [of _ _ concat] map_cong) (auto simp: link_windows_def)
qed

lemma windows_exact:
  assumes "graph_ok c"
  shows "node_valid c ident \<Longrightarrow> 0 < k \<Longrightarrow> ls \<in> set (windows c ident k) \<longleftrightarrow> window c ident k ls"
proof (induction "unat ident" arbitrary: ident k ls rule: less_induct)
  case less
  have ih: "ws \<in> set (windows c (lr_prev l) j) \<longleftrightarrow> window c (lr_prev l) j ws" if "l \<in> set (links_at c ident)" "0 < j" for l j ws
    using less.hyps [of "lr_prev l" j ws] graph_node(2) [OF assms less.prems(1) that(1)] that(2)
    by (auto simp: link_ok_def word_less_nat_alt)
  have "ls \<in> set (windows c ident k) \<longleftrightarrow> (\<exists>l\<in>set (links_at c ident). ls \<in> set (link_windows c k l))"
    unfolding windows_links [OF assms less.prems(1)] by auto
  also have "\<dots> \<longleftrightarrow> window c ident k ls"
  proof
    assume "\<exists>l\<in>set (links_at c ident). ls \<in> set (link_windows c k l)"
    then obtain l where l: "l \<in> set (links_at c ident)" "ls \<in> set (link_windows c k l)" by blast
    consider "\<not> counted c l" | "counted c l" "k = 1" | "counted c l" "k \<noteq> 1" by blast
    then show "window c ident k ls"
    proof cases
      case 1
      then show ?thesis using l ih [OF l(1) less.prems(2)] by (auto simp: link_windows_def intro: window.extra)
    next
      case 2
      then show ?thesis using l window.last_child by (auto simp: link_windows_def)
    next
      case 3
      then have "0 < k - 1" using less.prems(2) by simp
      then show ?thesis using 3 l ih [OF l(1)] window.child [of l c ident "k - 1"] by (auto simp: link_windows_def)
    qed
  next
    assume "window c ident k ls"
    then show "\<exists>l\<in>set (links_at c ident). ls \<in> set (link_windows c k l)"
    proof (cases rule: window.cases)
      case (last_child l)
      then show ?thesis by (auto simp: link_windows_def)
    next
      case (child l j ws)
      have "0 < j" using child(5) by (induction rule: window.induct) auto
      then show ?thesis using child ih [OF child(3)] by (auto simp: link_windows_def intro!: bexI [of _ l])
    next
      case (extra l ws)
      then show ?thesis using ih [OF extra(2) less.prems(2)] by (auto simp: link_windows_def)
    qed
  qed
  finally show ?case .
qed

section \<open>The path of a window\<close>

text \<open>
  A window splits into the extras nearest the head, which the reduction puts back, and the rest, its
  children from right to left.
\<close>

definition kept_extras :: "core \<Rightarrow> linkRecord list \<Rightarrow> linkRecord list" where
  "kept_extras c ls = takeWhile (\<lambda>l. \<not> counted c l) ls"

definition children_of :: "core \<Rightarrow> linkRecord list \<Rightarrow> linkRecord list" where
  "children_of c ls = rev (dropWhile (\<lambda>l. \<not> counted c l) ls)"

definition payload_of :: "core \<Rightarrow> linkRecord \<Rightarrow> subtreeRecord" where
  "payload_of c l = projr (subtree_of c (lr_payload l))"

text \<open>The end of the right-most counted child when it is a payload, else zero.\<close>

definition right_end :: "core \<Rightarrow> linkRecord list \<Rightarrow> u32" where
  "right_end c ls =
     (case dropWhile (\<lambda>l. \<not> counted c l) ls of
        [] \<Rightarrow> 0
      | f # fs \<Rightarrow> if isRecoveryDiscontinuity f then 0 else sr_endByte (payload_of c f))"

definition nearest_order :: "linkRecord list \<Rightarrow> forkOrder" where
  "nearest_order ls = (case List.find hasOrder ls of None \<Rightarrow> no_order | Some l \<Rightarrow> link_order l)"

definition path_of :: "core \<Rightarrow> linkRecord list \<Rightarrow> popPath" where
  "path_of c ls =
     (let leftmost = last ls; payloads = filter (\<lambda>l. \<not> isRecoveryDiscontinuity l) (children_of c ls);
          offset = nr_byteOffset (projr (core_node c (lr_prev leftmost))) in
      \<lparr>po_prev = lr_prev leftmost,
       po_recoveryDiscontinuity = (\<exists>l\<in>set (children_of c ls). isRecoveryDiscontinuity l),
       po_children = map lr_payload payloads,
       po_trailing = map link_entry (rev (kept_extras c ls)),
       po_score = sum_list (map lr_scoreDelta payloads),
       po_order = nearest_order ls,
       po_startByte = (if isRecoveryDiscontinuity leftmost then offset else sr_startByte (payload_of c leftmost)),
       po_structuralEnd =
         (if isRecoveryDiscontinuity leftmost then offset
          else if right_end c ls = 0 then sr_endByte (payload_of c leftmost) else right_end c ls)\<rparr>)"

text \<open>The sums of a left-to-right addition of the scores stay in \<^verbatim>\<open>int64\<close>.\<close>

fun sums_fit :: "int \<Rightarrow> int list \<Rightarrow> bool" where
  "sums_fit acc [] \<longleftrightarrow> True"
| "sums_fit acc (x # xs) \<longleftrightarrow> - 9223372036854775808 \<le> acc + x \<and> acc + x \<le> 9223372036854775807 \<and> sums_fit (acc + x) xs"

definition scores_fit :: "core \<Rightarrow> linkRecord list \<Rightarrow> bool" where
  "scores_fit c ls \<longleftrightarrow> sums_fit 0 (map lr_scoreDelta (filter (\<lambda>l. \<not> isRecoveryDiscontinuity l) (children_of c ls)))"

definition entry_of :: "linkRecord \<Rightarrow> pathPayload" where
  "entry_of l = (if isRecoveryDiscontinuity l then gap_entry else link_entry l)"

lemma checkedAddScore_fits:
  "- 9223372036854775808 \<le> a + b \<Longrightarrow> a + b \<le> 9223372036854775807 \<Longrightarrow> checkedAddScore a b = Inr (a + b)"
  by (auto simp: checkedAddScore_def)

lemma shape_payload:
  assumes "validateShape l = Inr ()"
  shows "isRecoveryDiscontinuity l \<longleftrightarrow> lr_payload l = 0" "isRecoveryDiscontinuity l \<Longrightarrow> \<not> hasOrder l"
  using assms by (auto simp: validateShape_def split: if_splits)

lemma entry_payload: "validateShape l = Inr () \<Longrightarrow> pp_payload (entry_of l) = 0 \<longleftrightarrow> isRecoveryDiscontinuity l"
  using shape_payload [of l] by (auto simp: entry_of_def gap_entry_def link_entry_def)

fun newest_order :: "forkOrder \<Rightarrow> linkRecord list \<Rightarrow> forkOrder" where
  "newest_order ord [] = ord"
| "newest_order ord (l # ls) = newest_order (if hasOrder l then link_order l else ord) ls"

lemma newest_order_append: "newest_order ord (xs @ ys) = newest_order (newest_order ord xs) ys"
  by (induction ord xs rule: newest_order.induct) auto

lemma newest_nearest: "newest_order ord (rev ls) = (case List.find hasOrder ls of None \<Rightarrow> ord | Some l \<Rightarrow> link_order l)"
  by (induction ls arbitrary: ord) (auto simp: newest_order_append)

text \<open>What the loops over the reverse stacks add to a path.\<close>

definition with_children :: "linkRecord list \<Rightarrow> popPath \<Rightarrow> popPath" where
  "with_children ls path =
     path\<lparr>po_children := po_children path @ map lr_payload (filter (\<lambda>l. \<not> isRecoveryDiscontinuity l) ls),
          po_score := po_score path + sum_list (map lr_scoreDelta (filter (\<lambda>l. \<not> isRecoveryDiscontinuity l) ls)),
          po_order := newest_order (po_order path) ls,
          po_recoveryDiscontinuity := (po_recoveryDiscontinuity path \<or> (\<exists>l\<in>set ls. isRecoveryDiscontinuity l))\<rparr>"

lemma take_order_link: "take_order (link_order l) path = path\<lparr>po_order := (if hasOrder l then link_order l else po_order path)\<rparr>"
  by (simp add: take_order_def link_order_def)

lemma push_child_link:
  assumes "- 9223372036854775808 \<le> po_score path + lr_scoreDelta l" "po_score path + lr_scoreDelta l \<le> 9223372036854775807"
  shows "push_payload (link_entry l) path = Inr (path\<lparr>po_children := po_children path @ [lr_payload l], po_score := po_score path + lr_scoreDelta l,
    po_order := (if hasOrder l then link_order l else po_order path)\<rparr>)"
  using assms by (simp add: push_payload_def link_entry_def checkedAddScore_fits take_order_link)

lemma gap_children_links:
  assumes "\<And>l. l \<in> set ls \<Longrightarrow> validateShape l = Inr ()" "sums_fit (po_score path) (map lr_scoreDelta (filter (\<lambda>l. \<not> isRecoveryDiscontinuity l) ls))"
  shows "gap_children (map entry_of ls) path = Inr (with_children ls path)"
  using assms
proof (induction ls arbitrary: path)
  case Nil
  then show ?case by (simp add: with_children_def)
next
  case (Cons l ls)
  have shape: "validateShape l = Inr ()" using Cons.prems(1) by simp
  have rest: "\<And>m. m \<in> set ls \<Longrightarrow> validateShape m = Inr ()" using Cons.prems(1) by simp
  show ?case
  proof (cases "isRecoveryDiscontinuity l")
    case True
    have "gap_children (map entry_of ls) (path\<lparr>po_recoveryDiscontinuity := True\<rparr>) = Inr (with_children ls (path\<lparr>po_recoveryDiscontinuity := True\<rparr>))"
      using Cons.prems(2) True by (intro Cons.IH rest) simp_all
    then show ?thesis using True entry_payload [OF shape] shape_payload(2) [OF shape]
      by (simp add: with_children_def)
  next
    case False
    let ?p = "path\<lparr>po_children := po_children path @ [lr_payload l], po_score := po_score path + lr_scoreDelta l,
        po_order := (if hasOrder l then link_order l else po_order path)\<rparr>"
    have e: "entry_of l = link_entry l" using False by (simp add: entry_of_def)
    have "push_payload (link_entry l) path = Inr ?p" using Cons.prems(2) False by (intro push_child_link) simp_all
    moreover have "gap_children (map entry_of ls) ?p = Inr (with_children ls ?p)"
      using Cons.prems(2) False by (intro Cons.IH rest) simp_all
    ultimately show ?thesis using False entry_payload [OF shape] by (simp add: e with_children_def)
  qed
qed

lemma window_children_started:
  assumes "\<And>l. l \<in> set ls \<Longrightarrow> isRecoveryDiscontinuity l \<or> (\<exists>r. subtree_of c (lr_payload l) = Inr r)"
    "\<And>l. l \<in> set ls \<Longrightarrow> validateShape l = Inr ()"
  shows "window_children c (map entry_of ls) True path = bindR (gap_children (map entry_of ls) path) (\<lambda>path. Inr (True, path))"
  using assms
proof (induction ls arbitrary: path)
  case (Cons l ls)
  have shape: "validateShape l = Inr ()" using Cons.prems(2) by simp
  have ih: "window_children c (map entry_of ls) True path = bindR (gap_children (map entry_of ls) path) (\<lambda>path. Inr (True, path))" for path
    using Cons by simp
  show ?case
  proof (cases "isRecoveryDiscontinuity l")
    case True
    then show ?thesis using entry_payload [OF shape] ih by simp
  next
    case False
    obtain r where r: "subtree_of c (lr_payload l) = Inr r" using Cons.prems(1) [of l] False by auto
    have e: "entry_of l = link_entry l" "pp_payload (link_entry l) = lr_payload l" using False by (simp_all add: entry_of_def link_entry_def)
    moreover have "window_children c (map entry_of ls) True = (\<lambda>path. bindR (gap_children (map entry_of ls) path) (\<lambda>path. Inr (True, path)))"
      by (rule ext) (rule ih)
    ultimately show ?thesis using entry_payload [OF shape] False r by (simp add: bindR_assoc Let_def)
  qed
qed simp

lemma add_trailing_links:
  "add_trailing (map link_entry ls) path = path\<lparr>po_trailing := po_trailing path @ map link_entry ls, po_order := newest_order (po_order path) ls\<rparr>"
proof (induction ls arbitrary: path)
  case (Cons l ls)
  then show ?case by (simp add: add_trailing_def link_entry_def take_order_link)
qed (simp add: add_trailing_def)

lemma split_last:
  "dropWhile P (pre @ [l]) = (if dropWhile P pre = [] then (if P l then [] else [l]) else dropWhile P pre @ [l])"
  "takeWhile P (pre @ [l]) = (if dropWhile P pre = [] then (if P l then takeWhile P pre @ [l] else takeWhile P pre) else takeWhile P pre)"
  by (induction pre) auto

lemma right_end_none: "children_of c pre = [] \<Longrightarrow> right_end c pre = 0"
  unfolding children_of_def right_end_def by (simp only: rev_is_Nil_conv list.case)

lemma right_end_children:
  "right_end c ls = (if children_of c ls = [] then 0 else if isRecoveryDiscontinuity (last (children_of c ls)) then 0
     else sr_endByte (payload_of c (last (children_of c ls))))"
proof (cases "dropWhile (\<lambda>l. \<not> counted c l) ls")
  case Nil
  then show ?thesis unfolding children_of_def right_end_def Nil by simp
next
  case (Cons f fs)
  then show ?thesis unfolding children_of_def right_end_def Cons by simp
qed

lemma window_snoc:
  assumes "counted c l"
  shows "children_of c (pre @ [l]) = l # children_of c pre" "kept_extras c (pre @ [l]) = kept_extras c pre"
    "right_end c (pre @ [l]) =
      (if children_of c pre \<noteq> [] then right_end c pre else if isRecoveryDiscontinuity l then 0 else sr_endByte (payload_of c l))"
proof -
  show ch: "children_of c (pre @ [l]) = l # children_of c pre" using assms by (simp add: children_of_def split_last del: dropWhile_eq_Nil_conv)
  show "kept_extras c (pre @ [l]) = kept_extras c pre" using assms by (simp add: kept_extras_def split_last del: dropWhile_eq_Nil_conv)
  show "right_end c (pre @ [l]) =
      (if children_of c pre \<noteq> [] then right_end c pre else if isRecoveryDiscontinuity l then 0 else sr_endByte (payload_of c l))"
    unfolding right_end_children ch by simp
qed

lemma window_snoc_extra:
  assumes "\<not> counted c l"
  shows "children_of c (pre @ [l]) = (if children_of c pre = [] then [] else l # children_of c pre)"
    "kept_extras c (pre @ [l]) = (if children_of c pre = [] then kept_extras c pre @ [l] else kept_extras c pre)"
    "right_end c (pre @ [l]) = right_end c pre"
proof -
  show ch: "children_of c (pre @ [l]) = (if children_of c pre = [] then [] else l # children_of c pre)"
    using assms by (simp add: children_of_def split_last del: dropWhile_eq_Nil_conv)
  show "kept_extras c (pre @ [l]) = (if children_of c pre = [] then kept_extras c pre @ [l] else kept_extras c pre)"
    using assms by (simp add: kept_extras_def children_of_def split_last del: dropWhile_eq_Nil_conv)
  show "right_end c (pre @ [l]) = right_end c pre"
    unfolding right_end_children ch by simp
qed

lemma window_split: "children_of c ls @ rev (kept_extras c ls) = rev ls"
  by (simp add: children_of_def kept_extras_def flip: rev_append)

lemma window_order: "newest_order (newest_order no_order (children_of c ls)) (rev (kept_extras c ls)) = nearest_order ls"
  using window_split [of c ls] newest_nearest [of no_order ls] by (simp add: nearest_order_def flip: newest_order_append)

text \<open>The two ends of a window build the path of the window.\<close>

lemma gap_path_window:
  assumes "isRecoveryDiscontinuity l" "core_node c (lr_prev l) = Inr n" "lr_prev l \<noteq> 0"
    "\<And>m. m \<in> set (pre @ [l]) \<Longrightarrow> validateShape m = Inr ()" "scores_fit c (pre @ [l])"
  shows "gap_path c (lr_prev l) (gap_entry # map entry_of (children_of c pre)) (map link_entry (rev (kept_extras c pre)))
    = Inr (path_of c (pre @ [l]))"
proof -
  let ?ls = "pre @ [l]" and ?e = "empty_path\<lparr>po_prev := lr_prev l\<rparr>"
  have cnt: "counted c l" using assms(1) by (simp add: counted_def)
  note snoc = window_snoc [OF cnt, of pre]
  have sub: "set (children_of c ?ls) \<subseteq> set ?ls" by (auto simp: children_of_def dest: set_dropWhileD)
  have "gap_children (map entry_of (children_of c ?ls)) ?e = Inr (with_children (children_of c ?ls) ?e)"
    using assms(4,5) sub by (intro gap_children_links) (auto simp: scores_fit_def empty_path_def)
  then have g: "gap_children (gap_entry # map entry_of (children_of c pre)) ?e = Inr (with_children (children_of c ?ls) ?e)"
    using assms(1) unfolding snoc by (simp add: entry_of_def)
  have "po_prev (with_children (children_of c ?ls) ?e) = lr_prev l" by (simp add: with_children_def)
  then have a: "at_prev c (with_children (children_of c ?ls) ?e) = Inr ((with_children (children_of c ?ls) ?e)\<lparr>po_startByte := nr_byteOffset n, po_structuralEnd := nr_byteOffset n\<rparr>)"
    using assms(2,3) by (simp add: at_prev_def)
  have ord: "newest_order (newest_order no_order (children_of c ?ls)) (rev (kept_extras c pre)) = nearest_order ?ls"
    using window_order [of c ?ls] by (simp add: snoc)
  show ?thesis
    using ord assms(1,2) unfolding gap_path_def g bindR.simps a add_trailing_links
    by (simp add: path_of_def with_children_def empty_path_def snoc Let_def)
qed

lemma payload_path_window:
  assumes "\<not> isRecoveryDiscontinuity l" "subtree_of c (lr_payload l) = Inr r" "\<not> sr_extra r"
    "\<And>m. m \<in> set (pre @ [l]) \<Longrightarrow> validateShape m = Inr () \<and> (isRecoveryDiscontinuity m \<or> (\<exists>r. subtree_of c (lr_payload m) = Inr r))"
    "scores_fit c (pre @ [l])"
  shows "payload_path c (lr_prev l) (right_end c (pre @ [l])) (link_entry l # map entry_of (children_of c pre)) (map link_entry (rev (kept_extras c pre)))
    = Inr (path_of c (pre @ [l]))"
proof -
  let ?ls = "pre @ [l]" and ?fin = "right_end c (pre @ [l])"
  let ?e = "empty_path\<lparr>po_prev := lr_prev l, po_structuralEnd := ?fin\<rparr>"
  let ?s = "?e\<lparr>po_startByte := sr_startByte r, po_structuralEnd := (if ?fin = 0 then sr_endByte r else ?fin)\<rparr>"
  have cnt: "counted c l" using assms(1-3) by (simp add: counted_def)
  note snoc = window_snoc [OF cnt, of pre]
  have ent: "entry_of l = link_entry l" "pp_payload (link_entry l) = lr_payload l" "lr_payload l \<noteq> 0"
    using assms(1,4) shape_payload(1) [of l] by (auto simp: entry_of_def link_entry_def)
  have sub: "set (children_of c ?ls) \<subseteq> set ?ls" by (auto simp: children_of_def dest: set_dropWhileD)
  then have sub': "set (children_of c pre) \<subseteq> set ?ls" unfolding snoc by auto
  have g: "gap_children (map entry_of (children_of c ?ls)) ?s = Inr (with_children (children_of c ?ls) ?s)"
    using assms(4,5) sub by (intro gap_children_links) (auto simp: scores_fit_def empty_path_def)
  have "window_children c (link_entry l # map entry_of (children_of c pre)) False ?e
      = bindR (push_payload (link_entry l) ?s) (window_children c (map entry_of (children_of c pre)) True)"
    using assms(2,3) ent by (simp add: empty_path_def Let_def)
  also have "\<dots> = bindR (push_payload (link_entry l) ?s) (\<lambda>path. bindR (gap_children (map entry_of (children_of c pre)) path) (\<lambda>path. Inr (True, path)))"
    using assms(4) sub' by (intro bindR_cong refl window_children_started) auto
  also have "\<dots> = bindR (gap_children (map entry_of (children_of c ?ls)) ?s) (\<lambda>path. Inr (True, path))"
    using ent unfolding snoc by (simp add: bindR_assoc)
  also have "\<dots> = Inr (True, with_children (children_of c ?ls) ?s)" unfolding g by simp
  finally have w: "window_children c (link_entry l # map entry_of (children_of c pre)) False ?e = Inr (True, with_children (children_of c ?ls) ?s)" .
  have ord: "newest_order (newest_order no_order (children_of c ?ls)) (rev (kept_extras c pre)) = nearest_order ?ls"
    using window_order [of c ?ls] by (simp add: snoc)
  have "payload_of c l = r" using assms(2) by (simp add: payload_of_def)
  then show ?thesis
    using ord assms(1) unfolding payload_path_def w
    by (simp add: path_of_def with_children_def empty_path_def add_trailing_links snoc(1,2) Let_def)
qed

section \<open>The enumeration\<close>

text \<open>Appending paths up to the cap.\<close>

definition add_paths :: "core \<Rightarrow> popPath list \<Rightarrow> popPath list \<Rightarrow> popPath list result" where
  "add_paths c paths new =
     (if int (length paths + length new) \<le> uint (cl_MaxPopPaths (co_limits c)) then Inr (paths @ new) else Inl PopCap)"

lemma publish_add:
  assumes "int (length paths) \<le> uint (cl_MaxPopPaths (co_limits c))"
  shows "publish_path c paths (Inr p) = add_paths c paths [p]"
  using assms by (auto simp: publish_path_def add_paths_def)

lemma add_paths_append:
  assumes "\<And>ps. add_paths c paths xs = Inr ps \<Longrightarrow> f ps = add_paths c ps ys"
  shows "bindR (add_paths c paths xs) f = add_paths c paths (xs @ ys)"
proof (cases "int (length paths + length xs) \<le> uint (cl_MaxPopPaths (co_limits c))")
  case True
  then have "add_paths c paths xs = Inr (paths @ xs)" by (simp add: add_paths_def)
  then show ?thesis using assms [of "paths @ xs"] by (simp add: add_paths_def add.assoc)
next
  case False
  then show ?thesis by (auto simp: add_paths_def)
qed

lemma add_paths_length: "add_paths c paths xs = Inr ps \<Longrightarrow> int (length ps) \<le> uint (cl_MaxPopPaths (co_limits c))"
  by (auto simp: add_paths_def split: if_splits)

text \<open>The walk below a prefix of a window adds the paths of the windows that extend it.\<close>

lemma pop_walk_windows:
  assumes g: "graph_ok c"
  defines "walk ident k pre \<equiv> pop_walk c ident k (children_of c pre = []) (right_end c pre) (map entry_of (children_of c pre))
      (map link_entry (rev (kept_extras c pre)))"
    and "linkwalk ident k pre \<equiv> pop_links c ident k (children_of c pre = []) (right_end c pre) (map entry_of (children_of c pre))
      (map link_entry (rev (kept_extras c pre)))"
    and "good m \<equiv> validateShape m = Inr () \<and> (isRecoveryDiscontinuity m \<or> (\<exists>r. subtree_of c (lr_payload m) = Inr r))"
  shows "node_valid c ident \<Longrightarrow> 0 < k \<Longrightarrow> \<forall>m\<in>set pre. good m \<Longrightarrow> \<forall>w\<in>set (windows c ident k). scores_fit c (pre @ w) \<Longrightarrow>
    int (length paths) \<le> uint (cl_MaxPopPaths (co_limits c)) \<Longrightarrow>
    walk ident k pre paths = add_paths c paths (map (\<lambda>w. path_of c (pre @ w)) (windows c ident k))"
proof (induction "unat ident" arbitrary: ident k pre paths rule: less_induct)
  case less
  obtain n where n: "core_node c ident = Inr n" "nodeLinksInto c n = Inr (links_at c ident)"
    using graph_node(1) [OF g less.prems(1)] by blast
  let ?P = "\<lambda>ws. map (\<lambda>w. path_of c (pre @ w)) ws"
  let ?peel = "children_of c pre = []" and ?fin = "right_end c pre"
    and ?rv = "map entry_of (children_of c pre)" and ?tr = "map link_entry (rev (kept_extras c pre))"
  let ?X = "\<lambda>l paths. if isRecoveryDiscontinuity l then
       (if k - 1 = 0 then publish_path c paths (gap_path c (lr_prev l) (gap_entry # ?rv) ?tr)
        else pop_walk c (lr_prev l) (k - 1) False ?fin (gap_entry # ?rv) ?tr paths)
     else bindR (subtree_of c (lr_payload l)) (\<lambda>payload.
       if sr_extra payload \<and> ?peel then pop_walk c (lr_prev l) k True ?fin ?rv (link_entry l # ?tr) paths
       else if sr_extra payload then pop_walk c (lr_prev l) k False ?fin (link_entry l # ?rv) ?tr paths
       else let nextEnd = (if ?peel then sr_endByte payload else ?fin) in
         if k - 1 = 0 then publish_path c paths (payload_path c (lr_prev l) nextEnd (link_entry l # ?rv) ?tr)
         else pop_walk c (lr_prev l) (k - 1) False nextEnd (link_entry l # ?rv) ?tr paths)"
  have step: "?X l paths = add_paths c paths (?P (link_windows c k l))"
    if l: "l \<in> set (links_at c ident)" and fit: "\<forall>w\<in>set (link_windows c k l). scores_fit c (pre @ w)"
      and len: "int (length paths) \<le> uint (cl_MaxPopPaths (co_limits c))" for l paths
  proof -
    have ok: "link_ok c ident l" "validateShape l = Inr ()" "node_valid c (lr_prev l)" using graph_node(2) [OF g less.prems(1) l] by auto
    have lt: "unat (lr_prev l) < unat ident" using ok(1) by (simp add: link_ok_def word_less_nat_alt)
    have gl: "good l" using ok by (auto simp: good_def link_ok_def split: sum.splits)
    have gpre: "\<forall>m\<in>set (pre @ [l]). good m" using gl less.prems(3) by auto
    have below: "walk (lr_prev l) j (pre @ [l]) paths = add_paths c paths (?P (map ((#) l) (windows c (lr_prev l) j)))"
      if "0 < j" "\<forall>w\<in>set (windows c (lr_prev l) j). scores_fit c (pre @ l # w)" for j
      using less.hyps [OF lt ok(3) that(1) gpre _ len] that(2) by (simp add: o_def)
    show ?thesis
    proof (cases "counted c l")
      case False
      obtain r where r: "\<not> isRecoveryDiscontinuity l" "subtree_of c (lr_payload l) = Inr r" "sr_extra r"
        using False by (auto simp: counted_def split: sum.splits)
      have "?X l paths = walk (lr_prev l) k (pre @ [l]) paths"
        using r by (auto simp: walk_def window_snoc_extra [OF False] entry_of_def)
      also have "\<dots> = add_paths c paths (?P (link_windows c k l))"
        using below [OF less.prems(2)] fit False by (auto simp: link_windows_def)
      finally show ?thesis .
    next
      case cnt: True
      note snoc = window_snoc [OF cnt, of pre]
      show ?thesis
      proof (cases "k = 1")
        case True
        have w: "link_windows c k l = [[l]]" using cnt True by (simp add: link_windows_def)
        then have fits: "scores_fit c (pre @ [l])" using fit by simp
        obtain m where m: "core_node c (lr_prev l) = Inr m" "lr_prev l \<noteq> 0" using graph_node(1) [OF g ok(3)] ok(3) by (auto simp: node_valid_def)
        show ?thesis
        proof (cases "isRecoveryDiscontinuity l")
          case disc: True
          have "gap_path c (lr_prev l) (gap_entry # ?rv) ?tr = Inr (path_of c (pre @ [l]))"
            by (rule gap_path_window [OF disc m _ fits]) (use gpre in \<open>auto simp: good_def\<close>)
          then show ?thesis using True disc w publish_add [OF len] by simp
        next
          case disc: False
          obtain r where r: "subtree_of c (lr_payload l) = Inr r" "\<not> sr_extra r"
            using cnt disc gl by (auto simp: counted_def good_def)
          have fin: "right_end c (pre @ [l]) = (if ?peel then sr_endByte r else ?fin)"
            using disc r by (auto simp: snoc payload_of_def)
          have "payload_path c (lr_prev l) (right_end c (pre @ [l])) (link_entry l # ?rv) ?tr = Inr (path_of c (pre @ [l]))"
            by (rule payload_path_window [OF disc r _ fits]) (use gpre in \<open>auto simp: good_def\<close>)
          note this [unfolded fin]
          then show ?thesis using True disc r w publish_add [OF len] by (simp add: Let_def)
        qed
      next
        case False
        then have k: "0 < k - 1" "k - 1 \<noteq> 0" using less.prems(2) by auto
        have "?X l paths = walk (lr_prev l) (k - 1) (pre @ [l]) paths"
        proof (cases "isRecoveryDiscontinuity l")
          case True
          then show ?thesis using k right_end_none [of c pre] by (auto simp: walk_def snoc entry_of_def)
        next
          case disc: False
          obtain r where "subtree_of c (lr_payload l) = Inr r" "\<not> sr_extra r"
            using cnt disc gl by (auto simp: counted_def good_def)
          then show ?thesis using disc k by (auto simp: walk_def snoc entry_of_def payload_of_def)
        qed
        also have "\<dots> = add_paths c paths (?P (link_windows c k l))"
          using below [OF k(1)] fit False cnt by (auto simp: link_windows_def)
        finally show ?thesis .
      qed
    qed
  qed
  have "linkwalk ident k pre ls paths = add_paths c paths (?P (concat (map (link_windows c k) ls)))"
    if "set ls \<subseteq> set (links_at c ident)" "\<forall>l\<in>set ls. \<forall>w\<in>set (link_windows c k l). scores_fit c (pre @ w)"
      "int (length paths) \<le> uint (cl_MaxPopPaths (co_limits c))" for ls paths
    using that
  proof (induction ls arbitrary: paths)
    case Nil
    then show ?case by (simp add: linkwalk_def add_paths_def)
  next
    case (Cons l ls)
    have l: "l \<in> set (links_at c ident)" using Cons.prems(1) by simp
    have ok: "validateShape l = Inr ()" "\<not> (lr_prev l = 0 \<or> lr_prev l \<ge> ident)"
      using graph_node(2) [OF g less.prems(1) l] by (auto simp: link_ok_def)
    have "linkwalk ident k pre (l # ls) paths = bindR (?X l paths) (linkwalk ident k pre ls)"
      unfolding linkwalk_def pop_links.simps(2) using ok by (simp only: bindR.simps if_False)
    also have "\<dots> = bindR (add_paths c paths (?P (link_windows c k l))) (linkwalk ident k pre ls)"
      using step [OF l _ Cons.prems(3)] Cons.prems(2) by simp
    also have "\<dots> = add_paths c paths (?P (link_windows c k l) @ ?P (concat (map (link_windows c k) ls)))"
      using Cons.prems(1,2) by (intro add_paths_append Cons.IH) (auto dest: add_paths_length)
    finally show ?case by simp
  qed
  from this [of "links_at c ident" paths] show ?case
    using less.prems(4,5) n unfolding windows_links [OF g less.prems(1)]
    by (auto simp: walk_def linkwalk_def pop_walk.simps)
qed

text \<open>
  C6. The windows of a reduction. On a published graph, when no score sum leaves \<^verbatim>\<open>int64\<close>, \<^verbatim>\<open>popPaths\<close>
  returns one path per window of the reduction, in the order of the adjacencies, or the enumeration
  error exactly when there are more windows than the cap allows. A path has the children of its window
  from left to right without the extras next to the head, which it keeps apart; the sum of their
  scores; the branch order of the link nearest the head that has one; and the span from the left-most
  child to the right-most. The shortcut for unbranched stacks never shows.
\<close>

theorem popPaths_enumerates:
  assumes "graph_ok c" "shapes_ok c" "node_valid c head" "0 < childCount"
    "\<forall>ls. window c head childCount ls \<longrightarrow> scores_fit c ls"
  shows "popPaths c head childCount =
      (if int (length (windows c head childCount)) \<le> uint (cl_MaxPopPaths (co_limits c))
       then Inr (map (path_of c) (windows c head childCount)) else Inl PopCap)
    \<and> set (windows c head childCount) = {ls. window c head childCount ls}"
proof -
  have ws: "set (windows c head childCount) = {ls. window c head childCount ls}"
    using windows_exact [OF assms(1,3,4)] by blast
  have start: "children_of c [] = []" "right_end c [] = 0" "kept_extras c [] = []"
    by (simp_all add: children_of_def right_end_def kept_extras_def)
  have "pop_walk c head childCount True 0 [] [] [] = add_paths c [] (map (path_of c) (windows c head childCount))"
    using pop_walk_windows [OF assms(1,3,4), of "[]" "[]"] assms(5) ws by (simp add: start)
  then show ?thesis using popPaths_walk [OF assms(2), of childCount head] assms(4) ws by (simp add: add_paths_def)
qed

text \<open>A stack with a merged state: two ways from the head over an extra down to the seed.\<close>

definition demo_link :: "u32 \<Rightarrow> u32 \<Rightarrow> u32 \<Rightarrow> int \<Rightarrow> linkRecord" where
  "demo_link prev payload nxt score =
     \<lparr>lr_scoreDelta = score, lr_order = 0, lr_prev = prev, lr_payload = payload, lr_next = nxt, lr_flags = 0\<rparr>"

definition demo_subtree :: "u32 \<Rightarrow> u32 \<Rightarrow> bool \<Rightarrow> subtreeRecord" where
  "demo_subtree a b ext =
     \<lparr>sr_symbol = 1, sr_productionID = 0, sr_dynamicPrecedence = 0, sr_externalProvenanceState = ExactNoExternal,
      sr_missing = False, sr_startByte = a, sr_endByte = b, sr_firstChild = 0, sr_childCount = 0, sr_firstField = 0,
      sr_fieldCount = 0, sr_firstAlias = 0, sr_aliasCount = 0, sr_extra = ext,
      sr_external = False, sr_terminal = True, sr_fragile = False\<rparr>"

definition demo_node :: "u32 \<Rightarrow> u32 \<Rightarrow> u32 \<Rightarrow> u32 \<Rightarrow> u64 \<Rightarrow> nodeRecord" where
  "demo_node state offset first width paths =
     \<lparr>nr_state = state, nr_byteOffset = offset, nr_firstLink = first, nr_linkCount = width, nr_pathCount = paths, nr_precedenceMax = 0\<rparr>"

definition demo_core :: core where
  "demo_core =
     \<lparr>co_nodes = [demo_node 1 0 0 0 1, demo_node 2 1 1 1 1, demo_node 3 2 3 2 2, demo_node 4 4 4 1 2],
      co_storedErrorCosts = [0, 0, 0, 0], co_nodeCheckpoints = [0, 0, 0, 0],
      co_links = [demo_link 1 1 0 0, demo_link 2 2 0 5, demo_link 1 3 2 7, demo_link 3 4 0 1],
      co_linkRefIndexes = None,
      co_subtrees = [demo_subtree 0 1 False, demo_subtree 1 2 False, demo_subtree 0 2 False, demo_subtree 3 4 True],
      co_children = [], co_fields = [], co_aliases = [], co_reusedSubtrees = [], co_checkpoints = newCheckpointInterner 10 100, co_checkpoint = 0,
      co_externalPayloadsQuiescent = True,
      co_limits = \<lparr>cl_MaxNodes = 100, cl_MaxLinks = 100, cl_MaxSubtrees = 100, cl_MaxChildren = 100, cl_MaxMetadata = 100,
        cl_MaxLinksPerBoundary = 8, cl_MaxPopPaths = 64, cl_MaxDerivations = 64\<rparr>\<rparr>"

theorem popPaths_enumerates_witness:
  "graph_ok demo_core \<and> shapes_ok demo_core \<and> node_valid demo_core 4
   \<and> (\<exists>ps. popPaths demo_core 4 1 = Inr ps \<and> map po_children ps = [[2], [3]] \<and> map po_prev ps = [2, 1]
        \<and> map (\<lambda>p. map pp_payload (po_trailing p)) ps = [[4], [4]] \<and> map po_score ps = [5, 7])"
proof -
  have nodes: "list_all (node_ok demo_core) [0..<length (co_nodes demo_core)]" by code_simp
  have g: "graph_ok demo_core" unfolding graph_ok_def using nodes by (simp add: demo_core_def)
  have s: "shapes_ok demo_core" by code_simp
  have v: "node_valid demo_core 4" by code_simp
  have ws: "windows demo_core 4 1 = [[demo_link 3 4 0 1, demo_link 2 2 0 5], [demo_link 3 4 0 1, demo_link 1 3 2 7]]" by code_simp
  have fit: "\<forall>ls\<in>set (windows demo_core 4 1). scores_fit demo_core ls" unfolding ws by code_simp
  have "uint (cl_MaxPopPaths (co_limits demo_core)) = 64" by (simp add: demo_core_def)
  then have cap: "int (length (windows demo_core 4 1)) \<le> uint (cl_MaxPopPaths (co_limits demo_core))" unfolding ws by simp
  have w: "ls \<in> set (windows demo_core 4 1)" if "window demo_core 4 1 ls" for ls
    using windows_exact [OF g v] that by simp
  have "popPaths demo_core 4 1 = Inr (map (path_of demo_core) (windows demo_core 4 1))"
    using popPaths_enumerates [OF g s v, of 1] fit w cap by simp
  moreover have "map po_children (map (path_of demo_core) (windows demo_core 4 1)) = [[2], [3]]
      \<and> map po_prev (map (path_of demo_core) (windows demo_core 4 1)) = [2, 1]
      \<and> map (\<lambda>p. map pp_payload (po_trailing p)) (map (path_of demo_core) (windows demo_core 4 1)) = [[4], [4]]
      \<and> map po_score (map (path_of demo_core) (windows demo_core 4 1)) = [5, 7]" unfolding ws by code_simp
  ultimately show ?thesis using g s v by (intro conjI exI) auto
qed

end
