(* ===== verification/Compact_Derivations.thy ===== *)
theory Compact_Derivations
  imports Compact_Graph
begin

text \<open>
  The derivations of a head of the compact graph, \<^verbatim>\<open>core.go\<close> and \<^verbatim>\<open>sole_derivation_summary.go\<close> under
  \<^verbatim>\<open>internal/runtime/internal/parsercorephase0\<close>: the enumeration of all paths from a head to a seed, the
  shortcut for heads with a single path, and \<^verbatim>\<open>SoleDerivation\<close>, which decides through a memoised summary
  of path counts and extreme scores whether there is exactly one path.

  The lemmas show that the summary agrees with the enumeration on every graph, malformed and cyclic ones
  included, in its results and in its errors, and that the shortcut gives what the walk over all links
  gives: no node repeats on the way the shortcut takes, and where it fails the walk fails too. The
  summary's recursion carries fuel; one unit per node of
  the arena and one more are enough, since it never enters a node it is visiting.
\<close>

section \<open>The enumeration\<close>

record derivation =
  dv_Payloads :: "u32 list"
  dv_Score :: int
  dv_BranchOrder :: u64
  dv_HasBranchOrder :: bool

definition empty_derivation :: derivation where
  "empty_derivation = \<lparr>dv_Payloads = [], dv_Score = 0, dv_BranchOrder = 0, dv_HasBranchOrder = False\<rparr>"

definition extend_derivation :: "bool \<Rightarrow> linkRecord \<Rightarrow> derivation \<Rightarrow> derivation result" where
  "extend_derivation collectPayloads link prefix =
     bindR (checkedAddScore (dv_Score prefix) (lr_scoreDelta link)) (\<lambda>score.
       Inr \<lparr>dv_Payloads =
              (if collectPayloads then dv_Payloads prefix @ (if lr_payload link \<noteq> 0 then [lr_payload link] else []) else []),
            dv_Score = score,
            dv_BranchOrder = (if hasOrder link then lr_order link else dv_BranchOrder prefix),
            dv_HasBranchOrder = (hasOrder link \<or> dv_HasBranchOrder prefix)\<rparr>)"

fun add_derivations :: "core \<Rightarrow> bool \<Rightarrow> linkRecord \<Rightarrow> derivation list \<Rightarrow> derivation list \<Rightarrow> derivation list result" where
  "add_derivations c collectPayloads link [] paths = Inr paths"
| "add_derivations c collectPayloads link (prefix # prefixes) paths =
     (if int (length paths) \<ge> uint (cl_MaxDerivations (co_limits c)) then Inl DerivationCap
      else bindR (extend_derivation collectPayloads link prefix) (\<lambda>path.
        add_derivations c collectPayloads link prefixes (paths @ [path])))"

text \<open>The nodes an enumeration can still enter.\<close>

definition unvisited :: "core \<Rightarrow> u32 list \<Rightarrow> u32 set" where
  "unvisited c visiting = {ident. ident \<noteq> 0 \<and> unat ident \<le> length (co_nodes c)} - set visiting"

lemma unvisited_finite [simp]: "finite (unvisited c visiting)"
  unfolding unvisited_def by (rule finite_subset [OF subset_UNIV]) simp

lemma core_node_valid: "core_node c ident = Inr n \<Longrightarrow> ident \<noteq> 0 \<and> unat ident \<le> length (co_nodes c)"
  by (auto simp: core_node_def not_less split: if_splits)

lemma unvisited_less:
  assumes "ident \<notin> set visiting" "core_node c ident = Inr n"
  shows "card (unvisited c (ident # visiting)) < card (unvisited c visiting)"
  using assms core_node_valid [OF assms(2)] by (intro psubset_card_mono) (auto simp: unvisited_def)

function derivation_walk :: "core \<Rightarrow> bool \<Rightarrow> u32 list \<Rightarrow> u32 \<Rightarrow> derivation list result"
  and derivation_links :: "core \<Rightarrow> bool \<Rightarrow> u32 list \<Rightarrow> linkRecord list \<Rightarrow> derivation list \<Rightarrow> derivation list result" where
  "derivation_walk c collectPayloads visiting ident =
     (if ident \<in> set visiting then Inl GraphCycle
      else bindR (core_node c ident) (\<lambda>n.
        if nr_linkCount n = 0 then (if nr_pathCount n \<noteq> 1 then Inl SeedPathCount else Inr [empty_derivation])
        else bindR (nodeLinks c n) (\<lambda>links.
          bindR (derivation_links c collectPayloads (ident # visiting) links []) (\<lambda>paths.
            if nr_pathCount n \<noteq> - 1 \<and> of_nat (length paths) \<noteq> nr_pathCount n
            then Inl (PathCountMismatch (of_nat (length paths)) (nr_pathCount n)) else Inr paths))))"
| "derivation_links c collectPayloads visiting [] paths = Inr paths"
| "derivation_links c collectPayloads visiting (link # links) paths =
     bindR (validateShape link) (\<lambda>_.
     bindR (derivation_walk c collectPayloads visiting (lr_prev link)) (\<lambda>prefixes.
     bindR (add_derivations c collectPayloads link prefixes paths) (\<lambda>paths.
       derivation_links c collectPayloads visiting links paths)))"
  by pat_completeness auto
termination
  by (relation "measures [\<lambda>x. case x of Inl (c, p, visiting, i) \<Rightarrow> card (unvisited c visiting) | Inr (c, p, visiting, r) \<Rightarrow> card (unvisited c visiting),
      \<lambda>x. case x of Inl _ \<Rightarrow> 0 | Inr (c, p, v, links, r) \<Rightarrow> Suc (length links)]")
     (auto simp: unvisited_less)

declare derivation_walk.simps [simp del] derivation_links.simps(2) [simp del]

section \<open>The shortcut\<close>

function single_links :: "core \<Rightarrow> u32 \<Rightarrow> u32 list \<Rightarrow> u32 list option result" where
  "single_links c ident reverseLinks =
     bindR (core_node c ident) (\<lambda>n.
       if nr_linkCount n = 0 then (if nr_pathCount n \<noteq> 1 then Inl SeedPathCount else Inr (Some reverseLinks))
       else if nr_pathCount n \<noteq> 1 \<or> nr_linkCount n \<noteq> 1 then Inr None
       else let linkID = nr_firstLink n in
         if linkID = 0 then Inl AdjacencyShorter
         else if unat linkID > length (co_links c) then Inl LinkOutOfRange
         else let link = co_links c ! (unat linkID - 1) in
           bindR (validateShape link) (\<lambda>_.
             if lr_next link \<noteq> 0 then
               (if lr_next link = linkID then Inl AdjacencyCycle
                else if unat (lr_next link) > length (co_links c) then Inl LinkOutOfRange
                else Inl AdjacencyExceeds)
             else if length (reverseLinks @ [linkID]) \<ge> length (co_nodes c) then Inl GraphCycle
             else single_links c (lr_prev link) (reverseLinks @ [linkID])))"
  by pat_completeness auto
termination
  by (relation "measure (\<lambda>(c, ident, reverseLinks). length (co_nodes c) - length reverseLinks)") auto

declare single_links.simps [simp del]

fun single_path :: "core \<Rightarrow> u32 list \<Rightarrow> derivation \<Rightarrow> derivation result" where
  "single_path c [] path = Inr path"
| "single_path c (linkID # ids) path =
     bindR (extend_derivation True (co_links c ! (unat linkID - 1)) path) (single_path c ids)"

definition singleDerivation :: "core \<Rightarrow> u32 \<Rightarrow> derivation option result" where
  "singleDerivation c ident =
     bindR (single_links c ident []) (\<lambda>r.
       case r of
         None \<Rightarrow> Inr None
       | Some reverseLinks \<Rightarrow> bindR (single_path c (rev reverseLinks) empty_derivation) (\<lambda>path. Inr (Some path)))"

definition derivations :: "core \<Rightarrow> u32 \<Rightarrow> bool \<Rightarrow> derivation list result" where
  "derivations c head collectPayloads =
     bindR (core_node c head) (\<lambda>n.
     bindR (if nr_pathCount n = 1 then singleDerivation c head else Inr None) (\<lambda>r.
       case r of Some path \<Rightarrow> Inr [path] | None \<Rightarrow> derivation_walk c collectPayloads [] head))"

definition Derivations :: "core \<Rightarrow> u32 \<Rightarrow> derivation list result" where
  "Derivations c head = derivations c head True"

section \<open>The summary\<close>

record pathSummary =
  ds_pathCount :: u64
  ds_minimumScore :: int
  ds_maximumScore :: int

datatype summaryNodeState = SummaryVisiting | SummaryComplete

record summaryNode =
  dn_id :: u32
  dn_state :: summaryNodeState
  dn_summary :: pathSummary

record summaryScratch =
  sc_nodes :: "summaryNode list"
  sc_nodeIndexes :: "u32 \<rightharpoonup> nat"
  sc_links :: "(u32 \<times> linkRecord) list"

definition zero_summary :: pathSummary where
  "zero_summary = \<lparr>ds_pathCount = 0, ds_minimumScore = 0, ds_maximumScore = 0\<rparr>"

definition fresh_scratch :: summaryScratch where
  "fresh_scratch = \<lparr>sc_nodes = [], sc_nodeIndexes = Map.empty, sc_links = []\<rparr>"

definition summary_appendNode :: "u32 \<Rightarrow> summaryNodeState \<Rightarrow> summaryScratch \<Rightarrow> nat \<times> summaryScratch" where
  "summary_appendNode ident state s =
     (length (sc_nodes s),
      s\<lparr>sc_nodes := sc_nodes s @ [\<lparr>dn_id = ident, dn_state = state, dn_summary = zero_summary\<rparr>],
        sc_nodeIndexes := (sc_nodeIndexes s)(ident \<mapsto> length (sc_nodes s))\<rparr>)"

definition set_summary :: "nat \<Rightarrow> pathSummary \<Rightarrow> summaryScratch \<Rightarrow> summaryScratch" where
  "set_summary index m s =
     s\<lparr>sc_nodes := (sc_nodes s)[index := (sc_nodes s ! index)\<lparr>dn_state := SummaryComplete, dn_summary := m\<rparr>]\<rparr>"

text \<open>The links of an adjacency are read newest first behind the links already stored, then reversed in place.\<close>

function summary_chain :: "core \<Rightarrow> nat \<Rightarrow> nat \<Rightarrow> u32 \<Rightarrow> (u32 \<times> linkRecord) list \<Rightarrow> (u32 \<times> linkRecord) list result" where
  "summary_chain c linkCount start ident links =
     (if ident = 0 then Inr links
      else if ident \<in> set (map fst (drop start links)) then Inl AdjacencyCycle
      else if unat ident > length (co_links c) then Inl LinkOutOfRange
      else let link = co_links c ! (unat ident - 1) in
        bindR (validateShape link) (\<lambda>_.
          let links = links @ [(ident, link)] in
          if length links - start > linkCount then Inl AdjacencyExceeds
          else summary_chain c linkCount start (lr_next link) links))"
  by pat_completeness auto
termination
  by (relation "measure (\<lambda>(c, linkCount, start, ident, links). linkCount + start - length links)") auto

declare summary_chain.simps [simp del]

definition appendNodeLinks :: "core \<Rightarrow> nodeRecord \<Rightarrow> summaryScratch \<Rightarrow> (nat \<times> nat \<times> summaryScratch) result" where
  "appendNodeLinks c n s =
     (let start = length (sc_links s) in
      bindR (summary_chain c (unat (nr_linkCount n)) start (nr_firstLink n) (sc_links s)) (\<lambda>links.
        let fin = length links in
        if of_nat (fin - start) \<noteq> nr_linkCount n then Inl AdjacencyShorter
        else Inr (start, fin, s\<lparr>sc_links := take start links @ rev (drop start links)\<rparr>)))"

definition summary_add :: "linkRecord \<Rightarrow> pathSummary \<Rightarrow> pathSummary \<Rightarrow> pathSummary result" where
  "summary_add link prefix m =
     bindR (checkedAddScore (ds_minimumScore prefix) (lr_scoreDelta link)) (\<lambda>minimum.
     bindR (checkedAddScore (ds_maximumScore prefix) (lr_scoreDelta link)) (\<lambda>maximum.
       Inr \<lparr>ds_pathCount = ds_pathCount m + ds_pathCount prefix,
            ds_minimumScore = (if ds_pathCount m = 0 \<or> minimum < ds_minimumScore m then minimum else ds_minimumScore m),
            ds_maximumScore = (if ds_pathCount m = 0 \<or> maximum > ds_maximumScore m then maximum else ds_maximumScore m)\<rparr>))"

text \<open>
  The recursive summary. \<open>None\<close> is exhausted fuel; a result carries whether it is complete. The links of
  a node are read from the scratch by position, since deeper calls append behind them.
\<close>

fun summary_walk :: "nat \<Rightarrow> core \<Rightarrow> u32 \<Rightarrow> summaryScratch \<Rightarrow> (pathSummary \<times> bool \<times> summaryScratch) result option"
  and summary_links :: "nat \<Rightarrow> core \<Rightarrow> nat \<Rightarrow> nat \<Rightarrow> pathSummary \<Rightarrow> summaryScratch \<Rightarrow> (pathSummary \<times> bool \<times> summaryScratch) result option" where
  "summary_walk fuel c ident s =
     (case sc_nodeIndexes s ident of
        Some index \<Rightarrow>
          (let entry = sc_nodes s ! index in
           case dn_state entry of
             SummaryVisiting \<Rightarrow> Some (Inl GraphCycle)
           | SummaryComplete \<Rightarrow> Some (Inr (dn_summary entry, True, s)))
      | None \<Rightarrow>
          (case core_node c ident of
             Inl e \<Rightarrow> Some (Inl e)
           | Inr n \<Rightarrow>
               if nr_linkCount n = 0 then
                 (if nr_pathCount n \<noteq> 1 then Some (Inl SeedPathCount)
                  else let m = zero_summary\<lparr>ds_pathCount := 1\<rparr>; (index, s) = summary_appendNode ident SummaryComplete s in
                       Some (Inr (m, True, set_summary index m s)))
               else let (entryIndex, s) = summary_appendNode ident SummaryVisiting s in
                 (case appendNodeLinks c n s of
                    Inl e \<Rightarrow> Some (Inl e)
                  | Inr (start, fin, s) \<Rightarrow>
                      (case fuel of
                         0 \<Rightarrow> None
                       | Suc fuel \<Rightarrow>
                           (case summary_links fuel c start (fin - start) zero_summary s of
                              None \<Rightarrow> None
                            | Some (Inl e) \<Rightarrow> Some (Inl e)
                            | Some (Inr (m, False, s)) \<Rightarrow> Some (Inr (zero_summary, False, s))
                            | Some (Inr (m, True, s)) \<Rightarrow>
                                if nr_pathCount n \<noteq> - 1 \<and> ds_pathCount m \<noteq> nr_pathCount n
                                then Some (Inl (PathCountMismatch (ds_pathCount m) (nr_pathCount n)))
                                else Some (Inr (m, True, set_summary entryIndex m s)))))))"
| "summary_links fuel c index 0 m s = Some (Inr (m, True, s))"
| "summary_links fuel c index (Suc k) m s =
     (let link = snd (sc_links s ! index) in
      case summary_walk fuel c (lr_prev link) s of
        None \<Rightarrow> None
      | Some (Inl e) \<Rightarrow> Some (Inl e)
      | Some (Inr (prefix, False, s)) \<Rightarrow> Some (Inr (zero_summary, False, s))
      | Some (Inr (prefix, True, s)) \<Rightarrow>
          if ds_pathCount m > cl_MaxDerivations (co_limits c)
             \<or> ds_pathCount prefix > cl_MaxDerivations (co_limits c) - ds_pathCount m
          then Some (Inr (zero_summary, False, s))
          else (case summary_add link prefix m of
                  Inl e \<Rightarrow> Some (Inl e)
                | Inr m \<Rightarrow> summary_links fuel c (Suc index) k m s))"

declare summary_walk.simps [simp del] summary_links.simps(2) [simp del]

definition summarizeDerivationPaths :: "core \<Rightarrow> u32 \<Rightarrow> (pathSummary \<times> bool) result option" where
  "summarizeDerivationPaths c head =
     (case summary_walk (Suc (length (co_nodes c))) c head fresh_scratch of
        None \<Rightarrow> None
      | Some (Inl e) \<Rightarrow> Some (Inl e)
      | Some (Inr (m, complete, s)) \<Rightarrow> Some (Inr (m, complete)))"

definition sole_path :: "core \<Rightarrow> u32 \<Rightarrow> bool \<Rightarrow> derivation option result" where
  "sole_path c head collectPayloads =
     bindR (derivations c head collectPayloads) (\<lambda>paths.
       if length paths \<noteq> 1 then Inr None
       else if \<not> collectPayloads then bindR (Derivations c head) (\<lambda>paths. Inr (Some (paths ! 0)))
       else Inr (Some (paths ! 0)))"

definition SoleDerivation :: "core \<Rightarrow> u32 \<Rightarrow> derivation option result option" where
  "SoleDerivation c head =
     (case core_node c head of
        Inl e \<Rightarrow> Some (Inl e)
      | Inr n \<Rightarrow>
          (case (if nr_pathCount n = 1 then singleDerivation c head else Inr None) of
             Inl e \<Rightarrow> Some (Inl e)
           | Inr (Some path) \<Rightarrow> Some (Inr (Some path))
           | Inr None \<Rightarrow>
               if nr_pathCount n = 1 then Some (sole_path c head True)
               else (case summarizeDerivationPaths c head of
                       None \<Rightarrow> None
                     | Some (Inl e) \<Rightarrow> Some (Inl e)
                     | Some (Inr (m, complete)) \<Rightarrow>
                         if complete \<and> ds_pathCount m \<noteq> 1 then Some (Inr None)
                         else Some (sole_path c head complete))))"

section \<open>Payloads do not change an enumeration\<close>

fun mapR :: "('a \<Rightarrow> 'b) \<Rightarrow> 'a result \<Rightarrow> 'b result" where
  "mapR f (Inl e) = Inl e"
| "mapR f (Inr x) = Inr (f x)"

definition strip :: "derivation \<Rightarrow> derivation" where
  "strip p = p\<lparr>dv_Payloads := []\<rparr>"

lemma strip_fields [simp]: "dv_Score (strip p) = dv_Score p" "strip empty_derivation = empty_derivation"
  by (simp_all add: strip_def empty_derivation_def)

lemma extend_strip: "extend_derivation False link (strip p) = mapR strip (extend_derivation True link p)"
  by (cases "checkedAddScore (dv_Score p) (lr_scoreDelta link)") (simp_all add: extend_derivation_def strip_def)

lemma add_derivations_strip:
  "add_derivations c False link (map strip ps) (map strip paths) = mapR (map strip) (add_derivations c True link ps paths)"
proof (induction ps arbitrary: paths)
  case (Cons p ps)
  show ?case
  proof (cases "extend_derivation True link p")
    case (Inr q)
    then show ?thesis using Cons.IH [of "paths @ [q]"] by (simp add: extend_strip)
  qed (simp add: extend_strip)
qed simp

lemma walk_strip:
  "derivation_walk c False vis ident = mapR (map strip) (derivation_walk c True vis ident)"
  "derivation_links c False vis links (map strip paths) = mapR (map strip) (derivation_links c True vis links paths)"
proof (induction c True vis ident and c True vis links paths rule: derivation_walk_derivation_links.induct)
  case (1 c vis ident)
  show ?case
  proof (cases "ident \<in> set vis")
    case False
    show ?thesis
    proof (cases "core_node c ident")
      case (Inr n)
      show ?thesis
      proof (cases "nodeLinks c n")
        case (Inr links)
        show ?thesis
        proof (cases "nr_linkCount n = 0")
          case f: False
          have ih: "derivation_links c False (ident # vis) links [] = mapR (map strip) (derivation_links c True (ident # vis) links [])"
            using 1 [OF False \<open>core_node c ident = Inr n\<close> f Inr] by simp
          show ?thesis using False f Inr \<open>core_node c ident = Inr n\<close> ih
            by (cases "derivation_links c True (ident # vis) links []") (simp_all add: derivation_walk.simps [of c _ vis])
        qed (simp add: derivation_walk.simps [of c _ vis] False \<open>core_node c ident = Inr n\<close>)
      qed (simp add: derivation_walk.simps [of c _ vis] False \<open>core_node c ident = Inr n\<close>)
    qed (simp add: derivation_walk.simps [of c _ vis] False)
  qed (simp add: derivation_walk.simps [of c _ vis])
next
  case (2 c vis paths)
  then show ?case by simp
next
  case (3 c vis link links paths)
  show ?case
  proof (cases "validateShape link")
    case (Inl e)
    then show ?thesis by (simp add: derivation_links.simps(2))
  next
    case (Inr u)
    note ih1 = 3(1) [OF Inr]
    show ?thesis
    proof (cases "derivation_walk c True vis (lr_prev link)")
      case (Inl e)
      then show ?thesis using \<open>validateShape link = Inr u\<close> ih1 by (simp add: derivation_links.simps(2))
    next
      case w: (Inr ps)
      show ?thesis
      proof (cases "add_derivations c True link ps paths")
        case (Inl e)
        then show ?thesis using \<open>validateShape link = Inr u\<close> ih1 w add_derivations_strip [of c link ps paths] by (simp add: derivation_links.simps(2))
      next
        case a: (Inr qs)
        then show ?thesis using \<open>validateShape link = Inr u\<close> ih1 w add_derivations_strip [of c link ps paths] 3(2) [OF Inr w a]
          by (simp add: derivation_links.simps(2))
      qed
    qed
  qed
qed

section \<open>Summaries of lists of paths\<close>

definition summary_of :: "derivation list \<Rightarrow> pathSummary" where
  "summary_of ps =
     \<lparr>ds_pathCount = of_nat (length ps),
      ds_minimumScore = (if ps = [] then 0 else Min (dv_Score ` set ps)),
      ds_maximumScore = (if ps = [] then 0 else Max (dv_Score ` set ps))\<rparr>"

definition overflows :: "int \<Rightarrow> int \<Rightarrow> bool" where
  "overflows a b \<longleftrightarrow> (b > 0 \<and> a > 9223372036854775807 - b) \<or> (b < 0 \<and> a < - 9223372036854775808 - b)"

lemma checked_overflows: "checkedAddScore a b = (if overflows a b then Inl ScoreOverflow else Inr (a + b))"
  by (simp add: checkedAddScore_def overflows_def)

definition extended :: "linkRecord \<Rightarrow> derivation \<Rightarrow> derivation" where
  "extended link p = projr (extend_derivation False link p)"

lemma extend_overflows:
  "extend_derivation False link p =
     (if overflows (dv_Score p) (lr_scoreDelta link) then Inl ScoreOverflow else Inr (extended link p))"
  "\<not> overflows (dv_Score p) (lr_scoreDelta link) \<Longrightarrow> dv_Score (extended link p) = dv_Score p + lr_scoreDelta link"
  by (simp_all add: extend_derivation_def extended_def checked_overflows)

lemma add_derivations_bounded:
  assumes "int (length paths + length ps) \<le> uint (cl_MaxDerivations (co_limits c))"
  shows "add_derivations c False link ps paths =
    (if \<exists>p\<in>set ps. overflows (dv_Score p) (lr_scoreDelta link) then Inl ScoreOverflow
     else Inr (paths @ map (extended link) ps))"
  using assms
proof (induction ps arbitrary: paths)
  case (Cons p ps)
  have "int (length (paths @ [q]) + length ps) \<le> uint (cl_MaxDerivations (co_limits c))" for q using Cons.prems by simp
  then show ?case using Cons.prems Cons.IH by (auto simp: extend_overflows(1))
qed simp

lemma overflow_extremes:
  assumes "ps \<noteq> []"
  shows "(\<exists>p\<in>set ps. overflows (dv_Score p) b) \<longleftrightarrow> overflows (Min (dv_Score ` set ps)) b \<or> overflows (Max (dv_Score ` set ps)) b"
proof -
  let ?S = "dv_Score ` set ps"
  have fin: "finite ?S" "?S \<noteq> {}" using assms by auto
  have mem: "Min ?S \<in> ?S" "Max ?S \<in> ?S" using Min_in [OF fin] Max_in [OF fin] by auto
  have range: "Min ?S \<le> dv_Score p \<and> dv_Score p \<le> Max ?S" if "p \<in> set ps" for p
    using that fin by simp
  show ?thesis
  proof
    assume "\<exists>p\<in>set ps. overflows (dv_Score p) b"
    then obtain p where p: "p \<in> set ps" "overflows (dv_Score p) b" by blast
    show "overflows (Min ?S) b \<or> overflows (Max ?S) b" using p(2) range [OF p(1)] unfolding overflows_def by linarith
  next
    assume "overflows (Min ?S) b \<or> overflows (Max ?S) b"
    then show "\<exists>p\<in>set ps. overflows (dv_Score p) b" using mem by (auto simp: image_iff)
  qed
qed

lemma summary_add_exact:
  assumes "ps \<noteq> []" "length paths + length ps < 2 ^ 64"
  shows "summary_add link (summary_of ps) (summary_of paths) =
    (if \<exists>p\<in>set ps. overflows (dv_Score p) (lr_scoreDelta link) then Inl ScoreOverflow
     else Inr (summary_of (paths @ map (extended link) ps)))"
proof (cases "\<exists>p\<in>set ps. overflows (dv_Score p) (lr_scoreDelta link)")
  case True
  then show ?thesis
    using overflow_extremes [OF assms(1), of "lr_scoreDelta link"] assms(1)
    by (auto simp: summary_add_def summary_of_def checked_overflows)
next
  case False
  let ?d = "lr_scoreDelta link" and ?S = "dv_Score ` set ps" and ?P = "dv_Score ` set paths"
  have no: "\<not> overflows (Min ?S) ?d" "\<not> overflows (Max ?S) ?d" using False overflow_extremes [OF assms(1)] by blast+
  have img: "dv_Score ` extended link ` set ps = (\<lambda>x. x + ?d) ` ?S"
    using False by (force simp: extend_overflows(2) image_iff)
  have fin: "finite ?S" "?S \<noteq> {}" using assms(1) by auto
  have m: "Min ((\<lambda>x. x + ?d) ` ?S) = Min ?S + ?d" "Max ((\<lambda>x. x + ?d) ` ?S) = Max ?S + ?d"
    using fin by (simp_all add: mono_Min_commute [symmetric] mono_Max_commute [symmetric] monoI)
  have zero: "(of_nat (length paths) :: u64) = 0 \<longleftrightarrow> paths = []"
  proof -
    have "unat (of_nat (length paths) :: u64) = length paths" using assms(2) by (simp add: unat_of_nat take_bit_nat_eq_self)
    moreover have "unat (of_nat (length paths) :: u64) = 0" if "(of_nat (length paths) :: u64) = 0" unfolding that by simp
    ultimately show ?thesis by auto
  qed
  show ?thesis
  proof (cases "paths = []")
    case True
    then show ?thesis using False no assms(1) by (simp add: summary_add_def summary_of_def checked_overflows img m)
  next
    case f: False
    then have fP: "finite ?P" "?P \<noteq> {}" by auto
    have "Min (?P \<union> (\<lambda>x. x + ?d) ` ?S) = min (Min ?P) (Min ?S + ?d)" "Max (?P \<union> (\<lambda>x. x + ?d) ` ?S) = max (Max ?P) (Max ?S + ?d)"
      using fin fP by (simp_all add: Min_Un Max_Un m)
    then show ?thesis using False no assms(1) f zero
      by (auto simp: summary_add_def summary_of_def checked_overflows img image_Un min_def max_def
        simp del: Min_gr_iff Max_less_iff Min_le_iff Max_ge_iff Min_ge_iff Max_le_iff)
  qed
qed

section \<open>Reading an adjacency\<close>

lemma chain_links_length:
  "chain_links c k ident seen links = Inr ls \<Longrightarrow> length links \<le> k \<Longrightarrow> length ls \<le> k"
proof (induction c k ident seen links rule: chain_links.induct)
  case (1 c k ident seen links)
  then show ?case by (subst (asm) (2) chain_links.simps) (auto simp: Let_def split: if_splits)
qed

lemma summary_chain_exact:
  fixes pre :: "(u32 \<times> linkRecord) list"
  assumes "length ids = length links" "set seen = set ids"
  shows "case chain_links c k ident seen links of
      Inl e \<Rightarrow> summary_chain c k (length pre) ident (pre @ zip ids links) = Inl e
    | Inr ls \<Rightarrow> (\<exists>js. length js = length ls \<and> summary_chain c k (length pre) ident (pre @ zip ids links) = Inr (pre @ zip js ls))"
  using assms
proof (induction c k ident seen links arbitrary: ids rule: chain_links.induct)
  case (1 c k ident seen links)
  let ?link = "co_links c ! (unat ident - 1)"
  have mem: "ident \<in> set (map fst (drop (length pre) (pre @ zip ids links))) \<longleftrightarrow> ident \<in> set seen"
    using 1(2,3) by (simp add: map_fst_zip)
  have len: "length (pre @ zip ids links @ [(ident, ?link)]) - length pre = length links + 1"
    using 1(2) by simp
  consider "ident = 0" | "ident \<noteq> 0" "ident \<in> set seen" | "ident \<noteq> 0" "ident \<notin> set seen" "unat ident > length (co_links c)"
    | (sh) e where "ident \<noteq> 0" "ident \<notin> set seen" "\<not> unat ident > length (co_links c)" "validateShape ?link = Inl e"
    | (go) "ident \<noteq> 0" "ident \<notin> set seen" "\<not> unat ident > length (co_links c)" "validateShape ?link = Inr ()"
    by (cases "validateShape ?link") auto
  then show ?case
  proof cases
    case go
    show ?thesis
    proof (cases "length links + 1 > k")
      case True
      then show ?thesis using go mem len
        by (simp add: chain_links.simps [of c k ident] summary_chain.simps [of c k _ ident] Let_def del: set_map)
    next
      case False
      have ih: "case chain_links c k (lr_next ?link) (ident # seen) (links @ [?link]) of
          Inl e \<Rightarrow> summary_chain c k (length pre) (lr_next ?link) (pre @ zip (ids @ [ident]) (links @ [?link])) = Inl e
        | Inr ls \<Rightarrow> (\<exists>js. length js = length ls \<and> summary_chain c k (length pre) (lr_next ?link) (pre @ zip (ids @ [ident]) (links @ [?link])) = Inr (pre @ zip js ls))"
        using 1(1) [OF go(1-3) refl go(4) False] 1(2,3) by simp
      have l: "chain_links c k ident seen links = chain_links c k (lr_next ?link) (ident # seen) (links @ [?link])"
        using go False by (simp add: chain_links.simps [of c k ident seen] Let_def)
      have r: "summary_chain c k (length pre) ident (pre @ zip ids links)
          = summary_chain c k (length pre) (lr_next ?link) (pre @ zip (ids @ [ident]) (links @ [?link]))"
        using go False mem len 1(2) unfolding summary_chain.simps [of c k "length pre" ident]
        by (simp add: Let_def del: set_map)
      show ?thesis unfolding l r by (rule ih)
    qed
  next
    case 1
    show ?thesis using \<open>length ids = length links\<close>
      by (auto simp: \<open>ident = 0\<close> chain_links.simps [of c k 0] summary_chain.simps [of c k _ 0])
  qed (use mem 1(2) in \<open>auto simp: chain_links.simps [of c k ident] summary_chain.simps [of c k _ ident] Let_def simp del: set_map\<close>)
qed

lemma appendNodeLinks_exact:
  "case nodeLinks c n of
     Inl e \<Rightarrow> appendNodeLinks c n s = Inl e
   | Inr ls \<Rightarrow> (\<exists>ids. length ids = length ls \<and> appendNodeLinks c n s =
       Inr (length (sc_links s), length (sc_links s) + length ls, s\<lparr>sc_links := sc_links s @ zip ids ls\<rparr>))"
proof -
  let ?k = "unat (nr_linkCount n)"
  note ch = summary_chain_exact [where ids = "[]" and links = "[]" and seen = "[]" and c = c and k = ?k and ident = "nr_firstLink n" and pre = "sc_links s"]
  show ?thesis
  proof (cases "chain_links c ?k (nr_firstLink n) [] []")
    case (Inl e)
    then show ?thesis using ch by (simp add: nodeLinks_def appendNodeLinks_def Let_def)
  next
    case (Inr ls)
    then obtain js where js: "length js = length ls" "summary_chain c ?k (length (sc_links s)) (nr_firstLink n) (sc_links s) = Inr (sc_links s @ zip js ls)"
      using ch by auto
    have "length ls \<le> ?k" using chain_links_length [OF Inr] by simp
    then have "length ls < 4294967296" using unat_u32_less [of "nr_linkCount n"] by linarith
    then have "of_nat (length ls) = nr_linkCount n \<longleftrightarrow> length ls = ?k"
      using unat_u32_of_nat [of "length ls"] by (metis word_unat_eq_iff)
    then show ?thesis using Inr js
      by (auto simp: nodeLinks_def appendNodeLinks_def Let_def zip_rev intro!: exI [of _ "rev js"])
  qed
qed

lemma nodeLinks_shapes:
  assumes "nodeLinks c n = Inr ls" "l \<in> set ls"
  shows "validateShape l = Inr ()"
proof -
  have "chain_links c k ident seen links = Inr ls \<Longrightarrow> \<forall>l\<in>set links. validateShape l = Inr () \<Longrightarrow> \<forall>l\<in>set ls. validateShape l = Inr ()" for k ident seen links ls
  proof (induction c k ident seen links rule: chain_links.induct)
    case (1 c k ident seen links)
    then show ?case by (subst (asm) (2) chain_links.simps) (auto simp: Let_def split: if_splits)
  qed
  then show ?thesis using assms by (auto simp: nodeLinks_def split: if_splits)
qed

section \<open>The summary follows the enumeration\<close>

definition completed :: "summaryScratch \<Rightarrow> u32 set" where
  "completed s = dn_id ` {e \<in> set (sc_nodes s). dn_state e = SummaryComplete}"

text \<open>
  A completed entry summarises the paths of its node, and the enumeration gives these paths whatever it
  is visiting, as long as that is nothing completed.
\<close>

definition entry_ok :: "core \<Rightarrow> u32 set \<Rightarrow> u32 \<Rightarrow> pathSummary \<Rightarrow> bool" where
  "entry_ok c settled ident m \<longleftrightarrow>
     (\<exists>ps. ps \<noteq> [] \<and> length ps < 2 ^ 64 \<and> m = summary_of ps
       \<and> (\<forall>vis. set vis \<inter> settled = {} \<longrightarrow> derivation_walk c False vis ident = Inr ps))"

definition scratch_ok :: "core \<Rightarrow> u32 list \<Rightarrow> summaryScratch \<Rightarrow> bool" where
  "scratch_ok c vis s \<longleftrightarrow>
     (\<forall>ident i. sc_nodeIndexes s ident = Some i \<longleftrightarrow> i < length (sc_nodes s) \<and> dn_id (sc_nodes s ! i) = ident)
     \<and> (\<forall>e\<in>set (sc_nodes s). dn_state e = SummaryVisiting \<longleftrightarrow> dn_id e \<in> set vis)
     \<and> set vis \<subseteq> dn_id ` set (sc_nodes s)
     \<and> (\<forall>e\<in>set (sc_nodes s). dn_state e = SummaryComplete \<longrightarrow> entry_ok c (completed s) (dn_id e) (dn_summary e))"

definition scratch_grows :: "summaryScratch \<Rightarrow> summaryScratch \<Rightarrow> bool" where
  "scratch_grows s t \<longleftrightarrow> completed s \<subseteq> completed t \<and> sc_nodeIndexes s \<subseteq>\<^sub>m sc_nodeIndexes t \<and> (\<exists>zs. sc_links t = sc_links s @ zs)"

lemma scratch_grows_refl: "scratch_grows s s" by (simp add: scratch_grows_def)

lemma scratch_grows_trans: "scratch_grows s t \<Longrightarrow> scratch_grows t u \<Longrightarrow> scratch_grows s u"
  by (auto simp: scratch_grows_def intro: map_le_trans)

lemma entry_ok_mono: "entry_ok c settled ident m \<Longrightarrow> settled \<subseteq> settled' \<Longrightarrow> entry_ok c settled' ident m"
  unfolding entry_ok_def by blast

lemma scratch_disjoint: "scratch_ok c vis s \<Longrightarrow> set vis \<inter> completed s = {}"
  by (fastforce simp: scratch_ok_def completed_def)

lemma scratch_entry:
  assumes "scratch_ok c vis s" "sc_nodeIndexes s ident = Some i"
  shows "i < length (sc_nodes s)" "dn_id (sc_nodes s ! i) = ident" "sc_nodes s ! i \<in> set (sc_nodes s)"
  using assms by (auto simp: scratch_ok_def)

lemma completed_walk:
  assumes "scratch_ok c vis s" "ident \<in> completed s"
  shows "\<exists>ps. \<forall>vis'. set vis' \<inter> completed s = {} \<longrightarrow> derivation_walk c False vis' ident = Inr ps"
proof -
  obtain e where "e \<in> set (sc_nodes s)" "dn_state e = SummaryComplete" "dn_id e = ident" using assms(2) by (auto simp: completed_def)
  then have "entry_ok c (completed s) ident (dn_summary e)" using assms(1) by (auto simp: scratch_ok_def)
  then show ?thesis by (auto simp: entry_ok_def)
qed

text \<open>What a call of the summary promises, given what the enumeration returns.\<close>

definition summary_promise ::
  "core \<Rightarrow> u32 list \<Rightarrow> summaryScratch \<Rightarrow> u32 set \<Rightarrow> derivation list result \<Rightarrow> (pathSummary \<times> bool \<times> summaryScratch) result option \<Rightarrow> bool" where
  "summary_promise c vis s targets walk r \<longleftrightarrow>
     (case r of
        None \<Rightarrow> False
      | Some (Inl e) \<Rightarrow> walk = Inl e
      | Some (Inr (m, complete, t)) \<Rightarrow> complete \<longrightarrow>
          (\<exists>ps. walk = Inr ps \<and> ps \<noteq> [] \<and> length ps < 2 ^ 64 \<and> m = summary_of ps
             \<and> scratch_ok c vis t \<and> scratch_grows s t \<and> targets \<subseteq> completed t))"

lemma summary_promise_simps [simp]:
  "summary_promise c vis s targets walk (Some (Inl e)) \<longleftrightarrow> walk = Inl e"
  "summary_promise c vis s targets walk (Some (Inr (m, False, t)))"
  "summary_promise c vis s targets walk (Some (Inr (m, True, t))) \<longleftrightarrow>
     (\<exists>ps. walk = Inr ps \<and> ps \<noteq> [] \<and> length ps < 2 ^ 64 \<and> m = summary_of ps \<and> scratch_ok c vis t \<and> scratch_grows s t \<and> targets \<subseteq> completed t)"
  by (simp_all add: summary_promise_def)

lemma promise_cases [consumes 1]:
  assumes "summary_promise c vis s targets walk r"
  obtains (error) e where "r = Some (Inl e)" "walk = Inl e"
    | (partial) m t where "r = Some (Inr (m, False, t))"
    | (full) ps t where "r = Some (Inr (summary_of ps, True, t))" "walk = Inr ps" "ps \<noteq> []" "length ps < 2 ^ 64"
        "scratch_ok c vis t" "scratch_grows s t" "targets \<subseteq> completed t"
proof (cases r)
  case None
  then show ?thesis using assms by (simp add: summary_promise_def)
next
  case (Some x)
  then show ?thesis
  proof (cases x)
    case (Inr y)
    obtain m b t where y: "y = (m, b, t)" by (cases y)
    show ?thesis using assms partial full Some Inr y by (cases b) auto
  qed (use assms error in auto)
qed

lemma promise_weaken:
  assumes "summary_promise c vis t targets' walk r" "scratch_grows s t" "targets \<subseteq> completed t \<union> targets'"
  shows "summary_promise c vis s targets walk r"
  using assms(1)
proof (cases rule: promise_cases)
  case (full ps u)
  have "targets \<subseteq> completed u" using assms(3) full(6,7) by (auto simp: scratch_grows_def)
  then show ?thesis using full scratch_grows_trans [OF assms(2)] by simp
qed simp_all

lemma summary_links_promise:
  assumes walk: "\<And>ident s. scratch_ok c vis s \<Longrightarrow> summary_promise c vis s {ident} (derivation_walk c False vis ident) (summary_walk fuel c ident s)"
  shows "scratch_ok c vis s \<Longrightarrow> map snd (take k (drop index (sc_links s))) = ls \<Longrightarrow> length ls = k \<Longrightarrow>
    \<forall>l\<in>set ls. validateShape l = Inr () \<Longrightarrow> length paths < 2 ^ 64 \<Longrightarrow> paths \<noteq> [] \<or> ls \<noteq> [] \<Longrightarrow>
    summary_promise c vis s (lr_prev ` set ls) (derivation_links c False vis ls paths) (summary_links fuel c index k (summary_of paths) s)"
proof (induction k arbitrary: index s ls paths)
  case 0
  then show ?case by (auto simp: scratch_grows_refl)
next
  case (Suc k)
  have idx: "index < length (sc_links s)" using Suc.prems(2,3) by (cases "index < length (sc_links s)") auto
  have ls: "ls = snd (sc_links s ! index) # map snd (take k (drop (Suc index) (sc_links s)))"
    using Suc.prems(2) idx by (simp flip: Cons_nth_drop_Suc)
  define l rest where "l = snd (sc_links s ! index)" and "rest = map snd (take k (drop (Suc index) (sc_links s)))"
  have lsl: "ls = l # rest" using ls by (simp add: l_def rest_def)
  have shape: "validateShape l = Inr ()" "\<forall>l\<in>set rest. validateShape l = Inr ()" using Suc.prems(4) lsl by auto
  have links: "derivation_links c False vis ls paths =
      bindR (derivation_walk c False vis (lr_prev l)) (\<lambda>prefixes.
      bindR (add_derivations c False l prefixes paths) (derivation_links c False vis rest))"
    unfolding lsl derivation_links.simps(2) shape by simp
  have step: "summary_links fuel c index (Suc k) (summary_of paths) s =
     (case summary_walk fuel c (lr_prev l) s of
        None \<Rightarrow> None
      | Some (Inl e) \<Rightarrow> Some (Inl e)
      | Some (Inr (prefix, False, s)) \<Rightarrow> Some (Inr (zero_summary, False, s))
      | Some (Inr (prefix, True, s)) \<Rightarrow>
          if ds_pathCount (summary_of paths) > cl_MaxDerivations (co_limits c)
             \<or> ds_pathCount prefix > cl_MaxDerivations (co_limits c) - ds_pathCount (summary_of paths)
          then Some (Inr (zero_summary, False, s))
          else (case summary_add l prefix (summary_of paths) of
                  Inl e \<Rightarrow> Some (Inl e)
                | Inr m \<Rightarrow> summary_links fuel c (Suc index) k m s))"
    unfolding summary_links.simps(2) l_def Let_def ..
  from walk [OF Suc.prems(1), of "lr_prev l"] show ?case
  proof (cases rule: promise_cases)
    case (error e)
    then show ?thesis unfolding step links by simp
  next
    case (partial m t)
    then show ?thesis unfolding step links by simp
  next
    case (full ps t)
    let ?max = "cl_MaxDerivations (co_limits c)"
    show ?thesis
    proof (cases "ds_pathCount (summary_of paths) > ?max \<or> ds_pathCount (summary_of ps) > ?max - ds_pathCount (summary_of paths)")
      case True
      then show ?thesis unfolding step links using full(1) by simp
    next
      case False
      have u: "uint (of_nat (length xs) :: u64) = int (length xs)" if "length xs < 2 ^ 64" for xs :: "derivation list"
        using take_bit_nat_eq_self [OF that] by (simp add: unsigned_of_nat)
      have le: "(of_nat (length paths) :: u64) \<le> ?max" "(of_nat (length ps) :: u64) \<le> ?max - of_nat (length paths)"
        using False by (simp_all add: summary_of_def not_less)
      have "uint (?max - of_nat (length paths)) = uint ?max - int (length paths)"
        using uint_sub_if' [of ?max "of_nat (length paths)"] le(1) u [OF Suc.prems(5)] by (simp add: word_le_def)
      then have bound: "int (length paths + length ps) \<le> uint ?max" using le(2) u [OF full(4)] by (simp add: word_le_def)
      moreover have "uint ?max < 2 ^ 64" using uint_lt2p [of ?max] by simp
      ultimately have small: "length paths + length ps < 2 ^ 64" by simp
      note add = add_derivations_bounded [OF bound, of l] and sadd = summary_add_exact [OF full(3) small, of l]
      show ?thesis
      proof (cases "\<exists>p\<in>set ps. overflows (dv_Score p) (lr_scoreDelta l)")
        case True
        then show ?thesis unfolding step links using full(1,2) False add sadd by simp
      next
        case ok: False
        let ?paths = "paths @ map (extended l) ps"
        have "map snd (take k (drop (Suc index) (sc_links t))) = rest"
        proof -
          obtain zs where "sc_links t = sc_links s @ zs" using full(6) by (auto simp: scratch_grows_def)
          moreover have "k \<le> length (sc_links s) - Suc index" using Suc.prems(3) lsl by (simp add: rest_def)
          ultimately show ?thesis by (simp add: rest_def)
        qed
        moreover have "length rest = k" using Suc.prems(3) lsl by simp
        ultimately have "summary_promise c vis t (lr_prev ` set rest) (derivation_links c False vis rest ?paths)
            (summary_links fuel c (Suc index) k (summary_of ?paths) t)"
          using small full(3) by (intro Suc.IH full(5) shape(2)) auto
        moreover have "summary_links fuel c index (Suc k) (summary_of paths) s = summary_links fuel c (Suc index) k (summary_of ?paths) t"
          unfolding step using full(1) False sadd ok by simp
        moreover have "derivation_links c False vis ls paths = derivation_links c False vis rest ?paths"
          unfolding links using full(2) add ok by simp
        ultimately show ?thesis
          using full(7) lsl by (auto intro: promise_weaken [OF _ full(6)])
      qed
    qed
  qed
qed

lemma links_walk_cong:
  assumes "\<And>l. l \<in> set ls \<Longrightarrow> derivation_walk c False vis (lr_prev l) = derivation_walk c False vis' (lr_prev l)"
  shows "derivation_links c False vis ls paths = derivation_links c False vis' ls paths"
  using assms
proof (induction ls arbitrary: paths)
  case (Cons l ls)
  have "derivation_links c False vis ls = derivation_links c False vis' ls" using Cons by (intro ext) simp
  then show ?case using Cons.prems [of l] by (simp add: derivation_links.simps(2))
qed simp

text \<open>Entering a node and completing it.\<close>

lemma scratch_enter:
  assumes "scratch_ok c vis s" "sc_nodeIndexes s ident = None"
  defines "t \<equiv> snd (summary_appendNode ident SummaryVisiting s)"
  shows "scratch_ok c (ident # vis) t" "completed t = completed s" "sc_nodeIndexes t ident = Some (length (sc_nodes s))"
    "sc_nodeIndexes s \<subseteq>\<^sub>m sc_nodeIndexes t" "sc_links t = sc_links s"
proof -
  have new: "dn_id e \<noteq> ident" if "e \<in> set (sc_nodes s)" for e
  proof
    assume "dn_id e = ident"
    then have "\<exists>i. sc_nodeIndexes s ident = Some i" using assms(1) that by (auto simp: scratch_ok_def in_set_conv_nth)
    then show False using assms(2) by simp
  qed
  show comp: "completed t = completed s" by (auto simp: t_def summary_appendNode_def completed_def)
  show idx: "sc_nodeIndexes t ident = Some (length (sc_nodes s))" "sc_links t = sc_links s" by (simp_all add: t_def summary_appendNode_def)
  show "sc_nodeIndexes s \<subseteq>\<^sub>m sc_nodeIndexes t"
    using assms(2) by (auto simp: t_def summary_appendNode_def map_le_def)
  have nodes: "sc_nodes t = sc_nodes s @ [\<lparr>dn_id = ident, dn_state = SummaryVisiting, dn_summary = zero_summary\<rparr>]"
    "sc_nodeIndexes t = (sc_nodeIndexes s)(ident \<mapsto> length (sc_nodes s))" by (simp_all add: t_def summary_appendNode_def)
  have "sc_nodeIndexes t j = Some i \<longleftrightarrow> i < length (sc_nodes t) \<and> dn_id (sc_nodes t ! i) = j" for i j
    using assms(1) new unfolding nodes scratch_ok_def by (auto simp: nth_append less_Suc_eq)
  then show "scratch_ok c (ident # vis) t"
    using assms(1) new unfolding scratch_ok_def comp nodes(1) by auto
qed

lemma in_set_update:
  assumes "i < length xs"
  shows "x \<in> set (xs[i := e]) \<longleftrightarrow> x = e \<or> (\<exists>j < length xs. j \<noteq> i \<and> x = xs ! j)"
proof
  assume "x \<in> set (xs[i := e])"
  then obtain j where j: "j < length xs" "xs[i := e] ! j = x" by (auto simp: in_set_conv_nth)
  then show "x = e \<or> (\<exists>j < length xs. j \<noteq> i \<and> x = xs ! j)" by (cases "j = i") auto
next
  assume "x = e \<or> (\<exists>j < length xs. j \<noteq> i \<and> x = xs ! j)"
  then obtain j where "j < length xs" "xs[i := e] ! j = x" using assms by (metis nth_list_update_eq nth_list_update_neq)
  then show "x \<in> set (xs[i := e])" by (metis length_list_update nth_mem)
qed

lemma scratch_complete:
  assumes "scratch_ok c (ident # vis) s" "ident \<notin> set vis" "sc_nodeIndexes s ident = Some i"
    "entry_ok c (insert ident (completed s)) ident m"
  shows "scratch_ok c vis (set_summary i m s)" "completed (set_summary i m s) = insert ident (completed s)"
proof -
  let ?t = "set_summary i m s" and ?e = "(sc_nodes s ! i)\<lparr>dn_state := SummaryComplete, dn_summary := m\<rparr>"
  note e = scratch_entry [OF assms(1,3)]
  have nodes: "sc_nodes ?t = (sc_nodes s)[i := ?e]" "sc_nodeIndexes ?t = sc_nodeIndexes s" by (simp_all add: set_summary_def)
  have index: "sc_nodeIndexes s j = Some k \<longleftrightarrow> k < length (sc_nodes s) \<and> dn_id (sc_nodes s ! k) = j" for j k
    using assms(1) unfolding scratch_ok_def by blast
  have other: "dn_id (sc_nodes s ! j) \<noteq> ident" if "j < length (sc_nodes s)" "j \<noteq> i" for j
    using index [of ident j] assms(3) that by auto
  have in_t: "x \<in> set (sc_nodes ?t) \<longleftrightarrow> x = ?e \<or> (\<exists>j < length (sc_nodes s). j \<noteq> i \<and> x = sc_nodes s ! j)" for x
    unfolding nodes(1) by (rule in_set_update [OF e(1)])
  have old: "sc_nodes s ! j \<in> set (sc_nodes s)" if "j < length (sc_nodes s)" for j using that by simp
  have in_s: "x \<in> set (sc_nodes s) \<longleftrightarrow> x = sc_nodes s ! i \<or> (\<exists>j < length (sc_nodes s). j \<noteq> i \<and> x = sc_nodes s ! j)" for x
    using e(1) by (auto simp: in_set_conv_nth)
  have vst: "dn_state (sc_nodes s ! i) = SummaryVisiting" using assms(1) e by (auto simp: scratch_ok_def)
  show comp: "completed ?t = insert ident (completed s)"
    using e(2) vst unfolding completed_def by (auto simp: in_t in_s image_iff) (rule exI [of _ ?e], simp)
  have "sc_nodeIndexes ?t j = Some k \<longleftrightarrow> k < length (sc_nodes ?t) \<and> dn_id (sc_nodes ?t ! k) = j" for j k
    using index [of j k] e(1) unfolding nodes by (auto simp: nth_list_update)
  moreover have "dn_state x = SummaryVisiting \<longleftrightarrow> dn_id x \<in> set vis" if "x \<in> set (sc_nodes ?t)" for x
    using that unfolding in_t
  proof (elim disjE exE conjE)
    assume "x = ?e"
    then show "dn_state x = SummaryVisiting \<longleftrightarrow> dn_id x \<in> set vis" using e(2) assms(2) by simp
  next
    fix j assume j: "j < length (sc_nodes s)" "j \<noteq> i" "x = sc_nodes s ! j"
    have "dn_state x = SummaryVisiting \<longleftrightarrow> dn_id x \<in> set (ident # vis)"
      using assms(1) old [OF j(1)] unfolding scratch_ok_def j(3) by blast
    then show "dn_state x = SummaryVisiting \<longleftrightarrow> dn_id x \<in> set vis" using other [OF j(1,2)] j(3) by simp
  qed
  moreover have "set vis \<subseteq> dn_id ` set (sc_nodes ?t)"
  proof
    fix v assume "v \<in> set vis"
    then obtain x where "x \<in> set (sc_nodes s)" "dn_id x = v" using assms(1) by (auto simp: scratch_ok_def)
    moreover have "v \<noteq> ident" using \<open>v \<in> set vis\<close> assms(2) by blast
    ultimately show "v \<in> dn_id ` set (sc_nodes ?t)" using e(2) in_s [of x] in_t by (auto simp: image_iff)
  qed
  moreover have "entry_ok c (completed ?t) (dn_id x) (dn_summary x)" if "x \<in> set (sc_nodes ?t)" "dn_state x = SummaryComplete" for x
    using that(1) unfolding in_t comp
  proof (elim disjE exE conjE)
    assume "x = ?e"
    then show "entry_ok c (insert ident (completed s)) (dn_id x) (dn_summary x)" using assms(4) e(2) by simp
  next
    fix j assume "j < length (sc_nodes s)" "x = sc_nodes s ! j"
    then have "entry_ok c (completed s) (dn_id x) (dn_summary x)" using assms(1) that(2) by (auto simp: scratch_ok_def)
    then show "entry_ok c (insert ident (completed s)) (dn_id x) (dn_summary x)" by (rule entry_ok_mono) blast
  qed
  ultimately show "scratch_ok c vis ?t" unfolding scratch_ok_def by blast
qed

lemma visiting_bounded:
  assumes "distinct vis" "\<forall>v\<in>set vis. v \<noteq> 0 \<and> unat v \<le> length (co_nodes c)"
  shows "length vis \<le> length (co_nodes c)"
proof -
  have "unat ` set vis \<subseteq> {1..length (co_nodes c)}" using assms(2) by (auto simp: Suc_le_eq unat_gt_0)
  then have "card (unat ` set vis) \<le> length (co_nodes c)" using card_mono [of "{1..length (co_nodes c)}"] by fastforce
  moreover have "card (unat ` set vis) = length vis" using assms(1)
    by (subst card_image) (auto simp: inj_on_def distinct_card word_unat_eq_iff)
  ultimately show ?thesis by simp
qed

lemma summary_walk_promise:
  "scratch_ok c vis s \<Longrightarrow> distinct vis \<Longrightarrow> \<forall>v\<in>set vis. v \<noteq> 0 \<and> unat v \<le> length (co_nodes c) \<Longrightarrow>
   length (co_nodes c) < fuel + length vis \<Longrightarrow>
   summary_promise c vis s {ident} (derivation_walk c False vis ident) (summary_walk fuel c ident s)"
proof (induction fuel arbitrary: vis s ident)
  case 0
  then show ?case using visiting_bounded [of vis c] by simp
next
  case (Suc fuel)
  note ok = Suc.prems(1)
  show ?case
  proof (cases "sc_nodeIndexes s ident")
    case (Some i)
    note e = scratch_entry [OF ok Some]
    have st: "dn_state (sc_nodes s ! i) = SummaryVisiting \<longleftrightarrow> ident \<in> set vis"
      using ok e unfolding scratch_ok_def by blast
    show ?thesis
    proof (cases "dn_state (sc_nodes s ! i)")
      case SummaryVisiting
      then show ?thesis using st Some by (simp add: summary_walk.simps derivation_walk.simps)
    next
      case SummaryComplete
      have "ident \<in> completed s" using e SummaryComplete unfolding completed_def by blast
      moreover have "entry_ok c (completed s) ident (dn_summary (sc_nodes s ! i))"
        using ok e SummaryComplete unfolding scratch_ok_def by blast
      ultimately show ?thesis using Some SummaryComplete ok scratch_disjoint [OF ok]
        by (auto simp: summary_walk.simps entry_ok_def scratch_grows_refl)
    qed
  next
    case None
    have fresh: "ident \<notin> set vis"
    proof
      assume "ident \<in> set vis"
      then obtain e where "e \<in> set (sc_nodes s)" "dn_id e = ident" using ok unfolding scratch_ok_def by blast
      then obtain i where "i < length (sc_nodes s)" "dn_id (sc_nodes s ! i) = ident" by (auto simp: in_set_conv_nth)
      then have "sc_nodeIndexes s ident = Some i" using ok unfolding scratch_ok_def by blast
      then show False using None by simp
    qed
    show ?thesis
    proof (cases "core_node c ident")
      case (Inl e)
      then show ?thesis using None fresh by (simp add: summary_walk.simps derivation_walk.simps)
    next
      case (Inr n)
      note node = Inr
      define t where "t = snd (summary_appendNode ident SummaryVisiting s)"
      note enter = scratch_enter [OF ok None, folded t_def]
      show ?thesis
      proof (cases "nr_linkCount n = 0")
        case True
        show ?thesis
        proof (cases "nr_pathCount n = 1")
          case f: False
          then show ?thesis using None fresh node True by (simp add: summary_walk.simps derivation_walk.simps)
        next
          case one: True
          let ?m = "zero_summary\<lparr>ds_pathCount := 1\<rparr>"
          have m: "?m = summary_of [empty_derivation]" by (simp add: summary_of_def zero_summary_def empty_derivation_def)
          have w: "derivation_walk c False vis' ident = Inr [empty_derivation]" if "ident \<notin> set vis'" for vis'
            using that node True one by (simp add: derivation_walk.simps)
          have "entry_ok c (insert ident (completed t)) ident ?m" unfolding entry_ok_def m using w
            by (intro exI [of _ "[empty_derivation]"]) auto
          note comp = scratch_complete [OF enter(1) fresh enter(3) this]
          have same: "set_summary (length (sc_nodes s)) ?m (snd (summary_appendNode ident SummaryComplete s)) = set_summary (length (sc_nodes s)) ?m t"
            by (simp add: set_summary_def summary_appendNode_def t_def)
          have r: "summary_walk (Suc fuel) c ident s = Some (Inr (?m, True, set_summary (length (sc_nodes s)) ?m t))"
            using None node True one same by (simp add: summary_walk.simps summary_appendNode_def Let_def)
          have "scratch_grows s (set_summary (length (sc_nodes s)) ?m t)"
            using comp(2) enter(2,4,5) by (auto simp: scratch_grows_def set_summary_def)
          then show ?thesis unfolding r using comp w [OF fresh] m by auto
        qed
      next
        case False
        have walk: "derivation_walk c False vis' ident =
            bindR (nodeLinks c n) (\<lambda>links. bindR (derivation_links c False (ident # vis') links []) (\<lambda>paths.
              if nr_pathCount n \<noteq> - 1 \<and> of_nat (length paths) \<noteq> nr_pathCount n
              then Inl (PathCountMismatch (of_nat (length paths)) (nr_pathCount n)) else Inr paths))" if "ident \<notin> set vis'" for vis'
          using that node False by (simp add: derivation_walk.simps)
        show ?thesis
        proof (cases "nodeLinks c n")
          case (Inl e)
          then have "appendNodeLinks c n t = Inl e" using appendNodeLinks_exact [of c n t] by simp
          then show ?thesis using None fresh node False Inl walk [OF fresh]
            by (simp add: summary_walk.simps summary_appendNode_def t_def Let_def)
        next
          case (Inr ls)
          then obtain ids where ids: "length ids = length ls" "appendNodeLinks c n t =
              Inr (length (sc_links t), length (sc_links t) + length ls, t\<lparr>sc_links := sc_links t @ zip ids ls\<rparr>)"
            using appendNodeLinks_exact [of c n t] by auto
          define u where "u = t\<lparr>sc_links := sc_links t @ zip ids ls\<rparr>"
          have nonempty: "ls \<noteq> []" using Inr False by (auto simp: nodeLinks_def unat_eq_0 split: if_splits)
          have uok: "scratch_ok c (ident # vis) u" using enter(1) by (simp add: u_def scratch_ok_def completed_def)
          have gu: "completed u = completed s" "sc_nodeIndexes u ident = Some (length (sc_nodes s))" "sc_nodeIndexes s \<subseteq>\<^sub>m sc_nodeIndexes u"
            "\<exists>zs. sc_links u = sc_links s @ zs" using enter by (simp_all add: u_def completed_def)
          have valid: "\<forall>v\<in>set (ident # vis). v \<noteq> 0 \<and> unat v \<le> length (co_nodes c)"
            using Suc.prems(3) core_node_valid [OF node] by auto
          have links: "summary_promise c (ident # vis) u (lr_prev ` set ls) (derivation_links c False (ident # vis) ls [])
              (summary_links fuel c (length (sc_links t)) (length ls) (summary_of []) u)"
          proof (rule summary_links_promise [OF _ uok])
            show "summary_promise c (ident # vis) s' {j} (derivation_walk c False (ident # vis) j) (summary_walk fuel c j s')"
              if "scratch_ok c (ident # vis) s'" for j s'
              using Suc.IH [OF that _ valid] Suc.prems(2,4) fresh by simp
          qed (use ids(1) nodeLinks_shapes [OF Inr] nonempty in \<open>auto simp: u_def\<close>)
          have zero: "summary_of [] = zero_summary" by (simp add: summary_of_def zero_summary_def)
          have step: "summary_walk (Suc fuel) c ident s =
              (case summary_links fuel c (length (sc_links t)) (length ls) (summary_of []) u of
                 None \<Rightarrow> None
               | Some (Inl e) \<Rightarrow> Some (Inl e)
               | Some (Inr (m, False, s)) \<Rightarrow> Some (Inr (zero_summary, False, s))
               | Some (Inr (m, True, v)) \<Rightarrow>
                   if nr_pathCount n \<noteq> - 1 \<and> ds_pathCount m \<noteq> nr_pathCount n
                   then Some (Inl (PathCountMismatch (ds_pathCount m) (nr_pathCount n)))
                   else Some (Inr (m, True, set_summary (length (sc_nodes s)) m v)))"
            using None node False ids(2) unfolding zero
            by (simp add: summary_walk.simps [of "Suc fuel"] summary_appendNode_def t_def u_def Let_def)
          from links show ?thesis
          proof (cases rule: promise_cases)
            case (error e)
            then show ?thesis unfolding step walk [OF fresh] Inr by simp
          next
            case (partial m v)
            then show ?thesis unfolding step by simp
          next
            case (full ps v)
            show ?thesis
            proof (cases "nr_pathCount n \<noteq> - 1 \<and> of_nat (length ps) \<noteq> nr_pathCount n")
              case True
              then show ?thesis unfolding step walk [OF fresh] Inr using full(1,2) by (simp add: summary_of_def)
            next
              case match: False
              have vidx: "sc_nodeIndexes v ident = Some (length (sc_nodes s))" using full(6) gu(2) by (auto simp: scratch_grows_def map_le_def dom_def)
              have notdone: "ident \<notin> completed v" using scratch_disjoint [OF full(5)] by auto
              have same: "derivation_walk c False vis' ident = Inr ps" if "set vis' \<inter> insert ident (completed v) = {}" for vis'
              proof -
                have "derivation_links c False (ident # vis') ls [] = derivation_links c False (ident # vis) ls []"
                proof (rule links_walk_cong)
                  fix l assume "l \<in> set ls"
                  then obtain qs where "\<forall>vis'. set vis' \<inter> completed v = {} \<longrightarrow> derivation_walk c False vis' (lr_prev l) = Inr qs"
                    using completed_walk [OF full(5)] full(7) by blast
                  then show "derivation_walk c False (ident # vis') (lr_prev l) = derivation_walk c False (ident # vis) (lr_prev l)"
                    using that notdone scratch_disjoint [OF full(5)] by auto
                qed
                then show ?thesis using walk [of vis'] that Inr full(2) match by auto
              qed
              then have "entry_ok c (insert ident (completed v)) ident (summary_of ps)"
                unfolding entry_ok_def using full(3,4) by blast
              note comp = scratch_complete [OF full(5) fresh vidx this]
              have r: "summary_walk (Suc fuel) c ident s = Some (Inr (summary_of ps, True, set_summary (length (sc_nodes s)) (summary_of ps) v))"
                unfolding step using full(1) match by (auto simp: summary_of_def)
              have "derivation_walk c False vis ident = Inr ps" using walk [OF fresh] Inr full(2) match by auto
              moreover have "scratch_grows s u" using gu by (simp add: scratch_grows_def)
              then have "scratch_grows s v" using full(6) by (rule scratch_grows_trans)
              then have "scratch_grows s (set_summary (length (sc_nodes s)) (summary_of ps) v)"
                using comp(2) by (auto simp: scratch_grows_def set_summary_def)
              ultimately show ?thesis unfolding r using full(3,4) comp by auto
            qed
          qed
        qed
      qed
    qed
  qed
qed

lemma scratch_fresh: "scratch_ok c [] fresh_scratch"
  by (simp add: scratch_ok_def fresh_scratch_def)

lemma summary_of_one: "length ps < 2 ^ 64 \<Longrightarrow> ds_pathCount (summary_of ps) = 1 \<longleftrightarrow> length ps = 1"
proof -
  assume "length ps < 2 ^ 64"
  then have "unat (of_nat (length ps) :: u64) = length ps" by (simp add: unat_of_nat take_bit_nat_eq_self)
  then show ?thesis by (metis ds_pathCount_def of_nat_1 pathSummary.select_convs(1) summary_of_def unat_1)
qed

lemma derivations_walk:
  assumes "core_node c head = Inr n" "nr_pathCount n = 1 \<longrightarrow> singleDerivation c head = Inr None"
  shows "derivations c head collectPayloads = derivation_walk c collectPayloads [] head"
  using assms by (simp add: derivations_def)

lemma sole_path_exact:
  assumes "core_node c head = Inr n" "nr_pathCount n = 1 \<longrightarrow> singleDerivation c head = Inr None"
  shows "sole_path c head collectPayloads =
    bindR (Derivations c head) (\<lambda>paths. Inr (if length paths = 1 then Some (paths ! 0) else None))"
proof (cases collectPayloads)
  case False
  have "derivations c head False = mapR (map strip) (derivations c head True)"
    using walk_strip(1) [of c "[]" head] derivations_walk [OF assms] by simp
  then show ?thesis using False by (cases "derivations c head True") (auto simp: sole_path_def Derivations_def)
qed (auto simp: sole_path_def Derivations_def intro!: arg_cong [of _ _ "bindR _"])

section \<open>The shortcut against the enumeration\<close>

abbreviation link_at :: "core \<Rightarrow> u32 \<Rightarrow> linkRecord" where
  "link_at c ident \<equiv> co_links c ! (unat ident - 1)"

lemma single_path_snoc: "single_path c (xs @ [i]) p = bindR (single_path c xs p) (extend_derivation True (link_at c i))"
proof (induction xs arbitrary: p)
  case Nil
  have "bindR m Inr = m" for m :: "derivation result" by (cases m) auto
  moreover have "single_path c [] = Inr" by (intro ext) simp
  ultimately show ?case by (simp only: append_Nil single_path.simps bindR.simps)
next
  case (Cons x xs)
  then have "single_path c (xs @ [i]) = (\<lambda>p. bindR (single_path c xs p) (extend_derivation True (link_at c i)))" by (intro ext) simp
  then show ?case by (simp add: bindR_assoc)
qed

text \<open>The chain of a node with one link, read by the enumeration.\<close>

definition sound_link :: "core \<Rightarrow> u32 \<Rightarrow> bool" where
  "sound_link c ident \<longleftrightarrow> ident \<noteq> 0 \<and> unat ident \<le> length (co_links c)
     \<and> validateShape (link_at c ident) = Inr () \<and> lr_next (link_at c ident) = 0"

lemma chain_links_full:
  assumes "chain_links c (length links) ident seen links = Inr xs"
  shows "ident = 0 \<and> xs = links"
  using assms by (subst (asm) chain_links.simps)
    (cases "validateShape (link_at c ident)"; auto simp: Let_def split: if_splits)

lemma nodeLinks_one:
  assumes "nr_linkCount n = 1"
  shows "if sound_link c (nr_firstLink n) then nodeLinks c n = Inr [link_at c (nr_firstLink n)] else isl (nodeLinks c n)"
proof -
  let ?i = "nr_firstLink n"
  let ?l = "link_at c ?i"
  let ?rest = "chain_links c (length [?l]) (lr_next ?l) [?i] [?l]"
  have first: "nodeLinks c n = (if ?i = 0 then Inl AdjacencyShorter
      else if unat ?i > length (co_links c) then Inl LinkOutOfRange
      else bindR (validateShape ?l) (\<lambda>_. bindR ?rest (\<lambda>ls. if length ls \<noteq> 1 then Inl AdjacencyShorter else Inr (rev ls))))"
    using assms by (cases "validateShape ?l") (auto simp: nodeLinks_def chain_links.simps [of c "Suc 0" ?i "[]"] Let_def)
  have closes: "?rest = Inr [?l]" if "lr_next ?l = 0"
    unfolding that by (subst chain_links.simps) simp
  show ?thesis
  proof (cases ?rest)
    case (Inl e)
    then show ?thesis using first closes by (cases "validateShape ?l") (auto simp: sound_link_def)
  next
    case (Inr ls)
    from chain_links_full [OF this] show ?thesis
      using first closes by (cases "validateShape ?l") (auto simp: sound_link_def not_less)
  qed
qed

lemma derivation_walk_one:
  assumes "ident \<notin> set vis" "core_node c ident = Inr n" "nr_linkCount n = 1" "nr_pathCount n = 1"
    and "l = link_at c (nr_firstLink n)"
  shows "if sound_link c (nr_firstLink n)
    then derivation_walk c True vis ident =
      bindR (derivation_walk c True (ident # vis) (lr_prev l)) (\<lambda>prefixes. bindR (add_derivations c True l prefixes []) (\<lambda>paths.
        if of_nat (length paths) \<noteq> (1 :: u64) then Inl (PathCountMismatch (of_nat (length paths)) (nr_pathCount n)) else Inr paths))
    else isl (derivation_walk c True vis ident)"
proof (cases "sound_link c (nr_firstLink n)")
  case True
  then have "validateShape l = Inr ()" "nodeLinks c n = Inr [l]"
    using nodeLinks_one [OF assms(3), of c] assms(5) by (simp_all add: sound_link_def)
  then show ?thesis using True assms
    by (cases "derivation_walk c True (ident # vis) (lr_prev l)")
       (auto simp: derivation_walk.simps [of c True vis ident] derivation_links.simps(2) bindR_assoc)
next
  case False
  then show ?thesis using nodeLinks_one [OF assms(3), of c] assms
    by (cases "nodeLinks c n") (auto simp: derivation_walk.simps [of c True vis ident])
qed

text \<open>One step of the shortcut.\<close>

lemma single_links_one:
  assumes "core_node c ident = Inr n" "nr_linkCount n = 1" "nr_pathCount n = 1"
  shows "if sound_link c (nr_firstLink n) \<and> Suc (length rl) < length (co_nodes c)
    then single_links c ident rl = single_links c (lr_prev (link_at c (nr_firstLink n))) (rl @ [nr_firstLink n])
    else isl (single_links c ident rl)"
  using assms by (cases "validateShape (link_at c (nr_firstLink n))")
    (auto simp: single_links.simps [of c ident] sound_link_def Let_def not_le not_less)

lemma single_links_Some:
  assumes "single_links c ident rl = Inr (Some xs)"
  obtains n where "core_node c ident = Inr n" "nr_linkCount n = 0" "nr_pathCount n = 1" "xs = rl"
  | n where "core_node c ident = Inr n" "nr_linkCount n = 1" "nr_pathCount n = 1" "sound_link c (nr_firstLink n)"
    "single_links c (lr_prev (link_at c (nr_firstLink n))) (rl @ [nr_firstLink n]) = Inr (Some xs)"
proof (cases "core_node c ident")
  case (Inr n)
  consider "nr_linkCount n = 0" | "nr_linkCount n = 1" "nr_pathCount n = 1"
    using assms Inr by (auto simp: single_links.simps [of c ident] split: if_splits)
  then show ?thesis
  proof cases
    case 1
    then show ?thesis using that(1) [OF Inr] assms Inr by (auto simp: single_links.simps [of c ident] split: if_splits)
  next
    case 2
    then show ?thesis using that(2) [OF Inr] single_links_one [OF Inr 2, of rl] assms by (auto split: if_splits)
  qed
qed (use assms in \<open>simp add: single_links.simps [of c ident]\<close>)

text \<open>How many links the shortcut collects depends on the node alone, so no node repeats on its way.\<close>

lemma single_links_unique:
  assumes "single_links c ident rl = Inr (Some xs)" "single_links c ident rl' = Inr (Some xs')"
  shows "length xs + length rl' = length xs' + length rl"
  using assms
proof (induction c ident rl arbitrary: xs xs' rl' rule: single_links.induct)
  case (1 c ident rl)
  from "1.prems"(1) show ?case
  proof (cases rule: single_links_Some)
    case a: (1 n)
    with "1.prems"(2) show ?thesis by (cases rule: single_links_Some) auto
  next
    case a: (2 n)
    from "1.prems"(2) show ?thesis
    proof (cases rule: single_links_Some)
      case b: (1 m)
      with a show ?thesis by auto
    next
      case b: (2 m)
      have "Suc (length rl) < length (co_nodes c)"
        using single_links_one [OF a(1-3), of rl] "1.prems"(1) a(4) by (auto split: if_splits)
      then show ?thesis using 1(1) [OF a(1), of "nr_firstLink n"] a b by (force simp: sound_link_def not_le)
    qed
  qed
qed

lemma single_links_grows: "single_links c ident rl = Inr (Some xs) \<Longrightarrow> \<exists>ids. xs = rl @ ids"
proof (induction c ident rl arbitrary: xs rule: single_links.induct)
  case (1 c ident rl)
  from "1.prems" show ?case
  proof (cases rule: single_links_Some)
    case a: (1 n)
    then show ?thesis by simp
  next
    case a: (2 n)
    have "Suc (length rl) < length (co_nodes c)"
      using single_links_one [OF a(1-3), of rl] "1.prems" a(4) by (auto split: if_splits)
    then show ?thesis using 1(1) [OF a(1), of "nr_firstLink n"] a by (force simp: sound_link_def not_le)
  qed
qed

lemma shortcut_walk:
  assumes "cl_MaxDerivations (co_limits c) \<noteq> 0" "single_links c ident rl = Inr (Some (rl @ ids))"
    and "\<forall>v\<in>set vis. \<exists>rl' ids'. single_links c v rl' = Inr (Some (rl' @ ids')) \<and> length ids < length ids'"
  shows "derivation_walk c True vis ident = bindR (single_path c (rev ids) empty_derivation) (\<lambda>p. Inr [p])"
  using assms(2,3)
proof (induction ids arbitrary: ident rl vis)
  case Nil
  have fresh: "ident \<notin> set vis" using Nil single_links_unique by fastforce
  from Nil.prems(1) show ?case
  proof (cases rule: single_links_Some)
    case (1 n)
    then show ?thesis using fresh by (simp add: derivation_walk.simps [of c True vis ident])
  next
    case (2 n)
    then show ?thesis using single_links_grows [OF 2(5)] by simp
  qed
next
  case (Cons i ids)
  have fresh: "ident \<notin> set vis" using Cons.prems single_links_unique by fastforce
  from Cons.prems(1) show ?case
  proof (cases rule: single_links_Some)
    case (1 n)
    then show ?thesis by simp
  next
    case (2 n)
    let ?l = "link_at c (nr_firstLink n)"
    have i: "i = nr_firstLink n" using single_links_grows [OF 2(5)] by auto
    have "derivation_walk c True (ident # vis) (lr_prev ?l) = bindR (single_path c (rev ids) empty_derivation) (\<lambda>p. Inr [p])"
      using 2(5) i Cons.prems by (intro Cons.IH [of _ "rl @ [i]"]) (auto intro: less_trans, force+)
    moreover have "0 < uint (cl_MaxDerivations (co_limits c))"
      using assms(1) by (simp add: word_neq_0_conv word_less_def)
    ultimately show ?thesis
      using derivation_walk_one [OF fresh 2(1-3) refl] 2(4) i
      by (cases "single_path c (rev ids) empty_derivation"; cases "extend_derivation True ?l (projr (single_path c (rev ids) empty_derivation))")
         (auto simp: single_path_snoc bindR_assoc)
  qed
qed

lemma shortcut_error:
  assumes "single_links c ident rl = Inl e" "length vis = length rl" "distinct vis" "\<forall>v\<in>set vis. v \<noteq> 0 \<and> unat v \<le> length (co_nodes c)"
  shows "isl (derivation_walk c True vis ident)"
  using assms
proof (induction c ident rl arbitrary: vis rule: single_links.induct)
  case (1 c ident rl)
  show ?case
  proof (cases "ident \<in> set vis \<or> isl (core_node c ident)")
    case True
    then show ?thesis by (cases "core_node c ident") (auto simp: derivation_walk.simps [of c True vis ident])
  next
    case False
    then obtain n where n: "core_node c ident = Inr n" and fresh: "ident \<notin> set vis" by (cases "core_node c ident") auto
    show ?thesis
    proof (cases "nr_linkCount n = 0")
      case True
      then show ?thesis using n fresh "1.prems"(1)
        by (auto simp: single_links.simps [of c ident] derivation_walk.simps [of c True vis ident] split: if_splits)
    next
      case False
      then have one: "nr_linkCount n = 1" "nr_pathCount n = 1"
        using n "1.prems"(1) by (auto simp: single_links.simps [of c ident] split: if_splits)
      let ?l = "link_at c (nr_firstLink n)"
      have "isl (derivation_walk c True (ident # vis) (lr_prev ?l))" if s: "sound_link c (nr_firstLink n)"
      proof (cases "Suc (length rl) < length (co_nodes c)")
        case True
        then show ?thesis
          using 1(1) [OF n, of "nr_firstLink n" ?l] single_links_one [OF n one, of rl] s one "1.prems" fresh core_node_valid [OF n]
          by (auto simp: sound_link_def not_le)
      next
        case False
        have sub: "set (ident # vis) \<subseteq> unvisited c []"
          using core_node_valid [OF n] "1.prems"(4) by (auto simp: unvisited_def)
        have "unat ` unvisited c [] \<subseteq> {1..length (co_nodes c)}"
          by (auto simp: unvisited_def Suc_le_eq unat_gt_0)
        then have "card (unvisited c []) \<le> length (co_nodes c)"
          using card_inj_on_le [of "unat :: u32 \<Rightarrow> nat" "unvisited c []" "{1..length (co_nodes c)}"] by (simp add: inj_on_def word_unat_eq_iff)
        moreover have "card (set (ident # vis)) = Suc (length rl)"
          using fresh "1.prems"(2,3) by (simp add: distinct_card)
        ultimately have "set (ident # vis) = unvisited c []"
          using sub False by (intro card_seteq) auto
        then show ?thesis
          by (cases "core_node c (lr_prev ?l)")
             (auto simp: derivation_walk.simps [of c True "ident # vis"] unvisited_def dest: core_node_valid)
      qed
      then show ?thesis using derivation_walk_one [OF fresh n one refl]
        by (cases "derivation_walk c True (ident # vis) (lr_prev ?l)") (auto split: if_splits)
    qed
  qed
qed

text \<open>
  The shortcut does not show: the enumeration with it and without it give the same derivations, or
  both fail. Only the error they report on a malformed graph can differ.
\<close>

lemma Derivations_walk:
  assumes "cl_MaxDerivations (co_limits c) \<noteq> 0"
  shows "Derivations c head = derivation_walk c True [] head \<or> isl (Derivations c head) \<and> isl (derivation_walk c True [] head)"
proof (cases "core_node c head")
  case (Inl e)
  then show ?thesis by (simp add: Derivations_def derivations_def derivation_walk.simps)
next
  case (Inr n)
  show ?thesis
  proof (cases "nr_pathCount n = 1")
    case False
    then show ?thesis using derivations_walk [OF Inr] by (simp add: Derivations_def)
  next
    case True
    show ?thesis
    proof (cases "single_links c head []")
      case (Inl e)
      then show ?thesis using True Inr shortcut_error [OF Inl, of "[]"] by (simp add: Derivations_def derivations_def singleDerivation_def)
    next
      case s: (Inr r)
      show ?thesis
      proof (cases r)
        case None
        then show ?thesis using derivations_walk [OF Inr] s by (simp add: Derivations_def singleDerivation_def)
      next
        case (Some ids)
        then show ?thesis using True Inr s shortcut_walk [OF assms, of head "[]" ids "[]"]
          by (cases "single_path c (rev ids) empty_derivation") (simp_all add: Derivations_def derivations_def singleDerivation_def)
      qed
    qed
  qed
qed

section \<open>Sole derivations\<close>

text \<open>The summary and the enumeration without payloads never show, errors included.\<close>

lemma sole_derivation_enumeration:
  "SoleDerivation c head =
     Some (bindR (Derivations c head) (\<lambda>paths. Inr (if length paths = 1 then Some (paths ! 0) else None)))"
proof (cases "core_node c head")
  case (Inl e)
  then show ?thesis by (simp add: SoleDerivation_def Derivations_def derivations_def)
next
  case (Inr n)
  show ?thesis
  proof (cases "nr_pathCount n = 1 \<and> singleDerivation c head \<noteq> Inr None")
    case True
    then show ?thesis using Inr
      by (cases "singleDerivation c head") (auto simp: SoleDerivation_def Derivations_def derivations_def split: option.splits)
  next
    case False
    then have none: "nr_pathCount n = 1 \<longrightarrow> singleDerivation c head = Inr None" by blast
    note sole = sole_path_exact [OF Inr none]
    have walks: "Derivations c head = derivation_walk c True [] head" unfolding Derivations_def by (rule derivations_walk [OF Inr none])
    have promise: "summary_promise c [] fresh_scratch {head} (derivation_walk c False [] head)
        (summary_walk (Suc (length (co_nodes c))) c head fresh_scratch)"
      by (rule summary_walk_promise [OF scratch_fresh]) simp_all
    show ?thesis
    proof (cases "nr_pathCount n = 1")
      case True
      then show ?thesis using Inr none sole by (simp add: SoleDerivation_def)
    next
      case f: False
      have start: "SoleDerivation c head =
          (case summarizeDerivationPaths c head of
             None \<Rightarrow> None
           | Some (Inl e) \<Rightarrow> Some (Inl e)
           | Some (Inr (m, complete)) \<Rightarrow>
               if complete \<and> ds_pathCount m \<noteq> 1 then Some (Inr None) else Some (sole_path c head complete))"
        using Inr f by (simp add: SoleDerivation_def)
      from promise show ?thesis
      proof (cases rule: promise_cases)
        case (error e)
        then have "derivation_walk c True [] head = Inl e" using walk_strip(1) [of c "[]" head] by (cases "derivation_walk c True [] head") auto
        then show ?thesis unfolding start walks using error by (simp add: summarizeDerivationPaths_def)
      next
        case (partial m t)
        then show ?thesis unfolding start using sole by (simp add: summarizeDerivationPaths_def)
      next
        case (full ps t)
        then obtain qs where "derivation_walk c True [] head = Inr qs" "length qs = length ps"
          using walk_strip(1) [of c "[]" head] by (cases "derivation_walk c True [] head") auto
        then show ?thesis unfolding start using full(1) summary_of_one [OF full(4)] sole walks by (simp add: summarizeDerivationPaths_def)
      qed
    qed
  qed
qed

text \<open>
  C7. Sole derivations. On every graph, malformed and cyclic ones included, \<^verbatim>\<open>SoleDerivation\<close> returns, and
  it returns what \<^verbatim>\<open>Derivations\<close> gives: the only derivation of the head with its payloads, the answer
  that there is not exactly one, or its error. \<^verbatim>\<open>Derivations\<close> in turn, with its shortcut for a single path,
  gives the derivations of the general enumeration, the walk over every link of every node, or fails
  where that walk fails; on a malformed graph the two errors may differ. The second part asks for a
  limit of at least one derivation: with a limit of zero the walk refuses the one derivation the
  shortcut returns.
\<close>

theorem sole_derivation_exact:
  "SoleDerivation c head =
     Some (bindR (Derivations c head) (\<lambda>paths. Inr (if length paths = 1 then Some (paths ! 0) else None)))
   \<and> (cl_MaxDerivations (co_limits c) \<noteq> 0 \<longrightarrow>
        Derivations c head = derivation_walk c True [] head
        \<or> isl (Derivations c head) \<and> isl (derivation_walk c True [] head))"
  using sole_derivation_enumeration Derivations_walk by blast

theorem sole_derivation_exact_witness:
  "\<exists>p. derivation_walk demo_core True [] 2 = Inr [p] \<and> dv_Payloads p = [1]
     \<and> Derivations demo_core 2 = Inr [p] \<and> SoleDerivation demo_core 2 = Some (Inr (Some p))"
proof -
  let ?p = "\<lparr>dv_Payloads = [1], dv_Score = 0, dv_BranchOrder = 0, dv_HasBranchOrder = False\<rparr>"
  have w: "derivation_walk demo_core True [] 2 = Inr [?p]" by code_simp
  have m: "cl_MaxDerivations (co_limits demo_core) \<noteq> 0" by code_simp
  have "Derivations demo_core 2 = Inr [?p]" using sole_derivation_exact [of demo_core 2] m w by auto
  then show ?thesis using sole_derivation_exact [of demo_core 2] w by auto
qed

end
