(* ===== verification/Boundary_Index.thy ===== *)
theory Boundary_Index
  imports Checkpoint_Interner
begin

text \<open>
  The canonical boundary index of the compact parser core, \<^verbatim>\<open>boundary_index.go\<close> and the transaction
  code of \<^verbatim>\<open>core.go\<close> under \<^verbatim>\<open>internal/runtime/internal/parsercorephase0\<close>: an open-addressing table
  from parser boundaries to graph nodes. A frontier empties it by advancing a generation number;
  transactions rolls it back from a snapshot of its header and a journal of overwritten slots. Since a
  journal entry names the backing array it was taken from, arrays live in an explicit heap and an
  index holds an address.

  The lemmas show that probing finds every live key, that growing keeps the map, and that any nesting
  of transactions leaves exactly the map the committed writes give. The classification phase, the
  other arenas a transaction restores and the observers are left out.
\<close>

unbundle bit_operations_syntax

section \<open>Data\<close>

record boundaryKey =
  bk_frontier :: u64
  bk_state :: u32
  bk_byteOffset :: u32
  bk_checkpoint :: u32
  bk_shifted :: bool

record boundaryIdentity =
  bd_state :: u32
  bd_byteOffset :: u32
  bd_checkpoint :: u32
  bd_flags :: u32

record boundarySlot =
  sl_key :: boundaryIdentity
  sl_id :: u32
  sl_generation :: u32

type_synonym slots = "boundarySlot list"

record boundaryIndex =
  bi_slots :: "nat option"
  bi_generation :: u32
  bi_count :: u32
  bi_maxSlots :: u32

record boundaryProbe =
  pb_key :: boundaryIdentity
  pb_hash :: u64
  pb_slot :: nat
  pb_found :: bool

record boundaryIndexSnapshot =
  sn_slots :: "nat option"
  sn_generation :: u32
  sn_count :: u32

record boundaryMutation =
  mu_slots :: nat
  mu_index :: nat
  mu_previous :: boundarySlot

datatype boundaryError =
    ZeroNode
  | IndexCapacity
  | DuplicateRehash
  | FrontierMismatch
  | FrontierInTransaction
  | FrontierOverflow
  | TransactionOverflow
  | OutOfOrder
  | OperationFailed

definition zero_slot :: boundarySlot where
  "zero_slot = \<lparr>sl_key = \<lparr>bd_state = 0, bd_byteOffset = 0, bd_checkpoint = 0, bd_flags = 0\<rparr>, sl_id = 0, sl_generation = 0\<rparr>"

section \<open>Probing\<close>

definition boundaryIdentityFromKey :: "boundaryKey \<Rightarrow> boundaryIdentity" where
  "boundaryIdentityFromKey key =
     \<lparr>bd_state = bk_state key, bd_byteOffset = bk_byteOffset key, bd_checkpoint = bk_checkpoint key,
      bd_flags = (if bk_shifted key then 0 OR 1 else 0)\<rparr>"

definition boundaryIdentityHash :: "boundaryIdentity \<Rightarrow> u64" where
  "boundaryIdentityHash key =
     (let h = push_bit 32 (ucast (bd_state key)) OR ucast (bd_byteOffset key);
          h = h XOR word_rotl 17 (ucast (bd_checkpoint key));
          h = (if bd_flags key AND 1 \<noteq> 0 then h XOR 0xd6e8feb86659fd93 else h);
          h = h XOR drop_bit 30 h;
          h = h * 0xbf58476d1ce4e5b9 in
      h XOR drop_bit 27 h)"

text \<open>The slot probed at an offset, in a table of \<open>n\<close> slots.\<close>

definition slot_at :: "nat \<Rightarrow> u64 \<Rightarrow> nat \<Rightarrow> nat" where
  "slot_at n hash offset =
     (let msk = of_nat (n - 1) :: u64; start = hash AND msk in
      unat (ucast ((start + of_nat offset) AND msk) :: u32))"

fun probe_loop :: "slots \<Rightarrow> u32 \<Rightarrow> boundaryIdentity \<Rightarrow> u64 \<Rightarrow> nat \<Rightarrow> nat \<Rightarrow> nat \<times> bool \<times> u32" where
  "probe_loop slots gen key hash offset 0 = (0, False, 0)"
| "probe_loop slots gen key hash offset (Suc remaining) =
     (let index = slot_at (length slots) hash offset; slot = slots ! index in
      if sl_generation slot \<noteq> gen then (index, False, 0)
      else if sl_key slot = key then (index, True, sl_id slot)
      else probe_loop slots gen key hash (Suc offset) remaining)"

definition probe_slots :: "slots \<Rightarrow> u32 \<Rightarrow> boundaryIdentity \<Rightarrow> u64 \<Rightarrow> boundaryProbe \<times> u32" where
  "probe_slots slots gen key hash =
     (case probe_loop slots gen key hash 0 (length slots) of (index, found, ident) \<Rightarrow>
        (\<lparr>pb_key = key, pb_hash = hash, pb_slot = index, pb_found = found\<rparr>, ident))"

section \<open>The table under probing\<close>

definition live :: "u32 \<Rightarrow> slots \<Rightarrow> nat \<Rightarrow> bool" where
  "live gen slots i \<longleftrightarrow> i < length slots \<and> sl_generation (slots ! i) = gen"

definition key_at :: "slots \<Rightarrow> nat \<Rightarrow> boundaryIdentity" where
  "key_at slots i = sl_key (slots ! i)"

text \<open>A slot that probing for a key reaches through live slots only.\<close>

definition reached :: "u32 \<Rightarrow> slots \<Rightarrow> boundaryIdentity \<Rightarrow> nat \<Rightarrow> bool" where
  "reached gen slots key i \<longleftrightarrow>
     (\<exists>d<length slots. slot_at (length slots) (boundaryIdentityHash key) d = i
        \<and> (\<forall>e<d. live gen slots (slot_at (length slots) (boundaryIdentityHash key) e)))"

definition table_ok :: "u32 \<Rightarrow> slots \<Rightarrow> bool" where
  "table_ok gen slots \<longleftrightarrow>
     (\<forall>i j. live gen slots i \<longrightarrow> live gen slots j \<longrightarrow> key_at slots i = key_at slots j \<longrightarrow> i = j)
     \<and> (\<forall>i. live gen slots i \<longrightarrow> reached gen slots (key_at slots i) i)"

definition logicalMap :: "u32 \<Rightarrow> slots \<Rightarrow> boundaryIdentity \<Rightarrow> u32 option" where
  "logicalMap gen slots =
     map_of (map (\<lambda>s. (sl_key s, sl_id s)) (rev (filter (\<lambda>s. sl_generation s = gen) slots)))"

lemma and_mask_mod: "unat (w AND of_nat (2 ^ k - 1) :: u64) = unat w mod 2 ^ k" if "k \<le> 31" for w :: u64
proof -
  have "of_nat (2 ^ k - 1) = (mask k :: u64)" by (simp add: mask_eq_exp_minus_1 of_nat_diff)
  then show ?thesis by (simp add: unsigned_take_bit_eq flip: take_bit_eq_mask) (simp add: take_bit_eq_mod)
qed

lemma unat_narrow: "unat (ucast w :: u32) = unat w mod 2 ^ 32" for w :: u64
  by (simp add: unsigned_ucast_eq unsigned_take_bit_eq) (simp add: take_bit_eq_mod)

lemma slot_at_mod:
  assumes "k \<le> 31" "d < 2 ^ k"
  shows "slot_at (2 ^ k) h d = (unat h + d) mod 2 ^ k"
proof -
  have p: "(2::nat) ^ k \<le> 2 ^ 31" by (rule power_increasing) (use assms in auto)
  let ?m = "of_nat (2 ^ k - 1) :: u64"
  have s: "unat (h AND ?m) = unat h mod 2 ^ k" by (rule and_mask_mod [OF assms(1)])
  have sl: "unat h mod 2 ^ k < 2 ^ k" by simp
  have d: "unat (of_nat d :: u64) = d" using assms(2) p by (simp add: unat_of_nat)
  have "unat h mod 2 ^ k + d < 2 ^ 31 + 2 ^ 31" using sl assms(2) p by linarith
  then have "unat (h AND ?m) + unat (of_nat d :: u64) < 2 ^ LENGTH(64)" using s d by simp
  then have sum: "unat ((h AND ?m) + of_nat d) = unat h mod 2 ^ k + d" using s d unfolding unat_add_lem by simp
  have "unat (((h AND ?m) + of_nat d) AND ?m) = (unat h mod 2 ^ k + d) mod 2 ^ k"
    using and_mask_mod [OF assms(1)] sum by simp
  also have "\<dots> = (unat h + d) mod 2 ^ k" by (simp add: mod_add_left_eq)
  finally have v: "unat (((h AND ?m) + of_nat d) AND ?m) = (unat h + d) mod 2 ^ k" .
  have "(unat h + d) mod 2 ^ k < 2 ^ k" by simp
  then have "(unat h + d) mod 2 ^ k < 2 ^ 31" using p by (rule less_le_trans)
  then have "(unat h + d) mod 2 ^ k < 2 ^ 32" by simp
  then show ?thesis unfolding slot_at_def Let_def unat_narrow v by simp
qed

lemma slot_at_less: "k \<le> 31 \<Longrightarrow> d < 2 ^ k \<Longrightarrow> slot_at (2 ^ k) h d < 2 ^ k"
  by (simp add: slot_at_mod)

lemma slot_at_onto:
  assumes "k \<le> 31" "i < 2 ^ k"
  shows "\<exists>d<2 ^ k. slot_at (2 ^ k) h d = i"
proof -
  let ?n = "2 ^ k :: nat"
  let ?d = "(i + (?n - unat h mod ?n)) mod ?n"
  have d: "?d < ?n" by simp
  have le: "unat h mod ?n \<le> ?n" by (rule less_imp_le) simp
  have "(unat h + ?d) mod ?n = (unat h mod ?n + (i + (?n - unat h mod ?n))) mod ?n" by (simp add: mod_simps)
  also have "unat h mod ?n + (i + (?n - unat h mod ?n)) = i + ?n" using le by linarith
  finally have "(unat h + ?d) mod ?n = i" using assms(2) by simp
  then have "slot_at ?n h ?d = i" using slot_at_mod [OF assms(1) d, of h] by (simp only:)
  then show ?thesis using d by blast
qed

text \<open>The outcome of a probe: the first slot of its sequence that is free or holds the key.\<close>

lemma probe_loop_stops:
  assumes "stop = (\<lambda>d. sl_generation (slots ! slot_at (length slots) hash d) \<noteq> gen
      \<or> sl_key (slots ! slot_at (length slots) hash d) = key)"
    and "stop d" "offset \<le> d" "d < offset + remaining" "\<forall>e. offset \<le> e \<longrightarrow> e < d \<longrightarrow> \<not> stop e"
  shows "probe_loop slots gen key hash offset remaining =
    (let i = slot_at (length slots) hash d; s = slots ! i in
     if sl_generation s \<noteq> gen then (i, False, 0) else (i, True, sl_id s))"
  using assms(3-5)
proof (induction remaining arbitrary: offset)
  case (Suc r)
  show ?case
  proof (cases "offset = d")
    case True
    then show ?thesis using assms(1,2) by (auto simp: Let_def)
  next
    case False
    then have "\<not> stop offset" "Suc offset \<le> d" "d < Suc offset + r" "\<forall>e. Suc offset \<le> e \<longrightarrow> e < d \<longrightarrow> \<not> stop e"
      using Suc.prems by auto
    then show ?thesis using Suc.IH [of "Suc offset"] assms(1) by (simp add: Let_def)
  qed
qed simp

lemma first_stop: "stop (d::nat) \<Longrightarrow> \<exists>e\<le>d. stop e \<and> (\<forall>x<e. \<not> stop x)"
  by (induction d rule: less_induct) (meson less_imp_le order_trans order_refl)

lemma probe_found:
  assumes "table_ok gen slots" "length slots = 2 ^ k" "k \<le> 31" "live gen slots i" "key_at slots i = key"
  shows "probe_slots slots gen key (boundaryIdentityHash key) =
    (\<lparr>pb_key = key, pb_hash = boundaryIdentityHash key, pb_slot = i, pb_found = True\<rparr>, sl_id (slots ! i))"
proof -
  let ?h = "boundaryIdentityHash key" and ?n = "length slots"
  have "reached gen slots key i" using assms(1,4,5) by (auto simp: table_ok_def)
  then obtain d where d: "d < ?n" "slot_at ?n ?h d = i" "\<forall>e<d. live gen slots (slot_at ?n ?h e)" by (auto simp: reached_def)
  define stop where "stop = (\<lambda>d. sl_generation (slots ! slot_at ?n ?h d) \<noteq> gen \<or> sl_key (slots ! slot_at ?n ?h d) = key)"
  have "stop d" using d(2) assms(4,5) by (simp add: stop_def key_at_def)
  then obtain m where e: "stop m" "m \<le> d" "\<forall>x<m. \<not> stop x" using first_stop by blast
  have lv: "live gen slots (slot_at ?n ?h m)"
    using e(2) d(2,3) assms(4) by (cases "m = d") auto
  then have "key_at slots (slot_at ?n ?h m) = key" using e(1) by (auto simp: stop_def live_def key_at_def)
  then have "slot_at ?n ?h m = i" using assms(1,4,5) lv unfolding table_ok_def by blast
  then show ?thesis
    using probe_loop_stops [OF stop_def e(1), of 0 ?n] e d(1) assms(4) by (simp add: probe_slots_def Let_def live_def)
qed

lemma probe_missing:
  assumes "length slots = 2 ^ k" "k \<le> 31" "\<forall>i. live gen slots i \<longrightarrow> key_at slots i \<noteq> key"
    and "j < length slots" "\<not> live gen slots j"
  shows "\<exists>i. probe_slots slots gen key (boundaryIdentityHash key) =
      (\<lparr>pb_key = key, pb_hash = boundaryIdentityHash key, pb_slot = i, pb_found = False\<rparr>, 0)
    \<and> i < length slots \<and> \<not> live gen slots i \<and> reached gen slots key i"
proof -
  let ?h = "boundaryIdentityHash key" and ?n = "length slots"
  obtain d where d: "d < ?n" "slot_at ?n ?h d = j" using slot_at_onto [OF assms(2), of j ?h] assms(1,4) by auto
  define stop where "stop = (\<lambda>d. sl_generation (slots ! slot_at ?n ?h d) \<noteq> gen \<or> sl_key (slots ! slot_at ?n ?h d) = key)"
  have "stop d" using d assms(4,5) by (simp add: stop_def live_def)
  then obtain m where e: "stop m" "m \<le> d" "\<forall>x<m. \<not> stop x" using first_stop by blast
  have lt: "slot_at ?n ?h e < ?n" if "e < ?n" for e using slot_at_less [OF assms(2), of e ?h] that assms(1) by simp
  have dead: "sl_generation (slots ! slot_at ?n ?h m) \<noteq> gen"
    using e(1) assms(3) lt [of m] e(2) d(1) by (auto simp: stop_def live_def key_at_def)
  have path: "\<forall>x<m. live gen slots (slot_at ?n ?h x)" using e lt d(1) by (auto simp: stop_def live_def)
  then have "reached gen slots key (slot_at ?n ?h m)" using e(2) d(1) unfolding reached_def by (intro exI [of _ m]) simp
  moreover have "probe_slots slots gen key ?h =
      (\<lparr>pb_key = key, pb_hash = ?h, pb_slot = slot_at ?n ?h m, pb_found = False\<rparr>, 0)"
    using probe_loop_stops [OF stop_def e(1), of 0 ?n] e d(1) dead by (simp add: probe_slots_def Let_def)
  ultimately show ?thesis using dead lt [of m] e(2) d(1) by (intro exI [of _ "slot_at ?n ?h m"]) (simp add: live_def)
qed

section \<open>Writing a slot\<close>

lemma live_update: "i < length slots \<Longrightarrow> sl_generation s = gen \<Longrightarrow> live gen (slots[i := s]) j \<longleftrightarrow> live gen slots j \<or> j = i"
  by (auto simp: live_def nth_list_update)

lemma reached_mono:
  assumes "reached gen slots key i" "\<And>j. live gen slots j \<Longrightarrow> live gen slots' j" "length slots' = length slots"
  shows "reached gen slots' key i"
proof -
  obtain d where "d < length slots" "slot_at (length slots) (boundaryIdentityHash key) d = i"
    "\<forall>e<d. live gen slots (slot_at (length slots) (boundaryIdentityHash key) e)"
    using assms(1) unfolding reached_def by blast
  then show ?thesis using assms(2,3) unfolding reached_def by (intro exI [of _ d]) auto
qed

lemma table_ok_write:
  assumes "table_ok gen slots" "i < length slots" "reached gen slots key i"
    and "\<forall>j. live gen slots j \<longrightarrow> key_at slots j = key \<longrightarrow> j = i"
  shows "table_ok gen (slots[i := \<lparr>sl_key = key, sl_id = v, sl_generation = gen\<rparr>])"
proof -
  let ?s = "slots[i := \<lparr>sl_key = key, sl_id = v, sl_generation = gen\<rparr>]"
  have lv: "live gen ?s j \<longleftrightarrow> live gen slots j \<or> j = i" for j using live_update [OF assms(2)] by simp
  have ky: "key_at ?s j = (if j = i then key else key_at slots j)" for j using assms(2) by (simp add: key_at_def nth_list_update)
  have up: "reached gen slots k j \<Longrightarrow> reached gen ?s k j" for k j by (rule reached_mono) (auto simp: lv)
  have "reached gen ?s (key_at ?s j) j" if "live gen ?s j" for j
    using that assms(1,3) up by (cases "j = i") (auto simp: lv ky table_ok_def)
  moreover have "a = b" if "live gen ?s a" "live gen ?s b" "key_at ?s a = key_at ?s b" for a b
  proof (cases "a = i \<or> b = i")
    case True
    then show ?thesis using that assms(4) by (auto simp: lv ky split: if_splits)
  next
    case False
    then show ?thesis using that assms(1) by (auto simp: lv ky table_ok_def)
  qed
  ultimately show ?thesis unfolding table_ok_def by blast
qed

lemma logicalMap_iff:
  assumes "table_ok gen slots"
  shows "logicalMap gen slots k = Some v \<longleftrightarrow> (\<exists>i. live gen slots i \<and> key_at slots i = k \<and> sl_id (slots ! i) = v)"
proof
  assume "logicalMap gen slots k = Some v"
  then have "(k, v) \<in> set (map (\<lambda>s. (sl_key s, sl_id s)) (rev (filter (\<lambda>s. sl_generation s = gen) slots)))"
    unfolding logicalMap_def by (rule map_of_SomeD)
  then show "\<exists>i. live gen slots i \<and> key_at slots i = k \<and> sl_id (slots ! i) = v"
    by (auto simp: live_def key_at_def in_set_conv_nth)
next
  assume "\<exists>i. live gen slots i \<and> key_at slots i = k \<and> sl_id (slots ! i) = v"
  then obtain i where i: "live gen slots i" "key_at slots i = k" "sl_id (slots ! i) = v" by blast
  let ?ps = "map (\<lambda>s. (sl_key s, sl_id s)) (rev (filter (\<lambda>s. sl_generation s = gen) slots))"
  have "k \<in> fst ` set ?ps" using i by (force simp: live_def key_at_def image_iff)
  then have "map_of ?ps k \<noteq> None" unfolding map_of_eq_None_iff by blast
  then obtain w where w: "map_of ?ps k = Some w" by blast
  from map_of_SomeD [OF this] obtain j where "live gen slots j" "key_at slots j = k" "sl_id (slots ! j) = w"
    unfolding live_def key_at_def by (auto simp only: set_map set_rev set_filter in_set_conv_nth image_iff mem_Collect_eq prod.inject)
  then have "w = v" using i assms unfolding table_ok_def by blast
  then show "logicalMap gen slots k = Some v" using w by (simp add: logicalMap_def)
qed

lemma logicalMap_None:
  assumes "table_ok gen slots"
  shows "logicalMap gen slots k = None \<longleftrightarrow> (\<forall>i. live gen slots i \<longrightarrow> key_at slots i \<noteq> k)"
  using logicalMap_iff [OF assms, of k] by (metis not_Some_eq)

lemma logicalMap_write:
  assumes "table_ok gen slots" "i < length slots" "reached gen slots key i"
    and "\<forall>j. live gen slots j \<longrightarrow> key_at slots j = key \<longrightarrow> j = i" "live gen slots i \<longrightarrow> key_at slots i = key"
  shows "logicalMap gen (slots[i := \<lparr>sl_key = key, sl_id = v, sl_generation = gen\<rparr>]) = (logicalMap gen slots)(key \<mapsto> v)"
proof (rule ext)
  fix k
  let ?s = "slots[i := \<lparr>sl_key = key, sl_id = v, sl_generation = gen\<rparr>]"
  note ok = table_ok_write [OF assms(1-4), of v]
  have lv: "live gen ?s j \<longleftrightarrow> live gen slots j \<or> j = i" for j using live_update [OF assms(2)] by simp
  have ky: "key_at ?s j = (if j = i then key else key_at slots j)" for j using assms(2) by (simp add: key_at_def nth_list_update)
  have vl: "sl_id (?s ! j) = (if j = i then v else sl_id (slots ! j))" for j using assms(2) by (simp add: nth_list_update)
  have "logicalMap gen ?s k = Some w \<longleftrightarrow> ((logicalMap gen slots)(key \<mapsto> v)) k = Some w" for w
  proof (cases "k = key")
    case True
    then show ?thesis using assms(4) by (auto simp: logicalMap_iff [OF ok] lv ky vl split: if_splits)
  next
    case False
    then show ?thesis using assms(5) by (auto simp: logicalMap_iff [OF ok] logicalMap_iff [OF assms(1)] lv ky vl split: if_splits)
  qed
  then show "logicalMap gen ?s k = ((logicalMap gen slots)(key \<mapsto> v)) k" by (metis not_Some_eq)
qed

text \<open>The number of live slots.\<close>

definition live_count :: "u32 \<Rightarrow> slots \<Rightarrow> nat" where
  "live_count gen slots = length (filter (\<lambda>s. sl_generation s = gen) slots)"

lemma live_count_card: "live_count gen slots = card {i. live gen slots i}"
  by (simp add: live_count_def length_filter_conv_card live_def)

lemma live_finite [simp]: "finite {i. live gen slots i}"
  by (rule finite_subset [of _ "{..<length slots}"]) (auto simp: live_def)

lemma live_count_write:
  assumes "i < length slots" "sl_generation s = gen"
  shows "live_count gen (slots[i := s]) = (if live gen slots i then live_count gen slots else Suc (live_count gen slots))"
proof -
  have "{j. live gen (slots[i := s]) j} = insert i {j. live gen slots j}" using live_update [OF assms] by auto
  then show ?thesis by (simp add: live_count_card card_insert_if)
qed

lemma live_count_dom:
  assumes "table_ok gen slots"
  shows "card (dom (logicalMap gen slots)) = live_count gen slots"
proof -
  have "dom (logicalMap gen slots) = key_at slots ` {i. live gen slots i}"
    using logicalMap_iff [OF assms] by (auto simp: dom_def)
  moreover have "inj_on (key_at slots) {i. live gen slots i}" using assms by (auto simp: table_ok_def inj_on_def)
  ultimately show ?thesis by (simp add: live_count_card card_image)
qed

lemma free_slot:
  assumes "live_count gen slots < length slots"
  shows "\<exists>j<length slots. \<not> live gen slots j"
proof (rule ccontr)
  assume "\<not> ?thesis"
  then have "{i. live gen slots i} = {..<length slots}" by (auto simp: live_def)
  then show False using assms by (simp add: live_count_card)
qed

text \<open>A key is written where its probe ends.\<close>

lemma write_probed:
  fixes v :: u32
  assumes ok: "table_ok gen slots" and len: "length slots = 2 ^ k" "k \<le> 31" and room: "live_count gen slots < length slots"
    and pr: "probe_slots slots gen key (boundaryIdentityHash key) = (pr, old)"
  defines "new \<equiv> slots[pb_slot pr := \<lparr>sl_key = key, sl_id = v, sl_generation = gen\<rparr>]"
  shows "pb_slot pr < length slots" "pb_key pr = key" "pb_hash pr = boundaryIdentityHash key"
    "pb_found pr \<longleftrightarrow> key \<in> dom (logicalMap gen slots)" "pb_found pr \<longrightarrow> logicalMap gen slots key = Some old"
    "\<not> pb_found pr \<longrightarrow> old = 0" "table_ok gen new"
    "logicalMap gen new = (logicalMap gen slots)(key \<mapsto> v)"
    "live_count gen new = (if pb_found pr then live_count gen slots else Suc (live_count gen slots))"
proof -
  have "pb_slot pr < length slots \<and> pb_key pr = key \<and> pb_hash pr = boundaryIdentityHash key
    \<and> (pb_found pr \<longleftrightarrow> key \<in> dom (logicalMap gen slots)) \<and> (pb_found pr \<longrightarrow> logicalMap gen slots key = Some old)
    \<and> (\<not> pb_found pr \<longrightarrow> old = 0) \<and> (pb_found pr \<longleftrightarrow> live gen slots (pb_slot pr)) \<and> reached gen slots key (pb_slot pr)
    \<and> (\<forall>j. live gen slots j \<longrightarrow> key_at slots j = key \<longrightarrow> j = pb_slot pr)
    \<and> (live gen slots (pb_slot pr) \<longrightarrow> key_at slots (pb_slot pr) = key)"
  proof (cases "logicalMap gen slots key")
    case None
    then have no: "\<forall>i. live gen slots i \<longrightarrow> key_at slots i \<noteq> key" using logicalMap_None [OF ok] by blast
    obtain j where "j < length slots" "\<not> live gen slots j" using free_slot [OF room] by blast
    from probe_missing [OF len no this] obtain i where
      "pr = \<lparr>pb_key = key, pb_hash = boundaryIdentityHash key, pb_slot = i, pb_found = False\<rparr>" "old = 0"
      "i < length slots" "\<not> live gen slots i" "reached gen slots key i" unfolding pr by auto
    then show ?thesis using no None by (simp add: dom_def)
  next
    case (Some w)
    then obtain i where i: "live gen slots i" "key_at slots i = key" "sl_id (slots ! i) = w" using logicalMap_iff [OF ok] by blast
    have u: "j = i" if "live gen slots j" "key_at slots j = key" for j using ok that i unfolding table_ok_def by blast
    have reach: "reached gen slots key i" using ok i unfolding table_ok_def by blast
    have pr': "pr = \<lparr>pb_key = key, pb_hash = boundaryIdentityHash key, pb_slot = i, pb_found = True\<rparr>" "old = w"
      using probe_found [OF ok len i(1,2)] pr i(3) by auto
    have "i < length slots" using i(1) by (simp add: live_def)
    then show ?thesis unfolding pr' boundaryProbe.simps using Some i(1,2) u reach by blast
  qed
  note facts = this
  show "pb_slot pr < length slots" "pb_key pr = key" "pb_hash pr = boundaryIdentityHash key"
    "pb_found pr \<longleftrightarrow> key \<in> dom (logicalMap gen slots)" "pb_found pr \<longrightarrow> logicalMap gen slots key = Some old"
    "\<not> pb_found pr \<longrightarrow> old = 0" using facts by blast+
  show "table_ok gen new" unfolding new_def by (rule table_ok_write [OF ok]) (use facts in blast)+
  show "logicalMap gen new = (logicalMap gen slots)(key \<mapsto> v)" unfolding new_def by (rule logicalMap_write [OF ok]) (use facts in blast)+
  have lt: "pb_slot pr < length slots" and f: "pb_found pr = live gen slots (pb_slot pr)" using facts by blast+
  show "live_count gen new = (if pb_found pr then live_count gen slots else Suc (live_count gen slots))"
    unfolding new_def f by (rule live_count_write [OF lt]) simp
qed

section \<open>The index\<close>

text \<open>The index with the arrays it and the journal refer to.\<close>

record boundaryCore =
  bc_heap :: "slots list"
  bc_boundaries :: boundaryIndex
  bc_boundaryJournal :: "boundaryMutation list"
  bc_frontier :: u64
  bc_transactions :: "u64 list"
  bc_nextTransaction :: u64

definition boundaryIndexInitialCapacity :: nat where "boundaryIndexInitialCapacity = 16"
definition boundaryIndexLoadNumerator :: nat where "boundaryIndexLoadNumerator = 7"
definition boundaryIndexLoadDenominator :: nat where "boundaryIndexLoadDenominator = 10"

text \<open>\<^verbatim>\<open>bits.Len64\<close>.\<close>

fun bit_len :: "nat \<Rightarrow> nat" where
  "bit_len n = (if n = 0 then 0 else Suc (bit_len (n div 2)))"

declare bit_len.simps [simp del]

definition newBoundaryIndex :: "u32 \<Rightarrow> boundaryError + boundaryIndex" where
  "newBoundaryIndex maxEntries =
     (if maxEntries = 0 then Inl IndexCapacity
      else let required = (unat maxEntries * boundaryIndexLoadDenominator + boundaryIndexLoadNumerator - 1) div boundaryIndexLoadNumerator;
               required = max required boundaryIndexInitialCapacity;
               maxSlots = 2 ^ bit_len (required - 1) in
        if maxSlots > (4294967295::nat) then Inl IndexCapacity
        else Inr \<lparr>bi_slots = None, bi_generation = 1, bi_count = 0, bi_maxSlots = of_nat maxSlots\<rparr>)"

definition newBoundaryCore :: "boundaryIndex \<Rightarrow> boundaryCore" where
  "newBoundaryCore i =
     \<lparr>bc_heap = [], bc_boundaries = i, bc_boundaryJournal = [], bc_frontier = 1, bc_transactions = [], bc_nextTransaction = 0\<rparr>"

definition cur_slots :: "boundaryCore \<Rightarrow> slots" where
  "cur_slots c = (case bi_slots (bc_boundaries c) of None \<Rightarrow> [] | Some a \<Rightarrow> bc_heap c ! a)"

definition probeWithHash :: "boundaryCore \<Rightarrow> boundaryIdentity \<Rightarrow> u64 \<Rightarrow> boundaryProbe \<times> u32" where
  "probeWithHash c key hash = probe_slots (cur_slots c) (bi_generation (bc_boundaries c)) key hash"

definition probe :: "boundaryCore \<Rightarrow> boundaryIdentity \<Rightarrow> boundaryProbe \<times> u32" where
  "probe c key = probeWithHash c key (boundaryIdentityHash key)"

definition get_boundary :: "boundaryCore \<Rightarrow> boundaryKey \<Rightarrow> u32 \<times> bool" where
  "get_boundary c key = (case probe c (boundaryIdentityFromKey key) of (pr, ident) \<Rightarrow> (ident, pb_found pr))"

fun rehash :: "u32 \<Rightarrow> slots \<Rightarrow> slots \<Rightarrow> boundaryError option \<times> slots" where
  "rehash gen [] new = (None, new)"
| "rehash gen (slot # previous) new =
     (if sl_generation slot \<noteq> gen then rehash gen previous new
      else case probe_slots new gen (sl_key slot) (boundaryIdentityHash (sl_key slot)) of (pr, _) \<Rightarrow>
        if pb_found pr then (Some DuplicateRehash, new)
        else rehash gen previous (new[pb_slot pr := slot]))"

definition growIndex :: "boundaryCore \<Rightarrow> nat \<Rightarrow> boundaryError option \<times> boundaryCore" where
  "growIndex c capacity =
     (let capacity = max capacity boundaryIndexInitialCapacity; i = bc_boundaries c in
      if capacity > unat (bi_maxSlots i) \<or> capacity AND (capacity - 1) \<noteq> 0 then (Some IndexCapacity, c)
      else case rehash (bi_generation i) (cur_slots c) (replicate capacity zero_slot) of (err, new) \<Rightarrow>
        (err, c\<lparr>bc_heap := bc_heap c @ [new], bc_boundaries := i\<lparr>bi_slots := Some (length (bc_heap c))\<rparr>\<rparr>))"

text \<open>The write itself; it is journaled inside a transaction.\<close>

definition write_slot :: "boundaryCore \<Rightarrow> boundaryProbe \<Rightarrow> u32 \<Rightarrow> boundaryCore" where
  "write_slot c pr ident =
     (case bi_slots (bc_boundaries c) of
        None \<Rightarrow> c
      | Some a \<Rightarrow>
          let i = bc_boundaries c; slots = bc_heap c ! a;
              slot = \<lparr>sl_key = pb_key pr, sl_id = ident, sl_generation = bi_generation i\<rparr> in
          c\<lparr>bc_boundaryJournal := (if bc_transactions c \<noteq> []
               then bc_boundaryJournal c @ [\<lparr>mu_slots = a, mu_index = pb_slot pr, mu_previous = slots ! pb_slot pr\<rparr>]
               else bc_boundaryJournal c),
             bc_heap := (bc_heap c)[a := slots[pb_slot pr := slot]],
             bc_boundaries := (if pb_found pr then i else i\<lparr>bi_count := bi_count i + 1\<rparr>)\<rparr>)"

text \<open>The growth of an empty index, and the growth of a full one.\<close>

definition open_table :: "boundaryCore \<Rightarrow> boundaryProbe \<Rightarrow> boundaryError option \<times> boundaryProbe \<times> boundaryCore" where
  "open_table c pr =
     (if cur_slots c = [] then
        (case growIndex c boundaryIndexInitialCapacity of (err, c) \<Rightarrow>
           if err \<noteq> None then (err, pr, c) else (None, fst (probeWithHash c (pb_key pr) (pb_hash pr)), c))
      else (None, pr, c))"

definition make_room :: "boundaryCore \<Rightarrow> boundaryProbe \<Rightarrow> boundaryError option \<times> boundaryProbe \<times> boundaryCore" where
  "make_room c pr =
     (let i = bc_boundaries c; slots = cur_slots c in
      if \<not> pb_found pr \<and> unat (bi_count i + 1) * boundaryIndexLoadDenominator > length slots * boundaryIndexLoadNumerator then
        if length slots \<ge> unat (bi_maxSlots i) then (Some IndexCapacity, pr, c)
        else (case growIndex c (length slots * 2) of (err, c) \<Rightarrow>
           if err \<noteq> None then (err, pr, c) else (None, fst (probeWithHash c (pb_key pr) (pb_hash pr)), c))
      else (None, pr, c))"

definition publish :: "boundaryCore \<Rightarrow> boundaryProbe \<Rightarrow> u32 \<Rightarrow> boundaryError option \<times> boundaryCore" where
  "publish c pr ident =
     (if ident = 0 then (Some ZeroNode, c)
      else case open_table c pr of (err, pr, c) \<Rightarrow>
        if err \<noteq> None then (err, c)
        else case make_room c pr of (err, pr, c) \<Rightarrow>
          if err \<noteq> None then (err, c) else (None, write_slot c pr ident))"

definition writeBoundary :: "boundaryCore \<Rightarrow> boundaryKey \<Rightarrow> u32 \<Rightarrow> boundaryError option \<times> boundaryCore" where
  "writeBoundary c key ident =
     (if bk_frontier key \<noteq> bc_frontier c then (Some FrontierMismatch, c)
      else publish c (fst (probe c (boundaryIdentityFromKey key))) ident)"

definition advanceGeneration :: "boundaryCore \<Rightarrow> boundaryCore" where
  "advanceGeneration c =
     (let i = bc_boundaries c in
      if bi_generation i = - 1 then
        c\<lparr>bc_heap := (case bi_slots i of None \<Rightarrow> bc_heap c
             | Some a \<Rightarrow> (bc_heap c)[a := replicate (length (bc_heap c ! a)) zero_slot]),
           bc_boundaries := i\<lparr>bi_generation := 1, bi_count := 0\<rparr>\<rparr>
      else c\<lparr>bc_boundaries := i\<lparr>bi_generation := bi_generation i + 1, bi_count := 0\<rparr>\<rparr>)"

definition BeginFrontier :: "boundaryCore \<Rightarrow> boundaryError option \<times> boundaryCore" where
  "BeginFrontier c =
     (if bc_transactions c \<noteq> [] then (Some FrontierInTransaction, c)
      else if bc_frontier c = - 1 then (Some FrontierOverflow, c)
      else (None, (advanceGeneration c)\<lparr>bc_frontier := bc_frontier c + 1\<rparr>))"

section \<open>Transactions\<close>

record boundaryMark =
  mk_transaction :: u64
  mk_journal :: nat
  mk_boundaryIndex :: boundaryIndexSnapshot
  mk_frontier :: u64

definition snapshot :: "boundaryIndex \<Rightarrow> boundaryIndexSnapshot" where
  "snapshot i = \<lparr>sn_slots = bi_slots i, sn_generation = bi_generation i, sn_count = bi_count i\<rparr>"

definition restore_index :: "boundaryIndex \<Rightarrow> boundaryIndexSnapshot \<Rightarrow> boundaryIndex" where
  "restore_index i s = i\<lparr>bi_slots := sn_slots s, bi_generation := sn_generation s, bi_count := sn_count s\<rparr>"

definition markInto :: "boundaryCore \<Rightarrow> boundaryError + boundaryMark \<times> boundaryCore" where
  "markInto c =
     (if bc_nextTransaction c = - 1 then Inl TransactionOverflow
      else let t = bc_nextTransaction c + 1 in
        Inr (\<lparr>mk_transaction = t, mk_journal = length (bc_boundaryJournal c), mk_boundaryIndex = snapshot (bc_boundaries c),
              mk_frontier = bc_frontier c\<rparr>,
             c\<lparr>bc_nextTransaction := t, bc_transactions := bc_transactions c @ [t]\<rparr>))"

definition out_of_order :: "boundaryCore \<Rightarrow> boundaryMark \<Rightarrow> bool" where
  "out_of_order c m \<longleftrightarrow> bc_transactions c = [] \<or> List.last (bc_transactions c) \<noteq> mk_transaction m"

definition finishTransaction :: "boundaryCore \<Rightarrow> boundaryCore" where
  "finishTransaction c =
     (let ts = butlast (bc_transactions c) in
      c\<lparr>bc_transactions := ts, bc_boundaryJournal := (if ts = [] then [] else bc_boundaryJournal c)\<rparr>)"

text \<open>The journal is undone from its newest entry back.\<close>

definition undo_slot :: "boundaryMutation \<Rightarrow> slots list \<Rightarrow> slots list" where
  "undo_slot m heap = heap[mu_slots m := (heap ! mu_slots m)[mu_index m := mu_previous m]]"

definition undo :: "boundaryMutation list \<Rightarrow> slots list \<Rightarrow> slots list" where
  "undo js heap = foldr undo_slot js heap"

definition restoreCheckpoint :: "boundaryCore \<Rightarrow> boundaryMark \<Rightarrow> boundaryError + boundaryCore" where
  "restoreCheckpoint c m =
     (if out_of_order c m then Inl OutOfOrder
      else Inr (finishTransaction (c\<lparr>bc_frontier := mk_frontier m,
             bc_heap := undo (drop (mk_journal m) (bc_boundaryJournal c)) (bc_heap c),
             bc_boundaries := restore_index (bc_boundaries c) (mk_boundaryIndex m),
             bc_boundaryJournal := take (mk_journal m) (bc_boundaryJournal c)\<rparr>)))"

definition commit :: "boundaryCore \<Rightarrow> boundaryMark \<Rightarrow> boundaryError + boundaryCore" where
  "commit c m = (if out_of_order c m then Inl OutOfOrder else Inr (finishTransaction c))"

text \<open>
  Programs over the index: writes, the start of a frontier, the new generation of a reindexing, and an
  atomic operation, whose body may ignore the errors of its calls and whose own result decides
  between commit and rollback.
\<close>

datatype command = Write boundaryKey u32 | Begin | Reindex | Atomic "command list" bool

definition completeTransaction :: "boundaryCore \<Rightarrow> boundaryMark \<Rightarrow> boundaryError option \<Rightarrow> boundaryError option \<times> boundaryCore" where
  "completeTransaction c m err =
     (case (if err \<noteq> None then restoreCheckpoint c m else commit c m) of
        Inl e \<Rightarrow> (Some e, c)
      | Inr c \<Rightarrow> (err, c))"

fun run_cmd :: "command \<Rightarrow> boundaryCore \<Rightarrow> boundaryError option list \<times> boundaryCore"
  and run :: "command list \<Rightarrow> boundaryCore \<Rightarrow> boundaryError option list \<times> boundaryCore" where
  "run_cmd (Write key ident) c = (case writeBoundary c key ident of (err, c) \<Rightarrow> ([err], c))"
| "run_cmd Begin c = (case BeginFrontier c of (err, c) \<Rightarrow> ([err], c))"
| "run_cmd Reindex c = ([None], advanceGeneration c)"
| "run_cmd (Atomic body ok) c =
     (case markInto c of
        Inl e \<Rightarrow> ([Some e], c)
      | Inr (m, c) \<Rightarrow>
          (case run body c of (outs, c) \<Rightarrow>
           case completeTransaction c m (if ok then None else Some OperationFailed) of (err, c) \<Rightarrow> (outs @ [err], c)))"
| "run [] c = ([], c)"
| "run (x # xs) c =
     (case run_cmd x c of (outs, c) \<Rightarrow> case run xs c of (outs', c) \<Rightarrow> (outs @ outs', c))"

text \<open>No counter wraps: the transaction numbers, and the generation inside a transaction.\<close>

fun calm_cmd :: "command \<Rightarrow> boundaryCore \<Rightarrow> bool"
  and calm :: "command list \<Rightarrow> boundaryCore \<Rightarrow> bool" where
  "calm_cmd (Write key ident) c \<longleftrightarrow> True"
| "calm_cmd Begin c \<longleftrightarrow> True"
| "calm_cmd Reindex c \<longleftrightarrow> bc_transactions c = [] \<or> bi_generation (bc_boundaries c) \<noteq> - 1"
| "calm_cmd (Atomic body ok) c \<longleftrightarrow> (case markInto c of Inl e \<Rightarrow> False | Inr (m, c) \<Rightarrow> calm body c)"
| "calm [] c \<longleftrightarrow> True"
| "calm (x # xs) c \<longleftrightarrow> calm_cmd x c \<and> calm xs (snd (run_cmd x c))"

section \<open>The specification\<close>

text \<open>A frontier and a map with a capacity; an aborted operation leaves no trace.\<close>

type_synonym boundaryState = "u64 \<times> (boundaryIdentity \<Rightarrow> u32 option)"

definition spec_write :: "nat \<Rightarrow> boundaryKey \<Rightarrow> u32 \<Rightarrow> boundaryState \<Rightarrow> boundaryError option \<times> boundaryState" where
  "spec_write cap key ident s =
     (let k = boundaryIdentityFromKey key; m = snd s in
      if bk_frontier key \<noteq> fst s then (Some FrontierMismatch, s)
      else if ident = 0 then (Some ZeroNode, s)
      else if k \<notin> dom m \<and> Suc (card (dom m)) > cap then (Some IndexCapacity, s)
      else (None, fst s, m(k \<mapsto> ident)))"

fun spec_cmd :: "nat \<Rightarrow> bool \<Rightarrow> command \<Rightarrow> boundaryState \<Rightarrow> boundaryError option list \<times> boundaryState"
  and spec_run :: "nat \<Rightarrow> bool \<Rightarrow> command list \<Rightarrow> boundaryState \<Rightarrow> boundaryError option list \<times> boundaryState" where
  "spec_cmd cap nested (Write key ident) s = (case spec_write cap key ident s of (err, s) \<Rightarrow> ([err], s))"
| "spec_cmd cap nested Begin s =
     (if nested then ([Some FrontierInTransaction], s)
      else if fst s = - 1 then ([Some FrontierOverflow], s)
      else ([None], fst s + 1, Map.empty))"
| "spec_cmd cap nested Reindex s = ([None], fst s, Map.empty)"
| "spec_cmd cap nested (Atomic body ok) s =
     (case spec_run cap True body s of (outs, s') \<Rightarrow> if ok then (outs @ [None], s') else (outs @ [Some OperationFailed], s))"
| "spec_run cap nested [] s = ([], s)"
| "spec_run cap nested (x # xs) s =
     (case spec_cmd cap nested x s of (outs, s) \<Rightarrow> case spec_run cap nested xs s of (outs', s) \<Rightarrow> (outs @ outs', s))"

section \<open>The invariant\<close>

definition array_ok :: "boundaryIndex \<Rightarrow> slots \<Rightarrow> bool" where
  "array_ok i slots \<longleftrightarrow>
     (\<exists>k. 4 \<le> k \<and> k \<le> 31 \<and> length slots = 2 ^ k) \<and> length slots \<le> unat (bi_maxSlots i)
     \<and> table_ok (bi_generation i) slots
     \<and> unat (bi_count i) = live_count (bi_generation i) slots
     \<and> live_count (bi_generation i) slots * 10 \<le> length slots * 7
     \<and> (\<forall>s\<in>set slots. sl_generation s \<le> bi_generation i)"

definition index_ok :: "boundaryCore \<Rightarrow> bool" where
  "index_ok c \<longleftrightarrow>
     (let i = bc_boundaries c in
      bi_generation i \<noteq> 0 \<and> (\<exists>k. 4 \<le> k \<and> k \<le> 31 \<and> unat (bi_maxSlots i) = 2 ^ k)
      \<and> (case bi_slots i of None \<Rightarrow> bi_count i = 0 | Some a \<Rightarrow> a < length (bc_heap c) \<and> array_ok i (bc_heap c ! a)))"

definition abs_boundaries :: "boundaryCore \<Rightarrow> boundaryState" where
  "abs_boundaries c = (bc_frontier c, logicalMap (bi_generation (bc_boundaries c)) (cur_slots c))"

definition index_capacity :: "boundaryCore \<Rightarrow> nat" where
  "index_capacity c = unat (bi_maxSlots (bc_boundaries c)) * 7 div 10"

lemma distinct_filter_map:
  assumes "\<And>i j. i < length xs \<Longrightarrow> j < length xs \<Longrightarrow> P (xs ! i) \<Longrightarrow> P (xs ! j) \<Longrightarrow> f (xs ! i) = f (xs ! j) \<Longrightarrow> i = j"
  shows "distinct (map f (filter P xs))"
  using assms
proof (induction xs)
  case (Cons x xs)
  have "distinct (map f (filter P xs))"
  proof (rule Cons.IH)
    fix i j assume "i < length xs" "j < length xs" "P (xs ! i)" "P (xs ! j)" "f (xs ! i) = f (xs ! j)"
    then show "i = j" using Cons.prems [of "Suc i" "Suc j"] by simp
  qed
  moreover have False if "P x" "y \<in> set xs" "P y" "f x = f y" for y
  proof -
    obtain j where "j < length xs" "y = xs ! j" using \<open>y \<in> set xs\<close> by (auto simp: in_set_conv_nth)
    then show False using Cons.prems [of 0 "Suc j"] that by simp
  qed
  ultimately show ?case by (auto simp: image_iff)
qed simp

lemma table_keys_distinct: "table_ok gen slots \<Longrightarrow> distinct (map sl_key (filter (\<lambda>s. sl_generation s = gen) slots))"
  by (rule distinct_filter_map) (auto simp: table_ok_def live_def key_at_def)

lemma table_ok_empty: "\<forall>s\<in>set slots. sl_generation s \<noteq> gen \<Longrightarrow> table_ok gen slots \<and> logicalMap gen slots = Map.empty \<and> live_count gen slots = 0"
  by (auto simp: table_ok_def live_def logicalMap_def live_count_def filter_empty_conv)

lemma logicalMap_Cons:
  "logicalMap gen (s # slots) = (if sl_generation s = gen then [sl_key s \<mapsto> sl_id s] ++ logicalMap gen slots else logicalMap gen slots)"
  by (simp add: logicalMap_def)

lemma dom_logicalMap: "dom (logicalMap gen slots) = sl_key ` {s \<in> set slots. sl_generation s = gen}"
  by (force simp: logicalMap_def dom_map_of_conv_image_fst image_iff)

lemma rehash_ok:
  assumes "table_ok gen new" "length new = 2 ^ k" "k \<le> 31" "distinct (map sl_key (filter (\<lambda>s. sl_generation s = gen) prev))"
    and "dom (logicalMap gen new) \<inter> dom (logicalMap gen prev) = {}" "live_count gen new + live_count gen prev < length new"
    and "\<forall>s\<in>set new. sl_generation s \<le> gen"
  shows "\<exists>new'. rehash gen prev new = (None, new') \<and> length new' = length new \<and> table_ok gen new'
    \<and> live_count gen new' = live_count gen new + live_count gen prev
    \<and> logicalMap gen new' = logicalMap gen new ++ logicalMap gen prev \<and> (\<forall>s\<in>set new'. sl_generation s \<le> gen)"
  using assms
proof (induction gen prev new rule: rehash.induct)
  case (1 gen new)
  then show ?case by (simp add: live_count_def logicalMap_def)
next
  case (2 gen slot prev new)
  show ?case
  proof (cases "sl_generation slot = gen")
    case False
    then show ?thesis using 2 by (simp add: live_count_def logicalMap_Cons)
  next
    case True
    obtain pr old where pr: "probe_slots new gen (sl_key slot) (boundaryIdentityHash (sl_key slot)) = (pr, old)" by fastforce
    have slot: "slot = \<lparr>sl_key = sl_key slot, sl_id = sl_id slot, sl_generation = gen\<rparr>" using True by simp
    have room: "live_count gen new < length new" using 2(8) by linarith
    note w = write_probed [OF 2(3-5) room pr]
    note put = w(7-9) [where v = "sl_id slot", folded slot]
    have nf: "\<not> pb_found pr" using w(4) 2(7) True by (auto simp: logicalMap_Cons)
    let ?new = "new[pb_slot pr := slot]"
    have dist: "sl_key slot \<notin> dom (logicalMap gen prev)" "distinct (map sl_key (filter (\<lambda>s. sl_generation s = gen) prev))"
      using 2(6) True by (auto simp: dom_logicalMap)
    have lc: "live_count gen (slot # prev) = Suc (live_count gen prev)" using True by (simp add: live_count_def)
    have disj: "dom (logicalMap gen ?new) \<inter> dom (logicalMap gen prev) = {}"
      using 2(7) dist(1) True unfolding put(2) by (auto simp: logicalMap_Cons)
    have "\<exists>new'. rehash gen prev ?new = (None, new') \<and> length new' = length ?new \<and> table_ok gen new'
      \<and> live_count gen new' = live_count gen ?new + live_count gen prev
      \<and> logicalMap gen new' = logicalMap gen ?new ++ logicalMap gen prev \<and> (\<forall>s\<in>set new'. sl_generation s \<le> gen)"
    proof (rule 2(2) [OF _ pr [symmetric] nf put(1) _ 2(5) dist(2) disj])
      show "\<not> sl_generation slot \<noteq> gen" using True by simp
      show "length ?new = 2 ^ k" using 2(4) by simp
      show "live_count gen ?new + live_count gen prev < length ?new" using 2(8) nf lc put(3) by simp
      show "\<forall>s\<in>set ?new. sl_generation s \<le> gen" using 2(9) True set_update_subset_insert [of new "pb_slot pr" slot] by auto
    qed
    then show ?thesis using True pr nf lc put(2,3) by (auto simp: logicalMap_Cons)
  qed
qed

text \<open>What one operation may do to the arrays: inside a transaction the journal undoes it.\<close>

definition undoable :: "boundaryCore \<Rightarrow> boundaryCore \<Rightarrow> bool" where
  "undoable c c' \<longleftrightarrow>
     bc_transactions c' = bc_transactions c \<and> bi_maxSlots (bc_boundaries c') = bi_maxSlots (bc_boundaries c)
     \<and> length (bc_heap c) \<le> length (bc_heap c')
     \<and> (if bc_transactions c = [] then bc_boundaryJournal c' = bc_boundaryJournal c
        else \<exists>js. bc_boundaryJournal c' = bc_boundaryJournal c @ js
              \<and> take (length (bc_heap c)) (undo js (bc_heap c')) = bc_heap c)"

lemma undo_Nil [simp]: "undo [] h = h"
  by (simp add: undo_def)

lemma undo_append: "undo (xs @ ys) h = undo xs (undo ys h)"
  by (simp add: undo_def)

lemma length_undo [simp]: "length (undo js h) = length h"
  by (induction js) (auto simp: undo_def undo_slot_def)

lemma take_undo: "take n (undo js h) = undo js (take n h)"
proof (induction js)
  case (Cons m js)
  have "take n (undo_slot m h) = undo_slot m (take n h)" for h
    by (cases "mu_slots m < n") (auto simp: undo_slot_def take_update_swap list_update_beyond)
  then show ?case using Cons by (simp add: undo_def)
qed (simp add: undo_def)

lemma undoable_refl: "undoable c c"
  by (simp add: undoable_def)

lemma undoable_trans:
  assumes "undoable c c1" "undoable c1 c2"
  shows "undoable c c2"
proof (cases "bc_transactions c = []")
  case True
  then show ?thesis using assms by (auto simp: undoable_def)
next
  case False
  then obtain js js' where js: "bc_boundaryJournal c1 = bc_boundaryJournal c @ js" "take (length (bc_heap c)) (undo js (bc_heap c1)) = bc_heap c"
    "bc_boundaryJournal c2 = bc_boundaryJournal c1 @ js'" "take (length (bc_heap c1)) (undo js' (bc_heap c2)) = bc_heap c1"
    using assms by (auto simp: undoable_def)
  have le: "length (bc_heap c) \<le> length (bc_heap c1)" using assms(1) by (simp add: undoable_def)
  have "take (length (bc_heap c)) (undo (js @ js') (bc_heap c2)) =
      take (length (bc_heap c)) (take (length (bc_heap c1)) (undo js (undo js' (bc_heap c2))))"
    using le by (simp add: undo_append min_def)
  also have "take (length (bc_heap c1)) (undo js (undo js' (bc_heap c2))) = undo js (bc_heap c1)"
    using js(4) by (simp add: take_undo)
  finally have "take (length (bc_heap c)) (undo (js @ js') (bc_heap c2)) = bc_heap c" using js(2) by simp
  then show ?thesis using assms js(1,3) False unfolding undoable_def by (auto intro!: exI [of _ "js @ js'"])
qed

lemma same_tables:
  assumes "bc_heap c' = bc_heap c" "bc_boundaries c' = bc_boundaries c"
  shows "index_ok c' = index_ok c" "cur_slots c' = cur_slots c"
  unfolding index_ok_def cur_slots_def assms by (rule refl)+

section \<open>Growing and publishing\<close>

lemma pow2_and: "(2::nat) ^ k AND (2 ^ k - 1) = 0"
proof -
  have "(2::nat) ^ k - 1 = mask k" by (simp add: mask_eq_exp_minus_1)
  then show ?thesis by (simp flip: take_bit_eq_mask)
qed

text \<open>The index between its opening and its write: a table with room for one more key.\<close>

definition roomy :: "boundaryCore \<Rightarrow> bool" where
  "roomy c \<longleftrightarrow> (\<exists>a. bi_slots (bc_boundaries c) = Some a \<and> a < length (bc_heap c)
     \<and> Suc (live_count (bi_generation (bc_boundaries c)) (bc_heap c ! a)) * 10 \<le> length (bc_heap c ! a) * 7)"

lemma cur_slots_Some: "bi_slots (bc_boundaries c) = Some a \<Longrightarrow> cur_slots c = bc_heap c ! a"
  by (simp add: cur_slots_def)

lemma grow_ok:
  assumes inv: "index_ok c" and cap: "capacity = 2 ^ k" "4 \<le> k" "k \<le> 31" "capacity \<le> unat (bi_maxSlots (bc_boundaries c))"
    and fits: "Suc (live_count (bi_generation (bc_boundaries c)) (cur_slots c)) * 10 \<le> capacity * 7"
  shows "\<exists>c'. growIndex c capacity = (None, c') \<and> index_ok c' \<and> roomy c' \<and> length (cur_slots c') = capacity
    \<and> bi_count (bc_boundaries c') = bi_count (bc_boundaries c) \<and> bi_generation (bc_boundaries c') = bi_generation (bc_boundaries c)
    \<and> abs_boundaries c' = abs_boundaries c \<and> undoable c c'"
proof -
  let ?i = "bc_boundaries c" and ?new = "replicate capacity zero_slot"
  let ?g = "bi_generation ?i"
  have g: "?g \<noteq> 0" using inv by (simp add: index_ok_def Let_def)
  have z: "\<forall>s\<in>set ?new. sl_generation s \<noteq> ?g" using g by (simp add: zero_slot_def)
  note e = table_ok_empty [OF z]
  have prev: "distinct (map sl_key (filter (\<lambda>s. sl_generation s = ?g) (cur_slots c)))"
    "unat (bi_count ?i) = live_count ?g (cur_slots c)"
    using inv by (auto simp: index_ok_def Let_def cur_slots_def array_ok_def live_count_def table_keys_distinct split: option.splits)
  have "16 \<le> capacity" using power_increasing [OF cap(2), of "2::nat"] cap(1) by simp
  then have mx: "max capacity boundaryIndexInitialCapacity = capacity" by (simp add: boundaryIndexInitialCapacity_def)
  have lt: "live_count ?g (cur_slots c) < capacity" using fits by simp
  have "\<exists>new'. rehash ?g (cur_slots c) ?new = (None, new') \<and> length new' = length ?new \<and> table_ok ?g new'
    \<and> live_count ?g new' = live_count ?g ?new + live_count ?g (cur_slots c)
    \<and> logicalMap ?g new' = logicalMap ?g ?new ++ logicalMap ?g (cur_slots c) \<and> (\<forall>s\<in>set new'. sl_generation s \<le> ?g)"
    by (rule rehash_ok [where k = k]) (use e cap prev(1) lt in \<open>auto simp: zero_slot_def\<close>)
  then obtain new' where n: "rehash ?g (cur_slots c) ?new = (None, new')" "length new' = capacity" "table_ok ?g new'"
    "live_count ?g new' = live_count ?g (cur_slots c)" "logicalMap ?g new' = logicalMap ?g (cur_slots c)"
    "\<forall>s\<in>set new'. sl_generation s \<le> ?g" using e by auto
  let ?c = "c\<lparr>bc_heap := bc_heap c @ [new'], bc_boundaries := ?i\<lparr>bi_slots := Some (length (bc_heap c))\<rparr>\<rparr>"
  have "growIndex c capacity = (None, ?c)"
    using n(1) cap(4) mx pow2_and [of k] by (simp add: growIndex_def Let_def cap(1))
  moreover have "array_ok (?i\<lparr>bi_slots := Some (length (bc_heap c))\<rparr>) new'"
    using n cap prev(2) fits unfolding array_ok_def by (auto intro!: exI [of _ k])
  then have "index_ok ?c" using inv by (simp add: index_ok_def Let_def)
  moreover have "roomy ?c" using n fits by (simp add: roomy_def)
  moreover have "abs_boundaries ?c = abs_boundaries c" using n by (simp add: abs_boundaries_def cur_slots_Some)
  moreover have "undoable c ?c" by (simp add: undoable_def)
  ultimately show ?thesis using n(2) by (intro exI [of _ ?c]) (simp add: cur_slots_Some)
qed

lemma probe_abs:
  assumes "index_ok c"
  shows "pb_key (fst (probe c key)) = key" "pb_hash (fst (probe c key)) = boundaryIdentityHash key"
    "pb_found (fst (probe c key)) \<longleftrightarrow> key \<in> dom (snd (abs_boundaries c))"
    "snd (probe c key) = (case snd (abs_boundaries c) key of None \<Rightarrow> 0 | Some v \<Rightarrow> v)"
proof -
  let ?g = "bi_generation (bc_boundaries c)"
  obtain pr old where pr: "probe c key = (pr, old)" by fastforce
  have "pb_key pr = key \<and> pb_hash pr = boundaryIdentityHash key \<and> (pb_found pr \<longleftrightarrow> key \<in> dom (logicalMap ?g (cur_slots c)))
    \<and> old = (case logicalMap ?g (cur_slots c) key of None \<Rightarrow> 0 | Some v \<Rightarrow> v)"
  proof (cases "bi_slots (bc_boundaries c)")
    case None
    then have "cur_slots c = []" by (simp add: cur_slots_def)
    then show ?thesis using pr by (auto simp: probe_def probeWithHash_def probe_slots_def logicalMap_def)
  next
    case (Some a)
    then have "array_ok (bc_boundaries c) (cur_slots c)" using assms by (simp add: index_ok_def Let_def cur_slots_Some)
    then obtain k where ok: "table_ok ?g (cur_slots c)" "length (cur_slots c) = 2 ^ k" "k \<le> 31"
      and load: "live_count ?g (cur_slots c) * 10 \<le> length (cur_slots c) * 7" by (auto simp: array_ok_def)
    have "0 < length (cur_slots c)" using ok(2) by simp
    then have room: "live_count ?g (cur_slots c) < length (cur_slots c)" using load by linarith
    have "probe_slots (cur_slots c) ?g key (boundaryIdentityHash key) = (pr, old)"
      using pr by (simp add: probe_def probeWithHash_def)
    from write_probed(2-6) [OF ok room this] show ?thesis by (auto split: option.splits)
  qed
  then show "pb_key (fst (probe c key)) = key" "pb_hash (fst (probe c key)) = boundaryIdentityHash key"
    "pb_found (fst (probe c key)) \<longleftrightarrow> key \<in> dom (snd (abs_boundaries c))"
    "snd (probe c key) = (case snd (abs_boundaries c) key of None \<Rightarrow> 0 | Some v \<Rightarrow> v)"
    using pr by (simp_all add: abs_boundaries_def)
qed

lemma open_table_ok:
  assumes inv: "index_ok c"
  shows "\<exists>c'. open_table c (fst (probe c key)) = (None, fst (probe c' key), c') \<and> index_ok c'
    \<and> cur_slots c' \<noteq> [] \<and> abs_boundaries c' = abs_boundaries c \<and> undoable c c'"
proof (cases "cur_slots c = []")
  case False
  then show ?thesis using inv by (intro exI [of _ c]) (simp add: open_table_def undoable_refl)
next
  case True
  obtain K where K: "4 \<le> K" "unat (bi_maxSlots (bc_boundaries c)) = 2 ^ K" using inv by (auto simp: index_ok_def Let_def)
  have "(16::nat) \<le> 2 ^ K" using power_increasing [OF K(1), of "2::nat"] by simp
  then obtain c' where "growIndex c 16 = (None, c')" "index_ok c'" "length (cur_slots c') = 16" "abs_boundaries c' = abs_boundaries c" "undoable c c'"
    using grow_ok [OF inv, of 16 4] K True by (auto simp: live_count_def)
  then show ?thesis
    using True probe_abs(1,2) [OF inv, of key]
    by (intro exI [of _ c']) (auto simp: open_table_def boundaryIndexInitialCapacity_def probe_def)
qed

lemma abs_card:
  assumes "index_ok c"
  shows "card (dom (snd (abs_boundaries c))) = unat (bi_count (bc_boundaries c))"
proof (cases "bi_slots (bc_boundaries c)")
  case None
  then show ?thesis using assms by (simp add: index_ok_def Let_def abs_boundaries_def cur_slots_def logicalMap_def)
next
  case (Some a)
  then show ?thesis
    using assms live_count_dom by (auto simp: index_ok_def Let_def abs_boundaries_def cur_slots_def array_ok_def)
qed

lemma make_room_ok:
  assumes inv: "index_ok c" and ne: "cur_slots c \<noteq> []" and key: "pr = fst (probe c key)"
  defines "full \<equiv> key \<notin> dom (snd (abs_boundaries c)) \<and> Suc (card (dom (snd (abs_boundaries c)))) > index_capacity c"
  shows "if full then make_room c pr = (Some IndexCapacity, pr, c)
    else \<exists>c'. make_room c pr = (None, fst (probe c' key), c') \<and> index_ok c' \<and> cur_slots c' \<noteq> []
      \<and> (key \<notin> dom (snd (abs_boundaries c)) \<longrightarrow> roomy c') \<and> abs_boundaries c' = abs_boundaries c \<and> undoable c c'"
proof -
  let ?i = "bc_boundaries c" and ?n = "length (cur_slots c)" and ?m = "snd (abs_boundaries c)"
  let ?lc = "live_count (bi_generation ?i) (cur_slots c)"
  obtain a where a: "bi_slots ?i = Some a" "a < length (bc_heap c)" "array_ok ?i (cur_slots c)"
    using inv ne by (auto simp: index_ok_def Let_def cur_slots_def split: option.splits)
  obtain K where K: "K \<le> 31" "unat (bi_maxSlots ?i) = 2 ^ K" using inv by (auto simp: index_ok_def Let_def)
  obtain k where k: "4 \<le> k" "k \<le> 31" "?n = 2 ^ k" "?n \<le> unat (bi_maxSlots ?i)" "unat (bi_count ?i) = ?lc" "?lc * 10 \<le> ?n * 7"
    using a(3) by (auto simp: array_ok_def)
  have n: "16 \<le> ?n" using power_increasing [OF k(1), of "2::nat"] k(3) by simp
  have "(2::nat) ^ k \<le> 2 ^ 31" by (rule power_increasing) (use k in auto)
  then have "unat (bi_count ?i) + 1 < 2 ^ 32" using k(3,5,6) by simp
  then have cnt: "unat (bi_count ?i + 1) = Suc ?lc" using k(5) by (simp add: unat_word_ariths)
  have card: "card (dom ?m) = ?lc" using abs_card [OF inv] k(5) by simp
  have found: "pb_found pr \<longleftrightarrow> key \<in> dom ?m" "pb_key pr = key" "pb_hash pr = boundaryIdentityHash key"
    using probe_abs [OF inv, of key] key by auto
  show ?thesis
  proof (cases "\<not> pb_found pr \<and> Suc ?lc * 10 > ?n * 7")
    case False
    then have "\<not> full" using found(1) card k(4) by (auto simp: full_def index_capacity_def)
    moreover have "make_room c pr = (None, pr, c)"
      using False cnt by (auto simp: make_room_def Let_def boundaryIndexLoadDenominator_def boundaryIndexLoadNumerator_def)
    moreover have "key \<notin> dom ?m \<longrightarrow> roomy c" using False found(1) a by (auto simp: roomy_def cur_slots_Some)
    ultimately show ?thesis using inv ne key by (auto simp: undoable_refl)
  next
    case grow: True
    show ?thesis
    proof (cases "?n = unat (bi_maxSlots ?i)")
      case True
      then have full using grow found(1) card by (auto simp: full_def index_capacity_def)
      moreover have "make_room c pr = (Some IndexCapacity, pr, c)"
        using grow True cnt by (auto simp: make_room_def Let_def boundaryIndexLoadDenominator_def boundaryIndexLoadNumerator_def)
      ultimately show ?thesis by simp
    next
      case False
      then have lt: "(2::nat) ^ k < 2 ^ K" using k(3,4) K(2) by linarith
      then have "Suc k \<le> K" by simp
      then have cap: "?n * 2 = 2 ^ Suc k" "Suc k \<le> 31" "?n * 2 \<le> unat (bi_maxSlots ?i)"
        using k(3) K power_increasing [of "Suc k" K "2::nat"] by auto
      have "Suc ?lc * 10 \<le> ?n * 2 * 7" using k(6) n by simp
      from grow_ok [OF inv cap(1) _ cap(2,3) this] obtain c' where
        c': "growIndex c (?n * 2) = (None, c')" "index_ok c'" "roomy c'" "length (cur_slots c') = ?n * 2"
          "abs_boundaries c' = abs_boundaries c" "undoable c c'" using k(1) by auto
      have "\<not> Suc ?lc > index_capacity c" using cap(3) \<open>Suc ?lc * 10 \<le> ?n * 2 * 7\<close> by (simp add: index_capacity_def)
      then have "\<not> full" using card by (simp add: full_def)
      moreover have "make_room c pr = (None, fst (probe c' key), c')"
        using grow False k(4) cnt c'(1) found(2,3)
        by (auto simp: make_room_def Let_def boundaryIndexLoadDenominator_def boundaryIndexLoadNumerator_def probe_def)
      moreover have "cur_slots c' \<noteq> []" using c'(4) n by auto
      ultimately show ?thesis using c' by auto
    qed
  qed
qed

lemma write_slot_ok:
  fixes ident :: u32
  assumes inv: "index_ok c" and ne: "cur_slots c \<noteq> []" and room: "key \<notin> dom (snd (abs_boundaries c)) \<longrightarrow> roomy c"
  defines "c' \<equiv> write_slot c (fst (probe c key)) ident"
  shows "index_ok c'" "abs_boundaries c' = (fst (abs_boundaries c), (snd (abs_boundaries c))(key \<mapsto> ident))" "undoable c c'"
proof -
  let ?i = "bc_boundaries c" and ?g = "bi_generation (bc_boundaries c)"
  obtain a where a: "bi_slots ?i = Some a" "a < length (bc_heap c)" "array_ok ?i (bc_heap c ! a)"
    using inv ne by (auto simp: index_ok_def Let_def cur_slots_def split: option.splits)
  let ?s = "bc_heap c ! a"
  have cur: "cur_slots c = ?s" using a(1) by (rule cur_slots_Some)
  obtain k where k: "k \<le> 31" "length ?s = 2 ^ k" "table_ok ?g ?s" "live_count ?g ?s * 10 \<le> length ?s * 7"
    using a(3) by (auto simp: array_ok_def)
  have "0 < length ?s" using k(2) by simp
  then have lt: "live_count ?g ?s < length ?s" using k(4) by linarith
  obtain pr old where pr: "probe_slots ?s ?g key (boundaryIdentityHash key) = (pr, old)" by fastforce
  have fst: "fst (probe c key) = pr" using pr cur by (simp add: probe_def probeWithHash_def)
  note w = write_probed [OF k(3,2,1) lt pr]
  let ?slot = "\<lparr>sl_key = key, sl_id = ident, sl_generation = ?g\<rparr>"
  let ?new = "?s[pb_slot pr := ?slot]"
  have c': "bi_slots (bc_boundaries c') = Some a" "bc_heap c' = (bc_heap c)[a := ?new]"
      "bi_generation (bc_boundaries c') = ?g" "bi_maxSlots (bc_boundaries c') = bi_maxSlots ?i" "bc_frontier c' = bc_frontier c"
      "bi_count (bc_boundaries c') = (if pb_found pr then bi_count ?i else bi_count ?i + 1)" "bc_transactions c' = bc_transactions c"
      "bc_boundaryJournal c' = (if bc_transactions c \<noteq> []
         then bc_boundaryJournal c @ [\<lparr>mu_slots = a, mu_index = pb_slot pr, mu_previous = ?s ! pb_slot pr\<rparr>] else bc_boundaryJournal c)"
    using a(1) w(2) unfolding c'_def fst write_slot_def by (auto simp: Let_def)
  have cur': "cur_slots c' = ?new" using c'(1,2) a(2) by (simp add: cur_slots_Some)
  have full: "\<not> pb_found pr \<Longrightarrow> Suc (live_count ?g ?s) * 10 \<le> length ?s * 7"
    using room w(4) a(1) cur by (auto simp: abs_boundaries_def roomy_def)
  have load: "live_count ?g ?new * 10 \<le> length ?new * 7" using full k(4) w(9) by (cases "pb_found pr") simp_all
  have "(2::nat) ^ k \<le> 2 ^ 31" by (rule power_increasing) (use k in auto)
  then have small: "live_count ?g ?s + 1 < 2 ^ 32" using lt k(2) by simp
  have cnt: "unat (bi_count (bc_boundaries c')) = live_count ?g ?new"
    using a(3) w(9) small unfolding c'(6) by (simp add: array_ok_def unat_word_ariths)
  have "array_ok (bc_boundaries c') ?new"
    using a(3) w(7) load cnt set_update_subset_insert [of ?s "pb_slot pr" ?slot] unfolding array_ok_def c'(3,4) by auto
  then show "index_ok c'" using inv a(2) c' by (simp add: index_ok_def Let_def)
  show "abs_boundaries c' = (fst (abs_boundaries c), (snd (abs_boundaries c))(key \<mapsto> ident))"
    using w(8) cur cur' c' by (simp add: abs_boundaries_def)
  show "undoable c c'" using c' a(2) by (auto simp: undoable_def undo_def undo_slot_def)
qed

lemma writeBoundary_ok:
  assumes inv: "index_ok c"
  shows "\<exists>c'. writeBoundary c key ident = (fst (spec_write (index_capacity c) key ident (abs_boundaries c)), c')
    \<and> index_ok c' \<and> abs_boundaries c' = snd (spec_write (index_capacity c) key ident (abs_boundaries c)) \<and> undoable c c'"
proof (cases "bk_frontier key \<noteq> bc_frontier c \<or> ident = 0")
  case True
  then show ?thesis using inv
    by (auto simp: writeBoundary_def publish_def spec_write_def abs_boundaries_def undoable_refl Let_def intro!: exI [of _ c])
next
  case False
  let ?k = "boundaryIdentityFromKey key"
  obtain c1 where c1: "open_table c (fst (probe c ?k)) = (None, fst (probe c1 ?k), c1)" "index_ok c1" "cur_slots c1 \<noteq> []"
      "abs_boundaries c1 = abs_boundaries c" "undoable c c1" using open_table_ok [OF inv] by blast
  have cap: "index_capacity c1 = index_capacity c" using c1(5) by (simp add: undoable_def index_capacity_def)
  note room = make_room_ok [OF c1(2,3) refl, of ?k, unfolded c1(4) cap]
  show ?thesis
  proof (cases "?k \<notin> dom (snd (abs_boundaries c)) \<and> Suc (card (dom (snd (abs_boundaries c)))) > index_capacity c")
    case True
    then have "writeBoundary c key ident = (Some IndexCapacity, c1)" using room c1(1) False by (simp add: writeBoundary_def publish_def)
    then show ?thesis using True False c1 by (auto simp: spec_write_def abs_boundaries_def Let_def)
  next
    case fits: False
    obtain c2 where c2: "make_room c1 (fst (probe c1 ?k)) = (None, fst (probe c2 ?k), c2)" "index_ok c2" "cur_slots c2 \<noteq> []"
        "?k \<notin> dom (snd (abs_boundaries c)) \<longrightarrow> roomy c2" "abs_boundaries c2 = abs_boundaries c" "undoable c1 c2"
      using room unfolding if_not_P [OF fits] by blast
    note w = write_slot_ok [OF c2(2,3), of ?k ident, unfolded c2(5), OF c2(4)]
    have "writeBoundary c key ident = (None, write_slot c2 (fst (probe c2 ?k)) ident)"
      using c1(1) c2(1) False by (simp add: writeBoundary_def publish_def)
    moreover have "undoable c (write_slot c2 (fst (probe c2 ?k)) ident)"
      using undoable_trans [OF undoable_trans [OF c1(5) c2(6)] w(3)] .
    moreover have "spec_write (index_capacity c) key ident (abs_boundaries c) =
        (None, fst (abs_boundaries c), (snd (abs_boundaries c))(?k \<mapsto> ident))"
      using fits False by (auto simp: spec_write_def abs_boundaries_def Let_def)
    ultimately show ?thesis using w(1,2) by simp
  qed
qed

section \<open>Generations\<close>

lemma unat_step: "unat (g + 1) = unat g + 1" if "g \<noteq> - 1" for g :: u32
proof -
  have "unat g \<noteq> 4294967295"
  proof
    assume "unat g = 4294967295"
    then have "of_nat (unat g) = (- 1 :: u32)" by simp
    then show False using that by simp
  qed
  then have "unat g + 1 < 4294967296" using unat_u32_less [of g] by linarith
  then show ?thesis by (simp add: unat_word_ariths)
qed

lemma array_ok_emptied:
  assumes "\<exists>k. 4 \<le> k \<and> k \<le> 31 \<and> length slots = 2 ^ k" "length slots \<le> unat (bi_maxSlots i)" "bi_count i = 0"
    and "\<forall>s\<in>set slots. sl_generation s < bi_generation i"
  shows "array_ok i slots \<and> logicalMap (bi_generation i) slots = Map.empty"
  using assms table_ok_empty [of slots "bi_generation i"] by (fastforce simp: array_ok_def)

lemma advanceGeneration_ok:
  assumes inv: "index_ok c" and calm: "bc_transactions c = [] \<or> bi_generation (bc_boundaries c) \<noteq> - 1"
  shows "index_ok (advanceGeneration c)" "abs_boundaries (advanceGeneration c) = (bc_frontier c, Map.empty)"
    "undoable c (advanceGeneration c)"
proof -
  let ?i = "bc_boundaries c" and ?d = "advanceGeneration c"
  let ?j = "bc_boundaries ?d"
  have g: "bi_generation ?i \<noteq> 0" using inv by (simp add: index_ok_def Let_def)
  have slots: "bi_slots ?j = bi_slots ?i" "bi_maxSlots ?j = bi_maxSlots ?i" "bi_count ?j = 0" "bc_frontier ?d = bc_frontier c"
    "bc_transactions ?d = bc_transactions c" "bc_boundaryJournal ?d = bc_boundaryJournal c" "length (bc_heap ?d) = length (bc_heap c)"
    by (auto simp: advanceGeneration_def Let_def split: option.splits)
  have gen: "bi_generation ?j = (if bi_generation ?i = - 1 then 1 else bi_generation ?i + 1)"
    by (simp add: advanceGeneration_def Let_def)
  have heap: "bi_generation ?i \<noteq> - 1 \<Longrightarrow> bc_heap ?d = bc_heap c" by (simp add: advanceGeneration_def Let_def)
  have up: "x < bi_generation ?i + 1" if "x \<le> bi_generation ?i" "bi_generation ?i \<noteq> - 1" for x
    using that by (auto simp: word_le_nat_alt word_less_nat_alt unat_step)
  have nz: "bi_generation ?j \<noteq> 0"
    using gen g by (auto simp: add_eq_0_iff2)
  show "undoable c ?d" using calm heap slots unfolding undoable_def by auto
  have "(case bi_slots ?j of None \<Rightarrow> True | Some a \<Rightarrow> array_ok ?j (bc_heap ?d ! a) \<and> logicalMap (bi_generation ?j) (bc_heap ?d ! a) = Map.empty)"
  proof (cases "bi_slots ?i")
    case None
    then show ?thesis using slots(1) by simp
  next
    case (Some a)
    then have a: "a < length (bc_heap c)" "array_ok ?i (bc_heap c ! a)" using inv by (simp_all add: index_ok_def Let_def)
    have len: "length (bc_heap ?d ! a) = length (bc_heap c ! a)" using Some a(1) by (simp add: advanceGeneration_def Let_def)
    have "sl_generation s < bi_generation ?j" if "s \<in> set (bc_heap ?d ! a)" for s
    proof (cases "bi_generation ?i = - 1")
      case True
      then show ?thesis using that Some a(1) gen by (simp add: advanceGeneration_def Let_def zero_slot_def)
    next
      case False
      then show ?thesis using that heap gen a(2) up by (simp add: array_ok_def)
    qed
    then have "array_ok ?j (bc_heap ?d ! a) \<and> logicalMap (bi_generation ?j) (bc_heap ?d ! a) = Map.empty"
      using a(2) slots by (intro array_ok_emptied) (auto simp: array_ok_def len)
    then show ?thesis using Some slots(1) by simp
  qed
  then show "index_ok ?d" "abs_boundaries ?d = (bc_frontier c, Map.empty)"
    using inv nz slots by (auto simp: index_ok_def Let_def abs_boundaries_def cur_slots_def logicalMap_def split: option.splits)
qed

section \<open>Runs\<close>

text \<open>Outside transactions the journal is empty.\<close>

definition quiet :: "boundaryCore \<Rightarrow> bool" where
  "quiet c \<longleftrightarrow> (bc_transactions c = [] \<longrightarrow> bc_boundaryJournal c = [])"

definition simulates :: "boundaryError option list \<times> boundaryCore \<Rightarrow> boundaryCore \<Rightarrow> boundaryError option list \<times> boundaryState \<Rightarrow> bool" where
  "simulates r c a \<longleftrightarrow> fst r = fst a \<and> index_ok (snd r) \<and> abs_boundaries (snd r) = snd a \<and> undoable c (snd r) \<and> quiet (snd r)"

lemma undoable_quiet: "undoable c c' \<Longrightarrow> quiet c \<Longrightarrow> quiet c'"
  by (auto simp: undoable_def quiet_def)

lemma atomic_simulates:
  assumes inv: "index_ok c" and q: "quiet c" and m: "markInto c = Inr (m, c1)"
    and body: "simulates (run body c1) c1 (spec_run (index_capacity c) True body (abs_boundaries c))"
  shows "simulates (run_cmd (Atomic body ok) c) c (spec_cmd (index_capacity c) nested (Atomic body ok) (abs_boundaries c))"
proof -
  obtain outs c2 where r: "run body c1 = (outs, c2)" by fastforce
  have mk: "m = \<lparr>mk_transaction = bc_nextTransaction c + 1, mk_journal = length (bc_boundaryJournal c),
      mk_boundaryIndex = snapshot (bc_boundaries c), mk_frontier = bc_frontier c\<rparr>"
    "c1 = c\<lparr>bc_nextTransaction := bc_nextTransaction c + 1, bc_transactions := bc_transactions c @ [bc_nextTransaction c + 1]\<rparr>"
    using m by (auto simp: markInto_def Let_def split: if_splits)
  have b: "index_ok c2" "undoable c1 c2" using body r by (auto simp: simulates_def)
  have order: "\<not> out_of_order c2 m" using b(2) mk by (simp add: undoable_def out_of_order_def)
  obtain js where js: "bc_boundaryJournal c2 = bc_boundaryJournal c @ js" "take (length (bc_heap c)) (undo js (bc_heap c2)) = bc_heap c"
    "length (bc_heap c) \<le> length (bc_heap c2)" "bc_transactions c2 = bc_transactions c @ [bc_nextTransaction c + 1]"
    "bi_maxSlots (bc_boundaries c2) = bi_maxSlots (bc_boundaries c)" using b(2) mk by (auto simp: undoable_def)
  show ?thesis
  proof (cases ok)
    case True
    have run: "run_cmd (Atomic body ok) c = (outs @ [None], finishTransaction c2)"
      using True m r order by (simp add: completeTransaction_def commit_def)
    have f: "index_ok (finishTransaction c2)" "abs_boundaries (finishTransaction c2) = abs_boundaries c2"
      using b(1) same_tables [of "finishTransaction c2" c2] by (simp_all add: finishTransaction_def Let_def abs_boundaries_def)
    have "undoable c (finishTransaction c2)" "quiet (finishTransaction c2)"
      using js q by (auto simp: undoable_def finishTransaction_def Let_def quiet_def)
    then show ?thesis using run f body r True by (auto simp: simulates_def split: prod.splits)
  next
    case False
    let ?c = "finishTransaction (c2\<lparr>bc_frontier := bc_frontier c, bc_heap := undo js (bc_heap c2),
        bc_boundaries := bc_boundaries c, bc_boundaryJournal := bc_boundaryJournal c\<rparr>)"
    have "restore_index (bc_boundaries c2) (snapshot (bc_boundaries c)) = bc_boundaries c"
      using js(5) by (simp add: restore_index_def snapshot_def)
    then have run: "run_cmd (Atomic body ok) c = (outs @ [Some OperationFailed], ?c)"
      using False m r order js(1) mk(1) by (simp add: completeTransaction_def restoreCheckpoint_def)
    have nth: "undo js (bc_heap c2) ! a = bc_heap c ! a" if "a < length (bc_heap c)" for a
      using js(2) that by (metis nth_take)
    have "index_ok ?c" "abs_boundaries ?c = abs_boundaries c"
      using inv js(3) nth
      by (auto simp: index_ok_def finishTransaction_def Let_def abs_boundaries_def cur_slots_def split: option.splits)
    moreover have "undoable c ?c" "quiet ?c" using js q by (auto simp: undoable_def finishTransaction_def Let_def quiet_def)
    ultimately show ?thesis using run body r False by (auto simp: simulates_def split: prod.splits)
  qed
qed

lemma run_simulates:
  shows "index_ok c \<Longrightarrow> quiet c \<Longrightarrow> calm_cmd x c \<Longrightarrow>
      simulates (run_cmd x c) c (spec_cmd (index_capacity c) (bc_transactions c \<noteq> []) x (abs_boundaries c))"
    and "index_ok c \<Longrightarrow> quiet c \<Longrightarrow> calm xs c \<Longrightarrow>
      simulates (run xs c) c (spec_run (index_capacity c) (bc_transactions c \<noteq> []) xs (abs_boundaries c))"
proof (induction x c and xs c rule: run_cmd_run.induct)
  case (1 key ident c)
  obtain c' where "writeBoundary c key ident = (fst (spec_write (index_capacity c) key ident (abs_boundaries c)), c')" "index_ok c'"
    "abs_boundaries c' = snd (spec_write (index_capacity c) key ident (abs_boundaries c))" "undoable c c'"
    using writeBoundary_ok [OF 1(1)] by blast
  then show ?case using undoable_quiet [OF _ 1(2)] by (simp add: simulates_def split: prod.splits)
next
  case (2 c)
  have fr: "fst (abs_boundaries c) = bc_frontier c" by (simp add: abs_boundaries_def)
  show ?case
  proof (cases "bc_transactions c = [] \<and> bc_frontier c \<noteq> - 1")
    case False
    then show ?thesis using 2 fr by (auto simp: BeginFrontier_def simulates_def undoable_refl)
  next
    case True
    note adv = advanceGeneration_ok [OF 2(1) disjI1 [OF conjunct1 [OF True]]]
    have "index_ok ((advanceGeneration c)\<lparr>bc_frontier := bc_frontier c + 1\<rparr>)"
      "undoable c ((advanceGeneration c)\<lparr>bc_frontier := bc_frontier c + 1\<rparr>)"
      using adv(1,3) same_tables [of "(advanceGeneration c)\<lparr>bc_frontier := bc_frontier c + 1\<rparr>" "advanceGeneration c"]
      by (simp_all add: undoable_def)
    moreover have "abs_boundaries ((advanceGeneration c)\<lparr>bc_frontier := bc_frontier c + 1\<rparr>) = (bc_frontier c + 1, Map.empty)"
      using adv(2) same_tables(2) [of "(advanceGeneration c)\<lparr>bc_frontier := bc_frontier c + 1\<rparr>" "advanceGeneration c"]
      by (simp add: abs_boundaries_def)
    ultimately show ?thesis using True fr undoable_quiet [OF _ 2(2)] by (simp add: BeginFrontier_def simulates_def)
  qed
next
  case (3 c)
  have "bc_transactions c = [] \<or> bi_generation (bc_boundaries c) \<noteq> - 1" using 3(3) by simp
  from advanceGeneration_ok [OF 3(1) this] show ?case
    using undoable_quiet [OF _ 3(2)] by (simp add: simulates_def abs_boundaries_def)
next
  case (4 body ok c)
  obtain m c1 where m: "markInto c = Inr (m, c1)" and cl: "calm body c1" using 4(4) by (auto split: sum.splits)
  have c1: "index_ok c1" "quiet c1" "index_capacity c1 = index_capacity c" "abs_boundaries c1 = abs_boundaries c" "bc_transactions c1 \<noteq> []"
    using 4(2) m same_tables [of c1 c] by (auto simp: markInto_def Let_def quiet_def index_capacity_def abs_boundaries_def split: if_splits)
  have "simulates (run body c1) c1 (spec_run (index_capacity c) True body (abs_boundaries c))"
    using 4(1) [OF m refl c1(1,2) cl] c1(3-5) by simp
  then show ?case by (rule atomic_simulates [OF 4(2,3) m])
next
  case (5 c)
  then show ?case by (simp add: simulates_def undoable_refl)
next
  case (6 x xs c)
  obtain outs c1 where r: "run_cmd x c = (outs, c1)" by fastforce
  have s: "simulates (outs, c1) c (spec_cmd (index_capacity c) (bc_transactions c \<noteq> []) x (abs_boundaries c))"
    using 6(1) [OF 6(3,4)] 6(5) r by simp
  have c1: "index_ok c1" "quiet c1" "index_capacity c1 = index_capacity c" "bc_transactions c1 = bc_transactions c" "undoable c c1"
    using s by (auto simp: simulates_def undoable_def index_capacity_def)
  have "simulates (run xs c1) c1 (spec_run (index_capacity c) (bc_transactions c \<noteq> []) xs (abs_boundaries c1))"
    using 6(2) [OF r [symmetric] c1(1,2)] 6(5) r c1(3,4) by simp
  then show ?case using s r undoable_trans [OF c1(5)] by (auto simp: simulates_def split: prod.splits)
qed

section \<open>The index as a map with transactions\<close>

lemma bit_len_bound: "n < 2 ^ bit_len n"
proof (induction n rule: bit_len.induct)
  case (1 n)
  show ?case
  proof (cases "n = 0")
    case True
    then show ?thesis by simp
  next
    case False
    then have "n div 2 < 2 ^ bit_len (n div 2)" using 1 by blast
    then show ?thesis using False by (subst bit_len.simps) simp
  qed
qed

lemma newBoundaryIndex_ok:
  assumes "newBoundaryIndex n = Inr i"
  shows "index_ok (newBoundaryCore i)" "unat n \<le> index_capacity (newBoundaryCore i)" "abs_boundaries (newBoundaryCore i) = (1, Map.empty)"
proof -
  let ?r = "(6 + unat n * 10) div 7"
  let ?q = "max ?r 16"
  let ?m = "2 ^ bit_len (?q - 1) :: nat"
  have i: "i = \<lparr>bi_slots = None, bi_generation = 1, bi_count = 0, bi_maxSlots = of_nat ?m\<rparr>" "?m \<le> 4294967295"
    using assms by (auto simp: newBoundaryIndex_def Let_def boundaryIndexLoadDenominator_def boundaryIndexLoadNumerator_def
        boundaryIndexInitialCapacity_def split: if_splits)
  have "?m < 4294967296" using i(2) by linarith
  then have "unat (of_nat ?m :: u32) = ?m" by (rule unat_u32_of_nat)
  then have mx: "unat (bi_maxSlots i) = ?m" using i(1) by (simp only: boundaryIndex.simps)
  have q: "?q - 1 < ?m" by (rule bit_len_bound)
  have "bit_len (?q - 1) \<le> 31"
  proof (rule ccontr)
    assume "\<not> ?thesis"
    then have "(2::nat) ^ 32 \<le> ?m" by (intro power_increasing) auto
    then show False using i(2) by simp
  qed
  moreover have "4 \<le> bit_len (?q - 1)"
  proof (rule ccontr)
    assume "\<not> ?thesis"
    then have "?m \<le> 2 ^ 3" by (intro power_increasing) auto
    then show False using q by simp
  qed
  ultimately show "index_ok (newBoundaryCore i)" unfolding index_ok_def newBoundaryCore_def using mx i(1) by (auto simp: Let_def)
  have "unat n * 10 \<le> ?r * 7" by linarith
  also have "?q \<le> ?m" using q by linarith
  then have "?r * 7 \<le> ?m * 7" by simp
  finally show "unat n \<le> index_capacity (newBoundaryCore i)" unfolding index_capacity_def newBoundaryCore_def
    using mx by (simp add: less_eq_div_iff_mult_less_eq)
  show "abs_boundaries (newBoundaryCore i) = (1, Map.empty)"
    using i(1) by (simp add: abs_boundaries_def newBoundaryCore_def cur_slots_def logicalMap_def)
qed

lemma get_abs:
  assumes "index_ok c"
  shows "get_boundary c key = (case snd (abs_boundaries c) (boundaryIdentityFromKey key) of None \<Rightarrow> (0, False) | Some v \<Rightarrow> (v, True))"
  using probe_abs(3,4) [OF assms, of "boundaryIdentityFromKey key"]
  by (auto simp: get_boundary_def split: prod.splits option.splits)

text \<open>
  C3. The boundary index is a map with transactions. Take any program of writes, frontier starts,
  reindexings and atomic operations, nested and aborted at will, from a new index for \<open>n\<close> entries, in
  which the transaction counter does not overflow and the generation does not wrap inside a
  transaction. Every call then returns the error or success the specification gives, where an aborted
  operation leaves no trace, every lookup finds exactly the node the specification's map holds, and the
  capacity error never comes before the \<open>n\<close>th key.
\<close>

theorem boundary_transactions:
  assumes "newBoundaryIndex n = Inr i" "calm program (newBoundaryCore i)"
  defines "r \<equiv> run program (newBoundaryCore i)"
    and "a \<equiv> spec_run (index_capacity (newBoundaryCore i)) False program (1, Map.empty)"
  shows "fst r = fst a \<and> bc_frontier (snd r) = fst (snd a) \<and> unat n \<le> index_capacity (newBoundaryCore i)
    \<and> (\<forall>key. get_boundary (snd r) key =
        (case snd (snd a) (boundaryIdentityFromKey key) of None \<Rightarrow> (0, False) | Some v \<Rightarrow> (v, True)))"
proof -
  have q: "quiet (newBoundaryCore i)" "bc_transactions (newBoundaryCore i) = []" by (simp_all add: quiet_def newBoundaryCore_def)
  note new = newBoundaryIndex_ok [OF assms(1)]
  have "simulates r (newBoundaryCore i) a"
    using run_simulates(2) [OF new(1) q(1) assms(2)] new(3) q(2) by (simp add: r_def a_def)
  then have "fst r = fst a" "index_ok (snd r)" "abs_boundaries (snd r) = snd a" by (auto simp: simulates_def)
  moreover have "fst (abs_boundaries (snd r)) = bc_frontier (snd r)" by (simp add: abs_boundaries_def)
  ultimately show ?thesis using new(2) get_abs [of "snd r"] by simp
qed

definition demo_key :: "u32 \<Rightarrow> boundaryKey" where
  "demo_key state = \<lparr>bk_frontier = 1, bk_state = state, bk_byteOffset = 7, bk_checkpoint = 0, bk_shifted = False\<rparr>"

definition demo_program :: "command list" where
  "demo_program =
     [Write (demo_key 3) 5,
      Atomic [Write (demo_key 4) 6, Atomic [Reindex, Write (demo_key 3) 9] False, Write (demo_key 3) 8, Begin] True]"

theorem boundary_transactions_witness:
  "\<exists>i. newBoundaryIndex 40 = Inr i \<and> calm demo_program (newBoundaryCore i)
     \<and> (let r = run demo_program (newBoundaryCore i) in
        get_boundary (snd r) (demo_key 3) = (8, True) \<and> get_boundary (snd r) (demo_key 4) = (6, True)
        \<and> get_boundary (snd r) (demo_key 0) = (0, False) \<and> fst r = [None, None, None, None, Some OperationFailed, None, Some FrontierInTransaction, None])"
proof -
  let ?i = "\<lparr>bi_slots = None, bi_generation = 1, bi_count = 0, bi_maxSlots = 64\<rparr>"
  have "bit_len 57 = 6" by (simp add: bit_len.simps)
  then have n: "newBoundaryIndex 40 = Inr ?i"
    by (simp add: newBoundaryIndex_def Let_def boundaryIndexLoadDenominator_def boundaryIndexLoadNumerator_def boundaryIndexInitialCapacity_def)
  have c: "calm demo_program (newBoundaryCore ?i)" by code_simp
  have cap: "index_capacity (newBoundaryCore ?i) = 44" by (simp add: index_capacity_def newBoundaryCore_def)
  let ?k = "\<lambda>s. boundaryIdentityFromKey (demo_key s)"
  have k: "?k 3 \<noteq> ?k 4" "?k 0 \<noteq> ?k 3" "?k 0 \<noteq> ?k 4" by (simp_all add: boundaryIdentityFromKey_def demo_key_def)
  have "bk_frontier (demo_key s) = 1" for s by (simp add: demo_key_def)
  then have "spec_run 44 False demo_program (1, Map.empty) =
      ([None, None, None, None, Some OperationFailed, None, Some FrontierInTransaction, None], 1, [?k 3 \<mapsto> 8, ?k 4 \<mapsto> 6])"
    using k by (auto simp: demo_program_def spec_write_def Let_def)
  with boundary_transactions [OF n c] show ?thesis using n c k unfolding cap by (intro exI [of _ ?i]) (simp add: Let_def)
qed

text \<open>
  The condition on the generation is needed: \<^verbatim>\<open>advanceGeneration\<close> clears the slots of the array when the
  generation wraps, the clearing is not journaled, and a rollback restores the generation but not the
  slots. A reindexing at the last generation inside an operation that is rolled back loses the map.
\<close>

lemma wrapped_generation_lost:
  assumes inv: "index_ok c" and gen: "bi_generation (bc_boundaries c) = - 1" and t: "bc_nextTransaction c \<noteq> - 1"
  shows "snd (abs_boundaries (snd (run_cmd (Atomic [Reindex] False) c))) = Map.empty"
proof -
  let ?c = "snd (run_cmd (Atomic [Reindex] False) c)"
  have slots: "cur_slots ?c = replicate (length (cur_slots c)) zero_slot" "bi_generation (bc_boundaries ?c) = - 1"
    using inv gen t
    by (auto simp: markInto_def Let_def completeTransaction_def restoreCheckpoint_def out_of_order_def finishTransaction_def
        advanceGeneration_def snapshot_def restore_index_def cur_slots_def index_ok_def split: option.splits)
  then show ?thesis using table_ok_empty [of "replicate (length (cur_slots c)) zero_slot" "- 1"] by (simp add: abs_boundaries_def zero_slot_def)
qed

end
