(* ===== verification/Graph_Builders.thy ===== *)
theory Graph_Builders
  imports Compact_Derivations Boundary_Index
begin

text \<open>
  The publication of nodes, links and subtrees in the compact graph, \<^verbatim>\<open>core.go\<close> and
  \<^verbatim>\<open>link_provenance.go\<close> under \<^verbatim>\<open>internal/runtime/internal/parsercorephase0\<close>: seeds, single-link nodes,
  nodes with a rebuilt adjacency, and the precedence maximum and path count each of them stores.

  The lemmas show that every graph these operations build is well formed, so that the enumeration of
  reduction windows applies to it, that the stored path counts are the saturated numbers of paths to a
  seed, and that the enumeration of derivations returns exactly these paths. An operation that fails
  part way leaves its links behind, as in the code, where the surrounding transaction removes them;
  the lemmas hold for these states too. The proof flag of reused subtrees, which publication may clear,
  and work counters are not modelled.
\<close>

section \<open>Operations that may fail part way\<close>

type_synonym 'a build = "core \<Rightarrow> 'a result \<times> core"

definition bindB :: "'a build \<Rightarrow> ('a \<Rightarrow> 'b build) \<Rightarrow> 'b build" where
  "bindB m f c = (case m c of (Inl e, c) \<Rightarrow> (Inl e, c) | (Inr x, c) \<Rightarrow> f x c)"

definition askB :: "(core \<Rightarrow> 'a result) \<Rightarrow> 'a build" where
  "askB f c = (f c, c)"

section \<open>Precedence maxima\<close>

record precedenceWitness =
  pw_seed :: int
  pw_hasSeed :: bool
  pw_discarded :: linkRecord
  pw_hasDiscarded :: bool
  pw_replacement :: linkRecord
  pw_hasReplacement :: bool
  pw_postReplacement :: linkRecord
  pw_hasPostReplacement :: bool

definition zero_link :: linkRecord where
  "zero_link = \<lparr>lr_scoreDelta = 0, lr_order = 0, lr_prev = 0, lr_payload = 0, lr_next = 0, lr_flags = 0\<rparr>"

definition no_witness :: precedenceWitness where
  "no_witness = \<lparr>pw_seed = 0, pw_hasSeed = False, pw_discarded = zero_link, pw_hasDiscarded = False,
     pw_replacement = zero_link, pw_hasReplacement = False, pw_postReplacement = zero_link, pw_hasPostReplacement = False\<rparr>"

definition nodePrecedenceMaximum :: "core \<Rightarrow> u32 \<Rightarrow> int result" where
  "nodePrecedenceMaximum c ident = bindR (core_node c ident) (\<lambda>n. Inr (nr_precedenceMax n))"

definition effectivePayloadPrecedence :: "core \<Rightarrow> u32 \<Rightarrow> int \<Rightarrow> int result" where
  "effectivePayloadPrecedence c payload aggregate =
     bindR (subtree_of c payload) (\<lambda>r.
       if sr_childCount r = 0 \<and> sr_externalProvenanceState r \<noteq> ReusedOpaque then Inr 0 else Inr aggregate)"

definition addPrecedence :: "int \<Rightarrow> int \<Rightarrow> int result" where
  "addPrecedence a b = (case checkedAddScore a b of Inl e \<Rightarrow> Inl PrecedenceOverflow | Inr v \<Rightarrow> Inr v)"

definition linkPrecedenceMaximum :: "core \<Rightarrow> linkRecord \<Rightarrow> int result" where
  "linkPrecedenceMaximum c link =
     bindR (validateShape link) (\<lambda>_.
     bindR (nodePrecedenceMaximum c (lr_prev link)) (\<lambda>predecessor.
       if isRecoveryDiscontinuity link then Inr predecessor
       else bindR (effectivePayloadPrecedence c (lr_payload link) (lr_scoreDelta link)) (\<lambda>contribution.
         addPrecedence predecessor contribution)))"

definition observePostReplacementLink :: "core \<Rightarrow> linkRecord \<Rightarrow> precedenceWitness \<Rightarrow> precedenceWitness result" where
  "observePostReplacementLink c link w =
     bindR (linkPrecedenceMaximum c link) (\<lambda>candidate.
       if \<not> pw_hasPostReplacement w then Inr (w\<lparr>pw_postReplacement := link, pw_hasPostReplacement := True\<rparr>)
       else bindR (linkPrecedenceMaximum c (pw_postReplacement w)) (\<lambda>previous.
         Inr (if candidate > previous then w\<lparr>pw_postReplacement := link\<rparr> else w)))"

definition observeDiscardedLink :: "core \<Rightarrow> linkRecord \<Rightarrow> precedenceWitness \<Rightarrow> precedenceWitness result" where
  "observeDiscardedLink c link w =
     (if pw_hasReplacement w then observePostReplacementLink c link w
      else bindR (linkPrecedenceMaximum c link) (\<lambda>candidate.
        if \<not> pw_hasDiscarded w then Inr (w\<lparr>pw_discarded := link, pw_hasDiscarded := True\<rparr>)
        else bindR (linkPrecedenceMaximum c (pw_discarded w)) (\<lambda>previous.
          Inr (if candidate > previous then w\<lparr>pw_discarded := link\<rparr> else w))))"

definition discardedPrecedenceMaximum :: "core \<Rightarrow> precedenceWitness \<Rightarrow> int option result" where
  "discardedPrecedenceMaximum c w =
     (if \<not> pw_hasDiscarded w then Inr None
      else bindR (linkPrecedenceMaximum c (pw_discarded w)) (\<lambda>candidate. Inr (Some candidate)))"

text \<open>The running maximum: \<open>None\<close> until there is a candidate.\<close>

definition raise_maximum :: "int option \<Rightarrow> int \<Rightarrow> int option" where
  "raise_maximum maximum candidate =
     (case maximum of None \<Rightarrow> Some candidate | Some m \<Rightarrow> Some (if candidate > m then candidate else m))"

definition raise_discarded :: "core \<Rightarrow> precedenceWitness \<Rightarrow> int option \<Rightarrow> int option result" where
  "raise_discarded c w maximum =
     bindR (discardedPrecedenceMaximum c w) (\<lambda>discarded.
       Inr (case discarded of None \<Rightarrow> maximum | Some d \<Rightarrow> raise_maximum maximum d))"

fun links_maximum :: "core \<Rightarrow> linkRecord list \<Rightarrow> int option \<Rightarrow> int option result" where
  "links_maximum c [] maximum = Inr maximum"
| "links_maximum c (link # links) maximum =
     bindR (linkPrecedenceMaximum c link) (\<lambda>candidate. links_maximum c links (raise_maximum maximum candidate))"

fun chain_maximum :: "core \<Rightarrow> nat \<Rightarrow> u32 \<Rightarrow> int option \<Rightarrow> int option result" where
  "chain_maximum c 0 ident maximum = (if ident \<noteq> 0 then Inl AdjacencyExceedsOrCycles else Inr maximum)"
| "chain_maximum c (Suc k) ident maximum =
     (if ident = 0 \<or> unat ident > length (co_links c) then Inl AdjacencyShorter
      else let link = co_links c ! (unat ident - 1) in
        bindR (linkPrecedenceMaximum c link) (\<lambda>candidate. chain_maximum c k (lr_next link) (raise_maximum maximum candidate)))"

definition certified_maximum :: "int option \<Rightarrow> int result" where
  "certified_maximum maximum = (case maximum of None \<Rightarrow> Inl PrecedenceMissing | Some m \<Rightarrow> Inr m)"

definition computePrecedenceMaximumFromNode :: "core \<Rightarrow> nodeRecord \<Rightarrow> precedenceWitness \<Rightarrow> int result" where
  "computePrecedenceMaximumFromNode c r folded =
     (if pw_hasReplacement folded then Inl ReplacementNeedsAdjacency
      else bindR (chain_maximum c (unat (nr_linkCount r)) (nr_firstLink r) None) (\<lambda>maximum.
           bindR (raise_discarded c folded maximum) certified_maximum))"

definition linkEdgesEqual :: "linkRecord \<Rightarrow> linkRecord \<Rightarrow> bool" where
  "linkEdgesEqual a b \<longleftrightarrow>
     lr_flags a = lr_flags b \<and> lr_payload a = lr_payload b \<and> lr_scoreDelta a = lr_scoreDelta b
     \<and> hasOrder a = hasOrder b \<and> (\<not> hasOrder a \<or> lr_order a = lr_order b)"

definition replacement_matched :: "linkRecord list \<Rightarrow> precedenceWitness \<Rightarrow> bool" where
  "replacement_matched links folded \<longleftrightarrow>
     list_ex (\<lambda>link. lr_prev link = lr_prev (pw_replacement folded) \<and> linkEdgesEqual link (pw_replacement folded)) links"

definition after_replacement :: "core \<Rightarrow> precedenceWitness \<Rightarrow> int \<Rightarrow> int result" where
  "after_replacement c folded replacement =
     (if pw_hasPostReplacement folded then
        bindR (linkPrecedenceMaximum c (pw_postReplacement folded)) (\<lambda>post. Inr (if post > replacement then post else replacement))
      else Inr replacement)"

definition computePrecedenceMaximum :: "core \<Rightarrow> linkRecord list \<Rightarrow> precedenceWitness \<Rightarrow> int result" where
  "computePrecedenceMaximum c links folded =
     (if pw_hasSeed folded then
        (if pw_hasReplacement folded then
           bindR (linkPrecedenceMaximum c (pw_replacement folded)) (\<lambda>replacement.
             if \<not> replacement_matched links folded then Inl ReplacementMissing
             else after_replacement c folded replacement)
         else bindR (discardedPrecedenceMaximum c folded) (\<lambda>discarded.
           Inr (case discarded of None \<Rightarrow> pw_seed folded | Some d \<Rightarrow> if d > pw_seed folded then d else pw_seed folded)))
      else bindR (links_maximum c links None) (\<lambda>maximum.
        if pw_hasReplacement folded then
          (if \<not> replacement_matched links folded then Inl ReplacementMissing
           else bindR (linkPrecedenceMaximum c (pw_replacement folded)) (after_replacement c folded))
        else bindR (raise_discarded c folded maximum) certified_maximum))"

section \<open>Publication\<close>

definition appendGraphLink :: "linkRecord \<Rightarrow> core \<Rightarrow> u32 \<times> core" where
  "appendGraphLink link c =
     (of_nat (length (co_links c) + 1),
      c\<lparr>co_links := co_links c @ [link], co_linkRefIndexes := map_option (\<lambda>xs. xs @ [0]) (co_linkRefIndexes c)\<rparr>)"

definition appendGraphLinkChecked :: "linkRecord \<Rightarrow> u32 build" where
  "appendGraphLinkChecked link c =
     (case validateShape link of
        Inl e \<Rightarrow> (Inl e, c)
      | Inr _ \<Rightarrow> (case appendGraphLink link c of (ident, c) \<Rightarrow> (Inr ident, c)))"

definition nodeScannerCheckpoint :: "core \<Rightarrow> u32 \<Rightarrow> u32 \<times> bool" where
  "nodeScannerCheckpoint c ident =
     (if co_externalPayloadsQuiescent c then (0, True)
      else if ident = 0 \<or> unat ident > length (co_nodeCheckpoints c) then (0, False)
      else let checkpoint = co_nodeCheckpoints c ! (unat ident - 1) in
        if checkpoint \<noteq> 0 \<and> record_of (co_checkpoints c) checkpoint = None then (0, False) else (checkpoint, True))"

fun dag_links :: "core \<Rightarrow> nodeRecord \<Rightarrow> u32 \<Rightarrow> u32 \<Rightarrow> nat \<Rightarrow> u32 \<Rightarrow> unit result" where
  "dag_links c r nxt checkpoint 0 ident = (if ident \<noteq> 0 then Inl AdjacencyExceedsOrCycles else Inr ())"
| "dag_links c r nxt checkpoint (Suc remaining) ident =
     (if ident = 0 then Inl AdjacencyShorter
      else if unat ident > length (co_links c) then Inl LinkOutOfRange
      else let link = co_links c ! (unat ident - 1) in
        bindR (validateShape link) (\<lambda>_.
          if lr_prev link = 0 \<or> lr_prev link \<ge> nxt then Inl (PredecessorNotLower (lr_prev link) nxt)
          else bindR
            (if \<not> isRecoveryDiscontinuity link then Inr ()
             else if nr_state r \<noteq> 0 then Inl DiscontinuityTarget
             else bindR (core_node c (lr_prev link)) (\<lambda>previous.
               if nr_byteOffset previous \<noteq> nr_byteOffset r then Inl DiscontinuityWidth
               else case nodeScannerCheckpoint c (lr_prev link) of (previousCheckpoint, exact) \<Rightarrow>
                 if \<not> exact \<or> previousCheckpoint \<noteq> checkpoint then Inl DiscontinuityCheckpoint else Inr ()))
            (\<lambda>_. dag_links c r nxt checkpoint remaining (lr_next link))))"

definition validatePublishedNodeDAGAt :: "core \<Rightarrow> nodeRecord \<Rightarrow> u32 \<Rightarrow> u32 \<Rightarrow> unit result" where
  "validatePublishedNodeDAGAt c r nxt checkpoint =
     (if nr_linkCount r = 0 then (if nr_firstLink r \<noteq> 0 then Inl EmptyAdjacencyWithLink else Inr ())
      else if nr_linkCount r > cl_MaxLinks (co_limits c) \<or> nr_linkCount r > cl_MaxLinksPerBoundary (co_limits c)
      then Inl LinkCountOverLimit
      else if unat (nr_linkCount r) > length (co_links c) then Inl LinkCountOverArena
      else dag_links c r nxt checkpoint (unat (nr_linkCount r)) (nr_firstLink r))"

definition node_arena_full :: "core \<Rightarrow> bool" where
  "node_arena_full c \<longleftrightarrow> int (length (co_nodes c)) + 1 > uint (cl_MaxNodes (co_limits c)) \<or> int (length (co_nodes c)) \<ge> 4294967295"

definition link_arena_full :: "core \<Rightarrow> bool" where
  "link_arena_full c \<longleftrightarrow> int (length (co_links c)) + 1 > uint (cl_MaxLinks (co_limits c)) \<or> int (length (co_links c)) \<ge> 4294967295"

definition appendNodeRecord :: "nodeRecord \<Rightarrow> u32 \<Rightarrow> u32 build" where
  "appendNodeRecord r checkpoint c =
     (if node_arena_full c then (Inl NodeArenaCap, c)
      else if \<not> co_externalPayloadsQuiescent c \<and> checkpoint \<noteq> 0 \<and> record_of (co_checkpoints c) checkpoint = None
      then (Inl CheckpointUnavailable, c)
      else let nxt = of_nat (length (co_nodes c) + 1) in
        case validatePublishedNodeDAGAt c r nxt checkpoint of
          Inl e \<Rightarrow> (Inl e, c)
        | Inr _ \<Rightarrow>
            (Inr nxt,
             c\<lparr>co_nodes := co_nodes c @ [r], co_storedErrorCosts := co_storedErrorCosts c @ [0],
               co_nodeCheckpoints := co_nodeCheckpoints c @ (if co_externalPayloadsQuiescent c then [] else [checkpoint])\<rparr>))"

definition appendNodeAtWithMaximum :: "nodeRecord \<Rightarrow> u32 \<Rightarrow> int \<Rightarrow> u32 build" where
  "appendNodeAtWithMaximum r checkpoint maximum = appendNodeRecord (r\<lparr>nr_precedenceMax := maximum\<rparr>) checkpoint"

definition appendNodeAt :: "nodeRecord \<Rightarrow> u32 \<Rightarrow> u32 build" where
  "appendNodeAt r checkpoint =
     (if nr_linkCount r = 0 then appendNodeRecord (r\<lparr>nr_precedenceMax := 0\<rparr>) checkpoint
      else bindB (askB (\<lambda>c. computePrecedenceMaximumFromNode c r no_witness)) (\<lambda>maximum.
        appendNodeRecord (r\<lparr>nr_precedenceMax := maximum\<rparr>) checkpoint))"

definition storedCost_of :: "core \<Rightarrow> u32 \<Rightarrow> u32 result" where
  "storedCost_of c ident =
     (if ident = 0 \<or> unat ident > length (co_storedErrorCosts c) then Inl (InvalidLineage ident)
      else Inr (co_storedErrorCosts c ! (unat ident - 1)))"

definition inheritedStoredErrorCost :: "core \<Rightarrow> linkRecord list \<Rightarrow> u32 result" where
  "inheritedStoredErrorCost c links = (case links of [] \<Rightarrow> Inr 0 | link # _ \<Rightarrow> storedCost_of c (lr_prev link))"

definition publishInheritedStoredErrorCost :: "u32 \<Rightarrow> u32 \<Rightarrow> unit build" where
  "publishInheritedStoredErrorCost ident cost c =
     (case storedCost_of c ident of
        Inl e \<Rightarrow> (Inl e, c)
      | Inr _ \<Rightarrow> (Inr (), c\<lparr>co_storedErrorCosts := (co_storedErrorCosts c)[unat ident - 1 := cost]\<rparr>))"

section \<open>Builders\<close>

record linkInput =
  li_prev :: u32
  li_payload :: u32
  li_scoreDelta :: int
  li_order :: forkOrder
  li_storedErrorCost :: u32
  li_hasStoredErrorCost :: bool

definition storedErrorCostForLink :: "core \<Rightarrow> linkInput \<Rightarrow> u32 result" where
  "storedErrorCostForLink c inp =
     bindR (storedCost_of c (li_prev inp)) (\<lambda>cost.
       if li_hasStoredErrorCost inp then
         (if li_storedErrorCost inp < cost then Inl StoredCostBelow else Inr (li_storedErrorCost inp))
       else Inr cost)"

definition input_link :: "linkInput \<Rightarrow> linkRecord" where
  "input_link inp =
     \<lparr>lr_scoreDelta = li_scoreDelta inp, lr_order = fo_Value (li_order inp), lr_prev = li_prev inp,
      lr_payload = li_payload inp, lr_next = 0, lr_flags = (if fo_Present (li_order inp) then linkFlagHasOrder else 0)\<rparr>"

text \<open>A new node with one link, and the cost it inherits.\<close>

definition single_link_node :: "u32 \<Rightarrow> u32 \<Rightarrow> u32 \<Rightarrow> linkInput \<Rightarrow> u64 \<Rightarrow> int \<Rightarrow> u32 build" where
  "single_link_node state byteOffset checkpoint inp paths maximum =
     bindB (appendGraphLinkChecked (input_link inp)) (\<lambda>linkID.
       appendNodeAtWithMaximum
         \<lparr>nr_state = state, nr_byteOffset = byteOffset, nr_firstLink = linkID, nr_linkCount = 1, nr_pathCount = paths, nr_precedenceMax = 0\<rparr>
         checkpoint maximum)"

definition appendPrivate :: "u32 \<Rightarrow> u32 \<Rightarrow> linkInput \<Rightarrow> u32 build" where
  "appendPrivate state byteOffset inp =
     bindB (askB (\<lambda>c. core_node c (li_prev inp))) (\<lambda>prev.
     bindB (askB (\<lambda>c. subtree_of c (li_payload inp))) (\<lambda>_.
     bindB (askB (\<lambda>c. storedErrorCostForLink c inp)) (\<lambda>cost.
     bindB (askB (\<lambda>c. linkPrecedenceMaximum c
       \<lparr>lr_scoreDelta = li_scoreDelta inp, lr_order = 0, lr_prev = li_prev inp, lr_payload = li_payload inp, lr_next = 0, lr_flags = 0\<rparr>)) (\<lambda>maximum.
     bindB (askB (\<lambda>c. failIf (link_arena_full c) LinkArenaCap)) (\<lambda>_.
     bindB (askB (\<lambda>c. failIf (node_arena_full c) NodeArenaCap)) (\<lambda>_.
     bindB (askB (\<lambda>c. Inr (co_checkpoint c))) (\<lambda>checkpoint.
     bindB (single_link_node state byteOffset checkpoint inp (nr_pathCount prev) maximum) (\<lambda>ident.
     bindB (publishInheritedStoredErrorCost ident cost) (\<lambda>_.
       askB (\<lambda>_. Inr ident))))))))))"

fun adjacency_paths :: "core \<Rightarrow> u32 \<Rightarrow> linkRecord list \<Rightarrow> u64 \<Rightarrow> u64 result" where
  "adjacency_paths c nxt [] paths = Inr paths"
| "adjacency_paths c nxt (link # links) paths =
     (if lr_prev link = 0 \<or> lr_prev link \<ge> nxt then Inl (PredecessorNotLower (lr_prev link) nxt)
      else bindR (core_node c (lr_prev link)) (\<lambda>prev.
        adjacency_paths c nxt links (saturatingAddPaths paths (nr_pathCount prev))))"

text \<open>Copies of the links go to the end of the arena, each chained to the one before.\<close>

fun store_links :: "linkRecord list \<Rightarrow> u32 \<Rightarrow> core \<Rightarrow> u32 \<times> core" where
  "store_links [] first c = (first, c)"
| "store_links (stored # links) first c =
     (case appendGraphLink (stored\<lparr>lr_next := first\<rparr>) c of (_, c) \<Rightarrow> store_links links (of_nat (length (co_links c))) c)"

definition appendAdjacencyNodeAtWithPrecedenceAndStoredErrorCost ::
  "u32 \<Rightarrow> u32 \<Rightarrow> u32 \<Rightarrow> linkRecord list \<Rightarrow> precedenceWitness \<Rightarrow> u32 \<Rightarrow> bool \<Rightarrow> u32 build" where
  "appendAdjacencyNodeAtWithPrecedenceAndStoredErrorCost state byteOffset checkpoint links folded storedErrorCost authenticated =
     bindB (askB (\<lambda>c. failIf (links = []) EmptyAdjacency)) (\<lambda>_.
     bindB (askB (\<lambda>c. failIf (int (length links) > uint (cl_MaxLinksPerBoundary (co_limits c)))
       (LiveLinkCapacity state byteOffset (length links) (cl_MaxLinksPerBoundary (co_limits c))))) (\<lambda>_.
     bindB (askB (\<lambda>c. failIf (int (length (co_links c) + length links) > uint (cl_MaxLinks (co_limits c))
       \<or> int (length (co_links c) + length links) > 4294967295) LinkArenaCap)) (\<lambda>_.
     bindB (askB (\<lambda>c. failIf (node_arena_full c) NodeArenaCap)) (\<lambda>_.
     bindB (askB (\<lambda>c. adjacency_paths c (of_nat (length (co_nodes c) + 1)) links 0)) (\<lambda>paths.
     bindB (askB (\<lambda>c. if \<not> authenticated then inheritedStoredErrorCost c links else Inr storedErrorCost)) (\<lambda>cost.
     bindB (askB (\<lambda>c. computePrecedenceMaximum c links folded)) (\<lambda>maximum.
     bindB (\<lambda>c. case store_links links 0 c of (first, c) \<Rightarrow> (Inr first, c)) (\<lambda>first.
     bindB (appendNodeAtWithMaximum
       \<lparr>nr_state = state, nr_byteOffset = byteOffset, nr_firstLink = first, nr_linkCount = of_nat (length links),
        nr_pathCount = paths, nr_precedenceMax = 0\<rparr> checkpoint maximum) (\<lambda>ident.
     bindB (publishInheritedStoredErrorCost ident cost) (\<lambda>_.
       askB (\<lambda>_. Inr ident)))))))))))"

definition appendAdjacencyNodeAt :: "u32 \<Rightarrow> u32 \<Rightarrow> u32 \<Rightarrow> linkRecord list \<Rightarrow> u32 build" where
  "appendAdjacencyNodeAt state byteOffset checkpoint links =
     appendAdjacencyNodeAtWithPrecedenceAndStoredErrorCost state byteOffset checkpoint links no_witness 0 False"

definition provenance_result :: "externalProvenanceState \<Rightarrow> bool \<times> bool \<times> bool" where
  "provenance_result state =
     (case state of
        ExactNoExternal \<Rightarrow> (False, True, True)
      | ReusedOpaque \<Rightarrow> (True, False, True)
      | ExactHasExternal \<Rightarrow> (True, True, True)
      | InexactHasExternal \<Rightarrow> (True, False, True)
      | ProvenanceUnknown \<Rightarrow> (False, False, False))"

fun children_provenance :: "core \<Rightarrow> u32 list \<Rightarrow> externalProvenanceState \<Rightarrow> externalProvenanceState" where
  "children_provenance c [] state = state"
| "children_provenance c (child # children) state =
     (if child = 0 \<or> child \<ge> of_nat (length (co_subtrees c) + 1) then ProvenanceUnknown
      else case provenance_result (sr_externalProvenanceState (co_subtrees c ! (unat child - 1))) of
        (hasExternal, exact, cached) \<Rightarrow>
          if \<not> cached then ProvenanceUnknown
          else if \<not> exact then InexactHasExternal
          else children_provenance c children (if hasExternal then ExactHasExternal else state))"

definition deriveSubtreeExternalProvenanceState :: "core \<Rightarrow> subtreeRecord \<Rightarrow> u32 list \<Rightarrow> externalProvenanceState" where
  "deriveSubtreeExternalProvenanceState c r children =
     (if co_externalPayloadsQuiescent c then ExactNoExternal
      else if sr_external r then InexactHasExternal
      else children_provenance c children ExactNoExternal)"

definition appendSubtreeRecord :: "subtreeRecord \<Rightarrow> u32 list \<Rightarrow> coreFieldMapEntry list \<Rightarrow> u16 list \<Rightarrow> u32 build" where
  "appendSubtreeRecord r children entries aliases c =
     (if int (length (co_subtrees c)) + 1 > uint (cl_MaxSubtrees (co_limits c)) \<or> int (length (co_subtrees c)) \<ge> 4294967295
      then (Inl SubtreeArenaCap, c)
      else if int (length (co_children c) + length children) > uint (cl_MaxChildren (co_limits c)) then (Inl ChildArenaCap, c)
      else if int (length (co_fields c) + length entries) > uint (cl_MaxMetadata (co_limits c))
         \<or> int (length (co_aliases c) + length aliases) > uint (cl_MaxMetadata (co_limits c)) then (Inl MetadataArenaCap, c)
      else let r = r\<lparr>sr_firstChild := of_nat (length (co_children c)), sr_childCount := of_nat (length children),
                     sr_firstField := of_nat (length (co_fields c)), sr_fieldCount := of_nat (length entries),
                     sr_firstAlias := of_nat (length (co_aliases c)), sr_aliasCount := of_nat (length aliases)\<rparr>;
               r = r\<lparr>sr_externalProvenanceState := deriveSubtreeExternalProvenanceState c r children\<rparr>;
               c = c\<lparr>co_children := co_children c @ children, co_fields := co_fields c @ entries,
                     co_aliases := co_aliases c @ aliases, co_subtrees := co_subtrees c @ [r]\<rparr> in
           (Inr (of_nat (length (co_subtrees c))), c))"

definition HeadExactPathCount :: "core \<Rightarrow> u32 \<Rightarrow> u64 result" where
  "HeadExactPathCount c head = bindR (core_node c head) (\<lambda>n. Inr (nr_pathCount n))"

section \<open>Boundaries\<close>

text \<open>Publication in the graph together with the boundary index.\<close>

datatype graphError = CoreError coreError | IndexError boundaryError

record graphState =
  gs_core :: core
  gs_boundaries :: boundaryCore

definition boundaryKey_at :: "graphState \<Rightarrow> u32 \<Rightarrow> u32 \<Rightarrow> boundaryKey" where
  "boundaryKey_at g state byteOffset =
     \<lparr>bk_frontier = bc_frontier (gs_boundaries g), bk_state = state, bk_byteOffset = byteOffset,
      bk_checkpoint = co_checkpoint (gs_core g), bk_shifted = False\<rparr>"

definition shiftedBoundaryKey_at :: "graphState \<Rightarrow> u32 \<Rightarrow> u32 \<Rightarrow> boundaryKey" where
  "shiftedBoundaryKey_at g state byteOffset =
     \<lparr>bk_frontier = bc_frontier (gs_boundaries g), bk_state = state, bk_byteOffset = byteOffset,
      bk_checkpoint = co_checkpoint (gs_core g), bk_shifted = True\<rparr>"

definition drop_last_node :: "core \<Rightarrow> core" where
  "drop_last_node c =
     c\<lparr>co_nodes := butlast (co_nodes c), co_storedErrorCosts := butlast (co_storedErrorCosts c),
       co_nodeCheckpoints := (if co_externalPayloadsQuiescent c then co_nodeCheckpoints c else butlast (co_nodeCheckpoints c))\<rparr>"

definition Seed :: "u32 \<Rightarrow> u32 \<Rightarrow> graphState \<Rightarrow> (graphError + u32) \<times> graphState" where
  "Seed state byteOffset g =
     (let key = boundaryKey_at g state byteOffset in
      case probe (gs_boundaries g) (boundaryIdentityFromKey key) of (pr, ident) \<Rightarrow>
        if pb_found pr then (Inr ident, g)
        else case appendNodeAt
            \<lparr>nr_state = state, nr_byteOffset = byteOffset, nr_firstLink = 0, nr_linkCount = 0, nr_pathCount = 1, nr_precedenceMax = 0\<rparr>
            (bk_checkpoint key) (gs_core g) of
          (Inl e, c) \<Rightarrow> (Inl (CoreError e), g\<lparr>gs_core := c\<rparr>)
        | (Inr ident, c) \<Rightarrow>
            (case publish (gs_boundaries g) pr ident of
               (Some e, b) \<Rightarrow> (Inl (IndexError e), \<lparr>gs_core = drop_last_node c, gs_boundaries = b\<rparr>)
             | (None, b) \<Rightarrow> (Inr ident, \<lparr>gs_core = c, gs_boundaries = b\<rparr>)))"

definition direct_node :: "boundaryKey \<Rightarrow> nodeRecord \<Rightarrow> linkInput \<Rightarrow> u32 \<Rightarrow> u32 build" where
  "direct_node key prev inp cost =
     bindB (askB (\<lambda>c. failIf (link_arena_full c) LinkArenaCap)) (\<lambda>_.
     bindB (askB (\<lambda>c. failIf (node_arena_full c) NodeArenaCap)) (\<lambda>_.
     bindB (askB (\<lambda>c. effectivePayloadPrecedence c (li_payload inp) (li_scoreDelta inp))) (\<lambda>contribution.
     bindB (askB (\<lambda>_. addPrecedence (nr_precedenceMax prev) contribution)) (\<lambda>maximum.
     bindB (single_link_node (bk_state key) (bk_byteOffset key) (bk_checkpoint key) inp (nr_pathCount prev) maximum) (\<lambda>ident.
     bindB (if cost \<noteq> 0 then publishInheritedStoredErrorCost ident cost else askB (\<lambda>_. Inr ())) (\<lambda>_.
       askB (\<lambda>_. Inr ident)))))))"

definition condenseDirectAppend ::
  "boundaryKey \<Rightarrow> boundaryProbe \<Rightarrow> nodeRecord \<Rightarrow> linkInput \<Rightarrow> u32 \<Rightarrow> graphState \<Rightarrow> (graphError + u32) \<times> graphState" where
  "condenseDirectAppend key pr prev inp cost g =
     (case direct_node key prev inp cost (gs_core g) of
        (Inl e, c) \<Rightarrow> (Inl (CoreError e), g\<lparr>gs_core := c\<rparr>)
      | (Inr ident, c) \<Rightarrow>
          (case publish (gs_boundaries g) pr ident of
             (Some e, b) \<Rightarrow> (Inl (IndexError e), \<lparr>gs_core = c, gs_boundaries = b\<rparr>)
           | (None, b) \<Rightarrow> (Inr ident, \<lparr>gs_core = c, gs_boundaries = b\<rparr>)))"

text \<open>
  The condensation of a link into a boundary that the current frontier has not published yet; \<open>None\<close>
  stands for a published boundary, whose merge is not modelled.
\<close>

definition condense_fresh :: "boundaryKey \<Rightarrow> linkInput \<Rightarrow> graphState \<Rightarrow> (graphError + u32 option) \<times> graphState" where
  "condense_fresh key inp g =
     (if bk_frontier key \<noteq> bc_frontier (gs_boundaries g) then (Inl (IndexError FrontierMismatch), g)
      else case bindR (core_node (gs_core g) (li_prev inp)) (\<lambda>prev.
                bindR (subtree_of (gs_core g) (li_payload inp)) (\<lambda>_.
                bindR (storedErrorCostForLink (gs_core g) inp) (\<lambda>cost. Inr (prev, cost)))) of
        Inl e \<Rightarrow> (Inl (CoreError e), g)
      | Inr (prev, cost) \<Rightarrow>
          (let pr = fst (probe (gs_boundaries g) (boundaryIdentityFromKey key)) in
           if pb_found pr then (Inr None, g)
           else case condenseDirectAppend key pr prev inp cost g of
             (Inl e, g) \<Rightarrow> (Inl e, g)
           | (Inr ident, g) \<Rightarrow> (Inr (Some ident), g)))"

text \<open>Sequences of calls.\<close>

datatype buildCall =
    SeedCall u32 u32
  | PrivateCall u32 u32 linkInput
  | CondenseCall boundaryKey linkInput
  | AdjacencyCall u32 u32 u32 "linkRecord list" precedenceWitness u32 bool
  | SubtreeCall subtreeRecord "u32 list" "coreFieldMapEntry list" "u16 list"

fun graph_step :: "buildCall \<Rightarrow> graphState \<Rightarrow> graphState" where
  "graph_step (SeedCall state byteOffset) g = snd (Seed state byteOffset g)"
| "graph_step (PrivateCall state byteOffset inp) g = g\<lparr>gs_core := snd (appendPrivate state byteOffset inp (gs_core g))\<rparr>"
| "graph_step (CondenseCall key inp) g = snd (condense_fresh key inp g)"
| "graph_step (AdjacencyCall state byteOffset checkpoint links folded cost authenticated) g =
     g\<lparr>gs_core := snd (appendAdjacencyNodeAtWithPrecedenceAndStoredErrorCost state byteOffset checkpoint links folded cost authenticated (gs_core g))\<rparr>"
| "graph_step (SubtreeCall r children entries aliases) g = g\<lparr>gs_core := snd (appendSubtreeRecord r children entries aliases (gs_core g))\<rparr>"

text \<open>
  An adjacency is rebuilt from links of published nodes or from links just checked, so its links have a
  valid shape and their payloads exist.
\<close>

fun call_ok :: "buildCall \<Rightarrow> graphState \<Rightarrow> bool" where
  "call_ok (AdjacencyCall state byteOffset checkpoint links folded cost authenticated) g \<longleftrightarrow>
     list_all (\<lambda>l. validateShape l = Inr ()
       \<and> (isRecoveryDiscontinuity l \<or> (case subtree_of (gs_core g) (lr_payload l) of Inl e \<Rightarrow> False | Inr r \<Rightarrow> True))) links"
| "call_ok _ g \<longleftrightarrow> True"

fun run_calls :: "buildCall list \<Rightarrow> graphState \<Rightarrow> graphState" where
  "run_calls [] g = g"
| "run_calls (x # xs) g = run_calls xs (graph_step x g)"

fun calls_ok :: "buildCall list \<Rightarrow> graphState \<Rightarrow> bool" where
  "calls_ok [] g \<longleftrightarrow> True"
| "calls_ok (x # xs) g \<longleftrightarrow> call_ok x g \<and> calls_ok xs (graph_step x g)"

section \<open>Paths to a seed\<close>

inductive rooted :: "core \<Rightarrow> u32 \<Rightarrow> linkRecord list \<Rightarrow> bool" where
  seed: "links_at c ident = [] \<Longrightarrow> rooted c ident []"
| link: "l \<in> set (links_at c ident) \<Longrightarrow> rooted c (lr_prev l) ls \<Longrightarrow> rooted c ident (l # ls)"

function root_paths :: "core \<Rightarrow> u32 \<Rightarrow> linkRecord list list" where
  "root_paths c ident =
     (if links_at c ident = [] then [[]]
      else concat (map (\<lambda>l. if lr_prev l < ident then map ((#) l) (root_paths c (lr_prev l)) else []) (links_at c ident)))"
  by pat_completeness auto
termination
  by (relation "measure (\<lambda>(c, ident). unat ident)") (auto simp: word_less_nat_alt)

declare root_paths.simps [simp del]

text \<open>The number of paths a node with these links has.\<close>

definition paths_through :: "core \<Rightarrow> linkRecord list \<Rightarrow> nat" where
  "paths_through c ls = (if ls = [] then 1 else sum_list (map (\<lambda>l. length (root_paths c (lr_prev l))) ls))"

lemma root_paths_links:
  assumes "graph_ok c" "node_valid c ident"
  shows "root_paths c ident = (if links_at c ident = [] then [[]]
      else concat (map (\<lambda>l. map ((#) l) (root_paths c (lr_prev l))) (links_at c ident)))"
proof -
  have "lr_prev l < ident" if "l \<in> set (links_at c ident)" for l
    using graph_node(2) [OF assms that] by (simp add: link_ok_def)
  then have "map (\<lambda>l. if lr_prev l < ident then map ((#) l) (root_paths c (lr_prev l)) else []) (links_at c ident)
      = map (\<lambda>l. map ((#) l) (root_paths c (lr_prev l))) (links_at c ident)" by simp
  then show ?thesis by (simp only: root_paths.simps [of c ident])
qed

lemma root_paths_count:
  "graph_ok c \<Longrightarrow> node_valid c ident \<Longrightarrow> length (root_paths c ident) = paths_through c (links_at c ident)"
  by (simp add: root_paths_links paths_through_def length_concat o_def)

lemma root_paths_rooted:
  assumes "graph_ok c"
  shows "node_valid c ident \<Longrightarrow> ls \<in> set (root_paths c ident) \<longleftrightarrow> rooted c ident ls"
proof (induction "unat ident" arbitrary: ident ls rule: less_induct)
  case less
  have ih: "ws \<in> set (root_paths c (lr_prev l)) \<longleftrightarrow> rooted c (lr_prev l) ws" if "l \<in> set (links_at c ident)" for l ws
    using less.hyps [of "lr_prev l" ws] graph_node(2) [OF assms less.prems that] by (auto simp: link_ok_def word_less_nat_alt)
  have "ls \<in> set (root_paths c ident) \<longleftrightarrow> (if links_at c ident = [] then ls = []
      else \<exists>l\<in>set (links_at c ident). \<exists>ws\<in>set (root_paths c (lr_prev l)). ls = l # ws)"
    unfolding root_paths_links [OF assms less.prems] by auto
  also have "\<dots> \<longleftrightarrow> rooted c ident ls"
    using ih by (auto elim: rooted.cases intro: rooted.intros)
  finally show ?case .
qed

lemma root_paths_nonempty:
  assumes "graph_ok c"
  shows "node_valid c ident \<Longrightarrow> root_paths c ident \<noteq> []"
proof (induction "unat ident" arbitrary: ident rule: less_induct)
  case less
  show ?case
  proof (cases "links_at c ident")
    case (Cons l ls)
    then have "l \<in> set (links_at c ident)" by simp
    then have "root_paths c (lr_prev l) \<noteq> []"
      using less.hyps [of "lr_prev l"] graph_node(2) [OF assms less.prems] by (auto simp: link_ok_def word_less_nat_alt)
    then show ?thesis using Cons by (simp add: root_paths_links [OF assms less.prems])
  qed (simp add: root_paths_links [OF assms less.prems])
qed

section \<open>Growing graphs\<close>

definition core_extends :: "core \<Rightarrow> core \<Rightarrow> bool" where
  "core_extends c d \<longleftrightarrow>
     (\<exists>ns. co_nodes d = co_nodes c @ ns) \<and> (\<exists>ls. co_links d = co_links c @ ls)
     \<and> (\<exists>ss. co_subtrees d = co_subtrees c @ ss) \<and> co_reusedSubtrees d = co_reusedSubtrees c \<and> co_limits d = co_limits c"

lemma core_extends_refl: "core_extends c c" by (simp add: core_extends_def)

lemma fill_links_extends: "fill_links c k ident acc = Inr ls \<Longrightarrow> core_extends c d \<Longrightarrow> fill_links d k ident acc = Inr ls"
proof (induction c k ident acc rule: fill_links.induct)
  case (2 c k ident acc)
  have "unat ident - 1 < length (co_links c)" if "\<not> unat ident > length (co_links c)" "ident \<noteq> 0"
    using that by (metis One_nat_def diff_less less_le_trans not_le unat_gt_0 zero_less_one)
  then show ?case using 2 by (auto simp: Let_def core_extends_def nth_append split: if_splits)
qed (auto split: if_splits)

lemma nodeLinksInto_extends:
  assumes "nodeLinksInto c n = Inr ls" "core_extends c d"
  shows "nodeLinksInto d n = Inr ls"
  using assms fill_links_extends [OF _ assms(2)]
  by (auto simp: nodeLinksInto_def nodeLinksIntoBounded_def core_extends_def split: if_splits)

lemma subtree_extends:
  assumes "subtree_of c ident = Inr r" "core_extends c d"
  shows "subtree_of d ident = Inr r"
proof -
  have v: "ident \<noteq> 0" "\<not> unat ident > length (co_subtrees c)" using assms(1) by (auto simp: subtree_of_def split: if_splits)
  then have "unat ident - 1 < length (co_subtrees c)" by (metis One_nat_def diff_less less_le_trans not_le unat_gt_0 zero_less_one)
  moreover have "reusedSubtree_of d = reusedSubtree_of c" using assms(2) by (auto simp: reusedSubtree_of_def core_extends_def)
  then have "validateReusedRecord d = validateReusedRecord c" by (intro ext) (simp add: validateReusedRecord_def)
  ultimately show ?thesis using assms v by (auto simp: subtree_of_def core_extends_def nth_append Let_def split: if_splits)
qed

lemma link_ok_extends: "link_ok c ident l \<Longrightarrow> core_extends c d \<Longrightarrow> link_ok d ident l"
  using subtree_extends [of c "lr_payload l" _ d] by (auto simp: link_ok_def split: sum.splits)

lemma core_node_extends: "core_node c ident = Inr n \<Longrightarrow> core_extends c d \<Longrightarrow> core_node d ident = Inr n"
proof -
  assume a: "core_node c ident = Inr n" "core_extends c d"
  then have v: "ident \<noteq> 0" "\<not> unat ident > length (co_nodes c)" by (auto simp: core_node_def split: if_splits)
  then have "unat ident - 1 < length (co_nodes c)" by (metis One_nat_def diff_less less_le_trans not_le unat_gt_0 zero_less_one)
  then show ?thesis using a v by (auto simp: core_node_def core_extends_def nth_append)
qed

lemma links_at_extends:
  assumes "graph_ok c" "node_valid c ident" "core_extends c d"
  shows "links_at d ident = links_at c ident"
proof -
  obtain n where n: "core_node c ident = Inr n" "nodeLinksInto c n = Inr (links_at c ident)" using graph_node(1) [OF assms(1,2)] by blast
  then show ?thesis using core_node_extends [OF n(1) assms(3)] nodeLinksInto_extends [OF n(2) assms(3)] by (simp add: links_at_def)
qed

lemma root_paths_extends:
  assumes "graph_ok c" "core_extends c d"
  shows "node_valid c ident \<Longrightarrow> root_paths d ident = root_paths c ident"
proof (induction "unat ident" arbitrary: ident rule: less_induct)
  case less
  have "root_paths d (lr_prev l) = root_paths c (lr_prev l)" if "l \<in> set (links_at c ident)" for l
    using less.hyps [of "lr_prev l"] graph_node(2) [OF assms(1) less.prems that] by (auto simp: link_ok_def word_less_nat_alt)
  then have "map (\<lambda>l. if lr_prev l < ident then map ((#) l) (root_paths d (lr_prev l)) else []) (links_at c ident)
      = map (\<lambda>l. if lr_prev l < ident then map ((#) l) (root_paths c (lr_prev l)) else []) (links_at c ident)" by simp
  then show ?case using links_at_extends [OF assms(1) less.prems assms(2)]
    by (simp only: root_paths.simps [of d ident] root_paths.simps [of c ident])
qed

section \<open>Saturated counts\<close>

definition saturated :: "nat \<Rightarrow> u64" where
  "saturated n = of_nat (min n 18446744073709551615)"

lemma unat_saturated_count: "unat (saturated n) = min n 18446744073709551615"
  unfolding saturated_def by (subst unat_of_nat) (simp add: take_bit_nat_eq_self)

lemma saturated_add: "saturatingAddPaths (saturated a) (saturated b) = saturated (a + b)"
proof -
  have top: "unat (- 1 :: u64) = 18446744073709551615" by (simp add: unsigned_minus_1_eq_mask mask_eq_exp_minus_1)
  have sub: "unat (- 1 - x :: u64) = 18446744073709551615 - unat x" for x
    using unat_sub [of x "- 1"] top by simp
  have lt: "unat x < 18446744073709551616" for x :: u64 using unsigned_less [of x] by simp
  show ?thesis
  proof (cases "a + b < 18446744073709551615")
    case True
    then have "\<not> - 1 - saturated a < saturated b" by (simp add: word_less_nat_alt sub unat_saturated_count)
    moreover have "saturated a + saturated b = saturated (a + b)" using True by (simp add: saturated_def)
    ultimately show ?thesis by (simp add: saturatingAddPaths_def)
  next
    case False
    then have "saturated (a + b) = - 1" by (simp add: word_unat_eq_iff unat_saturated_count top)
    moreover have "\<not> - 1 - saturated a < saturated b \<Longrightarrow> unat (saturated a + saturated b) = 18446744073709551615"
    proof -
      assume "\<not> - 1 - saturated a < saturated b"
      then have "\<not> 18446744073709551615 - min a 18446744073709551615 < min b 18446744073709551615"
        by (simp only: word_less_nat_alt sub unat_saturated_count not_False_eq_True)
      then have "min a 18446744073709551615 + min b 18446744073709551615 = 18446744073709551615"
        using False by (auto simp: min_def split: if_splits)
      then show ?thesis by (simp add: unat_word_ariths unat_saturated_count)
    qed
    ultimately show ?thesis using top by (auto simp: saturatingAddPaths_def word_unat_eq_iff)
  qed
qed

section \<open>Built graphs\<close>

definition counts_ok :: "core \<Rightarrow> bool" where
  "counts_ok c \<longleftrightarrow>
     (\<forall>ident. node_valid c ident \<longrightarrow> nr_pathCount (co_nodes c ! (unat ident - 1)) = saturated (length (root_paths c ident)))"

definition built :: "core \<Rightarrow> bool" where
  "built c \<longleftrightarrow> graph_ok c \<and> shapes_ok c \<and> counts_ok c"

lemma graph_ok_node: "graph_ok c \<longleftrightarrow> length (co_nodes c) < 4294967296 \<and> (\<forall>i < length (co_nodes c). node_ok c i)"
  by (auto simp: graph_ok_def list_all_iff)

lemma node_ok_extends:
  assumes "node_ok c i" "core_extends c d" "i < length (co_nodes c)"
  shows "node_ok d i"
proof -
  have "co_nodes d ! i = co_nodes c ! i" using assms(2,3) by (auto simp: core_extends_def nth_append)
  moreover obtain ls where "nodeLinksInto c (co_nodes c ! i) = Inr ls" "list_all (link_ok c (of_nat (Suc i))) ls"
    using assms(1) by (auto simp: node_ok_def split: sum.splits)
  ultimately show ?thesis using nodeLinksInto_extends [OF _ assms(2)] link_ok_extends [OF _ assms(2)]
    by (auto simp: node_ok_def list_all_iff)
qed

lemma node_valid_index: "node_valid c ident \<Longrightarrow> unat ident - 1 < length (co_nodes c)"
  by (metis One_nat_def diff_less less_le_trans node_valid_def unat_gt_0 zero_less_one)

lemma counts_extends:
  assumes "built c" "core_extends c d" "node_valid c ident"
  shows "nr_pathCount (co_nodes d ! (unat ident - 1)) = saturated (length (root_paths d ident))"
proof -
  have "co_nodes d ! (unat ident - 1) = co_nodes c ! (unat ident - 1)"
    using assms(2) node_valid_index [OF assms(3)] by (auto simp: core_extends_def nth_append)
  then show ?thesis using assms root_paths_extends [OF _ assms(2,3)] by (auto simp: built_def counts_ok_def)
qed

text \<open>Growing the arenas of links and subtrees.\<close>

lemma built_same_nodes:
  assumes "built c" "core_extends c d" "co_nodes d = co_nodes c" "shapes_ok d"
  shows "built d"
proof -
  have "graph_ok d" using assms node_ok_extends [OF _ assms(2)] by (auto simp: built_def graph_ok_node)
  moreover have "counts_ok d" using counts_extends [OF assms(1,2)] assms(3) by (auto simp: counts_ok_def node_valid_def)
  ultimately show ?thesis using assms(4) by (simp add: built_def)
qed

text \<open>Publishing a node.\<close>

lemma built_new_node:
  assumes b: "built c" and d: "core_extends c d" "co_nodes d = co_nodes c @ [r]" "co_links d = co_links c"
    and room: "length (co_nodes c) < 4294967295"
    and ls: "nodeLinksInto c r = Inr ls" "list_all (link_ok c (of_nat (Suc (length (co_nodes c))))) ls"
    and n: "nr_pathCount r = saturated (paths_through c ls)"
  shows "built d"
proof -
  let ?id = "of_nat (Suc (length (co_nodes c))) :: u32"
  have id: "unat ?id = Suc (length (co_nodes c))" using room unat_u32_of_nat [of "Suc (length (co_nodes c))"] by (simp del: of_nat_Suc)
  have g: "graph_ok c" "shapes_ok c" using b by (simp_all add: built_def)
  have lsd: "nodeLinksInto d r = Inr ls" "list_all (link_ok d ?id) ls"
    using nodeLinksInto_extends [OF ls(1) d(1)] ls(2) link_ok_extends [OF _ d(1)] by (auto simp: list_all_iff)
  have new: "node_ok d (length (co_nodes c))" using lsd d(2) by (simp add: node_ok_def)
  have gd: "graph_ok d"
    unfolding graph_ok_node
  proof (intro conjI allI impI)
    show "length (co_nodes d) < 4294967296" using room d(2) by simp
    fix i assume "i < length (co_nodes d)"
    then show "node_ok d i" using new node_ok_extends [OF _ d(1), of i] g(1) d(2)
      by (cases "i = length (co_nodes c)") (auto simp: graph_ok_node)
  qed
  have v: "node_valid d ident \<longleftrightarrow> node_valid c ident \<or> ident = ?id" for ident
  proof -
    have "unat ident = Suc (length (co_nodes c)) \<longleftrightarrow> ident = ?id" using id by (metis word_unat_eq_iff)
    then show ?thesis using d(2) id by (auto simp: node_valid_def le_Suc_eq)
  qed
  have vid: "node_valid d ?id" using v by blast
  have "core_node d ?id = Inr r" using id d(2) by (auto simp: core_node_def)
  then have at: "links_at d ?id = ls" using lsd(1) by (simp add: links_at_def)
  have "paths_through d ls = paths_through c ls"
  proof -
    have "length (root_paths d (lr_prev l)) = length (root_paths c (lr_prev l))" if "l \<in> set ls" for l
    proof -
      have "link_ok c ?id l" using ls(2) that by (simp add: list_all_iff)
      then have "node_valid c (lr_prev l)" using id by (auto simp: link_ok_def node_valid_def word_less_nat_alt)
      then show ?thesis using root_paths_extends [OF g(1) d(1)] by simp
    qed
    then show ?thesis by (simp add: paths_through_def cong: map_cong)
  qed
  then have "nr_pathCount (co_nodes d ! (unat ?id - 1)) = saturated (length (root_paths d ?id))"
    using n d(2) id root_paths_count [OF gd vid] at by simp
  then have "counts_ok d" using counts_extends [OF b d(1)] v unfolding counts_ok_def by blast
  then show ?thesis using gd g(2) d(3) by (simp add: built_def shapes_ok_def)
qed

lemma dag_links_fill:
  "dag_links c r nxt checkpoint k ident = Inr () \<Longrightarrow>
   \<exists>ls. fill_links c k ident acc = Inr (ls @ acc) \<and> (\<forall>l\<in>set ls. lr_prev l \<noteq> 0 \<and> lr_prev l < nxt)"
proof (induction k arbitrary: ident acc)
  case (Suc k)
  let ?link = "co_links c ! (unat ident - 1)"
  have ok: "ident \<noteq> 0" "\<not> unat ident > length (co_links c)" "validateShape ?link = Inr ()" "\<not> (lr_prev ?link = 0 \<or> lr_prev ?link \<ge> nxt)"
    "dag_links c r nxt checkpoint k (lr_next ?link) = Inr ()"
    using Suc.prems by (auto simp: Let_def split: if_splits)
  obtain ls where "fill_links c k (lr_next ?link) (?link # acc) = Inr (ls @ ?link # acc)" "\<forall>l\<in>set ls. lr_prev l \<noteq> 0 \<and> lr_prev l < nxt"
    using Suc.IH [OF ok(5), of "?link # acc"] by blast
  then show ?case using ok by (intro exI [of _ "ls @ [?link]"]) (auto simp: Let_def)
qed (auto split: if_splits)

lemma bindB_ask [simp]: "bindB (askB f) k c = (case f c of Inl e \<Rightarrow> (Inl e, c) | Inr x \<Rightarrow> k x c)"
  by (simp add: bindB_def askB_def split: sum.splits)

lemma snd_bindB:
  assumes "P (snd (m c))" "\<And>x d. m c = (Inr x, d) \<Longrightarrow> P d \<Longrightarrow> P (snd (k x d))"
  shows "P (snd (bindB m k c))"
  using assms by (cases "m c") (auto simp: bindB_def split: sum.splits)

lemma built_same:
  assumes "built c" "co_nodes d = co_nodes c" "co_links d = co_links c" "co_subtrees d = co_subtrees c"
    "co_reusedSubtrees d = co_reusedSubtrees c" "co_limits d = co_limits c"
  shows "built d"
proof (rule built_same_nodes [OF assms(1) _ assms(2)])
  show "core_extends c d" using assms by (simp add: core_extends_def)
  show "shapes_ok d" using assms by (simp add: built_def shapes_ok_def)
qed

lemma built_cost: "built c \<Longrightarrow> built (snd (publishInheritedStoredErrorCost ident cost c))"
  by (auto simp: publishInheritedStoredErrorCost_def split: sum.splits intro: built_same)

lemma appendNodeRecord_built:
  assumes b: "built c"
    and r: "\<And>ls. nodeLinksInto c r = Inr ls \<Longrightarrow>
      (\<forall>l\<in>set ls. isRecoveryDiscontinuity l \<or> (\<exists>x. subtree_of c (lr_payload l) = Inr x)) \<and> nr_pathCount r = saturated (paths_through c ls)"
  shows "built (snd (appendNodeRecord r checkpoint c))"
proof -
  let ?nxt = "of_nat (length (co_nodes c) + 1) :: u32"
  let ?d = "c\<lparr>co_nodes := co_nodes c @ [r], co_storedErrorCosts := co_storedErrorCosts c @ [0],
      co_nodeCheckpoints := co_nodeCheckpoints c @ (if co_externalPayloadsQuiescent c then [] else [checkpoint])\<rparr>"
  have "snd (appendNodeRecord r checkpoint c) = c
      \<or> (\<not> node_arena_full c \<and> validatePublishedNodeDAGAt c r ?nxt checkpoint = Inr () \<and> snd (appendNodeRecord r checkpoint c) = ?d)"
    by (auto simp: appendNodeRecord_def Let_def split: sum.splits)
  then show ?thesis
  proof (elim disjE conjE)
    assume ok: "\<not> node_arena_full c" "validatePublishedNodeDAGAt c r ?nxt checkpoint = Inr ()" "snd (appendNodeRecord r checkpoint c) = ?d"
    obtain ls where ls: "nodeLinksInto c r = Inr ls" "\<forall>l\<in>set ls. lr_prev l \<noteq> 0 \<and> lr_prev l < ?nxt"
    proof (cases "nr_linkCount r = 0")
      case True
      then show ?thesis using ok(2) that [of "[]"]
        by (auto simp: validatePublishedNodeDAGAt_def nodeLinksInto_def nodeLinksIntoBounded_def split: if_splits)
    next
      case False
      then have "dag_links c r ?nxt checkpoint (unat (nr_linkCount r)) (nr_firstLink r) = Inr ()"
        "\<not> (nr_linkCount r > cl_MaxLinks (co_limits c) \<or> nr_linkCount r > cl_MaxLinksPerBoundary (co_limits c))"
        "\<not> unat (nr_linkCount r) > length (co_links c)"
        using ok(2) by (auto simp: validatePublishedNodeDAGAt_def split: if_splits)
      then show ?thesis using dag_links_fill [of c r ?nxt checkpoint "unat (nr_linkCount r)" "nr_firstLink r" "[]"] that
        by (auto simp: nodeLinksInto_def nodeLinksIntoBounded_def)
    qed
    have "list_all (link_ok c (of_nat (Suc (length (co_nodes c))))) ls"
      using ls(2) r [OF ls(1)] by (auto simp: list_all_iff link_ok_def split: sum.splits)
    moreover have "core_extends c ?d" by (simp add: core_extends_def)
    ultimately show ?thesis unfolding ok(3) using ok(1) r [OF ls(1)] ls(1)
      by (intro built_new_node [OF b, of ?d r ls]) (auto simp: node_arena_full_def)
  qed (simp add: b)
qed

lemma built_link:
  assumes "built c" "validateShape l = Inr ()"
  shows "built (snd (appendGraphLink l c))" "core_extends c (snd (appendGraphLink l c))"
proof -
  show e: "core_extends c (snd (appendGraphLink l c))" by (simp add: core_extends_def appendGraphLink_def)
  show "built (snd (appendGraphLink l c))"
    by (rule built_same_nodes [OF assms(1) e]) (use assms in \<open>auto simp: appendGraphLink_def built_def shapes_ok_def\<close>)
qed

lemma single_link_node_built:
  assumes b: "built c" and prev: "core_node c (li_prev inp) = Inr n" and sub: "subtree_of c (li_payload inp) = Inr x"
    and room: "\<not> link_arena_full c"
  shows "built (snd (single_link_node state byteOffset checkpoint inp (nr_pathCount n) maximum c))"
  unfolding single_link_node_def
proof (rule snd_bindB)
  show "built (snd (appendGraphLinkChecked (input_link inp) c))"
    using b built_link(1) [OF b, of "input_link inp"] by (auto simp: appendGraphLinkChecked_def split: sum.splits prod.splits)
next
  fix ident d assume m: "appendGraphLinkChecked (input_link inp) c = (Inr ident, d)"
  then have d: "validateShape (input_link inp) = Inr ()" "d = snd (appendGraphLink (input_link inp) c)" "ident = of_nat (length (co_links c) + 1)"
    by (auto simp: appendGraphLinkChecked_def appendGraphLink_def split: sum.splits)
  have bd: "built d" and ext: "core_extends c d" using built_link [OF b d(1)] d(2) by simp_all
  have u: "unat ident = Suc (length (co_links c))"
    using room unat_u32_of_nat [of "Suc (length (co_links c))"] unfolding d(3) link_arena_full_def by (simp del: of_nat_Suc)
  then have id: "unat ident = Suc (length (co_links c))" "ident \<noteq> 0" by auto
  have links: "co_links d = co_links c @ [input_link inp]" by (simp add: d(2) appendGraphLink_def)
  let ?r = "\<lparr>nr_state = state, nr_byteOffset = byteOffset, nr_firstLink = ident, nr_linkCount = 1, nr_pathCount = nr_pathCount n, nr_precedenceMax = 0\<rparr>"
  have v: "node_valid c (li_prev inp)" "co_nodes c ! (unat (li_prev inp) - 1) = n"
    using prev by (auto simp: core_node_def node_valid_def split: if_splits)
  have g: "graph_ok c" "graph_ok d" using b bd by (simp_all add: built_def)
  have count: "nr_pathCount n = saturated (length (root_paths d (li_prev inp)))"
    using b v root_paths_extends [OF g(1) ext v(1)] by (auto simp: built_def counts_ok_def)
  have only: "ls = [input_link inp]" if "nodeLinksInto d (?r\<lparr>nr_precedenceMax := maximum\<rparr>) = Inr ls" for ls
    using that id links d(1) by (auto simp: nodeLinksInto_def nodeLinksIntoBounded_def Let_def nth_append input_link_def split: if_splits)
  show "built (snd (appendNodeAtWithMaximum ?r checkpoint maximum d))"
    unfolding appendNodeAtWithMaximum_def
  proof (rule appendNodeRecord_built [OF bd])
    fix ls assume "nodeLinksInto d (?r\<lparr>nr_precedenceMax := maximum\<rparr>) = Inr ls"
    then have "ls = [input_link inp]" by (rule only)
    then show "(\<forall>l\<in>set ls. isRecoveryDiscontinuity l \<or> (\<exists>x. subtree_of d (lr_payload l) = Inr x))
        \<and> nr_pathCount (?r\<lparr>nr_precedenceMax := maximum\<rparr>) = saturated (paths_through d ls)"
      using count subtree_extends [OF sub ext] by (simp add: paths_through_def input_link_def)
  qed
qed

lemma appendPrivate_built: "built c \<Longrightarrow> built (snd (appendPrivate state byteOffset inp c))"
  unfolding appendPrivate_def
  by (auto simp: failIf_def askB_def split: sum.splits intro!: snd_bindB [where P = built] built_cost intro: single_link_node_built)

lemma direct_node_built:
  assumes "built c" "core_node c (li_prev inp) = Inr n" "subtree_of c (li_payload inp) = Inr x"
  shows "built (snd (direct_node key n inp cost c))"
  unfolding direct_node_def using assms
  by (auto simp: failIf_def askB_def split: sum.splits intro!: snd_bindB [where P = built] built_cost intro: single_link_node_built)

lemma shape_next [simp]: "validateShape (l\<lparr>lr_next := x\<rparr>) = validateShape l"
  by (simp add: validateShape_def isRecoveryDiscontinuity_def hasOrder_def)

lemma core_extends_trans: "core_extends a b \<Longrightarrow> core_extends b c \<Longrightarrow> core_extends a c"
  by (auto simp: core_extends_def)

lemma store_links_built:
  "built c \<Longrightarrow> \<forall>l\<in>set links. validateShape l = Inr () \<Longrightarrow>
   built (snd (store_links links first c)) \<and> core_extends c (snd (store_links links first c)) \<and> co_nodes (snd (store_links links first c)) = co_nodes c"
proof (induction links first c rule: store_links.induct)
  case (2 stored links first c)
  let ?l = "stored\<lparr>lr_next := first\<rparr>"
  obtain j d where d: "appendGraphLink ?l c = (j, d)" by (cases "appendGraphLink ?l c")
  have "built d" "core_extends c d" using built_link [OF "2.prems"(1), of ?l] "2.prems"(2) d by simp_all
  moreover have "co_nodes d = co_nodes c" using d by (auto simp: appendGraphLink_def)
  ultimately show ?case using "2.IH" [OF d [symmetric]] "2.prems"(2) d core_extends_trans [of c d] by simp
qed (simp add: core_extends_refl)

text \<open>A stored adjacency reads back as the links it was given, up to their chaining.\<close>

lemma store_links_fill:
  assumes "length (co_links c) + length links < 4294967296" "\<forall>l\<in>set links. validateShape l = Inr ()"
  shows "\<exists>cs. list_all2 (\<lambda>s l. \<exists>x. s = l\<lparr>lr_next := x\<rparr>) cs links
    \<and> (\<forall>k acc. fill_links (snd (store_links links first c)) (length links + k) (fst (store_links links first c)) acc
         = fill_links (snd (store_links links first c)) k first (cs @ acc))
    \<and> (\<exists>zs. co_links (snd (store_links links first c)) = co_links c @ zs)"
  using assms
proof (induction links arbitrary: first c)
  case Nil
  then show ?case by simp
next
  case (Cons stored links)
  let ?l = "stored\<lparr>lr_next := first\<rparr>"
  define c1 where "c1 = snd (appendGraphLink ?l c)"
  define first1 where "first1 = (of_nat (length (co_links c1)) :: u32)"
  let ?d = "snd (store_links links first1 c1)"
  have links1: "co_links c1 = co_links c @ [?l]" by (simp add: c1_def appendGraphLink_def)
  have step: "store_links (stored # links) first c = store_links links first1 c1"
    by (simp add: c1_def first1_def appendGraphLink_def)
  obtain cs zs where cs: "list_all2 (\<lambda>s l. \<exists>x. s = l\<lparr>lr_next := x\<rparr>) cs links"
      "\<And>k acc. fill_links ?d (length links + k) (fst (store_links links first1 c1)) acc = fill_links ?d k first1 (cs @ acc)"
      "co_links ?d = co_links c1 @ zs"
    using Cons.IH [of c1 first1] Cons.prems links1 by auto
  have u: "unat first1 = Suc (length (co_links c))"
    using Cons.prems(1) unat_u32_of_nat [of "Suc (length (co_links c))"] by (simp add: first1_def links1 del: of_nat_Suc)
  then have "first1 \<noteq> 0" by auto
  then have one: "fill_links ?d (Suc k) first1 acc = fill_links ?d k first (?l # acc)" for k acc
    using u cs(3) links1 Cons.prems(2) by (simp add: Let_def nth_append)
  have "fill_links ?d (length (stored # links) + k) (fst (store_links links first1 c1)) acc = fill_links ?d k first ((?l # cs) @ acc)" for k acc
    using cs(2) [of "Suc k" acc] one by simp
  moreover have "list_all2 (\<lambda>s l. \<exists>x. s = l\<lparr>lr_next := x\<rparr>) (?l # cs) (stored # links)" using cs(1) by auto
  moreover have "\<exists>zs. co_links ?d = co_links c @ zs" using cs(3) links1 by simp
  ultimately show ?case unfolding step by blast
qed

lemma adjacency_paths_exact:
  assumes "built c"
  shows "adjacency_paths c nxt links (saturated k) = Inr p \<Longrightarrow>
    p = saturated (k + sum_list (map (\<lambda>l. length (root_paths c (lr_prev l))) links)) \<and> (\<forall>l\<in>set links. node_valid c (lr_prev l))"
proof (induction links arbitrary: k)
  case (Cons l links)
  obtain n where n: "core_node c (lr_prev l) = Inr n" "adjacency_paths c nxt links (saturatingAddPaths (saturated k) (nr_pathCount n)) = Inr p"
    using Cons.prems by (auto split: if_splits)
  have v: "node_valid c (lr_prev l)" using core_node_valid [OF n(1)] by (simp add: node_valid_def)
  then have "nr_pathCount n = saturated (length (root_paths c (lr_prev l)))"
    using assms n(1) by (auto simp: built_def counts_ok_def core_node_def split: if_splits)
  then show ?case using n(2) v Cons.IH [of "k + length (root_paths c (lr_prev l))"] by (simp add: saturated_add add.assoc)
qed simp

lemma adjacency_built:
  assumes b: "built c" and ok: "list_all (\<lambda>l. validateShape l = Inr ()
      \<and> (isRecoveryDiscontinuity l \<or> (case subtree_of c (lr_payload l) of Inl e \<Rightarrow> False | Inr r \<Rightarrow> True))) links"
    and room: "links \<noteq> []" "int (length (co_links c)) + int (length links) \<le> 4294967295"
    and paths: "adjacency_paths c nxt links 0 = Inr p"
    and d: "store_links links 0 c = (first, d)"
  shows "built d"
    "built (snd (appendNodeAtWithMaximum
       \<lparr>nr_state = state, nr_byteOffset = byteOffset, nr_firstLink = first, nr_linkCount = of_nat (length links),
        nr_pathCount = p, nr_precedenceMax = 0\<rparr> checkpoint maximum d))"
proof -
  have shapes: "\<forall>l\<in>set links. validateShape l = Inr ()" using ok by (simp add: list_all_iff)
  have bd: "built d" and ext: "core_extends c d" using store_links_built [OF b shapes, of 0] d by simp_all
  show "built d" by (rule bd)
  obtain cs where cs: "list_all2 (\<lambda>s l. \<exists>x. s = l\<lparr>lr_next := x\<rparr>) cs links"
      "\<And>k acc. fill_links d (length links + k) first acc = fill_links d k 0 (cs @ acc)"
    using store_links_fill [OF _ shapes, of c 0] room(2) d by auto
  have fill: "fill_links d (length links) first [] = Inr cs" using cs(2) [of 0 "[]"] by simp
  have n: "unat (of_nat (length links) :: u32) = length links" using room(2) by (intro unat_u32_of_nat) simp
  have zero: "(0 :: u64) = saturated 0" by (simp add: saturated_def)
  have p: "p = saturated (sum_list (map (\<lambda>l. length (root_paths c (lr_prev l))) links))" "\<forall>l\<in>set links. node_valid c (lr_prev l)"
    using adjacency_paths_exact [OF b paths [unfolded zero]] by simp_all
  have g: "graph_ok c" using b by (simp add: built_def)
  have same: "lr_prev s = lr_prev l \<and> lr_payload s = lr_payload l \<and> isRecoveryDiscontinuity s = isRecoveryDiscontinuity l"
    if "s = l\<lparr>lr_next := x\<rparr>" for s l x using that by (simp add: isRecoveryDiscontinuity_def)
  have "map (\<lambda>l. length (root_paths d (lr_prev l))) cs = map (\<lambda>l. length (root_paths c (lr_prev l))) links"
    using cs(1) p(2)
  proof (induction rule: list_all2_induct)
    case (Cons s ss l ls)
    then show ?case using root_paths_extends [OF g ext, of "lr_prev l"] by auto
  qed simp
  moreover have "cs \<noteq> []" using cs(1) room(1) by auto
  ultimately have count: "p = saturated (paths_through d cs)" using p(1) by (simp add: paths_through_def)
  have payloads: "\<forall>s\<in>set cs. isRecoveryDiscontinuity s \<or> (\<exists>x. subtree_of d (lr_payload s) = Inr x)"
  proof
    fix s assume "s \<in> set cs"
    then obtain i where "i < length cs" "cs ! i = s" by (auto simp: in_set_conv_nth)
    then obtain x where "i < length links" "s = (links ! i)\<lparr>lr_next := x\<rparr>" using cs(1) by (auto simp: list_all2_conv_all_nth)
    then obtain l x where l: "l \<in> set links" "s = l\<lparr>lr_next := x\<rparr>" using nth_mem by blast
    then show "isRecoveryDiscontinuity s \<or> (\<exists>x. subtree_of d (lr_payload s) = Inr x)"
      using ok same [OF l(2)] subtree_extends [OF _ ext, of "lr_payload l"]
      by (cases "subtree_of c (lr_payload l)") (auto simp: list_all_iff)
  qed
  show "built (snd (appendNodeAtWithMaximum
       \<lparr>nr_state = state, nr_byteOffset = byteOffset, nr_firstLink = first, nr_linkCount = of_nat (length links),
        nr_pathCount = p, nr_precedenceMax = 0\<rparr> checkpoint maximum d))"
    unfolding appendNodeAtWithMaximum_def
  proof (rule appendNodeRecord_built [OF bd])
    fix ls assume "nodeLinksInto d (\<lparr>nr_state = state, nr_byteOffset = byteOffset, nr_firstLink = first, nr_linkCount = of_nat (length links),
        nr_pathCount = p, nr_precedenceMax = 0\<rparr>\<lparr>nr_precedenceMax := maximum\<rparr>) = Inr ls"
    then have "ls = cs" using fill n by (auto simp: nodeLinksInto_def nodeLinksIntoBounded_def split: if_splits)
    then show "(\<forall>l\<in>set ls. isRecoveryDiscontinuity l \<or> (\<exists>x. subtree_of d (lr_payload l) = Inr x))
        \<and> nr_pathCount (\<lparr>nr_state = state, nr_byteOffset = byteOffset, nr_firstLink = first, nr_linkCount = of_nat (length links),
        nr_pathCount = p, nr_precedenceMax = 0\<rparr>\<lparr>nr_precedenceMax := maximum\<rparr>) = saturated (paths_through d ls)"
      using payloads count by simp
  qed
qed

lemma appendAdjacency_built:
  assumes "built c" "list_all (\<lambda>l. validateShape l = Inr ()
      \<and> (isRecoveryDiscontinuity l \<or> (case subtree_of c (lr_payload l) of Inl e \<Rightarrow> False | Inr r \<Rightarrow> True))) links"
  shows "built (snd (appendAdjacencyNodeAtWithPrecedenceAndStoredErrorCost state byteOffset checkpoint links folded cost authenticated c))"
  unfolding appendAdjacencyNodeAtWithPrecedenceAndStoredErrorCost_def using assms(1)
  by (auto simp: failIf_def split: sum.splits prod.splits if_splits intro!: snd_bindB [where P = built] built_cost
      simp: askB_def not_less intro: adjacency_built [OF assms])

lemma appendSubtree_built: "built c \<Longrightarrow> built (snd (appendSubtreeRecord r children entries aliases c))"
proof -
  assume b: "built c"
  let ?d = "snd (appendSubtreeRecord r children entries aliases c)"
  have "core_extends c ?d" "co_nodes ?d = co_nodes c" "co_links ?d = co_links c"
    by (auto simp: appendSubtreeRecord_def Let_def core_extends_def)
  then show ?thesis using b by (intro built_same_nodes [OF b]) (auto simp: built_def shapes_ok_def)
qed

lemma seed_node_built:
  assumes "built c"
  shows "built (snd (appendNodeAt
    \<lparr>nr_state = state, nr_byteOffset = byteOffset, nr_firstLink = 0, nr_linkCount = 0, nr_pathCount = 1, nr_precedenceMax = 0\<rparr> checkpoint c))"
proof -
  have "(1 :: u64) = saturated 1" by (simp add: saturated_def)
  then show ?thesis using assms unfolding appendNodeAt_def
    by (auto simp: nodeLinksInto_def nodeLinksIntoBounded_def paths_through_def split: if_splits intro!: appendNodeRecord_built)
qed

lemma appendNodeAt_dropped:
  assumes "appendNodeAt r checkpoint c = (Inr ident, d)" "nr_linkCount r = 0"
  shows "drop_last_node d = c"
  using assms by (auto simp: appendNodeAt_def appendNodeRecord_def drop_last_node_def Let_def split: if_splits sum.splits)

lemma graph_step_built:
  assumes "built (gs_core g)" "call_ok x g"
  shows "built (gs_core (graph_step x g))"
proof (cases x)
  case (SeedCall state byteOffset)
  show ?thesis
    using assms(1) seed_node_built [OF assms(1), of state byteOffset "bk_checkpoint (boundaryKey_at g state byteOffset)"] SeedCall
    by (auto simp: Seed_def Let_def dest: appendNodeAt_dropped split: prod.splits sum.splits option.splits)
next
  case (CondenseCall key inp)
  have "built (gs_core (snd (condenseDirectAppend key pr n inp cost g)))"
    if "core_node (gs_core g) (li_prev inp) = Inr n" "subtree_of (gs_core g) (li_payload inp) = Inr y" for pr n cost y
    using direct_node_built [OF assms(1) that, of key cost]
    by (auto simp: condenseDirectAppend_def split: prod.splits sum.splits option.splits)
  then show ?thesis using assms(1) CondenseCall
    by (auto simp: condense_fresh_def Let_def split: prod.splits sum.splits) (metis snd_conv)+
qed (use assms appendPrivate_built appendAdjacency_built appendSubtree_built in auto)

lemma run_calls_built: "built (gs_core g) \<Longrightarrow> calls_ok xs g \<Longrightarrow> built (gs_core (run_calls xs g))"
  by (induction xs g rule: run_calls.induct) (auto simp: graph_step_built)

section \<open>Derivations of built graphs\<close>

text \<open>Both readers of an adjacency agree when the bounded one succeeds: a chain that ends does not cycle.\<close>

lemma fill_links_unique:
  "fill_links c k ident acc = Inr ls \<Longrightarrow> fill_links c j ident acc' = Inr ls' \<Longrightarrow> j = k"
proof (induction k arbitrary: j ident acc acc')
  case 0
  then show ?case by (cases j) (auto split: if_splits)
next
  case (Suc k)
  then show ?case by (cases j) (auto simp: Let_def split: if_splits)
qed

lemma fill_links_length: "fill_links c k ident acc = Inr ls \<Longrightarrow> length ls = k + length acc"
  by (induction c k ident acc rule: fill_links.induct) (auto simp: Let_def split: if_splits)

lemma chain_links_fill:
  assumes "fill_links c k ident (rev links @ acc) = Inr ls" "\<forall>s\<in>set seen. \<exists>j acc' ls'. k < j \<and> fill_links c j s acc' = Inr ls'"
  shows "\<exists>ms. chain_links c (length links + k) ident seen links = Inr ms \<and> rev ms @ acc = ls"
  using assms
proof (induction k arbitrary: ident seen links)
  case 0
  then show ?case by (auto simp: chain_links.simps split: if_splits)
next
  case (Suc k)
  let ?link = "co_links c ! (unat ident - 1)"
  have ok: "ident \<noteq> 0" "\<not> unat ident > length (co_links c)" "validateShape ?link = Inr ()"
    "fill_links c k (lr_next ?link) (rev (links @ [?link]) @ acc) = Inr ls"
    using Suc.prems(1) by (auto simp: Let_def split: if_splits)
  have fresh: "ident \<notin> set seen" using Suc.prems fill_links_unique [OF Suc.prems(1)] by blast
  have "\<forall>s\<in>set (ident # seen). \<exists>j acc' ls'. k < j \<and> fill_links c j s acc' = Inr ls'"
  proof
    fix s assume "s \<in> set (ident # seen)"
    then consider "s = ident" | "s \<in> set seen" by auto
    then show "\<exists>j acc' ls'. k < j \<and> fill_links c j s acc' = Inr ls'"
    proof cases
      case 1
      then show ?thesis using Suc.prems(1) lessI by blast
    next
      case 2
      then show ?thesis using Suc.prems(2) Suc_lessD by blast
    qed
  qed
  then have "\<exists>ms. chain_links c (length (links @ [?link]) + k) (lr_next ?link) (ident # seen) (links @ [?link]) = Inr ms \<and> rev ms @ acc = ls"
    by (rule Suc.IH [OF ok(4)])
  then show ?case using ok fresh by (simp add: chain_links.simps [of c _ ident seen] Let_def)
qed

lemma nodeLinks_into: "nodeLinksInto c n = Inr ls \<Longrightarrow> nodeLinks c n = Inr ls \<and> length ls = unat (nr_linkCount n)"
proof -
  assume "nodeLinksInto c n = Inr ls"
  then have fill: "fill_links c (unat (nr_linkCount n)) (nr_firstLink n) [] = Inr ls"
    by (auto simp: nodeLinksInto_def nodeLinksIntoBounded_def split: if_splits)
  show ?thesis using chain_links_fill [of c "unat (nr_linkCount n)" "nr_firstLink n" "[]" "[]" ls "[]"] fill fill_links_length [OF fill]
    by (auto simp: nodeLinks_def)
qed

text \<open>The derivation of a path, given from the head to the seed.\<close>

definition derivation_of :: "bool \<Rightarrow> linkRecord list \<Rightarrow> derivation" where
  "derivation_of collectPayloads ls =
     \<lparr>dv_Payloads = (if collectPayloads then filter (\<lambda>p. p \<noteq> 0) (map lr_payload (rev ls)) else []),
      dv_Score = sum_list (map lr_scoreDelta ls),
      dv_BranchOrder = (case List.find hasOrder ls of None \<Rightarrow> 0 | Some l \<Rightarrow> lr_order l),
      dv_HasBranchOrder = list_ex hasOrder ls\<rparr>"

definition path_fits :: "linkRecord list \<Rightarrow> bool" where
  "path_fits ls \<longleftrightarrow> sums_fit 0 (rev (map lr_scoreDelta ls))"

lemma sums_fit_append:
  "sums_fit acc (xs @ ys) \<longleftrightarrow> sums_fit acc xs \<and> sums_fit (acc + sum_list xs) ys"
  by (induction xs arbitrary: acc) (auto simp: add.assoc)

lemma path_fits_Cons:
  "path_fits (l # ls) \<longleftrightarrow> path_fits ls \<and> - 9223372036854775808 \<le> sum_list (map lr_scoreDelta ls) + lr_scoreDelta l
     \<and> sum_list (map lr_scoreDelta ls) + lr_scoreDelta l \<le> 9223372036854775807"
  by (simp add: path_fits_def sums_fit_append sum_list_rev)

lemma derivation_of_Nil [simp]: "derivation_of collectPayloads [] = empty_derivation"
  by (simp add: derivation_of_def empty_derivation_def)

lemma extend_path:
  assumes "path_fits (l # ls)"
  shows "extend_derivation collectPayloads l (derivation_of collectPayloads ls) = Inr (derivation_of collectPayloads (l # ls))"
  using assms by (simp add: path_fits_Cons extend_derivation_def derivation_of_def checkedAddScore_fits add.commute split: option.splits)

text \<open>Enumerating up to the cap.\<close>

definition up_to_cap :: "core \<Rightarrow> derivation list \<Rightarrow> derivation list \<Rightarrow> derivation list result" where
  "up_to_cap c paths new =
     (if int (length paths + length new) \<le> uint (cl_MaxDerivations (co_limits c)) then Inr (paths @ new) else Inl DerivationCap)"

lemma add_derivations_paths:
  assumes "int (length paths) \<le> uint (cl_MaxDerivations (co_limits c))" "\<forall>p\<in>set ps. path_fits (l # p)"
  shows "add_derivations c collectPayloads l (map (derivation_of collectPayloads) ps) paths
    = up_to_cap c paths (map (\<lambda>p. derivation_of collectPayloads (l # p)) ps)"
  using assms
proof (induction ps arbitrary: paths)
  case Nil
  then show ?case by (simp add: up_to_cap_def)
next
  case (Cons p ps)
  show ?case
  proof (cases "int (length paths) \<ge> uint (cl_MaxDerivations (co_limits c))")
    case True
    then show ?thesis by (simp add: up_to_cap_def)
  next
    case False
    then have "add_derivations c collectPayloads l (map (derivation_of collectPayloads) ps) (paths @ [derivation_of collectPayloads (l # p)])
        = up_to_cap c (paths @ [derivation_of collectPayloads (l # p)]) (map (\<lambda>p. derivation_of collectPayloads (l # p)) ps)"
      using Cons by (intro Cons.IH) auto
    then show ?thesis using False Cons.prems(2) by (simp add: extend_path up_to_cap_def)
  qed
qed

definition derivations_through :: "core \<Rightarrow> bool \<Rightarrow> linkRecord list \<Rightarrow> derivation list" where
  "derivations_through c collectPayloads ls =
     concat (map (\<lambda>l. map (\<lambda>p. derivation_of collectPayloads (l # p)) (root_paths c (lr_prev l))) ls)"

lemma derivation_links_paths:
  assumes walk: "\<And>l. l \<in> set ls \<Longrightarrow> derivation_walk c collectPayloads vis (lr_prev l) =
      (if links_at c (lr_prev l) = [] \<or> int (length (root_paths c (lr_prev l))) \<le> uint (cl_MaxDerivations (co_limits c))
       then Inr (map (derivation_of collectPayloads) (root_paths c (lr_prev l))) else Inl DerivationCap)"
    and shapes: "\<And>l. l \<in> set ls \<Longrightarrow> validateShape l = Inr ()"
    and fit: "\<And>l p. l \<in> set ls \<Longrightarrow> p \<in> set (root_paths c (lr_prev l)) \<Longrightarrow> path_fits (l # p)"
    and len: "int (length paths) \<le> uint (cl_MaxDerivations (co_limits c))"
  shows "derivation_links c collectPayloads vis ls paths = up_to_cap c paths (derivations_through c collectPayloads ls)"
  using assms
proof (induction ls arbitrary: paths)
  case Nil
  then show ?case by (simp add: up_to_cap_def derivations_through_def)
next
  case (Cons l ls)
  let ?max = "uint (cl_MaxDerivations (co_limits c))" and ?ps = "root_paths c (lr_prev l)"
  let ?new = "map (\<lambda>p. derivation_of collectPayloads (l # p)) ?ps"
  have through: "derivations_through c collectPayloads (l # ls) = ?new @ derivations_through c collectPayloads ls"
    by (simp add: derivations_through_def)
  have step: "derivation_links c collectPayloads vis (l # ls) paths =
      bindR (derivation_walk c collectPayloads vis (lr_prev l)) (\<lambda>prefixes.
      bindR (add_derivations c collectPayloads l prefixes paths) (derivation_links c collectPayloads vis ls))"
    using Cons.prems(2) [of l] by (simp add: derivation_links.simps(2))
  have add: "add_derivations c collectPayloads l (map (derivation_of collectPayloads) ?ps) paths = up_to_cap c paths ?new"
    using Cons.prems(3) [of l] by (intro add_derivations_paths [OF Cons.prems(4)]) simp
  show ?case
  proof (cases "links_at c (lr_prev l) = [] \<or> int (length ?ps) \<le> ?max")
    case False
    then show ?thesis using Cons.prems(1) [of l] unfolding step by (simp add: up_to_cap_def through)
  next
    case True
    then have w: "derivation_walk c collectPayloads vis (lr_prev l) = Inr (map (derivation_of collectPayloads) ?ps)"
      using Cons.prems(1) [of l] by simp
    show ?thesis
    proof (cases "int (length paths + length ?ps) \<le> ?max")
      case False
      then show ?thesis unfolding step w using add by (simp add: up_to_cap_def through)
    next
      case fits: True
      have "derivation_links c collectPayloads vis ls (paths @ ?new) = up_to_cap c (paths @ ?new) (derivations_through c collectPayloads ls)"
        using fits Cons.prems by (intro Cons.IH) auto
      then show ?thesis unfolding step w using fits add by (simp add: up_to_cap_def through add.assoc)
    qed
  qed
qed

lemma saturated_one: "saturated n = 1 \<longleftrightarrow> n = 1"
proof -
  have "saturated n = 1 \<longleftrightarrow> unat (saturated n) = 1" by (metis unat_1 word_unat_eq_iff)
  then show ?thesis by (auto simp: unat_saturated_count)
qed

text \<open>What the record of a node of a built graph says.\<close>

lemma built_node:
  assumes "built c" "node_valid c ident"
  obtains n where "core_node c ident = Inr n" "nodeLinksInto c n = Inr (links_at c ident)" "nodeLinks c n = Inr (links_at c ident)"
    "nr_linkCount n = 0 \<longleftrightarrow> links_at c ident = []" "nr_pathCount n = saturated (length (root_paths c ident))"
    "unat (nr_linkCount n) = length (links_at c ident)"
proof -
  have g: "graph_ok c" using assms(1) by (simp add: built_def)
  obtain n where n: "core_node c ident = Inr n" "nodeLinksInto c n = Inr (links_at c ident)" using graph_node(1) [OF g assms(2)] by blast
  have l: "nodeLinks c n = Inr (links_at c ident)" "length (links_at c ident) = unat (nr_linkCount n)" using nodeLinks_into [OF n(2)] by auto
  have "nr_linkCount n = 0 \<longleftrightarrow> links_at c ident = []" using l(2) by (metis length_0_conv unat_eq_zero)
  moreover have "nr_pathCount n = saturated (length (root_paths c ident))"
    using assms n(1) by (auto simp: built_def counts_ok_def core_node_def split: if_splits)
  ultimately show ?thesis using that n l by metis
qed

lemma derivation_walk_paths:
  assumes b: "built c"
  shows "node_valid c ident \<Longrightarrow> \<forall>v\<in>set vis. ident < v \<Longrightarrow> \<forall>p\<in>set (root_paths c ident). path_fits p \<Longrightarrow>
    derivation_walk c collectPayloads vis ident =
      (if links_at c ident = [] \<or> int (length (root_paths c ident)) \<le> uint (cl_MaxDerivations (co_limits c))
       then Inr (map (derivation_of collectPayloads) (root_paths c ident)) else Inl DerivationCap)"
proof (induction "unat ident" arbitrary: ident vis rule: less_induct)
  case less
  have g: "graph_ok c" using b by (simp add: built_def)
  obtain n where n: "core_node c ident = Inr n" "nodeLinks c n = Inr (links_at c ident)" "nr_linkCount n = 0 \<longleftrightarrow> links_at c ident = []"
      "nr_pathCount n = saturated (length (root_paths c ident))"
    using built_node [OF b less.prems(1)] by metis
  have out: "ident \<notin> set vis" using less.prems(2) by auto
  show ?case
  proof (cases "links_at c ident = []")
    case True
    then have "root_paths c ident = [[]]" by (simp add: root_paths_links [OF g less.prems(1)])
    moreover have "nr_pathCount n = 1" using n(4) calculation saturated_one by simp
    ultimately show ?thesis using True n out by (simp add: derivation_walk.simps)
  next
    case False
    let ?ls = "links_at c ident" and ?max = "uint (cl_MaxDerivations (co_limits c))"
    have rp: "root_paths c ident = concat (map (\<lambda>l. map ((#) l) (root_paths c (lr_prev l))) ?ls)"
      using False by (simp add: root_paths_links [OF g less.prems(1)])
    have link: "link_ok c ident l \<and> validateShape l = Inr () \<and> node_valid c (lr_prev l)" if "l \<in> set ?ls" for l
      using graph_node(2) [OF g less.prems(1) that] .
    have fit: "path_fits (l # p)" if "l \<in> set ?ls" "p \<in> set (root_paths c (lr_prev l))" for l p
      using less.prems(3) that unfolding rp by auto
    have "derivation_links c collectPayloads (ident # vis) ?ls [] = up_to_cap c [] (derivations_through c collectPayloads ?ls)"
    proof (rule derivation_links_paths)
      fix l assume l: "l \<in> set ?ls"
      have lt: "lr_prev l < ident" "node_valid c (lr_prev l)" using link [OF l] by (auto simp: link_ok_def)
      have "\<forall>v\<in>set (ident # vis). lr_prev l < v" using lt(1) less.prems(2) by auto
      moreover have "\<forall>p\<in>set (root_paths c (lr_prev l)). path_fits p" using fit [OF l] by (auto simp: path_fits_Cons)
      ultimately show "derivation_walk c collectPayloads (ident # vis) (lr_prev l) =
          (if links_at c (lr_prev l) = [] \<or> int (length (root_paths c (lr_prev l))) \<le> ?max
           then Inr (map (derivation_of collectPayloads) (root_paths c (lr_prev l))) else Inl DerivationCap)"
        using lt by (intro less.hyps) (auto simp: word_less_nat_alt)
    qed (use link fit in auto)
    moreover have "derivations_through c collectPayloads ?ls = map (derivation_of collectPayloads) (root_paths c ident)"
      by (simp add: rp derivations_through_def map_concat o_def)
    ultimately have links: "derivation_links c collectPayloads (ident # vis) ?ls [] = up_to_cap c [] (map (derivation_of collectPayloads) (root_paths c ident))"
      by simp
    have count: "nr_pathCount n = - 1 \<or> of_nat (length (root_paths c ident)) = nr_pathCount n" if "int (length (root_paths c ident)) \<le> ?max"
    proof -
      have "?max \<le> 18446744073709551615" using uint_lt2p [of "cl_MaxDerivations (co_limits c)"] by simp
      then have "length (root_paths c ident) \<le> 18446744073709551615" using that by linarith
      then show ?thesis by (simp add: n(4) saturated_def)
    qed
    show ?thesis using False n(1-3) out links count
      by (auto simp: derivation_walk.simps [of c collectPayloads vis ident] up_to_cap_def)
  qed
qed

text \<open>A head with one path: the shortcut walks it.\<close>

lemma one_link_paths:
  assumes "graph_ok c" "node_valid c ident" "length (root_paths c ident) = 1" "links_at c ident \<noteq> []"
  obtains l where "links_at c ident = [l]" "length (root_paths c (lr_prev l)) = 1"
proof -
  let ?f = "\<lambda>l. length (root_paths c (lr_prev l))"
  have pos: "1 \<le> ?f l" if "l \<in> set (links_at c ident)" for l
    using root_paths_nonempty [OF assms(1), of "lr_prev l"] graph_node(2) [OF assms(1,2) that] by (cases "root_paths c (lr_prev l)") auto
  have total: "sum_list (map ?f (links_at c ident)) = 1"
    using root_paths_count [OF assms(1,2)] assms(3,4) by (simp add: paths_through_def)
  obtain l ls where ls: "links_at c ident = l # ls" using assms(4) by (cases "links_at c ident") auto
  have "1 \<le> ?f l" "\<And>m. m \<in> set ls \<Longrightarrow> 1 \<le> ?f m" using pos ls by auto
  moreover have "?f l + sum_list (map ?f ls) = 1" using total ls by simp
  moreover have "1 \<le> sum_list (map ?f ls)" if "ls \<noteq> []"
    using that pos ls by (cases ls) (auto simp: Suc_le_eq add_pos_nonneg)
  ultimately have "?f l = 1" "ls = []" by linarith+
  then show ?thesis using that ls by blast
qed

lemma single_links_path:
  assumes b: "built c"
  shows "node_valid c ident \<Longrightarrow> length (root_paths c ident) = 1 \<Longrightarrow> unat ident + length rl \<le> length (co_nodes c) \<Longrightarrow>
    \<exists>ids. single_links c ident rl = Inr (Some (rl @ ids)) \<and> root_paths c ident = [map (link_at c) ids]"
proof (induction "unat ident" arbitrary: ident rl rule: less_induct)
  case less
  have g: "graph_ok c" using b by (simp add: built_def)
  obtain n where n: "core_node c ident = Inr n" "nodeLinksInto c n = Inr (links_at c ident)" "nr_linkCount n = 0 \<longleftrightarrow> links_at c ident = []"
      "nr_pathCount n = saturated (length (root_paths c ident))" "unat (nr_linkCount n) = length (links_at c ident)"
    using built_node [OF b less.prems(1)] by metis
  have one: "nr_pathCount n = 1" using n(4) less.prems(2) saturated_one by simp
  show ?case
  proof (cases "links_at c ident = []")
    case True
    then show ?thesis using n(1,3) one by (intro exI [of _ "[]"]) (simp add: single_links.simps [of c ident] root_paths_links [OF g less.prems(1)])
  next
    case False
    obtain l where l: "links_at c ident = [l]" "length (root_paths c (lr_prev l)) = 1" using one_link_paths [OF g less.prems(1,2) False] .
    let ?id = "nr_firstLink n"
    have cnt: "nr_linkCount n = 1" using n(5) l(1) by (metis length_Cons list.size(3) One_nat_def unat_1 word_unat_eq_iff)
    have "fill_links c 1 ?id [] = Inr [l]" using n(2) l(1) cnt by (auto simp: nodeLinksInto_def nodeLinksIntoBounded_def split: if_splits)
    then have id: "?id \<noteq> 0" "\<not> unat ?id > length (co_links c)" "validateShape l = Inr ()" "lr_next l = 0" "link_at c ?id = l"
      by (auto simp: Let_def split: if_splits)
    have prev: "lr_prev l \<noteq> 0" "unat (lr_prev l) < unat ident" "node_valid c (lr_prev l)"
      using graph_node(2) [OF g less.prems(1), of l] l(1) by (auto simp: link_ok_def word_less_nat_alt)
    have "0 < unat (lr_prev l)" using prev(1) by (simp add: unat_gt_0)
    then have room: "\<not> length (rl @ [?id]) \<ge> length (co_nodes c)" "unat (lr_prev l) + length (rl @ [?id]) \<le> length (co_nodes c)"
      using less.prems(3) prev(2) by auto
    obtain ids where ids: "single_links c (lr_prev l) (rl @ [?id]) = Inr (Some ((rl @ [?id]) @ ids))" "root_paths c (lr_prev l) = [map (link_at c) ids]"
      using less.hyps [OF prev(2,3) l(2) room(2)] by blast
    have "single_links c ident rl = single_links c (lr_prev l) (rl @ [?id])"
      using n(1) one cnt id room(1) by (simp add: single_links.simps [of c ident] Let_def)
    then show ?thesis using ids id(5) l(1) by (intro exI [of _ "?id # ids"]) (simp add: root_paths_links [OF g less.prems(1)])
  qed
qed

lemma single_path_derivation: "path_fits (map (link_at c) ids) \<Longrightarrow> single_path c (rev ids) empty_derivation = Inr (derivation_of True (map (link_at c) ids))"
  by (induction ids) (auto simp: single_path_snoc extend_path path_fits_Cons)

lemma built_derivations:
  assumes b: "built c" and v: "node_valid c head" and fit: "\<forall>p\<in>set (root_paths c head). path_fits p"
  shows "Derivations c head =
    (if int (length (root_paths c head)) \<le> max 1 (uint (cl_MaxDerivations (co_limits c)))
     then Inr (map (derivation_of True) (root_paths c head)) else Inl DerivationCap)"
proof -
  have g: "graph_ok c" using b by (simp add: built_def)
  obtain n where n: "core_node c head = Inr n" "nr_pathCount n = saturated (length (root_paths c head))"
    using built_node [OF b v] by metis
  show ?thesis
  proof (cases "length (root_paths c head) = 1")
    case True
    obtain ids where ids: "single_links c head [] = Inr (Some ids)" "root_paths c head = [map (link_at c) ids]"
      using single_links_path [OF b v True, of "[]"] v by (auto simp: node_valid_def)
    have "single_path c (rev ids) empty_derivation = Inr (derivation_of True (map (link_at c) ids))"
      using fit ids(2) by (intro single_path_derivation) simp
    then show ?thesis using n True ids saturated_one by (simp add: Derivations_def derivations_def singleDerivation_def)
  next
    case False
    then have "nr_pathCount n \<noteq> 1" using n(2) saturated_one by simp
    then have "Derivations c head = derivation_walk c True [] head" using n(1) by (simp add: Derivations_def derivations_def)
    moreover have "2 \<le> length (root_paths c head)" using False root_paths_nonempty [OF g v] by (cases "root_paths c head") (auto simp: Suc_le_eq)
    moreover have "links_at c head \<noteq> []" using False root_paths_links [OF g v] by auto
    ultimately show ?thesis using derivation_walk_paths [OF b v _ fit, of "[]" True] by auto
  qed
qed

lemma built_fresh: "co_nodes c = [] \<Longrightarrow> co_links c = [] \<Longrightarrow> built c"
  by (auto simp: built_def graph_ok_def shapes_ok_def counts_ok_def node_valid_def unat_eq_zero)

text \<open>
  C5. Published graphs. Every sequence of seeds, single-link nodes, condensations of new boundaries,
  rebuilt adjacencies and subtrees on an empty core, failing calls included, leaves a graph to which the
  enumeration of reduction windows applies. The path count stored with a head is the number of its paths
  to a seed, saturated at the largest \<^verbatim>\<open>uint64\<close>, and \<^verbatim>\<open>Derivations\<close> returns exactly the derivations of
  these paths when their scores stay in \<^verbatim>\<open>int64\<close>, or the enumeration error exactly when there are more
  than the cap allows.
\<close>

theorem published_graph_exact:
  assumes "co_nodes (gs_core g) = []" "co_links (gs_core g) = []" "calls_ok calls g" "c = gs_core (run_calls calls g)"
  shows "graph_ok c \<and> shapes_ok c \<and>
    (\<forall>head. node_valid c head \<longrightarrow>
       set (root_paths c head) = {ls. rooted c head ls}
       \<and> HeadExactPathCount c head = Inr (saturated (length (root_paths c head)))
       \<and> ((\<forall>ls. rooted c head ls \<longrightarrow> path_fits ls) \<longrightarrow>
          Derivations c head =
            (if int (length (root_paths c head)) \<le> max 1 (uint (cl_MaxDerivations (co_limits c)))
             then Inr (map (derivation_of True) (root_paths c head)) else Inl DerivationCap)))"
proof -
  have b: "built c" unfolding assms(4) by (rule run_calls_built [OF built_fresh [OF assms(1,2)] assms(3)])
  then have g: "graph_ok c" "shapes_ok c" by (simp_all add: built_def)
  have paths: "set (root_paths c head) = {ls. rooted c head ls}" if "node_valid c head" for head
    using root_paths_rooted [OF g(1) that] by blast
  have "HeadExactPathCount c head = Inr (saturated (length (root_paths c head)))" if "node_valid c head" for head
    using built_node [OF b that] unfolding HeadExactPathCount_def by (metis bindR.simps(2))
  then show ?thesis using g paths built_derivations [OF b] by simp
qed

text \<open>Two ways from a head to a seed, over one token and over two.\<close>

definition demo_state :: graphState where
  "demo_state =
     \<lparr>gs_core = demo_core\<lparr>co_nodes := [], co_links := [], co_subtrees := [], co_storedErrorCosts := [], co_nodeCheckpoints := []\<rparr>,
      gs_boundaries = newBoundaryCore \<lparr>bi_slots = None, bi_generation = 1, bi_count = 0, bi_maxSlots = 64\<rparr>\<rparr>"

definition demo_calls :: "buildCall list" where
  "demo_calls =
     [SubtreeCall (demo_subtree 0 1 False) [] [] [], SubtreeCall (demo_subtree 1 2 False) [] [] [], SubtreeCall (demo_subtree 0 2 False) [] [] [],
      SeedCall 1 0,
      PrivateCall 2 1 \<lparr>li_prev = 1, li_payload = 1, li_scoreDelta = 0, li_order = no_order, li_storedErrorCost = 0, li_hasStoredErrorCost = False\<rparr>,
      AdjacencyCall 3 2 0 [demo_link 2 2 0 5, demo_link 1 3 0 7] no_witness 0 False]"

theorem published_graph_exact_witness:
  "calls_ok demo_calls demo_state
   \<and> HeadExactPathCount (gs_core (run_calls demo_calls demo_state)) 3 = Inr (saturated 2)
   \<and> (\<exists>ds. Derivations (gs_core (run_calls demo_calls demo_state)) 3 = Inr ds
        \<and> map dv_Payloads ds = [[1, 2], [3]] \<and> map dv_Score ds = [5, 7])"
proof -
  let ?c = "gs_core (run_calls demo_calls demo_state)"
  let ?paths = "[[demo_link 2 2 0 5, demo_link 1 1 0 0], [demo_link 1 3 2 7]]"
  have ok: "calls_ok demo_calls demo_state" by code_simp
  have v: "node_valid ?c 3" by code_simp
  have paths: "root_paths ?c 3 = ?paths" by code_simp
  have cap: "cl_MaxDerivations (co_limits ?c) = 64" by code_simp
  have fresh: "co_nodes (gs_core demo_state) = []" "co_links (gs_core demo_state) = []" by (simp_all add: demo_state_def)
  note exact = published_graph_exact [OF fresh ok refl, THEN conjunct2, THEN conjunct2, rule_format, OF v]
  have fit: "\<forall>ls\<in>set ?paths. path_fits ls" by code_simp
  have "rooted ?c 3 ls \<longrightarrow> path_fits ls" for ls using fit conjunct1 [OF exact] unfolding paths by blast
  then have "Derivations ?c 3 = Inr (map (derivation_of True) ?paths)" using conjunct2 [OF conjunct2 [OF exact]] unfolding paths cap by simp
  moreover have "map dv_Payloads (map (derivation_of True) ?paths) = [[1, 2], [3]]" "map dv_Score (map (derivation_of True) ?paths) = [5, 7]"
    by (simp_all add: derivation_of_def demo_link_def)
  moreover have "HeadExactPathCount ?c 3 = Inr (saturated 2)" using conjunct1 [OF conjunct2 [OF exact]] unfolding paths by (simp add: numeral_2_eq_2)
  ultimately show ?thesis using ok by (intro conjI exI) auto
qed

end
