(* ===== verification/Alternative_Sets.thy ===== *)
theory Alternative_Sets
  imports Go_Prelude
begin

text \<open>
  The alternative sets and lineage records of the compact parser core, \<^verbatim>\<open>core.go\<close> and
  \<^verbatim>\<open>scheduler_owned.go\<close> under \<^verbatim>\<open>internal/runtime/internal/parsercorephase0\<close>. A set of reduction
  alternatives keeps one member inline and spills into an arena all sets share; beyond a hard cap it
  stops recording and is marked. Sets are copied by value, so several of them share a segment of the
  arena, and a transaction is rolled back from a journal of the headers alone.

  The lemmas show that every set behaves as a set of its own with the cap, whatever shares its storage,
  and that any nesting of transactions leaves exactly what the committed operations record. The
  references to drop cohorts, the stored error costs and the proof flag of reused subtrees are not
  modelled.
\<close>

unbundle bit_operations_syntax

section \<open>Sets\<close>

definition alternativeSetInlineCapacity :: nat where "alternativeSetInlineCapacity = 1"
definition alternativeSetHardCap :: nat where "alternativeSetHardCap = 32"
definition alternativeSetFlagOverflowed :: u8 where "alternativeSetFlagOverflowed = 1"
definition alternativeSetFlagSpilled :: u8 where "alternativeSetFlagSpilled = 2"

text \<open>The field \<open>as_inline\<close> is an array of the inline capacity.\<close>

record alternativeSet =
  as_inline :: "u32 list"
  as_count :: u8
  as_flags :: u8
  as_spillRef :: u32

definition no_members :: alternativeSet where
  "no_members = \<lparr>as_inline = replicate alternativeSetInlineCapacity 0, as_count = 0, as_flags = 0, as_spillRef = 0\<rparr>"

definition packAlternativeSetMember :: "u16 \<Rightarrow> u16 \<Rightarrow> u32" where
  "packAlternativeSetMember event branch = push_bit 16 (ucast event) OR ucast branch"

definition spilled :: "alternativeSet \<Rightarrow> bool" where
  "spilled s \<longleftrightarrow> as_flags s AND alternativeSetFlagSpilled \<noteq> 0"

definition Overflowed :: "alternativeSet \<Rightarrow> bool" where
  "Overflowed s \<longleftrightarrow> as_flags s AND alternativeSetFlagOverflowed \<noteq> 0"

definition alternativeSetMembers :: "u32 list \<Rightarrow> alternativeSet \<Rightarrow> u32 list option" where
  "alternativeSetMembers arena s =
     (if \<not> spilled s then Some (take (unat (as_count s)) (as_inline s))
      else if as_spillRef s = 0 then (if as_count s = 0 then Some [] else None)
      else let start = unat (as_spillRef s) - 1; fin = start + unat (as_count s) in
        if fin > length arena then None else Some (slice arena start fin))"

fun search_from :: "nat \<Rightarrow> u32 list \<Rightarrow> u32 \<Rightarrow> nat \<times> bool" where
  "search_from index [] member = (index, False)"
| "search_from index (existing # rest) member =
     (if existing = member then (index, True)
      else if existing > member then (index, False)
      else search_from (Suc index) rest member)"

definition searchAlternativeSetMembers :: "u32 list \<Rightarrow> u32 \<Rightarrow> nat \<times> bool" where
  "searchAlternativeSetMembers members member = search_from 0 members member"

text \<open>The result: whether the set changed, the set and the arena.\<close>

definition alternativeSetInsert :: "u32 list \<Rightarrow> alternativeSet \<Rightarrow> u32 \<Rightarrow> bool \<times> alternativeSet \<times> u32 list" where
  "alternativeSetInsert arena s member =
     (if member = 0 then (False, s, arena)
      else if as_flags s AND alternativeSetFlagOverflowed \<noteq> 0 then (False, s, arena)
      else case alternativeSetMembers arena s of
        None \<Rightarrow> (False, s, arena)
      | Some current \<Rightarrow>
          (case searchAlternativeSetMembers current member of (position, found) \<Rightarrow>
           if found then (False, s, arena)
           else if unat (as_count s) \<ge> alternativeSetHardCap
           then (True, s\<lparr>as_flags := as_flags s OR alternativeSetFlagOverflowed\<rparr>, arena)
           else if position = length current \<and> \<not> spilled s \<and> length current < alternativeSetInlineCapacity
           then (True, s\<lparr>as_inline := (as_inline s)[length current := member], as_count := as_count s + 1\<rparr>, arena)
           else if position = length current \<and> spilled s \<and> int (unat (as_spillRef s)) - 1 + int (length current) = int (length arena)
           then (True, s\<lparr>as_count := as_count s + 1\<rparr>, arena @ [member])
           else (True, s\<lparr>as_spillRef := of_nat (length arena) + 1, as_count := of_nat (length current + 1),
                       as_flags := as_flags s OR alternativeSetFlagSpilled\<rparr>,
                 arena @ take position current @ [member] @ drop position current)))"

fun contains_scan :: "u32 list \<Rightarrow> u32 list \<Rightarrow> bool" where
  "contains_scan [] haystack \<longleftrightarrow> True"
| "contains_scan (member # needle) haystack \<longleftrightarrow>
     (case dropWhile (\<lambda>h. h < member) haystack of
        [] \<Rightarrow> False
      | h # rest \<Rightarrow> if h \<noteq> member then False else contains_scan needle rest)"

definition alternativeSetSortedContainsAll :: "u32 list \<Rightarrow> u32 list \<Rightarrow> bool" where
  "alternativeSetSortedContainsAll needle haystack \<longleftrightarrow>
     (if length needle > length haystack then False
      else if needle = [] then True
      else if hd needle < hd haystack \<or> List.last needle > List.last haystack then False
      else contains_scan needle haystack)"

fun insert_members :: "u32 list \<Rightarrow> alternativeSet \<Rightarrow> u32 list \<Rightarrow> bool \<times> alternativeSet \<times> u32 list" where
  "insert_members arena dst [] = (False, dst, arena)"
| "insert_members arena dst (member # members) =
     (case alternativeSetInsert arena dst member of (changed, dst, arena) \<Rightarrow>
      case insert_members arena dst members of (changed', dst, arena) \<Rightarrow> (changed \<or> changed', dst, arena))"

definition alternativeSetUnion :: "u32 list \<Rightarrow> alternativeSet \<Rightarrow> alternativeSet \<Rightarrow> bool \<times> alternativeSet \<times> u32 list" where
  "alternativeSetUnion arena dst src =
     (if as_flags dst AND alternativeSetFlagOverflowed \<noteq> 0 then (False, dst, arena)
      else if Overflowed src then (True, dst\<lparr>as_flags := as_flags dst OR alternativeSetFlagOverflowed\<rparr>, arena)
      else if as_count src = 0 then (False, dst, arena)
      else if as_count dst = 0 then (True, src, arena)
      else case alternativeSetMembers arena src of
        None \<Rightarrow> (False, dst, arena)
      | Some srcMembers \<Rightarrow>
          if (case alternativeSetMembers arena dst of None \<Rightarrow> False | Some dstMembers \<Rightarrow> alternativeSetSortedContainsAll srcMembers dstMembers)
          then (False, dst, arena)
          else insert_members arena dst srcMembers)"

definition AlternativeSetIncomparable :: "u32 list \<Rightarrow> alternativeSet \<Rightarrow> alternativeSet \<Rightarrow> bool" where
  "AlternativeSetIncomparable arena a b =
     (let read = (\<lambda>s. case alternativeSetMembers arena s of None \<Rightarrow> [] | Some ms \<Rightarrow> ms) in
      if alternativeSetSortedContainsAll (read a) (read b) then False
      else if alternativeSetSortedContainsAll (read b) (read a) then False
      else True)"

section \<open>One set\<close>

text \<open>The flags as they occur: both bits are free of each other.\<close>

lemma flag_bits [simp]:
  "(f OR alternativeSetFlagOverflowed) AND alternativeSetFlagSpilled = f AND alternativeSetFlagSpilled"
  "(f OR alternativeSetFlagSpilled) AND alternativeSetFlagOverflowed = f AND alternativeSetFlagOverflowed"
  "(f OR alternativeSetFlagOverflowed) AND alternativeSetFlagOverflowed \<noteq> 0"
  "(f OR alternativeSetFlagSpilled) AND alternativeSetFlagSpilled \<noteq> 0"
proof -
  have d: "alternativeSetFlagOverflowed AND alternativeSetFlagSpilled = 0" "alternativeSetFlagSpilled AND alternativeSetFlagOverflowed = 0"
    by (simp_all add: alternativeSetFlagOverflowed_def alternativeSetFlagSpilled_def)
  show "(f OR alternativeSetFlagOverflowed) AND alternativeSetFlagSpilled = f AND alternativeSetFlagSpilled"
    "(f OR alternativeSetFlagSpilled) AND alternativeSetFlagOverflowed = f AND alternativeSetFlagOverflowed"
    by (simp_all add: bit.conj_disj_distrib2 d)
  show "(f OR alternativeSetFlagOverflowed) AND alternativeSetFlagOverflowed \<noteq> 0"
    "(f OR alternativeSetFlagSpilled) AND alternativeSetFlagSpilled \<noteq> 0"
    by (simp_all add: bit.conj_disj_distrib2 alternativeSetFlagOverflowed_def alternativeSetFlagSpilled_def or_eq_0_iff)
qed

lemma flags_nonzero [simp]: "alternativeSetFlagOverflowed \<noteq> 0" "alternativeSetFlagSpilled \<noteq> 0"
  by (simp_all add: alternativeSetFlagOverflowed_def alternativeSetFlagSpilled_def)

definition members :: "u32 list \<Rightarrow> alternativeSet \<Rightarrow> u32 list" where
  "members arena s = (case alternativeSetMembers arena s of None \<Rightarrow> [] | Some ms \<Rightarrow> ms)"

definition set_ok :: "u32 list \<Rightarrow> alternativeSet \<Rightarrow> bool" where
  "set_ok arena s \<longleftrightarrow>
     length (as_inline s) = 1 \<and> unat (as_count s) \<le> 32
     \<and> (if spilled s then 0 < as_count s \<and> 0 < as_spillRef s \<and> unat (as_spillRef s) - 1 + unat (as_count s) \<le> length arena
        else unat (as_count s) \<le> 1)
     \<and> sorted_wrt (<) (members arena s) \<and> 0 \<notin> set (members arena s)"

lemma set_ok_members:
  assumes "set_ok arena s"
  shows "alternativeSetMembers arena s = Some (members arena s)" "length (members arena s) = unat (as_count s)"
  using assms by (auto simp: set_ok_def members_def alternativeSetMembers_def Let_def slice_def)

lemma members_append:
  assumes "set_ok arena s"
  shows "members (arena @ ext) s = members arena s" "set_ok (arena @ ext) s"
proof -
  show "members (arena @ ext) s = members arena s"
    using assms by (auto simp: set_ok_def members_def alternativeSetMembers_def Let_def slice_def)
  then show "set_ok (arena @ ext) s" using assms by (auto simp: set_ok_def)
qed

lemma search_sorted:
  "sorted_wrt (<) ms \<Longrightarrow> search_from i ms m = (i + length (takeWhile (\<lambda>x. x < m) ms), m \<in> set ms)"
proof (induction ms arbitrary: i)
  case (Cons x ms)
  consider "x = m" | "m < x" | "x < m" by (rule linorder_cases)
  then show ?case
  proof cases
    case 2
    then have "m \<notin> set ms" using Cons.prems by fastforce
    then show ?thesis using 2 by auto
  qed (use Cons in auto)
qed simp

lemma sorted_insertion:
  fixes ms :: "u32 list"
  assumes "sorted_wrt (<) ms" "m \<notin> set ms" "p = length (takeWhile (\<lambda>x. x < m) ms)"
  shows "sorted_wrt (<) (take p ms @ [m] @ drop p ms)" "set (take p ms @ [m] @ drop p ms) = insert m (set ms)"
    "p = length ms \<Longrightarrow> \<forall>x\<in>set ms. x < m"
proof -
  have tk: "take p ms = takeWhile (\<lambda>x. x < m) ms" and dr: "drop p ms = dropWhile (\<lambda>x. x < m) ms"
    unfolding assms(3) by (rule takeWhile_eq_take [symmetric] dropWhile_eq_drop [symmetric])+
  have lo: "x < m" if "x \<in> set (take p ms)" for x using that tk set_takeWhileD by force
  have split: "sorted_wrt (<) (take p ms @ drop p ms)" using assms(1) by simp
  have hi: "m < x" if "x \<in> set (drop p ms)" for x
  proof (cases "drop p ms")
    case (Cons h t)
    then have "\<not> h < m" using dr hd_dropWhile [of "\<lambda>x. x < m" ms] by auto
    moreover have "h \<in> set ms" using Cons by (metis in_set_dropD list.set_intros(1))
    ultimately have "m < h" using assms(2) by (cases m h rule: linorder_cases) auto
    moreover have "x = h \<or> h < x" using that Cons split by (auto simp: sorted_wrt_append)
    ultimately show ?thesis by auto
  qed (use that in simp)
  show "sorted_wrt (<) (take p ms @ [m] @ drop p ms)" using split lo hi by (fastforce simp: sorted_wrt_append)
  show "set (take p ms @ [m] @ drop p ms) = insert m (set ms)" using set_append [of "take p ms" "drop p ms"] by auto
  show "\<forall>x\<in>set ms. x < m" if "p = length ms" using lo that by simp
qed

text \<open>The specification: a set of members with the mark of an overflow.\<close>

type_synonym view = "u32 set \<times> bool"

definition view_of :: "u32 list \<Rightarrow> alternativeSet \<Rightarrow> view" where
  "view_of arena s = (set (members arena s), Overflowed s)"

definition spec_insert :: "u32 \<Rightarrow> view \<Rightarrow> view" where
  "spec_insert m v =
     (if m = 0 \<or> snd v \<or> m \<in> fst v then v
      else if card (fst v) \<ge> 32 then (fst v, True)
      else (insert m (fst v), False))"

text \<open>What an operation may do to a set: its inline member stays, so the older header still reads as before.\<close>

definition keeps_header :: "alternativeSet \<Rightarrow> alternativeSet \<Rightarrow> bool" where
  "keeps_header s s' \<longleftrightarrow> as_count s \<le> as_count s' \<and> (as_count s \<noteq> 0 \<longrightarrow> as_inline s' = as_inline s)"

lemma card_members: "set_ok arena s \<Longrightarrow> card (fst (view_of arena s)) = unat (as_count s)"
proof -
  assume ok: "set_ok arena s"
  then have "distinct (members arena s)" by (simp add: set_ok_def strict_sorted_iff)
  then show ?thesis using set_ok_members(2) [OF ok] by (simp add: view_of_def distinct_card)
qed

definition set_step :: "u32 list \<Rightarrow> alternativeSet \<Rightarrow> view \<Rightarrow> nat \<Rightarrow> bool \<times> alternativeSet \<times> u32 list \<Rightarrow> bool" where
  "set_step arena s v n r \<longleftrightarrow>
     (case r of (changed, s', arena') \<Rightarrow>
        set_ok arena' s' \<and> (\<exists>ext. arena' = arena @ ext \<and> length ext \<le> n) \<and> view_of arena' s' = v \<and> keeps_header s s'
        \<and> (changed \<longleftrightarrow> v \<noteq> view_of arena s) \<and> (\<not> changed \<longrightarrow> s' = s \<and> arena' = arena))"

lemma set_step_same: "set_ok arena s \<Longrightarrow> set_step arena s (view_of arena s) n (False, s, arena)"
  by (simp add: set_step_def keeps_header_def)

lemma insert_step:
  assumes ok: "set_ok arena s" and room: "length arena + 33 < 2 ^ 32"
  shows "set_step arena s (spec_insert m (view_of arena s)) 32 (alternativeSetInsert arena s m)"
proof -
  let ?ms = "members arena s"
  note mem = set_ok_members [OF ok]
  have srt: "sorted_wrt (<) ?ms" and nz: "0 \<notin> set ?ms" using ok by (auto simp: set_ok_def)
  define p where "p = length (takeWhile (\<lambda>x. x < m) ?ms)"
  have search: "searchAlternativeSetMembers ?ms m = (p, m \<in> set ?ms)"
    using search_sorted [OF srt] by (simp add: searchAlternativeSetMembers_def p_def)
  have ov: "Overflowed s \<longleftrightarrow> as_flags s AND alternativeSetFlagOverflowed \<noteq> 0" by (simp add: Overflowed_def)
  show ?thesis
  proof (cases "m = 0 \<or> Overflowed s \<or> m \<in> set ?ms")
    case True
    then have "alternativeSetInsert arena s m = (False, s, arena)" "spec_insert m (view_of arena s) = view_of arena s"
      using mem search ov by (auto simp: alternativeSetInsert_def spec_insert_def view_of_def)
    then show ?thesis using set_step_same [OF ok] by simp
  next
    case new: False
    show ?thesis
    proof (cases "unat (as_count s) \<ge> 32")
      case True
      let ?s = "s\<lparr>as_flags := as_flags s OR alternativeSetFlagOverflowed\<rparr>"
      have "alternativeSetInsert arena s m = (True, ?s, arena)"
        using new True mem search ov by (auto simp: alternativeSetInsert_def alternativeSetHardCap_def)
      moreover have ms: "members arena ?s = ?ms" "spilled ?s = spilled s" "Overflowed ?s"
        by (simp_all add: members_def alternativeSetMembers_def spilled_def Overflowed_def)
      moreover have "set_ok arena ?s" using ok ms by (auto simp: set_ok_def split: if_splits)
      moreover have "spec_insert m (view_of arena s) = (set ?ms, True)"
        using new True card_members [OF ok] by (simp add: spec_insert_def view_of_def)
      ultimately show ?thesis using new by (auto simp: set_step_def view_of_def keeps_header_def)
    next
      case False
      have spec: "spec_insert m (view_of arena s) = (insert m (set ?ms), False)"
        using new False card_members [OF ok] by (simp add: spec_insert_def view_of_def)
      have cnt: "unat (as_count s + 1) = Suc (unat (as_count s))" using False by (simp add: unat_word_ariths)
      have up: "as_count s \<le> as_count s + 1" using cnt by (simp add: word_le_nat_alt)
      note ins = sorted_insertion [OF srt _ p_def]
      have fin: "set_step arena s (spec_insert m (view_of arena s)) 32 (True, s', arena @ ext)"
        if "members (arena @ ext) s' = take p ?ms @ [m] @ drop p ?ms" "length ext \<le> 32" "as_flags s' AND alternativeSetFlagOverflowed = 0"
          "length (as_inline s') = 1" "unat (as_count s') = Suc (unat (as_count s))" "as_count s \<noteq> 0 \<longrightarrow> as_inline s' = as_inline s"
          "if spilled s' then 0 < as_spillRef s' \<and> unat (as_spillRef s') - 1 + unat (as_count s') \<le> length (arena @ ext) else unat (as_count s') \<le> 1"
        for s' ext
      proof -
        have "set_ok (arena @ ext) s'" using that new nz False ins unfolding set_ok_def by (auto simp: word_less_nat_alt split: if_splits)
        moreover have "view_of (arena @ ext) s' = (insert m (set ?ms), False)"
          using that(1,3) ins(2) new by (simp add: view_of_def Overflowed_def)
        moreover have "insert m (set ?ms) \<noteq> set ?ms" using new by auto
        ultimately show ?thesis using that spec by (auto simp: set_step_def keeps_header_def word_le_nat_alt view_of_def)
      qed
      consider (tail) "p = length ?ms" "\<not> spilled s" "length ?ms < 1"
        | (grow) "p = length ?ms" "spilled s" "int (unat (as_spillRef s)) - 1 + int (length ?ms) = int (length arena)"
        | (copy) "\<not> (p = length ?ms \<and> \<not> spilled s \<and> length ?ms < 1)"
            "\<not> (p = length ?ms \<and> spilled s \<and> int (unat (as_spillRef s)) - 1 + int (length ?ms) = int (length arena))" by blast
      then show ?thesis
      proof cases
        case tail
        let ?s = "s\<lparr>as_inline := (as_inline s)[length ?ms := m], as_count := as_count s + 1\<rparr>"
        have r: "alternativeSetInsert arena s m = (True, ?s, arena @ [])"
          using new False mem search ov tail by (auto simp: alternativeSetInsert_def alternativeSetHardCap_def alternativeSetInlineCapacity_def)
        have c0: "unat (as_count s) = 0" "?ms = []" using tail mem(2) by auto
        obtain x where x: "as_inline s = [x]" using ok by (auto simp: set_ok_def length_Suc_conv)
        have sp: "\<not> spilled ?s" using tail(2) by (simp add: spilled_def)
        have "members arena ?s = [m]" using sp x c0 cnt by (simp add: members_def alternativeSetMembers_def)
        then show ?thesis unfolding r using c0 x cnt sp new ov by (intro fin) (auto simp: unat_eq_zero)
      next
        case grow
        let ?s = "s\<lparr>as_count := as_count s + 1\<rparr>"
        have r: "alternativeSetInsert arena s m = (True, ?s, arena @ [m])"
          using new False mem search ov grow by (auto simp: alternativeSetInsert_def alternativeSetHardCap_def)
        have sp: "spilled ?s" and ref: "0 < as_spillRef s" and len: "length (as_inline s) = 1"
          using grow(2) ok by (simp_all add: spilled_def set_ok_def)
        then have pos: "0 < unat (as_spillRef s)" by (simp add: word_less_nat_alt)
        have st: "unat (as_spillRef s) - 1 + length ?ms = length arena" using grow(3) pos by linarith
        have ms: "?ms = drop (unat (as_spillRef s) - 1) arena"
          using mem grow(2) ref st by (auto simp: alternativeSetMembers_def Let_def slice_def split: if_splits)
        have "members (arena @ [m]) ?s = drop (unat (as_spillRef s) - 1) arena @ [m]"
          using sp ref st cnt mem(2) by (simp add: members_def alternativeSetMembers_def Let_def slice_def)
        then show ?thesis unfolding r using ms cnt sp ref st mem(2) grow(1) new ov len by (intro fin) auto
      next
        case copy
        let ?new = "take p ?ms @ [m] @ drop p ?ms"
        let ?s = "s\<lparr>as_spillRef := of_nat (length arena) + 1, as_count := of_nat (length ?ms + 1), as_flags := as_flags s OR alternativeSetFlagSpilled\<rparr>"
        have r: "alternativeSetInsert arena s m = (True, ?s, arena @ ?new)"
          using new False mem search ov copy by (auto simp: alternativeSetInsert_def alternativeSetHardCap_def alternativeSetInlineCapacity_def)
        have sp: "spilled ?s" and len: "length (as_inline s) = 1" using ok by (simp_all add: spilled_def set_ok_def)
        have c1: "unat (of_nat (length ?ms + 1) :: u8) = Suc (unat (as_count s))" using mem(2) cnt by (simp add: add.commute)
        have rf: "unat (of_nat (length arena) + 1 :: u32) = Suc (length arena)"
          using room by (simp add: unat_word_ariths unat_of_nat)
        then have rf0: "of_nat (length arena) + 1 \<noteq> (0 :: u32)" by (metis nat.simps(3) unat_0)
        have nl: "length ?new = Suc (unat (as_count s))" using mem(2) by simp
        have "members (arena @ xs) ?s = xs" if "length xs = Suc (unat (as_count s))" for xs
        proof -
          have "alternativeSetMembers (arena @ xs) ?s = Some (slice (arena @ xs) (length arena) (length arena + length xs))"
            using sp rf rf0 c1 that by (simp add: alternativeSetMembers_def Let_def)
          then show ?thesis by (simp add: members_def slice_def)
        qed
        from this [OF nl] have "members (arena @ ?new) ?s = ?new" .
        moreover have "length ?new \<le> 32" using nl False by simp
        moreover have "0 < as_spillRef ?s" using rf0 by (simp add: word_neq_0_conv)
        moreover have "unat (as_spillRef ?s) - 1 + unat (as_count ?s) \<le> length (arena @ ?new)"
        proof -
          have "length (arena @ ?new) = length arena + Suc (unat (as_count s))" unfolding length_append [of arena ?new] nl ..
          moreover have "unat (as_spillRef ?s) = Suc (length arena)" "unat (as_count ?s) = Suc (unat (as_count s))" using rf c1 by simp_all
          ultimately show ?thesis by (simp only: diff_Suc_1 One_nat_def order_refl)
        qed
        moreover have "unat (as_count ?s) = Suc (unat (as_count s))" using c1 by simp
        moreover have "as_flags ?s AND alternativeSetFlagOverflowed = 0" using new ov by simp
        moreover have "as_inline ?s = as_inline s" by simp
        ultimately show ?thesis unfolding r using sp len by (intro fin) (simp_all only: if_True simp_thms)
      qed
    qed
  qed
qed

section \<open>Unions\<close>

lemma contains_scan_subset:
  "sorted_wrt (<) needle \<Longrightarrow> sorted_wrt (<) haystack \<Longrightarrow> contains_scan needle haystack \<longleftrightarrow> set needle \<subseteq> set haystack"
proof (induction needle haystack rule: contains_scan.induct)
  case (2 m needle haystack)
  let ?rest = "dropWhile (\<lambda>h. h < m) haystack"
  have split: "haystack = takeWhile (\<lambda>h. h < m) haystack @ ?rest" by simp
  have low: "x < m" if "x \<in> set (takeWhile (\<lambda>h. h < m) haystack)" for x using set_takeWhileD [OF that] by simp
  have notlow: "m \<notin> set (takeWhile (\<lambda>h. h < m) haystack)" using low [of m] by auto
  have hays: "set haystack = set (takeWhile (\<lambda>h. h < m) haystack) \<union> set ?rest"
    unfolding set_append [symmetric] takeWhile_dropWhile_id ..
  have srt: "sorted_wrt (<) ?rest" using 2(3) sorted_wrt_append split by metis
  show ?case
  proof (cases ?rest)
    case Nil
    then have "m \<notin> set haystack" using notlow unfolding hays Nil by simp
    then show ?thesis unfolding contains_scan.simps Nil by simp
  next
    case (Cons h rest)
    have "\<not> h < m" using hd_dropWhile [of "\<lambda>h. h < m" haystack] Cons by simp
    show ?thesis
    proof (cases "h = m")
      case False
      then have "m < h" using \<open>\<not> h < m\<close> by (cases m h rule: linorder_cases) auto
      then have "m \<notin> set ?rest" using srt Cons by auto
      then have "m \<notin> set haystack" using notlow unfolding hays by simp
      then show ?thesis using Cons False by simp
    next
      case True
      have "set needle \<subseteq> set haystack \<longleftrightarrow> set needle \<subseteq> set rest"
      proof -
        have "m < x" if "x \<in> set needle" for x using 2(2) that by simp
        then have "x \<notin> set (takeWhile (\<lambda>h. h < m) haystack)" "x \<noteq> m" if "x \<in> set needle" for x
          using that low [of x] by (auto dest: less_asym)
        then show ?thesis unfolding hays Cons using True by auto
      qed
      moreover have "m \<in> set haystack" unfolding hays Cons using True by simp
      moreover have "contains_scan needle rest \<longleftrightarrow> set needle \<subseteq> set rest"
        using 2(1) [OF Cons] True 2(2) srt Cons by simp
      ultimately show ?thesis using Cons True by simp
    qed
  qed
qed simp

lemma strict_sorted_bounds:
  assumes "sorted_wrt (<) (xs :: u32 list)" "x \<in> set xs"
  shows "hd xs \<le> x" "x \<le> List.last xs"
proof -
  show "hd xs \<le> x" using assms by (cases xs) auto
  obtain ys where "xs = ys @ [List.last xs]" using assms(2) append_butlast_last_id [of xs] by (metis empty_iff List.empty_set)
  then show "x \<le> List.last xs" using assms by (metis Un_iff less_imp_le list.set_intros(1) order_refl set_ConsD set_append sorted_wrt_append empty_iff List.empty_set)
qed

lemma containsAll_subset:
  assumes "sorted_wrt (<) needle" "sorted_wrt (<) haystack"
  shows "alternativeSetSortedContainsAll needle haystack \<longleftrightarrow> set needle \<subseteq> set haystack"
proof -
  have d: "distinct needle" "distinct haystack" using assms by (simp_all add: strict_sorted_iff)
  have len: "length needle \<le> length haystack" if "set needle \<subseteq> set haystack"
    using that card_mono [of "set haystack" "set needle"] d by (simp add: distinct_card)
  have "\<not> (hd needle < hd haystack \<or> List.last needle > List.last haystack)" if sub: "set needle \<subseteq> set haystack" "needle \<noteq> []"
  proof -
    have "hd needle \<in> set haystack" "List.last needle \<in> set haystack" using sub by auto
    then show ?thesis using strict_sorted_bounds [OF assms(2)] by (auto simp: not_less)
  qed
  then show ?thesis using contains_scan_subset [OF assms] len by (auto simp: alternativeSetSortedContainsAll_def not_less)
qed

definition spec_union :: "view \<Rightarrow> view \<Rightarrow> view" where
  "spec_union v w =
     (if snd v then v
      else if snd w then (fst v, True)
      else (fst v \<union> set (take (32 - card (fst v)) (sorted_list_of_set (fst w - fst v))), card (fst v \<union> fst w) > 32))"

definition view_grows :: "view \<Rightarrow> view \<Rightarrow> bool" where
  "view_grows v w \<longleftrightarrow> fst v \<subseteq> fst w \<and> (snd v \<longrightarrow> snd w)"

lemma spec_insert_grows: "view_grows v (spec_insert m v)"
  by (auto simp: view_grows_def spec_insert_def)

lemma view_grows_antisym: "view_grows u v \<Longrightarrow> view_grows v u \<Longrightarrow> v = u"
  by (cases u; cases v) (auto simp: view_grows_def)

lemma fold_insert_grows: "view_grows v (fold spec_insert ms v)"
proof (induction ms arbitrary: v)
  case (Cons m ms)
  have "view_grows (spec_insert m v) (fold spec_insert (m # ms) v)" using Cons [of "spec_insert m v"] by simp
  with spec_insert_grows [of v m] show ?case unfolding view_grows_def by (meson subset_trans)
qed (simp add: view_grows_def)

lemma fold_insert_frozen: "fold spec_insert ms (S, True) = (S, True)"
  by (induction ms) (auto simp: spec_insert_def)

lemma fold_insert_union:
  assumes "distinct ms" "0 \<notin> set ms" "finite S" "card S \<le> 32"
  shows "fold spec_insert ms (S, False) = (S \<union> set (take (32 - card S) (filter (\<lambda>m. m \<notin> S) ms)), card (S \<union> set ms) > 32)"
  using assms
proof (induction ms arbitrary: S)
  case (Cons m ms)
  consider (old) "m \<in> S" | (full) "m \<notin> S" "card S = 32" | (fresh) "m \<notin> S" "card S < 32" using Cons.prems(4) by fastforce
  then show ?case
  proof cases
    case old
    then have "spec_insert m (S, False) = (S, False)" by (simp add: spec_insert_def)
    then show ?thesis using old Cons by (simp add: insert_absorb)
  next
    case full
    have "card (insert m S) \<le> card (S \<union> set (m # ms))" using Cons.prems(3) by (intro card_mono) auto
    then have "card (S \<union> set (m # ms)) > 32" using full Cons.prems(3) by simp
    moreover have "spec_insert m (S, False) = (S, True)" using full Cons.prems(2) by (auto simp: spec_insert_def)
    ultimately show ?thesis using full by (simp add: fold_insert_frozen)
  next
    case fresh
    have "filter (\<lambda>x. x \<notin> insert m S) ms = filter (\<lambda>x. x \<notin> S) ms" using Cons.prems(1) by (intro filter_cong) auto
    moreover have "card (insert m S) = Suc (card S)" using fresh Cons.prems(3) by simp
    moreover have "32 - card S = Suc (32 - Suc (card S))" using fresh by simp
    moreover have "spec_insert m (S, False) = (insert m S, False)" using fresh Cons.prems(2) by (auto simp: spec_insert_def)
    ultimately show ?thesis using fresh Cons.IH [of "insert m S"] Cons.prems by simp
  qed
qed simp

lemma insert_members_step:
  assumes "set_ok arena dst" "length arena + 33 * (length ms + 1) < 2 ^ 32"
  shows "set_step arena dst (fold spec_insert ms (view_of arena dst)) (32 * length ms) (insert_members arena dst ms)"
  using assms
proof (induction arena dst ms rule: insert_members.induct)
  case (1 arena dst)
  then show ?case using set_step_same by simp
next
  case (2 arena dst m ms)
  obtain c1 d1 a1 where r1: "alternativeSetInsert arena dst m = (c1, d1, a1)" by (metis prod_cases3)
  have s1: "set_step arena dst (spec_insert m (view_of arena dst)) 32 (c1, d1, a1)"
    using insert_step [OF 2(2), of m] 2(3) r1 by simp
  then obtain e1 where e1: "set_ok a1 d1" "a1 = arena @ e1" "length e1 \<le> 32" "view_of a1 d1 = spec_insert m (view_of arena dst)"
    "keeps_header dst d1" "c1 \<longleftrightarrow> spec_insert m (view_of arena dst) \<noteq> view_of arena dst" "\<not> c1 \<longrightarrow> d1 = dst \<and> a1 = arena"
    by (auto simp: set_step_def)
  obtain c2 d2 a2 where r2: "insert_members a1 d1 ms = (c2, d2, a2)" by (metis prod_cases3)
  have "set_step a1 d1 (fold spec_insert ms (view_of a1 d1)) (32 * length ms) (c2, d2, a2)"
    using 2(1) [OF r1 [symmetric] refl e1(1)] 2(3) e1(2,3) r2 by simp
  then obtain e2 where e2: "set_ok a2 d2" "a2 = a1 @ e2" "length e2 \<le> 32 * length ms" "view_of a2 d2 = fold spec_insert (m # ms) (view_of arena dst)"
    "keeps_header d1 d2" "c2 \<longleftrightarrow> fold spec_insert (m # ms) (view_of arena dst) \<noteq> view_of a1 d1" "\<not> c2 \<longrightarrow> d2 = d1 \<and> a2 = a1"
    by (auto simp: set_step_def e1(4))
  have hdr: "keeps_header dst d2" using e1(5) e2(5) by (auto simp: keeps_header_def word_neq_0_conv)
  have ch: "c1 \<or> c2 \<longleftrightarrow> fold spec_insert (m # ms) (view_of arena dst) \<noteq> view_of arena dst"
    using e1(4,6) e2(6) view_grows_antisym [OF spec_insert_grows [of "view_of arena dst" m]] fold_insert_grows [of "spec_insert m (view_of arena dst)" ms]
    by (metis fold_simps(2))
  show ?case unfolding insert_members.simps r1 r2 prod.case set_step_def
    using e1 e2 hdr ch by (auto intro!: exI [of _ "e1 @ e2"])
qed

lemma union_step:
  assumes ok: "set_ok arena dst" "set_ok arena src" and room: "length arena + 1100 < 2 ^ 32"
  shows "set_step arena dst (spec_union (view_of arena dst) (view_of arena src)) 1024 (alternativeSetUnion arena dst src)"
proof -
  let ?S = "set (members arena dst)" and ?T = "set (members arena src)"
  have srt: "sorted_wrt (<) (members arena dst)" "sorted_wrt (<) (members arena src)" "0 \<notin> ?T" using ok by (auto simp: set_ok_def)
  note m = set_ok_members [OF ok(1)] set_ok_members [OF ok(2)]
  have c: "card ?S = unat (as_count dst)" "card ?T = unat (as_count src)" using card_members [OF ok(1)] card_members [OF ok(2)] by (simp_all add: view_of_def)
  have le: "card ?S \<le> 32" "card ?T \<le> 32" using c ok by (simp_all add: set_ok_def)
  have ov: "as_flags dst AND alternativeSetFlagOverflowed \<noteq> 0 \<longleftrightarrow> Overflowed dst" by (simp add: Overflowed_def)
  consider (frozen) "Overflowed dst" | (freeze) "\<not> Overflowed dst" "Overflowed src"
    | (none) "\<not> Overflowed dst" "\<not> Overflowed src" "as_count src = 0"
    | (copy) "\<not> Overflowed dst" "\<not> Overflowed src" "as_count src \<noteq> 0" "as_count dst = 0"
    | (merge) "\<not> Overflowed dst" "\<not> Overflowed src" "as_count src \<noteq> 0" "as_count dst \<noteq> 0" by blast
  then show ?thesis
  proof cases
    case frozen
    then have "alternativeSetUnion arena dst src = (False, dst, arena)" "spec_union (view_of arena dst) (view_of arena src) = view_of arena dst"
      using ov by (simp_all add: alternativeSetUnion_def spec_union_def view_of_def)
    then show ?thesis using set_step_same [OF ok(1)] by simp
  next
    case freeze
    let ?s = "dst\<lparr>as_flags := as_flags dst OR alternativeSetFlagOverflowed\<rparr>"
    have ms: "members arena ?s = members arena dst" "spilled ?s = spilled dst" "Overflowed ?s"
      by (simp_all add: members_def alternativeSetMembers_def spilled_def Overflowed_def)
    have "set_ok arena ?s" using ok(1) ms by (auto simp: set_ok_def split: if_splits)
    then show ?thesis using freeze ov ms by (auto simp: alternativeSetUnion_def spec_union_def set_step_def view_of_def keeps_header_def)
  next
    case none
    then have "?T = {}" using c(2) by simp
    then have "alternativeSetUnion arena dst src = (False, dst, arena)" "spec_union (view_of arena dst) (view_of arena src) = view_of arena dst"
      using none ov le by (auto simp: alternativeSetUnion_def spec_union_def view_of_def)
    then show ?thesis using set_step_same [OF ok(1)] by simp
  next
    case copy
    then have e: "?S = {}" using c(1) by simp
    have "length (sorted_list_of_set ?T) \<le> 32" using le(2) by simp
    then have sp: "spec_union (view_of arena dst) (view_of arena src) = view_of arena src"
      using copy le(2) e by (simp add: spec_union_def view_of_def)
    have "0 < card ?T" using copy(3) c(2) by (simp add: unat_gt_0)
    then have "?T \<noteq> ?S" using e by auto
    then show ?thesis using copy ov sp ok(2) by (auto simp: alternativeSetUnion_def set_step_def keeps_header_def view_of_def)
  next
    case merge
    have d: "distinct (members arena src)" using srt(2) by (simp add: strict_sorted_iff)
    have "filter (\<lambda>x. x \<notin> ?S) (members arena src) = sorted_list_of_set (?T - ?S)"
    proof (rule sorted_distinct_set_unique)
      show "sorted (filter (\<lambda>x. x \<notin> ?S) (members arena src))" using sorted_wrt_filter [OF srt(2)] strict_sorted_iff by blast
    qed (use d in auto)
    then have sp: "fold spec_insert (members arena src) (view_of arena dst) = spec_union (view_of arena dst) (view_of arena src)"
      using fold_insert_union [OF d srt(3) _ le(1)] merge by (simp add: spec_union_def view_of_def)
    show ?thesis
    proof (cases "?T \<subseteq> ?S")
      case True
      then have "alternativeSetUnion arena dst src = (False, dst, arena)"
        using merge ov m containsAll_subset [OF srt(2,1)] by (simp add: alternativeSetUnion_def)
      moreover have d0: "?T - ?S = {}" "?S \<union> ?T = ?S" using True by auto
      have "spec_union (view_of arena dst) (view_of arena src) = view_of arena dst"
        using merge le(1) by (simp add: spec_union_def view_of_def d0 del: Diff_eq_empty_iff)
      ultimately show ?thesis using set_step_same [OF ok(1)] by simp
    next
      case False
      then have "alternativeSetUnion arena dst src = insert_members arena dst (members arena src)"
        using merge ov m containsAll_subset [OF srt(2,1)] by (simp add: alternativeSetUnion_def)
      moreover have "length (members arena src) \<le> 32" using m(4) ok(2) by (simp add: set_ok_def)
      moreover from this have "set_step arena dst (spec_union (view_of arena dst) (view_of arena src)) (32 * length (members arena src))
          (insert_members arena dst (members arena src))"
        using insert_members_step [OF ok(1), of "members arena src"] room unfolding sp by simp
      ultimately show ?thesis by (fastforce simp: set_step_def)
    qed
  qed
qed

lemma incomparable_views:
  assumes "set_ok arena a" "set_ok arena b"
  shows "AlternativeSetIncomparable arena a b \<longleftrightarrow>
    \<not> fst (view_of arena a) \<subseteq> fst (view_of arena b) \<and> \<not> fst (view_of arena b) \<subseteq> fst (view_of arena a)"
proof -
  have "sorted_wrt (<) (members arena a)" "sorted_wrt (<) (members arena b)" using assms by (auto simp: set_ok_def)
  then show ?thesis using containsAll_subset by (simp add: AlternativeSetIncomparable_def Let_def view_of_def flip: members_def)
qed

section \<open>Lineage records\<close>

datatype cleanPathRank = RankNotApplicable | RankUnselected | RankSelected | RankUnknown

record nodeLineageRecord =
  nl_owner :: u32
  nl_storedErrorCost :: u32
  nl_dropCohortRefIndex :: u32
  nl_set :: alternativeSet
  nl_lineage :: u16
  nl_rank :: cleanPathRank
  nl_converged :: bool
  nl_blended :: bool

record nodeLineageMutation =
  lm_node :: u32
  lm_owner :: u32
  lm_dropCohortRefIndex :: u32
  lm_setSpillRef :: u32
  lm_setCount :: u8
  lm_setFlags :: u8
  lm_lineage :: u16
  lm_rank :: cleanPathRank
  lm_converged :: bool
  lm_blended :: bool
  lm_storedErrorCost :: u32

record lineageCore =
  lc_nodeLineages :: "nodeLineageRecord list"
  lc_alternativeSpillArena :: "u32 list"
  lc_nodeLineageJournal :: "nodeLineageMutation list"
  lc_transactions :: "u64 list"
  lc_nextTransaction :: u64

datatype lineageError = InvalidLineageNode | ZeroSchedulerLineage | MultipleOwners | LineageTransactionOverflow | LineageOutOfOrder | LineageOperationFailed

definition zero_lineage :: nodeLineageRecord where
  "zero_lineage = \<lparr>nl_owner = 0, nl_storedErrorCost = 0, nl_dropCohortRefIndex = 0, nl_set = no_members, nl_lineage = 0,
     nl_rank = RankNotApplicable, nl_converged = False, nl_blended = False\<rparr>"

definition mutation_of :: "u32 \<Rightarrow> nodeLineageRecord \<Rightarrow> nodeLineageMutation" where
  "mutation_of node r =
     \<lparr>lm_node = node, lm_owner = nl_owner r, lm_dropCohortRefIndex = nl_dropCohortRefIndex r, lm_setSpillRef = as_spillRef (nl_set r),
      lm_setCount = as_count (nl_set r), lm_setFlags = as_flags (nl_set r), lm_lineage = nl_lineage r, lm_rank = nl_rank r,
      lm_converged = nl_converged r, lm_blended = nl_blended r, lm_storedErrorCost = nl_storedErrorCost r\<rparr>"

definition put_mutation :: "nodeLineageMutation \<Rightarrow> nodeLineageRecord \<Rightarrow> nodeLineageRecord" where
  "put_mutation m r =
     r\<lparr>nl_owner := lm_owner m, nl_storedErrorCost := lm_storedErrorCost m, nl_dropCohortRefIndex := lm_dropCohortRefIndex m,
       nl_set := (nl_set r)\<lparr>as_count := lm_setCount m, as_flags := lm_setFlags m, as_spillRef := lm_setSpillRef m\<rparr>,
       nl_lineage := lm_lineage m, nl_rank := lm_rank m, nl_converged := lm_converged m, nl_blended := lm_blended m\<rparr>"

definition nodeLineage :: "lineageCore \<Rightarrow> u32 \<Rightarrow> nodeLineageRecord option" where
  "nodeLineage c ident =
     (if ident = 0 \<or> unat ident > length (lc_nodeLineages c) then None else Some (lc_nodeLineages c ! (unat ident - 1)))"

text \<open>A changed record is stored and its old header journaled inside a transaction.\<close>

definition store_lineage :: "lineageCore \<Rightarrow> u32 \<Rightarrow> nodeLineageRecord \<Rightarrow> nodeLineageRecord \<Rightarrow> u32 list \<Rightarrow> lineageCore" where
  "store_lineage c node before r arena =
     c\<lparr>lc_nodeLineages := (lc_nodeLineages c)[unat node - 1 := r],
       lc_alternativeSpillArena := arena,
       lc_nodeLineageJournal := (if lc_transactions c \<noteq> [] then lc_nodeLineageJournal c @ [mutation_of node before]
         else lc_nodeLineageJournal c)\<rparr>"

definition addLineage :: "lineageCore \<Rightarrow> lineageCore" where
  "addLineage c = c\<lparr>lc_nodeLineages := lc_nodeLineages c @ [zero_lineage]\<rparr>"

text \<open>
  The recording gate: its first call sets it, and only a test hook, not modelled, clears it.
\<close>

definition alternativeSetRecordingEnabled :: bool where
  [simp]: "alternativeSetRecordingEnabled \<longleftrightarrow> True"

definition recordNodeLineageMember :: "lineageCore \<Rightarrow> u32 \<Rightarrow> u16 \<Rightarrow> u16 \<Rightarrow> lineageError option \<times> lineageCore" where
  "recordNodeLineageMember c head event branch =
     (if \<not> alternativeSetRecordingEnabled then (None, c)
      else case nodeLineage c head of
        None \<Rightarrow> (Some InvalidLineageNode, c)
      | Some node \<Rightarrow>
          (case alternativeSetInsert (lc_alternativeSpillArena c) (nl_set node) (packAlternativeSetMember event branch) of (changed, s, arena) \<Rightarrow>
           if \<not> changed then (None, c) else (None, store_lineage c head node (node\<lparr>nl_set := s\<rparr>) arena)))"

definition recordNodeLineageSet :: "lineageCore \<Rightarrow> u32 \<Rightarrow> alternativeSet \<Rightarrow> bool \<Rightarrow> lineageError option \<times> lineageCore" where
  "recordNodeLineageSet c head src setBlended =
     (if as_count src = 0 then (None, c)
      else case nodeLineage c head of
        None \<Rightarrow> (Some InvalidLineageNode, c)
      | Some node \<Rightarrow>
          (let incomparable = AlternativeSetIncomparable (lc_alternativeSpillArena c) (nl_set node) src in
           case alternativeSetUnion (lc_alternativeSpillArena c) (nl_set node) src of (setChanged, s, arena) \<Rightarrow>
           let nextBlended = (nl_blended node \<or> setBlended \<or> incomparable) in
           if \<not> setChanged \<and> nextBlended = nl_blended node then (None, c)
           else (None, store_lineage c head node (node\<lparr>nl_set := s, nl_blended := nextBlended\<rparr>) arena)))"

definition mergeCleanPathRank :: "cleanPathRank \<Rightarrow> cleanPathRank \<Rightarrow> cleanPathRank" where
  "mergeCleanPathRank left right =
     (if left = RankUnknown \<or> right = RankUnknown then RankUnknown
      else if left = RankSelected \<or> right = RankSelected then RankSelected
      else if left = RankUnselected \<or> right = RankUnselected then RankUnselected
      else RankNotApplicable)"

text \<open>The rank and lineage a record has after another rank is recorded for it.\<close>

definition next_rank :: "cleanPathRank \<Rightarrow> u16 \<Rightarrow> cleanPathRank \<Rightarrow> u16 \<Rightarrow> cleanPathRank \<times> u16" where
  "next_rank oldRank oldLineage rank lineage =
     (let nextLineage = (if rank = RankUnknown then 0 else lineage) in
      if oldRank = RankNotApplicable \<and> oldLineage = 0 then (rank, nextLineage)
      else if oldLineage = nextLineage then
        (let nextRank = mergeCleanPathRank oldRank rank in
         (nextRank, if nextRank = RankUnknown then 0 else nextLineage))
      else (RankUnknown, 0))"

definition recordNodeLineage :: "lineageCore \<Rightarrow> u32 \<Rightarrow> cleanPathRank \<Rightarrow> u16 \<Rightarrow> lineageError option \<times> lineageCore" where
  "recordNodeLineage c head rank lineage =
     (case nodeLineage c head of
        None \<Rightarrow> (Some InvalidLineageNode, c)
      | Some node \<Rightarrow>
          if rank = RankNotApplicable then (None, c)
          else case next_rank (nl_rank node) (nl_lineage node) rank lineage of (nextRank, nextLineage) \<Rightarrow>
            if nl_rank node = nextRank \<and> nl_lineage node = nextLineage \<and> nl_converged node then (None, c)
            else (None, store_lineage c head node (node\<lparr>nl_rank := nextRank, nl_lineage := nextLineage, nl_converged := True\<rparr>)
                   (lc_alternativeSpillArena c)))"

definition recordHeadOwner :: "lineageCore \<Rightarrow> u32 \<Rightarrow> u32 \<Rightarrow> lineageError option \<times> lineageCore" where
  "recordHeadOwner c head lineage =
     (if lineage = 0 then (Some ZeroSchedulerLineage, c)
      else case nodeLineage c head of
        None \<Rightarrow> (Some InvalidLineageNode, c)
      | Some node \<Rightarrow>
          if nl_owner node = lineage then (None, c)
          else if nl_owner node \<noteq> 0 then (Some MultipleOwners, c)
          else (None, store_lineage c head node (node\<lparr>nl_owner := lineage\<rparr>) (lc_alternativeSpillArena c)))"

section \<open>Rollback\<close>

record lineageMark =
  kl_transaction :: u64
  kl_nodeLineages :: nat
  kl_alternativeSpillArena :: nat
  kl_nodeLineageJournal :: nat

definition mark_lineage :: "lineageCore \<Rightarrow> lineageError + lineageMark \<times> lineageCore" where
  "mark_lineage c =
     (if lc_nextTransaction c = - 1 then Inl LineageTransactionOverflow
      else let t = lc_nextTransaction c + 1 in
        Inr (\<lparr>kl_transaction = t, kl_nodeLineages = length (lc_nodeLineages c),
              kl_alternativeSpillArena = length (lc_alternativeSpillArena c), kl_nodeLineageJournal = length (lc_nodeLineageJournal c)\<rparr>,
             c\<lparr>lc_nextTransaction := t, lc_transactions := lc_transactions c @ [t]\<rparr>))"

definition finish_lineage :: "lineageCore \<Rightarrow> lineageCore" where
  "finish_lineage c =
     (let ts = butlast (lc_transactions c) in
      c\<lparr>lc_transactions := ts, lc_nodeLineageJournal := (if ts = [] then [] else lc_nodeLineageJournal c)\<rparr>)"

definition undo_mutation :: "nodeLineageMutation \<Rightarrow> nodeLineageRecord list \<Rightarrow> nodeLineageRecord list" where
  "undo_mutation m records =
     (let i = unat (lm_node m) - 1 in
      if lm_node m = 0 \<or> i \<ge> length records then records else records[i := put_mutation m (records ! i)])"

definition undo_lineages :: "nodeLineageMutation list \<Rightarrow> nodeLineageRecord list \<Rightarrow> nodeLineageRecord list" where
  "undo_lineages js records = foldr undo_mutation js records"

definition restore_lineage :: "lineageCore \<Rightarrow> lineageMark \<Rightarrow> lineageError + lineageCore" where
  "restore_lineage c m =
     (if lc_transactions c = [] \<or> List.last (lc_transactions c) \<noteq> kl_transaction m then Inl LineageOutOfOrder
      else Inr (finish_lineage (c\<lparr>
             lc_nodeLineages := undo_lineages (drop (kl_nodeLineageJournal m) (lc_nodeLineageJournal c))
               (take (kl_nodeLineages m) (lc_nodeLineages c)),
             lc_alternativeSpillArena := take (kl_alternativeSpillArena m) (lc_alternativeSpillArena c),
             lc_nodeLineageJournal := take (kl_nodeLineageJournal m) (lc_nodeLineageJournal c)\<rparr>)))"

definition commit_lineage :: "lineageCore \<Rightarrow> lineageMark \<Rightarrow> lineageError + lineageCore" where
  "commit_lineage c m =
     (if lc_transactions c = [] \<or> List.last (lc_transactions c) \<noteq> kl_transaction m then Inl LineageOutOfOrder
      else Inr (finish_lineage c))"

text \<open>
  Programs: a new node, a member of a node's set, the set of one node folded into another, a rank, an
  owner, and an atomic operation.
\<close>

datatype lineageCommand =
    AddNode
  | AddMember u32 u16 u16
  | FoldSet u32 u32 bool
  | SetRank u32 cleanPathRank u16
  | SetOwner u32 u32
  | AtomicLineage "lineageCommand list" bool

definition complete_lineage :: "lineageCore \<Rightarrow> lineageMark \<Rightarrow> bool \<Rightarrow> lineageError option \<times> lineageCore" where
  "complete_lineage c m ok =
     (case (if ok then commit_lineage c m else restore_lineage c m) of
        Inl e \<Rightarrow> (Some e, c)
      | Inr c \<Rightarrow> (if ok then None else Some LineageOperationFailed, c))"

fun lineage_cmd :: "lineageCommand \<Rightarrow> lineageCore \<Rightarrow> lineageError option list \<times> lineageCore"
  and lineage_run :: "lineageCommand list \<Rightarrow> lineageCore \<Rightarrow> lineageError option list \<times> lineageCore" where
  "lineage_cmd AddNode c = ([None], addLineage c)"
| "lineage_cmd (AddMember head event branch) c = (case recordNodeLineageMember c head event branch of (err, c) \<Rightarrow> ([err], c))"
| "lineage_cmd (FoldSet head src blended) c =
     (case nodeLineage c src of
        None \<Rightarrow> ([Some InvalidLineageNode], c)
      | Some r \<Rightarrow> (case recordNodeLineageSet c head (nl_set r) blended of (err, c) \<Rightarrow> ([err], c)))"
| "lineage_cmd (SetRank head rank lineage) c = (case recordNodeLineage c head rank lineage of (err, c) \<Rightarrow> ([err], c))"
| "lineage_cmd (SetOwner head lineage) c = (case recordHeadOwner c head lineage of (err, c) \<Rightarrow> ([err], c))"
| "lineage_cmd (AtomicLineage body ok) c =
     (case mark_lineage c of
        Inl e \<Rightarrow> ([Some e], c)
      | Inr (m, c) \<Rightarrow>
          (case lineage_run body c of (outs, c) \<Rightarrow>
           case complete_lineage c m ok of (err, c) \<Rightarrow> (outs @ [err], c)))"
| "lineage_run [] c = ([], c)"
| "lineage_run (x # xs) c =
     (case lineage_cmd x c of (outs, c) \<Rightarrow> case lineage_run xs c of (outs', c) \<Rightarrow> (outs @ outs', c))"

text \<open>No counter or index overflows on the way.\<close>

definition lineage_room :: "lineageCore \<Rightarrow> bool" where
  "lineage_room c \<longleftrightarrow> int (length (lc_alternativeSpillArena c)) + 1100 < 4294967296 \<and> int (length (lc_nodeLineages c)) + 1 < 4294967296"

fun lineage_calm_cmd :: "lineageCommand \<Rightarrow> lineageCore \<Rightarrow> bool"
  and lineage_calm :: "lineageCommand list \<Rightarrow> lineageCore \<Rightarrow> bool" where
  "lineage_calm_cmd (AtomicLineage body ok) c \<longleftrightarrow> (case mark_lineage c of Inl e \<Rightarrow> False | Inr (m, c) \<Rightarrow> lineage_calm body c)"
| "lineage_calm_cmd cmd c \<longleftrightarrow> True"
| "lineage_calm [] c \<longleftrightarrow> lineage_room c"
| "lineage_calm (x # xs) c \<longleftrightarrow> lineage_room c \<and> lineage_calm_cmd x c \<and> lineage_calm xs (snd (lineage_cmd x c))"

section \<open>The specification of the records\<close>

record lineageView =
  lv_owner :: u32
  lv_storedErrorCost :: u32
  lv_dropCohortRefIndex :: u32
  lv_set :: view
  lv_lineage :: u16
  lv_rank :: cleanPathRank
  lv_converged :: bool
  lv_blended :: bool

definition abs_record :: "u32 list \<Rightarrow> nodeLineageRecord \<Rightarrow> lineageView" where
  "abs_record arena r =
     \<lparr>lv_owner = nl_owner r, lv_storedErrorCost = nl_storedErrorCost r, lv_dropCohortRefIndex = nl_dropCohortRefIndex r,
      lv_set = view_of arena (nl_set r), lv_lineage = nl_lineage r, lv_rank = nl_rank r, lv_converged = nl_converged r,
      lv_blended = nl_blended r\<rparr>"

definition abs_lineages :: "lineageCore \<Rightarrow> lineageView list" where
  "abs_lineages c = map (abs_record (lc_alternativeSpillArena c)) (lc_nodeLineages c)"

definition view_at :: "lineageView list \<Rightarrow> u32 \<Rightarrow> lineageView option" where
  "view_at vs ident = (if ident = 0 \<or> unat ident > length vs then None else Some (vs ! (unat ident - 1)))"

definition at_node :: "u32 \<Rightarrow> (lineageView \<Rightarrow> lineageError option \<times> lineageView) \<Rightarrow> lineageView list \<Rightarrow> lineageError option \<times> lineageView list" where
  "at_node head f vs =
     (case view_at vs head of
        None \<Rightarrow> (Some InvalidLineageNode, vs)
      | Some v \<Rightarrow> (case f v of (err, w) \<Rightarrow> (err, vs[unat head - 1 := w])))"

definition spec_fold :: "view \<Rightarrow> bool \<Rightarrow> lineageView \<Rightarrow> lineageView" where
  "spec_fold src blended v =
     v\<lparr>lv_set := spec_union (lv_set v) src,
       lv_blended := lv_blended v \<or> blended \<or> (\<not> fst (lv_set v) \<subseteq> fst src \<and> \<not> fst src \<subseteq> fst (lv_set v))\<rparr>"

definition spec_rank :: "cleanPathRank \<Rightarrow> u16 \<Rightarrow> lineageView \<Rightarrow> lineageView" where
  "spec_rank rank lineage v =
     (if rank = RankNotApplicable then v
      else case next_rank (lv_rank v) (lv_lineage v) rank lineage of (r, l) \<Rightarrow> v\<lparr>lv_rank := r, lv_lineage := l, lv_converged := True\<rparr>)"

definition spec_owner :: "u32 \<Rightarrow> lineageView \<Rightarrow> lineageError option \<times> lineageView" where
  "spec_owner lineage v =
     (if lv_owner v = lineage then (None, v)
      else if lv_owner v \<noteq> 0 then (Some MultipleOwners, v)
      else (None, v\<lparr>lv_owner := lineage\<rparr>))"

definition new_view :: lineageView where
  "new_view = \<lparr>lv_owner = 0, lv_storedErrorCost = 0, lv_dropCohortRefIndex = 0, lv_set = ({}, False), lv_lineage = 0,
     lv_rank = RankNotApplicable, lv_converged = False, lv_blended = False\<rparr>"

fun lineage_spec_cmd :: "lineageCommand \<Rightarrow> lineageView list \<Rightarrow> lineageError option list \<times> lineageView list"
  and lineage_spec_run :: "lineageCommand list \<Rightarrow> lineageView list \<Rightarrow> lineageError option list \<times> lineageView list" where
  "lineage_spec_cmd AddNode vs = ([None], vs @ [new_view])"
| "lineage_spec_cmd (AddMember head event branch) vs =
     (case at_node head (\<lambda>v. (None, v\<lparr>lv_set := spec_insert (packAlternativeSetMember event branch) (lv_set v)\<rparr>)) vs of
        (err, vs) \<Rightarrow> ([err], vs))"
| "lineage_spec_cmd (FoldSet head src blended) vs =
     (case view_at vs src of
        None \<Rightarrow> ([Some InvalidLineageNode], vs)
      | Some w \<Rightarrow>
          if fst (lv_set w) = {} then ([None], vs)
          else (case at_node head (\<lambda>v. (None, spec_fold (lv_set w) blended v)) vs of (err, vs) \<Rightarrow> ([err], vs)))"
| "lineage_spec_cmd (SetRank head rank lineage) vs =
     (case at_node head (\<lambda>v. (None, spec_rank rank lineage v)) vs of (err, vs) \<Rightarrow> ([err], vs))"
| "lineage_spec_cmd (SetOwner head lineage) vs =
     (if lineage = 0 then ([Some ZeroSchedulerLineage], vs)
      else case at_node head (spec_owner lineage) vs of (err, vs) \<Rightarrow> ([err], vs))"
| "lineage_spec_cmd (AtomicLineage body ok) vs =
     (case lineage_spec_run body vs of (outs, vs') \<Rightarrow>
        if ok then (outs @ [None], vs') else (outs @ [Some LineageOperationFailed], vs))"
| "lineage_spec_run [] vs = ([], vs)"
| "lineage_spec_run (x # xs) vs =
     (case lineage_spec_cmd x vs of (outs, vs) \<Rightarrow> case lineage_spec_run xs vs of (outs', vs) \<Rightarrow> (outs @ outs', vs))"

section \<open>Simulation\<close>

lemma lineage_room_nat:
  "lineage_room c \<longleftrightarrow> length (lc_alternativeSpillArena c) + 1100 < 4294967296 \<and> length (lc_nodeLineages c) + 1 < 4294967296"
  unfolding lineage_room_def by linarith


definition lineages_ok :: "lineageCore \<Rightarrow> bool" where
  "lineages_ok c \<longleftrightarrow> (\<forall>r\<in>set (lc_nodeLineages c). set_ok (lc_alternativeSpillArena c) (nl_set r))"

definition lineage_quiet :: "lineageCore \<Rightarrow> bool" where
  "lineage_quiet c \<longleftrightarrow> (lc_transactions c = [] \<longrightarrow> lc_nodeLineageJournal c = [])"

text \<open>The header a rollback of the journal entries gives the \<open>i\<close>th record.\<close>

definition oldest :: "nodeLineageMutation list \<Rightarrow> nat \<Rightarrow> nodeLineageRecord \<Rightarrow> nodeLineageMutation" where
  "oldest js i r = (case find (\<lambda>m. lm_node m = of_nat (Suc i)) js of None \<Rightarrow> mutation_of (of_nat (Suc i)) r | Some m \<Rightarrow> m)"

definition lineage_undoable :: "lineageCore \<Rightarrow> lineageCore \<Rightarrow> bool" where
  "lineage_undoable c c' \<longleftrightarrow>
     lc_transactions c' = lc_transactions c \<and> length (lc_nodeLineages c) \<le> length (lc_nodeLineages c')
     \<and> (\<exists>ext. lc_alternativeSpillArena c' = lc_alternativeSpillArena c @ ext)
     \<and> (\<forall>i<length (lc_nodeLineages c). keeps_header (nl_set (lc_nodeLineages c ! i)) (nl_set (lc_nodeLineages c' ! i)))
     \<and> (if lc_transactions c = [] then lc_nodeLineageJournal c' = lc_nodeLineageJournal c
        else \<exists>js. lc_nodeLineageJournal c' = lc_nodeLineageJournal c @ js
          \<and> (\<forall>i<length (lc_nodeLineages c). oldest js i (lc_nodeLineages c' ! i) = mutation_of (of_nat (Suc i)) (lc_nodeLineages c ! i)))"

lemma keeps_header_refl: "keeps_header s s"
  by (simp add: keeps_header_def)

lemma keeps_header_trans: "keeps_header r s \<Longrightarrow> keeps_header s t \<Longrightarrow> keeps_header r t"
  by (auto simp: keeps_header_def word_neq_0_conv)

lemma lineage_undoable_refl: "lineage_undoable c c"
  by (auto simp: lineage_undoable_def keeps_header_refl oldest_def intro!: exI [of _ "[]"])

lemma find_append: "find P (xs @ ys) = (case find P xs of None \<Rightarrow> find P ys | Some x \<Rightarrow> Some x)"
  by (induction xs) auto

lemma oldest_append:
  assumes "oldest js i r = mutation_of (of_nat (Suc i)) r0" "oldest js' i r' = mutation_of (of_nat (Suc i)) r"
  shows "oldest (js @ js') i r' = mutation_of (of_nat (Suc i)) r0"
  using assms by (auto simp: oldest_def find_append split: option.splits)

lemma lineage_undoable_trans:
  assumes "lineage_undoable c c1" "lineage_undoable c1 c2"
  shows "lineage_undoable c c2"
proof -
  have "\<forall>i<length (lc_nodeLineages c). keeps_header (nl_set (lc_nodeLineages c ! i)) (nl_set (lc_nodeLineages c2 ! i))"
    using assms keeps_header_trans unfolding lineage_undoable_def by (meson less_le_trans)
  moreover have "if lc_transactions c = [] then lc_nodeLineageJournal c2 = lc_nodeLineageJournal c
    else \<exists>js. lc_nodeLineageJournal c2 = lc_nodeLineageJournal c @ js
      \<and> (\<forall>i<length (lc_nodeLineages c). oldest js i (lc_nodeLineages c2 ! i) = mutation_of (of_nat (Suc i)) (lc_nodeLineages c ! i))"
  proof (cases "lc_transactions c = []")
    case True
    then show ?thesis using assms by (simp add: lineage_undoable_def)
  next
    case False
    then obtain js js' where js: "lc_nodeLineageJournal c1 = lc_nodeLineageJournal c @ js"
      "\<forall>i<length (lc_nodeLineages c). oldest js i (lc_nodeLineages c1 ! i) = mutation_of (of_nat (Suc i)) (lc_nodeLineages c ! i)"
      "lc_nodeLineageJournal c2 = lc_nodeLineageJournal c1 @ js'"
      "\<forall>i<length (lc_nodeLineages c1). oldest js' i (lc_nodeLineages c2 ! i) = mutation_of (of_nat (Suc i)) (lc_nodeLineages c1 ! i)"
      using assms by (auto simp: lineage_undoable_def)
    have "length (lc_nodeLineages c) \<le> length (lc_nodeLineages c1)" using assms(1) by (simp add: lineage_undoable_def)
    then have "\<forall>i<length (lc_nodeLineages c). oldest (js @ js') i (lc_nodeLineages c2 ! i) = mutation_of (of_nat (Suc i)) (lc_nodeLineages c ! i)"
      using oldest_append js(2,4) by (meson less_le_trans)
    then show ?thesis using False js(1,3) by auto
  qed
  ultimately show ?thesis using assms by (auto simp: lineage_undoable_def)
qed

lemma index_node:
  assumes "i < length records" "length records < 4294967296"
  shows "unat (of_nat (Suc i) :: u32) = Suc i"
  using assms by (intro unat_u32_of_nat) linarith

lemma undo_mutation_nth:
  assumes "i < length records" "length records < 4294967296"
  shows "undo_mutation m records ! i = (if lm_node m = of_nat (Suc i) then put_mutation m (records ! i) else records ! i)"
proof (cases "lm_node m = of_nat (Suc i)")
  case True
  then have "unat (lm_node m) = Suc i" "lm_node m \<noteq> 0" using index_node [OF assms] by auto
  then show ?thesis using True assms(1) by (simp add: undo_mutation_def)
next
  case False
  have "unat (lm_node m) - 1 \<noteq> i" if "lm_node m \<noteq> 0"
  proof
    assume "unat (lm_node m) - 1 = i"
    moreover have "0 < unat (lm_node m)" using that by (simp add: unat_gt_0)
    ultimately have "Suc i = unat (lm_node m)" by linarith
    then have "lm_node m = of_nat (Suc i)" by simp
    then show False using False by simp
  qed
  then show ?thesis using False by (auto simp: undo_mutation_def Let_def)
qed

lemma length_undo_lineages [simp]: "length (undo_lineages js records) = length records"
  by (induction js) (auto simp: undo_lineages_def undo_mutation_def Let_def)

lemma undo_lineages_nth:
  assumes "i < length records" "length records < 4294967296"
  shows "undo_lineages js records ! i = put_mutation (oldest js i (records ! i)) (records ! i)"
proof (induction js)
  case Nil
  show ?case by (simp add: undo_lineages_def oldest_def put_mutation_def mutation_of_def)
next
  case (Cons m js)
  have len: "i < length (undo_lineages js records)" "length (undo_lineages js records) < 4294967296" using assms by simp_all
  have "undo_lineages (m # js) records = undo_mutation m (undo_lineages js records)" by (simp add: undo_lineages_def)
  then show ?case using undo_mutation_nth [OF len] Cons by (auto simp: oldest_def put_mutation_def)
qed

lemma restored_record:
  assumes "keeps_header (nl_set r) (nl_set r')" "set_ok arena (nl_set r)" "length (as_inline (nl_set r')) = 1"
  shows "abs_record arena (put_mutation (mutation_of n r) r') = abs_record arena r
    \<and> set_ok arena (nl_set (put_mutation (mutation_of n r) r')) \<and> keeps_header (nl_set r) (nl_set (put_mutation (mutation_of n r) r'))
    \<and> mutation_of k (put_mutation (mutation_of n r) r') = mutation_of k r"
proof -
  let ?p = "put_mutation (mutation_of n r) r'"
  have f: "as_count (nl_set ?p) = as_count (nl_set r)" "as_flags (nl_set ?p) = as_flags (nl_set r)"
    "as_spillRef (nl_set ?p) = as_spillRef (nl_set r)" "as_inline (nl_set ?p) = as_inline (nl_set r')"
    by (simp_all add: put_mutation_def mutation_of_def)
  have sp: "spilled (nl_set ?p) = spilled (nl_set r)" "Overflowed (nl_set ?p) = Overflowed (nl_set r)"
    using f by (simp_all add: spilled_def Overflowed_def)
  have "take (unat (as_count (nl_set r))) (as_inline (nl_set ?p)) = take (unat (as_count (nl_set r))) (as_inline (nl_set r))"
    using assms(1) f(4) by (cases "as_count (nl_set r) = 0") (simp_all add: keeps_header_def)
  then have ms: "members arena (nl_set ?p) = members arena (nl_set r)"
    using f sp by (simp add: members_def alternativeSetMembers_def)
  then have "view_of arena (nl_set ?p) = view_of arena (nl_set r)" using sp by (simp add: view_of_def)
  moreover have "set_ok arena (nl_set ?p)" using assms(2,3) f sp ms by (auto simp: set_ok_def split: if_splits)
  moreover have "keeps_header (nl_set r) (nl_set ?p)" using assms(1) f by (simp add: keeps_header_def)
  ultimately show ?thesis by (simp add: abs_record_def put_mutation_def mutation_of_def)
qed

definition lineage_sim :: "lineageError option list \<times> lineageCore \<Rightarrow> lineageCore \<Rightarrow> lineageError option list \<times> lineageView list \<Rightarrow> bool" where
  "lineage_sim r c a \<longleftrightarrow>
     fst r = fst a \<and> lineages_ok (snd r) \<and> abs_lineages (snd r) = snd a \<and> lineage_undoable c (snd r) \<and> lineage_quiet (snd r)"

lemma sim_same: "lineages_ok c \<Longrightarrow> lineage_quiet c \<Longrightarrow> lineage_sim (outs, c) c (outs, abs_lineages c)"
  by (simp add: lineage_sim_def lineage_undoable_refl)

lemma lineage_undoable_quiet: "lineage_undoable c c' \<Longrightarrow> lineage_quiet c \<Longrightarrow> lineage_quiet c'"
  by (auto simp: lineage_undoable_def lineage_quiet_def)

text \<open>A stored record: the other records read as before in the longer arena.\<close>

lemma store_sim:
  assumes ok: "lineages_ok c" and q: "lineage_quiet c" and room: "lineage_room c" and node: "nodeLineage c head = Some node"
    and arena: "arena = lc_alternativeSpillArena c @ ext" and r: "set_ok arena (nl_set r)" "keeps_header (nl_set node) (nl_set r)"
  shows "lineage_sim ([err], store_lineage c head node r arena) c ([err], (abs_lineages c)[unat head - 1 := abs_record arena r])"
proof -
  let ?c = "store_lineage c head node r arena" and ?i = "unat head - 1"
  let ?rs = "lc_nodeLineages c" and ?a = "lc_alternativeSpillArena c"
  have nz: "head \<noteq> 0" "\<not> unat head > length ?rs" "node = ?rs ! ?i" using node by (auto simp: nodeLineage_def split: if_splits)
  then have "0 < unat head" by (simp add: unat_gt_0)
  then have i: "?i < length ?rs" "node = ?rs ! ?i" "head \<noteq> 0" using nz by linarith+
  have hd: "head = of_nat (Suc ?i)" using i(3) by (simp add: unat_gt_0)
  have f: "lc_nodeLineages ?c = ?rs[?i := r]" "lc_alternativeSpillArena ?c = arena" "lc_transactions ?c = lc_transactions c"
    "lc_nodeLineageJournal ?c = (if lc_transactions c \<noteq> [] then lc_nodeLineageJournal c @ [mutation_of head node] else lc_nodeLineageJournal c)"
    by (simp_all add: store_lineage_def)
  have old: "set_ok arena (nl_set x) \<and> abs_record arena x = abs_record ?a x" if "x \<in> set ?rs" for x
    using ok that members_append [of ?a "nl_set x" ext] by (auto simp: lineages_ok_def arena abs_record_def view_of_def)
  have "lineages_ok ?c" using old r(1) set_update_subset_insert [of ?rs ?i r] unfolding lineages_ok_def f by auto
  moreover have "abs_lineages ?c = (abs_lineages c)[?i := abs_record arena r]"
    using old unfolding abs_lineages_def f map_update by (metis (no_types, lifting) map_eq_conv)
  moreover have "lineage_undoable c ?c"
  proof -
    have small: "length ?rs < 4294967296" using room by (simp add: lineage_room_nat)
    have "oldest [mutation_of head node] j (?rs[?i := r] ! j) = mutation_of (of_nat (Suc j)) (?rs ! j)" if "j < length ?rs" for j
    proof (cases "j = ?i")
      case True
      then show ?thesis using hd i(2) by (simp add: oldest_def mutation_of_def)
    next
      case False
      have "of_nat (Suc j) \<noteq> (of_nat (Suc ?i) :: u32)" using index_node [OF that small] index_node [OF i(1) small] False
        by (metis nat.inject)
      then have "head \<noteq> of_nat (Suc j)" using hd by metis
      then show ?thesis using False by (simp add: oldest_def mutation_of_def)
    qed
    moreover have "keeps_header (nl_set (?rs ! j)) (nl_set (?rs[?i := r] ! j))" if "j < length ?rs" for j
      using r(2) i that by (cases "j = ?i") (simp_all add: keeps_header_refl)
    ultimately show ?thesis unfolding lineage_undoable_def f using arena by auto
  qed
  ultimately show ?thesis using lineage_undoable_quiet q by (auto simp: lineage_sim_def)
qed

lemma view_at_abs: "view_at (abs_lineages c) head = map_option (abs_record (lc_alternativeSpillArena c)) (nodeLineage c head)"
proof (cases "head = 0 \<or> unat head > length (lc_nodeLineages c)")
  case False
  then have "unat head - 1 < length (lc_nodeLineages c)" using unat_gt_0 [of head] by linarith
  then show ?thesis using False by (auto simp: view_at_def nodeLineage_def abs_lineages_def)
qed (auto simp: view_at_def nodeLineage_def abs_lineages_def)

lemma abs_at:
  assumes "nodeLineage c head = Some node"
  shows "abs_lineages c ! (unat head - 1) = abs_record (lc_alternativeSpillArena c) node" "unat head - 1 < length (abs_lineages c)"
    "node \<in> set (lc_nodeLineages c)"
proof -
  have "head \<noteq> 0" "\<not> unat head > length (lc_nodeLineages c)" using assms by (auto simp: nodeLineage_def split: if_splits)
  then have "unat head - 1 < length (lc_nodeLineages c)" using unat_gt_0 [of head] by linarith
  then show "abs_lineages c ! (unat head - 1) = abs_record (lc_alternativeSpillArena c) node" "unat head - 1 < length (abs_lineages c)"
    "node \<in> set (lc_nodeLineages c)" using assms by (auto simp: nodeLineage_def abs_lineages_def split: if_splits)
qed

text \<open>An operation at a node: without an effect on the record, or with a stored one.\<close>

lemma at_node_sim:
  assumes ok: "lineages_ok c" and q: "lineage_quiet c" and room: "lineage_room c"
    and none: "nodeLineage c head = None \<Longrightarrow> res = (Some InvalidLineageNode, c)"
    and some: "\<And>node. nodeLineage c head = Some node \<Longrightarrow>
      (\<exists>err. res = (err, c) \<and> f (abs_record (lc_alternativeSpillArena c) node) = (err, abs_record (lc_alternativeSpillArena c) node))
      \<or> (\<exists>err r ext. res = (err, store_lineage c head node r (lc_alternativeSpillArena c @ ext))
          \<and> set_ok (lc_alternativeSpillArena c @ ext) (nl_set r) \<and> keeps_header (nl_set node) (nl_set r)
          \<and> f (abs_record (lc_alternativeSpillArena c) node) = (err, abs_record (lc_alternativeSpillArena c @ ext) r))"
  shows "lineage_sim (case res of (err, c) \<Rightarrow> ([err], c)) c (case at_node head f (abs_lineages c) of (err, vs) \<Rightarrow> ([err], vs))"
proof (cases "nodeLineage c head")
  case None
  then show ?thesis using none sim_same [OF ok q] view_at_abs [of c head] by (simp add: at_node_def)
next
  case (Some node)
  let ?v = "abs_record (lc_alternativeSpillArena c) node"
  have at: "view_at (abs_lineages c) head = Some ?v" using Some view_at_abs [of c head] by simp
  from some [OF Some] show ?thesis
  proof (elim disjE exE conjE)
    fix err assume "res = (err, c)" "f ?v = (err, ?v)"
    moreover have "(abs_lineages c)[unat head - 1 := ?v] = abs_lineages c"
      using abs_at(1) [OF Some] by (metis list_update_id)
    ultimately show ?thesis using sim_same [OF ok q] at by (simp add: at_node_def)
  next
    fix err r ext
    assume a: "res = (err, store_lineage c head node r (lc_alternativeSpillArena c @ ext))"
      "set_ok (lc_alternativeSpillArena c @ ext) (nl_set r)" "keeps_header (nl_set node) (nl_set r)"
      "f ?v = (err, abs_record (lc_alternativeSpillArena c @ ext) r)"
    show ?thesis using store_sim [OF ok q room Some refl a(2,3)] a(1,4) at by (simp add: at_node_def)
  qed
qed

lemma member_sim:
  assumes "lineages_ok c" "lineage_quiet c" "lineage_room c"
  shows "lineage_sim (lineage_cmd (AddMember head event branch) c) c (lineage_spec_cmd (AddMember head event branch) (abs_lineages c))"
  unfolding lineage_cmd.simps lineage_spec_cmd.simps
proof (rule at_node_sim [OF assms])
  show "recordNodeLineageMember c head event branch = (Some InvalidLineageNode, c)" if "nodeLineage c head = None"
    using that by (simp add: recordNodeLineageMember_def)
next
  fix node assume node: "nodeLineage c head = Some node"
  let ?a = "lc_alternativeSpillArena c" and ?m = "packAlternativeSetMember event branch"
  have ok: "set_ok ?a (nl_set node)" using assms(1) abs_at(3) [OF node] by (simp add: lineages_ok_def)
  obtain ch s a where r: "alternativeSetInsert ?a (nl_set node) ?m = (ch, s, a)" by (metis prod_cases3)
  have st: "set_step ?a (nl_set node) (spec_insert ?m (view_of ?a (nl_set node))) 32 (ch, s, a)"
    using insert_step [OF ok, of ?m] assms(3) r by (simp add: lineage_room_nat)
  let ?f = "\<lambda>v. (None :: lineageError option, v\<lparr>lv_set := spec_insert ?m (lv_set v)\<rparr>)"
  show "(\<exists>err. recordNodeLineageMember c head event branch = (err, c) \<and> ?f (abs_record ?a node) = (err, abs_record ?a node))
    \<or> (\<exists>err r ext. recordNodeLineageMember c head event branch = (err, store_lineage c head node r (?a @ ext))
        \<and> set_ok (?a @ ext) (nl_set r) \<and> keeps_header (nl_set node) (nl_set r) \<and> ?f (abs_record ?a node) = (err, abs_record (?a @ ext) r))"
  proof (cases ch)
    case False
    then have "recordNodeLineageMember c head event branch = (None, c)" using node r by (simp add: recordNodeLineageMember_def)
    moreover have "spec_insert ?m (view_of ?a (nl_set node)) = view_of ?a (nl_set node)" using False st by (auto simp: set_step_def)
    then have "?f (abs_record ?a node) = (None, abs_record ?a node)" by (simp add: abs_record_def)
    ultimately show ?thesis by blast
  next
    case True
    obtain ext where e: "a = ?a @ ext" "set_ok a s" "view_of a s = spec_insert ?m (view_of ?a (nl_set node))" "keeps_header (nl_set node) s"
      using st by (auto simp: set_step_def)
    have "recordNodeLineageMember c head event branch = (None, store_lineage c head node (node\<lparr>nl_set := s\<rparr>) (?a @ ext))"
      using True node r e(1) by (simp add: recordNodeLineageMember_def)
    moreover have "?f (abs_record ?a node) = (None, abs_record (?a @ ext) (node\<lparr>nl_set := s\<rparr>))"
      using e(1,3) by (simp add: abs_record_def)
    moreover have "nl_set (node\<lparr>nl_set := s\<rparr>) = s" by simp
    ultimately show ?thesis using e by metis
  qed
qed

lemma fold_sim:
  assumes "lineages_ok c" "lineage_quiet c" "lineage_room c"
  shows "lineage_sim (lineage_cmd (FoldSet head src blended) c) c (lineage_spec_cmd (FoldSet head src blended) (abs_lineages c))"
proof (cases "nodeLineage c src")
  case None
  then show ?thesis using sim_same [OF assms(1,2)] view_at_abs [of c src] by simp
next
  case (Some w)
  let ?a = "lc_alternativeSpillArena c" and ?w = "nl_set w"
  have okw: "set_ok ?a ?w" using assms(1) abs_at(3) [OF Some] by (simp add: lineages_ok_def)
  have at: "view_at (abs_lineages c) src = Some (abs_record ?a w)" using Some view_at_abs [of c src] by simp
  have empty: "as_count ?w = 0 \<longleftrightarrow> fst (view_of ?a ?w) = {}"
  proof -
    have "as_count ?w = 0 \<longleftrightarrow> length (members ?a ?w) = 0" unfolding set_ok_members(2) [OF okw] using unat_gt_0 [of "as_count ?w"] by auto
    then show ?thesis by (simp add: view_of_def)
  qed
  show ?thesis
  proof (cases "as_count ?w = 0")
    case True
    then show ?thesis using Some at empty sim_same [OF assms(1,2)] by (simp add: recordNodeLineageSet_def abs_record_def)
  next
    case False
    have "lineage_sim (case recordNodeLineageSet c head ?w blended of (err, c) \<Rightarrow> ([err], c)) c
        (case at_node head (\<lambda>v. (None, spec_fold (view_of ?a ?w) blended v)) (abs_lineages c) of (err, vs) \<Rightarrow> ([err], vs))"
    proof (rule at_node_sim [OF assms])
      show "recordNodeLineageSet c head ?w blended = (Some InvalidLineageNode, c)" if "nodeLineage c head = None"
        using that False by (simp add: recordNodeLineageSet_def)
    next
      fix node assume node: "nodeLineage c head = Some node"
      have ok: "set_ok ?a (nl_set node)" using assms(1) abs_at(3) [OF node] by (simp add: lineages_ok_def)
      obtain ch s a where r: "alternativeSetUnion ?a (nl_set node) ?w = (ch, s, a)" by (metis prod_cases3)
      have st: "set_step ?a (nl_set node) (spec_union (view_of ?a (nl_set node)) (view_of ?a ?w)) 1024 (ch, s, a)"
        using union_step [OF ok okw] assms(3) r by (simp add: lineage_room_nat)
      note inc = incomparable_views [OF ok okw]
      let ?f = "\<lambda>v. (None :: lineageError option, spec_fold (view_of ?a ?w) blended v)"
      let ?b = "nl_blended node \<or> blended \<or> AlternativeSetIncomparable ?a (nl_set node) ?w"
      show "(\<exists>err. recordNodeLineageSet c head ?w blended = (err, c) \<and> ?f (abs_record ?a node) = (err, abs_record ?a node))
        \<or> (\<exists>err r ext. recordNodeLineageSet c head ?w blended = (err, store_lineage c head node r (?a @ ext))
            \<and> set_ok (?a @ ext) (nl_set r) \<and> keeps_header (nl_set node) (nl_set r) \<and> ?f (abs_record ?a node) = (err, abs_record (?a @ ext) r))"
      proof (cases "\<not> ch \<and> ?b = nl_blended node")
        case True
        then have "recordNodeLineageSet c head ?w blended = (None, c)" using node r False by (auto simp: recordNodeLineageSet_def Let_def)
        moreover have "spec_union (view_of ?a (nl_set node)) (view_of ?a ?w) = view_of ?a (nl_set node)" using True st by (auto simp: set_step_def)
        then have "?f (abs_record ?a node) = (None, abs_record ?a node)" using True inc by (simp add: spec_fold_def abs_record_def)
        ultimately show ?thesis by blast
      next
        case changed: False
        then have "recordNodeLineageSet c head ?w blended = (None, store_lineage c head node (node\<lparr>nl_set := s, nl_blended := ?b\<rparr>) a)"
          using node r False by (auto simp: recordNodeLineageSet_def Let_def)
        moreover obtain ext where e: "a = ?a @ ext" "set_ok a s"
            "view_of a s = spec_union (view_of ?a (nl_set node)) (view_of ?a ?w)" "keeps_header (nl_set node) s"
          using st by (auto simp: set_step_def)
        moreover have "?f (abs_record ?a node) = (None, abs_record (?a @ ext) (node\<lparr>nl_set := s, nl_blended := ?b\<rparr>))"
          using e(1,3) inc by (simp add: abs_record_def spec_fold_def)
        moreover have "nl_set (node\<lparr>nl_set := s, nl_blended := ?b\<rparr>) = s" by simp
        ultimately show ?thesis by metis
      qed
    qed
    then show ?thesis using Some at False empty by (simp add: abs_record_def)
  qed
qed

lemma rank_sim:
  assumes "lineages_ok c" "lineage_quiet c" "lineage_room c"
  shows "lineage_sim (lineage_cmd (SetRank head rank lineage) c) c (lineage_spec_cmd (SetRank head rank lineage) (abs_lineages c))"
  unfolding lineage_cmd.simps lineage_spec_cmd.simps
proof (rule at_node_sim [OF assms])
  fix node assume node: "nodeLineage c head = Some node"
  let ?a = "lc_alternativeSpillArena c" and ?f = "\<lambda>v. (None :: lineageError option, spec_rank rank lineage v)"
  have ok: "set_ok ?a (nl_set node)" using assms(1) abs_at(3) [OF node] by (simp add: lineages_ok_def)
  obtain r l where n: "next_rank (nl_rank node) (nl_lineage node) rank lineage = (r, l)" by fastforce
  show "(\<exists>err. recordNodeLineage c head rank lineage = (err, c) \<and> ?f (abs_record ?a node) = (err, abs_record ?a node))
    \<or> (\<exists>err r ext. recordNodeLineage c head rank lineage = (err, store_lineage c head node r (?a @ ext))
        \<and> set_ok (?a @ ext) (nl_set r) \<and> keeps_header (nl_set node) (nl_set r) \<and> ?f (abs_record ?a node) = (err, abs_record (?a @ ext) r))"
  proof (cases "rank = RankNotApplicable \<or> (nl_rank node = r \<and> nl_lineage node = l \<and> nl_converged node)")
    case True
    then have "recordNodeLineage c head rank lineage = (None, c)" using node n by (auto simp: recordNodeLineage_def)
    moreover have "?f (abs_record ?a node) = (None, abs_record ?a node)" using True n by (auto simp: spec_rank_def abs_record_def)
    ultimately show ?thesis by blast
  next
    case False
    then have "recordNodeLineage c head rank lineage =
        (None, store_lineage c head node (node\<lparr>nl_rank := r, nl_lineage := l, nl_converged := True\<rparr>) (?a @ []))"
      using node n by (auto simp: recordNodeLineage_def)
    moreover have "?f (abs_record ?a node) = (None, abs_record (?a @ []) (node\<lparr>nl_rank := r, nl_lineage := l, nl_converged := True\<rparr>))"
      using False n by (auto simp: spec_rank_def abs_record_def)
    moreover have "set_ok (?a @ []) (nl_set (node\<lparr>nl_rank := r, nl_lineage := l, nl_converged := True\<rparr>))"
      "keeps_header (nl_set node) (nl_set (node\<lparr>nl_rank := r, nl_lineage := l, nl_converged := True\<rparr>))"
      using ok keeps_header_refl by simp_all
    ultimately show ?thesis by blast
  qed
qed (simp add: recordNodeLineage_def)

lemma owner_sim:
  assumes "lineages_ok c" "lineage_quiet c" "lineage_room c"
  shows "lineage_sim (lineage_cmd (SetOwner head lineage) c) c (lineage_spec_cmd (SetOwner head lineage) (abs_lineages c))"
proof (cases "lineage = 0")
  case True
  then show ?thesis using sim_same [OF assms(1,2)] by (simp add: recordHeadOwner_def)
next
  case False
  have "lineage_sim (case recordHeadOwner c head lineage of (err, c) \<Rightarrow> ([err], c)) c
      (case at_node head (spec_owner lineage) (abs_lineages c) of (err, vs) \<Rightarrow> ([err], vs))"
  proof (rule at_node_sim [OF assms])
    fix node assume node: "nodeLineage c head = Some node"
    let ?a = "lc_alternativeSpillArena c"
    have ok: "set_ok ?a (nl_set node)" using assms(1) abs_at(3) [OF node] by (simp add: lineages_ok_def)
    show "(\<exists>err. recordHeadOwner c head lineage = (err, c) \<and> spec_owner lineage (abs_record ?a node) = (err, abs_record ?a node))
      \<or> (\<exists>err r ext. recordHeadOwner c head lineage = (err, store_lineage c head node r (?a @ ext))
          \<and> set_ok (?a @ ext) (nl_set r) \<and> keeps_header (nl_set node) (nl_set r)
          \<and> spec_owner lineage (abs_record ?a node) = (err, abs_record (?a @ ext) r))"
    proof (cases "nl_owner node = lineage \<or> nl_owner node \<noteq> 0")
      case True
      then show ?thesis using node False by (intro disjI1) (auto simp: recordHeadOwner_def spec_owner_def abs_record_def)
    next
      case new: False
      then have "recordHeadOwner c head lineage = (None, store_lineage c head node (node\<lparr>nl_owner := lineage\<rparr>) (?a @ []))"
        using node False by (auto simp: recordHeadOwner_def)
      moreover have "spec_owner lineage (abs_record ?a node) = (None, abs_record (?a @ []) (node\<lparr>nl_owner := lineage\<rparr>))"
        using new by (auto simp: spec_owner_def abs_record_def)
      moreover have "set_ok (?a @ []) (nl_set (node\<lparr>nl_owner := lineage\<rparr>))" "keeps_header (nl_set node) (nl_set (node\<lparr>nl_owner := lineage\<rparr>))"
        using ok keeps_header_refl by simp_all
      ultimately show ?thesis by blast
    qed
  qed (use False in \<open>simp add: recordHeadOwner_def\<close>)
  then show ?thesis using False by simp
qed

lemma no_members_ok: "set_ok arena no_members" "view_of arena no_members = ({}, False)"
proof -
  have "\<not> spilled no_members" "\<not> Overflowed no_members" by (simp_all add: spilled_def Overflowed_def no_members_def)
  moreover from this(1) have "members arena no_members = []" by (simp add: members_def alternativeSetMembers_def no_members_def)
  ultimately show "set_ok arena no_members" "view_of arena no_members = ({}, False)"
    by (simp_all add: set_ok_def view_of_def) (simp_all add: no_members_def alternativeSetInlineCapacity_def)
qed

lemma add_sim:
  assumes "lineages_ok c" "lineage_quiet c"
  shows "lineage_sim (lineage_cmd AddNode c) c (lineage_spec_cmd AddNode (abs_lineages c))"
proof -
  have "lineages_ok (addLineage c)" using assms(1) no_members_ok(1) by (auto simp: lineages_ok_def addLineage_def zero_lineage_def)
  moreover have "abs_lineages (addLineage c) = abs_lineages c @ [new_view]"
    using no_members_ok(2) by (simp add: abs_lineages_def addLineage_def abs_record_def zero_lineage_def new_view_def)
  moreover have u: "lineage_undoable c (addLineage c)"
    by (auto simp: lineage_undoable_def addLineage_def nth_append keeps_header_refl oldest_def intro!: exI [of _ "[]"])
  ultimately show ?thesis using lineage_undoable_quiet [OF u assms(2)] by (simp add: lineage_sim_def)
qed

lemma atomic_lineage_sim:
  assumes ok: "lineages_ok c" and q: "lineage_quiet c" and m: "mark_lineage c = Inr (m, c1)" and small: "length (lc_nodeLineages c) < 4294967296"
    and body: "lineage_sim (lineage_run body c1) c1 (lineage_spec_run body (abs_lineages c))"
  shows "lineage_sim (lineage_cmd (AtomicLineage body commits) c) c (lineage_spec_cmd (AtomicLineage body commits) (abs_lineages c))"
proof -
  obtain outs c2 where r: "lineage_run body c1 = (outs, c2)" by fastforce
  let ?rs = "lc_nodeLineages c" and ?a = "lc_alternativeSpillArena c" and ?t = "lc_nextTransaction c + 1"
  have mk: "m = \<lparr>kl_transaction = ?t, kl_nodeLineages = length ?rs, kl_alternativeSpillArena = length ?a, kl_nodeLineageJournal = length (lc_nodeLineageJournal c)\<rparr>"
    "c1 = c\<lparr>lc_nextTransaction := ?t, lc_transactions := lc_transactions c @ [?t]\<rparr>"
    using m by (auto simp: mark_lineage_def Let_def split: if_splits)
  have b: "lineages_ok c2" "lineage_undoable c1 c2" using body r by (auto simp: lineage_sim_def)
  obtain js ext where js: "lc_nodeLineageJournal c2 = lc_nodeLineageJournal c @ js" "lc_transactions c2 = lc_transactions c @ [?t]"
    "length ?rs \<le> length (lc_nodeLineages c2)" "lc_alternativeSpillArena c2 = ?a @ ext"
    "\<forall>i<length ?rs. oldest js i (lc_nodeLineages c2 ! i) = mutation_of (of_nat (Suc i)) (?rs ! i)"
    "\<forall>i<length ?rs. keeps_header (nl_set (?rs ! i)) (nl_set (lc_nodeLineages c2 ! i))"
    using b(2) mk(2) by (auto simp: lineage_undoable_def)
  show ?thesis
  proof (cases commits)
    case True
    have run: "lineage_cmd (AtomicLineage body commits) c = (outs @ [None], finish_lineage c2)"
      using True m r js(2) mk(1) by (simp add: complete_lineage_def commit_lineage_def)
    have "lineages_ok (finish_lineage c2)" "abs_lineages (finish_lineage c2) = abs_lineages c2"
      using b(1) by (simp_all add: lineages_ok_def abs_lineages_def finish_lineage_def Let_def)
    moreover have "lineage_undoable c (finish_lineage c2)" "lineage_quiet (finish_lineage c2)"
      using js q by (auto simp: lineage_undoable_def finish_lineage_def Let_def lineage_quiet_def)
    ultimately show ?thesis using run body r True by (auto simp: lineage_sim_def split: prod.splits)
  next
    case False
    let ?new = "undo_lineages js (take (length ?rs) (lc_nodeLineages c2))"
    let ?c = "finish_lineage (c2\<lparr>lc_nodeLineages := ?new, lc_alternativeSpillArena := ?a, lc_nodeLineageJournal := lc_nodeLineageJournal c\<rparr>)"
    have run: "lineage_cmd (AtomicLineage body commits) c = (outs @ [Some LineageOperationFailed], ?c)"
      using False m r js(1,2,4) mk(1) by (simp add: complete_lineage_def restore_lineage_def)
    have len: "length (take (length ?rs) (lc_nodeLineages c2)) = length ?rs" using js(3) by simp
    have rec: "abs_record ?a (?new ! i) = abs_record ?a (?rs ! i) \<and> set_ok ?a (nl_set (?new ! i))
        \<and> keeps_header (nl_set (?rs ! i)) (nl_set (?new ! i)) \<and> mutation_of (of_nat (Suc i)) (?new ! i) = mutation_of (of_nat (Suc i)) (?rs ! i)"
      if i: "i < length ?rs" for i
    proof -
      let ?r = "lc_nodeLineages c2 ! i"
      have "?new ! i = put_mutation (oldest js i ?r) ?r"
        using undo_lineages_nth [of i "take (length ?rs) (lc_nodeLineages c2)" js] i len small by simp
      also have "\<dots> = put_mutation (mutation_of (of_nat (Suc i)) (?rs ! i)) ?r" using js(5) i by simp
      finally have n: "?new ! i = put_mutation (mutation_of (of_nat (Suc i)) (?rs ! i)) ?r" .
      have "set_ok ?a (nl_set (?rs ! i))" using ok i by (simp add: lineages_ok_def)
      moreover have "?r \<in> set (lc_nodeLineages c2)" using i js(3) by simp
      then have "length (as_inline (nl_set ?r)) = 1" using b(1) by (simp add: lineages_ok_def set_ok_def)
      ultimately show ?thesis unfolding n using js(6) i by (intro restored_record) simp_all
    qed
    have nl: "length ?new = length ?rs" using len by simp
    have f: "lc_nodeLineages ?c = ?new" "lc_alternativeSpillArena ?c = ?a" "lc_transactions ?c = lc_transactions c"
      "lc_nodeLineageJournal ?c = (if lc_transactions c = [] then [] else lc_nodeLineageJournal c)"
      using js(2) by (simp_all add: finish_lineage_def Let_def)
    have "lineages_ok ?c" unfolding lineages_ok_def f using rec nl by (auto simp: in_set_conv_nth)
    moreover have "abs_lineages ?c = abs_lineages c" unfolding abs_lineages_def f using rec nl by (intro nth_equalityI) simp_all
    moreover have "oldest [] i (?new ! i) = mutation_of (of_nat (Suc i)) (?rs ! i)" if "i < length ?rs" for i
      using rec [OF that] by (simp add: oldest_def)
    then have "lineage_undoable c ?c" unfolding lineage_undoable_def f using rec nl q by (auto simp: lineage_quiet_def intro!: exI [of _ "[]"])
    moreover have "lineage_quiet ?c" unfolding lineage_quiet_def f by simp
    ultimately show ?thesis using run body r False by (auto simp: lineage_sim_def split: prod.splits)
  qed
qed

lemma lineage_run_sim:
  shows "lineages_ok c \<Longrightarrow> lineage_quiet c \<Longrightarrow> lineage_room c \<Longrightarrow> lineage_calm_cmd x c \<Longrightarrow>
      lineage_sim (lineage_cmd x c) c (lineage_spec_cmd x (abs_lineages c))"
    and "lineages_ok c \<Longrightarrow> lineage_quiet c \<Longrightarrow> lineage_calm xs c \<Longrightarrow> lineage_sim (lineage_run xs c) c (lineage_spec_run xs (abs_lineages c))"
proof (induction x c and xs c rule: lineage_cmd_lineage_run.induct)
  case (1 c)
  then show ?case by (intro add_sim)
next
  case (2 head event branch c)
  then show ?case by (intro member_sim)
next
  case (3 head src blended c)
  then show ?case by (intro fold_sim)
next
  case (4 head rank lineage c)
  then show ?case by (intro rank_sim)
next
  case (5 head lineage c)
  then show ?case by (intro owner_sim)
next
  case (6 body ok c)
  obtain m c1 where m: "mark_lineage c = Inr (m, c1)" and cl: "lineage_calm body c1" using 6(5) by (auto split: sum.splits)
  have c1: "lineages_ok c1" "lineage_quiet c1" "abs_lineages c1 = abs_lineages c"
    using 6(2) m by (auto simp: mark_lineage_def Let_def lineages_ok_def lineage_quiet_def abs_lineages_def split: if_splits)
  have "lineage_sim (lineage_run body c1) c1 (lineage_spec_run body (abs_lineages c))"
    using 6(1) [OF m refl c1(1,2) cl] c1(3) by simp
  moreover have "length (lc_nodeLineages c) < 4294967296" using 6(4) by (simp add: lineage_room_nat)
  ultimately show ?case by (intro atomic_lineage_sim [OF 6(2,3) m])
next
  case (7 c)
  then show ?case by (simp add: sim_same)
next
  case (8 x xs c)
  obtain outs c1 where r: "lineage_cmd x c = (outs, c1)" by fastforce
  have s: "lineage_sim (outs, c1) c (lineage_spec_cmd x (abs_lineages c))" using 8(1) [OF 8(3,4)] 8(5) r by simp
  then have c1: "lineages_ok c1" "lineage_quiet c1" "lineage_undoable c c1" by (auto simp: lineage_sim_def)
  have "lineage_sim (lineage_run xs c1) c1 (lineage_spec_run xs (abs_lineages c1))"
    using 8(2) [OF r [symmetric] c1(1,2)] 8(5) r by simp
  then show ?case using s r lineage_undoable_trans [OF c1(3)] by (auto simp: lineage_sim_def split: prod.splits)
qed

definition new_lineage_core :: lineageCore where
  "new_lineage_core = \<lparr>lc_nodeLineages = [], lc_alternativeSpillArena = [], lc_nodeLineageJournal = [], lc_transactions = [], lc_nextTransaction = 0\<rparr>"

text \<open>
  C4. Lineage records with alternative sets. Take any program that adds nodes, records members, folds
  the set of one node into another, records ranks and owners, and nests such programs in operations that
  commit or roll back, in which no counter overflows. Every call returns what the specification gives;
  and afterwards the set of every node reads as the sorted members of the specification's own set for
  that node, with the overflow mark exactly when a member beyond the cap of 32 was refused or inherited,
  and the blended mark, rank, lineage and owner are the specification's. Sharing of the spill arena, the
  value copies of sets and the header-only journal never show.
\<close>

theorem lineage_transactions:
  assumes "lineage_calm program new_lineage_core"
  defines "r \<equiv> lineage_run program new_lineage_core" and "a \<equiv> lineage_spec_run program []"
  shows "fst r = fst a
    \<and> map (\<lambda>n. (alternativeSetMembers (lc_alternativeSpillArena (snd r)) (nl_set n), Overflowed (nl_set n), nl_blended n, nl_rank n, nl_lineage n, nl_owner n))
          (lc_nodeLineages (snd r))
      = map (\<lambda>v. (Some (sorted_list_of_set (fst (lv_set v))), snd (lv_set v), lv_blended v, lv_rank v, lv_lineage v, lv_owner v)) (snd a)"
proof -
  have "lineage_sim r new_lineage_core a"
    using lineage_run_sim(2) [OF _ _ assms(1)] by (simp add: r_def a_def lineages_ok_def lineage_quiet_def new_lineage_core_def abs_lineages_def)
  then have s: "fst r = fst a" "lineages_ok (snd r)" "abs_lineages (snd r) = snd a" by (auto simp: lineage_sim_def)
  let ?a = "lc_alternativeSpillArena (snd r)"
  have "alternativeSetMembers ?a (nl_set n) = Some (sorted_list_of_set (fst (view_of ?a (nl_set n))))" if "n \<in> set (lc_nodeLineages (snd r))" for n
  proof -
    have ok: "set_ok ?a (nl_set n)" using s(2) that by (simp add: lineages_ok_def)
    then have "sorted_list_of_set (set (members ?a (nl_set n))) = members ?a (nl_set n)"
      by (simp add: set_ok_def strict_sorted_iff sorted_list_of_set.idem_if_sorted_distinct)
    then show ?thesis using set_ok_members(1) [OF ok] by (simp add: view_of_def)
  qed
  then show ?thesis using s(1) unfolding s(3) [symmetric] abs_lineages_def by (simp add: abs_record_def view_of_def)
qed

definition demo_lineages :: "lineageCommand list" where
  "demo_lineages =
     [AddNode, AddNode, AddMember 1 2 0, AddMember 1 2 1, FoldSet 2 1 False,
      AtomicLineage [AddMember 2 1 0, AddNode, FoldSet 1 2 False, SetOwner 1 7] False,
      AtomicLineage [AddMember 2 3 0, AddMember 1 4 0, FoldSet 1 2 False, SetRank 2 RankSelected 3] True]"

theorem lineage_transactions_witness:
  "lineage_calm demo_lineages new_lineage_core
   \<and> (let c = snd (lineage_run demo_lineages new_lineage_core) in
      map (\<lambda>n. alternativeSetMembers (lc_alternativeSpillArena c) (nl_set n)) (lc_nodeLineages c)
        = [Some [131072, 131073, 196608, 262144], Some [131072, 131073, 196608]]
      \<and> map nl_blended (lc_nodeLineages c) = [True, False] \<and> map nl_owner (lc_nodeLineages c) = [0, 0])"
proof -
  have c: "lineage_calm demo_lineages new_lineage_core" by code_simp
  let ?r = "snd (lineage_run demo_lineages new_lineage_core)"
  have "map (\<lambda>v. (Some (sorted_list_of_set (fst (lv_set v))), snd (lv_set v), lv_blended v, lv_rank v, lv_lineage v, lv_owner v))
      (snd (lineage_spec_run demo_lineages [])) =
    [(Some [131072, 131073, 196608, 262144], False, True, RankNotApplicable, 0, 0), (Some [131072, 131073, 196608], False, False, RankSelected, 3, 0)]"
    by code_simp
  then have m: "map (\<lambda>n. (alternativeSetMembers (lc_alternativeSpillArena ?r) (nl_set n), Overflowed (nl_set n), nl_blended n, nl_rank n, nl_lineage n, nl_owner n))
      (lc_nodeLineages ?r) =
    [(Some [131072, 131073, 196608, 262144], False, True, RankNotApplicable, 0, 0), (Some [131072, 131073, 196608], False, False, RankSelected, 3, 0)]"
    using lineage_transactions [OF c] by simp
  from arg_cong [OF m, of "map fst"] arg_cong [OF m, of "map (\<lambda>x. fst (snd (snd x)))"] arg_cong [OF m, of "map (\<lambda>x. snd (snd (snd (snd (snd x)))))"]
  show ?thesis using c by (simp add: o_def)
qed

end
