(* ===== verification/Spec2Isabelle.thy ===== *)
theory Spec2Isabelle
  imports Syntax_Index Lexer_Next Utf16_Source_Map Scanner_Checkpoints Checkpoint_Interner Recovery_Tables Edit_Ranges Glr_Stack Tree_Cursor Tree_Edit Graph_Builders Alternative_Sets
begin

text \<open>
  A verification development of \<^verbatim>\<open>go-treesitter\<close>, a Go port of the tree-sitter parsing runtime with a
  small public API. All paths below are relative to \<^verbatim>\<open>src/\<close>; \<^verbatim>\<open>runtime\<close> stands for
  \<^verbatim>\<open>internal/runtime\<close> and \<^verbatim>\<open>core\<close> for \<^verbatim>\<open>internal/runtime/internal/parsercorephase0\<close>.

  \<^bold>\<open>The program.\<close> A parse reads a source text, possibly restricted to included ranges and possibly given
  as UTF-16. A token source built on a table-driven lexer (\<^verbatim>\<open>runtime/lexer.go\<close>,
  \<^verbatim>\<open>runtime/parser_dfa_token_source.go\<close>) produces tokens and records which bytes every attempt
  examined, so that a later incremental parse knows what an edit may have changed
  (\<^verbatim>\<open>runtime/internal/incr\<close>). External scanners keep a serialized state; the states before and after a
  token are recorded as checkpoints (\<^verbatim>\<open>runtime/external_scanner_checkpoints.go\<close>). The GLR parser looks
  actions up in compressed tables (\<^verbatim>\<open>runtime/parser_tables.go\<close>) and tables derived from them, and keeps
  its stack versions in a graph of shared nodes (\<^verbatim>\<open>runtime/glr_gss.go\<close>, \<^verbatim>\<open>runtime/glr.go\<close>). A newer parser
  core (\<^verbatim>\<open>core\<close>) keeps the same information in append-only arenas with transactions. The result is a tree
  of nodes with queries, a cursor, a walk and edits (\<^verbatim>\<open>runtime/tree.go\<close>, \<^verbatim>\<open>runtime/cursor.go\<close>), a
  rewriter of its source (\<^verbatim>\<open>runtime/rewrite.go\<close>), and the snapshot with its index that the public API
  returns (\<^verbatim>\<open>syntax/\<close>).

  \<^bold>\<open>Conventions.\<close> Go's unsigned integers are words of their width, so arithmetic wraps as in Go; an index
  into a slice is a natural number; a struct is a record and a tagged constant a datatype with the
  names of the source. A returned error, a panic and an early return are values of an option or sum
  type. Mutable storage that several objects share (arenas, slabs, backing arrays) is explicit: nodes,
  snapshots and slots are addressed by the index or identity the code uses. Code that reports
  statistics, debug output and performance counters is left out everywhere.
\<close>

text \<open>
  \<^bold>\<open>Text, tokens and lexing.\<close>
  \<^item> \<open>Go_Prelude\<close>: machine types, \<^verbatim>\<open>sort.Search\<close>, points, shared list and word lemmas.
  \<^item> \<open>Utf8_Codec\<close>: the functions of Go's \<^verbatim>\<open>unicode/utf8\<close> and \<^verbatim>\<open>unicode/utf16\<close> the sources call.
  \<^item> \<open>Source_Tokens\<close>: ranges, tokens, their flags, and points advanced over bytes.
  \<^item> \<open>Utf16_Source_Map\<close> (\<^verbatim>\<open>runtime/utf16.go\<close>): decoding, the source map and its conversions. Offsets convert
    back and forth exactly on the code-point boundaries.
  \<^item> \<open>Included_Ranges\<close> (\<^verbatim>\<open>runtime/included_ranges.go\<close>): normalisation of ranges and the token source that
    filters another one. The normal form covers the same bytes; a filtered token overlaps the current
    range; a seeking filter returns from every state exactly when its source cannot answer the start of a
    range with an empty token forever.
  \<^item> \<open>Incremental_Reads\<close> (\<^verbatim>\<open>runtime/internal/incr/lookahead.go\<close>): recorded reads, their sealed form and the
    cursor over it. A sealed history gives the exact farthest read before a boundary.
  \<^item> \<open>Dfa_Lexer\<close>, \<open>Included_Lexer\<close>, \<open>Lexer_Next\<close> (\<^verbatim>\<open>runtime/lexer.go\<close>, \<^verbatim>\<open>runtime/lexer_included_ranges.go\<close> and
    the lex tables of \<^verbatim>\<open>runtime/language.go\<close>): the transition tables, a scan over contiguous text and over
    ranges, error runs and the token loop. The ASCII table is exact, a token lies where its span says,
    bytes in gaps have no influence beyond the lookahead frontier, the loop returns without included ranges,
    and it does not return when every range lies inside a leading byte order mark.
  \<^item> \<open>Keyword_Lexer\<close> (\<^verbatim>\<open>runtime/parser_dfa_token_source.go\<close>, \<^verbatim>\<open>runtime/language.go\<close>): the keyword DFA and the
    prefilter derived from it.

  \<^bold>\<open>Tables.\<close>
  \<^item> \<open>Parse_Tables\<close> (\<^verbatim>\<open>runtime/parser_tables.go\<close>): action and goto lookup, the derived rows, enumeration and
    external-symbol masks. The derived rows answer as the compressed table.
  \<^item> \<open>Reduce_Tables\<close> (\<^verbatim>\<open>runtime/parser_reduce.go\<close>, \<^verbatim>\<open>runtime/parser_default_reduce.go\<close>): classified actions,
    default reduces, reduce-chain hints, alias and field tables.
  \<^item> \<open>Recovery_Tables\<close> (\<^verbatim>\<open>runtime/parser_recovery.go\<close>): keyword states, recover lookups, the keyword gate and
    the reserved words of \<^verbatim>\<open>promoteKeyword\<close>.

  \<^bold>\<open>Scanner states.\<close>
  \<^item> \<open>Scanner_State_Set\<close> (\<^verbatim>\<open>runtime/internal/scannerstate/set.go\<close>): a chunked ordered map; it refines a finite
    map, keeps its chunk invariant and counts its bytes exactly.
  \<^item> \<open>Scanner_Checkpoints\<close> (\<^verbatim>\<open>runtime/external_scanner_checkpoints.go\<close>, \<^verbatim>\<open>runtime/arena.go\<close>): snapshots in
    shared byte slabs and the sidecar of references; recorded states are read back byte for byte.
  \<^item> \<open>Checkpoint_Interner\<close> (\<^verbatim>\<open>core/checkpoint_interner.go\<close>): identities are equal exactly for equal states.
\<close>

text \<open>
  \<^bold>\<open>Stacks.\<close>
  \<^item> \<open>Gss_Graph\<close> (\<^verbatim>\<open>runtime/glr_gss.go\<close>): node slabs, memoised hashes and paths.
  \<^item> \<open>Glr_Stack\<close> (\<^verbatim>\<open>runtime/glr.go\<close>, the demotion of \<^verbatim>\<open>runtime/parser.go\<close>): stack versions as slices, graph paths or
    both. Any run of operations leaves every version the list the same operations leave.
  \<^item> \<open>Compact_Graph\<close> (\<^verbatim>\<open>core/core.go\<close>, \<^verbatim>\<open>core/reused_subtree.go\<close>): the graph of the compact core and the
    enumeration of the windows a reduction pops, with its shortcut for unbranched stacks.
  \<^item> \<open>Compact_Derivations\<close> (\<^verbatim>\<open>core/core.go\<close>, \<^verbatim>\<open>core/sole_derivation_summary.go\<close>): the derivations of a head, and
    \<^verbatim>\<open>SoleDerivation\<close>, whose memoised summary agrees with the full enumeration on every graph, as the
    shortcut for single paths agrees with the walk over all links.
  \<^item> \<open>Boundary_Index\<close> (\<^verbatim>\<open>core/boundary_index.go\<close>, the transactions of \<^verbatim>\<open>core/core.go\<close>): the map from parser
    boundaries to nodes, rolled back from a journal of slots.
  \<^item> \<open>Graph_Builders\<close> (\<^verbatim>\<open>core/core.go\<close>, \<^verbatim>\<open>core/link_provenance.go\<close>): the publication of nodes, links and subtrees,
    on the graph and the boundary index together. Every graph built this way is well formed, its path counts
    are exact up to saturation, and its derivations are the paths to a seed; this discharges the conditions of
    the enumeration of windows.
  \<^item> \<open>Alternative_Sets\<close> (\<^verbatim>\<open>core/core.go\<close>, \<^verbatim>\<open>core/scheduler_owned.go\<close>): capped sets in a shared arena and the
    lineage records, rolled back from a journal of headers.

  \<^bold>\<open>Trees.\<close>
  \<^item> \<open>Rewriter\<close> (\<^verbatim>\<open>runtime/rewrite.go\<close>): which edits are accepted, and that the returned edits replay to the new
    source with exact points.
  \<^item> \<open>Edit_Ranges\<close> (\<^verbatim>\<open>runtime/tree.go\<close>): edited positions, edited included ranges and changed ranges.
  \<^item> \<open>Tree_Nodes\<close> (\<^verbatim>\<open>runtime/tree.go\<close>, \<^verbatim>\<open>runtime/walk.go\<close>): node queries, descendant lookups and the walk.
  \<^item> \<open>Tree_Cursor\<close> (\<^verbatim>\<open>runtime/cursor.go\<close>): the cursor refines moves of a path of child indices.
  \<^item> \<open>Tree_Edit\<close> (\<^verbatim>\<open>runtime/tree.go\<close>, \<^verbatim>\<open>runtime/missing_node_dependency.go\<close>, \<^verbatim>\<open>runtime/incremental.go\<close>): the
    edit walks; an unmarked node keeps its text, for one edit and, in trees without records of missing
    leaves, for all the edits of a rewriter.
  \<^item> \<open>Syntax_Index\<close> (\<^verbatim>\<open>syntax/index.go\<close>, \<^verbatim>\<open>syntax/result.go\<close>): validation of a snapshot and the augmented interval
    search, which finds the deepest node at an offset.

  \<^bold>\<open>Interfaces.\<close> The locales are \<open>gapped_ranges\<close> (what the lexer needs of normalised ranges),
  \<open>keyed_store\<close> (a map with last-write-wins updates), \<open>byte_interner\<close> (identities for byte strings),
  \<open>bounded_simulation\<close> (steps that follow an abstract machine below a limit) and \<open>position_order\<close> (the
  two orders of descendant lookups). Each is interpreted on the definitions of the component that
  provides it.
\<close>

text \<open>
  \<^bold>\<open>Parameters.\<close> Code outside the repository, and hash functions on whose values nothing depends, are
  arguments: the base token source of the included-range filter, with the documented behaviour of
  \<^verbatim>\<open>SkipToByte\<close> (a token at or after the offset) as a hypothesis; the
  capacity the Go allocator gives a grown slice, with the documented lower bound; the seeded hash and
  the digest of the interner and of the boundary index; the hash of a stack entry. The callback of a tree
  walk is an arbitrary state transformer.

  \<^bold>\<open>Loops.\<close> A loop that may run forever is a partial function whose value \<open>None\<close> means that it does not
  return: \<open>filterToken_loop\<close>, \<open>skipToByte_loop\<close>, \<open>error_run_loop\<close>, \<open>next_loop\<close> and \<open>chain_walk\<close>. For each
  there is a lemma that it returns under the conditions the callers establish, and for the filter and the
  token loop also a lemma that it does not without them. Every other loop is total: scans and conversions
  by the distance to the end of the text, graph walks by the identity of the node, which falls along every
  link of a published graph (the code tests this and returns an error otherwise), walks of stack paths by
  the depth field of their first node, probes of the boundary index by the length of its array, searches
  through lex states by the set of states not yet visited, the enumeration of derivations by the nodes it is
  not visiting. The memoised summary of derivations carries fuel, one more than the number of nodes, and the
  property of \<^verbatim>\<open>SoleDerivation\<close> shows that it never runs out.

  \<^bold>\<open>Conditions of the properties.\<close> Those that mention an edit of a tree ask for spans that nest and are
  ordered and for offsets below the word limit; a hollow subtree, each of
  whose nodes is marked or empty, is exempt from the span order, since it says nothing about the text; the
  property of a rewriter leaves out trees with recorded missing leaves, which move by their dependency and may
  come to lie outside their parents. Those that mention the
  transactions of the compact core ask that generation and rank counters do not wrap within the run; for
  the boundary index the lemma \<open>wrapped_generation_lost\<close> shows that a wrap does lose entries. The stack
  versions are bounded by the depth a word can hold. Those about the compact graph ask that the sums of scores
  along a path stay in the 64-bit range, beyond which the code returns an error, and that rebuilt adjacencies
  are given links with existing payloads, which their callers take from published nodes.

  \<^bold>\<open>Not modelled.\<close>
  \<^item> The parse loops: \<^verbatim>\<open>runtime/parser.go\<close> beyond its tables and the demotion, merging and culling in
    \<^verbatim>\<open>runtime/glr.go\<close> and \<^verbatim>\<open>runtime/glr_forest.go\<close>, and \<^verbatim>\<open>runtime/parsercore_phase0_driver.go\<close>. They thread the
    token source, the scanner, the arenas and the stacks through one loop with budgets and timers.
  \<^item> In the compact core: condensation into an existing boundary and merging, the scheduler frames, drop cohorts, the selected store,
    recovery costs and materialisation.
  \<^item> Error recovery on the stacks (\<^verbatim>\<open>runtime/parser_recover_c.go\<close>) and the application of reductions
    (\<^verbatim>\<open>runtime/parser_reduce.go\<close> beyond its tables).
  \<^item> Reuse of old subtrees (\<^verbatim>\<open>runtime/incremental_leaf_fastpath.go\<close>, \<^verbatim>\<open>runtime/parser_incremental_support.go\<close>), and in
    \<open>Tree_Edit\<close> the lane for compact child references.
  \<^item> The corrections of results for single languages (\<^verbatim>\<open>runtime/parser_result_*.go\<close>), the grammars and their
    hand-written scanners, which are tables and code per language.
  \<^item> Queries, highlighting, tags, injections and the facts extracted from trees; language loading; adapters,
    tools and generated code.
\<close>

end
